(* ===== verification/Prelude.thy ===== *)
theory Prelude
  imports Main "HOL-Library.Word" "HOL-Library.List_Lexorder" "HOL-Library.Sublist"
begin

unbundle bit_operations_syntax

text \<open>
  Shared vocabulary of the development.

  \<^item> Machine integers are words of their C++ width: \<open>byte\<close> (\<open>uint8_t\<close>), \<open>u16\<close>, \<open>u32\<close>,
    \<open>u64\<close>. A \<open>size_t\<close> that is the length of, or an index into, a buffer in memory is a
    \<open>nat\<close>; a \<open>size_t\<close> computed from bytes on disk stays a \<open>u64\<close> so that it wraps as the
    code's does.
  \<^item> \<open>snii::Status\<close> (\<open>src/core/include/snii/common/status.h\<close>) is an error value: \<open>'a result\<close>
    is \<open>Inr\<close> of the output parameters, or \<open>Inl\<close> of a failure. Only the status code is kept,
    since no control flow of the library reads the message.
  \<^item> \<open>OutOfBounds\<close> is the failure the C++ does not report: the access that
    \<open>Slice::operator[]\<close> and \<open>Slice::subslice\<close> only \<open>assert\<close> about (undefined behaviour in a
    release build). Proving that a parser never returns it is proving memory safety.
  \<^item> \<open>Exception\<close> is a C++ exception that leaves the function (\<open>std::overflow_error\<close> of the posting pool).
  \<^item> \<open>SNII_RETURN_IF_ERROR(e)\<close> is \<open>and_then e\<close>.
  Output pointers are results of the function, so the guards that reject a null output
  pointer have no counterpart in the model.
\<close>

type_synonym byte = "8 word"
type_synonym u16 = "16 word"
type_synonym u32 = "32 word"
type_synonym u64 = "64 word"

text \<open>\<open>std::string\<close> and \<open>std::string_view\<close> compare as sequences of unsigned bytes, which is
  the lexicographic order of \<open>HOL-Library.List_Lexorder\<close> on byte lists.\<close>

type_synonym term_bytes = "byte list"

named_theorems codec_simps \<open>what a reader returns on the bytes its writer produced\<close>
named_theorems put_simps \<open>what a writer appends to its sink\<close>

subsection \<open>Status codes and results\<close>

datatype status_code =
  kOk | kCorruption | kNotFound | kInvalidArgument | kIoError | kUnsupported | kInternal

datatype failure = Status status_code | OutOfBounds | Exception

type_synonym 'a result = "failure + 'a"

abbreviation Corruption :: "'a result" where
  "Corruption \<equiv> Inl (Status kCorruption)"

abbreviation NotFound :: "'a result" where
  "NotFound \<equiv> Inl (Status kNotFound)"

abbreviation InvalidArgument :: "'a result" where
  "InvalidArgument \<equiv> Inl (Status kInvalidArgument)"

abbreviation IoError :: "'a result" where
  "IoError \<equiv> Inl (Status kIoError)"

abbreviation Unsupported :: "'a result" where
  "Unsupported \<equiv> Inl (Status kUnsupported)"

abbreviation Internal :: "'a result" where
  "Internal \<equiv> Inl (Status kInternal)"

definition and_then :: "'a result \<Rightarrow> ('a \<Rightarrow> 'b result) \<Rightarrow> 'b result" where
  "and_then r f = (case r of Inl e \<Rightarrow> Inl e | Inr x \<Rightarrow> f x)"

lemma and_then_Inl [simp]: "and_then (Inl e) f = Inl e"
  by (simp add: and_then_def)

lemma and_then_Inr [simp]: "and_then (Inr x) f = f x"
  by (simp add: and_then_def)

lemma and_then_eq_Inr [simp]:
  "(and_then r f = Inr y) = (\<exists>x. r = Inr x \<and> f x = Inr y)"
  by (simp add: and_then_def split: sum.splits)

lemma and_then_eq_Inl:
  "(and_then r f = Inl e) = (r = Inl e \<or> (\<exists>x. r = Inr x \<and> f x = Inl e))"
  by (auto simp: and_then_def split: sum.splits)

lemma and_then_cong [fundef_cong]:
  assumes "r = r'" and "\<And>x. r' = Inr x \<Longrightarrow> f x = g x"
  shows "and_then r f = and_then r' g"
  using assms by (auto simp: and_then_def split: sum.splits)

lemma and_then_assoc: "and_then (and_then r f) g = and_then r (\<lambda>x. and_then (f x) g)"
  by (simp add: and_then_def split: sum.splits)

subsection \<open>Slices\<close>

text \<open>\<open>Slice::subslice\<close>: a view of \<open>n\<close> elements from \<open>off\<close>; out of range is the
  assertion. Reading a range of a vector element by element is the same view.\<close>

definition subslice :: "'a list \<Rightarrow> nat \<Rightarrow> nat \<Rightarrow> 'a list result" where
  "subslice s off n = (if off + n \<le> length s then Inr (take n (drop off s)) else Inl OutOfBounds)"

lemma subslice_ok [simp]:
  "off + n \<le> length s \<Longrightarrow> subslice s off n = Inr (take n (drop off s))"
  by (simp add: subslice_def)

lemma subslice_Inr:
  "(subslice s off n = Inr t) = (off + n \<le> length s \<and> t = take n (drop off s))"
  by (auto simp: subslice_def)

lemma subslice_length: "subslice s off n = Inr t \<Longrightarrow> length t = n"
  by (auto simp: subslice_Inr)

subsection \<open>Lists\<close>

lemma prefix_append_self [simp]: "prefix xs (xs @ ys)"
  by (simp add: prefix_def)

lemma nth_append_drop: "n \<le> i \<Longrightarrow> i < length xs \<Longrightarrow> drop n xs ! (i - n) = xs ! i"
  by simp

lemma take_length_append [simp]: "take (length xs) (xs @ ys) = xs"
  by simp

lemma drop_eq_imp_nth: "drop n xs = y # ys \<Longrightarrow> n < length xs \<and> xs ! n = y"
  by (metis drop_all hd_drop_conv_nth linorder_not_less list.distinct(1) list.sel(1))

subsection \<open>Words\<close>

lemma unat_u32_less: "unat (x :: u32) < 4294967296"
  using unsigned_less [of x] by simp

lemma unat_u64_less: "unat (x :: u64) < 18446744073709551616"
  using unsigned_less [of x] by simp

lemma unat_of_nat_u32 [simp]: "n < 4294967296 \<Longrightarrow> unat (of_nat n :: u32) = n"
  by (simp add: unat_of_nat take_bit_nat_eq_self)

lemma unat_of_nat_u64 [simp]: "n < 18446744073709551616 \<Longrightarrow> unat (of_nat n :: u64) = n"
  by (simp add: unat_of_nat take_bit_nat_eq_self)

lemma unat_ucast_u32_u64 [simp]: "unat (ucast (x :: u32) :: u64) = unat x"
  by (simp add: unsigned_ucast_eq take_bit_nat_eq_self order_less_trans [OF unat_u32_less])

lemma unat_drop_bit: "unat (drop_bit n x) = unat (x :: 'a :: len word) div 2 ^ n"
  by (subst unsigned_drop_bit_eq) (simp add: drop_bit_eq_div take_bit_nat_eq_self)

lemma mask_literals:
  "(0x7F :: byte) = mask 7" "(0x7F :: u64) = mask 7" "(0xFF :: u32) = mask 8"
  "(0xFFFF :: u32) = mask 16"
  by (simp_all add: mask_eq_exp_minus_1)

lemma unat_and_0xFF: "unat (c AND 0xFF :: u32) < 256"
  using and_mask_less' [of 8 c] unfolding mask_literals by (simp add: word_less_nat_alt)

lemma xor_left_cancel: "(a XOR b = a XOR c) = (b = (c :: 'a :: len word))"
  by (metis xor.assoc xor.left_neutral xor_self_eq)

lemma bit_128_int [simp]: "bit (128 :: int) n = (n = 7)"
proof -
  have "(128 :: int) = push_bit 7 1" by simp
  then show ?thesis by (simp only: bit_push_bit_iff) (auto simp: bit_simps)
qed

end
