(* ===== verification/Double.thy ===== *)
theory Double
  imports Complex_Main Prelude
begin

text \<open>
  \<open>double\<close> values as the bloom filter's sizing uses them: the numbers, the two infinities and the value that is not
  a number, with the comparisons and the conversion to \<open>uint32_t\<close> of the language. A comparison with a value that is
  not a number is false. A conversion of a value outside the range of the type is undefined behaviour, \<open>OutOfBounds\<close>.
\<close>

datatype double = Not_A_Number | Minus_Infinity | Num real | Plus_Infinity

fun double_less :: "double \<Rightarrow> double \<Rightarrow> bool" where
  "double_less (Num x) (Num y) = (x < y)"
| "double_less Minus_Infinity (Num y) = True"
| "double_less Minus_Infinity Plus_Infinity = True"
| "double_less (Num x) Plus_Infinity = True"
| "double_less _ _ = False"

definition double_to_u32 :: "double \<Rightarrow> u32 result" where
  "double_to_u32 d =
     (case d of
        Num m \<Rightarrow> if 0 \<le> m \<and> m < 2 ^ 32 then Inr (word_of_int \<lfloor>m\<rfloor>)
                 else if - 1 < m \<and> m < 0 then Inr 0
                 else Inl OutOfBounds
      | _ \<Rightarrow> Inl OutOfBounds)"

text \<open>What is documented of \<open>std::pow\<close> and \<open>std::log\<close> for a rate between zero and one: the root lies in the same
  interval, so the logarithm is of a number that is not negative, and the quotient is a number or infinite.\<close>

definition sizing_ok :: "(u32 \<Rightarrow> double \<Rightarrow> double) \<Rightarrow> bool" where
  "sizing_ok bits = (\<forall>ndv fpp. 0 < ndv \<and> 0 < fpp \<and> fpp < 1 \<longrightarrow> bits ndv (Num fpp) \<noteq> Not_A_Number)"

end
