(* ===== verification/Varint.thy ===== *)
theory Varint
  imports Prelude
begin

text \<open>
  LEB128 integers and zigzag: \<open>src/core/src/encoding/varint.cpp\<close> and
  \<open>src/core/include/snii/encoding/varint.h\<close>.

  The encoder writes into a caller's array and returns the count; here it returns the bytes.
  The decoder works on the bytes of \<open>[p, end)\<close> and returns the value with the bytes from
  \<open>*next\<close> on.
\<close>

subsection \<open>Encoding and decoding\<close>

lemma unat_drop_bit_less: "x \<noteq> 0 \<Longrightarrow> unat (drop_bit 7 x) < unat (x :: u64)"
  by (simp only: unat_drop_bit unat_gt_0) (simp add: unat_gt_0 div_less_dividend)

lemma ge_0x80_nonzero: "0x80 \<le> (v :: u64) \<Longrightarrow> v \<noteq> 0"
  by auto

function varint_len :: "u64 \<Rightarrow> nat" where
  "varint_len v = (if v \<ge> 0x80 then 1 + varint_len (drop_bit 7 v) else 1)"
  by pat_completeness auto
termination
  by (relation "measure unat") (auto intro: unat_drop_bit_less ge_0x80_nonzero)

function encode_varint64 :: "u64 \<Rightarrow> byte list" where
  "encode_varint64 v =
     (if v \<ge> 0x80 then (ucast v OR 0x80) # encode_varint64 (drop_bit 7 v) else [ucast v])"
  by pat_completeness auto
termination
  by (relation "measure unat") (auto intro: unat_drop_bit_less ge_0x80_nonzero)

declare varint_len.simps [simp del]
declare encode_varint64.simps [simp del]

definition encode_varint32 :: "u32 \<Rightarrow> byte list" where
  "encode_varint32 v = encode_varint64 (ucast v)"

fun decode_varint64_loop :: "byte list \<Rightarrow> u64 \<Rightarrow> nat \<Rightarrow> (u64 \<times> byte list) result" where
  "decode_varint64_loop [] result shift = Corruption"
| "decode_varint64_loop (b # p) result shift =
     (let result' = result OR push_bit shift (ucast (b AND 0x7F)) in
      if b AND 0x80 = 0 then Inr (result', p)
      else if shift + 7 \<ge> 64 then Corruption
      else decode_varint64_loop p result' (shift + 7))"

definition decode_varint64 :: "byte list \<Rightarrow> (u64 \<times> byte list) result" where
  "decode_varint64 p = decode_varint64_loop p 0 0"

definition decode_varint32 :: "byte list \<Rightarrow> (u32 \<times> byte list) result" where
  "decode_varint32 p =
     and_then (decode_varint64 p) (\<lambda>(tmp, nxt).
       if tmp > 0xFFFFFFFF then Corruption else Inr (ucast tmp, nxt))"

text \<open>\<open>int64_t\<close> as a 64-bit word: the arithmetic shift \<open>v >> 63\<close> is \<open>signed_drop_bit 63\<close>.\<close>

definition zigzag_encode :: "u64 \<Rightarrow> u64" where
  "zigzag_encode v = push_bit 1 v XOR signed_drop_bit 63 v"

definition zigzag_decode :: "u64 \<Rightarrow> u64" where
  "zigzag_decode v = drop_bit 1 v XOR (- (v AND 1))"

subsection \<open>The encoder's shape\<close>

lemma varint_len_encode: "length (encode_varint64 v) = varint_len v"
  by (induction v rule: encode_varint64.induct)
    (simp add: encode_varint64.simps varint_len.simps)

lemma encode_varint64_nonempty [simp]: "encode_varint64 v \<noteq> []"
  by (subst encode_varint64.simps) simp

lemma encode_varint64_pos [simp]: "0 < length (encode_varint64 v)"
  by simp

lemma drop_bit_less_pow:
  "unat (v :: u64) < 2 ^ (7 + k) \<Longrightarrow> unat (drop_bit 7 v) < 2 ^ k"
  by (simp only: unat_drop_bit) (simp add: power_add less_mult_imp_div_less mult.commute)

lemma small_less_0x80: "unat (v :: u64) < 128 \<Longrightarrow> \<not> 0x80 \<le> v"
  by (simp add: word_le_nat_alt)

lemma varint_len_bound: "unat v < 2 ^ (7 * n) \<Longrightarrow> 0 < n \<Longrightarrow> varint_len v \<le> n"
proof (induction n arbitrary: v)
  case (Suc n)
  show ?case
  proof (cases "0x80 \<le> v")
    case True
    have "0 < n"
      using Suc.prems True small_less_0x80 [of v] by (cases n) auto
    moreover have "unat (drop_bit 7 v) < 2 ^ (7 * n)"
      using Suc.prems by (intro drop_bit_less_pow) simp
    ultimately have "varint_len (drop_bit 7 v) \<le> n"
      using Suc.IH by blast
    with True show ?thesis by (subst varint_len.simps) simp
  next
    case False
    then show ?thesis by (subst varint_len.simps) simp
  qed
qed simp

lemma varint_len_le_10: "varint_len v \<le> 10"
proof (rule varint_len_bound)
  show "unat v < 2 ^ (7 * 10)"
    using unat_u64_less [of v] by simp
qed simp

lemma varint64_len_le_10: "length (encode_varint64 v) \<le> 10"
  using varint_len_le_10 [of v] by (simp add: varint_len_encode)

lemma varint32_len_le_5: "length (encode_varint32 v) \<le> 5"
proof -
  have "varint_len (ucast v) \<le> 5"
  proof (rule varint_len_bound)
    show "unat (ucast v :: u64) < 2 ^ (7 * 5)"
      using unat_u32_less [of v] by simp
  qed simp
  then show ?thesis by (simp add: encode_varint32_def varint_len_encode)
qed

subsection \<open>Round trip\<close>

lemma continuation_bits:
  "ucast ((ucast (v :: u64) OR 0x80 :: byte) AND 0x7F) = v AND 0x7F"
  "(ucast v OR 0x80 :: byte) AND 0x80 \<noteq> 0"
proof -
  show "ucast ((ucast v OR 0x80 :: byte) AND 0x7F) = v AND 0x7F"
    unfolding mask_literals by (rule bit_word_eqI) (auto simp: bit_simps)
  have "bit ((ucast v OR 0x80 :: byte) AND 0x80) 7"
    by (simp add: bit_simps)
  then show "(ucast v OR 0x80 :: byte) AND 0x80 \<noteq> 0" by auto
qed

lemma final_byte:
  assumes "\<not> 0x80 \<le> (v :: u64)"
  shows "ucast (ucast v AND 0x7F :: byte) = v" and "(ucast v :: byte) AND 0x80 = 0"
proof -
  from assms have v: "take_bit 7 v = v"
    using less_mask_eq [of v 7] by (simp add: take_bit_eq_mask)
  show "ucast (ucast v AND 0x7F :: byte) = v"
    unfolding mask_literals by (subst v [symmetric], rule bit_word_eqI) (auto simp: bit_simps)
  show "(ucast v :: byte) AND 0x80 = 0"
    unfolding mask_literals by (subst v [symmetric], rule bit_word_eqI) (auto simp: bit_simps)
qed

lemma split_low_7: "push_bit s (v AND 0x7F) OR push_bit (s + 7) (drop_bit 7 v) = push_bit s (v :: u64)"
  unfolding mask_literals
proof (rule bit_word_eqI)
  fix n
  show "bit (push_bit s (v AND mask 7) OR push_bit (s + 7) (drop_bit 7 v)) n = bit (push_bit s v) n"
    by (cases "s + 7 \<le> n") (auto simp: bit_simps)
qed

lemma decode_varint64_loop_encode:
  "shift < 64 \<Longrightarrow> unat v < 2 ^ (64 - shift) \<Longrightarrow>
   decode_varint64_loop (encode_varint64 v @ r) result shift = Inr (result OR push_bit shift v, r)"
proof (induction v arbitrary: shift result rule: encode_varint64.induct)
  case (1 v)
  show ?case
  proof (cases "0x80 \<le> v")
    case True
    have "\<not> 64 - shift \<le> 7"
    proof
      assume "64 - shift \<le> 7"
      then have "(2 :: nat) ^ (64 - shift) \<le> 2 ^ 7" by (rule power_increasing) simp
      with 1(3) True small_less_0x80 [of v] show False by simp
    qed
    then have s: "shift + 7 < 64" and p: "64 - shift = 7 + (64 - (shift + 7))" by auto
    have "unat (drop_bit 7 v) < 2 ^ (64 - (shift + 7))"
      by (rule drop_bit_less_pow) (use 1(3) in \<open>simp only: p [symmetric]\<close>)
    with 1(1) [OF True s, of "result OR push_bit shift (v AND 0x7F)"] True s
    show ?thesis
      by (subst encode_varint64.simps)
        (simp add: continuation_bits Let_def or.assoc split_low_7 del: push_bit_and)
  next
    case False
    then show ?thesis
      by (subst encode_varint64.simps) (simp add: final_byte)
  qed
qed

lemma decode_encode_varint64: "decode_varint64 (encode_varint64 v @ r) = Inr (v, r)"
  unfolding decode_varint64_def
  by (subst decode_varint64_loop_encode) (use unat_u64_less [of v] in auto)

lemma decode_encode_varint32: "decode_varint32 (encode_varint32 v @ r) = Inr (v, r)"
proof -
  have "\<not> 0xFFFFFFFF < (ucast v :: u64)"
    using unat_u32_less [of v] by (simp add: word_less_nat_alt)
  moreover have "ucast (ucast v :: u64) = v"
    by (rule bit_word_eqI) (auto simp: bit_simps)
  ultimately show ?thesis
    by (simp add: decode_varint32_def encode_varint32_def decode_encode_varint64)
qed

lemma zigzag_decode_encode: "zigzag_decode (zigzag_encode v) = v"
proof -
  have "signed_drop_bit 63 v = (if bit v 63 then - 1 else 0)"
  proof (rule bit_word_eqI)
    fix n assume "n < LENGTH(64)"
    then show "bit (signed_drop_bit 63 v) n = bit (if bit v 63 then - 1 else (0 :: u64)) n"
      by (cases n) (auto simp: bit_simps bit_minus_1_iff)
  qed
  moreover have "(push_bit 1 v XOR m) AND 1 = m AND 1" for m :: u64
    by (rule bit_word_eqI) (auto simp: bit_simps bit_0)
  moreover have "drop_bit 1 (push_bit 1 v) XOR drop_bit 1 (- 1) XOR - 1 = v" if "bit v 63"
  proof (rule bit_word_eqI)
    fix n assume "n < LENGTH(64)"
    with that show "bit (drop_bit 1 (push_bit 1 v) XOR drop_bit 1 (- 1) XOR - 1) n = bit v n"
      by (cases "n = 63") (auto simp: bit_simps simp del: push_bit_Suc)
  qed
  moreover have "drop_bit 1 (push_bit 1 v) = v" if "\<not> bit v 63"
  proof (rule bit_word_eqI)
    fix n assume "n < LENGTH(64)"
    with that show "bit (drop_bit 1 (push_bit 1 v)) n = bit v n"
      by (cases "n = 63") (auto simp: bit_simps simp del: push_bit_Suc)
  qed
  ultimately show ?thesis
    by (simp add: zigzag_decode_def zigzag_encode_def drop_bit_xor)
qed

subsection \<open>The decoder on arbitrary bytes\<close>

text \<open>The decoder consumes between one and ten bytes and returns the rest of its input.\<close>

lemma decode_varint64_loop_suffix:
  "decode_varint64_loop p result shift = Inr (v, nxt) \<Longrightarrow> \<exists>used. p = used @ nxt \<and> used \<noteq> []"
proof (induction p arbitrary: result shift)
  case (Cons b p)
  define result' where "result' = result OR push_bit shift (ucast (b AND 0x7F))"
  show ?case
  proof (cases "b AND 0x80 = 0")
    case True
    with Cons.prems show ?thesis by (auto intro: exI [of _ "[b]"])
  next
    case False
    with Cons.prems have "decode_varint64_loop p result' (shift + 7) = Inr (v, nxt)"
      by (simp add: Let_def result'_def split: if_splits)
    from Cons.IH [OF this] show ?thesis by (metis append_Cons list.distinct(1))
  qed
qed simp

lemma decode_varint64_suffix:
  "decode_varint64 p = Inr (v, nxt) \<Longrightarrow> \<exists>used. p = used @ nxt \<and> used \<noteq> []"
  unfolding decode_varint64_def by (rule decode_varint64_loop_suffix)

lemma decode_varint64_loop_error:
  "decode_varint64_loop p result shift = Inl e \<Longrightarrow> e = Status kCorruption"
  by (induction p result shift rule: decode_varint64_loop.induct)
    (auto simp: Let_def split: if_splits)

lemma decode_varint64_error: "decode_varint64 p = Inl e \<Longrightarrow> e = Status kCorruption"
  unfolding decode_varint64_def by (rule decode_varint64_loop_error)

subsection \<open>Correctness\<close>

text \<open>Every 64-bit value, 32-bit value and signed value reads back from its variable-length
  encoding whatever bytes follow it, and the encoding has the length \<open>varint_len\<close> announces, at
  most ten bytes.\<close>

lemma varint_roundtrip:
  "decode_varint64 (encode_varint64 v @ r) = Inr (v, r) \<and>
   length (encode_varint64 v) = varint_len v \<and> varint_len v \<le> 10 \<and>
   decode_varint32 (encode_varint32 w @ r) = Inr (w, r) \<and>
   zigzag_decode (zigzag_encode z) = z"
  by (simp add: decode_encode_varint64 decode_encode_varint32 varint_len_encode varint_len_le_10
      zigzag_decode_encode)

end
