(* ===== verification/Byte_Stream.thy ===== *)
theory Byte_Stream
  imports Varint
begin

text \<open>
  The byte cursors every section is written and read through:
  \<open>ByteSink\<close> (\<open>src/core/src/encoding/byte_sink.cpp\<close>) and \<open>ByteSource\<close>
  (\<open>src/core/src/encoding/byte_source.cpp\<close>), and the two interfaces the format modules use
  them by: \<open>cursor_op\<close>, a read operation that moves the cursor inside its slice and never
  reads outside it, and \<open>codec\<close>, a read operation together with the write operation it inverts.
\<close>

subsection \<open>ByteSink\<close>

text \<open>The state of a \<open>ByteSink\<close> is its buffer \<open>buf_\<close>; every operation appends.\<close>

type_synonym byte_sink = "byte list"

definition put_u8 :: "byte \<Rightarrow> byte_sink \<Rightarrow> byte_sink" where
  "put_u8 v sink = sink @ [v]"

definition le_bytes :: "nat \<Rightarrow> 'a :: len word \<Rightarrow> byte list" where
  "le_bytes n v = map (\<lambda>i. ucast (drop_bit (8 * i) v)) [0..<n]"

definition put_fixed16 :: "u16 \<Rightarrow> byte_sink \<Rightarrow> byte_sink" where
  "put_fixed16 v sink = sink @ le_bytes 2 v"

definition put_fixed32 :: "u32 \<Rightarrow> byte_sink \<Rightarrow> byte_sink" where
  "put_fixed32 v sink = sink @ le_bytes 4 v"

definition put_fixed64 :: "u64 \<Rightarrow> byte_sink \<Rightarrow> byte_sink" where
  "put_fixed64 v sink = sink @ le_bytes 8 v"

definition put_varint32 :: "u32 \<Rightarrow> byte_sink \<Rightarrow> byte_sink" where
  "put_varint32 v sink = sink @ encode_varint32 v"

definition put_varint64 :: "u64 \<Rightarrow> byte_sink \<Rightarrow> byte_sink" where
  "put_varint64 v sink = sink @ encode_varint64 v"

definition put_zigzag :: "u64 \<Rightarrow> byte_sink \<Rightarrow> byte_sink" where
  "put_zigzag v sink = put_varint64 (zigzag_encode v) sink"

definition put_bytes :: "byte list \<Rightarrow> byte_sink \<Rightarrow> byte_sink" where
  "put_bytes s sink = sink @ s"

lemmas sink_defs [put_simps] =
  put_u8_def put_fixed16_def put_fixed32_def put_fixed64_def put_varint32_def put_varint64_def
  put_zigzag_def put_bytes_def

lemma length_le_bytes [simp]: "length (le_bytes n v) = n"
  by (simp add: le_bytes_def)

subsection \<open>ByteSource\<close>

record byte_source =
  src_bytes :: "byte list"
  src_pos :: nat

definition source :: "byte list \<Rightarrow> byte_source" where
  "source s = \<lparr>src_bytes = s, src_pos = 0\<rparr>"

definition remaining :: "byte_source \<Rightarrow> nat" where
  "remaining src = length (src_bytes src) - src_pos src"

definition eof :: "byte_source \<Rightarrow> bool" where
  "eof src = (src_pos src = length (src_bytes src))"

definition slice_from :: "byte_source \<Rightarrow> nat \<Rightarrow> nat \<Rightarrow> byte list result" where
  "slice_from src start len = subslice (src_bytes src) start len"

definition advance :: "nat \<Rightarrow> byte_source \<Rightarrow> byte_source" where
  "advance n src = src\<lparr>src_pos := src_pos src + n\<rparr>"

text \<open>The loop \<open>for (i < n) r |= s_[pos_ + i] << (8 * i)\<close> of the fixed-width readers.\<close>

definition load_le :: "nat \<Rightarrow> byte list \<Rightarrow> nat \<Rightarrow> 'a :: len word" where
  "load_le n s pos = foldl (\<lambda>r i. r OR push_bit (8 * i) (ucast (s ! (pos + i)))) 0 [0..<n]"

definition get_u8 :: "byte_source \<Rightarrow> (byte \<times> byte_source) result" where
  "get_u8 src =
     (if remaining src < 1 then Corruption
      else Inr (src_bytes src ! src_pos src, advance 1 src))"

definition get_fixed16 :: "byte_source \<Rightarrow> (u16 \<times> byte_source) result" where
  "get_fixed16 src =
     (if remaining src < 2 then Corruption
      else Inr (load_le 2 (src_bytes src) (src_pos src), advance 2 src))"

definition get_fixed32 :: "byte_source \<Rightarrow> (u32 \<times> byte_source) result" where
  "get_fixed32 src =
     (if remaining src < 4 then Corruption
      else Inr (load_le 4 (src_bytes src) (src_pos src), advance 4 src))"

definition get_fixed64 :: "byte_source \<Rightarrow> (u64 \<times> byte_source) result" where
  "get_fixed64 src =
     (if remaining src < 8 then Corruption
      else Inr (load_le 8 (src_bytes src) (src_pos src), advance 8 src))"

definition get_varint64 :: "byte_source \<Rightarrow> (u64 \<times> byte_source) result" where
  "get_varint64 src =
     and_then (decode_varint64 (drop (src_pos src) (src_bytes src))) (\<lambda>(v, nxt).
       Inr (v, src\<lparr>src_pos := length (src_bytes src) - length nxt\<rparr>))"

definition get_varint32 :: "byte_source \<Rightarrow> (u32 \<times> byte_source) result" where
  "get_varint32 src =
     and_then (get_varint64 src) (\<lambda>(tmp, src).
       if tmp > 0xFFFFFFFF then Corruption else Inr (ucast tmp, src))"

definition get_zigzag :: "byte_source \<Rightarrow> (u64 \<times> byte_source) result" where
  "get_zigzag src = and_then (get_varint64 src) (\<lambda>(tmp, src). Inr (zigzag_decode tmp, src))"

definition get_bytes :: "nat \<Rightarrow> byte_source \<Rightarrow> (byte list \<times> byte_source) result" where
  "get_bytes n src =
     (if remaining src < n then Corruption
      else and_then (subslice (src_bytes src) (src_pos src) n) (\<lambda>out. Inr (out, advance n src)))"

subsection \<open>The cursor\<close>

definition wf_source :: "byte_source \<Rightarrow> bool" where
  "wf_source src = (src_pos src \<le> length (src_bytes src))"

definition rest :: "byte_source \<Rightarrow> byte list" where
  "rest src = drop (src_pos src) (src_bytes src)"

lemma wf_source_source [simp]: "wf_source (source s)"
  by (simp add: wf_source_def source_def)

lemma rest_source [simp]: "rest (source s) = s"
  by (simp add: rest_def source_def)

lemma src_bytes_source [simp]: "src_bytes (source s) = s"
  by (simp add: source_def)

lemma src_pos_source [simp]: "src_pos (source s) = 0"
  by (simp add: source_def)

lemma rest_advance [simp]: "rest (advance n src) = drop n (rest src)"
  by (simp add: rest_def advance_def add.commute)

lemma src_bytes_advance [simp]: "src_bytes (advance n src) = src_bytes src"
  by (simp add: advance_def)

lemma src_pos_advance [simp]: "src_pos (advance n src) = src_pos src + n"
  by (simp add: advance_def)

lemma advance_advance [simp]: "advance m (advance n src) = advance (n + m) src"
  by (simp add: advance_def add.assoc)

lemma advance_0 [simp]: "advance 0 src = src"
  by (simp add: advance_def)

lemma remaining_rest: "remaining src = length (rest src)"
  by (simp add: remaining_def rest_def)

lemma eof_rest: "wf_source src \<Longrightarrow> eof src = (rest src = [])"
  by (auto simp: eof_def rest_def wf_source_def)

lemma wf_advance: "wf_source src \<Longrightarrow> n \<le> remaining src \<Longrightarrow> wf_source (advance n src)"
  by (simp add: wf_source_def remaining_def advance_def)

lemma wf_advance_rest [simp]: "wf_source src \<Longrightarrow> n \<le> length (rest src) \<Longrightarrow> wf_source (advance n src)"
  by (simp add: wf_advance remaining_rest)

lemma wf_if_rest: "rest src \<noteq> [] \<Longrightarrow> wf_source src"
  by (auto simp: rest_def wf_source_def)

lemma rest_append_wf: "rest src = xs @ ys \<Longrightarrow> wf_source src \<Longrightarrow> wf_source (advance (length xs) src)"
  by (rule wf_advance) (simp_all add: remaining_rest)

text \<open>Reading the covered region of a section back: \<open>slice_from(start, position() - start)\<close>.\<close>

lemma slice_from_rest:
  "prefix xs (rest src) \<Longrightarrow> wf_source src \<Longrightarrow>
   slice_from (advance n src) (src_pos src) (length xs) = Inr xs"
  by (auto simp: slice_from_def subslice_def rest_def wf_source_def prefix_def
      dest: arg_cong [where f = length])

subsection \<open>Interfaces: read operations and codecs\<close>

text \<open>
  \<open>cursor_ok src r\<close>: the outcome \<open>r\<close> of a read at \<open>src\<close> is a reported failure, or a value with
  the cursor moved forward inside the slice. It composes along \<open>and_then\<close>
  (\<open>cursor_bind\<close>), so that a reader is checked by splitting its text.
\<close>

definition cursor_ok :: "byte_source \<Rightarrow> ('a \<times> byte_source) result \<Rightarrow> bool" where
  "cursor_ok src r =
     (case r of Inl e \<Rightarrow> e \<noteq> OutOfBounds
      | Inr (v, src') \<Rightarrow> (\<exists>n \<le> remaining src. src' = advance n src))"

lemma cursor_ok_Inl [simp]: "cursor_ok src (Inl e) = (e \<noteq> OutOfBounds)"
  by (simp add: cursor_ok_def)

lemma cursor_ok_stay [simp]: "cursor_ok src (Inr (v, src))"
  by (auto simp: cursor_ok_def intro: exI [of _ 0])

lemma cursor_ok_advance: "n \<le> remaining src \<Longrightarrow> cursor_ok src (Inr (v, advance n src))"
  by (auto simp: cursor_ok_def)

lemma cursor_bind:
  assumes wf: "wf_source src" and r: "cursor_ok src r"
    and f: "\<And>v src'. \<lbrakk>r = Inr (v, src'); wf_source src'; src_bytes src' = src_bytes src;
        src_pos src \<le> src_pos src'\<rbrakk> \<Longrightarrow> cursor_ok src' (f (v, src'))"
  shows "cursor_ok src (and_then r f)"
proof (cases r)
  case (Inl e)
  with r show ?thesis by simp
next
  case (Inr p)
  then obtain v src' where p: "r = Inr (v, src')" by (cases p) auto
  with r obtain n where n: "n \<le> remaining src" "src' = advance n src"
    by (auto simp: cursor_ok_def)
  with wf have "cursor_ok src' (f (v, src'))"
    by (intro f) (auto simp: p wf_advance)
  then show ?thesis
  proof (cases "f (v, src')")
    case (Inr q)
    with \<open>cursor_ok src' (f (v, src'))\<close> obtain w m where
      m: "f (v, src') = Inr (w, advance m src')" "m \<le> remaining src'"
      by (cases q) (auto simp: cursor_ok_def)
    from m(2) n have "n + m \<le> remaining src" by (simp add: remaining_rest)
    with m n p show ?thesis by (simp add: cursor_ok_advance)
  qed (use p in simp)
qed

lemma plain_bind:
  "r \<noteq> Inl OutOfBounds \<Longrightarrow> (\<And>v. r = Inr v \<Longrightarrow> cursor_ok src (f v)) \<Longrightarrow> cursor_ok src (and_then r f)"
  by (cases r) auto

lemma slice_bind:
  "start + n \<le> length (src_bytes s) \<Longrightarrow>
   cursor_ok src (f (take n (drop start (src_bytes s)))) \<Longrightarrow>
   cursor_ok src (and_then (slice_from s start n) f)"
  by (simp add: slice_from_def)

lemma subslice_bind:
  "start + n \<le> length block \<Longrightarrow> cursor_ok src (f (take n (drop start block))) \<Longrightarrow>
   cursor_ok src (and_then (subslice block start n) f)"
  by simp

locale cursor_op =
  fixes get :: "byte_source \<Rightarrow> ('a \<times> byte_source) result"
  assumes ok: "wf_source src \<Longrightarrow> cursor_ok src (get src)"
begin

lemma moves: "wf_source src \<Longrightarrow> get src = Inr (v, src') \<Longrightarrow> \<exists>n \<le> remaining src. src' = advance n src"
  using ok [of src] by (simp add: cursor_ok_def)

lemma safe: "wf_source src \<Longrightarrow> get src \<noteq> Inl OutOfBounds"
  using ok [of src] by (auto simp: cursor_ok_def)

lemma wf_after: "wf_source src \<Longrightarrow> get src = Inr (v, src') \<Longrightarrow> wf_source src'"
  using moves wf_advance by blast

lemma bytes_after: "wf_source src \<Longrightarrow> get src = Inr (v, src') \<Longrightarrow> src_bytes src' = src_bytes src"
  using moves by fastforce

lemma remaining_after: "wf_source src \<Longrightarrow> get src = Inr (v, src') \<Longrightarrow> remaining src' \<le> remaining src"
  using moves [of src v src'] by (auto simp: remaining_rest)

end

locale codec = cursor_op get for get :: "byte_source \<Rightarrow> ('a \<times> byte_source) result" +
  fixes put :: "'a \<Rightarrow> byte_sink \<Rightarrow> byte_sink"
    and enc :: "'a \<Rightarrow> byte list"
    and valid :: "'a \<Rightarrow> bool"
  assumes put_enc: "put x sink = sink @ enc x"
    and get_enc: "valid x \<Longrightarrow> prefix (enc x) (rest src) \<Longrightarrow>
      get src = Inr (x, advance (length (enc x)) src)"

text \<open>The \<open>for (i < n) { decode; push_back }\<close> loop of the directories.\<close>

fun get_n :: "(byte_source \<Rightarrow> ('a \<times> byte_source) result) \<Rightarrow> nat \<Rightarrow> byte_source \<Rightarrow>
    ('a list \<times> byte_source) result" where
  "get_n get 0 src = Inr ([], src)"
| "get_n get (Suc n) src =
     and_then (get src) (\<lambda>(x, src). and_then (get_n get n src) (\<lambda>(xs, src). Inr (x # xs, src)))"

context cursor_op
begin

lemma get_n_ok: "wf_source src \<Longrightarrow> cursor_ok src (get_n get n src)"
  by (induction n arbitrary: src) (auto intro!: cursor_bind ok)

lemma get_n_safe: "wf_source src \<Longrightarrow> get_n get n src \<noteq> Inl OutOfBounds"
  using get_n_ok [of src n] by (auto simp: cursor_ok_def)

lemma get_n_length: "get_n get n src = Inr (xs, src') \<Longrightarrow> length xs = n"
  by (induction n arbitrary: src xs src') auto

end

context codec
begin

lemma get_n_enc:
  "list_all valid xs \<Longrightarrow> prefix (concat (map enc xs)) (rest src) \<Longrightarrow>
   get_n get (length xs) src = Inr (xs, advance (length (concat (map enc xs))) src)"
proof (induction xs arbitrary: src)
  case (Cons x xs)
  from Cons.prems(2) obtain r where r: "rest src = enc x @ concat (map enc xs) @ r"
    by (auto simp: prefix_def)
  with Cons.prems(1) have "get src = Inr (x, advance (length (enc x)) src)"
    by (intro get_enc) auto
  moreover from r Cons have "get_n get (length xs) (advance (length (enc x)) src) =
      Inr (xs, advance (length (concat (map enc xs))) (advance (length (enc x)) src))"
    by (intro Cons.IH) auto
  ultimately show ?case by simp
qed simp

lemma fold_put: "fold put xs sink = sink @ concat (map enc xs)"
  by (induction xs arbitrary: sink) (auto simp: put_enc)

end

subsection \<open>The primitive codecs\<close>

lemma load_le_Suc:
  "load_le (Suc n) s pos = load_le n s pos OR push_bit (8 * n) (ucast (s ! (pos + n)))"
  by (simp add: load_le_def)

lemma bit_load_le:
  "bit (load_le n s pos :: 'a :: len word) k =
     (k < LENGTH('a) \<and> k < 8 * n \<and> bit (s ! (pos + k div 8)) (k mod 8))"
proof (induction n)
  case 0
  show ?case by (simp add: load_le_def)
next
  case (Suc n)
  show ?case
  proof (cases "8 * n \<le> k \<and> k < 8 * Suc n")
    case True
    then have d: "k div 8 = n" by auto
    then have "k mod 8 = k - 8 * n" by (metis minus_mult_div_eq_mod)
    note d this
    with True Suc show ?thesis
      by (auto simp: load_le_Suc bit_simps)
  next
    case False
    with Suc show ?thesis
      by (auto simp: load_le_Suc bit_simps dest: bit_imp_le_length)
  qed
qed

lemma load_le_bytes:
  assumes n: "LENGTH('a) = 8 * n" and p: "prefix (le_bytes n v) (drop pos s)"
  shows "load_le n s pos = (v :: 'a :: len word)"
proof (rule bit_word_eqI)
  fix k assume k: "k < LENGTH('a)"
  from p obtain r where r: "drop pos s = le_bytes n v @ r" by (auto simp: prefix_def)
  have i: "k div 8 < n" using k n by auto
  have "s ! (pos + k div 8) = drop pos s ! (k div 8)"
    using arg_cong [OF r, of length] i by simp
  also have "\<dots> = ucast (drop_bit (8 * (k div 8)) v)"
    using i by (simp add: r nth_append) (simp add: le_bytes_def)
  finally show "bit (load_le n s pos :: 'a word) k = bit v k"
    using k n by (simp add: bit_load_le bit_simps)
qed

lemma le_bytes_load:
  assumes n: "LENGTH('a) = 8 * n" and len: "pos + n \<le> length s"
  shows "le_bytes n (load_le n s pos :: 'a :: len word) = take n (drop pos s)"
proof (rule nth_equalityI)
  fix i assume "i < length (le_bytes n (load_le n s pos :: 'a word))"
  then have i: "i < n" by simp
  have "le_bytes n (load_le n s pos :: 'a word) ! i = s ! (pos + i)"
  proof (rule bit_word_eqI)
    fix k assume k: "k < LENGTH(8)"
    have "(8 * i + k) div 8 = i" and "(8 * i + k) mod 8 = k" using k by auto
    with i k n show "bit (le_bytes n (load_le n s pos :: 'a word) ! i) k = bit (s ! (pos + i)) k"
      by (auto simp: le_bytes_def bit_simps bit_load_le)
  qed
  with i len show "le_bytes n (load_le n s pos :: 'a word) ! i = take n (drop pos s) ! i" by simp
qed (use len in simp)

lemma prefix_drop_length: "prefix xs (drop pos s) \<Longrightarrow> length xs \<le> length s - pos"
  using prefix_length_le by fastforce

lemma get_u8_enc: "prefix [v] (rest src) \<Longrightarrow> get_u8 src = Inr (v, advance 1 src)"
  by (auto simp: get_u8_def remaining_rest prefix_def rest_def dest: drop_eq_imp_nth)

lemma get_varint64_enc:
  assumes "prefix (encode_varint64 v) (rest src)"
  shows "get_varint64 src = Inr (v, advance (length (encode_varint64 v)) src)"
proof -
  from assms obtain r where r: "drop (src_pos src) (src_bytes src) = encode_varint64 v @ r"
    by (auto simp: prefix_def rest_def)
  have pos: "src_pos src \<le> length (src_bytes src)"
    using r encode_varint64_nonempty [of v] by (metis append_is_Nil_conv drop_all nat_le_linear)
  have "length (src_bytes src) - length r = src_pos src + length (encode_varint64 v)"
    using arg_cong [OF r, of length] pos by simp
  then show ?thesis
    by (simp add: get_varint64_def r decode_encode_varint64 advance_def)
qed

lemma get_varint64_moves:
  assumes "wf_source src" and "get_varint64 src = Inr (v, src')"
  shows "\<exists>n \<le> remaining src. src' = advance n src \<and> 0 < n"
proof -
  from assms(2) obtain nxt where
    d: "decode_varint64 (drop (src_pos src) (src_bytes src)) = Inr (v, nxt)" and
    s: "src' = src\<lparr>src_pos := length (src_bytes src) - length nxt\<rparr>"
    by (auto simp: get_varint64_def)
  from decode_varint64_suffix [OF d] obtain used where
    u: "drop (src_pos src) (src_bytes src) = used @ nxt" "used \<noteq> []" by blast
  have "length (src_bytes src) - length nxt = src_pos src + length used"
    using arg_cong [OF u(1), of length] assms(1) by (simp add: wf_source_def)
  moreover have "length used \<le> remaining src"
    using arg_cong [OF u(1), of length] by (simp add: remaining_def)
  ultimately show ?thesis
    using s u(2) by (auto simp: advance_def intro!: exI [of _ "length used"])
qed

lemma get_varint64_error: "get_varint64 src = Inl e \<Longrightarrow> e = Status kCorruption"
  by (auto simp: get_varint64_def and_then_eq_Inl dest: decode_varint64_error)

interpretation u8: codec get_u8 put_u8 "\<lambda>v. [v]" "\<lambda>_. True"
proof unfold_locales
  fix x src assume "prefix [x] (rest src)"
  from get_u8_enc [OF this] show "get_u8 src = Inr (x, advance (length [x]) src)" by simp
qed (auto simp: get_u8_def put_u8_def intro!: cursor_ok_advance)

interpretation fixed16: codec get_fixed16 put_fixed16 "le_bytes 2" "\<lambda>_. True"
proof unfold_locales
  fix x :: u16 and src assume p: "prefix (le_bytes 2 x) (rest src)"
  with prefix_drop_length [of "le_bytes 2 x" "src_pos src" "src_bytes src"]
    load_le_bytes [of 2 x "src_pos src" "src_bytes src"]
  show "get_fixed16 src = Inr (x, advance (length (le_bytes 2 x)) src)"
    by (auto simp: get_fixed16_def remaining_def rest_def)
qed (auto simp: get_fixed16_def put_fixed16_def intro!: cursor_ok_advance)

interpretation fixed32: codec get_fixed32 put_fixed32 "le_bytes 4" "\<lambda>_. True"
proof unfold_locales
  fix x :: u32 and src assume p: "prefix (le_bytes 4 x) (rest src)"
  with prefix_drop_length [of "le_bytes 4 x" "src_pos src" "src_bytes src"]
    load_le_bytes [of 4 x "src_pos src" "src_bytes src"]
  show "get_fixed32 src = Inr (x, advance (length (le_bytes 4 x)) src)"
    by (auto simp: get_fixed32_def remaining_def rest_def)
qed (auto simp: get_fixed32_def put_fixed32_def intro!: cursor_ok_advance)

interpretation fixed64: codec get_fixed64 put_fixed64 "le_bytes 8" "\<lambda>_. True"
proof unfold_locales
  fix x :: u64 and src assume p: "prefix (le_bytes 8 x) (rest src)"
  with prefix_drop_length [of "le_bytes 8 x" "src_pos src" "src_bytes src"]
    load_le_bytes [of 8 x "src_pos src" "src_bytes src"]
  show "get_fixed64 src = Inr (x, advance (length (le_bytes 8 x)) src)"
    by (auto simp: get_fixed64_def remaining_def rest_def)
qed (auto simp: get_fixed64_def put_fixed64_def intro!: cursor_ok_advance)

interpretation varint64: codec get_varint64 put_varint64 encode_varint64 "\<lambda>_. True"
proof unfold_locales
  fix src assume "wf_source src"
  then show "cursor_ok src (get_varint64 src)"
    by (cases "get_varint64 src")
      (auto simp: cursor_ok_def dest: get_varint64_error get_varint64_moves)
qed (auto simp: put_varint64_def get_varint64_enc)

lemma get_varint32_enc:
  "prefix (encode_varint32 v) (rest src) \<Longrightarrow>
   get_varint32 src = Inr (v, advance (length (encode_varint32 v)) src)"
proof -
  assume "prefix (encode_varint32 v) (rest src)"
  moreover have "\<not> 0xFFFFFFFF < (ucast v :: u64)"
    using unat_u32_less [of v] by (simp add: word_less_nat_alt)
  moreover have "ucast (ucast v :: u64) = v"
    by (rule bit_word_eqI) (auto simp: bit_simps)
  ultimately show ?thesis
    by (simp add: get_varint32_def encode_varint32_def get_varint64_enc)
qed

interpretation varint32: codec get_varint32 put_varint32 encode_varint32 "\<lambda>_. True"
proof unfold_locales
  fix src assume "wf_source src"
  then show "cursor_ok src (get_varint32 src)"
    unfolding get_varint32_def by (auto intro!: cursor_bind varint64.ok)
next
  fix x src assume "prefix (encode_varint32 x) (rest src)"
  then show "get_varint32 src = Inr (x, advance (length (encode_varint32 x)) src)"
    by (rule get_varint32_enc)
qed (auto simp: put_varint32_def)

interpretation zigzag: codec get_zigzag put_zigzag "\<lambda>v. encode_varint64 (zigzag_encode v)" "\<lambda>_. True"
proof unfold_locales
  fix src assume "wf_source src"
  then show "cursor_ok src (get_zigzag src)"
    unfolding get_zigzag_def by (auto intro!: cursor_bind varint64.ok)
qed (auto simp: get_zigzag_def put_zigzag_def put_varint64_def get_varint64_enc zigzag_decode_encode)

lemma get_bytes_enc: "prefix s (rest src) \<Longrightarrow> wf_source src \<Longrightarrow>
   get_bytes (length s) src = Inr (s, advance (length s) src)"
  by (auto simp: get_bytes_def remaining_def rest_def prefix_def subslice_def wf_source_def
      dest: arg_cong [where f = length])

interpretation bytes: cursor_op "get_bytes n" for n
  by unfold_locales
    (auto simp: get_bytes_def remaining_def wf_source_def intro!: cursor_ok_advance)

lemma get_u8_error: "get_u8 src = Inl e \<Longrightarrow> e = Status kCorruption"
  by (auto simp: get_u8_def split: if_splits)

lemma get_fixed32_error: "get_fixed32 src = Inl e \<Longrightarrow> e = Status kCorruption"
  by (auto simp: get_fixed32_def split: if_splits)

lemma get_varint32_error: "get_varint32 src = Inl e \<Longrightarrow> e = Status kCorruption"
  by (auto simp: get_varint32_def and_then_eq_Inl split: if_splits dest: get_varint64_error)

lemma get_bytes_error: "get_bytes n src = Inl e \<Longrightarrow> wf_source src \<Longrightarrow> e = Status kCorruption"
  by (auto simp: get_bytes_def remaining_def wf_source_def subslice_def split: if_splits)

lemma get_bytes_Inr:
  "wf_source src \<Longrightarrow> get_bytes n src = Inr (out, src') \<Longrightarrow>
   n \<le> remaining src \<and> out = take n (rest src) \<and> src' = advance n src"
  by (auto simp: get_bytes_def rest_def subslice_Inr split: if_splits)

subsection \<open>Reading by rewriting\<close>

text \<open>
  Each primitive depends on the bytes from the cursor on only. \<open>run d\<close> applies a decoder of
  byte lists at the cursor; a chain of reads of bytes that were written is then evaluated by
  the simplifier, field by field, from the equation for \<open>rest src\<close>.
\<close>

definition run :: "(byte list \<Rightarrow> ('a \<times> byte list) result) \<Rightarrow> byte_source \<Rightarrow> ('a \<times> byte_source) result" where
  "run d src =
     (case d (rest src) of
        Inl e \<Rightarrow> Inl e
      | Inr (v, r) \<Rightarrow> Inr (v, advance (length (rest src) - length r) src))"

definition dec_u8 :: "byte list \<Rightarrow> (byte \<times> byte list) result" where
  "dec_u8 xs = (case xs of [] \<Rightarrow> Corruption | b # r \<Rightarrow> Inr (b, r))"

definition dec_fixed :: "nat \<Rightarrow> byte list \<Rightarrow> ('a :: len word \<times> byte list) result" where
  "dec_fixed n xs = (if length xs < n then Corruption else Inr (load_le n xs 0, drop n xs))"

definition dec_bytes :: "nat \<Rightarrow> byte list \<Rightarrow> (byte list \<times> byte list) result" where
  "dec_bytes n xs = (if length xs < n then Corruption else Inr (take n xs, drop n xs))"

lemma dec_u8_simps [codec_simps]: "dec_u8 [] = Corruption" "dec_u8 (b # r) = Inr (b, r)"
  by (simp_all add: dec_u8_def)

lemma dec_fixed_enc:
  assumes "LENGTH('a) = 8 * n"
  shows "dec_fixed n (le_bytes n (v :: 'a :: len word) @ r) = Inr (v, r)"
  using load_le_bytes [OF assms, of v 0 "le_bytes n v @ r"] by (simp add: dec_fixed_def)

lemma dec_fixed_simps [codec_simps]:
  "dec_fixed 2 (le_bytes 2 a @ r) = Inr (a :: u16, r)"
  "dec_fixed 4 (le_bytes 4 b @ r) = Inr (b :: u32, r)"
  "dec_fixed 8 (le_bytes 8 c @ r) = Inr (c :: u64, r)"
  "dec_fixed 2 (le_bytes 2 a) = Inr (a :: u16, [])"
  "dec_fixed 4 (le_bytes 4 b) = Inr (b :: u32, [])"
  "dec_fixed 8 (le_bytes 8 c) = Inr (c :: u64, [])"
  using dec_fixed_enc [of 2 a "[]"] dec_fixed_enc [of 4 b "[]"] dec_fixed_enc [of 8 c "[]"]
  by (simp_all add: dec_fixed_enc)

lemma dec_varint_simps [codec_simps]:
  "decode_varint64 (encode_varint64 v @ r) = Inr (v, r)"
  "decode_varint32 (encode_varint32 w @ r) = Inr (w, r)"
  "decode_varint64 (encode_varint64 v) = Inr (v, [])"
  "decode_varint32 (encode_varint32 w) = Inr (w, [])"
  using decode_encode_varint64 [of v "[]"] decode_encode_varint32 [of w "[]"]
  by (simp_all add: decode_encode_varint64 decode_encode_varint32)

lemma dec_bytes_simps [codec_simps]:
  "dec_bytes (length s) (s @ r) = Inr (s, r)" "dec_bytes (length s) s = Inr (s, [])"
  "dec_bytes n xs = (if length xs < n then Corruption else Inr (take n xs, drop n xs))"
  by (simp_all add: dec_bytes_def)

lemma run_simp [codec_simps]:
  "run d src = and_then (d (rest src)) (\<lambda>(v, r). Inr (v, advance (length (rest src) - length r) src))"
  by (simp add: run_def and_then_def)

lemma drop_pos_Cons [codec_simps]: "0 < n \<Longrightarrow> drop n (x # xs) = drop (n - 1) xs"
  by (cases n) simp_all

lemma get_u8_run [codec_simps]: "get_u8 src = run dec_u8 src"
proof (cases "rest src")
  case Nil
  then show ?thesis by (simp add: get_u8_def remaining_rest run_def dec_u8_def)
next
  case (Cons b r)
  then show ?thesis
    using drop_eq_imp_nth [of "src_pos src" "src_bytes src" b r]
    by (simp add: get_u8_def remaining_rest run_def dec_u8_def rest_def)
qed

lemma load_le_drop: "pos + n \<le> length s \<Longrightarrow> load_le n s pos = load_le n (drop pos s) 0"
  unfolding load_le_def by (rule foldl_cong) simp_all

lemma fixed_run:
  "(if remaining src < n then Corruption else Inr (load_le n (src_bytes src) (src_pos src), advance n src))
     = run (dec_fixed n) src"
proof (cases "remaining src < n")
  case True
  then show ?thesis by (simp add: run_def dec_fixed_def remaining_rest)
next
  case False
  show ?thesis
  proof (cases "n = 0")
    case True
    then show ?thesis by (simp add: run_def dec_fixed_def load_le_def)
  next
    case n0: False
    with False have "src_pos src + n \<le> length (src_bytes src)" by (simp add: remaining_def)
    from load_le_drop [OF this] False show ?thesis
      by (simp add: run_def dec_fixed_def remaining_rest) (simp add: rest_def)
  qed
qed

lemma get_fixed_run [codec_simps]:
  "get_fixed16 src = run (dec_fixed 2) src"
  "get_fixed32 src = run (dec_fixed 4) src"
  "get_fixed64 src = run (dec_fixed 8) src"
  by (simp_all add: get_fixed16_def get_fixed32_def get_fixed64_def fixed_run)

lemma get_varint64_run [codec_simps]: "get_varint64 src = run decode_varint64 src"
proof (cases "decode_varint64 (rest src)")
  case (Inl e)
  then show ?thesis by (simp add: get_varint64_def run_def rest_def)
next
  case (Inr p)
  then obtain v nxt where d: "decode_varint64 (rest src) = Inr (v, nxt)" by (cases p) auto
  obtain used where u: "rest src = used @ nxt" "used \<noteq> []"
    using decode_varint64_suffix [OF d] by blast
  then have "wf_source src" by (intro wf_if_rest) simp
  then have "length (src_bytes src) - length nxt = src_pos src + length used"
    using arg_cong [OF u(1), of length] by (simp add: rest_def wf_source_def)
  then show ?thesis
    using d u(1) by (simp add: get_varint64_def run_def rest_def [symmetric] advance_def)
qed

lemma get_varint32_run [codec_simps]: "get_varint32 src = run decode_varint32 src"
  by (simp add: get_varint32_def get_varint64_run run_simp decode_varint32_def and_then_def
      split: sum.splits prod.splits)

lemma get_bytes_run [codec_simps]: "wf_source src \<Longrightarrow> get_bytes n src = run (dec_bytes n) src"
  by (auto simp: get_bytes_def run_def dec_bytes_def remaining_rest subslice_def rest_def wf_source_def)

lemmas cursor_intros = cursor_bind u8.ok fixed16.ok fixed32.ok fixed64.ok varint32.ok varint64.ok
  zigzag.ok bytes.ok

end
