(* ===== verification/Zstd_Codec.thy ===== *)
theory Zstd_Codec
  imports Byte_Stream
begin

text \<open>
  The ZSTD wrapper (\<open>src/core/src/encoding/zstd_codec.cpp\<close>). The zstd library is a parameter:
  \<open>None\<close> is a return code for which \<open>ZSTD_isError\<close> holds. What the format modules rely on is
  \<open>zstd_spec\<close>, the library's documented round trip at the exact capacity.
\<close>

record zstd_lib =
  ZSTD_compress :: "int \<Rightarrow> byte list \<Rightarrow> byte list option"
  ZSTD_decompress :: "nat \<Rightarrow> byte list \<Rightarrow> byte list option"

definition zstd_spec :: "zstd_lib \<Rightarrow> bool" where
  "zstd_spec z \<longleftrightarrow>
     (\<forall>level input out. ZSTD_compress z level input = Some out \<longrightarrow>
        ZSTD_decompress z (length input) out = Some input)"

definition zstd_compress :: "zstd_lib \<Rightarrow> byte list \<Rightarrow> int \<Rightarrow> byte list result" where
  "zstd_compress z input level =
     (case ZSTD_compress z level input of None \<Rightarrow> Internal | Some out \<Rightarrow> Inr out)"

definition zstd_decompress :: "zstd_lib \<Rightarrow> byte list \<Rightarrow> nat \<Rightarrow> byte list result" where
  "zstd_decompress z input expected_uncomp_len =
     (case ZSTD_decompress z expected_uncomp_len input of
        None \<Rightarrow> Corruption
      | Some out \<Rightarrow> if length out \<noteq> expected_uncomp_len then Corruption else Inr out)"

lemma zstd_roundtrip:
  "zstd_spec z \<Longrightarrow> zstd_compress z input level = Inr out \<Longrightarrow>
   zstd_decompress z out (length input) = Inr input"
  by (auto simp: zstd_spec_def zstd_compress_def zstd_decompress_def split: option.splits)

lemma zstd_decompress_length: "zstd_decompress z input n = Inr out \<Longrightarrow> length out = n"
  by (auto simp: zstd_decompress_def split: option.splits if_splits)

lemma zstd_decompress_safe: "zstd_decompress z input n \<noteq> Inl OutOfBounds"
  by (simp add: zstd_decompress_def split: option.splits)

text \<open>A library that stores its input: the specification can hold.\<close>

definition stored_zstd :: zstd_lib where
  "stored_zstd = \<lparr>ZSTD_compress = (\<lambda>level input. Some input), ZSTD_decompress = (\<lambda>n input. Some input)\<rparr>"

lemma stored_zstd_spec: "zstd_spec stored_zstd"
  by (simp add: zstd_spec_def stored_zstd_def)

end
