(* ===== verification/File_Io.thy ===== *)
theory File_Io
  imports Prelude
begin

text \<open>
  The physical layer: the \<open>FileReader\<close> interface (\<open>src/core/include/snii/io/file_reader.h\<close>) and
  the local files of \<open>src/core/src/io/local_file.cpp\<close>. The kernel calls \<open>pread\<close> and \<open>write\<close> are
  the environment: a schedule lists what successive calls do (interrupted, failed, or bytes moved; for \<open>pread\<close>
  as a function of the offset and the count the code passes), and a loop that has used up its schedule is still
  waiting (\<open>None\<close>).
\<close>

subsection \<open>The reader interface\<close>

record file_range =
  rg_offset :: u64
  rg_len :: u64

type_synonym file_reader = "u64 \<Rightarrow> u64 \<Rightarrow> byte list result"

text \<open>The default \<open>read_batch\<close>: one read after the other, stopping at the first failure.\<close>

fun read_batch :: "file_reader \<Rightarrow> file_range list \<Rightarrow> byte list list result" where
  "read_batch read_at [] = Inr []"
| "read_batch read_at (r # rs) =
     and_then (read_at (rg_offset r) (rg_len r)) (\<lambda>out.
     and_then (read_batch read_at rs) (\<lambda>outs. Inr (out # outs)))"

definition file_slice :: "byte list \<Rightarrow> u64 \<Rightarrow> u64 \<Rightarrow> byte list" where
  "file_slice contents off len = take (unat len) (drop (unat off) contents)"

text \<open>What a reader over a file promises: bytes it returns are the file's, and it reports its
  failures.\<close>

locale sound_reader =
  fixes read_at :: file_reader and contents :: "byte list"
  assumes read_sound: "read_at off len = Inr bs \<Longrightarrow>
      unat off + unat len \<le> length contents \<and> bs = file_slice contents off len"
    and read_safe: "read_at off len \<noteq> Inl OutOfBounds"
begin

lemma read_length: "read_at off len = Inr bs \<Longrightarrow> length bs = unat len"
  using read_sound [of off len bs] by (auto simp: file_slice_def)

lemma batch_length: "read_batch read_at rs = Inr outs \<Longrightarrow> length outs = length rs"
  by (induction rs arbitrary: outs) auto

lemma batch_nth:
  "read_batch read_at rs = Inr outs \<Longrightarrow> i < length rs \<Longrightarrow>
   outs ! i = file_slice contents (rg_offset (rs ! i)) (rg_len (rs ! i)) \<and>
   unat (rg_offset (rs ! i)) + unat (rg_len (rs ! i)) \<le> length contents"
proof (induction rs arbitrary: outs i)
  case (Cons r rs)
  then show ?case by (cases i) (auto dest: read_sound)
qed simp

lemma batch_safe: "read_batch read_at rs \<noteq> Inl OutOfBounds"
  by (induction rs) (auto simp: and_then_eq_Inl read_safe)

end

locale reliable_reader = sound_reader +
  assumes read_complete: "length contents < 2 ^ 64 \<Longrightarrow> unat off + unat len \<le> length contents \<Longrightarrow>
      read_at off len = Inr (file_slice contents off len)"

context reliable_reader
begin

lemma batch_complete:
  "length contents < 2 ^ 64 \<Longrightarrow> \<forall>r \<in> set rs. unat (rg_offset r) + unat (rg_len r) \<le> length contents \<Longrightarrow>
   read_batch read_at rs = Inr (map (\<lambda>r. file_slice contents (rg_offset r) (rg_len r)) rs)"
  by (induction rs) (auto simp: read_complete)

end

subsection \<open>LocalFileReader\<close>

text \<open>What a call of \<open>pread\<close> may do, given its offset and count. A schedule lists what the successive calls do.\<close>

datatype pread_outcome = Pread_Interrupted | Pread_Failed | Pread_Got "byte list"

type_synonym pread_call = "u64 \<Rightarrow> u64 \<Rightarrow> pread_outcome"

text \<open>The check before the read loop: \<open>offset > size_ || len > size_ - offset\<close>.\<close>

definition range_past_eof :: "u64 \<Rightarrow> u64 \<Rightarrow> u64 \<Rightarrow> bool" where
  "range_past_eof fsize off len = (off > fsize \<or> len > fsize - off)"

text \<open>The loop of \<open>LocalFileReader::read_at\<close>: \<open>out\<close> holds the \<open>done\<close> bytes read so far; each call is given
  \<open>offset + done\<close> and \<open>len - done\<close>.\<close>

fun pread_loop :: "pread_call list \<Rightarrow> u64 \<Rightarrow> u64 \<Rightarrow> byte list \<Rightarrow> byte list result option" where
  "pread_loop os off len out =
     (if length out < unat len then
        case os of
          [] \<Rightarrow> None
        | pread # os \<Rightarrow>
            (case pread (off + of_nat (length out)) (len - of_nat (length out)) of
               Pread_Interrupted \<Rightarrow> pread_loop os off len out
             | Pread_Failed \<Rightarrow> Some IoError
             | Pread_Got bs \<Rightarrow> (if bs = [] then Some Corruption else pread_loop os off len (out @ bs)))
      else Some (Inr out))"

declare pread_loop.simps [simp del]

definition local_read_at :: "bool \<Rightarrow> u64 \<Rightarrow> pread_call list \<Rightarrow> u64 \<Rightarrow> u64 \<Rightarrow> byte list result option" where
  "local_read_at is_open fsize os off len =
     (if \<not> is_open then Some IoError
      else if range_past_eof fsize off len then Some Corruption
      else pread_loop os off len [])"

text \<open>What POSIX says \<open>pread(fd, buf, want, off)\<close> returns on a regular file: a non-empty prefix of at
  most \<open>want\<close> of the bytes at \<open>off\<close>, empty at the end of the file only. The offset and the count are those of
  the call.\<close>

definition pread_contract :: "byte list \<Rightarrow> pread_call \<Rightarrow> bool" where
  "pread_contract contents pread =
     (\<forall>off want bs. pread off want = Pread_Got bs \<longrightarrow>
        bs = take (length bs) (drop (unat off) contents) \<and> length bs \<le> unat want \<and>
        (bs = [] \<longrightarrow> want = 0 \<or> length contents \<le> unat off))"

text \<open>A call that never fails, and one that always moves data.\<close>

definition never_fails :: "pread_call \<Rightarrow> bool" where
  "never_fails pread = (\<forall>off want. pread off want \<noteq> Pread_Failed)"

definition serves :: "pread_call \<Rightarrow> bool" where
  "serves pread = (\<forall>off want. \<exists>bs. pread off want = Pread_Got bs)"

text \<open>The function \<open>read_at\<close> computes when the kernel serves its reads.\<close>

definition read_file :: "byte list \<Rightarrow> file_reader" where
  "read_file contents off len =
     (if range_past_eof (of_nat (length contents)) off len then Corruption
      else Inr (file_slice contents off len))"

lemma in_range:
  assumes "\<not> range_past_eof fsize off len" shows "unat off + unat len \<le> unat fsize"
proof -
  have le: "unat off \<le> unat fsize" "len \<le> fsize - off"
    using assms by (simp_all add: range_past_eof_def word_le_nat_alt not_less)
  then have "unat (fsize - off) = unat fsize - unat off" by (simp add: unat_sub word_le_nat_alt)
  with le show ?thesis by (simp add: word_le_nat_alt)
qed

lemma in_rangeI:
  assumes "unat off + unat len \<le> unat fsize" shows "\<not> range_past_eof fsize off len"
proof -
  have "off \<le> fsize" using assms by (simp add: word_le_nat_alt)
  then have "unat (fsize - off) = unat fsize - unat off" by (simp add: unat_sub)
  with assms show ?thesis by (simp add: range_past_eof_def word_less_nat_alt)
qed

lemma unat_of_nat_le: "unat (of_nat n :: u64) \<le> n"
  by (simp add: unat_of_nat)

interpretation file_image: reliable_reader "read_file c" c for c
proof unfold_locales
  fix off len bs
  show "read_file c off len \<noteq> Inl OutOfBounds" by (simp add: read_file_def)
  show "read_file c off len = Inr bs \<Longrightarrow>
    unat off + unat len \<le> length c \<and> bs = file_slice c off len"
    using unat_of_nat_le [of "length c"] in_range [of "of_nat (length c)" off len]
    by (auto simp: read_file_def split: if_splits)
  show "length c < 2 ^ 64 \<Longrightarrow> unat off + unat len \<le> length c \<Longrightarrow>
    read_file c off len = Inr (file_slice c off len)"
    using in_rangeI [of off len "of_nat (length c)"] by (simp add: read_file_def)
qed

text \<open>Reading refines the image: an answer of the loop is the image's, unless the kernel failed a
  call; and the loop answers once enough calls have moved data.\<close>

lemma pread_step:
  assumes c: "pread_contract contents pread" and g: "pread (off + of_nat (length out)) (len - of_nat (length out)) = Pread_Got bs"
    and out: "out = take (length out) (drop (unat off) contents)" and lt: "length out < unat len"
    and fit: "unat off + unat len \<le> length contents" "length contents < 2 ^ 64"
  shows "bs \<noteq> []" and "out @ bs = take (length (out @ bs)) (drop (unat off) contents)" and "length (out @ bs) \<le> unat len"
proof -
  have o: "unat (of_nat (length out) :: u64) = length out" using lt unat_u64_less [of len] by (intro unat_of_nat_u64) simp
  have "unat (off + of_nat (length out)) = unat off + unat (of_nat (length out) :: u64)"
    using lt fit o by (intro unat_add_lem [THEN iffD1]) simp
  then have u1: "unat (off + of_nat (length out)) = unat off + length out" by (simp only: o)
  have "of_nat (length out) \<le> len" using o lt by (simp add: word_le_nat_alt)
  then have u2: "unat (len - of_nat (length out)) = unat len - length out" using o by (simp add: unat_sub)
  have k: "bs = take (length bs) (drop (unat off + length out) contents)" "length bs \<le> unat len - length out"
    "bs = [] \<Longrightarrow> unat len - length out = 0 \<or> length contents \<le> unat off + length out"
    using c g u1 u2 unfolding pread_contract_def by (metis unsigned_0)+
  show "bs \<noteq> []" using k(3) lt fit(1) by auto
  have "bs = take (length bs) (drop (length out) (drop (unat off) contents))" using k(1) by (simp add: add.commute)
  then have "out @ bs = take (length out) (drop (unat off) contents) @ take (length bs) (drop (length out) (drop (unat off) contents))"
    using out by metis
  then show "out @ bs = take (length (out @ bs)) (drop (unat off) contents)" unfolding length_append take_add .
  show "length (out @ bs) \<le> unat len" using k(2) lt by simp
qed

lemma pread_loop_sound:
  assumes "\<forall>pread \<in> set os. pread_contract contents pread" and fit: "unat off + unat len \<le> length contents" "length contents < 2 ^ 64"
    and "out = take (length out) (drop (unat off) contents)" and "length out \<le> unat len" and "pread_loop os off len out = Some r"
  shows "r = Inr (take (unat len) (drop (unat off) contents)) \<or> r = IoError \<and> (\<exists>pread \<in> set os. \<not> never_fails pread)"
  using assms(1,4-)
proof (induction os arbitrary: out)
  case Nil
  then show ?case by (cases "length out < unat len") (simp_all add: pread_loop.simps)
next
  case (Cons pread os)
  show ?case
  proof (cases "length out < unat len")
    case False
    then have "r = Inr out" "length out = unat len" using Cons.prems(3,4) by (simp_all add: pread_loop.simps)
    then show ?thesis using Cons.prems(2) by simp
  next
    case True
    show ?thesis
    proof (cases "pread (off + of_nat (length out)) (len - of_nat (length out))")
      case Pread_Interrupted
      then have "pread_loop os off len out = Some r" using Cons.prems(4) True by (subst (asm) pread_loop.simps) simp
      then show ?thesis using Cons.IH [OF _ Cons.prems(2,3)] Cons.prems(1) by auto
    next
      case Pread_Failed
      then have "r = IoError" "\<not> never_fails pread" using Cons.prems(4) True by (auto simp: pread_loop.simps never_fails_def)
      then show ?thesis by simp
    next
      case (Pread_Got bs)
      have c: "pread_contract contents pread" using Cons.prems(1) by simp
      note st = pread_step [OF c Pread_Got Cons.prems(2) True fit]
      have "pread_loop os off len (out @ bs) = Some r" using Cons.prems(4) True Pread_Got st(1) by (subst (asm) pread_loop.simps) simp
      then show ?thesis using Cons.IH [OF _ st(2,3)] Cons.prems(1) by auto
    qed
  qed
qed

lemma pread_loop_answers:
  "unat len \<le> length out + length (filter serves os) \<Longrightarrow> pread_loop os off len out \<noteq> None"
proof (induction os arbitrary: out)
  case (Cons pread os)
  show ?case
  proof (cases "length out < unat len")
    case True
    show ?thesis
    proof (cases "pread (off + of_nat (length out)) (len - of_nat (length out))")
      case Pread_Interrupted
      then have "\<not> serves pread" by (auto simp: serves_def) (metis pread_outcome.distinct(3))
      then show ?thesis using Cons True Pread_Interrupted by (subst pread_loop.simps) simp
    next
      case (Pread_Got bs)
      show ?thesis
      proof (cases "bs = []")
        case False
        then have "1 \<le> length bs" by (simp add: Suc_leI)
        then have "unat len \<le> length (out @ bs) + length (filter serves os)" using Cons.prems by (simp split: if_splits)
        then show ?thesis using Cons.IH True Pread_Got False by (subst pread_loop.simps) simp
      qed (use True Pread_Got in \<open>subst pread_loop.simps, simp\<close>)
    qed (use True in \<open>subst pread_loop.simps, simp\<close>)
  qed (simp add: pread_loop.simps)
qed (simp add: pread_loop.simps)

subsection \<open>LocalFileWriter\<close>

text \<open>\<open>lw_file\<close> is what the descriptor has received. An operation returns its status, the writer and
  the rest of the schedule; \<open>io_then\<close> is \<open>SNII_RETURN_IF_ERROR\<close> on it.\<close>

type_synonym ('w, 'o) io = "(unit result \<times> 'w \<times> 'o list) option"

definition io_then :: "('w, 'o) io \<Rightarrow> ('w \<Rightarrow> 'o list \<Rightarrow> ('w, 'o) io) \<Rightarrow> ('w, 'o) io" where
  "io_then m f =
     (case m of
        None \<Rightarrow> None
      | Some (r, w, os) \<Rightarrow> (case r of Inl e \<Rightarrow> Some (Inl e, w, os) | Inr _ \<Rightarrow> f w os))"

lemma io_then_Inr:
  "io_then m f = Some (Inr u, w', os') \<longleftrightarrow>
   (\<exists>w os. m = Some (Inr (), w, os) \<and> f w os = Some (Inr u, w', os'))"
  by (auto simp: io_then_def split: option.splits sum.splits)

record local_file_writer =
  lw_open :: bool
  lw_file :: "byte list"
  lw_buf :: "byte list"
  lw_bytes_written :: u64

datatype write_outcome = Write_Interrupted | Write_Failed | Wrote nat

definition kBufCapacity :: nat where "kBufCapacity = 256 * 1024"

definition local_writer_open :: local_file_writer where
  "local_writer_open = \<lparr>lw_open = True, lw_file = [], lw_buf = [], lw_bytes_written = 0\<rparr>"

text \<open>\<open>write_all\<close> on the bytes still to be written. A \<open>write\<close> moves at most what it was given. The
  schedule that is left over is part of the result.\<close>

fun write_all :: "byte list \<Rightarrow> write_outcome list \<Rightarrow> local_file_writer \<Rightarrow>
    (unit result \<times> local_file_writer \<times> write_outcome list) option" where
  "write_all data os w =
     (if data = [] then Some (Inr (), w, os)
      else
        case os of
          [] \<Rightarrow> None
        | Write_Interrupted # os \<Rightarrow> write_all data os w
        | Write_Failed # os \<Rightarrow> Some (IoError, w, os)
        | Wrote n # os \<Rightarrow> write_all (drop n data) os (w\<lparr>lw_file := lw_file w @ take n data\<rparr>))"

declare write_all.simps [simp del]

definition flush_buffer :: "write_outcome list \<Rightarrow> local_file_writer \<Rightarrow> (local_file_writer, write_outcome) io" where
  "flush_buffer os w =
     (if lw_buf w = [] then Some (Inr (), w, os)
      else io_then (write_all (lw_buf w) os w) (\<lambda>w os. Some (Inr (), w\<lparr>lw_buf := []\<rparr>, os)))"

definition writer_append :: "byte list \<Rightarrow> write_outcome list \<Rightarrow> local_file_writer \<Rightarrow>
    (local_file_writer, write_outcome) io" where
  "writer_append data os w =
     (if \<not> lw_open w then Some (IoError, w, os)
      else if data = [] then Some (Inr (), w, os)
      else if length data \<ge> kBufCapacity then
        io_then (flush_buffer os w) (\<lambda>w os.
        io_then (write_all data os w) (\<lambda>w os.
        Some (Inr (), w\<lparr>lw_bytes_written := lw_bytes_written w + of_nat (length data)\<rparr>, os)))
      else
        io_then (if length (lw_buf w) + length data > kBufCapacity then flush_buffer os w
                 else Some (Inr (), w, os)) (\<lambda>w os.
        Some (Inr (), w\<lparr>lw_buf := lw_buf w @ data,
                        lw_bytes_written := lw_bytes_written w + of_nat (length data)\<rparr>, os)))"

text \<open>\<open>fsync_ok\<close> and \<open>close_ok\<close> say whether those two calls succeed.\<close>

definition writer_finalize :: "bool \<Rightarrow> bool \<Rightarrow> write_outcome list \<Rightarrow> local_file_writer \<Rightarrow>
    (local_file_writer, write_outcome) io" where
  "writer_finalize fsync_ok close_ok os w =
     (if \<not> lw_open w then Some (IoError, w, os)
      else
        io_then (flush_buffer os w) (\<lambda>w os.
        if \<not> fsync_ok then Some (IoError, w, os)
        else if \<not> close_ok then Some (IoError, w\<lparr>lw_open := False\<rparr>, os)
        else Some (Inr (), w\<lparr>lw_open := False\<rparr>, os)))"

lemma write_all_steps [simp]:
  "write_all [] os w = Some (Inr (), w, os)"
  "data \<noteq> [] \<Longrightarrow> write_all data [] w = None"
  "data \<noteq> [] \<Longrightarrow> write_all data (Write_Interrupted # os) w = write_all data os w"
  "data \<noteq> [] \<Longrightarrow> write_all data (Write_Failed # os) w = Some (IoError, w, os)"
  "data \<noteq> [] \<Longrightarrow> write_all data (Wrote n # os) w =
     write_all (drop n data) os (w\<lparr>lw_file := lw_file w @ take n data\<rparr>)"
  by (simp_all add: write_all.simps)

text \<open>The invariant of the writer after the appends \<open>xs\<close>: the file and the buffer hold them in
  order, the buffer keeps below its capacity, and the count is their length.\<close>

definition writer_inv :: "byte list \<Rightarrow> local_file_writer \<Rightarrow> bool" where
  "writer_inv xs w =
     (lw_file w @ lw_buf w = xs \<and> length (lw_buf w) \<le> kBufCapacity \<and>
      lw_bytes_written w = of_nat (length xs))"

lemma write_all_Inr:
  "write_all data os w = Some (Inr u, w', os') \<Longrightarrow> w' = w\<lparr>lw_file := lw_file w @ data\<rparr>"
proof (induction os arbitrary: data w)
  case Nil
  then show ?case by (cases "data = []") simp_all
next
  case (Cons o' os)
  show ?case
  proof (cases "data = []")
    case False
    with Cons show ?thesis by (cases o') fastforce+
  qed (use Cons.prems in simp)
qed

lemma flush_buffer_Inr:
  "flush_buffer os w = Some (Inr u, w', os') \<Longrightarrow> w' = w\<lparr>lw_file := lw_file w @ lw_buf w, lw_buf := []\<rparr>"
  by (auto simp: flush_buffer_def io_then_Inr dest!: write_all_Inr split: if_splits)

lemma writer_append_inv:
  assumes "writer_inv xs w" and "writer_append data os w = Some (Inr u, w', os')"
  shows "writer_inv (xs @ data) w'"
  using assms
  by (auto simp: writer_append_def writer_inv_def io_then_Inr dest!: write_all_Inr flush_buffer_Inr
      split: if_splits)

lemma writer_append_open: "writer_append data os w = Some (Inr u, w', os') \<Longrightarrow> lw_open w'"
  by (auto simp: writer_append_def io_then_Inr dest!: write_all_Inr flush_buffer_Inr split: if_splits)

text \<open>A sequence of appends, each on the schedule the previous one left.\<close>

fun append_all :: "byte list list \<Rightarrow> write_outcome list \<Rightarrow> local_file_writer \<Rightarrow> (local_file_writer, write_outcome) io" where
  "append_all [] os w = Some (Inr (), w, os)"
| "append_all (d # ds) os w = io_then (writer_append d os w) (\<lambda>w os. append_all ds os w)"

lemma append_all_inv:
  "writer_inv xs w \<Longrightarrow> append_all ds os w = Some (Inr u, w', os') \<Longrightarrow> writer_inv (xs @ concat ds) w'"
proof (induction ds arbitrary: xs w os)
  case (Cons d ds)
  then show ?case using writer_append_inv [of xs w d os] by (fastforce simp: io_then_Inr)
qed simp

subsection \<open>Correctness\<close>

text \<open>C22: the invariant of the buffered writer. After any sequence of successful appends, whatever
  partial and interrupted writes the kernel made, the file followed by the buffer is what was
  appended, the buffer is within its capacity, and the count is exact; a successful \<open>finalize\<close>
  leaves exactly the appended bytes in the file.\<close>

theorem local_writer_invariant:
  assumes "append_all ds os local_writer_open = Some (Inr (), w, os')"
  shows "lw_file w @ lw_buf w = concat ds \<and> length (lw_buf w) \<le> kBufCapacity \<and>
    lw_bytes_written w = of_nat (length (concat ds)) \<and>
    (writer_finalize fs cl os' w = Some (Inr (), w', os'') \<longrightarrow> lw_file w' = concat ds)"
proof -
  have "writer_inv [] local_writer_open" by (simp add: writer_inv_def local_writer_open_def)
  from append_all_inv [OF this assms] have "writer_inv (concat ds) w" by simp
  then show ?thesis
    by (auto simp: writer_inv_def writer_finalize_def io_then_Inr dest!: flush_buffer_Inr split: if_splits)
qed

theorem local_writer_invariant_witness:
  "\<exists>w. append_all [[1, 2], [3]] [] local_writer_open = Some (Inr (), w, []) \<and>
     writer_finalize True True [Write_Interrupted, Wrote 2, Wrote 1] w =
       Some (Inr (), \<lparr>lw_open = False, lw_file = [1, 2, 3], lw_buf = [], lw_bytes_written = 3\<rparr>, []) \<and>
     lw_file w @ lw_buf w = [1, 2, 3]"
proof -
  let ?w = "\<lparr>lw_open = True, lw_file = [], lw_buf = [1, 2, 3], lw_bytes_written = 3\<rparr> :: local_file_writer"
  have a: "append_all [[1, 2], [3]] [] local_writer_open = Some (Inr (), ?w, [])"
    by (simp add: writer_append_def local_writer_open_def kBufCapacity_def io_then_def)
  have "writer_finalize True True [Write_Interrupted, Wrote 2, Wrote 1] ?w =
       Some (Inr (), \<lparr>lw_open = False, lw_file = [1, 2, 3], lw_buf = [], lw_bytes_written = 3\<rparr>, [])"
    by (simp add: writer_finalize_def flush_buffer_def io_then_def)
  with a local_writer_invariant [OF a] show ?thesis by auto
qed

text \<open>C23: reading a range of a local file. Where every \<open>pread\<close> behaves as POSIX says for the offset and the count
  it is called with, a read returns exactly the bytes of the range, or refuses a range past the end, unless a call
  failed; interrupted and short reads are continued where they stopped, so that when no call fails and as many calls
  move data as there are bytes wanted, the read returns the range.\<close>

theorem local_read_refines:
  assumes size: "length contents < 2 ^ 64"
    and os: "\<forall>pread \<in> set os. pread_contract contents pread"
  shows "(local_read_at True (of_nat (length contents)) os off len = Some r \<longrightarrow>
      r = read_file contents off len \<or> r = IoError \<and> (\<exists>pread \<in> set os. \<not> never_fails pread)) \<and>
    ((\<forall>pread \<in> set os. never_fails pread) \<and> unat len \<le> length (filter serves os) \<longrightarrow>
      local_read_at True (of_nat (length contents)) os off len = Some (read_file contents off len))"
proof -
  have "r = read_file contents off len \<or> r = IoError \<and> (\<exists>pread \<in> set os. \<not> never_fails pread)"
    if r: "local_read_at True (of_nat (length contents)) os off len = Some r" for r
  proof (cases "range_past_eof (of_nat (length contents)) off len")
    case True
    then show ?thesis using r by (simp add: local_read_at_def read_file_def)
  next
    case False
    have "unat off + unat len \<le> length contents" using in_range [OF False] size by simp
    then show ?thesis using pread_loop_sound [OF os _ size, of off len "[]" r] r False
      by (simp add: local_read_at_def read_file_def file_slice_def)
  qed
  moreover have "local_read_at True (of_nat (length contents)) os off len \<noteq> None" if "unat len \<le> length (filter serves os)"
    using pread_loop_answers [of len "[]" os off] that by (simp add: local_read_at_def)
  ultimately show ?thesis by fastforce
qed

definition short_pread :: "byte list \<Rightarrow> pread_call" where
  "short_pread contents off want = Pread_Got (take (min 1 (unat want)) (drop (unat off) contents))"

theorem local_read_refines_witness:
  "local_read_at True (of_nat (length [5, 6, 7, 8 :: byte]))
      [\<lambda>_ _. Pread_Interrupted, short_pread [5, 6, 7, 8], short_pread [5, 6, 7, 8]] 1 2 =
     Some (read_file [5, 6, 7, 8] 1 2) \<and> read_file [5, 6, 7, 8] 1 2 = Inr [6, 7]"
proof -
  let ?c = "[5, 6, 7, 8] :: byte list"
  let ?os = "[\<lambda>_ _. Pread_Interrupted, short_pread ?c, short_pread ?c]"
  have "pread_contract ?c (short_pread ?c)"
    by (auto simp: pread_contract_def short_pread_def min_def word_unat_eq_iff)
  then have p: "\<forall>pread \<in> set ?os. pread_contract ?c pread" by (simp add: pread_contract_def)
  have n: "\<forall>pread \<in> set ?os. never_fails pread" by (simp add: never_fails_def short_pread_def)
  have s: "unat (2 :: u64) \<le> length (filter serves ?os)" by (simp add: serves_def short_pread_def)
  have r: "read_file ?c 1 2 = Inr [6, 7]" by (simp add: read_file_def range_past_eof_def file_slice_def)
  from local_read_refines [of ?c ?os 1 2 "Inr []"] p n s r show ?thesis by auto
qed

end
