(* ===== verification/Host.thy ===== *)
theory Host
  imports Double Zstd_Codec File_Io
begin

text \<open>
  What the code takes from outside the sources, as one parameter of the definitions that use it:
  the environment, the processor, the hash, the compressor, the floating-point library, the order in
  which \<open>std::sort\<close> leaves equal keys, and whether files can be opened and appended to.
\<close>

record host =
  host_resident_max :: "byte list option"
  host_avx2 :: bool
  host_xxh64 :: "byte list \<Rightarrow> u64 \<Rightarrow> u64"
  host_zstd :: zstd_lib
  host_bsbf_bits :: "u32 \<Rightarrow> double \<Rightarrow> double"
  host_sort :: "u64 list \<Rightarrow> nat list"
  host_append_ok :: "byte list \<Rightarrow> byte list \<Rightarrow> bool"
  host_finalize_ok :: "byte list \<Rightarrow> bool"
  host_temp_open_ok :: bool
  host_temp_sync_ok :: bool
  host_temp_close_ok :: bool

text \<open>What is documented of them: zstd inverts itself, \<open>std::sort\<close> returns a sorting permutation, and the size of a filter
  is a number where the rate lies between zero and one.\<close>

definition sorting_permutation :: "u64 list \<Rightarrow> nat list \<Rightarrow> bool" where
  "sorting_permutation keys order =
     (distinct order \<and> set order = {..<length keys} \<and> sorted (map (\<lambda>i. keys ! i) order))"

definition host_ok :: "host \<Rightarrow> bool" where
  "host_ok h = (zstd_spec (host_zstd h) \<and> (\<forall>keys. sorting_permutation keys (host_sort h keys)) \<and> sizing_ok (host_bsbf_bits h))"

text \<open>A host whose disk never refuses a write.\<close>

definition host_writes :: "host \<Rightarrow> bool" where
  "host_writes h =
     ((\<forall>out data. host_append_ok h out data) \<and> (\<forall>out. host_finalize_ok h out) \<and>
      host_temp_open_ok h \<and> host_temp_sync_ok h \<and> host_temp_close_ok h)"

text \<open>\<open>FileWriter::append\<close> and \<open>finalize\<close> (\<open>src/core/include/snii/io/file_writer.h\<close>): the state of an append-only
  writer is what it wrote; an append may be refused, and so may the call that makes the file durable.
  \<open>bytes_written\<close> is the length.\<close>

type_synonym file_out = "byte list"

definition fw_append :: "host \<Rightarrow> byte list \<Rightarrow> file_out \<Rightarrow> file_out result" where
  "fw_append h data out = (if host_append_ok h out data then Inr (out @ data) else IoError)"

definition fw_finalize :: "host \<Rightarrow> file_out \<Rightarrow> file_out result" where
  "fw_finalize h out = (if host_finalize_ok h out then Inr out else IoError)"

definition fw_bytes_written :: "file_out \<Rightarrow> u64" where
  "fw_bytes_written out = of_nat (length out)"

lemma fw_append_Inr: "fw_append h data out = Inr out' \<longleftrightarrow> host_append_ok h out data \<and> out' = out @ data"
  by (auto simp: fw_append_def)

lemma fw_append_writes [simp]: "host_writes h \<Longrightarrow> fw_append h data out = Inr (out @ data)"
  by (simp add: fw_append_def host_writes_def)

lemma fw_finalize_writes [simp]: "host_writes h \<Longrightarrow> fw_finalize h out = Inr out"
  by (simp add: fw_finalize_def host_writes_def)

lemma fw_append_safe: "fw_append h data out \<noteq> Inl OutOfBounds"
  by (simp add: fw_append_def)

text \<open>A concrete host: selection by insertion sort, a store-only compressor, a disk without limit.\<close>

definition plain_sort :: "u64 list \<Rightarrow> nat list" where
  "plain_sort keys = sort_key (\<lambda>i. keys ! i) [0..<length keys]"

definition plain_host :: host where
  "plain_host = \<lparr>host_resident_max = None, host_avx2 = True, host_xxh64 = (\<lambda>s seed. of_nat (length s) + seed),
     host_zstd = stored_zstd, host_bsbf_bits = (\<lambda>_ _. Num 300), host_sort = plain_sort,
     host_append_ok = (\<lambda>_ _. True), host_finalize_ok = (\<lambda>_. True), host_temp_open_ok = True, host_temp_sync_ok = True,
     host_temp_close_ok = True\<rparr>"

lemma plain_host_ok: "host_ok plain_host" "host_writes plain_host"
  by (auto simp: host_ok_def plain_host_def stored_zstd_spec sorting_permutation_def plain_sort_def host_writes_def sizing_ok_def)

end
