(* ===== verification/Spillable_Byte_Buffer.thy ===== *)
theory Spillable_Byte_Buffer
  imports Host
begin

text \<open>
  The build-time buffer of the DICT region and the memory accounting of a writer:
  \<open>src/core/include/snii/writer/spillable_byte_buffer.h\<close> and
  \<open>src/core/include/snii/writer/memory_reporter.h\<close>. Bytes stay in memory as a chain of chunks until
  the writer as a whole, or the buffer alone, passes its cap; then they move to a temporary file, and
  later appends go there.
\<close>

subsection \<open>MemoryReporter\<close>

text \<open>The counter is an \<open>int64_t\<close>; the callback into the embedding system has no effect here.\<close>

record memory_reporter =
  mr_current :: u64
  mr_cap_bytes :: u64

definition mr_report :: "u64 \<Rightarrow> memory_reporter \<Rightarrow> memory_reporter" where
  "mr_report delta m = m\<lparr>mr_current := mr_current m + delta\<rparr>"

definition mr_over_cap :: "memory_reporter \<Rightarrow> bool" where
  "mr_over_cap m = (mr_cap_bytes m \<noteq> 0 \<and> sint (mr_current m) \<ge> sint (mr_cap_bytes m))"

subsection \<open>The temporary file\<close>

text \<open>\<open>temp_\<close> is a \<open>LocalFileWriter\<close> (\<open>src/core/src/io/local_file.cpp\<close>), with its buffer: bytes reach the file when the
  buffer is flushed. Its operations under a host, which says whether the bytes of a \<open>write_all\<close> are written, and
  whether \<open>fsync\<close> and \<open>close\<close> succeed; \<open>temp_append_refines\<close> and \<open>temp_finalize_refines\<close> relate them to the loops
  over partial and interrupted writes of \<open>File_Io\<close>.\<close>

definition temp_write_all :: "host \<Rightarrow> byte list \<Rightarrow> local_file_writer \<Rightarrow> local_file_writer result" where
  "temp_write_all h data w =
     (if data = [] then Inr w
      else if host_append_ok h (lw_file w) data then Inr (w\<lparr>lw_file := lw_file w @ data\<rparr>) else IoError)"

definition temp_flush :: "host \<Rightarrow> local_file_writer \<Rightarrow> local_file_writer result" where
  "temp_flush h w =
     (if lw_buf w = [] then Inr w
      else and_then (temp_write_all h (lw_buf w) w) (\<lambda>w. Inr (w\<lparr>lw_buf := []\<rparr>)))"

definition temp_append :: "host \<Rightarrow> byte list \<Rightarrow> local_file_writer \<Rightarrow> local_file_writer result" where
  "temp_append h data w =
     (if \<not> lw_open w then IoError
      else if data = [] then Inr w
      else if length data \<ge> kBufCapacity then
        and_then (temp_flush h w) (\<lambda>w.
        and_then (temp_write_all h data w) (\<lambda>w.
        Inr (w\<lparr>lw_bytes_written := lw_bytes_written w + of_nat (length data)\<rparr>)))
      else
        and_then (if length (lw_buf w) + length data > kBufCapacity then temp_flush h w else Inr w) (\<lambda>w.
        Inr (w\<lparr>lw_buf := lw_buf w @ data, lw_bytes_written := lw_bytes_written w + of_nat (length data)\<rparr>)))"

definition temp_finalize :: "host \<Rightarrow> local_file_writer \<Rightarrow> local_file_writer result" where
  "temp_finalize h w =
     (if \<not> lw_open w then IoError
      else
        and_then (temp_flush h w) (\<lambda>w.
        if \<not> host_temp_sync_ok h then IoError
        else if \<not> host_temp_close_ok h then IoError
        else Inr (w\<lparr>lw_open := False\<rparr>)))"

lemma temp_append_refines:
  "writer_append data os w = Some (Inr u, w', os') \<Longrightarrow> host_writes h \<Longrightarrow> temp_append h data w = Inr w'"
  by (auto simp: writer_append_def temp_append_def temp_flush_def temp_write_all_def host_writes_def io_then_Inr
      dest!: write_all_Inr flush_buffer_Inr split: if_splits)

lemma temp_finalize_refines:
  "writer_finalize True True os w = Some (Inr u, w', os') \<Longrightarrow> host_writes h \<Longrightarrow> temp_finalize h w = Inr w'"
  by (auto simp: writer_finalize_def temp_finalize_def temp_flush_def temp_write_all_def host_writes_def io_then_Inr
      dest!: flush_buffer_Inr split: if_splits)

text \<open>What the file and its buffer hold.\<close>

definition temp_bytes :: "local_file_writer \<Rightarrow> byte list" where
  "temp_bytes w = lw_file w @ lw_buf w"

lemma temp_flush_Inr: "temp_flush h w = Inr w' \<Longrightarrow> w' = w\<lparr>lw_file := temp_bytes w, lw_buf := []\<rparr>"
  by (auto simp: temp_flush_def temp_write_all_def temp_bytes_def split: if_splits)

lemma temp_append_Inr: "temp_append h data w = Inr w' \<Longrightarrow> temp_bytes w' = temp_bytes w @ data \<and> lw_open w'"
  by (auto simp: temp_append_def temp_write_all_def temp_bytes_def dest!: temp_flush_Inr split: if_splits)

lemma temp_finalize_Inr: "temp_finalize h w = Inr w' \<Longrightarrow> lw_file w' = temp_bytes w \<and> lw_buf w' = []"
  by (auto simp: temp_finalize_def temp_bytes_def dest!: temp_flush_Inr split: if_splits)

lemma temp_write_all_writes: "host_writes h \<Longrightarrow> temp_write_all h data w = Inr (w\<lparr>lw_file := lw_file w @ data\<rparr>)"
  by (cases w) (simp add: temp_write_all_def host_writes_def)

lemma temp_flush_writes: "host_writes h \<Longrightarrow> \<exists>w'. temp_flush h w = Inr w'"
  by (simp add: temp_flush_def temp_write_all_writes)

lemma temp_append_writes: "host_writes h \<Longrightarrow> lw_open w \<Longrightarrow> \<exists>w'. temp_append h data w = Inr w'"
  using temp_flush_writes [of h w] by (auto simp: temp_append_def temp_write_all_writes)

lemma temp_finalize_writes: "host_writes h \<Longrightarrow> lw_open w \<Longrightarrow> \<exists>w'. temp_finalize h w = Inr w'"
  using temp_flush_writes [of h w] by (auto simp: temp_finalize_def host_writes_def)

lemma temp_finalize_unsynced:
  assumes "\<not> (host_temp_sync_ok h \<and> host_temp_close_ok h)"
  shows "temp_finalize h w = IoError"
proof -
  have "temp_flush h w = IoError \<or> (\<exists>w'. temp_flush h w = Inr w')" by (simp add: temp_flush_def temp_write_all_def)
  then show ?thesis using assms by (auto simp: temp_finalize_def)
qed

subsection \<open>SpillableByteBuffer\<close>

record spillable_byte_buffer =
  sbb_cap_bytes :: u64
  sbb_reporter :: "memory_reporter option"
  sbb_chunks :: "byte list list"
  sbb_ram_bytes :: u64
  sbb_spilled :: bool
  sbb_sealed :: bool
  sbb_temp :: local_file_writer
  sbb_spilled_bytes :: u64

definition sbb_new :: "u64 \<Rightarrow> memory_reporter option \<Rightarrow> spillable_byte_buffer" where
  "sbb_new cap reporter =
     \<lparr>sbb_cap_bytes = cap, sbb_reporter = reporter, sbb_chunks = [], sbb_ram_bytes = 0,
      sbb_spilled = False, sbb_sealed = False, sbb_temp = local_writer_open\<lparr>lw_open := False\<rparr>, sbb_spilled_bytes = 0\<rparr>"

definition sbb_size :: "spillable_byte_buffer \<Rightarrow> u64" where
  "sbb_size b = (if sbb_spilled b then sbb_spilled_bytes b else sbb_ram_bytes b)"

definition sbb_over_cap :: "spillable_byte_buffer \<Rightarrow> bool" where
  "sbb_over_cap b =
     ((case sbb_reporter b of None \<Rightarrow> False | Some m \<Rightarrow> mr_over_cap m) \<or> sbb_ram_bytes b \<ge> sbb_cap_bytes b)"

text \<open>Appending each non-empty chunk in turn, to the container and to the temporary file.\<close>

fun append_chunks :: "host \<Rightarrow> byte list list \<Rightarrow> file_out \<Rightarrow> file_out result" where
  "append_chunks h [] out = Inr out"
| "append_chunks h (c # cs) out =
     and_then (if c \<noteq> [] then fw_append h c out else Inr out) (\<lambda>out. append_chunks h cs out)"

fun temp_append_chunks :: "host \<Rightarrow> byte list list \<Rightarrow> local_file_writer \<Rightarrow> local_file_writer result" where
  "temp_append_chunks h [] temp = Inr temp"
| "temp_append_chunks h (c # cs) temp =
     and_then (if c \<noteq> [] then temp_append h c temp else Inr temp) (\<lambda>temp. temp_append_chunks h cs temp)"

definition spill_to_disk :: "host \<Rightarrow> spillable_byte_buffer \<Rightarrow> spillable_byte_buffer result" where
  "spill_to_disk h b =
     (if \<not> host_temp_open_ok h then IoError
      else
        and_then (temp_append_chunks h (sbb_chunks b) local_writer_open) (\<lambda>temp.
        Inr (b\<lparr>sbb_temp := temp, sbb_spilled_bytes := sbb_ram_bytes b,
               sbb_reporter := map_option (mr_report (- sbb_ram_bytes b)) (sbb_reporter b),
               sbb_chunks := [], sbb_spilled := True\<rparr>)))"

definition sbb_append :: "host \<Rightarrow> byte list \<Rightarrow> spillable_byte_buffer \<Rightarrow> spillable_byte_buffer result" where
  "sbb_append h bytes b =
     (if sbb_spilled b then
        and_then (temp_append h bytes (sbb_temp b)) (\<lambda>temp.
        Inr (b\<lparr>sbb_temp := temp, sbb_spilled_bytes := sbb_spilled_bytes b + of_nat (length bytes)\<rparr>))
      else
        let b = (if bytes \<noteq> []
                 then b\<lparr>sbb_chunks := sbb_chunks b @ [bytes],
                        sbb_ram_bytes := sbb_ram_bytes b + of_nat (length bytes),
                        sbb_reporter := map_option (mr_report (of_nat (length bytes))) (sbb_reporter b)\<rparr>
                 else b)
        in if sbb_over_cap b then spill_to_disk h b else Inr b)"

text \<open>The move append differs in ownership only.\<close>

definition sbb_append_move :: "host \<Rightarrow> byte list \<Rightarrow> spillable_byte_buffer \<Rightarrow> spillable_byte_buffer result" where
  "sbb_append_move h v b =
     (if sbb_spilled b then
        and_then (temp_append h v (sbb_temp b)) (\<lambda>temp.
        Inr (b\<lparr>sbb_temp := temp, sbb_spilled_bytes := sbb_spilled_bytes b + of_nat (length v)\<rparr>))
      else
        let b = (if v \<noteq> []
                 then b\<lparr>sbb_ram_bytes := sbb_ram_bytes b + of_nat (length v),
                        sbb_reporter := map_option (mr_report (of_nat (length v))) (sbb_reporter b),
                        sbb_chunks := sbb_chunks b @ [v]\<rparr>
                 else b)
        in if sbb_over_cap b then spill_to_disk h b else Inr b)"

definition sbb_seal :: "host \<Rightarrow> spillable_byte_buffer \<Rightarrow> spillable_byte_buffer result" where
  "sbb_seal h b =
     (if sbb_spilled b \<and> \<not> sbb_sealed b then
        and_then (temp_finalize h (sbb_temp b)) (\<lambda>temp. Inr (b\<lparr>sbb_temp := temp, sbb_sealed := True\<rparr>))
      else Inr b)"

definition kChunk :: u64 where "kChunk = push_bit 20 1"

text \<open>The copy loop over the temporary file, which sees what has reached the file, at offset \<open>off\<close>. A file is shorter than \<open>2^63\<close> bytes, so the
  offset, which is a \<open>uint64_t\<close>, does not wrap and is a natural number here.\<close>

function copy_temp :: "host \<Rightarrow> byte list \<Rightarrow> nat \<Rightarrow> nat \<Rightarrow> file_out \<Rightarrow> file_out result" where
  "copy_temp h temp tot off out =
     (if off < tot then
        let n = min (unat kChunk) (tot - off) in
        and_then (read_file temp (of_nat off) (of_nat n)) (\<lambda>buf.
        and_then (fw_append h buf out) (\<lambda>out.
        copy_temp h temp tot (off + unat kChunk) out))
      else Inr out)"
  by auto
termination
  by (relation "measure (\<lambda>(h, temp, tot, off, out). tot - off)") (auto simp: kChunk_def)

declare copy_temp.simps [simp del]

definition stream_into :: "host \<Rightarrow> spillable_byte_buffer \<Rightarrow> file_out \<Rightarrow> file_out result" where
  "stream_into h b out =
     (if \<not> sbb_spilled b then append_chunks h (sbb_chunks b) out
      else if \<not> host_temp_open_ok h then IoError
      else copy_temp h (lw_file (sbb_temp b)) (unat (sbb_spilled_bytes b)) 0 out)"

text \<open>The destructor gives back what the reporter still counts as resident.\<close>

definition sbb_destroy :: "spillable_byte_buffer \<Rightarrow> memory_reporter option" where
  "sbb_destroy b =
     (if \<not> sbb_spilled b \<and> sbb_ram_bytes b > 0
      then map_option (mr_report (- sbb_ram_bytes b)) (sbb_reporter b) else sbb_reporter b)"

subsection \<open>Invariant and refinement\<close>

text \<open>The buffer stands for the bytes appended to it, in memory or on disk.\<close>

definition sbb_bytes :: "spillable_byte_buffer \<Rightarrow> byte list" where
  "sbb_bytes b = (if sbb_spilled b then temp_bytes (sbb_temp b) else concat (sbb_chunks b))"

definition sbb_inv :: "u64 \<Rightarrow> spillable_byte_buffer \<Rightarrow> bool" where
  "sbb_inv base b =
     (sbb_size b = of_nat (length (sbb_bytes b)) \<and> (sbb_spilled b \<longrightarrow> sbb_chunks b = []) \<and>
      (sbb_spilled b \<longrightarrow> (if sbb_sealed b then lw_buf (sbb_temp b) = [] \<and> \<not> lw_open (sbb_temp b) else lw_open (sbb_temp b))) \<and>
      (sbb_sealed b \<longrightarrow> sbb_spilled b) \<and>
      (\<forall>m. sbb_reporter b = Some m \<longrightarrow> mr_current m = base + (if sbb_spilled b then 0 else sbb_ram_bytes b)))"

lemma append_chunks_Inr: "append_chunks h cs out = Inr out' \<Longrightarrow> out' = out @ concat cs"
proof (induction cs arbitrary: out)
  case (Cons c cs)
  then show ?case using Cons.IH [of "out @ c"] by (auto simp: fw_append_Inr split: if_splits)
qed simp

lemma temp_append_chunks_Inr:
  "temp_append_chunks h cs temp = Inr temp' \<Longrightarrow> lw_open temp \<Longrightarrow> temp_bytes temp' = temp_bytes temp @ concat cs \<and> lw_open temp'"
proof (induction cs arbitrary: temp)
  case (Cons c cs)
  obtain t where t: "(if c \<noteq> [] then temp_append h c temp else Inr temp) = Inr t" "temp_append_chunks h cs t = Inr temp'"
    using Cons.prems(1) by auto
  have "temp_bytes t = temp_bytes temp @ c \<and> lw_open t" using t(1) Cons.prems(2) temp_append_Inr [of h c temp t] by (auto split: if_splits)
  then show ?case using Cons.IH [OF t(2)] by simp
qed simp

lemma temp_append_chunks_writes: "host_writes h \<Longrightarrow> lw_open temp \<Longrightarrow> \<exists>temp'. temp_append_chunks h cs temp = Inr temp'"
proof (induction cs arbitrary: temp)
  case (Cons c cs)
  obtain t where "(if c \<noteq> [] then temp_append h c temp else Inr temp) = Inr t" "lw_open t"
    using temp_append_writes [OF Cons.prems, of c] temp_append_Inr [of h c temp] Cons.prems(2) by (cases "c = []") auto
  then show ?case using Cons.IH [of t] Cons.prems(1) by auto
qed simp

lemma append_chunks_writes [simp]: "host_writes h \<Longrightarrow> append_chunks h cs out = Inr (out @ concat cs)"
  by (induction cs arbitrary: out) auto

lemma sbb_append_move_eq: "sbb_append_move h v b = sbb_append h v b"
  by (cases b; cases "sbb_spilled b"; cases v) (simp_all add: sbb_append_move_def sbb_append_def)

lemma spill_to_disk_inv:
  assumes "sbb_inv base b" and "\<not> sbb_spilled b" and "spill_to_disk h b = Inr b'"
  shows "sbb_inv base b' \<and> sbb_bytes b' = sbb_bytes b \<and> sbb_sealed b' = sbb_sealed b"
proof -
  obtain temp where t: "temp_append_chunks h (sbb_chunks b) local_writer_open = Inr temp"
    and b': "b' = b\<lparr>sbb_temp := temp, sbb_spilled_bytes := sbb_ram_bytes b,
               sbb_reporter := map_option (mr_report (- sbb_ram_bytes b)) (sbb_reporter b), sbb_chunks := [], sbb_spilled := True\<rparr>"
    using assms(3) by (auto simp: spill_to_disk_def split: if_splits)
  have "temp_bytes temp = concat (sbb_chunks b)" "lw_open temp"
    using temp_append_chunks_Inr [OF t] by (simp_all add: local_writer_open_def temp_bytes_def)
  then show ?thesis using assms(1,2) by (auto simp: b' sbb_inv_def sbb_size_def sbb_bytes_def mr_report_def)
qed

lemma sbb_append_inv:
  assumes inv: "sbb_inv base b" and ap: "sbb_append h bytes b = Inr b'"
  shows "sbb_inv base b' \<and> sbb_bytes b' = sbb_bytes b @ bytes \<and> sbb_sealed b' = sbb_sealed b"
proof (cases "sbb_spilled b")
  case True
  then obtain temp where t: "temp_append h bytes (sbb_temp b) = Inr temp"
    and b': "b' = b\<lparr>sbb_temp := temp, sbb_spilled_bytes := sbb_spilled_bytes b + of_nat (length bytes)\<rparr>"
    using ap by (auto simp: sbb_append_def)
  have o: "lw_open (sbb_temp b)" using t by (auto simp: temp_append_def split: if_splits)
  then have "\<not> sbb_sealed b" using inv True by (auto simp: sbb_inv_def)
  then show ?thesis using inv True temp_append_Inr [OF t]
    by (auto simp: b' sbb_inv_def sbb_size_def sbb_bytes_def)
next
  case False
  define c where "c = (if bytes \<noteq> []
      then b\<lparr>sbb_chunks := sbb_chunks b @ [bytes], sbb_ram_bytes := sbb_ram_bytes b + of_nat (length bytes),
             sbb_reporter := map_option (mr_report (of_nat (length bytes))) (sbb_reporter b)\<rparr>
      else b)"
  have c: "sbb_inv base c" "\<not> sbb_spilled c" "sbb_bytes c = sbb_bytes b @ bytes" "sbb_sealed c = sbb_sealed b"
    using inv False by (auto simp: c_def sbb_inv_def sbb_size_def sbb_bytes_def mr_report_def)
  have "(if sbb_over_cap c then spill_to_disk h c else Inr c) = Inr b'"
    using ap False unfolding sbb_append_def c_def Let_def by (simp only: if_False)
  then show ?thesis using spill_to_disk_inv [OF c(1,2)] c by (auto split: if_splits)
qed

lemma sbb_append_writes:
  assumes "host_writes h" and "sbb_inv base b" and "\<not> sbb_sealed b"
  shows "\<exists>b'. sbb_append h bytes b = Inr b'"
proof -
  have "\<exists>b'. spill_to_disk h b = Inr b'" for b
    using assms(1) temp_append_chunks_writes [OF assms(1), of local_writer_open "sbb_chunks b"]
    by (auto simp: spill_to_disk_def host_writes_def local_writer_open_def)
  moreover have "\<exists>temp. temp_append h bytes (sbb_temp b) = Inr temp" if "sbb_spilled b"
    using temp_append_writes [OF assms(1)] assms(2,3) that by (auto simp: sbb_inv_def)
  ultimately show ?thesis by (cases "sbb_spilled b") (auto simp: sbb_append_def Let_def)
qed

lemma copy_temp_writes:
  assumes "host_writes h" and "length temp < 2 ^ 63" and "off \<le> length temp + 2 ^ 20"
  shows "copy_temp h temp (length temp) off out = Inr (out @ drop off temp)"
  using assms(3)
proof (induction "length temp - off" arbitrary: off out rule: less_induct)
  case less
  show ?case
  proof (cases "off < length temp")
    case False
    then show ?thesis by (simp add: copy_temp.simps)
  next
    case True
    let ?n = "min (unat kChunk) (length temp - off)"
    have k: "unat kChunk = 2 ^ 20" by (simp add: kChunk_def)
    have u: "unat (of_nat off :: u64) = off" "unat (of_nat ?n :: u64) = ?n"
      using True assms(2) by (intro unat_of_nat_u64; simp)+
    have "read_file temp (of_nat off) (of_nat ?n) = Inr (file_slice temp (of_nat off) (of_nat ?n))"
      using assms(2) True by (intro file_image.read_complete) (simp_all add: u)
    then have rd: "read_file temp (of_nat off) (of_nat ?n) = Inr (take ?n (drop off temp))"
      by (simp add: file_slice_def u)
    have IH: "copy_temp h temp (length temp) (off + unat kChunk) (out @ take ?n (drop off temp)) =
        Inr ((out @ take ?n (drop off temp)) @ drop (off + unat kChunk) temp)"
      using True k by (intro less) simp_all
    have "take ?n (drop off temp) @ drop (off + unat kChunk) temp = drop off temp"
      using append_take_drop_id [of "unat kChunk" "drop off temp"] True
      by (cases "unat kChunk \<le> length temp - off") (simp_all add: min_def add.commute)
    then show ?thesis using True rd IH assms(1) by (subst copy_temp.simps) (simp add: Let_def)
  qed
qed

lemma stream_into_writes:
  assumes "host_writes h" and "sbb_inv base b" and "sbb_spilled b \<longrightarrow> sbb_sealed b" and "length (sbb_bytes b) < 2 ^ 63"
  shows "stream_into h b out = Inr (out @ sbb_bytes b)"
proof (cases "sbb_spilled b")
  case False
  then show ?thesis using assms(1) by (simp add: stream_into_def sbb_bytes_def)
next
  case True
  with assms(2,3,4) have "unat (sbb_spilled_bytes b) = length (lw_file (sbb_temp b))" "sbb_bytes b = lw_file (sbb_temp b)"
    by (simp_all add: sbb_inv_def sbb_size_def sbb_bytes_def temp_bytes_def)
  then show ?thesis using True assms(1,4) copy_temp_writes [OF assms(1), of "lw_file (sbb_temp b)" 0 out]
    by (simp add: stream_into_def host_writes_def)
qed

subsection \<open>Correctness\<close>

fun sbb_appends :: "host \<Rightarrow> byte list list \<Rightarrow> spillable_byte_buffer \<Rightarrow> spillable_byte_buffer result" where
  "sbb_appends h [] b = Inr b"
| "sbb_appends h (d # ds) b = and_then (sbb_append_move h d b) (\<lambda>b. sbb_appends h ds b)"

lemma sbb_appends_writes:
  "host_writes h \<Longrightarrow> sbb_inv base b \<Longrightarrow> \<not> sbb_sealed b \<Longrightarrow>
   \<exists>b'. sbb_appends h ds b = Inr b' \<and> sbb_inv base b' \<and> sbb_bytes b' = sbb_bytes b @ concat ds \<and> \<not> sbb_sealed b'"
proof (induction ds arbitrary: b)
  case (Cons d ds)
  obtain c where c: "sbb_append h d b = Inr c" using sbb_append_writes [OF Cons.prems] by blast
  with sbb_append_inv [OF Cons.prems(2) c] Cons.IH [OF Cons.prems(1), of c] Cons.prems(3) show ?case
    by (auto simp: sbb_append_move_eq)
qed auto

lemma sbb_new_inv: "sbb_inv (case rep of None \<Rightarrow> 0 | Some m \<Rightarrow> mr_current m) (sbb_new cap rep)"
  by (auto simp: sbb_inv_def sbb_new_def sbb_size_def sbb_bytes_def)

lemma sbb_seal_inv:
  assumes inv: "sbb_inv base b" and s: "sbb_seal h b = Inr s"
  shows "sbb_inv base s \<and> sbb_bytes s = sbb_bytes b \<and> (sbb_spilled s \<longrightarrow> sbb_sealed s)"
proof (cases "sbb_spilled b \<and> \<not> sbb_sealed b")
  case True
  then obtain temp where t: "temp_finalize h (sbb_temp b) = Inr temp" "s = b\<lparr>sbb_temp := temp, sbb_sealed := True\<rparr>"
    using s by (auto simp: sbb_seal_def)
  have "\<not> lw_open temp" using t(1) by (auto simp: temp_finalize_def split: if_splits)
  then show ?thesis using inv True temp_finalize_Inr [OF t(1)]
    by (auto simp: t(2) sbb_inv_def sbb_size_def sbb_bytes_def temp_bytes_def)
next
  case False
  then have "s = b" using s by (auto simp: sbb_seal_def)
  then show ?thesis using inv False by simp
qed

lemma sbb_seal_writes: "host_writes h \<Longrightarrow> sbb_inv base b \<Longrightarrow> \<exists>s. sbb_seal h b = Inr s"
  using temp_finalize_writes [of h "sbb_temp b"] by (auto simp: sbb_seal_def sbb_inv_def)

lemma sbb_destroy_balanced: "sbb_inv base b \<Longrightarrow> sbb_destroy b = Some m \<Longrightarrow> mr_current m = base"
  by (auto simp: sbb_inv_def sbb_destroy_def mr_report_def word_gt_0 split: if_splits)

text \<open>C27: whatever the caps, a buffer that was filled by appends and sealed streams out exactly the bytes appended,
  in order, from memory or from the temporary file, of which only what was flushed can be read back; its size is their
  number; when it is destroyed the writer's memory counter is back at its value before; and where the temporary
  file cannot be made durable, sealing a buffer that spilled reports the error.\<close>

theorem spillable_buffer_refines:
  assumes "host_writes h" and "length (concat ds) < 2 ^ 63"
  shows "\<exists>b sealed. sbb_appends h ds (sbb_new cap (Some m)) = Inr b \<and> sbb_seal h b = Inr sealed \<and>
    stream_into h sealed out = Inr (out @ concat ds) \<and> unat (sbb_size b) = length (concat ds) \<and>
    (\<forall>m'. sbb_destroy b = Some m' \<longrightarrow> mr_current m' = mr_current m) \<and>
    (\<forall>h'. sbb_spilled b \<and> \<not> (host_temp_sync_ok h' \<and> host_temp_close_ok h') \<longrightarrow> sbb_seal h' b = IoError)"
proof -
  have "sbb_inv (mr_current m) (sbb_new cap (Some m))" "\<not> sbb_sealed (sbb_new cap (Some m))"
    using sbb_new_inv [of "Some m" cap] by (simp_all add: sbb_new_def)
  then obtain b where b: "sbb_appends h ds (sbb_new cap (Some m)) = Inr b" "sbb_inv (mr_current m) b" "sbb_bytes b = concat ds" "\<not> sbb_sealed b"
    using sbb_appends_writes [OF assms(1)] by (fastforce simp: sbb_new_def sbb_bytes_def)
  obtain s where s: "sbb_seal h b = Inr s" using sbb_seal_writes [OF assms(1) b(2)] by blast
  note si = sbb_seal_inv [OF b(2) s]
  have "stream_into h s out = Inr (out @ concat ds)"
    using stream_into_writes [OF assms(1), of "mr_current m" s out] si b(3) assms(2) by simp
  moreover have "unat (sbb_size b) = length (concat ds)" using b(2,3) assms(2) by (simp add: sbb_inv_def)
  moreover have "sbb_seal h' b = IoError" if "sbb_spilled b \<and> \<not> (host_temp_sync_ok h' \<and> host_temp_close_ok h')" for h'
    using that b(4) temp_finalize_unsynced [of h'] by (auto simp: sbb_seal_def)
  ultimately show ?thesis using b(1) s sbb_destroy_balanced [OF b(2)] by blast
qed

theorem spillable_buffer_refines_witness:
  "\<exists>b sealed. sbb_appends plain_host [[1, 2], [], [3]] (sbb_new 2 (Some \<lparr>mr_current = 5, mr_cap_bytes = 0\<rparr>)) = Inr b \<and>
    sbb_seal plain_host b = Inr sealed \<and> stream_into plain_host sealed [9] = Inr ([9] @ concat [[1, 2], [], [3]])"
  using spillable_buffer_refines [OF plain_host_ok(2), of "[[1, 2], [], [3]]" 2 "\<lparr>mr_current = 5, mr_cap_bytes = 0\<rparr>" "[9]"]
  by auto

end
