(* ===== verification/Chunks.thy ===== *)
theory Chunks
  imports Main
begin

text \<open>
  Cutting a list into runs of a fixed length, the last one shorter: the anchor segments of a DICT
  block and the super-blocks of a prelude are such runs.
\<close>

function chunks :: "nat \<Rightarrow> 'a list \<Rightarrow> 'a list list" where
  "chunks k xs = (if xs = [] \<or> k = 0 then [] else take k xs # chunks k (drop k xs))"
  by auto
termination by (relation "measure (\<lambda>(k, xs). length xs)") auto

declare chunks.simps [simp del]

lemma chunks_Nil [simp]: "chunks k [] = []"
  by (subst chunks.simps) simp

lemma chunks_Cons: "xs \<noteq> [] \<Longrightarrow> 0 < k \<Longrightarrow> chunks k xs = take k xs # chunks k (drop k xs)"
  by (subst chunks.simps) simp

lemma concat_chunks [simp]: "0 < k \<Longrightarrow> concat (chunks k xs) = xs"
proof (induction k xs rule: chunks.induct)
  case (1 k xs)
  then show ?case by (cases "xs = []") (simp_all add: chunks_Cons)
qed

lemma chunks_nonempty: "s \<in> set (chunks k xs) \<Longrightarrow> s \<noteq> []"
proof (induction k xs rule: chunks.induct)
  case (1 k xs)
  then show ?case by (cases "xs = [] \<or> k = 0") (auto simp: chunks_Cons chunks.simps [of 0])
qed

lemma chunks_length: "0 < k \<Longrightarrow> length (chunks k xs) = (length xs + k - 1) div k"
proof (induction k xs rule: chunks.induct)
  case (1 k xs)
  show ?case
  proof (cases "xs = []")
    case False
    with 1 have "length (chunks k xs) = Suc ((length xs - k + k - 1) div k)" by (simp add: chunks_Cons)
    also have "\<dots> = (length xs + k - 1) div k"
    proof (cases "k \<le> length xs")
      case True
      then have "length xs + k - 1 = (length xs - k + k - 1) + k" using 1(2) by simp
      then show ?thesis using 1(2) by (metis Suc_eq_plus1 div_add_self2 less_numeral_extra(3))
    next
      case nle: False
      obtain m where "length xs = Suc m" using False by (cases xs) auto
      moreover have "(m + k) div k = m div k + 1" using 1(2) by (intro div_add_self2) simp
      ultimately show ?thesis using nle by simp
    qed
    finally show ?thesis .
  qed (use 1(2) in simp)
qed

lemma chunks_nth: "0 < k \<Longrightarrow> i < length (chunks k xs) \<Longrightarrow> chunks k xs ! i = take k (drop (i * k) xs)"
proof (induction k xs arbitrary: i rule: chunks.induct)
  case (1 k xs)
  from "1.prems" have ne: "xs \<noteq> []" by auto
  show ?case
  proof (cases i)
    case (Suc j)
    with "1.prems" ne have "chunks k (drop k xs) ! j = take k (drop (j * k) (drop k xs))"
      by (intro "1.IH") (simp_all add: chunks_Cons)
    with Suc ne "1.prems" show ?thesis by (simp add: chunks_Cons add.commute)
  qed (use ne "1.prems" in \<open>simp add: chunks_Cons\<close>)
qed

lemma chunks_index: "0 < k \<Longrightarrow> i < length (chunks k xs) \<longleftrightarrow> i * k < length xs"
proof (induction k xs arbitrary: i rule: chunks.induct)
  case (1 k xs)
  show ?case
  proof (cases "xs = []")
    case False
    show ?thesis
    proof (cases i)
      case (Suc j)
      with 1 False have "j < length (chunks k (drop k xs)) \<longleftrightarrow> j * k < length (drop k xs)" by blast
      with Suc False 1(2) show ?thesis by (auto simp: chunks_Cons)
    qed (use False 1(2) in \<open>simp add: chunks_Cons\<close>)
  qed simp
qed

lemma concat_take_chunks: "0 < k \<Longrightarrow> concat (take i (chunks k xs)) = take (i * k) xs"
proof (induction k xs arbitrary: i rule: chunks.induct)
  case (1 k xs)
  show ?case
  proof (cases "xs = []")
    case False
    show ?thesis
    proof (cases i)
      case (Suc j)
      with 1 False have "concat (take j (chunks k (drop k xs))) = take (j * k) (drop k xs)" by blast
      with Suc False 1(2) show ?thesis by (simp add: chunks_Cons take_add)
    qed simp
  qed simp
qed

lemma last_take_nth:
  assumes "0 < k" and "xs \<noteq> []"
  shows "last (take k xs) = xs ! (min k (length xs) - 1)"
proof -
  have "0 < length xs" using assms(2) by simp
  then have "min k (length xs) - 1 < k" using assms(1) by linarith
  moreover have "last (take k xs) = take k xs ! (min k (length xs) - 1)"
    using assms by (subst last_conv_nth) (simp_all add: min.commute)
  ultimately show ?thesis by simp
qed

end
