(* ===== verification/Front_Coding.thy ===== *)
theory Front_Coding
  imports Byte_Stream
begin

text \<open>
  Front coding of a term against its predecessor: the functions \<open>common_prefix_len\<close>,
  \<open>write_term_key\<close> and \<open>read_term_key\<close>, which \<open>src/core/src/format/sampled_term_index.cpp\<close> and
  \<open>src/core/src/format/dict_entry.cpp\<close> both define with the same text.
\<close>

text \<open>The loop \<open>while (n < lim && term[n] == prev[n]) ++n\<close>.\<close>

function common_prefix_loop :: "nat \<Rightarrow> nat \<Rightarrow> term_bytes \<Rightarrow> term_bytes \<Rightarrow> nat" where
  "common_prefix_loop lim n t prev =
     (if n < lim \<and> t ! n = prev ! n then common_prefix_loop lim (Suc n) t prev else n)"
  by auto
termination by (relation "measure (\<lambda>(lim, n, t, prev). lim - n)") auto

declare common_prefix_loop.simps [simp del]

definition common_prefix_len :: "term_bytes \<Rightarrow> term_bytes \<Rightarrow> u32" where
  "common_prefix_len t prev =
     (let lim = (of_nat (min (length t) (length prev)) :: u32)
      in of_nat (common_prefix_loop (unat lim) 0 t prev))"

definition write_term_key :: "term_bytes \<Rightarrow> term_bytes \<Rightarrow> byte_sink \<Rightarrow> byte_sink" where
  "write_term_key t prev sink =
     (let prefix = common_prefix_len t prev;
          suffix = drop (unat prefix) t;
          sink = put_varint32 prefix sink;
          sink = put_varint32 (of_nat (length suffix)) sink
      in put_bytes suffix sink)"

definition read_term_key :: "term_bytes \<Rightarrow> byte_source \<Rightarrow> (term_bytes \<times> byte_source) result" where
  "read_term_key prev src =
     and_then (get_varint32 src) (\<lambda>(prefix, src).
     and_then (get_varint32 src) (\<lambda>(suffix_len, src).
     if unat prefix > length prev then Corruption
     else
       and_then (get_bytes (unat suffix_len) src) (\<lambda>(suffix, src).
       Inr (take (unat prefix) prev @ suffix, src))))"

subsection \<open>The shared prefix\<close>

lemma common_prefix_loop_bounds:
  "n \<le> lim \<Longrightarrow> n \<le> common_prefix_loop lim n t prev \<and> common_prefix_loop lim n t prev \<le> lim"
proof (induction lim n t prev rule: common_prefix_loop.induct)
  case (1 lim n t prev)
  then show ?case by (subst (1 2) common_prefix_loop.simps) (auto split: if_splits)
qed

lemma common_prefix_loop_take:
  "lim \<le> length t \<Longrightarrow> lim \<le> length prev \<Longrightarrow> take n t = take n prev \<Longrightarrow>
   take (common_prefix_loop lim n t prev) t = take (common_prefix_loop lim n t prev) prev"
proof (induction lim n t prev rule: common_prefix_loop.induct)
  case (1 lim n t prev)
  show ?case
  proof (cases "n < lim \<and> t ! n = prev ! n")
    case True
    with 1 have "take (Suc n) t = take (Suc n) prev" by (simp add: take_Suc_conv_app_nth)
    from "1.IH" [OF True _ _ this] 1 True show ?thesis
      by (subst (1 2) common_prefix_loop.simps) simp
  next
    case False
    with 1 show ?thesis by (subst (1 2) common_prefix_loop.simps) auto
  qed
qed

text \<open>Once the loop stops inside both terms they differ at that place: the prefix is longest.\<close>

lemma common_prefix_loop_stops:
  "n \<le> lim \<Longrightarrow> common_prefix_loop lim n t prev < lim \<Longrightarrow>
   t ! common_prefix_loop lim n t prev \<noteq> prev ! common_prefix_loop lim n t prev"
proof (induction lim n t prev rule: common_prefix_loop.induct)
  case (1 lim n t prev)
  then show ?case
    by (subst (1 2) common_prefix_loop.simps, subst (asm) (4) common_prefix_loop.simps)
      (auto split: if_splits)
qed

lemma common_prefix_len_spec:
  assumes "length t < 2 ^ 32"
  shows "unat (common_prefix_len t prev) \<le> length t"
    and "unat (common_prefix_len t prev) \<le> length prev"
    and "take (unat (common_prefix_len t prev)) t = take (unat (common_prefix_len t prev)) prev"
proof -
  define lim where "lim = min (length t) (length prev)"
  have lim: "unat (of_nat lim :: u32) = lim" using assms by (simp add: lim_def)
  have "common_prefix_loop lim 0 t prev \<le> lim"
    using common_prefix_loop_bounds [of 0 lim t prev] by simp
  then have cp: "unat (common_prefix_len t prev) = common_prefix_loop lim 0 t prev"
    using assms lim by (simp add: common_prefix_len_def Let_def flip: lim_def) (simp add: lim_def)
  with \<open>_ \<le> lim\<close> show "unat (common_prefix_len t prev) \<le> length t"
    and "unat (common_prefix_len t prev) \<le> length prev" by (simp_all add: lim_def)
  show "take (unat (common_prefix_len t prev)) t = take (unat (common_prefix_len t prev)) prev"
    unfolding cp by (rule common_prefix_loop_take) (simp_all add: lim_def)
qed

subsection \<open>The term key is a codec\<close>

definition term_key_bytes :: "term_bytes \<Rightarrow> term_bytes \<Rightarrow> byte list" where
  "term_key_bytes prev t =
     (let p = common_prefix_len t prev in
      encode_varint32 p @ encode_varint32 (of_nat (length t - unat p)) @ drop (unat p) t)"

lemma write_term_key_bytes [put_simps]: "write_term_key t prev sink = sink @ term_key_bytes prev t"
  by (simp add: write_term_key_def term_key_bytes_def put_simps Let_def)

lemma term_key_bytes_nonempty [simp]: "term_key_bytes prev t \<noteq> []"
  by (simp add: term_key_bytes_def Let_def encode_varint32_def)

lemma length_term_key: "length (term_key_bytes prev t) \<le> 10 + length t"
  using varint32_len_le_5 [of "common_prefix_len t prev"]
    varint32_len_le_5 [of "of_nat (length t - unat (common_prefix_len t prev))"]
  by (simp add: term_key_bytes_def Let_def)

interpretation term_key: codec "read_term_key prev" "\<lambda>t. write_term_key t prev" "term_key_bytes prev"
    "\<lambda>t. length t < 2 ^ 32" for prev
proof unfold_locales
  fix src assume "wf_source src"
  then show "cursor_ok src (read_term_key prev src)"
    unfolding read_term_key_def by (auto intro!: cursor_intros)
next
  fix t src assume len: "length t < 2 ^ 32" and "prefix (term_key_bytes prev t) (rest src)"
  then obtain r where r: "rest src = term_key_bytes prev t @ r" by (auto simp: prefix_def)
  then have wf: "wf_source src" by (intro wf_if_rest) simp
  let ?p = "common_prefix_len t prev"
  note sp = common_prefix_len_spec [OF len, of prev]
  have un: "unat (of_nat (length t - unat ?p) :: u32) = length t - unat ?p"
    using len by (intro unat_of_nat_u32) simp
  have "take (unat ?p) prev @ drop (unat ?p) t = t"
    using sp(3) by (metis append_take_drop_id)
  then show "read_term_key prev src = Inr (t, advance (length (term_key_bytes prev t)) src)"
    using sp wf un by (simp add: read_term_key_def term_key_bytes_def Let_def r codec_simps)
qed (simp add: put_simps)

end
