(* ===== verification/Pfor.thy ===== *)
theory Pfor
  imports Byte_Stream
begin

text \<open>
  PFOR blocks of \<open>uint32_t\<close>: \<open>src/core/src/encoding/pfor.cpp\<close>. The bit packer keeps its
  64-bit accumulator, the unpacker its unaligned 64-bit loads with the zero-padding tail loop,
  and the exception table its 32-bit index deltas. Bit widths (\<open>uint8_t\<close>, at most 32 when
  computed) are \<open>nat\<close> in the model and a byte on disk.
\<close>

subsection \<open>Widths\<close>

function bits_for :: "u32 \<Rightarrow> nat" where
  "bits_for v = (if v \<noteq> 0 then 1 + bits_for (drop_bit 1 v) else 0)"
  by pat_completeness auto
termination
  by (relation "measure unat")
    (auto simp: unat_drop_bit unat_gt_0 simp del: drop_bit_Suc)

declare bits_for.simps [simp del]

definition width_cost :: "u32 list \<Rightarrow> nat \<Rightarrow> nat" where
  "width_cost v w =
     (w * length v + 7) div 8 + length (filter (\<lambda>x. bits_for x > w) v) * 6"

definition choose_width :: "u32 list \<Rightarrow> nat" where
  "choose_width v =
     (let maxw = foldl (\<lambda>m x. max m (bits_for x)) 0 v
      in fst (foldl (\<lambda>(best, best_cost) w.
                let cost = width_cost v w
                in if cost < best_cost then (w, cost) else (best, best_cost))
              (maxw, 2 ^ 64 - 1) [0..<maxw + 1]))"

definition low_mask :: "nat \<Rightarrow> u32" where
  "low_mask w = (if w \<ge> 32 then 0xFFFFFFFF else push_bit w 1 - 1)"

subsection \<open>Bit packing\<close>

function bitpack_flush :: "u64 \<Rightarrow> nat \<Rightarrow> byte_sink \<Rightarrow> u64 \<times> nat \<times> byte_sink" where
  "bitpack_flush acc filled out =
     (if filled \<ge> 8 then bitpack_flush (drop_bit 8 acc) (filled - 8) (put_u8 (ucast acc) out)
      else (acc, filled, out))"
  by pat_completeness auto
termination
  by (relation "measure (\<lambda>(acc, filled, out). filled)") auto

declare bitpack_flush.simps [simp del]

fun bitpack_loop :: "u32 list \<Rightarrow> nat \<Rightarrow> u64 \<Rightarrow> nat \<Rightarrow> byte_sink \<Rightarrow> u64 \<times> nat \<times> byte_sink" where
  "bitpack_loop [] w acc filled out = (acc, filled, out)"
| "bitpack_loop (v # vs) w acc filled out =
     (let acc = acc OR push_bit filled (ucast (v AND low_mask w));
          (acc, filled, out) = bitpack_flush acc (filled + w) out
      in bitpack_loop vs w acc filled out)"

definition bitpack :: "u32 list \<Rightarrow> nat \<Rightarrow> byte_sink \<Rightarrow> byte_sink" where
  "bitpack v w out =
     (if w = 0 then out
      else let (acc, filled, out) = bitpack_loop v w 0 0 out
           in if filled > 0 then put_u8 (ucast acc) out else out)"

definition tail_word :: "byte list \<Rightarrow> nat \<Rightarrow> u64" where
  "tail_word base byte_off =
     foldl (\<lambda>word b. word OR push_bit ((b - byte_off) * 8) (ucast (base ! b))) 0
       [byte_off..<min (length base) (byte_off + 8)]"

function bitunpack_fast :: "byte list \<Rightarrow> nat \<Rightarrow> nat \<Rightarrow> nat \<Rightarrow> u32 list \<Rightarrow> nat \<times> u32 list" where
  "bitunpack_fast base w n i out =
     (let bit_off = w * i; byte_off = bit_off div 8 in
      if i < n \<and> byte_off \<le> length base - 8
      then bitunpack_fast base w n (Suc i)
             (out @ [ucast (drop_bit (bit_off mod 8) (load_le 8 base byte_off :: u64) AND ucast (low_mask w))])
      else (i, out))"
  by pat_completeness auto
termination
  by (relation "measure (\<lambda>(base, w, n, i, out). n - i)") auto

declare bitunpack_fast.simps [simp del]

definition bitunpack_tail :: "byte list \<Rightarrow> nat \<Rightarrow> nat \<Rightarrow> nat \<Rightarrow> u32 list" where
  "bitunpack_tail base w n i =
     map (\<lambda>i. let bit_off = w * i in
            ucast (drop_bit (bit_off mod 8) (tail_word base (bit_off div 8)) AND ucast (low_mask w)))
       [i..<n]"

definition bitunpack :: "byte_source \<Rightarrow> nat \<Rightarrow> nat \<Rightarrow> (u32 list \<times> byte_source) result" where
  "bitunpack src n w =
     (if w = 0 then Inr (replicate n 0, src)
      else let packed = (w * n + 7) div 8 in
        and_then (get_bytes packed src) (\<lambda>(base, src).
          let (i, out) = (if packed \<ge> 8 then bitunpack_fast base w n 0 [] else (0, []))
          in Inr (out @ bitunpack_tail base w n i, src)))"

subsection \<open>Blocks with exceptions\<close>

definition pfor_exceptions :: "nat \<Rightarrow> nat \<Rightarrow> u32 list \<Rightarrow> (u32 \<times> u32) list" where
  "pfor_exceptions w k values =
     map (\<lambda>(i, v). (of_nat i, v)) (filter (\<lambda>(i, v). bits_for v > w) (enumerate k values))"

fun put_exceptions :: "u32 \<Rightarrow> (u32 \<times> u32) list \<Rightarrow> byte_sink \<Rightarrow> byte_sink" where
  "put_exceptions prev [] out = out"
| "put_exceptions prev (e # es) out =
     (let out = put_varint32 (fst e - prev) out;
          out = put_varint32 (snd e) out
      in put_exceptions (fst e) es out)"

definition pfor_encode :: "u32 list \<Rightarrow> byte_sink \<Rightarrow> byte_sink" where
  "pfor_encode values out =
     (let w = choose_width values;
          exc = pfor_exceptions w 0 values;
          low = map (\<lambda>v. if bits_for v > w then 0 else v) values;
          out = put_u8 (of_nat w) out;
          out = put_varint32 (of_nat (length exc)) out;
          out = bitpack low w out
      in put_exceptions 0 exc out)"

fun get_exceptions :: "nat \<Rightarrow> nat \<Rightarrow> u32 \<Rightarrow> u32 list \<Rightarrow> byte_source \<Rightarrow>
    (u32 list \<times> byte_source) result" where
  "get_exceptions n 0 idx out src = Inr (out, src)"
| "get_exceptions n (Suc k) idx out src =
     and_then (get_varint32 src) (\<lambda>(d, src).
     and_then (get_varint32 src) (\<lambda>(val, src).
     let idx = idx + d in
     if unat idx \<ge> n then Corruption
     else get_exceptions n k idx (out[unat idx := val]) src))"

definition pfor_decode :: "nat \<Rightarrow> byte_source \<Rightarrow> (u32 list \<times> byte_source) result" where
  "pfor_decode n src =
     and_then (get_u8 src) (\<lambda>(w, src).
     and_then (get_varint32 src) (\<lambda>(n_exc, src).
     and_then (bitunpack src n (unat w)) (\<lambda>(out, src).
     get_exceptions n (unat n_exc) 0 out src)))"

subsection \<open>Widths: facts\<close>

lemma bits_for_high: "bits_for v \<le> j \<Longrightarrow> \<not> bit v j"
proof (induction v arbitrary: j rule: bits_for.induct)
  case (1 v)
  show ?case
  proof (cases "v = 0")
    case False
    with 1(2) obtain k where k: "j = Suc k" "bits_for (drop_bit 1 v) \<le> k"
      by (cases j) (auto simp: bits_for.simps [of v])
    with 1(1) [OF False, of k] show ?thesis by (simp add: bit_drop_bit_eq)
  qed simp
qed

lemma bits_for_le: "(\<And>j. n \<le> j \<Longrightarrow> \<not> bit v j) \<Longrightarrow> bits_for v \<le> n"
proof (induction n arbitrary: v)
  case 0
  then have "v = 0" by (intro bit_word_eqI) simp
  then show ?case by (simp add: bits_for.simps)
next
  case (Suc n)
  have "bits_for (drop_bit 1 v) \<le> n"
    by (rule Suc.IH) (use Suc.prems in \<open>simp add: bit_drop_bit_eq\<close>)
  then show ?case by (simp add: bits_for.simps [of v])
qed

lemma bits_for_le_32: "bits_for v \<le> 32"
  by (rule bits_for_le) (auto dest: bit_imp_le_length)

lemma foldl_max_le: "m \<le> b \<Longrightarrow> (\<And>x. x \<in> set xs \<Longrightarrow> f x \<le> b) \<Longrightarrow> foldl (\<lambda>m x. max m (f x)) m xs \<le> (b :: nat)"
  by (induction xs arbitrary: m) auto

lemma choose_width_scan:
  "b \<le> m \<Longrightarrow> (\<And>w. w \<in> set ws \<Longrightarrow> w \<le> m) \<Longrightarrow>
   fst (foldl (\<lambda>(best, best_cost) w. let cost = f w in
       if cost < best_cost then (w, cost) else (best, best_cost)) (b, c) ws) \<le> (m :: nat)"
  by (induction ws arbitrary: b c) (auto simp: Let_def)

lemma choose_width_le_32: "choose_width v \<le> 32"
proof -
  let ?m = "foldl (\<lambda>m x. max m (bits_for x)) 0 v"
  have "choose_width v \<le> ?m"
    unfolding choose_width_def Let_def
    by (rule choose_width_scan [of ?m ?m _ "width_cost v", unfolded Let_def]) auto
  also have "?m \<le> 32" by (rule foldl_max_le) (auto intro: bits_for_le_32)
  finally show ?thesis .
qed

lemma bit_low_mask: "bit (low_mask w) j = (j < w \<and> j < 32)"
proof (cases "w \<ge> 32")
  case True
  have "(0xFFFFFFFF :: u32) = mask 32" by (simp add: mask_eq_exp_minus_1)
  then have "bit (0xFFFFFFFF :: u32) j = (j < 32)" by (simp only: bit_mask_iff) simp
  with True show ?thesis by (auto simp: low_mask_def simp del: bit_numeral_iff)
next
  case False
  have "low_mask w = mask w" using False by (simp add: low_mask_def mask_eq_exp_minus_1)
  with False show ?thesis by (auto simp: bit_mask_iff)
qed

subsection \<open>The packed bytes as a bit sequence\<close>

definition bits_of :: "nat \<Rightarrow> 'a :: len word \<Rightarrow> bool list" where
  "bits_of n x = map (bit x) [0..<n]"

definition stream :: "byte list \<Rightarrow> bool list" where
  "stream bs = concat (map (bits_of 8) bs)"

lemma length_bits_of [simp]: "length (bits_of n x) = n"
  by (simp add: bits_of_def)

lemma nth_bits_of [simp]: "i < n \<Longrightarrow> bits_of n x ! i = bit x i"
  by (simp add: bits_of_def)

lemma bits_of_add: "bits_of (m + n) x = bits_of m x @ bits_of n (drop_bit m x)"
  by (rule nth_equalityI) (auto simp: bits_of_def nth_append bit_drop_bit_eq)

lemma stream_append [simp]: "stream (xs @ ys) = stream xs @ stream ys"
  by (simp add: stream_def)

lemma length_stream [simp]: "length (stream bs) = 8 * length bs"
  by (induction bs) (simp_all add: stream_def)

lemma concat_nth:
  "(\<And>x. x \<in> set xs \<Longrightarrow> length (f x) = m) \<Longrightarrow> k < m * length xs \<Longrightarrow>
   concat (map f xs) ! k = f (xs ! (k div m)) ! (k mod m)"
proof (induction xs arbitrary: k)
  case (Cons x xs)
  show ?case
  proof (cases "k < m")
    case True
    with Cons.prems show ?thesis by (simp add: nth_append)
  next
    case False
    have "0 < m" using Cons.prems(2) by (cases m) auto
    with False have "k div m = Suc ((k - m) div m)" and "(k - m) mod m = k mod m"
      by (simp_all add: le_div_geq le_mod_geq)
    with False Cons show ?thesis by (simp add: nth_append)
  qed
qed simp

lemma stream_nth: "k < 8 * length bs \<Longrightarrow> stream bs ! k = bit (bs ! (k div 8)) (k mod 8)"
  unfolding stream_def by (subst concat_nth [where m = 8]) (simp_all add: bits_of_def)

lemma bits_of_ucast8: "bits_of 8 (ucast (acc :: u64) :: byte) = bits_of 8 acc"
  by (simp add: bits_of_def bit_ucast_iff)

lemma bitpack_flush_spec:
  "\<exists>acc' filled' ys. bitpack_flush acc filled out = (acc', filled', out @ ys) \<and> filled' < 8 \<and>
     stream ys @ bits_of filled' acc' = bits_of filled acc \<and>
     ((\<forall>j. filled \<le> j \<longrightarrow> \<not> bit acc j) \<longrightarrow> (\<forall>j. filled' \<le> j \<longrightarrow> \<not> bit acc' j))"
proof (induction acc filled out rule: bitpack_flush.induct)
  case (1 acc filled out)
  show ?case
  proof (cases "filled \<ge> 8")
    case False
    then show ?thesis by (simp add: bitpack_flush.simps [of acc filled out] stream_def)
  next
    case True
    from 1 [OF True] obtain acc' filled' ys where
      e: "bitpack_flush (drop_bit 8 acc) (filled - 8) (put_u8 (ucast acc) out) =
        (acc', filled', put_u8 (ucast acc) out @ ys)" "filled' < 8"
      "stream ys @ bits_of filled' acc' = bits_of (filled - 8) (drop_bit 8 acc)"
      "(\<forall>j. filled - 8 \<le> j \<longrightarrow> \<not> bit (drop_bit 8 acc) j) \<longrightarrow> (\<forall>j. filled' \<le> j \<longrightarrow> \<not> bit acc' j)"
      by blast
    have "bits_of filled acc = bits_of 8 (ucast acc :: byte) @ bits_of (filled - 8) (drop_bit 8 acc)"
      using bits_of_add [of 8 "filled - 8" acc] True by (simp add: bits_of_ucast8)
    moreover have "(\<forall>j. filled \<le> j \<longrightarrow> \<not> bit acc j) \<longrightarrow> (\<forall>j. filled' \<le> j \<longrightarrow> \<not> bit acc' j)"
      using e(4) by (auto simp: bit_drop_bit_eq)
    ultimately show ?thesis
      using e True
      by (intro exI [of _ acc'] exI [of _ filled'] exI [of _ "ucast acc # ys"])
        (simp add: bitpack_flush.simps [of acc filled out] put_u8_def stream_def)
  qed
qed

lemma bits_of_pack:
  assumes "filled < 8" and "w \<le> 32" and "\<And>j. filled \<le> j \<Longrightarrow> \<not> bit (acc :: u64) j"
  shows "bits_of (filled + w) (acc OR push_bit filled (ucast (v AND low_mask w))) =
     bits_of filled acc @ bits_of w v"
    and "filled + w \<le> j \<Longrightarrow> \<not> bit (acc OR push_bit filled (ucast (v AND low_mask w))) j"
proof -
  let ?x = "acc OR push_bit filled (ucast (v AND low_mask w))"
  have b: "bit ?x i = (if i < filled then bit acc i else i < filled + w \<and> bit v (i - filled))" for i
    using assms by (auto simp: bit_simps bit_low_mask dest: bit_imp_le_length)
  show "bits_of (filled + w) ?x = bits_of filled acc @ bits_of w v"
    by (rule nth_equalityI) (auto simp: b nth_append)
  show "filled + w \<le> j \<Longrightarrow> \<not> bit ?x j" by (simp add: b)
qed

lemma bitpack_loop_spec:
  assumes "w \<le> 32"
  shows "filled < 8 \<Longrightarrow> (\<And>j. filled \<le> j \<Longrightarrow> \<not> bit acc j) \<Longrightarrow>
   \<exists>acc' filled' ys. bitpack_loop vs w acc filled out = (acc', filled', out @ ys) \<and> filled' < 8 \<and>
     stream ys @ bits_of filled' acc' = bits_of filled acc @ concat (map (bits_of w) vs) \<and>
     (\<forall>j. filled' \<le> j \<longrightarrow> \<not> bit acc' j)"
proof (induction vs arbitrary: acc filled out)
  case Nil
  then show ?case by (simp add: stream_def)
next
  case (Cons v vs)
  let ?acc = "acc OR push_bit filled (ucast (v AND low_mask w))"
  obtain acc1 filled1 ys1 where
    1: "bitpack_flush ?acc (filled + w) out = (acc1, filled1, out @ ys1)" "filled1 < 8"
    "stream ys1 @ bits_of filled1 acc1 = bits_of (filled + w) ?acc"
    "\<forall>j. filled1 \<le> j \<longrightarrow> \<not> bit acc1 j"
    using bitpack_flush_spec [of ?acc "filled + w" out]
      bits_of_pack(2) [OF Cons.prems(1) assms, of acc _ v] Cons.prems(2) by blast
  obtain acc2 filled2 ys2 where
    2: "bitpack_loop vs w acc1 filled1 (out @ ys1) = (acc2, filled2, (out @ ys1) @ ys2)" "filled2 < 8"
    "stream ys2 @ bits_of filled2 acc2 = bits_of filled1 acc1 @ concat (map (bits_of w) vs)"
    "\<forall>j. filled2 \<le> j \<longrightarrow> \<not> bit acc2 j"
    using Cons.IH [of filled1 acc1 "out @ ys1"] 1 by blast
  have "stream (ys1 @ ys2) @ bits_of filled2 acc2 =
      bits_of filled acc @ concat (map (bits_of w) (v # vs))"
    using 1(3) 2(3) bits_of_pack(1) [OF Cons.prems(1) assms, of acc v] Cons.prems(2)
    by (simp add: append.assoc)
  then show ?case
    using 1(1) 2
    by (intro exI [of _ acc2] exI [of _ filled2] exI [of _ "ys1 @ ys2"]) (simp add: Let_def)
qed

lemma bitpack_spec:
  assumes "w \<le> 32" and "0 < w"
  obtains ys k where "bitpack vs w out = out @ ys" and "k < 8" and "8 * length ys = w * length vs + k"
    and "stream ys = concat (map (bits_of w) vs) @ replicate k False"
proof -
  obtain acc filled ys where
    l: "bitpack_loop vs w 0 0 out = (acc, filled, out @ ys)" "filled < 8"
    "stream ys @ bits_of filled acc = concat (map (bits_of w) vs)" "\<forall>j. filled \<le> j \<longrightarrow> \<not> bit acc j"
    using bitpack_loop_spec [OF assms(1), of 0 0 vs out] by (auto simp: bits_of_def)
  have len: "length (concat (map (bits_of w) vs)) = w * length vs"
    by (simp add: length_concat comp_def sum_list_triv)
  show ?thesis
  proof (cases "filled = 0")
    case True
    with l assms len show ?thesis
      by (intro that [of ys 0]) (auto simp: bitpack_def bits_of_def dest: arg_cong [where f = length])
  next
    case False
    have "bits_of 8 acc = bits_of filled acc @ replicate (8 - filled) False"
    proof (rule nth_equalityI)
      fix i assume "i < length (bits_of 8 acc)"
      with l(2,4) show "bits_of 8 acc ! i = (bits_of filled acc @ replicate (8 - filled) False) ! i"
        by (cases "i < filled") (auto simp: nth_append)
    qed (use l(2) in simp)
    then have s: "stream (ys @ [ucast acc]) = concat (map (bits_of w) vs) @ replicate (8 - filled) False"
      using l(3) by (simp add: stream_def bits_of_ucast8 flip: append.assoc)
    with l assms False len show ?thesis
      by (intro that [of "ys @ [ucast acc]" "8 - filled"])
        (auto simp: bitpack_def put_u8_def dest: arg_cong [where f = length])
  qed
qed

subsection \<open>Unpacking reads the packed bits\<close>

lemma tail_word_Suc:
  "Suc b \<le> length base \<Longrightarrow> off \<le> b \<Longrightarrow>
   foldl (\<lambda>word b. word OR push_bit ((b - off) * 8) (ucast (base ! b))) x [off..<Suc b] =
   foldl (\<lambda>word b. word OR push_bit ((b - off) * 8) (ucast (base ! b))) x [off..<b] OR
     push_bit ((b - off) * 8) (ucast (base ! b) :: u64)"
  by simp

lemma bit_tail_loop:
  "off \<le> e \<Longrightarrow> e \<le> length base \<Longrightarrow> e \<le> off + 8 \<Longrightarrow>
   bit (foldl (\<lambda>word b. word OR push_bit ((b - off) * 8) (ucast (base ! b))) (0 :: u64) [off..<e]) j =
   (j < 64 \<and> j < 8 * (e - off) \<and> stream base ! (8 * off + j))"
proof (induction e)
  case (Suc e)
  show ?case
  proof (cases "off \<le> e")
    case False
    with Suc.prems have "off = Suc e" by simp
    then show ?thesis by simp
  next
    case True
    have s: "stream base ! (8 * off + j) = bit (base ! e) (j - (e - off) * 8)"
      if "(e - off) * 8 \<le> j" and "j < 8 * (Suc e - off)"
    proof -
      have "(8 * off + j) div 8 = e" using that True by (intro div_nat_eqI) auto
      moreover from this have "(8 * off + j) mod 8 = j - (e - off) * 8"
        using that True by (simp add: modulo_nat_def)
      moreover have "8 * off + j < 8 * length base" using that Suc.prems by simp
      ultimately show ?thesis by (simp add: stream_nth)
    qed
    show ?thesis
    proof (cases "(e - off) * 8 \<le> j \<and> j < 8 * (Suc e - off)")
      case in_byte: True
      then show ?thesis
        using Suc True by (subst tail_word_Suc) (auto simp: bit_simps s)
    next
      case out: False
      then show ?thesis
        using Suc True by (subst tail_word_Suc) (auto simp: bit_simps dest: bit_imp_le_length)
    qed
  qed
qed simp

lemma bit_tail_word:
  "bit (tail_word base off) j = (j < 64 \<and> 8 * off + j < 8 * length base \<and> stream base ! (8 * off + j))"
proof (cases "off \<le> length base")
  case True
  then show ?thesis
    unfolding tail_word_def by (subst bit_tail_loop) (auto simp: min_def)
next
  case False
  then show ?thesis by (simp add: tail_word_def)
qed

lemma bit_fast_word:
  "off + 8 \<le> length base \<Longrightarrow> (load_le 8 base off :: u64) = tail_word base off"
proof (rule bit_word_eqI)
  fix j assume h: "off + 8 \<le> length base" and j: "j < LENGTH(64)"
  have "8 * off + j < 8 * length base" using h j by simp
  moreover have "(8 * off + j) div 8 = off + j div 8" and "(8 * off + j) mod 8 = j mod 8" by auto
  ultimately show "bit (load_le 8 base off :: u64) j = bit (tail_word base off) j"
    using j by (simp add: bit_load_le bit_tail_word stream_nth)
qed

definition unpack_value :: "byte list \<Rightarrow> nat \<Rightarrow> nat \<Rightarrow> u32" where
  "unpack_value base w i =
     ucast (drop_bit ((w * i) mod 8) (tail_word base ((w * i) div 8)) AND ucast (low_mask w))"

lemma bit_unpack_value:
  assumes "w \<le> 32"
  shows "bit (unpack_value base w i) j =
    (j < w \<and> w * i + j < 8 * length base \<and> stream base ! (w * i + j))"
proof -
  have "8 * ((w * i) div 8) + ((w * i) mod 8 + j) = w * i + j"
    by (metis add.assoc mult_div_mod_eq)
  moreover have "(w * i) mod 8 + j < 64" if "j < w"
  proof -
    have "(w * i) mod 8 < 8" by simp
    with that assms show ?thesis by linarith
  qed
  ultimately show ?thesis
    using assms by (auto simp: unpack_value_def bit_simps bit_low_mask bit_tail_word)
qed

lemma bitunpack_fast_spec:
  assumes "8 \<le> length base"
  shows "i \<le> n \<Longrightarrow>
     \<exists>i'. i' \<le> n \<and> bitunpack_fast base w n i (map (unpack_value base w) [0..<i]) =
       (i', map (unpack_value base w) [0..<i'])"
proof (induction "n - i" arbitrary: i)
  case 0
  then show ?case by (intro exI [of _ i]) (subst bitunpack_fast.simps, simp add: Let_def)
next
  case (Suc d)
  let ?out = "map (unpack_value base w) [0..<i]"
  have "i < n" using Suc(2) by simp
  show ?case
  proof (cases "(w * i) div 8 \<le> length base - 8")
    case False
    with Suc.prems show ?thesis by (auto simp: bitunpack_fast.simps [of base w n i ?out] Let_def)
  next
    case True
    have "(load_le 8 base (w * i div 8) :: u64) = tail_word base (w * i div 8)"
      using True assms by (intro bit_fast_word) simp
    then have "bitunpack_fast base w n i ?out = bitunpack_fast base w n (Suc i) (?out @ [unpack_value base w i])"
      using True \<open>i < n\<close> by (subst bitunpack_fast.simps) (simp add: Let_def unpack_value_def)
    with Suc(1) [of "Suc i"] Suc(2) \<open>i < n\<close> show ?thesis by auto
  qed
qed

lemma bitunpack_base:
  assumes "base = take ((w * n + 7) div 8) (rest src)" and "(w * n + 7) div 8 \<le> length (rest src)"
    and "wf_source src" and "0 < w"
  shows "bitunpack src n w =
    Inr (map (unpack_value base w) [0..<n], advance ((w * n + 7) div 8) src)"
proof -
  let ?p = "(w * n + 7) div 8"
  have len: "length base = ?p" using assms(1,2) by simp
  have g: "get_bytes ?p src = Inr (base, advance ?p src)"
    using assms(1-3) by (simp add: codec_simps)
  have t: "bitunpack_tail base w n i = map (unpack_value base w) [i..<n]" for i
    by (simp add: bitunpack_tail_def unpack_value_def Let_def)
  obtain i where i: "i \<le> n" "(if ?p \<ge> 8 then bitunpack_fast base w n 0 [] else (0, [])) =
      (i, map (unpack_value base w) [0..<i])"
    using bitunpack_fast_spec [of base 0 n w] len by (cases "?p \<ge> 8") auto
  have "map (unpack_value base w) [0..<i] @ map (unpack_value base w) [i..<n] =
      map (unpack_value base w) [0..<n]"
    using i(1) by (metis bot_nat_0.extremum le_Suc_ex map_append upt_add_eq_append)
  with g i assms(4) show ?thesis
    by (simp add: bitunpack_def Let_def t)
qed

lemma bitunpack_bitpack:
  assumes w: "w \<le> 32" and small: "\<And>v. v \<in> set vs \<Longrightarrow> bits_for v \<le> w"
    and rest: "rest src = bitpack vs w [] @ r" and wf: "wf_source src"
  shows "bitunpack src (length vs) w = Inr (vs, advance (length (bitpack vs w [])) src)"
proof (cases "w = 0")
  case True
  have "v = 0" if "v \<in> set vs" for v
    using small [OF that] True bits_for_high [of v] by (intro bit_word_eqI) simp
  then have "vs = replicate (length vs) 0" by (simp add: list_eq_iff_nth_eq)
  with True show ?thesis by (simp add: bitunpack_def bitpack_def)
next
  case False
  then obtain ys k where ys: "bitpack vs w [] = ys" "k < 8" "8 * length ys = w * length vs + k"
    "stream ys = concat (map (bits_of w) vs) @ replicate k False"
    using bitpack_spec [OF w, of vs "[]"] by auto
  have packed: "(w * length vs + 7) div 8 = length ys" using ys(2,3) by linarith
  have "bitunpack src (length vs) w = Inr (map (unpack_value ys w) [0..<length vs], advance (length ys) src)"
    using bitunpack_base [of ys w "length vs" src] rest wf False by (simp add: packed ys(1))
  moreover have "unpack_value ys w i = vs ! i" if i: "i < length vs" for i
  proof (rule bit_word_eqI)
    fix j
    show "bit (unpack_value ys w i) j = bit (vs ! i) j"
    proof (cases "j < w")
      case True
      have "w * i + j < w * length vs"
      proof -
        have "w * i + j < w * Suc i" using True by simp
        also have "\<dots> \<le> w * length vs" using i by (intro mult_le_mono2) simp
        finally show ?thesis .
      qed
      moreover have "(w * i + j) div w = i" and "(w * i + j) mod w = j" using True by auto
      moreover have "length (concat (map (bits_of w) vs)) = w * length vs"
        by (simp add: length_concat comp_def sum_list_triv)
      ultimately have "stream ys ! (w * i + j) = bit (vs ! i) j"
        using True by (simp add: ys(4) nth_append concat_nth [where m = w])
      then show ?thesis
        using True w \<open>w * i + j < w * length vs\<close> ys(3) by (simp add: bit_unpack_value)
    next
      case False
      have "bits_for (vs ! i) \<le> j" using small [OF nth_mem [OF i]] False by linarith
      then show ?thesis using False w by (simp add: bit_unpack_value bits_for_high)
    qed
  qed
  then have "map (unpack_value ys w) [0..<length vs] = vs"
    by (intro nth_equalityI) simp_all
  ultimately show ?thesis by (simp add: ys(1))
qed

subsection \<open>Round trip\<close>

lemma put_exceptions_append: "put_exceptions prev es out = out @ put_exceptions prev es []"
proof (induction es arbitrary: prev out)
  case (Cons e es)
  show ?case
    by (simp add: Let_def put_simps) (subst (1 2) Cons, simp)
qed simp

lemma bitpack_flush_append:
  "bitpack_flush acc filled (out @ xs) = (case bitpack_flush acc filled xs of (a, f, ys) \<Rightarrow> (a, f, out @ ys))"
proof (induction acc filled xs rule: bitpack_flush.induct)
  case (1 acc filled xs)
  show ?case
    by (subst (1 2) bitpack_flush.simps) (use 1 in \<open>auto simp: put_u8_def\<close>)
qed

lemma bitpack_loop_append:
  "bitpack_loop vs w acc filled (out @ xs) =
     (case bitpack_loop vs w acc filled xs of (a, f, ys) \<Rightarrow> (a, f, out @ ys))"
  by (induction vs arbitrary: acc filled xs)
    (auto simp: Let_def bitpack_flush_append split: prod.splits)

lemma bitpack_append: "bitpack vs w out = out @ bitpack vs w []"
  using bitpack_loop_append [of vs w 0 0 out "[]"]
  by (auto simp: bitpack_def put_u8_def split: prod.splits)

definition pfor_bytes :: "u32 list \<Rightarrow> byte list" where
  "pfor_bytes values = pfor_encode values []"

lemma pfor_encode_bytes [put_simps]: "pfor_encode values out = out @ pfor_bytes values"
proof -
  let ?w = "choose_width values"
  let ?low = "map (\<lambda>v. if bits_for v > ?w then 0 else v) values"
  let ?h = "[of_nat ?w] @ encode_varint32 (of_nat (length (pfor_exceptions ?w 0 values)))"
  have "pfor_encode values x = x @ ?h @ bitpack ?low ?w [] @ put_exceptions 0 (pfor_exceptions ?w 0 values) []" for x
    by (simp add: pfor_encode_def Let_def put_simps)
      (subst put_exceptions_append, subst bitpack_append, simp)
  then show ?thesis unfolding pfor_bytes_def by simp
qed

lemma pfor_exceptions_Cons:
  "pfor_exceptions w k (v # vs) =
     (if bits_for v > w then (of_nat k, v) # pfor_exceptions w (Suc k) vs else pfor_exceptions w (Suc k) vs)"
  by (simp add: pfor_exceptions_def)

text \<open>Decoding the exception table restores the values its entries replaced by zero.\<close>

lemma get_exceptions_put:
  assumes "length pre + length vs = n" and "n < 2 ^ 32" and "unat prev \<le> length pre"
    and "rest src = put_exceptions prev (pfor_exceptions w (length pre) vs) [] @ r"
  shows "get_exceptions n (length (pfor_exceptions w (length pre) vs)) prev
      (pre @ map (\<lambda>v. if bits_for v > w then 0 else v) vs) src =
    Inr (pre @ vs, advance (length (put_exceptions prev (pfor_exceptions w (length pre) vs) [])) src)"
  using assms
proof (induction vs arbitrary: pre prev src)
  case Nil
  then show ?case by (simp add: pfor_exceptions_def)
next
  case (Cons v vs)
  let ?es = "pfor_exceptions w (length (pre @ [v])) vs"
  show ?case
  proof (cases "bits_for v > w")
    case False
    with Cons.IH [of "pre @ [v]" prev src] Cons.prems show ?thesis
      by (simp add: pfor_exceptions_Cons)
  next
    case True
    let ?i = "of_nat (length pre) :: u32"
    have u: "unat ?i = length pre" using Cons.prems(1,2) by simp
    let ?tail = "put_exceptions ?i ?es []"
    have ap: "put_exceptions ?i (pfor_exceptions w (Suc (length pre)) vs)
        (encode_varint32 (?i - prev) @ encode_varint32 v) =
        encode_varint32 (?i - prev) @ encode_varint32 v @ ?tail"
      using put_exceptions_append [of ?i ?es "encode_varint32 (?i - prev) @ encode_varint32 v"] by simp
    have r: "rest src = encode_varint32 (?i - prev) @ encode_varint32 v @ ?tail @ r"
      using Cons.prems(4) True
      by (simp add: pfor_exceptions_Cons Let_def put_simps ap)
    let ?src = "advance (length (encode_varint32 (?i - prev)) + length (encode_varint32 v)) src"
    have ih: "get_exceptions n (length ?es) ?i ((pre @ [v]) @ map (\<lambda>v. if bits_for v > w then 0 else v) vs) ?src =
        Inr ((pre @ [v]) @ vs, advance (length ?tail) ?src)"
      using Cons.prems r u by (intro Cons.IH) auto
    have len: "length (put_exceptions prev (pfor_exceptions w (length pre) (v # vs)) []) =
        length (encode_varint32 (?i - prev)) + length (encode_varint32 v) + length ?tail"
      using True by (simp add: pfor_exceptions_Cons Let_def put_simps ap)
    have "length pre < n" using Cons.prems(1) by simp
    with True ih r u show ?thesis
      by (subst len) (simp add: pfor_exceptions_Cons Let_def codec_simps list_update_append)
  qed
qed

lemma pfor_decode_bytes:
  assumes n: "length values < 2 ^ 32" and rest: "rest src = pfor_bytes values @ r"
  shows "pfor_decode (length values) src = Inr (values, advance (length (pfor_bytes values)) src)"
proof -
  let ?w = "choose_width values"
  let ?es = "pfor_exceptions ?w 0 values"
  let ?low = "map (\<lambda>v. if bits_for v > ?w then 0 else v) values"
  let ?c = "encode_varint32 (of_nat (length ?es))"
  have w: "?w \<le> 32" by (rule choose_width_le_32)
  then have uw: "unat (of_nat ?w :: byte) = ?w" by (simp add: unat_of_nat take_bit_nat_eq_self)
  have "length ?es \<le> length values"
    unfolding pfor_exceptions_def by (metis length_enumerate length_filter_le length_map)
  with n have ue: "unat (of_nat (length ?es) :: u32) = length ?es" by simp
  have b: "pfor_bytes values = of_nat ?w # ?c @ bitpack ?low ?w [] @ put_exceptions 0 ?es []"
    unfolding pfor_bytes_def pfor_encode_def
    by (simp add: Let_def put_simps) (subst put_exceptions_append, subst bitpack_append, simp)
  have wf: "wf_source src" by (rule wf_if_rest) (simp add: rest b)
  let ?s = "advance (Suc (length ?c)) src"
  have rs: "rest ?s = bitpack ?low ?w [] @ put_exceptions 0 ?es [] @ r"
    by (simp add: rest b)
  have "bitunpack ?s (length ?low) ?w = Inr (?low, advance (length (bitpack ?low ?w [])) ?s)"
  proof (rule bitunpack_bitpack [OF w _ rs])
    show "wf_source ?s" using wf by (simp add: rest b)
  next
    fix v assume "v \<in> set ?low"
    then show "bits_for v \<le> ?w" by (auto simp: bits_for.simps [of 0] split: if_splits)
  qed
  moreover have "get_exceptions (length values) (length ?es) 0 ?low (advance (length (bitpack ?low ?w [])) ?s) =
      Inr (values, advance (length (put_exceptions 0 ?es [])) (advance (length (bitpack ?low ?w [])) ?s))"
    using get_exceptions_put [where pre = "[]" and vs = "values" and n = "length values" and prev = "0" and w = "?w" and r = r
        and src = "advance (length (bitpack ?low ?w [])) ?s"] n
    by (simp add: rest b)
  ultimately show ?thesis
    using rest by (simp add: b pfor_decode_def codec_simps uw ue ac_simps)
qed

lemma pfor_bytes_nonempty [simp]: "pfor_bytes values \<noteq> []"
  unfolding pfor_bytes_def pfor_encode_def
  by (simp add: Let_def put_simps) (subst put_exceptions_append, subst bitpack_append, simp)

subsection \<open>Decoding arbitrary bytes\<close>

lemma get_exceptions_ok: "wf_source src \<Longrightarrow> cursor_ok src (get_exceptions n k idx out src)"
  by (induction k arbitrary: idx out src) (auto simp: Let_def intro!: cursor_intros)

lemma bitunpack_ok: "wf_source src \<Longrightarrow> cursor_ok src (bitunpack src n w)"
  by (auto simp: bitunpack_def Let_def split: prod.splits intro!: cursor_intros)

interpretation pfor: cursor_op "pfor_decode n" for n
  by unfold_locales
    (auto simp: pfor_decode_def intro!: cursor_intros bitunpack_ok get_exceptions_ok)

subsection \<open>Number of values\<close>

lemma length_bitunpack_fast:
  "i \<le> n \<Longrightarrow> length out = i \<Longrightarrow>
   fst (bitunpack_fast base w n i out) \<le> n \<and>
   length (snd (bitunpack_fast base w n i out)) = fst (bitunpack_fast base w n i out)"
proof (induction base w n i out rule: bitunpack_fast.induct)
  case (1 base w n i out)
  show ?case
    by (subst (1 2 3) bitunpack_fast.simps) (use 1 in \<open>auto simp: Let_def\<close>)
qed

lemma length_bitunpack: "bitunpack src n w = Inr (out, src') \<Longrightarrow> length out = n"
  using length_bitunpack_fast [of 0 n "[]"]
  by (auto simp: bitunpack_def bitunpack_tail_def Let_def split_beta split: if_splits)

lemma length_get_exceptions: "get_exceptions n k idx out src = Inr (out', src') \<Longrightarrow> length out' = length out"
  by (induction k arbitrary: idx out src) (auto simp: Let_def split: if_splits)

lemma pfor_decode_length: "pfor_decode n src = Inr (out, src') \<Longrightarrow> length out = n"
  by (auto simp: pfor_decode_def dest!: length_get_exceptions length_bitunpack)

subsection \<open>Size of a block\<close>

lemma length_put_exceptions: "length (put_exceptions prev es out) \<le> length out + 10 * length es"
proof (induction es arbitrary: prev out)
  case (Cons e es)
  show ?case
    using Cons [of "fst e" "put_varint32 (snd e) (put_varint32 (fst e - prev) out)"]
      varint32_len_le_5 [of "fst e - prev"] varint32_len_le_5 [of "snd e"]
    by (simp add: Let_def put_simps)
qed simp

lemma length_bitpack: "w \<le> 32 \<Longrightarrow> length (bitpack vs w out) \<le> length out + 4 * length vs + 1"
proof (cases "w = 0")
  case False
  assume w: "w \<le> 32"
  with False obtain ys k where "bitpack vs w out = out @ ys" and "k < 8"
    and "8 * length ys = w * length vs + k"
    using bitpack_spec [of w vs out] by blast
  moreover have "w * length vs \<le> 32 * length vs" by (rule mult_le_mono1 [OF w])
  ultimately show ?thesis by (simp only: length_append)
qed (simp add: bitpack_def)

lemma length_pfor_bytes: "length (pfor_bytes values) \<le> 14 * length values + 7"
proof -
  let ?w = "choose_width values"
  let ?es = "pfor_exceptions ?w 0 values"
  let ?low = "map (\<lambda>v. if bits_for v > ?w then 0 else v) values"
  let ?h = "put_varint32 (of_nat (length ?es)) [of_nat ?w]"
  have "length ?es \<le> length values"
    unfolding pfor_exceptions_def by (metis length_enumerate length_filter_le length_map)
  moreover have "length (put_exceptions 0 ?es (bitpack ?low ?w ?h)) \<le>
      length (bitpack ?low ?w ?h) + 10 * length ?es"
    by (rule length_put_exceptions)
  moreover have "length (bitpack ?low ?w ?h) \<le> length ?h + 4 * length values + 1"
    using length_bitpack [OF choose_width_le_32, of ?low "values" ?h] by simp
  moreover have "length ?h \<le> 6"
    using varint32_len_le_5 [of "of_nat (length ?es)"] by (simp add: put_simps)
  ultimately show ?thesis by (simp add: pfor_bytes_def pfor_encode_def Let_def put_u8_def)
qed

subsection \<open>Correctness\<close>

text \<open>C28: a PFOR block decodes to the values it was made from, stops exactly at its end, and
  takes at most fourteen bytes per value and seven more.\<close>

theorem pfor_roundtrip:
  assumes "length vs < 2 ^ 32"
  shows "pfor_decode (length vs) (source (pfor_encode vs [] @ r)) =
      Inr (vs, advance (length (pfor_encode vs [])) (source (pfor_encode vs [] @ r))) \<and>
    length (pfor_encode vs []) \<le> 14 * length vs + 7"
  using pfor_decode_bytes [OF assms, of "source (pfor_encode vs [] @ r)" r] length_pfor_bytes [of vs]
  by (simp add: put_simps)

theorem pfor_roundtrip_witness:
  "fst (projr (pfor_decode (length [3 :: u32, 1, 0, 70000, 2])
     (source (pfor_encode [3, 1, 0, 70000, 2] [] @ [9])))) = [3, 1, 0, 70000, 2]"
  using pfor_roundtrip [of "[3, 1, 0, 70000, 2]" "[9]"] by simp

end
