(* ===== verification/Format_Constants.thy ===== *)
theory Format_Constants
  imports Prelude
begin

text \<open>
  The on-disk contract constants of \<open>src/core/include/snii/format/format_constants.h\<close>: magics,
  versions, section type ids, index configurations and capability tiers.
\<close>

definition kContainerMagic :: u32 where "kContainerMagic = 0x49494E53"

definition kTailMagic :: u32 where "kTailMagic = 0x4C494154"

definition kFormatVersion :: u16 where "kFormatVersion = 1"

definition kMinReaderVersion :: u16 where "kMinReaderVersion = 1"

definition kMetaFormatVersion :: u16 where "kMetaFormatVersion = 1"

datatype section_type =
    kStatsBlock | kSampledTermIndex | kDictBlockDirectory | kXFilter | kSectionRefs
  | kPerIndexMetaHeader | kLogicalIndexDirectory | kTailMetaHeader | kFeatureBits

primrec section_type_id :: "section_type \<Rightarrow> byte" where
  "section_type_id kStatsBlock = 1"
| "section_type_id kSampledTermIndex = 2"
| "section_type_id kDictBlockDirectory = 3"
| "section_type_id kXFilter = 4"
| "section_type_id kSectionRefs = 5"
| "section_type_id kPerIndexMetaHeader = 6"
| "section_type_id kLogicalIndexDirectory = 7"
| "section_type_id kTailMetaHeader = 8"
| "section_type_id kFeatureBits = 9"

datatype index_config = kDocsOnly | kDocsPositions | kDocsPositionsScoring | kPositionsOffsets

datatype index_tier = kT1 | kT2 | kT3

primrec tier_id :: "index_tier \<Rightarrow> nat" where
  "tier_id kT1 = 1"
| "tier_id kT2 = 2"
| "tier_id kT3 = 3"

text \<open>\<open>IndexTier\<close> is compared by its underlying value (\<open>tier >= IndexTier::kT2\<close>).\<close>

instantiation index_tier :: linorder
begin

definition less_eq_index_tier :: "index_tier \<Rightarrow> index_tier \<Rightarrow> bool" where
  "less_eq_index_tier a b = (tier_id a \<le> tier_id b)"

definition less_index_tier :: "index_tier \<Rightarrow> index_tier \<Rightarrow> bool" where
  "less_index_tier a b = (tier_id a < tier_id b)"

instance
proof
  fix a b :: index_tier
  assume "a \<le> b" "b \<le> a"
  then show "a = b" by (cases a; cases b) (simp_all add: less_eq_index_tier_def)
qed (auto simp: less_eq_index_tier_def less_index_tier_def)

end

definition tier_of :: "index_config \<Rightarrow> index_tier" where
  "tier_of cfg =
     (if cfg = kDocsOnly then kT1 else if cfg = kDocsPositions then kT2 else kT3)"

definition has_positions :: "index_config \<Rightarrow> bool" where
  "has_positions cfg = (cfg \<noteq> kDocsOnly)"

definition has_scoring :: "index_config \<Rightarrow> bool" where
  "has_scoring cfg = (cfg = kDocsPositionsScoring)"

datatype dict_entry_kind = kPodRef | kInline

datatype dict_entry_enc = kSlim | kWindowed

definition kFrqBaseUnit :: nat where "kFrqBaseUnit = 256"

definition kSlimDfThreshold :: nat where "kSlimDfThreshold = 512"

definition kDefaultInlineThreshold :: nat where "kDefaultInlineThreshold = 256"

definition kAdaptiveWindowDfThreshold :: nat where "kAdaptiveWindowDfThreshold = 8192"

definition kAdaptiveWindowDocs :: nat where "kAdaptiveWindowDocs = 1024"

lemma has_positions_tier: "has_positions cfg = (kT2 \<le> tier_of cfg)"
  by (cases cfg) (simp_all add: has_positions_def tier_of_def less_eq_index_tier_def)

end
