(* ===== verification/Pfor_Runs.thy ===== *)
theory Pfor_Runs
  imports Pfor Format_Constants
begin

text \<open>
  Columns of more than 256 integers, cut into PFOR runs: \<open>encode_pfor_runs\<close> and
  \<open>decode_pfor_runs\<close>, which \<open>src/core/src/format/frq_pod.cpp\<close> and
  \<open>src/core/src/format/prx_pod.cpp\<close> both define with the same text. The loop index \<open>off\<close> is
  represented by what is left of the column.
\<close>

definition pfor_run :: "nat \<Rightarrow> nat" where
  "pfor_run left = (if left < kFrqBaseUnit then left else kFrqBaseUnit)"

function encode_pfor_runs :: "u32 list \<Rightarrow> byte_sink \<Rightarrow> byte_sink" where
  "encode_pfor_runs values out =
     (if values = [] then out
      else
        let run = pfor_run (length values)
        in encode_pfor_runs (drop run values) (pfor_encode (take run values) out))"
  by auto
termination
  by (relation "measure (\<lambda>(values, out). length values)") (auto simp: pfor_run_def kFrqBaseUnit_def)

function decode_pfor_runs :: "nat \<Rightarrow> byte_source \<Rightarrow> (u32 list \<times> byte_source) result" where
  "decode_pfor_runs n src =
     (if n = 0 then Inr ([], src)
      else
        let run = pfor_run n in
        and_then (pfor_decode run src) (\<lambda>(vs, src).
        and_then (decode_pfor_runs (n - run) src) (\<lambda>(ws, src).
        Inr (vs @ ws, src))))"
  by auto
termination
  by (relation "measure (\<lambda>(n, src). n)") (auto simp: pfor_run_def kFrqBaseUnit_def)

declare encode_pfor_runs.simps [simp del]
declare decode_pfor_runs.simps [simp del]

lemma pfor_run_bounds: "pfor_run n \<le> n" "pfor_run n \<le> 256" "0 < n \<Longrightarrow> 0 < pfor_run n"
  by (auto simp: pfor_run_def kFrqBaseUnit_def)

function pfor_runs_bytes :: "u32 list \<Rightarrow> byte list" where
  "pfor_runs_bytes values =
     (if values = [] then []
      else pfor_bytes (take (pfor_run (length values)) values) @
           pfor_runs_bytes (drop (pfor_run (length values)) values))"
  by auto
termination
  by (relation "measure length") (auto simp: pfor_run_def kFrqBaseUnit_def)

declare pfor_runs_bytes.simps [simp del]

lemma pfor_runs_simps [simp]:
  "encode_pfor_runs [] out = out" "decode_pfor_runs 0 src = Inr ([], src)" "pfor_runs_bytes [] = []"
  by (subst encode_pfor_runs.simps decode_pfor_runs.simps pfor_runs_bytes.simps, simp)+

lemma encode_pfor_runs_bytes [put_simps]: "encode_pfor_runs values out = out @ pfor_runs_bytes values"
proof (induction "values" out rule: encode_pfor_runs.induct)
  case (1 "values" out)
  show ?case
  proof (cases "values = []")
    case False
    from "1.IH" [OF False refl] False show ?thesis
      by (subst encode_pfor_runs.simps, subst pfor_runs_bytes.simps) (simp add: Let_def put_simps)
  qed simp
qed

lemma decode_pfor_runs_bytes:
  "rest src = pfor_runs_bytes values @ r \<Longrightarrow>
   decode_pfor_runs (length values) src = Inr (values, advance (length (pfor_runs_bytes values)) src)"
proof (induction "values" arbitrary: src rule: pfor_runs_bytes.induct)
  case (1 "values")
  show ?case
  proof (cases "values = []")
    case False
    let ?k = "pfor_run (length values)"
    let ?a = "pfor_bytes (take ?k values)"
    have k: "?k \<le> length values" "?k \<le> 256" "0 < ?k"
      using pfor_run_bounds [of "length values"] False by auto
    have r: "rest src = ?a @ pfor_runs_bytes (drop ?k values) @ r"
      using "1.prems" False by (subst (asm) pfor_runs_bytes.simps) simp
    have hd: "pfor_decode ?k src = Inr (take ?k values, advance (length ?a) src)"
      using pfor_decode_bytes [of "take ?k values" src] r k by simp
    have tl: "decode_pfor_runs (length values - ?k) (advance (length ?a) src) =
        Inr (drop ?k values, advance (length (pfor_runs_bytes (drop ?k values))) (advance (length ?a) src))"
      using "1.IH" [OF False, of "advance (length ?a) src"] r by simp
    show ?thesis using False hd tl
      by (subst decode_pfor_runs.simps, subst pfor_runs_bytes.simps) (simp add: Let_def)
  qed simp
qed

lemma pfor_runs_ok: "wf_source src \<Longrightarrow> cursor_ok src (decode_pfor_runs n src)"
proof (induction n src rule: decode_pfor_runs.induct)
  case (1 n src)
  show ?case
  proof (cases "n = 0")
    case False
    then show ?thesis using "1.prems"
      by (subst decode_pfor_runs.simps)
        (auto simp: Let_def intro!: cursor_bind pfor.ok "1.IH" [OF False refl])
  qed simp
qed

lemma decode_pfor_runs_length: "decode_pfor_runs n src = Inr (vs, src') \<Longrightarrow> length vs = n"
proof (induction n src arbitrary: vs src' rule: decode_pfor_runs.induct)
  case (1 n src)
  show ?case
  proof (cases "n = 0")
    case True
    with "1.prems" show ?thesis by simp
  next
    case False
    with "1.prems" obtain hd_vs s1 tl_vs where
      a: "pfor_decode (pfor_run n) src = Inr (hd_vs, s1)" and
      b: "decode_pfor_runs (n - pfor_run n) s1 = Inr (tl_vs, src')" and v: "vs = hd_vs @ tl_vs"
      by (subst (asm) decode_pfor_runs.simps) (auto simp: Let_def)
    from pfor_decode_length [OF a] "1.IH" [OF False refl a refl b] pfor_run_bounds(1) [of n] v
    show ?thesis by simp
  qed
qed

interpretation pfor_runs: cursor_op "decode_pfor_runs n" for n
  by unfold_locales (rule pfor_runs_ok)

lemma pfor_runs_dec [codec_simps]:
  "length vs = n \<Longrightarrow> rest src = pfor_runs_bytes vs @ r \<Longrightarrow>
   decode_pfor_runs n src = Inr (vs, advance (length (pfor_runs_bytes vs)) src)"
  using decode_pfor_runs_bytes by blast

lemma length_pfor_runs_bytes: "length (pfor_runs_bytes values) \<le> 14 * length values + 7 * (length values div 256 + 1)"
proof (induction "values" rule: pfor_runs_bytes.induct)
  case (1 "values")
  show ?case
  proof (cases "values = []")
    case False
    let ?k = "pfor_run (length values)"
    have hd: "length (pfor_bytes (take ?k values)) \<le> 14 * ?k + 7"
      using length_pfor_bytes [of "take ?k values"] pfor_run_bounds(1) [of "length values"] by simp
    have eq: "length (pfor_runs_bytes values) =
        length (pfor_bytes (take ?k values)) + length (pfor_runs_bytes (drop ?k values))"
      using False by (subst pfor_runs_bytes.simps) simp
    show ?thesis
    proof (cases "length values < 256")
      case True
      then have "?k = length values" by (simp add: pfor_run_def kFrqBaseUnit_def)
      with eq hd show ?thesis by simp
    next
      case ge: False
      then have k: "?k = 256" by (simp add: pfor_run_def kFrqBaseUnit_def)
      then have "length (pfor_runs_bytes (drop 256 values)) \<le>
          14 * (length values - 256) + 7 * ((length values - 256) div 256 + 1)"
        using "1.IH" [OF False] by simp
      moreover have "(length values - 256) div 256 = length values div 256 - 1" by simp
      ultimately show ?thesis using eq hd k ge by simp
    qed
  qed simp
qed

end
