(* ===== verification/Crc32c.thy ===== *)
theory Crc32c
  imports Byte_Stream
begin

text \<open>
  CRC32C: \<open>src/core/src/encoding/crc32c.cpp\<close>. The portable slice-by-8 routine and the
  hardware routine are modelled as written and proved equal to the byte-at-a-time definition
  \<open>crc_bytes\<close>. The SSE4.2 instructions are parameters (a record of functions), used through the
  documented equations \<open>sse42_spec\<close>. The checksum itself is proved to detect every change
  of a single byte.
\<close>

subsection \<open>The tables\<close>

definition kPoly :: u32 where
  "kPoly = 0x82F63B78"

definition crc_bit :: "u32 \<Rightarrow> u32" where
  "crc_bit c = (if c AND 1 \<noteq> 0 then kPoly XOR drop_bit 1 c else drop_bit 1 c)"

definition slice8_column0 :: "u32 list" where
  "slice8_column0 = map (\<lambda>i. (crc_bit ^^ 8) (of_nat i)) [0..<256]"

definition slice8_next :: "u32 list \<Rightarrow> u32 list" where
  "slice8_next col =
     map (\<lambda>c. slice8_column0 ! unat (c AND 0xFF) XOR drop_bit 8 c) col"

definition kSlice8 :: "u32 list list" where
  "kSlice8 = map (\<lambda>s. (slice8_next ^^ s) slice8_column0) [0..<8]"

definition slice8 :: "nat \<Rightarrow> u32 \<Rightarrow> u32" where
  "slice8 s i = kSlice8 ! s ! unat (i AND 0xFF)"

subsection \<open>The routines\<close>

definition load_le32 :: "byte list \<Rightarrow> u32" where
  "load_le32 p = ucast (p ! 0) OR push_bit 8 (ucast (p ! 1)) OR push_bit 16 (ucast (p ! 2)) OR
     push_bit 24 (ucast (p ! 3))"

fun crc32c_slice8_tail :: "u32 \<Rightarrow> byte list \<Rightarrow> u32" where
  "crc32c_slice8_tail crc [] = crc"
| "crc32c_slice8_tail crc (b # p) =
     crc32c_slice8_tail (slice8 0 (crc XOR ucast b) XOR drop_bit 8 crc) p"

function crc32c_slice8 :: "u32 \<Rightarrow> byte list \<Rightarrow> u32" where
  "crc32c_slice8 crc p =
     (if length p \<ge> 8 then
        let crc = crc XOR load_le32 p;
            hi = load_le32 (drop 4 p)
        in crc32c_slice8
             (slice8 7 crc XOR slice8 6 (drop_bit 8 crc) XOR
              slice8 5 (drop_bit 16 crc) XOR slice8 4 (drop_bit 24 crc) XOR
              slice8 3 hi XOR slice8 2 (drop_bit 8 hi) XOR
              slice8 1 (drop_bit 16 hi) XOR slice8 0 (drop_bit 24 hi)) (drop 8 p)
      else crc32c_slice8_tail crc p)"
  by pat_completeness auto
termination
  by (relation "measure (\<lambda>(crc, p). length p)") auto

declare crc32c_slice8.simps [simp del]

text \<open>The three SSE4.2 instructions; the 64-bit one takes and returns a 64-bit accumulator.\<close>

record sse42 =
  mm_crc32_u8 :: "u32 \<Rightarrow> byte \<Rightarrow> u32"
  mm_crc32_u32 :: "u32 \<Rightarrow> u32 \<Rightarrow> u32"
  mm_crc32_u64 :: "u64 \<Rightarrow> u64 \<Rightarrow> u64"

fun crc32c_hw_blocks :: "sse42 \<Rightarrow> nat \<Rightarrow> u32 \<Rightarrow> byte list \<Rightarrow> u32 \<times> byte list" where
  "crc32c_hw_blocks hw 0 crc p = (crc, p)"
| "crc32c_hw_blocks hw (Suc k) crc p =
     crc32c_hw_blocks hw k (ucast (mm_crc32_u64 hw (ucast crc) (load_le 8 p 0))) (drop 8 p)"

definition crc32c_hw :: "sse42 \<Rightarrow> u32 \<Rightarrow> byte list \<Rightarrow> u32" where
  "crc32c_hw hw crc p =
     (let (crc, p) = crc32c_hw_blocks hw (length p div 8) crc p;
          (crc, p) = (if length p \<ge> 4 then (mm_crc32_u32 hw crc (load_le32 p), drop 4 p) else (crc, p))
      in foldl (mm_crc32_u8 hw) crc p)"

text \<open>\<open>crc32c_extend\<close>; the first argument is the instruction set when \<open>kHasSse42\<close>.\<close>

definition crc32c_extend :: "sse42 option \<Rightarrow> u32 \<Rightarrow> byte list \<Rightarrow> u32" where
  "crc32c_extend hw crc data =
     (case hw of
        Some i \<Rightarrow> NOT (crc32c_hw i (NOT crc) data)
      | None \<Rightarrow> NOT (crc32c_slice8 (NOT crc) data))"

definition crc32c :: "byte list \<Rightarrow> u32" where
  "crc32c data = crc32c_extend None 0 data"

subsection \<open>Reference: one byte at a time\<close>

definition crc_byte :: "u32 \<Rightarrow> byte \<Rightarrow> u32" where
  "crc_byte crc b = (crc_bit ^^ 8) (crc XOR ucast b)"

definition crc_bytes :: "u32 \<Rightarrow> byte list \<Rightarrow> u32" where
  "crc_bytes crc p = foldl crc_byte crc p"

text \<open>The documented behaviour of the instructions: the 8-bit one folds in one byte; the 32-
  and 64-bit ones fold in the bytes of their operand, least significant first.\<close>

definition sse42_spec :: "sse42 \<Rightarrow> bool" where
  "sse42_spec hw \<longleftrightarrow>
     (\<forall>crc b. mm_crc32_u8 hw crc b = crc_byte crc b) \<and>
     (\<forall>crc v. mm_crc32_u32 hw crc v = crc_bytes crc (le_bytes 4 v)) \<and>
     (\<forall>crc v. mm_crc32_u64 hw crc v = ucast (crc_bytes (ucast crc) (le_bytes 8 v)))"

subsection \<open>Linearity\<close>

definition crc8 :: "u32 \<Rightarrow> u32" where
  "crc8 = crc_bit ^^ 8"

lemma crc_bit_alt: "crc_bit c = (if bit c 0 then kPoly else 0) XOR drop_bit 1 c"
  by (simp add: crc_bit_def and_one_eq bit_0 odd_iff_mod_2_eq_one)

lemma crc_bit_xor: "crc_bit (a XOR b) = crc_bit a XOR crc_bit b"
  by (simp add: crc_bit_alt bit_xor_iff drop_bit_xor ac_simps)

lemma crc_bit_pow_xor: "(crc_bit ^^ n) (a XOR b) = (crc_bit ^^ n) a XOR (crc_bit ^^ n) b"
  by (induction n) (simp_all add: crc_bit_xor)

lemma bit_kPoly_31: "bit kPoly 31"
  unfolding kPoly_def by (simp add: bit_numeral_rec)

lemma crc_bit_inj: "crc_bit a = crc_bit b \<Longrightarrow> a = b"
proof -
  assume eq: "crc_bit a = crc_bit b"
  have "bit (crc_bit c) 31 = bit c 0" for c
    using bit_kPoly_31 by (auto simp: crc_bit_alt bit_simps dest: bit_imp_le_length)
  with eq have b0: "bit a 0 = bit b 0" by metis
  with eq have d: "drop_bit 1 a = drop_bit 1 b" by (simp add: crc_bit_alt xor_left_cancel)
  show "a = b"
  proof (rule bit_word_eqI)
    fix n assume "n < LENGTH(32)"
    show "bit a n = bit b n"
    proof (cases n)
      case 0
      with b0 show ?thesis by simp
    next
      case (Suc m)
      from d have "bit (drop_bit 1 a) m = bit (drop_bit 1 b) m" by simp
      with Suc show ?thesis by (simp add: bit_drop_bit_eq)
    qed
  qed
qed

lemma crc_bit_pow_inj: "(crc_bit ^^ n) a = (crc_bit ^^ n) b \<Longrightarrow> a = b"
  by (induction n) (auto dest: crc_bit_inj)

lemma crc_bit_pow_shift: "(\<And>k. k < n \<Longrightarrow> \<not> bit c k) \<Longrightarrow> (crc_bit ^^ n) c = drop_bit n c"
proof (induction n arbitrary: c)
  case (Suc n)
  from Suc.prems have b0: "\<not> bit c 0" by simp
  have "\<not> bit (drop_bit 1 c) k" if "k < n" for k
    using Suc.prems [of "Suc k"] that by (simp add: bit_simps)
  then have "(crc_bit ^^ n) (drop_bit 1 c) = drop_bit n (drop_bit 1 c)" by (rule Suc.IH)
  moreover have "crc_bit c = drop_bit 1 c" using b0 by (simp add: crc_bit_alt)
  ultimately have "(crc_bit ^^ n) (crc_bit c) = drop_bit n (drop_bit 1 c)" by (simp only:)
  then show ?case by (simp add: funpow_swap1)
qed simp

lemma crc8_xor: "crc8 (a XOR b) = crc8 a XOR crc8 b"
  by (simp only: crc8_def crc_bit_pow_xor)

lemma crc8_inj: "crc8 a = crc8 b \<Longrightarrow> a = b"
  unfolding crc8_def by (rule crc_bit_pow_inj)

lemma crc8_push: "take_bit 24 x = x \<Longrightarrow> crc8 (push_bit 8 x) = x"
proof -
  assume x: "take_bit 24 x = x"
  have "crc8 (push_bit 8 x) = drop_bit 8 (push_bit 8 x)"
    unfolding crc8_def by (rule crc_bit_pow_shift) (auto simp: bit_simps)
  also have "\<dots> = take_bit 24 x"
    by (rule bit_word_eqI) (auto simp: bit_simps)
  finally show ?thesis using x by simp
qed

text \<open>One table step is the eight-fold bit step.\<close>

lemma column0_nth: "slice8_column0 ! unat (c AND 0xFF) = crc8 (c AND 0xFF)"
proof -
  show ?thesis using unat_and_0xFF [of c] by (simp add: slice8_column0_def crc8_def)
qed

lemma table_step: "crc8 (c AND 0xFF) XOR drop_bit 8 c = crc8 c"
proof -
  have split: "c = (c AND 0xFF) XOR push_bit 8 (drop_bit 8 c)"
    unfolding mask_literals by (rule bit_word_eqI) (auto simp: bit_simps)
  have "take_bit 24 (drop_bit 8 c) = drop_bit 8 c"
    by (rule bit_word_eqI) (auto simp: bit_simps dest: bit_imp_le_length)
  then have "crc8 (push_bit 8 (drop_bit 8 c)) = drop_bit 8 c" by (rule crc8_push)
  then show ?thesis by (subst (3) split) (simp add: crc8_xor)
qed

lemma slice8_next_crc8: "slice8_next col = map crc8 col"
  by (simp add: slice8_next_def column0_nth table_step)

lemma slice8_next_pow: "(slice8_next ^^ s) col = map (crc8 ^^ s) col"
  by (induction s) (simp_all add: slice8_next_crc8)

lemma slice8_eq: "s < 8 \<Longrightarrow> slice8 s c = (crc8 ^^ Suc s) (c AND 0xFF)"
proof -
  assume "s < 8"
  moreover have "unat (c AND 0xFF) < length slice8_column0"
    using unat_and_0xFF [of c] by (simp add: slice8_column0_def)
  ultimately have "slice8 s c = (crc8 ^^ s) (slice8_column0 ! unat (c AND 0xFF))"
    by (simp add: slice8_def kSlice8_def slice8_next_pow)
  then show ?thesis by (simp add: column0_nth funpow_swap1 del: funpow.simps(2) add: funpow_Suc_right)
qed

subsection \<open>The optimised routines compute the reference\<close>

lemma crc8_pow_xor: "(crc8 ^^ k) (a XOR b) = (crc8 ^^ k) a XOR (crc8 ^^ k) b"
  by (induction k) (simp_all add: crc8_xor)

lemma slice8_tail_eq: "crc32c_slice8_tail crc p = crc_bytes crc p"
proof (induction p arbitrary: crc)
  case (Cons b p)
  have d: "drop_bit 8 (crc XOR ucast b) = drop_bit 8 crc"
    by (rule bit_word_eqI) (auto simp: bit_simps dest: bit_imp_le_length)
  have "slice8 0 (crc XOR ucast b) XOR drop_bit 8 crc = crc_byte crc b"
    using table_step [of "crc XOR ucast b"] unfolding d by (simp add: slice8_eq crc_byte_def crc8_def)
  with Cons show ?case by (simp add: crc_bytes_def)
qed (simp add: crc_bytes_def)

lemma crc8_pow_push:
  assumes "take_bit 8 x = x"
  shows "(crc8 ^^ Suc k) (push_bit 8 x) = (crc8 ^^ k) x"
    and "(crc8 ^^ Suc (Suc k)) (push_bit 16 x) = (crc8 ^^ k) x"
    and "(crc8 ^^ Suc (Suc (Suc k))) (push_bit 24 x) = (crc8 ^^ k) x"
proof -
  have bx: "\<not> bit x n" if "8 \<le> n" for n
    using arg_cong [OF assms, of "\<lambda>w. bit w n"] that by (auto simp: bit_simps)
  have s: "crc8 (push_bit 8 y) = y" if "\<And>n. 24 \<le> n \<Longrightarrow> \<not> bit y n" for y
    by (rule crc8_push, rule bit_word_eqI) (use that in \<open>force simp: bit_simps not_le\<close>)
  have s1: "crc8 (push_bit 8 x) = x" by (rule s) (use bx in auto)
  have s2: "crc8 (push_bit 16 x) = push_bit 8 x"
    using s [of "push_bit 8 x"] bx by (auto simp: bit_simps)
  have s3: "crc8 (push_bit 24 x) = push_bit 16 x"
    using s [of "push_bit 16 x"] bx by (auto simp: bit_simps)
  show "(crc8 ^^ Suc k) (push_bit 8 x) = (crc8 ^^ k) x"
    by (simp only: funpow_Suc_right o_apply s1)
  show "(crc8 ^^ Suc (Suc k)) (push_bit 16 x) = (crc8 ^^ k) x"
    by (simp only: funpow_Suc_right o_apply s1 s2)
  show "(crc8 ^^ Suc (Suc (Suc k))) (push_bit 24 x) = (crc8 ^^ k) x"
    by (simp only: funpow_Suc_right o_apply s1 s2 s3)
qed

lemma crc8_pow_split:
  "(crc8 ^^ Suc (Suc (Suc (Suc k)))) c =
     (crc8 ^^ Suc (Suc (Suc (Suc k)))) (c AND 0xFF) XOR
     (crc8 ^^ Suc (Suc (Suc k))) (drop_bit 8 c AND 0xFF) XOR
     (crc8 ^^ Suc (Suc k)) (drop_bit 16 c AND 0xFF) XOR
     (crc8 ^^ Suc k) (drop_bit 24 c AND 0xFF)" (is "?l = ?r")
proof -
  let ?b = "\<lambda>n. drop_bit n c AND 0xFF"
  have c: "c = (c AND 0xFF) XOR push_bit 8 (?b 8) XOR push_bit 16 (?b 16) XOR push_bit 24 (?b 24)"
    unfolding mask_literals by (rule bit_word_eqI) (auto simp: bit_simps)
  have t: "take_bit 8 (?b n) = ?b n" for n
    unfolding mask_literals by (rule bit_word_eqI) (auto simp: bit_simps)
  show ?thesis
    by (subst (1) c) (simp only: crc8_pow_xor crc8_pow_push [OF t])
qed

lemma load_le32_eq: "load_le32 p = load_le 4 p 0"
  by (simp add: load_le32_def load_le_def upt_rec or.assoc numeral_eq_Suc)

lemma crc_bytes_append: "crc_bytes crc (p @ q) = crc_bytes (crc_bytes crc p) q"
  by (simp add: crc_bytes_def)

lemma crc_bytes_word:
  "crc_bytes crc (le_bytes 4 w) = (crc8 ^^ 4) (crc XOR w)"
proof -
  have u: "ucast (ucast (drop_bit n w) :: byte) = drop_bit n w AND 0xFF" for n
    unfolding mask_literals by (rule bit_word_eqI) (auto simp: bit_simps)
  have four: "(crc8 ^^ 4) = (\<lambda>c. crc8 (crc8 (crc8 (crc8 c))))"
    by (simp add: fun_eq_iff numeral_eq_Suc)
  have "crc_bytes crc (le_bytes 4 w) =
     crc8 (crc8 (crc8 (crc8 (crc XOR (w AND 0xFF)) XOR (drop_bit 8 w AND 0xFF)) XOR
       (drop_bit 16 w AND 0xFF)) XOR (drop_bit 24 w AND 0xFF))"
    by (simp add: le_bytes_def upt_rec crc_bytes_def crc_byte_def crc8_def u u [of 0, simplified])
  also have "\<dots> = (crc8 ^^ 4) (crc XOR w)"
    using crc8_pow_split [of 0 w]
    by (simp add: crc8_xor four ac_simps)
  finally show ?thesis .
qed

lemma crc32c_slice8_eq: "crc32c_slice8 crc p = crc_bytes crc p"
proof (induction crc p rule: crc32c_slice8.induct)
  case (1 crc p)
  show ?case
  proof (cases "length p \<ge> 8")
    case False
    then show ?thesis by (simp add: crc32c_slice8.simps [of crc p] slice8_tail_eq)
  next
    case True
    define lo hi where "lo = crc XOR load_le32 p" and "hi = load_le32 (drop 4 p)"
    have p: "p = le_bytes 4 (load_le32 p) @ le_bytes 4 hi @ drop 8 p"
      using True le_bytes_load [where 'a = 32, of 4 0 p] le_bytes_load [where 'a = 32, of 4 0 "drop 4 p"]
      unfolding hi_def load_le32_eq
      by simp (metis append_take_drop_id drop_drop numeral_Bit0)
    have four: "Suc (Suc (Suc (Suc k))) = k + 4" for k :: nat by simp
    have "crc_bytes crc p = crc_bytes ((crc8 ^^ 4) ((crc8 ^^ 4) lo XOR hi)) (drop 8 p)"
      by (subst p) (simp only: crc_bytes_append crc_bytes_word lo_def)
    also have "(crc8 ^^ 4) ((crc8 ^^ 4) lo XOR hi) = (crc8 ^^ 8) lo XOR (crc8 ^^ 4) hi"
      using funpow_add [of 4 4 crc8] by (simp add: crc8_pow_xor)
    also have "\<dots> = slice8 7 lo XOR slice8 6 (drop_bit 8 lo) XOR
              slice8 5 (drop_bit 16 lo) XOR slice8 4 (drop_bit 24 lo) XOR
              slice8 3 hi XOR slice8 2 (drop_bit 8 hi) XOR
              slice8 1 (drop_bit 16 hi) XOR slice8 0 (drop_bit 24 hi)"
      using crc8_pow_split [of 4 lo] crc8_pow_split [of 0 hi]
      by (simp add: slice8_eq xor.assoc eval_nat_numeral)
    finally show ?thesis
      using 1 [OF True lo_def hi_def] True
      by (simp add: crc32c_slice8.simps [of crc p] Let_def lo_def [symmetric] hi_def [symmetric])
  qed
qed

lemma crc32c_hw_blocks_eq:
  assumes "sse42_spec hw" and "8 * k \<le> length p"
  shows "crc32c_hw_blocks hw k crc p = (crc_bytes crc (take (8 * k) p), drop (8 * k) p)"
  using assms(2)
proof (induction k arbitrary: crc p)
  case (Suc k)
  have "le_bytes 8 (load_le 8 p 0 :: u64) = take 8 p"
    using le_bytes_load [where 'a = 64, of 8 0 p] Suc.prems by simp
  moreover have "ucast (ucast x :: u64) = (x :: u32)" for x
    by (rule bit_word_eqI) (auto simp: bit_simps)
  ultimately have "ucast (mm_crc32_u64 hw (ucast crc) (load_le 8 p 0)) = crc_bytes crc (take 8 p)"
    using assms(1) by (simp add: sse42_spec_def)
  moreover have "take 8 p @ take (8 * k) (drop 8 p) = take (8 * Suc k) p"
    by (metis add.commute mult_Suc_right take_add)
  ultimately show ?case
    using Suc by (simp add: crc_bytes_append [symmetric] add.commute)
qed (simp add: crc_bytes_def)

lemma crc32c_hw_eq:
  assumes "sse42_spec hw"
  shows "crc32c_hw hw crc p = crc_bytes crc p"
proof -
  define q where "q = drop (8 * (length p div 8)) p"
  have blocks: "crc32c_hw_blocks hw (length p div 8) crc p = (crc_bytes crc (take (8 * (length p div 8)) p), q)"
    using crc32c_hw_blocks_eq [OF assms, of "length p div 8" p crc] by (simp add: q_def)
  have byte: "foldl (mm_crc32_u8 hw) c r = crc_bytes c r" for c r
    using assms by (induction r arbitrary: c) (auto simp: sse42_spec_def crc_bytes_def)
  have word: "mm_crc32_u32 hw c (load_le32 q) = crc_bytes c (take 4 q)" if "4 \<le> length q" for c
    using assms that le_bytes_load [where 'a = 32, of 4 0 q] by (simp add: sse42_spec_def load_le32_eq)
  have p: "p = take (8 * (length p div 8)) p @ q" by (simp add: q_def)
  have "crc32c_hw hw crc p = crc_bytes (crc_bytes crc (take (8 * (length p div 8)) p)) q"
    unfolding crc32c_hw_def blocks
    by (simp add: byte word crc_bytes_append [symmetric])
  then show ?thesis by (simp add: crc_bytes_append [symmetric] p [symmetric])
qed

lemma crc32c_eq: "crc32c data = NOT (crc_bytes (NOT 0) data)"
  by (simp add: crc32c_def crc32c_extend_def crc32c_slice8_eq)

subsection \<open>Error detection\<close>

lemma crc_byte_inj_state: "crc_byte a x = crc_byte b x \<Longrightarrow> a = b"
  unfolding crc_byte_def crc8_def [symmetric] by (drule crc8_inj) (metis xor.commute xor_left_cancel)

lemma crc_byte_inj_byte: "crc_byte a x = crc_byte a y \<Longrightarrow> x = y"
proof -
  assume "crc_byte a x = crc_byte a y"
  then have "(ucast x :: u32) = ucast y"
    unfolding crc_byte_def crc8_def [symmetric] by (auto dest: crc8_inj simp: xor_left_cancel)
  then have "(ucast (ucast x :: u32) :: byte) = ucast (ucast y :: u32)" by simp
  moreover have "(ucast (ucast z :: u32) :: byte) = z" for z
    by (rule bit_word_eqI) (auto simp: bit_simps)
  ultimately show "x = y" by simp
qed

lemma crc_bytes_inj_state: "crc_bytes a p = crc_bytes b p \<Longrightarrow> a = b"
  by (induction p arbitrary: a b) (auto simp: crc_bytes_def dest: crc_byte_inj_state)

lemma crc_bytes_change:
  "crc_bytes crc (xs @ a # ys) = crc_bytes crc (xs @ b # ys) \<Longrightarrow> a = b"
proof -
  assume "crc_bytes crc (xs @ a # ys) = crc_bytes crc (xs @ b # ys)"
  then have "crc_bytes (crc_byte (crc_bytes crc xs) a) ys = crc_bytes (crc_byte (crc_bytes crc xs) b) ys"
    by (simp add: crc_bytes_def)
  from crc_bytes_inj_state [OF this] show "a = b" by (rule crc_byte_inj_byte)
qed

lemma crc32c_change: "crc32c (xs @ a # ys) = crc32c (xs @ b # ys) \<Longrightarrow> a = b"
  unfolding crc32c_eq by (rule crc_bytes_change) simp

subsection \<open>Correctness\<close>

text \<open>C29: the table-driven loop and the SSE4.2 loop compute the same checksum, that of the
  bitwise reference, from any starting value and on data of any length.\<close>

theorem crc32c_paths_agree:
  assumes "sse42_spec hw"
  shows "crc32c_extend (Some hw) crc data = crc32c_extend None crc data \<and>
    crc32c_extend None crc data = NOT (crc_bytes (NOT crc) data)"
  using assms by (simp add: crc32c_extend_def crc32c_hw_eq crc32c_slice8_eq)

definition reference_sse42 :: sse42 where
  "reference_sse42 =
     \<lparr>mm_crc32_u8 = crc_byte, mm_crc32_u32 = (\<lambda>crc v. crc_bytes crc (le_bytes 4 v)),
      mm_crc32_u64 = (\<lambda>crc v. ucast (crc_bytes (ucast crc) (le_bytes 8 v)))\<rparr>"

lemma reference_sse42_spec: "sse42_spec reference_sse42"
  by (simp add: sse42_spec_def reference_sse42_def)

theorem crc32c_paths_agree_witness:
  "sse42_spec reference_sse42 \<and>
   crc32c_extend (Some reference_sse42) 0 [1, 2, 3, 4, 5, 6, 7, 8, 9] = crc32c [1, 2, 3, 4, 5, 6, 7, 8, 9]"
  using crc32c_paths_agree [OF reference_sse42_spec, of 0 "[1, 2, 3, 4, 5, 6, 7, 8, 9]"]
    reference_sse42_spec by (simp add: crc32c_def)

end
