(* ===== verification/Frq_Pod.thy ===== *)
theory Frq_Pod
  imports Pfor_Runs Crc32c Zstd_Codec
begin

text \<open>
  The region codec of the \<open>.frq\<close> POD: \<open>src/core/src/format/frq_pod.cpp\<close>. A window's documents
  (doc-delta region) and term frequencies are each one PFOR column, stored raw or as zstd; the
  metadata that drives the decoding is kept elsewhere (dict entry or prelude).
\<close>

record frq_region_meta =
  frm_zstd :: bool
  frm_uncomp_len :: u64
  frm_disk_len :: u64
  frm_crc :: u32
  frm_verify_crc :: bool

definition default_region_meta :: frq_region_meta where
  "default_region_meta =
     \<lparr>frm_zstd = False, frm_uncomp_len = 0, frm_disk_len = 0, frm_crc = 0, frm_verify_crc = True\<rparr>"

definition kAutoZstdMinBytes :: nat where "kAutoZstdMinBytes = 512"

definition kDefaultZstdLevel :: int where "kDefaultZstdLevel = 3"

definition kMaxRegionUncompBytes :: u32 where "kMaxRegionUncompBytes = 256 * 1024 * 1024"

definition frq_kMaxWindowDocs :: u32 where "frq_kMaxWindowDocs = push_bit 24 1"

fun docs_ascending :: "u32 list \<Rightarrow> bool" where
  "docs_ascending (a # b # docs) = (\<not> b < a \<and> docs_ascending (b # docs))"
| "docs_ascending docs = True"

definition validate_docs :: "u32 list \<Rightarrow> u64 \<Rightarrow> unit result" where
  "validate_docs docs win_base =
     (if docs = [] then Inr ()
      else if (ucast (hd docs) :: u64) < win_base then InvalidArgument
      else if \<not> docs_ascending docs then InvalidArgument
      else Inr ())"

definition should_compress :: "int \<Rightarrow> nat \<Rightarrow> bool" where
  "should_compress level plain_len =
     (if level = 0 then False else if level > 0 then True else plain_len \<ge> kAutoZstdMinBytes)"

text \<open>\<open>meta\<close> is the caller's struct: \<open>verify_crc\<close> keeps the value it came with.\<close>

definition emit_region ::
  "zstd_lib \<Rightarrow> byte list \<Rightarrow> int \<Rightarrow> byte_sink \<Rightarrow> frq_region_meta \<Rightarrow> (byte_sink \<times> frq_region_meta) result" where
  "emit_region z plain level out meta =
     (let meta = meta\<lparr>frm_uncomp_len := of_nat (length plain)\<rparr> in
      and_then
        (if should_compress level (length plain)
         then and_then (zstd_compress z plain (if level > 0 then level else kDefaultZstdLevel))
                (\<lambda>disk. Inr (disk, meta\<lparr>frm_zstd := True\<rparr>))
         else Inr (plain, meta\<lparr>frm_zstd := False\<rparr>)) (\<lambda>(disk, meta).
      let meta = meta\<lparr>frm_disk_len := of_nat (length disk), frm_crc := crc32c disk\<rparr>
      in Inr (put_bytes disk out, meta)))"

definition open_region :: "zstd_lib \<Rightarrow> byte list \<Rightarrow> frq_region_meta \<Rightarrow> byte list result" where
  "open_region z disk meta =
     (if length disk \<noteq> unat (frm_disk_len meta) then Corruption
      else if frm_uncomp_len meta > ucast kMaxRegionUncompBytes then Corruption
      else if frm_verify_crc meta \<and> crc32c disk \<noteq> frm_crc meta then Corruption
      else if \<not> frm_zstd meta then
        (if frm_uncomp_len meta \<noteq> frm_disk_len meta then Corruption else Inr disk)
      else zstd_decompress z disk (unat (frm_uncomp_len meta)))"

text \<open>The delta loops of \<open>build_dd_region\<close> and \<open>decode_dd_region\<close>.\<close>

fun doc_deltas :: "u64 \<Rightarrow> u32 list \<Rightarrow> u32 list" where
  "doc_deltas prev [] = []"
| "doc_deltas prev (d # docs) = ucast (ucast d - prev) # doc_deltas (ucast d) docs"

fun doc_prefix_sums :: "u64 \<Rightarrow> u32 list \<Rightarrow> u32 list" where
  "doc_prefix_sums cur [] = []"
| "doc_prefix_sums cur (dd # dds) =
     (let cur = cur + ucast dd in ucast cur # doc_prefix_sums cur dds)"

definition build_dd_region ::
  "zstd_lib \<Rightarrow> u32 list \<Rightarrow> u64 \<Rightarrow> int \<Rightarrow> byte_sink \<Rightarrow> frq_region_meta \<Rightarrow>
   (byte_sink \<times> frq_region_meta) result" where
  "build_dd_region z docids win_base level out meta =
     and_then (validate_docs docids win_base) (\<lambda>_.
     let dd = doc_deltas win_base docids;
         plain = put_varint32 (of_nat (length docids)) [];
         plain = encode_pfor_runs dd plain
     in emit_region z plain level out meta)"

definition build_freq_region ::
  "zstd_lib \<Rightarrow> u32 list \<Rightarrow> int \<Rightarrow> byte_sink \<Rightarrow> frq_region_meta \<Rightarrow> (byte_sink \<times> frq_region_meta) result" where
  "build_freq_region z freqs level out meta =
     (let plain = encode_pfor_runs freqs [] in emit_region z plain level out meta)"

definition decode_dd_region ::
  "zstd_lib \<Rightarrow> byte list \<Rightarrow> frq_region_meta \<Rightarrow> u64 \<Rightarrow> u32 list result" where
  "decode_dd_region z dd_disk meta win_base =
     and_then (open_region z dd_disk meta) (\<lambda>plain.
     let src = source plain in
     and_then (get_varint32 src) (\<lambda>(n, src).
     if n > frq_kMaxWindowDocs then Corruption
     else
       and_then (decode_pfor_runs (unat n) src) (\<lambda>(dd, src).
       if \<not> eof src then Corruption
       else Inr (doc_prefix_sums win_base dd))))"

definition decode_freq_region ::
  "zstd_lib \<Rightarrow> byte list \<Rightarrow> frq_region_meta \<Rightarrow> nat \<Rightarrow> u32 list result" where
  "decode_freq_region z freq_disk meta doc_count =
     and_then (open_region z freq_disk meta) (\<lambda>plain.
     if doc_count = 0 then (if frm_uncomp_len meta \<noteq> 0 then Corruption else Inr [])
     else
       let src = source plain in
       and_then (decode_pfor_runs doc_count src) (\<lambda>(freqs, src).
       if \<not> eof src then Corruption else Inr freqs))"

subsection \<open>Regions\<close>

lemma docs_ascending_sorted: "docs_ascending docs = sorted docs"
  by (induction docs rule: docs_ascending.induct) (auto simp: not_less intro: order.trans)

lemma validate_docs_ok:
  "(validate_docs docs win_base = Inr ()) =
     (sorted docs \<and> (\<forall>d \<in> set docs. unat win_base \<le> unat d))"
proof (cases docs)
  case Nil
  then show ?thesis by (simp add: validate_docs_def)
next
  case (Cons d ds)
  have "(unat win_base \<le> unat d \<and> sorted (d # ds)) =
    (sorted (d # ds) \<and> (\<forall>d' \<in> set (d # ds). unat win_base \<le> unat d'))"
    by (auto simp: word_le_nat_alt)
  with Cons show ?thesis
    by (auto simp: validate_docs_def docs_ascending_sorted word_less_nat_alt not_less
        simp del: sorted_wrt.simps)
qed

text \<open>What a region that was emitted promises its reader.\<close>

definition region_of :: "zstd_lib \<Rightarrow> byte list \<Rightarrow> frq_region_meta \<Rightarrow> byte list \<Rightarrow> bool" where
  "region_of z plain meta disk =
     (length disk = unat (frm_disk_len meta) \<and> unat (frm_uncomp_len meta) = length plain \<and>
      frm_crc meta = crc32c disk \<and>
      (if frm_zstd meta then zstd_decompress z disk (length plain) = Inr plain else disk = plain))"

lemma emit_region_spec:
  assumes z: "zstd_spec z" and plain: "length plain < 2 ^ 64"
    and e: "emit_region z plain level out meta = Inr (out', meta')"
    and dl: "length out' < 2 ^ 64"
  obtains disk where "out' = out @ disk" and "region_of z plain meta' disk"
    and "frm_verify_crc meta' = frm_verify_crc meta"
proof -
  from e obtain disk where d: "out' = out @ disk" and
    m: "meta' = meta\<lparr>frm_uncomp_len := of_nat (length plain), frm_zstd := should_compress level (length plain),
        frm_disk_len := of_nat (length disk), frm_crc := crc32c disk\<rparr>" and
    c: "if should_compress level (length plain)
        then zstd_compress z plain (if level > 0 then level else kDefaultZstdLevel) = Inr disk
        else disk = plain"
    by (auto simp: emit_region_def put_bytes_def Let_def split: if_splits)
  have "region_of z plain meta' disk"
    using c plain dl d zstd_roundtrip [OF z]
    by (auto simp: region_of_def m split: if_splits)
  then show ?thesis by (rule that [OF d]) (simp add: m)
qed

lemma open_region_of:
  "region_of z plain meta disk \<Longrightarrow> length plain \<le> unat kMaxRegionUncompBytes \<Longrightarrow>
   open_region z disk meta = Inr plain"
  by (auto simp: open_region_def region_of_def word_less_nat_alt word_unat_eq_iff split: if_splits)

subsection \<open>Doc deltas\<close>

lemma length_doc_deltas [simp]: "length (doc_deltas p ds) = length ds"
  by (induction ds arbitrary: p) auto

lemma doc_prefix_sums_deltas:
  "sorted ds \<Longrightarrow> \<forall>d \<in> set ds. unat base \<le> unat d \<Longrightarrow> doc_prefix_sums base (doc_deltas base ds) = ds"
proof (induction ds arbitrary: base)
  case (Cons d ds)
  then have le: "base \<le> ucast d" and ge: "\<forall>x \<in> set ds. unat d \<le> unat x"
    by (auto simp: word_le_nat_alt)
  have "unat (ucast d - base) < 2 ^ 32"
    using le unat_u32_less [of d] by (simp add: unat_sub_if_size word_le_nat_alt)
  then have "ucast (ucast (ucast d - base :: u64) :: u32) = (ucast d - base :: u64)"
    by (intro word_unat_eq_iff [THEN iffD2]) (simp add: unsigned_ucast_eq unsigned_take_bit_eq take_bit_nat_eq_self)
  then have cur: "base + ucast (ucast (ucast d - base :: u64) :: u32) = (ucast d :: u64)" by simp
  have dd: "ucast (ucast d :: u64) = d" by (rule bit_word_eqI) (auto simp: bit_simps)
  show ?case using Cons.IH [of "ucast d"] Cons.prems ge by (simp add: cur dd Let_def)
qed simp

lemma length_doc_prefix_sums [simp]: "length (doc_prefix_sums c dds) = length dds"
  by (induction dds arbitrary: c) (auto simp: Let_def)

subsection \<open>Round trips\<close>

text \<open>No column of at most \<open>kMaxWindowDocs\<close> values reaches the cap on a region's plaintext.\<close>

lemma column_fits:
  assumes "length vs \<le> 2 ^ 24"
  shows "length (pfor_runs_bytes vs) + 5 < 2 ^ 28"
proof -
  have "length vs div 256 \<le> 2 ^ 24 div 256" using assms by (intro div_le_mono)
  with length_pfor_runs_bytes [of vs] assms show ?thesis by simp
qed

lemma decode_dd_region_build:
  assumes z: "zstd_spec z"
    and b: "build_dd_region z docids win_base level [] meta = Inr (disk, meta')"
    and n: "length docids \<le> 2 ^ 24" and dl: "length disk < 2 ^ 64"
  shows "decode_dd_region z disk meta' win_base = Inr docids"
proof -
  let ?v = "encode_varint32 (of_nat (length docids))"
  let ?p = "?v @ pfor_runs_bytes (doc_deltas win_base docids)"
  have val: "sorted docids" "\<forall>d \<in> set docids. unat win_base \<le> unat d"
    using b validate_docs_ok [of docids win_base] by (auto simp: build_dd_region_def)
  have e: "emit_region z ?p level [] meta = Inr (disk, meta')"
    using b by (auto simp: build_dd_region_def put_simps)
  have "length ?v \<le> 5" using varint32_len_le_5 [of "of_nat (length docids)"] by simp
  with column_fits [of "doc_deltas win_base docids"] n have cap: "length ?p \<le> 2 ^ 28 - 1" by simp
  then have p64: "length ?p < 2 ^ 64" by simp
  obtain r: "region_of z ?p meta' disk" by (rule emit_region_spec [OF z p64 e dl]) auto
  have "length ?p \<le> unat kMaxRegionUncompBytes"
    using cap by (simp add: kMaxRegionUncompBytes_def)
  from open_region_of [OF r this] have o: "open_region z disk meta' = Inr ?p" .
  have un: "unat (of_nat (length docids) :: u32) = length docids" using n by simp
  have nn: "\<not> frq_kMaxWindowDocs < of_nat (length docids)"
    using n un by (simp add: word_less_nat_alt frq_kMaxWindowDocs_def)
  show ?thesis
    using doc_prefix_sums_deltas [OF val]
    by (simp add: decode_dd_region_def o codec_simps un nn Let_def eof_rest
        pfor_runs_dec [where vs = "doc_deltas win_base docids" and r = "[]"])
qed

lemma decode_freq_region_build:
  assumes z: "zstd_spec z"
    and b: "build_freq_region z freqs level [] meta = Inr (disk, meta')"
    and n: "length freqs \<le> 2 ^ 24" and dl: "length disk < 2 ^ 64"
  shows "decode_freq_region z disk meta' (length freqs) = Inr freqs"
proof -
  have e: "emit_region z (pfor_runs_bytes freqs) level [] meta = Inr (disk, meta')"
    using b by (simp add: build_freq_region_def put_simps)
  have cap: "length (pfor_runs_bytes freqs) + 5 < 2 ^ 28" by (rule column_fits [OF n])
  then have pl: "length (pfor_runs_bytes freqs) < 2 ^ 64" by simp
  obtain r: "region_of z (pfor_runs_bytes freqs) meta' disk"
    by (rule emit_region_spec [OF z pl e dl]) auto
  have "length (pfor_runs_bytes freqs) \<le> unat kMaxRegionUncompBytes"
    using cap by (simp add: kMaxRegionUncompBytes_def)
  from open_region_of [OF r this] have o: "open_region z disk meta' = Inr (pfor_runs_bytes freqs)" .
  show ?thesis
  proof (cases "freqs = []")
    case True
    with r show ?thesis by (simp add: decode_freq_region_def o region_of_def unat_eq_zero)
  next
    case False
    then show ?thesis
      by (simp add: decode_freq_region_def o Let_def eof_rest
          pfor_runs_dec [where vs = freqs and r = "[]"])
  qed
qed

lemma open_region_safe: "open_region z disk meta \<noteq> Inl OutOfBounds"
  by (simp add: open_region_def zstd_decompress_safe)

lemma decode_dd_region_safe: "decode_dd_region z disk meta win_base \<noteq> Inl OutOfBounds"
  using open_region_safe [of z disk meta]
  by (auto simp: decode_dd_region_def Let_def and_then_eq_Inl split: if_splits
      dest: get_varint32_error pfor_runs.safe [THEN notE, rotated] varint32.wf_after [OF wf_source_source])

lemma decode_freq_region_safe: "decode_freq_region z disk meta n \<noteq> Inl OutOfBounds"
  using open_region_safe [of z disk meta] pfor_runs.safe [OF wf_source_source]
  by (auto simp: decode_freq_region_def Let_def and_then_eq_Inl split: if_splits)

subsection \<open>Correctness\<close>

text \<open>C13: the documents of a window decode to what was encoded, raw or compressed, whenever the
  encoder accepts them; the encoder accepts exactly the ascending documents not below the base.\<close>

theorem dd_region_roundtrip:
  assumes "zstd_spec z"
    and "build_dd_region z docids win_base level [] meta = Inr (disk, meta')"
    and "length docids \<le> 2 ^ 24" and "length disk < 2 ^ 64"
  shows "decode_dd_region z disk meta' win_base = Inr docids \<and>
    sorted docids \<and> (\<forall>d \<in> set docids. unat win_base \<le> unat d)"
  using decode_dd_region_build [OF assms] assms(2) validate_docs_ok [of docids win_base]
  by (auto simp: build_dd_region_def)

theorem dd_region_roundtrip_witness:
  "\<exists>disk meta'. build_dd_region stored_zstd [5, 9, 9] 4 3 [] default_region_meta = Inr (disk, meta') \<and>
     decode_dd_region stored_zstd disk meta' 4 = Inr [5, 9, 9]"
proof -
  let ?p = "encode_pfor_runs (doc_deltas 4 [5, 9, 9]) (put_varint32 3 [])"
  obtain disk meta' where b: "build_dd_region stored_zstd [5, 9, 9] 4 3 [] default_region_meta = Inr (disk, meta')"
    and d: "disk = ?p"
    by (simp add: build_dd_region_def validate_docs_def emit_region_def should_compress_def
        zstd_compress_def stored_zstd_def put_bytes_def Let_def)
  have "length disk \<le> 5 + (14 * 3 + 7)"
    using length_pfor_runs_bytes [of "doc_deltas 4 [5, 9, 9]"] varint32_len_le_5 [of 3]
    by (simp add: d put_simps)
  with dd_region_roundtrip [OF stored_zstd_spec b] b show ?thesis by auto
qed

text \<open>the frequencies of a window decode to what was encoded, raw or compressed.\<close>

lemma freq_region_roundtrip:
  assumes "zstd_spec z"
    and "build_freq_region z freqs level [] meta = Inr (disk, meta')"
    and "length freqs \<le> 2 ^ 24" and "length disk < 2 ^ 64"
  shows "decode_freq_region z disk meta' (length freqs) = Inr freqs"
  by (rule decode_freq_region_build [OF assms])

lemma freq_region_roundtrip_witness:
  "\<exists>disk meta'. build_freq_region stored_zstd [1, 1, 7] 0 [] default_region_meta = Inr (disk, meta') \<and>
     decode_freq_region stored_zstd disk meta' (length [1 :: u32, 1, 7]) = Inr [1, 1, 7]"
proof -
  obtain disk meta' where b: "build_freq_region stored_zstd [1, 1, 7] 0 [] default_region_meta = Inr (disk, meta')"
    and d: "disk = encode_pfor_runs [1, 1, 7] []"
    by (simp add: build_freq_region_def emit_region_def should_compress_def put_bytes_def Let_def)
  have "length disk < 2 ^ 64" using length_pfor_runs_bytes [of "[1, 1, 7]"] by (simp add: d put_simps)
  with freq_region_roundtrip [OF stored_zstd_spec b] b show ?thesis by auto
qed

end
