(* ===== verification/Dict_Entry.thy ===== *)
theory Dict_Entry
  imports Front_Coding Frq_Pod
begin

text \<open>
  One entry of the term dictionary: \<open>src/core/src/format/dict_entry.cpp\<close>. The decoder fills a
  default-constructed \<open>DictEntry\<close> field by field; the readers below take the entry built so far
  (\<open>out\<close>) and return it updated.
\<close>

record dict_entry =
  de_term :: term_bytes
  de_kind :: dict_entry_kind
  de_enc :: dict_entry_enc
  de_has_sb :: bool
  de_df :: u32
  de_ttf_delta :: u64
  de_max_freq :: u64
  de_frq_off_delta :: u64
  de_frq_len :: u64
  de_prelude_len :: u64
  de_frq_docs_len :: u64
  de_prx_off_delta :: u64
  de_prx_len :: u64
  de_dd_meta :: frq_region_meta
  de_freq_meta :: frq_region_meta
  de_inline_dd_disk_len :: u64
  de_frq_bytes :: "byte list"
  de_prx_bytes :: "byte list"

definition default_dict_entry :: dict_entry where
  "default_dict_entry =
     \<lparr>de_term = [], de_kind = kPodRef, de_enc = kSlim, de_has_sb = False, de_df = 0,
      de_ttf_delta = 0, de_max_freq = 0, de_frq_off_delta = 0, de_frq_len = 0, de_prelude_len = 0,
      de_frq_docs_len = 0, de_prx_off_delta = 0, de_prx_len = 0, de_dd_meta = default_region_meta,
      de_freq_meta = default_region_meta, de_inline_dd_disk_len = 0, de_frq_bytes = [],
      de_prx_bytes = []\<rparr>"

definition flag_kKind :: byte where "flag_kKind = push_bit 0 1"

definition flag_kEnc :: byte where "flag_kEnc = push_bit 1 1"

definition flag_kHasSb :: byte where "flag_kHasSb = push_bit 2 1"

definition pack_flags :: "dict_entry \<Rightarrow> byte" where
  "pack_flags e =
     (let f = 0;
          f = (if de_kind e = kInline then f OR flag_kKind else f);
          f = (if de_enc e = kWindowed then f OR flag_kEnc else f)
      in if de_has_sb e then f OR flag_kHasSb else f)"

definition apply_flags :: "byte \<Rightarrow> dict_entry \<Rightarrow> dict_entry" where
  "apply_flags f e =
     e\<lparr>de_kind := (if f AND flag_kKind \<noteq> 0 then kInline else kPodRef),
       de_enc := (if f AND flag_kEnc \<noteq> 0 then kWindowed else kSlim),
       de_has_sb := (f AND flag_kHasSb \<noteq> 0)\<rparr>"

definition tier_has_stats :: "index_tier \<Rightarrow> bool" where
  "tier_has_stats tier = (tier \<ge> kT2)"

subsection \<open>Encoding\<close>

definition write_stats :: "dict_entry \<Rightarrow> index_tier \<Rightarrow> byte_sink \<Rightarrow> byte_sink" where
  "write_stats e tier sink =
     (let sink = put_varint32 (de_df e) sink in
      if \<not> tier_has_stats tier then sink
      else put_varint64 (de_max_freq e) (put_varint64 (de_ttf_delta e) sink))"

definition pack_win_mode :: "dict_entry \<Rightarrow> byte" where
  "pack_win_mode e =
     (let mode = 0;
          mode = (if frm_zstd (de_dd_meta e) then mode OR push_bit 0 1 else mode)
      in if frm_zstd (de_freq_meta e) then mode OR push_bit 1 1 else mode)"

definition write_region_meta :: "dict_entry \<Rightarrow> index_tier \<Rightarrow> bool \<Rightarrow> byte_sink \<Rightarrow> byte_sink" where
  "write_region_meta e tier store_crc sink =
     (let sink = put_u8 (pack_win_mode e) sink;
          sink = put_varint64 (frm_uncomp_len (de_dd_meta e)) sink;
          sink = (if store_crc then put_fixed32 (frm_crc (de_dd_meta e)) sink else sink)
      in if \<not> tier_has_stats tier then sink
         else
           let sink = put_varint64 (frm_uncomp_len (de_freq_meta e)) sink
           in if store_crc then put_fixed32 (frm_crc (de_freq_meta e)) sink else sink)"

definition write_pod_ref :: "dict_entry \<Rightarrow> index_tier \<Rightarrow> byte_sink \<Rightarrow> byte_sink" where
  "write_pod_ref e tier sink =
     (let sink = put_varint64 (de_frq_off_delta e) sink;
          sink = put_varint64 (de_frq_len e) sink;
          sink =
            (if de_enc e = kWindowed then put_varint64 (de_prelude_len e) sink
             else
               let sink = put_varint64 (de_frq_docs_len e) sink
               in write_region_meta e tier True sink)
      in if \<not> tier_has_stats tier then sink
         else put_varint64 (de_prx_len e) (put_varint64 (de_prx_off_delta e) sink))"

definition write_inline :: "dict_entry \<Rightarrow> index_tier \<Rightarrow> byte_sink \<Rightarrow> byte_sink" where
  "write_inline e tier sink =
     (let sink = put_varint64 (of_nat (length (de_frq_bytes e))) sink;
          sink = put_bytes (de_frq_bytes e) sink;
          sink = put_varint64 (de_inline_dd_disk_len e) sink;
          sink = write_region_meta e tier False sink
      in if \<not> tier_has_stats tier then sink
         else put_bytes (de_prx_bytes e) (put_varint64 (of_nat (length (de_prx_bytes e))) sink))"

definition write_body :: "dict_entry \<Rightarrow> term_bytes \<Rightarrow> index_tier \<Rightarrow> byte_sink \<Rightarrow> byte_sink" where
  "write_body e prev tier sink =
     (let sink = write_term_key (de_term e) prev sink;
          sink = put_u8 (pack_flags e) sink;
          sink = write_stats e tier sink
      in if de_kind e = kInline then write_inline e tier sink else write_pod_ref e tier sink)"

definition encode_dict_entry :: "dict_entry \<Rightarrow> term_bytes \<Rightarrow> index_tier \<Rightarrow> byte_sink \<Rightarrow> byte_sink" where
  "encode_dict_entry e prev_term tier sink =
     (let body = write_body e prev_term tier [];
          sink = put_varint64 (of_nat (length body)) sink
      in put_bytes body sink)"

subsection \<open>Decoding\<close>

definition read_stats :: "index_tier \<Rightarrow> dict_entry \<Rightarrow> byte_source \<Rightarrow> (dict_entry \<times> byte_source) result" where
  "read_stats tier out src =
     and_then (get_varint32 src) (\<lambda>(df, src).
     let out = out\<lparr>de_df := df\<rparr> in
     if \<not> tier_has_stats tier then Inr (out, src)
     else
       and_then (get_varint64 src) (\<lambda>(ttf_delta, src).
       and_then (get_varint64 src) (\<lambda>(max_freq, src).
       Inr (out\<lparr>de_ttf_delta := ttf_delta, de_max_freq := max_freq\<rparr>, src))))"

text \<open>\<open>if (has_crc) get_fixed32(&crc)\<close>: an absent crc leaves the field as it was.\<close>

definition get_crc_if :: "bool \<Rightarrow> u32 \<Rightarrow> byte_source \<Rightarrow> (u32 \<times> byte_source) result" where
  "get_crc_if has_crc crc src = (if has_crc then get_fixed32 src else Inr (crc, src))"

definition read_region_meta :: "index_tier \<Rightarrow> bool \<Rightarrow> u64 \<Rightarrow> u64 \<Rightarrow> dict_entry \<Rightarrow> byte_source \<Rightarrow>
    (dict_entry \<times> byte_source) result" where
  "read_region_meta tier has_crc dd_disk_len freq_disk_len out src =
     and_then (get_u8 src) (\<lambda>(mode, src).
     if mode AND NOT 3 \<noteq> 0 then Corruption
     else
       and_then (get_varint64 src) (\<lambda>(dd_uncomp, src).
       and_then (get_crc_if has_crc (frm_crc (de_dd_meta out)) src) (\<lambda>(dd_crc, src).
       let out = out\<lparr>de_dd_meta :=
             \<lparr>frm_zstd = (mode AND push_bit 0 1 \<noteq> 0), frm_uncomp_len = dd_uncomp,
              frm_disk_len = dd_disk_len, frm_crc = dd_crc, frm_verify_crc = has_crc\<rparr>\<rparr> in
       if \<not> tier_has_stats tier then
         (if mode AND push_bit 1 1 \<noteq> 0 then Corruption else Inr (out, src))
       else
         and_then (get_varint64 src) (\<lambda>(freq_uncomp, src).
         and_then (get_crc_if has_crc (frm_crc (de_freq_meta out)) src) (\<lambda>(freq_crc, src).
         Inr (out\<lparr>de_freq_meta :=
             \<lparr>frm_zstd = (mode AND push_bit 1 1 \<noteq> 0), frm_uncomp_len = freq_uncomp,
              frm_disk_len = freq_disk_len, frm_crc = freq_crc, frm_verify_crc = has_crc\<rparr>\<rparr>, src))))))"

definition read_pod_ref :: "index_tier \<Rightarrow> dict_entry \<Rightarrow> byte_source \<Rightarrow> (dict_entry \<times> byte_source) result" where
  "read_pod_ref tier out src =
     and_then (get_varint64 src) (\<lambda>(frq_off_delta, src).
     and_then (get_varint64 src) (\<lambda>(frq_len, src).
     let out = out\<lparr>de_frq_off_delta := frq_off_delta, de_frq_len := frq_len\<rparr> in
     and_then
       (if de_enc out = kWindowed then
          and_then (get_varint64 src) (\<lambda>(prelude_len, src). Inr (out\<lparr>de_prelude_len := prelude_len\<rparr>, src))
        else
          and_then (get_varint64 src) (\<lambda>(frq_docs_len, src).
          if frq_docs_len > frq_len then Corruption
          else read_region_meta tier True frq_docs_len (frq_len - frq_docs_len)
                 (out\<lparr>de_frq_docs_len := frq_docs_len\<rparr>) src)) (\<lambda>(out, src).
     if \<not> tier_has_stats tier then Inr (out, src)
     else
       and_then (get_varint64 src) (\<lambda>(prx_off_delta, src).
       and_then (get_varint64 src) (\<lambda>(prx_len, src).
       Inr (out\<lparr>de_prx_off_delta := prx_off_delta, de_prx_len := prx_len\<rparr>, src))))))"

definition read_byte_blob :: "byte_source \<Rightarrow> (byte list \<times> byte_source) result" where
  "read_byte_blob src =
     and_then (get_varint64 src) (\<lambda>(len, src). get_bytes (unat len) src)"

definition read_inline :: "index_tier \<Rightarrow> dict_entry \<Rightarrow> byte_source \<Rightarrow> (dict_entry \<times> byte_source) result" where
  "read_inline tier out src =
     and_then (read_byte_blob src) (\<lambda>(frq_bytes, src).
     and_then (get_varint64 src) (\<lambda>(dd_disk_len, src).
     if unat dd_disk_len > length frq_bytes then Corruption
     else
       let freq_disk_len = of_nat (length frq_bytes) - dd_disk_len;
           out = out\<lparr>de_frq_bytes := frq_bytes, de_inline_dd_disk_len := dd_disk_len\<rparr> in
       and_then (read_region_meta tier False dd_disk_len freq_disk_len out src) (\<lambda>(out, src).
       if \<not> tier_has_stats tier then Inr (out, src)
       else and_then (read_byte_blob src) (\<lambda>(prx_bytes, src). Inr (out\<lparr>de_prx_bytes := prx_bytes\<rparr>, src)))))"

definition read_locator :: "index_tier \<Rightarrow> dict_entry \<Rightarrow> byte_source \<Rightarrow> (dict_entry \<times> byte_source) result" where
  "read_locator tier out src =
     (if de_kind out = kInline then read_inline tier out src else read_pod_ref tier out src)"

definition read_entry_len :: "byte_source \<Rightarrow> (u64 \<times> byte_source) result" where
  "read_entry_len src =
     and_then (get_varint64 src) (\<lambda>(total, src).
     if unat total > remaining src then Corruption else Inr (total, src))"

definition decode_dict_entry ::
  "term_bytes \<Rightarrow> index_tier \<Rightarrow> byte_source \<Rightarrow> (dict_entry \<times> byte_source) result" where
  "decode_dict_entry prev_term tier src =
     (let out = default_dict_entry in
      and_then (read_entry_len src) (\<lambda>(total, src).
      let body_start = src_pos src in
      and_then (read_term_key prev_term src) (\<lambda>(t, src).
      let out = out\<lparr>de_term := t\<rparr> in
      and_then (get_u8 src) (\<lambda>(flags, src).
      let out = apply_flags flags out in
      and_then (read_stats tier out src) (\<lambda>(out, src).
      and_then (read_locator tier out src) (\<lambda>(out, src).
      let consumed = src_pos src - body_start in
      if consumed \<noteq> unat total then Corruption else Inr (out, src)))))))"

definition skip_dict_entry :: "byte_source \<Rightarrow> (unit \<times> byte_source) result" where
  "skip_dict_entry src =
     and_then (read_entry_len src) (\<lambda>(total, src).
     and_then (get_bytes (unat total) src) (\<lambda>(unused, src). Inr ((), src)))"

subsection \<open>What an entry keeps\<close>

text \<open>
  The fields that reach the disk depend on the tier and on the entry's kind and encoding;
  \<open>stored_entry\<close> is the entry with every other field at its default. Lengths of regions are not
  stored but recomputed from the lengths around them, and the checksum of an inline region is left
  to the block.
\<close>

definition stored_region :: "bool \<Rightarrow> u64 \<Rightarrow> frq_region_meta \<Rightarrow> frq_region_meta" where
  "stored_region has_crc disk_len m =
     \<lparr>frm_zstd = frm_zstd m, frm_uncomp_len = frm_uncomp_len m, frm_disk_len = disk_len,
      frm_crc = (if has_crc then frm_crc m else 0), frm_verify_crc = has_crc\<rparr>"

definition stored_key :: "index_tier \<Rightarrow> dict_entry \<Rightarrow> dict_entry" where
  "stored_key tier e =
     (let k = default_dict_entry\<lparr>de_term := de_term e, de_kind := de_kind e, de_enc := de_enc e,
                de_has_sb := de_has_sb e, de_df := de_df e\<rparr>
      in if tier_has_stats tier
         then k\<lparr>de_ttf_delta := de_ttf_delta e, de_max_freq := de_max_freq e\<rparr> else k)"

definition stored_regions :: "index_tier \<Rightarrow> bool \<Rightarrow> u64 \<Rightarrow> u64 \<Rightarrow> dict_entry \<Rightarrow> dict_entry \<Rightarrow> dict_entry" where
  "stored_regions tier has_crc dd_len freq_len e out =
     (let out = out\<lparr>de_dd_meta := stored_region has_crc dd_len (de_dd_meta e)\<rparr>
      in if tier_has_stats tier
         then out\<lparr>de_freq_meta := stored_region has_crc freq_len (de_freq_meta e)\<rparr> else out)"

definition stored_inline :: "index_tier \<Rightarrow> dict_entry \<Rightarrow> dict_entry \<Rightarrow> dict_entry" where
  "stored_inline tier e k =
     (let out = k\<lparr>de_frq_bytes := de_frq_bytes e, de_inline_dd_disk_len := de_inline_dd_disk_len e\<rparr>;
          out = stored_regions tier False (de_inline_dd_disk_len e)
                  (of_nat (length (de_frq_bytes e)) - de_inline_dd_disk_len e) e out
      in if tier_has_stats tier then out\<lparr>de_prx_bytes := de_prx_bytes e\<rparr> else out)"

definition stored_pod_ref :: "index_tier \<Rightarrow> dict_entry \<Rightarrow> dict_entry \<Rightarrow> dict_entry" where
  "stored_pod_ref tier e k =
     (let out = k\<lparr>de_frq_off_delta := de_frq_off_delta e, de_frq_len := de_frq_len e\<rparr>;
          out = (if de_enc e = kWindowed then out\<lparr>de_prelude_len := de_prelude_len e\<rparr>
                 else stored_regions tier True (de_frq_docs_len e) (de_frq_len e - de_frq_docs_len e) e
                        (out\<lparr>de_frq_docs_len := de_frq_docs_len e\<rparr>))
      in if tier_has_stats tier
         then out\<lparr>de_prx_off_delta := de_prx_off_delta e, de_prx_len := de_prx_len e\<rparr> else out)"

definition stored_entry :: "index_tier \<Rightarrow> dict_entry \<Rightarrow> dict_entry" where
  "stored_entry tier e =
     (if de_kind e = kInline then stored_inline tier e (stored_key tier e)
      else stored_pod_ref tier e (stored_key tier e))"

text \<open>The entries a decoder accepts: the document region lies inside the posting bytes, and a
  tier without frequencies does not claim a compressed frequency region.\<close>

definition entry_fits :: "index_tier \<Rightarrow> dict_entry \<Rightarrow> bool" where
  "entry_fits tier e =
     (length (de_term e) < 2 ^ 32 \<and>
      (if de_kind e = kInline
       then length (de_frq_bytes e) < 2 ^ 64 \<and> length (de_prx_bytes e) < 2 ^ 64 \<and>
            unat (de_inline_dd_disk_len e) \<le> length (de_frq_bytes e) \<and>
            (\<not> tier_has_stats tier \<longrightarrow> \<not> frm_zstd (de_freq_meta e))
       else de_enc e = kSlim \<longrightarrow>
            de_frq_docs_len e \<le> de_frq_len e \<and>
            (\<not> tier_has_stats tier \<longrightarrow> \<not> frm_zstd (de_freq_meta e))))"

subsection \<open>Bytes of an entry\<close>

definition stats_part :: "dict_entry \<Rightarrow> index_tier \<Rightarrow> byte list" where
  "stats_part e tier = write_stats e tier []"

definition region_part :: "dict_entry \<Rightarrow> index_tier \<Rightarrow> bool \<Rightarrow> byte list" where
  "region_part e tier store_crc = write_region_meta e tier store_crc []"

definition pod_ref_part :: "dict_entry \<Rightarrow> index_tier \<Rightarrow> byte list" where
  "pod_ref_part e tier = write_pod_ref e tier []"

definition inline_part :: "dict_entry \<Rightarrow> index_tier \<Rightarrow> byte list" where
  "inline_part e tier = write_inline e tier []"

definition entry_body :: "term_bytes \<Rightarrow> index_tier \<Rightarrow> dict_entry \<Rightarrow> byte list" where
  "entry_body prev tier e = write_body e prev tier []"

definition entry_bytes :: "term_bytes \<Rightarrow> index_tier \<Rightarrow> dict_entry \<Rightarrow> byte list" where
  "entry_bytes prev tier e =
     encode_varint64 (of_nat (length (entry_body prev tier e))) @ entry_body prev tier e"

lemma write_stats_bytes [put_simps]: "write_stats e tier sink = sink @ stats_part e tier"
  by (simp add: stats_part_def write_stats_def sink_defs Let_def)

lemma write_region_meta_bytes [put_simps]:
  "write_region_meta e tier c sink = sink @ region_part e tier c"
  by (simp add: region_part_def write_region_meta_def sink_defs Let_def)

lemma write_pod_ref_bytes [put_simps]: "write_pod_ref e tier sink = sink @ pod_ref_part e tier"
  by (simp add: pod_ref_part_def write_pod_ref_def sink_defs write_region_meta_bytes Let_def)

lemma write_inline_bytes [put_simps]: "write_inline e tier sink = sink @ inline_part e tier"
  by (simp add: inline_part_def write_inline_def sink_defs write_region_meta_bytes Let_def)

lemma entry_body_parts:
  "entry_body prev tier e =
     term_key_bytes prev (de_term e) @ pack_flags e # stats_part e tier @
     (if de_kind e = kInline then inline_part e tier else pod_ref_part e tier)"
  by (simp add: entry_body_def write_body_def put_simps Let_def)

lemma encode_dict_entry_bytes [put_simps]:
  "encode_dict_entry e prev tier sink = sink @ entry_bytes prev tier e"
  by (simp add: encode_dict_entry_def entry_bytes_def entry_body_def put_simps Let_def)

subsection \<open>Reading the parts\<close>

lemma apply_pack_flags:
  "apply_flags (pack_flags e) out = out\<lparr>de_kind := de_kind e, de_enc := de_enc e, de_has_sb := de_has_sb e\<rparr>"
  by (cases "de_kind e"; cases "de_enc e"; cases "de_has_sb e")
    (simp_all add: apply_flags_def pack_flags_def flag_kKind_def flag_kEnc_def flag_kHasSb_def)

lemma win_mode_bits:
  "(pack_win_mode e AND NOT 3 = 0)"
  "(pack_win_mode e AND push_bit 0 1 \<noteq> 0) = frm_zstd (de_dd_meta e)"
  "(pack_win_mode e AND push_bit 1 1 \<noteq> 0) = frm_zstd (de_freq_meta e)"
  by (simp_all add: pack_win_mode_def)

lemma read_stats_part:
  "rest src = stats_part e tier @ r \<Longrightarrow>
   read_stats tier out src = Inr (
     (if tier_has_stats tier
      then out\<lparr>de_df := de_df e, de_ttf_delta := de_ttf_delta e, de_max_freq := de_max_freq e\<rparr>
      else out\<lparr>de_df := de_df e\<rparr>), advance (length (stats_part e tier)) src)"
  by (cases "tier_has_stats tier")
    (simp_all add: read_stats_def stats_part_def write_stats_def put_simps codec_simps Let_def)

lemma read_region_part:
  assumes "rest src = region_part e tier c @ r"
    and "\<not> tier_has_stats tier \<Longrightarrow> \<not> frm_zstd (de_freq_meta e)"
    and "frm_crc (de_dd_meta out) = 0" and "frm_crc (de_freq_meta out) = 0"
  shows "read_region_meta tier c dl fl out src =
     Inr (stored_regions tier c dl fl e out, advance (length (region_part e tier c)) src)"
  using assms
  by (cases "tier_has_stats tier"; cases c)
    (simp_all add: read_region_meta_def get_crc_if_def region_part_def write_region_meta_def sink_defs
      codec_simps Let_def stored_regions_def stored_region_def win_mode_bits [simplified])

lemma read_byte_blob_bytes:
  assumes "length s < 2 ^ 64" and "rest src = encode_varint64 (of_nat (length s)) @ s @ r"
  shows "read_byte_blob src =
     Inr (s, advance (length (encode_varint64 (of_nat (length s))) + length s) src)"
proof -
  have "wf_source src" by (rule wf_if_rest) (simp add: assms(2))
  with assms show ?thesis by (simp add: read_byte_blob_def codec_simps)
qed

lemma read_pod_ref_part:
  assumes rest: "rest src = pod_ref_part e tier @ r"
    and slim: "de_enc e = kSlim \<Longrightarrow> de_frq_docs_len e \<le> de_frq_len e \<and>
       (\<not> tier_has_stats tier \<longrightarrow> \<not> frm_zstd (de_freq_meta e))"
    and out: "frm_crc (de_dd_meta out) = 0" "frm_crc (de_freq_meta out) = 0" "de_enc out = de_enc e"
  shows "read_pod_ref tier out src =
     Inr (stored_pod_ref tier e out, advance (length (pod_ref_part e tier)) src)"
proof (cases "de_enc e")
  case kWindowed
  with rest out show ?thesis
    by (cases "tier_has_stats tier")
      (simp_all add: read_pod_ref_def pod_ref_part_def write_pod_ref_def sink_defs codec_simps
        stored_pod_ref_def Let_def)
next
  case kSlim
  with slim have ok: "\<not> de_frq_len e < de_frq_docs_len e"
    "\<not> tier_has_stats tier \<Longrightarrow> \<not> frm_zstd (de_freq_meta e)" by auto
  let ?h = "encode_varint64 (de_frq_off_delta e) @ encode_varint64 (de_frq_len e) @
      encode_varint64 (de_frq_docs_len e)"
  let ?t = "if tier_has_stats tier
      then encode_varint64 (de_prx_off_delta e) @ encode_varint64 (de_prx_len e) else []"
  have parts: "pod_ref_part e tier = ?h @ region_part e tier True @ ?t"
    using kSlim by (simp add: pod_ref_part_def write_pod_ref_def put_simps Let_def)
  define out' where "out' = out\<lparr>de_frq_off_delta := de_frq_off_delta e, de_frq_len := de_frq_len e,
      de_frq_docs_len := de_frq_docs_len e\<rparr>"
  have "rest (advance (length ?h) src) = region_part e tier True @ ?t @ r"
    by (simp add: rest parts)
  from read_region_part [OF this ok(2)] out
  have reg: "read_region_meta tier True (de_frq_docs_len e) (de_frq_len e - de_frq_docs_len e) out'
      (advance (length ?h) src) =
      Inr (stored_regions tier True (de_frq_docs_len e) (de_frq_len e - de_frq_docs_len e) e out',
        advance (length (region_part e tier True)) (advance (length ?h) src))"
    by (simp add: out'_def)
  show ?thesis
    using reg kSlim ok(1) out(3) unfolding out'_def
    by (cases "tier_has_stats tier")
      (simp_all add: read_pod_ref_def rest parts codec_simps stored_pod_ref_def Let_def ac_simps)
qed

lemma read_inline_part:
  assumes rest: "rest src = inline_part e tier @ r"
    and len: "length (de_frq_bytes e) < 2 ^ 64" "length (de_prx_bytes e) < 2 ^ 64"
    and dd: "unat (de_inline_dd_disk_len e) \<le> length (de_frq_bytes e)"
    and mode: "\<not> tier_has_stats tier \<Longrightarrow> \<not> frm_zstd (de_freq_meta e)"
    and out: "frm_crc (de_dd_meta out) = 0" "frm_crc (de_freq_meta out) = 0"
  shows "read_inline tier out src =
     Inr (stored_inline tier e out, advance (length (inline_part e tier)) src)"
proof -
  let ?a = "encode_varint64 (of_nat (length (de_frq_bytes e)))"
  let ?dd = "encode_varint64 (de_inline_dd_disk_len e)"
  let ?p = "encode_varint64 (of_nat (length (de_prx_bytes e)))"
  let ?h = "?a @ de_frq_bytes e @ ?dd"
  let ?t = "if tier_has_stats tier then ?p @ de_prx_bytes e else []"
  have parts: "inline_part e tier = ?h @ region_part e tier False @ ?t"
    by (simp add: inline_part_def write_inline_def put_simps Let_def)
  define out' where "out' = out\<lparr>de_frq_bytes := de_frq_bytes e,
      de_inline_dd_disk_len := de_inline_dd_disk_len e\<rparr>"
  let ?fl = "of_nat (length (de_frq_bytes e)) - de_inline_dd_disk_len e"
  define s1 where "s1 = advance (length ?a + length (de_frq_bytes e)) src"
  define s2 where "s2 = advance (length ?dd) s1"
  define s3 where "s3 = advance (length (region_part e tier False)) s2"
  have r1: "rest s1 = ?dd @ region_part e tier False @ ?t @ r" by (simp add: s1_def rest parts)
  have r2: "rest s2 = region_part e tier False @ ?t @ r" by (simp add: s2_def r1)
  have r3: "rest s3 = ?t @ r" by (simp add: s3_def r2)
  have 1: "read_byte_blob src = Inr (de_frq_bytes e, s1)"
    using read_byte_blob_bytes [OF len(1), of src] by (simp add: rest parts s1_def)
  have 2: "get_varint64 s1 = Inr (de_inline_dd_disk_len e, s2)"
    using r1 by (simp add: codec_simps s2_def)
  have 3: "read_region_meta tier False (de_inline_dd_disk_len e) ?fl out' s2 =
      Inr (stored_regions tier False (de_inline_dd_disk_len e) ?fl e out', s3)"
    unfolding s3_def by (rule read_region_part [OF r2 mode]) (use out in \<open>simp_all add: out'_def\<close>)
  have 4: "tier_has_stats tier \<Longrightarrow> read_byte_blob s3 = Inr (de_prx_bytes e, advance (length ?t) s3)"
    using read_byte_blob_bytes [OF len(2), of s3 r] r3 by simp
  have "advance (length ?t) s3 = advance (length (inline_part e tier)) src"
    by (simp add: s3_def s2_def s1_def parts ac_simps)
  with 1 2 3 4 dd show ?thesis
    by (cases "tier_has_stats tier")
      (simp_all add: read_inline_def Let_def stored_inline_def flip: out'_def)
qed

subsection \<open>Round trip\<close>

lemma decode_dict_entry_bytes:
  assumes fits: "entry_fits tier e" and len: "length (entry_body prev tier e) < 2 ^ 64"
    and p: "prefix (entry_bytes prev tier e) (rest src)"
  shows "decode_dict_entry prev tier src =
     Inr (stored_entry tier e, advance (length (entry_bytes prev tier e)) src)"
proof -
  let ?b = "entry_body prev tier e" and ?n = "of_nat (length (entry_body prev tier e)) :: u64"
  let ?loc = "if de_kind e = kInline then inline_part e tier else pod_ref_part e tier"
  from p obtain r where r: "rest src = encode_varint64 ?n @ ?b @ r"
    by (auto simp: prefix_def entry_bytes_def)
  define s0 where "s0 = advance (length (encode_varint64 ?n)) src"
  define s1 where "s1 = advance (length (term_key_bytes prev (de_term e))) s0"
  define s2 where "s2 = advance 1 s1"
  define s3 where "s3 = advance (length (stats_part e tier)) s2"
  define s4 where "s4 = advance (length ?loc) s3"
  have r0: "rest s0 = term_key_bytes prev (de_term e) @ pack_flags e # stats_part e tier @ ?loc @ r"
    by (simp add: s0_def r entry_body_parts)
  have r1: "rest s1 = pack_flags e # stats_part e tier @ ?loc @ r" by (simp add: s1_def r0)
  have r2: "rest s2 = stats_part e tier @ ?loc @ r" by (simp add: s2_def r1)
  have r3: "rest s3 = ?loc @ r" by (simp add: s3_def r2)
  have 0: "read_entry_len src = Inr (?n, s0)"
    using len by (simp add: read_entry_len_def r codec_simps s0_def remaining_rest)
  have 1: "read_term_key prev s0 = Inr (de_term e, s1)"
    unfolding s1_def by (rule term_key.get_enc) (use fits in \<open>simp_all add: r0 entry_fits_def\<close>)
  have 2: "get_u8 s1 = Inr (pack_flags e, s2)" by (simp add: s2_def r1 codec_simps)
  define k where "k = apply_flags (pack_flags e) (default_dict_entry\<lparr>de_term := de_term e\<rparr>)"
  have 3: "read_stats tier k s2 = Inr (stored_key tier e, s3)"
    unfolding s3_def read_stats_part [OF r2]
    by (simp add: k_def apply_pack_flags stored_key_def Let_def default_dict_entry_def)
  have k3: "de_kind (stored_key tier e) = de_kind e" "de_enc (stored_key tier e) = de_enc e"
    "frm_crc (de_dd_meta (stored_key tier e)) = 0" "frm_crc (de_freq_meta (stored_key tier e)) = 0"
    by (simp_all add: stored_key_def Let_def default_dict_entry_def default_region_meta_def)
  have 4: "read_locator tier (stored_key tier e) s3 = Inr (stored_entry tier e, s4)"
  proof (cases "de_kind e")
    case kInline
    with r3 have "rest s3 = inline_part e tier @ r" by simp
    from read_inline_part [OF this _ _ _ _ k3(3,4)] fits kInline k3 show ?thesis
      by (auto simp: read_locator_def stored_entry_def s4_def entry_fits_def)
  next
    case kPodRef
    with r3 have "rest s3 = pod_ref_part e tier @ r" by simp
    from read_pod_ref_part [OF this _ k3(3,4,2)] fits kPodRef k3 show ?thesis
      by (auto simp: read_locator_def stored_entry_def s4_def entry_fits_def)
  qed
  have pos: "src_pos s4 - src_pos s0 = length ?b"
    by (simp add: s4_def s3_def s2_def s1_def entry_body_parts)
  have fin: "s4 = advance (length (entry_bytes prev tier e)) src"
    by (simp add: s4_def s3_def s2_def s1_def s0_def entry_bytes_def entry_body_parts ac_simps)
  have un: "unat ?n = length ?b" using len by simp
  show ?thesis
    unfolding decode_dict_entry_def Let_def fin [symmetric]
    by (simp only: 0 1 2 and_then_Inr prod.case flip: k_def) (simp add: 3 4 pos un)
qed

text \<open>Skipping an entry by its length lands where decoding it does.\<close>

lemma skip_dict_entry_bytes:
  assumes "length (entry_body prev tier e) < 2 ^ 64" and "prefix (entry_bytes prev tier e) (rest src)"
  shows "skip_dict_entry src = Inr ((), advance (length (entry_bytes prev tier e)) src)"
proof -
  have "wf_source src" using assms(2) by (intro wf_if_rest) (auto simp: prefix_def entry_bytes_def)
  moreover from assms(2) obtain r where
    "rest src = encode_varint64 (of_nat (length (entry_body prev tier e))) @ entry_body prev tier e @ r"
    by (auto simp: prefix_def entry_bytes_def)
  ultimately show ?thesis using assms(1)
    by (simp add: skip_dict_entry_def read_entry_len_def codec_simps remaining_rest entry_bytes_def)
qed

lemma read_region_meta_ok: "wf_source src \<Longrightarrow> cursor_ok src (read_region_meta tier c dl fl out src)"
  unfolding read_region_meta_def get_crc_if_def Let_def by (auto intro!: cursor_intros)

lemma read_pod_ref_ok: "wf_source src \<Longrightarrow> cursor_ok src (read_pod_ref tier out src)"
  unfolding read_pod_ref_def Let_def by (auto intro!: cursor_intros read_region_meta_ok)

lemma read_byte_blob_ok: "wf_source src \<Longrightarrow> cursor_ok src (read_byte_blob src)"
  unfolding read_byte_blob_def by (auto intro!: cursor_intros)

lemma read_inline_ok: "wf_source src \<Longrightarrow> cursor_ok src (read_inline tier out src)"
  unfolding read_inline_def Let_def
  by (auto intro!: cursor_intros read_region_meta_ok read_byte_blob_ok)

lemma read_stats_ok: "wf_source src \<Longrightarrow> cursor_ok src (read_stats tier out src)"
  unfolding read_stats_def Let_def by (auto intro!: cursor_intros)

lemma read_locator_ok: "wf_source src \<Longrightarrow> cursor_ok src (read_locator tier out src)"
  by (simp add: read_locator_def read_inline_ok read_pod_ref_ok)

lemma read_entry_len_ok: "wf_source src \<Longrightarrow> cursor_ok src (read_entry_len src)"
  unfolding read_entry_len_def by (auto intro!: cursor_intros)

definition entry_canonical :: "term_bytes \<Rightarrow> index_tier \<Rightarrow> dict_entry \<Rightarrow> bool" where
  "entry_canonical prev tier e =
     (entry_fits tier e \<and> length (entry_body prev tier e) < 2 ^ 64 \<and> stored_entry tier e = e)"

lemma entry_bytes_nonempty [simp]: "entry_bytes prev tier e \<noteq> []"
  by (simp add: entry_bytes_def)

interpretation dict_entry: codec "decode_dict_entry prev tier" "\<lambda>e. encode_dict_entry e prev tier"
  "entry_bytes prev tier" "entry_canonical prev tier" for prev tier
proof unfold_locales
  fix src assume "wf_source src"
  then show "cursor_ok src (decode_dict_entry prev tier src)"
    unfolding decode_dict_entry_def Let_def
    by (auto intro!: cursor_bind read_entry_len_ok term_key.ok u8.ok read_stats_ok read_locator_ok)
next
  fix e src assume "entry_canonical prev tier e" "prefix (entry_bytes prev tier e) (rest src)"
  then show "decode_dict_entry prev tier src = Inr (e, advance (length (entry_bytes prev tier e)) src)"
    using decode_dict_entry_bytes [of tier e prev src] by (simp add: entry_canonical_def)
qed (simp add: put_simps)

subsection \<open>Size of an entry\<close>

lemma length_region_part: "length (region_part e tier c) \<le> 29"
  using varint64_len_le_10 [of "frm_uncomp_len (de_dd_meta e)"]
    varint64_len_le_10 [of "frm_uncomp_len (de_freq_meta e)"]
  by (simp add: region_part_def write_region_meta_def sink_defs Let_def)

lemma length_stats_part: "length (stats_part e tier) \<le> 25"
  using varint32_len_le_5 [of "de_df e"] varint64_len_le_10 [of "de_ttf_delta e"]
    varint64_len_le_10 [of "de_max_freq e"]
  by (simp add: stats_part_def write_stats_def sink_defs Let_def)

lemma length_pod_ref_part: "length (pod_ref_part e tier) \<le> 79"
  using varint64_len_le_10 [of "de_frq_off_delta e"] varint64_len_le_10 [of "de_frq_len e"]
    varint64_len_le_10 [of "de_prelude_len e"] varint64_len_le_10 [of "de_frq_docs_len e"]
    varint64_len_le_10 [of "de_prx_off_delta e"] varint64_len_le_10 [of "de_prx_len e"]
    length_region_part [of e tier True]
  by (simp add: pod_ref_part_def write_pod_ref_def put_simps Let_def)

lemma length_inline_part:
  "length (inline_part e tier) \<le> 59 + length (de_frq_bytes e) + length (de_prx_bytes e)"
  using varint64_len_le_10 [of "of_nat (length (de_frq_bytes e))"]
    varint64_len_le_10 [of "of_nat (length (de_prx_bytes e))"]
    varint64_len_le_10 [of "de_inline_dd_disk_len e"] length_region_part [of e tier False]
  by (simp add: inline_part_def write_inline_def put_simps Let_def)

definition entry_size_bound :: "dict_entry \<Rightarrow> nat" where
  "entry_size_bound e =
     125 + length (de_term e) + length (de_frq_bytes e) + length (de_prx_bytes e)"

lemma length_entry_body: "length (entry_body prev tier e) + 10 \<le> entry_size_bound e"
  using length_term_key [of prev "de_term e"] length_stats_part [of e tier]
    length_pod_ref_part [of e tier] length_inline_part [of e tier]
  by (simp add: entry_body_parts entry_size_bound_def)

lemma length_entry_bytes: "length (entry_bytes prev tier e) \<le> entry_size_bound e"
  using length_entry_body [of prev tier e]
    varint64_len_le_10 [of "of_nat (length (entry_body prev tier e))"]
  by (simp add: entry_bytes_def)

subsection \<open>Correctness\<close>

text \<open>C12: an entry decodes, against the same previous term and tier, to the entry with the fields
  the format stores, whatever follows it; skipping it by its length ends at the same place.\<close>

theorem dict_entry_roundtrip:
  assumes "entry_fits tier e" and "length (entry_body prev tier e) < 2 ^ 64"
  shows "decode_dict_entry prev tier (source (encode_dict_entry e prev tier [] @ r)) =
      Inr (stored_entry tier e, advance (length (encode_dict_entry e prev tier []))
        (source (encode_dict_entry e prev tier [] @ r))) \<and>
    skip_dict_entry (source (encode_dict_entry e prev tier [] @ r)) =
      Inr ((), advance (length (encode_dict_entry e prev tier []))
        (source (encode_dict_entry e prev tier [] @ r)))"
  using decode_dict_entry_bytes [OF assms] skip_dict_entry_bytes [OF assms(2)]
  by (simp add: put_simps)

definition sample_entry :: "term_bytes \<Rightarrow> dict_entry" where
  "sample_entry t = default_dict_entry\<lparr>de_term := t, de_kind := kInline, de_df := 2,
     de_frq_bytes := [1, 2, 3], de_inline_dd_disk_len := 2, de_prx_bytes := [4]\<rparr>"

theorem dict_entry_roundtrip_witness:
  "fst (projr (decode_dict_entry [97, 98] kT2
     (source (encode_dict_entry (sample_entry [97, 99]) [97, 98] kT2 [] @ [0])))) =
   stored_entry kT2 (sample_entry [97, 99])"
proof -
  have "entry_fits kT2 (sample_entry [97, 99])"
    by (simp add: entry_fits_def sample_entry_def default_dict_entry_def tier_has_stats_def
        less_eq_index_tier_def)
  moreover have "length (entry_body [97, 98] kT2 (sample_entry [97, 99])) < 2 ^ 64"
    using length_entry_body [of "[97, 98]" kT2 "sample_entry [97, 99]"]
    by (simp add: entry_size_bound_def sample_entry_def)
  ultimately show ?thesis
    using dict_entry_roundtrip [of kT2 "sample_entry [97, 99]" "[97, 98]" "[0]"] by simp
qed

end
