(* ===== verification/Std_Search.thy ===== *)
theory Std_Search
  imports Prelude
begin

text \<open>
  \<open>std::upper_bound\<close> and \<open>std::lower_bound\<close>, with the halving loop of the standard library
  written out over the position \<open>first\<close> and the length \<open>len\<close> of the remaining range, and what
  they return on a sorted range.
\<close>

function bisect_loop :: "(nat \<Rightarrow> bool) \<Rightarrow> nat \<Rightarrow> nat \<Rightarrow> nat" where
  "bisect_loop left first len =
     (if len = 0 then first
      else
        let half = len div 2; middle = first + half in
        if left middle then bisect_loop left (Suc middle) (len - half - 1)
        else bisect_loop left first half)"
  by auto
termination by (relation "measure (\<lambda>(left, first, len). len)") auto

declare bisect_loop.simps [simp del]

definition upper_bound :: "'a :: linorder list \<Rightarrow> 'a \<Rightarrow> nat" where
  "upper_bound xs x = bisect_loop (\<lambda>i. \<not> x < xs ! i) 0 (length xs)"

definition lower_bound :: "'a :: linorder list \<Rightarrow> 'a \<Rightarrow> nat" where
  "lower_bound xs x = bisect_loop (\<lambda>i. xs ! i < x) 0 (length xs)"

lemma bisect_loop_0 [simp]: "bisect_loop left first 0 = first"
  by (subst bisect_loop.simps) simp

lemma bisect_loop_spec:
  assumes "\<And>i j. i \<le> j \<Longrightarrow> j < first + len \<Longrightarrow> left j \<Longrightarrow> left i"
    and "\<And>i. i < first \<Longrightarrow> left i"
  shows "bisect_loop left first len \<le> first + len \<and>
    (\<forall>i < bisect_loop left first len. left i) \<and>
    (bisect_loop left first len < first + len \<longrightarrow> \<not> left (bisect_loop left first len))"
  using assms
proof (induction left first len rule: bisect_loop.induct)
  case (1 left first len)
  let ?h = "len div 2"
  show ?case
  proof (cases "len = 0")
    case True
    with "1.prems"(2) show ?thesis by simp
  next
    case ne: False
    show ?thesis
    proof (cases "left (first + ?h)")
      case True
      have eq: "bisect_loop left first len = bisect_loop left (Suc (first + ?h)) (len - ?h - 1)"
        using ne True by (subst bisect_loop.simps) (simp add: Let_def)
      have sum: "Suc (first + ?h) + (len - ?h - 1) = first + len" using ne by simp
      have all: "left i" if "i < Suc (first + ?h)" for i
        using "1.prems"(1) [of i "first + ?h"] that True ne by simp
      show ?thesis unfolding eq
        using "1.IH"(1) [OF ne refl refl True] "1.prems"(1) all unfolding sum by blast
    next
      case False
      have eq: "bisect_loop left first len = bisect_loop left first ?h"
        using ne False by (subst bisect_loop.simps) (simp add: Let_def)
      have le: "first + ?h < first + len" using ne by simp
      have "bisect_loop left first ?h \<le> first + ?h \<and> (\<forall>i < bisect_loop left first ?h. left i) \<and>
        (bisect_loop left first ?h < first + ?h \<longrightarrow> \<not> left (bisect_loop left first ?h))"
        using "1.IH"(2) [OF ne refl refl False] "1.prems" le by (meson order.strict_trans)
      then show ?thesis unfolding eq using False le
        by (metis le_neq_implies_less order.trans less_imp_le)
    qed
  qed
qed

lemma upper_bound_spec:
  assumes "sorted xs"
  shows "upper_bound xs x \<le> length xs"
    and "\<And>i. i < upper_bound xs x \<Longrightarrow> xs ! i \<le> x"
    and "\<And>i. upper_bound xs x \<le> i \<Longrightarrow> i < length xs \<Longrightarrow> x < xs ! i"
proof -
  have "\<not> x < xs ! i" if "i \<le> j" "j < length xs" "\<not> x < xs ! j" for i j
    using that sorted_nth_mono [OF assms, of i j] by force
  then have *: "upper_bound xs x \<le> length xs" "\<forall>i < upper_bound xs x. \<not> x < xs ! i"
    "upper_bound xs x < length xs \<longrightarrow> x < xs ! upper_bound xs x"
    using bisect_loop_spec [of "0" "length xs" "\<lambda>i. \<not> x < xs ! i"]
    unfolding upper_bound_def by auto
  then show "upper_bound xs x \<le> length xs" "\<And>i. i < upper_bound xs x \<Longrightarrow> xs ! i \<le> x"
    by (auto simp: not_less)
  show "x < xs ! i" if "upper_bound xs x \<le> i" "i < length xs" for i
    using * that sorted_nth_mono [OF assms, of "upper_bound xs x" i] by force
qed

lemma lower_bound_spec:
  assumes "sorted xs"
  shows "lower_bound xs x \<le> length xs"
    and "\<And>i. i < lower_bound xs x \<Longrightarrow> xs ! i < x"
    and "\<And>i. lower_bound xs x \<le> i \<Longrightarrow> i < length xs \<Longrightarrow> x \<le> xs ! i"
proof -
  have "xs ! i < x" if "i \<le> j" "j < length xs" "xs ! j < x" for i j
    using that sorted_nth_mono [OF assms, of i j] by force
  then have *: "lower_bound xs x \<le> length xs" "\<forall>i < lower_bound xs x. xs ! i < x"
    "lower_bound xs x < length xs \<longrightarrow> \<not> xs ! lower_bound xs x < x"
    using bisect_loop_spec [of "0" "length xs" "\<lambda>i. xs ! i < x"]
    unfolding lower_bound_def by auto
  then show "lower_bound xs x \<le> length xs" "\<And>i. i < lower_bound xs x \<Longrightarrow> xs ! i < x"
    by auto
  show "x \<le> xs ! i" if "lower_bound xs x \<le> i" "i < length xs" for i
    using * that sorted_nth_mono [OF assms, of "lower_bound xs x" i] by force
qed

end
