(* ===== verification/Dict_Block.thy ===== *)
theory Dict_Block
  imports Dict_Entry Std_Search
begin

text \<open>
  The DICT block: \<open>src/core/src/format/dict_block.cpp\<close>. Entries in term order, front coded against
  each other, with an anchor (an entry coded on its own) every \<open>anchor_interval\<close> entries, a table
  of the anchors' offsets and one checksum. The reader finds a term by a binary search over the
  anchors and a scan of one segment.
\<close>

definition kDictBlockFormatVer :: byte where "kDictBlockFormatVer = 1"

definition kHasPositions :: byte where "kHasPositions = push_bit 0 1"

definition kFooterBytes :: nat where "kFooterBytes = 4"

definition kNAnchorsBytes :: nat where "kNAnchorsBytes = 4"

definition kAnchorOffBytes :: nat where "kAnchorOffBytes = 4"

lemmas block_sizes = kFooterBytes_def kNAnchorsBytes_def kAnchorOffBytes_def

subsection \<open>DictBlockBuilder\<close>

record dict_block_builder =
  dbb_tier :: index_tier
  dbb_has_positions :: bool
  dbb_frq_base :: u64
  dbb_prx_base :: u64
  dbb_anchor_interval :: u32
  dbb_n_entries :: u32
  dbb_entries :: "dict_entry list"
  dbb_prev_term :: term_bytes
  dbb_entries_est :: nat
  dbb_n_anchors :: nat

definition estimate_entry_bytes :: "dict_entry \<Rightarrow> nat" where
  "estimate_entry_bytes e =
     (let body = 0;
          body = body + varint_len (ucast (of_nat (length (de_term e)) :: u32));
          body = body + varint_len (ucast (of_nat (length (de_term e)) :: u32));
          body = body + length (de_term e);
          body = body + 1;
          body = body + 10;
          body = body + 10;
          body = body + 10;
          body =
            (if de_kind e = kInline
             then body + (10 + length (de_frq_bytes e)) + (10 + length (de_prx_bytes e))
             else body + 10 * 5)
      in varint_len (of_nat body) + body)"

definition dict_block_builder ::
  "index_tier \<Rightarrow> bool \<Rightarrow> u64 \<Rightarrow> u64 \<Rightarrow> u32 \<Rightarrow> dict_block_builder" where
  "dict_block_builder tier has_pos frq_base prx_base anchor_interval =
     \<lparr>dbb_tier = tier, dbb_has_positions = has_pos, dbb_frq_base = frq_base,
      dbb_prx_base = prx_base,
      dbb_anchor_interval = (if anchor_interval = 0 then 1 else anchor_interval),
      dbb_n_entries = 0, dbb_entries = [], dbb_prev_term = [], dbb_entries_est = 0,
      dbb_n_anchors = 0\<rparr>"

definition is_anchor :: "dict_block_builder \<Rightarrow> u32 \<Rightarrow> bool" where
  "is_anchor b index = (index mod dbb_anchor_interval b = 0)"

definition add_entry :: "dict_entry \<Rightarrow> dict_block_builder \<Rightarrow> dict_block_builder" where
  "add_entry entry b =
     b\<lparr>dbb_n_anchors := (if is_anchor b (dbb_n_entries b) then dbb_n_anchors b + 1 else dbb_n_anchors b),
       dbb_entries_est := dbb_entries_est b + estimate_entry_bytes entry,
       dbb_entries := dbb_entries b @ [entry],
       dbb_prev_term := de_term entry,
       dbb_n_entries := dbb_n_entries b + 1\<rparr>"

definition estimated_bytes :: "dict_block_builder \<Rightarrow> nat" where
  "estimated_bytes b =
     (let header = varint_len (ucast (dbb_n_entries b)) + 2;
          header = header + varint_len (dbb_frq_base b);
          header = (if dbb_has_positions b then header + varint_len (dbb_prx_base b) else header);
          anchors = dbb_n_anchors b * kAnchorOffBytes + kNAnchorsBytes
      in header + dbb_entries_est b + anchors + kFooterBytes)"

text \<open>The loop of \<open>finish\<close> over the entries, at index \<open>i\<close>.\<close>

fun encode_entries :: "dict_block_builder \<Rightarrow> u32 \<Rightarrow> term_bytes \<Rightarrow> dict_entry list \<Rightarrow> byte_sink \<Rightarrow>
    u32 list \<Rightarrow> byte_sink \<times> u32 list" where
  "encode_entries b i prev [] body anchor_offsets = (body, anchor_offsets)"
| "encode_entries b i prev (e # es) body anchor_offsets =
     (let anchor = is_anchor b i;
          anchor_offsets = (if anchor then anchor_offsets @ [of_nat (length body)] else anchor_offsets);
          prev_term = (if anchor then [] else prev);
          body = encode_dict_entry e prev_term (dbb_tier b) body
      in encode_entries b (i + 1) (de_term e) es body anchor_offsets)"

definition dict_block_header :: "dict_block_builder \<Rightarrow> byte_sink" where
  "dict_block_header b =
     (let body = put_varint64 (ucast (dbb_n_entries b)) [];
          body = put_u8 kDictBlockFormatVer body;
          body = put_u8 (if dbb_has_positions b then kHasPositions else 0) body;
          body = put_varint64 (dbb_frq_base b) body
      in if dbb_has_positions b then put_varint64 (dbb_prx_base b) body else body)"

definition dict_block_finish :: "dict_block_builder \<Rightarrow> byte_sink \<Rightarrow> byte_sink" where
  "dict_block_finish b sink =
     (let body = dict_block_header b;
          (body, anchor_offsets) =
            encode_entries b 0 [] (take (unat (dbb_n_entries b)) (dbb_entries b)) body [];
          body = fold put_fixed32 anchor_offsets body;
          body = put_fixed32 (of_nat (length anchor_offsets)) body;
          sink = put_bytes body sink
      in put_fixed32 (crc32c body) sink)"

subsection \<open>DictBlockReader\<close>

record dict_block_reader =
  dbr_block :: "byte list"
  dbr_tier :: index_tier
  dbr_has_positions :: bool
  dbr_frq_base :: u64
  dbr_prx_base :: u64
  dbr_n_entries :: u32
  dbr_entries_begin :: nat
  dbr_anchor_offsets :: "u32 list"
  dbr_anchor_terms :: "term_bytes list"

definition verify_crc :: "byte list \<Rightarrow> byte list result" where
  "verify_crc block =
     (if length block < kFooterBytes + kNAnchorsBytes then Corruption
      else
        let covered_len = length block - kFooterBytes in
        and_then (subslice block 0 covered_len) (\<lambda>covered.
        and_then (subslice block covered_len kFooterBytes) (\<lambda>footer.
        and_then (get_fixed32 (source footer)) (\<lambda>(stored, crc_src).
        if crc32c covered \<noteq> stored then Corruption else Inr covered))))"

definition check_flags :: "byte \<Rightarrow> bool \<Rightarrow> unit result" where
  "check_flags flags has_pos =
     (let flag_pos = (flags AND kHasPositions \<noteq> 0)
      in if flag_pos \<noteq> has_pos then InvalidArgument else Inr ())"

text \<open>The loop of \<open>open\<close> over the anchor table; \<open>prev\<close> is the previous anchor's offset.\<close>

fun open_anchors :: "index_tier \<Rightarrow> byte list \<Rightarrow> nat \<Rightarrow> nat \<Rightarrow> nat \<Rightarrow> u32 option \<Rightarrow> byte_source \<Rightarrow>
    (u32 list \<times> term_bytes list) result" where
  "open_anchors tier covered anchor_table_begin entries_begin 0 prev at_src = Inr ([], [])"
| "open_anchors tier covered anchor_table_begin entries_begin (Suc n) prev at_src =
     and_then (get_fixed32 at_src) (\<lambda>(off, at_src).
     if unat off \<ge> anchor_table_begin then Corruption
     else if (case prev of None \<Rightarrow> unat off \<noteq> entries_begin | Some p \<Rightarrow> off \<le> p) then Corruption
     else
       and_then (subslice covered (unat off) (anchor_table_begin - unat off)) (\<lambda>seg.
       and_then (decode_dict_entry [] tier (source seg)) (\<lambda>(probe, e_src).
       and_then (open_anchors tier covered anchor_table_begin entries_begin n (Some off) at_src)
         (\<lambda>(offs, terms). Inr (off # offs, de_term probe # terms)))))"

definition dict_block_open :: "byte list \<Rightarrow> index_tier \<Rightarrow> bool \<Rightarrow> dict_block_reader result" where
  "dict_block_open block tier has_pos =
     and_then (verify_crc block) (\<lambda>covered.
     let src = source covered in
     and_then (get_varint64 src) (\<lambda>(n_entries, src).
     and_then (get_u8 src) (\<lambda>(ver, src).
     and_then (get_u8 src) (\<lambda>(flags, src).
     if ver \<noteq> kDictBlockFormatVer then Unsupported
     else
       and_then (check_flags flags has_pos) (\<lambda>_.
       and_then (get_varint64 src) (\<lambda>(frq_base, src).
       and_then (if has_pos then get_varint64 src else Inr (0, src)) (\<lambda>(prx_base, src).
       let entries_begin = src_pos src in
       if length covered < kNAnchorsBytes then Corruption
       else
         and_then (subslice covered (length covered - kNAnchorsBytes) kNAnchorsBytes) (\<lambda>na.
         and_then (get_fixed32 (source na)) (\<lambda>(n_anchors, na_src).
         let anchor_table_bytes = unat n_anchors * kAnchorOffBytes in
         if length covered < kNAnchorsBytes + anchor_table_bytes \<or>
            entries_begin + anchor_table_bytes + kNAnchorsBytes > length covered
         then Corruption
         else
           let anchor_table_begin = length covered - kNAnchorsBytes - anchor_table_bytes in
           and_then (subslice covered anchor_table_begin anchor_table_bytes) (\<lambda>at.
           and_then (open_anchors tier covered anchor_table_begin entries_begin (unat n_anchors) None
                      (source at)) (\<lambda>(anchor_offsets, anchor_terms).
           Inr \<lparr>dbr_block = covered, dbr_tier = tier, dbr_has_positions = has_pos,
                dbr_frq_base = frq_base, dbr_prx_base = prx_base, dbr_n_entries = ucast n_entries,
                dbr_entries_begin = entries_begin, dbr_anchor_offsets = anchor_offsets,
                dbr_anchor_terms = anchor_terms\<rparr>)))))))))))"

function locate_anchor_loop :: "term_bytes list \<Rightarrow> term_bytes \<Rightarrow> nat \<Rightarrow> nat \<Rightarrow> nat" where
  "locate_anchor_loop terms target lo hi =
     (if lo + 1 < hi then
        let mid = lo + (hi - lo) div 2
        in if terms ! mid \<le> target then locate_anchor_loop terms target mid hi
           else locate_anchor_loop terms target lo mid
      else lo)"
  by auto
termination by (relation "measure (\<lambda>(terms, target, lo, hi). hi - lo)") auto

declare locate_anchor_loop.simps [simp del]

definition locate_anchor :: "dict_block_reader \<Rightarrow> term_bytes \<Rightarrow> nat option" where
  "locate_anchor r target =
     (if dbr_anchor_terms r = [] then None
      else if target < hd (dbr_anchor_terms r) then None
      else Some (locate_anchor_loop (dbr_anchor_terms r) target 0 (length (dbr_anchor_terms r))))"

text \<open>The byte range of an anchor's segment, as both scans compute and check it.\<close>

definition anchor_segment :: "dict_block_reader \<Rightarrow> nat \<Rightarrow> byte list result" where
  "anchor_segment r a =
     (let seg_begin = unat (dbr_anchor_offsets r ! a);
          is_last = (a + 1 = length (dbr_anchor_offsets r));
          seg_end =
            (if is_last
             then length (dbr_block r) - kNAnchorsBytes - length (dbr_anchor_offsets r) * kAnchorOffBytes
             else unat (dbr_anchor_offsets r ! (a + 1)))
      in if seg_end < seg_begin \<or> seg_end > length (dbr_block r) then Corruption
         else subslice (dbr_block r) seg_begin (seg_end - seg_begin))"

lemma decode_dict_entry_progress:
  assumes "decode_dict_entry prev tier src = Inr (e, src')"
  shows "remaining src' < remaining src"
proof -
  from assms obtain total s0 where v: "get_varint64 src = Inr (total, s0)"
    by (auto simp: decode_dict_entry_def read_entry_len_def Let_def)
  have wf: "wf_source src"
  proof (rule ccontr)
    assume "\<not> wf_source src"
    then have "rest src = []" by (simp add: rest_def wf_source_def)
    with v show False by (simp add: codec_simps decode_varint64_def)
  qed
  then have wf0: "wf_source s0" by (rule varint64.wf_after [OF _ v])
  have "cursor_ok s0 (and_then (read_term_key prev s0) (\<lambda>(t, src).
      and_then (get_u8 src) (\<lambda>(flags, src).
      and_then (read_stats tier (apply_flags flags (default_dict_entry\<lparr>de_term := t\<rparr>)) src) (\<lambda>(out, src).
      and_then (read_locator tier out src) (\<lambda>(out, src).
      if src_pos src - src_pos s0 \<noteq> unat total then Corruption else Inr (out, src))))))"
    using wf0 by (auto intro!: cursor_bind term_key.ok u8.ok read_stats_ok read_locator_ok)
  then have "remaining src' \<le> remaining s0"
    using assms v by (auto simp: decode_dict_entry_def read_entry_len_def Let_def cursor_ok_def
        remaining_rest split: if_splits)
  moreover have "remaining s0 < remaining src"
    using get_varint64_moves [OF wf v] by (auto simp: remaining_rest)
  ultimately show ?thesis by simp
qed

text \<open>The loops \<open>while (!src.eof())\<close> of \<open>decode_all\<close> and \<open>scan_from_anchor\<close>.\<close>

function decode_segment :: "index_tier \<Rightarrow> term_bytes \<Rightarrow> byte_source \<Rightarrow> dict_entry list result" where
  "decode_segment tier prev src =
     (if eof src then Inr []
      else
        and_then (decode_dict_entry prev tier src) (\<lambda>p.
        and_then (decode_segment tier (de_term (fst p)) (snd p)) (\<lambda>es. Inr (fst p # es))))"
  by auto
termination
  by (relation "measure (\<lambda>(tier, prev, src). remaining src)") (auto dest: decode_dict_entry_progress)

function scan_segment :: "index_tier \<Rightarrow> term_bytes \<Rightarrow> term_bytes \<Rightarrow> byte_source \<Rightarrow> dict_entry option result" where
  "scan_segment tier target prev src =
     (if eof src then Inr None
      else
        and_then (decode_dict_entry prev tier src) (\<lambda>p.
        if de_term (fst p) = target then Inr (Some (fst p))
        else if de_term (fst p) > target then Inr None
        else scan_segment tier target (de_term (fst p)) (snd p)))"
  by auto
termination
  by (relation "measure (\<lambda>(tier, target, prev, src). remaining src)")
    (auto dest: decode_dict_entry_progress)

declare decode_segment.simps [simp del] scan_segment.simps [simp del]

fun decode_segments :: "dict_block_reader \<Rightarrow> nat list \<Rightarrow> dict_entry list result" where
  "decode_segments r [] = Inr []"
| "decode_segments r (a # as) =
     and_then (anchor_segment r a) (\<lambda>seg.
     and_then (decode_segment (dbr_tier r) [] (source seg)) (\<lambda>es.
     and_then (decode_segments r as) (\<lambda>rest_es. Inr (es @ rest_es))))"

definition decode_all :: "dict_block_reader \<Rightarrow> dict_entry list result" where
  "decode_all r =
     and_then (decode_segments r [0..<length (dbr_anchor_offsets r)]) (\<lambda>out.
     if length out \<noteq> unat (dbr_n_entries r) then Corruption else Inr out)"

definition scan_from_anchor :: "dict_block_reader \<Rightarrow> nat \<Rightarrow> term_bytes \<Rightarrow> dict_entry option result" where
  "scan_from_anchor r anchor_idx target =
     and_then (anchor_segment r anchor_idx) (\<lambda>seg.
     scan_segment (dbr_tier r) target [] (source seg))"

text \<open>\<open>*found\<close> and \<open>*out\<close> are the option.\<close>

definition find_term :: "dict_block_reader \<Rightarrow> term_bytes \<Rightarrow> dict_entry option result" where
  "find_term r target =
     (case locate_anchor r target of
        None \<Rightarrow> Inr None
      | Some anchor_idx \<Rightarrow> scan_from_anchor r anchor_idx target)"

end
