(* ===== verification/Frq_Prelude.thy ===== *)
theory Frq_Prelude
  imports Std_Search Byte_Stream Crc32c
begin

text \<open>
  The two-level window directory of a windowed \<open>.frq\<close> posting:
  \<open>src/core/src/format/frq_prelude.cpp\<close>. Windows are grouped into super-blocks; a directory of
  super-blocks (covered by a CRC) is followed by one block of window rows per super-block. The
  lengths and offsets read from the buffer are 64-bit words, as in the code, so that the sums the
  reader checks against the buffer size wrap where the code's do. The definitions come first, in
  the order of the source; \<open>Frq_Prelude_Correct\<close> holds the proofs.
\<close>

subsection \<open>Data\<close>

definition flag_kHasFreq :: byte where "flag_kHasFreq = 1"

definition flag_kHasPrx :: byte where "flag_kHasPrx = 2"

definition mode_kDdZstd :: byte where "mode_kDdZstd = 1"

definition mode_kFreqZstd :: byte where "mode_kFreqZstd = 2"

definition mode_kKnownBits :: byte where "mode_kKnownBits = mode_kDdZstd OR mode_kFreqZstd"

record window_meta =
  wm_last_docid :: u32
  wm_win_base :: u64
  wm_doc_count :: u32
  wm_dd_zstd :: bool
  wm_dd_off :: u64
  wm_dd_disk_len :: u64
  wm_dd_uncomp_len :: u64
  wm_crc_dd :: u32
  wm_freq_zstd :: bool
  wm_freq_off :: u64
  wm_freq_disk_len :: u64
  wm_freq_uncomp_len :: u64
  wm_crc_freq :: u32
  wm_prx_off :: u64
  wm_prx_len :: u64
  wm_max_freq :: u32
  wm_max_norm :: byte
  wm_verify_crc :: bool

definition default_window_meta :: window_meta where
  "default_window_meta =
     \<lparr>wm_last_docid = 0, wm_win_base = 0, wm_doc_count = 0,
      wm_dd_zstd = False, wm_dd_off = 0, wm_dd_disk_len = 0, wm_dd_uncomp_len = 0, wm_crc_dd = 0,
      wm_freq_zstd = False, wm_freq_off = 0, wm_freq_disk_len = 0, wm_freq_uncomp_len = 0,
      wm_crc_freq = 0, wm_prx_off = 0, wm_prx_len = 0, wm_max_freq = 0, wm_max_norm = 0,
      wm_verify_crc = True\<rparr>"

record frq_prelude_columns =
  fpc_has_freq :: bool
  fpc_has_prx :: bool
  fpc_group_size :: u32
  fpc_windows :: "window_meta list"

definition kMaxWindows :: u64 where "kMaxWindows = push_bit 24 1"

definition ceil_div :: "u64 \<Rightarrow> u64 \<Rightarrow> u64" where
  "ceil_div a b = (a + b - 1) div b"

subsection \<open>Builder\<close>

definition make_flags :: "frq_prelude_columns \<Rightarrow> byte" where
  "make_flags cols =
     (let flags = 0;
          flags = (if fpc_has_freq cols then flags OR flag_kHasFreq else flags);
          flags = (if fpc_has_prx cols then flags OR flag_kHasPrx else flags)
      in flags)"

definition make_win_mode :: "window_meta \<Rightarrow> bool \<Rightarrow> byte" where
  "make_win_mode m has_freq =
     (let mode = 0;
          mode = (if wm_dd_zstd m then mode OR mode_kDdZstd else mode);
          mode = (if has_freq \<and> wm_freq_zstd m then mode OR mode_kFreqZstd else mode)
      in mode)"

fun windows_ascending :: "window_meta list \<Rightarrow> bool" where
  "windows_ascending (a # b # ws) = (\<not> wm_last_docid b < wm_last_docid a \<and> windows_ascending (b # ws))"
| "windows_ascending ws = True"

definition validate_input :: "frq_prelude_columns \<Rightarrow> unit result" where
  "validate_input cols =
     (if fpc_group_size cols = 0 then InvalidArgument
      else if length (fpc_windows cols) > unat kMaxWindows then InvalidArgument
      else if \<not> windows_ascending (fpc_windows cols) then InvalidArgument
      else Inr ())"

definition encode_window_row :: "window_meta \<Rightarrow> bool \<Rightarrow> bool \<Rightarrow> u64 \<Rightarrow> byte_sink \<Rightarrow> byte_sink" where
  "encode_window_row m has_freq has_prx prev_last block =
     (let block = put_varint64 (ucast (wm_last_docid m) - prev_last) block;
          block = put_varint64 (ucast (wm_doc_count m)) block;
          block = put_u8 (make_win_mode m has_freq) block;
          block = put_varint64 (wm_dd_off m) block;
          block = put_varint64 (wm_dd_disk_len m) block;
          block = put_varint64 (wm_dd_uncomp_len m) block;
          block = put_fixed32 (wm_crc_dd m) block;
          block = (if has_freq
            then put_fixed32 (wm_crc_freq m) (put_varint64 (wm_freq_uncomp_len m)
                   (put_varint64 (wm_freq_disk_len m) (put_varint64 (wm_freq_off m) block)))
            else block);
          block = (if has_prx
            then put_varint64 (wm_prx_len m) (put_varint64 (wm_prx_off m) block)
            else block);
          block = put_varint64 (ucast (wm_max_freq m)) block
      in put_u8 (wm_max_norm m) block)"

record super_block =
  sb_block :: byte_sink
  sb_last_docid :: u64

text \<open>The inner loop of \<open>encode_super_blocks\<close> over the windows of one super-block, and the outer
  loop over the starts of the super-blocks. A zero group size, for which the source's loop would
  not advance, is refused by \<open>validate_input\<close> before.\<close>

fun encode_rows :: "bool \<Rightarrow> bool \<Rightarrow> window_meta list \<Rightarrow> u64 \<Rightarrow> byte_sink \<Rightarrow> byte_sink \<times> u64" where
  "encode_rows has_freq has_prx [] prev_last block = (block, prev_last)"
| "encode_rows has_freq has_prx (m # ws) prev_last block =
     encode_rows has_freq has_prx ws (ucast (wm_last_docid m))
       (encode_window_row m has_freq has_prx prev_last block)"

function encode_super_blocks_loop :: "frq_prelude_columns \<Rightarrow> nat \<Rightarrow> u64 \<Rightarrow> super_block list" where
  "encode_super_blocks_loop cols start prev_last =
     (let n = length (fpc_windows cols); g = unat (fpc_group_size cols) in
      if start < n \<and> g \<noteq> 0 then
        let stop = min n (start + g);
            (block, prev_last) = encode_rows (fpc_has_freq cols) (fpc_has_prx cols)
              (take (stop - start) (drop start (fpc_windows cols))) prev_last []
        in \<lparr>sb_block = block, sb_last_docid = prev_last\<rparr> #
           encode_super_blocks_loop cols (start + g) prev_last
      else [])"
  by auto
termination
  by (relation "measure (\<lambda>(cols, start, p). length (fpc_windows cols) - start)") auto

declare encode_super_blocks_loop.simps [simp del]

definition encode_super_blocks :: "frq_prelude_columns \<Rightarrow> super_block list" where
  "encode_super_blocks cols = encode_super_blocks_loop cols 0 0"

fun encode_super_block_dir :: "super_block list \<Rightarrow> u64 \<Rightarrow> u64 \<Rightarrow> byte_sink \<Rightarrow> byte_sink" where
  "encode_super_block_dir [] prev_last block_off dir_sink = dir_sink"
| "encode_super_block_dir (sb # blocks) prev_last block_off dir_sink =
     (let dir_sink = put_varint64 (sb_last_docid sb - prev_last) dir_sink;
          dir_sink = put_varint64 block_off dir_sink;
          dir_sink = put_varint64 (of_nat (length (sb_block sb))) dir_sink
      in encode_super_block_dir blocks (sb_last_docid sb)
           (block_off + of_nat (length (sb_block sb))) dir_sink)"

definition build_frq_prelude :: "frq_prelude_columns \<Rightarrow> byte_sink \<Rightarrow> byte_sink result" where
  "build_frq_prelude cols out =
     and_then (validate_input cols) (\<lambda>_.
     let blocks = encode_super_blocks cols;
         dir_sink = encode_super_block_dir blocks 0 0 [];
         covered = put_u8 (make_flags cols) [];
         covered = put_varint64 (of_nat (length (fpc_windows cols))) covered;
         covered = put_varint64 (ucast (fpc_group_size cols)) covered;
         covered = put_varint64 (of_nat (length blocks)) covered;
         covered = put_varint64 (of_nat (length dir_sink)) covered;
         covered = put_bytes dir_sink covered;
         out = put_bytes covered out;
         out = put_fixed32 (crc32c covered) out
     in Inr (fold (\<lambda>sb. put_bytes (sb_block sb)) blocks out))"

subsection \<open>Reader\<close>

record frq_header =
  fh_has_freq :: bool
  fh_has_prx :: bool
  fh_n :: u64
  fh_group_size :: u64
  fh_n_super :: u64
  fh_sbdir_len :: u64

definition verify_covered_crc :: "byte list \<Rightarrow> nat \<Rightarrow> u64 \<Rightarrow> unit result" where
  "verify_covered_crc prelude header_end sbdir_len =
     (let covered = of_nat header_end + sbdir_len in
      if covered + 4 > (of_nat (length prelude) :: u64) then Corruption
      else
        and_then (subslice prelude (unat covered) 4) (\<lambda>crc_bytes.
        and_then (get_fixed32 (source crc_bytes)) (\<lambda>(stored, _).
        and_then (subslice prelude 0 (unat covered)) (\<lambda>region.
        if crc32c region \<noteq> stored then Corruption else Inr ()))))"

definition parse_header :: "byte_source \<Rightarrow> (frq_header \<times> byte_source) result" where
  "parse_header src =
     and_then (get_u8 src) (\<lambda>(flags, src).
     and_then (get_varint64 src) (\<lambda>(n, src).
     and_then (get_varint64 src) (\<lambda>(group_size, src).
     and_then (get_varint64 src) (\<lambda>(n_super, src).
     and_then (get_varint64 src) (\<lambda>(sbdir_len, src).
     if n > kMaxWindows \<or> n_super > kMaxWindows then Corruption
     else if group_size = 0 then Corruption
     else if n_super \<noteq> ceil_div n group_size then Corruption
     else Inr (\<lparr>fh_has_freq = (flags AND flag_kHasFreq \<noteq> 0), fh_has_prx = (flags AND flag_kHasPrx \<noteq> 0),
        fh_n = n, fh_group_size = group_size, fh_n_super = n_super, fh_sbdir_len = sbdir_len\<rparr>, src))))))"

record sb_dir_row =
  sdr_last_docid :: u64
  sdr_block_off :: u64
  sdr_block_len :: u64

text \<open>The loop of \<open>decode_super_block_dir\<close>: the rows, and the offset at which the next block
  would start.\<close>

fun decode_dir_rows :: "nat \<Rightarrow> u64 \<Rightarrow> u64 \<Rightarrow> byte_source \<Rightarrow> ((sb_dir_row list \<times> u64) \<times> byte_source) result" where
  "decode_dir_rows 0 prev_last expect_off src = Inr (([], expect_off), src)"
| "decode_dir_rows (Suc n) prev_last expect_off src =
     and_then (get_varint64 src) (\<lambda>(ldd, src).
     and_then (get_varint64 src) (\<lambda>(block_off, src).
     and_then (get_varint64 src) (\<lambda>(block_len, src).
     let last_docid = prev_last + ldd in
     if last_docid < prev_last \<or> block_off \<noteq> expect_off then Corruption
     else
       and_then (decode_dir_rows n last_docid (expect_off + block_len) src) (\<lambda>((rows, region_len), src).
       Inr ((\<lparr>sdr_last_docid = last_docid, sdr_block_off = block_off, sdr_block_len = block_len\<rparr> # rows,
             region_len), src)))))"

definition decode_super_block_dir :: "byte list \<Rightarrow> frq_header \<Rightarrow> (sb_dir_row list \<times> u64) result" where
  "decode_super_block_dir dir h =
     and_then (decode_dir_rows (unat (fh_n_super h)) 0 0 (source dir)) (\<lambda>((rows, region_len), src).
     if \<not> eof src then Corruption else Inr (rows, region_len))"

definition check_win_mode :: "byte \<Rightarrow> bool \<Rightarrow> unit result" where
  "check_win_mode mode has_freq =
     (if mode AND NOT mode_kKnownBits \<noteq> 0 then Corruption
      else if \<not> has_freq \<and> mode AND mode_kFreqZstd \<noteq> 0 then Corruption
      else Inr ())"

definition get_freq_locator :: "window_meta \<Rightarrow> byte_source \<Rightarrow> (window_meta \<times> byte_source) result" where
  "get_freq_locator m src =
     and_then (get_varint64 src) (\<lambda>(off, src).
     and_then (get_varint64 src) (\<lambda>(disk_len, src).
     and_then (get_varint64 src) (\<lambda>(uncomp_len, src).
     and_then (get_fixed32 src) (\<lambda>(crc, src).
     Inr (m\<lparr>wm_freq_off := off, wm_freq_disk_len := disk_len, wm_freq_uncomp_len := uncomp_len,
            wm_crc_freq := crc\<rparr>, src)))))"

definition get_prx_locator :: "window_meta \<Rightarrow> byte_source \<Rightarrow> (window_meta \<times> byte_source) result" where
  "get_prx_locator m src =
     and_then (get_varint64 src) (\<lambda>(off, src).
     and_then (get_varint64 src) (\<lambda>(len, src).
     Inr (m\<lparr>wm_prx_off := off, wm_prx_len := len\<rparr>, src)))"

definition decode_window_row ::
  "bool \<Rightarrow> bool \<Rightarrow> u64 \<Rightarrow> byte_source \<Rightarrow> (window_meta \<times> byte_source) result" where
  "decode_window_row has_freq has_prx prev_last src =
     and_then (get_varint64 src) (\<lambda>(ldd, src).
     and_then (get_varint64 src) (\<lambda>(doc_count, src).
     and_then (get_u8 src) (\<lambda>(mode, src).
     and_then (check_win_mode mode has_freq) (\<lambda>_.
     and_then (get_varint64 src) (\<lambda>(dd_off, src).
     and_then (get_varint64 src) (\<lambda>(dd_disk_len, src).
     and_then (get_varint64 src) (\<lambda>(dd_uncomp_len, src).
     and_then (get_fixed32 src) (\<lambda>(crc_dd, src).
     let m = default_window_meta
           \<lparr>wm_dd_zstd := mode AND mode_kDdZstd \<noteq> 0,
            wm_freq_zstd := has_freq \<and> mode AND mode_kFreqZstd \<noteq> 0,
            wm_dd_off := dd_off, wm_dd_disk_len := dd_disk_len, wm_dd_uncomp_len := dd_uncomp_len,
            wm_crc_dd := crc_dd\<rparr> in
     and_then (if has_freq then get_freq_locator m src else Inr (m, src)) (\<lambda>(m, src).
     and_then (if has_prx then get_prx_locator m src else Inr (m, src)) (\<lambda>(m, src).
     and_then (get_varint64 src) (\<lambda>(max_freq, src).
     and_then (get_u8 src) (\<lambda>(max_norm, src).
     Inr (m\<lparr>wm_max_norm := max_norm, wm_win_base := prev_last,
            wm_last_docid := ucast (prev_last + ldd), wm_doc_count := ucast doc_count,
            wm_max_freq := ucast max_freq\<rparr>, src)))))))))))))"

text \<open>The loop of \<open>decode_one_block\<close>; it returns the new \<open>*prev_last\<close> and the rows it appends.\<close>

fun decode_rows :: "bool \<Rightarrow> bool \<Rightarrow> nat \<Rightarrow> u64 \<Rightarrow> byte_source \<Rightarrow>
    ((u64 \<times> window_meta list) \<times> byte_source) result" where
  "decode_rows has_freq has_prx 0 prev_last src = Inr ((prev_last, []), src)"
| "decode_rows has_freq has_prx (Suc n) prev_last src =
     and_then (decode_window_row has_freq has_prx prev_last src) (\<lambda>(m, src).
     and_then (decode_rows has_freq has_prx n (ucast (wm_last_docid m)) src) (\<lambda>((prev_last, ws), src).
     Inr ((prev_last, m # ws), src)))"

definition decode_one_block ::
  "byte list \<Rightarrow> frq_header \<Rightarrow> u64 \<Rightarrow> nat \<Rightarrow> u64 \<Rightarrow> (u64 \<times> window_meta list) result" where
  "decode_one_block block h sb_last row_count prev_last =
     and_then (decode_rows (fh_has_freq h) (fh_has_prx h) row_count prev_last (source block))
       (\<lambda>((prev_last, ws), src).
     if \<not> eof src then Corruption
     else if prev_last \<noteq> sb_last then Corruption
     else Inr (prev_last, ws))"

fun decode_blocks :: "byte list \<Rightarrow> frq_header \<Rightarrow> sb_dir_row list \<Rightarrow> u64 \<Rightarrow> window_meta list \<Rightarrow>
    window_meta list result" where
  "decode_blocks region h [] prev_last windows = Inr windows"
| "decode_blocks region h (r # dir) prev_last windows =
     (if sdr_block_off r + sdr_block_len r > of_nat (length region) \<or>
         sdr_block_off r + sdr_block_len r < sdr_block_off r then Corruption
      else
        let already = of_nat (length windows);
            rows = min (fh_group_size h) (fh_n h - already)
        in and_then (subslice region (unat (sdr_block_off r)) (unat (sdr_block_len r))) (\<lambda>block.
           and_then (decode_one_block block h (sdr_last_docid r) (unat rows) prev_last) (\<lambda>(prev_last, ws).
           decode_blocks region h dir prev_last (windows @ ws))))"

definition decode_all_blocks :: "byte list \<Rightarrow> frq_header \<Rightarrow> sb_dir_row list \<Rightarrow> window_meta list result" where
  "decode_all_blocks region h dir =
     and_then (decode_blocks region h dir 0 []) (\<lambda>windows.
     if of_nat (length windows) \<noteq> fh_n h then Corruption else Inr windows)"

fun validate_regions :: "bool \<Rightarrow> u64 \<Rightarrow> u64 \<Rightarrow> window_meta list \<Rightarrow> (u64 \<times> u64) result" where
  "validate_regions has_freq dd_expect freq_expect [] = Inr (dd_expect, freq_expect)"
| "validate_regions has_freq dd_expect freq_expect (m # ws) =
     (if wm_dd_off m \<noteq> dd_expect then Corruption
      else if wm_dd_disk_len m > wm_dd_uncomp_len m \<and> \<not> wm_dd_zstd m then Corruption
      else if dd_expect + wm_dd_disk_len m < dd_expect then Corruption
      else if has_freq then
        (if wm_freq_off m \<noteq> freq_expect then Corruption
         else if freq_expect + wm_freq_disk_len m < freq_expect then Corruption
         else validate_regions has_freq (dd_expect + wm_dd_disk_len m)
                (freq_expect + wm_freq_disk_len m) ws)
      else validate_regions has_freq (dd_expect + wm_dd_disk_len m) freq_expect ws)"

definition validate_region_layout :: "frq_header \<Rightarrow> window_meta list \<Rightarrow> (u64 \<times> u64) result" where
  "validate_region_layout h windows = validate_regions (fh_has_freq h) 0 0 windows"

record frq_prelude_reader =
  fpr_has_freq :: bool
  fpr_has_prx :: bool
  fpr_group_size :: u32
  fpr_n_super :: u32
  fpr_dd_block_len :: u64
  fpr_freq_block_len :: u64
  fpr_sb_last_docid :: "u64 list"
  fpr_windows :: "window_meta list"

definition frq_prelude_open :: "byte list \<Rightarrow> frq_prelude_reader result" where
  "frq_prelude_open prelude =
     and_then (parse_header (source prelude)) (\<lambda>(h, src).
     let header_end = src_pos src; size = (of_nat (length prelude) :: u64) in
     and_then (verify_covered_crc prelude header_end (fh_sbdir_len h)) (\<lambda>_.
     if of_nat header_end + fh_sbdir_len h > size then Corruption
     else
       and_then (subslice prelude header_end (unat (fh_sbdir_len h))) (\<lambda>dir.
       and_then (decode_super_block_dir dir h) (\<lambda>(rows, window_region_len).
       let region_start = of_nat header_end + fh_sbdir_len h + 4 in
       if region_start + window_region_len > size then Corruption
       else
         and_then (subslice prelude (unat region_start) (unat window_region_len)) (\<lambda>window_region.
         and_then (decode_all_blocks window_region h rows) (\<lambda>windows.
         and_then (validate_region_layout h windows) (\<lambda>(dd_block_len, freq_block_len).
         Inr \<lparr>fpr_has_freq = fh_has_freq h, fpr_has_prx = fh_has_prx h,
              fpr_group_size = ucast (fh_group_size h), fpr_n_super = ucast (fh_n_super h),
              fpr_dd_block_len = dd_block_len, fpr_freq_block_len = freq_block_len,
              fpr_sb_last_docid = map sdr_last_docid rows, fpr_windows = windows\<rparr>)))))))"

definition prelude_window :: "frq_prelude_reader \<Rightarrow> u32 \<Rightarrow> window_meta result" where
  "prelude_window r w =
     (if unat w \<ge> length (fpr_windows r) then InvalidArgument else Inr (fpr_windows r ! unat w))"

text \<open>The result is \<open>*w\<close> when \<open>*found\<close> is set. Both searches stay inside their vectors.\<close>

definition locate_window :: "frq_prelude_reader \<Rightarrow> u32 \<Rightarrow> u32 option" where
  "locate_window r docid =
     (if fpr_windows r = [] then None
      else if docid > wm_last_docid (last (fpr_windows r)) then None
      else
        let sb = lower_bound (fpr_sb_last_docid r) (ucast docid);
            lo = sb * unat (fpr_group_size r);
            hi = min (lo + unat (fpr_group_size r)) (length (fpr_windows r))
        in map_option of_nat (find (\<lambda>i. docid \<le> wm_last_docid (fpr_windows r ! i)) [lo..<hi]))"

end
