(* ===== verification/Prx_Pod.thy ===== *)
theory Prx_Pod
  imports Pfor_Runs Crc32c Zstd_Codec Frq_Pod
begin

text \<open>
  Windows of the \<open>.prx\<close> POD: \<open>src/core/src/format/prx_pod.cpp\<close>. A window holds the positions of
  each of its documents, as varints (raw or zstd) or as PFOR columns; it is read back document by
  document, or as one flat vector with offsets (CSR).
\<close>

definition kMaxWindowUncompBytes :: u32 where "kMaxWindowUncompBytes = 256 * 1024 * 1024"

definition kMaxWindowPositions :: u32 where "kMaxWindowPositions = push_bit 26 1"

definition prx_kMaxWindowDocs :: u32 where "prx_kMaxWindowDocs = push_bit 24 1"

definition prx_codec_kRaw :: byte where "prx_codec_kRaw = 0"

definition prx_codec_kZstd :: byte where "prx_codec_kZstd = 1"

definition prx_codec_kPfor :: byte where "prx_codec_kPfor = 2"

lemmas prx_codecs = prx_codec_kRaw_def prx_codec_kZstd_def prx_codec_kPfor_def

subsection \<open>Encoding\<close>

definition sum_u64 :: "u32 list \<Rightarrow> u64" where
  "sum_u64 freqs = foldl (\<lambda>sum fc. sum + ucast fc) 0 freqs"

definition check_flat_partition :: "u32 list \<Rightarrow> u32 list \<Rightarrow> unit result" where
  "check_flat_partition flat freqs =
     (if sum_u64 freqs \<noteq> of_nat (length flat) then InvalidArgument else Inr ())"

text \<open>The inner loop over a document's positions, at index \<open>i\<close>.\<close>

fun put_positions :: "nat \<Rightarrow> u32 \<Rightarrow> u32 list \<Rightarrow> byte_sink \<Rightarrow> byte_sink result" where
  "put_positions i prev [] out = Inr out"
| "put_positions i prev (pos # ps) out =
     (if i > 0 \<and> pos < prev then InvalidArgument
      else put_positions (Suc i) pos ps (put_varint32 (if i = 0 then pos else pos - prev) out))"

fun put_docs :: "u32 list list \<Rightarrow> byte_sink \<Rightarrow> byte_sink result" where
  "put_docs [] out = Inr out"
| "put_docs (doc # docs) out =
     and_then (put_positions 0 0 doc (put_varint32 (of_nat (length doc)) out)) (put_docs docs)"

definition prx_encode_payload :: "u32 list list \<Rightarrow> byte_sink \<Rightarrow> byte_sink result" where
  "prx_encode_payload per_doc out = put_docs per_doc (put_varint32 (of_nat (length per_doc)) out)"

fun put_docs_flat :: "u32 list \<Rightarrow> nat \<Rightarrow> u32 list \<Rightarrow> byte_sink \<Rightarrow> byte_sink result" where
  "put_docs_flat flat off [] out = Inr out"
| "put_docs_flat flat off (fc # freqs) out =
     and_then (subslice flat off (unat fc)) (\<lambda>doc.
     and_then (put_positions 0 0 doc (put_varint32 fc out)) (\<lambda>out.
     put_docs_flat flat (off + unat fc) freqs out))"

definition prx_encode_payload_flat :: "u32 list \<Rightarrow> u32 list \<Rightarrow> byte_sink \<Rightarrow> byte_sink result" where
  "prx_encode_payload_flat flat freqs out =
     and_then (check_flat_partition flat freqs) (\<lambda>_.
     put_docs_flat flat 0 freqs (put_varint32 (of_nat (length freqs)) out))"

fun position_deltas :: "nat \<Rightarrow> u32 \<Rightarrow> u32 list \<Rightarrow> u32 list result" where
  "position_deltas i prev [] = Inr []"
| "position_deltas i prev (pos # ps) =
     (if i > 0 \<and> pos < prev then InvalidArgument
      else and_then (position_deltas (Suc i) pos ps) (\<lambda>ds.
           Inr ((if i = 0 then pos else pos - prev) # ds)))"

fun flat_deltas :: "u32 list \<Rightarrow> nat \<Rightarrow> u32 list \<Rightarrow> u32 list result" where
  "flat_deltas flat off [] = Inr []"
| "flat_deltas flat off (fc # freqs) =
     and_then (subslice flat off (unat fc)) (\<lambda>doc.
     and_then (position_deltas 0 0 doc) (\<lambda>ds.
     and_then (flat_deltas flat (off + unat fc) freqs) (\<lambda>rest_ds. Inr (ds @ rest_ds))))"

definition encode_pfor_payload_flat :: "u32 list \<Rightarrow> u32 list \<Rightarrow> byte_sink \<Rightarrow> byte_sink result" where
  "encode_pfor_payload_flat flat freqs out =
     and_then (check_flat_partition flat freqs) (\<lambda>_.
     let out = put_varint32 (of_nat (length freqs)) out;
         out = put_varint32 (of_nat (length flat)) out;
         out = encode_pfor_runs freqs out
     in and_then (flat_deltas flat 0 freqs) (\<lambda>deltas. Inr (encode_pfor_runs deltas out)))"

definition encode_pfor_payload :: "u32 list list \<Rightarrow> byte_sink \<Rightarrow> byte_sink result" where
  "encode_pfor_payload per_doc out =
     (let freqs = map (\<lambda>doc. of_nat (length doc)) per_doc;
          flat = concat per_doc
      in encode_pfor_payload_flat flat freqs out)"

definition write_pfor :: "byte list \<Rightarrow> byte_sink \<Rightarrow> byte_sink" where
  "write_pfor payload sink =
     (let framed = put_u8 prx_codec_kPfor [];
          framed = put_varint32 (of_nat (length payload)) framed;
          framed = put_bytes payload framed;
          sink = put_bytes framed sink
      in put_fixed32 (crc32c framed) sink)"

definition write_raw :: "byte list \<Rightarrow> byte_sink \<Rightarrow> byte_sink" where
  "write_raw plain sink =
     (let framed = put_u8 prx_codec_kRaw [];
          framed = put_varint32 (of_nat (length plain)) framed;
          framed = put_bytes plain framed;
          sink = put_bytes framed sink
      in put_fixed32 (crc32c framed) sink)"

definition write_zstd :: "zstd_lib \<Rightarrow> byte list \<Rightarrow> int \<Rightarrow> byte_sink \<Rightarrow> byte_sink result" where
  "write_zstd z plain level sink =
     and_then (zstd_compress z plain (if level > 0 then level else kDefaultZstdLevel)) (\<lambda>comp.
     let framed = put_u8 prx_codec_kZstd [];
         framed = put_varint32 (of_nat (length plain)) framed;
         framed = put_varint32 (of_nat (length comp)) framed;
         framed = put_bytes comp framed;
         sink = put_bytes framed sink
     in Inr (put_fixed32 (crc32c framed) sink))"

text \<open>\<open>should_compress\<close> has the same text here as in the \<open>.frq\<close> codec.\<close>

definition build_prx_window :: "zstd_lib \<Rightarrow> u32 list list \<Rightarrow> int \<Rightarrow> byte_sink \<Rightarrow> byte_sink result" where
  "build_prx_window z per_doc level sink =
     (if level \<ge> 0 then
        and_then (prx_encode_payload per_doc []) (\<lambda>plain.
        if \<not> should_compress level (length plain) then Inr (write_raw plain sink)
        else write_zstd z plain level sink)
      else and_then (encode_pfor_payload per_doc []) (\<lambda>payload. Inr (write_pfor payload sink)))"

definition build_prx_window_flat ::
  "zstd_lib \<Rightarrow> u32 list \<Rightarrow> u32 list \<Rightarrow> int \<Rightarrow> byte_sink \<Rightarrow> byte_sink result" where
  "build_prx_window_flat z flat freqs level sink =
     (if level \<ge> 0 then
        and_then (prx_encode_payload_flat flat freqs []) (\<lambda>plain.
        if \<not> should_compress level (length plain) then Inr (write_raw plain sink)
        else write_zstd z plain level sink)
      else and_then (encode_pfor_payload_flat flat freqs []) (\<lambda>payload. Inr (write_pfor payload sink)))"

subsection \<open>Decoding\<close>

text \<open>The inner loops that turn deltas back into positions.\<close>

fun undelta :: "nat \<Rightarrow> u32 \<Rightarrow> u32 list \<Rightarrow> u32 list" where
  "undelta i prev [] = []"
| "undelta i prev (d # ds) =
     (let prev = (if i = 0 then d else prev + d) in prev # undelta (Suc i) prev ds)"

fun split_docs :: "u32 list \<Rightarrow> nat \<Rightarrow> u32 list \<Rightarrow> u32 list list result" where
  "split_docs deltas off [] = Inr []"
| "split_docs deltas off (n # pos_counts) =
     and_then (subslice deltas off (unat n)) (\<lambda>ds.
     and_then (split_docs deltas (off + unat n) pos_counts) (\<lambda>docs.
     Inr (undelta 0 0 ds # docs)))"

definition decode_pfor_payload :: "byte list \<Rightarrow> u32 list list result" where
  "decode_pfor_payload plain =
     (let src = source plain in
      and_then (get_varint32 src) (\<lambda>(doc_count, src).
      and_then (get_varint32 src) (\<lambda>(total_pos, src).
      if total_pos > kMaxWindowPositions then Corruption
      else if doc_count > prx_kMaxWindowDocs then Corruption
      else
        and_then (decode_pfor_runs (unat doc_count) src) (\<lambda>(pos_counts, src).
        if sum_u64 pos_counts \<noteq> ucast total_pos then Corruption
        else
          and_then (decode_pfor_runs (unat total_pos) src) (\<lambda>(deltas, src).
          and_then (split_docs deltas 0 pos_counts) (\<lambda>out.
          if \<not> eof src then Corruption else Inr out))))))"

fun get_positions :: "nat \<Rightarrow> nat \<Rightarrow> u32 \<Rightarrow> byte_source \<Rightarrow> (u32 list \<times> byte_source) result" where
  "get_positions 0 i prev src = Inr ([], src)"
| "get_positions (Suc n) i prev src =
     and_then (get_varint32 src) (\<lambda>(delta, src).
     let prev = (if i = 0 then delta else prev + delta) in
     and_then (get_positions n (Suc i) prev src) (\<lambda>(ps, src). Inr (prev # ps, src)))"

fun get_docs :: "nat \<Rightarrow> byte_source \<Rightarrow> (u32 list list \<times> byte_source) result" where
  "get_docs 0 src = Inr ([], src)"
| "get_docs (Suc n) src =
     and_then (get_varint32 src) (\<lambda>(pos_count, src).
     and_then (get_positions (unat pos_count) 0 0 src) (\<lambda>(doc, src).
     and_then (get_docs n src) (\<lambda>(docs, src). Inr (doc # docs, src))))"

definition prx_decode_payload :: "byte list \<Rightarrow> u32 list list result" where
  "prx_decode_payload plain =
     (let src = source plain in
      and_then (get_varint32 src) (\<lambda>(doc_count, src).
      if doc_count > prx_kMaxWindowDocs then Corruption
      else
        and_then (get_docs (unat doc_count) src) (\<lambda>(out, src).
        if \<not> eof src then Corruption else Inr out)))"

text \<open>The CSR loops, which append to \<open>pos_flat\<close> and \<open>pos_off\<close>.\<close>

fun split_docs_csr :: "u32 list \<Rightarrow> nat \<Rightarrow> u32 list \<Rightarrow> u32 list \<Rightarrow> u32 list \<Rightarrow>
    (u32 list \<times> u32 list) result" where
  "split_docs_csr deltas off [] pos_flat pos_off = Inr (pos_flat, pos_off)"
| "split_docs_csr deltas off (n # pos_counts) pos_flat pos_off =
     and_then (subslice deltas off (unat n)) (\<lambda>ds.
     let pos_flat = pos_flat @ undelta 0 0 ds
     in split_docs_csr deltas (off + unat n) pos_counts pos_flat (pos_off @ [of_nat (length pos_flat)]))"

definition decode_pfor_payload_csr :: "byte list \<Rightarrow> (u32 list \<times> u32 list) result" where
  "decode_pfor_payload_csr plain =
     (let src = source plain in
      and_then (get_varint32 src) (\<lambda>(doc_count, src).
      and_then (get_varint32 src) (\<lambda>(total_pos, src).
      if total_pos > kMaxWindowPositions then Corruption
      else if doc_count > prx_kMaxWindowDocs then Corruption
      else
        and_then (decode_pfor_runs (unat doc_count) src) (\<lambda>(pos_counts, src).
        if sum_u64 pos_counts \<noteq> ucast total_pos then Corruption
        else
          and_then (decode_pfor_runs (unat total_pos) src) (\<lambda>(deltas, src).
          and_then (split_docs_csr deltas 0 pos_counts [] [0]) (\<lambda>out.
          if \<not> eof src then Corruption else Inr out))))))"

fun get_docs_csr :: "nat \<Rightarrow> u64 \<Rightarrow> u32 list \<Rightarrow> u32 list \<Rightarrow> byte_source \<Rightarrow>
    ((u32 list \<times> u32 list) \<times> byte_source) result" where
  "get_docs_csr 0 total_pos pos_flat pos_off src = Inr ((pos_flat, pos_off), src)"
| "get_docs_csr (Suc n) total_pos pos_flat pos_off src =
     and_then (get_varint32 src) (\<lambda>(pos_count, src).
     let total_pos = total_pos + ucast pos_count in
     if total_pos > ucast kMaxWindowPositions then Corruption
     else
       and_then (get_positions (unat pos_count) 0 0 src) (\<lambda>(doc, src).
       let pos_flat = pos_flat @ doc
       in get_docs_csr n total_pos pos_flat (pos_off @ [of_nat (length pos_flat)]) src))"

definition prx_decode_payload_csr :: "byte list \<Rightarrow> (u32 list \<times> u32 list) result" where
  "prx_decode_payload_csr plain =
     (let src = source plain in
      and_then (get_varint32 src) (\<lambda>(doc_count, src).
      if doc_count > prx_kMaxWindowDocs then Corruption
      else
        and_then (get_docs_csr (unat doc_count) 0 [] [0] src) (\<lambda>(out, src).
        if \<not> eof src then Corruption else Inr out)))"

definition read_framed :: "byte_source \<Rightarrow> ((byte \<times> u32 \<times> byte list) \<times> byte_source) result" where
  "read_framed src =
     (let start = src_pos src in
      and_then (get_u8 src) (\<lambda>(codec, src).
      if codec \<noteq> prx_codec_kRaw \<and> codec \<noteq> prx_codec_kZstd \<and> codec \<noteq> prx_codec_kPfor then Corruption
      else
        and_then (get_varint32 src) (\<lambda>(uncomp_len, src).
        if uncomp_len > kMaxWindowUncompBytes then Corruption
        else
          and_then (if codec = prx_codec_kZstd
                    then and_then (get_varint32 src) (\<lambda>(comp_len, src). Inr (unat comp_len, src))
                    else Inr (unat uncomp_len, src)) (\<lambda>(payload_len, src).
          and_then (get_bytes payload_len src) (\<lambda>(payload, src).
          let framed_len = src_pos src - start in
          and_then (get_fixed32 src) (\<lambda>(stored, src).
          and_then (slice_from src start framed_len) (\<lambda>covered.
          if crc32c covered \<noteq> stored then Corruption
          else Inr ((codec, uncomp_len, payload), src))))))))"

definition read_prx_window :: "zstd_lib \<Rightarrow> byte_source \<Rightarrow> (u32 list list \<times> byte_source) result" where
  "read_prx_window z src =
     and_then (read_framed src) (\<lambda>((codec, uncomp_len, payload), src).
     and_then
       (if codec = prx_codec_kPfor then decode_pfor_payload payload
        else if codec = prx_codec_kRaw then prx_decode_payload payload
        else and_then (zstd_decompress z payload (unat uncomp_len)) prx_decode_payload)
     (\<lambda>per_doc_positions. Inr (per_doc_positions, src)))"

definition read_prx_window_csr ::
  "zstd_lib \<Rightarrow> byte_source \<Rightarrow> ((u32 list \<times> u32 list) \<times> byte_source) result" where
  "read_prx_window_csr z src =
     and_then (read_framed src) (\<lambda>((codec, uncomp_len, payload), src).
     and_then
       (if codec = prx_codec_kPfor then decode_pfor_payload_csr payload
        else if codec = prx_codec_kRaw then prx_decode_payload_csr payload
        else and_then (zstd_decompress z payload (unat uncomp_len)) prx_decode_payload_csr)
     (\<lambda>csr. Inr (csr, src)))"

end
