(* ===== verification/Section_Framer.thy ===== *)
theory Section_Framer
  imports Crc32c
begin

text \<open>
  \<open>SectionFramer\<close> (\<open>src/core/src/encoding/section_framer.cpp\<close>): the envelope
  \<open>[u8 type][varint64 len][payload][fixed32 crc32c(type+len+payload)]\<close> around every section of
  the metadata. A written frame reads back; a read that succeeds has checked the checksum of
  exactly the bytes it consumed; no change of a single covered byte is accepted.
\<close>

record framed_section =
  sec_type :: byte
  sec_payload :: "byte list"

definition framer_write :: "byte_sink \<Rightarrow> byte \<Rightarrow> byte list \<Rightarrow> byte_sink" where
  "framer_write sink section_type payload =
     (let framed = [];
          framed = put_u8 section_type framed;
          framed = put_varint64 (of_nat (length payload)) framed;
          framed = put_bytes payload framed;
          crc = crc32c framed;
          sink = put_bytes framed sink
      in put_fixed32 crc sink)"

definition framer_read :: "byte_source \<Rightarrow> (framed_section \<times> byte_source) result" where
  "framer_read src =
     (let start = src_pos src in
      and_then (get_u8 src) (\<lambda>(type, src).
      and_then (get_varint64 src) (\<lambda>(len, src).
      and_then (get_bytes (unat len) src) (\<lambda>(payload, src).
      let framed_len = src_pos src - start in
      and_then (get_fixed32 src) (\<lambda>(stored, src).
      and_then (slice_from src start framed_len) (\<lambda>covered.
      if crc32c covered \<noteq> stored then Corruption
      else Inr (\<lparr>sec_type = type, sec_payload = payload\<rparr>, src)))))))"

subsection \<open>Frames\<close>

definition frame_covered :: "byte \<Rightarrow> byte list \<Rightarrow> byte list" where
  "frame_covered t payload = [t] @ encode_varint64 (of_nat (length payload)) @ payload"

definition frame_bytes :: "byte \<Rightarrow> byte list \<Rightarrow> byte list" where
  "frame_bytes t payload = frame_covered t payload @ le_bytes 4 (crc32c (frame_covered t payload))"

lemma framer_write_bytes [put_simps]: "framer_write sink t payload = sink @ frame_bytes t payload"
  by (simp add: framer_write_def put_simps frame_bytes_def frame_covered_def)

lemma length_frame_bytes:
  "length (frame_bytes t payload) = length payload + varint_len (of_nat (length payload)) + 5"
  by (simp add: frame_bytes_def frame_covered_def varint_len_encode)

lemma length_frame_le: "length (frame_bytes t payload) \<le> length payload + 15"
  using varint_len_le_10 [of "of_nat (length payload)"] by (simp add: length_frame_bytes)

lemma frame_bytes_nonempty [simp]: "frame_bytes t payload \<noteq> []"
  by (simp add: frame_bytes_def frame_covered_def)

text \<open>What the reader does on a byte sequence that begins with a type, a length and enough
  payload, whatever the checksum field holds.\<close>

lemma framer_read_layout:
  assumes len: "length payload < 2 ^ 64"
    and rest: "rest src = frame_covered t payload @ le_bytes 4 stored @ r"
  shows "framer_read src =
     (if crc32c (frame_covered t payload) \<noteq> stored then Corruption
      else Inr (\<lparr>sec_type = t, sec_payload = payload\<rparr>, advance (length payload +
             varint_len (of_nat (length payload)) + 5) src))"
proof -
  let ?c = "frame_covered t payload"
  let ?v = "encode_varint64 (of_nat (length payload))"
  have wf: "wf_source src"
    by (rule wf_if_rest) (simp add: rest frame_covered_def)
  have sl: "slice_from (advance k src) (src_pos src) 
      (Suc (length payload + varint_len (of_nat (length payload)))) = Inr ?c" for k
    using slice_from_rest [of ?c src k] wf
    by (simp add: rest) (simp add: frame_covered_def varint_len_encode add.commute)
  have r: "rest src = t # ?v @ payload @ le_bytes 4 stored @ r"
    by (simp add: rest frame_covered_def)
  show ?thesis
    using len wf r by (simp add: framer_read_def Let_def codec_simps sl varint_len_encode ac_simps)
qed

lemma framer_read_frame:
  assumes "length payload < 2 ^ 64" and "prefix (frame_bytes t payload) (rest src)"
  shows "framer_read src =
    Inr (\<lparr>sec_type = t, sec_payload = payload\<rparr>, advance (length (frame_bytes t payload)) src)"
proof -
  from assms(2) obtain r where
    "rest src = frame_covered t payload @ le_bytes 4 (crc32c (frame_covered t payload)) @ r"
    by (auto simp: prefix_def frame_bytes_def)
  from framer_read_layout [OF assms(1) this] show ?thesis
    by (simp add: length_frame_bytes)
qed

subsection \<open>The framer is a codec\<close>

lemma framer_read_Inr:
  assumes wf: "wf_source src" and "framer_read src = Inr (sec, src')"
  obtains n where "n \<le> remaining src" and "src' = advance n src" and "5 < n"
    and "length (sec_payload sec) \<le> n"
    and "crc32c (take (n - 4) (rest src)) = load_le 4 (rest src) (n - 4)"
proof -
  from assms(2) obtain t s1 len s2 payload s3 stored s4 covered where
    1: "get_u8 src = Inr (t, s1)" and 2: "get_varint64 s1 = Inr (len, s2)" and
    3: "get_bytes (unat len) s2 = Inr (payload, s3)" and 4: "get_fixed32 s3 = Inr (stored, s4)" and
    5: "slice_from s4 (src_pos src) (src_pos s3 - src_pos src) = Inr covered" and
    6: "crc32c covered = stored" and 7: "sec = \<lparr>sec_type = t, sec_payload = payload\<rparr>" "src' = s4"
    by (auto simp: framer_read_def Let_def split: if_splits)
  have s1: "s1 = advance 1 src" "1 \<le> remaining src"
    using 1 by (auto simp: get_u8_def split: if_splits)
  have wf1: "wf_source s1" by (rule u8.wf_after [OF wf 1])
  obtain k where k: "k \<le> remaining s1" "s2 = advance k s1" "0 < k"
    using get_varint64_moves [OF wf1 2] by blast
  have wf2: "wf_source s2" by (rule varint64.wf_after [OF wf1 2])
  have s3: "unat len \<le> remaining s2" "s3 = advance (unat len) s2" "payload = take (unat len) (rest s2)"
    using get_bytes_Inr [OF wf2 3] by auto
  have s4: "4 \<le> remaining s3" "s4 = advance 4 s3" "stored = load_le 4 (src_bytes s3) (src_pos s3)"
    using 4 by (auto simp: get_fixed32_def split: if_splits)
  define n where "n = 1 + k + unat len + 4"
  have "n \<le> remaining src"
    using s1 k s3 s4 by (simp add: n_def remaining_rest)
  moreover have "src' = advance n src" using s1 k s3 s4 7 by (simp add: n_def)
  moreover have "5 < n" using k by (simp add: n_def)
  moreover have "length (sec_payload sec) \<le> n" using s3 7 by (simp add: n_def)
  moreover have "covered = take (n - 4) (rest src)"
    using 5 s1 k s3 s4 by (simp add: slice_from_def subslice_Inr rest_def n_def)
  moreover have "stored = load_le 4 (rest src) (n - 4)"
    using s1 k s3 s4 \<open>n \<le> remaining src\<close>
    by (simp add: load_le_def rest_def n_def remaining_def add.assoc)
  ultimately show ?thesis using 6 by (intro that) auto
qed

interpretation framer: codec framer_read "\<lambda>sec sink. framer_write sink (sec_type sec) (sec_payload sec)"
  "\<lambda>sec. frame_bytes (sec_type sec) (sec_payload sec)" "\<lambda>sec. length (sec_payload sec) < 2 ^ 64"
proof unfold_locales
  fix src assume "wf_source src"
  then show "cursor_ok src (framer_read src)"
    unfolding framer_read_def Let_def
    by (auto intro!: cursor_intros slice_bind) (auto simp: wf_source_def)
next
  fix sec :: framed_section and src assume "length (sec_payload sec) < 2 ^ 64"
    "prefix (frame_bytes (sec_type sec) (sec_payload sec)) (rest src)"
  from framer_read_frame [OF this] show "framer_read src =
      Inr (sec, advance (length (frame_bytes (sec_type sec) (sec_payload sec))) src)"
    by (cases sec) simp
qed (simp add: put_simps)

lemma framer_read_source [codec_simps]:
  "length payload < 2 ^ 64 \<Longrightarrow> framer_read (source (frame_bytes t payload)) =
     Inr (\<lparr>sec_type = t, sec_payload = payload\<rparr>,
          advance (length (frame_bytes t payload)) (source (frame_bytes t payload)))"
  by (rule framer_read_frame) auto

subsection \<open>Correctness\<close>

text \<open>C30: a frame that was written reads back, and after a change of any one byte of its payload
  the reader reports corruption.\<close>

theorem frame_integrity:
  assumes len: "length payload < 2 ^ 64" and i: "i < length payload" and b: "b \<noteq> payload ! i"
  shows "framer_read (source (framer_write [] t payload)) =
      Inr (\<lparr>sec_type = t, sec_payload = payload\<rparr>,
        advance (length (frame_bytes t payload)) (source (framer_write [] t payload))) \<and>
    framer_read (source ((framer_write [] t payload)
        [1 + varint_len (of_nat (length payload)) + i := b])) = Corruption"
proof
  show "framer_read (source (framer_write [] t payload)) =
      Inr (\<lparr>sec_type = t, sec_payload = payload\<rparr>,
        advance (length (frame_bytes t payload)) (source (framer_write [] t payload)))"
    using framer_read_source [OF len, of t] by (simp add: put_simps)
  let ?p = "payload[i := b]" and ?h = "t # encode_varint64 (of_nat (length payload))"
  let ?stored = "le_bytes 4 (crc32c (frame_covered t payload))"
  have cov: "frame_covered t payload = (?h @ take i payload) @ payload ! i # drop (Suc i) payload"
    using i by (simp add: frame_covered_def flip: id_take_nth_drop)
  have cov': "frame_covered t ?p = (?h @ take i payload) @ b # drop (Suc i) payload"
    using i by (simp add: frame_covered_def upd_conv_take_nth_drop)
  have ne: "crc32c (frame_covered t ?p) \<noteq> crc32c (frame_covered t payload)"
    using b crc32c_change unfolding cov cov' by metis
  have "(framer_write [] t payload)[1 + varint_len (of_nat (length payload)) + i := b] =
      frame_covered t ?p @ ?stored"
    using i by (simp add: put_simps frame_bytes_def frame_covered_def list_update_append
        varint_len_encode)
  then show "framer_read (source ((framer_write [] t payload)
      [1 + varint_len (of_nat (length payload)) + i := b])) = Corruption"
    using framer_read_layout [of ?p "source (frame_covered t ?p @ ?stored)" t
        "crc32c (frame_covered t payload)" "[]"] len ne by simp
qed

theorem frame_integrity_witness:
  "framer_read (source ((framer_write [] 1 [7, 8, 9])
     [1 + varint_len (of_nat (length [7 :: byte, 8, 9])) + 1 := 0])) = Corruption"
  by (rule frame_integrity [THEN conjunct2]) simp_all

end
