(* ===== verification/Norms_Pod.thy ===== *)
theory Norms_Pod
  imports Section_Framer Format_Constants
begin

text \<open>
  The per-document length norms: \<open>src/core/src/format/norms_pod.cpp\<close> and the inline methods of
  \<open>src/core/include/snii/format/norms_pod.h\<close>. The writer's state is the vector \<open>norms_\<close>.
\<close>

type_synonym norms_pod_writer = "byte list"

record norms_pod_reader =
  npr_norms :: "byte list"
  npr_doc_count :: u32

definition norms_add :: "byte \<Rightarrow> norms_pod_writer \<Rightarrow> norms_pod_writer" where
  "norms_add encoded_norm norms = norms @ [encoded_norm]"

definition norms_finish :: "norms_pod_writer \<Rightarrow> byte_sink \<Rightarrow> byte_sink" where
  "norms_finish norms sink =
     (let payload = put_varint64 (of_nat (length norms)) [];
          payload = put_bytes norms payload
      in framer_write sink (section_type_id kStatsBlock) payload)"

definition norms_open :: "byte list \<Rightarrow> norms_pod_reader result" where
  "norms_open framed =
     and_then (framer_read (source framed)) (\<lambda>(sec, src).
     let payload = source (sec_payload sec) in
     and_then (get_varint64 payload) (\<lambda>(doc_count, payload).
     if doc_count > 0xFFFFFFFF then Corruption
     else if remaining payload \<noteq> unat doc_count then Corruption
     else
       and_then (get_bytes (unat doc_count) payload) (\<lambda>(bytes, payload).
       Inr \<lparr>npr_norms = bytes, npr_doc_count = ucast doc_count\<rparr>)))"

text \<open>The unchecked access only asserts its precondition.\<close>

definition encoded_norm :: "norms_pod_reader \<Rightarrow> u32 \<Rightarrow> byte result" where
  "encoded_norm r docid =
     (if unat docid < length (npr_norms r) then Inr (npr_norms r ! unat docid) else Inl OutOfBounds)"

definition try_encoded_norm :: "norms_pod_reader \<Rightarrow> u32 \<Rightarrow> byte result" where
  "try_encoded_norm r docid =
     (if docid \<ge> npr_doc_count r then InvalidArgument else encoded_norm r docid)"

subsection \<open>Round trip and safety of the checked access\<close>

definition norms_bytes :: "byte list \<Rightarrow> byte list" where
  "norms_bytes norms = frame_bytes 1 (encode_varint64 (of_nat (length norms)) @ norms)"

lemma norms_finish_bytes [put_simps]: "norms_finish norms sink = sink @ norms_bytes norms"
  by (simp add: norms_finish_def put_simps norms_bytes_def)

lemma norms_open_bytes:
  assumes "length norms < 2 ^ 32"
  shows "norms_open (norms_bytes norms) =
     Inr \<lparr>npr_norms = norms, npr_doc_count = of_nat (length norms)\<rparr>"
proof -
  let ?p = "encode_varint64 (of_nat (length norms)) @ norms"
  have "varint_len (of_nat (length norms)) \<le> 10" by (rule varint_len_le_10)
  then have len: "length ?p < 2 ^ 64" using assms by (simp flip: varint_len_encode)
  have le: "\<not> 0xFFFFFFFF < (of_nat (length norms) :: u64)"
    using assms by (simp add: word_less_nat_alt)
  have un: "unat (of_nat (length norms) :: u64) = length norms"
    using assms by simp
  have uc: "(ucast (of_nat (length norms) :: u64) :: u32) = of_nat (length norms)"
    using assms by (intro word_unat_eq_iff [THEN iffD2])
      (simp add: unsigned_ucast_eq take_bit_nat_eq_self un)
  show ?thesis
    unfolding norms_open_def norms_bytes_def framer_read_source [OF len]
    using le un uc by (simp add: codec_simps remaining_rest Let_def)
qed

lemma norms_open_count:
  assumes "norms_open framed = Inr r"
  shows "unat (npr_doc_count r) = length (npr_norms r)"
proof -
  from assms obtain sec :: framed_section and dc p bytes p' where
    gv: "get_varint64 (source (sec_payload sec)) = Inr (dc, p)" and le: "\<not> 0xFFFFFFFF < dc"
    and rem: "remaining p = unat dc"
    and gb: "get_bytes (unat dc) p = Inr (bytes, p')"
    and r: "r = \<lparr>npr_norms = bytes, npr_doc_count = ucast dc\<rparr>"
    by (auto simp: norms_open_def Let_def split: if_splits)
  have "wf_source p" by (rule varint64.wf_after [OF wf_source_source gv])
  with gb rem have "length bytes = unat dc" by (auto simp: remaining_rest dest!: get_bytes_Inr)
  moreover from le have "unat (ucast dc :: u32) = unat dc"
    by (simp add: unsigned_ucast_eq take_bit_nat_eq_self word_less_nat_alt)
  ultimately show ?thesis by (simp add: r)
qed

lemma try_encoded_norm_open:
  "norms_open framed = Inr r \<Longrightarrow> try_encoded_norm r docid =
     (if unat docid < length (npr_norms r) then Inr (npr_norms r ! unat docid) else InvalidArgument)"
  by (auto simp: try_encoded_norm_def encoded_norm_def word_le_nat_alt dest: norms_open_count)

lemma norms_open_safe: "norms_open framed \<noteq> Inl OutOfBounds"
  by (auto simp: norms_open_def Let_def and_then_eq_Inl split: if_splits
      dest: get_varint64_error framer.safe [OF wf_source_source, THEN notE]
        bytes.safe [OF varint64.wf_after [OF wf_source_source], THEN notE])

subsection \<open>Correctness\<close>

text \<open>C35: a norms section reopens, and the checked access returns the norm that was added for each
  document and rejects every other document number.\<close>

theorem norms_pod_lookup:
  assumes "length norms < 2 ^ 32"
  shows "and_then (norms_open (norms_finish (fold norms_add norms []) [])) (\<lambda>r. try_encoded_norm r docid) =
    (if unat docid < length norms then Inr (norms ! unat docid) else InvalidArgument)"
proof -
  have "fold norms_add norms acc = acc @ norms" for acc
    by (induction norms arbitrary: acc) (simp_all add: norms_add_def)
  then have "norms_open (norms_finish (fold norms_add norms []) []) =
      Inr \<lparr>npr_norms = norms, npr_doc_count = of_nat (length norms)\<rparr>"
    using norms_open_bytes [OF assms] by (simp add: put_simps)
  from this try_encoded_norm_open [OF this, of docid] show ?thesis by simp
qed

theorem norms_pod_lookup_witness:
  "and_then (norms_open (norms_finish (fold norms_add [10, 20, 30] []) [])) (\<lambda>r. try_encoded_norm r 1) =
    Inr 20"
  using norms_pod_lookup [of "[10, 20, 30]" 1] by simp

end
