(* ===== verification/Bsbf.thy ===== *)
theory Bsbf
  imports Double "HOL-Library.While_Combinator" Crc32c File_Io
begin

text \<open>
  The block-split bloom filter: \<open>src/core/src/format/bsbf.cpp\<close>. The hash \<open>XXH64\<close> (a vendored header
  that is not part of the sources) is a parameter, and so is the floating-point expression for the
  optimal number of bits, of which only the use is modelled. A 256-bit AVX2 register is the list of
  its eight 32-bit lanes, in the little-endian order in which it is loaded.
\<close>

subsection \<open>Constants and sizing\<close>

definition kBsbfBytesPerBlock :: u32 where "kBsbfBytesPerBlock = 32"

definition kBsbfMinBytes :: u32 where "kBsbfMinBytes = 32"

definition kBsbfMaxBytes :: u32 where "kBsbfMaxBytes = 128 * 1024 * 1024"

definition kBsbfHeaderSize :: nat where "kBsbfHeaderSize = 28"

definition kBsbfSalt :: "u32 list" where
  "kBsbfSalt = [0x47b6137b, 0x44974d91, 0x8824ad5b, 0xa2b7289d, 0x705495c7, 0x2df1424b, 0x9efc4947, 0x5c6bfb31]"

definition bsbf_hash :: "(byte list \<Rightarrow> u64 \<Rightarrow> u64) \<Rightarrow> byte list \<Rightarrow> u64" where
  "bsbf_hash xxh64 term_bytes = xxh64 term_bytes 0"

text \<open>\<open>bits\<close> is the double \<open>-8.0 * ndv / log(1 - pow(fpp, 1/8))\<close>. It is minus infinity where the logarithm rounds to
  zero, and not a number for a rate above one, of which the conversion to an integer is undefined.\<close>

definition next_power_of_2 :: "u32 \<Rightarrow> u32" where
  "next_power_of_2 num_bits = while (\<lambda>p. p < num_bits) (\<lambda>p. push_bit 1 p) 1"

definition bsbf_optimal_num_bytes :: "(u32 \<Rightarrow> double \<Rightarrow> double) \<Rightarrow> u32 \<Rightarrow> double \<Rightarrow> u32 result" where
  "bsbf_optimal_num_bytes bits ndv fpp =
     (let m = bits ndv fpp in
      and_then
        (if double_less m (Num 0) \<or> double_less (Num (real (unat kBsbfMaxBytes) * 8)) m then Inr (push_bit 3 kBsbfMaxBytes)
         else double_to_u32 m) (\<lambda>num_bits.
      let num_bits = (if num_bits < push_bit 3 kBsbfMinBytes then push_bit 3 kBsbfMinBytes else num_bits);
          num_bits = (if num_bits AND (num_bits - 1) \<noteq> 0 then next_power_of_2 num_bits else num_bits);
          num_bits = (if num_bits > push_bit 3 kBsbfMaxBytes then push_bit 3 kBsbfMaxBytes else num_bits)
      in Inr (drop_bit 3 num_bits)))"

definition bsbf_block_index :: "u64 \<Rightarrow> u32 \<Rightarrow> u32" where
  "bsbf_block_index hash num_blocks = ucast (drop_bit 32 (drop_bit 32 hash * ucast num_blocks))"

subsection \<open>Scalar kernels\<close>

definition masks_scalar :: "u32 \<Rightarrow> u32 list" where
  "masks_scalar key = map (\<lambda>i. push_bit (unat (drop_bit 27 (key * (kBsbfSalt ! i)))) 1) [0..<8]"

definition block_contains_scalar :: "u64 \<Rightarrow> byte list \<Rightarrow> bool" where
  "block_contains_scalar hash block =
     (let m = masks_scalar (ucast hash) in
      list_all (\<lambda>i. load_le 4 block (4 * i) AND m ! i = m ! i) [0..<8])"

definition insert_scalar :: "u32 list \<Rightarrow> u32 \<Rightarrow> u32 \<Rightarrow> u32 list" where
  "insert_scalar ws block key =
     (let m = masks_scalar key in
      fold (\<lambda>i ws. ws[unat (block * 8 + of_nat i) := (ws ! unat (block * 8 + of_nat i)) OR m ! i]) [0..<8] ws)"

definition find_scalar :: "u32 list \<Rightarrow> u32 \<Rightarrow> u32 \<Rightarrow> bool" where
  "find_scalar ws block key =
     (let m = masks_scalar key in
      list_all (\<lambda>i. (ws ! unat (block * 8 + of_nat i)) AND m ! i = m ! i) [0..<8])"

subsection \<open>AVX2 kernels\<close>

type_synonym m256 = "u32 list"

definition mask_avx2 :: "u32 \<Rightarrow> m256" where
  "mask_avx2 key =
     (let salt = [kBsbfSalt ! 0, kBsbfSalt ! 1, kBsbfSalt ! 2, kBsbfSalt ! 3,
                  kBsbfSalt ! 4, kBsbfSalt ! 5, kBsbfSalt ! 6, kBsbfSalt ! 7];
          prod = map2 (*) (replicate 8 key) salt;
          shifts = map (drop_bit 27) prod
      in map2 (\<lambda>a n. if unat n < 32 then push_bit (unat n) a else 0) (replicate 8 1) shifts)"

definition loadu_bytes :: "byte list \<Rightarrow> m256" where
  "loadu_bytes block = map (\<lambda>i. load_le 4 block (4 * i)) [0..<8]"

definition loadu_words :: "u32 list \<Rightarrow> nat \<Rightarrow> m256" where
  "loadu_words ws off = map (\<lambda>i. ws ! (off + i)) [0..<8]"

definition storeu_words :: "m256 \<Rightarrow> nat \<Rightarrow> u32 list \<Rightarrow> u32 list" where
  "storeu_words v off ws = fold (\<lambda>i ws. ws[off + i := v ! i]) [0..<8] ws"

text \<open>\<open>_mm256_testc_si256\<close>: whether \<open>NOT b AND m\<close> is zero on all 256 bits.\<close>

definition testc :: "m256 \<Rightarrow> m256 \<Rightarrow> bool" where
  "testc b m = list_all (\<lambda>(x, y). NOT x AND y = 0) (zip b m)"

definition block_contains_avx2 :: "u64 \<Rightarrow> byte list \<Rightarrow> bool" where
  "block_contains_avx2 hash block = testc (loadu_bytes block) (mask_avx2 (ucast hash))"

definition insert_avx2 :: "u32 list \<Rightarrow> u32 \<Rightarrow> u32 \<Rightarrow> u32 list" where
  "insert_avx2 ws block key =
     (let p = unat (block * 8) in storeu_words (map2 (OR) (loadu_words ws p) (mask_avx2 key)) p ws)"

definition find_avx2 :: "u32 list \<Rightarrow> u32 \<Rightarrow> u32 \<Rightarrow> bool" where
  "find_avx2 ws block key = testc (loadu_words ws (unat (block * 8))) (mask_avx2 key)"

definition bsbf_block_contains :: "bool \<Rightarrow> u64 \<Rightarrow> byte list \<Rightarrow> bool" where
  "bsbf_block_contains cpu_has_avx2 hash block =
     (if cpu_has_avx2 then block_contains_avx2 hash block else block_contains_scalar hash block)"

subsection \<open>Builder\<close>

record bsbf_builder =
  bb_words :: "u32 list"
  bb_num_bytes :: u32
  bb_num_blocks :: u32
  bb_ndv :: u32

definition bsbf_create :: "(u32 \<Rightarrow> double \<Rightarrow> double) \<Rightarrow> u32 \<Rightarrow> double \<Rightarrow> bsbf_builder result" where
  "bsbf_create bits ndv fpp =
     (if \<not> (double_less (Num 0) fpp \<and> double_less fpp (Num 1)) then InvalidArgument
      else
        let ndv = (if ndv = 0 then 1 else ndv) in
        and_then (bsbf_optimal_num_bytes bits ndv fpp) (\<lambda>num_bytes.
        Inr \<lparr>bb_words = replicate (unat (num_bytes div 4)) 0, bb_num_bytes = num_bytes,
             bb_num_blocks = num_bytes div kBsbfBytesPerBlock, bb_ndv = ndv\<rparr>))"

definition bsbf_insert :: "bool \<Rightarrow> u64 \<Rightarrow> bsbf_builder \<Rightarrow> bsbf_builder" where
  "bsbf_insert cpu_has_avx2 hash b =
     (let block = bsbf_block_index hash (bb_num_blocks b); key = ucast hash in
      b\<lparr>bb_words := (if cpu_has_avx2 then insert_avx2 (bb_words b) block key
                     else insert_scalar (bb_words b) block key)\<rparr>)"

definition bsbf_insert_term :: "(byte list \<Rightarrow> u64 \<Rightarrow> u64) \<Rightarrow> bool \<Rightarrow> byte list \<Rightarrow> bsbf_builder \<Rightarrow> bsbf_builder" where
  "bsbf_insert_term xxh64 cpu_has_avx2 term_bytes b = bsbf_insert cpu_has_avx2 (bsbf_hash xxh64 term_bytes) b"

definition bsbf_maybe_contains :: "bool \<Rightarrow> u64 \<Rightarrow> bsbf_builder \<Rightarrow> bool" where
  "bsbf_maybe_contains cpu_has_avx2 hash b =
     (let block = bsbf_block_index hash (bb_num_blocks b); key = ucast hash in
      if cpu_has_avx2 then find_avx2 (bb_words b) block key else find_scalar (bb_words b) block key)"

definition bsbf_serialize :: "bsbf_builder \<Rightarrow> byte_sink \<Rightarrow> byte_sink result" where
  "bsbf_serialize b sink =
     (if bb_num_bytes b = 0 then InvalidArgument
      else
        let hdr = [0x42, 0x53, 0x42, 0x46, 1, 0, 0, 0] @ le_bytes 4 (bb_num_bytes b) @
              le_bytes 4 (bb_num_blocks b) @ le_bytes 4 (bb_ndv b);
            hdr = hdr @ le_bytes 4 (crc32c hdr)
        in and_then (subslice (concat (map (le_bytes 4) (bb_words b))) 0 (unat (bb_num_bytes b))) (\<lambda>bits.
           let hdr = hdr @ le_bytes 4 (crc32c bits)
           in Inr (put_bytes bits (put_bytes hdr sink))))"

subsection \<open>Header and probe\<close>

record bsbf_header =
  bh_num_bytes :: u32
  bh_num_blocks :: u32
  bh_bitset_crc :: u32
  bh_bitset_base :: u64

definition bsbf_header_parse :: "byte list \<Rightarrow> u64 \<Rightarrow> bsbf_header result" where
  "bsbf_header_parse h section_base =
     (if length h < kBsbfHeaderSize then Corruption
      else if h ! 0 \<noteq> 0x42 \<or> h ! 1 \<noteq> 0x53 \<or> h ! 2 \<noteq> 0x42 \<or> h ! 3 \<noteq> 0x46 then Corruption
      else if h ! 4 \<noteq> 1 then Corruption
      else if h ! 5 \<noteq> 0 then Corruption
      else if h ! 6 \<noteq> 0 then Corruption
      else if crc32c (take 20 h) \<noteq> load_le 4 h 20 then Corruption
      else
        let nb = load_le 4 h 8; nblk = load_le 4 h 12 in
        if nb < kBsbfMinBytes \<or> nb > kBsbfMaxBytes \<or> nb AND (nb - 1) \<noteq> 0 then Corruption
        else if nblk \<noteq> nb div kBsbfBytesPerBlock then Corruption
        else Inr \<lparr>bh_num_bytes = nb, bh_num_blocks = nblk, bh_bitset_crc = load_le 4 h 24,
                  bh_bitset_base = section_base + of_nat kBsbfHeaderSize\<rparr>)"

definition block_offset :: "bsbf_header \<Rightarrow> u64 \<Rightarrow> u64" where
  "block_offset header hash =
     bh_bitset_base header + ucast (bsbf_block_index hash (bh_num_blocks header)) * ucast kBsbfBytesPerBlock"

definition bsbf_probe :: "bool \<Rightarrow> file_reader \<Rightarrow> bsbf_header \<Rightarrow> u64 \<Rightarrow> bool result" where
  "bsbf_probe cpu_has_avx2 read_at header hash =
     and_then (read_at (block_offset header hash) (ucast kBsbfBytesPerBlock)) (\<lambda>blk.
     if length blk < unat kBsbfBytesPerBlock then Corruption
     else Inr (bsbf_block_contains cpu_has_avx2 hash blk))"

subsection \<open>Sizing\<close>

lemmas bsbf_consts = kBsbfBytesPerBlock_def kBsbfMinBytes_def kBsbfMaxBytes_def kBsbfHeaderSize_def

lemma next_power_of_2_spec:
  assumes "n \<le> 2 ^ 30" shows "\<exists>k \<le> 30. next_power_of_2 n = 2 ^ k \<and> n \<le> 2 ^ k"
  unfolding next_power_of_2_def
proof (rule while_rule [where P = "\<lambda>p. \<exists>k \<le> 30. p = (2 :: u32) ^ k" and r = "measure (\<lambda>p. 2 ^ 31 - unat (p :: u32))"])
  show "\<exists>k \<le> 30. (1 :: u32) = 2 ^ k" by (rule exI [of _ 0]) simp
next
  fix p assume p: "\<exists>k \<le> 30. p = (2 :: u32) ^ k" "p < n"
  then obtain k where k: "k \<le> 30" "p = 2 ^ k" by blast
  have "unat p < 2 ^ 30" using p(2) assms by (simp add: word_less_nat_alt word_le_nat_alt)
  with k have "k < 30" by (cases "k = 30") simp_all
  then show "\<exists>k \<le> 30. push_bit 1 p = (2 :: u32) ^ k"
    by (intro exI [of _ "Suc k"]) (simp add: k push_bit_eq_mult)
  have "unat (push_bit 1 p) = 2 * unat p"
    using \<open>unat p < 2 ^ 30\<close> by (simp add: push_bit_eq_mult unat_word_ariths(2))
  moreover have "0 < unat p" using k \<open>k < 30\<close> by (simp add: unat_gt_0)
  ultimately show "(push_bit 1 p, p) \<in> measure (\<lambda>p. 2 ^ 31 - unat p)"
    using \<open>unat p < 2 ^ 30\<close> by simp
qed auto

lemma bit_top:
  assumes "2 ^ k \<le> unat (y :: u32)" and "unat y < 2 ^ (k + 1)" shows "bit y k"
proof -
  have "unat y div 2 ^ k = 1"
    using assms by (intro div_nat_eqI) simp_all
  then show ?thesis by (simp add: bit_iff_odd_drop_bit flip: unat_drop_bit) (metis One_nat_def odd_one unat_drop_bit even_of_nat_iff unsigned_1 word_unat_eq_iff)
qed

lemma and_pred_zero:
  assumes "x AND (x - 1) = (0 :: u32)" and "x \<noteq> 0" shows "\<exists>k. x = 2 ^ k"
proof -
  have "1 \<le> unat x" using assms(2) by (simp add: Suc_le_eq unat_gt_0)
  then obtain k where k: "2 ^ k \<le> unat x" "unat x < 2 ^ (k + 1)"
    using ex_power_ivl1 [of 2 "unat x"] by auto
  have "unat x = 2 ^ k"
  proof (rule ccontr)
    assume "unat x \<noteq> 2 ^ k"
    then have "2 ^ k \<le> unat (x - 1)" "unat (x - 1) < 2 ^ (k + 1)"
      using k assms(2) by (simp_all add: unat_minus_one)
    with k have "bit (x AND (x - 1)) k" by (simp add: bit_and_iff bit_top)
    with assms(1) show False by simp
  qed
  moreover have "x = of_nat (unat x)" by simp
  ultimately show ?thesis by (metis of_nat_numeral of_nat_power)
qed

lemma bits_of_double:
  assumes "\<not> (m < 0 \<or> m > real (unat kBsbfMaxBytes) * 8)"
  shows "(word_of_int \<lfloor>m\<rfloor> :: u32) \<le> 2 ^ 30" and "double_to_u32 (Num m) = Inr (word_of_int \<lfloor>m\<rfloor>)"
proof -
  show "double_to_u32 (Num m) = Inr (word_of_int \<lfloor>m\<rfloor>)" using assms by (simp add: double_to_u32_def kBsbfMaxBytes_def)
  have r: "0 \<le> m" "m \<le> 1073741824" using assms by (simp_all add: kBsbfMaxBytes_def)
  define z where "z = \<lfloor>m\<rfloor>"
  have z: "0 \<le> z" "z \<le> 1073741824" using r by (simp_all add: z_def le_floor_iff floor_le_iff)
  then have "unat (of_nat (nat z) :: u32) = nat z" by (intro unat_of_nat_u32) simp
  moreover have "word_of_int z = (of_nat (nat z) :: u32)" using z by simp
  ultimately have "unat (word_of_int z :: u32) = nat z" by (simp only:)
  moreover have "unat ((2 :: u32) ^ 30) = 1073741824" by simp
  ultimately show "(word_of_int \<lfloor>m\<rfloor> :: u32) \<le> 2 ^ 30" using z unfolding word_le_nat_alt z_def [symmetric] by linarith
qed

lemma pow2_word_eq: "k < 32 \<Longrightarrow> unat ((2 :: u32) ^ k) = 2 ^ k"
proof -
  assume "k < 32"
  then have "(2 :: nat) ^ k < 4294967296" using power_strict_increasing [of k 32 "2 :: nat"] by simp
  then have "unat (of_nat (2 ^ k) :: u32) = 2 ^ k" by (rule unat_of_nat_u32)
  then show ?thesis by simp
qed

lemma bsbf_num_bits:
  assumes "m \<noteq> Not_A_Number"
  obtains a :: u32 where "(if double_less m (Num 0) \<or> double_less (Num (real (unat kBsbfMaxBytes) * 8)) m then Inr (push_bit 3 kBsbfMaxBytes)
      else double_to_u32 m) = Inr a" and "a \<le> 2 ^ 30"
proof (cases "double_less m (Num 0) \<or> double_less (Num (real (unat kBsbfMaxBytes) * 8)) m")
  case True
  then show ?thesis by (intro that [of "push_bit 3 kBsbfMaxBytes"]) (simp_all add: kBsbfMaxBytes_def)
next
  case False
  then obtain x where m: "m = Num x" using assms by (cases m) auto
  show ?thesis using False bits_of_double [of x] by (intro that [of "word_of_int \<lfloor>x\<rfloor>"]) (simp_all add: m)
qed

lemma bsbf_optimal_num_bytes_nan: "bits ndv fpp = Not_A_Number \<Longrightarrow> bsbf_optimal_num_bytes bits ndv fpp = Inl OutOfBounds"
  by (simp add: bsbf_optimal_num_bytes_def double_to_u32_def)

lemma bsbf_optimal_num_bytes_pow2:
  assumes "bits ndv fpp \<noteq> Not_A_Number"
  shows "\<exists>k. 5 \<le> k \<and> k \<le> 27 \<and> bsbf_optimal_num_bytes bits ndv fpp = Inr (2 ^ k)"
proof -
  obtain a :: u32 where a: "(if double_less (bits ndv fpp) (Num 0) \<or> double_less (Num (real (unat kBsbfMaxBytes) * 8)) (bits ndv fpp)
      then Inr (push_bit 3 kBsbfMaxBytes) else double_to_u32 (bits ndv fpp)) = Inr a" "a \<le> 2 ^ 30"
    by (rule bsbf_num_bits [OF assms])
  define b :: u32 where "b = (if a < push_bit 3 kBsbfMinBytes then push_bit 3 kBsbfMinBytes else a)"
  define c :: u32 where "c = (if b AND (b - 1) \<noteq> 0 then next_power_of_2 b else b)"
  have b: "256 \<le> b" "b \<le> 2 ^ 30" using a(2) by (auto simp: b_def kBsbfMinBytes_def not_less)
  obtain j where j: "c = 2 ^ j" "b \<le> c" "c \<le> 2 ^ 30" "j \<le> 30"
  proof (cases "b AND (b - 1) = 0")
    case True
    moreover have "b \<noteq> 0" using b by (auto simp: word_le_nat_alt)
    ultimately obtain j where j: "b = 2 ^ j" using and_pred_zero by blast
    moreover have "j \<le> 30"
    proof (rule ccontr)
      assume "\<not> j \<le> 30"
      then consider "j = 31" | "32 \<le> j" by linarith
      then show False
      proof cases
        case 1
        with j b show False by (simp add: word_le_nat_alt)
      next
        case 2
        then have "b = 2 ^ LENGTH(32) * 2 ^ (j - 32)" using j by (simp only: power_add [symmetric]) simp
        then have "b = 0" by (simp only: word_exp_length_eq_0 mult_zero_left)
        with \<open>b \<noteq> 0\<close> show False by simp
      qed
    qed
    ultimately show ?thesis using that [of j] b True by (simp add: c_def)
  next
    case False
    then obtain k where k: "k \<le> 30" "c = 2 ^ k" "b \<le> 2 ^ k"
      using next_power_of_2_spec [OF b(2)] by (auto simp: c_def)
    moreover have "(2 :: nat) ^ k \<le> 2 ^ 30" using k(1) by (intro power_increasing) simp_all
    then have "c \<le> 2 ^ 30" using k pow2_word_eq [of k] by (simp add: word_le_nat_alt)
    ultimately show ?thesis using that [of k] by simp
  qed
  have "8 \<le> j"
  proof (rule ccontr)
    assume "\<not> 8 \<le> j"
    then have "(2 :: nat) ^ j < 2 ^ 8" by (intro power_strict_increasing) simp_all
    then have "unat c < 256" using j pow2_word_eq [of j] by simp
    with b j show False by (simp add: word_le_nat_alt)
  qed
  have "bsbf_optimal_num_bytes bits ndv fpp =
      Inr (drop_bit 3 (if c > push_bit 3 kBsbfMaxBytes then push_bit 3 kBsbfMaxBytes else c))"
    unfolding bsbf_optimal_num_bytes_def Let_def a(1) and_then_Inr b_def c_def by (rule refl)
  also have "\<dots> = Inr (drop_bit 3 c)" using j(3) by (simp add: kBsbfMaxBytes_def not_less)
  also have "drop_bit 3 c = 2 ^ (j - 3)"
  proof -
    have "unat (drop_bit 3 c) = 2 ^ j div 2 ^ 3" using j by (simp add: unat_drop_bit pow2_word_eq)
    also have "\<dots> = 2 ^ (j - 3)" using \<open>8 \<le> j\<close> power_diff [of "2 :: nat" 3 j] by simp
    finally show ?thesis unfolding word_unat_eq_iff using j pow2_word_eq [of "j - 3"] by simp
  qed
  finally show ?thesis using j \<open>8 \<le> j\<close> by (intro exI [of _ "j - 3"]) auto
qed

subsection \<open>The SIMD kernels compute what the scalar ones do\<close>

lemma upt8: "[0..<8] = [0, 1, 2, 3, 4, 5, 6, 7 :: nat]"
  by (simp add: upt_rec)

lemma shift_less: "unat (drop_bit 27 (x :: u32)) < 32"
  using unat_u32_less [of x] by (simp add: unat_drop_bit less_mult_imp_div_less)

lemma mask_avx2_scalar: "mask_avx2 key = masks_scalar key"
  by (simp add: mask_avx2_def masks_scalar_def upt8 shift_less numeral_eq_Suc Let_def)

lemma contains_bits: "NOT b AND m = 0 \<longleftrightarrow> b AND m = (m :: u32)"
proof
  assume "NOT b AND m = 0"
  then show "b AND m = m"
    by (intro bit_word_eqI) (metis bit_0_eq bit_and_iff bit_not_iff bot_apply bot_bool_def possible_bit_word)
next
  assume "b AND m = m"
  then have "NOT b AND m = NOT b AND (b AND m)" by simp
  also have "\<dots> = 0" by (rule bit_word_eqI) (auto simp: bit_simps)
  finally show "NOT b AND m = 0" .
qed

lemma length_masks [simp]: "length (masks_scalar key) = 8"
  by (simp add: masks_scalar_def)

lemma testc_masks:
  "testc (map f [0..<8]) (masks_scalar key) = list_all (\<lambda>i. f i AND masks_scalar key ! i = masks_scalar key ! i) [0..<8]"
  by (simp add: testc_def contains_bits masks_scalar_def upt8)

lemma block_contains_avx2_scalar: "block_contains_avx2 hash block = block_contains_scalar hash block"
  by (simp add: block_contains_avx2_def block_contains_scalar_def loadu_bytes_def mask_avx2_scalar
      testc_masks Let_def)

lemma block_word_index:
  assumes "unat block * 8 + 8 \<le> 2 ^ 32" and "i < 8"
  shows "unat (block * 8 + of_nat i :: u32) = unat block * 8 + i"
proof -
  have "unat (block * 8) = unat block * 8" using assms by (simp add: unat_word_ariths(2))
  moreover have "unat (of_nat i :: u32) = i" using assms by simp
  ultimately show ?thesis using assms by (simp add: unat_word_ariths(1))
qed

lemma find_avx2_scalar:
  assumes "unat block * 8 + 8 \<le> 2 ^ 32"
  shows "find_avx2 ws block key = find_scalar ws block key"
  using assms block_word_index [OF assms, of 0]
  by (simp add: find_avx2_def find_scalar_def loadu_words_def mask_avx2_scalar testc_masks Let_def
      block_word_index list_all_iff)

text \<open>Both insertions set the mask in the eight words of the block and leave the others.\<close>

definition or_block :: "u32 list \<Rightarrow> nat \<Rightarrow> u32 list \<Rightarrow> u32 list" where
  "or_block ws p m = map (\<lambda>j. if p \<le> j \<and> j < p + 8 then (ws ! j) OR m ! (j - p) else ws ! j) [0..<length ws]"

lemma fold_update_range:
  assumes "n \<le> 8"
  shows "fold (\<lambda>i ws. ws[p + i := (ws ! (p + i)) OR m ! i]) [0..<n] ws =
    map (\<lambda>j. if p \<le> j \<and> j < p + n then (ws ! j) OR m ! (j - p) else ws ! j) [0..<length ws]"
  using assms
proof (induction n)
  case 0
  show ?case by (rule nth_equalityI) auto
next
  case (Suc n)
  then have "fold (\<lambda>i ws. ws[p + i := (ws ! (p + i)) OR m ! i]) [0..<Suc n] ws =
    (map (\<lambda>j. if p \<le> j \<and> j < p + n then (ws ! j) OR m ! (j - p) else ws ! j) [0..<length ws])
      [p + n := (map (\<lambda>j. if p \<le> j \<and> j < p + n then (ws ! j) OR m ! (j - p) else ws ! j) [0..<length ws] ! (p + n)) OR m ! n]"
    by simp
  also have "\<dots> = map (\<lambda>j. if p \<le> j \<and> j < p + Suc n then (ws ! j) OR m ! (j - p) else ws ! j) [0..<length ws]"
    by (rule nth_equalityI) (auto simp: nth_list_update less_Suc_eq)
  finally show ?case .
qed

lemma insert_scalar_or:
  assumes "unat block * 8 + 8 \<le> 2 ^ 32"
  shows "insert_scalar ws block key = or_block ws (unat block * 8) (masks_scalar key)"
proof -
  have "fold (\<lambda>i ws. ws[unat (block * 8 + of_nat i) := (ws ! unat (block * 8 + of_nat i)) OR masks_scalar key ! i]) [0..<8] ws =
    fold (\<lambda>i ws. ws[unat block * 8 + i := (ws ! (unat block * 8 + i)) OR masks_scalar key ! i]) [0..<8] ws"
    by (rule fold_cong [OF refl refl]) (simp add: block_word_index [OF assms])
  then show ?thesis
    by (simp add: insert_scalar_def Let_def or_block_def fold_update_range)
qed

lemma storeu_words_eq:
  assumes "n \<le> 8"
  shows "fold (\<lambda>i ws. ws[p + i := v ! i]) [0..<n] ws =
    map (\<lambda>j. if p \<le> j \<and> j < p + n then v ! (j - p) else ws ! j) [0..<length ws]"
  using assms
proof (induction n)
  case 0
  show ?case by (rule nth_equalityI) auto
next
  case (Suc n)
  then have "fold (\<lambda>i ws. ws[p + i := v ! i]) [0..<Suc n] ws =
    (map (\<lambda>j. if p \<le> j \<and> j < p + n then v ! (j - p) else ws ! j) [0..<length ws])[p + n := v ! n]"
    by simp
  also have "\<dots> = map (\<lambda>j. if p \<le> j \<and> j < p + Suc n then v ! (j - p) else ws ! j) [0..<length ws]"
    by (rule nth_equalityI) (auto simp: nth_list_update less_Suc_eq)
  finally show ?case .
qed

lemma insert_avx2_scalar:
  assumes "unat block * 8 + 8 \<le> 2 ^ 32"
  shows "insert_avx2 ws block key = insert_scalar ws block key"
proof -
  have p: "unat (block * 8) = unat block * 8" using block_word_index [OF assms, of 0] by simp
  show ?thesis
    unfolding insert_scalar_or [OF assms]
    by (auto simp: insert_avx2_def storeu_words_def storeu_words_eq p or_block_def mask_avx2_scalar
        loadu_words_def Let_def)
qed

subsection \<open>Membership\<close>

definition has_mask :: "u32 list \<Rightarrow> nat \<Rightarrow> u32 list \<Rightarrow> bool" where
  "has_mask ws p m = (\<forall>i < 8. (ws ! (p + i)) AND m ! i = m ! i)"

lemma find_scalar_mask:
  "unat block * 8 + 8 \<le> 2 ^ 32 \<Longrightarrow> find_scalar ws block key = has_mask ws (unat block * 8) (masks_scalar key)"
  by (auto simp: find_scalar_def has_mask_def Let_def list_all_iff block_word_index)

lemma length_or_block [simp]: "length (or_block ws p m) = length ws"
  by (simp add: or_block_def)

lemma or_block_nth: "j < length ws \<Longrightarrow> or_block ws p m ! j =
   (if p \<le> j \<and> j < p + 8 then (ws ! j) OR m ! (j - p) else ws ! j)"
  by (simp add: or_block_def)

lemma and_or_mono: "a AND m = m \<Longrightarrow> (a OR b) AND m = (m :: u32)"
proof (rule bit_word_eqI)
  fix n assume eq: "a AND m = m"
  have "bit m n \<Longrightarrow> bit a n" using arg_cong [OF eq, of "\<lambda>w. bit w n"] by (simp add: bit_and_iff)
  then show "bit ((a OR b) AND m) n = bit m n" by (auto simp: bit_and_iff bit_or_iff)
qed

lemma has_mask_or_self: "p + 8 \<le> length ws \<Longrightarrow> has_mask (or_block ws p m) p m"
  by (auto simp: has_mask_def or_block_nth bit_simps intro!: bit_word_eqI)

lemma has_mask_or_keep:
  "has_mask ws q k \<Longrightarrow> q + 8 \<le> length ws \<Longrightarrow> has_mask (or_block ws p m) q k"
  by (auto simp: has_mask_def or_block_nth and_or_mono)

text \<open>The shape of a filter: a power of two of bytes, 32 per block, eight words per block.\<close>

definition bsbf_wf :: "bsbf_builder \<Rightarrow> bool" where
  "bsbf_wf b =
     (\<exists>k. 5 \<le> k \<and> k \<le> 27 \<and> bb_num_bytes b = 2 ^ k \<and> unat (bb_num_blocks b) = 2 ^ (k - 5) \<and>
        bb_num_blocks b = bb_num_bytes b div kBsbfBytesPerBlock \<and> length (bb_words b) = 2 ^ (k - 5) * 8)"

lemma div_pow2_nat: "3 \<le> k \<Longrightarrow> (2 :: nat) ^ k div 4 = 2 ^ (k - 2)" "5 \<le> k \<Longrightarrow> (2 :: nat) ^ k div 32 = 2 ^ (k - 5)"
  using power_diff [of "2 :: nat" 2 k] power_diff [of "2 :: nat" 5 k] by simp_all

lemma bsbf_create_ok:
  assumes "sizing_ok bits" and "0 < fpp" and "fpp < 1"
  shows "\<exists>b. bsbf_create bits ndv (Num fpp) = Inr b"
proof -
  let ?n = "if ndv = 0 then 1 else ndv"
  have "bits ?n (Num fpp) \<noteq> Not_A_Number" using assms by (auto simp: sizing_ok_def word_gt_0)
  then obtain k where "bsbf_optimal_num_bytes bits ?n (Num fpp) = Inr (2 ^ k)" using bsbf_optimal_num_bytes_pow2 by blast
  then show ?thesis using assms by (simp add: bsbf_create_def)
qed

lemma bsbf_create_wf:
  assumes "bsbf_create bits ndv fpp = Inr b" shows "bsbf_wf b"
proof -
  let ?n = "if ndv = 0 then 1 else ndv"
  have "bits ?n fpp \<noteq> Not_A_Number"
    using assms bsbf_optimal_num_bytes_nan [of bits ?n fpp] by (auto simp: bsbf_create_def Let_def split: if_splits)
  then obtain k where k: "5 \<le> k" "k \<le> 27" "bsbf_optimal_num_bytes bits ?n fpp = Inr (2 ^ k)"
    using bsbf_optimal_num_bytes_pow2 by blast
  have u: "unat ((2 :: u32) ^ k) = 2 ^ k" using k by (simp add: pow2_word_eq)
  have b: "bb_num_bytes b = 2 ^ k" "bb_num_blocks b = 2 ^ k div kBsbfBytesPerBlock"
    "bb_words b = replicate (unat ((2 :: u32) ^ k div 4)) 0"
    using assms k by (auto simp: bsbf_create_def Let_def split: if_splits)
  have "unat (4 :: u32) = 4" "unat kBsbfBytesPerBlock = 32" by (simp_all add: kBsbfBytesPerBlock_def)
  then have "unat ((2 :: u32) ^ k div 4) = 2 ^ k div 4" "unat ((2 :: u32) ^ k div kBsbfBytesPerBlock) = 2 ^ k div 32"
    by (simp_all only: unat_div u)
  then have "unat ((2 :: u32) ^ k div 4) = 2 ^ (k - 2)" "unat ((2 :: u32) ^ k div kBsbfBytesPerBlock) = 2 ^ (k - 5)"
    using div_pow2_nat [of k] k(1) by (simp_all only:)
  moreover have "(2 :: nat) ^ (k - 2) = 2 ^ (k - 5) * 8"
  proof -
    have "(2 :: nat) ^ (k - 2) = 2 ^ ((k - 5) + 3)" using k by (intro arg_cong [of _ _ "power 2"]) linarith
    also have "\<dots> = 2 ^ (k - 5) * 8" by (simp only: power_add) simp
    finally show ?thesis .
  qed
  ultimately show ?thesis using k b by (auto simp: bsbf_wf_def)
qed

lemma block_index_less:
  assumes "0 < n" shows "unat (bsbf_block_index hash n) < unat n"
proof -
  let ?x = "unat (drop_bit 32 hash)"
  have x: "?x < 2 ^ 32" using unat_u64_less [of hash] by (simp add: unat_drop_bit less_mult_imp_div_less)
  have n: "unat n < 2 ^ 32" using unat_u32_less [of n] by simp
  have "?x * unat n < 2 ^ 32 * 2 ^ 32" using x n by (intro mult_strict_mono) simp_all
  then have "unat (drop_bit 32 hash * ucast n) = ?x * unat n" by (simp add: unat_word_ariths(2))
  then have q: "unat (drop_bit 32 (drop_bit 32 hash * ucast n)) = ?x * unat n div 2 ^ 32"
    by (simp add: unat_drop_bit)
  have lt: "?x * unat n div 2 ^ 32 < unat n"
    using x assms by (intro less_mult_imp_div_less) (simp add: word_less_nat_alt mult.commute)
  with n have "unat (bsbf_block_index hash n) = ?x * unat n div 2 ^ 32"
    by (simp add: bsbf_block_index_def unsigned_ucast_eq q take_bit_nat_eq_self)
  with lt show ?thesis by simp
qed

definition block_base :: "bsbf_builder \<Rightarrow> u64 \<Rightarrow> nat" where
  "block_base b hash = unat (bsbf_block_index hash (bb_num_blocks b)) * 8"

lemma block_base_fits:
  assumes "bsbf_wf b"
  shows "block_base b hash + 8 \<le> length (bb_words b)" "block_base b hash + 8 \<le> 2 ^ 32"
proof -
  obtain k where k: "5 \<le> k" "k \<le> 27" "unat (bb_num_blocks b) = 2 ^ (k - 5)" "length (bb_words b) = 2 ^ (k - 5) * 8"
    using assms by (auto simp: bsbf_wf_def)
  have "0 < bb_num_blocks b" using k by (metis unat_gt_0 word_gt_0 zero_less_numeral zero_less_power)
  from block_index_less [OF this, of hash] k show "block_base b hash + 8 \<le> length (bb_words b)"
    by (simp add: block_base_def)
  also have "\<dots> \<le> 2 ^ 22 * 8"
  proof -
    have "(2 :: nat) ^ (k - 5) \<le> 2 ^ 22" using k(2) by (intro power_increasing) linarith+
    then show ?thesis using k(4) by simp
  qed
  finally show "block_base b hash + 8 \<le> 2 ^ 32" by simp
qed

definition holds_hash :: "bsbf_builder \<Rightarrow> u64 \<Rightarrow> bool" where
  "holds_hash b hash = has_mask (bb_words b) (block_base b hash) (masks_scalar (ucast hash))"

lemma bsbf_insert_words:
  "bsbf_wf b \<Longrightarrow> bsbf_insert avx h b = b\<lparr>bb_words := or_block (bb_words b) (block_base b h) (masks_scalar (ucast h))\<rparr>"
  using block_base_fits(2) [of b h]
  by (simp add: bsbf_insert_def insert_avx2_scalar insert_scalar_or block_base_def Let_def)

lemma bsbf_insert_wf: "bsbf_wf b \<Longrightarrow> bsbf_wf (bsbf_insert avx h b)"
  by (simp add: bsbf_insert_words) (simp add: bsbf_wf_def)

lemma bsbf_insert_holds: "bsbf_wf b \<Longrightarrow> holds_hash (bsbf_insert avx h b) h"
  using block_base_fits(1) [of b h]
  by (simp add: bsbf_insert_words holds_hash_def block_base_def has_mask_or_self)

lemma bsbf_insert_keeps: "bsbf_wf b \<Longrightarrow> holds_hash b g \<Longrightarrow> holds_hash (bsbf_insert avx h b) g"
  using block_base_fits(1) [of b g]
  by (simp add: bsbf_insert_words holds_hash_def block_base_def has_mask_or_keep)

lemma bsbf_inserts:
  "bsbf_wf b \<Longrightarrow> bsbf_wf (fold (bsbf_insert avx) hs b) \<and>
   (\<forall>h. holds_hash b h \<or> h \<in> set hs \<longrightarrow> holds_hash (fold (bsbf_insert avx) hs b) h)"
  by (induction hs arbitrary: b) (auto simp: bsbf_insert_wf bsbf_insert_holds bsbf_insert_keeps)

lemma bsbf_maybe_contains_holds: "bsbf_wf b \<Longrightarrow> bsbf_maybe_contains avx h b = holds_hash b h"
  using block_base_fits(2) [of b h]
  by (simp add: bsbf_maybe_contains_def find_avx2_scalar find_scalar_mask holds_hash_def block_base_def Let_def)

subsection \<open>The serialised filter\<close>

definition bitset_bytes :: "u32 list \<Rightarrow> byte list" where
  "bitset_bytes ws = concat (map (le_bytes 4) ws)"

lemma length_bitset_bytes [simp]: "length (bitset_bytes ws) = 4 * length ws"
  by (induction ws) (simp_all add: bitset_bytes_def)

lemma drop_bitset_bytes: "drop (4 * n) (bitset_bytes ws) = bitset_bytes (drop n ws)"
proof (induction n arbitrary: ws)
  case (Suc n)
  then show ?case by (cases ws) (simp_all add: bitset_bytes_def)
qed simp

lemma load_bitset_bytes:
  assumes "i < length ws" shows "load_le 4 (bitset_bytes ws) (4 * i) = ws ! i"
proof -
  have "drop (4 * i) (bitset_bytes ws) = le_bytes 4 (ws ! i) @ bitset_bytes (drop (Suc i) ws)"
    unfolding drop_bitset_bytes using assms by (simp add: bitset_bytes_def flip: Cons_nth_drop_Suc)
  then show ?thesis by (intro load_le_bytes) simp_all
qed

lemma load_le_take: "pos + n \<le> m \<Longrightarrow> m \<le> length s \<Longrightarrow> load_le n (take m s) pos = load_le n s pos"
  unfolding load_le_def by (rule foldl_cong) simp_all

lemma block_contains_bits:
  assumes "p + 8 \<le> length ws"
  shows "block_contains_scalar hash (take 32 (drop (4 * p) (bitset_bytes ws))) = has_mask ws p (masks_scalar (ucast hash))"
proof -
  have "load_le 4 (take 32 (drop (4 * p) (bitset_bytes ws))) (4 * i) = ws ! (p + i)" if "i < 8" for i
    using that assms load_bitset_bytes [of i "drop p ws"]
    by (simp add: drop_bitset_bytes load_le_take)
  then show ?thesis by (auto simp: block_contains_scalar_def has_mask_def list_all_iff Let_def)
qed

definition header_fields :: "bsbf_builder \<Rightarrow> byte list" where
  "header_fields b = [0x42, 0x53, 0x42, 0x46, 1, 0, 0, 0] @ le_bytes 4 (bb_num_bytes b) @
     le_bytes 4 (bb_num_blocks b) @ le_bytes 4 (bb_ndv b)"

definition bsbf_header_bytes :: "bsbf_builder \<Rightarrow> byte list" where
  "bsbf_header_bytes b = header_fields b @ le_bytes 4 (crc32c (header_fields b)) @
     le_bytes 4 (crc32c (bitset_bytes (bb_words b)))"

lemma length_header_fields [simp]: "length (header_fields b) = 20"
  by (simp add: header_fields_def)

lemma length_bsbf_header_bytes [simp]: "length (bsbf_header_bytes b) = 28"
  by (simp add: bsbf_header_bytes_def)

lemma bsbf_wf_bytes:
  assumes "bsbf_wf b"
  shows "unat (bb_num_bytes b) = 4 * length (bb_words b)" "0 < unat (bb_num_bytes b)"
proof -
  obtain k where k: "5 \<le> k" "k \<le> 27" "bb_num_bytes b = 2 ^ k" "length (bb_words b) = 2 ^ (k - 5) * 8"
    using assms by (auto simp: bsbf_wf_def)
  have u: "unat (bb_num_bytes b) = 2 ^ k" using k by (simp add: pow2_word_eq)
  have "(2 :: nat) ^ k = 2 ^ ((k - 5) + 5)" using k(1) by simp
  also have "\<dots> = 4 * length (bb_words b)" unfolding power_add k(4) by simp
  finally show "unat (bb_num_bytes b) = 4 * length (bb_words b)" using u by simp
  show "0 < unat (bb_num_bytes b)" using u by simp
qed

lemma bsbf_serialize_bytes:
  assumes "bsbf_wf b"
  shows "bsbf_serialize b sink = Inr (sink @ bsbf_header_bytes b @ bitset_bytes (bb_words b))"
proof -
  have "bb_num_bytes b \<noteq> 0" using bsbf_wf_bytes(2) [OF assms] by (simp add: unat_gt_0)
  moreover have "subslice (bitset_bytes (bb_words b)) 0 (unat (bb_num_bytes b)) = Inr (bitset_bytes (bb_words b))"
    using bsbf_wf_bytes(1) [OF assms] by (simp add: subslice_def)
  ultimately show ?thesis
    unfolding bsbf_serialize_def bitset_bytes_def [symmetric]
    by (simp add: Let_def put_bytes_def bsbf_header_bytes_def header_fields_def)
qed

lemma pow2_and_pred: "(2 :: u32) ^ k AND (2 ^ k - 1) = 0"
  by (rule bit_word_eqI) (auto simp: bit_simps simp flip: mask_eq_exp_minus_1)

lemma bsbf_header_parse_bytes:
  assumes wf: "bsbf_wf b"
  shows "bsbf_header_parse (bsbf_header_bytes b) base =
    Inr \<lparr>bh_num_bytes = bb_num_bytes b, bh_num_blocks = bb_num_blocks b,
         bh_bitset_crc = crc32c (bitset_bytes (bb_words b)), bh_bitset_base = base + 28\<rparr>"
proof -
  let ?h = "bsbf_header_bytes b"
  obtain k where k: "5 \<le> k" "k \<le> 27" "bb_num_bytes b = 2 ^ k" "bb_num_blocks b = bb_num_bytes b div kBsbfBytesPerBlock"
    using wf by (auto simp: bsbf_wf_def)
  have "(2 :: nat) ^ 5 \<le> 2 ^ k" "(2 :: nat) ^ k \<le> 2 ^ 27" using k by (intro power_increasing; linarith)+
  moreover have "unat (bb_num_bytes b) = 2 ^ k" using k by (simp add: pow2_word_eq)
  ultimately have range: "\<not> bb_num_bytes b < kBsbfMinBytes" "\<not> bb_num_bytes b > kBsbfMaxBytes"
    by (simp_all add: word_less_nat_alt kBsbfMinBytes_def kBsbfMaxBytes_def)
  have pow: "bb_num_bytes b AND (bb_num_bytes b - 1) = 0" unfolding k(3) by (rule pow2_and_pred)
  have ld: "load_le 4 ?h 8 = bb_num_bytes b" "load_le 4 ?h 12 = bb_num_blocks b"
    "load_le 4 ?h 20 = crc32c (header_fields b)" "load_le 4 ?h 24 = crc32c (bitset_bytes (bb_words b))"
    by (rule load_le_bytes; simp add: bsbf_header_bytes_def header_fields_def)+
  have mg: "?h ! 0 = 0x42" "?h ! 1 = 0x53" "?h ! 2 = 0x42" "?h ! 3 = 0x46" "?h ! 4 = 1" "?h ! 5 = 0" "?h ! 6 = 0"
    by (simp_all add: bsbf_header_bytes_def header_fields_def)
  have t: "take 20 ?h = header_fields b" by (simp add: bsbf_header_bytes_def)
  show ?thesis
    unfolding bsbf_header_parse_def Let_def ld mg t
    using range pow k(4) by (simp add: kBsbfHeaderSize_def)
qed

text \<open>A probe of the stored filter, at whatever place it is in the file, is the probe of the filter
  that was built.\<close>

lemma bsbf_probe_file:
  assumes wf: "bsbf_wf b" and fl: "contents = pre @ bsbf_header_bytes b @ bitset_bytes (bb_words b) @ post"
    and len: "length contents < 2 ^ 64"
    and hdr: "bsbf_header_parse (bsbf_header_bytes b) (of_nat (length pre)) = Inr hh"
  shows "bsbf_probe avx (read_file contents) hh hash = Inr (holds_hash b hash)"
proof -
  define idx where "idx = bsbf_block_index hash (bb_num_blocks b)"
  have hh: "bh_bitset_base hh = of_nat (length pre) + 28" "bh_num_blocks hh = bb_num_blocks b"
    using hdr bsbf_header_parse_bytes [OF wf] by auto
  have fit: "unat idx * 8 + 8 \<le> length (bb_words b)"
    using block_base_fits(1) [OF wf, of hash] by (simp add: block_base_def idx_def)
  have l: "length pre + 28 + 4 * length (bb_words b) \<le> length contents" by (simp add: fl)
  let ?off = "length pre + 28 + unat idx * 32"
  have "block_offset hh hash = (of_nat ?off :: u64)"
    by (simp add: block_offset_def hh idx_def kBsbfBytesPerBlock_def) 
  moreover have "unat (of_nat ?off :: u64) = ?off" using l fit len by (intro unat_of_nat_u64) simp
  ultimately have off: "unat (block_offset hh hash) = ?off" by simp
  have in_file: "unat (block_offset hh hash) + unat (32 :: u64) \<le> length contents"
    using off l fit by simp
  have sl: "file_slice contents (block_offset hh hash) 32 = take 32 (drop (4 * (unat idx * 8)) (bitset_bytes (bb_words b)))"
    using fit by (simp add: file_slice_def off fl mult.commute)
  have "read_file contents (block_offset hh hash) 32 = Inr (take 32 (drop (4 * (unat idx * 8)) (bitset_bytes (bb_words b))))"
    using file_image.read_complete [OF len in_file] sl by simp
  then show ?thesis
    using fit block_contains_bits [OF fit, of hash]
    by (simp add: bsbf_probe_def kBsbfBytesPerBlock_def bsbf_block_contains_def block_contains_avx2_scalar
        holds_hash_def block_base_def flip: idx_def)
qed

subsection \<open>Correctness\<close>

text \<open>C20: no false negatives. Whatever kernels build and probe it, a filter that was created,
  filled with hashes, serialised, and stored anywhere in a file, answers \<open>true\<close> for each inserted hash,
  in memory and by the one-block probe of the file; and the two probes agree on every hash.\<close>

theorem bsbf_no_false_negatives:
  assumes "bsbf_create bits ndv fpp = Inr b0" and "b = fold (bsbf_insert avx) hs b0"
    and "bsbf_serialize b [] = Inr sect"
    and "length (pre @ sect @ post) < 2 ^ 64"
  shows "\<exists>hh. bsbf_header_parse (take 28 sect) (of_nat (length pre)) = Inr hh \<and>
    (\<forall>h. bsbf_probe avx' (read_file (pre @ sect @ post)) hh h = Inr (bsbf_maybe_contains avx'' h b)) \<and>
    (\<forall>h \<in> set hs. bsbf_maybe_contains avx'' h b)"
proof -
  have wf: "bsbf_wf b" and all: "\<forall>h \<in> set hs. holds_hash b h"
    using bsbf_inserts [OF bsbf_create_wf [OF assms(1)], of avx hs] assms(2) by auto
  have s: "sect = bsbf_header_bytes b @ bitset_bytes (bb_words b)"
    using assms(3) bsbf_serialize_bytes [OF wf, of "[]"] by simp
  obtain hh where hh: "bsbf_header_parse (bsbf_header_bytes b) (of_nat (length pre)) = Inr hh"
    using bsbf_header_parse_bytes [OF wf] by blast
  have "bsbf_probe avx' (read_file (pre @ sect @ post)) hh h = Inr (holds_hash b h)" for h
    using assms(4) by (intro bsbf_probe_file [OF wf _ _ hh]) (simp_all add: s)
  with hh all bsbf_maybe_contains_holds [OF wf] show ?thesis by (auto simp: s)
qed

theorem bsbf_no_false_negatives_witness:
  "\<exists>b sect hh. bsbf_create (\<lambda>_ _. Num 300) 7 (Num (1 / 100)) = Inr b \<and>
     bsbf_serialize (fold (bsbf_insert True) [0x123456789ABCDEF0, 42] b) [] = Inr sect \<and>
     bsbf_header_parse (take 28 sect) (of_nat (length [9 :: byte])) = Inr hh \<and>
     bsbf_probe False (read_file ([9] @ sect @ [])) hh 42 = Inr True"
proof -
  obtain b where b: "bsbf_create (\<lambda>_ _. Num 300) 7 (Num (1 / 100)) = Inr b" using bsbf_create_ok [of "\<lambda>_ _. Num 300" "1 / 100" 7] by (auto simp: sizing_ok_def)
  let ?b = "fold (bsbf_insert True) [0x123456789ABCDEF0, 42] b"
  have wf: "bsbf_wf ?b" using bsbf_inserts [OF bsbf_create_wf [OF b]] by blast
  then obtain sect where s: "bsbf_serialize ?b [] = Inr sect" "length sect = 28 + 4 * length (bb_words ?b)"
    using bsbf_serialize_bytes [OF wf, of "[]"] by simp
  have "4 * length (bb_words ?b) < 2 ^ 32"
    using bsbf_wf_bytes(1) [OF wf] unat_u32_less [of "bb_num_bytes ?b"] by simp
  then have "length ([9] @ sect @ []) < 2 ^ 64" using s(2) by simp
  from bsbf_no_false_negatives [OF b refl s(1) this, where avx' = False and avx'' = False] b s(1) show ?thesis by auto
qed

text \<open>C40: the size chosen for a filter is a power of two between 32 bytes and 128 MiB for every number and either
  infinity that the floating-point expression may be, and creation with a rate between zero and one never meets
  the case in which it is not a number. On every block that lies in the words, the AVX2 kernels insert and find what
  the scalar kernels do, and the two kernels of the file probe answer alike on every block of bytes.\<close>

theorem bsbf_size_and_kernels:
  assumes "unat block * 8 + 8 \<le> 2 ^ 32" and "sizing_ok bits"
  shows "(bits ndv fpp \<noteq> Not_A_Number \<longrightarrow>
      (\<exists>k. 5 \<le> k \<and> k \<le> 27 \<and> bsbf_optimal_num_bytes bits ndv fpp = Inr (2 ^ k) \<and> unat ((2 :: u32) ^ k) = 2 ^ k)) \<and>
    bsbf_create bits ndv fpp \<noteq> Inl OutOfBounds \<and>
    insert_avx2 ws block key = insert_scalar ws block key \<and>
    find_avx2 ws block key = find_scalar ws block key \<and>
    block_contains_avx2 hash bytes = block_contains_scalar hash bytes"
proof -
  have "\<exists>k. 5 \<le> k \<and> k \<le> 27 \<and> bsbf_optimal_num_bytes bits ndv fpp = Inr (2 ^ k) \<and> unat ((2 :: u32) ^ k) = 2 ^ k"
    if "bits ndv fpp \<noteq> Not_A_Number"
    using bsbf_optimal_num_bytes_pow2 [of bits ndv fpp] that by (auto simp: pow2_word_eq)
  moreover have "bsbf_create bits ndv fpp \<noteq> Inl OutOfBounds"
  proof (cases "\<exists>x. fpp = Num x \<and> 0 < x \<and> x < 1")
    case True
    then obtain x where "fpp = Num x" "0 < x" "x < 1" by blast
    then show ?thesis using bsbf_create_ok [OF assms(2), of x ndv] by auto
  next
    case False
    then have "bsbf_create bits ndv fpp = InvalidArgument" by (cases fpp) (auto simp: bsbf_create_def)
    then show ?thesis by simp
  qed
  ultimately show ?thesis
    using assms(1) by (simp add: insert_avx2_scalar find_avx2_scalar block_contains_avx2_scalar)
qed

theorem bsbf_size_and_kernels_witness:
  "bsbf_create (\<lambda>_ _. Minus_Infinity) 5 (Num (1 / 100)) \<noteq> Inl OutOfBounds \<and>
   insert_avx2 (replicate 16 0) 1 0x9E3779B9 = insert_scalar (replicate 16 0) 1 0x9E3779B9 \<and>
   find_avx2 (replicate 16 0) 1 0x9E3779B9 = find_scalar (replicate 16 0) 1 0x9E3779B9"
  using bsbf_size_and_kernels [of 1 "\<lambda>_ _. Minus_Infinity" 5 "Num (1 / 100)" "replicate 16 0" "0x9E3779B9" 0 "[]"]
  by (simp add: sizing_ok_def)

end
