(* ===== verification/Stats_Block.thy ===== *)
theory Stats_Block
  imports Section_Framer Format_Constants
begin

text \<open>
  The counting statistics of a logical index: \<open>src/core/src/format/stats_block.cpp\<close>.
\<close>

record stats_block =
  sb_doc_count :: u64
  sb_indexed_doc_count :: u64
  sb_term_count :: u64
  sb_sum_total_term_freq :: u64
  sb_null_count :: u64

definition stats_encode_payload :: "stats_block \<Rightarrow> byte_sink \<Rightarrow> byte_sink" where
  "stats_encode_payload sb payload =
     (let payload = put_varint64 (sb_doc_count sb) payload;
          payload = put_varint64 (sb_indexed_doc_count sb) payload;
          payload = put_varint64 (sb_term_count sb) payload;
          payload = put_varint64 (sb_sum_total_term_freq sb) payload
      in put_varint64 (sb_null_count sb) payload)"

definition stats_decode_payload :: "byte list \<Rightarrow> stats_block result" where
  "stats_decode_payload payload =
     (let ps = source payload in
      and_then (get_varint64 ps) (\<lambda>(doc_count, ps).
      and_then (get_varint64 ps) (\<lambda>(indexed_doc_count, ps).
      and_then (get_varint64 ps) (\<lambda>(term_count, ps).
      and_then (get_varint64 ps) (\<lambda>(sum_total_term_freq, ps).
      and_then (get_varint64 ps) (\<lambda>(null_count, ps).
      if \<not> eof ps then Corruption
      else Inr \<lparr>sb_doc_count = doc_count, sb_indexed_doc_count = indexed_doc_count,
                sb_term_count = term_count, sb_sum_total_term_freq = sum_total_term_freq,
                sb_null_count = null_count\<rparr>))))))"

definition encode_stats_block :: "stats_block \<Rightarrow> byte_sink \<Rightarrow> byte_sink" where
  "encode_stats_block sb sink =
     (let payload = stats_encode_payload sb []
      in framer_write sink (section_type_id kStatsBlock) payload)"

definition decode_stats_block :: "byte_source \<Rightarrow> (stats_block \<times> byte_source) result" where
  "decode_stats_block src =
     and_then (framer_read src) (\<lambda>(sec, src).
     if sec_type sec \<noteq> section_type_id kStatsBlock then InvalidArgument
     else and_then (stats_decode_payload (sec_payload sec)) (\<lambda>sb. Inr (sb, src)))"

subsection \<open>Round trip\<close>

definition stats_payload :: "stats_block \<Rightarrow> byte list" where
  "stats_payload sb =
     encode_varint64 (sb_doc_count sb) @ encode_varint64 (sb_indexed_doc_count sb) @
     encode_varint64 (sb_term_count sb) @ encode_varint64 (sb_sum_total_term_freq sb) @
     encode_varint64 (sb_null_count sb)"

definition stats_bytes :: "stats_block \<Rightarrow> byte list" where
  "stats_bytes sb = frame_bytes 1 (stats_payload sb)"

lemma encode_stats_block_bytes [put_simps]: "encode_stats_block sb sink = sink @ stats_bytes sb"
  by (simp add: encode_stats_block_def stats_encode_payload_def put_simps stats_bytes_def
      stats_payload_def)

lemma length_stats_payload: "length (stats_payload sb) \<le> 50"
proof -
  have "varint_len v \<le> 10" for v :: u64 by (rule varint_len_le_10)
  from this [of "sb_doc_count sb"] this [of "sb_indexed_doc_count sb"]
    this [of "sb_term_count sb"] this [of "sb_sum_total_term_freq sb"] this [of "sb_null_count sb"]
  show ?thesis by (simp add: stats_payload_def flip: varint_len_encode)
qed

lemma stats_decode_payload [codec_simps]: "stats_decode_payload (stats_payload sb) = Inr sb"
  by (simp add: stats_decode_payload_def stats_payload_def codec_simps Let_def eof_rest)

lemma stats_decode_payload_safe: "stats_decode_payload payload \<noteq> Inl OutOfBounds"
  by (auto simp: stats_decode_payload_def Let_def and_then_eq_Inl split: if_splits
      dest: get_varint64_error)

interpretation stats: codec decode_stats_block encode_stats_block stats_bytes "\<lambda>_. True"
proof unfold_locales
  fix src assume "wf_source src"
  then show "cursor_ok src (decode_stats_block src)"
    unfolding decode_stats_block_def
    by - (rule cursor_bind, assumption, erule framer.ok,
      auto intro!: plain_bind simp: stats_decode_payload_safe)
next
  fix sb src assume "prefix (stats_bytes sb) (rest src)"
  from framer_read_frame [OF _ this [unfolded stats_bytes_def]]
  show "decode_stats_block src = Inr (sb, advance (length (stats_bytes sb)) src)"
    using length_stats_payload [of sb]
    by (simp add: decode_stats_block_def stats_bytes_def stats_decode_payload)
qed (simp add: put_simps)

subsection \<open>Correctness\<close>

text \<open>A statistics section reads back with all five counters, whatever follows it.\<close>

lemma stats_block_roundtrip:
  "decode_stats_block (source (encode_stats_block sb [] @ r)) =
     Inr (sb, advance (length (encode_stats_block sb [])) (source (encode_stats_block sb [] @ r)))"
  by (simp add: put_simps stats.get_enc)

end
