(* ===== verification/Per_Index_Meta.thy ===== *)
theory Per_Index_Meta
  imports Stats_Block
begin

text \<open>
  The metadata block of one logical index: \<open>src/core/src/format/per_index_meta.cpp\<close>. A checked
  header is followed by framed sections, which the reader walks in any order: the statistics and
  the section references are decoded, the frames of the sampled term index and of the DICT block
  directory are kept for their own readers, and unknown sections are skipped.
\<close>

subsection \<open>Data\<close>

record region_ref =
  rr_offset :: u64
  rr_length :: u64

record section_refs =
  sr_dict_region :: region_ref
  sr_posting_region :: region_ref
  sr_norms :: region_ref
  sr_null_bitmap :: region_ref
  sr_bsbf :: region_ref

definition no_region :: region_ref where "no_region = \<lparr>rr_offset = 0, rr_length = 0\<rparr>"

definition no_sections :: section_refs where
  "no_sections = \<lparr>sr_dict_region = no_region, sr_posting_region = no_region, sr_norms = no_region,
     sr_null_bitmap = no_region, sr_bsbf = no_region\<rparr>"

definition no_stats :: stats_block where
  "no_stats = \<lparr>sb_doc_count = 0, sb_indexed_doc_count = 0, sb_term_count = 0,
     sb_sum_total_term_freq = 0, sb_null_count = 0\<rparr>"

definition meta_kHasPositions :: u32 where "meta_kHasPositions = push_bit 0 1"

definition meta_kHasBsbf :: u32 where "meta_kHasBsbf = push_bit 1 1"

definition kMaxSuffixLen :: u32 where "kMaxSuffixLen = 64 * 1024"

record per_index_meta_builder =
  pmb_index_id :: u64
  pmb_index_suffix :: "byte list"
  pmb_flags :: u32
  pmb_stats :: stats_block
  pmb_sampled_term_index :: "byte list"
  pmb_dict_block_directory :: "byte list"
  pmb_section_refs :: section_refs
  pmb_extra_sections :: "byte list list"

definition per_index_meta_builder_new :: "u64 \<Rightarrow> byte list \<Rightarrow> u32 \<Rightarrow> per_index_meta_builder" where
  "per_index_meta_builder_new index_id index_suffix flags =
     \<lparr>pmb_index_id = index_id, pmb_index_suffix = index_suffix, pmb_flags = flags,
      pmb_stats = no_stats, pmb_sampled_term_index = [], pmb_dict_block_directory = [],
      pmb_section_refs = no_sections, pmb_extra_sections = []\<rparr>"

definition set_stats :: "stats_block \<Rightarrow> per_index_meta_builder \<Rightarrow> per_index_meta_builder" where
  "set_stats stats b = b\<lparr>pmb_stats := stats\<rparr>"

definition set_sampled_term_index :: "byte list \<Rightarrow> per_index_meta_builder \<Rightarrow> per_index_meta_builder" where
  "set_sampled_term_index framed b = b\<lparr>pmb_sampled_term_index := framed\<rparr>"

definition set_dict_block_directory :: "byte list \<Rightarrow> per_index_meta_builder \<Rightarrow> per_index_meta_builder" where
  "set_dict_block_directory framed b = b\<lparr>pmb_dict_block_directory := framed\<rparr>"

definition set_section_refs :: "section_refs \<Rightarrow> per_index_meta_builder \<Rightarrow> per_index_meta_builder" where
  "set_section_refs refs b = b\<lparr>pmb_section_refs := refs\<rparr>"

definition add_raw_section :: "byte list \<Rightarrow> per_index_meta_builder \<Rightarrow> per_index_meta_builder" where
  "add_raw_section framed b = b\<lparr>pmb_extra_sections := pmb_extra_sections b @ [framed]\<rparr>"

subsection \<open>Section references\<close>

definition encode_region_ref :: "region_ref \<Rightarrow> byte_sink \<Rightarrow> byte_sink" where
  "encode_region_ref r payload = put_varint64 (rr_length r) (put_varint64 (rr_offset r) payload)"

definition decode_region_ref :: "byte_source \<Rightarrow> (region_ref \<times> byte_source) result" where
  "decode_region_ref ps =
     and_then (get_varint64 ps) (\<lambda>(offset, ps).
     and_then (get_varint64 ps) (\<lambda>(length, ps).
     Inr (\<lparr>rr_offset = offset, rr_length = length\<rparr>, ps)))"

definition encode_section_refs :: "section_refs \<Rightarrow> byte_sink \<Rightarrow> byte_sink" where
  "encode_section_refs refs sink =
     (let payload = encode_region_ref (sr_dict_region refs) [];
          payload = encode_region_ref (sr_posting_region refs) payload;
          payload = encode_region_ref (sr_norms refs) payload;
          payload = encode_region_ref (sr_null_bitmap refs) payload;
          payload = encode_region_ref (sr_bsbf refs) payload
      in framer_write sink (section_type_id kSectionRefs) payload)"

definition decode_section_refs :: "byte list \<Rightarrow> section_refs result" where
  "decode_section_refs payload =
     and_then (decode_region_ref (source payload)) (\<lambda>(dict, ps).
     and_then (decode_region_ref ps) (\<lambda>(posting, ps).
     and_then (decode_region_ref ps) (\<lambda>(norms, ps).
     and_then (decode_region_ref ps) (\<lambda>(null_bitmap, ps).
     and_then (decode_region_ref ps) (\<lambda>(bsbf, ps).
     if \<not> eof ps then Corruption
     else Inr \<lparr>sr_dict_region = dict, sr_posting_region = posting, sr_norms = norms,
               sr_null_bitmap = null_bitmap, sr_bsbf = bsbf\<rparr>)))))"

subsection \<open>Header\<close>

definition pim_encode_header :: "u64 \<Rightarrow> byte list \<Rightarrow> u32 \<Rightarrow> byte_sink \<Rightarrow> byte_sink" where
  "pim_encode_header index_id idx_suffix flags sink =
     (let head = put_fixed16 kMetaFormatVersion [];
          head = put_varint64 index_id head;
          head = put_varint32 (of_nat (length idx_suffix)) head;
          head = put_bytes idx_suffix head;
          head = put_fixed32 flags head;
          crc = crc32c head;
          sink = put_bytes head sink
      in put_fixed32 crc sink)"

definition pim_decode_header ::
  "byte list \<Rightarrow> byte_source \<Rightarrow> ((u64 \<times> byte list \<times> u32) \<times> byte_source) result" where
  "pim_decode_header block src =
     (let start = src_pos src in
      and_then (get_fixed16 src) (\<lambda>(version, src).
      if version \<noteq> kMetaFormatVersion then Corruption
      else
        and_then (get_varint64 src) (\<lambda>(index_id, src).
        and_then (get_varint32 src) (\<lambda>(suffix_len, src).
        if suffix_len > kMaxSuffixLen \<or> unat suffix_len > remaining src then Corruption
        else
          and_then (get_bytes (unat suffix_len) src) (\<lambda>(idx_suffix, src).
          and_then (get_fixed32 src) (\<lambda>(flags, src).
          let covered = src_pos src - start in
          and_then (get_fixed32 src) (\<lambda>(stored, src).
          and_then (subslice block start covered) (\<lambda>region.
          if crc32c region \<noteq> stored then Corruption
          else Inr ((index_id, idx_suffix, flags), src)))))))))"

subsection \<open>Builder output\<close>

definition per_index_meta_finish :: "per_index_meta_builder \<Rightarrow> byte_sink \<Rightarrow> byte_sink" where
  "per_index_meta_finish b sink =
     (let sink = pim_encode_header (pmb_index_id b) (pmb_index_suffix b) (pmb_flags b) sink;
          sink = encode_stats_block (pmb_stats b) sink;
          sink = put_bytes (pmb_sampled_term_index b) sink;
          sink = put_bytes (pmb_dict_block_directory b) sink;
          sink = encode_section_refs (pmb_section_refs b) sink
      in fold put_bytes (pmb_extra_sections b) sink)"

subsection \<open>Reader\<close>

record per_index_meta_reader =
  pmr_index_id :: u64
  pmr_index_suffix :: "byte list"
  pmr_flags :: u32
  pmr_stats :: stats_block
  pmr_section_refs :: section_refs
  pmr_sampled_term_index :: "byte list"
  pmr_dict_block_directory :: "byte list"

definition read_frame :: "byte list \<Rightarrow> byte_source \<Rightarrow> ((byte \<times> byte list) \<times> byte_source) result" where
  "read_frame block src =
     (let start = src_pos src in
      and_then (framer_read src) (\<lambda>(sec, src).
      and_then (subslice block start (src_pos src - start)) (\<lambda>frame.
      Inr ((sec_type sec, frame), src))))"

definition dispatch_frame :: "byte \<Rightarrow> byte list \<Rightarrow> per_index_meta_reader \<Rightarrow> per_index_meta_reader" where
  "dispatch_frame type frame out =
     (if type = section_type_id kSampledTermIndex then out\<lparr>pmr_sampled_term_index := frame\<rparr>
      else if type = section_type_id kDictBlockDirectory then out\<lparr>pmr_dict_block_directory := frame\<rparr>
      else out)"

text \<open>One iteration of the loop of \<open>open\<close>, on the reader under construction and the flags
  \<open>have_stats\<close> and \<open>have_refs\<close>.\<close>

definition take_frame :: "byte \<Rightarrow> byte list \<Rightarrow> per_index_meta_reader \<times> bool \<times> bool \<Rightarrow>
    (per_index_meta_reader \<times> bool \<times> bool) result" where
  "take_frame type frame = (\<lambda>(out, have_stats, have_refs).
     if type = section_type_id kStatsBlock then
       and_then (decode_stats_block (source frame)) (\<lambda>(stats, _).
       Inr (out\<lparr>pmr_stats := stats\<rparr>, True, have_refs))
     else if type = section_type_id kSectionRefs then
       and_then (framer_read (source frame)) (\<lambda>(sec, _).
       and_then (decode_section_refs (sec_payload sec)) (\<lambda>refs.
       Inr (out\<lparr>pmr_section_refs := refs\<rparr>, have_stats, True)))
     else Inr (dispatch_frame type frame out, have_stats, have_refs))"

lemma framer_read_progress:
  assumes "framer_read src = Inr (sec, src')" shows "remaining src' < remaining src"
proof -
  from assms obtain t s where "get_u8 src = Inr (t, s)" by (auto simp: framer_read_def Let_def)
  then have "wf_source src" by (auto simp: get_u8_def remaining_def wf_source_def split: if_splits)
  from framer_read_Inr [OF this assms] show ?thesis by (metis diff_less length_drop less_nat_zero_code
      neq0_conv order.strict_trans1 order.strict_trans2 remaining_rest rest_advance zero_less_numeral)
qed

function walk_sections :: "byte list \<Rightarrow> byte_source \<Rightarrow> per_index_meta_reader \<times> bool \<times> bool \<Rightarrow>
    (per_index_meta_reader \<times> bool \<times> bool) result" where
  "walk_sections block src st =
     (if eof src then Inr st
      else
        and_then (read_frame block src) (\<lambda>(fr, src).
        and_then (take_frame (fst fr) (snd fr) st) (\<lambda>st. walk_sections block src st)))"
  by auto
termination
  by (relation "measure (\<lambda>(block, src, st). remaining src)")
    (auto simp: read_frame_def Let_def dest: framer_read_progress)

declare walk_sections.simps [simp del]

definition per_index_meta_open :: "byte list \<Rightarrow> per_index_meta_reader result" where
  "per_index_meta_open block =
     and_then (pim_decode_header block (source block)) (\<lambda>((index_id, idx_suffix, flags), src).
     let out = \<lparr>pmr_index_id = index_id, pmr_index_suffix = idx_suffix, pmr_flags = flags,
           pmr_stats = no_stats, pmr_section_refs = no_sections, pmr_sampled_term_index = [],
           pmr_dict_block_directory = []\<rparr> in
     and_then (walk_sections block src (out, False, False)) (\<lambda>(out, have_stats, have_refs).
     if \<not> have_stats \<or> \<not> have_refs then Corruption else Inr out))"

definition has_bsbf :: "per_index_meta_reader \<Rightarrow> bool" where
  "has_bsbf r = (rr_length (sr_bsbf (pmr_section_refs r)) > 0)"

definition pmr_has_positions :: "per_index_meta_reader \<Rightarrow> bool" where
  "pmr_has_positions r = (pmr_flags r AND meta_kHasPositions \<noteq> 0)"

subsection \<open>Round trip\<close>

definition region_ref_bytes :: "region_ref \<Rightarrow> byte list" where
  "region_ref_bytes r = encode_varint64 (rr_offset r) @ encode_varint64 (rr_length r)"

definition section_refs_payload :: "section_refs \<Rightarrow> byte list" where
  "section_refs_payload refs =
     region_ref_bytes (sr_dict_region refs) @ region_ref_bytes (sr_posting_region refs) @
     region_ref_bytes (sr_norms refs) @ region_ref_bytes (sr_null_bitmap refs) @
     region_ref_bytes (sr_bsbf refs)"

definition section_refs_bytes :: "section_refs \<Rightarrow> byte list" where
  "section_refs_bytes refs = frame_bytes 5 (section_refs_payload refs)"

lemma encode_section_refs_bytes [put_simps]:
  "encode_section_refs refs sink = sink @ section_refs_bytes refs"
  by (simp add: encode_section_refs_def encode_region_ref_def put_simps section_refs_bytes_def
      section_refs_payload_def region_ref_bytes_def Let_def)

lemma length_region_ref_bytes: "length (region_ref_bytes r) \<le> 20"
  using varint64_len_le_10 [of "rr_offset r"] varint64_len_le_10 [of "rr_length r"]
  by (simp add: region_ref_bytes_def)

lemma length_section_refs_payload: "length (section_refs_payload refs) \<le> 100"
  using length_region_ref_bytes [of "sr_dict_region refs"] length_region_ref_bytes [of "sr_posting_region refs"]
    length_region_ref_bytes [of "sr_norms refs"] length_region_ref_bytes [of "sr_null_bitmap refs"]
    length_region_ref_bytes [of "sr_bsbf refs"]
  by (simp add: section_refs_payload_def)

lemma decode_section_refs_payload: "decode_section_refs (section_refs_payload refs) = Inr refs"
  by (simp add: decode_section_refs_def decode_region_ref_def section_refs_payload_def
      region_ref_bytes_def codec_simps eof_rest)

definition header_covered :: "u64 \<Rightarrow> byte list \<Rightarrow> u32 \<Rightarrow> byte list" where
  "header_covered index_id idx_suffix flags =
     le_bytes 2 kMetaFormatVersion @ encode_varint64 index_id @
     encode_varint32 (of_nat (length idx_suffix)) @ idx_suffix @ le_bytes 4 flags"

lemma pim_encode_header_bytes:
  "pim_encode_header i sf fl sink =
     sink @ header_covered i sf fl @ le_bytes 4 (crc32c (header_covered i sf fl))"
  by (simp add: pim_encode_header_def put_simps header_covered_def Let_def)

lemma pim_decode_header_enc:
  assumes b: "block = header_covered i sf fl @ le_bytes 4 (crc32c (header_covered i sf fl)) @ r"
    and sf: "length sf \<le> unat kMaxSuffixLen"
  shows "pim_decode_header block (source block) =
    Inr ((i, sf, fl), advance (length (header_covered i sf fl) + 4) (source block))"
proof -
  have un: "unat (of_nat (length sf) :: u32) = length sf" using sf by (simp add: kMaxSuffixLen_def)
  have cap: "\<not> kMaxSuffixLen < of_nat (length sf)" using sf un by (simp add: word_less_nat_alt)
  have "source block = source (le_bytes 2 kMetaFormatVersion @ encode_varint64 i @
     encode_varint32 (of_nat (length sf)) @ sf @ le_bytes 4 fl @ le_bytes 4 (crc32c (header_covered i sf fl)) @ r)"
    by (simp add: b header_covered_def)
  moreover have "subslice block 0 (length (header_covered i sf fl)) = Inr (header_covered i sf fl)"
    by (simp add: b)
  moreover have "length (header_covered i sf fl) = 2 + (length (encode_varint64 i) +
      (length (encode_varint32 (of_nat (length sf))) + (length sf + 4)))"
    by (simp add: header_covered_def)
  ultimately show ?thesis
    by (simp add: pim_decode_header_def codec_simps un cap remaining_rest Let_def add.assoc)
qed

text \<open>Walking the frames of a block: \<open>frames\<close> are the sections that follow, as type and payload.\<close>

fun take_frames :: "(byte \<times> byte list) list \<Rightarrow> per_index_meta_reader \<times> bool \<times> bool \<Rightarrow>
    (per_index_meta_reader \<times> bool \<times> bool) result" where
  "take_frames [] st = Inr st"
| "take_frames ((t, p) # fs) st = and_then (take_frame t (frame_bytes t p) st) (take_frames fs)"

definition frames_bytes :: "(byte \<times> byte list) list \<Rightarrow> byte list" where
  "frames_bytes fs = concat (map (\<lambda>(t, p). frame_bytes t p) fs)"

lemma frames_bytes_simps [simp]:
  "frames_bytes [] = []" "frames_bytes ((t, p) # fs) = frame_bytes t p @ frames_bytes fs"
  "frames_bytes (fs @ gs) = frames_bytes fs @ frames_bytes gs"
  by (simp_all add: frames_bytes_def)

lemma read_frame_enc:
  assumes "rest src = frame_bytes t p @ r" and "length p < 2 ^ 64" and "src_bytes src = block"
  shows "read_frame block src = Inr ((t, frame_bytes t p), advance (length (frame_bytes t p)) src)"
proof -
  have "wf_source src" using assms(1) by (intro wf_if_rest) simp
  then have "subslice block (src_pos src) (length (frame_bytes t p)) = Inr (frame_bytes t p)"
    using assms(1,3) slice_from_rest [of "frame_bytes t p" src 0] by (simp add: slice_from_def)
  with framer_read_frame [OF assms(2), of t src] assms(1) show ?thesis
    by (simp add: read_frame_def Let_def del: subslice_ok)
qed

lemma walk_sections_frames:
  assumes "rest src = frames_bytes fs" and "wf_source src" and "src_bytes src = block"
    and "\<forall>(t, p) \<in> set fs. length p < 2 ^ 64"
  shows "walk_sections block src st = take_frames fs st"
  using assms
proof (induction fs arbitrary: src st)
  case Nil
  then show ?case by (subst walk_sections.simps) (simp add: eof_rest)
next
  case (Cons f fs)
  obtain t p where f: "f = (t, p)" by force
  have r: "rest src = frame_bytes t p @ frames_bytes fs" using Cons.prems(1) f by simp
  have ne: "\<not> eof src" using Cons.prems(2) r by (simp add: eof_rest)
  have rd: "read_frame block src = Inr ((t, frame_bytes t p), advance (length (frame_bytes t p)) src)"
    using r Cons.prems(3,4) f by (intro read_frame_enc) auto
  have "walk_sections block (advance (length (frame_bytes t p)) src) = take_frames fs"
    using Cons.prems r by (intro ext Cons.IH) auto
  then show ?case using ne rd by (subst walk_sections.simps) (simp add: f)
qed

lemma take_unknown:
  "\<forall>(t, p) \<in> set fs. t \<notin> {1, 2, 3, 5} \<Longrightarrow> take_frames fs st = Inr st"
proof (induction fs)
  case (Cons f fs)
  then show ?case by (cases f; cases st) (auto simp: take_frame_def dispatch_frame_def)
qed simp

text \<open>A builder that was given whole frames: of a sampled term index, of a DICT block directory,
  and of sections of other types.\<close>

definition meta_frames_ok :: "per_index_meta_builder \<Rightarrow> byte list \<Rightarrow> byte list \<Rightarrow> (byte \<times> byte list) list \<Rightarrow> bool" where
  "meta_frames_ok b sti dbd extra =
     (pmb_sampled_term_index b = frame_bytes 2 sti \<and> pmb_dict_block_directory b = frame_bytes 3 dbd \<and>
      pmb_extra_sections b = map (\<lambda>(t, p). frame_bytes t p) extra \<and>
      length sti < 2 ^ 64 \<and> length dbd < 2 ^ 64 \<and>
      (\<forall>(t, p) \<in> set extra. length p < 2 ^ 64 \<and> t \<notin> {1, 2, 3, 5}))"

definition meta_reader_of :: "per_index_meta_builder \<Rightarrow> per_index_meta_reader" where
  "meta_reader_of b =
     \<lparr>pmr_index_id = pmb_index_id b, pmr_index_suffix = pmb_index_suffix b, pmr_flags = pmb_flags b,
      pmr_stats = pmb_stats b, pmr_section_refs = pmb_section_refs b,
      pmr_sampled_term_index = pmb_sampled_term_index b,
      pmr_dict_block_directory = pmb_dict_block_directory b\<rparr>"

lemma fold_put_bytes: "fold put_bytes xss sink = sink @ concat xss"
  by (induction xss arbitrary: sink) (simp_all add: put_bytes_def)

lemma per_index_meta_finish_bytes:
  assumes "meta_frames_ok b sti dbd extra"
  shows "per_index_meta_finish b sink =
    (let c = header_covered (pmb_index_id b) (pmb_index_suffix b) (pmb_flags b) in
     sink @ c @ le_bytes 4 (crc32c c) @
     frames_bytes ([(1, stats_payload (pmb_stats b)), (2, sti), (3, dbd),
       (5, section_refs_payload (pmb_section_refs b))] @ extra))"
  using assms
  by (simp add: per_index_meta_finish_def pim_encode_header_bytes fold_put_bytes put_simps
      meta_frames_ok_def frames_bytes_def stats_bytes_def section_refs_bytes_def Let_def)

lemma per_index_meta_open_finish:
  assumes fr: "meta_frames_ok b sti dbd extra"
    and sf: "length (pmb_index_suffix b) \<le> unat kMaxSuffixLen"
  shows "per_index_meta_open (per_index_meta_finish b []) = Inr (meta_reader_of b)"
proof -
  let ?c = "header_covered (pmb_index_id b) (pmb_index_suffix b) (pmb_flags b)"
  let ?fs = "[(1, stats_payload (pmb_stats b)), (2, sti), (3, dbd),
     (5, section_refs_payload (pmb_section_refs b))] @ extra"
  define block where "block = per_index_meta_finish b []"
  have bl: "block = ?c @ le_bytes 4 (crc32c ?c) @ frames_bytes ?fs"
    unfolding block_def using per_index_meta_finish_bytes [OF fr, of "[]"] by (simp add: Let_def)
  have hd: "pim_decode_header block (source block) =
    Inr ((pmb_index_id b, pmb_index_suffix b, pmb_flags b), advance (length ?c + 4) (source block))"
    by (rule pim_decode_header_enc [OF bl sf])
  have small: "length (stats_payload (pmb_stats b)) < 2 ^ 64"
    "length (section_refs_payload (pmb_section_refs b)) < 2 ^ 64"
    using length_stats_payload [of "pmb_stats b"] length_section_refs_payload [of "pmb_section_refs b"] by simp_all
  have walk: "walk_sections block (advance (length ?c + 4) (source block)) st = take_frames ?fs st" for st
  proof (rule walk_sections_frames)
    show "\<forall>(t, p) \<in> set ?fs. length p < 2 ^ 64" using fr small by (auto simp: meta_frames_ok_def)
  qed (simp_all add: bl)
  have st: "decode_stats_block (source (frame_bytes 1 (stats_payload (pmb_stats b)))) =
      Inr (pmb_stats b, advance (length (stats_bytes (pmb_stats b))) (source (stats_bytes (pmb_stats b))))"
    using stats.get_enc [of "pmb_stats b" "source (stats_bytes (pmb_stats b))"] by (simp add: stats_bytes_def)
  have unk: "take_frames extra s = Inr s" for s
    using fr by (intro take_unknown) (auto simp: meta_frames_ok_def)
  have known: "pmb_sampled_term_index b = frame_bytes 2 sti" "pmb_dict_block_directory b = frame_bytes 3 dbd"
    using fr by (simp_all add: meta_frames_ok_def)
  show ?thesis
    unfolding block_def [symmetric] per_index_meta_open_def
    by (simp add: hd walk take_frame_def st dispatch_frame_def framer_read_source [OF small(2)]
        decode_section_refs_payload unk Let_def meta_reader_of_def known)
qed

subsection \<open>Safety\<close>

lemma decode_region_ref_ok: "wf_source src \<Longrightarrow> cursor_ok src (decode_region_ref src)"
  unfolding decode_region_ref_def by (auto intro!: cursor_intros)

interpretation region_refs: cursor_op decode_region_ref
  by unfold_locales (rule decode_region_ref_ok)

lemma decode_section_refs_safe: "decode_section_refs payload \<noteq> Inl OutOfBounds"
  by (auto simp: decode_section_refs_def and_then_eq_Inl split: if_splits
      dest!: region_refs.wf_after [rotated] dest: region_refs.safe [THEN notE, rotated])

lemma pim_decode_header_ok:
  "cursor_ok (source block) (pim_decode_header block (source block))"
  unfolding pim_decode_header_def Let_def
  by (auto intro!: cursor_intros subslice_bind) (auto simp: wf_source_def)

lemma read_frame_ok:
  assumes wf: "wf_source src" and b: "src_bytes src = block"
  shows "cursor_ok src (read_frame block src)"
  unfolding read_frame_def Let_def
  by (rule cursor_bind [OF wf framer.ok [OF wf]]) (auto intro!: subslice_bind simp: wf_source_def b)

lemma take_frame_safe: "take_frame t frame st \<noteq> Inl OutOfBounds"
  using stats.safe [OF wf_source_source, of frame] framer.safe [OF wf_source_source, of frame]
  by (cases st) (auto simp: take_frame_def and_then_eq_Inl decode_section_refs_safe split: if_splits)

lemma walk_sections_safe:
  "wf_source src \<Longrightarrow> src_bytes src = block \<Longrightarrow> walk_sections block src st \<noteq> Inl OutOfBounds"
proof (induction block src st rule: walk_sections.induct)
  case (1 block src st)
  show ?case
  proof
    assume "walk_sections block src st = Inl OutOfBounds"
    then obtain fr src' st' where ne: "\<not> eof src" and rd: "read_frame block src = Inr (fr, src')"
      and tk: "take_frame (fst fr) (snd fr) st = Inr st'" and bad: "walk_sections block src' st' = Inl OutOfBounds"
      using read_frame_ok [OF "1.prems"] take_frame_safe
      by (subst (asm) walk_sections.simps) (auto simp: and_then_eq_Inl split: if_splits)
    from read_frame_ok [OF "1.prems"] rd obtain n where "n \<le> remaining src" "src' = advance n src"
      by (auto simp: cursor_ok_def)
    with "1.prems" have "wf_source src'" "src_bytes src' = block" by (auto simp: wf_advance)
    with "1.IH" [OF ne rd refl tk] bad show False by blast
  qed
qed

lemma per_index_meta_open_safe: "per_index_meta_open block \<noteq> Inl OutOfBounds"
proof
  assume "per_index_meta_open block = Inl OutOfBounds"
  then obtain i sf fl src st where h: "pim_decode_header block (source block) = Inr ((i, sf, fl), src)"
    and w: "walk_sections block src st = Inl OutOfBounds"
    using pim_decode_header_ok [of block]
    by (auto simp: per_index_meta_open_def and_then_eq_Inl Let_def split: if_splits)
  from h pim_decode_header_ok [of block] have "wf_source src" "src_bytes src = block"
    by (auto simp: cursor_ok_def intro: wf_advance)
  with walk_sections_safe w show False by blast
qed

subsection \<open>Correctness\<close>

text \<open>C19: a per-index meta block opens to the identity, flags, statistics and section references it
  was built with, and hands back the frames of the sampled term index and of the block directory
  unchanged; extra sections of other types are skipped.\<close>

theorem per_index_meta_roundtrip:
  assumes "meta_frames_ok b sti dbd extra" and "length (pmb_index_suffix b) \<le> 64 * 1024"
  shows "per_index_meta_open (per_index_meta_finish b []) =
    Inr \<lparr>pmr_index_id = pmb_index_id b, pmr_index_suffix = pmb_index_suffix b, pmr_flags = pmb_flags b,
         pmr_stats = pmb_stats b, pmr_section_refs = pmb_section_refs b,
         pmr_sampled_term_index = pmb_sampled_term_index b,
         pmr_dict_block_directory = pmb_dict_block_directory b\<rparr>"
  using per_index_meta_open_finish [OF assms(1)] assms(2)
  by (simp add: meta_reader_of_def kMaxSuffixLen_def)

definition sample_meta :: per_index_meta_builder where
  "sample_meta = add_raw_section (frame_bytes 9 [7])
     (set_dict_block_directory (frame_bytes 3 [0])
       (set_sampled_term_index (frame_bytes 2 [0])
         (set_section_refs (no_sections\<lparr>sr_dict_region := \<lparr>rr_offset = 64, rr_length = 900\<rparr>\<rparr>)
           (per_index_meta_builder_new 7 [100, 101] 1))))"

lemmas sample_meta_defs = sample_meta_def add_raw_section_def set_dict_block_directory_def
  set_sampled_term_index_def set_section_refs_def per_index_meta_builder_new_def

theorem per_index_meta_roundtrip_witness:
  "and_then (per_index_meta_open (per_index_meta_finish sample_meta []))
     (\<lambda>r. Inr (pmr_index_id r, rr_length (sr_dict_region (pmr_section_refs r)), pmr_has_positions r, has_bsbf r)) =
   Inr (7, 900, True, False)"
proof -
  have "meta_frames_ok sample_meta [0] [0] [(9, [7])]"
    by (simp add: meta_frames_ok_def sample_meta_defs)
  moreover have "length (pmb_index_suffix sample_meta) \<le> 64 * 1024" by (simp add: sample_meta_defs)
  ultimately show ?thesis
    by (simp add: per_index_meta_roundtrip) (simp add: sample_meta_defs pmr_has_positions_def
        meta_kHasPositions_def has_bsbf_def no_sections_def no_region_def)
qed

end
