(* ===== verification/Sampled_Term_Index.thy ===== *)
theory Sampled_Term_Index
  imports Front_Coding Section_Framer Format_Constants Std_Search
begin

text \<open>
  The resident index of the first term of every DICT block:
  \<open>src/core/src/format/sampled_term_index.cpp\<close>. The builder's state is \<open>first_terms_\<close>, the
  reader's \<open>sample_terms_\<close>.
\<close>

type_synonym sampled_term_index = "term_bytes list"

definition add_block_first_term :: "term_bytes \<Rightarrow> sampled_term_index \<Rightarrow> sampled_term_index" where
  "add_block_first_term first_term first_terms = first_terms @ [first_term]"

text \<open>The two loops over the sample terms, each term coded against the one before it.\<close>

fun write_sample_terms :: "term_bytes list \<Rightarrow> term_bytes \<Rightarrow> byte_sink \<Rightarrow> byte_sink" where
  "write_sample_terms [] prev payload = payload"
| "write_sample_terms (t # ts) prev payload = write_sample_terms ts t (write_term_key t prev payload)"

fun read_sample_terms :: "nat \<Rightarrow> term_bytes \<Rightarrow> byte_source \<Rightarrow> (term_bytes list \<times> byte_source) result" where
  "read_sample_terms 0 prev src = Inr ([], src)"
| "read_sample_terms (Suc n) prev src =
     and_then (read_term_key prev src) (\<lambda>(t, src).
     and_then (read_sample_terms n t src) (\<lambda>(ts, src). Inr (t # ts, src)))"

definition sampled_finish :: "sampled_term_index \<Rightarrow> byte_sink \<Rightarrow> byte_sink" where
  "sampled_finish first_terms sink =
     (let payload = put_varint32 (of_nat (length first_terms)) [];
          payload =
            (if first_terms \<noteq> [] then
               let payload = write_term_key (hd first_terms) [] payload;
                   payload = write_term_key (last first_terms) [] payload
               in write_sample_terms first_terms [] payload
             else payload)
      in framer_write sink (section_type_id kSampledTermIndex) payload)"

definition sampled_parse_payload :: "byte list \<Rightarrow> term_bytes list result" where
  "sampled_parse_payload payload =
     (let src = source payload in
      and_then (get_varint32 src) (\<lambda>(n_blocks, src).
      if n_blocks = 0 then (if \<not> eof src then Corruption else Inr [])
      else
        and_then (read_term_key [] src) (\<lambda>(min_term, src).
        and_then (read_term_key [] src) (\<lambda>(max_term, src).
        and_then (read_sample_terms (unat n_blocks) [] src) (\<lambda>(out, src).
        if \<not> eof src then Corruption
        else if hd out \<noteq> min_term \<or> last out \<noteq> max_term then Corruption
        else Inr out)))))"

definition sampled_open :: "byte list \<Rightarrow> sampled_term_index result" where
  "sampled_open section_bytes =
     and_then (framer_read (source section_bytes)) (\<lambda>(sec, src).
     if sec_type sec \<noteq> section_type_id kSampledTermIndex then InvalidArgument
     else sampled_parse_payload (sec_payload sec))"

text \<open>\<open>locate\<close> returns the pair \<open>(*maybe_present, *block_ordinal)\<close>; its status is always OK.\<close>

definition locate :: "sampled_term_index \<Rightarrow> term_bytes \<Rightarrow> bool \<times> u32" where
  "locate sample_terms target =
     (if sample_terms = [] then (False, 0)
      else if target < hd sample_terms then (False, 0)
      else
        let it = upper_bound sample_terms target;
            idx = it - 1
        in (True, of_nat idx))"

subsection \<open>Round trip\<close>

fun sample_terms_bytes :: "term_bytes \<Rightarrow> term_bytes list \<Rightarrow> byte list" where
  "sample_terms_bytes prev [] = []"
| "sample_terms_bytes prev (t # ts) = term_key_bytes prev t @ sample_terms_bytes t ts"

definition sampled_payload :: "sampled_term_index \<Rightarrow> byte list" where
  "sampled_payload ts =
     encode_varint32 (of_nat (length ts)) @
     (if ts = [] then []
      else term_key_bytes [] (hd ts) @ term_key_bytes [] (last ts) @ sample_terms_bytes [] ts)"

lemma write_sample_terms_bytes [put_simps]:
  "write_sample_terms ts prev payload = payload @ sample_terms_bytes prev ts"
  by (induction ts arbitrary: prev payload) (simp_all add: put_simps)

lemma sampled_finish_bytes [put_simps]:
  "sampled_finish ts sink = sink @ frame_bytes 2 (sampled_payload ts)"
  by (simp add: sampled_finish_def put_simps sampled_payload_def Let_def)

lemma read_sample_terms_bytes:
  "\<forall>t \<in> set ts. length t < 2 ^ 32 \<Longrightarrow> rest src = sample_terms_bytes prev ts @ r \<Longrightarrow>
   read_sample_terms (length ts) prev src =
     Inr (ts, advance (length (sample_terms_bytes prev ts)) src)"
proof (induction ts arbitrary: prev src)
  case (Cons t ts)
  then have "read_term_key prev src = Inr (t, advance (length (term_key_bytes prev t)) src)"
    by (intro term_key.get_enc) auto
  with Cons show ?case by simp
qed simp

lemma sampled_parse_payload_bytes:
  assumes len: "length ts < 2 ^ 32" and ts: "\<forall>t \<in> set ts. length t < 2 ^ 32"
  shows "sampled_parse_payload (sampled_payload ts) = Inr ts"
proof (cases "ts = []")
  case True
  then show ?thesis
    by (simp add: sampled_parse_payload_def sampled_payload_def codec_simps Let_def eof_rest)
next
  case False
  let ?n = "of_nat (length ts) :: u32"
  let ?s = "source (sampled_payload ts)"
  let ?a = "encode_varint32 ?n" and ?b = "term_key_bytes [] (hd ts)"
    and ?c = "term_key_bytes [] (last ts)" and ?d = "sample_terms_bytes [] ts"
  have n: "unat ?n = length ts" using len by simp
  then have n0: "?n \<noteq> 0" using False by (metis length_0_conv unsigned_0)
  have p: "sampled_payload ts = ?a @ ?b @ ?c @ ?d" using False by (simp add: sampled_payload_def)
  have 1: "get_varint32 ?s = Inr (?n, advance (length ?a) ?s)"
    by (simp add: p codec_simps)
  have 2: "read_term_key [] (advance (length ?a) ?s) =
      Inr (hd ts, advance (length ?b) (advance (length ?a) ?s))"
    by (rule term_key.get_enc) (use ts False in \<open>simp_all add: p\<close>)
  have 3: "read_term_key [] (advance (length ?b) (advance (length ?a) ?s)) =
      Inr (last ts, advance (length ?c) (advance (length ?b) (advance (length ?a) ?s)))"
    by (rule term_key.get_enc) (use ts False in \<open>simp_all add: p\<close>)
  let ?e = "advance (length ?c) (advance (length ?b) (advance (length ?a) ?s))"
  have 4: "read_sample_terms (length ts) [] ?e = Inr (ts, advance (length ?d) ?e)"
    by (rule read_sample_terms_bytes [OF ts, where r = "[]"]) (simp add: p)
  have 5: "eof (advance (length ?d) ?e)" by (subst eof_rest) (simp_all add: p)
  show ?thesis
    unfolding sampled_parse_payload_def Let_def
    by (simp only: 1 2 3 4 5 n n0 and_then_Inr prod.case if_False simp_thms)
qed

lemma sampled_roundtrip:
  assumes "length ts < 2 ^ 32" and "\<forall>t \<in> set ts. length t < 2 ^ 32"
    and "length (sampled_payload ts) < 2 ^ 64"
  shows "sampled_open (sampled_finish ts []) = Inr ts"
  using assms by (simp add: sampled_open_def put_simps framer_read_source sampled_parse_payload_bytes)

lemma read_sample_terms_ok: "wf_source src \<Longrightarrow> cursor_ok src (read_sample_terms n prev src)"
  by (induction n arbitrary: prev src) (auto intro!: cursor_bind term_key.ok)

lemma sampled_parse_payload_ok: "sampled_parse_payload payload \<noteq> Inl OutOfBounds"
proof -
  have "cursor_ok (source payload) (and_then (get_varint32 (source payload)) (\<lambda>(n_blocks, src).
      if n_blocks = 0 then (if \<not> eof src then Corruption else Inr ([], src))
      else
        and_then (read_term_key [] src) (\<lambda>(min_term, src).
        and_then (read_term_key [] src) (\<lambda>(max_term, src).
        and_then (read_sample_terms (unat n_blocks) [] src) (\<lambda>(out, src).
        if \<not> eof src then Corruption
        else if hd out \<noteq> min_term \<or> last out \<noteq> max_term then Corruption
        else Inr (out, src))))))"
    by (auto intro!: cursor_intros term_key.ok read_sample_terms_ok)
  then show ?thesis
    by (auto simp: sampled_parse_payload_def Let_def and_then_eq_Inl cursor_ok_def
        split: if_splits sum.splits)
qed

lemma sampled_open_safe: "sampled_open s \<noteq> Inl OutOfBounds"
  using sampled_parse_payload_ok framer.safe [OF wf_source_source, of s]
  by (auto simp: sampled_open_def and_then_eq_Inl split: if_splits)

subsection \<open>Routing\<close>

lemma locate_absent:
  "(\<not> fst (locate ts target)) = (ts = [] \<or> target < hd ts)"
  by (simp add: locate_def Let_def)

lemma locate_spec:
  assumes "sorted ts" and "length ts < 2 ^ 32" and "ts \<noteq> []" and "hd ts \<le> target"
  shows "fst (locate ts target)"
    and "unat (snd (locate ts target)) < length ts"
    and "\<And>i. i \<le> unat (snd (locate ts target)) \<Longrightarrow> ts ! i \<le> target"
    and "\<And>i. unat (snd (locate ts target)) < i \<Longrightarrow> i < length ts \<Longrightarrow> target < ts ! i"
proof -
  let ?u = "upper_bound ts target"
  note u = upper_bound_spec [OF assms(1), where x = target]
  have "?u \<noteq> 0"
  proof
    assume "?u = 0"
    with u(3) [of 0] assms(3,4) show False by (simp add: hd_conv_nth leD)
  qed
  have loc: "locate ts target = (True, of_nat (?u - 1))"
    using assms by (simp add: locate_def Let_def)
  have "unat (of_nat (?u - 1) :: u32) = ?u - 1" using u(1) assms(2) by simp
  then have snd: "unat (snd (locate ts target)) = ?u - 1" by (simp add: loc)
  show "fst (locate ts target)" by (simp add: loc)
  show "unat (snd (locate ts target)) < length ts" using u(1) \<open>?u \<noteq> 0\<close> snd by simp
  show "ts ! i \<le> target" if "i \<le> unat (snd (locate ts target))" for i
    using u(2) [of i] that \<open>?u \<noteq> 0\<close> snd by simp
  show "target < ts ! i" if "unat (snd (locate ts target)) < i" "i < length ts" for i
    using u(3) [of i] that \<open>?u \<noteq> 0\<close> snd by simp
qed

text \<open>A target above the last sample is routed to the last block, which may hold it.\<close>

lemma locate_above_last:
  assumes "sorted ts" and "length ts < 2 ^ 32" and "ts \<noteq> []" and "last ts < target"
  shows "locate ts target = (True, of_nat (length ts - 1))"
proof -
  have l: "ts ! (length ts - 1) = last ts" and lt: "length ts - 1 < length ts" using assms(3) by (simp_all add: last_conv_nth)
  have "hd ts \<le> last ts" using assms(1,3) by (cases ts) auto
  then have h: "hd ts \<le> target" using assms(4) by simp
  note sp = locate_spec [OF assms(1-3) h]
  have "\<not> unat (snd (locate ts target)) < length ts - 1" using sp(4) [of "length ts - 1"] assms(4) l lt by auto
  then have "unat (snd (locate ts target)) = length ts - 1" using sp(2) by simp
  then have "snd (locate ts target) = of_nat (length ts - 1)" using assms(2) by (simp add: word_unat_eq_iff)
  then show ?thesis using sp(1) by (simp add: prod_eq_iff)
qed

subsection \<open>Blocks of ascending terms\<close>

lemma sorted_hd_le:
  "sorted_wrt (<) (concat bs) \<Longrightarrow> \<forall>b \<in> set bs. b \<noteq> [] \<Longrightarrow> j < length bs \<Longrightarrow> t \<in> set (bs ! j) \<Longrightarrow>
   hd (bs ! j) \<le> (t :: term_bytes)"
proof -
  assume srt: "sorted_wrt (<) (concat bs)" and j: "j < length bs" and t: "t \<in> set (bs ! j)"
  have "sorted_wrt (<) (bs ! j)"
    using srt by (subst (asm) id_take_nth_drop [OF j]) (simp add: sorted_wrt_append)
  then show ?thesis using t by (cases "bs ! j") auto
qed

lemma sorted_lt_next_hd:
  "sorted_wrt (<) (concat bs) \<Longrightarrow> \<forall>b \<in> set bs. b \<noteq> [] \<Longrightarrow> j < i \<Longrightarrow> i < length bs \<Longrightarrow> t \<in> set (bs ! j) \<Longrightarrow>
   (t :: term_bytes) < hd (bs ! i)"
proof (induction bs arbitrary: i j)
  case (Cons b bs)
  from \<open>j < i\<close> obtain i' where i: "i = Suc i'" by (cases i) auto
  have hd: "hd (bs ! i') \<in> set (concat bs)"
    using Cons.prems i by (auto intro!: bexI [of _ "bs ! i'"])
  show ?case
  proof (cases j)
    case 0
    with Cons.prems i hd show ?thesis by (auto simp: sorted_wrt_append)
  next
    case (Suc j')
    with Cons.prems i Cons.IH [of j' i'] show ?thesis by (auto simp: sorted_wrt_append)
  qed
qed simp

lemma sorted_block_heads:
  assumes "sorted_wrt (<) (concat bs)" and "\<forall>b \<in> set bs. b \<noteq> []"
  shows "sorted (map hd (bs :: term_bytes list list))"
proof (rule sorted_iff_nth_mono_less [THEN iffD2], intro allI impI)
  fix j i assume "j < i" and "i < length (map hd bs)"
  moreover from this have "hd (bs ! j) \<in> set (bs ! j)" using assms(2) by simp
  ultimately show "map hd bs ! j \<le> map hd bs ! i"
    using sorted_lt_next_hd [OF assms, of j i "hd (bs ! j)"] by simp
qed

text \<open>For blocks of ascending terms, the index that the writer emits from the first term of every block, once
  reopened, routes each term to the block that holds it.\<close>

lemma sampled_index_routes:
  assumes srt: "sorted_wrt (<) (concat blocks)" and ne: "\<forall>b \<in> set blocks. b \<noteq> []"
    and n: "length blocks < 2 ^ 32" and len: "\<forall>b \<in> set blocks. length (hd b) < 2 ^ 32"
    and p: "length (sampled_payload (map hd blocks)) < 2 ^ 64"
    and j: "j < length blocks" and t: "t \<in> set (blocks ! j)"
  shows "and_then (sampled_open (sampled_finish (map hd blocks) [])) (\<lambda>idx. Inr (locate idx t)) =
    Inr (True, of_nat j)"
proof -
  let ?ts = "map hd blocks"
  have open_ok: "sampled_open (sampled_finish ?ts []) = Inr ?ts"
    using n len p by (intro sampled_roundtrip) auto
  have s: "sorted ?ts" by (rule sorted_block_heads [OF srt ne])
  have ge: "?ts ! j \<le> t" using sorted_hd_le [OF srt ne j t] j by simp
  then have h: "hd ?ts \<le> t"
    using s j by (metis hd_conv_nth length_map list.size(3) not_less_zero order.trans sorted_nth_mono zero_le)
  have lt: "t < ?ts ! i" if "j < i" "i < length blocks" for i
    using sorted_lt_next_hd [OF srt ne that t] that by simp
  let ?k = "unat (snd (locate ?ts t))"
  have ne': "?ts \<noteq> []" using j by auto
  note sp = locate_spec [OF s _ ne' h]
  have "?k < length ?ts" using sp(2) n by simp
  moreover have "\<not> ?k < j" using sp(4) [of j] ge j n by (auto simp: leD)
  moreover have "\<not> j < ?k" using sp(3) [of ?k] lt [of ?k] \<open>?k < length ?ts\<close> n by (auto simp: leD)
  ultimately have "?k = j" by simp
  then have "snd (locate ?ts t) = of_nat j"
    using n j by (intro word_unat_eq_iff [THEN iffD2]) simp
  moreover have "fst (locate ?ts t)" using sp(1) n by simp
  ultimately have "locate ?ts t = (True, of_nat j)" by (simp add: prod_eq_iff)
  then show ?thesis by (simp only: open_ok and_then_Inr)
qed

subsection \<open>Correctness\<close>

lemma add_block_first_terms: "fold add_block_first_term ts first_terms = first_terms @ ts"
  by (induction ts arbitrary: first_terms) (simp_all add: add_block_first_term_def)

text \<open>C11: the index built from ascending first terms, written and reopened, locates a target inside its range in the
  block of the last sample that is not above the target, and reports a target below the first sample, or any target
  of an empty index, as absent.\<close>

theorem sampled_index_locates:
  assumes srt: "sorted ts" and n: "length ts < 2 ^ 32" and len: "\<forall>t \<in> set ts. length t < 2 ^ 32"
    and p: "length (sampled_payload ts) < 2 ^ 64"
  shows "\<exists>idx. sampled_open (sampled_finish (fold add_block_first_term ts []) []) = Inr idx \<and>
    (ts = [] \<or> target < hd ts \<longrightarrow> locate idx target = (False, 0)) \<and>
    (ts \<noteq> [] \<and> hd ts \<le> target \<and> target \<le> last ts \<longrightarrow>
      (\<exists>i < length ts. locate idx target = (True, of_nat i) \<and> ts ! i \<le> target \<and> (\<forall>j. i < j \<and> j < length ts \<longrightarrow> target < ts ! j)))"
proof -
  have "sampled_open (sampled_finish (fold add_block_first_term ts []) []) = Inr ts"
    using sampled_roundtrip [OF n len p] by (simp add: add_block_first_terms)
  moreover have "locate ts target = (False, 0)" if "ts = [] \<or> target < hd ts" using that by (auto simp: locate_def)
  moreover have "\<exists>i < length ts. locate ts target = (True, of_nat i) \<and> ts ! i \<le> target \<and> (\<forall>j. i < j \<and> j < length ts \<longrightarrow> target < ts ! j)"
    if ne: "ts \<noteq> []" and h: "hd ts \<le> target"
  proof -
    note sp = locate_spec [OF srt n ne h]
    have "locate ts target = (True, of_nat (unat (snd (locate ts target))))" using sp(1) by (simp add: prod_eq_iff)
    then show ?thesis using sp(2-4) by blast
  qed
  ultimately show ?thesis by blast
qed

theorem sampled_index_locates_witness:
  "\<exists>idx. sampled_open (sampled_finish (fold add_block_first_term [[1], [2, 5], [7]] []) []) = Inr idx \<and>
     locate idx [0] = (False, 0) \<and>
     (\<exists>i < 3. locate idx [2, 6 :: byte] = (True, of_nat i) \<and> [[1], [2, 5], [7]] ! i \<le> [2, 6 :: byte])"
proof -
  let ?ts = "[[1], [2, 5], [7]] :: byte list list"
  have p: "length (sampled_payload ?ts) < 2 ^ 64"
    using length_term_key [of "[]" "[1]"] length_term_key [of "[]" "[7]"]
      length_term_key [of "[1]" "[2, 5]"] length_term_key [of "[2, 5]" "[7]"] varint32_len_le_5 [of 3]
    by (simp add: sampled_payload_def)
  have s: "sorted ?ts" "length ?ts < 2 ^ 32" "\<forall>t \<in> set ?ts. length t < 2 ^ 32" by simp_all
  have "\<exists>idx. sampled_open (sampled_finish (fold add_block_first_term ?ts []) []) = Inr idx \<and> locate idx [0] = (False, 0)"
    using sampled_index_locates [OF s p, of "[0]"] by auto
  moreover have "\<exists>idx. sampled_open (sampled_finish (fold add_block_first_term ?ts []) []) = Inr idx \<and>
      (\<exists>i < 3. locate idx [2, 6] = (True, of_nat i) \<and> ?ts ! i \<le> [2, 6])"
    using sampled_index_locates [OF s p, of "[2, 6]"] by auto
  ultimately show ?thesis by auto
qed

end
