(* ===== verification/Framed_Directory.thy ===== *)
theory Framed_Directory
  imports Section_Framer
begin

text \<open>
  The interface of a directory section: records written one after the other behind their
  count, where no record is shorter than \<open>min_bytes\<close>. Both directories of the format check the
  count against the bytes that are left before they allocate for it; the law \<open>min_enc\<close> is what
  makes that check pass for every section their builders write.
\<close>

lemma varint_nonempty_lengths:
  "Suc 0 \<le> length (encode_varint64 v)" "Suc 0 \<le> length (encode_varint32 w)"
  by (simp_all add: Suc_le_eq encode_varint32_def)

locale ref_codec = codec get put enc valid
  for get :: "byte_source \<Rightarrow> ('a \<times> byte_source) result" and put enc valid +
  fixes min_bytes :: nat
  assumes min_pos: "0 < min_bytes"
    and min_enc: "min_bytes \<le> length (enc x)"
begin

lemma count_le: "length xs * min_bytes \<le> length (concat (map enc xs))"
proof (induction xs)
  case (Cons x xs)
  with min_enc [of x] show ?case by simp
qed simp

lemma count_cap: "length xs \<le> length (concat (map enc xs)) div min_bytes"
  using count_le [of xs] min_pos by (simp add: less_eq_div_iff_mult_less_eq)

definition refs_payload :: "'a list \<Rightarrow> byte list" where
  "refs_payload xs = encode_varint32 (of_nat (length xs)) @ concat (map enc xs)"

lemma put_refs:
  "fold put xs (put_varint32 (of_nat (length xs)) []) = refs_payload xs"
  by (simp add: fold_put put_simps refs_payload_def)

lemma get_refs:
  assumes len: "length xs < 2 ^ 32" and val: "list_all valid xs"
  shows "and_then (get_varint32 (source (refs_payload xs))) (\<lambda>(n, ps).
      if remaining ps div min_bytes < unat n then Corruption
      else and_then (get_n get (unat n) ps) (\<lambda>(refs, ps).
        if \<not> eof ps then Corruption else Inr refs)) = Inr xs"
proof -
  let ?v = "encode_varint32 (of_nat (length xs))"
  define ps where "ps = advance (length ?v) (source (refs_payload xs))"
  have r: "rest ps = concat (map enc xs)" by (simp add: ps_def refs_payload_def)
  have wf: "wf_source ps" by (simp add: ps_def refs_payload_def)
  have 1: "get_varint32 (source (refs_payload xs)) = Inr (of_nat (length xs), ps)"
    by (simp add: ps_def refs_payload_def codec_simps)
  have 2: "get_n get (length xs) ps = Inr (xs, advance (length (concat (map enc xs))) ps)"
    using val by (rule get_n_enc) (simp add: r)
  have 3: "eof (advance (length (concat (map enc xs))) ps)"
    by (subst eof_rest) (simp_all add: r wf)
  show ?thesis
    using len count_cap [of xs] by (simp add: 1 2 3 remaining_rest r not_less)
qed

end

end
