(* ===== verification/Dict_Block_Directory.thy ===== *)
theory Dict_Block_Directory
  imports Framed_Directory Format_Constants
begin

text \<open>
  The map from block ordinal to the physical place of a DICT block:
  \<open>src/core/src/format/dict_block_directory.cpp\<close>. Builder and reader both hold the vector
  \<open>refs_\<close>.
\<close>

definition block_ref_kZstd :: byte where "block_ref_kZstd = push_bit 0 1"

record block_ref =
  br_offset :: u64
  br_length :: u64
  br_n_entries :: u32
  br_flags :: byte
  br_checksum :: u32
  br_uncomp_len :: u64

type_synonym dict_block_directory = "block_ref list"

definition encode_ref :: "block_ref \<Rightarrow> byte_sink \<Rightarrow> byte_sink" where
  "encode_ref ref payload =
     (let payload = put_varint64 (br_offset ref) payload;
          payload = put_varint64 (br_length ref) payload;
          payload = put_varint32 (br_n_entries ref) payload;
          payload = put_u8 (br_flags ref) payload;
          payload = put_fixed32 (br_checksum ref) payload
      in if br_flags ref AND block_ref_kZstd \<noteq> 0 then put_varint64 (br_uncomp_len ref) payload
         else payload)"

text \<open>\<open>BlockRef ref{}\<close> starts from zeroes, so an absent \<open>uncomp_len\<close> reads as 0.\<close>

definition decode_ref :: "byte_source \<Rightarrow> (block_ref \<times> byte_source) result" where
  "decode_ref ps =
     and_then (get_varint64 ps) (\<lambda>(offset, ps).
     and_then (get_varint64 ps) (\<lambda>(length, ps).
     and_then (get_varint32 ps) (\<lambda>(n_entries, ps).
     and_then (get_u8 ps) (\<lambda>(flags, ps).
     and_then (get_fixed32 ps) (\<lambda>(checksum, ps).
     let ref = \<lparr>br_offset = offset, br_length = length, br_n_entries = n_entries,
                br_flags = flags, br_checksum = checksum, br_uncomp_len = 0\<rparr> in
     if flags AND block_ref_kZstd \<noteq> 0
     then and_then (get_varint64 ps) (\<lambda>(uncomp_len, ps). Inr (ref\<lparr>br_uncomp_len := uncomp_len\<rparr>, ps))
     else Inr (ref, ps))))))"

definition kMinRefBytes :: nat where "kMinRefBytes = 8"

definition dbd_decode_payload :: "byte list \<Rightarrow> block_ref list result" where
  "dbd_decode_payload payload =
     (let ps = source payload in
      and_then (get_varint32 ps) (\<lambda>(n_blocks, ps).
      if unat n_blocks > remaining ps div kMinRefBytes then Corruption
      else
        and_then (get_n decode_ref (unat n_blocks) ps) (\<lambda>(refs, ps).
        if \<not> eof ps then Corruption else Inr refs)))"

definition dict_block_directory_finish :: "dict_block_directory \<Rightarrow> byte_sink \<Rightarrow> byte_sink" where
  "dict_block_directory_finish refs sink =
     (let payload = put_varint32 (of_nat (length refs)) [];
          payload = fold encode_ref refs payload
      in framer_write sink (section_type_id kDictBlockDirectory) payload)"

definition dict_block_directory_open :: "byte list \<Rightarrow> dict_block_directory result" where
  "dict_block_directory_open section_bytes =
     and_then (framer_read (source section_bytes)) (\<lambda>(sec, src).
     if sec_type sec \<noteq> section_type_id kDictBlockDirectory then InvalidArgument
     else dbd_decode_payload (sec_payload sec))"

definition dict_block_directory_get :: "dict_block_directory \<Rightarrow> u32 \<Rightarrow> block_ref result" where
  "dict_block_directory_get refs ordinal =
     (if unat ordinal \<ge> length refs then NotFound else Inr (refs ! unat ordinal))"

definition n_blocks :: "dict_block_directory \<Rightarrow> u32" where
  "n_blocks refs = of_nat (length refs)"

subsection \<open>Round trip\<close>

definition block_ref_bytes :: "block_ref \<Rightarrow> byte list" where
  "block_ref_bytes ref =
     encode_varint64 (br_offset ref) @ encode_varint64 (br_length ref) @
     encode_varint32 (br_n_entries ref) @ br_flags ref # le_bytes 4 (br_checksum ref) @
     (if br_flags ref AND block_ref_kZstd \<noteq> 0 then encode_varint64 (br_uncomp_len ref) else [])"

text \<open>A reference the directory can represent: \<open>uncomp_len\<close> is stored for zstd blocks only.\<close>

definition block_ref_ok :: "block_ref \<Rightarrow> bool" where
  "block_ref_ok ref = (br_flags ref AND block_ref_kZstd = 0 \<longrightarrow> br_uncomp_len ref = 0)"

lemma encode_ref_bytes [put_simps]: "encode_ref ref payload = payload @ block_ref_bytes ref"
  by (simp add: encode_ref_def put_simps block_ref_bytes_def Let_def)

lemma block_ref_bytes_min: "kMinRefBytes \<le> length (block_ref_bytes ref)"
  using varint_nonempty_lengths(1) [of "br_offset ref"] varint_nonempty_lengths(1) [of "br_length ref"]
    varint_nonempty_lengths(2) [of "br_n_entries ref"]
  by (simp add: kMinRefBytes_def block_ref_bytes_def)

interpretation dict_dir: ref_codec decode_ref encode_ref block_ref_bytes block_ref_ok kMinRefBytes
proof unfold_locales
  fix src assume "wf_source src"
  then show "cursor_ok src (decode_ref src)"
    unfolding decode_ref_def Let_def by (auto intro!: cursor_intros)
next
  fix ref src assume ok: "block_ref_ok ref" and "prefix (block_ref_bytes ref) (rest src)"
  then obtain r where r: "rest src = block_ref_bytes ref @ r" by (auto simp: prefix_def)
  show "decode_ref src = Inr (ref, advance (length (block_ref_bytes ref)) src)"
    using ok by (cases ref) (simp add: decode_ref_def block_ref_bytes_def block_ref_ok_def Let_def
        r codec_simps)
qed (simp_all add: put_simps block_ref_bytes_min, simp add: kMinRefBytes_def)

lemma dict_block_directory_finish_bytes:
  "dict_block_directory_finish refs sink = sink @ frame_bytes 3 (dict_dir.refs_payload refs)"
  by (simp add: dict_block_directory_finish_def dict_dir.put_refs framer_write_bytes)

lemma dict_block_directory_roundtrip:
  assumes "length refs < 2 ^ 32" and "list_all block_ref_ok refs"
    and "length (dict_dir.refs_payload refs) < 2 ^ 64"
  shows "dict_block_directory_open (dict_block_directory_finish refs []) = Inr refs"
  using dict_dir.get_refs [OF assms(1,2)] assms(3)
  by (simp add: dict_block_directory_open_def dict_block_directory_finish_bytes
      framer_read_source dbd_decode_payload_def)

lemma dbd_decode_payload_safe: "dbd_decode_payload payload \<noteq> Inl OutOfBounds"
  by (auto simp: dbd_decode_payload_def Let_def and_then_eq_Inl split: if_splits
      dest: get_varint32_error dict_dir.get_n_safe [THEN notE, rotated]
        varint32.wf_after [OF wf_source_source])

lemma dict_block_directory_open_safe: "dict_block_directory_open s \<noteq> Inl OutOfBounds"
  using dbd_decode_payload_safe framer.safe [OF wf_source_source, of s]
  by (auto simp: dict_block_directory_open_def and_then_eq_Inl split: if_splits)

subsection \<open>Correctness\<close>

text \<open>C33: the directory that was written, once reopened, gives for every ordinal the reference
  added at that position, and reports every other ordinal as not found.\<close>

theorem dict_block_directory_lookup:
  assumes "length refs < 2 ^ 32" and "list_all block_ref_ok refs"
    and "length (dict_block_directory_finish refs []) < 2 ^ 64"
  shows "and_then (dict_block_directory_open (dict_block_directory_finish refs []))
      (\<lambda>d. dict_block_directory_get d ordinal) =
    (if unat ordinal < length refs then Inr (refs ! unat ordinal) else NotFound)"
proof -
  have "length (dict_dir.refs_payload refs) < 2 ^ 64"
    using assms(3) by (simp add: dict_block_directory_finish_bytes length_frame_bytes)
  from dict_block_directory_roundtrip [OF assms(1,2) this] show ?thesis
    by (simp add: dict_block_directory_get_def)
qed

lemma length_block_ref_bytes: "length (block_ref_bytes ref) \<le> 40"
  using varint64_len_le_10 [of "br_offset ref"] varint64_len_le_10 [of "br_length ref"]
    varint64_len_le_10 [of "br_uncomp_len ref"] varint32_len_le_5 [of "br_n_entries ref"]
  by (simp add: block_ref_bytes_def)

definition sample_block_refs :: "block_ref list" where
  "sample_block_refs =
     [\<lparr>br_offset = 21, br_length = 300, br_n_entries = 4, br_flags = 0, br_checksum = 99, br_uncomp_len = 0\<rparr>,
      \<lparr>br_offset = 321, br_length = 80, br_n_entries = 2, br_flags = 1, br_checksum = 5, br_uncomp_len = 200\<rparr>]"

theorem dict_block_directory_lookup_witness:
  "and_then (dict_block_directory_open (dict_block_directory_finish sample_block_refs []))
     (\<lambda>d. dict_block_directory_get d 1) = Inr (sample_block_refs ! 1)"
proof -
  have "length (dict_dir.refs_payload sample_block_refs) \<le> 100"
    using length_block_ref_bytes [of "sample_block_refs ! 0"]
      length_block_ref_bytes [of "sample_block_refs ! 1"] varint32_len_le_5 [of 2]
    by (simp add: dict_dir.refs_payload_def sample_block_refs_def)
  then have "length (dict_block_directory_finish sample_block_refs []) < 2 ^ 64"
    using length_frame_le [of 3 "dict_dir.refs_payload sample_block_refs"]
    by (simp add: dict_block_directory_finish_bytes)
  from dict_block_directory_lookup [OF _ _ this, of 1] show ?thesis
    by (simp add: sample_block_refs_def block_ref_ok_def block_ref_kZstd_def)
qed

end
