(* ===== verification/Logical_Index_Writer.thy ===== *)
theory Logical_Index_Writer
  imports Spillable_Byte_Buffer Chunks Dict_Block Frq_Prelude Prx_Pod Norms_Pod Bsbf Per_Index_Meta
    Sampled_Term_Index Dict_Block_Directory
begin

text \<open>
  Building one logical index: \<open>src/core/src/writer/logical_index_writer.cpp\<close>. Terms arrive in order with
  their postings; each becomes a dict entry, inline or pointing into the posting region that is
  streamed to the container, and entries are cut into DICT blocks that are compressed and collected in
  the DICT buffer. Freeing a term's arrays once they are encoded has no counterpart.
\<close>

subsection \<open>Constants and inputs\<close>

definition kBsbfFpp :: double where "kBsbfFpp = Num (1 / 100)"

definition kAutoZstd :: int where "kAutoZstd = - 1"

definition kRawFrqRegion :: int where "kRawFrqRegion = 0"

definition kPreludeGroupSize :: u32 where "kPreludeGroupSize = 64"

definition kDictBlockZstdLevel :: int where "kDictBlockZstdLevel = 3"

definition kDefaultTargetDictBlockBytes :: u32 where "kDefaultTargetDictBlockBytes = 64 * 1024"

definition kDefaultAnchorInterval :: u32 where "kDefaultAnchorInterval = 16"

text \<open>\<open>pos_pump\<close>, when it is set, is the sequence of positions it has still to yield.\<close>

record term_postings =
  tp_term :: term_bytes
  tp_docids :: "u32 list"
  tp_freqs :: "u32 list"
  tp_positions_flat :: "u32 list"
  tp_pos_pump :: "u32 list option"
  tp_pos_total :: u64

text \<open>\<open>term_source\<close>, when it is set, is what \<open>for_each_term_sorted\<close> does: the terms it delivers, in order,
  and the status it returns.\<close>

record snii_index_input =
  in_index_id :: u64
  in_index_suffix :: "byte list"
  in_config :: index_config
  in_doc_count :: u32
  in_encoded_norms :: "byte list"
  in_terms :: "term_postings list"
  in_term_source :: "(term_postings list \<times> unit result) option"
  in_target_dict_block_bytes :: u32
  in_mem_reporter :: "memory_reporter option"

subsection \<open>Encoding a window\<close>

definition EncodeRegions ::
  "host \<Rightarrow> u32 list \<Rightarrow> u32 list \<Rightarrow> u64 \<Rightarrow> bool \<Rightarrow>
   (byte list \<times> frq_region_meta \<times> byte list \<times> frq_region_meta) result" where
  "EncodeRegions h docids freqs win_base has_freq =
     and_then (build_dd_region (host_zstd h) docids win_base kRawFrqRegion [] default_region_meta) (\<lambda>(dd, dd_meta).
     if \<not> has_freq then Inr (dd, dd_meta, [], default_region_meta)
     else
       and_then (build_freq_region (host_zstd h) freqs kRawFrqRegion [] default_region_meta) (\<lambda>(freq, freq_meta).
       Inr (dd, dd_meta, freq, freq_meta)))"

text \<open>The scratch sinks are cleared before each use, so the variant on them computes the same values.\<close>

definition EncodeRegionsInto ::
  "host \<Rightarrow> u32 list \<Rightarrow> u32 list \<Rightarrow> u64 \<Rightarrow> bool \<Rightarrow>
   (byte list \<times> frq_region_meta \<times> byte list \<times> frq_region_meta) result" where
  "EncodeRegionsInto h docids freqs win_base has_freq =
     and_then (build_dd_region (host_zstd h) docids win_base kRawFrqRegion [] default_region_meta) (\<lambda>(dd, dd_meta).
     if has_freq then
       and_then (build_freq_region (host_zstd h) freqs kRawFrqRegion [] default_region_meta) (\<lambda>(freq, freq_meta).
       Inr (dd, dd_meta, freq, freq_meta))
     else Inr (dd, dd_meta, [], default_region_meta))"

definition MakePrxWindow :: "host \<Rightarrow> u32 list \<Rightarrow> u32 list \<Rightarrow> byte list result" where
  "MakePrxWindow h positions_flat freqs = build_prx_window_flat (host_zstd h) positions_flat freqs kAutoZstd []"

definition MaxOf :: "u32 list \<Rightarrow> u32" where
  "MaxOf v = foldl (\<lambda>m x. if x > m then x else m) 0 v"

definition SumOf :: "u32 list \<Rightarrow> u64" where
  "SumOf v = foldl (\<lambda>s x. s + ucast x) 0 v"

definition WindowMaxNorm :: "byte list \<Rightarrow> u32 list \<Rightarrow> byte" where
  "WindowMaxNorm norms docs =
     (if norms = [] \<or> docs = [] then 0
      else
        let best = foldl (\<lambda>best docid.
              if unat docid \<ge> length norms then best
              else if norms ! unat docid < best then norms ! unat docid else best) 0xFF docs
        in if best = 0xFF then 0 else best)"

definition AdaptiveWindowDocs :: "u32 \<Rightarrow> nat" where
  "AdaptiveWindowDocs df = (if unat df \<ge> kAdaptiveWindowDfThreshold then kAdaptiveWindowDocs else kFrqBaseUnit)"

definition BuildPrelude :: "window_meta list \<Rightarrow> bool \<Rightarrow> bool \<Rightarrow> byte list result" where
  "BuildPrelude windows has_freq has_prx =
     build_frq_prelude \<lparr>fpc_has_freq = has_freq, fpc_has_prx = has_prx, fpc_group_size = kPreludeGroupSize,
       fpc_windows = windows\<rparr> []"

record windowed_posting =
  wdp_dd_block :: "byte list"
  wdp_freq_block :: "byte list"
  wdp_prx_total_len :: u64
  wdp_windows :: "window_meta list"

definition LayoutWindowRegions ::
  "frq_region_meta \<Rightarrow> byte list \<Rightarrow> frq_region_meta \<Rightarrow> byte list \<Rightarrow> bool \<Rightarrow> byte list \<times> byte list \<Rightarrow> window_meta \<Rightarrow>
   (byte list \<times> byte list) \<times> window_meta" where
  "LayoutWindowRegions dd_meta dd_bytes freq_meta freq_bytes has_freq = (\<lambda>(dd_block, freq_block) m.
     let m = m\<lparr>wm_dd_zstd := frm_zstd dd_meta, wm_dd_off := of_nat (length dd_block),
               wm_dd_disk_len := frm_disk_len dd_meta, wm_dd_uncomp_len := frm_uncomp_len dd_meta,
               wm_crc_dd := frm_crc dd_meta\<rparr>;
         dd_block = dd_block @ dd_bytes
     in if \<not> has_freq then ((dd_block, freq_block), m)
        else ((dd_block, freq_block @ freq_bytes),
              m\<lparr>wm_freq_zstd := frm_zstd freq_meta, wm_freq_off := of_nat (length freq_block),
                wm_freq_disk_len := frm_disk_len freq_meta, wm_freq_uncomp_len := frm_uncomp_len freq_meta,
                wm_crc_freq := frm_crc freq_meta\<rparr>))"

text \<open>The positions of the next window: a part of the flat buffer, or what the pump yields.\<close>

datatype pos_source = Flat_Positions "u32 list" | Pumped "u32 list"

fun next_positions :: "pos_source \<Rightarrow> nat \<Rightarrow> nat \<Rightarrow> (u32 list \<times> pos_source) result" where
  "next_positions (Flat_Positions ps) pos_off win_pos =
     and_then (subslice ps pos_off win_pos) (\<lambda>span. Inr (span, Flat_Positions ps))"
| "next_positions (Pumped ps) pos_off win_pos =
     (if win_pos \<noteq> 0 then and_then (subslice ps 0 win_pos) (\<lambda>span. Inr (span, Pumped (drop win_pos ps)))
      else Inr ([], Pumped ps))"

text \<open>Pass 1 over the windows, each the pair of its documents and frequencies: the positions go to the
  container, the windows get everything but their region locators.\<close>

fun prx_pass ::
  "host \<Rightarrow> bool \<Rightarrow> byte list \<Rightarrow> (u32 list \<times> u32 list) list \<Rightarrow> pos_source \<Rightarrow> nat \<Rightarrow> u64 \<Rightarrow> u64 \<Rightarrow> file_out \<Rightarrow>
   (window_meta list \<times> u64 \<times> file_out) result" where
  "prx_pass h has_prx norms [] ps pos_off win_base prx_total out = Inr ([], prx_total, out)"
| "prx_pass h has_prx norms ((docs, freqs) # wins) ps pos_off win_base prx_total out =
     (let m = default_window_meta\<lparr>wm_last_docid := last docs, wm_win_base := win_base,
            wm_doc_count := of_nat (length docs), wm_max_freq := MaxOf freqs, wm_max_norm := WindowMaxNorm norms docs\<rparr>;
          win_pos = sum_list (map unat freqs)
      in and_then
        (if has_prx then
           and_then (next_positions ps pos_off win_pos) (\<lambda>(pos_span, ps).
           and_then (build_prx_window_flat (host_zstd h) pos_span freqs kAutoZstd []) (\<lambda>prx.
           and_then (fw_append h prx out) (\<lambda>out.
           Inr (m\<lparr>wm_prx_off := prx_total, wm_prx_len := of_nat (length prx)\<rparr>, ps,
                prx_total + of_nat (length prx), out))))
         else Inr (m, ps, prx_total, out)) (\<lambda>(m, ps, prx_total, out).
      and_then (prx_pass h has_prx norms wins ps (pos_off + win_pos) (ucast (wm_last_docid m)) prx_total out)
        (\<lambda>(ms, prx_total, out). Inr (m # ms, prx_total, out))))"

text \<open>Pass 2: the document and frequency regions.\<close>

fun region_pass ::
  "host \<Rightarrow> bool \<Rightarrow> (u32 list \<times> u32 list) list \<Rightarrow> window_meta list \<Rightarrow> u64 \<Rightarrow> byte list \<times> byte list \<Rightarrow>
   (window_meta list \<times> byte list \<times> byte list) result" where
  "region_pass h has_freq ((docs, freqs) # wins) (m # ms) win_base blocks =
     and_then (EncodeRegionsInto h docs freqs win_base has_freq) (\<lambda>(dd, dd_meta, freq, freq_meta).
     let (blocks, m) = LayoutWindowRegions dd_meta dd freq_meta freq has_freq blocks m in
     and_then (region_pass h has_freq wins ms (ucast (wm_last_docid m)) blocks) (\<lambda>(ms, blocks).
     Inr (m # ms, blocks)))"
| "region_pass h has_freq wins ms win_base blocks = Inr (ms, blocks)"

definition BuildWindowedPosting ::
  "host \<Rightarrow> term_postings \<Rightarrow> bool \<Rightarrow> bool \<Rightarrow> byte list \<Rightarrow> file_out \<Rightarrow> (windowed_posting \<times> file_out) result" where
  "BuildWindowedPosting h tp has_freq has_prx norms posting_out =
     (let unit = AdaptiveWindowDocs (of_nat (length (tp_docids tp)));
          wins = zip (chunks unit (tp_docids tp)) (chunks unit (tp_freqs tp));
          ps = (case tp_pos_pump tp of None \<Rightarrow> Flat_Positions (tp_positions_flat tp) | Some s \<Rightarrow> Pumped s)
      in and_then (prx_pass h has_prx norms wins ps 0 0 0 posting_out) (\<lambda>(windows, prx_total, posting_out).
         and_then (region_pass h has_freq wins windows 0 ([], [])) (\<lambda>(windows, dd_block, freq_block).
         Inr (\<lparr>wdp_dd_block = dd_block, wdp_freq_block = freq_block, wdp_prx_total_len = prx_total,
               wdp_windows = windows\<rparr>, posting_out))))"

subsection \<open>LogicalIndexWriter\<close>

record block_record =
  rec_rel_offset :: u64
  rec_length :: u64
  rec_n_entries :: u32
  rec_checksum :: u32
  rec_flags :: byte
  rec_uncomp_len :: u64
  rec_first_term :: term_bytes

record logical_index_writer =
  lw_index_id :: u64
  lw_index_suffix :: "byte list"
  lw_tier :: index_tier
  lw_has_prx :: bool
  lw_has_freq :: bool
  lw_has_norms :: bool
  lw_doc_count :: u32
  lw_terms :: "term_postings list"
  lw_term_source :: "(term_postings list \<times> unit result) option"
  lw_term_count :: u64
  lw_encoded_norms :: "byte list"
  lw_target_dict_block_bytes :: u32
  lw_dict_buf :: spillable_byte_buffer
  lw_posting_out :: file_out
  lw_posting_off0 :: u64
  lw_norms_section :: "byte list"
  lw_blocks :: "block_record list"
  lw_term_hashes :: "u64 list"
  lw_stats :: stats_block
  lw_bsbf_bytes :: "byte list"

definition logical_index_writer_new :: "snii_index_input \<Rightarrow> logical_index_writer" where
  "logical_index_writer_new inp =
     \<lparr>lw_index_id = in_index_id inp, lw_index_suffix = in_index_suffix inp, lw_tier = tier_of (in_config inp),
      lw_has_prx = has_positions (in_config inp), lw_has_freq = (tier_of (in_config inp) \<ge> kT2),
      lw_has_norms = has_scoring (in_config inp), lw_doc_count = in_doc_count inp, lw_terms = in_terms inp,
      lw_term_source = in_term_source inp, lw_term_count = 0, lw_encoded_norms = in_encoded_norms inp,
      lw_target_dict_block_bytes =
        (if in_target_dict_block_bytes inp \<noteq> 0 then in_target_dict_block_bytes inp else kDefaultTargetDictBlockBytes),
      lw_dict_buf = sbb_new (- 1) (in_mem_reporter inp), lw_posting_out = [], lw_posting_off0 = 0,
      lw_norms_section = [], lw_blocks = [], lw_term_hashes = [], lw_stats = no_stats, lw_bsbf_bytes = []\<rparr>"

definition posting_size :: "logical_index_writer \<Rightarrow> u64" where
  "posting_size w = fw_bytes_written (lw_posting_out w) - lw_posting_off0 w"

definition posting_append :: "host \<Rightarrow> byte list \<Rightarrow> logical_index_writer \<Rightarrow> logical_index_writer result" where
  "posting_append h data w = and_then (fw_append h data (lw_posting_out w)) (\<lambda>out. Inr (w\<lparr>lw_posting_out := out\<rparr>))"

fun strictly_ascending :: "u32 list \<Rightarrow> bool" where
  "strictly_ascending (a # b # ds) = (\<not> b \<le> a \<and> strictly_ascending (b # ds))"
| "strictly_ascending ds = True"

definition validate_term :: "logical_index_writer \<Rightarrow> term_postings \<Rightarrow> unit result" where
  "validate_term w tp =
     (if length (tp_freqs tp) \<noteq> length (tp_docids tp) then InvalidArgument
      else if lw_has_prx w \<and>
          SumOf (tp_freqs tp) \<noteq> (if tp_pos_pump tp \<noteq> None then tp_pos_total tp else of_nat (length (tp_positions_flat tp)))
      then InvalidArgument
      else if \<not> strictly_ascending (tp_docids tp) then InvalidArgument
      else Inr ())"

definition build_windowed_entry ::
  "host \<Rightarrow> term_postings \<Rightarrow> u64 \<Rightarrow> u64 \<Rightarrow> dict_entry \<Rightarrow> logical_index_writer \<Rightarrow> (dict_entry \<times> logical_index_writer) result" where
  "build_windowed_entry h tp frq_base prx_base e w =
     (let prx_off = posting_size w in
      and_then (BuildWindowedPosting h tp (lw_has_freq w) (lw_has_prx w) (lw_encoded_norms w) (lw_posting_out w))
        (\<lambda>(wp, out).
      let w = w\<lparr>lw_posting_out := out\<rparr> in
      and_then (BuildPrelude (wdp_windows wp) (lw_has_freq w) (lw_has_prx w)) (\<lambda>prelude.
      let e = e\<lparr>de_kind := kPodRef, de_enc := kWindowed, de_has_sb := True,
                de_prelude_len := of_nat (length prelude),
                de_frq_docs_len := of_nat (length prelude) + of_nat (length (wdp_dd_block wp))\<rparr>;
          frq_off = posting_size w in
      and_then (posting_append h prelude w) (\<lambda>w.
      and_then (posting_append h (wdp_dd_block wp) w) (\<lambda>w.
      and_then (posting_append h (wdp_freq_block wp) w) (\<lambda>w.
      let e = e\<lparr>de_frq_off_delta := frq_off - frq_base, de_frq_len := posting_size w - frq_off\<rparr>;
          e = (if lw_has_prx w then e\<lparr>de_prx_off_delta := prx_off - prx_base, de_prx_len := wdp_prx_total_len wp\<rparr> else e)
      in Inr (e, w)))))))"

definition build_slim_entry ::
  "host \<Rightarrow> term_postings \<Rightarrow> u64 \<Rightarrow> u64 \<Rightarrow> dict_entry \<Rightarrow> logical_index_writer \<Rightarrow> (dict_entry \<times> logical_index_writer) result" where
  "build_slim_entry h tp frq_base prx_base e w =
     and_then (EncodeRegions h (tp_docids tp) (tp_freqs tp) 0 (lw_has_freq w)) (\<lambda>(dd_bytes, dd_meta, freq_bytes, freq_meta).
     let frq_win = dd_bytes @ freq_bytes in
     and_then (if lw_has_prx w then MakePrxWindow h (tp_positions_flat tp) (tp_freqs tp) else Inr []) (\<lambda>prx_win.
     let e = e\<lparr>de_enc := kSlim, de_dd_meta := dd_meta, de_freq_meta := freq_meta\<rparr> in
     if length frq_win \<le> kDefaultInlineThreshold then
       let e = e\<lparr>de_kind := kInline, de_inline_dd_disk_len := frm_disk_len dd_meta, de_frq_bytes := frq_win\<rparr>
       in Inr (if lw_has_prx w then e\<lparr>de_prx_bytes := prx_win\<rparr> else e, w)
     else
       let e = e\<lparr>de_kind := kPodRef, de_frq_docs_len := frm_disk_len dd_meta\<rparr> in
       and_then
         (if lw_has_prx w then
            let prx_off = posting_size w in
            and_then (posting_append h prx_win w) (\<lambda>w.
            Inr (e\<lparr>de_prx_off_delta := prx_off - prx_base, de_prx_len := posting_size w - prx_off\<rparr>, w))
          else Inr (e, w)) (\<lambda>(e, w).
       let frq_off = posting_size w in
       and_then (posting_append h frq_win w) (\<lambda>w.
       Inr (e\<lparr>de_frq_off_delta := frq_off - frq_base, de_frq_len := posting_size w - frq_off\<rparr>, w)))))"

definition build_entry ::
  "host \<Rightarrow> term_postings \<Rightarrow> u64 \<Rightarrow> u64 \<Rightarrow> logical_index_writer \<Rightarrow> (dict_entry \<times> logical_index_writer) result" where
  "build_entry h tp frq_base prx_base w =
     (let e = default_dict_entry\<lparr>de_term := tp_term tp, de_df := of_nat (length (tp_docids tp)),
            de_ttf_delta := SumOf (tp_freqs tp), de_max_freq := ucast (MaxOf (tp_freqs tp))\<rparr>
      in if unat (de_df e) \<ge> kSlimDfThreshold then build_windowed_entry h tp frq_base prx_base e w
         else build_slim_entry h tp frq_base prx_base e w)"

definition flush_block :: "host \<Rightarrow> dict_block_builder \<Rightarrow> term_bytes \<Rightarrow> logical_index_writer \<Rightarrow> logical_index_writer result" where
  "flush_block h block first_term w =
     (let plain = dict_block_finish block [];
          rc = \<lparr>rec_rel_offset = sbb_size (lw_dict_buf w), rec_length = 0, rec_n_entries = dbb_n_entries block,
                rec_checksum = crc32c plain, rec_flags = 0, rec_uncomp_len = 0, rec_first_term = first_term\<rparr>;
          (rc, bytes) =
            (case zstd_compress (host_zstd h) plain kDictBlockZstdLevel of
               Inr compd \<Rightarrow>
                 if length compd < length plain
                 then (rc\<lparr>rec_flags := block_ref_kZstd, rec_uncomp_len := of_nat (length plain),
                          rec_length := of_nat (length compd)\<rparr>, compd)
                 else (rc\<lparr>rec_flags := 0, rec_uncomp_len := 0, rec_length := of_nat (length plain)\<rparr>, plain)
             | Inl e \<Rightarrow> (rc\<lparr>rec_flags := 0, rec_uncomp_len := 0, rec_length := of_nat (length plain)\<rparr>, plain))
      in and_then (sbb_append_move h bytes (lw_dict_buf w)) (\<lambda>buf.
         Inr (w\<lparr>lw_dict_buf := buf, lw_blocks := lw_blocks w @ [rc]\<rparr>)))"

record block_state =
  bst_block :: "dict_block_builder option"
  bst_first_term :: term_bytes
  bst_frq_base :: u64
  bst_prx_base :: u64

definition process_term ::
  "host \<Rightarrow> term_postings \<Rightarrow> block_state \<times> logical_index_writer \<Rightarrow> (block_state \<times> logical_index_writer) result" where
  "process_term h tp = (\<lambda>(st, w).
     and_then (validate_term w tp) (\<lambda>_.
     let w = w\<lparr>lw_term_hashes := lw_term_hashes w @ [bsbf_hash (host_xxh64 h) (tp_term tp)],
               lw_term_count := lw_term_count w + 1,
               lw_stats := (lw_stats w)\<lparr>sb_sum_total_term_freq := sb_sum_total_term_freq (lw_stats w) + SumOf (tp_freqs tp)\<rparr>\<rparr>;
         st = (if bst_block st = None then
                 let base = posting_size w
                 in \<lparr>bst_block = Some (dict_block_builder (lw_tier w) (lw_has_prx w) base base kDefaultAnchorInterval),
                     bst_first_term = tp_term tp, bst_frq_base = base, bst_prx_base = base\<rparr>
               else st)
     in and_then (build_entry h tp (bst_frq_base st) (bst_prx_base st) w) (\<lambda>(e, w).
        let block = add_entry e (the (bst_block st)) in
        if estimated_bytes block \<ge> unat (lw_target_dict_block_bytes w) then
          and_then (flush_block h block (bst_first_term st) w) (\<lambda>w.
          Inr (st\<lparr>bst_block := None\<rparr>, w))
        else Inr (st\<lparr>bst_block := Some block\<rparr>, w))))"

fun process_terms ::
  "host \<Rightarrow> term_postings list \<Rightarrow> block_state \<times> logical_index_writer \<Rightarrow> (block_state \<times> logical_index_writer) result" where
  "process_terms h [] sw = Inr sw"
| "process_terms h (tp # tps) sw = and_then (process_term h tp sw) (\<lambda>sw. process_terms h tps sw)"

text \<open>With a streaming source, the status of the source is looked at before that of the terms.\<close>

definition build_blocks :: "host \<Rightarrow> logical_index_writer \<Rightarrow> logical_index_writer result" where
  "build_blocks h w =
     (let st = \<lparr>bst_block = None, bst_first_term = [], bst_frq_base = 0, bst_prx_base = 0\<rparr> in
      and_then
        (case lw_term_source w of
           Some (tps, status) \<Rightarrow> and_then status (\<lambda>_. process_terms h tps (st, w))
         | None \<Rightarrow> process_terms h (lw_terms w) (st, w)) (\<lambda>(st, w).
      case bst_block st of
        Some block \<Rightarrow> flush_block h block (bst_first_term st) w
      | None \<Rightarrow> Inr w))"

definition build :: "host \<Rightarrow> file_out \<Rightarrow> logical_index_writer \<Rightarrow> (logical_index_writer \<times> file_out) result" where
  "build h posting_out w =
     (if lw_has_norms w \<and> length (lw_encoded_norms w) \<noteq> unat (lw_doc_count w) then InvalidArgument
      else
        let w = w\<lparr>lw_posting_out := posting_out, lw_posting_off0 := fw_bytes_written posting_out\<rparr> in
        and_then (build_blocks h w) (\<lambda>w.
        and_then (sbb_seal h (lw_dict_buf w)) (\<lambda>buf.
        let w = w\<lparr>lw_dict_buf := buf,
                  lw_stats := (lw_stats w)\<lparr>sb_doc_count := ucast (lw_doc_count w), sb_indexed_doc_count := ucast (lw_doc_count w),
                    sb_term_count := lw_term_count w, sb_null_count := 0\<rparr>,
                  lw_norms_section :=
                    (if lw_has_norms w then norms_finish (fold norms_add (lw_encoded_norms w) []) [] else lw_norms_section w)\<rparr>
        in and_then
          (if lw_term_hashes w \<noteq> [] then
             and_then (bsbf_create (host_bsbf_bits h) (of_nat (length (lw_term_hashes w))) kBsbfFpp) (\<lambda>bf.
             bsbf_serialize (fold (bsbf_insert (host_avx2 h)) (lw_term_hashes w) bf) [])
           else Inr []) (\<lambda>bsbf.
        let w = w\<lparr>lw_bsbf_bytes := bsbf, lw_term_hashes := []\<rparr>
        in Inr (w, lw_posting_out w)))))"

definition block_ref_of :: "u64 \<Rightarrow> block_record \<Rightarrow> block_ref" where
  "block_ref_of dict_region_offset b =
     \<lparr>br_offset = dict_region_offset + rec_rel_offset b, br_length = rec_length b, br_n_entries = rec_n_entries b,
      br_flags = rec_flags b, br_checksum = rec_checksum b, br_uncomp_len = rec_uncomp_len b\<rparr>"

definition finish_meta :: "section_refs \<Rightarrow> u64 \<Rightarrow> logical_index_writer \<Rightarrow> byte list" where
  "finish_meta abs_refs dict_region_offset w =
     (let sti = fold add_block_first_term (map rec_first_term (lw_blocks w)) [];
          sti_sink = sampled_finish sti [];
          dir = map (block_ref_of dict_region_offset) (lw_blocks w);
          dir_sink = dict_block_directory_finish dir [];
          flags = (if lw_bsbf_bytes w = [] then 0 else meta_kHasBsbf);
          flags = (if lw_has_prx w then flags OR meta_kHasPositions else flags);
          builder = per_index_meta_builder_new (lw_index_id w) (lw_index_suffix w) flags;
          builder = set_stats (lw_stats w) builder;
          builder = set_sampled_term_index sti_sink builder;
          builder = set_dict_block_directory dir_sink builder;
          builder = set_section_refs abs_refs builder
      in per_index_meta_finish builder [])"

end
