(* ===== verification/Dict_Block_Correct.thy ===== *)
theory Dict_Block_Correct
  imports Dict_Block Chunks
begin

text \<open>
  What the DICT block promises: a block built from entries in term order opens, enumerates to
  the same entries, and looks a term up exactly. The block is described by its segments, the
  runs of entries between two anchors.
\<close>

subsection \<open>Segments\<close>

fun chain_bytes :: "index_tier \<Rightarrow> term_bytes \<Rightarrow> dict_entry list \<Rightarrow> byte list" where
  "chain_bytes tier prev [] = []"
| "chain_bytes tier prev (e # es) = entry_bytes prev tier e @ chain_bytes tier (de_term e) es"

fun seg_offsets :: "index_tier \<Rightarrow> nat \<Rightarrow> dict_entry list list \<Rightarrow> nat list" where
  "seg_offsets tier n [] = []"
| "seg_offsets tier n (s # ss) = n # seg_offsets tier (n + length (chain_bytes tier [] s)) ss"

abbreviation segs_bytes :: "index_tier \<Rightarrow> dict_entry list list \<Rightarrow> byte list" where
  "segs_bytes tier ss \<equiv> concat (map (chain_bytes tier []) ss)"

lemma length_seg_offsets [simp]: "length (seg_offsets tier n ss) = length ss"
  by (induction ss arbitrary: n) auto

lemma seg_offsets_nth:
  "i < length ss \<Longrightarrow> seg_offsets tier n ss ! i = n + length (segs_bytes tier (take i ss))"
proof (induction ss arbitrary: n i)
  case (Cons s ss)
  then show ?case by (cases i) auto
qed simp

subsection \<open>What the builder writes\<close>

lemma encode_entries_run:
  "(\<And>j. j < length xs \<Longrightarrow> \<not> is_anchor b (i + of_nat j)) \<Longrightarrow>
   encode_entries b i prev (xs @ ys) body offs =
     encode_entries b (i + of_nat (length xs)) (last (prev # map de_term xs)) ys
       (body @ chain_bytes (dbb_tier b) prev xs) offs"
proof (induction xs arbitrary: i prev body)
  case (Cons x xs)
  have "\<not> is_anchor b (i + 1 + of_nat j)" if "j < length xs" for j
    using Cons.prems [of "Suc j"] that by (simp add: ac_simps)
  note IH = Cons.IH [OF this]
  show ?case using Cons.prems [of 0] IH by (simp add: Let_def put_simps ac_simps)
qed simp

lemma is_anchor_unat: "is_anchor b i = (unat i mod unat (dbb_anchor_interval b) = 0)"
  by (simp add: is_anchor_def word_unat_eq_iff unat_mod)

lemma encode_entries_chunk:
  assumes k: "k = unat (dbb_anchor_interval b)" "0 < k"
    and i: "unat i mod k = 0" "unat i + length es < 2 ^ 32" and ne: "es \<noteq> []"
  shows "encode_entries b i prev es body offs =
     encode_entries b (i + of_nat (length (take k es))) (last (map de_term (take k es))) (drop k es)
       (body @ chain_bytes (dbb_tier b) [] (take k es)) (offs @ [of_nat (length body)])"
proof -
  obtain e xs where xs: "take k es = e # xs" using ne k by (cases "take k es") auto
  then have es: "es = e # xs @ drop k es" by (metis append_take_drop_id append_Cons)
  have lx: "Suc (length xs) \<le> k" using arg_cong [OF xs, of length] by simp
  have a: "is_anchor b i" using i k by (simp add: is_anchor_unat)
  have na: "\<not> is_anchor b (i + 1 + of_nat j)" if "j < length xs" for j
  proof -
    have "Suc j < length es" using that es by (metis Suc_mono length_Cons length_append trans_less_add1)
    then have s: "unat (of_nat (Suc j) :: u32) = Suc j" using i by (intro unat_of_nat_u32) simp
    then have "unat (i + of_nat (Suc j)) = unat i + Suc j"
      using \<open>Suc j < length es\<close> i by (subst unat_add_lem [THEN iffD1]) simp_all
    moreover have "(unat i + Suc j) mod k = Suc j"
      using i(1) that lx by (subst mod_add_left_eq [symmetric]) simp
    ultimately show ?thesis using k by (simp add: is_anchor_unat ac_simps)
  qed
  have "encode_entries b i prev es body offs = encode_entries b i prev (e # xs @ drop k es) body offs"
    using es by simp
  also have "\<dots> = encode_entries b (i + 1) (de_term e) (xs @ drop k es)
      (body @ entry_bytes [] (dbb_tier b) e) (offs @ [of_nat (length body)])"
    using a by (simp add: put_simps Let_def)
  also have "\<dots> = encode_entries b (i + 1 + of_nat (length xs)) (last (de_term e # map de_term xs))
      (drop k es) (body @ chain_bytes (dbb_tier b) [] (e # xs)) (offs @ [of_nat (length body)])"
    by (subst encode_entries_run [OF na]) simp_all
  finally show ?thesis by (simp add: xs ac_simps)
qed

lemma encode_entries_chunks:
  assumes k: "k = unat (dbb_anchor_interval b)" "0 < k"
    and "es \<noteq> [] \<Longrightarrow> unat i mod k = 0" and "unat i + length es < 2 ^ 32"
  shows "encode_entries b i prev es body offs =
     (body @ segs_bytes (dbb_tier b) (chunks k es),
      offs @ map of_nat (seg_offsets (dbb_tier b) (length body) (chunks k es)))"
  using assms(3,4)
proof (induction "length es" arbitrary: es i prev body offs rule: less_induct)
  case less
  show ?case
  proof (cases "es = []")
    case False
    let ?n = "length (take k es)"
    have n: "unat (i + of_nat ?n) = unat i + ?n"
      using less.prems(2) by (subst unat_add_lem [THEN iffD1]) (simp_all add: min_def)
    have "unat (i + of_nat ?n) mod k = 0" if "drop k es \<noteq> []"
      using that n less.prems(1) [OF False] by (simp add: mod_add_self2)
    with less.hyps [of "drop k es" "i + of_nat ?n"] n False k less.prems(2)
    show ?thesis
      by (subst encode_entries_chunk [OF k less.prems(1) [OF False] less.prems(2) False])
        (simp add: chunks_Cons add.assoc)
  qed simp
qed

definition block_body :: "dict_block_builder \<Rightarrow> dict_entry list list \<Rightarrow> byte list" where
  "block_body b ss =
     dict_block_header b @ segs_bytes (dbb_tier b) ss @
     concat (map (le_bytes 4)
       (map of_nat (seg_offsets (dbb_tier b) (length (dict_block_header b)) ss) :: u32 list)) @
     le_bytes 4 (of_nat (length ss) :: u32)"

text \<open>The builders the writer can reach.\<close>

definition built :: "index_tier \<Rightarrow> bool \<Rightarrow> u64 \<Rightarrow> u64 \<Rightarrow> u32 \<Rightarrow> dict_entry list \<Rightarrow> dict_block_builder" where
  "built tier has_pos frq_base prx_base interval es =
     fold add_entry es (dict_block_builder tier has_pos frq_base prx_base interval)"

lemma fold_add_entry:
  "dbb_entries (fold add_entry es b) = dbb_entries b @ es"
  "dbb_n_entries (fold add_entry es b) = dbb_n_entries b + of_nat (length es)"
  "dbb_tier (fold add_entry es b) = dbb_tier b"
  "dbb_has_positions (fold add_entry es b) = dbb_has_positions b"
  "dbb_frq_base (fold add_entry es b) = dbb_frq_base b"
  "dbb_prx_base (fold add_entry es b) = dbb_prx_base b"
  "dbb_anchor_interval (fold add_entry es b) = dbb_anchor_interval b"
  by (induction es arbitrary: b) (auto simp: add_entry_def)

lemma built_simps [simp]:
  "dbb_entries (built t p fb pb k es) = es"
  "dbb_n_entries (built t p fb pb k es) = of_nat (length es)"
  "dbb_tier (built t p fb pb k es) = t"
  "dbb_has_positions (built t p fb pb k es) = p"
  "dbb_frq_base (built t p fb pb k es) = fb"
  "dbb_prx_base (built t p fb pb k es) = pb"
  "dbb_anchor_interval (built t p fb pb k es) = (if k = 0 then 1 else k)"
  by (simp_all add: built_def fold_add_entry dict_block_builder_def)

definition block_segs :: "u32 \<Rightarrow> dict_entry list \<Rightarrow> dict_entry list list" where
  "block_segs k es = chunks (unat (if k = 0 then 1 else k)) es"

lemma block_segs_facts:
  "concat (block_segs k es) = es" "s \<in> set (block_segs k es) \<Longrightarrow> s \<noteq> []"
  by (auto simp: block_segs_def unat_gt_0 dest: chunks_nonempty)

lemma length_block_segs: "length (block_segs k es) \<le> length es"
proof -
  have "length ss \<le> length (concat ss)" if "\<forall>s \<in> set ss. s \<noteq> []" for ss :: "dict_entry list list"
    using that
  proof (induction ss)
    case (Cons s ss)
    then have "1 \<le> length s" by (cases s) auto
    with Cons show ?case by (simp only: concat.simps length_append list.size list.set ball_simps) linarith
  qed simp
  with block_segs_facts show ?thesis by metis
qed

lemma dict_block_finish_bytes:
  assumes "length es < 2 ^ 32"
  shows "dict_block_finish (built t p fb pb k es) sink =
     sink @ block_body (built t p fb pb k es) (block_segs k es) @
     le_bytes 4 (crc32c (block_body (built t p fb pb k es) (block_segs k es)))"
proof -
  let ?b = "built t p fb pb k es"
  have un: "unat (of_nat (length es) :: u32) = length es" using assms by simp
  have "encode_entries ?b 0 [] es (dict_block_header ?b) [] =
     (dict_block_header ?b @ segs_bytes t (block_segs k es),
      map of_nat (seg_offsets t (length (dict_block_header ?b)) (block_segs k es)))"
    using encode_entries_chunks [OF refl, of ?b es 0 "[]" "dict_block_header ?b" "[]"] assms
    by (simp add: block_segs_def unat_gt_0)
  then show ?thesis
    by (simp add: dict_block_finish_def un fixed32.fold_put block_body_def put_simps Let_def)
qed

subsection \<open>Reading a segment\<close>

lemma de_term_stored [simp]: "de_term (stored_entry tier e) = de_term e"
  by (simp add: stored_entry_def stored_inline_def stored_pod_ref_def stored_regions_def
      stored_key_def Let_def)

lemma decode_chain_head:
  assumes "entry_fits tier e" and "length (chain_bytes tier prev (e # es)) < 2 ^ 32"
    and "rest src = chain_bytes tier prev (e # es) @ r"
  shows "decode_dict_entry prev tier src =
     Inr (stored_entry tier e, advance (length (entry_bytes prev tier e)) src)"
proof (rule decode_dict_entry_bytes [OF assms(1)])
  show "length (entry_body prev tier e) < 2 ^ 64"
    using assms(2) by (simp add: entry_bytes_def)
  show "prefix (entry_bytes prev tier e) (rest src)" by (simp add: assms(3))
qed

lemma eof_chain:
  "wf_source src \<Longrightarrow> rest src = chain_bytes tier prev es \<Longrightarrow> eof src = (es = [])"
  by (cases es) (simp_all add: eof_rest)

lemma decode_segment_chain:
  "\<forall>e \<in> set es. entry_fits tier e \<Longrightarrow> length (chain_bytes tier prev es) < 2 ^ 32 \<Longrightarrow>
   wf_source src \<Longrightarrow> rest src = chain_bytes tier prev es \<Longrightarrow>
   decode_segment tier prev src = Inr (map (stored_entry tier) es)"
proof (induction es arbitrary: prev src)
  case Nil
  then show ?case by (subst decode_segment.simps) (simp add: eof_chain [where es = "[]"])
next
  case (Cons e es)
  let ?n = "length (entry_bytes prev tier e)"
  have "decode_dict_entry prev tier src = Inr (stored_entry tier e, advance ?n src)"
    using Cons.prems by (intro decode_chain_head [where r = "[]" and es = es]) simp_all
  moreover have "decode_segment tier (de_term e) (advance ?n src) = Inr (map (stored_entry tier) es)"
    using Cons.prems by (intro Cons.IH) simp_all
  moreover have "\<not> eof src" using eof_chain [OF Cons.prems(3,4)] by simp
  ultimately show ?case by (subst decode_segment.simps) simp
qed

lemma scan_segment_chain:
  "\<forall>e \<in> set es. entry_fits tier e \<Longrightarrow> length (chain_bytes tier prev es) < 2 ^ 32 \<Longrightarrow>
   wf_source src \<Longrightarrow> rest src = chain_bytes tier prev es \<Longrightarrow> sorted_wrt (<) (map de_term es) \<Longrightarrow>
   scan_segment tier target prev src =
     Inr (map_option (stored_entry tier) (find (\<lambda>e. de_term e = target) es))"
proof (induction es arbitrary: prev src)
  case Nil
  then show ?case by (subst scan_segment.simps) (simp add: eof_chain [where es = "[]"])
next
  case (Cons e es)
  let ?n = "length (entry_bytes prev tier e)"
  have 1: "decode_dict_entry prev tier src = Inr (stored_entry tier e, advance ?n src)"
    using Cons.prems by (intro decode_chain_head [where r = "[]" and es = es]) simp_all
  have 2: "scan_segment tier target (de_term e) (advance ?n src) =
      Inr (map_option (stored_entry tier) (find (\<lambda>e. de_term e = target) es))"
    using Cons.prems by (intro Cons.IH) simp_all
  have 3: "find (\<lambda>e. de_term e = target) es = None" if "target < de_term e"
    using Cons.prems(5) that by (auto simp: find_None_iff)
  have "\<not> eof src" using eof_chain [OF Cons.prems(3,4)] by simp
  with 1 2 3 show ?case by (subst scan_segment.simps) auto
qed

subsection \<open>Opening a block\<close>

lemma open_anchors_segs:
  assumes "covered = pre @ segs_bytes tier ss @ table" and "length covered < 2 ^ 32"
    and "tb = length pre + length (segs_bytes tier ss)"
    and "rest at_src = concat (map (le_bytes 4) (map of_nat (seg_offsets tier (length pre) ss) :: u32 list)) @ r"
    and "\<forall>s \<in> set ss. s \<noteq> [] \<and> (\<forall>e \<in> set s. entry_fits tier e)"
    and "case prev of None \<Rightarrow> length pre = eb | Some q \<Rightarrow> unat q < length pre"
  shows "open_anchors tier covered tb eb (length ss) prev at_src =
     Inr (map of_nat (seg_offsets tier (length pre) ss), map (de_term \<circ> hd) ss)"
  using assms
proof (induction ss arbitrary: pre prev at_src)
  case (Cons s ss)
  let ?off = "of_nat (length pre) :: u32"
  obtain e es where s: "s = e # es" using Cons.prems(5) by (cases s) auto
  let ?c = "chain_bytes tier [] s"
  have off: "unat ?off = length pre" using Cons.prems(1,2) by simp
  have c: "covered = pre @ ?c @ segs_bytes tier ss @ table" using Cons.prems(1) by simp
  have cn: "0 < length ?c" by (simp add: s)
  have tb: "tb = length (pre @ ?c) + length (segs_bytes tier ss)" using Cons.prems(3) by simp
  have r0: "rest at_src = le_bytes 4 ?off @ concat (map (le_bytes 4)
      (map of_nat (seg_offsets tier (length (pre @ ?c)) ss) :: u32 list)) @ r"
    using Cons.prems(4) by simp
  have 1: "get_fixed32 at_src = Inr (?off, advance 4 at_src)" by (simp add: r0 codec_simps)
  have 2: "subslice covered (length pre) (tb - length pre) = Inr (?c @ segs_bytes tier ss)"
    unfolding c tb by (simp add: subslice_def)
  have 3: "decode_dict_entry [] tier (source (?c @ segs_bytes tier ss)) =
      Inr (stored_entry tier e, advance (length (entry_bytes [] tier e)) (source (?c @ segs_bytes tier ss)))"
    using Cons.prems(2,5) c
    by (intro decode_chain_head [where r = "segs_bytes tier ss" and es = es]) (simp_all add: s)
  have 4: "open_anchors tier covered tb eb (length ss) (Some ?off) (advance 4 at_src) =
      Inr (map of_nat (seg_offsets tier (length (pre @ ?c)) ss), map (de_term \<circ> hd) ss)"
    using c Cons.prems(2,5) tb r0 off cn by (intro Cons.IH) simp_all
  have ok: "\<not> (case prev of None \<Rightarrow> unat ?off \<noteq> eb | Some q \<Rightarrow> ?off \<le> q)"
    using Cons.prems(6) off by (auto simp: word_le_nat_alt split: option.splits)
  have hs: "hd s = e" by (simp add: s)
  have lt: "\<not> unat ?off \<ge> tb" using off cn tb by simp
  show ?case
    using ok lt hs by (simp add: 1 off) (simp add: 2 3 4 split: option.splits)
qed simp

lemma verify_crc_body: "4 \<le> length body \<Longrightarrow> verify_crc (body @ le_bytes 4 (crc32c body)) = Inr body"
  by (simp add: verify_crc_def block_sizes Let_def codec_simps)

definition block_reader :: "dict_block_builder \<Rightarrow> dict_entry list list \<Rightarrow> dict_block_reader" where
  "block_reader b ss =
     \<lparr>dbr_block = block_body b ss, dbr_tier = dbb_tier b, dbr_has_positions = dbb_has_positions b,
      dbr_frq_base = dbb_frq_base b,
      dbr_prx_base = (if dbb_has_positions b then dbb_prx_base b else 0),
      dbr_n_entries = dbb_n_entries b, dbr_entries_begin = length (dict_block_header b),
      dbr_anchor_offsets = map of_nat (seg_offsets (dbb_tier b) (length (dict_block_header b)) ss),
      dbr_anchor_terms = map (de_term \<circ> hd) ss\<rparr>"

lemma dict_block_header_bytes:
  "dict_block_header b =
     encode_varint64 (ucast (dbb_n_entries b)) @ 1 # (if dbb_has_positions b then 1 else 0) #
     encode_varint64 (dbb_frq_base b) @
     (if dbb_has_positions b then encode_varint64 (dbb_prx_base b) else [])"
  by (simp add: dict_block_header_def put_simps kDictBlockFormatVer_def kHasPositions_def Let_def)

lemma length_concat_le_bytes: "length (concat (map (le_bytes 4) (xs :: u32 list))) = 4 * length xs"
  by (induction xs) simp_all

lemma dict_block_open_body:
  assumes ss: "\<forall>s \<in> set ss. s \<noteq> [] \<and> (\<forall>e \<in> set s. entry_fits (dbb_tier b) e)"
    and len: "length (block_body b ss) < 2 ^ 32"
  shows "dict_block_open (block_body b ss @ le_bytes 4 (crc32c (block_body b ss))) (dbb_tier b)
     (dbb_has_positions b) = Inr (block_reader b ss)"
proof -
  let ?h = "dict_block_header b" and ?g = "segs_bytes (dbb_tier b) ss"
  let ?offs = "map of_nat (seg_offsets (dbb_tier b) (length ?h) ss) :: u32 list"
  define t where "t = concat (map (le_bytes 4) ?offs)"
  let ?n = "of_nat (length ss) :: u32"
  let ?c = "block_body b ss"
  define src where "src = source ?c"
  have c: "?c = ?h @ ?g @ t @ le_bytes 4 ?n" by (simp add: block_body_def t_def)
  have lt: "length t = 4 * length ss"
    by (simp only: t_def length_concat_le_bytes length_map length_seg_offsets)
  have lc: "length ?c = length ?h + length ?g + 4 * length ss + 4"
    by (simp only: c length_append lt length_le_bytes)
  have un: "unat ?n = length ss" using len lc by simp
  have v: "verify_crc (?c @ le_bytes 4 (crc32c ?c)) = Inr ?c"
    using lc by (intro verify_crc_body) simp
  have na: "subslice ?c (length ?c - 4) 4 = Inr (le_bytes 4 ?n)"
    unfolding lc by (simp add: c lt subslice_def)
  have at: "subslice ?c (length ?h + length ?g) (length ss * 4) = Inr t"
    by (simp add: c lt subslice_def)
  have anch: "open_anchors (dbb_tier b) ?c (length ?h + length ?g) (length ?h) (length ss) None (source t) =
      Inr (?offs, map (de_term \<circ> hd) ss)"
    using ss len by (intro open_anchors_segs [where table = "t @ le_bytes 4 ?n" and r = "[]"])
      (simp_all add: c t_def)
  have rest: "rest src = ?h @ ?g @ t @ le_bytes 4 ?n" unfolding src_def by (simp add: c)
  have uu: "(ucast (ucast (dbb_n_entries b) :: u64) :: u32) = dbb_n_entries b"
    by (rule bit_word_eqI) (auto simp: bit_simps)
  have bounds: "(length ?c < 4 + length ss * 4 \<or> length ?h + length ss * 4 + 4 > length ?c) = False"
    "length ?c - 4 - length ss * 4 = length ?h + length ?g" "(length ?c < 4) = False" using lc by auto
  have gf: "get_fixed32 (source (le_bytes 4 ?n)) = Inr (?n, advance 4 (source (le_bytes 4 ?n)))"
    by (simp add: codec_simps)
  have pos: "src_pos (advance (length ?h) src) = length ?h" by (simp add: src_def)
  have hd: "and_then (get_varint64 src) (\<lambda>(n_entries, src).
     and_then (get_u8 src) (\<lambda>(ver, src).
     and_then (get_u8 src) (\<lambda>(flags, src).
     if ver \<noteq> kDictBlockFormatVer then Unsupported
     else
       and_then (check_flags flags (dbb_has_positions b)) (\<lambda>_.
       and_then (get_varint64 src) (\<lambda>(frq_base, src).
       and_then (if dbb_has_positions b then get_varint64 src else Inr (0, src)) (\<lambda>(prx_base, src).
       F n_entries frq_base prx_base src)))))) =
     F (ucast (dbb_n_entries b)) (dbb_frq_base b) (if dbb_has_positions b then dbb_prx_base b else 0)
       (advance (length ?h) src)" for F :: "u64 \<Rightarrow> u64 \<Rightarrow> u64 \<Rightarrow> byte_source \<Rightarrow> 'c result"
    using rest by (cases "dbb_has_positions b")
      (simp_all add: dict_block_header_bytes codec_simps check_flags_def kDictBlockFormatVer_def
        kHasPositions_def add.assoc)
  show ?thesis
    unfolding dict_block_open_def v and_then_Inr Let_def block_sizes src_def [symmetric] hd
    by (simp only: na gf un at anch bounds pos uu and_then_Inr prod.case if_False block_reader_def)
qed

subsection \<open>Enumeration and lookup\<close>

lemma anchor_segment_block:
  assumes a: "a < length ss" and len: "length (block_body b ss) < 2 ^ 32"
  shows "anchor_segment (block_reader b ss) a = Inr (chain_bytes (dbb_tier b) [] (ss ! a))"
proof -
  let ?h = "dict_block_header b" and ?T = "dbb_tier b"
  define t where "t = concat (map (le_bytes 4)
      (map of_nat (seg_offsets ?T (length ?h) ss) :: u32 list)) @ le_bytes 4 (of_nat (length ss) :: u32)"
  let ?off = "\<lambda>i. length ?h + length (segs_bytes ?T (take i ss))"
  have c: "block_body b ss = ?h @ segs_bytes ?T ss @ t" by (simp add: block_body_def t_def)
  have lt: "length t = 4 * length ss + 4"
    by (simp only: t_def length_append length_concat_le_bytes length_map length_seg_offsets length_le_bytes)
  have split: "segs_bytes ?T ss = segs_bytes ?T (take i ss) @ segs_bytes ?T (drop i ss)" for i
    by (metis append_take_drop_id concat_append map_append)
  have le: "?off i \<le> length ?h + length (segs_bytes ?T ss)" for i by (subst split [of i]) simp
  have u: "unat (of_nat (?off i) :: u32) = ?off i" for i
    using le [of i] len c by (intro unat_of_nat_u32) simp
  have lens: "length (dbr_anchor_offsets (block_reader b ss)) = length ss"
    "dbr_block (block_reader b ss) = block_body b ss" by (simp_all add: block_reader_def)
  have beg: "unat (dbr_anchor_offsets (block_reader b ss) ! a) = ?off a"
    using a u [of a] by (simp add: block_reader_def seg_offsets_nth)
  have nxt: "(if a + 1 = length ss then length (block_body b ss) - 4 - length ss * 4
      else unat (dbr_anchor_offsets (block_reader b ss) ! (a + 1))) = ?off (Suc a)"
    using a u [of "Suc a"] lt by (auto simp: block_reader_def seg_offsets_nth c)
  have S: "?off (Suc a) = ?off a + length (chain_bytes ?T [] (ss ! a))"
    using a by (simp add: take_Suc_conv_app_nth)
  have c2: "block_body b ss = (?h @ segs_bytes ?T (take a ss)) @ chain_bytes ?T [] (ss ! a) @
      segs_bytes ?T (drop (Suc a) ss) @ t"
    unfolding c by (subst split [of a], subst Cons_nth_drop_Suc [OF a, symmetric]) simp
  have sub: "subslice (block_body b ss) (?off a) (?off (Suc a) - ?off a) =
      Inr (chain_bytes ?T [] (ss ! a))"
    unfolding S c2 by (simp add: subslice_def)
  have "?off (Suc a) \<le> length (block_body b ss)" using le [of "Suc a"] c by simp
  moreover have "anchor_segment (block_reader b ss) a =
      (if ?off (Suc a) < ?off a \<or> ?off (Suc a) > length (block_body b ss) then Corruption
       else subslice (block_body b ss) (?off a) (?off (Suc a) - ?off a))"
    unfolding anchor_segment_def Let_def block_sizes beg lens by (simp only: nxt)
  moreover have "\<not> ?off (Suc a) < ?off a" using S by simp
  ultimately show ?thesis by (simp only: sub not_less [symmetric] if_False simp_thms)
qed

definition segs_ok :: "index_tier \<Rightarrow> dict_entry list list \<Rightarrow> bool" where
  "segs_ok tier ss = (\<forall>s \<in> set ss. s \<noteq> [] \<and> (\<forall>e \<in> set s. entry_fits tier e))"

lemma length_chain_le: "s \<in> set ss \<Longrightarrow> length (chain_bytes t [] s) \<le> length (segs_bytes t ss)"
  by (induction ss) auto

lemma segment_short:
  "s \<in> set ss \<Longrightarrow> length (block_body b ss) < 2 ^ 32 \<Longrightarrow> length (chain_bytes (dbb_tier b) [] s) < 2 ^ 32"
  using length_chain_le [of s ss "dbb_tier b"] by (simp add: block_body_def)

lemma decode_segments_block:
  assumes ok: "segs_ok (dbb_tier b) ss" and len: "length (block_body b ss) < 2 ^ 32"
    and "n \<le> length ss"
  shows "decode_segments (block_reader b ss) [n..<length ss] =
     Inr (map (stored_entry (dbb_tier b)) (concat (drop n ss)))"
  using \<open>n \<le> length ss\<close>
proof (induction "length ss - n" arbitrary: n)
  case 0
  then show ?case by simp
next
  case (Suc d)
  then have n: "n < length ss" by simp
  have "decode_segment (dbb_tier b) [] (source (chain_bytes (dbb_tier b) [] (ss ! n))) =
      Inr (map (stored_entry (dbb_tier b)) (ss ! n))"
    using ok n segment_short [OF nth_mem [OF n] len]
    by (intro decode_segment_chain) (auto simp: segs_ok_def)
  moreover have "dbr_tier (block_reader b ss) = dbb_tier b" by (simp add: block_reader_def)
  ultimately show ?case
    using Suc n anchor_segment_block [OF n len]
    by (simp add: upt_conv_Cons flip: Cons_nth_drop_Suc)
qed

lemma decode_all_block:
  assumes "segs_ok (dbb_tier b) ss" and "length (block_body b ss) < 2 ^ 32"
    and "unat (dbb_n_entries b) = length (concat ss)"
  shows "decode_all (block_reader b ss) = Inr (map (stored_entry (dbb_tier b)) (concat ss))"
proof -
  have "length (dbr_anchor_offsets (block_reader b ss)) = length ss"
    "dbr_n_entries (block_reader b ss) = dbb_n_entries b" by (simp_all add: block_reader_def)
  with decode_segments_block [OF assms(1,2), of 0] assms(3) show ?thesis
    by (simp add: decode_all_def del: length_concat)
qed

lemma locate_anchor_loop_spec:
  assumes "sorted terms" and "lo < hi" and "hi \<le> length terms" and "terms ! lo \<le> target"
    and "hi < length terms \<Longrightarrow> target < terms ! hi"
  shows "locate_anchor_loop terms target lo hi < length terms \<and>
     terms ! locate_anchor_loop terms target lo hi \<le> target \<and>
     (Suc (locate_anchor_loop terms target lo hi) < length terms \<longrightarrow>
      target < terms ! Suc (locate_anchor_loop terms target lo hi))"
  using assms
proof (induction terms target lo hi rule: locate_anchor_loop.induct)
  case (1 terms target lo hi)
  let ?m = "lo + (hi - lo) div 2"
  show ?case
  proof (cases "lo + 1 < hi")
    case True
    show ?thesis
    proof (cases "terms ! ?m \<le> target")
      case le: True
      have "locate_anchor_loop terms target lo hi = locate_anchor_loop terms target ?m hi"
        using True le by (subst locate_anchor_loop.simps) (simp add: Let_def)
      with "1.IH"(1) [OF True refl le] "1.prems" le True show ?thesis by simp
    next
      case gt: False
      have "locate_anchor_loop terms target lo hi = locate_anchor_loop terms target lo ?m"
        using True gt by (subst locate_anchor_loop.simps) (simp add: Let_def)
      with "1.IH"(2) [OF True refl gt] "1.prems" gt True show ?thesis by simp
    qed
  next
    case False
    then have "hi = Suc lo" using "1.prems"(2) by simp
    moreover have "locate_anchor_loop terms target lo hi = lo"
      using False by (subst locate_anchor_loop.simps) simp
    ultimately show ?thesis using "1.prems" by simp
  qed
qed

text \<open>Strictly sorted terms: a term that is present lies in the last segment whose anchor is not
  greater.\<close>

lemma sorted_heads:
  assumes "sorted_wrt (<) (map key (concat ss))" and "\<forall>s \<in> set ss. s \<noteq> []"
  shows "sorted_wrt (<) (map (key \<circ> hd) ss)"
  using assms
proof (induction ss)
  case (Cons s ss)
  then have "key (hd s) < key (hd s')" if "s' \<in> set ss" for s'
    using that by (auto simp: sorted_wrt_append)
  with Cons show ?case by (auto simp: sorted_wrt_append)
qed simp

lemma find_before_heads:
  fixes key :: "'a \<Rightarrow> 'k :: linorder"
  assumes "sorted_wrt (<) (map key (concat ss))" and "\<forall>s \<in> set ss. s \<noteq> []"
    and "ss = [] \<or> target < hd (map (key \<circ> hd) ss)"
  shows "find (\<lambda>e. key e = target) (concat ss) = None"
proof (cases ss)
  case (Cons s ss')
  with assms(2) obtain x xs where "s = x # xs" by (cases s) auto
  with Cons assms(1) have "key x < key e \<or> e = x" if "e \<in> set (concat ss)" for e
    using that by auto
  moreover have "target < key x" using assms(3) Cons \<open>s = x # xs\<close> by simp
  ultimately show ?thesis unfolding find_None_iff by (metis less_asym less_irrefl)
qed simp

lemma find_concat_sorted:
  fixes ss :: "'a list list" and key :: "'a \<Rightarrow> 'k :: linorder"
  assumes "sorted_wrt (<) (map key (concat ss))" and "\<forall>s \<in> set ss. s \<noteq> []" and a: "a < length ss"
    and le: "key (hd (ss ! a)) \<le> target"
    and gt: "Suc a < length ss \<Longrightarrow> target < key (hd (ss ! Suc a))"
  shows "find (\<lambda>e. key e = target) (concat ss) = find (\<lambda>e. key e = target) (ss ! a)"
proof -
  let ?P = "\<lambda>e. key e = target"
  have ss: "ss = take a ss @ ss ! a # drop (Suc a) ss" using a by (simp add: id_take_nth_drop)
  have srt: "sorted_wrt (<) (map key (concat (take a ss)) @ map key (ss ! a) @
      map key (concat (drop (Suc a) ss)))"
    using assms(1) by (subst (asm) ss) simp
  have hd: "hd (ss ! a) \<in> set (ss ! a)" using assms(2) a by simp
  have "key e < target" if "e \<in> set (concat (take a ss))" for e
  proof -
    from srt that hd have "key e < key (hd (ss ! a))"
      unfolding sorted_wrt_append by auto
    then show ?thesis using le by simp
  qed
  then have before: "find ?P (concat (take a ss)) = None"
    unfolding find_None_iff by blast
  have after: "find ?P (concat (drop (Suc a) ss)) = None"
  proof (cases "Suc a < length ss")
    case True
    then have d: "drop (Suc a) ss = ss ! Suc a # drop (Suc (Suc a)) ss"
      by (rule Cons_nth_drop_Suc [symmetric])
    have "ss ! Suc a \<noteq> []" using assms(2) True by simp
    then obtain x xs where x: "ss ! Suc a = x # xs" by (cases "ss ! Suc a") auto
    have "target < key x" using gt True x by simp
    moreover have "key x < key e \<or> e = x" if "e \<in> set (concat (drop (Suc a) ss))" for e
      using srt that unfolding d x sorted_wrt_append by auto
    ultimately show ?thesis unfolding find_None_iff by (metis less_asym less_irrefl)
  qed simp
  have fa: "find P (xs @ ys) = (case find P xs of None \<Rightarrow> find P ys | Some x \<Rightarrow> Some x)"
    for P and xs ys :: "'a list" by (induction xs) auto
  have "find ?P (concat (take a ss) @ ss ! a @ concat (drop (Suc a) ss)) = find ?P (ss ! a)"
    unfolding fa before after by (simp split: option.splits)
  moreover have "concat (take a ss) @ ss ! a @ concat (drop (Suc a) ss) = concat ss"
    by (subst (4) ss) simp
  ultimately show ?thesis by simp
qed

lemma find_term_block:
  assumes ok: "segs_ok (dbb_tier b) ss" and len: "length (block_body b ss) < 2 ^ 32"
    and srt: "sorted_wrt (<) (map de_term (concat ss))"
  shows "find_term (block_reader b ss) target =
     Inr (map_option (stored_entry (dbb_tier b)) (find (\<lambda>e. de_term e = target) (concat ss)))"
proof -
  let ?r = "block_reader b ss" and ?ts = "map (de_term \<circ> hd) ss"
  have ts: "dbr_anchor_terms ?r = ?ts" "dbr_tier ?r = dbb_tier b" by (simp_all add: block_reader_def)
  have ne: "\<forall>s \<in> set ss. s \<noteq> []" using ok by (simp add: segs_ok_def)
  have heads: "sorted_wrt (<) ?ts" by (rule sorted_heads [OF srt ne])
  show ?thesis
  proof (cases "ss = [] \<or> target < hd ?ts")
    case True
    have "find (\<lambda>e. de_term e = target) (concat ss) = None"
      by (rule find_before_heads [OF srt ne True])
    with True show ?thesis by (auto simp: find_term_def locate_anchor_def ts)
  next
    case False
    let ?a = "locate_anchor_loop ?ts target 0 (length ?ts)"
    have sts: "sorted ?ts" using heads by (metis strict_sorted_iff)
    have spec: "?a < length ?ts" "?ts ! ?a \<le> target"
      "Suc ?a < length ?ts \<longrightarrow> target < ?ts ! Suc ?a"
      using locate_anchor_loop_spec [OF sts, of 0 "length ?ts" target] False
      by (auto simp: hd_conv_nth not_less)
    then have a: "?a < length ss" by simp
    have "scan_segment (dbb_tier b) target [] (source (chain_bytes (dbb_tier b) [] (ss ! ?a))) =
        Inr (map_option (stored_entry (dbb_tier b)) (find (\<lambda>e. de_term e = target) (ss ! ?a)))"
    proof (rule scan_segment_chain)
      show "\<forall>e \<in> set (ss ! ?a). entry_fits (dbb_tier b) e"
        using ok nth_mem [OF a] by (auto simp: segs_ok_def)
      show "length (chain_bytes (dbb_tier b) [] (ss ! ?a)) < 2 ^ 32"
        by (rule segment_short [OF nth_mem [OF a] len])
      show "sorted_wrt (<) (map de_term (ss ! ?a))"
        using srt by (subst (asm) id_take_nth_drop [OF a]) (simp add: sorted_wrt_append)
    qed simp_all
    moreover have "find (\<lambda>e. de_term e = target) (concat ss) = find (\<lambda>e. de_term e = target) (ss ! ?a)"
      using spec a by (intro find_concat_sorted [OF srt ne]) simp_all
    moreover have "find_term ?r target = scan_from_anchor ?r ?a target"
      using False by (auto simp: find_term_def locate_anchor_def ts)
    ultimately show ?thesis
      using anchor_segment_block [OF a len] by (simp add: scan_from_anchor_def ts)
  qed
qed

subsection \<open>The block the builder makes\<close>

text \<open>Opening what \<open>finish\<close> wrote gives a reader of the segments.\<close>

lemma dict_block_reopen:
  assumes n: "length es < 2 ^ 32" and fit: "\<forall>e \<in> set es. entry_fits t e"
    and len: "length (dict_block_finish (built t p fb pb k es) []) < 2 ^ 32"
  shows "dict_block_open (dict_block_finish (built t p fb pb k es) []) t p =
      Inr (block_reader (built t p fb pb k es) (block_segs k es))"
    and "length (block_body (built t p fb pb k es) (block_segs k es)) < 2 ^ 32"
    and "segs_ok t (block_segs k es)"
proof -
  let ?b = "built t p fb pb k es"
  have ok: "\<forall>s \<in> set (block_segs k es). s \<noteq> [] \<and> (\<forall>e \<in> set s. entry_fits t e)"
  proof
    fix s assume s: "s \<in> set (block_segs k es)"
    then have "set s \<subseteq> set es" using block_segs_facts(1) [of k es] by (metis UN_upper set_concat)
    with s fit show "s \<noteq> [] \<and> (\<forall>e \<in> set s. entry_fits t e)" by (auto dest: block_segs_facts(2))
  qed
  then show "segs_ok t (block_segs k es)" by (simp add: segs_ok_def)
  show l: "length (block_body ?b (block_segs k es)) < 2 ^ 32"
    using len by (simp add: dict_block_finish_bytes [OF n])
  have "dict_block_open (block_body ?b (block_segs k es) @
      le_bytes 4 (crc32c (block_body ?b (block_segs k es)))) t p =
      Inr (block_reader ?b (block_segs k es))"
    using dict_block_open_body [OF _ l] ok by simp
  then show "dict_block_open (dict_block_finish ?b []) t p = Inr (block_reader ?b (block_segs k es))"
    by (simp add: dict_block_finish_bytes [OF n])
qed

text \<open>What a client gets from a reopened block.\<close>

lemma dict_block_reopened:
  assumes "length es < 2 ^ 32" and "\<forall>e \<in> set es. entry_fits t e"
    and "length (dict_block_finish (built t p fb pb k es) []) < 2 ^ 32"
  obtains r where "dict_block_open (dict_block_finish (built t p fb pb k es) []) t p = Inr r"
    and "dbr_frq_base r = fb" and "dbr_prx_base r = (if p then pb else 0)"
    and "decode_all r = Inr (map (stored_entry t) es)"
    and "\<And>target. sorted_wrt (<) (map de_term es) \<Longrightarrow>
      find_term r target = Inr (map_option (stored_entry t) (find (\<lambda>e. de_term e = target) es))"
proof -
  note r = dict_block_reopen [OF assms]
  let ?r = "block_reader (built t p fb pb k es) (block_segs k es)"
  have b: "dbr_frq_base ?r = fb" "dbr_prx_base ?r = (if p then pb else 0)"
    by (simp_all add: block_reader_def)
  have "decode_all ?r = Inr (map (stored_entry t) es)"
    using decode_all_block [of "built t p fb pb k es" "block_segs k es"] r assms(1)
    by (simp add: block_segs_facts)
  moreover have "find_term ?r target = Inr (map_option (stored_entry t) (find (\<lambda>e. de_term e = target) es))"
    if "sorted_wrt (<) (map de_term es)" for target
    using find_term_block [of "built t p fb pb k es" "block_segs k es" target] r that
    by (simp add: block_segs_facts)
  ultimately show ?thesis using that r(1) b by blast
qed

text \<open>C10: enumerating a block gives every entry that was added, in order.\<close>

theorem dict_block_enumerates:
  assumes "length es < 2 ^ 32" and "\<forall>e \<in> set es. entry_fits t e"
    and "length (dict_block_finish (built t p fb pb k es) []) < 2 ^ 32"
  shows "and_then (dict_block_open (dict_block_finish (built t p fb pb k es) []) t p) decode_all =
     Inr (map (stored_entry t) es)"
  by (rule dict_block_reopened [OF assms]) simp

lemma length_chain_bytes: "length (chain_bytes tier prev es) \<le> sum_list (map entry_size_bound es)"
proof (induction es arbitrary: prev)
  case (Cons e es)
  from Cons [of "de_term e"] length_entry_bytes [of prev tier e] show ?case by simp
qed simp

lemma length_segs_bytes: "length (segs_bytes tier ss) \<le> sum_list (map entry_size_bound (concat ss))"
proof (induction ss)
  case (Cons s ss)
  from Cons length_chain_bytes [of tier "[]" s] show ?case by simp
qed simp

lemma length_dict_block_finish:
  assumes "length es < 2 ^ 32"
  shows "length (dict_block_finish (built t p fb pb k es) []) \<le>
     40 + 4 * length es + sum_list (map entry_size_bound es)"
proof -
  let ?b = "built t p fb pb k es"
  have "length (dict_block_header ?b) \<le> 32"
    using varint64_len_le_10 [of "ucast (dbb_n_entries ?b)"] varint64_len_le_10 [of fb]
      varint64_len_le_10 [of pb] by (simp add: dict_block_header_bytes)
  moreover have "length (segs_bytes t (block_segs k es)) \<le> sum_list (map entry_size_bound es)"
    using length_segs_bytes [of t "block_segs k es"] by (simp add: block_segs_facts)
  moreover have "length (block_body ?b (block_segs k es)) = length (dict_block_header ?b) +
      length (segs_bytes t (block_segs k es)) + 4 * length (block_segs k es) + 4"
    unfolding block_body_def
    by (simp only: length_append length_concat_le_bytes length_map length_seg_offsets length_le_bytes
        built_simps)
  moreover have "length (dict_block_finish ?b []) = length (block_body ?b (block_segs k es)) + 4"
    by (simp add: dict_block_finish_bytes [OF assms])
  ultimately show ?thesis using length_block_segs [of k es] by linarith
qed

definition sample_entries :: "dict_entry list" where
  "sample_entries = [sample_entry [97], sample_entry [97, 98], sample_entry [98]]"

lemma sample_block:
  "length sample_entries < 2 ^ 32" "\<forall>e \<in> set sample_entries. entry_fits kT2 e"
  "length (dict_block_finish (built kT2 True 0 0 2 sample_entries) []) < 2 ^ 32"
  "sorted_wrt (<) (map de_term sample_entries)"
proof -
  show n: "length sample_entries < 2 ^ 32" by (simp add: sample_entries_def)
  show "length (dict_block_finish (built kT2 True 0 0 2 sample_entries) []) < 2 ^ 32"
    using length_dict_block_finish [OF n, of kT2 True 0 0 2]
    by (simp add: sample_entries_def entry_size_bound_def sample_entry_def)
qed (simp_all add: sample_entries_def entry_fits_def sample_entry_def default_dict_entry_def
    tier_has_stats_def less_eq_index_tier_def)

theorem dict_block_enumerates_witness:
  "and_then (dict_block_open (dict_block_finish (built kT2 True 0 0 2 sample_entries) []) kT2 True)
     decode_all = Inr (map (stored_entry kT2) sample_entries)"
  by (rule dict_block_enumerates [OF sample_block(1-3)])

text \<open>C9: looking a term up in a block of strictly ascending terms finds its entry if it was added
  and reports absence otherwise, for every anchor interval.\<close>

theorem dict_block_finds:
  assumes "length es < 2 ^ 32" and "\<forall>e \<in> set es. entry_fits t e"
    and "length (dict_block_finish (built t p fb pb k es) []) < 2 ^ 32"
    and "sorted_wrt (<) (map de_term es)"
  shows "and_then (dict_block_open (dict_block_finish (built t p fb pb k es) []) t p)
       (\<lambda>r. find_term r target) =
     Inr (map_option (stored_entry t) (find (\<lambda>e. de_term e = target) es))"
  by (rule dict_block_reopened [OF assms(1-3)]) (simp add: assms(4))

theorem dict_block_finds_witness:
  "and_then (dict_block_open (dict_block_finish (built kT2 True 0 0 2 sample_entries) []) kT2 True)
     (\<lambda>r. find_term r [98]) = Inr (Some (stored_entry kT2 (sample_entry [98])))"
  using dict_block_finds [OF sample_block, of "[98]"] by (simp add: sample_entries_def sample_entry_def)

end
