(* ===== verification/Logical_Index_Reader.thy ===== *)
theory Logical_Index_Reader
  imports Dict_Block_Correct Sampled_Term_Index Dict_Block_Directory Per_Index_Meta Bsbf Host
begin

text \<open>
  The reader of one logical index: \<open>src/core/src/reader/logical_index_reader.cpp\<close>. A term is
  resolved through the bloom filter, the sampled term index, the DICT block directory and one DICT
  block; a prefix is enumerated over consecutive blocks. The abstract content of an index is its
  dictionary: the list of its terms with their entries, in term order.
\<close>

subsection \<open>The limit for resident filters\<close>

text \<open>\<open>std::strtoull(s, &end, 10)\<close>: \<open>None\<close> when no digit was read, so that \<open>end == s\<close>.\<close>

definition is_space :: "byte \<Rightarrow> bool" where
  "is_space c = (c = 0x20 \<or> 9 \<le> c \<and> c \<le> 13)"

definition is_digit :: "byte \<Rightarrow> bool" where
  "is_digit c = (0x30 \<le> c \<and> c \<le> 0x39)"

definition strtoull :: "byte list \<Rightarrow> u64 option" where
  "strtoull s =
     (let s = dropWhile is_space s;
          negative = (s \<noteq> [] \<and> s ! 0 = 0x2D);
          s = (if s \<noteq> [] \<and> (s ! 0 = 0x2D \<or> s ! 0 = 0x2B) then tl s else s);
          digits = takeWhile is_digit s;
          v = foldl (\<lambda>a d. 10 * a + (unat d - 0x30)) 0 digits
      in if digits = [] then None
         else Some (if v \<ge> 2 ^ 64 then - 1 else if negative then - of_nat v else of_nat v))"

definition kBsbfResidentMaxBytes :: u32 where "kBsbfResidentMaxBytes = 256 * 1024"

definition bsbf_resident_max_bytes :: "host \<Rightarrow> u64" where
  "bsbf_resident_max_bytes h =
     (case host_resident_max h of
        None \<Rightarrow> ucast kBsbfResidentMaxBytes
      | Some s \<Rightarrow> (case strtoull s of None \<Rightarrow> ucast kBsbfResidentMaxBytes | Some v \<Rightarrow> v))"

subsection \<open>LogicalIndexReader\<close>

record logical_index_reader =
  lr_read_at :: file_reader
  lr_tier :: index_tier
  lr_has_positions :: bool
  lr_meta :: per_index_meta_reader
  lr_sti :: sampled_term_index
  lr_dbd :: dict_block_directory
  lr_bsbf_header :: bsbf_header
  lr_has_bsbf :: bool
  lr_bsbf_resident :: bool
  lr_bsbf_resident_bitset :: "byte list"

definition no_bsbf_header :: bsbf_header where
  "no_bsbf_header = \<lparr>bh_num_bytes = 0, bh_num_blocks = 0, bh_bitset_crc = 0, bh_bitset_base = 0\<rparr>"

text \<open>The part of \<open>open\<close> that loads the filter; the header alone is kept when the section is larger
  than the limit for resident filters.\<close>

definition open_bsbf :: "host \<Rightarrow> region_ref \<Rightarrow> logical_index_reader \<Rightarrow> logical_index_reader result" where
  "open_bsbf h bsbf out =
     (if rr_length bsbf > 0 then
        if rr_length bsbf \<le> of_nat kBsbfHeaderSize then Corruption
        else
          let num_bytes = rr_length bsbf - of_nat kBsbfHeaderSize;
              resident = (rr_length bsbf \<le> bsbf_resident_max_bytes h)
          in and_then (lr_read_at out (rr_offset bsbf) (if resident then rr_length bsbf else of_nat kBsbfHeaderSize)) (\<lambda>head.
             if length head < kBsbfHeaderSize then Corruption
             else
               and_then (bsbf_header_parse (take kBsbfHeaderSize head) (rr_offset bsbf)) (\<lambda>hdr.
               if ucast (bh_num_bytes hdr) \<noteq> num_bytes then Corruption
               else
                 let out = out\<lparr>lr_bsbf_header := hdr, lr_has_bsbf := True\<rparr> in
                 if resident then
                   if length head < unat (rr_length bsbf) then Corruption
                   else
                     and_then (subslice head kBsbfHeaderSize (unat (bh_num_bytes hdr))) (\<lambda>bitset.
                     if crc32c bitset \<noteq> bh_bitset_crc hdr then Corruption
                     else Inr (out\<lparr>lr_bsbf_resident_bitset := bitset, lr_bsbf_resident := True\<rparr>))
                 else Inr out))
      else Inr out)"

definition logical_index_open ::
  "host \<Rightarrow> file_reader \<Rightarrow> index_tier \<Rightarrow> bool \<Rightarrow> byte list \<Rightarrow> logical_index_reader result" where
  "logical_index_open h read_at tier has_pos meta_block =
     and_then (per_index_meta_open meta_block) (\<lambda>meta.
     and_then (sampled_open (pmr_sampled_term_index meta)) (\<lambda>sti.
     and_then (dict_block_directory_open (pmr_dict_block_directory meta)) (\<lambda>dbd.
     open_bsbf h (sr_bsbf (pmr_section_refs meta))
       \<lparr>lr_read_at = read_at, lr_tier = tier, lr_has_positions = has_pos, lr_meta = meta, lr_sti = sti,
        lr_dbd = dbd, lr_bsbf_header = no_bsbf_header, lr_has_bsbf = False, lr_bsbf_resident = False,
        lr_bsbf_resident_bitset = []\<rparr>)))"

text \<open>Step 1 of \<open>lookup\<close>: whether the filter lets a term through.\<close>

definition bsbf_maybe :: "host \<Rightarrow> logical_index_reader \<Rightarrow> term_bytes \<Rightarrow> bool result" where
  "bsbf_maybe h r t =
     (let hash = bsbf_hash (host_xxh64 h) t in
      if \<not> lr_has_bsbf r then Inr True
      else if lr_bsbf_resident r then
        let blk = bsbf_block_index hash (bh_num_blocks (lr_bsbf_header r))
        in and_then (subslice (lr_bsbf_resident_bitset r) (unat blk * unat kBsbfBytesPerBlock) (unat kBsbfBytesPerBlock))
             (\<lambda>block. Inr (bsbf_block_contains (host_avx2 h) hash block))
      else bsbf_probe (host_avx2 h) (lr_read_at r) (lr_bsbf_header r) hash)"

definition kMaxDictBlockUncompBytes :: u64 where "kMaxDictBlockUncompBytes = 256 * 1024 * 1024"

text \<open>The range read of a DICT block, its decompression and its opening, common to \<open>lookup\<close> and
  \<open>prefix_terms\<close>.\<close>

definition load_dict_block :: "host \<Rightarrow> logical_index_reader \<Rightarrow> block_ref \<Rightarrow> dict_block_reader result" where
  "load_dict_block h r ref =
     and_then (lr_read_at r (br_offset ref) (br_length ref)) (\<lambda>block_bytes.
     and_then
       (if br_flags ref AND block_ref_kZstd \<noteq> 0 then
          if br_uncomp_len ref = 0 \<or> br_uncomp_len ref > kMaxDictBlockUncompBytes then Corruption
          else zstd_decompress (host_zstd h) block_bytes (unat (br_uncomp_len ref))
        else Inr block_bytes) (\<lambda>block_slice.
     dict_block_open block_slice (lr_tier r) (lr_has_positions r)))"

definition lookup :: "host \<Rightarrow> logical_index_reader \<Rightarrow> term_bytes \<Rightarrow> (dict_entry \<times> u64 \<times> u64) option result" where
  "lookup h r t =
     and_then (bsbf_maybe h r t) (\<lambda>maybe.
     if \<not> maybe then Inr None
     else
       let (maybe, ordinal) = locate (lr_sti r) t in
       if \<not> maybe then Inr None
       else
         and_then (dict_block_directory_get (lr_dbd r) ordinal) (\<lambda>ref.
         and_then (load_dict_block h r ref) (\<lambda>br.
         and_then (find_term br t) (\<lambda>hit.
         Inr (map_option (\<lambda>entry. (entry, dbr_frq_base br, dbr_prx_base br)) hit)))))"

record prefix_hit =
  ph_term :: term_bytes
  ph_entry :: dict_entry
  ph_frq_base :: u64
  ph_prx_base :: u64

definition has_prefix :: "term_bytes \<Rightarrow> term_bytes \<Rightarrow> bool" where
  "has_prefix pre t = (length t \<ge> length pre \<and> take (length pre) t = pre)"

text \<open>The loop of \<open>prefix_terms\<close> over the entries of a block: the hits, and whether a term past the
  prefix range was met.\<close>

fun collect_hits :: "term_bytes \<Rightarrow> dict_block_reader \<Rightarrow> dict_entry list \<Rightarrow> prefix_hit list \<times> bool" where
  "collect_hits pre br [] = ([], False)"
| "collect_hits pre br (e # es) =
     (if de_term e < pre then collect_hits pre br es
      else if \<not> has_prefix pre (de_term e) then ([], True)
      else
        let (hits, past) = collect_hits pre br es
        in (\<lparr>ph_term = de_term e, ph_entry = e, ph_frq_base = dbr_frq_base br, ph_prx_base = dbr_prx_base br\<rparr> # hits, past))"

text \<open>The loop over the block ordinals.\<close>

fun scan_blocks :: "host \<Rightarrow> logical_index_reader \<Rightarrow> term_bytes \<Rightarrow> nat list \<Rightarrow> prefix_hit list result" where
  "scan_blocks h r pre [] = Inr []"
| "scan_blocks h r pre (ord # ords) =
     and_then (dict_block_directory_get (lr_dbd r) (of_nat ord)) (\<lambda>ref.
     and_then (load_dict_block h r ref) (\<lambda>br.
     and_then (decode_all br) (\<lambda>entries.
     let (hits, past) = collect_hits pre br entries in
     if past then Inr hits
     else and_then (scan_blocks h r pre ords) (\<lambda>more. Inr (hits @ more)))))"

definition prefix_terms :: "host \<Rightarrow> logical_index_reader \<Rightarrow> term_bytes \<Rightarrow> prefix_hit list result" where
  "prefix_terms h r pre =
     (let start = (if pre \<noteq> [] then let (maybe, ordinal) = locate (lr_sti r) pre in if maybe then ordinal else 0 else 0)
      in scan_blocks h r pre [unat start..<unat (n_blocks (lr_dbd r))])"

definition resolve_window :: "region_ref \<Rightarrow> u64 \<Rightarrow> u64 \<Rightarrow> u64 \<Rightarrow> u64 \<Rightarrow> (u64 \<times> u64) result" where
  "resolve_window region base off_delta total_len prelude_len =
     (if prelude_len > total_len then Corruption
      else
        let in_region = base + off_delta in
        if in_region < base then Corruption
        else if in_region > rr_length region \<or> total_len > rr_length region - in_region then Corruption
        else Inr (rr_offset region + in_region + prelude_len, total_len - prelude_len))"

definition resolve_frq_window :: "logical_index_reader \<Rightarrow> dict_entry \<Rightarrow> u64 \<Rightarrow> (u64 \<times> u64) result" where
  "resolve_frq_window r entry frq_base =
     resolve_window (sr_posting_region (pmr_section_refs (lr_meta r))) frq_base (de_frq_off_delta entry)
       (de_frq_len entry) (de_prelude_len entry)"

definition resolve_prx_window :: "logical_index_reader \<Rightarrow> dict_entry \<Rightarrow> u64 \<Rightarrow> (u64 \<times> u64) result" where
  "resolve_prx_window r entry prx_base =
     resolve_window (sr_posting_region (pmr_section_refs (lr_meta r))) prx_base (de_prx_off_delta entry)
       (de_prx_len entry) 0"

end
