(* ===== verification/Logical_Index_Directory.thy ===== *)
theory Logical_Index_Directory
  imports Framed_Directory Format_Constants
begin

text \<open>
  The map from \<open>(index_id, index_suffix)\<close> to a per-index meta block:
  \<open>src/core/src/format/logical_index_directory.cpp\<close>. Builder and reader both hold the vector
  \<open>refs_\<close>.
\<close>

record logical_index_ref =
  lir_index_id :: u64
  lir_index_suffix :: "byte list"
  lir_meta_off :: u64
  lir_meta_len :: u64

type_synonym logical_index_directory = "logical_index_ref list"

definition kMinEntryBytes :: nat where "kMinEntryBytes = 4"

definition lid_encode_entry :: "logical_index_ref \<Rightarrow> byte_sink \<Rightarrow> byte_sink" where
  "lid_encode_entry ref payload =
     (let payload = put_varint64 (lir_index_id ref) payload;
          payload = put_varint32 (of_nat (length (lir_index_suffix ref))) payload;
          payload = put_bytes (lir_index_suffix ref) payload;
          payload = put_varint64 (lir_meta_off ref) payload
      in put_varint64 (lir_meta_len ref) payload)"

definition lid_decode_entry :: "byte_source \<Rightarrow> (logical_index_ref \<times> byte_source) result" where
  "lid_decode_entry ps =
     and_then (get_varint64 ps) (\<lambda>(index_id, ps).
     and_then (get_varint32 ps) (\<lambda>(suffix_len, ps).
     if unat suffix_len > remaining ps then Corruption
     else
       and_then (get_bytes (unat suffix_len) ps) (\<lambda>(suffix, ps).
       and_then (get_varint64 ps) (\<lambda>(meta_off, ps).
       and_then (get_varint64 ps) (\<lambda>(meta_len, ps).
       Inr (\<lparr>lir_index_id = index_id, lir_index_suffix = suffix, lir_meta_off = meta_off,
             lir_meta_len = meta_len\<rparr>, ps))))))"

definition lid_decode_payload :: "byte list \<Rightarrow> logical_index_ref list result" where
  "lid_decode_payload payload =
     (let ps = source payload in
      and_then (get_varint32 ps) (\<lambda>(n_entries, ps).
      if unat n_entries > remaining ps div kMinEntryBytes then Corruption
      else
        and_then (get_n lid_decode_entry (unat n_entries) ps) (\<lambda>(refs, ps).
        if \<not> eof ps then Corruption else Inr refs)))"

definition logical_index_directory_finish :: "logical_index_directory \<Rightarrow> byte_sink \<Rightarrow> byte_sink" where
  "logical_index_directory_finish refs sink =
     (let payload = put_varint32 (of_nat (length refs)) [];
          payload = fold lid_encode_entry refs payload
      in framer_write sink (section_type_id kLogicalIndexDirectory) payload)"

definition logical_index_directory_open :: "byte list \<Rightarrow> logical_index_directory result" where
  "logical_index_directory_open framed =
     and_then (framer_read (source framed)) (\<lambda>(sec, src).
     if sec_type sec \<noteq> section_type_id kLogicalIndexDirectory then InvalidArgument
     else lid_decode_payload (sec_payload sec))"

definition logical_index_directory_get :: "logical_index_directory \<Rightarrow> u32 \<Rightarrow> logical_index_ref result" where
  "logical_index_directory_get refs i =
     (if unat i \<ge> length refs then NotFound else Inr (refs ! unat i))"

text \<open>\<open>find\<close> reports absence as \<open>*found = false\<close>, here \<open>None\<close>.\<close>

fun logical_index_directory_find ::
  "logical_index_directory \<Rightarrow> u64 \<Rightarrow> byte list \<Rightarrow> logical_index_ref option" where
  "logical_index_directory_find [] index_id idx_suffix = None"
| "logical_index_directory_find (ref # refs) index_id idx_suffix =
     (if lir_index_id ref \<noteq> index_id \<or> lir_index_suffix ref \<noteq> idx_suffix
      then logical_index_directory_find refs index_id idx_suffix
      else Some ref)"

subsection \<open>Round trip\<close>

definition index_ref_bytes :: "logical_index_ref \<Rightarrow> byte list" where
  "index_ref_bytes ref =
     encode_varint64 (lir_index_id ref) @ encode_varint32 (of_nat (length (lir_index_suffix ref))) @
     lir_index_suffix ref @ encode_varint64 (lir_meta_off ref) @ encode_varint64 (lir_meta_len ref)"

definition index_ref_ok :: "logical_index_ref \<Rightarrow> bool" where
  "index_ref_ok ref = (length (lir_index_suffix ref) < 2 ^ 32)"

lemma lid_encode_entry_bytes [put_simps]: "lid_encode_entry ref payload = payload @ index_ref_bytes ref"
  by (simp add: lid_encode_entry_def put_simps index_ref_bytes_def Let_def)

lemma index_ref_bytes_min: "kMinEntryBytes \<le> length (index_ref_bytes ref)"
  using varint_nonempty_lengths(1) [of "lir_index_id ref"]
    varint_nonempty_lengths(1) [of "lir_meta_off ref"]
    varint_nonempty_lengths(1) [of "lir_meta_len ref"]
    varint_nonempty_lengths(2) [of "of_nat (length (lir_index_suffix ref))"]
  unfolding kMinEntryBytes_def index_ref_bytes_def length_append by linarith

interpretation index_dir: ref_codec lid_decode_entry lid_encode_entry index_ref_bytes index_ref_ok
  kMinEntryBytes
proof unfold_locales
  fix src assume "wf_source src"
  then show "cursor_ok src (lid_decode_entry src)"
    unfolding lid_decode_entry_def by (auto intro!: cursor_intros)
next
  fix ref src assume ok: "index_ref_ok ref" and p: "prefix (index_ref_bytes ref) (rest src)"
  then obtain r where r: "rest src = index_ref_bytes ref @ r" by (auto simp: prefix_def)
  have wf: "wf_source src" by (rule wf_if_rest) (simp add: r index_ref_bytes_def)
  have un: "unat (of_nat (length (lir_index_suffix ref)) :: u32) = length (lir_index_suffix ref)"
    using ok by (simp add: index_ref_ok_def)
  show "lid_decode_entry src = Inr (ref, advance (length (index_ref_bytes ref)) src)"
    using wf un by (simp add: lid_decode_entry_def index_ref_bytes_def r codec_simps remaining_rest)
qed (simp_all add: put_simps index_ref_bytes_min, simp add: kMinEntryBytes_def)

lemma logical_index_directory_finish_bytes:
  "logical_index_directory_finish refs sink = sink @ frame_bytes 7 (index_dir.refs_payload refs)"
  by (simp add: logical_index_directory_finish_def index_dir.put_refs framer_write_bytes)

lemma logical_index_directory_roundtrip:
  assumes "length refs < 2 ^ 32" and "list_all index_ref_ok refs"
    and "length (index_dir.refs_payload refs) < 2 ^ 64"
  shows "logical_index_directory_open (logical_index_directory_finish refs []) = Inr refs"
  using index_dir.get_refs [OF assms(1,2)] assms(3)
  by (simp add: logical_index_directory_open_def logical_index_directory_finish_bytes
      framer_read_source lid_decode_payload_def)

lemma lid_decode_payload_safe: "lid_decode_payload payload \<noteq> Inl OutOfBounds"
  by (auto simp: lid_decode_payload_def Let_def and_then_eq_Inl split: if_splits
      dest: get_varint32_error index_dir.get_n_safe [THEN notE, rotated]
        varint32.wf_after [OF wf_source_source])

lemma logical_index_directory_open_safe: "logical_index_directory_open s \<noteq> Inl OutOfBounds"
  using lid_decode_payload_safe framer.safe [OF wf_source_source, of s]
  by (auto simp: logical_index_directory_open_def and_then_eq_Inl split: if_splits)

subsection \<open>Lookup\<close>

definition index_key :: "logical_index_ref \<Rightarrow> u64 \<times> byte list" where
  "index_key ref = (lir_index_id ref, lir_index_suffix ref)"

lemma find_Some:
  "logical_index_directory_find refs i s = Some ref \<Longrightarrow> ref \<in> set refs \<and> index_key ref = (i, s)"
  by (induction refs) (auto simp: index_key_def split: if_splits)

lemma find_None: "(logical_index_directory_find refs i s = None) = ((i, s) \<notin> index_key ` set refs)"
  by (induction refs) (auto simp: index_key_def)

text \<open>With unique keys the directory is the finite map it stands for.\<close>

lemma find_map_of:
  "logical_index_directory_find refs i s = map_of (map (\<lambda>r. (index_key r, r)) refs) (i, s)"
  by (induction refs) (auto simp: index_key_def)

lemma find_unique:
  "distinct (map index_key refs) \<Longrightarrow> ref \<in> set refs \<Longrightarrow>
   logical_index_directory_find refs (lir_index_id ref) (lir_index_suffix ref) = Some ref"
  by (induction refs) (auto simp: index_key_def)

subsection \<open>Correctness\<close>

text \<open>C32: the directory that was written, once reopened, looks every key up as the finite map of
  its entries does: the entry added under the key, or absence.\<close>

theorem logical_index_directory_lookup:
  assumes "length refs < 2 ^ 32" and "list_all index_ref_ok refs"
    and "length (logical_index_directory_finish refs []) < 2 ^ 64"
  shows "and_then (logical_index_directory_open (logical_index_directory_finish refs []))
      (\<lambda>d. Inr (logical_index_directory_find d i s)) =
    Inr (map_of (map (\<lambda>r. (index_key r, r)) refs) (i, s))"
proof -
  have "length (index_dir.refs_payload refs) < 2 ^ 64"
    using assms(3) by (simp add: logical_index_directory_finish_bytes length_frame_bytes)
  from logical_index_directory_roundtrip [OF assms(1,2) this] show ?thesis
    by (simp add: find_map_of)
qed

lemma length_index_ref_bytes: "length (index_ref_bytes ref) \<le> 35 + length (lir_index_suffix ref)"
  using varint64_len_le_10 [of "lir_index_id ref"] varint64_len_le_10 [of "lir_meta_off ref"]
    varint64_len_le_10 [of "lir_meta_len ref"]
    varint32_len_le_5 [of "of_nat (length (lir_index_suffix ref))"]
  unfolding index_ref_bytes_def length_append by linarith

definition sample_index_refs :: "logical_index_ref list" where
  "sample_index_refs =
     [\<lparr>lir_index_id = 7, lir_index_suffix = [97], lir_meta_off = 100, lir_meta_len = 20\<rparr>,
      \<lparr>lir_index_id = 7, lir_index_suffix = [], lir_meta_off = 120, lir_meta_len = 30\<rparr>]"

theorem logical_index_directory_lookup_witness:
  "and_then (logical_index_directory_open (logical_index_directory_finish sample_index_refs []))
     (\<lambda>d. Inr (logical_index_directory_find d 7 [])) = Inr (Some (sample_index_refs ! 1))"
proof -
  have "length (index_dir.refs_payload sample_index_refs) \<le> 100"
    using length_index_ref_bytes [of "sample_index_refs ! 0"]
      length_index_ref_bytes [of "sample_index_refs ! 1"] varint32_len_le_5 [of 2]
    by (simp add: index_dir.refs_payload_def sample_index_refs_def)
  then have "length (logical_index_directory_finish sample_index_refs []) < 2 ^ 64"
    using length_frame_le [of 7 "index_dir.refs_payload sample_index_refs"]
    by (simp add: logical_index_directory_finish_bytes)
  from logical_index_directory_lookup [OF _ _ this, of 7 "[]"] show ?thesis
    by (simp add: sample_index_refs_def index_ref_ok_def index_key_def)
qed

end
