(* ===== verification/Tail_Meta_Region.thy ===== *)
theory Tail_Meta_Region
  imports Logical_Index_Directory
begin

text \<open>
  The tail metadata region: \<open>src/core/src/format/tail_meta_region.cpp\<close>. It bundles the meta blocks
  of all logical indexes with the directory that finds them by \<open>(index_id, suffix)\<close>. Offsets and
  lengths read from the region are 64-bit words whose sums wrap, as in the code.
\<close>

definition kHeaderFields :: nat where "kHeaderFields = 4 + 4 + 8 + 4 + 8 + 8"

definition kHeaderSize :: nat where "kHeaderSize = kHeaderFields + 4"

definition kRegionChecksumSize :: nat where "kRegionChecksumSize = 4"

record tail_meta_entry =
  tme_index_id :: u64
  tme_suffix :: "byte list"
  tme_bytes :: "byte list"

type_synonym tail_meta_builder = "tail_meta_entry list"

definition add_index :: "u64 \<Rightarrow> byte list \<Rightarrow> byte list \<Rightarrow> tail_meta_builder \<Rightarrow> tail_meta_builder" where
  "add_index index_id idx_suffix meta entries =
     entries @ [\<lparr>tme_index_id = index_id, tme_suffix = idx_suffix, tme_bytes = meta\<rparr>]"

text \<open>The first loop of \<open>finish\<close>: the directory, and the offset after the last block.\<close>

fun layout_entries :: "u64 \<Rightarrow> tail_meta_entry list \<Rightarrow> logical_index_directory \<times> u64" where
  "layout_entries offset [] = ([], offset)"
| "layout_entries offset (e # es) =
     (let (dir, stop) = layout_entries (offset + of_nat (length (tme_bytes e))) es
      in (\<lparr>lir_index_id = tme_index_id e, lir_index_suffix = tme_suffix e, lir_meta_off = offset,
            lir_meta_len = of_nat (length (tme_bytes e))\<rparr> # dir, stop))"

definition tail_meta_region_finish :: "tail_meta_builder \<Rightarrow> byte_sink \<Rightarrow> byte_sink" where
  "tail_meta_region_finish entries sink =
     (let (dir, directory_offset) = layout_entries (of_nat kHeaderSize) entries;
          dir_bytes = logical_index_directory_finish dir [];
          directory_length = of_nat (length dir_bytes);
          meta_region_len = directory_offset + directory_length + of_nat kRegionChecksumSize;
          fields = put_fixed32 (ucast kMetaFormatVersion) [];
          fields = put_fixed32 0 fields;
          fields = put_fixed64 meta_region_len fields;
          fields = put_fixed32 (of_nat (length entries)) fields;
          fields = put_fixed64 directory_offset fields;
          fields = put_fixed64 directory_length fields;
          region = put_bytes fields [];
          region = put_fixed32 (crc32c fields) region;
          region = fold (\<lambda>e. put_bytes (tme_bytes e)) entries region;
          region = put_bytes dir_bytes region;
          region = put_fixed32 (crc32c region) region
      in put_bytes region sink)"

record tail_meta_region_reader =
  tmr_region :: "byte list"
  tmr_dir :: logical_index_directory
  tmr_n :: u32

definition tail_meta_region_open :: "byte list \<Rightarrow> tail_meta_region_reader result" where
  "tail_meta_region_open region =
     (if length region < kHeaderSize + kRegionChecksumSize then Corruption
      else
        let covered = length region - kRegionChecksumSize; size = (of_nat (length region) :: u64) in
        and_then (subslice region covered kRegionChecksumSize) (\<lambda>cs.
        and_then (get_fixed32 (source cs)) (\<lambda>(region_crc, _).
        and_then (subslice region 0 covered) (\<lambda>body.
        if crc32c body \<noteq> region_crc then Corruption
        else
          and_then (subslice region 0 kHeaderFields) (\<lambda>fields.
          and_then (get_fixed32 (source fields)) (\<lambda>(ver, hs).
          and_then (get_fixed32 hs) (\<lambda>(flags, hs).
          and_then (get_fixed64 hs) (\<lambda>(meta_region_len, hs).
          and_then (get_fixed32 hs) (\<lambda>(n, hs).
          and_then (get_fixed64 hs) (\<lambda>(directory_offset, hs).
          and_then (get_fixed64 hs) (\<lambda>(directory_length, hs).
          and_then (subslice region kHeaderFields 4) (\<lambda>hc.
          and_then (get_fixed32 (source hc)) (\<lambda>(header_crc, _).
          if crc32c fields \<noteq> header_crc then Corruption
          else if ver \<noteq> ucast kMetaFormatVersion then Unsupported
          else if meta_region_len \<noteq> size then Corruption
          else if directory_offset + directory_length > size \<or> directory_offset < of_nat kHeaderSize then Corruption
          else
            and_then (subslice region (unat directory_offset) (unat directory_length)) (\<lambda>dir_bytes.
            and_then (logical_index_directory_open dir_bytes) (\<lambda>dir.
            if length dir \<noteq> unat n then Corruption
            else Inr \<lparr>tmr_region = region, tmr_dir = dir, tmr_n = n\<rparr>)))))))))))))))"

text \<open>\<open>None\<close> is \<open>*found = false\<close>.\<close>

definition tail_meta_region_find ::
  "tail_meta_region_reader \<Rightarrow> u64 \<Rightarrow> byte list \<Rightarrow> byte list option result" where
  "tail_meta_region_find r index_id idx_suffix =
     (case logical_index_directory_find (tmr_dir r) index_id idx_suffix of
        None \<Rightarrow> Inr None
      | Some ref \<Rightarrow>
          if lir_meta_off ref + lir_meta_len ref > of_nat (length (tmr_region r)) then Corruption
          else and_then (subslice (tmr_region r) (unat (lir_meta_off ref)) (unat (lir_meta_len ref)))
                 (\<lambda>meta. Inr (Some meta)))"

subsection \<open>Layout\<close>

definition blocks_bytes :: "tail_meta_entry list \<Rightarrow> byte list" where
  "blocks_bytes es = concat (map tme_bytes es)"

lemma blocks_bytes_simps [simp]:
  "blocks_bytes [] = []" "blocks_bytes (e # es) = tme_bytes e @ blocks_bytes es"
  by (simp_all add: blocks_bytes_def)

lemma fold_put_entries: "fold (\<lambda>e. put_bytes (tme_bytes e)) es sink = sink @ blocks_bytes es"
  by (induction es arbitrary: sink) (simp_all add: put_bytes_def)

definition layout_dir :: "tail_meta_entry list \<Rightarrow> logical_index_directory" where
  "layout_dir es = fst (layout_entries (of_nat kHeaderSize) es)"

lemma layout_entries_end: "snd (layout_entries off es) = off + of_nat (length (blocks_bytes es))"
  by (induction es arbitrary: off) (simp_all add: case_prod_beta Let_def add.assoc)

lemma length_layout_entries [simp]: "length (fst (layout_entries off es)) = length es"
  by (induction es arbitrary: off) (simp_all add: case_prod_beta Let_def)

definition entry_key :: "tail_meta_entry \<Rightarrow> u64 \<times> byte list" where
  "entry_key e = (tme_index_id e, tme_suffix e)"

lemma layout_refs_ok:
  "list_all index_ref_ok (fst (layout_entries off es)) \<longleftrightarrow> (\<forall>e \<in> set es. length (tme_suffix e) < 2 ^ 32)"
  by (induction es arbitrary: off) (simp_all add: case_prod_beta Let_def index_ref_ok_def)

text \<open>Where the directory says a block is, it is.\<close>

lemma tail_meta_find_skip:
  "\<not> (lir_index_id ref = i \<and> lir_index_suffix ref = sf) \<Longrightarrow>
   tail_meta_region_find \<lparr>tmr_region = r, tmr_dir = ref # d, tmr_n = n\<rparr> i sf =
   tail_meta_region_find \<lparr>tmr_region = r, tmr_dir = d, tmr_n = n\<rparr> i sf"
  by (auto simp: tail_meta_region_find_def split: option.splits)

lemma layout_find:
  assumes "length (pre @ blocks_bytes es @ post) < 2 ^ 64"
  shows "tail_meta_region_find \<lparr>tmr_region = pre @ blocks_bytes es @ post,
      tmr_dir = fst (layout_entries (of_nat (length pre)) es), tmr_n = n\<rparr> i sf =
    Inr (map_of (map (\<lambda>e. (entry_key e, tme_bytes e)) es) (i, sf))"
  using assms
proof (induction es arbitrary: pre)
  case (Cons e es)
  have IH: "tail_meta_region_find \<lparr>tmr_region = (pre @ tme_bytes e) @ blocks_bytes es @ post,
      tmr_dir = fst (layout_entries (of_nat (length (pre @ tme_bytes e))) es), tmr_n = n\<rparr> i sf =
    Inr (map_of (map (\<lambda>e. (entry_key e, tme_bytes e)) es) (i, sf))"
    using Cons.prems by (intro Cons.IH) simp
  let ?r = "pre @ tme_bytes e @ blocks_bytes es @ post"
  have l: "length pre + length (tme_bytes e) + length (blocks_bytes es) + length post < 2 ^ 64"
    using Cons.prems by simp
  show ?case
  proof (cases "entry_key e = (i, sf)")
    case True
    have un: "unat (of_nat (length pre) :: u64) = length pre"
      "unat (of_nat (length (tme_bytes e)) :: u64) = length (tme_bytes e)"
      "unat (of_nat (length pre + length (tme_bytes e)) :: u64) = length pre + length (tme_bytes e)"
      "unat (of_nat (length ?r) :: u64) = length ?r"
      using l by (intro unat_of_nat_u64, simp)+
    have g: "\<not> of_nat (length ?r) < (of_nat (length pre + length (tme_bytes e)) :: u64)"
      unfolding word_less_nat_alt un by simp
    from True have "tme_index_id e = i" "tme_suffix e = sf" by (simp_all add: entry_key_def)
    then show ?thesis using g un True by (simp add: tail_meta_region_find_def case_prod_beta Let_def)
  next
    case False
    then have "tme_index_id e \<noteq> i \<or> tme_suffix e \<noteq> sf" by (auto simp: entry_key_def)
    with False IH show ?thesis by (auto simp: case_prod_beta Let_def tail_meta_find_skip)
  qed
qed (simp add: tail_meta_region_find_def)

subsection \<open>Opening what was built\<close>

definition dir_bytes_of :: "tail_meta_entry list \<Rightarrow> byte list" where
  "dir_bytes_of es = logical_index_directory_finish (layout_dir es) []"

text \<open>A region with \<open>n\<close> indexes, meta blocks \<open>b\<close> and directory \<open>d\<close>, without its checksum.\<close>

definition region_fields :: "nat \<Rightarrow> byte list \<Rightarrow> byte list \<Rightarrow> byte list" where
  "region_fields n b d =
     le_bytes 4 (ucast kMetaFormatVersion :: u32) @ le_bytes 4 (0 :: u32) @
     le_bytes 8 (of_nat (44 + length b + length d) :: u64) @
     le_bytes 4 (of_nat n :: u32) @ le_bytes 8 (of_nat (40 + length b) :: u64) @
     le_bytes 8 (of_nat (length d) :: u64)"

definition region_body :: "nat \<Rightarrow> byte list \<Rightarrow> byte list \<Rightarrow> byte list" where
  "region_body n b d = region_fields n b d @ le_bytes 4 (crc32c (region_fields n b d)) @ b @ d"

definition region_image :: "nat \<Rightarrow> byte list \<Rightarrow> byte list \<Rightarrow> byte list" where
  "region_image n b d = region_body n b d @ le_bytes 4 (crc32c (region_body n b d))"

lemma length_region_fields [simp]: "length (region_fields n b d) = 36"
  by (simp add: region_fields_def)

definition fields_bytes :: "tail_meta_entry list \<Rightarrow> byte list" where
  "fields_bytes es = region_fields (length es) (blocks_bytes es) (dir_bytes_of es)"

definition region_covered :: "tail_meta_entry list \<Rightarrow> byte list" where
  "region_covered es =
     fields_bytes es @ le_bytes 4 (crc32c (fields_bytes es)) @ blocks_bytes es @ dir_bytes_of es"

lemma length_fields_bytes [simp]: "length (fields_bytes es) = 36"
  by (simp add: fields_bytes_def)

lemma header_sizes [simp]: "kHeaderFields = 36" "kHeaderSize = 40" "kRegionChecksumSize = 4"
  by (simp_all add: kHeaderFields_def kHeaderSize_def kRegionChecksumSize_def)

lemma tail_meta_region_finish_bytes:
  "tail_meta_region_finish es sink = sink @ region_covered es @ le_bytes 4 (crc32c (region_covered es))"
proof -
  have "layout_entries (of_nat kHeaderSize) es = (layout_dir es, 40 + of_nat (length (blocks_bytes es)))"
    using layout_entries_end [of 40 es] by (simp add: layout_dir_def prod_eq_iff)
  then show ?thesis
    by (simp add: tail_meta_region_finish_def Let_def sink_defs fold_put_entries region_covered_def
        fields_bytes_def region_fields_def dir_bytes_of_def add_ac)
qed

definition tail_meta_fits :: "tail_meta_entry list \<Rightarrow> bool" where
  "tail_meta_fits es =
     (length es < 2 ^ 32 \<and> (\<forall>e \<in> set es. length (tme_suffix e) < 2 ^ 32) \<and>
      length (tail_meta_region_finish es []) < 2 ^ 64)"

lemma tail_meta_region_open_image:
  assumes len: "44 + length b + length d < 2 ^ 64" and n: "n < 2 ^ 32"
    and dir: "logical_index_directory_open d = Inr refs" "length refs = n"
  shows "tail_meta_region_open (region_image n b d) = Inr \<lparr>tmr_region = region_image n b d, tmr_dir = refs, tmr_n = of_nat n\<rparr>"
proof -
  let ?c = "region_body n b d" and ?f = "region_fields n b d"
  let ?r = "?f @ le_bytes 4 (crc32c ?f) @ b @ d @ le_bytes 4 (crc32c ?c)"
  have r: "region_image n b d = ?r" by (simp add: region_image_def) (simp add: region_body_def)
  have un: "unat (of_nat (40 + length b) :: u64) = 40 + length b" "unat (of_nat (length d) :: u64) = length d"
    "unat (of_nat (44 + length b + length d) :: u64) = 44 + length b + length d"
    "unat (of_nat (40 + length b + length d) :: u64) = 40 + length b + length d"
    using len by (intro unat_of_nat_u64, simp)+
  have sum: "of_nat (40 + length b) + of_nat (length d) = (of_nat (40 + length b + length d) :: u64)" by simp
  have g: "\<not> of_nat (44 + length b + length d) < (of_nat (40 + length b + length d) :: u64)"
    "\<not> of_nat (40 + length b) < (40 :: u64)"
    unfolding word_less_nat_alt un by simp_all
  have sl: "subslice ?r (40 + length b + length d) 4 = Inr (le_bytes 4 (crc32c ?c))"
    "subslice ?r 0 (40 + length b + length d) = Inr ?c" "subslice ?r 0 36 = Inr ?f"
    "subslice ?r 36 4 = Inr (le_bytes 4 (crc32c ?f))" "subslice ?r (40 + length b) (length d) = Inr d"
    by (simp_all add: subslice_def) (simp_all add: region_body_def)
  have lr: "length ?r = 44 + length b + length d" by simp
  have cov: "length ?r - 4 = 40 + length b + length d" by simp
  have n': "unat (of_nat n :: u32) = n" using n by simp
  have hd: "source ?f = source (le_bytes 4 (ucast kMetaFormatVersion :: u32) @ le_bytes 4 (0 :: u32) @
     le_bytes 8 (of_nat (44 + length b + length d) :: u64) @
     le_bytes 4 (of_nat n :: u32) @ le_bytes 8 (of_nat (40 + length b) :: u64) @
     le_bytes 8 (of_nat (length d) :: u64))" by (simp add: region_fields_def)
  show ?thesis
    unfolding r tail_meta_region_open_def Let_def header_sizes cov sl and_then_Inr
    unfolding lr hd
    by (simp add: codec_simps un sum g dir n' sl del: of_nat_add subslice_ok)
qed

lemma tail_meta_region_open_finish:
  assumes fits: "tail_meta_fits es"
  shows "tail_meta_region_open (tail_meta_region_finish es []) =
    Inr \<lparr>tmr_region = tail_meta_region_finish es [], tmr_dir = layout_dir es, tmr_n = of_nat (length es)\<rparr>"
proof -
  let ?d = "dir_bytes_of es" and ?b = "blocks_bytes es"
  have r: "tail_meta_region_finish es [] = region_image (length es) ?b ?d"
    by (simp add: tail_meta_region_finish_bytes region_covered_def fields_bytes_def region_image_def region_body_def)
  have len: "44 + length ?b + length ?d < 2 ^ 64"
    using fits by (simp add: tail_meta_fits_def r region_image_def) (simp add: region_body_def)
  have "length (index_dir.refs_payload (layout_dir es)) < 2 ^ 64"
    using len by (simp add: dir_bytes_of_def logical_index_directory_finish_bytes length_frame_bytes)
  then have dir: "logical_index_directory_open ?d = Inr (layout_dir es)"
    unfolding dir_bytes_of_def using fits
    by (intro logical_index_directory_roundtrip) (simp_all add: tail_meta_fits_def layout_dir_def layout_refs_ok)
  show ?thesis unfolding r using fits
    by (intro tail_meta_region_open_image [OF len _ dir]) (simp_all add: tail_meta_fits_def layout_dir_def)
qed

subsection \<open>Correctness\<close>

text \<open>C18: the tail meta region that was built opens, and finds for every key the meta block that was
  added under it (the first, when a key was added twice), or absence.\<close>

theorem tail_meta_region_lookup:
  assumes "tail_meta_fits es"
  shows "and_then (tail_meta_region_open (tail_meta_region_finish es []))
      (\<lambda>r. tail_meta_region_find r index_id idx_suffix) =
    Inr (map_of (map (\<lambda>e. ((tme_index_id e, tme_suffix e), tme_bytes e)) es) (index_id, idx_suffix))"
proof -
  let ?f = "fields_bytes es"
  let ?pre = "?f @ le_bytes 4 (crc32c ?f)" and ?post = "dir_bytes_of es @ le_bytes 4 (crc32c (region_covered es))"
  have r: "tail_meta_region_finish es [] = ?pre @ blocks_bytes es @ ?post"
    by (simp add: tail_meta_region_finish_bytes region_covered_def)
  have "length (?pre @ blocks_bytes es @ ?post) < 2 ^ 64"
    using assms unfolding tail_meta_fits_def r by blast
  from layout_find [OF this, of "of_nat (length es)" index_id idx_suffix] show ?thesis
    unfolding tail_meta_region_open_finish [OF assms] by (simp add: layout_dir_def entry_key_def r)
qed

definition sample_tail :: tail_meta_builder where
  "sample_tail = add_index 7 [98] [4] (add_index 7 [97] [1, 2, 3] [])"

theorem tail_meta_region_lookup_witness:
  "and_then (tail_meta_region_open (tail_meta_region_finish sample_tail []))
     (\<lambda>r. tail_meta_region_find r 7 [98]) = Inr (Some [4])"
proof -
  let ?d = "layout_dir sample_tail"
  have d: "?d = [\<lparr>lir_index_id = 7, lir_index_suffix = [97], lir_meta_off = 40, lir_meta_len = 3\<rparr>,
     \<lparr>lir_index_id = 7, lir_index_suffix = [98], lir_meta_off = 43, lir_meta_len = 1\<rparr>]"
    by (simp add: layout_dir_def sample_tail_def add_index_def)
  have "length (index_dir.refs_payload ?d) \<le> 100"
    using length_index_ref_bytes [of "?d ! 0"] length_index_ref_bytes [of "?d ! 1"] varint32_len_le_5 [of 2]
    by (simp add: index_dir.refs_payload_def d)
  then have "length (dir_bytes_of sample_tail) \<le> 200"
    using length_frame_le [of 7 "index_dir.refs_payload ?d"]
    by (simp add: dir_bytes_of_def logical_index_directory_finish_bytes)
  then have "tail_meta_fits sample_tail"
    by (simp add: tail_meta_fits_def tail_meta_region_finish_bytes region_covered_def)
      (simp add: sample_tail_def add_index_def)
  from tail_meta_region_lookup [OF this, of 7 "[98]"] show ?thesis by (simp add: sample_tail_def add_index_def)
qed



end
