(* ===== verification/Tail_Pointer.thy ===== *)
theory Tail_Pointer
  imports Section_Framer Format_Constants
begin

text \<open>
  The fixed-size footer that locates the tail meta region:
  \<open>src/core/src/format/tail_pointer.cpp\<close>.
\<close>

record tail_pointer =
  meta_region_offset :: u64
  meta_region_length :: u64
  hot_off :: u64
  meta_region_checksum :: u32
  bootstrap_header_checksum :: u32

definition tail_pointer_size :: nat where
  "tail_pointer_size = 4 + 2 + 3 * 8 + 2 * 4 + 1 + 4"

definition tp_checksum_coverage :: nat where
  "tp_checksum_coverage = tail_pointer_size - 4"

definition tp_serialize_covered :: "tail_pointer \<Rightarrow> byte_sink \<Rightarrow> byte_sink" where
  "tp_serialize_covered tp covered =
     (let covered = put_fixed32 kTailMagic covered;
          covered = put_fixed16 kFormatVersion covered;
          covered = put_fixed64 (meta_region_offset tp) covered;
          covered = put_fixed64 (meta_region_length tp) covered;
          covered = put_fixed64 (hot_off tp) covered;
          covered = put_fixed32 (meta_region_checksum tp) covered;
          covered = put_fixed32 (bootstrap_header_checksum tp) covered
      in put_u8 (of_nat tail_pointer_size) covered)"

definition encode_tail_pointer :: "tail_pointer \<Rightarrow> byte_sink \<Rightarrow> byte_sink result" where
  "encode_tail_pointer tp sink =
     (let covered = tp_serialize_covered tp [] in
      if length covered \<noteq> tp_checksum_coverage then Internal
      else
        let tail_checksum = crc32c covered;
            sink = put_bytes covered sink
        in Inr (put_fixed32 tail_checksum sink))"

definition decode_tail_pointer :: "byte list \<Rightarrow> tail_pointer result" where
  "decode_tail_pointer last_bytes =
     (if length last_bytes \<noteq> tail_pointer_size then Corruption
      else
        and_then (subslice last_bytes 0 tp_checksum_coverage) (\<lambda>covered.
        let src = source last_bytes in
        and_then (get_fixed32 src) (\<lambda>(magic, src).
        if magic \<noteq> kTailMagic then Corruption
        else
          and_then (get_fixed16 src) (\<lambda>(format_version, src).
          and_then (get_fixed64 src) (\<lambda>(off, src).
          and_then (get_fixed64 src) (\<lambda>(len, src).
          and_then (get_fixed64 src) (\<lambda>(hot, src).
          and_then (get_fixed32 src) (\<lambda>(region_crc, src).
          and_then (get_fixed32 src) (\<lambda>(bootstrap_crc, src).
          and_then (get_u8 src) (\<lambda>(on_disk_size, src).
          if unat on_disk_size \<noteq> tail_pointer_size then Corruption
          else
            and_then (get_fixed32 src) (\<lambda>(tail_checksum, src).
            if tail_checksum \<noteq> crc32c covered then Corruption
            else Inr \<lparr>meta_region_offset = off, meta_region_length = len, hot_off = hot,
                      meta_region_checksum = region_crc,
                      bootstrap_header_checksum = bootstrap_crc\<rparr>)))))))))))"

subsection \<open>Round trip\<close>

definition tp_covered :: "tail_pointer \<Rightarrow> byte list" where
  "tp_covered tp =
     le_bytes 4 kTailMagic @ le_bytes 2 kFormatVersion @ le_bytes 8 (meta_region_offset tp) @
     le_bytes 8 (meta_region_length tp) @ le_bytes 8 (hot_off tp) @
     le_bytes 4 (meta_region_checksum tp) @ le_bytes 4 (bootstrap_header_checksum tp) @ [43]"

lemma encode_tail_pointer_bytes [put_simps]:
  "encode_tail_pointer tp sink = Inr (sink @ tp_covered tp @ le_bytes 4 (crc32c (tp_covered tp)))"
  by (simp add: encode_tail_pointer_def tp_serialize_covered_def put_simps tp_covered_def
      tp_checksum_coverage_def tail_pointer_size_def Let_def)

lemma decode_tail_pointer_layout:
  "decode_tail_pointer (tp_covered tp @ le_bytes 4 stored) =
     (if stored = crc32c (tp_covered tp) then Inr tp else Corruption)"
proof -
  have len: "length (tp_covered tp) = 39" by (simp add: tp_covered_def)
  then show ?thesis
    by (simp add: decode_tail_pointer_def tail_pointer_size_def tp_checksum_coverage_def)
      (auto simp: tp_covered_def codec_simps Let_def tail_pointer_size_def intro!: exI [of _ "43 :: byte"])
qed

lemma decode_tail_pointer_error:
  "decode_tail_pointer last_bytes = Inl e \<Longrightarrow> e = Status kCorruption"
  by (auto simp: decode_tail_pointer_def Let_def and_then_eq_Inl tail_pointer_size_def
      tp_checksum_coverage_def get_fixed16_def get_fixed64_def
      dest: get_fixed32_error get_u8_error split: if_splits)

subsection \<open>Correctness\<close>

lemma decode_tail_pointer_crc:
  assumes "decode_tail_pointer bs = Inr tp"
  shows "length bs = 43" and "crc32c (take 39 bs) = load_le 4 bs 39"
proof -
  from assms show len: "length bs = 43"
    by (simp add: decode_tail_pointer_def tail_pointer_size_def split: if_splits)
  from assms show "crc32c (take 39 bs) = load_le 4 bs 39"
    by (auto simp: decode_tail_pointer_def tail_pointer_size_def tp_checksum_coverage_def Let_def len
        get_fixed16_def get_fixed32_def get_fixed64_def get_u8_def split: if_splits)
qed

lemma load_le_inj:
  assumes "load_le 4 xs p = (load_le 4 ys p :: u32)" "p + 4 \<le> length xs" "p + 4 \<le> length ys"
  shows "take 4 (drop p xs) = take 4 (drop p ys)"
  using le_bytes_load [of 4 p xs, where 'a = 32] le_bytes_load [of 4 p ys, where 'a = 32] assms by simp

text \<open>C31: a tail pointer is 43 bytes and reads back; after a change of any one of the bytes the
  reader reports corruption.\<close>

theorem tail_pointer_integrity:
  assumes i: "i < 43"
  shows "\<exists>bs. encode_tail_pointer tp [] = Inr bs \<and> length bs = 43 \<and> decode_tail_pointer bs = Inr tp \<and>
    (\<forall>b. b = bs ! i \<or> decode_tail_pointer (bs[i := b]) = Corruption)"
proof -
  let ?c = "tp_covered tp"
  let ?bs = "?c @ le_bytes 4 (crc32c ?c)"
  have lc: "length ?c = 39" by (simp add: tp_covered_def)
  have good: "decode_tail_pointer ?bs = Inr tp" by (simp add: decode_tail_pointer_layout)
  have "decode_tail_pointer (?bs[i := b]) = Corruption" if b: "b \<noteq> ?bs ! i" for b
  proof (cases "decode_tail_pointer (?bs[i := b])")
    case (Inl e)
    then show ?thesis using decode_tail_pointer_error by blast
  next
    case (Inr tp')
    note crc = decode_tail_pointer_crc(2) [OF good] decode_tail_pointer_crc(2) [OF Inr]
    have len: "length ?bs = 43" using lc by simp
    show ?thesis
    proof (cases "i < 39")
      case True
      have "take 39 (?bs[i := b]) = take i ?bs @ b # take (38 - i) (drop (Suc i) ?bs)"
        using True len by (simp add: upd_conv_take_nth_drop take_Cons' flip: diff_Suc)
      moreover have "take 39 ?bs = take i ?bs @ ?bs ! i # take (38 - i) (drop (Suc i) ?bs)"
        using True len by (subst id_take_nth_drop [of i ?bs]) (simp_all add: take_Cons')
      moreover have "load_le 4 (?bs[i := b]) 39 = (load_le 4 ?bs 39 :: u32)"
        using True len by (simp add: load_le_def cong: foldl_cong)
      ultimately have "b = ?bs ! i" using crc crc32c_change by metis
      with b show ?thesis by simp
    next
      case False
      then have "take 39 (?bs[i := b]) = take 39 ?bs" by simp
      with crc load_le_inj [of ?bs 39 "?bs[i := b]"] len
      have "take 4 (drop 39 ?bs) = take 4 (drop 39 (?bs[i := b]))" by simp
      then have "take 4 (drop 39 ?bs) ! (i - 39) = take 4 (drop 39 (?bs[i := b])) ! (i - 39)" by simp
      then have "?bs ! i = b" using False i len by (simp add: nth_append)
      with b show ?thesis by simp
    qed
  qed
  moreover have "encode_tail_pointer tp [] = Inr ?bs" by (simp add: put_simps)
  ultimately show ?thesis using good lc by auto
qed

theorem tail_pointer_integrity_witness:
  "\<exists>bs. encode_tail_pointer \<lparr>meta_region_offset = 1000, meta_region_length = 50, hot_off = 0,
      meta_region_checksum = 7, bootstrap_header_checksum = 9\<rparr> [] = Inr bs \<and> length bs = 43"
  using tail_pointer_integrity [of 6 "\<lparr>meta_region_offset = 1000, meta_region_length = 50, hot_off = 0,
      meta_region_checksum = 7, bootstrap_header_checksum = 9\<rparr>"] by auto

end
