(* ===== verification/Bootstrap_Header.thy ===== *)
theory Bootstrap_Header
  imports Section_Framer Format_Constants
begin

text \<open>
  The fixed 21-byte container header: \<open>src/core/src/format/bootstrap_header.cpp\<close>.
\<close>

record bootstrap_header =
  bh_magic :: u32
  bh_format_version :: u16
  bh_min_reader_version :: u16
  bh_flags :: u32
  bh_header_length :: u32
  bh_tail_pointer_size :: byte

definition kBootstrapHeaderSize :: nat where
  "kBootstrapHeaderSize = 4 + 2 + 2 + 4 + 4 + 1 + 4"

definition version_pair :: "bootstrap_header \<Rightarrow> u32" where
  "version_pair header =
     push_bit 16 (ucast (bh_min_reader_version header)) OR ucast (bh_format_version header)"

definition bh_encode_fields :: "bootstrap_header \<Rightarrow> byte_sink \<Rightarrow> byte_sink" where
  "bh_encode_fields header sink =
     (let sink = put_fixed32 (bh_magic header) sink;
          sink = put_fixed32 (version_pair header) sink;
          sink = put_fixed32 (bh_flags header) sink;
          sink = put_fixed32 (of_nat kBootstrapHeaderSize) sink
      in put_u8 (bh_tail_pointer_size header) sink)"

definition encode_bootstrap_header :: "bootstrap_header \<Rightarrow> byte_sink \<Rightarrow> byte_sink" where
  "encode_bootstrap_header header sink =
     (let fields = bh_encode_fields header [];
          checksum = crc32c fields;
          sink = put_bytes fields sink
      in put_fixed32 checksum sink)"

definition decode_bootstrap_header :: "byte list \<Rightarrow> bootstrap_header result" where
  "decode_bootstrap_header data =
     (if length data \<noteq> kBootstrapHeaderSize then Corruption
      else
        let src = source data in
        and_then (get_fixed32 src) (\<lambda>(magic, src).
        and_then (get_fixed32 src) (\<lambda>(version_pair, src).
        and_then (get_fixed32 src) (\<lambda>(flags, src).
        and_then (get_fixed32 src) (\<lambda>(header_length, src).
        and_then (get_u8 src) (\<lambda>(tail_pointer_size, src).
        and_then (get_fixed32 src) (\<lambda>(stored_checksum, src).
        if magic \<noteq> kContainerMagic then Corruption
        else
          and_then (subslice data 0 (kBootstrapHeaderSize - 4)) (\<lambda>covered.
          if crc32c covered \<noteq> stored_checksum then Corruption
          else
            let min_reader_version = (ucast (drop_bit 16 version_pair AND 0xFFFF) :: u16) in
            if min_reader_version > kFormatVersion then Unsupported
            else Inr \<lparr>bh_magic = magic,
                      bh_format_version = ucast (version_pair AND 0xFFFF),
                      bh_min_reader_version = min_reader_version,
                      bh_flags = flags,
                      bh_header_length = header_length,
                      bh_tail_pointer_size = tail_pointer_size\<rparr>))))))))"

subsection \<open>Round trip\<close>

lemma version_pair_halves:
  "(ucast (drop_bit 16 (version_pair h) AND 0xFFFF) :: u16) = bh_min_reader_version h"
  "(ucast (version_pair h AND 0xFFFF) :: u16) = bh_format_version h"
  unfolding mask_literals version_pair_def
  by (rule bit_word_eqI, auto simp: bit_simps dest: bit_imp_le_length)+

definition bh_covered :: "bootstrap_header \<Rightarrow> byte list" where
  "bh_covered h =
     le_bytes 4 (bh_magic h) @
     le_bytes 4 (version_pair h) @
     le_bytes 4 (bh_flags h) @ le_bytes 4 (21 :: u32) @ [bh_tail_pointer_size h]"

lemma encode_bootstrap_header_bytes [put_simps]:
  "encode_bootstrap_header h sink = sink @ bh_covered h @ le_bytes 4 (crc32c (bh_covered h))"
  by (simp add: encode_bootstrap_header_def bh_encode_fields_def put_simps bh_covered_def
      kBootstrapHeaderSize_def)

text \<open>What the parser does on the 21 bytes of any header with any checksum field: which check
  fails first decides the status.\<close>

lemma decode_bootstrap_header_layout:
  "decode_bootstrap_header (bh_covered h @ le_bytes 4 stored) =
     (if bh_magic h \<noteq> kContainerMagic then Corruption
      else if crc32c (bh_covered h) \<noteq> stored then Corruption
      else if bh_min_reader_version h > kFormatVersion then Unsupported
      else Inr (h\<lparr>bh_header_length := 21\<rparr>))"
proof -
  have len: "length (bh_covered h) = 17" by (simp add: bh_covered_def)
  then have sl: "subslice (bh_covered h @ le_bytes 4 stored) 0 17 = Inr (bh_covered h)" by simp
  have "decode_bootstrap_header (bh_covered h @ le_bytes 4 stored) =
     (if bh_magic h \<noteq> kContainerMagic then Corruption
      else if crc32c (bh_covered h) \<noteq> stored then Corruption
      else if bh_min_reader_version h > kFormatVersion then Unsupported
      else Inr \<lparr>bh_magic = bh_magic h, bh_format_version = bh_format_version h,
        bh_min_reader_version = bh_min_reader_version h, bh_flags = bh_flags h,
        bh_header_length = 21, bh_tail_pointer_size = bh_tail_pointer_size h\<rparr>)"
    using len sl
    by (simp add: decode_bootstrap_header_def kBootstrapHeaderSize_def)
      (auto simp: bh_covered_def codec_simps version_pair_halves Let_def kBootstrapHeaderSize_def)
  then show ?thesis by simp
qed

lemma decode_bootstrap_header_safe: "decode_bootstrap_header data \<noteq> Inl OutOfBounds"
  by (auto simp: decode_bootstrap_header_def Let_def and_then_eq_Inl kBootstrapHeaderSize_def
      dest: get_fixed32_error get_u8_error split: if_splits)

subsection \<open>Correctness\<close>

text \<open>C36: the header written for a container is 21 bytes and reads back with its version numbers
  and flags; a wrong magic is corruption, and a header that demands a newer reader is unsupported.\<close>

theorem bootstrap_header_roundtrip:
  "length (encode_bootstrap_header h []) = kBootstrapHeaderSize \<and>
   decode_bootstrap_header (encode_bootstrap_header h []) =
     (if bh_magic h \<noteq> kContainerMagic then Corruption
      else if bh_min_reader_version h > kFormatVersion then Unsupported
      else Inr (h\<lparr>bh_header_length := 21\<rparr>))"
  using decode_bootstrap_header_layout [of h "crc32c (bh_covered h)"]
  by (simp add: put_simps kBootstrapHeaderSize_def bh_covered_def)

end
