(* ===== verification/Segment.thy ===== *)
theory Segment
  imports Logical_Index_Writer Logical_Index_Reader Tail_Meta_Region Tail_Pointer Bootstrap_Header
begin

text \<open>
  The container: \<open>src/core/src/writer/snii_compound_writer.cpp\<close> writes it front to back,
  \<open>src/core/src/reader/snii_segment_reader.cpp\<close> opens it from its two ends. The layout is the bootstrap
  header, the posting and DICT region of every index, all norms, all filters, the tail meta region and
  the tail pointer.
\<close>

subsection \<open>SniiCompoundWriter\<close>

record placement =
  pl_dict_off :: u64
  pl_dict_len :: u64
  pl_post_off :: u64
  pl_post_len :: u64
  pl_norms_off :: u64
  pl_norms_len :: u64
  pl_bsbf_off :: u64
  pl_bsbf_len :: u64

record compound_writer =
  cw_out :: file_out
  cw_indexes :: "logical_index_writer list"
  cw_placements :: "placement list"
  cw_bootstrap_written :: bool
  cw_finished :: bool

definition compound_writer_new :: compound_writer where
  "compound_writer_new = \<lparr>cw_out = [], cw_indexes = [], cw_placements = [], cw_bootstrap_written = False, cw_finished = False\<rparr>"

definition cw_append :: "host \<Rightarrow> byte list \<Rightarrow> file_out \<Rightarrow> file_out result" where
  "cw_append h bytes out = (if bytes = [] then Inr out else fw_append h bytes out)"

definition new_bootstrap_header :: bootstrap_header where
  "new_bootstrap_header =
     \<lparr>bh_magic = kContainerMagic, bh_format_version = kFormatVersion, bh_min_reader_version = kMinReaderVersion,
      bh_flags = 0, bh_header_length = 0, bh_tail_pointer_size = of_nat tail_pointer_size\<rparr>"

definition write_bootstrap :: "host \<Rightarrow> file_out \<Rightarrow> file_out result" where
  "write_bootstrap h out = cw_append h (encode_bootstrap_header new_bootstrap_header []) out"

definition ensure_bootstrap :: "host \<Rightarrow> compound_writer \<Rightarrow> compound_writer result" where
  "ensure_bootstrap h c =
     (if cw_bootstrap_written c then Inr c
      else and_then (write_bootstrap h (cw_out c)) (\<lambda>out. Inr (c\<lparr>cw_bootstrap_written := True, cw_out := out\<rparr>)))"

definition add_logical_index :: "host \<Rightarrow> snii_index_input \<Rightarrow> compound_writer \<Rightarrow> compound_writer result" where
  "add_logical_index h inp c =
     (if cw_finished c then Internal
      else
        and_then (ensure_bootstrap h c) (\<lambda>c.
        let liw = logical_index_writer_new inp; post_off = fw_bytes_written (cw_out c) in
        and_then (build h (cw_out c) liw) (\<lambda>(liw, out).
        let post_len = fw_bytes_written out - post_off; dict_off = fw_bytes_written out in
        and_then (stream_into h (lw_dict_buf liw) out) (\<lambda>out.
        let p = \<lparr>pl_dict_off = dict_off, pl_dict_len = fw_bytes_written out - dict_off, pl_post_off = post_off,
                 pl_post_len = post_len, pl_norms_off = 0, pl_norms_len = 0, pl_bsbf_off = 0, pl_bsbf_len = 0\<rparr>
        in Inr (c\<lparr>cw_out := out, cw_indexes := cw_indexes c @ [liw], cw_placements := cw_placements c @ [p]\<rparr>)))))"

text \<open>The two loops of \<open>write_norms\<close>.\<close>

fun place_norms ::
  "host \<Rightarrow> logical_index_writer list \<Rightarrow> placement list \<Rightarrow> file_out \<Rightarrow> (placement list \<times> file_out) result" where
  "place_norms h (w # ws) (p # ps) out =
     (if \<not> lw_has_norms w \<or> lw_norms_section w = [] then
        and_then (place_norms h ws ps out) (\<lambda>(ps, out). Inr (p # ps, out))
      else
        and_then (cw_append h (lw_norms_section w) out) (\<lambda>out'.
        and_then (place_norms h ws ps out') (\<lambda>(ps, out'').
        Inr (p\<lparr>pl_norms_off := fw_bytes_written out, pl_norms_len := fw_bytes_written out' - fw_bytes_written out\<rparr> # ps, out''))))"
| "place_norms h ws ps out = Inr (ps, out)"

fun place_bsbf ::
  "host \<Rightarrow> logical_index_writer list \<Rightarrow> placement list \<Rightarrow> file_out \<Rightarrow> (placement list \<times> file_out) result" where
  "place_bsbf h (w # ws) (p # ps) out =
     (if lw_bsbf_bytes w = [] then
        and_then (place_bsbf h ws ps out) (\<lambda>(ps, out). Inr (p # ps, out))
      else
        and_then (cw_append h (lw_bsbf_bytes w) out) (\<lambda>out'.
        and_then (place_bsbf h ws ps out') (\<lambda>(ps, out'').
        Inr (p\<lparr>pl_bsbf_off := fw_bytes_written out, pl_bsbf_len := fw_bytes_written out' - fw_bytes_written out\<rparr> # ps, out''))))"
| "place_bsbf h ws ps out = Inr (ps, out)"

definition write_norms :: "host \<Rightarrow> compound_writer \<Rightarrow> compound_writer result" where
  "write_norms h c =
     and_then (place_norms h (cw_indexes c) (cw_placements c) (cw_out c)) (\<lambda>(ps, out).
     and_then (place_bsbf h (cw_indexes c) ps out) (\<lambda>(ps, out).
     Inr (c\<lparr>cw_placements := ps, cw_out := out\<rparr>)))"

definition section_refs_of :: "placement \<Rightarrow> section_refs" where
  "section_refs_of p =
     \<lparr>sr_dict_region = \<lparr>rr_offset = pl_dict_off p, rr_length = pl_dict_len p\<rparr>,
      sr_posting_region = \<lparr>rr_offset = pl_post_off p, rr_length = pl_post_len p\<rparr>,
      sr_norms = \<lparr>rr_offset = pl_norms_off p, rr_length = pl_norms_len p\<rparr>,
      sr_null_bitmap = no_region,
      sr_bsbf = \<lparr>rr_offset = pl_bsbf_off p, rr_length = pl_bsbf_len p\<rparr>\<rparr>"

definition tail_region_builder :: "compound_writer \<Rightarrow> tail_meta_builder" where
  "tail_region_builder c =
     fold (\<lambda>(w, p). add_index (lw_index_id w) (lw_index_suffix w) (finish_meta (section_refs_of p) (pl_dict_off p) w))
       (zip (cw_indexes c) (cw_placements c)) []"

definition write_tail :: "host \<Rightarrow> compound_writer \<Rightarrow> compound_writer result" where
  "write_tail h c =
     (let region_sink = tail_meta_region_finish (tail_region_builder c) [];
          region_off = fw_bytes_written (cw_out c) in
      and_then (cw_append h region_sink (cw_out c)) (\<lambda>out.
      let region_len = fw_bytes_written out - region_off;
          tp = \<lparr>meta_region_offset = region_off, meta_region_length = region_len, hot_off = 0,
                meta_region_checksum = crc32c region_sink, bootstrap_header_checksum = 0\<rparr> in
      and_then (encode_tail_pointer tp []) (\<lambda>tail_sink.
      and_then (cw_append h tail_sink out) (\<lambda>out. Inr (c\<lparr>cw_out := out\<rparr>)))))"

definition compound_finish :: "host \<Rightarrow> compound_writer \<Rightarrow> compound_writer result" where
  "compound_finish h c =
     (if cw_finished c then Internal
      else
        let c = c\<lparr>cw_finished := True\<rparr> in
        and_then (ensure_bootstrap h c) (\<lambda>c.
        and_then (write_norms h c) (\<lambda>c.
        and_then (write_tail h c) (\<lambda>c.
        and_then (fw_finalize h (cw_out c)) (\<lambda>out. Inr (c\<lparr>cw_out := out\<rparr>))))))"

subsection \<open>SniiSegmentReader\<close>

text \<open>A \<open>FileReader\<close> is its \<open>read_at\<close> and its \<open>size\<close>.\<close>

definition ReadBootstrap :: "file_reader \<Rightarrow> bootstrap_header result" where
  "ReadBootstrap read_at = and_then (read_at 0 (of_nat kBootstrapHeaderSize)) decode_bootstrap_header"

definition ReadTailPointer :: "file_reader \<Rightarrow> u64 \<Rightarrow> tail_pointer result" where
  "ReadTailPointer read_at fsize =
     (if fsize < of_nat tail_pointer_size then Corruption
      else and_then (read_at (fsize - of_nat tail_pointer_size) (of_nat tail_pointer_size)) decode_tail_pointer)"

record segment_reader =
  seg_read_at :: file_reader
  seg_meta_region :: "byte list"
  seg_region_reader :: tail_meta_region_reader

definition segment_open :: "file_reader \<Rightarrow> u64 \<Rightarrow> segment_reader result" where
  "segment_open read_at fsize =
     and_then (ReadBootstrap read_at) (\<lambda>bh.
     and_then (ReadTailPointer read_at fsize) (\<lambda>tp.
     if meta_region_length tp = 0 then Corruption
     else
       and_then (read_at (meta_region_offset tp) (meta_region_length tp)) (\<lambda>region.
       if crc32c region \<noteq> meta_region_checksum tp then Corruption
       else
         and_then (tail_meta_region_open region) (\<lambda>rr.
         Inr \<lparr>seg_read_at = read_at, seg_meta_region = region, seg_region_reader = rr\<rparr>))))"

definition open_index :: "host \<Rightarrow> segment_reader \<Rightarrow> u64 \<Rightarrow> byte list \<Rightarrow> logical_index_reader result" where
  "open_index h seg index_id idx_suffix =
     and_then (tail_meta_region_find (seg_region_reader seg) index_id idx_suffix) (\<lambda>found.
     case found of
       None \<Rightarrow> NotFound
     | Some meta_bytes \<Rightarrow>
         and_then (per_index_meta_open meta_bytes) (\<lambda>meta.
         let has_norms = (rr_length (sr_norms (pmr_section_refs meta)) > 0);
             has_pos = (pmr_has_positions meta \<or> has_norms);
             tier = (if has_norms then kT3 else if has_pos then kT2 else kT1)
         in logical_index_open h (seg_read_at seg) tier has_pos meta_bytes))"

end
