(* ===== verification/Batch_Range_Fetcher.thy ===== *)
theory Batch_Range_Fetcher
  imports File_Io
begin

text \<open>
  The batching layer of the read path: \<open>src/core/src/io/batch_range_fetcher.cpp\<close>. Requested ranges
  are swept in offset order and merged into physical reads; each request remembers the physical read
  and the offset in it.
\<close>

record range_req =
  rq_offset :: u64
  rq_len :: u64
  rq_len_size :: u64
  rq_phys_idx :: nat
  rq_sub_offset :: u64

record batch_range_fetcher =
  brf_coalesce_gap :: u64
  brf_reqs :: "range_req list"
  brf_phys :: "byte list list"

definition checked_end :: "u64 \<Rightarrow> u64 \<Rightarrow> u64 result" where
  "checked_end offset len = (if len > (- 1) - offset then Corruption else Inr (offset + len))"

text \<open>\<open>size_t\<close> is 64 bits wide, so the bound is the largest \<open>u64\<close>.\<close>

definition checked_size :: "u64 \<Rightarrow> u64 result" where
  "checked_size len = (if len > - 1 then Corruption else Inr len)"

definition batch_range_fetcher_new :: "u64 \<Rightarrow> batch_range_fetcher" where
  "batch_range_fetcher_new gap = \<lparr>brf_coalesce_gap = gap, brf_reqs = [], brf_phys = []\<rparr>"

definition brf_add :: "u64 \<Rightarrow> u64 \<Rightarrow> batch_range_fetcher \<Rightarrow> nat \<times> batch_range_fetcher" where
  "brf_add offset len f =
     (let reqs = brf_reqs f @ [\<lparr>rq_offset = offset, rq_len = len, rq_len_size = 0, rq_phys_idx = 0,
            rq_sub_offset = 0\<rparr>]
      in (length reqs - 1, f\<lparr>brf_reqs := reqs\<rparr>))"

definition brf_clear :: "batch_range_fetcher \<Rightarrow> batch_range_fetcher" where
  "brf_clear f = f\<lparr>brf_reqs := [], brf_phys := []\<rparr>"

text \<open>The sweep over the requests in the order \<open>order\<close>; \<open>cur_start\<close> and \<open>cur_end\<close> bound the
  segment being grown, the last of \<open>segs\<close>.\<close>

fun sweep :: "u64 \<Rightarrow> nat list \<Rightarrow> range_req list \<Rightarrow> file_range list \<Rightarrow> u64 \<Rightarrow> u64 \<Rightarrow>
    (range_req list \<times> file_range list) result" where
  "sweep gap [] reqs segs cur_start cur_end = Inr (reqs, segs)"
| "sweep gap (k # order) reqs segs cur_start cur_end =
     (let r = reqs ! k in
      and_then (checked_end (rq_offset r) (rq_len r)) (\<lambda>r_end.
      and_then (checked_size (rq_len r)) (\<lambda>len_size.
      let disjoint = (rq_offset r > cur_end \<and> rq_offset r - cur_end > gap);
          (segs, cur_start, cur_end) =
            (if segs = [] \<or> disjoint
             then (segs @ [\<lparr>rg_offset = rq_offset r, rg_len = 0\<rparr>], rq_offset r, r_end)
             else (segs, cur_start, max cur_end r_end))
      in and_then (checked_size (rq_offset r - cur_start)) (\<lambda>sub_offset.
         and_then (checked_size (cur_end - cur_start)) (\<lambda>seg_len.
         sweep gap order
           (reqs[k := r\<lparr>rq_len_size := len_size, rq_phys_idx := length segs - 1, rq_sub_offset := sub_offset\<rparr>])
           (segs[length segs - 1 := (last segs)\<lparr>rg_len := seg_len\<rparr>]) cur_start cur_end)))))"

text \<open>\<open>std::sort\<close> may leave requests with the same offset in any order: \<open>brf_fetch\<close> takes the order
  it produced, and \<open>sort_order\<close> states what the standard guarantees of it.\<close>

definition sort_order :: "range_req list \<Rightarrow> nat list \<Rightarrow> bool" where
  "sort_order reqs order =
     (distinct order \<and> set order = {..<length reqs} \<and> sorted (map (\<lambda>i. rq_offset (reqs ! i)) order))"

definition brf_fetch :: "file_reader \<Rightarrow> nat list \<Rightarrow> batch_range_fetcher \<Rightarrow> batch_range_fetcher result" where
  "brf_fetch read_at order f =
     (if brf_reqs f = [] then Inr (f\<lparr>brf_phys := []\<rparr>)
      else
        and_then (sweep (brf_coalesce_gap f) order (brf_reqs f) [] 0 0) (\<lambda>(reqs, segs).
        and_then (read_batch read_at segs) (\<lambda>phys.
        Inr (f\<lparr>brf_reqs := reqs, brf_phys := phys\<rparr>))))"

definition brf_get :: "batch_range_fetcher \<Rightarrow> nat \<Rightarrow> byte list result" where
  "brf_get f h =
     (if h < length (brf_reqs f) then
        let r = brf_reqs f ! h in
        if rq_phys_idx r < length (brf_phys f)
        then subslice (brf_phys f ! rq_phys_idx r) (unat (rq_sub_offset r)) (unat (rq_len_size r))
        else Inl OutOfBounds
      else Inl OutOfBounds)"

subsection \<open>The sweep\<close>

lemma checked_end_Inr:
  "checked_end off len = Inr e \<longleftrightarrow> unat off + unat len < 2 ^ 64 \<and> e = off + len"
proof -
  have "unat (- 1 :: u64) = 2 ^ 64 - 1" by (simp add: unsigned_minus_1_eq_mask mask_eq_exp_minus_1)
  moreover have "off \<le> - 1" by simp
  ultimately have "unat (- 1 - off) = 2 ^ 64 - 1 - unat off" by (simp add: unat_sub)
  then show ?thesis
    using unat_u64_less [of off] by (auto simp: checked_end_def word_less_nat_alt split: if_splits)
qed

lemma checked_size_Inr [simp]: "checked_size len = Inr len"
  by (simp add: checked_size_def not_less)

text \<open>Request \<open>r\<close> lies in its physical segment.\<close>

definition covered_by :: "file_range list \<Rightarrow> range_req \<Rightarrow> bool" where
  "covered_by segs r =
     (rq_phys_idx r < length segs \<and> rq_len_size r = rq_len r \<and>
      (let s = segs ! rq_phys_idx r in
       unat (rg_offset s) + unat (rq_sub_offset r) = unat (rq_offset r) \<and>
       unat (rq_sub_offset r) + unat (rq_len r) \<le> unat (rg_len s)))"

text \<open>The state of the sweep: the requests \<open>done\<close> are covered, and the last segment is
  \<open>[cur_start, cur_end)\<close>, which starts before every request still to come.\<close>

definition sweep_inv :: "nat set \<Rightarrow> nat list \<Rightarrow> range_req list \<Rightarrow> file_range list \<Rightarrow> u64 \<Rightarrow> u64 \<Rightarrow> bool" where
  "sweep_inv finished order reqs segs cur_start cur_end =
     ((\<forall>j \<in> finished. covered_by segs (reqs ! j)) \<and>
      (segs \<noteq> [] \<longrightarrow> rg_offset (last segs) = cur_start \<and> cur_start \<le> cur_end \<and>
         rg_len (last segs) = cur_end - cur_start \<and>
         (\<forall>k \<in> set order. cur_start \<le> rq_offset (reqs ! k))))"

lemma covered_by_grow:
  assumes "covered_by segs r" and "rg_offset s = rg_offset (last segs)"
    and "unat (rg_len (last segs)) \<le> unat (rg_len s)"
  shows "covered_by (segs[length segs - 1 := s]) r"
proof -
  have ne: "segs \<noteq> []" using assms(1) by (auto simp: covered_by_def)
  show ?thesis
  proof (cases "rq_phys_idx r = length segs - 1")
    case True
    then have "segs ! rq_phys_idx r = last segs" using ne by (simp add: last_conv_nth)
    with assms True ne show ?thesis by (auto simp: covered_by_def Let_def)
  next
    case False
    with assms(1) show ?thesis by (auto simp: covered_by_def Let_def)
  qed
qed

lemma covered_by_snoc: "covered_by segs r \<Longrightarrow> covered_by (segs @ [s]) r"
  by (auto simp: covered_by_def Let_def nth_append)

lemma sweep_step:
  assumes inv: "sweep_inv finished (k # order) reqs segs cur_start cur_end"
    and k: "k < length reqs" "k \<notin> finished" "k \<notin> set order"
    and srt: "\<forall>j \<in> set order. rq_offset (reqs ! k) \<le> rq_offset (reqs ! j)"
    and fit: "unat (rq_offset (reqs ! k)) + unat (rq_len (reqs ! k)) < 2 ^ 64"
    and grown: "(segs', start', stop') =
      (if segs = [] \<or> d then (segs @ [\<lparr>rg_offset = rq_offset (reqs ! k), rg_len = 0\<rparr>],
          rq_offset (reqs ! k), rq_offset (reqs ! k) + rq_len (reqs ! k))
       else (segs, cur_start, max cur_end (rq_offset (reqs ! k) + rq_len (reqs ! k))))"
  shows "sweep_inv (insert k finished) order
     (reqs[k := (reqs ! k)\<lparr>rq_len_size := rq_len (reqs ! k), rq_phys_idx := length segs' - 1,
        rq_sub_offset := rq_offset (reqs ! k) - start'\<rparr>])
     (segs'[length segs' - 1 := (last segs')\<lparr>rg_len := stop' - start'\<rparr>]) start' stop'"
proof -
  let ?r = "reqs ! k"
  let ?r' = "?r\<lparr>rq_len_size := rq_len ?r, rq_phys_idx := length segs' - 1, rq_sub_offset := rq_offset ?r - start'\<rparr>"
  let ?s = "(last segs')\<lparr>rg_len := stop' - start'\<rparr>"
  let ?segs = "segs'[length segs' - 1 := ?s]"
  have e: "unat (rq_offset ?r + rq_len ?r) = unat (rq_offset ?r) + unat (rq_len ?r)"
    using fit by (simp add: unat_word_ariths(1))
  have ne: "segs' \<noteq> []" using grown by (auto split: if_splits)
  have off: "rg_offset (last segs') = start'" using grown inv by (auto simp: sweep_inv_def split: if_splits)
  have st: "start' \<le> rq_offset ?r" using grown inv by (auto simp: sweep_inv_def split: if_splits)
  have "rq_offset ?r \<le> rq_offset ?r + rq_len ?r" using e by (simp add: word_le_nat_alt)
  then have en: "rq_offset ?r + rq_len ?r \<le> stop'" "start' \<le> stop'"
    using grown inv by (auto simp: sweep_inv_def le_max_iff_disj split: if_splits)
  have lens: "unat (rq_offset ?r - start') = unat (rq_offset ?r) - unat start'"
    "unat (stop' - start') = unat stop' - unat start'"
    using st en by (simp_all add: unat_sub)
  have last': "last ?segs = ?s" using ne by (simp add: last_list_update)
  have cov: "covered_by ?segs ?r'"
    using ne st en lens off e by (auto simp: covered_by_def Let_def word_le_nat_alt)
  have old: "covered_by ?segs (reqs ! j)" if j: "j \<in> finished" for j
  proof -
    have cj: "covered_by segs (reqs ! j)" using inv j by (simp add: sweep_inv_def)
    then have ne0: "segs \<noteq> []" by (auto simp: covered_by_def)
    show ?thesis
    proof (cases d)
      case True
      with grown have s': "segs' = segs @ [\<lparr>rg_offset = rq_offset ?r, rg_len = 0\<rparr>]" by simp
      have "covered_by (segs @ [?s]) (reqs ! j)" by (rule covered_by_snoc [OF cj])
      then show ?thesis by (simp add: s')
    next
      case False
      with grown ne0 have g: "segs' = segs" "start' = cur_start" "cur_end \<le> stop'" by (auto simp: le_max_iff_disj)
      have "rg_len (last segs) = cur_end - cur_start" "cur_start \<le> cur_end"
        using inv ne0 by (auto simp: sweep_inv_def)
      then have "unat (rg_len (last segs)) \<le> unat (stop' - start')"
        using g lens(2) by (simp add: unat_sub word_le_nat_alt)
      then show ?thesis using covered_by_grow [OF cj, of ?s] g by simp
    qed
  qed
  have fin: "covered_by ?segs (reqs[k := ?r'] ! j)" if "j \<in> insert k finished" for j
    using that cov old k by (cases "j = k") (simp_all add: nth_list_update_neq)
  have le: "start' \<le> rq_offset (reqs[k := ?r'] ! j)" if "j \<in> set order" for j
  proof -
    have "j \<noteq> k" using that k(3) by blast
    with srt that st show ?thesis by (simp add: nth_list_update_neq) (meson order.trans)
  qed
  show ?thesis
    unfolding sweep_inv_def last' using fin le off en(2) by simp
qed

lemma sweep_covers:
  assumes "sweep gap order reqs segs cur_start cur_end = Inr (reqs', segs')"
    and "sweep_inv finished order reqs segs cur_start cur_end"
    and "distinct order" and "set order \<inter> finished = {}" and "set order \<subseteq> {..<length reqs}"
    and "sorted (map (\<lambda>i. rq_offset (reqs ! i)) order)"
  shows "(\<forall>j \<in> finished \<union> set order. covered_by segs' (reqs' ! j)) \<and> length reqs' = length reqs \<and>
    map rq_offset reqs' = map rq_offset reqs \<and> map rq_len reqs' = map rq_len reqs"
  using assms
proof (induction order arbitrary: finished reqs segs cur_start cur_end)
  case Nil
  then show ?case by (simp add: sweep_inv_def)
next
  case (Cons k order)
  let ?r = "reqs ! k"
  let ?d = "rq_offset ?r > cur_end \<and> rq_offset ?r - cur_end > gap"
  obtain segs1 start1 stop1 where g: "(segs1, start1, stop1) =
      (if segs = [] \<or> ?d then (segs @ [\<lparr>rg_offset = rq_offset ?r, rg_len = 0\<rparr>], rq_offset ?r, rq_offset ?r + rq_len ?r)
       else (segs, cur_start, max cur_end (rq_offset ?r + rq_len ?r)))"
    by (metis prod_cases3)
  let ?reqs = "reqs[k := ?r\<lparr>rq_len_size := rq_len ?r, rq_phys_idx := length segs1 - 1,
        rq_sub_offset := rq_offset ?r - start1\<rparr>]"
  let ?segs = "segs1[length segs1 - 1 := (last segs1)\<lparr>rg_len := stop1 - start1\<rparr>]"
  have fit: "unat (rq_offset ?r) + unat (rq_len ?r) < 2 ^ 64"
    and run: "sweep gap order ?reqs ?segs start1 stop1 = Inr (reqs', segs')"
    using Cons.prems(1) g by (auto simp: checked_end_Inr Let_def split: prod.splits)
  have k: "k < length reqs" "k \<notin> finished" "k \<notin> set order" using Cons.prems by auto
  have srt: "\<forall>j \<in> set order. rq_offset ?r \<le> rq_offset (reqs ! j)" using Cons.prems(6) by simp
  have inv: "sweep_inv (insert k finished) order ?reqs ?segs start1 stop1"
    by (rule sweep_step [OF Cons.prems(2) k srt fit g])
  have same: "map rq_offset ?reqs = map rq_offset reqs" "map rq_len ?reqs = map rq_len reqs"
    using k(1) by (simp_all add: map_update list_update_same_conv)
  have eq: "map (\<lambda>i. rq_offset (?reqs ! i)) order = map (\<lambda>i. rq_offset (reqs ! i)) order"
    using k(3) by (intro map_cong refl) (metis nth_list_update_neq)
  have "sorted (map (\<lambda>i. rq_offset (?reqs ! i)) order)" unfolding eq using Cons.prems(6) by simp
  moreover have "distinct order" "set order \<inter> insert k finished = {}" "set order \<subseteq> {..<length ?reqs}"
    using Cons.prems(3-5) by auto
  ultimately show ?case using Cons.IH [OF run inv] unfolding same by auto
qed

subsection \<open>Correctness\<close>

lemma brf_get_fetch:
  assumes rd: "sound_reader read_at contents"
    and order: "sort_order (brf_reqs f) order"
    and fetch: "brf_fetch read_at order f = Inr f'" and h: "h < length (brf_reqs f)"
  shows "brf_get f' h = Inr (file_slice contents (rq_offset (brf_reqs f ! h)) (rq_len (brf_reqs f ! h))) \<and>
    unat (rq_offset (brf_reqs f ! h)) + unat (rq_len (brf_reqs f ! h)) \<le> length contents"
proof -
  let ?q = "brf_reqs f ! h"
  from fetch h obtain reqs segs phys where
    sw: "sweep (brf_coalesce_gap f) order (brf_reqs f) [] 0 0 = Inr (reqs, segs)" and
    rb: "read_batch read_at segs = Inr phys" and f': "f' = f\<lparr>brf_reqs := reqs, brf_phys := phys\<rparr>"
    by (auto simp: brf_fetch_def split: if_splits)
  have inv: "sweep_inv {} order (brf_reqs f) [] 0 0" by (simp add: sweep_inv_def)
  have "(\<forall>j \<in> {} \<union> set order. covered_by segs (reqs ! j)) \<and> length reqs = length (brf_reqs f) \<and>
    map rq_offset reqs = map rq_offset (brf_reqs f) \<and> map rq_len reqs = map rq_len (brf_reqs f)"
    using order by (intro sweep_covers [OF sw inv]) (auto simp: sort_order_def)
  then have cov: "covered_by segs (reqs ! h)" and len: "h < length reqs"
    and same: "rq_offset (reqs ! h) = rq_offset ?q" "rq_len (reqs ! h) = rq_len ?q"
    using order h by (auto simp: sort_order_def dest: map_eq_imp_length_eq) (metis nth_map)+
  let ?s = "segs ! rq_phys_idx (reqs ! h)"
  from cov have idx: "rq_phys_idx (reqs ! h) < length segs" and ls: "rq_len_size (reqs ! h) = rq_len ?q"
    and off: "unat (rg_offset ?s) + unat (rq_sub_offset (reqs ! h)) = unat (rq_offset ?q)"
    and fit: "unat (rq_sub_offset (reqs ! h)) + unat (rq_len ?q) \<le> unat (rg_len ?s)"
    by (simp_all add: covered_by_def Let_def same)
  have buf: "phys ! rq_phys_idx (reqs ! h) = file_slice contents (rg_offset ?s) (rg_len ?s)"
    "unat (rg_offset ?s) + unat (rg_len ?s) \<le> length contents" "length phys = length segs"
    using sound_reader.batch_nth [OF rd rb idx] sound_reader.batch_length [OF rd rb] by auto
  have "subslice (file_slice contents (rg_offset ?s) (rg_len ?s)) (unat (rq_sub_offset (reqs ! h))) (unat (rq_len ?q)) =
    Inr (file_slice contents (rq_offset ?q) (rq_len ?q))"
  proof -
    have "length (file_slice contents (rg_offset ?s) (rg_len ?s)) = unat (rg_len ?s)"
      using buf(2) by (simp add: file_slice_def)
    moreover have "unat (rq_len ?q) \<le> unat (rg_len ?s) - unat (rq_sub_offset (reqs ! h))" using fit by simp
    moreover have "unat (rq_sub_offset (reqs ! h)) + unat (rg_offset ?s) = unat (rq_offset ?q)"
      using off by simp
    ultimately show ?thesis
      using fit by (simp add: subslice_def) (simp add: file_slice_def drop_take min_absorb1)
  qed
  with buf idx len ls off fit show ?thesis by (simp add: brf_get_def f' Let_def)
qed

text \<open>A range that lies in a file of \<open>n\<close> bytes.\<close>

definition in_file :: "nat \<Rightarrow> u64 \<Rightarrow> u64 \<Rightarrow> bool" where
  "in_file n off len = (unat off + unat len \<le> n)"

lemma sweep_total:
  assumes "n < 2 ^ 64" and "\<forall>r \<in> set reqs. in_file n (rq_offset r) (rq_len r)"
    and "set order \<subseteq> {..<length reqs}" and "distinct order"
    and "sorted (map (\<lambda>i. rq_offset (reqs ! i)) order)"
    and "\<forall>s \<in> set segs. in_file n (rg_offset s) (rg_len s)"
    and "segs \<noteq> [] \<longrightarrow> rg_offset (last segs) = cur_start \<and> cur_start \<le> cur_end \<and> unat cur_end \<le> n \<and>
       (\<forall>k \<in> set order. cur_start \<le> rq_offset (reqs ! k))"
  shows "\<exists>reqs' segs'. sweep gap order reqs segs cur_start cur_end = Inr (reqs', segs') \<and>
    (\<forall>s \<in> set segs'. in_file n (rg_offset s) (rg_len s))"
  using assms
proof (induction order arbitrary: reqs segs cur_start cur_end)
  case (Cons k order)
  let ?r = "reqs ! k"
  let ?e = "rq_offset ?r + rq_len ?r"
  have k: "k < length reqs" using Cons.prems(3) by simp
  then have fit: "unat (rq_offset ?r) + unat (rq_len ?r) \<le> n" using Cons.prems(2) by (simp add: in_file_def)
  then have e: "unat ?e = unat (rq_offset ?r) + unat (rq_len ?r)"
    using Cons.prems(1) by (simp add: unat_word_ariths(1))
  have ce: "checked_end (rq_offset ?r) (rq_len ?r) = Inr ?e"
    using fit Cons.prems(1) by (simp add: checked_end_Inr)
  obtain segs1 start1 stop1 where g: "(segs1, start1, stop1) =
      (if segs = [] \<or> rq_offset ?r > cur_end \<and> rq_offset ?r - cur_end > gap
       then (segs @ [\<lparr>rg_offset = rq_offset ?r, rg_len = 0\<rparr>], rq_offset ?r, ?e)
       else (segs, cur_start, max cur_end ?e))"
    by (metis prod_cases3)
  let ?r' = "?r\<lparr>rq_len_size := rq_len ?r, rq_phys_idx := length segs1 - 1, rq_sub_offset := rq_offset ?r - start1\<rparr>"
  let ?s = "(last segs1)\<lparr>rg_len := stop1 - start1\<rparr>"
  let ?segs = "segs1[length segs1 - 1 := ?s]"
  have ne: "segs1 \<noteq> []" using g by (auto split: if_splits)
  have le: "rq_offset ?r \<le> ?e" using e by (simp add: word_le_nat_alt)
  have start: "rg_offset (last segs1) = start1" "start1 \<le> rq_offset ?r" "start1 \<le> stop1"
    using g Cons.prems(7) le by (auto simp: le_max_iff_disj split: if_splits)
  have stop: "unat stop1 \<le> n" using g Cons.prems(7) e fit by (auto simp: max_def split: if_splits)
  have "in_file n (rg_offset ?s) (rg_len ?s)"
    using start stop by (simp add: in_file_def unat_sub word_le_nat_alt)
  moreover have "\<forall>s \<in> set segs1. in_file n (rg_offset s) (rg_len s)"
    using g Cons.prems(6) fit by (auto simp: in_file_def split: if_splits)
  ultimately have segs: "\<forall>s \<in> set ?segs. in_file n (rg_offset s) (rg_len s)"
    using set_update_subset_insert [of segs1 "length segs1 - 1" ?s] by blast
  have same: "rq_offset (reqs[k := ?r'] ! j) = rq_offset (reqs ! j)" for j
    using k by (cases "j = k") simp_all
  have 2: "\<forall>r \<in> set (reqs[k := ?r']). in_file n (rq_offset r) (rq_len r)"
    using Cons.prems(2) fit by (auto simp: in_file_def dest!: set_update_subset_insert [THEN subsetD])
  have 5: "sorted (map (\<lambda>i. rq_offset (reqs[k := ?r'] ! i)) order)"
    unfolding same using Cons.prems(5) by simp
  have "start1 \<le> rq_offset (reqs ! j)" if "j \<in> set order" for j
    using that Cons.prems(5) start(2) by (auto intro: order.trans)
  then have 7: "?segs \<noteq> [] \<longrightarrow> rg_offset (last ?segs) = start1 \<and> start1 \<le> stop1 \<and> unat stop1 \<le> n \<and>
     (\<forall>j \<in> set order. start1 \<le> rq_offset (reqs[k := ?r'] ! j))"
    unfolding same using ne start stop by (simp add: last_list_update)
  have "\<exists>reqs' segs'. sweep gap order (reqs[k := ?r']) ?segs start1 stop1 = Inr (reqs', segs') \<and>
    (\<forall>s \<in> set segs'. in_file n (rg_offset s) (rg_len s))"
    using Cons.prems(3,4) by (intro Cons.IH [OF Cons.prems(1) 2 _ _ 5 segs 7]) auto
  moreover have "sweep gap (k # order) reqs segs cur_start cur_end = sweep gap order (reqs[k := ?r']) ?segs start1 stop1"
    by (simp add: ce Let_def flip: g)
  ultimately show ?case by simp
qed simp

lemma brf_fetch_complete:
  assumes rd: "reliable_reader read_at contents" and len: "length contents < 2 ^ 64"
    and order: "sort_order (brf_reqs f) order"
    and fits: "\<forall>r \<in> set (brf_reqs f). in_file (length contents) (rq_offset r) (rq_len r)"
  shows "\<exists>f'. brf_fetch read_at order f = Inr f'"
proof -
  obtain reqs segs where sw: "sweep (brf_coalesce_gap f) order (brf_reqs f) [] 0 0 = Inr (reqs, segs)"
    and s: "\<forall>s \<in> set segs. in_file (length contents) (rg_offset s) (rg_len s)"
    using sweep_total [OF len fits, of order "[]" 0 0 "brf_coalesce_gap f"] order
    by (auto simp: sort_order_def)
  have "\<exists>phys. read_batch read_at segs = Inr phys"
    using reliable_reader.batch_complete [OF rd len, of segs] s by (simp add: in_file_def)
  with sw show ?thesis by (auto simp: brf_fetch_def)
qed

text \<open>C21: a batched fetch succeeds exactly when every requested range lies in the file, in whatever order
  requests of equal offset were sorted; then, however the requests were merged into physical reads,
  every handle gives exactly the bytes of the range that was requested.\<close>

theorem batch_fetch_exact:
  assumes "sort_order (brf_reqs f) order" and "length contents < 2 ^ 64"
  shows "((\<exists>f'. brf_fetch (read_file contents) order f = Inr f') \<longleftrightarrow>
      (\<forall>r \<in> set (brf_reqs f). unat (rq_offset r) + unat (rq_len r) \<le> length contents)) \<and>
    (\<forall>f' i. brf_fetch (read_file contents) order f = Inr f' \<longrightarrow> i < length (brf_reqs f) \<longrightarrow>
      brf_get f' i = Inr (file_slice contents (rq_offset (brf_reqs f ! i)) (rq_len (brf_reqs f ! i))))"
proof -
  note exact = brf_get_fetch [OF file_image.sound_reader_axioms assms(1)]
  have "\<exists>f'. brf_fetch (read_file contents) order f = Inr f'"
    if "\<forall>r \<in> set (brf_reqs f). unat (rq_offset r) + unat (rq_len r) \<le> length contents"
    using brf_fetch_complete [OF file_image.reliable_reader_axioms assms(2,1)] that by (simp add: in_file_def)
  moreover have "unat (rq_offset r) + unat (rq_len r) \<le> length contents"
    if "brf_fetch (read_file contents) order f = Inr f'" and "r \<in> set (brf_reqs f)" for f' r
    using exact [OF that(1)] that(2) by (auto simp: in_set_conv_nth)
  ultimately show ?thesis using exact by blast
qed

definition sample_fetcher :: batch_range_fetcher where
  "sample_fetcher = snd (brf_add 0 1 (snd (brf_add 4 2 (batch_range_fetcher_new 1))))"

theorem batch_fetch_exact_witness:
  "\<exists>f'. brf_fetch (read_file [10, 11, 12, 13, 14, 15, 16]) [1, 0] sample_fetcher = Inr f' \<and>
     brf_get f' 0 = Inr [14, 15] \<and> brf_get f' 1 = Inr [10]"
proof -
  let ?c = "[10, 11, 12, 13, 14, 15, 16] :: byte list"
  have s: "brf_reqs sample_fetcher =
     [\<lparr>rq_offset = 4, rq_len = 2, rq_len_size = 0, rq_phys_idx = 0, rq_sub_offset = 0\<rparr>,
      \<lparr>rq_offset = 0, rq_len = 1, rq_len_size = 0, rq_phys_idx = 0, rq_sub_offset = 0\<rparr>]"
    by (simp add: sample_fetcher_def brf_add_def batch_range_fetcher_new_def)
  have o: "sort_order (brf_reqs sample_fetcher) [1, 0]" by (auto simp: sort_order_def s less_Suc_eq)
  from batch_fetch_exact [OF o, of ?c] show ?thesis
    by (auto simp: s file_slice_def)
qed

end
