(* ===== verification/Windowed_Posting.thy ===== *)
theory Windowed_Posting
  imports Logical_Index_Reader Frq_Prelude Prx_Pod Batch_Range_Fetcher
begin

text \<open>
  Reading a posting that is split into windows: \<open>src/core/src/reader/windowed_posting.cpp\<close>. The
  bytes of such a posting are \<open>[prelude][dd-block][freq-block]\<close>, with the windows of the positions in
  front of them; the prelude says where each window's regions are.
\<close>

subsection \<open>Fetching\<close>

text \<open>\<open>BatchRangeFetcher::fetch\<close> on the reader of the index, in the order \<open>std::sort\<close> leaves.\<close>

definition index_fetch :: "host \<Rightarrow> logical_index_reader \<Rightarrow> batch_range_fetcher \<Rightarrow> batch_range_fetcher result" where
  "index_fetch h idx f = brf_fetch (lr_read_at idx) (host_sort h (map rq_offset (brf_reqs f))) f"

abbreviation posting_region :: "logical_index_reader \<Rightarrow> region_ref" where
  "posting_region idx \<equiv> sr_posting_region (pmr_section_refs (lr_meta idx))"

definition PreludeAbs :: "logical_index_reader \<Rightarrow> dict_entry \<Rightarrow> u64 \<Rightarrow> u64" where
  "PreludeAbs idx entry frq_base = rr_offset (posting_region idx) + frq_base + de_frq_off_delta entry"

definition InBounds :: "u64 \<Rightarrow> u64 \<Rightarrow> u64 \<Rightarrow> unit result" where
  "InBounds off len limit = (if off > limit \<or> len > limit - off then Corruption else Inr ())"

record block_geometry =
  bg_dd_block_off :: u64
  bg_dd_block_len :: u64
  bg_freq_block_off :: u64
  bg_freq_block_len :: u64
  bg_frq_region_len :: u64

definition ResolveBlocks ::
  "logical_index_reader \<Rightarrow> dict_entry \<Rightarrow> u64 \<Rightarrow> frq_prelude_reader \<Rightarrow> block_geometry result" where
  "ResolveBlocks idx entry frq_base prelude =
     (if de_prelude_len entry > de_frq_len entry then Corruption
      else
        let frq_window_start = PreludeAbs idx entry frq_base + de_prelude_len entry;
            frq_region_len = de_frq_len entry - de_prelude_len entry;
            dd_block_len = fpr_dd_block_len prelude;
            freq_block_len = fpr_freq_block_len prelude
        in if dd_block_len > frq_region_len \<or> freq_block_len > frq_region_len - dd_block_len then Corruption
           else Inr \<lparr>bg_dd_block_off = frq_window_start, bg_dd_block_len = dd_block_len,
                     bg_freq_block_off = frq_window_start + dd_block_len, bg_freq_block_len = freq_block_len,
                     bg_frq_region_len = frq_region_len\<rparr>)"

record window_slices =
  ws_meta :: window_meta
  ws_dd_region :: "byte list"
  ws_freq_region :: "byte list"
  ws_prx_window :: "byte list"

definition CarveRegionSlices ::
  "window_meta \<Rightarrow> byte list \<Rightarrow> byte list \<Rightarrow> bool \<Rightarrow> window_slices \<Rightarrow> window_slices result" where
  "CarveRegionSlices m dd_block freq_block want_freq out =
     and_then (InBounds (wm_dd_off m) (wm_dd_disk_len m) (of_nat (length dd_block))) (\<lambda>_.
     and_then (subslice dd_block (unat (wm_dd_off m)) (unat (wm_dd_disk_len m))) (\<lambda>dd_region.
     let out = out\<lparr>ws_dd_region := dd_region\<rparr> in
     if \<not> want_freq then Inr out
     else
       and_then (InBounds (wm_freq_off m) (wm_freq_disk_len m) (of_nat (length freq_block))) (\<lambda>_.
       and_then (subslice freq_block (unat (wm_freq_off m)) (unat (wm_freq_disk_len m))) (\<lambda>freq_region.
       Inr (out\<lparr>ws_freq_region := freq_region\<rparr>)))))"

definition fetch_windowed_prelude ::
  "host \<Rightarrow> logical_index_reader \<Rightarrow> dict_entry \<Rightarrow> u64 \<Rightarrow> frq_prelude_reader result" where
  "fetch_windowed_prelude h idx entry frq_base =
     (if de_prelude_len entry = 0 then Corruption
      else if de_prelude_len entry > de_frq_len entry then Corruption
      else
        let (hd', fetcher) = brf_add (PreludeAbs idx entry frq_base) (de_prelude_len entry) (batch_range_fetcher_new 0)
        in and_then (index_fetch h idx fetcher) (\<lambda>fetcher.
           and_then (brf_get fetcher hd') frq_prelude_open))"

record window_abs_range =
  war_dd_off :: u64
  war_dd_len :: u64
  war_freq_off :: u64
  war_freq_len :: u64
  war_prx_off :: u64
  war_prx_len :: u64

definition no_window_range :: window_abs_range where
  "no_window_range = \<lparr>war_dd_off = 0, war_dd_len = 0, war_freq_off = 0, war_freq_len = 0, war_prx_off = 0, war_prx_len = 0\<rparr>"

definition windowed_window_range ::
  "logical_index_reader \<Rightarrow> dict_entry \<Rightarrow> u64 \<Rightarrow> u64 \<Rightarrow> frq_prelude_reader \<Rightarrow> u32 \<Rightarrow> bool \<Rightarrow> bool \<Rightarrow>
   window_abs_range result" where
  "windowed_window_range idx entry frq_base prx_base prelude w want_positions want_freq =
     and_then (ResolveBlocks idx entry frq_base prelude) (\<lambda>g.
     and_then (prelude_window prelude w) (\<lambda>meta.
     and_then (InBounds (wm_dd_off meta) (wm_dd_disk_len meta) (bg_dd_block_len g)) (\<lambda>_.
     let out = no_window_range\<lparr>war_dd_off := bg_dd_block_off g + wm_dd_off meta, war_dd_len := wm_dd_disk_len meta\<rparr> in
     and_then
       (if want_freq then
          and_then (InBounds (wm_freq_off meta) (wm_freq_disk_len meta) (bg_freq_block_len g)) (\<lambda>_.
          Inr (out\<lparr>war_freq_off := bg_freq_block_off g + wm_freq_off meta, war_freq_len := wm_freq_disk_len meta\<rparr>))
        else Inr out) (\<lambda>out.
     if \<not> want_positions then Inr out
     else if \<not> fpr_has_prx prelude then Corruption
     else
       let prx_region_start = rr_offset (posting_region idx) + prx_base + de_prx_off_delta entry in
       and_then (InBounds (wm_prx_off meta) (wm_prx_len meta) (de_prx_len entry)) (\<lambda>_.
       Inr (out\<lparr>war_prx_off := prx_region_start + wm_prx_off meta, war_prx_len := wm_prx_len meta\<rparr>))))))"

subsection \<open>Decoding\<close>

definition window_dd_meta :: "window_meta \<Rightarrow> frq_region_meta" where
  "window_dd_meta m =
     \<lparr>frm_zstd = wm_dd_zstd m, frm_uncomp_len = wm_dd_uncomp_len m, frm_disk_len = wm_dd_disk_len m,
      frm_crc = wm_crc_dd m, frm_verify_crc = wm_verify_crc m\<rparr>"

definition window_freq_meta :: "window_meta \<Rightarrow> frq_region_meta" where
  "window_freq_meta m =
     \<lparr>frm_zstd = wm_freq_zstd m, frm_uncomp_len = wm_freq_uncomp_len m, frm_disk_len = wm_freq_disk_len m,
      frm_crc = wm_crc_freq m, frm_verify_crc = wm_verify_crc m\<rparr>"

text \<open>The results are the vectors \<open>docids\<close>, \<open>freqs\<close> and \<open>positions\<close>; without positions the last stays
  as the caller passed it, which is empty.\<close>

definition decode_window_slices ::
  "host \<Rightarrow> window_meta \<Rightarrow> byte list \<Rightarrow> byte list \<Rightarrow> byte list \<Rightarrow> bool \<Rightarrow> bool \<Rightarrow>
   (u32 list \<times> u32 list \<times> u32 list list) result" where
  "decode_window_slices h meta dd_region freq_region prx_window want_positions want_freq =
     and_then (decode_dd_region (host_zstd h) dd_region (window_dd_meta meta) (wm_win_base meta)) (\<lambda>docids.
     if length docids \<noteq> unat (wm_doc_count meta) then Corruption
     else
       and_then (if want_freq then decode_freq_region (host_zstd h) freq_region (window_freq_meta meta) (unat (wm_doc_count meta))
                 else Inr []) (\<lambda>freqs.
       if \<not> want_positions then Inr (docids, freqs, [])
       else
         and_then (read_prx_window (host_zstd h) (source prx_window)) (\<lambda>(positions, psrc).
         if length positions \<noteq> length docids then Corruption else Inr (docids, freqs, positions))))"

record decoded_posting =
  dp_docids :: "u32 list"
  dp_freqs :: "u32 list"
  dp_positions :: "u32 list list"

definition no_posting :: decoded_posting where
  "no_posting = \<lparr>dp_docids = [], dp_freqs = [], dp_positions = []\<rparr>"

definition AppendWindow :: "host \<Rightarrow> window_slices \<Rightarrow> bool \<Rightarrow> bool \<Rightarrow> decoded_posting \<Rightarrow> decoded_posting result" where
  "AppendWindow h ws want_positions want_freq out =
     and_then (decode_window_slices h (ws_meta ws) (ws_dd_region ws) (ws_freq_region ws) (ws_prx_window ws)
         want_positions want_freq) (\<lambda>(docids, freqs, pos).
     Inr (out\<lparr>dp_docids := dp_docids out @ docids, dp_freqs := dp_freqs out @ freqs,
              dp_positions := (if want_positions then dp_positions out @ pos else dp_positions out)\<rparr>))"

text \<open>The handles of the dd-block, the freq-block and the positions; 0 where nothing was requested.\<close>

definition FetchBlocks ::
  "host \<Rightarrow> logical_index_reader \<Rightarrow> dict_entry \<Rightarrow> u64 \<Rightarrow> block_geometry \<Rightarrow> bool \<Rightarrow> bool \<Rightarrow> batch_range_fetcher \<Rightarrow>
   (nat \<times> nat \<times> nat \<times> batch_range_fetcher) result" where
  "FetchBlocks h idx entry prx_base g want_positions want_freq fetcher =
     (let (dd_h, fetcher) = brf_add (bg_dd_block_off g) (bg_dd_block_len g) fetcher;
          (freq_h, fetcher) = (if want_freq then brf_add (bg_freq_block_off g) (bg_freq_block_len g) fetcher
                               else (0, fetcher));
          (prx_h, fetcher) =
            (if want_positions
             then brf_add (rr_offset (posting_region idx) + prx_base + de_prx_off_delta entry) (de_prx_len entry) fetcher
             else (0, fetcher))
      in and_then (index_fetch h idx fetcher) (\<lambda>fetcher. Inr (dd_h, freq_h, prx_h, fetcher)))"

text \<open>The loop over the windows.\<close>

fun append_windows ::
  "host \<Rightarrow> frq_prelude_reader \<Rightarrow> byte list \<Rightarrow> byte list \<Rightarrow> byte list \<Rightarrow> bool \<Rightarrow> bool \<Rightarrow> nat list \<Rightarrow> decoded_posting \<Rightarrow>
   decoded_posting result" where
  "append_windows h prelude dd_block freq_block prx_region want_positions want_freq [] out = Inr out"
| "append_windows h prelude dd_block freq_block prx_region want_positions want_freq (w # ws) out =
     and_then (prelude_window prelude (of_nat w)) (\<lambda>m.
     let slices = \<lparr>ws_meta = m, ws_dd_region = [], ws_freq_region = [], ws_prx_window = []\<rparr> in
     and_then (CarveRegionSlices m dd_block freq_block want_freq slices) (\<lambda>slices.
     and_then
       (if want_positions then
          and_then (InBounds (wm_prx_off m) (wm_prx_len m) (of_nat (length prx_region))) (\<lambda>_.
          and_then (subslice prx_region (unat (wm_prx_off m)) (unat (wm_prx_len m))) (\<lambda>prx.
          Inr (slices\<lparr>ws_prx_window := prx\<rparr>)))
        else Inr slices) (\<lambda>slices.
     and_then (AppendWindow h slices want_positions want_freq out) (\<lambda>out.
     append_windows h prelude dd_block freq_block prx_region want_positions want_freq ws out))))"

definition read_windowed_posting ::
  "host \<Rightarrow> logical_index_reader \<Rightarrow> dict_entry \<Rightarrow> u64 \<Rightarrow> u64 \<Rightarrow> bool \<Rightarrow> bool \<Rightarrow> decoded_posting result" where
  "read_windowed_posting h idx entry frq_base prx_base want_positions want_freq =
     and_then (fetch_windowed_prelude h idx entry frq_base) (\<lambda>prelude.
     if want_positions \<and> \<not> fpr_has_prx prelude then Corruption
     else
       and_then (ResolveBlocks idx entry frq_base prelude) (\<lambda>g.
       and_then (FetchBlocks h idx entry prx_base g want_positions want_freq (batch_range_fetcher_new 0))
         (\<lambda>(dd_h, freq_h, prx_h, fetcher).
       and_then (brf_get fetcher dd_h) (\<lambda>dd_block.
       and_then (if want_freq then brf_get fetcher freq_h else Inr []) (\<lambda>freq_block.
       and_then (if want_positions then brf_get fetcher prx_h else Inr []) (\<lambda>prx_region.
       append_windows h prelude dd_block freq_block prx_region want_positions want_freq
         [0..<length (fpr_windows prelude)] no_posting))))))"

end
