(* ===== verification/Docid_Postings.thy ===== *)
theory Docid_Postings
  imports Windowed_Posting
begin

text \<open>
  The document ids of resolved terms: \<open>src/core/src/query/docid_posting_reader.cpp\<close>. A batch of
  postings is read in two rounds, one for the preludes of the windowed ones and one for all document
  regions; plans remember which request belongs to which posting.
\<close>

record resolved_docid_posting =
  rp_entry :: dict_entry
  rp_frq_base :: u64
  rp_prx_base :: u64

definition decode_flat_docs :: "host \<Rightarrow> dict_entry \<Rightarrow> byte list \<Rightarrow> u32 list result" where
  "decode_flat_docs h entry dd_region = decode_dd_region (host_zstd h) dd_region (de_dd_meta entry) 0"

definition decode_inline_docs :: "host \<Rightarrow> dict_entry \<Rightarrow> u32 list result" where
  "decode_inline_docs h entry =
     (if frm_disk_len (de_dd_meta entry) > of_nat (length (de_frq_bytes entry)) then Corruption
      else
        and_then (subslice (de_frq_bytes entry) 0 (unat (frm_disk_len (de_dd_meta entry)))) (\<lambda>dd_region.
        decode_flat_docs h entry dd_region))"

definition slim_docs_fetch_len :: "dict_entry \<Rightarrow> u64 \<Rightarrow> u64 result" where
  "slim_docs_fetch_len entry win_len =
     (if de_frq_docs_len entry > win_len then Corruption
      else Inr (if de_frq_docs_len entry > 0 then de_frq_docs_len entry else win_len))"

definition prelude_abs :: "logical_index_reader \<Rightarrow> dict_entry \<Rightarrow> u64 \<Rightarrow> u64" where
  "prelude_abs idx entry frq_base = rr_offset (posting_region idx) + frq_base + de_frq_off_delta entry"

definition validate_windowed_prelude :: "dict_entry \<Rightarrow> unit result" where
  "validate_windowed_prelude entry =
     (if de_prelude_len entry = 0 then Corruption
      else if de_prelude_len entry > de_frq_len entry then Corruption
      else Inr ())"

record flat_plan =
  fp_out_index :: nat
  fp_entry :: dict_entry
  fp_handle :: nat

record window_handle =
  wh_meta :: window_meta
  wh_handle :: nat

record window_plan =
  wp_out_index :: nat
  wp_posting :: resolved_docid_posting
  wp_prelude_handle :: nat
  wp_prelude :: frq_prelude_reader
  wp_windows :: "window_handle list"

definition no_prelude :: frq_prelude_reader where
  "no_prelude = \<lparr>fpr_has_freq = False, fpr_has_prx = False, fpr_group_size = 0, fpr_n_super = 0,
     fpr_dd_block_len = 0, fpr_freq_block_len = 0, fpr_sb_last_docid = [], fpr_windows = []\<rparr>"

definition plan_flat_docs ::
  "logical_index_reader \<Rightarrow> resolved_docid_posting \<Rightarrow> batch_range_fetcher \<Rightarrow> flat_plan \<Rightarrow>
   (flat_plan \<times> batch_range_fetcher) result" where
  "plan_flat_docs idx posting fetcher plan =
     and_then (resolve_frq_window idx (rp_entry posting) (rp_frq_base posting)) (\<lambda>(win_abs, win_len).
     and_then (slim_docs_fetch_len (rp_entry posting) win_len) (\<lambda>docs_len.
     let (handle, fetcher) = brf_add win_abs docs_len fetcher
     in Inr (plan\<lparr>fp_handle := handle\<rparr>, fetcher)))"

fun open_window_preludes :: "batch_range_fetcher \<Rightarrow> window_plan list \<Rightarrow> window_plan list result" where
  "open_window_preludes fetcher [] = Inr []"
| "open_window_preludes fetcher (plan # plans) =
     and_then (brf_get fetcher (wp_prelude_handle plan)) (\<lambda>bytes.
     and_then (frq_prelude_open bytes) (\<lambda>prelude.
     and_then (open_window_preludes fetcher plans) (\<lambda>plans.
     Inr (plan\<lparr>wp_prelude := prelude\<rparr> # plans))))"

text \<open>The loop of \<open>plan_window_docs\<close> over the windows.\<close>

fun plan_windows ::
  "logical_index_reader \<Rightarrow> resolved_docid_posting \<Rightarrow> frq_prelude_reader \<Rightarrow> nat list \<Rightarrow> batch_range_fetcher \<Rightarrow>
   (window_handle list \<times> batch_range_fetcher) result" where
  "plan_windows idx posting prelude [] fetcher = Inr ([], fetcher)"
| "plan_windows idx posting prelude (w # ws) fetcher =
     and_then (windowed_window_range idx (rp_entry posting) (rp_frq_base posting) (rp_prx_base posting) prelude
         (of_nat w) False False) (\<lambda>range.
     and_then (prelude_window prelude (of_nat w)) (\<lambda>meta.
     let (handle, fetcher) = brf_add (war_dd_off range) (war_dd_len range) fetcher in
     and_then (plan_windows idx posting prelude ws fetcher) (\<lambda>(hs, fetcher).
     Inr (\<lparr>wh_meta = meta, wh_handle = handle\<rparr> # hs, fetcher))))"

definition plan_window_docs ::
  "logical_index_reader \<Rightarrow> window_plan \<Rightarrow> batch_range_fetcher \<Rightarrow> (window_plan \<times> batch_range_fetcher) result" where
  "plan_window_docs idx plan fetcher =
     and_then (plan_windows idx (wp_posting plan) (wp_prelude plan) [0..<length (fpr_windows (wp_prelude plan))] fetcher)
       (\<lambda>(hs, fetcher). Inr (plan\<lparr>wp_windows := wp_windows plan @ hs\<rparr>, fetcher))"

definition decode_flat_plan :: "host \<Rightarrow> batch_range_fetcher \<Rightarrow> flat_plan \<Rightarrow> u32 list result" where
  "decode_flat_plan h fetcher plan =
     and_then (brf_get fetcher (fp_handle plan)) (\<lambda>dd_region. decode_flat_docs h (fp_entry plan) dd_region)"

fun decode_windows :: "host \<Rightarrow> batch_range_fetcher \<Rightarrow> window_handle list \<Rightarrow> u32 list \<Rightarrow> u32 list result" where
  "decode_windows h fetcher [] out = Inr out"
| "decode_windows h fetcher (w # ws) out =
     and_then (brf_get fetcher (wh_handle w)) (\<lambda>dd_region.
     and_then (decode_window_slices h (wh_meta w) dd_region [] [] False False) (\<lambda>(docs, freqs, positions).
     decode_windows h fetcher ws (out @ docs)))"

definition decode_window_plan :: "host \<Rightarrow> batch_range_fetcher \<Rightarrow> window_plan \<Rightarrow> u32 list \<Rightarrow> u32 list result" where
  "decode_window_plan h fetcher plan out = decode_windows h fetcher (wp_windows plan) out"

text \<open>The first loop of \<open>read_docid_postings_batched\<close>, from posting \<open>i\<close> on: inline postings are decoded at
  once, the others get a plan.\<close>

fun plan_postings ::
  "host \<Rightarrow> logical_index_reader \<Rightarrow> nat \<Rightarrow> resolved_docid_posting list \<Rightarrow>
   u32 list list \<times> flat_plan list \<times> window_plan list \<times> batch_range_fetcher \<Rightarrow>
   (u32 list list \<times> flat_plan list \<times> window_plan list \<times> batch_range_fetcher) result" where
  "plan_postings h idx i [] st = Inr st"
| "plan_postings h idx i (posting # postings) (docids, flat_plans, window_plans, prelude_fetcher) =
     (if de_kind (rp_entry posting) = kInline then
        and_then (decode_inline_docs h (rp_entry posting)) (\<lambda>docs.
        plan_postings h idx (Suc i) postings (docids[i := docs], flat_plans, window_plans, prelude_fetcher))
      else if de_enc (rp_entry posting) = kWindowed then
        and_then (validate_windowed_prelude (rp_entry posting)) (\<lambda>_.
        let (handle, prelude_fetcher) =
              brf_add (prelude_abs idx (rp_entry posting) (rp_frq_base posting)) (de_prelude_len (rp_entry posting)) prelude_fetcher;
            plan = \<lparr>wp_out_index = i, wp_posting = posting, wp_prelude_handle = handle, wp_prelude = no_prelude, wp_windows = []\<rparr>
        in plan_postings h idx (Suc i) postings (docids, flat_plans, window_plans @ [plan], prelude_fetcher))
      else
        plan_postings h idx (Suc i) postings
          (docids, flat_plans @ [\<lparr>fp_out_index = i, fp_entry = rp_entry posting, fp_handle = 0\<rparr>], window_plans, prelude_fetcher))"

text \<open>The four loops over the plans.\<close>

fun plan_all_flat ::
  "logical_index_reader \<Rightarrow> resolved_docid_posting list \<Rightarrow> flat_plan list \<Rightarrow> batch_range_fetcher \<Rightarrow>
   (flat_plan list \<times> batch_range_fetcher) result" where
  "plan_all_flat idx postings [] fetcher = Inr ([], fetcher)"
| "plan_all_flat idx postings (plan # plans) fetcher =
     and_then (plan_flat_docs idx (postings ! fp_out_index plan) fetcher plan) (\<lambda>(plan, fetcher).
     and_then (plan_all_flat idx postings plans fetcher) (\<lambda>(plans, fetcher). Inr (plan # plans, fetcher)))"

fun plan_all_windowed ::
  "logical_index_reader \<Rightarrow> window_plan list \<Rightarrow> batch_range_fetcher \<Rightarrow> (window_plan list \<times> batch_range_fetcher) result" where
  "plan_all_windowed idx [] fetcher = Inr ([], fetcher)"
| "plan_all_windowed idx (plan # plans) fetcher =
     and_then (plan_window_docs idx plan fetcher) (\<lambda>(plan, fetcher).
     and_then (plan_all_windowed idx plans fetcher) (\<lambda>(plans, fetcher). Inr (plan # plans, fetcher)))"

fun decode_all_flat :: "host \<Rightarrow> batch_range_fetcher \<Rightarrow> flat_plan list \<Rightarrow> u32 list list \<Rightarrow> u32 list list result" where
  "decode_all_flat h fetcher [] docids = Inr docids"
| "decode_all_flat h fetcher (plan # plans) docids =
     and_then (decode_flat_plan h fetcher plan) (\<lambda>docs.
     decode_all_flat h fetcher plans (docids[fp_out_index plan := docs]))"

fun decode_all_windowed :: "host \<Rightarrow> batch_range_fetcher \<Rightarrow> window_plan list \<Rightarrow> u32 list list \<Rightarrow> u32 list list result" where
  "decode_all_windowed h fetcher [] docids = Inr docids"
| "decode_all_windowed h fetcher (plan # plans) docids =
     and_then (decode_window_plan h fetcher plan (docids ! wp_out_index plan)) (\<lambda>docs.
     decode_all_windowed h fetcher plans (docids[wp_out_index plan := docs]))"

definition read_docid_postings_batched ::
  "host \<Rightarrow> logical_index_reader \<Rightarrow> resolved_docid_posting list \<Rightarrow> u32 list list result" where
  "read_docid_postings_batched h idx postings =
     and_then (plan_postings h idx 0 postings (replicate (length postings) [], [], [], batch_range_fetcher_new 0))
       (\<lambda>(docids, flat_plans, window_plans, prelude_fetcher).
     and_then
       (if brf_reqs prelude_fetcher \<noteq> []
        then and_then (index_fetch h idx prelude_fetcher) (\<lambda>fetched. open_window_preludes fetched window_plans)
        else Inr window_plans) (\<lambda>window_plans.
     and_then (plan_all_flat idx postings flat_plans (batch_range_fetcher_new 0)) (\<lambda>(flat_plans, docs_fetcher).
     and_then (plan_all_windowed idx window_plans docs_fetcher) (\<lambda>(window_plans, docs_fetcher).
     and_then (if brf_reqs docs_fetcher \<noteq> [] then index_fetch h idx docs_fetcher else Inr docs_fetcher) (\<lambda>docs_fetcher.
     and_then (decode_all_flat h docs_fetcher flat_plans docids) (\<lambda>docids.
     decode_all_windowed h docs_fetcher window_plans docids))))))"

definition read_docid_posting ::
  "host \<Rightarrow> logical_index_reader \<Rightarrow> dict_entry \<Rightarrow> u64 \<Rightarrow> u64 \<Rightarrow> u32 list result" where
  "read_docid_posting h idx entry frq_base prx_base =
     and_then (read_docid_postings_batched h idx [\<lparr>rp_entry = entry, rp_frq_base = frq_base, rp_prx_base = prx_base\<rparr>])
       (\<lambda>batched. Inr (hd batched))"

end
