(* ===== verification/Frq_Prelude_Correct.thy ===== *)
theory Frq_Prelude_Correct
  imports Frq_Prelude Chunks
begin

text \<open>
  What a prelude promises: the windows it was built from are read back with their absolute bases,
  the region lengths are the sums over the windows, and \<open>locate_window\<close> finds the first window
  whose last document is not below the one looked for.
\<close>

subsection \<open>Window rows\<close>

lemmas flag_defs = flag_kHasFreq_def flag_kHasPrx_def mode_kDdZstd_def mode_kFreqZstd_def
  mode_kKnownBits_def

lemma make_flags_bits [simp]:
  "make_flags cols AND flag_kHasFreq \<noteq> 0 \<longleftrightarrow> fpc_has_freq cols"
  "make_flags cols AND flag_kHasPrx \<noteq> 0 \<longleftrightarrow> fpc_has_prx cols"
  by (simp_all add: make_flags_def flag_defs)

lemma make_win_mode_bits [simp]:
  "make_win_mode m has_freq AND mode_kDdZstd \<noteq> 0 \<longleftrightarrow> wm_dd_zstd m"
  "make_win_mode m has_freq AND mode_kFreqZstd \<noteq> 0 \<longleftrightarrow> has_freq \<and> wm_freq_zstd m"
  by (simp_all add: make_win_mode_def flag_defs)

lemma check_win_mode_make [simp]: "check_win_mode (make_win_mode m has_freq) has_freq = Inr ()"
  by (simp add: check_win_mode_def make_win_mode_def flag_defs)

text \<open>What the row of a window keeps of it: the base is the previous window's last document, and
  the frequency and position locators are kept when the posting has them.\<close>

definition stored_window :: "bool \<Rightarrow> bool \<Rightarrow> u64 \<Rightarrow> window_meta \<Rightarrow> window_meta" where
  "stored_window has_freq has_prx base m =
     m\<lparr>wm_win_base := base, wm_verify_crc := True, wm_freq_zstd := has_freq \<and> wm_freq_zstd m,
       wm_freq_off := (if has_freq then wm_freq_off m else 0),
       wm_freq_disk_len := (if has_freq then wm_freq_disk_len m else 0),
       wm_freq_uncomp_len := (if has_freq then wm_freq_uncomp_len m else 0),
       wm_crc_freq := (if has_freq then wm_crc_freq m else 0),
       wm_prx_off := (if has_prx then wm_prx_off m else 0),
       wm_prx_len := (if has_prx then wm_prx_len m else 0)\<rparr>"

definition row_bytes :: "bool \<Rightarrow> bool \<Rightarrow> u64 \<Rightarrow> window_meta \<Rightarrow> byte list" where
  "row_bytes has_freq has_prx prev m = encode_window_row m has_freq has_prx prev []"

lemma encode_window_row_bytes [put_simps]:
  "encode_window_row m has_freq has_prx prev block = block @ row_bytes has_freq has_prx prev m"
  by (simp add: row_bytes_def encode_window_row_def sink_defs Let_def)

lemma ucast_back [simp]: "ucast (ucast (x :: u32) :: u64) = x"
  by (rule bit_word_eqI) (auto simp: bit_simps)

lemma window_eqI:
  fixes a b :: window_meta
  assumes "wm_last_docid a = wm_last_docid b" "wm_win_base a = wm_win_base b" "wm_doc_count a = wm_doc_count b"
    "wm_dd_zstd a = wm_dd_zstd b" "wm_dd_off a = wm_dd_off b" "wm_dd_disk_len a = wm_dd_disk_len b"
    "wm_dd_uncomp_len a = wm_dd_uncomp_len b" "wm_crc_dd a = wm_crc_dd b"
    "wm_freq_zstd a = wm_freq_zstd b" "wm_freq_off a = wm_freq_off b"
    "wm_freq_disk_len a = wm_freq_disk_len b" "wm_freq_uncomp_len a = wm_freq_uncomp_len b"
    "wm_crc_freq a = wm_crc_freq b" "wm_prx_off a = wm_prx_off b" "wm_prx_len a = wm_prx_len b"
    "wm_max_freq a = wm_max_freq b" "wm_max_norm a = wm_max_norm b" "wm_verify_crc a = wm_verify_crc b"
  shows "a = b"
  using assms by (intro window_meta.equality) simp_all

lemma decode_window_row_enc:
  assumes "rest src = row_bytes has_freq has_prx prev m @ r"
  shows "decode_window_row has_freq has_prx prev src =
    Inr (stored_window has_freq has_prx prev m, advance (length (row_bytes has_freq has_prx prev m)) src)"
  using assms
  by (cases has_freq; cases has_prx)
    (simp_all add: decode_window_row_def get_freq_locator_def get_prx_locator_def row_bytes_def
      encode_window_row_def sink_defs codec_simps Let_def stored_window_def default_window_meta_def
      add.assoc window_eqI)

fun rows_bytes :: "bool \<Rightarrow> bool \<Rightarrow> u64 \<Rightarrow> window_meta list \<Rightarrow> byte list" where
  "rows_bytes has_freq has_prx prev [] = []"
| "rows_bytes has_freq has_prx prev (m # ws) =
     row_bytes has_freq has_prx prev m @ rows_bytes has_freq has_prx (ucast (wm_last_docid m)) ws"

fun stored_windows :: "bool \<Rightarrow> bool \<Rightarrow> u64 \<Rightarrow> window_meta list \<Rightarrow> window_meta list" where
  "stored_windows has_freq has_prx base [] = []"
| "stored_windows has_freq has_prx base (m # ws) =
     stored_window has_freq has_prx base m # stored_windows has_freq has_prx (ucast (wm_last_docid m)) ws"

fun last_of :: "u64 \<Rightarrow> window_meta list \<Rightarrow> u64" where
  "last_of prev [] = prev"
| "last_of prev (m # ws) = last_of (ucast (wm_last_docid m)) ws"

lemma encode_rows_eq:
  "encode_rows has_freq has_prx ws prev block = (block @ rows_bytes has_freq has_prx prev ws, last_of prev ws)"
  by (induction ws arbitrary: prev block) (simp_all add: put_simps)

lemma length_stored_windows [simp]: "length (stored_windows hf hp base ws) = length ws"
  by (induction ws arbitrary: base) auto

lemma stored_windows_append:
  "stored_windows hf hp base (xs @ ys) = stored_windows hf hp base xs @ stored_windows hf hp (last_of base xs) ys"
  by (induction xs arbitrary: base) auto

lemma last_docid_stored [simp]: "wm_last_docid (stored_window hf hp base m) = wm_last_docid m"
  by (simp add: stored_window_def)

lemma last_docids_stored [simp]: "map wm_last_docid (stored_windows hf hp base ws) = map wm_last_docid ws"
  by (induction ws arbitrary: base) auto

lemma decode_rows_enc:
  "rest src = rows_bytes hf hp prev ws @ r \<Longrightarrow>
   decode_rows hf hp (length ws) prev src =
     Inr ((last_of prev ws, stored_windows hf hp prev ws), advance (length (rows_bytes hf hp prev ws)) src)"
proof (induction ws arbitrary: prev src)
  case (Cons m ws)
  then have "rest src = row_bytes hf hp prev m @ rows_bytes hf hp (ucast (wm_last_docid m)) ws @ r" by simp
  from decode_window_row_enc [OF this] this Cons.IH show ?case by simp
qed simp

lemma decode_one_block_enc:
  "decode_one_block (rows_bytes (fh_has_freq h) (fh_has_prx h) prev ws) h (last_of prev ws) (length ws) prev =
     Inr (last_of prev ws, stored_windows (fh_has_freq h) (fh_has_prx h) prev ws)"
  using decode_rows_enc [of "source (rows_bytes (fh_has_freq h) (fh_has_prx h) prev ws)"
      "fh_has_freq h" "fh_has_prx h" prev ws "[]"]
  by (simp add: decode_one_block_def eof_rest)

subsection \<open>The super-block directory\<close>

fun dir_rows :: "u64 \<Rightarrow> super_block list \<Rightarrow> sb_dir_row list" where
  "dir_rows off [] = []"
| "dir_rows off (sb # sbs) =
     \<lparr>sdr_last_docid = sb_last_docid sb, sdr_block_off = off, sdr_block_len = of_nat (length (sb_block sb))\<rparr>
       # dir_rows (off + of_nat (length (sb_block sb))) sbs"

definition region_bytes :: "super_block list \<Rightarrow> byte list" where
  "region_bytes sbs = concat (map sb_block sbs)"

lemma region_bytes_simps [simp]:
  "region_bytes [] = []" "region_bytes (sb # sbs) = sb_block sb @ region_bytes sbs"
  by (simp_all add: region_bytes_def)

lemma encode_dir_append:
  "encode_super_block_dir sbs prev off sink = sink @ encode_super_block_dir sbs prev off []"
proof (induction sbs arbitrary: prev off sink)
  case (Cons sb sbs)
  show ?case
    by (simp only: encode_super_block_dir.simps Let_def sink_defs)
      (subst (1 2) Cons.IH, simp)
qed simp

lemma encode_dir_Cons:
  "encode_super_block_dir (sb # sbs) prev off [] =
     encode_varint64 (sb_last_docid sb - prev) @ encode_varint64 off @
     encode_varint64 (of_nat (length (sb_block sb))) @
     encode_super_block_dir sbs (sb_last_docid sb) (off + of_nat (length (sb_block sb))) []"
  by (simp only: encode_super_block_dir.simps Let_def sink_defs) (subst encode_dir_append, simp)

lemma last_docid_dir_rows [simp]: "map sdr_last_docid (dir_rows off sbs) = map sb_last_docid sbs"
  by (induction sbs arbitrary: off) auto

lemma decode_dir_rows_enc:
  "rest src = encode_super_block_dir sbs prev off [] @ r \<Longrightarrow> sorted (prev # map sb_last_docid sbs) \<Longrightarrow>
   decode_dir_rows (length sbs) prev off src =
     Inr ((dir_rows off sbs, off + of_nat (length (region_bytes sbs))),
       advance (length (encode_super_block_dir sbs prev off [])) src)"
proof (induction sbs arbitrary: prev off src)
  case (Cons sb sbs)
  from Cons.prems(2) have ge: "\<not> sb_last_docid sb < prev" by auto
  from Cons.prems show ?case
    by (simp add: encode_dir_Cons codec_simps Cons.IH ge add.assoc Let_def del: encode_super_block_dir.simps)
qed simp

lemma decode_super_block_dir_enc:
  assumes "sorted (map sb_last_docid sbs)" and "unat (fh_n_super h) = length sbs"
  shows "decode_super_block_dir (encode_super_block_dir sbs 0 0 []) h =
    Inr (dir_rows 0 sbs, of_nat (length (region_bytes sbs)))"
  using decode_dir_rows_enc [of "source (encode_super_block_dir sbs 0 0 [])" sbs 0 0 "[]"] assms
  by (simp add: decode_super_block_dir_def eof_rest)

subsection \<open>Super-blocks\<close>

definition prelude_ok :: "frq_prelude_columns \<Rightarrow> bool" where
  "prelude_ok cols =
     (fpc_group_size cols \<noteq> 0 \<and> length (fpc_windows cols) \<le> 2 ^ 24 \<and>
      sorted (map wm_last_docid (fpc_windows cols)))"

lemma windows_ascending_sorted: "windows_ascending ws = sorted (map wm_last_docid ws)"
  by (induction ws rule: windows_ascending.induct) (auto simp: not_less intro: order.trans)

lemma validate_input_ok: "validate_input cols = Inr () \<longleftrightarrow> prelude_ok cols"
  by (auto simp: validate_input_def prelude_ok_def windows_ascending_sorted kMaxWindows_def)

fun blocks_of :: "bool \<Rightarrow> bool \<Rightarrow> u64 \<Rightarrow> window_meta list list \<Rightarrow> super_block list" where
  "blocks_of hf hp prev [] = []"
| "blocks_of hf hp prev (c # cs) =
     \<lparr>sb_block = rows_bytes hf hp prev c, sb_last_docid = last_of prev c\<rparr> # blocks_of hf hp (last_of prev c) cs"

lemma super_blocks_loop_eq:
  assumes "fpc_group_size cols \<noteq> 0"
  shows "encode_super_blocks_loop cols start prev =
    blocks_of (fpc_has_freq cols) (fpc_has_prx cols) prev
      (chunks (unat (fpc_group_size cols)) (drop start (fpc_windows cols)))"
proof (induction "length (fpc_windows cols) - start" arbitrary: start prev rule: less_induct)
  case less
  let ?g = "unat (fpc_group_size cols)" and ?w = "fpc_windows cols"
  have g: "0 < ?g" using assms by (simp add: unat_gt_0)
  show ?case
  proof (cases "start < length ?w")
    case True
    have "take (min (length ?w) (start + ?g) - start) (drop start ?w) = take ?g (drop start ?w)"
      by (simp add: min_def)
    then have "encode_super_blocks_loop cols start prev =
      (let c = take ?g (drop start ?w) in
       \<lparr>sb_block = rows_bytes (fpc_has_freq cols) (fpc_has_prx cols) prev c, sb_last_docid = last_of prev c\<rparr> #
       encode_super_blocks_loop cols (start + ?g) (last_of prev c))"
      using True g by (subst encode_super_blocks_loop.simps) (simp add: encode_rows_eq Let_def)
    moreover have "drop start ?w \<noteq> []" using True by simp
    ultimately show ?thesis
      using less [of "start + ?g"] True g by (simp add: chunks_Cons Let_def add.commute)
  next
    case False
    then show ?thesis by (subst encode_super_blocks_loop.simps) simp
  qed
qed

lemma length_blocks_of [simp]: "length (blocks_of hf hp prev cs) = length cs"
  by (induction cs arbitrary: prev) auto

lemma last_of_append: "last_of prev (xs @ ys) = last_of (last_of prev xs) ys"
  by (induction xs arbitrary: prev) auto

lemma last_of_last: "xs \<noteq> [] \<Longrightarrow> last_of prev xs = ucast (wm_last_docid (last xs))"
  by (induction xs arbitrary: prev) (auto split: if_splits)

subsection \<open>Window blocks\<close>

text \<open>\<open>cut\<close>: the groups that \<open>decode_all_blocks\<close> reads when \<open>done\<close> of \<open>n\<close> windows are decoded.\<close>

fun cut :: "nat \<Rightarrow> nat \<Rightarrow> nat \<Rightarrow> 'a list list \<Rightarrow> bool" where
  "cut g n k [] = (k = n)"
| "cut g n k (c # cs) = (length c = min g (n - k) \<and> k + length c \<le> n \<and> cut g n (k + length c) cs)"

lemma cut_chunks: "0 < g \<Longrightarrow> cut g (k + length xs) k (chunks g xs)"
proof (induction g xs arbitrary: k rule: chunks.induct)
  case (1 g xs)
  show ?case
  proof (cases "xs = []")
    case False
    with 1 have "cut g (k + min g (length xs) + (length xs - g)) (k + min g (length xs)) (chunks g (drop g xs))"
      by (metis length_drop neq0_conv)
    moreover have "k + min g (length xs) + (length xs - g) = k + length xs" by simp
    ultimately show ?thesis using False 1(2) by (simp add: chunks_Cons min.commute)
  qed simp
qed

lemma decode_blocks_enc:
  assumes "cut (unat (fh_group_size h)) (unat (fh_n h)) (length acc) cs"
    and "length (pre @ region_bytes (blocks_of (fh_has_freq h) (fh_has_prx h) prev cs)) < 2 ^ 64"
  shows "decode_blocks (pre @ region_bytes (blocks_of (fh_has_freq h) (fh_has_prx h) prev cs)) h
      (dir_rows (of_nat (length pre)) (blocks_of (fh_has_freq h) (fh_has_prx h) prev cs)) prev acc =
    Inr (acc @ stored_windows (fh_has_freq h) (fh_has_prx h) prev (concat cs))"
  using assms
proof (induction cs arbitrary: pre prev acc)
  case (Cons c cs)
  let ?hf = "fh_has_freq h" and ?hp = "fh_has_prx h"
  let ?b = "rows_bytes ?hf ?hp prev c" and ?bs = "blocks_of ?hf ?hp (last_of prev c) cs"
  let ?sw = "stored_windows ?hf ?hp prev c"
  have len: "length pre + length ?b + length (region_bytes ?bs) < 2 ^ 64" using Cons.prems(2) by simp
  have na: "unat (fh_n h) < 2 ^ 64" using unat_u64_less [of "fh_n h"] by simp
  have acc: "length acc + length c \<le> unat (fh_n h)" "length c = min (unat (fh_group_size h)) (unat (fh_n h) - length acc)"
    using Cons.prems(1) by auto
  then have "unat (of_nat (length acc) :: u64) = length acc" using na by simp
  then have rows: "unat (min (fh_group_size h) (fh_n h - of_nat (length acc))) = length c"
    using acc by (auto simp: min_def word_le_nat_alt unat_sub_if_size)
  have off: "unat (of_nat (length pre) :: u64) = length pre" "unat (of_nat (length ?b) :: u64) = length ?b"
    "unat (of_nat (length pre) + of_nat (length ?b) :: u64) = length pre + length ?b"
    using len by (simp_all flip: of_nat_add)
  have reg: "unat (of_nat (length (pre @ ?b @ region_bytes ?bs)) :: u64) = length (pre @ ?b @ region_bytes ?bs)"
    using len by (intro unat_of_nat_u64) simp
  have guard: "\<not> of_nat (length (pre @ ?b @ region_bytes ?bs)) < (of_nat (length pre) + of_nat (length ?b) :: u64)"
    "\<not> (of_nat (length pre) + of_nat (length ?b) :: u64) < of_nat (length pre)"
    using off reg unfolding word_less_nat_alt by simp_all
  have cut: "cut (unat (fh_group_size h)) (unat (fh_n h)) (length (acc @ ?sw)) cs"
    using Cons.prems(1) unfolding cut.simps length_append length_stored_windows by blast
  have "decode_blocks ((pre @ ?b) @ region_bytes ?bs) h (dir_rows (of_nat (length (pre @ ?b))) ?bs)
      (last_of prev c) (acc @ ?sw) =
    Inr ((acc @ ?sw) @ stored_windows ?hf ?hp (last_of prev c) (concat cs))"
    using Cons.prems(2) by (intro Cons.IH [OF cut]) simp
  then show ?case
    using guard rows off decode_one_block_enc [of h prev c]
    by (simp add: stored_windows_append Let_def)
qed simp

subsection \<open>Region layout\<close>

text \<open>The dd and freq regions of a posting tile their blocks: each starts where the previous one
  ended, and a raw region is as long as its plaintext. \<open>dd\<close> and \<open>fr\<close> are the ends so far.\<close>

fun tiled :: "bool \<Rightarrow> nat \<Rightarrow> nat \<Rightarrow> window_meta list \<Rightarrow> bool" where
  "tiled hf dd fr [] = (dd < 2 ^ 64 \<and> fr < 2 ^ 64)"
| "tiled hf dd fr (m # ws) =
     (unat (wm_dd_off m) = dd \<and> (wm_dd_zstd m \<or> wm_dd_disk_len m = wm_dd_uncomp_len m) \<and>
      (hf \<longrightarrow> unat (wm_freq_off m) = fr) \<and>
      tiled hf (dd + unat (wm_dd_disk_len m)) (fr + (if hf then unat (wm_freq_disk_len m) else 0)) ws)"

definition dd_bytes :: "window_meta list \<Rightarrow> nat" where
  "dd_bytes ws = sum_list (map (\<lambda>m. unat (wm_dd_disk_len m)) ws)"

definition freq_bytes :: "bool \<Rightarrow> window_meta list \<Rightarrow> nat" where
  "freq_bytes hf ws = (if hf then sum_list (map (\<lambda>m. unat (wm_freq_disk_len m)) ws) else 0)"

lemma tiled_bound: "tiled hf dd fr ws \<Longrightarrow> dd + dd_bytes ws < 2 ^ 64 \<and> fr + freq_bytes hf ws < 2 ^ 64"
proof (induction ws arbitrary: dd fr)
  case (Cons m ws)
  from Cons.prems have "tiled hf (dd + unat (wm_dd_disk_len m)) (fr + (if hf then unat (wm_freq_disk_len m) else 0)) ws"
    by simp
  from Cons.IH [OF this] show ?case by (simp add: dd_bytes_def freq_bytes_def add.assoc split: if_splits)
qed (simp add: dd_bytes_def freq_bytes_def)

lemma validate_regions_tiled:
  "tiled hf dd fr ws \<Longrightarrow>
   validate_regions hf (of_nat dd) (of_nat fr) (stored_windows hf hp base ws) =
     Inr (of_nat (dd + dd_bytes ws), of_nat (fr + freq_bytes hf ws))"
proof (induction ws arbitrary: dd fr base)
  case (Cons m ws)
  let ?d = "unat (wm_dd_disk_len m)" and ?f = "unat (wm_freq_disk_len m)"
  let ?fr = "fr + (if hf then ?f else 0)"
  from Cons.prems have t: "tiled hf (dd + ?d) ?fr ws" by simp
  have b: "dd + ?d < 2 ^ 64" "?fr < 2 ^ 64" using tiled_bound [OF t] by simp_all
  have o: "wm_dd_off m = of_nat dd" "hf \<Longrightarrow> wm_freq_off m = of_nat fr"
    using Cons.prems by auto
  have nat: "of_nat dd + wm_dd_disk_len m = of_nat (dd + ?d)"
    "hf \<Longrightarrow> of_nat fr + wm_freq_disk_len m = of_nat (fr + ?f)" by simp_all
  have un: "unat (of_nat (dd + ?d) :: u64) = dd + ?d" "unat (of_nat dd :: u64) = dd"
    using b(1) by (intro unat_of_nat_u64, simp)+
  have uf: "unat (of_nat (fr + ?f) :: u64) = fr + ?f" "unat (of_nat fr :: u64) = fr" if hf
    using b(2) that by (intro unat_of_nat_u64, simp)+
  have g: "\<not> of_nat (dd + ?d) < (of_nat dd :: u64)" using un unfolding word_less_nat_alt by linarith
  have gf: "\<not> of_nat (fr + ?f) < (of_nat fr :: u64)" if hf
    using uf [OF that] unfolding word_less_nat_alt by linarith
  have raw: "\<not> (wm_dd_disk_len m > wm_dd_uncomp_len m \<and> \<not> wm_dd_zstd m)" using Cons.prems by auto
  show ?case
    using Cons.IH [OF t, of "ucast (wm_last_docid m)"] o nat g gf raw
    by (cases hf) (simp_all add: stored_window_def dd_bytes_def freq_bytes_def add.assoc del: of_nat_add)
qed (simp add: dd_bytes_def freq_bytes_def)

subsection \<open>Opening what was built\<close>

definition prelude_blocks :: "frq_prelude_columns \<Rightarrow> super_block list" where
  "prelude_blocks cols = blocks_of (fpc_has_freq cols) (fpc_has_prx cols) 0
     (chunks (unat (fpc_group_size cols)) (fpc_windows cols))"

definition prelude_dir :: "frq_prelude_columns \<Rightarrow> byte list" where
  "prelude_dir cols = encode_super_block_dir (prelude_blocks cols) 0 0 []"

definition header_bytes :: "frq_prelude_columns \<Rightarrow> byte list" where
  "header_bytes cols =
     make_flags cols # encode_varint64 (of_nat (length (fpc_windows cols))) @
     encode_varint64 (ucast (fpc_group_size cols)) @ encode_varint64 (of_nat (length (prelude_blocks cols))) @
     encode_varint64 (of_nat (length (prelude_dir cols)))"

definition prelude_bytes :: "frq_prelude_columns \<Rightarrow> byte list" where
  "prelude_bytes cols =
     (let covered = header_bytes cols @ prelude_dir cols
      in covered @ le_bytes 4 (crc32c covered) @ region_bytes (prelude_blocks cols))"

lemma fold_put_blocks: "fold (\<lambda>sb. put_bytes (sb_block sb)) sbs out = out @ region_bytes sbs"
  by (induction sbs arbitrary: out) (simp_all add: put_bytes_def)

lemma build_frq_prelude_Inr:
  "build_frq_prelude cols out = Inr bs \<longleftrightarrow> prelude_ok cols \<and> bs = out @ prelude_bytes cols"
  by (auto simp: build_frq_prelude_def validate_input_ok encode_super_blocks_def super_blocks_loop_eq
      prelude_blocks_def [symmetric] prelude_dir_def [symmetric] Let_def sink_defs fold_put_blocks
      prelude_bytes_def header_bytes_def prelude_ok_def)

lemma length_prelude_blocks: "length (prelude_blocks cols) = length (chunks (unat (fpc_group_size cols)) (fpc_windows cols))"
  by (simp add: prelude_blocks_def)

lemma prelude_blocks_le:
  assumes "prelude_ok cols" shows "length (prelude_blocks cols) \<le> length (fpc_windows cols)"
proof -
  have g: "0 < unat (fpc_group_size cols)" using assms by (simp add: prelude_ok_def unat_gt_0)
  have "\<not> length (fpc_windows cols) * unat (fpc_group_size cols) < length (fpc_windows cols)" using g by simp
  then show ?thesis using chunks_index [OF g, of "length (fpc_windows cols)" "fpc_windows cols"]
    by (auto simp: length_prelude_blocks not_less)
qed

lemma ceil_div_windows:
  assumes "prelude_ok cols"
  shows "ceil_div (of_nat (length (fpc_windows cols))) (ucast (fpc_group_size cols)) =
    of_nat (length (prelude_blocks cols))"
proof -
  let ?n = "length (fpc_windows cols)" and ?g = "unat (fpc_group_size cols)"
  have g: "0 < ?g" and n: "?n \<le> 2 ^ 24" and g32: "?g < 2 ^ 32"
    using assms unat_u32_less [of "fpc_group_size cols"] by (auto simp: prelude_ok_def unat_gt_0)
  have "of_nat ?n + ucast (fpc_group_size cols) - 1 = (of_nat (?n + ?g - 1) :: u64)"
    using g by (simp add: of_nat_diff)
  moreover have "unat (of_nat (?n + ?g - 1) :: u64) = ?n + ?g - 1" using n g32 by (intro unat_of_nat_u64) simp
  ultimately have "unat (ceil_div (of_nat ?n) (ucast (fpc_group_size cols))) = (?n + ?g - 1) div ?g"
    by (simp add: ceil_div_def unat_div)
  also have "\<dots> = length (prelude_blocks cols)" by (simp add: length_prelude_blocks chunks_length [OF g])
  finally have "of_nat (unat (ceil_div (of_nat ?n) (ucast (fpc_group_size cols)))) =
    (of_nat (length (prelude_blocks cols)) :: u64)" by (rule arg_cong)
  then show ?thesis by simp
qed

definition prelude_header :: "frq_prelude_columns \<Rightarrow> frq_header" where
  "prelude_header cols =
     \<lparr>fh_has_freq = fpc_has_freq cols, fh_has_prx = fpc_has_prx cols,
      fh_n = of_nat (length (fpc_windows cols)), fh_group_size = ucast (fpc_group_size cols),
      fh_n_super = of_nat (length (prelude_blocks cols)), fh_sbdir_len = of_nat (length (prelude_dir cols))\<rparr>"

lemma parse_header_enc:
  assumes ok: "prelude_ok cols" and r: "rest src = header_bytes cols @ r"
  shows "parse_header src = Inr (prelude_header cols, advance (length (header_bytes cols)) src)"
proof -
  have n: "length (fpc_windows cols) \<le> 2 ^ 24" using ok by (simp add: prelude_ok_def)
  have "\<not> kMaxWindows < of_nat (length (fpc_windows cols))" "\<not> kMaxWindows < of_nat (length (prelude_blocks cols))"
    using n prelude_blocks_le [OF ok] by (simp_all add: word_less_nat_alt kMaxWindows_def)
  moreover have "(ucast (fpc_group_size cols) :: u64) \<noteq> 0"
    using ok by (simp add: prelude_ok_def word_unat_eq_iff)
  ultimately show ?thesis
    using r by (simp add: parse_header_def header_bytes_def codec_simps prelude_header_def
        ceil_div_windows [OF ok] add.assoc)
qed

lemma sb_last_blocks_of:
  "i < length cs \<Longrightarrow> sb_last_docid (blocks_of hf hp prev cs ! i) = last_of prev (concat (take (Suc i) cs))"
proof (induction cs arbitrary: prev i)
  case (Cons c cs)
  then show ?case by (cases i) (simp_all add: last_of_append)
qed simp

text \<open>The last document of the \<open>i\<close>-th super-block is that of its last window.\<close>

lemma sb_last_prelude:
  assumes ok: "prelude_ok cols" and i: "i < length (prelude_blocks cols)"
  shows "sb_last_docid (prelude_blocks cols ! i) =
    ucast (wm_last_docid (fpc_windows cols ! (min (Suc i * unat (fpc_group_size cols)) (length (fpc_windows cols)) - 1)))"
proof -
  let ?g = "unat (fpc_group_size cols)" and ?w = "fpc_windows cols"
  have g: "0 < ?g" using ok by (simp add: prelude_ok_def unat_gt_0)
  have "?w \<noteq> []" using i by (auto simp: length_prelude_blocks)
  then have ne: "take (Suc i * ?g) ?w \<noteq> []" using g by simp
  have "sb_last_docid (prelude_blocks cols ! i) = last_of 0 (take (Suc i * ?g) ?w)"
    using i g by (simp add: prelude_blocks_def sb_last_blocks_of concat_take_chunks del: take_Suc mult_Suc)
  also have "\<dots> = ucast (wm_last_docid (last (take (Suc i * ?g) ?w)))" by (rule last_of_last [OF ne])
  also have "last (take (Suc i * ?g) ?w) = ?w ! (min (Suc i * ?g) (length ?w) - 1)"
    using ne by (intro last_take_nth) auto
  finally show ?thesis .
qed

lemma last_docid_mono:
  assumes "prelude_ok cols" and "i \<le> j" and "j < length (fpc_windows cols)"
  shows "wm_last_docid (fpc_windows cols ! i) \<le> wm_last_docid (fpc_windows cols ! j)"
  using sorted_nth_mono [of "map wm_last_docid (fpc_windows cols)" i j] assms by (simp add: prelude_ok_def)

lemma sb_last_sorted:
  assumes ok: "prelude_ok cols" shows "sorted (map sb_last_docid (prelude_blocks cols))"
proof (rule sorted_iff_nth_mono [THEN iffD2], intro allI impI)
  fix i j assume ij: "i \<le> j" "j < length (map sb_last_docid (prelude_blocks cols))"
  let ?g = "unat (fpc_group_size cols)" and ?n = "length (fpc_windows cols)"
  have "0 < ?n" using ij by (auto simp: length_prelude_blocks)
  moreover have "Suc i * ?g \<le> Suc j * ?g" using ij by (intro mult_le_mono1) simp
  ultimately have "min (Suc i * ?g) ?n - 1 \<le> min (Suc j * ?g) ?n - 1" and "min (Suc j * ?g) ?n - 1 < ?n"
    by linarith+
  from last_docid_mono [OF ok this] show "map sb_last_docid (prelude_blocks cols) ! i \<le> map sb_last_docid (prelude_blocks cols) ! j"
    using ij by (simp add: sb_last_prelude [OF ok] word_le_nat_alt del: mult_Suc)
qed

definition prelude_reader :: "frq_prelude_columns \<Rightarrow> frq_prelude_reader" where
  "prelude_reader cols =
     \<lparr>fpr_has_freq = fpc_has_freq cols, fpr_has_prx = fpc_has_prx cols,
      fpr_group_size = fpc_group_size cols, fpr_n_super = of_nat (length (prelude_blocks cols)),
      fpr_dd_block_len = of_nat (dd_bytes (fpc_windows cols)),
      fpr_freq_block_len = of_nat (freq_bytes (fpc_has_freq cols) (fpc_windows cols)),
      fpr_sb_last_docid = map sb_last_docid (prelude_blocks cols),
      fpr_windows = stored_windows (fpc_has_freq cols) (fpc_has_prx cols) 0 (fpc_windows cols)\<rparr>"

lemma unat_add_of_nat:
  "a + b < 2 ^ 64 \<Longrightarrow> unat (of_nat a + of_nat b :: u64) = a + b"
  using unat_of_nat_u64 [of "a + b"] by simp

lemma frq_prelude_open_bytes:
  assumes ok: "prelude_ok cols" and t: "tiled (fpc_has_freq cols) 0 0 (fpc_windows cols)"
    and len: "length (prelude_bytes cols) < 2 ^ 64"
  shows "frq_prelude_open (prelude_bytes cols) = Inr (prelude_reader cols)"
proof -
  let ?h = "header_bytes cols" and ?d = "prelude_dir cols" and ?r = "region_bytes (prelude_blocks cols)"
  let ?c = "le_bytes 4 (crc32c (?h @ ?d))"
  let ?p = "?h @ ?d @ ?c @ ?r"
  have p: "prelude_bytes cols = ?p" by (simp add: prelude_bytes_def Let_def)
  have l: "length ?h + length ?d + 4 + length ?r < 2 ^ 64" using len by (simp add: p)
  have un: "unat (of_nat (length ?d) :: u64) = length ?d" "unat (of_nat (length ?r) :: u64) = length ?r"
    "unat (of_nat (length ?p) :: u64) = length ?p"
    using l by (intro unat_of_nat_u64, simp)+
  have cov: "of_nat (length ?h) + of_nat (length ?d) = (of_nat (length ?h + length ?d) :: u64)"
    "of_nat (length ?h + length ?d) + 4 = (of_nat (length ?h + length ?d + 4) :: u64)"
    "of_nat (length ?h + length ?d + 4) + of_nat (length ?r) = (of_nat (length ?p) :: u64)"
    by simp_all
  have unc: "unat (of_nat (length ?h + length ?d) :: u64) = length ?h + length ?d"
    "unat (of_nat (length ?h + length ?d + 4) :: u64) = length ?h + length ?d + 4"
    using l by (intro unat_of_nat_u64, simp)+
  have guard: "\<not> of_nat (length ?p) < (of_nat (length ?h + length ?d) :: u64)"
    "\<not> of_nat (length ?p) < (of_nat (length ?h + length ?d + 4) :: u64)"
    using un unc unfolding word_less_nat_alt by simp_all
  have ph: "parse_header (source ?p) = Inr (prelude_header cols, advance (length ?h) (source ?p))"
    by (rule parse_header_enc [OF ok]) simp
  have vc: "verify_covered_crc ?p (length ?h) (of_nat (length ?d)) = Inr ()"
    unfolding verify_covered_crc_def Let_def cov
    using guard unc by (simp add: codec_simps del: of_nat_add)
  have dir: "decode_super_block_dir ?d (prelude_header cols) = Inr (dir_rows 0 (prelude_blocks cols), of_nat (length ?r))"
    unfolding prelude_dir_def
  proof (rule decode_super_block_dir_enc [OF sb_last_sorted [OF ok]])
    show "unat (fh_n_super (prelude_header cols)) = length (prelude_blocks cols)"
      using prelude_blocks_le [OF ok] ok by (simp add: prelude_header_def prelude_ok_def)
  qed
  have "cut (unat (fpc_group_size cols)) (0 + length (fpc_windows cols)) 0
      (chunks (unat (fpc_group_size cols)) (fpc_windows cols))"
    using ok by (intro cut_chunks) (simp add: prelude_ok_def unat_gt_0)
  then have blocks: "decode_blocks ?r (prelude_header cols) (dir_rows 0 (prelude_blocks cols)) 0 [] =
      Inr (fpr_windows (prelude_reader cols))"
    using decode_blocks_enc [of "prelude_header cols" "[]" "chunks (unat (fpc_group_size cols)) (fpc_windows cols)" "[]" 0]
      ok l by (simp add: prelude_header_def prelude_blocks_def prelude_reader_def prelude_ok_def
        unat_gt_0)
  then have all: "decode_all_blocks ?r (prelude_header cols) (dir_rows 0 (prelude_blocks cols)) =
      Inr (fpr_windows (prelude_reader cols))"
    by (simp add: decode_all_blocks_def prelude_header_def prelude_reader_def)
  have lay: "validate_region_layout (prelude_header cols) (fpr_windows (prelude_reader cols)) =
      Inr (of_nat (dd_bytes (fpc_windows cols)), of_nat (freq_bytes (fpc_has_freq cols) (fpc_windows cols)))"
    using validate_regions_tiled [OF t, of "fpc_has_prx cols" 0]
    by (simp add: validate_region_layout_def prelude_header_def prelude_reader_def)
  have sb: "fh_sbdir_len (prelude_header cols) = of_nat (length ?d)" by (simp add: prelude_header_def)
  have sl: "subslice ?p (length ?h) (length ?d) = Inr ?d"
    "subslice ?p (length ?h + length ?d + 4) (length ?r) = Inr ?r" by (simp_all add: subslice_def)
  have ns: "ucast (of_nat (length (prelude_blocks cols)) :: u64) = (of_nat (length (prelude_blocks cols)) :: u32)"
    using prelude_blocks_le [OF ok] ok
    by (simp add: word_unat_eq_iff unsigned_ucast_eq take_bit_nat_eq_self prelude_ok_def)
  have "src_pos (advance (length ?h) (source ?p)) = length ?h" by simp
  note eqs = ph this sb vc sl dir all lay cov unc un guard
  show ?thesis
    unfolding p frq_prelude_open_def and_then_Inr prod.case Let_def eqs
    by (simp add: eqs ns guard [simplified length_append length_le_bytes] prelude_header_def prelude_reader_def
        del: of_nat_add subslice_ok)
qed

subsection \<open>Locating a window\<close>

text \<open>The specification: the index of the first window whose last document is at least \<open>docid\<close>.\<close>

definition first_window :: "window_meta list \<Rightarrow> u32 \<Rightarrow> nat option" where
  "first_window ws docid = find (\<lambda>i. docid \<le> wm_last_docid (ws ! i)) [0..<length ws]"

lemma find_upt_range:
  assumes "lo \<le> hi" and "hi \<le> n" and "\<And>i. i < lo \<Longrightarrow> \<not> P i"
    and "\<exists>i. lo \<le> i \<and> i < hi \<and> P i"
  shows "find P [lo..<hi] = find P [0..<n]"
proof -
  have split: "[0..<n] = [0..<lo] @ [lo..<hi] @ [hi..<n]"
    using assms(1,2) by (metis le0 le_trans upt_add_eq_append le_add_diff_inverse)
  have app: "find P (xs @ ys) = (case find P xs of None \<Rightarrow> find P ys | Some y \<Rightarrow> Some y)" for xs ys
    by (induction xs) auto
  have "find P [0..<lo] = None" using assms(3) by (simp add: find_None_iff)
  moreover have "find P [lo..<hi] \<noteq> None" using assms(4) by (auto simp: find_None_iff)
  ultimately show ?thesis unfolding split app by (auto split: option.splits)
qed

text \<open>The super-block that the first search selects holds the first window that reaches \<open>docid\<close>.\<close>

lemma super_block_range:
  assumes ok: "prelude_ok cols" and ne: "fpc_windows cols \<noteq> []"
    and le: "docid \<le> wm_last_docid (last (fpc_windows cols))"
  defines "sb \<equiv> lower_bound (map sb_last_docid (prelude_blocks cols)) (ucast docid)"
  defines "lo \<equiv> sb * unat (fpc_group_size cols)"
  defines "hi \<equiv> min (lo + unat (fpc_group_size cols)) (length (fpc_windows cols))"
  shows "lo < hi" and "docid \<le> wm_last_docid (fpc_windows cols ! (hi - 1))"
    and "\<And>i. i < lo \<Longrightarrow> \<not> docid \<le> wm_last_docid (fpc_windows cols ! i)"
proof -
  let ?w = "fpc_windows cols" and ?g = "unat (fpc_group_size cols)"
  let ?sbs = "map sb_last_docid (prelude_blocks cols)" and ?n = "length (fpc_windows cols)"
  have g: "0 < ?g" using ok by (simp add: prelude_ok_def unat_gt_0)
  note lb = lower_bound_spec [OF sb_last_sorted [OF ok], where x = "ucast docid", folded sb_def]
  have sbl: "?sbs ! i = ucast (wm_last_docid (?w ! (min (Suc i * ?g) ?n - 1)))" if "i < length ?sbs" for i
    using that sb_last_prelude [OF ok, of i] by simp
  have idx: "i < length ?sbs \<longleftrightarrow> i * ?g < ?n" for i
    by (simp add: length_prelude_blocks chunks_index [OF g])
  have n0: "0 < ?n" using ne by simp
  have sb: "sb < length ?sbs"
  proof (rule ccontr)
    assume "\<not> sb < length ?sbs"
    then have eq: "sb = length ?sbs" using lb(1) by simp
    have l: "length ?sbs - 1 < length ?sbs" using idx [of 0] n0 by simp
    have "Suc (length ?sbs - 1) = length ?sbs" using l by linarith
    then have "?n \<le> Suc (length ?sbs - 1) * ?g" using idx [of "length ?sbs"] by (metis less_irrefl not_less)
    then have "?sbs ! (length ?sbs - 1) = ucast (wm_last_docid (last ?w))"
      using sbl [OF l] ne by (simp add: last_conv_nth min_absorb2 del: mult_Suc)
    then show False using lb(2) [of "length ?sbs - 1"] l le eq by (simp add: word_less_nat_alt word_le_nat_alt)
  qed
  have hi: "hi = min (Suc sb * ?g) ?n" by (simp add: hi_def lo_def add.commute)
  show "lo < hi" using sb idx [of sb] g by (simp add: hi_def lo_def)
  show "docid \<le> wm_last_docid (?w ! (hi - 1))"
    using lb(3) [OF order.refl sb] sbl [OF sb] by (simp add: hi word_le_nat_alt del: mult_Suc)
  show "\<not> docid \<le> wm_last_docid (?w ! i)" if i: "i < lo" for i
  proof -
    from i have "0 < sb" by (cases sb) (auto simp: lo_def)
    then have s: "Suc (sb - 1) = sb" and "sb - 1 < sb" by auto
    then have "?sbs ! (sb - 1) < ucast docid" by (intro lb(2))
    moreover have "?sbs ! (sb - 1) = ucast (wm_last_docid (?w ! (lo - 1)))"
      using sbl [of "sb - 1"] sb s idx [of sb] by (simp add: min_absorb1 less_imp_le lo_def)
    ultimately have "wm_last_docid (?w ! (lo - 1)) < docid" by (simp add: word_less_nat_alt)
    moreover have "wm_last_docid (?w ! i) \<le> wm_last_docid (?w ! (lo - 1))"
      using i idx [of sb] sb by (intro last_docid_mono [OF ok]) (auto simp: lo_def)
    ultimately show ?thesis by (simp add: not_le order.strict_trans1)
  qed
qed

lemma reader_docids:
  "i < length (fpc_windows cols) \<Longrightarrow>
   wm_last_docid (fpr_windows (prelude_reader cols) ! i) = wm_last_docid (fpc_windows cols ! i)"
  by (metis last_docids_stored length_map nth_map prelude_reader_def frq_prelude_reader.select_convs(8))

lemma reader_windows_Nil [simp]: "fpr_windows (prelude_reader cols) = [] \<longleftrightarrow> fpc_windows cols = []"
  using length_stored_windows [of "fpc_has_freq cols" "fpc_has_prx cols" 0 "fpc_windows cols"]
  by (metis length_0_conv prelude_reader_def frq_prelude_reader.select_convs(8))

lemma reader_last:
  assumes "fpc_windows cols \<noteq> []"
  shows "wm_last_docid (last (fpr_windows (prelude_reader cols))) = wm_last_docid (last (fpc_windows cols))"
proof -
  have "length (fpr_windows (prelude_reader cols)) = length (fpc_windows cols)" by (simp add: prelude_reader_def)
  with assms reader_docids [of "length (fpc_windows cols) - 1" cols] show ?thesis by (simp add: last_conv_nth)
qed

lemma locate_window_first:
  assumes ok: "prelude_ok cols"
  shows "locate_window (prelude_reader cols) docid = map_option of_nat (first_window (fpc_windows cols) docid)"
proof (cases "fpc_windows cols = [] \<or> docid > wm_last_docid (last (fpc_windows cols))")
  case True
  have "wm_last_docid (fpc_windows cols ! i) \<le> wm_last_docid (last (fpc_windows cols))"
    if "i < length (fpc_windows cols)" for i
    using last_docid_mono [OF ok, of i "length (fpc_windows cols) - 1"] that
    by (cases "fpc_windows cols = []") (simp_all add: last_conv_nth)
  with True have "first_window (fpc_windows cols) docid = None"
    by (auto simp: first_window_def find_None_iff not_le dest: order.strict_trans1)
  with True show ?thesis by (cases "fpc_windows cols = []") (simp_all add: locate_window_def reader_last)
next
  case False
  then have ne: "fpc_windows cols \<noteq> []" and le: "docid \<le> wm_last_docid (last (fpc_windows cols))" by auto
  let ?w = "fpc_windows cols" and ?r = "prelude_reader cols"
  let ?lo = "lower_bound (map sb_last_docid (prelude_blocks cols)) (ucast docid) * unat (fpc_group_size cols)"
  let ?hi = "min (?lo + unat (fpc_group_size cols)) (length ?w)"
  note range = super_block_range [OF ok ne le]
  have "find (\<lambda>i. docid \<le> wm_last_docid (fpr_windows ?r ! i)) [?lo..<?hi] =
    find (\<lambda>i. docid \<le> wm_last_docid (?w ! i)) [?lo..<?hi]"
    by (rule find_cong [OF refl]) (simp add: reader_docids)
  also have "\<dots> = first_window ?w docid"
    unfolding first_window_def
    by (rule find_upt_range [OF less_imp_le [OF range(1)] _ range(3)])
      (use range in \<open>auto intro!: exI [of _ "?hi - 1"]\<close>)
  finally show ?thesis
    using ne leD [OF le] by (simp add: locate_window_def reader_last Let_def) (simp add: prelude_reader_def)
qed

subsection \<open>Size\<close>

lemma length_row_bytes: "length (row_bytes hf hp prev m) \<le> 120"
  using varint64_len_le_10 [of "ucast (wm_last_docid m) - prev"] varint64_len_le_10 [of "ucast (wm_doc_count m)"]
    varint64_len_le_10 [of "wm_dd_off m"] varint64_len_le_10 [of "wm_dd_disk_len m"]
    varint64_len_le_10 [of "wm_dd_uncomp_len m"] varint64_len_le_10 [of "wm_freq_off m"]
    varint64_len_le_10 [of "wm_freq_disk_len m"] varint64_len_le_10 [of "wm_freq_uncomp_len m"]
    varint64_len_le_10 [of "wm_prx_off m"] varint64_len_le_10 [of "wm_prx_len m"]
    varint64_len_le_10 [of "ucast (wm_max_freq m)"]
  by (simp add: row_bytes_def encode_window_row_def sink_defs Let_def)

lemma length_rows_bytes: "length (rows_bytes hf hp prev ws) \<le> 120 * length ws"
proof (induction ws arbitrary: prev)
  case (Cons m ws)
  from Cons [of "ucast (wm_last_docid m)"] length_row_bytes [of hf hp prev m] show ?case by simp
qed simp

lemma length_region_bytes: "length (region_bytes (blocks_of hf hp prev cs)) \<le> 120 * length (concat cs)"
proof (induction cs arbitrary: prev)
  case (Cons c cs)
  from Cons [of "last_of prev c"] length_rows_bytes [of hf hp prev c] show ?case by simp
qed simp

lemma length_dir_bytes: "length (encode_super_block_dir sbs prev off []) \<le> 30 * length sbs"
proof (induction sbs arbitrary: prev off)
  case (Cons sb sbs)
  from Cons [of "sb_last_docid sb" "off + of_nat (length (sb_block sb))"]
    varint64_len_le_10 [of "sb_last_docid sb - prev"] varint64_len_le_10 [of off]
    varint64_len_le_10 [of "of_nat (length (sb_block sb))"]
  show ?case unfolding encode_dir_Cons by simp
qed simp

lemma length_prelude_bytes:
  assumes "prelude_ok cols"
  shows "length (prelude_bytes cols) \<le> 45 + 150 * length (fpc_windows cols)"
proof -
  have "0 < unat (fpc_group_size cols)" using assms by (simp add: prelude_ok_def unat_gt_0)
  then have "length (region_bytes (prelude_blocks cols)) \<le> 120 * length (fpc_windows cols)"
    using length_region_bytes [of "fpc_has_freq cols" "fpc_has_prx cols" 0 "chunks (unat (fpc_group_size cols)) (fpc_windows cols)"]
    by (simp add: prelude_blocks_def)
  moreover have "length (prelude_dir cols) \<le> 30 * length (fpc_windows cols)"
    using length_dir_bytes [of "prelude_blocks cols" 0 0] prelude_blocks_le [OF assms] by (simp add: prelude_dir_def)
  moreover have "length (header_bytes cols) \<le> 41"
    using varint64_len_le_10 [of "of_nat (length (fpc_windows cols))"] varint64_len_le_10 [of "ucast (fpc_group_size cols)"]
      varint64_len_le_10 [of "of_nat (length (prelude_blocks cols))"] varint64_len_le_10 [of "of_nat (length (prelude_dir cols))"]
    by (simp add: header_bytes_def)
  ultimately show ?thesis by (simp add: prelude_bytes_def Let_def)
qed

subsection \<open>Correctness\<close>

text \<open>C17: a prelude is built exactly from ascending windows under a positive group size; reopened, it
  exposes every window with its absolute base, the exact lengths of the dd and freq blocks, and
  locates the first window that reaches a document, for every document.\<close>

theorem frq_prelude_roundtrip:
  assumes "build_frq_prelude cols [] = Inr bs"
    and "tiled (fpc_has_freq cols) 0 0 (fpc_windows cols)"
  shows "\<exists>r. frq_prelude_open bs = Inr r \<and>
    fpr_windows r = stored_windows (fpc_has_freq cols) (fpc_has_prx cols) 0 (fpc_windows cols) \<and>
    unat (fpr_dd_block_len r) = dd_bytes (fpc_windows cols) \<and>
    unat (fpr_freq_block_len r) = freq_bytes (fpc_has_freq cols) (fpc_windows cols) \<and>
    (\<forall>docid. locate_window r docid = map_option of_nat (first_window (fpc_windows cols) docid))"
proof -
  have ok: "prelude_ok cols" and bs: "bs = prelude_bytes cols"
    using assms(1) by (simp_all add: build_frq_prelude_Inr)
  have "length (prelude_bytes cols) < 2 ^ 64"
    using length_prelude_bytes [OF ok] ok by (simp add: prelude_ok_def)
  from frq_prelude_open_bytes [OF ok assms(2) this] locate_window_first [OF ok] tiled_bound [OF assms(2)]
  show ?thesis unfolding bs by (intro exI [of _ "prelude_reader cols"]) (simp add: prelude_reader_def)
qed

definition sample_columns :: frq_prelude_columns where
  "sample_columns =
     \<lparr>fpc_has_freq = True, fpc_has_prx = False, fpc_group_size = 1,
      fpc_windows =
        [default_window_meta\<lparr>wm_last_docid := 40, wm_doc_count := 9, wm_dd_disk_len := 30,
           wm_dd_uncomp_len := 30, wm_freq_disk_len := 8, wm_freq_uncomp_len := 8\<rparr>,
         default_window_meta\<lparr>wm_last_docid := 90, wm_doc_count := 5, wm_dd_off := 30, wm_dd_disk_len := 12,
           wm_dd_uncomp_len := 12, wm_freq_off := 8, wm_freq_disk_len := 4, wm_freq_uncomp_len := 4\<rparr>]\<rparr>"

theorem frq_prelude_roundtrip_witness:
  "\<exists>bs r. build_frq_prelude sample_columns [] = Inr bs \<and> frq_prelude_open bs = Inr r \<and>
     length (fpr_windows r) = length (fpc_windows sample_columns) \<and>
     fpr_dd_block_len r = 42 \<and> locate_window r 41 = Some 1 \<and> locate_window r 91 = None"
proof -
  have b: "build_frq_prelude sample_columns [] = Inr (prelude_bytes sample_columns)"
    by (simp add: build_frq_prelude_Inr prelude_ok_def sample_columns_def default_window_meta_def)
  have t: "tiled (fpc_has_freq sample_columns) 0 0 (fpc_windows sample_columns)"
    by (simp add: sample_columns_def default_window_meta_def)
  have f: "first_window (fpc_windows sample_columns) 41 = Some 1" "first_window (fpc_windows sample_columns) 91 = None"
    by (simp_all add: sample_columns_def default_window_meta_def first_window_def upt_rec)
  have d: "dd_bytes (fpc_windows sample_columns) = 42"
    by (simp add: sample_columns_def default_window_meta_def dd_bytes_def)
  from frq_prelude_roundtrip [OF b t] b f d show ?thesis by (auto simp: word_unat_eq_iff)
qed

text \<open>C37: the bytes of a prelude are at most linear in the number of windows.\<close>

theorem frq_prelude_size:
  assumes "build_frq_prelude cols [] = Inr bs"
  shows "length bs \<le> 45 + 150 * length (fpc_windows cols) \<and> length bs < 2 ^ 32"
  using assms length_prelude_bytes [of cols] by (auto simp: build_frq_prelude_Inr prelude_ok_def)

theorem frq_prelude_size_witness:
  "\<exists>bs. build_frq_prelude sample_columns [] = Inr bs \<and> length bs < 2 ^ 32"
proof -
  have b: "build_frq_prelude sample_columns [] = Inr (prelude_bytes sample_columns)"
    by (simp add: build_frq_prelude_Inr prelude_ok_def sample_columns_def default_window_meta_def)
  with frq_prelude_size [OF b] show ?thesis by blast
qed

text \<open>C38: the sum \<open>header_end + sbdir_len + 4\<close> that \<open>verify_covered_crc\<close> compares with the buffer
  size wraps at 64 bits: fourteen bytes with a large \<open>sbdir_len\<close> pass the comparison and make the
  reader take a slice that starts outside the buffer.\<close>

theorem frq_prelude_length_wraps:
  "frq_prelude_open ([0, 0, 1, 0] @ encode_varint64 0xFFFFFFFFFFFFFFF0) = Inl OutOfBounds"
proof -
  let ?v = "encode_varint64 0xFFFFFFFFFFFFFFF0"
  let ?p = "[0, 0, 1, 0] @ ?v"
  have one: "decode_varint64 (0 # r) = Inr (0, r)" "decode_varint64 (1 # r) = Inr (1, r)" for r
    by (simp_all add: decode_varint64_def)
  have l: "length ?v = 10" by code_simp
  have "parse_header (source ?p) =
     Inr (\<lparr>fh_has_freq = False, fh_has_prx = False, fh_n = 0, fh_group_size = 1, fh_n_super = 0,
           fh_sbdir_len = 0xFFFFFFFFFFFFFFF0\<rparr>, advance 14 (source ?p))"
    by (simp add: parse_header_def codec_simps one l ceil_div_def)
  moreover have "verify_covered_crc ?p 14 0xFFFFFFFFFFFFFFF0 = Inl OutOfBounds"
    by (simp add: verify_covered_crc_def l subslice_def)
  ultimately show ?thesis by (simp add: frq_prelude_open_def)
qed

end
