(* ===== verification/Prx_Pod_Correct.thy ===== *)
theory Prx_Pod_Correct
  imports Prx_Pod
begin

text \<open>
  What a \<open>.prx\<close> window promises: it reads back document by document, the flat builder writes the
  same bytes as the per-document one, and the flat (CSR) reader returns the concatenation of what
  the per-document reader returns.
\<close>

subsection \<open>Deltas of one document\<close>

fun deltas :: "nat \<Rightarrow> u32 \<Rightarrow> u32 list \<Rightarrow> u32 list" where
  "deltas i prev [] = []"
| "deltas i prev (p # ps) = (if i = 0 then p else p - prev) # deltas (Suc i) p ps"

lemma length_deltas [simp]: "length (deltas i prev ps) = length ps"
  by (induction ps arbitrary: i prev) simp_all

lemma length_undelta [simp]: "length (undelta i prev ds) = length ds"
  by (induction ds arbitrary: i prev) (simp_all add: Let_def)

lemma undelta_deltas [simp]: "undelta i prev (deltas i prev ps) = ps"
  by (induction ps arbitrary: i prev) (simp_all add: Let_def)

lemma position_deltas_eq:
  "position_deltas i prev ps =
     (if sorted (if i = 0 then ps else prev # ps) then Inr (deltas i prev ps) else InvalidArgument)"
  by (induction ps arbitrary: i prev) (auto simp: not_less intro: order.trans)

lemma put_positions_eq:
  "put_positions i prev ps out =
     (if sorted (if i = 0 then ps else prev # ps)
      then Inr (out @ concat (map encode_varint32 (deltas i prev ps))) else InvalidArgument)"
  by (induction ps arbitrary: i prev out) (auto simp: not_less put_varint32_def intro: order.trans)

lemma get_positions_bytes:
  "rest src = concat (map encode_varint32 ds) @ r \<Longrightarrow>
   get_positions (length ds) i prev src =
     Inr (undelta i prev ds, advance (length (concat (map encode_varint32 ds))) src)"
proof (induction ds arbitrary: i prev src)
  case (Cons d ds)
  have "get_varint32 src = Inr (d, advance (length (encode_varint32 d)) src)"
    by (rule varint32.get_enc) (simp_all add: Cons.prems)
  moreover have "rest (advance (length (encode_varint32 d)) src) = concat (map encode_varint32 ds) @ r"
    by (simp add: Cons.prems)
  ultimately show ?case using Cons.IH by (simp add: Let_def)
qed simp

subsection \<open>Documents as varints\<close>

definition doc_bytes :: "u32 list \<Rightarrow> byte list" where
  "doc_bytes doc =
     encode_varint32 (of_nat (length doc)) @ concat (map encode_varint32 (deltas 0 0 doc))"

lemma put_docs_eq:
  "put_docs docs out =
     (if \<forall>doc \<in> set docs. sorted doc then Inr (out @ concat (map doc_bytes docs)) else InvalidArgument)"
  by (induction docs arbitrary: out) (auto simp: put_positions_eq doc_bytes_def put_varint32_def)

lemma get_docs_bytes:
  "rest src = concat (map doc_bytes docs) @ r \<Longrightarrow> \<forall>doc \<in> set docs. length doc < 2 ^ 32 \<Longrightarrow>
   get_docs (length docs) src = Inr (docs, advance (length (concat (map doc_bytes docs))) src)"
proof (induction docs arbitrary: src)
  case (Cons doc docs)
  let ?n = "encode_varint32 (of_nat (length doc))"
  let ?ds = "concat (map encode_varint32 (deltas 0 0 doc))"
  have r: "rest src = ?n @ ?ds @ concat (map doc_bytes docs) @ r"
    using Cons.prems(1) by (simp add: doc_bytes_def [of doc])
  have 1: "get_varint32 src = Inr (of_nat (length doc), advance (length ?n) src)"
    by (rule varint32.get_enc) (simp_all add: r)
  have un: "unat (of_nat (length doc) :: u32) = length doc" using Cons.prems(2) by simp
  have 2: "get_positions (length doc) 0 0 (advance (length ?n) src) =
      Inr (doc, advance (length ?ds) (advance (length ?n) src))"
    using get_positions_bytes [of "advance (length ?n) src" "deltas 0 0 doc"] r by simp
  have 3: "get_docs (length docs) (advance (length ?ds) (advance (length ?n) src)) =
      Inr (docs, advance (length (concat (map doc_bytes docs))) (advance (length ?ds) (advance (length ?n) src)))"
    using Cons.prems r by (intro Cons.IH) simp_all
  show ?case using 1 2 3 un by (simp add: doc_bytes_def [of doc])
qed simp

definition docs_payload :: "u32 list list \<Rightarrow> byte list" where
  "docs_payload docs = encode_varint32 (of_nat (length docs)) @ concat (map doc_bytes docs)"

lemma prx_encode_payload_eq:
  "prx_encode_payload docs out =
     (if \<forall>doc \<in> set docs. sorted doc then Inr (out @ docs_payload docs) else InvalidArgument)"
  by (auto simp: prx_encode_payload_def put_docs_eq put_varint32_def docs_payload_def)

lemma prx_decode_payload_bytes:
  assumes n: "length docs \<le> 2 ^ 24" and docs: "\<forall>doc \<in> set docs. length doc < 2 ^ 32"
  shows "prx_decode_payload (docs_payload docs) = Inr docs"
proof -
  let ?n = "encode_varint32 (of_nat (length docs))" and ?s = "source (docs_payload docs)"
  have 1: "get_varint32 ?s = Inr (of_nat (length docs), advance (length ?n) ?s)"
    by (rule varint32.get_enc) (simp_all add: docs_payload_def)
  have un: "unat (of_nat (length docs) :: u32) = length docs" using n by simp
  have le: "\<not> prx_kMaxWindowDocs < of_nat (length docs)"
    using n un by (simp add: word_less_nat_alt prx_kMaxWindowDocs_def)
  have 2: "get_docs (length docs) (advance (length ?n) ?s) =
      Inr (docs, advance (length (concat (map doc_bytes docs))) (advance (length ?n) ?s))"
    using docs by (intro get_docs_bytes [where r = "[]"]) (simp_all add: docs_payload_def)
  have 3: "eof (advance (length (concat (map doc_bytes docs))) (advance (length ?n) ?s))"
    by (subst eof_rest) (simp_all add: docs_payload_def)
  show ?thesis using 1 2 3 un le by (simp add: prx_decode_payload_def)
qed

subsection \<open>Flat positions\<close>

abbreviation doc_freqs :: "u32 list list \<Rightarrow> u32 list" where
  "doc_freqs docs \<equiv> map (\<lambda>doc. of_nat (length doc)) docs"

abbreviation short_docs :: "u32 list list \<Rightarrow> bool" where
  "short_docs docs \<equiv> \<forall>doc \<in> set docs. length doc < 2 ^ 32"

lemma ucast_of_nat_u32: "n < 2 ^ 32 \<Longrightarrow> (ucast (of_nat n :: u32) :: u64) = of_nat n"
  by (intro word_unat_eq_iff [THEN iffD2]) simp

lemma sum_u64_freqs: "short_docs docs \<Longrightarrow> sum_u64 (doc_freqs docs) = of_nat (length (concat docs))"
proof -
  have "short_docs docs \<Longrightarrow> foldl (\<lambda>sum fc. sum + ucast fc) a (doc_freqs docs) =
      a + of_nat (length (concat docs))" for a :: u64
    by (induction docs arbitrary: a) (auto simp: ucast_of_nat_u32 ac_simps)
  from this [of 0] show "short_docs docs \<Longrightarrow> ?thesis" by (simp add: sum_u64_def)
qed

lemma put_docs_flat_eq:
  "short_docs docs \<Longrightarrow> put_docs_flat (pre @ concat docs) (length pre) (doc_freqs docs) out = put_docs docs out"
proof (induction docs arbitrary: pre out)
  case (Cons doc docs)
  have un: "unat (of_nat (length doc) :: u32) = length doc" using Cons.prems by simp
  have "put_docs_flat ((pre @ doc) @ concat docs) (length (pre @ doc)) (doc_freqs docs) = put_docs docs"
    using Cons.prems by (intro ext Cons.IH) simp
  then show ?case by (simp add: un)
qed simp

lemma flat_deltas_eq:
  "short_docs docs \<Longrightarrow> flat_deltas (pre @ concat docs) (length pre) (doc_freqs docs) =
     (if \<forall>doc \<in> set docs. sorted doc then Inr (concat (map (deltas 0 0) docs)) else InvalidArgument)"
proof (induction docs arbitrary: pre)
  case (Cons doc docs)
  have un: "unat (of_nat (length doc) :: u32) = length doc" using Cons.prems by simp
  have "flat_deltas ((pre @ doc) @ concat docs) (length (pre @ doc)) (doc_freqs docs) =
     (if \<forall>doc \<in> set docs. sorted doc then Inr (concat (map (deltas 0 0) docs)) else InvalidArgument)"
    using Cons.prems by (intro Cons.IH) simp
  then show ?case by (simp add: un position_deltas_eq)
qed simp

lemma split_docs_eq:
  "short_docs docs \<Longrightarrow>
   split_docs (pre @ concat (map (deltas 0 0) docs)) (length pre) (doc_freqs docs) = Inr docs"
proof (induction docs arbitrary: pre)
  case (Cons doc docs)
  have un: "unat (of_nat (length doc) :: u32) = length doc" using Cons.prems by simp
  have "split_docs ((pre @ deltas 0 0 doc) @ concat (map (deltas 0 0) docs))
      (length (pre @ deltas 0 0 doc)) (doc_freqs docs) = Inr docs"
    using Cons.prems by (intro Cons.IH) simp
  then show ?case by (simp add: un)
qed simp

definition pfor_payload :: "u32 list list \<Rightarrow> byte list" where
  "pfor_payload docs =
     encode_varint32 (of_nat (length docs)) @ encode_varint32 (of_nat (length (concat docs))) @
     pfor_runs_bytes (doc_freqs docs) @ pfor_runs_bytes (concat (map (deltas 0 0) docs))"

lemma encode_pfor_payload_eq:
  assumes "short_docs docs"
  shows "encode_pfor_payload docs out =
     (if \<forall>doc \<in> set docs. sorted doc then Inr (out @ pfor_payload docs) else InvalidArgument)"
  using flat_deltas_eq [OF assms, of "[]"] sum_u64_freqs [OF assms]
  by (auto simp: encode_pfor_payload_def encode_pfor_payload_flat_def check_flat_partition_def
      put_simps pfor_payload_def Let_def)

lemma decode_pfor_payload_bytes:
  assumes n: "length docs \<le> 2 ^ 24" and total: "length (concat docs) \<le> 2 ^ 26"
    and docs: "short_docs docs"
  shows "decode_pfor_payload (pfor_payload docs) = Inr docs"
proof -
  let ?n = "encode_varint32 (of_nat (length docs))"
  let ?t = "encode_varint32 (of_nat (length (concat docs)))"
  let ?f = "doc_freqs docs" and ?d = "concat (map (deltas 0 0) docs)"
  define s0 where "s0 = source (pfor_payload docs)"
  define s1 where "s1 = advance (length ?n) s0"
  define s2 where "s2 = advance (length ?t) s1"
  define s3 where "s3 = advance (length (pfor_runs_bytes ?f)) s2"
  define s4 where "s4 = advance (length (pfor_runs_bytes ?d)) s3"
  have r0: "rest s0 = ?n @ ?t @ pfor_runs_bytes ?f @ pfor_runs_bytes ?d"
    by (simp add: s0_def pfor_payload_def)
  have r1: "rest s1 = ?t @ pfor_runs_bytes ?f @ pfor_runs_bytes ?d" by (simp add: s1_def r0)
  have r2: "rest s2 = pfor_runs_bytes ?f @ pfor_runs_bytes ?d" by (simp add: s2_def r1)
  have r3: "rest s3 = pfor_runs_bytes ?d" by (simp add: s3_def r2)
  have wf: "wf_source s4"
    by (simp add: s4_def s3_def s2_def s1_def r0) (simp add: s0_def pfor_payload_def)
  have 1: "get_varint32 s0 = Inr (of_nat (length docs), s1)"
    unfolding s1_def by (rule varint32.get_enc) (simp_all add: r0)
  have 2: "get_varint32 s1 = Inr (of_nat (length (concat docs)), s2)"
    unfolding s2_def by (rule varint32.get_enc) (simp_all add: r1)
  have 3: "decode_pfor_runs (length docs) s2 = Inr (?f, s3)"
    unfolding s3_def by (rule pfor_runs_dec [where vs = ?f]) (simp_all add: r2)
  have ld: "length ?d = length (concat docs)" by (induction docs) simp_all
  have 4: "decode_pfor_runs (length (concat docs)) s3 = Inr (?d, s4)"
    unfolding s4_def by (rule pfor_runs_dec [where vs = ?d and r = "[]"]) (use ld in \<open>simp_all add: r3\<close>)
  have 5: "eof s4" using wf by (subst eof_rest) (simp_all add: s4_def r3)
  have un: "unat (of_nat (length docs) :: u32) = length docs"
    "unat (of_nat (length (concat docs)) :: u32) = length (concat docs)" using n total by simp_all
  have le: "\<not> prx_kMaxWindowDocs < of_nat (length docs)"
    "\<not> kMaxWindowPositions < of_nat (length (concat docs))"
    using n total un by (simp_all add: word_less_nat_alt prx_kMaxWindowDocs_def kMaxWindowPositions_def)
  have sum: "sum_u64 ?f = ucast (of_nat (length (concat docs)) :: u32)"
    using total sum_u64_freqs [OF docs] by (subst ucast_of_nat_u32) simp_all
  show ?thesis
    using split_docs_eq [OF docs, of "[]"]
    unfolding decode_pfor_payload_def Let_def s0_def [symmetric]
    by (simp only: 1 2 3 4 un le sum and_then_Inr prod.case if_False append_Nil list.size(3))
      (simp add: 5)
qed

subsection \<open>Frames\<close>

definition prx_frame :: "byte list \<Rightarrow> byte list" where
  "prx_frame covered = covered @ le_bytes 4 (crc32c covered)"

lemma write_plain_bytes [put_simps]:
  "write_raw plain sink = sink @ prx_frame (0 # encode_varint32 (of_nat (length plain)) @ plain)"
  "write_pfor plain sink = sink @ prx_frame (2 # encode_varint32 (of_nat (length plain)) @ plain)"
  by (simp_all add: write_raw_def write_pfor_def put_simps prx_frame_def prx_codecs Let_def)

lemma read_framed_plain:
  assumes len: "length plain \<le> 2 ^ 28" and c: "c = 0 \<or> c = 2"
    and r: "rest src = prx_frame (c # encode_varint32 (of_nat (length plain)) @ plain) @ r"
  shows "read_framed src = Inr ((c, of_nat (length plain), plain),
    advance (length (prx_frame (c # encode_varint32 (of_nat (length plain)) @ plain))) src)"
proof -
  let ?v = "encode_varint32 (of_nat (length plain))"
  let ?cov = "c # ?v @ plain"
  have wf: "wf_source src" by (rule wf_if_rest) (simp add: r prx_frame_def)
  have un: "unat (of_nat (length plain) :: u32) = length plain" using len by simp
  have le: "\<not> kMaxWindowUncompBytes < of_nat (length plain)"
    using len un by (simp add: word_less_nat_alt kMaxWindowUncompBytes_def)
  have sl: "slice_from (advance k src) (src_pos src) (Suc (length ?v + length plain)) = Inr ?cov" for k
    using slice_from_rest [of ?cov src k] wf by (simp add: r prx_frame_def)
  have cc: "c \<noteq> prx_codec_kZstd" "\<not> (c \<noteq> prx_codec_kRaw \<and> c \<noteq> prx_codec_kZstd \<and> c \<noteq> prx_codec_kPfor)"
    using c by (auto simp: prx_codecs)
  show ?thesis
    using wf un le r cc unfolding prx_frame_def
    by (simp add: read_framed_def Let_def codec_simps sl)
qed

lemma read_framed_zstd:
  assumes len: "length plain \<le> 2 ^ 28" and zs: "length zs < 2 ^ 32"
    and r: "rest src = prx_frame (1 # encode_varint32 (of_nat (length plain)) @
      encode_varint32 (of_nat (length zs)) @ zs) @ r"
  shows "read_framed src = Inr ((1, of_nat (length plain), zs),
    advance (length (prx_frame (1 # encode_varint32 (of_nat (length plain)) @
      encode_varint32 (of_nat (length zs)) @ zs))) src)"
proof -
  let ?v = "encode_varint32 (of_nat (length plain))" and ?w = "encode_varint32 (of_nat (length zs))"
  let ?cov = "1 # ?v @ ?w @ zs"
  have wf: "wf_source src" by (rule wf_if_rest) (simp add: r prx_frame_def)
  have un: "unat (of_nat (length plain) :: u32) = length plain"
    "unat (of_nat (length zs) :: u32) = length zs" using len zs by simp_all
  have le: "\<not> kMaxWindowUncompBytes < of_nat (length plain)"
    using len un by (simp add: word_less_nat_alt kMaxWindowUncompBytes_def)
  have sl: "slice_from (advance k src) (src_pos src) (Suc (length ?v + (length ?w + length zs))) = Inr ?cov"
    "slice_from (advance k src) (src_pos src) (Suc (length ?v + length ?w + length zs)) = Inr ?cov" for k
    using slice_from_rest [of ?cov src k] wf by (simp_all add: r prx_frame_def add.assoc)
  show ?thesis
    using wf un le r unfolding prx_frame_def
    by (simp add: read_framed_def Let_def codec_simps sl prx_codecs add.assoc)
qed

lemma read_framed_ok: "wf_source src \<Longrightarrow> cursor_ok src (read_framed src)"
  unfolding read_framed_def Let_def
  by (auto intro!: cursor_intros slice_bind) (auto simp: wf_source_def)

subsection \<open>Round trip\<close>

definition window_fits :: "u32 list list \<Rightarrow> byte list \<Rightarrow> bool" where
  "window_fits docs bs =
     (length docs \<le> 2 ^ 24 \<and> length (concat docs) \<le> 2 ^ 26 \<and> length bs \<le> 2 ^ 28)"

lemma window_fits_short: "length (concat docs) \<le> 2 ^ 26 \<Longrightarrow> short_docs docs"
proof
  fix doc assume "length (concat docs) \<le> 2 ^ 26" and d: "doc \<in> set docs"
  moreover from d have "length doc \<le> length (concat docs)" by (induction docs) auto
  ultimately show "length doc < 2 ^ 32" by simp
qed

lemma build_prx_window_cases:
  assumes "build_prx_window z docs level [] = Inr bs" and "short_docs docs"
  obtains (pfor) "level < 0" "\<forall>doc \<in> set docs. sorted doc" "bs = write_pfor (pfor_payload docs) []"
  | (raw) "0 \<le> level" "\<forall>doc \<in> set docs. sorted doc" "bs = write_raw (docs_payload docs) []"
  | (zstd) "0 \<le> level" "\<forall>doc \<in> set docs. sorted doc" "write_zstd z (docs_payload docs) level [] = Inr bs"
proof (cases "level < 0")
  case True
  then show ?thesis
    using assms(1) encode_pfor_payload_eq [OF assms(2), of "[]"]
    by (intro pfor) (simp_all add: build_prx_window_def split: if_splits)
next
  case False
  then have b: "and_then (prx_encode_payload docs []) (\<lambda>plain.
        if \<not> should_compress level (length plain) then Inr (write_raw plain [])
        else write_zstd z plain level []) = Inr bs"
    using assms(1) by (simp add: build_prx_window_def)
  then have srt: "\<forall>doc \<in> set docs. sorted doc" by (simp add: prx_encode_payload_eq split: if_splits)
  show ?thesis
  proof (cases "should_compress level (length (docs_payload docs))")
    case True
    with b srt False show ?thesis by (intro zstd) (simp_all add: prx_encode_payload_eq)
  next
    case raw_level: False
    with b srt False show ?thesis by (intro raw) (simp_all add: prx_encode_payload_eq)
  qed
qed

lemma read_prx_window_build:
  assumes z: "zstd_spec z" and b: "build_prx_window z docs level [] = Inr bs"
    and fits: "window_fits docs bs" and plain: "length (docs_payload docs) \<le> 2 ^ 28"
  shows "read_prx_window z (source (bs @ r)) = Inr (docs, advance (length bs) (source (bs @ r)))"
proof -
  have f: "length docs \<le> 2 ^ 24" "length (concat docs) \<le> 2 ^ 26" "length bs \<le> 2 ^ 28"
    using fits by (auto simp: window_fits_def)
  note short = window_fits_short [OF f(2)]
  from b short show ?thesis
  proof (cases rule: build_prx_window_cases)
    case pfor
    let ?p = "pfor_payload docs"
    have bs: "bs = prx_frame (2 # encode_varint32 (of_nat (length ?p)) @ ?p)"
      using pfor by (simp add: put_simps)
    then have "length ?p \<le> 2 ^ 28" using f(3) by (simp add: prx_frame_def)
    from read_framed_plain [OF this, of 2 "source (bs @ r)" r] bs show ?thesis
      by (simp add: read_prx_window_def prx_codecs decode_pfor_payload_bytes [OF f(1,2) short])
  next
    case raw
    let ?p = "docs_payload docs"
    have bs: "bs = prx_frame (0 # encode_varint32 (of_nat (length ?p)) @ ?p)"
      using raw by (simp add: put_simps)
    from read_framed_plain [OF plain, of 0 "source (bs @ r)" r] bs show ?thesis
      by (simp add: read_prx_window_def prx_codecs prx_decode_payload_bytes [OF f(1) short])
  next
    case zstd
    let ?p = "docs_payload docs"
    from zstd obtain zs where c: "zstd_compress z ?p (if level > 0 then level else kDefaultZstdLevel) = Inr zs"
      and bs: "bs = prx_frame (1 # encode_varint32 (of_nat (length ?p)) @
        encode_varint32 (of_nat (length zs)) @ zs)"
      by (auto simp: write_zstd_def put_simps prx_frame_def prx_codecs Let_def)
    from zstd_roundtrip [OF z c] have d: "zstd_decompress z zs (length ?p) = Inr ?p" .
    have "length zs < 2 ^ 32" using bs f(3) by (simp add: prx_frame_def)
    from read_framed_zstd [OF plain this, of "source (bs @ r)" r] bs
    have "read_framed (source (bs @ r)) = Inr ((1, of_nat (length ?p), zs), advance (length bs) (source (bs @ r)))"
      by simp
    moreover have "unat (of_nat (length ?p) :: u32) = length ?p" using plain by simp
    ultimately show ?thesis
      by (simp add: read_prx_window_def prx_codecs d prx_decode_payload_bytes [OF f(1) short])
  qed
qed

subsection \<open>Flat reading\<close>

fun csr_from :: "nat \<Rightarrow> u32 list list \<Rightarrow> u32 list" where
  "csr_from n [] = []"
| "csr_from n (doc # docs) = of_nat (n + length doc) # csr_from (n + length doc) docs"

definition csr_of :: "u32 list list \<Rightarrow> u32 list \<times> u32 list" where
  "csr_of docs = (concat docs, 0 # csr_from 0 docs)"

lemma split_docs_csr_eq:
  "split_docs_csr ds off counts pf po =
     and_then (split_docs ds off counts) (\<lambda>docs. Inr (pf @ concat docs, po @ csr_from (length pf) docs))"
proof (induction counts arbitrary: off pf po)
  case (Cons n counts)
  show ?case
    by (cases "subslice ds off (unat n)"; cases "split_docs ds (off + unat n) counts")
      (simp_all add: Cons.IH Let_def)
qed simp

lemma split_docs_length: "split_docs ds off counts = Inr docs \<Longrightarrow> off \<le> length ds \<Longrightarrow>
   off + length (concat docs) \<le> length ds"
proof (induction counts arbitrary: off docs)
  case (Cons n counts)
  then obtain seg docs' where 1: "subslice ds off (unat n) = Inr seg"
    and 2: "split_docs ds (off + unat n) counts = Inr docs'" and d: "docs = undelta 0 0 seg # docs'"
    by auto
  have "length seg = unat n" "off + unat n \<le> length ds" using 1 by (auto simp: subslice_Inr)
  with Cons.IH [OF 2] d show ?case by simp
qed simp

lemma get_positions_length: "get_positions n i prev src = Inr (ps, src') \<Longrightarrow> length ps = n"
  by (induction n arbitrary: i prev src ps) (auto simp: Let_def)

lemma unat_add_u32: "unat t \<le> 2 ^ 26 \<Longrightarrow> unat (t + ucast (n :: u32) :: u64) = unat t + unat n"
  using unat_u32_less [of n] by (subst unat_add_lem [THEN iffD1]) simp_all

lemma get_docs_csr_iff:
  assumes "unat t \<le> 2 ^ 26"
  shows "get_docs_csr n t pf po src = Inr (csr, src') \<longleftrightarrow>
     (\<exists>docs. get_docs n src = Inr (docs, src') \<and> unat t + length (concat docs) \<le> 2 ^ 26 \<and>
        csr = (pf @ concat docs, po @ csr_from (length pf) docs))"
  using assms
proof (induction n arbitrary: t pf po src)
  case (Suc n)
  show ?case
  proof (cases "get_varint32 src")
    case (Inr p)
    then obtain c s1 where g: "get_varint32 src = Inr (c, s1)" by (cases p) auto
    have un: "unat (t + ucast c) = unat t + unat c" by (rule unat_add_u32 [OF Suc.prems])
    have cap: "unat (ucast kMaxWindowPositions :: u64) = 2 ^ 26" by (simp add: kMaxWindowPositions_def)
    show ?thesis
    proof (cases "get_positions (unat c) 0 0 s1")
      case (Inl e)
      then show ?thesis by (simp add: g Let_def)
    next
      case (Inr q)
      then obtain doc s2 where q: "get_positions (unat c) 0 0 s1 = Inr (doc, s2)" by (cases q) auto
      then have len: "length doc = unat c" by (rule get_positions_length)
      show ?thesis
      proof (cases "unat t + unat c \<le> 2 ^ 26")
        case True
        then have le: "unat (t + ucast c) \<le> 2 ^ 26" by (simp add: un)
        then have nb: "\<not> ucast kMaxWindowPositions < t + ucast c"
          using cap by (simp add: word_less_nat_alt)
        have e1: "get_docs_csr (Suc n) t pf po src =
            get_docs_csr n (t + ucast c) (pf @ doc) (po @ [of_nat (length (pf @ doc))]) s2"
          using nb by (simp add: g q Let_def)
        have e2: "get_docs (Suc n) src = Inr (docs, src') \<longleftrightarrow>
            (\<exists>ds. get_docs n s2 = Inr (ds, src') \<and> docs = doc # ds)" for docs
          by (auto simp: g q)
        have e3: "(unat t + unat c + length (concat ds) \<le> 2 ^ 26 \<and>
            csr = ((pf @ doc) @ concat ds, (po @ [of_nat (length (pf @ doc))]) @ csr_from (length (pf @ doc)) ds)) =
          (unat t + length (concat (doc # ds)) \<le> 2 ^ 26 \<and>
            csr = (pf @ concat (doc # ds), po @ csr_from (length pf) (doc # ds)))" for ds
          using len by (simp add: add.assoc)
        show ?thesis unfolding e1 e2 Suc.IH [OF le] un e3 by blast
      next
        case False
        then have "ucast kMaxWindowPositions < t + ucast c" using un cap by (simp add: word_less_nat_alt)
        then have "get_docs_csr (Suc n) t pf po src = Corruption" by (simp add: g Let_def)
        moreover have "unat t + length (concat docs) > 2 ^ 26" if "get_docs (Suc n) src = Inr (docs, src')" for docs
          using that False len by (auto simp: g q)
        ultimately show ?thesis by (metis Inl_Inr_False not_le)
      qed
    qed
  qed simp
qed auto

lemma pfor_csr_iff:
  "decode_pfor_payload_csr plain = Inr csr \<longleftrightarrow>
     (\<exists>docs. decode_pfor_payload plain = Inr docs \<and> length (concat docs) \<le> 2 ^ 26 \<and> csr = csr_of docs)"
proof -
  have "length (concat docs) \<le> 2 ^ 26" if "decode_pfor_payload plain = Inr docs" for docs
  proof -
    from that obtain total s ds s' cs where le: "\<not> kMaxWindowPositions < total"
      and d: "decode_pfor_runs (unat total) s = Inr (ds, s')" and sp: "split_docs ds 0 cs = Inr docs"
      by (auto simp: decode_pfor_payload_def Let_def split: if_splits)
    have "length ds = unat total" by (rule decode_pfor_runs_length [OF d])
    moreover have "unat total \<le> 2 ^ 26" using le by (simp add: word_less_nat_alt kMaxWindowPositions_def)
    ultimately show ?thesis using split_docs_length [OF sp] by simp
  qed
  moreover have "decode_pfor_payload_csr plain = and_then (decode_pfor_payload plain) (\<lambda>docs. Inr (csr_of docs))"
    by (simp add: decode_pfor_payload_csr_def decode_pfor_payload_def Let_def split_docs_csr_eq
        and_then_def csr_of_def split: sum.splits prod.splits)
  ultimately show ?thesis by auto
qed

lemma payload_csr_iff:
  "prx_decode_payload_csr plain = Inr csr \<longleftrightarrow>
     (\<exists>docs. prx_decode_payload plain = Inr docs \<and> length (concat docs) \<le> 2 ^ 26 \<and> csr = csr_of docs)"
proof (cases "get_varint32 (source plain)")
  case (Inl e)
  then show ?thesis by (simp add: prx_decode_payload_csr_def prx_decode_payload_def)
next
  case (Inr p)
  then obtain n s where g: "get_varint32 (source plain) = Inr (n, s)" by (cases p) auto
  have z: "unat (0 :: u64) \<le> 2 ^ 26" by simp
  show ?thesis
    by (auto simp: prx_decode_payload_csr_def prx_decode_payload_def g get_docs_csr_iff [OF z] csr_of_def
        split: if_splits)
qed

subsection \<open>Safety\<close>

lemma sum_u64_bound:
  assumes "length cs \<le> 2 ^ 24"
  shows "unat (sum_u64 cs) = sum_list (map unat cs)"
proof -
  have "unat a + sum_list (map unat cs) < 2 ^ 64 \<Longrightarrow>
      unat (foldl (\<lambda>sum fc. sum + ucast fc) a cs) = unat a + sum_list (map unat cs)" for a :: u64
  proof (induction cs arbitrary: a)
    case (Cons c cs)
    then have "unat (a + ucast c) = unat a + unat c" by (subst unat_add_lem [THEN iffD1]) simp_all
    with Cons show ?case by simp
  qed simp
  moreover have "sum_list (map unat cs) \<le> length cs * 2 ^ 32"
  proof (induction cs)
    case (Cons c cs)
    with unat_u32_less [of c] show ?case by simp
  qed simp
  ultimately show ?thesis using assms unfolding sum_u64_def by fastforce
qed

lemma split_docs_safe:
  "off + sum_list (map unat cs) \<le> length ds \<Longrightarrow> split_docs ds off cs \<noteq> Inl OutOfBounds"
  by (induction cs arbitrary: off) (auto simp: and_then_eq_Inl subslice_def)

lemma decode_pfor_payload_safe: "decode_pfor_payload plain \<noteq> Inl OutOfBounds"
proof
  assume a: "decode_pfor_payload plain = Inl OutOfBounds"
  have wf1: "get_varint32 (source plain) = Inr (n, s1) \<Longrightarrow> wf_source s1" for n s1
    by (rule varint32.wf_after [OF wf_source_source])
  from a obtain n s1 t s2 cs s3 ds s4 where
    1: "get_varint32 (source plain) = Inr (n, s1)" and 2: "get_varint32 s1 = Inr (t, s2)"
    and n: "\<not> prx_kMaxWindowDocs < n" and 3: "decode_pfor_runs (unat n) s2 = Inr (cs, s3)"
    and sum: "sum_u64 cs = ucast t" and 4: "decode_pfor_runs (unat t) s3 = Inr (ds, s4)"
    and bad: "split_docs ds 0 cs = Inl OutOfBounds"
    using wf1
    by (auto simp: decode_pfor_payload_def Let_def and_then_eq_Inl split: if_splits
        dest: get_varint32_error pfor_runs.safe [THEN notE, rotated]
          pfor_runs.wf_after [rotated] varint32.wf_after [rotated])
  have "length cs \<le> 2 ^ 24"
    using decode_pfor_runs_length [OF 3] n by (simp add: word_less_nat_alt prx_kMaxWindowDocs_def)
  from sum_u64_bound [OF this] sum have "sum_list (map unat cs) = unat t" by simp
  with split_docs_safe [of 0 cs ds] decode_pfor_runs_length [OF 4] bad show False by simp
qed

lemma get_positions_ok: "wf_source src \<Longrightarrow> cursor_ok src (get_positions n i prev src)"
  by (induction n arbitrary: i prev src) (auto simp: Let_def intro!: cursor_bind varint32.ok)

lemma get_docs_ok: "wf_source src \<Longrightarrow> cursor_ok src (get_docs n src)"
  by (induction n arbitrary: src) (auto intro!: cursor_bind varint32.ok get_positions_ok)

lemma prx_decode_payload_safe: "prx_decode_payload plain \<noteq> Inl OutOfBounds"
proof
  assume "prx_decode_payload plain = Inl OutOfBounds"
  then obtain n s where g: "get_varint32 (source plain) = Inr (n, s)" and "get_docs (unat n) s = Inl OutOfBounds"
    by (auto simp: prx_decode_payload_def and_then_eq_Inl split: if_splits dest: get_varint32_error)
  with get_docs_ok [OF varint32.wf_after [OF wf_source_source g], of "unat n"] show False by simp
qed

interpretation prx_window: cursor_op "read_prx_window z" for z
proof unfold_locales
  fix src assume wf: "wf_source src"
  show "cursor_ok src (read_prx_window z src)"
    unfolding read_prx_window_def
    by (rule cursor_bind [OF wf read_framed_ok [OF wf]])
      (auto intro!: plain_bind simp: decode_pfor_payload_safe prx_decode_payload_safe
        zstd_decompress_safe and_then_eq_Inl split: if_splits)
qed

subsection \<open>Correctness\<close>

text \<open>C14: the positions of a window read back document by document, for each of the three codecs
  and whatever bytes follow; a window is only ever built from ascending positions.\<close>

theorem prx_window_roundtrip:
  assumes "zstd_spec z" and "build_prx_window z docs level [] = Inr bs"
    and "window_fits docs bs" and "length (docs_payload docs) \<le> 2 ^ 28"
  shows "read_prx_window z (source (bs @ r)) = Inr (docs, advance (length bs) (source (bs @ r))) \<and>
    (\<forall>doc \<in> set docs. sorted doc)"
proof -
  have "short_docs docs" using assms(3) by (intro window_fits_short) (simp add: window_fits_def)
  with assms(2) have "\<forall>doc \<in> set docs. sorted doc" by (cases rule: build_prx_window_cases) auto
  with read_prx_window_build [OF assms] show ?thesis by blast
qed

theorem prx_window_roundtrip_witness:
  "\<exists>bs. build_prx_window stored_zstd [[3, 9], [], [7]] 0 [] = Inr bs \<and>
     read_prx_window stored_zstd (source (bs @ [1])) = Inr ([[3, 9], [], [7]], advance (length bs) (source (bs @ [1])))"
proof -
  let ?d = "[[3, 9], [], [7]] :: u32 list list"
  let ?p = "docs_payload ?d"
  have b: "build_prx_window stored_zstd ?d 0 [] = Inr (write_raw ?p [])"
    by (simp add: build_prx_window_def prx_encode_payload_eq should_compress_def)
  have lp: "length ?p \<le> 40"
    using varint32_len_le_5 [of 3] varint32_len_le_5 [of 2] varint32_len_le_5 [of 0]
      varint32_len_le_5 [of 1] varint32_len_le_5 [of 6] varint32_len_le_5 [of 7]
    by (simp add: docs_payload_def doc_bytes_def)
  then have "length (write_raw ?p []) \<le> 50"
    using varint32_len_le_5 [of "of_nat (length ?p)"] by (simp add: put_simps prx_frame_def)
  then have "window_fits ?d (write_raw ?p [])" by (simp add: window_fits_def)
  with prx_window_roundtrip [OF stored_zstd_spec b, of "[1]"] lp b show ?thesis by auto
qed

text \<open>C16: the flat builder, which reads all positions from one vector cut by the frequencies, writes
  the same window as the per-document builder, or fails with the same status.\<close>

theorem prx_flat_builder_equiv:
  assumes "\<forall>doc \<in> set docs. length doc < 2 ^ 32"
  shows "build_prx_window_flat z (concat docs) (map (\<lambda>doc. of_nat (length doc)) docs) level sink =
    build_prx_window z docs level sink"
proof -
  have "prx_encode_payload_flat (concat docs) (doc_freqs docs) [] = prx_encode_payload docs []"
    using put_docs_flat_eq [OF assms, of "[]"] sum_u64_freqs [OF assms]
    by (simp add: prx_encode_payload_flat_def prx_encode_payload_def check_flat_partition_def)
  then show ?thesis
    by (simp add: build_prx_window_flat_def build_prx_window_def encode_pfor_payload_def)
qed

theorem prx_flat_builder_equiv_witness:
  "build_prx_window_flat stored_zstd (concat [[3, 9], [7]]) (map (\<lambda>doc. of_nat (length doc)) [[3 :: u32, 9], [7]]) (- 1) [] =
   build_prx_window stored_zstd [[3, 9], [7]] (- 1) []"
  by (rule prx_flat_builder_equiv) simp

lemma read_prx_window_csr_iff:
  "read_prx_window_csr z src = Inr (csr, src') \<longleftrightarrow>
     (\<exists>docs. read_prx_window z src = Inr (docs, src') \<and>
        length (concat docs) \<le> unat kMaxWindowPositions \<and> csr = csr_of docs)"
proof (cases "read_framed src")
  case (Inl e)
  then show ?thesis by (simp add: read_prx_window_csr_def read_prx_window_def)
next
  case (Inr p)
  then obtain c u payload s where f: "read_framed src = Inr ((c, u, payload), s)" by (cases p) auto
  have cap: "unat kMaxWindowPositions = 2 ^ 26" by (simp add: kMaxWindowPositions_def)
  show ?thesis unfolding cap
    by (auto simp: read_prx_window_csr_def read_prx_window_def f pfor_csr_iff payload_csr_iff csr_of_def)
qed

text \<open>C15: the flat reader succeeds exactly when the per-document reader does and the window has at
  most \<open>kMaxWindowPositions\<close> positions; it then returns the concatenation of the documents and the
  offsets at which each ends, and stops at the same byte.\<close>

theorem prx_csr_equiv:
  "read_prx_window_csr z src = Inr (csr, src') \<longleftrightarrow>
     (\<exists>docs. read_prx_window z src = Inr (docs, src') \<and>
        length (concat docs) \<le> unat kMaxWindowPositions \<and> csr = csr_of docs)"
  by (rule read_prx_window_csr_iff)

end
