(* ===== verification/Stored_Posting.thy ===== *)
theory Stored_Posting
  imports Docid_Postings Frq_Prelude_Correct Prx_Pod_Correct
begin

text \<open>
  What the readers of postings rely on: the bytes of a posting, inline in its dict entry, slim or split
  into windows, are those of its documents, frequencies and positions. On such a posting every read path
  returns these documents, and the batched reader agrees with reading one by one.
\<close>

subsection \<open>Fetches\<close>

lemma host_sort_order: "host_ok h \<Longrightarrow> sort_order reqs (host_sort h (map rq_offset reqs))"
proof -
  assume "host_ok h"
  then have s: "sorting_permutation (map rq_offset reqs) (host_sort h (map rq_offset reqs))"
    by (simp add: host_ok_def)
  then have "map (\<lambda>i. map rq_offset reqs ! i) (host_sort h (map rq_offset reqs)) =
      map (\<lambda>i. rq_offset (reqs ! i)) (host_sort h (map rq_offset reqs))"
    by (intro map_cong) (auto simp: sorting_permutation_def)
  with s show ?thesis by (simp add: sorting_permutation_def sort_order_def)
qed

text \<open>An index over a file, and the batched reads that lie in it.\<close>

definition index_over :: "byte list \<Rightarrow> logical_index_reader \<Rightarrow> bool" where
  "index_over contents idx = (lr_read_at idx = read_file contents \<and> length contents < 2 ^ 64)"

definition reqs_in :: "byte list \<Rightarrow> batch_range_fetcher \<Rightarrow> bool" where
  "reqs_in contents f = (\<forall>r \<in> set (brf_reqs f). in_file (length contents) (rq_offset r) (rq_len r))"

text \<open>The bytes behind a handle.\<close>

definition bytes_of :: "byte list \<Rightarrow> batch_range_fetcher \<Rightarrow> nat \<Rightarrow> byte list" where
  "bytes_of contents f i = file_slice contents (rq_offset (brf_reqs f ! i)) (rq_len (brf_reqs f ! i))"

lemma index_fetch_ok:
  assumes "host_ok h" and "index_over contents idx" and "reqs_in contents f"
  obtains f' where "index_fetch h idx f = Inr f'"
    and "\<And>i. i < length (brf_reqs f) \<Longrightarrow> brf_get f' i = Inr (bytes_of contents f i)"
proof -
  note o = host_sort_order [OF assms(1), of "brf_reqs f"]
  obtain f' where f: "brf_fetch (read_file contents) (host_sort h (map rq_offset (brf_reqs f))) f = Inr f'"
    using brf_fetch_complete [OF file_image.reliable_reader_axioms _ o] assms(2,3)
    by (auto simp: reqs_in_def index_over_def)
  show ?thesis
  proof (rule that)
    show "index_fetch h idx f = Inr f'" using f assms(2) by (simp add: index_fetch_def index_over_def)
  qed (use brf_get_fetch [OF file_image.sound_reader_axioms o f] in \<open>simp add: bytes_of_def\<close>)
qed

lemma fetch_or_skip:
  assumes "host_ok h" and "index_over contents idx" and "reqs_in contents f"
  obtains f' where "(if brf_reqs f \<noteq> [] then index_fetch h idx f else Inr f) = Inr f'"
    and "\<And>i. i < length (brf_reqs f) \<Longrightarrow> brf_get f' i = Inr (bytes_of contents f i)"
proof (cases "brf_reqs f = []")
  case True
  show ?thesis by (rule that [of f]) (use True in simp_all)
next
  case False
  obtain f' where "index_fetch h idx f = Inr f'"
    "\<And>i. i < length (brf_reqs f) \<Longrightarrow> brf_get f' i = Inr (bytes_of contents f i)"
    using index_fetch_ok [OF assms] by blast
  with False show ?thesis by (intro that [of f']) simp_all
qed

lemma brf_add_handle [simp]: "fst (brf_add off len f) = length (brf_reqs f)"
  by (simp add: brf_add_def Let_def)

lemma brf_add_reqs:
  "brf_reqs (snd (brf_add off len f)) =
     brf_reqs f @ [\<lparr>rq_offset = off, rq_len = len, rq_len_size = 0, rq_phys_idx = 0, rq_sub_offset = 0\<rparr>]"
  by (simp add: brf_add_def Let_def)

lemma reqs_in_new [simp]: "reqs_in contents (batch_range_fetcher_new gap)"
  by (simp add: reqs_in_def batch_range_fetcher_new_def)

text \<open>\<open>f'\<close> extends \<open>f\<close>: the handles of \<open>f\<close> keep their meaning.\<close>

definition extends :: "batch_range_fetcher \<Rightarrow> batch_range_fetcher \<Rightarrow> bool" where
  "extends f f' = prefix (brf_reqs f) (brf_reqs f')"

lemma extends_refl [simp, intro]: "extends f f"
  by (simp add: extends_def)

lemma extends_trans: "extends f g \<Longrightarrow> extends g k \<Longrightarrow> extends f k"
  by (auto simp: extends_def)

lemma extends_add [simp]: "extends f (snd (brf_add off len f))"
  by (simp add: extends_def brf_add_reqs)

text \<open>Handle \<open>i\<close> of \<open>f\<close> asks for \<open>len\<close> bytes at \<open>off\<close>.\<close>

definition asks :: "batch_range_fetcher \<Rightarrow> nat \<Rightarrow> u64 \<Rightarrow> u64 \<Rightarrow> bool" where
  "asks f i off len = (i < length (brf_reqs f) \<and> rq_offset (brf_reqs f ! i) = off \<and> rq_len (brf_reqs f ! i) = len)"

lemma asks_extends: "asks f i off len \<Longrightarrow> extends f g \<Longrightarrow> asks g i off len"
  by (auto simp: asks_def extends_def prefix_def nth_append)

lemma asks_add [simp]: "asks (snd (brf_add off len f)) (length (brf_reqs f)) off len"
  by (simp add: asks_def brf_add_reqs)

lemma reqs_in_add: "reqs_in contents (snd (brf_add off len f)) \<longleftrightarrow> reqs_in contents f \<and> in_file (length contents) off len"
  by (auto simp: reqs_in_def brf_add_reqs)

lemma asks_bytes: "asks f i off len \<Longrightarrow> bytes_of contents f i = file_slice contents off len"
  by (simp add: asks_def bytes_of_def)

lemma brf_add_cases:
  obtains g where "brf_add off len f = (length (brf_reqs f), g)" and "g = snd (brf_add off len f)"
  by (cases "brf_add off len f") (metis brf_add_handle fst_conv snd_conv)

subsection \<open>Stored postings\<close>

record chunk =
  ck_docs :: "u32 list"
  ck_freqs :: "u32 list"
  ck_poss :: "u32 list list"

text \<open>\<open>n\<close> bytes of a file from \<open>off\<close> on.\<close>

definition seg :: "byte list \<Rightarrow> nat \<Rightarrow> nat \<Rightarrow> byte list" where
  "seg contents off n = take n (drop off contents)"

lemma file_slice_seg: "file_slice contents off len = seg contents (unat off) (unat len)"
  by (simp add: file_slice_def seg_def)

definition prx_stored :: "zstd_lib \<Rightarrow> byte list \<Rightarrow> chunk \<Rightarrow> bool" where
  "prx_stored z bs c =
     (length (ck_poss c) = length (ck_docs c) \<and> length (concat (ck_poss c)) \<le> unat kMaxWindowPositions \<and>
      (\<forall>ps \<in> set (ck_poss c). sorted ps) \<and>
      (\<exists>src. read_prx_window z (source bs) = Inr (ck_poss c, src)))"

text \<open>A window whose blocks start at \<open>dd0\<close>, \<open>fr0\<close> and \<open>px0\<close>, with \<open>pn\<close> bytes of positions in all.\<close>

definition window_stored ::
  "zstd_lib \<Rightarrow> byte list \<Rightarrow> nat \<Rightarrow> nat \<Rightarrow> nat \<Rightarrow> nat \<Rightarrow> bool \<Rightarrow> bool \<Rightarrow> window_meta \<Rightarrow> chunk \<Rightarrow> bool" where
  "window_stored z contents dd0 fr0 px0 pn hf hp w c =
     (ck_docs c \<noteq> [] \<and> last (ck_docs c) = wm_last_docid w \<and> length (ck_docs c) = unat (wm_doc_count w) \<and>
      decode_dd_region z (seg contents (dd0 + unat (wm_dd_off w)) (unat (wm_dd_disk_len w)))
        (window_dd_meta w) (wm_win_base w) = Inr (ck_docs c) \<and>
      (hf \<longrightarrow> decode_freq_region z (seg contents (fr0 + unat (wm_freq_off w)) (unat (wm_freq_disk_len w)))
        (window_freq_meta w) (length (ck_docs c)) = Inr (ck_freqs c)) \<and>
      (hp \<longrightarrow> unat (wm_prx_off w) + unat (wm_prx_len w) \<le> pn \<and>
        prx_stored z (seg contents (px0 + unat (wm_prx_off w)) (unat (wm_prx_len w))) c))"

text \<open>The three kinds of postings. A range of the posting region lies in the file.\<close>

definition inline_stored :: "zstd_lib \<Rightarrow> bool \<Rightarrow> dict_entry \<Rightarrow> chunk \<Rightarrow> bool" where
  "inline_stored z hp e c =
     (length (de_frq_bytes e) < 2 ^ 64 \<and> unat (frm_disk_len (de_dd_meta e)) \<le> length (de_frq_bytes e) \<and>
      decode_dd_region z (take (unat (frm_disk_len (de_dd_meta e))) (de_frq_bytes e)) (de_dd_meta e) 0 = Inr (ck_docs c) \<and>
      (hp \<longrightarrow> prx_stored z (de_prx_bytes e) c))"

definition region_in :: "byte list \<Rightarrow> region_ref \<Rightarrow> nat \<Rightarrow> nat \<Rightarrow> bool" where
  "region_in contents region off len =
     (off + len \<le> unat (rr_length region) \<and> unat (rr_offset region) + unat (rr_length region) \<le> length contents)"

definition slim_stored :: "zstd_lib \<Rightarrow> byte list \<Rightarrow> region_ref \<Rightarrow> bool \<Rightarrow> dict_entry \<Rightarrow> u64 \<Rightarrow> u64 \<Rightarrow> chunk \<Rightarrow> bool" where
  "slim_stored z contents region hp e fb pb c =
     (de_prelude_len e = 0 \<and> 0 < de_frq_docs_len e \<and> de_frq_docs_len e \<le> de_frq_len e \<and>
      region_in contents region (unat fb + unat (de_frq_off_delta e)) (unat (de_frq_len e)) \<and>
      decode_dd_region z (seg contents (unat (rr_offset region) + unat fb + unat (de_frq_off_delta e))
          (unat (de_frq_docs_len e))) (de_dd_meta e) 0 = Inr (ck_docs c) \<and>
      (hp \<longrightarrow> region_in contents region (unat pb + unat (de_prx_off_delta e)) (unat (de_prx_len e)) \<and>
        prx_stored z (seg contents (unat (rr_offset region) + unat pb + unat (de_prx_off_delta e)) (unat (de_prx_len e))) c))"

definition windowed_stored ::
  "zstd_lib \<Rightarrow> byte list \<Rightarrow> region_ref \<Rightarrow> bool \<Rightarrow> bool \<Rightarrow> dict_entry \<Rightarrow> u64 \<Rightarrow> u64 \<Rightarrow> frq_prelude_columns \<Rightarrow> chunk list \<Rightarrow> bool" where
  "windowed_stored z contents region hf hp e fb pb cols cs =
     (let s = unat (rr_offset region) + unat fb + unat (de_frq_off_delta e);
          n = length (prelude_bytes cols); ws = fpc_windows cols;
          dd = dd_bytes ws; fr = freq_bytes hf ws in
      fpc_has_freq cols = hf \<and> fpc_has_prx cols = hp \<and> prelude_ok cols \<and> tiled hf 0 0 ws \<and>
      0 < n \<and> unat (de_prelude_len e) = n \<and> n + dd + fr \<le> unat (de_frq_len e) \<and>
      region_in contents region (unat fb + unat (de_frq_off_delta e)) (unat (de_frq_len e)) \<and>
      (hp \<longrightarrow> region_in contents region (unat pb + unat (de_prx_off_delta e)) (unat (de_prx_len e))) \<and>
      seg contents s n = prelude_bytes cols \<and>
      list_all2 (window_stored z contents (s + n) (s + n + dd)
        (unat (rr_offset region) + unat pb + unat (de_prx_off_delta e)) (unat (de_prx_len e)) hf hp)
        (stored_windows hf hp 0 ws) cs)"

definition posting_stored ::
  "zstd_lib \<Rightarrow> byte list \<Rightarrow> region_ref \<Rightarrow> bool \<Rightarrow> bool \<Rightarrow> dict_entry \<Rightarrow> u64 \<Rightarrow> u64 \<Rightarrow> chunk list \<Rightarrow> bool" where
  "posting_stored z contents region hf hp e fb pb cs =
     (sorted_wrt (<) (concat (map ck_docs cs)) \<and>
      (if de_kind e = kInline then \<exists>c. cs = [c] \<and> inline_stored z hp e c
       else if de_enc e = kWindowed then \<exists>cols. windowed_stored z contents region hf hp e fb pb cols cs
       else \<exists>c. cs = [c] \<and> slim_stored z contents region hp e fb pb c))"

definition posting_docs :: "chunk list \<Rightarrow> u32 list" where
  "posting_docs cs = concat (map ck_docs cs)"

subsection \<open>Ranges of a posting\<close>

lemma region_start:
  assumes "region_in contents region (unat fb + unat d) len" and "length contents < 2 ^ 64"
  shows "unat (rr_offset region + fb + d) = unat (rr_offset region) + unat fb + unat d"
    and "unat (fb + d) = unat fb + unat d"
    and "unat (rr_offset region) + unat fb + unat d + len \<le> length contents"
  using assms by (simp_all add: region_in_def unat_word_ariths(1))

lemma resolve_window_ok:
  assumes "region_in contents region (unat fb + unat d) (unat len)" and "length contents < 2 ^ 64"
  shows "resolve_window region fb d len 0 = Inr (rr_offset region + fb + d, len)"
proof -
  note u = region_start [OF assms]
  have "fb + d \<le> rr_length region" using assms(1) by (simp add: word_le_nat_alt u region_in_def)
  moreover from this have "len \<le> rr_length region - (fb + d)"
    using assms(1) by (auto simp: word_le_nat_alt u region_in_def unat_sub)
  moreover have "\<not> fb + d < fb" by (simp add: word_less_nat_alt u)
  ultimately show ?thesis by (simp add: resolve_window_def Let_def not_less add.assoc)
qed

lemma stored_windows_nth:
  "k < length ws \<Longrightarrow> \<exists>base. stored_windows hf hp b ws ! k = stored_window hf hp base (ws ! k)"
proof (induction ws arbitrary: b k)
  case (Cons m ws)
  then show ?case by (cases k) auto
qed simp

lemma tiled_nth:
  "tiled hf dd fr ws \<Longrightarrow> k < length ws \<Longrightarrow>
   unat (wm_dd_off (ws ! k)) + unat (wm_dd_disk_len (ws ! k)) \<le> dd + dd_bytes ws \<and>
   (hf \<longrightarrow> unat (wm_freq_off (ws ! k)) + unat (wm_freq_disk_len (ws ! k)) \<le> fr + freq_bytes hf ws)"
proof (induction ws arbitrary: dd fr k)
  case (Cons m ws)
  show ?case
  proof (cases k)
    case 0
    with Cons.prems show ?thesis by (auto simp: dd_bytes_def freq_bytes_def)
  next
    case (Suc j)
    with Cons.prems Cons.IH [of "dd + unat (wm_dd_disk_len m)" "fr + (if hf then unat (wm_freq_disk_len m) else 0)" j]
    show ?thesis by (auto simp: dd_bytes_def freq_bytes_def)
  qed
qed simp

lemma InBounds_ok: "unat off + unat len \<le> unat limit \<Longrightarrow> InBounds off len limit = Inr ()"
  by (auto simp: InBounds_def word_less_nat_alt unat_sub word_le_nat_alt not_less)

text \<open>Everything a range of window \<open>k\<close> needs.\<close>

definition range_of :: "byte list \<Rightarrow> u64 \<Rightarrow> u64 \<Rightarrow> byte list \<Rightarrow> bool" where
  "range_of contents off len bs = (in_file (length contents) off len \<and> file_slice contents off len = bs)"

lemma range_ofI:
  assumes "unat off = a" and "a + unat len \<le> length contents" and "bs = seg contents a (unat len)"
  shows "range_of contents off len bs"
  using assms by (simp add: range_of_def in_file_def file_slice_seg)

lemma ResolveBlocks_ok:
  assumes st: "windowed_stored z contents (posting_region idx) hf hp e fb pb cols cs"
    and len: "length contents < 2 ^ 64"
  obtains g where "ResolveBlocks idx e fb (prelude_reader cols) = Inr g"
    and "unat (bg_dd_block_off g) = unat (rr_offset (posting_region idx)) + unat fb + unat (de_frq_off_delta e) + length (prelude_bytes cols)"
    and "unat (bg_dd_block_len g) = dd_bytes (fpc_windows cols)"
    and "unat (bg_freq_block_off g) = unat (bg_dd_block_off g) + dd_bytes (fpc_windows cols)"
    and "unat (bg_freq_block_len g) = freq_bytes hf (fpc_windows cols)"
    and "unat (bg_freq_block_off g) + unat (bg_freq_block_len g) \<le> length contents"
proof -
  let ?R = "posting_region idx" and ?ws = "fpc_windows cols" and ?n = "length (prelude_bytes cols)"
  let ?a = "rr_offset ?R + fb + de_frq_off_delta e + de_prelude_len e"
  have hf: "fpc_has_freq cols = hf" and t: "tiled hf 0 0 ?ws" and n: "unat (de_prelude_len e) = ?n"
    and fit: "?n + dd_bytes ?ws + freq_bytes hf ?ws \<le> unat (de_frq_len e)"
    and rin: "region_in contents ?R (unat fb + unat (de_frq_off_delta e)) (unat (de_frq_len e))"
    using st by (simp_all add: windowed_stored_def Let_def)
  note u = region_start [OF rin len]
  have tb: "dd_bytes ?ws < 2 ^ 64" "freq_bytes hf ?ws < 2 ^ 64" using tiled_bound [OF t] by simp_all
  have a: "unat ?a = unat (rr_offset ?R) + unat fb + unat (de_frq_off_delta e) + ?n"
    using u(1,3) n fit len by (simp add: unat_word_ariths(1))
  have le: "de_prelude_len e \<le> de_frq_len e" using n fit by (simp add: word_le_nat_alt)
  then have rl: "unat (de_frq_len e - de_prelude_len e) = unat (de_frq_len e) - ?n" by (simp add: unat_sub n)
  have dd: "of_nat (dd_bytes ?ws) \<le> de_frq_len e - de_prelude_len e"
    using fit tb by (simp add: word_le_nat_alt rl)
  moreover from this have "of_nat (freq_bytes hf ?ws) \<le> de_frq_len e - de_prelude_len e - of_nat (dd_bytes ?ws)"
    using fit tb by (simp add: word_le_nat_alt rl unat_sub)
  ultimately have g: "ResolveBlocks idx e fb (prelude_reader cols) = Inr \<lparr>bg_dd_block_off = ?a,
      bg_dd_block_len = of_nat (dd_bytes ?ws), bg_freq_block_off = ?a + of_nat (dd_bytes ?ws),
      bg_freq_block_len = of_nat (freq_bytes hf ?ws), bg_frq_region_len = de_frq_len e - de_prelude_len e\<rparr>"
    using le by (simp add: ResolveBlocks_def Let_def not_less prelude_reader_def hf PreludeAbs_def)
  have "unat (?a + of_nat (dd_bytes ?ws)) = unat ?a + dd_bytes ?ws"
    using a u(3) fit tb len by (simp add: unat_word_ariths(1))
  then show ?thesis by (intro that [OF g]) (use a tb u(3) fit in simp_all)
qed

lemma windowed_window_range_ok:
  assumes st: "windowed_stored z contents (posting_region idx) hf hp e fb pb cols cs"
    and len: "length contents < 2 ^ 64" and k: "k < length (fpc_windows cols)"
    and wants: "want_p \<longrightarrow> hp" "want_f \<longrightarrow> hf"
  obtains r where
    "windowed_window_range idx e fb pb (prelude_reader cols) (of_nat k) want_p want_f = Inr r"
    and "prelude_window (prelude_reader cols) (of_nat k) = Inr (stored_windows hf hp 0 (fpc_windows cols) ! k)"
    and "range_of contents (war_dd_off r) (war_dd_len r)
      (seg contents (unat (rr_offset (posting_region idx)) + unat fb + unat (de_frq_off_delta e) + length (prelude_bytes cols) +
         unat (wm_dd_off (stored_windows hf hp 0 (fpc_windows cols) ! k)))
         (unat (wm_dd_disk_len (stored_windows hf hp 0 (fpc_windows cols) ! k))))"
    and "want_p \<Longrightarrow> range_of contents (war_prx_off r) (war_prx_len r)
      (seg contents (unat (rr_offset (posting_region idx)) + unat pb + unat (de_prx_off_delta e) +
         unat (wm_prx_off (stored_windows hf hp 0 (fpc_windows cols) ! k)))
         (unat (wm_prx_len (stored_windows hf hp 0 (fpc_windows cols) ! k))))"
proof -
  let ?R = "posting_region idx" and ?ws = "fpc_windows cols" and ?n = "length (prelude_bytes cols)"
  let ?w = "stored_windows hf hp 0 ?ws ! k"
  have hf: "fpc_has_freq cols = hf" "fpc_has_prx cols = hp" and t: "tiled hf 0 0 ?ws" and ok: "prelude_ok cols"
    and px: "hp \<Longrightarrow> region_in contents ?R (unat pb + unat (de_prx_off_delta e)) (unat (de_prx_len e))"
    and all: "list_all2 (window_stored z contents
        (unat (rr_offset ?R) + unat fb + unat (de_frq_off_delta e) + ?n)
        (unat (rr_offset ?R) + unat fb + unat (de_frq_off_delta e) + ?n + dd_bytes ?ws)
        (unat (rr_offset ?R) + unat pb + unat (de_prx_off_delta e)) (unat (de_prx_len e)) hf hp)
        (stored_windows hf hp 0 ?ws) cs"
    using st by (simp_all add: windowed_stored_def Let_def)
  have k32: "k < 2 ^ 32" using k ok by (simp add: prelude_ok_def)
  have w: "prelude_window (prelude_reader cols) (of_nat k) = Inr ?w"
    using k k32 by (simp add: prelude_window_def prelude_reader_def hf)
  obtain g where g: "ResolveBlocks idx e fb (prelude_reader cols) = Inr g"
    "unat (bg_dd_block_off g) = unat (rr_offset ?R) + unat fb + unat (de_frq_off_delta e) + ?n"
    "unat (bg_dd_block_len g) = dd_bytes ?ws"
    "unat (bg_freq_block_off g) = unat (bg_dd_block_off g) + dd_bytes ?ws"
    "unat (bg_freq_block_len g) = freq_bytes hf ?ws"
    "unat (bg_freq_block_off g) + unat (bg_freq_block_len g) \<le> length contents"
    by (rule ResolveBlocks_ok [OF st len])
  obtain base where sw: "?w = stored_window hf hp base (?ws ! k)" using stored_windows_nth [OF k] by blast
  have tl: "unat (wm_dd_off ?w) + unat (wm_dd_disk_len ?w) \<le> dd_bytes ?ws"
    "want_f \<longrightarrow> unat (wm_freq_off ?w) + unat (wm_freq_disk_len ?w) \<le> freq_bytes hf ?ws"
    unfolding sw using tiled_nth [OF t k] wants(2) by (simp_all add: stored_window_def)
  have pl: "want_p \<longrightarrow> unat (wm_prx_off ?w) + unat (wm_prx_len ?w) \<le> unat (de_prx_len e)"
    using list_all2_nthD [OF all, of k] k wants(1) by (simp add: window_stored_def)
  have ib: "InBounds (wm_dd_off ?w) (wm_dd_disk_len ?w) (bg_dd_block_len g) = Inr ()"
    "want_f \<Longrightarrow> InBounds (wm_freq_off ?w) (wm_freq_disk_len ?w) (bg_freq_block_len g) = Inr ()"
    "want_p \<Longrightarrow> InBounds (wm_prx_off ?w) (wm_prx_len ?w) (de_prx_len e) = Inr ()"
    using tl pl g(3,5) by (simp_all add: InBounds_ok)
  have hp: "fpr_has_prx (prelude_reader cols) = hp" by (simp add: prelude_reader_def hf)
  let ?pa = "rr_offset ?R + pb + de_prx_off_delta e"
  let ?r = "\<lparr>war_dd_off = bg_dd_block_off g + wm_dd_off ?w, war_dd_len = wm_dd_disk_len ?w,
     war_freq_off = (if want_f then bg_freq_block_off g + wm_freq_off ?w else 0), war_freq_len = (if want_f then wm_freq_disk_len ?w else 0),
     war_prx_off = (if want_p then ?pa + wm_prx_off ?w else 0), war_prx_len = (if want_p then wm_prx_len ?w else 0)\<rparr>"
  have "windowed_window_range idx e fb pb (prelude_reader cols) (of_nat k) want_p want_f = Inr ?r"
    using ib wants(1) hp
    by (cases want_f; cases want_p) (simp_all add: windowed_window_range_def g(1) w no_window_range_def Let_def)
  moreover have "range_of contents (bg_dd_block_off g + wm_dd_off ?w) (wm_dd_disk_len ?w)
      (seg contents (unat (rr_offset ?R) + unat fb + unat (de_frq_off_delta e) + ?n + unat (wm_dd_off ?w)) (unat (wm_dd_disk_len ?w)))"
    using g tl(1) len by (intro range_ofI) (auto simp: unat_word_ariths(1))
  moreover have "range_of contents (?pa + wm_prx_off ?w) (wm_prx_len ?w)
      (seg contents (unat (rr_offset ?R) + unat pb + unat (de_prx_off_delta e) + unat (wm_prx_off ?w)) (unat (wm_prx_len ?w)))" if want_p
    using region_start [OF px len] that pl wants(1) len by (intro range_ofI) (auto simp: unat_word_ariths(1))
  ultimately show ?thesis using w by (intro that [of ?r]) simp_all
qed

subsection \<open>A batch of stored postings\<close>

definition batch_stored ::
  "host \<Rightarrow> byte list \<Rightarrow> logical_index_reader \<Rightarrow> bool \<Rightarrow> bool \<Rightarrow> resolved_docid_posting list \<Rightarrow> chunk list list \<Rightarrow> bool" where
  "batch_stored h contents idx hf hp postings css =
     (host_ok h \<and> index_over contents idx \<and>
      list_all2 (\<lambda>p. posting_stored (host_zstd h) contents (posting_region idx) hf hp (rp_entry p) (rp_frq_base p) (rp_prx_base p))
        postings css)"

definition inline_p :: "resolved_docid_posting \<Rightarrow> bool" where
  "inline_p p = (de_kind (rp_entry p) = kInline)"

definition windowed_p :: "resolved_docid_posting \<Rightarrow> bool" where
  "windowed_p p = (\<not> inline_p p \<and> de_enc (rp_entry p) = kWindowed)"

definition slim_p :: "resolved_docid_posting \<Rightarrow> bool" where
  "slim_p p = (\<not> inline_p p \<and> \<not> windowed_p p)"

lemma batch_posting_nth:
  assumes "batch_stored h contents idx hf hp postings css" and "i < length postings"
  shows "inline_p (postings ! i) \<Longrightarrow> \<exists>c. css ! i = [c] \<and> inline_stored (host_zstd h) hp (rp_entry (postings ! i)) c"
    and "slim_p (postings ! i) \<Longrightarrow> \<exists>c. css ! i = [c] \<and> slim_stored (host_zstd h) contents (posting_region idx) hp
      (rp_entry (postings ! i)) (rp_frq_base (postings ! i)) (rp_prx_base (postings ! i)) c"
    and "windowed_p (postings ! i) \<Longrightarrow> \<exists>cols. windowed_stored (host_zstd h) contents (posting_region idx) hf hp
      (rp_entry (postings ! i)) (rp_frq_base (postings ! i)) (rp_prx_base (postings ! i)) cols (css ! i)"
  using assms
  by (auto simp: batch_stored_def posting_stored_def inline_p_def slim_p_def windowed_p_def dest!: list_all2_nthD split: if_splits)

text \<open>The document vectors, filled in for the postings \<open>J\<close>.\<close>

definition filled :: "chunk list list \<Rightarrow> nat set \<Rightarrow> u32 list list \<Rightarrow> bool" where
  "filled css J docids =
     (length docids = length css \<and> (\<forall>j < length css. docids ! j = (if j \<in> J then posting_docs (css ! j) else [])))"

lemma filled_update:
  "filled css J docids \<Longrightarrow> i < length css \<Longrightarrow> filled css (insert i J) (docids[i := posting_docs (css ! i)])"
  by (auto simp: filled_def nth_list_update)

lemma filled_all: "filled css J docids \<Longrightarrow> {..<length css} \<subseteq> J \<Longrightarrow> docids = map posting_docs css"
  by (rule nth_equalityI) (auto simp: filled_def)

definition flat_for :: "resolved_docid_posting list \<Rightarrow> flat_plan \<Rightarrow> bool" where
  "flat_for postings plan =
     (fp_out_index plan < length postings \<and> slim_p (postings ! fp_out_index plan) \<and>
      fp_entry plan = rp_entry (postings ! fp_out_index plan))"

definition windowed_for ::
  "logical_index_reader \<Rightarrow> resolved_docid_posting list \<Rightarrow> batch_range_fetcher \<Rightarrow> window_plan \<Rightarrow> bool" where
  "windowed_for idx postings pf plan =
     (wp_out_index plan < length postings \<and> windowed_p (postings ! wp_out_index plan) \<and>
      wp_posting plan = postings ! wp_out_index plan \<and> wp_windows plan = [] \<and>
      asks pf (wp_prelude_handle plan) (prelude_abs idx (rp_entry (wp_posting plan)) (rp_frq_base (wp_posting plan)))
        (de_prelude_len (rp_entry (wp_posting plan))))"

lemma windowed_for_extends: "windowed_for idx postings pf plan \<Longrightarrow> extends pf pf' \<Longrightarrow> windowed_for idx postings pf' plan"
  by (auto simp: windowed_for_def intro: asks_extends)

lemma decode_inline_ok:
  "inline_stored (host_zstd h) hp e c \<Longrightarrow> decode_inline_docs h e = Inr (ck_docs c)"
  by (auto simp: inline_stored_def decode_inline_docs_def decode_flat_docs_def word_less_nat_alt not_less)

lemma prelude_range:
  assumes "windowed_stored z contents (posting_region idx) hf hp e fb pb cols cs" and "length contents < 2 ^ 64"
  shows "range_of contents (prelude_abs idx e fb) (de_prelude_len e) (prelude_bytes cols)"
proof -
  have r: "region_in contents (posting_region idx) (unat fb + unat (de_frq_off_delta e)) (unat (de_frq_len e))"
    using assms(1) by (simp add: windowed_stored_def Let_def)
  show ?thesis
    using region_start [OF r assms(2)] assms(1)
    by (intro range_ofI [where a = "unat (rr_offset (posting_region idx)) + unat fb + unat (de_frq_off_delta e)"])
      (auto simp: windowed_stored_def Let_def prelude_abs_def)
qed

text \<open>Planning, from posting \<open>i\<close> on.\<close>

lemma plan_postings_ok:
  assumes st: "batch_stored h contents idx hf hp postings css"
  shows "i \<le> length postings \<Longrightarrow> filled css ({j. j < i \<and> inline_p (postings ! j)}) docids \<Longrightarrow> reqs_in contents pf \<Longrightarrow>
   \<exists>docids' fps' wps' pf'. plan_postings h idx i (drop i postings) (docids, fps, wps, pf) = Inr (docids', fps @ fps', wps @ wps', pf') \<and>
     filled css {j. j < length postings \<and> inline_p (postings ! j)} docids' \<and> reqs_in contents pf' \<and> extends pf pf' \<and>
     (\<forall>f \<in> set fps'. flat_for postings f) \<and> (\<forall>w \<in> set wps'. windowed_for idx postings pf' w) \<and>
     set (map fp_out_index fps') = {j. i \<le> j \<and> j < length postings \<and> slim_p (postings ! j)} \<and>
     set (map wp_out_index wps') = {j. i \<le> j \<and> j < length postings \<and> windowed_p (postings ! j)} \<and>
     distinct (map wp_out_index wps')"
proof (induction "length postings - i" arbitrary: i docids fps wps pf)
  case 0
  then have "i = length postings" by simp
  with 0 show ?case by auto
next
  case (Suc n)
  let ?p = "postings ! i"
  let ?S = "\<lambda>i. {j. i \<le> j \<and> j < length postings \<and> slim_p (postings ! j)}"
  let ?W = "\<lambda>i. {j. i \<le> j \<and> j < length postings \<and> windowed_p (postings ! j)}"
  have i: "i < length postings" and d: "drop i postings = ?p # drop (Suc i) postings"
    using Suc.hyps(2) by (auto simp: Cons_nth_drop_Suc)
  have ic: "i < length css" using i st by (auto simp: batch_stored_def dest: list_all2_lengthD)
  have len: "length contents < 2 ^ 64" using st by (simp add: batch_stored_def index_over_def)
  have n: "n = length postings - Suc i" using Suc.hyps(2) by simp
  consider (inl) "inline_p ?p" | (win) "windowed_p ?p" | (slim) "slim_p ?p" by (auto simp: slim_p_def)
  then show ?case
  proof cases
    case inl
    then obtain c where c: "css ! i = [c]" "inline_stored (host_zstd h) hp (rp_entry ?p) c"
      using batch_posting_nth(1) [OF st i] by blast
    have "{j. j < Suc i \<and> inline_p (postings ! j)} = insert i {j. j < i \<and> inline_p (postings ! j)}"
      using inl by (auto simp: less_Suc_eq)
    then have f: "filled css {j. j < Suc i \<and> inline_p (postings ! j)} (docids[i := ck_docs c])"
      using filled_update [OF Suc.prems(2) ic] c by (simp add: posting_docs_def)
    have "?S i = ?S (Suc i)" "?W i = ?W (Suc i)"
      using inl by (auto simp: slim_p_def windowed_p_def Suc_le_eq order.order_iff_strict)
    with Suc.hyps(1) [OF n _ f Suc.prems(3), of fps wps] i inl show ?thesis
      by (simp add: d decode_inline_ok [OF c(2)] inline_p_def)
  next
    case win
    then obtain cols where w: "windowed_stored (host_zstd h) contents (posting_region idx) hf hp (rp_entry ?p)
        (rp_frq_base ?p) (rp_prx_base ?p) cols (css ! i)"
      using batch_posting_nth(3) [OF st i] by blast
    let ?off = "prelude_abs idx (rp_entry ?p) (rp_frq_base ?p)" and ?len = "de_prelude_len (rp_entry ?p)"
    obtain pf1 where a: "brf_add ?off ?len pf = (length (brf_reqs pf), pf1)" "pf1 = snd (brf_add ?off ?len pf)"
      by (rule brf_add_cases)
    let ?plan = "\<lparr>wp_out_index = i, wp_posting = ?p, wp_prelude_handle = length (brf_reqs pf), wp_prelude = no_prelude, wp_windows = []\<rparr>"
    have v: "validate_windowed_prelude (rp_entry ?p) = Inr ()"
      using w by (auto simp: windowed_stored_def Let_def validate_windowed_prelude_def word_less_nat_alt)
    have r1: "reqs_in contents pf1"
      using prelude_range [OF w len] Suc.prems(3) by (simp add: a(2) reqs_in_add range_of_def)
    have "{j. j < Suc i \<and> inline_p (postings ! j)} = {j. j < i \<and> inline_p (postings ! j)}"
      using win by (auto simp: less_Suc_eq windowed_p_def)
    then have f: "filled css {j. j < Suc i \<and> inline_p (postings ! j)} docids" using Suc.prems(2) by simp
    from Suc.hyps(1) [OF n _ f r1, of fps "wps @ [?plan]"] i obtain docids' fps' wps' pf' where
      run: "plan_postings h idx (Suc i) (drop (Suc i) postings) (docids, fps, wps @ [?plan], pf1) =
         Inr (docids', fps @ fps', wps @ (?plan # wps'), pf')"
      and out: "filled css {j. j < length postings \<and> inline_p (postings ! j)} docids'" "reqs_in contents pf'" "extends pf1 pf'"
        "\<forall>f \<in> set fps'. flat_for postings f" "\<forall>w \<in> set wps'. windowed_for idx postings pf' w"
        "set (map fp_out_index fps') = ?S (Suc i)" "set (map wp_out_index wps') = ?W (Suc i)" "distinct (map wp_out_index wps')"
      by auto
    have "windowed_for idx postings pf1 ?plan" using win i by (simp add: windowed_for_def a(2))
    then have p: "windowed_for idx postings pf' ?plan" using out(3) by (rule windowed_for_extends)
    have ex: "extends pf pf'" using out(3) by (rule extends_trans [rotated]) (simp add: a(2))
    have "?S i = ?S (Suc i)" "?W i = insert i (?W (Suc i))"
      using win i by (auto simp: slim_p_def windowed_p_def Suc_le_eq order.order_iff_strict)
    with out p ex i win show ?thesis
      by (intro exI [of _ docids'] exI [of _ fps'] exI [of _ "?plan # wps'"] exI [of _ pf'])
        (simp add: d run v a(1) windowed_p_def inline_p_def)
  next
    case slim
    let ?plan = "\<lparr>fp_out_index = i, fp_entry = rp_entry ?p, fp_handle = 0\<rparr>"
    have "{j. j < Suc i \<and> inline_p (postings ! j)} = {j. j < i \<and> inline_p (postings ! j)}"
      using slim by (auto simp: less_Suc_eq slim_p_def)
    then have f: "filled css {j. j < Suc i \<and> inline_p (postings ! j)} docids" using Suc.prems(2) by simp
    from Suc.hyps(1) [OF n _ f Suc.prems(3), of "fps @ [?plan]" wps] i obtain docids' fps' wps' pf' where
      run: "plan_postings h idx (Suc i) (drop (Suc i) postings) (docids, fps @ [?plan], wps, pf) =
         Inr (docids', fps @ (?plan # fps'), wps @ wps', pf')"
      and out: "filled css {j. j < length postings \<and> inline_p (postings ! j)} docids'" "reqs_in contents pf'" "extends pf pf'"
        "\<forall>f \<in> set fps'. flat_for postings f" "\<forall>w \<in> set wps'. windowed_for idx postings pf' w"
        "set (map fp_out_index fps') = ?S (Suc i)" "set (map wp_out_index wps') = ?W (Suc i)" "distinct (map wp_out_index wps')"
      by auto
    have p: "flat_for postings ?plan" using slim i by (simp add: flat_for_def)
    have "?W i = ?W (Suc i)" "?S i = insert i (?S (Suc i))"
      using slim i by (auto simp: slim_p_def Suc_le_eq order.order_iff_strict)
    moreover have "de_kind (rp_entry ?p) \<noteq> kInline" "de_enc (rp_entry ?p) \<noteq> kWindowed"
      using slim by (auto simp: slim_p_def windowed_p_def inline_p_def)
    ultimately show ?thesis using out p
      by (intro exI [of _ docids'] exI [of _ "?plan # fps'"] exI [of _ wps'] exI [of _ pf']) (simp add: d run)
  qed
qed

text \<open>The preludes: each plan gets the reader of its posting's columns.\<close>

definition prelude_for ::
  "host \<Rightarrow> byte list \<Rightarrow> logical_index_reader \<Rightarrow> bool \<Rightarrow> bool \<Rightarrow> resolved_docid_posting list \<Rightarrow> chunk list list \<Rightarrow> window_plan \<Rightarrow> bool" where
  "prelude_for h contents idx hf hp postings css plan =
     (wp_out_index plan < length postings \<and> wp_posting plan = postings ! wp_out_index plan \<and> wp_windows plan = [] \<and>
      (\<exists>cols. wp_prelude plan = prelude_reader cols \<and>
        windowed_stored (host_zstd h) contents (posting_region idx) hf hp (rp_entry (wp_posting plan))
          (rp_frq_base (wp_posting plan)) (rp_prx_base (wp_posting plan)) cols (css ! wp_out_index plan)))"

lemma open_prelude_ok:
  assumes "windowed_stored z contents region hf hp e fb pb cols cs"
  shows "frq_prelude_open (prelude_bytes cols) = Inr (prelude_reader cols)"
proof (rule frq_prelude_open_bytes)
  show "prelude_ok cols" "tiled (fpc_has_freq cols) 0 0 (fpc_windows cols)"
    using assms by (simp_all add: windowed_stored_def Let_def)
  have "length (prelude_bytes cols) = unat (de_prelude_len e)" using assms by (simp add: windowed_stored_def Let_def)
  then show "length (prelude_bytes cols) < 2 ^ 64" using unat_u64_less [of "de_prelude_len e"] by simp
qed

lemma open_window_preludes_ok:
  assumes st: "batch_stored h contents idx hf hp postings css"
    and get: "\<And>i. i < length (brf_reqs pf) \<Longrightarrow> brf_get pf' i = Inr (bytes_of contents pf i)"
    and w: "\<forall>w \<in> set plans. windowed_for idx postings pf w"
  shows "\<exists>plans'. open_window_preludes pf' plans = Inr plans' \<and> map wp_out_index plans' = map wp_out_index plans \<and>
    (\<forall>w \<in> set plans'. prelude_for h contents idx hf hp postings css w)"
  using w
proof (induction plans)
  case (Cons plan plans)
  then have p: "windowed_for idx postings pf plan" by simp
  let ?p = "wp_posting plan"
  have i: "wp_out_index plan < length postings" "?p = postings ! wp_out_index plan" "wp_windows plan = []"
    using p by (simp_all add: windowed_for_def)
  obtain cols where c: "windowed_stored (host_zstd h) contents (posting_region idx) hf hp (rp_entry ?p) (rp_frq_base ?p)
      (rp_prx_base ?p) cols (css ! wp_out_index plan)"
    using batch_posting_nth(3) [OF st i(1)] p by (auto simp: windowed_for_def i)
  have len: "length contents < 2 ^ 64" using st by (simp add: batch_stored_def index_over_def)
  have "brf_get pf' (wp_prelude_handle plan) = Inr (prelude_bytes cols)"
    using get [of "wp_prelude_handle plan"] p prelude_range [OF c len] asks_bytes
    by (auto simp: windowed_for_def range_of_def asks_def bytes_of_def)
  moreover have "prelude_for h contents idx hf hp postings css (plan\<lparr>wp_prelude := prelude_reader cols\<rparr>)"
    using i c by (auto simp: prelude_for_def)
  moreover obtain plans' where "open_window_preludes pf' plans = Inr plans'" "map wp_out_index plans' = map wp_out_index plans"
    "\<forall>w \<in> set plans'. prelude_for h contents idx hf hp postings css w"
    using Cons by auto
  ultimately show ?case
    by (intro exI [of _ "plan\<lparr>wp_prelude := prelude_reader cols\<rparr> # plans'"]) (simp add: open_prelude_ok [OF c])
qed simp

text \<open>The requests of the second round.\<close>

definition flat_asks ::
  "host \<Rightarrow> byte list \<Rightarrow> resolved_docid_posting list \<Rightarrow> chunk list list \<Rightarrow> batch_range_fetcher \<Rightarrow> flat_plan \<Rightarrow> bool" where
  "flat_asks h contents postings css f plan =
     (fp_out_index plan < length css \<and> fp_handle plan < length (brf_reqs f) \<and>
      decode_dd_region (host_zstd h) (bytes_of contents f (fp_handle plan)) (de_dd_meta (fp_entry plan)) 0 =
        Inr (posting_docs (css ! fp_out_index plan)))"

lemma bytes_of_extends: "extends f g \<Longrightarrow> i < length (brf_reqs f) \<Longrightarrow> bytes_of contents g i = bytes_of contents f i"
  by (auto simp: extends_def prefix_def bytes_of_def nth_append)

lemma extends_length: "extends f g \<Longrightarrow> length (brf_reqs f) \<le> length (brf_reqs g)"
  by (auto simp: extends_def prefix_def)

lemma flat_asks_extends: "flat_asks h contents postings css f plan \<Longrightarrow> extends f g \<Longrightarrow> flat_asks h contents postings css g plan"
  using extends_length by (fastforce simp: flat_asks_def bytes_of_extends)

lemma plan_all_flat_ok:
  assumes st: "batch_stored h contents idx hf hp postings css"
  shows "\<forall>f \<in> set plans. flat_for postings f \<Longrightarrow> reqs_in contents fetcher \<Longrightarrow>
   \<exists>plans' fetcher'. plan_all_flat idx postings plans fetcher = Inr (plans', fetcher') \<and>
     map fp_out_index plans' = map fp_out_index plans \<and> reqs_in contents fetcher' \<and> extends fetcher fetcher' \<and>
     (\<forall>f \<in> set plans'. flat_asks h contents postings css fetcher' f)"
proof (induction plans arbitrary: fetcher)
  case (Cons plan plans)
  let ?i = "fp_out_index plan"
  let ?p = "postings ! ?i"
  have i: "?i < length postings" and sl: "slim_p ?p" and en: "fp_entry plan = rp_entry ?p"
    using Cons.prems(1) by (simp_all add: flat_for_def)
  have ic: "?i < length css" using i st by (auto simp: batch_stored_def dest: list_all2_lengthD)
  have len: "length contents < 2 ^ 64" using st by (simp add: batch_stored_def index_over_def)
  obtain c where c: "css ! ?i = [c]" and s: "slim_stored (host_zstd h) contents (posting_region idx) hp (rp_entry ?p)
      (rp_frq_base ?p) (rp_prx_base ?p) c"
    using batch_posting_nth(2) [OF st i sl] by blast
  let ?R = "posting_region idx" and ?e = "rp_entry ?p" and ?fb = "rp_frq_base ?p"
  have r: "region_in contents ?R (unat ?fb + unat (de_frq_off_delta ?e)) (unat (de_frq_len ?e))"
    and dl: "0 < de_frq_docs_len ?e" "de_frq_docs_len ?e \<le> de_frq_len ?e" and p0: "de_prelude_len ?e = 0"
    using s by (simp_all add: slim_stored_def)
  let ?a = "rr_offset ?R + ?fb + de_frq_off_delta ?e"
  note u = region_start [OF r len]
  have rng: "range_of contents ?a (de_frq_docs_len ?e) (seg contents (unat (rr_offset ?R) + unat ?fb + unat (de_frq_off_delta ?e)) (unat (de_frq_docs_len ?e)))"
    using u dl(2) by (intro range_ofI) (auto simp: word_le_nat_alt)
  obtain g where a: "brf_add ?a (de_frq_docs_len ?e) fetcher = (length (brf_reqs fetcher), g)"
      "g = snd (brf_add ?a (de_frq_docs_len ?e) fetcher)"
    by (rule brf_add_cases)
  have rg: "reqs_in contents g" using Cons.prems(2) rng by (simp add: a(2) reqs_in_add range_of_def)
  let ?plan = "plan\<lparr>fp_handle := length (brf_reqs fetcher)\<rparr>"
  have pf: "plan_flat_docs idx ?p fetcher plan = Inr (?plan, g)"
    using dl by (simp add: plan_flat_docs_def resolve_frq_window_def p0 resolve_window_ok [OF r len] slim_docs_fetch_len_def a(1) not_less)
  have bytes: "bytes_of contents g (length (brf_reqs fetcher)) = seg contents (unat (rr_offset ?R) + unat ?fb + unat (de_frq_off_delta ?e)) (unat (de_frq_docs_len ?e))"
    unfolding a(2) asks_bytes [OF asks_add] using rng by (simp add: range_of_def)
  have ga: "flat_asks h contents postings css g ?plan"
    using s ic c by (simp add: flat_asks_def bytes en slim_stored_def posting_docs_def) (simp add: a(2) brf_add_reqs)
  from Cons.IH [OF _ rg] Cons.prems(1) obtain plans' f' where
    run: "plan_all_flat idx postings plans g = Inr (plans', f')" "map fp_out_index plans' = map fp_out_index plans"
      "reqs_in contents f'" "extends g f'" "\<forall>f \<in> set plans'. flat_asks h contents postings css f' f"
    by auto
  have "extends fetcher f'" using run(4) by (rule extends_trans [rotated]) (simp add: a(2))
  with run pf flat_asks_extends [OF ga run(4)] show ?case by simp
qed simp

definition window_asks :: "host \<Rightarrow> byte list \<Rightarrow> batch_range_fetcher \<Rightarrow> window_handle \<Rightarrow> chunk \<Rightarrow> bool" where
  "window_asks h contents f wh c =
     (wh_handle wh < length (brf_reqs f) \<and>
      decode_window_slices h (wh_meta wh) (bytes_of contents f (wh_handle wh)) [] [] False False = Inr (ck_docs c, [], []))"

lemma window_asks_extends: "window_asks h contents f wh c \<Longrightarrow> extends f g \<Longrightarrow> window_asks h contents g wh c"
  using extends_length by (fastforce simp: window_asks_def bytes_of_extends)

lemma decode_window_docs:
  "window_stored (host_zstd h) contents dd0 fr0 px0 pn hf hp w c \<Longrightarrow>
   decode_window_slices h w (seg contents (dd0 + unat (wm_dd_off w)) (unat (wm_dd_disk_len w))) [] [] False False = Inr (ck_docs c, [], [])"
  by (simp add: window_stored_def decode_window_slices_def)

lemma windowed_nth:
  assumes "windowed_stored z contents region hf hp e fb pb cols cs" and "k < length (fpc_windows cols)"
  shows "window_stored z contents (unat (rr_offset region) + unat fb + unat (de_frq_off_delta e) + length (prelude_bytes cols))
      (unat (rr_offset region) + unat fb + unat (de_frq_off_delta e) + length (prelude_bytes cols) + dd_bytes (fpc_windows cols))
      (unat (rr_offset region) + unat pb + unat (de_prx_off_delta e)) (unat (de_prx_len e)) hf hp
      (stored_windows hf hp 0 (fpc_windows cols) ! k) (cs ! k)"
  using assms by (auto simp: windowed_stored_def Let_def dest: list_all2_nthD)

lemma windowed_length: "windowed_stored z contents region hf hp e fb pb cols cs \<Longrightarrow> length cs = length (fpc_windows cols)"
  by (auto simp: windowed_stored_def Let_def dest: list_all2_lengthD)

lemma plan_windows_ok:
  assumes st: "windowed_stored (host_zstd h) contents (posting_region idx) hf hp (rp_entry p) (rp_frq_base p) (rp_prx_base p) cols cs"
    and len: "length contents < 2 ^ 64"
  shows "k \<le> length (fpc_windows cols) \<Longrightarrow> reqs_in contents f \<Longrightarrow>
   \<exists>hs f'. plan_windows idx p (prelude_reader cols) [k..<length (fpc_windows cols)] f = Inr (hs, f') \<and>
     reqs_in contents f' \<and> extends f f' \<and> list_all2 (window_asks h contents f') hs (drop k cs)"
proof (induction "length (fpc_windows cols) - k" arbitrary: k f)
  case 0
  then show ?case using windowed_length [OF st] by simp
next
  case (Suc n)
  then have k: "k < length (fpc_windows cols)" and up: "[k..<length (fpc_windows cols)] = k # [Suc k..<length (fpc_windows cols)]"
    by (auto simp: upt_rec)
  have kc: "k < length cs" using k windowed_length [OF st] by simp
  let ?w = "stored_windows hf hp 0 (fpc_windows cols) ! k"
  obtain r where r: "windowed_window_range idx (rp_entry p) (rp_frq_base p) (rp_prx_base p) (prelude_reader cols) (of_nat k) False False = Inr r"
    and w: "prelude_window (prelude_reader cols) (of_nat k) = Inr ?w"
    and rng: "range_of contents (war_dd_off r) (war_dd_len r)
      (seg contents (unat (rr_offset (posting_region idx)) + unat (rp_frq_base p) + unat (de_frq_off_delta (rp_entry p)) + length (prelude_bytes cols) +
         unat (wm_dd_off ?w)) (unat (wm_dd_disk_len ?w)))"
    using windowed_window_range_ok [OF st len k, of False False] by blast
  obtain g where a: "brf_add (war_dd_off r) (war_dd_len r) f = (length (brf_reqs f), g)" "g = snd (brf_add (war_dd_off r) (war_dd_len r) f)"
    by (rule brf_add_cases)
  have rg: "reqs_in contents g" using Suc.prems(2) rng by (simp add: a(2) reqs_in_add range_of_def)
  let ?h = "\<lparr>wh_meta = ?w, wh_handle = length (brf_reqs f)\<rparr>"
  have "bytes_of contents g (length (brf_reqs f)) = file_slice contents (war_dd_off r) (war_dd_len r)"
    unfolding a(2) by (rule asks_bytes [OF asks_add])
  then have h: "window_asks h contents g ?h (cs ! k)"
    using rng decode_window_docs [OF windowed_nth [OF st k]]
    by (simp add: window_asks_def range_of_def) (simp add: a(2) brf_add_reqs)
  have n: "n = length (fpc_windows cols) - Suc k" using Suc.hyps(2) by simp
  from Suc.hyps(1) [OF n _ rg] k obtain hs f' where
    run: "plan_windows idx p (prelude_reader cols) [Suc k..<length (fpc_windows cols)] g = Inr (hs, f')"
      "reqs_in contents f'" "extends g f'" "list_all2 (window_asks h contents f') hs (drop (Suc k) cs)"
    by auto
  have "extends f f'" using run(3) by (rule extends_trans [rotated]) (simp add: a(2))
  moreover have "drop k cs = cs ! k # drop (Suc k) cs" using kc by (simp add: Cons_nth_drop_Suc)
  ultimately show ?case using run window_asks_extends [OF h run(3)]
    by (intro exI [of _ "?h # hs"] exI [of _ f']) (simp add: up r w a(1))
qed

definition windows_ask :: "host \<Rightarrow> byte list \<Rightarrow> chunk list list \<Rightarrow> batch_range_fetcher \<Rightarrow> window_plan \<Rightarrow> bool" where
  "windows_ask h contents css f plan =
     (wp_out_index plan < length css \<and> list_all2 (window_asks h contents f) (wp_windows plan) (css ! wp_out_index plan))"

lemma windows_ask_extends: "windows_ask h contents css f plan \<Longrightarrow> extends f g \<Longrightarrow> windows_ask h contents css g plan"
  by (auto simp: windows_ask_def elim!: list_all2_mono intro: window_asks_extends)

lemma plan_all_windowed_ok:
  assumes st: "batch_stored h contents idx hf hp postings css"
  shows "\<forall>w \<in> set plans. prelude_for h contents idx hf hp postings css w \<Longrightarrow> reqs_in contents f \<Longrightarrow>
   \<exists>plans' f'. plan_all_windowed idx plans f = Inr (plans', f') \<and> map wp_out_index plans' = map wp_out_index plans \<and>
     reqs_in contents f' \<and> extends f f' \<and> (\<forall>w \<in> set plans'. windows_ask h contents css f' w)"
proof (induction plans arbitrary: f)
  case (Cons plan plans)
  then obtain cols where i: "wp_out_index plan < length postings" "wp_windows plan = []"
    and c: "wp_prelude plan = prelude_reader cols"
    "windowed_stored (host_zstd h) contents (posting_region idx) hf hp (rp_entry (wp_posting plan))
       (rp_frq_base (wp_posting plan)) (rp_prx_base (wp_posting plan)) cols (css ! wp_out_index plan)"
    by (auto simp: prelude_for_def)
  have ic: "wp_out_index plan < length css" using i st by (auto simp: batch_stored_def dest: list_all2_lengthD)
  have len: "length contents < 2 ^ 64" using st by (simp add: batch_stored_def index_over_def)
  have nw: "length (fpr_windows (prelude_reader cols)) = length (fpc_windows cols)" by (simp add: prelude_reader_def)
  obtain hs g where w: "plan_windows idx (wp_posting plan) (prelude_reader cols) [0..<length (fpc_windows cols)] f = Inr (hs, g)"
    "reqs_in contents g" "extends f g" "list_all2 (window_asks h contents g) hs (css ! wp_out_index plan)"
    using plan_windows_ok [OF c(2) len, of 0 f] Cons.prems(2) by auto
  let ?plan = "plan\<lparr>wp_windows := hs\<rparr>"
  have pw: "plan_window_docs idx plan f = Inr (?plan, g)"
    by (simp add: plan_window_docs_def c(1) nw w(1) i(2))
  have a: "windows_ask h contents css g ?plan" using w(4) ic by (simp add: windows_ask_def)
  from Cons.IH [OF _ w(2)] Cons.prems(1) obtain plans' f' where
    run: "plan_all_windowed idx plans g = Inr (plans', f')" "map wp_out_index plans' = map wp_out_index plans"
      "reqs_in contents f'" "extends g f'" "\<forall>w \<in> set plans'. windows_ask h contents css f' w"
    by auto
  with pw extends_trans [OF w(3) run(4)] windows_ask_extends [OF a run(4)] show ?case by simp
qed simp

text \<open>Decoding what was fetched.\<close>

definition fetched :: "byte list \<Rightarrow> batch_range_fetcher \<Rightarrow> batch_range_fetcher \<Rightarrow> bool" where
  "fetched contents f f' = (\<forall>i < length (brf_reqs f). brf_get f' i = Inr (bytes_of contents f i))"

lemma decode_all_flat_ok:
  "fetched contents f f' \<Longrightarrow> \<forall>p \<in> set plans. flat_asks h contents postings css f p \<Longrightarrow> filled css J docids \<Longrightarrow>
   \<exists>docids'. decode_all_flat h f' plans docids = Inr docids' \<and> filled css (J \<union> set (map fp_out_index plans)) docids'"
proof (induction plans arbitrary: J docids)
  case (Cons plan plans)
  let ?i = "fp_out_index plan"
  have a: "?i < length css" "fp_handle plan < length (brf_reqs f)"
    "decode_dd_region (host_zstd h) (bytes_of contents f (fp_handle plan)) (de_dd_meta (fp_entry plan)) 0 = Inr (posting_docs (css ! ?i))"
    using Cons.prems(2) by (simp_all add: flat_asks_def)
  have "decode_flat_plan h f' plan = Inr (posting_docs (css ! ?i))"
    using a Cons.prems(1) by (simp add: decode_flat_plan_def fetched_def decode_flat_docs_def)
  with Cons.IH [OF Cons.prems(1) _ filled_update [OF Cons.prems(3) a(1)]] Cons.prems(2) show ?case
    by (simp add: Un_commute insert_commute)
qed simp

lemma decode_windows_ok:
  "fetched contents f f' \<Longrightarrow> list_all2 (window_asks h contents f) ws cs \<Longrightarrow>
   decode_windows h f' ws out = Inr (out @ posting_docs cs)"
proof (induction ws arbitrary: cs out)
  case (Cons w ws)
  from Cons.prems(2) obtain c cs' where cs: "cs = c # cs'" and a: "window_asks h contents f w c"
    and rest: "list_all2 (window_asks h contents f) ws cs'" by (auto simp: list_all2_Cons1)
  show ?case using Cons.IH [OF Cons.prems(1) rest] a Cons.prems(1)
    by (simp add: cs window_asks_def fetched_def posting_docs_def)
qed (simp add: posting_docs_def)

lemma decode_all_windowed_ok:
  "fetched contents f f' \<Longrightarrow> \<forall>p \<in> set plans. windows_ask h contents css f p \<Longrightarrow> filled css J docids \<Longrightarrow>
   distinct (map wp_out_index plans) \<Longrightarrow> set (map wp_out_index plans) \<inter> J = {} \<Longrightarrow>
   \<exists>docids'. decode_all_windowed h f' plans docids = Inr docids' \<and> filled css (J \<union> set (map wp_out_index plans)) docids'"
proof (induction plans arbitrary: J docids)
  case (Cons plan plans)
  let ?i = "wp_out_index plan"
  have a: "?i < length css" "list_all2 (window_asks h contents f) (wp_windows plan) (css ! ?i)"
    using Cons.prems(2) by (simp_all add: windows_ask_def)
  have "?i \<notin> J" using Cons.prems(5) by auto
  then have "docids ! ?i = []" using Cons.prems(3) a(1) by (simp add: filled_def)
  then have "decode_window_plan h f' plan (docids ! ?i) = Inr (posting_docs (css ! ?i))"
    using decode_windows_ok [OF Cons.prems(1) a(2)] by (simp add: decode_window_plan_def)
  moreover have "set (map wp_out_index plans) \<inter> insert ?i J = {}" using Cons.prems(4,5) by auto
  ultimately show ?case
    using Cons.IH [OF Cons.prems(1) _ filled_update [OF Cons.prems(3) a(1)]] Cons.prems(2,4)
    by (simp add: Un_commute insert_commute)
qed simp

text \<open>The batched reader returns the documents of every posting, whatever mixture of kinds the batch has.\<close>

lemma read_docid_postings_batched_ok:
  assumes st: "batch_stored h contents idx hf hp postings css"
  shows "read_docid_postings_batched h idx postings = Inr (map posting_docs css)"
proof -
  have hok: "host_ok h" and over: "index_over contents idx" and len: "length css = length postings"
    using st by (auto simp: batch_stored_def dest: list_all2_lengthD)
  have f0: "filled css {j. j < 0 \<and> inline_p (postings ! j)} (replicate (length postings) [])"
    by (simp add: filled_def len)
  obtain docids fps wps pf where p: "plan_postings h idx 0 postings (replicate (length postings) [], [], [], batch_range_fetcher_new 0) =
      Inr (docids, fps, wps, pf)"
    and fi: "filled css {j. j < length postings \<and> inline_p (postings ! j)} docids" and rp: "reqs_in contents pf"
    and ff: "\<forall>f \<in> set fps. flat_for postings f" and fw: "\<forall>w \<in> set wps. windowed_for idx postings pf w"
    and sets: "set (map fp_out_index fps) = {j. j < length postings \<and> slim_p (postings ! j)}"
      "set (map wp_out_index wps) = {j. j < length postings \<and> windowed_p (postings ! j)}" and dist: "distinct (map wp_out_index wps)"
    using plan_postings_ok [OF st _ f0 reqs_in_new, of "[]" "[]" 0] by auto
  obtain wps1 where w1: "(if brf_reqs pf \<noteq> [] then and_then (index_fetch h idx pf) (\<lambda>fetched. open_window_preludes fetched wps) else Inr wps) = Inr wps1"
    and i1: "map wp_out_index wps1 = map wp_out_index wps" and pf1: "\<forall>w \<in> set wps1. prelude_for h contents idx hf hp postings css w"
  proof (cases "brf_reqs pf = []")
    case True
    then have "wps = []" using fw by (cases wps) (auto simp: windowed_for_def asks_def)
    with True that [of "[]"] show ?thesis by simp
  next
    case False
    obtain pf' where "index_fetch h idx pf = Inr pf'" and get: "\<And>i. i < length (brf_reqs pf) \<Longrightarrow> brf_get pf' i = Inr (bytes_of contents pf i)"
      using index_fetch_ok [OF hok over rp] by blast
    with False open_window_preludes_ok [OF st get fw] that show ?thesis by auto
  qed
  obtain fps2 f2 where w2: "plan_all_flat idx postings fps (batch_range_fetcher_new 0) = Inr (fps2, f2)"
    "map fp_out_index fps2 = map fp_out_index fps" "reqs_in contents f2" "\<forall>f \<in> set fps2. flat_asks h contents postings css f2 f"
    using plan_all_flat_ok [OF st ff reqs_in_new, of 0] by blast
  obtain wps3 f3 where w3: "plan_all_windowed idx wps1 f2 = Inr (wps3, f3)" "map wp_out_index wps3 = map wp_out_index wps1"
    "reqs_in contents f3" "extends f2 f3" "\<forall>w \<in> set wps3. windows_ask h contents css f3 w"
    using plan_all_windowed_ok [OF st pf1 w2(3)] by blast
  obtain f4 where w4: "(if brf_reqs f3 \<noteq> [] then index_fetch h idx f3 else Inr f3) = Inr f4" and get: "fetched contents f3 f4"
    using fetch_or_skip [OF hok over w3(3)] by (metis fetched_def)
  have fa: "\<forall>f \<in> set fps2. flat_asks h contents postings css f3 f" using w2(4) w3(4) flat_asks_extends by blast
  obtain docids5 where w5: "decode_all_flat h f4 fps2 docids = Inr docids5"
    "filled css ({j. j < length postings \<and> inline_p (postings ! j)} \<union> {j. j < length postings \<and> slim_p (postings ! j)}) docids5"
    using decode_all_flat_ok [OF get fa fi] unfolding w2(2) sets by blast
  have dj: "set (map wp_out_index wps3) \<inter> ({j. j < length postings \<and> inline_p (postings ! j)} \<union> {j. j < length postings \<and> slim_p (postings ! j)}) = {}"
    unfolding w3(2) i1 sets by (auto simp: windowed_p_def slim_p_def)
  have "distinct (map wp_out_index wps3)" using dist by (simp add: w3(2) i1)
  from decode_all_windowed_ok [OF get w3(5) w5(2) this dj] obtain docids6 where
    w6: "decode_all_windowed h f4 wps3 docids5 = Inr docids6"
      "filled css ({j. j < length postings \<and> inline_p (postings ! j)} \<union> {j. j < length postings \<and> slim_p (postings ! j)} \<union>
         {j. j < length postings \<and> windowed_p (postings ! j)}) docids6"
    unfolding w3(2) i1 sets by blast
  have "docids6 = map posting_docs css"
    by (rule filled_all [OF w6(2)]) (auto simp: len slim_p_def)
  with p w1 w2(1) w3(1) w4 w5(1) w6(1) show ?thesis
    by (simp add: read_docid_postings_batched_def)
qed

corollary read_docid_posting_ok:
  assumes "host_ok h" and "index_over contents idx"
    and "posting_stored (host_zstd h) contents (posting_region idx) hf hp e fb pb cs"
  shows "read_docid_posting h idx e fb pb = Inr (posting_docs cs)"
  using read_docid_postings_batched_ok [of h contents idx hf hp "[\<lparr>rp_entry = e, rp_frq_base = fb, rp_prx_base = pb\<rparr>]" "[cs]"] assms
  by (simp add: batch_stored_def read_docid_posting_def)

end
