(* ===== verification/Written_Posting.thy ===== *)
theory Written_Posting
  imports Logical_Index_Writer Stored_Posting
begin

text \<open>
  The postings the index writer produces are those the readers rely on. For every valid term, the entry
  that \<open>build_entry\<close> makes, with the bytes it appends to the container, stores the documents,
  frequencies and positions of the term, inline, slim or in windows.
\<close>

subsection \<open>The content of a term\<close>

text \<open>The positions of a term, cut into those of each document.\<close>

fun cut_by :: "u32 list \<Rightarrow> 'a list \<Rightarrow> 'a list list" where
  "cut_by [] ps = []"
| "cut_by (f # fs) ps = take (unat f) ps # cut_by fs (drop (unat f) ps)"

definition freq_sum :: "u32 list \<Rightarrow> nat" where
  "freq_sum fs = sum_list (map unat fs)"

lemma freq_sum_simps [simp]: "freq_sum [] = 0" "freq_sum (f # fs) = unat f + freq_sum fs"
  "freq_sum (fs @ gs) = freq_sum fs + freq_sum gs"
  by (simp_all add: freq_sum_def)

lemma length_cut_by [simp]: "length (cut_by fs ps) = length fs"
  by (induction fs arbitrary: ps) simp_all

lemma concat_cut_by: "concat (cut_by fs ps) = take (freq_sum fs) ps"
  by (induction fs arbitrary: ps) (simp_all add: take_add)

lemma doc_freqs_cut_by: "freq_sum fs \<le> length ps \<Longrightarrow> doc_freqs (cut_by fs ps) = fs"
  by (induction fs arbitrary: ps) simp_all

lemma cut_by_append: "cut_by (fs @ gs) ps = cut_by fs ps @ cut_by gs (drop (freq_sum fs) ps)"
  by (induction fs arbitrary: ps) (simp_all add: add.commute)

lemma cut_by_take: "freq_sum fs \<le> n \<Longrightarrow> cut_by fs (take n ps) = cut_by fs ps"
proof (induction fs arbitrary: n ps)
  case (Cons f fs)
  then have "cut_by fs (take (n - unat f) (drop (unat f) ps)) = cut_by fs (drop (unat f) ps)" by (intro Cons.IH) simp
  then show ?case using Cons.prems by (simp add: drop_take min_def)
qed simp

lemma cut_by_short: "doc \<in> set (cut_by fs ps) \<Longrightarrow> length doc < 2 ^ 32"
proof (induction fs arbitrary: ps)
  case (Cons f fs)
  then show ?case using unat_u32_less [of f] by auto
qed simp

subsection \<open>Windows of positions\<close>

lemma length_pfor_le: "length (pfor_runs_bytes vs) \<le> 15 * length vs + 7"
proof -
  have "7 * (length vs div 256) \<le> 256 * (length vs div 256)" by simp
  also have "\<dots> \<le> length vs" by (rule times_div_less_eq_dividend)
  finally show ?thesis using length_pfor_runs_bytes [of vs] by simp
qed

lemma length_docs_payload: "length (docs_payload docs) \<le> 5 + 5 * length docs + 5 * length (concat docs)"
proof -
  have "length (concat (map encode_varint32 ds)) \<le> 5 * length ds" for ds
  proof (induction ds)
    case (Cons d ds)
    with varint32_len_le_5 [of d] show ?case by simp
  qed simp
  then have "length (doc_bytes doc) \<le> 5 + 5 * length doc" for doc
    using varint32_len_le_5 [of "of_nat (length doc)"] unfolding doc_bytes_def
    by (smt (verit) add_mono length_append length_deltas)
  then have "length (concat (map doc_bytes docs)) \<le> 5 * length docs + 5 * length (concat docs)"
  proof (induction docs)
    case (Cons doc docs)
    from Cons.prems [of doc] Cons.IH [OF Cons.prems] show ?case by simp
  qed simp
  with varint32_len_le_5 [of "of_nat (length docs)"] show ?thesis by (simp add: docs_payload_def)
qed

lemma build_prx_ok:
  assumes z: "zstd_spec z" and n: "freq_sum fs = length ps" "length fs \<le> 1024" "length ps \<le> 2 ^ 20"
    and srt: "\<forall>doc \<in> set (cut_by fs ps). sorted doc"
  obtains bs src where "build_prx_window_flat z ps fs kAutoZstd [] = Inr bs"
    and "read_prx_window z (source bs) = Inr (cut_by fs ps, src)"
    and "length bs \<le> 64 + 15 * (length fs + length ps)"
proof -
  let ?d = "cut_by fs ps"
  have c: "concat ?d = ps" "doc_freqs ?d = fs" using n(1) by (simp_all add: concat_cut_by doc_freqs_cut_by)
  have short: "short_docs ?d" using cut_by_short by blast
  have p: "encode_pfor_payload_flat ps fs [] = encode_pfor_payload ?d []"
    unfolding encode_pfor_payload_def Let_def c by (rule refl)
  let ?b = "write_pfor (pfor_payload ?d) []"
  have ok: "encode_pfor_payload ?d [] = Inr (pfor_payload ?d)"
    using encode_pfor_payload_eq [OF short, of "[]"] srt by simp
  then have b: "build_prx_window_flat z ps fs kAutoZstd [] = Inr ?b" "build_prx_window z ?d kAutoZstd [] = Inr ?b"
    by (simp_all add: build_prx_window_flat_def build_prx_window_def p kAutoZstd_def)
  have ld: "length (concat (map (deltas 0 0) ?d)) = length ps"
    using c(1) by (metis (no_types, lifting) length_concat length_deltas map_eq_conv map_map comp_apply)
  have "length (pfor_payload ?d) \<le> 24 + 15 * (length fs + length ps)"
    using length_pfor_le [of fs] length_pfor_le [of "concat (map (deltas 0 0) ?d)"] ld c
      varint32_len_le_5 [of "of_nat (length fs)"] varint32_len_le_5 [of "of_nat (length ps)"]
    by (simp add: pfor_payload_def)
  then have l: "length ?b \<le> 64 + 15 * (length fs + length ps)"
    using varint32_len_le_5 [of "of_nat (length (pfor_payload ?d))"] by (simp add: put_simps prx_frame_def)
  then have "window_fits ?d ?b" using n by (simp add: window_fits_def c(1))
  moreover have "length (docs_payload ?d) \<le> 2 ^ 28" using length_docs_payload [of ?d] n by (simp add: c(1))
  ultimately have "read_prx_window z (source (?b @ [])) = Inr (?d, advance (length ?b) (source (?b @ [])))"
    by (rule read_prx_window_build [OF z b(2)])
  with b(1) l show ?thesis by (intro that) simp_all
qed

subsection \<open>Regions\<close>

abbreviation raw_meta :: "byte list \<Rightarrow> frq_region_meta" where
  "raw_meta bs \<equiv> \<lparr>frm_zstd = False, frm_uncomp_len = of_nat (length bs), frm_disk_len = of_nat (length bs),
     frm_crc = crc32c bs, frm_verify_crc = True\<rparr>"

lemma emit_raw: "emit_region z plain kRawFrqRegion [] default_region_meta = Inr (plain, raw_meta plain)"
  by (simp add: emit_region_def should_compress_def kRawFrqRegion_def default_region_meta_def put_bytes_def)

lemma dd_region_ok:
  assumes z: "zstd_spec z" and "sorted docs" and "\<forall>d \<in> set docs. unat base \<le> unat d" and n: "length docs \<le> 2 ^ 24"
  obtains dd where "build_dd_region z docs base kRawFrqRegion [] default_region_meta = Inr (dd, raw_meta dd)"
    and "decode_dd_region z dd (raw_meta dd) base = Inr docs" and "0 < length dd" and "length dd \<le> 12 + 15 * length docs"
proof -
  let ?dd = "encode_varint32 (of_nat (length docs)) @ pfor_runs_bytes (doc_deltas base docs)"
  have v: "validate_docs docs base = Inr ()" using assms(2,3) by (simp add: validate_docs_ok)
  have b: "build_dd_region z docs base kRawFrqRegion [] default_region_meta = Inr (?dd, raw_meta ?dd)"
    by (simp add: build_dd_region_def v put_simps Let_def emit_raw)
  have l: "length ?dd \<le> 12 + 15 * length docs"
    using length_pfor_le [of "doc_deltas base docs"] varint32_len_le_5 [of "of_nat (length docs)"] by simp
  have "decode_dd_region z ?dd (raw_meta ?dd) base = Inr docs"
    by (rule decode_dd_region_build [OF z b n]) (use l n in simp)
  moreover have "0 < length ?dd" using varint_nonempty_lengths(2) [of "of_nat (length docs)"] by (simp add: Suc_le_eq)
  ultimately show ?thesis using b l by (intro that)
qed

lemma freq_region_ok:
  assumes z: "zstd_spec z" and n: "length freqs \<le> 2 ^ 24"
  obtains fr where "build_freq_region z freqs kRawFrqRegion [] default_region_meta = Inr (fr, raw_meta fr)"
    and "decode_freq_region z fr (raw_meta fr) (length freqs) = Inr freqs" and "length fr \<le> 12 + 15 * length freqs"
proof -
  let ?fr = "pfor_runs_bytes freqs"
  have b: "build_freq_region z freqs kRawFrqRegion [] default_region_meta = Inr (?fr, raw_meta ?fr)"
    by (simp add: build_freq_region_def put_simps Let_def emit_raw)
  have l: "length ?fr \<le> 12 + 15 * length freqs" using length_pfor_le [of freqs] by simp
  have "decode_freq_region z ?fr (raw_meta ?fr) (length freqs) = Inr freqs"
    by (rule decode_freq_region_build [OF z b n]) (use l n in simp)
  with b l show ?thesis by (intro that)
qed

text \<open>Both regions of a chunk, or only the first without frequencies. The reader that skips the checksum
  decodes the same documents.\<close>

lemma encode_regions_ok:
  assumes z: "zstd_spec (host_zstd h)" and srt: "sorted docs" "\<forall>d \<in> set docs. unat base \<le> unat d"
    and n: "length docs \<le> 2 ^ 24" "length freqs = length docs"
  obtains dd fr where "EncodeRegions h docs freqs base hp = Inr (dd, raw_meta dd, fr, if hp then raw_meta fr else default_region_meta)"
    and "EncodeRegionsInto h docs freqs base hp = Inr (dd, raw_meta dd, fr, if hp then raw_meta fr else default_region_meta)"
    and "decode_dd_region (host_zstd h) dd (raw_meta dd) base = Inr docs" and "0 < length dd"
    and "hp \<longrightarrow> decode_freq_region (host_zstd h) fr (raw_meta fr) (length docs) = Inr freqs" and "\<not> hp \<longrightarrow> fr = []"
    and "length dd + length fr \<le> 24 + 30 * length docs"
proof -
  obtain dd where dd: "build_dd_region (host_zstd h) docs base kRawFrqRegion [] default_region_meta = Inr (dd, raw_meta dd)"
    "decode_dd_region (host_zstd h) dd (raw_meta dd) base = Inr docs" "0 < length dd" "length dd \<le> 12 + 15 * length docs"
    by (rule dd_region_ok [OF z srt n(1)])
  obtain fr where fr: "build_freq_region (host_zstd h) freqs kRawFrqRegion [] default_region_meta = Inr (fr, raw_meta fr)"
    "decode_freq_region (host_zstd h) fr (raw_meta fr) (length freqs) = Inr freqs" "length fr \<le> 12 + 15 * length freqs"
    by (rule freq_region_ok [OF z, of freqs]) (use n in simp)
  show ?thesis
    by (rule that [of dd "if hp then fr else []"])
      (use dd fr n in \<open>simp_all add: EncodeRegions_def EncodeRegionsInto_def default_region_meta_def\<close>)
qed

lemma decode_dd_unchecked:
  "decode_dd_region z dd (raw_meta dd) base = Inr docs \<Longrightarrow>
   decode_dd_region z dd (stored_region False (of_nat (length dd)) (raw_meta dd)) base = Inr docs"
  by (auto simp: decode_dd_region_def open_region_def stored_region_def split: if_splits)

subsection \<open>The chunks of a term\<close>

text \<open>The windows of a posting are pairs of documents and frequencies, as the passes of the writer see them;
  the positions are cut along.\<close>

type_synonym window_docs = "u32 list \<times> u32 list"

fun window_chunks :: "window_docs list \<Rightarrow> u32 list \<Rightarrow> chunk list" where
  "window_chunks [] ps = []"
| "window_chunks ((docs, freqs) # wins) ps =
     \<lparr>ck_docs = docs, ck_freqs = freqs, ck_poss = cut_by freqs ps\<rparr> # window_chunks wins (drop (freq_sum freqs) ps)"

definition win_docs :: "window_docs list \<Rightarrow> u32 list" where
  "win_docs wins = concat (map fst wins)"

definition win_freqs :: "window_docs list \<Rightarrow> u32 list" where
  "win_freqs wins = concat (map snd wins)"

lemma win_simps [simp]:
  "win_docs [] = []" "win_docs ((docs, freqs) # wins) = docs @ win_docs wins"
  "win_freqs [] = []" "win_freqs ((docs, freqs) # wins) = freqs @ win_freqs wins"
  by (simp_all add: win_docs_def win_freqs_def)

definition windows_ok :: "window_docs list \<Rightarrow> bool" where
  "windows_ok wins = (\<forall>(docs, freqs) \<in> set wins. docs \<noteq> [] \<and> length freqs = length docs \<and> length docs \<le> 1024)"

lemma windows_ok_simps [simp]:
  "windows_ok []"
  "windows_ok ((docs, freqs) # wins) \<longleftrightarrow> docs \<noteq> [] \<and> length freqs = length docs \<and> length docs \<le> 1024 \<and> windows_ok wins"
  by (auto simp: windows_ok_def)

lemma window_chunks_docs: "posting_docs (window_chunks wins ps) = win_docs wins"
  by (induction wins ps rule: window_chunks.induct) (simp_all add: posting_docs_def)

lemma window_chunks_poss: "concat (map ck_poss (window_chunks wins ps)) = cut_by (win_freqs wins) ps"
  by (induction wins ps rule: window_chunks.induct) (simp_all add: cut_by_append)

lemma length_win_freqs: "windows_ok wins \<Longrightarrow> length (win_freqs wins) = length (win_docs wins)"
  by (induction wins) auto

lemma length_windows_le: "windows_ok wins \<Longrightarrow> length wins \<le> length (win_docs wins)"
proof (induction wins)
  case (Cons w wins)
  obtain docs freqs where w: "w = (docs, freqs)" by (cases w)
  with Cons.prems have "1 \<le> length docs" by (cases docs) auto
  with Cons w show ?case by simp
qed simp

text \<open>What positions must satisfy: as many as the frequencies say, ascending in each document, and not more than
  \<open>2^20\<close> in a window.\<close>

definition positions_fit :: "window_docs list \<Rightarrow> u32 list \<Rightarrow> bool" where
  "positions_fit wins ps =
     (freq_sum (win_freqs wins) = length ps \<and> (\<forall>doc \<in> set (cut_by (win_freqs wins) ps). sorted doc) \<and>
      (\<forall>(docs, freqs) \<in> set wins. freq_sum freqs \<le> 2 ^ 20))"

lemma positions_fit_Cons:
  assumes "positions_fit ((docs, freqs) # wins) ps"
  shows "freq_sum freqs = length (take (freq_sum freqs) ps)" and "freq_sum freqs \<le> 2 ^ 20"
    and "\<forall>doc \<in> set (cut_by freqs (take (freq_sum freqs) ps)). sorted doc"
    and "positions_fit wins (drop (freq_sum freqs) ps)"
  using assms by (auto simp: positions_fit_def cut_by_append cut_by_take)

subsection \<open>The passes over the windows\<close>

text \<open>The positions still to be taken from a source, at offset \<open>off\<close>.\<close>

fun pos_left :: "Logical_Index_Writer.pos_source \<Rightarrow> nat \<Rightarrow> u32 list" where
  "pos_left (Flat_Positions ps) off = drop off ps"
| "pos_left (Pumped ps) off = ps"

fun pos_in :: "Logical_Index_Writer.pos_source \<Rightarrow> nat \<Rightarrow> bool" where
  "pos_in (Flat_Positions ps) off = (off \<le> length ps)"
| "pos_in (Pumped ps) off = True"

lemma next_positions_ok:
  assumes "pos_in ps off" and "n \<le> length (pos_left ps off)"
  obtains ps' where "next_positions ps off n = Inr (take n (pos_left ps off), ps')"
    and "pos_left ps' (off + n) = drop n (pos_left ps off)" and "pos_in ps' (off + n)"
proof (cases ps)
  case (Flat_Positions xs)
  with assms show ?thesis by (intro that [of ps]) (auto simp: subslice_def add.commute)
next
  case (Pumped xs)
  with assms show ?thesis by (intro that [of "Pumped (drop n xs)"]) (auto simp: subslice_def)
qed

text \<open>The metas \<open>ms\<close> and the bytes \<open>P\<close> of the positions of the chunks, from offset \<open>px\<close> on.\<close>

fun prx_laid :: "zstd_lib \<Rightarrow> bool \<Rightarrow> nat \<Rightarrow> window_meta list \<Rightarrow> chunk list \<Rightarrow> byte list \<Rightarrow> bool" where
  "prx_laid z hp px [] [] P = (P = [])"
| "prx_laid z hp px (m # ms) (c # cs) P =
     (wm_last_docid m = last (ck_docs c) \<and> unat (wm_doc_count m) = length (ck_docs c) \<and> wm_verify_crc m \<and>
      (\<exists>p P'. P = p @ P' \<and>
         (hp \<longrightarrow> unat (wm_prx_off m) = px \<and> unat (wm_prx_len m) = length p \<and> prx_stored z p c) \<and>
         prx_laid z hp (px + length p) ms cs P'))"
| "prx_laid z hp px ms cs P = False"

definition prx_cost :: "window_docs list \<Rightarrow> nat" where
  "prx_cost wins = 64 * length wins + 15 * (length (win_freqs wins) + freq_sum (win_freqs wins))"

lemma prx_pass_ok:
  assumes z: "zstd_spec (host_zstd h)" and wr: "host_writes h"
  shows "windows_ok wins \<Longrightarrow> (hp \<longrightarrow> pos_in ps off \<and> positions_fit wins (pos_left ps off) \<and> px + prx_cost wins < 2 ^ 63) \<Longrightarrow> px < 2 ^ 63 \<Longrightarrow>
    \<exists>ms P. prx_pass h hp norms wins ps off base (of_nat px) out = Inr (ms, of_nat (px + length P), out @ P) \<and>
      prx_laid (host_zstd h) hp px ms (window_chunks wins (if hp then pos_left ps off else qs)) P \<and>
      (if hp then length P \<le> prx_cost wins else P = [])"
proof (induction wins arbitrary: ps off px base out qs)
  case (Cons w wins)
  obtain docs freqs where w: "w = (docs, freqs)" by (cases w)
  let ?z = "host_zstd h" and ?n = "sum_list (map unat freqs)"
  let ?m = "default_window_meta\<lparr>wm_last_docid := last docs, wm_win_base := base,
            wm_doc_count := of_nat (length docs), wm_max_freq := MaxOf freqs, wm_max_norm := WindowMaxNorm norms docs\<rparr>"
  have ok: "windows_ok wins" "length freqs = length docs" "length docs \<le> 1024" using Cons.prems(1) by (simp_all add: w)
  have n: "?n = freq_sum freqs" by (simp add: freq_sum_def)
  show ?case
  proof (cases hp)
    case False
    let ?b = "ucast (last docs)"
    obtain ms where ms: "prx_pass h hp norms wins ps (off + ?n) ?b (of_nat px) out = Inr (ms, of_nat px, out)"
      "prx_laid ?z hp px ms (window_chunks wins (drop (freq_sum freqs) qs)) []"
      using Cons.IH [OF ok(1), of ps "off + ?n" px ?b out "drop (freq_sum freqs) qs"] False Cons.prems(3) by auto
    show ?thesis
      by (rule exI [of _ "?m # ms"], rule exI [of _ "[]"]) (use ms ok False in \<open>simp add: w Let_def default_window_meta_def\<close>)
  next
    case True
    then have fit: "positions_fit ((docs, freqs) # wins) (pos_left ps off)" and pin: "pos_in ps off" and cost: "px + prx_cost (w # wins) < 2 ^ 63"
      using Cons.prems(2) by (simp_all add: w)
    note f = positions_fit_Cons [OF fit]
    let ?ps = "take (freq_sum freqs) (pos_left ps off)"
    obtain ps' where ps': "next_positions ps off ?n = Inr (?ps, ps')"
      "pos_left ps' (off + ?n) = drop (freq_sum freqs) (pos_left ps off)" "pos_in ps' (off + ?n)"
      by (rule next_positions_ok [OF pin, of ?n]) (use f(1) in \<open>auto simp: n\<close>)
    obtain p src where p: "build_prx_window_flat ?z ?ps freqs kAutoZstd [] = Inr p"
      "read_prx_window ?z (source p) = Inr (cut_by freqs ?ps, src)" "length p \<le> 64 + 15 * (length freqs + length ?ps)"
      using build_prx_ok [OF z f(1), of thesis] f ok by auto
    have lp: "length p + prx_cost wins \<le> prx_cost (w # wins)" using p(3) f(1) by (simp add: w prx_cost_def)
    then have sm: "px + length p + prx_cost wins < 2 ^ 63" using cost by linarith
    have "prx_stored ?z p \<lparr>ck_docs = docs, ck_freqs = freqs, ck_poss = cut_by freqs (pos_left ps off)\<rparr>"
      using p(2) f ok by (auto simp: prx_stored_def concat_cut_by cut_by_take kMaxWindowPositions_def)
    let ?m' = "?m\<lparr>wm_prx_off := of_nat px, wm_prx_len := of_nat (length p)\<rparr>"
    obtain ms P where ms: "prx_pass h hp norms wins ps' (off + ?n) (ucast (last docs)) (of_nat (px + length p)) (out @ p) =
        Inr (ms, of_nat (px + length p + length P), (out @ p) @ P)"
      "prx_laid ?z hp (px + length p) ms (window_chunks wins (pos_left ps' (off + ?n))) P" "length P \<le> prx_cost wins"
      using Cons.IH [OF ok(1), of ps' "off + ?n" "px + length p" "ucast (last docs)" "out @ p"] f(4) sm ps'(2,3) True by auto
    show ?thesis
    proof (rule exI [of _ "?m' # ms"], rule exI [of _ "p @ P"], intro conjI)
      show "prx_pass h hp norms (w # wins) ps off base (of_nat px) out =
          Inr (?m' # ms, of_nat (px + length (p @ P)), out @ p @ P)"
        using True ps'(1) p(1) wr ms(1) by (simp add: w Let_def add.assoc)
    qed (use True ms(2,3) ps'(2) \<open>prx_stored _ _ _\<close> sm ok lp in \<open>auto simp: w default_window_meta_def\<close>)
  qed
qed simp

text \<open>The regions of one window: what the row of the window says of the bytes \<open>d\<close> and \<open>f\<close>.\<close>

definition window_regions :: "zstd_lib \<Rightarrow> bool \<Rightarrow> u64 \<Rightarrow> window_meta \<Rightarrow> chunk \<Rightarrow> byte list \<Rightarrow> byte list \<Rightarrow> bool" where
  "window_regions z hp base m c d f =
     (window_dd_meta m = raw_meta d \<and> length d < 2 ^ 64 \<and> decode_dd_region z d (raw_meta d) base = Inr (ck_docs c) \<and>
      (if hp then window_freq_meta m = raw_meta f \<and> length f < 2 ^ 64 \<and>
         decode_freq_region z f (raw_meta f) (length (ck_docs c)) = Inr (ck_freqs c) else f = []))"

fun regions_laid ::
  "zstd_lib \<Rightarrow> bool \<Rightarrow> u64 \<Rightarrow> nat \<Rightarrow> nat \<Rightarrow> window_meta list \<Rightarrow> chunk list \<Rightarrow> byte list \<Rightarrow> byte list \<Rightarrow> bool" where
  "regions_laid z hp base dd fr [] [] D F = (D = [] \<and> F = [])"
| "regions_laid z hp base dd fr (m # ms) (c # cs) D F =
     (\<exists>d D' f F'. D = d @ D' \<and> F = f @ F' \<and> window_regions z hp base m c d f \<and>
        unat (wm_dd_off m) = dd \<and> (hp \<longrightarrow> unat (wm_freq_off m) = fr) \<and>
        regions_laid z hp (ucast (last (ck_docs c))) (dd + length d) (fr + length f) ms cs D' F')"
| "regions_laid z hp base dd fr ms cs D F = False"

definition region_cost :: "window_docs list \<Rightarrow> nat" where
  "region_cost wins = 24 * length wins + 30 * length (win_docs wins)"

lemma sorted_after_last: "sorted_wrt (<) (xs @ ys) \<Longrightarrow> xs \<noteq> [] \<Longrightarrow> \<forall>y \<in> set ys. last xs < (y :: u32)"
  by (simp add: sorted_wrt_append)

lemma region_pass_ok:
  assumes z: "zstd_spec (host_zstd h)"
  shows "windows_ok wins \<Longrightarrow> sorted_wrt (<) (win_docs wins) \<Longrightarrow> \<forall>d \<in> set (win_docs wins). unat base \<le> unat d \<Longrightarrow>
    prx_laid (host_zstd h) hp px ms (window_chunks wins ps) P \<Longrightarrow> length D0 + length F0 + region_cost wins < 2 ^ 63 \<Longrightarrow>
    \<exists>ms' D F. region_pass h hp wins ms base (D0, F0) = Inr (ms', D0 @ D, F0 @ F) \<and>
      prx_laid (host_zstd h) hp px ms' (window_chunks wins ps) P \<and>
      regions_laid (host_zstd h) hp base (length D0) (length F0) ms' (window_chunks wins ps) D F \<and>
      length D + length F \<le> region_cost wins"
proof (induction wins arbitrary: base px ms ps P D0 F0)
  case Nil
  then show ?case by (cases ms) auto
next
  case (Cons w wins)
  let ?z = "host_zstd h"
  obtain docs freqs where w: "w = (docs, freqs)" by (cases w)
  obtain m ms0 where ms: "ms = m # ms0" using Cons.prems(4) by (cases ms) (auto simp: w)
  let ?c = "\<lparr>ck_docs = docs, ck_freqs = freqs, ck_poss = cut_by freqs ps\<rparr>" and ?ps = "drop (freq_sum freqs) ps"
  obtain p P' where pl: "P = p @ P'" "prx_laid ?z hp (px + length p) ms0 (window_chunks wins ?ps) P'"
    and m: "wm_last_docid m = last docs" "unat (wm_doc_count m) = length docs" "wm_verify_crc m"
      "hp \<longrightarrow> unat (wm_prx_off m) = px \<and> unat (wm_prx_len m) = length p \<and> prx_stored ?z p ?c"
    using Cons.prems(4) by (auto simp: w ms)
  have ok: "windows_ok wins" "docs \<noteq> []" "length freqs = length docs" "length docs \<le> 2 ^ 24"
    using Cons.prems(1) by (simp_all add: w)
  have srt: "sorted docs" "sorted_wrt (<) (win_docs wins)" "\<forall>d \<in> set docs. unat base \<le> unat d"
    using Cons.prems(2,3) by (auto simp: w sorted_wrt_append intro: strict_sorted_imp_sorted)
  have "\<forall>d \<in> set (win_docs wins). last docs < d"
    using sorted_after_last [of docs "win_docs wins"] Cons.prems(2) ok(2) by (simp add: w)
  then have next_base: "\<forall>d \<in> set (win_docs wins). unat (ucast (last docs) :: u64) \<le> unat d"
    by (auto simp: word_less_nat_alt intro: less_imp_le)
  obtain dd fr where e: "EncodeRegionsInto h docs freqs base hp = Inr (dd, raw_meta dd, fr, if hp then raw_meta fr else default_region_meta)"
    "decode_dd_region ?z dd (raw_meta dd) base = Inr docs"
    "hp \<longrightarrow> decode_freq_region ?z fr (raw_meta fr) (length docs) = Inr freqs" "\<not> hp \<longrightarrow> fr = []"
    "length dd + length fr \<le> 24 + 30 * length docs"
    by (rule encode_regions_ok [OF z srt(1,3) ok(4,3), of hp])
  have cost: "length dd + length fr + region_cost wins \<le> region_cost (w # wins)"
    using e(5) by (simp add: w region_cost_def)
  then have sm: "length (D0 @ dd) + length (F0 @ fr) + region_cost wins < 2 ^ 63" using Cons.prems(5) by simp
  define m' where "m' = snd (LayoutWindowRegions (raw_meta dd) dd (if hp then raw_meta fr else default_region_meta) fr hp (D0, F0) m)"
  have lay: "LayoutWindowRegions (raw_meta dd) dd (if hp then raw_meta fr else default_region_meta) fr hp (D0, F0) m =
      ((D0 @ dd, F0 @ fr), m')"
    using e(4) by (cases hp) (simp_all add: LayoutWindowRegions_def m'_def)
  have m': "wm_last_docid m' = last docs" "wm_doc_count m' = wm_doc_count m" "wm_verify_crc m' = wm_verify_crc m"
    "wm_prx_off m' = wm_prx_off m" "wm_prx_len m' = wm_prx_len m" "window_dd_meta m' = raw_meta dd"
    "wm_dd_off m' = of_nat (length D0)" "hp \<Longrightarrow> window_freq_meta m' = raw_meta fr \<and> wm_freq_off m' = of_nat (length F0)"
    using m by (simp_all add: m'_def LayoutWindowRegions_def window_dd_meta_def window_freq_meta_def)
  obtain ms' D F where r: "region_pass h hp wins ms0 (ucast (last docs)) (D0 @ dd, F0 @ fr) = Inr (ms', (D0 @ dd) @ D, (F0 @ fr) @ F)"
    "prx_laid ?z hp (px + length p) ms' (window_chunks wins ?ps) P'"
    "regions_laid ?z hp (ucast (last docs)) (length (D0 @ dd)) (length (F0 @ fr)) ms' (window_chunks wins ?ps) D F"
    "length D + length F \<le> region_cost wins"
    using Cons.IH [OF ok(1) srt(2) next_base pl(2) sm] by blast
  show ?case
  proof (rule exI [of _ "m' # ms'"], rule exI [of _ "dd @ D"], rule exI [of _ "fr @ F"], intro conjI)
    show "region_pass h hp (w # wins) ms base (D0, F0) = Inr (m' # ms', D0 @ dd @ D, F0 @ fr @ F)"
      using r(1) by (simp add: w ms e(1) lay m'(1) Let_def)
    show "prx_laid ?z hp px (m' # ms') (window_chunks (w # wins) ps) P"
      using r(2) m m' pl(1) by (auto simp: w)
    have "window_regions ?z hp base m' ?c dd fr" using e m' sm by (auto simp: window_regions_def)
    moreover have "unat (wm_dd_off m') = length D0" "hp \<longrightarrow> unat (wm_freq_off m') = length F0" using m' sm by auto
    ultimately show "regions_laid ?z hp base (length D0) (length F0) (m' # ms') (window_chunks (w # wins) ps) (dd @ D) (fr @ F)"
      using r(3) by (auto simp: w)
    show "length (dd @ D) + length (fr @ F) \<le> region_cost (w # wins)" using cost r(4) by simp
  qed
qed

subsection \<open>A written posting is a stored posting\<close>

lemma laid_tiled:
  "regions_laid z hp base dd fr ms cs D F \<Longrightarrow> dd + length D < 2 ^ 64 \<Longrightarrow> fr + length F < 2 ^ 64 \<Longrightarrow>
   tiled hp dd fr ms \<and> dd_bytes ms = length D \<and> freq_bytes hp ms = length F"
proof (induction z hp base dd fr ms cs D F rule: regions_laid.induct)
  case (2 z hp base dd fr m ms c cs D F)
  then obtain d D' f F' where s: "D = d @ D'" "F = f @ F'" and w: "window_regions z hp base m c d f"
    and o: "unat (wm_dd_off m) = dd" "hp \<longrightarrow> unat (wm_freq_off m) = fr"
    and r: "regions_laid z hp (ucast (last (ck_docs c))) (dd + length d) (fr + length f) ms cs D' F'" by auto
  have IH: "tiled hp (dd + length d) (fr + length f) ms" "dd_bytes ms = length D'" "freq_bytes hp ms = length F'"
    using "2.IH" [OF r] "2.prems"(2,3) by (simp_all add: s)
  have m: "unat (wm_dd_disk_len m) = length d" "wm_dd_disk_len m = wm_dd_uncomp_len m"
    "hp \<longrightarrow> unat (wm_freq_disk_len m) = length f" "\<not> hp \<longrightarrow> f = []"
    using w by (auto simp: window_regions_def window_dd_meta_def window_freq_meta_def)
  with IH o s show ?case by (cases hp) (simp_all add: dd_bytes_def freq_bytes_def)
qed (auto simp: dd_bytes_def freq_bytes_def)

definition holds_at :: "byte list \<Rightarrow> nat \<Rightarrow> byte list \<Rightarrow> bool" where
  "holds_at contents off bs = prefix bs (drop off contents)"

lemma holds_at_append: "holds_at contents off (a @ b) \<longleftrightarrow> holds_at contents off a \<and> holds_at contents (off + length a) b"
  by (auto simp: holds_at_def prefix_def drop_drop [symmetric] add.commute [of off] simp del: drop_drop)

lemma holds_at_seg: "holds_at contents off bs \<Longrightarrow> seg contents off (length bs) = bs"
  by (auto simp: holds_at_def seg_def prefix_def)

lemma window_metas_stored:
  "wm_verify_crc m \<Longrightarrow> window_dd_meta (stored_window hp hp base m) = window_dd_meta m"
  "wm_verify_crc m \<Longrightarrow> window_freq_meta (stored_window True hp base m) = window_freq_meta m"
  by (simp_all add: window_dd_meta_def window_freq_meta_def stored_window_def)

lemma laid_stored:
  "regions_laid z hp base dd fr ms cs D F \<Longrightarrow> prx_laid z hp px ms cs P \<Longrightarrow> \<forall>c \<in> set cs. ck_docs c \<noteq> [] \<Longrightarrow>
   holds_at contents (dd0 + dd) D \<Longrightarrow> holds_at contents (fr0 + fr) F \<Longrightarrow> (hp \<longrightarrow> holds_at contents (px0 + px) P) \<Longrightarrow>
   px + length P \<le> pn \<Longrightarrow>
   list_all2 (window_stored z contents dd0 fr0 px0 pn hp hp) (stored_windows hp hp base ms) cs"
proof (induction z hp base dd fr ms cs D F arbitrary: px P rule: regions_laid.induct)
  case (2 z hp base dd fr m ms c cs D F)
  obtain d D' f F' where s: "D = d @ D'" "F = f @ F'" and w: "window_regions z hp base m c d f"
    and o: "unat (wm_dd_off m) = dd" "hp \<longrightarrow> unat (wm_freq_off m) = fr"
    and r: "regions_laid z hp (ucast (last (ck_docs c))) (dd + length d) (fr + length f) ms cs D' F'"
    using "2.prems"(1) by auto
  obtain p P' where p: "P = p @ P'" and m: "wm_last_docid m = last (ck_docs c)" "unat (wm_doc_count m) = length (ck_docs c)" "wm_verify_crc m"
    and px: "hp \<longrightarrow> unat (wm_prx_off m) = px \<and> unat (wm_prx_len m) = length p \<and> prx_stored z p c"
    and pl: "prx_laid z hp (px + length p) ms cs P'" using "2.prems"(2) by auto
  have IH: "list_all2 (window_stored z contents dd0 fr0 px0 pn hp hp) (stored_windows hp hp (ucast (last (ck_docs c))) ms) cs"
    using "2.prems" by (intro "2.IH" [OF r pl]) (auto simp: s p holds_at_append add.assoc)
  have h: "seg contents (dd0 + dd) (length d) = d" "seg contents (fr0 + fr) (length f) = f"
    "hp \<longrightarrow> seg contents (px0 + px) (length p) = p"
    using "2.prems"(4,5,6) by (auto simp: s p holds_at_append holds_at_seg)
  have dm: "window_dd_meta m = raw_meta d" "length d < 2 ^ 64" "decode_dd_region z d (raw_meta d) base = Inr (ck_docs c)"
    using w by (simp_all add: window_regions_def)
  then have dl: "unat (wm_dd_disk_len m) = length d" by (simp add: window_dd_meta_def)
  have fm: "window_freq_meta m = raw_meta f" "unat (wm_freq_disk_len m) = length f"
    "decode_freq_region z f (raw_meta f) (length (ck_docs c)) = Inr (ck_freqs c)" if hp
    using w that by (auto simp: window_regions_def window_freq_meta_def)
  have dd_off: "unat (wm_dd_off (stored_window hp hp base m)) = dd" "unat (wm_dd_disk_len (stored_window hp hp base m)) = length d"
    using o(1) dl by (simp_all add: stored_window_def)
  have "window_stored z contents dd0 fr0 px0 pn hp hp (stored_window hp hp base m) c"
  proof (cases hp)
    case True
    with dd_off dm fm h o px m "2.prems"(3,7) show ?thesis
      by (simp add: window_stored_def window_metas_stored p) (simp add: stored_window_def)
  next
    case False
    with dd_off dm h m "2.prems"(3) window_metas_stored(1) [OF m(3), of hp base] show ?thesis
      by (simp add: window_stored_def) (simp add: stored_window_def)
  qed
  with IH m(1) show ?case by simp
qed auto

subsection \<open>Valid terms\<close>

definition term_positions :: "term_postings \<Rightarrow> u32 list" where
  "term_positions tp = (case tp_pos_pump tp of None \<Rightarrow> tp_positions_flat tp | Some ps \<Rightarrow> ps)"

definition windowed_term :: "term_postings \<Rightarrow> bool" where
  "windowed_term tp = (length (tp_docids tp) \<ge> kSlimDfThreshold)"

definition window_unit :: "term_postings \<Rightarrow> nat" where
  "window_unit tp = AdaptiveWindowDocs (of_nat (length (tp_docids tp)))"

definition term_windows :: "term_postings \<Rightarrow> window_docs list" where
  "term_windows tp =
     (if windowed_term tp then zip (chunks (window_unit tp) (tp_docids tp)) (chunks (window_unit tp) (tp_freqs tp))
      else [(tp_docids tp, tp_freqs tp)])"

definition term_chunks :: "term_postings \<Rightarrow> chunk list" where
  "term_chunks tp = window_chunks (term_windows tp) (term_positions tp)"

text \<open>The terms an index accepts and can read back: documents strictly ascending, with a frequency each; for an
  index with positions, as many as the frequencies say, ascending in each document, at most \<open>2^20\<close> of them in
  a window. A pump is only given for the postings that are cut into windows. Terms have at most
  \<open>2^20\<close> bytes.\<close>

definition term_ok :: "bool \<Rightarrow> term_postings \<Rightarrow> bool" where
  "term_ok hp tp =
     (length (tp_freqs tp) = length (tp_docids tp) \<and> sorted_wrt (<) (tp_docids tp) \<and>
      length (tp_docids tp) < 2 ^ 32 \<and> length (tp_term tp) \<le> 2 ^ 20 \<and>
      (hp \<longrightarrow> positions_fit (term_windows tp) (term_positions tp) \<and>
        (tp_pos_pump tp \<noteq> None \<longrightarrow> windowed_term tp \<and> tp_pos_total tp = of_nat (length (term_positions tp)))))"

definition term_weight :: "bool \<Rightarrow> term_postings \<Rightarrow> nat" where
  "term_weight hp tp =
     1 + length (tp_term tp) + length (tp_docids tp) + (if hp then length (term_positions tp) else 0)"

lemma window_unit_bounds: "0 < window_unit tp" "window_unit tp \<le> 1024"
  by (simp_all add: window_unit_def AdaptiveWindowDocs_def kAdaptiveWindowDocs_def kFrqBaseUnit_def)

lemma zip_chunks:
  assumes u: "0 < u" "u \<le> 1024" and l: "length fs = length ds"
  shows "win_docs (zip (chunks u ds) (chunks u fs)) = ds" and "win_freqs (zip (chunks u ds) (chunks u fs)) = fs"
    and "windows_ok (zip (chunks u ds) (chunks u fs))"
proof -
  have n: "length (chunks u fs) = length (chunks u ds)" using l by (simp add: chunks_length [OF u(1)])
  show "win_docs (zip (chunks u ds) (chunks u fs)) = ds" "win_freqs (zip (chunks u ds) (chunks u fs)) = fs"
    using u(1) n by (simp_all add: win_docs_def win_freqs_def)
  have "length (chunks u fs ! i) = length (chunks u ds ! i)" "length (chunks u ds ! i) \<le> 1024" "chunks u ds ! i \<noteq> []"
    if i: "i < length (chunks u ds)" for i
  proof -
    show "length (chunks u fs ! i) = length (chunks u ds ! i)" "length (chunks u ds ! i) \<le> 1024"
      using i n l u by (simp_all add: chunks_nth [OF u(1)])
    show "chunks u ds ! i \<noteq> []" using i chunks_nonempty [of _ u ds] by (metis nth_mem)
  qed
  then show "windows_ok (zip (chunks u ds) (chunks u fs))" using n by (auto simp: windows_ok_def set_zip)
qed

lemma term_windows_facts:
  assumes "length (tp_freqs tp) = length (tp_docids tp)"
  shows "win_docs (term_windows tp) = tp_docids tp" "win_freqs (term_windows tp) = tp_freqs tp"
    and "windowed_term tp \<Longrightarrow> windows_ok (term_windows tp)"
  using zip_chunks [OF window_unit_bounds assms] by (auto simp: term_windows_def)

lemma term_chunks_docs: "length (tp_freqs tp) = length (tp_docids tp) \<Longrightarrow> posting_docs (term_chunks tp) = tp_docids tp"
  by (simp add: term_chunks_def window_chunks_docs term_windows_facts)

lemma term_chunks_poss:
  "length (tp_freqs tp) = length (tp_docids tp) \<Longrightarrow>
   concat (map ck_poss (term_chunks tp)) = cut_by (tp_freqs tp) (term_positions tp)"
  by (simp add: term_chunks_def window_chunks_poss term_windows_facts)

subsection \<open>Windowed postings\<close>

lemma BuildWindowedPosting_ok:
  assumes z: "zstd_spec (host_zstd h)" and wr: "host_writes h" and ok: "term_ok hp tp" and wd: "windowed_term tp"
    and wt: "512 * term_weight hp tp < 2 ^ 62"
  obtains ms P D F where
    "BuildWindowedPosting h tp hp hp norms out =
       Inr (\<lparr>wdp_dd_block = D, wdp_freq_block = F, wdp_prx_total_len = of_nat (length P), wdp_windows = ms\<rparr>, out @ P)"
    and "prx_laid (host_zstd h) hp 0 ms (term_chunks tp) P" and "regions_laid (host_zstd h) hp 0 0 0 ms (term_chunks tp) D F"
    and "length P + length D + length F + 300 * length (tp_docids tp) \<le> 512 * length (tp_docids tp) + (if hp then 15 * length (term_positions tp) else 0)"
    and "\<not> hp \<longrightarrow> P = []"
proof -
  let ?z = "host_zstd h" and ?wins = "term_windows tp"
  let ?src = "case tp_pos_pump tp of None \<Rightarrow> Flat_Positions (tp_positions_flat tp) | Some s \<Rightarrow> Pumped s"
  have len: "length (tp_freqs tp) = length (tp_docids tp)" and srt: "sorted_wrt (<) (tp_docids tp)"
    and fit: "hp \<Longrightarrow> positions_fit ?wins (term_positions tp)" using ok by (simp_all add: term_ok_def)
  note w = term_windows_facts [OF len]
  have wok: "windows_ok ?wins" by (rule w(3) [OF wd])
  have nw: "length ?wins \<le> length (tp_docids tp)" using length_windows_le [OF wok] by (simp add: w)
  have left: "pos_left ?src 0 = term_positions tp" "pos_in ?src 0"
    by (simp_all add: term_positions_def split: option.splits)
  have fs: "hp \<Longrightarrow> freq_sum (tp_freqs tp) = length (term_positions tp)" using fit by (simp add: positions_fit_def w)
  have pc: "hp \<Longrightarrow> prx_cost ?wins \<le> 79 * length (tp_docids tp) + 15 * length (term_positions tp)"
    using nw fs len by (simp add: prx_cost_def w)
  have rc: "region_cost ?wins \<le> 54 * length (tp_docids tp)" using nw by (simp add: region_cost_def w)
  have wt': "512 * length (tp_docids tp) + (if hp then 512 * length (term_positions tp) else 0) < 2 ^ 62"
    using wt by (simp add: term_weight_def split: if_splits)
  have "hp \<longrightarrow> pos_in ?src 0 \<and> positions_fit ?wins (pos_left ?src 0) \<and> 0 + prx_cost ?wins < 2 ^ 63"
    using fit left pc wt' by auto
  moreover have "(if hp then pos_left ?src 0 else term_positions tp) = term_positions tp" by (simp only: left(1) if_cancel)
  ultimately obtain ms0 P where
    p: "prx_pass h hp norms ?wins ?src 0 0 0 out = Inr (ms0, of_nat (length P), out @ P)"
      "prx_laid ?z hp 0 ms0 (term_chunks tp) P" "if hp then length P \<le> prx_cost ?wins else P = []"
    using prx_pass_ok [OF z wr wok, of hp ?src 0 0 norms 0 out "term_positions tp"] by (auto simp: term_chunks_def)
  have "length ([] :: byte list) + length ([] :: byte list) + region_cost ?wins < 2 ^ 63" using rc wt' by (auto split: if_splits)
  from region_pass_ok [OF z wok _ _ p(2) [unfolded term_chunks_def] this, of 0] obtain ms D F where
    r: "region_pass h hp ?wins ms0 0 ([], []) = Inr (ms, D, F)" "prx_laid ?z hp 0 ms (term_chunks tp) P"
      "regions_laid ?z hp 0 0 0 ms (term_chunks tp) D F" "length D + length F \<le> region_cost ?wins"
    using srt by (auto simp: w term_chunks_def)
  have "BuildWindowedPosting h tp hp hp norms out =
      Inr (\<lparr>wdp_dd_block = D, wdp_freq_block = F, wdp_prx_total_len = of_nat (length P), wdp_windows = ms\<rparr>, out @ P)"
    using p(1) r(1) wd unfolding term_windows_def window_unit_def BuildWindowedPosting_def Let_def by simp
  then show ?thesis
    by (rule that [OF _ r(2,3)]) (use p(3) r(4) pc rc in \<open>auto split: if_splits\<close>)
qed

text \<open>The entry \<open>e\<close>, with bases \<open>base\<close>, stores the chunks in every file that begins with what was written, when
  its posting region starts at \<open>off0\<close> and reaches at least as far.\<close>

definition entry_written ::
  "zstd_lib \<Rightarrow> bool \<Rightarrow> index_tier \<Rightarrow> nat \<Rightarrow> byte list \<Rightarrow> dict_entry \<Rightarrow> u64 \<Rightarrow> chunk list \<Rightarrow> bool" where
  "entry_written z hp tier off0 out e base cs =
     (\<forall>contents region. prefix out contents \<and> length contents < 2 ^ 64 \<and> unat (rr_offset region) = off0 \<and>
        length out \<le> off0 + unat (rr_length region) \<and> off0 + unat (rr_length region) \<le> length contents \<longrightarrow>
        posting_stored z contents region hp hp (stored_entry tier e) base (if hp then base else 0) cs)"

lemma entry_written_prefix:
  assumes "entry_written z hp tier off0 out e base cs" and p: "prefix out out'"
  shows "entry_written z hp tier off0 out' e base cs"
  unfolding entry_written_def
proof (intro allI impI, elim conjE)
  fix contents and region :: region_ref
  assume c: "prefix out' contents" "length contents < 2 ^ 64" "unat (rr_offset region) = off0"
    "length out' \<le> off0 + unat (rr_length region)" "off0 + unat (rr_length region) \<le> length contents"
  have "prefix out contents" using p c(1) by (rule prefix_order.trans)
  moreover have "length out \<le> off0 + unat (rr_length region)" using prefix_length_le [OF p] c(4) by (rule order.trans)
  ultimately show "posting_stored z contents region hp hp (stored_entry tier e) base (if hp then base else 0) cs"
    using assms(1) c unfolding entry_written_def by blast
qed

lemma posting_size_out [simp]: "posting_size (w\<lparr>lw_posting_out := out\<rparr>) = of_nat (length out) - lw_posting_off0 w"
  by (simp add: posting_size_def fw_bytes_written_def)

lemma posting_append_ok [simp]:
  "host_writes h \<Longrightarrow> posting_append h data w = Inr (w\<lparr>lw_posting_out := lw_posting_out w @ data\<rparr>)"
  by (simp add: posting_append_def)

text \<open>Differences of positions in the file.\<close>

lemma posting_delta:
  fixes off base :: u64
  assumes "unat off + unat base \<le> n" and "n < 2 ^ 64"
  shows "unat (of_nat n - off - base) = n - unat off - unat base"
proof -
  have "of_nat n - off - base = of_nat n - (off + base)" by simp
  moreover have u: "unat (off + base) = unat off + unat base" using assms by (simp add: unat_word_ariths(1))
  moreover have "off + base \<le> of_nat n" using assms by (simp add: word_le_nat_alt u)
  ultimately show ?thesis using assms by (simp only: unat_sub) (simp add: u)
qed

lemma length_difference: "(of_nat (n + k) :: u64) - off - (of_nat n - off) = of_nat k"
  by simp

lemma stored_windowed:
  assumes "de_kind e = kPodRef" and "de_enc e = kWindowed" and "tier_has_stats tier = hp"
  shows "de_kind (stored_entry tier e) = kPodRef" "de_enc (stored_entry tier e) = kWindowed"
    "de_frq_off_delta (stored_entry tier e) = de_frq_off_delta e" "de_frq_len (stored_entry tier e) = de_frq_len e"
    "de_prelude_len (stored_entry tier e) = de_prelude_len e"
    "hp \<Longrightarrow> de_prx_off_delta (stored_entry tier e) = de_prx_off_delta e" "hp \<Longrightarrow> de_prx_len (stored_entry tier e) = de_prx_len e"
  using assms by (cases hp; simp add: stored_entry_def stored_pod_ref_def stored_key_def)+

lemma windowed_written:
  fixes e :: dict_entry
  assumes l: "prx_laid z hp 0 ms cs P" "regions_laid z hp 0 0 0 ms cs D F"
    and ck: "\<forall>c \<in> set cs. ck_docs c \<noteq> []" "sorted_wrt (<) (posting_docs cs)"
    and pre: "prelude_ok cols" "cols = \<lparr>fpc_has_freq = hp, fpc_has_prx = hp, fpc_group_size = kPreludeGroupSize, fpc_windows = ms\<rparr>"
    and e: "de_kind e = kPodRef" "de_enc e = kWindowed" "de_prelude_len e = of_nat (length (prelude_bytes cols))"
      "de_frq_off_delta e = of_nat (length (out @ P)) - off - base"
      "de_frq_len e = of_nat (length (prelude_bytes cols @ D @ F))"
      "hp \<Longrightarrow> de_prx_off_delta e = of_nat (length out) - off - base" "hp \<Longrightarrow> de_prx_len e = of_nat (length P)"
    and tier: "tier_has_stats tier = hp" and off: "unat off + unat base \<le> length out"
    and len: "length (out @ P @ prelude_bytes cols @ D @ F) < 2 ^ 63"
    and np: "\<not> hp \<longrightarrow> P = []"
  shows "entry_written z hp tier (unat off) (out @ P @ prelude_bytes cols @ D @ F) e base cs"
  unfolding entry_written_def
proof (intro allI impI, elim conjE)
  fix contents and region :: region_ref
  assume pf: "prefix (out @ P @ prelude_bytes cols @ D @ F) contents" and "length contents < 2 ^ 64"
    and R: "unat (rr_offset region) = unat off" "length (out @ P @ prelude_bytes cols @ D @ F) \<le> unat off + unat (rr_length region)"
      "unat off + unat (rr_length region) \<le> length contents"
  let ?e = "stored_entry tier e" and ?n = "length (prelude_bytes cols)"
  note st = stored_windowed [OF e(1,2) tier]
  obtain r where r: "contents = out @ P @ prelude_bytes cols @ D @ F @ r" using pf by (auto simp: prefix_def)
  have fo: "unat (de_frq_off_delta ?e) = length out + length P - unat off - unat base"
    using posting_delta [of off base "length (out @ P)"] off len by (simp add: st e(4))
  have fl: "unat (de_frq_len ?e) = ?n + length D + length F" using len by (simp add: st e(5) del: of_nat_add)
  have pl: "unat (de_prelude_len ?e) = ?n" using len by (simp add: st e(3))
  have po: "unat (de_prx_off_delta ?e) = length out - unat off - unat base" "unat (de_prx_len ?e) = length P" if hp
    using posting_delta [of off base "length out"] off len e(6,7) that by (simp_all add: st)
  have t: "tiled hp 0 0 ms" "dd_bytes ms = length D" "freq_bytes hp ms = length F"
    using laid_tiled [OF l(2)] len by simp_all
  have s: "unat (rr_offset region) + unat base + unat (de_frq_off_delta ?e) = length out + length P"
    using off by (simp add: fo R(1))
  have px: "unat (rr_offset region) + unat base + unat (de_prx_off_delta ?e) = length out" if hp
    using off po that by (simp add: R(1))
  have ws: "list_all2 (window_stored z contents (length out + length P + ?n) (length out + length P + ?n + length D)
      (unat (rr_offset region) + unat (if hp then base else 0) + unat (de_prx_off_delta ?e)) (unat (de_prx_len ?e)) hp hp)
      (stored_windows hp hp 0 ms) cs"
    by (rule laid_stored [OF l(2,1) ck(1)]) (use px po np in \<open>auto simp: r holds_at_def\<close>)
  have "windowed_stored z contents region hp hp ?e base (if hp then base else 0) cols cs"
    unfolding windowed_stored_def Let_def s
  proof (intro conjI)
    show "0 < ?n" by (simp add: prelude_bytes_def Let_def header_bytes_def)
    show "region_in contents region (unat base + unat (de_frq_off_delta ?e)) (unat (de_frq_len ?e))"
      using R off by (simp add: region_in_def fo fl)
    show "hp \<longrightarrow> region_in contents region (unat (if hp then base else 0) + unat (de_prx_off_delta ?e)) (unat (de_prx_len ?e))"
      using R off po by (auto simp: region_in_def)
    show "seg contents (length out + length P) ?n = prelude_bytes cols" by (simp add: r seg_def)
  qed (use pre t fl pl ws in simp_all)
  then show "posting_stored z contents region hp hp ?e base (if hp then base else 0) cs"
    using ck(2) by (auto simp: posting_stored_def st posting_docs_def)
qed

lemma prx_laid_last_docids:
  "prx_laid z hp px ms cs P \<Longrightarrow> length ms = length cs \<and> map wm_last_docid ms = map (last \<circ> ck_docs) cs"
  by (induction z hp px ms cs P rule: prx_laid.induct) auto

lemma sorted_last_docs:
  assumes "sorted_wrt (<) (concat xss)" and "\<forall>xs \<in> set xss. xs \<noteq> []"
  shows "sorted (map last xss :: u32 list)"
  using assms
proof (induction xss)
  case (Cons xs xss)
  then have "\<forall>ys \<in> set xss. last xs < last ys" by (auto simp: sorted_wrt_append)
  with Cons show ?case by (auto simp: sorted_wrt_append intro: less_imp_le)
qed simp

lemma term_chunks_nonempty: "windows_ok (term_windows tp) \<Longrightarrow> \<forall>c \<in> set (term_chunks tp). ck_docs c \<noteq> []"
proof -
  have "windows_ok wins \<Longrightarrow> \<forall>c \<in> set (window_chunks wins ps). ck_docs c \<noteq> []" for wins ps
    by (induction wins ps rule: window_chunks.induct) auto
  then show "windows_ok (term_windows tp) \<Longrightarrow> ?thesis" by (simp add: term_chunks_def)
qed

lemma length_term_chunks: "length (term_chunks tp) = length (term_windows tp)"
proof -
  have "length (window_chunks wins ps) = length wins" for wins ps
    by (induction wins ps rule: window_chunks.induct) auto
  then show ?thesis by (simp add: term_chunks_def)
qed

lemma length_term_windows:
  assumes "windowed_term tp" and "length (tp_freqs tp) = length (tp_docids tp)" and "length (tp_docids tp) < 2 ^ 32"
  shows "length (term_windows tp) \<le> 2 ^ 24"
proof -
  have "length (chunks (window_unit tp) xs) \<le> 2 ^ 24" if "length xs < 2 ^ 32" for xs :: "u32 list"
  proof -
    have u: "256 \<le> window_unit tp"
      by (simp add: window_unit_def AdaptiveWindowDocs_def kAdaptiveWindowDocs_def kFrqBaseUnit_def)
    have "\<not> 2 ^ 24 * window_unit tp < length xs" using that u by simp
    then have "\<not> 2 ^ 24 < length (chunks (window_unit tp) xs)" unfolding chunks_index [OF window_unit_bounds(1)] .
    then show ?thesis by simp
  qed
  from this [OF assms(3)] show ?thesis using assms(1) by (simp add: term_windows_def)
qed

lemma BuildPrelude_ok:
  assumes ok: "term_ok hp tp" and wd: "windowed_term tp" and l: "prx_laid z hp 0 ms (term_chunks tp) P"
    and cols: "cols = \<lparr>fpc_has_freq = hp, fpc_has_prx = hp, fpc_group_size = kPreludeGroupSize, fpc_windows = ms\<rparr>"
  shows "BuildPrelude ms hp hp = Inr (prelude_bytes cols)" and "prelude_ok cols"
    and "length (prelude_bytes cols) \<le> 45 + 150 * length (tp_docids tp)"
proof -
  have len: "length (tp_freqs tp) = length (tp_docids tp)" "length (tp_docids tp) < 2 ^ 32" and srt: "sorted_wrt (<) (tp_docids tp)"
    using ok by (simp_all add: term_ok_def)
  note w = term_windows_facts [OF len(1)]
  note ll = prx_laid_last_docids [OF l]
  have n: "length ms = length (term_windows tp)" using ll by (simp add: length_term_chunks)
  have "sorted (map last (map ck_docs (term_chunks tp)))"
    by (rule sorted_last_docs) (use srt term_chunks_docs [OF len(1)] term_chunks_nonempty [OF w(3) [OF wd]] in \<open>auto simp: posting_docs_def\<close>)
  then show p: "prelude_ok cols"
    using ll n length_term_windows [OF wd len] by (simp add: prelude_ok_def cols kPreludeGroupSize_def)
  then show "BuildPrelude ms hp hp = Inr (prelude_bytes cols)"
    using build_frq_prelude_Inr [of cols "[]" "prelude_bytes cols"] by (simp add: BuildPrelude_def cols)
  have "length ms \<le> length (tp_docids tp)" using length_windows_le [OF w(3) [OF wd]] by (simp add: n w)
  then show "length (prelude_bytes cols) \<le> 45 + 150 * length (tp_docids tp)"
    using length_prelude_bytes [OF p] by (simp add: cols)
qed

text \<open>Every entry the writer makes for a term: what the client of \<open>build_entry\<close> relies on.\<close>

definition entry_made :: "host \<Rightarrow> bool \<Rightarrow> index_tier \<Rightarrow> term_postings \<Rightarrow> u64 \<Rightarrow> u64 \<Rightarrow> byte list \<Rightarrow> dict_entry \<Rightarrow> byte list \<Rightarrow> bool" where
  "entry_made h hp tier tp off base out e ext =
     (de_term e = tp_term tp \<and> entry_fits tier e \<and> length ext \<le> 512 * term_weight hp tp \<and> entry_size_bound e \<le> 512 * term_weight hp tp \<and>
      entry_written (host_zstd h) hp tier (unat off) (out @ ext) e base (term_chunks tp) \<and>
      (if de_kind e = kInline then length (de_frq_bytes e) \<le> 256 \<and> length (de_prx_bytes e) \<le> 2 ^ 24
       else de_frq_bytes e = [] \<and> de_prx_bytes e = []))"

lemma build_windowed_entry_ok:
  assumes z: "zstd_spec (host_zstd h)" and wr: "host_writes h" and ok: "term_ok hp tp" and wd: "windowed_term tp"
    and w: "lw_has_freq w = hp" "lw_has_prx w = hp" and tier: "tier_has_stats tier = hp"
    and off: "unat (lw_posting_off0 w) + unat base \<le> length (lw_posting_out w)"
    and len: "length (lw_posting_out w) + 512 * term_weight hp tp < 2 ^ 62"
    and e0: "de_term e0 = tp_term tp" "de_frq_bytes e0 = []" "de_prx_bytes e0 = []"
  obtains e ext where "build_windowed_entry h tp base base e0 w = Inr (e, w\<lparr>lw_posting_out := lw_posting_out w @ ext\<rparr>)"
    and "entry_made h hp tier tp (lw_posting_off0 w) base (lw_posting_out w) e ext"
proof -
  let ?z = "host_zstd h" and ?out = "lw_posting_out w" and ?off = "lw_posting_off0 w"
  obtain ms P D F where b: "BuildWindowedPosting h tp hp hp (lw_encoded_norms w) ?out =
       Inr (\<lparr>wdp_dd_block = D, wdp_freq_block = F, wdp_prx_total_len = of_nat (length P), wdp_windows = ms\<rparr>, ?out @ P)"
    and l: "prx_laid ?z hp 0 ms (term_chunks tp) P" "regions_laid ?z hp 0 0 0 ms (term_chunks tp) D F"
    and sz: "length P + length D + length F + 300 * length (tp_docids tp) \<le> 512 * length (tp_docids tp) + (if hp then 15 * length (term_positions tp) else 0)"
    and np: "\<not> hp \<longrightarrow> P = []"
    by (rule BuildWindowedPosting_ok [OF z wr ok wd]) (use len in linarith)
  define cols where "cols = \<lparr>fpc_has_freq = hp, fpc_has_prx = hp, fpc_group_size = kPreludeGroupSize, fpc_windows = ms\<rparr>"
  note pre = BuildPrelude_ok [OF ok wd l(1) cols_def]
  let ?p = "prelude_bytes cols"
  define ext where "ext = P @ ?p @ D @ F"
  have ext: "length ext \<le> 512 * term_weight hp tp"
    using sz pre(3) by (simp add: ext_def term_weight_def split: if_splits)
  define e where "e = (let e = e0\<lparr>de_kind := kPodRef, de_enc := kWindowed, de_has_sb := True, de_prelude_len := of_nat (length ?p),
      de_frq_docs_len := of_nat (length ?p) + of_nat (length D), de_frq_off_delta := of_nat (length (?out @ P)) - ?off - base,
      de_frq_len := of_nat (length (?p @ D @ F))\<rparr>
    in if hp then e\<lparr>de_prx_off_delta := of_nat (length ?out) - ?off - base, de_prx_len := of_nat (length P)\<rparr> else e)"
  have e: "de_kind e = kPodRef" "de_enc e = kWindowed" "de_prelude_len e = of_nat (length ?p)"
    "de_frq_off_delta e = of_nat (length (?out @ P)) - ?off - base" "de_frq_len e = of_nat (length (?p @ D @ F))"
    "hp \<Longrightarrow> de_prx_off_delta e = of_nat (length ?out) - ?off - base" "hp \<Longrightarrow> de_prx_len e = of_nat (length P)"
    "de_term e = tp_term tp" "de_frq_bytes e = []" "de_prx_bytes e = []"
    using e0 by (simp_all add: e_def Let_def)
  have run: "build_windowed_entry h tp base base e0 w = Inr (e, w\<lparr>lw_posting_out := ?out @ ext\<rparr>)"
    using wr w by (simp add: build_windowed_entry_def b pre(1) Let_def ext_def e_def posting_size_def fw_bytes_written_def
        add.assoc diff_diff_eq)
  have dl: "length (tp_freqs tp) = length (tp_docids tp)" "sorted_wrt (<) (tp_docids tp)" using ok by (simp_all add: term_ok_def)
  have "entry_written ?z hp tier (unat ?off) (?out @ P @ ?p @ D @ F) e base (term_chunks tp)"
    by (rule windowed_written [OF l _ _ pre(2) cols_def e(1-7) tier off _ np])
      (use term_chunks_nonempty term_windows_facts(3) [OF dl(1) wd] dl term_chunks_docs [OF dl(1)] ext len in \<open>auto simp: ext_def\<close>)
  with e ext ok show ?thesis
    by (intro that [OF run]) (simp add: entry_made_def entry_fits_def term_ok_def ext_def entry_size_bound_def term_weight_def)
qed

subsection \<open>Slim and inline postings\<close>

lemma slim_chunk:
  assumes "term_ok hp tp" and "\<not> windowed_term tp"
  shows "length (tp_docids tp) \<le> 1024" and "sorted (tp_docids tp)"
    and "term_chunks tp = [\<lparr>ck_docs = tp_docids tp, ck_freqs = tp_freqs tp, ck_poss = cut_by (tp_freqs tp) (term_positions tp)\<rparr>]"
    and "hp \<Longrightarrow> term_positions tp = tp_positions_flat tp \<and> positions_fit [(tp_docids tp, tp_freqs tp)] (tp_positions_flat tp)"
  using assms by (auto simp: term_ok_def windowed_term_def kSlimDfThreshold_def term_chunks_def term_windows_def term_positions_def
      intro: strict_sorted_imp_sorted split: option.splits)

lemma slim_prx:
  assumes z: "zstd_spec (host_zstd h)" and ok: "term_ok hp tp" and sl: "\<not> windowed_term tp"
  obtains p where "(if hp then MakePrxWindow h (tp_positions_flat tp) (tp_freqs tp) else Inr []) = Inr p"
    and "hp \<longrightarrow> prx_stored (host_zstd h) p (hd (term_chunks tp))" and "\<not> hp \<longrightarrow> p = []"
    and "length p \<le> (if hp then 64 + 15 * (length (tp_docids tp) + length (term_positions tp)) else 0)" and "length p \<le> 2 ^ 24"
proof (cases hp)
  case False
  then show ?thesis by (intro that [of "[]"]) simp_all
next
  case True
  note c = slim_chunk [OF ok sl]
  let ?ps = "tp_positions_flat tp" and ?fs = "tp_freqs tp"
  have len: "length ?fs = length (tp_docids tp)" using ok by (simp add: term_ok_def)
  have f: "freq_sum ?fs = length ?ps" "length ?ps \<le> 2 ^ 20" "\<forall>doc \<in> set (cut_by ?fs ?ps). sorted doc"
    using c(4) [OF True] by (auto simp: positions_fit_def)
  have d: "length ?fs \<le> 1024" using c(1) len by simp
  obtain bs src where b: "build_prx_window_flat (host_zstd h) ?ps ?fs kAutoZstd [] = Inr bs"
    "read_prx_window (host_zstd h) (source bs) = Inr (cut_by ?fs ?ps, src)" "length bs \<le> 64 + 15 * (length ?fs + length ?ps)"
    by (rule build_prx_ok [OF z f(1) d f(2,3)])
  have "prx_stored (host_zstd h) bs (hd (term_chunks tp))"
    using b(2) f c(4) [OF True] len by (simp add: prx_stored_def c(3) concat_cut_by kMaxWindowPositions_def)
  with True b c len f d show ?thesis by (intro that [of bs]) (simp_all add: MakePrxWindow_def)
qed

lemma slim_written:
  fixes e :: dict_entry
  assumes c: "term_chunks tp = [c]" "ck_docs c = tp_docids tp" "sorted_wrt (<) (tp_docids tp)"
    and d: "decode_dd_region z dd (raw_meta dd) 0 = Inr (tp_docids tp)" "0 < length dd" and p: "hp \<longrightarrow> prx_stored z p c"
    and e: "de_kind e = kPodRef" "de_enc e = kSlim" "de_dd_meta e = raw_meta dd" "de_frq_docs_len e = of_nat (length dd)"
      "de_frq_off_delta e = of_nat (length (out @ p)) - off - base" "de_frq_len e = of_nat (length (dd @ fr))"
      "hp \<Longrightarrow> de_prx_off_delta e = of_nat (length out) - off - base" "hp \<Longrightarrow> de_prx_len e = of_nat (length p)"
    and tier: "tier_has_stats tier = hp" and off: "unat off + unat base \<le> length out" and len: "length (out @ p @ dd @ fr) < 2 ^ 63"
  shows "entry_written z hp tier (unat off) (out @ p @ dd @ fr) e base (term_chunks tp)"
  unfolding entry_written_def
proof (intro allI impI, elim conjE)
  fix contents and region :: region_ref
  assume pf: "prefix (out @ p @ dd @ fr) contents"
    and R: "unat (rr_offset region) = unat off" "length (out @ p @ dd @ fr) \<le> unat off + unat (rr_length region)"
      "unat off + unat (rr_length region) \<le> length contents"
  let ?e = "stored_entry tier e"
  have st: "de_kind ?e = kPodRef" "de_enc ?e = kSlim" "de_dd_meta ?e = raw_meta dd" "de_frq_docs_len ?e = of_nat (length dd)"
    "de_frq_off_delta ?e = de_frq_off_delta e" "de_frq_len ?e = de_frq_len e" "de_prelude_len ?e = 0"
    "hp \<Longrightarrow> de_prx_off_delta ?e = de_prx_off_delta e" "hp \<Longrightarrow> de_prx_len ?e = de_prx_len e"
    using e(1-4) tier
    by (cases hp; simp add: stored_entry_def stored_pod_ref_def stored_key_def stored_regions_def stored_region_def default_dict_entry_def)+
  obtain r where r: "contents = out @ p @ dd @ fr @ r" using pf by (auto simp: prefix_def)
  have fo: "unat (de_frq_off_delta ?e) = length out + length p - unat off - unat base"
    using posting_delta [of off base "length (out @ p)"] off len by (simp add: st e(5))
  have fl: "unat (de_frq_len ?e) = length dd + length fr" "unat (de_frq_docs_len ?e) = length dd"
    using len by (simp_all add: st e(6) del: of_nat_add)
  have po: "unat (de_prx_off_delta ?e) = length out - unat off - unat base" "unat (de_prx_len ?e) = length p" if hp
    using posting_delta [of off base "length out"] off len e(7,8) that by (simp_all add: st)
  have s: "unat (rr_offset region) + unat base + unat (de_frq_off_delta ?e) = length out + length p"
    using off by (simp add: fo R(1))
  have "slim_stored z contents region hp ?e base (if hp then base else 0) c"
    unfolding slim_stored_def s
  proof (intro conjI impI)
    show "0 < de_frq_docs_len ?e" "de_frq_docs_len ?e \<le> de_frq_len ?e"
      using fl d(2) by (simp_all add: word_less_nat_alt word_le_nat_alt)
    show "region_in contents region (unat base + unat (de_frq_off_delta ?e)) (unat (de_frq_len ?e))"
      using R off by (simp add: region_in_def fo fl)
    show "decode_dd_region z (seg contents (length out + length p) (unat (de_frq_docs_len ?e))) (de_dd_meta ?e) 0 = Inr (ck_docs c)"
      using d(1) unfolding fl(2) by (simp add: r seg_def st(3) c(2))
    show "region_in contents region (unat (if hp then base else 0) + unat (de_prx_off_delta ?e)) (unat (de_prx_len ?e))" if hp
      using R off po that by (simp add: region_in_def)
    show "prx_stored z (seg contents (unat (rr_offset region) + unat (if hp then base else 0) + unat (de_prx_off_delta ?e))
        (unat (de_prx_len ?e))) c" if hp
      using p po off that by (simp add: r seg_def R(1))
  qed (simp add: st)
  then show "posting_stored z contents region hp hp ?e base (if hp then base else 0) (term_chunks tp)"
    using c by (simp add: posting_stored_def st)
qed

lemma inline_written:
  fixes e :: dict_entry
  assumes c: "term_chunks tp = [c]" "ck_docs c = tp_docids tp" "sorted_wrt (<) (tp_docids tp)"
    and d: "decode_dd_region z dd (raw_meta dd) 0 = Inr (tp_docids tp)" and p: "hp \<longrightarrow> prx_stored z p c"
    and e: "de_kind e = kInline" "de_dd_meta e = raw_meta dd" "de_inline_dd_disk_len e = of_nat (length dd)"
      "de_frq_bytes e = dd @ fr" "hp \<Longrightarrow> de_prx_bytes e = p"
    and tier: "tier_has_stats tier = hp" and len: "length (dd @ fr) < 2 ^ 63"
  shows "entry_written z hp tier off0 out e base (term_chunks tp)"
proof -
  let ?e = "stored_entry tier e"
  have st: "de_kind ?e = kInline" "de_dd_meta ?e = stored_region False (of_nat (length dd)) (raw_meta dd)"
    "de_frq_bytes ?e = dd @ fr" "hp \<Longrightarrow> de_prx_bytes ?e = p"
    using e tier by (cases hp; simp add: stored_entry_def stored_inline_def stored_key_def stored_regions_def)+
  have "inline_stored z hp ?e c"
    using decode_dd_unchecked [OF d] p len c(2) by (auto simp: inline_stored_def st stored_region_def)
  then show ?thesis using c by (simp add: entry_written_def posting_stored_def st)
qed

lemma build_slim_entry_ok:
  assumes z: "zstd_spec (host_zstd h)" and wr: "host_writes h" and ok: "term_ok hp tp" and sl: "\<not> windowed_term tp"
    and w: "lw_has_freq w = hp" "lw_has_prx w = hp" and tier: "tier_has_stats tier = hp"
    and off: "unat (lw_posting_off0 w) + unat base \<le> length (lw_posting_out w)"
    and len: "length (lw_posting_out w) + 512 * term_weight hp tp < 2 ^ 62"
    and e0: "de_term e0 = tp_term tp" "de_frq_bytes e0 = []" "de_prx_bytes e0 = []"
  obtains e ext where "build_slim_entry h tp base base e0 w = Inr (e, w\<lparr>lw_posting_out := lw_posting_out w @ ext\<rparr>)"
    and "entry_made h hp tier tp (lw_posting_off0 w) base (lw_posting_out w) e ext"
proof -
  let ?z = "host_zstd h" and ?out = "lw_posting_out w" and ?off = "lw_posting_off0 w"
  note c = slim_chunk [OF ok sl]
  obtain c0 where c0: "term_chunks tp = [c0]" "ck_docs c0 = tp_docids tp" using c(3) by simp
  have tok: "length (tp_freqs tp) = length (tp_docids tp)" "sorted_wrt (<) (tp_docids tp)" "length (tp_term tp) < 2 ^ 32"
    using ok by (auto simp: term_ok_def)
  obtain dd fr where r: "EncodeRegions h (tp_docids tp) (tp_freqs tp) 0 hp = Inr (dd, raw_meta dd, fr, if hp then raw_meta fr else default_region_meta)"
    "decode_dd_region ?z dd (raw_meta dd) 0 = Inr (tp_docids tp)" "0 < length dd" "length dd + length fr \<le> 24 + 30 * length (tp_docids tp)"
    by (rule encode_regions_ok [OF z c(2), of 0 "tp_freqs tp" hp]) (use c(1) tok in simp_all)
  obtain p where p: "(if hp then MakePrxWindow h (tp_positions_flat tp) (tp_freqs tp) else Inr []) = Inr p"
    "hp \<longrightarrow> prx_stored ?z p c0" "\<not> hp \<longrightarrow> p = []"
    "length p \<le> (if hp then 64 + 15 * (length (tp_docids tp) + length (term_positions tp)) else 0)" "length p \<le> 2 ^ 24"
    using slim_prx [OF z ok sl] c0(1) by (metis list.sel(1))
  have sz: "length p + length dd + length fr \<le> 512 * term_weight hp tp" using r(4) p(4) by (auto simp: term_weight_def)
  let ?fm = "if hp then raw_meta fr else default_region_meta"
  have nz: "\<not> frm_zstd ?fm" by (simp add: default_region_meta_def)
  show ?thesis
  proof (cases "length (dd @ fr) \<le> kDefaultInlineThreshold")
    case True
    define e where "e = (let e = e0\<lparr>de_enc := kSlim, de_dd_meta := raw_meta dd, de_freq_meta := ?fm, de_kind := kInline,
        de_inline_dd_disk_len := of_nat (length dd), de_frq_bytes := dd @ fr\<rparr> in if hp then e\<lparr>de_prx_bytes := p\<rparr> else e)"
    have e: "de_kind e = kInline" "de_dd_meta e = raw_meta dd" "de_inline_dd_disk_len e = of_nat (length dd)"
      "de_frq_bytes e = dd @ fr" "hp \<Longrightarrow> de_prx_bytes e = p" "de_prx_bytes e = p" "de_term e = tp_term tp" "de_freq_meta e = ?fm"
      using e0 p(3) by (auto simp: e_def Let_def)
    have sm: "length (dd @ fr) < 2 ^ 63" using True by (simp add: kDefaultInlineThreshold_def)
    have run: "build_slim_entry h tp base base e0 w = Inr (e, w\<lparr>lw_posting_out := ?out @ []\<rparr>)"
      using w r(1) p(1) True by (simp add: build_slim_entry_def e_def Let_def)
    have "entry_written ?z hp tier (unat ?off) (?out @ []) e base (term_chunks tp)"
      by (rule inline_written [OF c0 tok(2) r(2) p(2) e(1-5) tier sm])
    moreover have "entry_fits tier e" using e nz sm tok(3) p(5) by (simp add: entry_fits_def)
    ultimately show ?thesis
      using e True p(4,5)
      by (intro that [OF run]) (auto simp: entry_made_def kDefaultInlineThreshold_def entry_size_bound_def term_weight_def)
  next
    case False
    define ext where "ext = p @ dd @ fr"
    define e where "e = (let e = e0\<lparr>de_enc := kSlim, de_dd_meta := raw_meta dd, de_freq_meta := ?fm, de_kind := kPodRef,
        de_frq_docs_len := of_nat (length dd)\<rparr>;
        e = (if hp then e\<lparr>de_prx_off_delta := of_nat (length ?out) - ?off - base, de_prx_len := of_nat (length p)\<rparr> else e)
      in e\<lparr>de_frq_off_delta := of_nat (length (?out @ p)) - ?off - base, de_frq_len := of_nat (length (dd @ fr))\<rparr>)"
    have e: "de_kind e = kPodRef" "de_enc e = kSlim" "de_dd_meta e = raw_meta dd" "de_frq_docs_len e = of_nat (length dd)"
      "de_frq_off_delta e = of_nat (length (?out @ p)) - ?off - base" "de_frq_len e = of_nat (length (dd @ fr))"
      "hp \<Longrightarrow> de_prx_off_delta e = of_nat (length ?out) - ?off - base" "hp \<Longrightarrow> de_prx_len e = of_nat (length p)"
      "de_term e = tp_term tp" "de_frq_bytes e = []" "de_prx_bytes e = []" "de_freq_meta e = ?fm"
      using e0 by (auto simp: e_def Let_def)
    have run: "build_slim_entry h tp base base e0 w = Inr (e, w\<lparr>lw_posting_out := ?out @ ext\<rparr>)"
      using w r(1) p(1,3) False wr
      by (cases hp) (simp_all add: build_slim_entry_def e_def Let_def ext_def posting_size_def fw_bytes_written_def diff_diff_eq)
    have sm: "length (?out @ p @ dd @ fr) < 2 ^ 63" using len sz by simp
    have "entry_written ?z hp tier (unat ?off) (?out @ p @ dd @ fr) e base (term_chunks tp)"
      by (rule slim_written [OF c0 tok(2) r(2,3) p(2) e(1-8) tier off sm])
    moreover have "entry_fits tier e"
      using e nz sm tok(3) by (simp add: entry_fits_def word_le_nat_alt del: of_nat_add)
    ultimately show ?thesis
      using e sz by (intro that [OF run]) (simp add: entry_made_def ext_def entry_size_bound_def term_weight_def)
  qed
qed

lemma build_entry_ok:
  assumes z: "zstd_spec (host_zstd h)" and wr: "host_writes h" and ok: "term_ok hp tp"
    and w: "lw_has_freq w = hp" "lw_has_prx w = hp" and tier: "tier_has_stats tier = hp"
    and off: "unat (lw_posting_off0 w) + unat base \<le> length (lw_posting_out w)"
    and len: "length (lw_posting_out w) + 512 * term_weight hp tp < 2 ^ 62"
  obtains e ext where "build_entry h tp base base w = Inr (e, w\<lparr>lw_posting_out := lw_posting_out w @ ext\<rparr>)"
    and "entry_made h hp tier tp (lw_posting_off0 w) base (lw_posting_out w) e ext"
proof -
  let ?e0 = "default_dict_entry\<lparr>de_term := tp_term tp, de_df := of_nat (length (tp_docids tp)),
            de_ttf_delta := SumOf (tp_freqs tp), de_max_freq := ucast (MaxOf (tp_freqs tp))\<rparr>"
  have df: "unat (of_nat (length (tp_docids tp)) :: u32) = length (tp_docids tp)" using ok by (simp add: term_ok_def)
  have e0: "de_term ?e0 = tp_term tp" "de_frq_bytes ?e0 = []" "de_prx_bytes ?e0 = []" by (simp_all add: default_dict_entry_def)
  show ?thesis
  proof (cases "windowed_term tp")
    case True
    then have "build_entry h tp base base w = build_windowed_entry h tp base base ?e0 w"
      by (simp add: build_entry_def df windowed_term_def)
    with build_windowed_entry_ok [OF z wr ok True w tier off len e0] that show ?thesis by metis
  next
    case False
    then have "build_entry h tp base base w = build_slim_entry h tp base base ?e0 w"
      by (simp add: build_entry_def df windowed_term_def)
    with build_slim_entry_ok [OF z wr ok False w tier off len e0] that show ?thesis by metis
  qed
qed

end
