(* ===== verification/Docid_Set_Ops.thy ===== *)
theory Docid_Set_Ops
  imports Prelude "HOL-Library.Multiset"
begin

text \<open>
  Set operations on ascending vectors of document ids:
  \<open>src/core/src/query/docid_set_ops.cpp\<close>, with the standard algorithms they call. The interface
  \<open>docid_sets\<close> is what query operators rely on: ascending vectors without duplicates stand for sets,
  and the operations are those of the sets.
\<close>

subsection \<open>Definitions\<close>

text \<open>\<open>std::set_intersection\<close> and \<open>std::set_union\<close>: the merge loops of the standard library.\<close>

fun set_intersection :: "'a :: linorder list \<Rightarrow> 'a list \<Rightarrow> 'a list" where
  "set_intersection (x # xs) (y # ys) =
     (if x < y then set_intersection xs (y # ys)
      else if y < x then set_intersection (x # xs) ys
      else x # set_intersection xs ys)"
| "set_intersection xs ys = []"

fun set_union :: "'a :: linorder list \<Rightarrow> 'a list \<Rightarrow> 'a list" where
  "set_union (x # xs) (y # ys) =
     (if x < y then x # set_union xs (y # ys)
      else if y < x then y # set_union (x # xs) ys
      else x # set_union xs ys)"
| "set_union [] ys = ys"
| "set_union xs [] = xs"

definition intersect_sorted :: "u32 list \<Rightarrow> u32 list \<Rightarrow> u32 list" where
  "intersect_sorted a b = set_intersection a b"

definition union_sorted_into :: "u32 list \<Rightarrow> u32 list \<Rightarrow> u32 list" where
  "union_sorted_into acc nxt = set_union acc nxt"

record docid_cursor =
  cur_docid :: u32
  cur_list :: nat
  cur_offset :: nat

text \<open>\<open>heap.top(); heap.pop()\<close>: a cursor with the least document id and the others. Among equal
  ids the queue may give any; the order of the heap's list decides here.\<close>

fun pop_least :: "docid_cursor \<Rightarrow> docid_cursor list \<Rightarrow> docid_cursor \<times> docid_cursor list" where
  "pop_least c [] = (c, [])"
| "pop_least c (d # ds) =
     (if cur_docid d < cur_docid c then (let (m, others) = pop_least d ds in (m, c # others))
      else (let (m, others) = pop_least c ds in (m, d # others)))"

text \<open>The first loop: one cursor per non-empty list.\<close>

fun initial_heap :: "nat \<Rightarrow> u32 list list \<Rightarrow> docid_cursor list" where
  "initial_heap i [] = []"
| "initial_heap i (docs # ls) =
     (case docs of
        [] \<Rightarrow> initial_heap (Suc i) ls
      | d # ds \<Rightarrow> \<lparr>cur_docid = d, cur_list = i, cur_offset = 0\<rparr> # initial_heap (Suc i) ls)"

definition heap_work :: "u32 list list \<Rightarrow> docid_cursor list \<Rightarrow> nat" where
  "heap_work ls heap = sum_list (map (\<lambda>c. Suc (length (ls ! cur_list c) - cur_offset c)) heap)"

lemma pop_least_mset: "pop_least c ds = (m, rst) \<Longrightarrow> add_mset c (mset ds) = add_mset m (mset rst)"
proof (induction ds arbitrary: c m rst)
  case (Cons d ds)
  show ?case
  proof (cases "cur_docid d < cur_docid c")
    case True
    with Cons.prems obtain r where "pop_least d ds = (m, r)" "rst = c # r" by (auto split: prod.splits)
    with Cons.IH [of d m r] show ?thesis by simp
  next
    case False
    with Cons.prems obtain r where "pop_least c ds = (m, r)" "rst = d # r" by (auto split: prod.splits)
    with Cons.IH [of c m r] show ?thesis by simp
  qed
qed simp

lemma heap_work_mset: "heap_work ls heap = (\<Sum>c \<in># mset heap. Suc (length (ls ! cur_list c) - cur_offset c))"
  by (simp add: heap_work_def sum_mset_sum_list flip: mset_map)

lemma pop_least_work:
  "pop_least c ds = (m, rst) \<Longrightarrow>
   heap_work ls (c # ds) = Suc (length (ls ! cur_list m) - cur_offset m) + heap_work ls rst"
  using pop_least_mset [of c ds m rst] by (simp only: heap_work_mset mset.simps) simp

function merge_loop :: "u32 list list \<Rightarrow> docid_cursor list \<Rightarrow> bool \<Rightarrow> u32 \<Rightarrow> u32 list \<Rightarrow> u32 list" where
  "merge_loop ls [] has_last lst out = out"
| "merge_loop ls (c # ds) has_last lst out =
     (let (cur, heap) = pop_least c ds;
          fresh = (\<not> has_last \<or> cur_docid cur \<noteq> lst);
          next_offset = cur_offset cur + 1;
          docs = ls ! cur_list cur;
          heap = (if next_offset < length docs
                  then heap @ [\<lparr>cur_docid = docs ! next_offset, cur_list = cur_list cur, cur_offset = next_offset\<rparr>]
                  else heap)
      in merge_loop ls heap (has_last \<or> fresh) (if fresh then cur_docid cur else lst)
           (if fresh then out @ [cur_docid cur] else out))"
  by pat_completeness auto
termination
proof (relation "measure (\<lambda>(ls, heap, h, l, out). heap_work ls heap)")
  fix ls :: "u32 list list" and c ds has_last and lst :: u32 and out :: "u32 list" and p cur heap fresh next_offset docs heap'
  assume 1: "p = pop_least c ds" "(cur, heap) = p" and 2: "next_offset = cur_offset cur + 1" "docs = ls ! cur_list cur"
    and 3: "heap' = (if next_offset < length docs
       then heap @ [\<lparr>cur_docid = docs ! next_offset, cur_list = cur_list cur, cur_offset = next_offset\<rparr>] else heap)"
  have "heap_work ls (c # ds) = Suc (length docs - cur_offset cur) + heap_work ls heap"
    using pop_least_work [of c ds cur heap ls] 1 2 by simp
  then show "((ls, heap', has_last \<or> fresh, if fresh then cur_docid cur else lst,
      if fresh then out @ [cur_docid cur] else out), (ls, c # ds, has_last, lst, out)) \<in>
      measure (\<lambda>(ls, heap, h, l, out). heap_work ls heap)"
    using 2 3 by (auto simp: heap_work_def)
qed auto

definition union_sorted_many :: "u32 list list \<Rightarrow> u32 list" where
  "union_sorted_many ls =
     (let heap = initial_heap 0 ls; non_empty = length heap in
      if non_empty = 0 then []
      else if non_empty = 1 then hd (filter (\<lambda>docs. docs \<noteq> []) ls)
      else merge_loop ls heap False 0 [])"

subsection \<open>The interface of document sets\<close>

text \<open>The representation invariant is \<open>sorted_wrt (<)\<close>: ascending, no duplicates.\<close>

abbreviation ascending :: "'a :: linorder list \<Rightarrow> bool" where
  "ascending \<equiv> sorted_wrt (<)"

lemma ascending_iff: "ascending xs \<longleftrightarrow> sorted xs \<and> distinct xs"
  by (simp add: strict_sorted_iff)

lemma ascending_unique: "ascending xs \<Longrightarrow> sorted_list_of_set (set xs) = xs"
  by (simp add: ascending_iff sorted_list_of_set.idem_if_sorted_distinct)

lemma set_set_intersection: "ascending xs \<Longrightarrow> ascending ys \<Longrightarrow> set (set_intersection xs ys) = set xs \<inter> set ys"
proof (induction xs ys rule: set_intersection.induct)
  case (1 x xs y ys)
  consider "x < y" | "y < x" | "x = y" by force
  then show ?case
  proof cases
    case 1
    with "1.prems" have "x \<notin> set (y # ys)" by auto
    with "1.IH"(1) [OF 1] "1.prems" 1 show ?thesis by auto
  next
    case 2
    with "1.prems" have "y \<notin> set (x # xs)" by auto
    with "1.IH"(2) "1.prems" 2 show ?thesis by auto
  next
    case 3
    with "1.prems" have "x \<notin> set xs" "x \<notin> set ys" by auto
    with "1.IH"(3) "1.prems" 3 show ?thesis by auto
  qed
qed auto

lemma ascending_set_intersection: "ascending xs \<Longrightarrow> ascending ys \<Longrightarrow> ascending (set_intersection xs ys)"
proof (induction xs ys rule: set_intersection.induct)
  case (1 x xs y ys)
  then show ?case using set_set_intersection [of xs ys] by (auto simp: not_less)
qed auto

lemma set_set_union: "set (set_union xs ys) = set xs \<union> set ys"
  by (induction xs ys rule: set_union.induct) auto

lemma ascending_set_union: "ascending xs \<Longrightarrow> ascending ys \<Longrightarrow> ascending (set_union xs ys)"
proof (induction xs ys rule: set_union.induct)
  case (1 x xs y ys)
  consider "x < y" | "y < x" | "x = y" by force
  then show ?case
  proof cases
    case 1
    with "1.IH"(1) "1.prems" show ?thesis by (auto simp: set_set_union)
  next
    case 2
    with "1.IH"(2) "1.prems" show ?thesis by (auto simp: set_set_union)
  next
    case 3
    with "1.IH"(3) "1.prems" show ?thesis by (auto simp: set_set_union)
  qed
qed auto

locale docid_sets =
  fixes inter union :: "'s \<Rightarrow> 's \<Rightarrow> 's" and \<alpha> :: "'s \<Rightarrow> 'd set" and valid :: "'s \<Rightarrow> bool"
  assumes inter_\<alpha>: "valid a \<Longrightarrow> valid b \<Longrightarrow> \<alpha> (inter a b) = \<alpha> a \<inter> \<alpha> b"
    and inter_valid: "valid a \<Longrightarrow> valid b \<Longrightarrow> valid (inter a b)"
    and union_\<alpha>: "valid a \<Longrightarrow> valid b \<Longrightarrow> \<alpha> (union a b) = \<alpha> a \<union> \<alpha> b"
    and union_valid: "valid a \<Longrightarrow> valid b \<Longrightarrow> valid (union a b)"
begin

text \<open>Folding an operation over several sets, as conjunctive and disjunctive operators do.\<close>

lemma inter_many:
  "valid a \<Longrightarrow> \<forall>b \<in> set bs. valid b \<Longrightarrow>
   valid (foldl inter a bs) \<and> \<alpha> (foldl inter a bs) = \<alpha> a \<inter> (\<Inter>b \<in> set bs. \<alpha> b)"
  by (induction bs arbitrary: a) (auto simp: inter_\<alpha> inter_valid)

lemma union_many:
  "valid a \<Longrightarrow> \<forall>b \<in> set bs. valid b \<Longrightarrow>
   valid (foldl union a bs) \<and> \<alpha> (foldl union a bs) = \<alpha> a \<union> (\<Union>b \<in> set bs. \<alpha> b)"
  by (induction bs arbitrary: a) (auto simp: union_\<alpha> union_valid)

end

interpretation docids: docid_sets intersect_sorted union_sorted_into set ascending
  by unfold_locales
    (simp_all add: intersect_sorted_def union_sorted_into_def set_set_intersection
      ascending_set_intersection set_set_union ascending_set_union)

subsection \<open>The k-way merge\<close>

lemma pop_least_min: "pop_least c ds = (m, rst) \<Longrightarrow> \<forall>d \<in> set (c # ds). cur_docid m \<le> cur_docid d"
proof (induction ds arbitrary: c m rst)
  case (Cons d ds)
  show ?case
  proof (cases "cur_docid d < cur_docid c")
    case True
    with Cons.prems obtain r where "pop_least d ds = (m, r)" by (auto split: prod.splits)
    from Cons.IH [OF this] True show ?thesis by force
  next
    case False
    with Cons.prems obtain r where "pop_least c ds = (m, r)" by (auto split: prod.splits)
    from Cons.IH [OF this] False show ?thesis by force
  qed
qed simp

lemma pop_least_set: "pop_least c ds = (m, rst) \<Longrightarrow> set (c # ds) = insert m (set rst)"
  using pop_least_mset [of c ds m rst] by (metis list.simps(15) mset.simps(2) set_mset_add_mset_insert set_mset_mset)

definition cursor_valid :: "u32 list list \<Rightarrow> docid_cursor \<Rightarrow> bool" where
  "cursor_valid ls c =
     (cur_list c < length ls \<and> cur_offset c < length (ls ! cur_list c) \<and>
      cur_docid c = ls ! cur_list c ! cur_offset c)"

definition ahead :: "u32 list list \<Rightarrow> docid_cursor \<Rightarrow> u32 list" where
  "ahead ls c = drop (cur_offset c) (ls ! cur_list c)"

lemma ahead_step:
  assumes "cursor_valid ls c"
  shows "ahead ls c = cur_docid c # drop (cur_offset c + 1) (ls ! cur_list c)"
  using assms by (simp add: ahead_def cursor_valid_def Cons_nth_drop_Suc)

lemma ascending_last: "ascending xs \<Longrightarrow> x \<in> set xs \<Longrightarrow> x \<le> last xs"
  by (induction xs) (auto intro: less_imp_le)

lemma merge_loop_spec:
  assumes "\<forall>l \<in> set ls. ascending l" and "\<forall>c \<in> set heap. cursor_valid ls c"
    and "ascending out" and "has_last \<longleftrightarrow> out \<noteq> []" and "out \<noteq> [] \<Longrightarrow> last out = lst"
    and "out \<noteq> [] \<Longrightarrow> \<forall>c \<in> set heap. lst \<le> cur_docid c"
  shows "ascending (merge_loop ls heap has_last lst out) \<and>
    set (merge_loop ls heap has_last lst out) = set out \<union> (\<Union>c \<in> set heap. set (ahead ls c))"
  using assms
proof (induction ls heap has_last lst out rule: merge_loop.induct)
  case (2 ls c ds has_last lst out)
  obtain cur rst where p: "pop_least c ds = (cur, rst)" by force
  let ?docs = "ls ! cur_list cur" and ?n = "cur_offset cur + 1"
  let ?heap = "if ?n < length ?docs
     then rst @ [\<lparr>cur_docid = ?docs ! ?n, cur_list = cur_list cur, cur_offset = ?n\<rparr>] else rst"
  let ?fresh = "\<not> has_last \<or> cur_docid cur \<noteq> lst"
  let ?out = "if ?fresh then out @ [cur_docid cur] else out"
  let ?lst = "if ?fresh then cur_docid cur else lst"
  note st = pop_least_set [OF p] and mn = pop_least_min [OF p]
  have cv: "cursor_valid ls cur" and rv: "\<forall>d \<in> set rst. cursor_valid ls d" using "2.prems"(2) st by auto
  have asc: "ascending ?docs" using "2.prems"(1) cv by (simp add: cursor_valid_def)
  have le: "out \<noteq> [] \<Longrightarrow> lst \<le> cur_docid cur" using "2.prems"(6) st by auto
  have hv: "\<forall>d \<in> set ?heap. cursor_valid ls d" using rv cv by (auto simp: cursor_valid_def)
  have out: "ascending ?out"
  proof (cases "out = []")
    case False
    have "x < cur_docid cur" if "x \<in> set out" "cur_docid cur \<noteq> lst" for x
    proof -
      have "x \<le> last out" using ascending_last [OF "2.prems"(3) that(1)] .
      with le [OF False] that(2) "2.prems"(5) [OF False] show ?thesis by simp
    qed
    with "2.prems"(3,4) False show ?thesis by (auto simp: sorted_wrt_append)
  qed simp
  have lst: "?out \<noteq> []" "last ?out = ?lst"
    using "2.prems"(4,5) by auto
  have lo: "\<forall>d \<in> set ?heap. ?lst \<le> cur_docid d"
  proof -
    have "?lst = cur_docid cur" by simp
    moreover have "cur_docid cur \<le> ?docs ! ?n" if "?n < length ?docs"
      using asc that cv by (auto simp: cursor_valid_def sorted_wrt_iff_nth_less less_imp_le)
    moreover have "\<forall>d \<in> set rst. cur_docid cur \<le> cur_docid d" using mn unfolding st by simp
    ultimately show ?thesis by auto
  qed
  have hs: "(has_last \<or> ?fresh) = (?out \<noteq> [])" using "2.prems"(4) by auto
  have IH: "ascending (merge_loop ls ?heap (has_last \<or> ?fresh) ?lst ?out) \<and>
    set (merge_loop ls ?heap (has_last \<or> ?fresh) ?lst ?out) = set ?out \<union> (\<Union>d \<in> set ?heap. set (ahead ls d))"
    by (rule "2.IH" [OF p [symmetric] refl refl refl refl refl "2.prems"(1) hv out hs lst(2) lo])
  have "(\<Union>d \<in> set ?heap. set (ahead ls d)) = set (drop ?n ?docs) \<union> (\<Union>d \<in> set rst. set (ahead ls d))"
    by (auto simp: ahead_def)
  moreover have "set ?out = insert (cur_docid cur) (set out)"
    using "2.prems"(4,5) by auto (metis last_in_set)
  ultimately have "set ?out \<union> (\<Union>d \<in> set ?heap. set (ahead ls d)) =
      set out \<union> (\<Union>d \<in> set (c # ds). set (ahead ls d))"
    using st ahead_step [OF cv] by auto
  with IH show ?case unfolding merge_loop.simps(2) p Let_def prod.case by simp
qed simp

lemma initial_heap_valid:
  assumes "\<forall>j < length ls. full ! (i + j) = ls ! j" and "i + length ls \<le> length full"
  shows "(\<forall>c \<in> set (initial_heap i ls). cursor_valid full c) \<and>
    (\<Union>c \<in> set (initial_heap i ls). set (ahead full c)) = \<Union> (set ` set ls)"
  using assms
proof (induction ls arbitrary: i)
  case (Cons docs ls)
  have "\<forall>j < length ls. full ! (Suc i + j) = ls ! j" using Cons.prems(1) by (metis Suc_less_eq add_Suc_shift length_Cons nth_Cons_Suc)
  with Cons.IH [of "Suc i"] Cons.prems(2) have IH: "(\<forall>c \<in> set (initial_heap (Suc i) ls). cursor_valid full c) \<and>
    (\<Union>c \<in> set (initial_heap (Suc i) ls). set (ahead full c)) = \<Union> (set ` set ls)" by simp
  have "full ! i = docs" using Cons.prems(1) [rule_format, of 0] by simp
  with IH Cons.prems(2) show ?case by (cases docs) (auto simp: cursor_valid_def ahead_def)
qed simp

lemma length_initial_heap: "length (initial_heap i ls) = length (filter (\<lambda>docs. docs \<noteq> []) ls)"
  by (induction ls arbitrary: i) (auto split: list.splits)

lemma union_sorted_many_spec:
  assumes "\<forall>l \<in> set ls. ascending l"
  shows "ascending (union_sorted_many ls) \<and> set (union_sorted_many ls) = \<Union> (set ` set ls)"
proof -
  let ?ne = "filter (\<lambda>docs. docs \<noteq> []) ls"
  have eq: "union_sorted_many ls = (if length ?ne = 0 then [] else if length ?ne = 1 then hd ?ne
      else merge_loop ls (initial_heap 0 ls) False 0 [])"
    unfolding union_sorted_many_def Let_def length_initial_heap by (rule refl)
  have un: "\<Union> (set ` set ls) = \<Union> (set ` set ?ne)" by auto
  consider "?ne = []" | l where "?ne = [l]" | "1 < length ?ne"
    by (cases ?ne rule: remdups_adj.cases) auto
  then show ?thesis
  proof cases
    case 1
    with un show ?thesis unfolding eq by (simp only: list.size list.set image_empty) simp
  next
    case (2 l)
    then have "l \<in> set ?ne" by (simp only: list.set_intros)
    then have "l \<in> set ls" by simp
    with 2 un assms show ?thesis unfolding eq by simp
  next
    case 3
    have "union_sorted_many ls = merge_loop ls (initial_heap 0 ls) False 0 []"
      unfolding eq using 3 by (metis less_irrefl not_less_zero)
    with merge_loop_spec [OF assms, of "initial_heap 0 ls" "[]" False 0] initial_heap_valid [of ls ls 0]
    show ?thesis by simp
  qed
qed

subsection \<open>Correctness\<close>

text \<open>C24: on ascending vectors the three operations are those of the sets of document ids: the
  intersection, the union, and the k-way union, each as the one ascending vector of that set.\<close>

theorem docid_set_ops:
  assumes "ascending a" and "ascending b" and "\<forall>l \<in> set ls. ascending l"
  shows "intersect_sorted a b = sorted_list_of_set (set a \<inter> set b) \<and>
    union_sorted_into a b = sorted_list_of_set (set a \<union> set b) \<and>
    union_sorted_many ls = sorted_list_of_set (\<Union> (set ` set ls))"
  using docids.inter_\<alpha> [OF assms(1,2)] docids.inter_valid [OF assms(1,2)]
    docids.union_\<alpha> [OF assms(1,2)] docids.union_valid [OF assms(1,2)] union_sorted_many_spec [OF assms(3)]
  by (metis ascending_unique)

theorem docid_set_ops_witness:
  "union_sorted_many [[2, 5], [], [1, 5, 9]] = sorted_list_of_set (\<Union> (set ` set [[2, 5], [], [1, 5, 9]]))"
  using docid_set_ops [of "[]" "[]" "[[2, 5], [], [1, 5, 9]]"] by simp

text \<open>With a single non-empty vector the k-way union returns that vector as it is, so a vector
  with a repeated id is not made duplicate-free, while two vectors are.\<close>

lemma union_single_keeps_duplicates:
  "union_sorted_many [[7, 7], []] = [7, 7] \<and> union_sorted_many [[7, 7], [7]] = [7]"
  by code_simp

end
