(* ===== verification/Term_Patterns.thy ===== *)
theory Term_Patterns
  imports Prelude
begin

text \<open>
  The term patterns of the expanding queries: the dynamic program and the literal prefix of
  \<open>src/core/src/query/wildcard_query.cpp\<close>, and the literal prefix of
  \<open>src/core/src/query/regexp_query.cpp\<close>. The patterns are byte strings; \<open>*\<close> is 42 and \<open>?\<close> is 63.
\<close>

subsection \<open>Definitions\<close>

definition star :: byte where "star = 0x2A"

definition question :: byte where "question = 0x3F"

fun literal_prefix_for_wildcard :: "byte list \<Rightarrow> byte list" where
  "literal_prefix_for_wildcard [] = []"
| "literal_prefix_for_wildcard (c # cs) =
     (if c = star \<or> c = question then [] else c # literal_prefix_for_wildcard cs)"

text \<open>The vectors \<open>prev\<close> and \<open>curr\<close> (here \<open>row\<close>) hold truth values. One iteration of the loop over the pattern:\<close>

definition wildcard_row :: "byte \<Rightarrow> byte list \<Rightarrow> bool list \<Rightarrow> bool list" where
  "wildcard_row p tx prev =
     (let n = length tx; row = replicate (n + 1) False in
      if p = star then
        fold (\<lambda>i row. row[i := prev ! i \<or> row ! (i - 1)]) [1..<n + 1] (row[0 := prev ! 0])
      else
        fold (\<lambda>i row. row[i := prev ! (i - 1) \<and> (p = question \<or> p = tx ! (i - 1))]) [1..<n + 1] row)"

definition wildcard_match :: "byte list \<Rightarrow> byte list \<Rightarrow> bool" where
  "wildcard_match pattern tx =
     (let prev = (replicate (length tx + 1) False)[0 := True];
          prev = foldl (\<lambda>prev p. wildcard_row p tx prev) prev pattern
      in prev ! length tx)"

definition is_regex_metachar :: "byte \<Rightarrow> bool" where
  "is_regex_metachar c =
     (c = 0x2E \<or> c = 0x5E \<or> c = 0x24 \<or> c = 0x7C \<or> c = 0x28 \<or> c = 0x29 \<or> c = 0x5B \<or> c = 0x5D \<or>
      c = 0x2A \<or> c = 0x2B \<or> c = 0x3F \<or> c = 0x7B \<or> c = 0x7D \<or> c = 0x5C)"

definition literal_prefix_for_regex :: "byte list \<Rightarrow> byte list" where
  "literal_prefix_for_regex pattern =
     (let i = (if pattern \<noteq> [] \<and> hd pattern = 0x5E then 1 else 0)
      in takeWhile (\<lambda>c. \<not> is_regex_metachar c) (drop i pattern))"

subsection \<open>What a wildcard pattern means\<close>

text \<open>A text matches when it splits into one piece per pattern character: any piece for a star,
  one character for a question mark, the character itself otherwise.\<close>

definition piece :: "byte \<Rightarrow> byte list \<Rightarrow> bool" where
  "piece p s = (if p = star then True else if p = question then length s = 1 else s = [p])"

definition wildcard_lang :: "byte list \<Rightarrow> byte list \<Rightarrow> bool" where
  "wildcard_lang pattern tx = (\<exists>ss. list_all2 piece pattern ss \<and> concat ss = tx)"

lemma wildcard_lang_Nil [simp]: "wildcard_lang [] tx \<longleftrightarrow> tx = []"
  by (auto simp: wildcard_lang_def)

lemma wildcard_lang_snoc:
  "wildcard_lang (pattern @ [p]) tx \<longleftrightarrow> (\<exists>s t. tx = s @ t \<and> wildcard_lang pattern s \<and> piece p t)"
proof
  assume "wildcard_lang (pattern @ [p]) tx"
  then obtain us v where "list_all2 piece pattern us" "piece p v" "tx = concat us @ v"
    by (auto simp: wildcard_lang_def list_all2_append1 list_all2_Cons1)
  then show "\<exists>s t. tx = s @ t \<and> wildcard_lang pattern s \<and> piece p t"
    unfolding wildcard_lang_def by blast
next
  assume "\<exists>s t. tx = s @ t \<and> wildcard_lang pattern s \<and> piece p t"
  then obtain us v where "list_all2 piece (pattern @ [p]) (us @ [v])" "tx = concat (us @ [v])"
    by (auto simp: wildcard_lang_def intro!: list_all2_appendI)
  then show "wildcard_lang (pattern @ [p]) tx" unfolding wildcard_lang_def by blast
qed

lemma wildcard_lang_Cons:
  "wildcard_lang (p # pattern) tx \<longleftrightarrow> (\<exists>s t. tx = s @ t \<and> piece p s \<and> wildcard_lang pattern t)"
  by (fastforce simp: wildcard_lang_def list_all2_Cons1)

subsection \<open>The dynamic program\<close>

lemma star_row_nth:
  assumes "length row = n + 1" and "k \<le> n"
  shows "length (fold (\<lambda>i row. row[i := prev ! i \<or> row ! (i - 1)]) [1..<k + 1] row) = n + 1 \<and>
    (\<forall>i \<le> n. fold (\<lambda>i row. row[i := prev ! i \<or> row ! (i - 1)]) [1..<k + 1] row ! i =
       (if i \<le> k then row ! 0 \<or> (\<exists>j. 1 \<le> j \<and> j \<le> i \<and> prev ! j) else row ! i))"
  using assms(2)
proof (induction k)
  case 0
  show ?case using assms(1) by auto
next
  case (Suc k)
  let ?f = "fold (\<lambda>i row. row[i := prev ! i \<or> row ! (i - 1)])"
  have u: "[1..<Suc k + 1] = [1..<k + 1] @ [Suc k]" by simp
  have IH: "length (?f [1..<k + 1] row) = n + 1"
    "\<forall>i \<le> n. ?f [1..<k + 1] row ! i = (if i \<le> k then row ! 0 \<or> (\<exists>j. 1 \<le> j \<and> j \<le> i \<and> prev ! j) else row ! i)"
    using Suc by auto
  have st: "?f [1..<Suc k + 1] row = (?f [1..<k + 1] row)[Suc k := prev ! Suc k \<or> ?f [1..<k + 1] row ! k]"
    unfolding u by simp
  have at: "?f [1..<Suc k + 1] row ! i = (if i \<le> Suc k then row ! 0 \<or> (\<exists>j. 1 \<le> j \<and> j \<le> i \<and> prev ! j) else row ! i)"
    if "i \<le> n" for i
  proof (cases "i = Suc k")
    case True
    have "?f [1..<Suc k + 1] row ! i = (prev ! Suc k \<or> ?f [1..<k + 1] row ! k)"
      unfolding st using True that IH(1) by simp
    also have "\<dots> = (prev ! Suc k \<or> row ! 0 \<or> (\<exists>j. 1 \<le> j \<and> j \<le> k \<and> prev ! j))"
      using IH(2) Suc.prems by simp
    also have "\<dots> = (row ! 0 \<or> (\<exists>j. 1 \<le> j \<and> j \<le> Suc k \<and> prev ! j))"
      by (metis le_Suc_eq le_add1 plus_1_eq_Suc)
    finally show ?thesis using True by simp
  next
    case False
    then have "?f [1..<Suc k + 1] row ! i = ?f [1..<k + 1] row ! i" unfolding st by simp
    then show ?thesis using IH(2) that False by (simp add: le_Suc_eq)
  qed
  have "length (?f [1..<Suc k + 1] row) = n + 1" unfolding st using IH(1) by simp
  then show ?case using at by blast
qed

lemma char_row_nth:
  assumes "length row = n + 1" and "k \<le> n"
  shows "length (fold (\<lambda>i row. row[i := P i]) [1..<k + 1] row) = n + 1 \<and>
    (\<forall>i \<le> n. fold (\<lambda>i row. row[i := P i]) [1..<k + 1] row ! i = (if 1 \<le> i \<and> i \<le> k then P i else row ! i))"
  using assms(2)
proof (induction k)
  case 0
  show ?case using assms(1) by auto
next
  case (Suc k)
  let ?f = "fold (\<lambda>i row. row[i := P i])"
  have u: "[1..<Suc k + 1] = [1..<k + 1] @ [Suc k]" by simp
  have IH: "length (?f [1..<k + 1] row) = n + 1"
    "\<forall>i \<le> n. ?f [1..<k + 1] row ! i = (if 1 \<le> i \<and> i \<le> k then P i else row ! i)"
    using Suc by auto
  have st: "?f [1..<Suc k + 1] row = (?f [1..<k + 1] row)[Suc k := P (Suc k)]"
    unfolding u by simp
  show ?case unfolding st using IH Suc.prems by (auto simp: nth_list_update le_Suc_eq)
qed

text \<open>A row of the program: entry \<open>i\<close> says whether the pattern so far matches the first \<open>i\<close>
  characters.\<close>

definition row_of :: "byte list \<Rightarrow> byte list \<Rightarrow> bool list \<Rightarrow> bool" where
  "row_of pattern tx row =
     (length row = length tx + 1 \<and> (\<forall>i \<le> length tx. row ! i = wildcard_lang pattern (take i tx)))"

lemma wildcard_row_step:
  assumes "row_of pattern tx prev" shows "row_of (pattern @ [p]) tx (wildcard_row p tx prev)"
proof (cases "p = star")
  case True
  let ?c = "(replicate (length tx + 1) False)[0 := prev ! 0]"
  have st: "wildcard_lang (pattern @ [p]) (take i tx) \<longleftrightarrow> (\<exists>j \<le> i. wildcard_lang pattern (take j tx))"
    if "i \<le> length tx" for i
  proof
    assume "wildcard_lang (pattern @ [p]) (take i tx)"
    then obtain s t where s: "take i tx = s @ t" "wildcard_lang pattern s" by (auto simp: wildcard_lang_snoc)
    then have "s = take (length s) tx" "length s \<le> i"
      using that by (metis append_eq_conv_conj length_append length_take le_add1 min.absorb2 take_take)+
    with s show "\<exists>j \<le> i. wildcard_lang pattern (take j tx)" by metis
  next
    assume "\<exists>j \<le> i. wildcard_lang pattern (take j tx)"
    then obtain j where j: "j \<le> i" "wildcard_lang pattern (take j tx)" by blast
    then have "take i tx = take j tx @ take (i - j) (drop j tx)"
      by (metis le_add_diff_inverse take_add)
    with j True show "wildcard_lang (pattern @ [p]) (take i tx)"
      unfolding wildcard_lang_snoc piece_def by metis
  qed
  have prev: "prev ! j = wildcard_lang pattern (take j tx)" if "j \<le> length tx" for j
    using assms that by (simp add: row_of_def)
  have ex: "(prev ! 0 \<or> (\<exists>j. 1 \<le> j \<and> j \<le> i \<and> prev ! j)) = (\<exists>j \<le> i. prev ! j)" for i
    by (metis le0 less_one not_le)
  have "\<forall>i \<le> length tx. (\<exists>j \<le> i. prev ! j) = wildcard_lang (pattern @ [p]) (take i tx)"
    using st prev by (meson le_trans)
  with star_row_nth [of ?c "length tx" "length tx" prev] True ex show ?thesis
    by (simp add: row_of_def wildcard_row_def Let_def)
next
  case False
  have st: "wildcard_lang (pattern @ [p]) (take i tx) \<longleftrightarrow>
      1 \<le> i \<and> wildcard_lang pattern (take (i - 1) tx) \<and> (p = question \<or> p = tx ! (i - 1))"
    if "i \<le> length tx" for i
  proof (cases i)
    case 0
    then show ?thesis using False by (auto simp: wildcard_lang_snoc piece_def)
  next
    case (Suc k)
    have tk: "take i tx = take k tx @ [tx ! k]" using that Suc by (simp add: take_Suc_conv_app_nth)
    have one: "piece p t \<Longrightarrow> length t = 1" for t using False by (auto simp: piece_def split: if_splits)
    have "wildcard_lang (pattern @ [p]) (take i tx) \<longleftrightarrow> wildcard_lang pattern (take k tx) \<and> piece p [tx ! k]"
    proof
      assume "wildcard_lang (pattern @ [p]) (take i tx)"
      then obtain s t where s: "take i tx = s @ t" "wildcard_lang pattern s" "piece p t"
        by (auto simp: wildcard_lang_snoc)
      with one obtain x where "t = [x]" by (metis One_nat_def length_0_conv length_Suc_conv)
      with s tk show "wildcard_lang pattern (take k tx) \<and> piece p [tx ! k]" by simp
    next
      assume "wildcard_lang pattern (take k tx) \<and> piece p [tx ! k]"
      with tk show "wildcard_lang (pattern @ [p]) (take i tx)" by (auto simp: wildcard_lang_snoc)
    qed
    with Suc False show ?thesis by (auto simp: piece_def)
  qed
  have prev: "prev ! j = wildcard_lang pattern (take j tx)" if "j \<le> length tx" for j
    using assms that by (simp add: row_of_def)
  have nth: "length (wildcard_row p tx prev) = length tx + 1"
    "\<forall>i \<le> length tx. wildcard_row p tx prev ! i =
      (if 1 \<le> i then prev ! (i - 1) \<and> (p = question \<or> p = tx ! (i - 1)) else False)"
    using char_row_nth [of "replicate (length tx + 1) False" "length tx" "length tx"
        "\<lambda>i. prev ! (i - 1) \<and> (p = question \<or> p = tx ! (i - 1))"] False
    by (simp_all add: wildcard_row_def Let_def del: upt_Suc replicate_Suc)
  show ?thesis unfolding row_of_def using nth st prev by auto
qed

lemma wildcard_match_lang: "wildcard_match pattern tx = wildcard_lang pattern tx"
proof -
  have "row_of (pre @ ps) tx (foldl (\<lambda>prev p. wildcard_row p tx prev) row ps)" if "row_of pre tx row" for pre ps row
    using that
  proof (induction ps arbitrary: pre row)
    case (Cons p ps)
    from Cons.IH [OF wildcard_row_step [OF Cons.prems, of p]] show ?case by simp
  qed simp
  moreover have "row_of [] tx ((replicate (length tx + 1) False)[0 := True])"
    by (auto simp: row_of_def nth_Cons split: nat.splits)
  ultimately have "row_of ([] @ pattern) tx (foldl (\<lambda>prev p. wildcard_row p tx prev)
      ((replicate (length tx + 1) False)[0 := True]) pattern)" by blast
  then show ?thesis by (simp add: row_of_def wildcard_match_def Let_def)
qed

lemma literal_prefix_sound:
  "wildcard_lang pattern tx \<Longrightarrow> prefix (literal_prefix_for_wildcard pattern) tx"
proof (induction pattern arbitrary: tx)
  case (Cons c cs)
  show ?case
  proof (cases "c = star \<or> c = question")
    case False
    with Cons.prems obtain t where "tx = c # t" "wildcard_lang cs t"
      by (auto simp: wildcard_lang_Cons piece_def)
    with Cons.IH False show ?thesis by simp
  qed simp
qed simp

subsection \<open>The literal prefix of a regular expression\<close>

text \<open>It ends at the first character with a meaning, whatever that is: a quantifier, which makes the last literal
  optional, and the bar of an alternative end it like any other. Of \<open>ab*\<close> it is \<open>ab\<close>, although \<open>a\<close> matches.\<close>

lemma literal_prefix_stops:
  assumes "\<forall>c \<in> set w. \<not> is_regex_metachar c" and "is_regex_metachar q" and "w \<noteq> []"
  shows "literal_prefix_for_regex (w @ q # pattern) = w"
proof -
  have "hd w \<noteq> 0x5E" using assms(1,3) by (auto simp: is_regex_metachar_def dest: hd_in_set)
  moreover have "takeWhile (\<lambda>c. \<not> is_regex_metachar c) (w @ q # pattern) = w" using assms(1,2) by (simp add: takeWhile_append)
  ultimately show ?thesis using assms(3) by (simp add: literal_prefix_for_regex_def)
qed

text \<open>The patterns for which the prefix loses nothing among the terms: those whose matches start with it.\<close>

definition literal_prefix_binds :: "(byte list \<Rightarrow> bool) \<Rightarrow> byte list \<Rightarrow> byte list set \<Rightarrow> bool" where
  "literal_prefix_binds matches pattern terms = (\<forall>t \<in> terms. matches t \<longrightarrow> prefix (literal_prefix_for_regex pattern) t)"

subsection \<open>Correctness\<close>

text \<open>C25: the dynamic program decides the language of the pattern, and every match starts with the
  literal prefix, so that enumerating the terms with that prefix loses none.\<close>

theorem wildcard_correct:
  "wildcard_match pattern tx = wildcard_lang pattern tx \<and>
   filter (wildcard_match pattern) (filter (prefix (literal_prefix_for_wildcard pattern)) terms) =
     filter (wildcard_lang pattern) terms"
proof -
  have "filter (wildcard_match pattern) (filter (prefix (literal_prefix_for_wildcard pattern)) terms) =
     filter (wildcard_lang pattern) terms"
    unfolding filter_filter by (rule filter_cong) (auto simp: wildcard_match_lang literal_prefix_sound)
  then show ?thesis by (simp add: wildcard_match_lang)
qed

end
