(* ===== verification/Docid_Queries.thy ===== *)
theory Docid_Queries
  imports Docid_Postings Docid_Set_Ops Term_Patterns
begin

text \<open>
  The queries that return document ids: \<open>src/core/src/query/term_query.cpp\<close>, \<open>boolean_query.cpp\<close>,
  \<open>prefix_query.cpp\<close>, \<open>wildcard_query.cpp\<close>, \<open>regexp_query.cpp\<close>, with \<open>docid_union.cpp\<close> and
  \<open>term_expansion.cpp\<close>. A \<open>DocIdSink\<close> is the vector it appends to.
\<close>

type_synonym docid_sink = "u32 list"

definition append_sorted :: "u32 list \<Rightarrow> docid_sink \<Rightarrow> docid_sink" where
  "append_sorted docids sink = sink @ docids"

definition emit_docid_union ::
  "host \<Rightarrow> logical_index_reader \<Rightarrow> resolved_docid_posting list \<Rightarrow> docid_sink \<Rightarrow> docid_sink result" where
  "emit_docid_union h idx postings sink =
     (if postings = [] then Inr sink
      else
        and_then (read_docid_postings_batched h idx postings) (\<lambda>docs_by_posting.
        let acc = union_sorted_many docs_by_posting in
        if acc = [] then Inr sink else Inr (append_sorted acc sink)))"

definition term_query :: "host \<Rightarrow> logical_index_reader \<Rightarrow> term_bytes \<Rightarrow> u32 list result" where
  "term_query h idx t =
     and_then (lookup h idx t) (\<lambda>found.
     case found of
       None \<Rightarrow> Inr []
     | Some (entry, frq_base, prx_base) \<Rightarrow> read_docid_posting h idx entry frq_base prx_base)"

text \<open>Sorting and \<open>std::unique\<close>.\<close>

definition unique_terms :: "term_bytes list \<Rightarrow> term_bytes list" where
  "unique_terms ts = remdups_adj (sort ts)"

fun lookup_all :: "host \<Rightarrow> logical_index_reader \<Rightarrow> term_bytes list \<Rightarrow> resolved_docid_posting list result" where
  "lookup_all h idx [] = Inr []"
| "lookup_all h idx (t # ts) =
     and_then (lookup h idx t) (\<lambda>found.
     and_then (lookup_all h idx ts) (\<lambda>postings.
     case found of
       None \<Rightarrow> Inr postings
     | Some (entry, frq_base, prx_base) \<Rightarrow>
         Inr (\<lparr>rp_entry = entry, rp_frq_base = frq_base, rp_prx_base = prx_base\<rparr> # postings)))"

definition boolean_or :: "host \<Rightarrow> logical_index_reader \<Rightarrow> term_bytes list \<Rightarrow> docid_sink \<Rightarrow> docid_sink result" where
  "boolean_or h idx ts sink =
     (if ts = [] then Inr sink
      else and_then (lookup_all h idx (unique_terms ts)) (\<lambda>postings. emit_docid_union h idx postings sink))"

definition hit_posting :: "prefix_hit \<Rightarrow> resolved_docid_posting" where
  "hit_posting x = \<lparr>rp_entry = ph_entry x, rp_frq_base = ph_frq_base x, rp_prx_base = ph_prx_base x\<rparr>"

definition prefix_query :: "host \<Rightarrow> logical_index_reader \<Rightarrow> term_bytes \<Rightarrow> docid_sink \<Rightarrow> docid_sink result" where
  "prefix_query h idx pre sink =
     and_then (prefix_terms h idx pre) (\<lambda>hits. emit_docid_union h idx (map hit_posting hits) sink)"

definition emit_expanded_docid_union ::
  "host \<Rightarrow> logical_index_reader \<Rightarrow> term_bytes \<Rightarrow> (term_bytes \<Rightarrow> bool) \<Rightarrow> docid_sink \<Rightarrow> docid_sink result" where
  "emit_expanded_docid_union h idx enum_prefix matches sink =
     and_then (prefix_terms h idx enum_prefix) (\<lambda>hits.
     emit_docid_union h idx (map hit_posting (filter (\<lambda>x. matches (ph_term x)) hits)) sink)"

definition wildcard_query :: "host \<Rightarrow> logical_index_reader \<Rightarrow> byte list \<Rightarrow> docid_sink \<Rightarrow> docid_sink result" where
  "wildcard_query h idx pattern sink =
     emit_expanded_docid_union h idx (literal_prefix_for_wildcard pattern) (wildcard_match pattern) sink"

text \<open>\<open>std::regex\<close> is the parameter \<open>regex\<close>: the matcher of a pattern, or \<open>None\<close> where its constructor
  throws \<open>std::regex_error\<close>.\<close>

definition regexp_query ::
  "(byte list \<Rightarrow> (term_bytes \<Rightarrow> bool) option) \<Rightarrow> host \<Rightarrow> logical_index_reader \<Rightarrow> byte list \<Rightarrow> docid_sink \<Rightarrow> docid_sink result" where
  "regexp_query regex h idx pattern sink =
     (case regex pattern of
        None \<Rightarrow> InvalidArgument
      | Some matches \<Rightarrow> emit_expanded_docid_union h idx (literal_prefix_for_regex pattern) matches sink)"

end
