(* ===== verification/Logical_Index_Correct.thy ===== *)
theory Logical_Index_Correct
  imports Logical_Index_Reader
begin

text \<open>
  Correctness of the index reader. \<open>index_image\<close> says what a file must hold for an index: the blocks
  of a dictionary, in order, where the directory says they are, the frames of its meta block, and a
  filter into which every term was inserted. On such a file the reader opens, and lookup and
  enumeration are those of the dictionary.
\<close>

subsection \<open>What a file holds\<close>

record block_image =
  bi_entries :: "dict_entry list"
  bi_frq_base :: u64
  bi_prx_base :: u64
  bi_anchor_interval :: u32
  bi_ref :: block_ref

definition block_plain :: "index_tier \<Rightarrow> bool \<Rightarrow> block_image \<Rightarrow> byte list" where
  "block_plain t p b =
     dict_block_finish (built t p (bi_frq_base b) (bi_prx_base b) (bi_anchor_interval b) (bi_entries b)) []"

definition block_stored :: "zstd_lib \<Rightarrow> byte list \<Rightarrow> index_tier \<Rightarrow> bool \<Rightarrow> block_image \<Rightarrow> bool" where
  "block_stored z contents t p b =
     (let ref = bi_ref b; plain = block_plain t p b;
          stored = file_slice contents (br_offset ref) (br_length ref) in
      bi_entries b \<noteq> [] \<and> length (bi_entries b) < 2 ^ 32 \<and> (\<forall>e \<in> set (bi_entries b). entry_fits t e) \<and>
      length plain < 2 ^ 32 \<and> block_ref_ok ref \<and>
      unat (br_offset ref) + unat (br_length ref) \<le> length contents \<and>
      (if br_flags ref AND block_ref_kZstd \<noteq> 0
       then unat (br_uncomp_len ref) = length plain \<and> length plain \<le> unat kMaxDictBlockUncompBytes \<and>
            zstd_decompress z stored (length plain) = Inr plain
       else stored = plain))"

definition bsbf_stored :: "byte list \<Rightarrow> region_ref \<Rightarrow> u64 set \<Rightarrow> bool" where
  "bsbf_stored contents ref hs =
     (rr_length ref = 0 \<or>
      (\<exists>bits ndv fpp avx b0 hashes sect pre post.
         bsbf_create bits ndv fpp = Inr b0 \<and> hs \<subseteq> set hashes \<and>
         bsbf_serialize (fold (bsbf_insert avx) hashes b0) [] = Inr sect \<and>
         contents = pre @ sect @ post \<and> unat (rr_offset ref) = length pre \<and> unat (rr_length ref) = length sect))"

text \<open>The dictionary: every term of the blocks with what a lookup of it returns.\<close>

definition hit_of :: "index_tier \<Rightarrow> bool \<Rightarrow> block_image \<Rightarrow> dict_entry \<Rightarrow> prefix_hit" where
  "hit_of t p b e =
     \<lparr>ph_term = de_term e, ph_entry = stored_entry t e, ph_frq_base = bi_frq_base b,
      ph_prx_base = (if p then bi_prx_base b else 0)\<rparr>"

definition dictionary :: "index_tier \<Rightarrow> bool \<Rightarrow> block_image list \<Rightarrow> prefix_hit list" where
  "dictionary t p bs = concat (map (\<lambda>b. map (hit_of t p b) (bi_entries b)) bs)"

definition index_image ::
  "host \<Rightarrow> byte list \<Rightarrow> index_tier \<Rightarrow> bool \<Rightarrow> per_index_meta_builder \<Rightarrow> block_image list \<Rightarrow> bool" where
  "index_image h contents t p m bs =
     (length contents < 2 ^ 64 \<and> length bs < 2 ^ 32 \<and>
      (\<forall>b \<in> set bs. block_stored (host_zstd h) contents t p b) \<and>
      sorted_wrt (<) (map ph_term (dictionary t p bs)) \<and>
      bsbf_stored contents (sr_bsbf (pmb_section_refs m))
        (bsbf_hash (host_xxh64 h) ` ph_term ` set (dictionary t p bs)) \<and>
      length (pmb_index_suffix m) \<le> unat kMaxSuffixLen \<and> pmb_extra_sections m = [] \<and>
      length (pmb_sampled_term_index m) < 2 ^ 64 \<and> length (pmb_dict_block_directory m) < 2 ^ 64 \<and>
      pmb_sampled_term_index m = sampled_finish (map (de_term \<circ> hd \<circ> bi_entries) bs) [] \<and>
      pmb_dict_block_directory m = dict_block_directory_finish (map bi_ref bs) [])"

subsection \<open>The filter\<close>

lemma resident_block:
  fixes hash :: u64
  assumes "bsbf_wf b"
  defines "i \<equiv> unat (bsbf_block_index hash (bb_num_blocks b)) * unat kBsbfBytesPerBlock"
  shows "and_then (subslice (bitset_bytes (bb_words b)) i (unat kBsbfBytesPerBlock))
      (\<lambda>block. Inr (bsbf_block_contains avx hash block)) = Inr (holds_hash b hash)"
proof -
  have fit: "block_base b hash + 8 \<le> length (bb_words b)" by (rule block_base_fits(1) [OF assms(1)])
  have i: "i = 4 * block_base b hash" by (simp add: i_def block_base_def kBsbfBytesPerBlock_def)
  have "subslice (bitset_bytes (bb_words b)) i 32 = Inr (take 32 (drop (4 * block_base b hash) (bitset_bytes (bb_words b))))"
    using fit by (simp add: i)
  then show ?thesis
    using block_contains_bits [OF fit, of hash]
    by (simp add: kBsbfBytesPerBlock_def bsbf_block_contains_def block_contains_avx2_scalar holds_hash_def)
qed

abbreviation with_bsbf :: "bsbf_header \<Rightarrow> bool \<Rightarrow> bool \<Rightarrow> byte list \<Rightarrow> logical_index_reader \<Rightarrow> logical_index_reader" where
  "with_bsbf hdr has res bits r \<equiv>
     r\<lparr>lr_bsbf_header := hdr, lr_has_bsbf := has, lr_bsbf_resident := res, lr_bsbf_resident_bitset := bits\<rparr>"

lemma open_bsbf_stored:
  assumes st: "bsbf_stored contents ref hs" and len: "length contents < 2 ^ 64"
    and rd: "lr_read_at out = read_file contents" and no: "\<not> lr_has_bsbf out" "\<not> lr_bsbf_resident out"
  obtains hdr has res bits pass where
    "open_bsbf h ref out = Inr (with_bsbf hdr has res bits out)"
    and "\<And>t. bsbf_maybe h (with_bsbf hdr has res bits out) t = Inr (pass (bsbf_hash (host_xxh64 h) t))"
    and "\<And>g. g \<in> hs \<Longrightarrow> pass g"
proof (cases "rr_length ref = 0")
  case True
  then have "open_bsbf h ref out = Inr (with_bsbf (lr_bsbf_header out) False (lr_bsbf_resident out) (lr_bsbf_resident_bitset out) out)"
    using no by (simp add: open_bsbf_def)
  then show ?thesis by (rule that [where pass = "\<lambda>_. True"]) (simp_all add: bsbf_maybe_def)
next
  case False
  then obtain bits ndv fpp avx b0 hashes sect pre post where
    c: "bsbf_create bits ndv fpp = Inr b0" and sub: "hs \<subseteq> set hashes"
    and s: "bsbf_serialize (fold (bsbf_insert avx) hashes b0) [] = Inr sect"
    and fl: "contents = pre @ sect @ post" "unat (rr_offset ref) = length pre" "unat (rr_length ref) = length sect"
    using st by (auto simp: bsbf_stored_def)
  define b where "b = fold (bsbf_insert avx) hashes b0"
  have wf: "bsbf_wf b" and all: "\<forall>g \<in> set hashes. holds_hash b g"
    using bsbf_inserts [OF bsbf_create_wf [OF c], of avx hashes] by (auto simp: b_def)
  have sect: "sect = bsbf_header_bytes b @ bitset_bytes (bb_words b)"
    using s bsbf_serialize_bytes [OF wf, of "[]"] by (simp add: b_def)
  obtain hdr where hdr: "bsbf_header_parse (bsbf_header_bytes b) (rr_offset ref) = Inr hdr"
    and hd: "bh_num_bytes hdr = bb_num_bytes b" "bh_num_blocks hdr = bb_num_blocks b"
      "bh_bitset_crc hdr = crc32c (bitset_bytes (bb_words b))"
    using bsbf_header_parse_bytes [OF wf] by auto
  have nb: "unat (bb_num_bytes b) = 4 * length (bb_words b)" "0 < length (bb_words b)"
    using bsbf_wf_bytes [OF wf] by simp_all
  have off: "rr_offset ref = of_nat (length pre)" by (simp flip: fl(2))
  have ul: "unat (rr_length ref) = 28 + 4 * length (bb_words b)" using fl(3) by (simp add: sect)
  then have large: "\<not> rr_length ref \<le> of_nat kBsbfHeaderSize" and pos: "0 < rr_length ref"
    using nb(2) by (simp_all add: word_le_nat_alt word_less_nat_alt kBsbfHeaderSize_def)
  have num: "ucast (bb_num_bytes b) = rr_length ref - of_nat kBsbfHeaderSize"
    using ul nb(1) by (simp add: word_unat_eq_iff unat_sub word_le_nat_alt kBsbfHeaderSize_def)
  let ?res = "rr_length ref \<le> bsbf_resident_max_bytes h"
  let ?n = "if ?res then rr_length ref else of_nat kBsbfHeaderSize"
  have n: "unat ?n = (if ?res then length sect else 28)" using fl(3) by (simp add: kBsbfHeaderSize_def)
  have "length sect \<ge> 28" by (simp add: sect)
  then have "read_file contents (rr_offset ref) ?n = Inr (take (unat ?n) sect)"
    using file_image.read_complete [OF len, of "rr_offset ref" ?n] n fl(1,2)
    by (simp add: file_slice_def split: if_splits)
  then have rd': "lr_read_at out (rr_offset ref) ?n = Inr (if ?res then sect else bsbf_header_bytes b)"
    by (simp add: rd n sect)
  let ?bits = "if ?res then bitset_bytes (bb_words b) else lr_bsbf_resident_bitset out"
  have sub': "subslice sect kBsbfHeaderSize (unat (bb_num_bytes b)) = Inr (bitset_bytes (bb_words b))"
    by (simp add: sect kBsbfHeaderSize_def nb(1))
  have tk: "take kBsbfHeaderSize (if ?res then sect else bsbf_header_bytes b) = bsbf_header_bytes b"
    by (simp add: sect kBsbfHeaderSize_def)
  have lh: "\<not> length (if ?res then sect else bsbf_header_bytes b) < kBsbfHeaderSize"
    by (simp add: sect kBsbfHeaderSize_def)
  have nr: "out\<lparr>lr_bsbf_header := hdr, lr_has_bsbf := True\<rparr> =
      out\<lparr>lr_bsbf_header := hdr, lr_has_bsbf := True, lr_bsbf_resident := False\<rparr>"
    using no(2) by (cases out) simp
  have op: "open_bsbf h ref out = Inr (with_bsbf hdr True ?res ?bits out)"
    unfolding open_bsbf_def Let_def using large pos lh
    by (simp add: rd' tk hdr hd num sub' fl(3)) (intro impI, rule nr)
  show ?thesis
  proof (rule that [OF op, where pass = "holds_hash b"])
    fix t
    show "bsbf_maybe h (with_bsbf hdr True ?res ?bits out) t =
        Inr (holds_hash b (bsbf_hash (host_xxh64 h) t))"
    proof (cases ?res)
      case True
      then show ?thesis by (simp add: bsbf_maybe_def hd resident_block [OF wf] Let_def)
    next
      case False
      have "bsbf_header_parse (bsbf_header_bytes b) (of_nat (length pre)) = Inr hdr" using hdr off by simp
      from bsbf_probe_file [OF wf _ len this] False fl(1) show ?thesis
        by (simp add: bsbf_maybe_def rd sect Let_def)
    qed
  next
    fix g assume "g \<in> hs"
    then show "holds_hash b g" using sub all by auto
  qed
qed

subsection \<open>Blocks\<close>

lemma block_plain_nonempty: "0 < length (block_plain t p b)"
proof -
  have "0 < length (sink @ le_bytes 4 (v :: u32))" for sink v by simp
  then show ?thesis
    unfolding block_plain_def dict_block_finish_def Let_def by (simp only: put_fixed32_def split: prod.splits) blast
qed

lemma load_stored_block:
  assumes st: "block_stored (host_zstd h) contents t p b" and len: "length contents < 2 ^ 64"
    and r: "lr_read_at r = read_file contents" "lr_tier r = t" "lr_has_positions r = p"
  obtains br where "load_dict_block h r (bi_ref b) = Inr br"
    and "dbr_frq_base br = bi_frq_base b" and "dbr_prx_base br = (if p then bi_prx_base b else 0)"
    and "decode_all br = Inr (map (stored_entry t) (bi_entries b))"
    and "\<And>target. sorted_wrt (<) (map de_term (bi_entries b)) \<Longrightarrow>
      find_term br target = Inr (map_option (stored_entry t) (find (\<lambda>e. de_term e = target) (bi_entries b)))"
proof -
  let ?ref = "bi_ref b" and ?plain = "block_plain t p b"
  let ?stored = "file_slice contents (br_offset ?ref) (br_length ?ref)"
  have fit: "length (bi_entries b) < 2 ^ 32" "\<forall>e \<in> set (bi_entries b). entry_fits t e" "length ?plain < 2 ^ 32"
    and rng: "unat (br_offset ?ref) + unat (br_length ?ref) \<le> length contents"
    using st by (simp_all add: block_stored_def Let_def)
  have rd: "lr_read_at r (br_offset ?ref) (br_length ?ref) = Inr ?stored"
    unfolding r by (rule file_image.read_complete [OF len rng])
  have ld: "load_dict_block h r ?ref = dict_block_open ?plain t p"
  proof (cases "br_flags ?ref AND block_ref_kZstd = 0")
    case True
    with st rd show ?thesis by (simp add: load_dict_block_def block_stored_def Let_def r)
  next
    case False
    with st have u: "unat (br_uncomp_len ?ref) = length ?plain" "length ?plain \<le> unat kMaxDictBlockUncompBytes"
      and z: "zstd_decompress (host_zstd h) ?stored (length ?plain) = Inr ?plain"
      by (simp_all add: block_stored_def Let_def)
    have "br_uncomp_len ?ref \<noteq> 0" using u(1) block_plain_nonempty [of t p b] by auto
    moreover have "\<not> br_uncomp_len ?ref > kMaxDictBlockUncompBytes" using u by (simp add: word_less_nat_alt)
    ultimately show ?thesis using False rd u(1) z by (simp add: load_dict_block_def r)
  qed
  show ?thesis
    by (rule dict_block_reopened [OF fit(1,2) fit(3) [unfolded block_plain_def]])
      (rule that, simp_all add: ld block_plain_def)
qed

text \<open>The reader of an image, and its dictionary block by block.\<close>

definition reads_image :: "host \<Rightarrow> byte list \<Rightarrow> index_tier \<Rightarrow> bool \<Rightarrow> block_image list \<Rightarrow> logical_index_reader \<Rightarrow> bool" where
  "reads_image h contents t p bs r =
     (length contents < 2 ^ 64 \<and> length bs < 2 ^ 32 \<and>
      (\<forall>b \<in> set bs. block_stored (host_zstd h) contents t p b) \<and>
      sorted_wrt (<) (map ph_term (dictionary t p bs)) \<and>
      lr_read_at r = read_file contents \<and> lr_tier r = t \<and> lr_has_positions r = p \<and>
      lr_sti r = map (de_term \<circ> hd \<circ> bi_entries) bs \<and> lr_dbd r = map bi_ref bs \<and>
      (\<exists>pass. (\<forall>x. bsbf_maybe h r x = Inr (pass x)) \<and> (\<forall>hit \<in> set (dictionary t p bs). pass (ph_term hit))))"

definition hit_lists :: "index_tier \<Rightarrow> bool \<Rightarrow> block_image list \<Rightarrow> prefix_hit list list" where
  "hit_lists t p bs = map (\<lambda>b. map (hit_of t p b) (bi_entries b)) bs"

lemma dictionary_hit_lists: "dictionary t p bs = concat (hit_lists t p bs)"
  by (simp add: dictionary_def hit_lists_def)

lemma ph_term_hit_of [simp]: "ph_term (hit_of t p b e) = de_term e"
  by (simp add: hit_of_def)

lemma hit_heads:
  "\<forall>b \<in> set bs. bi_entries b \<noteq> [] \<Longrightarrow>
   map (ph_term \<circ> hd) (hit_lists t p bs) = map (de_term \<circ> hd \<circ> bi_entries) bs"
  by (simp add: hit_lists_def hd_map)

lemma sorted_block:
  assumes "sorted_wrt (<) (map ph_term (dictionary t p bs))" and "i < length bs"
  shows "sorted_wrt (<) (map de_term (bi_entries (bs ! i)))"
proof -
  have "sorted_wrt (<) (map ph_term (concat (hit_lists t p bs)))" using assms(1) by (simp add: dictionary_hit_lists)
  moreover have "i < length (hit_lists t p bs)" using assms(2) by (simp add: hit_lists_def)
  ultimately have "sorted_wrt (<) (map ph_term (hit_lists t p bs ! i))"
    by (subst (asm) id_take_nth_drop [of i "hit_lists t p bs"]) (simp_all add: sorted_wrt_append)
  then show ?thesis using assms(2) by (simp add: hit_lists_def comp_def)
qed

lemma find_hit_of:
  "map_option (\<lambda>x. (ph_entry x, ph_frq_base x, ph_prx_base x)) (find (\<lambda>x. ph_term x = target) (map (hit_of t p b) es)) =
   map_option (\<lambda>e. (stored_entry t e, bi_frq_base b, if p then bi_prx_base b else 0)) (find (\<lambda>e. de_term e = target) es)"
  by (induction es) (simp_all add: hit_of_def)

lemma lookup_image:
  assumes rd: "reads_image h contents t p bs r"
  shows "lookup h r target =
    Inr (map_option (\<lambda>x. (ph_entry x, ph_frq_base x, ph_prx_base x)) (find (\<lambda>x. ph_term x = target) (dictionary t p bs)))"
proof -
  let ?D = "dictionary t p bs" and ?H = "hit_lists t p bs" and ?ts = "map (de_term \<circ> hd \<circ> bi_entries) bs"
  have len: "length contents < 2 ^ 64" and n: "length bs < 2 ^ 32"
    and st: "\<forall>b \<in> set bs. block_stored (host_zstd h) contents t p b"
    and srt: "sorted_wrt (<) (map ph_term (concat ?H))"
    and r: "lr_read_at r = read_file contents" "lr_tier r = t" "lr_has_positions r = p" "lr_sti r = ?ts" "lr_dbd r = map bi_ref bs"
    using rd by (simp_all add: reads_image_def dictionary_hit_lists)
  obtain pass where pass: "bsbf_maybe h r x = Inr (pass x)" and ok: "\<forall>hit \<in> set ?D. pass (ph_term hit)" for x
    using rd by (auto simp: reads_image_def)
  have ne0: "\<forall>b \<in> set bs. bi_entries b \<noteq> []" using st by (simp add: block_stored_def Let_def)
  then have ne: "\<forall>s \<in> set ?H. s \<noteq> []" by (simp add: hit_lists_def)
  note heads = hit_heads [OF ne0, of t p]
  show ?thesis
  proof (cases "pass target")
    case False
    with ok have "find (\<lambda>x. ph_term x = target) ?D = None" unfolding find_None_iff by blast
    with False show ?thesis by (simp add: lookup_def pass)
  next
    case True
    show ?thesis
    proof (cases "?ts = [] \<or> target < hd ?ts")
      case before: True
      then have "?H = [] \<or> target < hd (map (ph_term \<circ> hd) ?H)" unfolding heads by (simp add: hit_lists_def)
      then have "find (\<lambda>x. ph_term x = target) (concat ?H) = None" by (rule find_before_heads [OF srt ne])
      moreover have "\<not> fst (locate ?ts target)" using before by (simp only: locate_absent)
      moreover obtain m w where "locate ?ts target = (m, w)" by fastforce
      ultimately show ?thesis by (simp add: lookup_def pass True r dictionary_hit_lists)
    next
      case False
      then have nz: "?ts \<noteq> []" "hd ?ts \<le> target" by auto
      have sts: "sorted ?ts" using sorted_heads [OF srt ne] heads by (metis strict_sorted_iff)
      let ?i = "unat (snd (locate ?ts target))"
      note loc = locate_spec [OF sts _ nz]
      have i: "?i < length bs" and f: "fst (locate ?ts target)" using loc(1,2) n by simp_all
      have find: "find (\<lambda>x. ph_term x = target) (concat ?H) = find (\<lambda>x. ph_term x = target) (?H ! ?i)"
      proof (rule find_concat_sorted [OF srt ne])
        have m: "ph_term (hd (?H ! j)) = ?ts ! j" if "j < length bs" for j
          using heads that by (metis (no_types, lifting) comp_apply length_map nth_map hit_lists_def)
        show "?i < length ?H" using i by (simp add: hit_lists_def)
        show "ph_term (hd (?H ! ?i)) \<le> target" using m [OF i] loc(3) [of ?i] n by simp
        show "target < ph_term (hd (?H ! Suc ?i))" if "Suc ?i < length ?H"
          using m [of "Suc ?i"] loc(4) [of "Suc ?i"] that n by (simp add: hit_lists_def)
      qed
      have "block_stored (host_zstd h) contents t p (bs ! ?i)" using st i by simp
      from load_stored_block [OF this len r(1-3)] obtain br where
        br: "load_dict_block h r (bi_ref (bs ! ?i)) = Inr br" "dbr_frq_base br = bi_frq_base (bs ! ?i)"
          "dbr_prx_base br = (if p then bi_prx_base (bs ! ?i) else 0)"
        and ft: "sorted_wrt (<) (map de_term (bi_entries (bs ! ?i))) \<Longrightarrow>
          find_term br target = Inr (map_option (stored_entry t) (find (\<lambda>e. de_term e = target) (bi_entries (bs ! ?i))))"
        by metis
      have srt': "sorted_wrt (<) (map ph_term (dictionary t p bs))" using srt by (simp add: dictionary_hit_lists)
      note ft = ft [OF sorted_block [OF srt' i]]
      obtain w where w: "locate ?ts target = (True, w)" using f by (cases "locate ?ts target") auto
      have "dict_block_directory_get (lr_dbd r) w = Inr (bi_ref (bs ! unat w))"
        using i w by (simp add: dict_block_directory_get_def r)
      then show ?thesis
        unfolding dictionary_hit_lists find using br ft i w
        by (simp add: lookup_def pass True r hit_lists_def find_hit_of option.map_comp comp_def)
    qed
  qed
qed

subsection \<open>Enumeration\<close>

lemma has_prefix_iff: "has_prefix pre t = prefix pre t"
  by (auto simp: has_prefix_def prefix_def) (metis append_take_drop_id)

lemma prefix_le: "prefix pre t \<Longrightarrow> pre \<le> (t :: term_bytes)"
  by (induction pre arbitrary: t) (auto simp: prefix_def)

lemma prefix_between:
  "pre \<le> s \<Longrightarrow> s < t \<Longrightarrow> prefix pre t \<Longrightarrow> prefix pre (s :: term_bytes)"
proof (induction pre arbitrary: s t)
  case (Cons c pre)
  from Cons.prems obtain d s' where s: "s = d # s'" by (cases s) auto
  from Cons.prems obtain t' where t: "t = c # t'" "prefix pre t'" by (cases t) auto
  from Cons.prems s t have "d = c" "pre \<le> s'" "s' < t'" by auto
  with Cons.IH [of s' t'] s t show ?case by simp
qed simp

text \<open>On sorted entries, stopping at the first term past the prefix range loses nothing.\<close>

definition past_prefix :: "term_bytes \<Rightarrow> prefix_hit \<Rightarrow> bool" where
  "past_prefix pre x = (\<not> ph_term x < pre \<and> \<not> prefix pre (ph_term x))"

lemma past_prefix_after:
  "past_prefix pre x \<Longrightarrow> ph_term x < ph_term y \<Longrightarrow> \<not> prefix pre (ph_term y)"
  using prefix_between by (auto simp: past_prefix_def not_less)

lemma collect_hits_image:
  assumes "sorted_wrt (<) (map de_term es)" and "dbr_frq_base br = bi_frq_base b"
    and "dbr_prx_base br = (if p then bi_prx_base b else 0)"
  shows "collect_hits pre br (map (stored_entry t) es) =
    (filter (\<lambda>x. prefix pre (ph_term x)) (map (hit_of t p b) es), \<exists>x \<in> set (map (hit_of t p b) es). past_prefix pre x)"
  using assms(1)
proof (induction es)
  case (Cons e es)
  have t: "de_term (stored_entry t e) = de_term e" by simp
  have h: "hit_of t p b e = \<lparr>ph_term = de_term e, ph_entry = stored_entry t e, ph_frq_base = dbr_frq_base br,
      ph_prx_base = dbr_prx_base br\<rparr>" by (simp add: hit_of_def assms)
  consider "de_term e < pre" | "\<not> de_term e < pre" "prefix pre (de_term e)" | "past_prefix pre (hit_of t p b e)"
    by (auto simp: past_prefix_def)
  then show ?case
  proof cases
    case 1
    then have "\<not> prefix pre (de_term e)" using prefix_le [of pre "de_term e"] by auto
    with 1 Cons show ?thesis by (simp add: t past_prefix_def)
  next
    case 2
    with Cons show ?thesis by (simp add: t has_prefix_iff past_prefix_def h)
  next
    case 3
    have "\<not> prefix pre (de_term x)" if "x \<in> set es" for x
      using past_prefix_after [OF 3, of "hit_of t p b x"] Cons.prems that by simp
    then have "filter (\<lambda>x. prefix pre (ph_term x)) (map (hit_of t p b) es) = []"
      by (simp add: filter_empty_conv)
    with 3 show ?thesis by (simp add: t has_prefix_iff past_prefix_def filter_map comp_def)
  qed
qed simp

lemma scan_blocks_image:
  assumes rd: "reads_image h contents t p bs r" and "i \<le> length bs"
  shows "scan_blocks h r pre [i..<length bs] =
    Inr (filter (\<lambda>x. prefix pre (ph_term x)) (concat (drop i (hit_lists t p bs))))"
  using assms(2)
proof (induction "length bs - i" arbitrary: i)
  case 0
  then show ?case by (simp add: hit_lists_def)
next
  case (Suc k)
  then have i: "i < length bs" by simp
  let ?H = "hit_lists t p bs"
  have len: "length contents < 2 ^ 64" and n: "length bs < 2 ^ 32"
    and st: "block_stored (host_zstd h) contents t p (bs ! i)"
    and srt: "sorted_wrt (<) (map ph_term (dictionary t p bs))"
    and r: "lr_read_at r = read_file contents" "lr_tier r = t" "lr_has_positions r = p" "lr_dbd r = map bi_ref bs"
    using rd i by (simp_all add: reads_image_def)
  from load_stored_block [OF st len r(1-3)] obtain br where
    br: "load_dict_block h r (bi_ref (bs ! i)) = Inr br"
    and bases: "dbr_frq_base br = bi_frq_base (bs ! i)" "dbr_prx_base br = (if p then bi_prx_base (bs ! i) else 0)"
    and all: "decode_all br = Inr (map (stored_entry t) (bi_entries (bs ! i)))" by metis
  have get: "dict_block_directory_get (lr_dbd r) (of_nat i) = Inr (bi_ref (bs ! i))"
    using i n by (simp add: dict_block_directory_get_def r)
  let ?hs = "map (hit_of t p (bs ! i)) (bi_entries (bs ! i))"
  have hi: "?H ! i = ?hs" and d: "drop i ?H = ?hs # drop (Suc i) ?H"
    using i by (simp_all add: hit_lists_def Cons_nth_drop_Suc [symmetric])
  have up: "[i..<length bs] = i # [Suc i..<length bs]" using i by (simp add: upt_conv_Cons)
  have IH: "scan_blocks h r pre [Suc i..<length bs] =
      Inr (filter (\<lambda>x. prefix pre (ph_term x)) (concat (drop (Suc i) ?H)))"
    using Suc.hyps i by simp
  have after: "filter (\<lambda>x. prefix pre (ph_term x)) (concat (drop (Suc i) ?H)) = []"
    if "x \<in> set ?hs" "past_prefix pre x" for x
  proof -
    have "sorted_wrt (<) (map ph_term (concat (drop i ?H)))"
      using srt by (simp add: dictionary_hit_lists)
        (metis append_take_drop_id concat_append map_append sorted_wrt_append)
    then have "ph_term x < ph_term y" if "y \<in> set (concat (drop (Suc i) ?H))" for y
      using that \<open>x \<in> set ?hs\<close> unfolding d by (auto simp: sorted_wrt_append)
    with that(2) show ?thesis by (auto simp: filter_empty_conv dest: past_prefix_after)
  qed
  show ?case
    unfolding up d
    using collect_hits_image [OF sorted_block [OF srt i] bases, where pre = pre and t = t] after
    by (cases "\<exists>x \<in> set ?hs. past_prefix pre x") (auto simp: get br all IH)
qed

lemma prefix_terms_image:
  assumes rd: "reads_image h contents t p bs r"
  shows "prefix_terms h r pre = Inr (filter (\<lambda>x. prefix pre (ph_term x)) (dictionary t p bs))"
proof -
  let ?H = "hit_lists t p bs" and ?ts = "map (de_term \<circ> hd \<circ> bi_entries) bs"
  have n: "length bs < 2 ^ 32" and srt: "sorted_wrt (<) (map ph_term (concat ?H))"
    and r: "lr_sti r = ?ts" "lr_dbd r = map bi_ref bs" and ne0: "\<forall>b \<in> set bs. bi_entries b \<noteq> []"
    using rd by (auto simp: reads_image_def dictionary_hit_lists block_stored_def Let_def)
  from ne0 have ne: "\<forall>s \<in> set ?H. s \<noteq> []" by (simp add: hit_lists_def)
  note heads = hit_heads [OF ne0, of t p]
  define start where "start = (if pre \<noteq> [] \<and> fst (locate ?ts pre) then unat (snd (locate ?ts pre)) else 0)"
  have nb: "unat (n_blocks (lr_dbd r)) = length bs" using n by (simp add: n_blocks_def r)
  have pt: "prefix_terms h r pre = scan_blocks h r pre [start..<length bs]"
    unfolding prefix_terms_def start_def nb Let_def unfolding r by (cases "locate ?ts pre") simp
  have st: "start \<le> length bs \<and> (\<forall>x \<in> set (concat (take start ?H)). ph_term x < pre)"
  proof (cases "pre \<noteq> [] \<and> fst (locate ?ts pre)")
    case True
    then have nz: "?ts \<noteq> []" "hd ?ts \<le> pre" using locate_absent [of ?ts pre] by auto
    have sts: "sorted ?ts" using sorted_heads [OF srt ne] heads by (metis strict_sorted_iff)
    note loc = locate_spec [OF sts _ nz]
    have s: "start < length bs" using loc(2) n True by (simp add: start_def)
    then have sH: "start < length ?H" by (simp add: hit_lists_def)
    have "ph_term (hd (?H ! start)) = ?ts ! start"
      using heads s by (metis (no_types, lifting) comp_apply length_map nth_map hit_lists_def)
    then have hd: "ph_term (hd (?H ! start)) \<le> pre" using loc(3) [of start] n True by (simp add: start_def)
    have "ph_term x < pre" if "x \<in> set (concat (take start ?H))" for x
    proof -
      have "hd (?H ! start) \<in> set (?H ! start)" using ne sH by simp
      then have "ph_term x < ph_term (hd (?H ! start))"
        using srt that by (subst (asm) id_take_nth_drop [OF sH]) (auto simp: sorted_wrt_append)
      with hd show ?thesis by simp
    qed
    with s show ?thesis by simp
  next
    case False
    then have "start = 0" unfolding start_def by (simp only: if_False)
    then show ?thesis by simp
  qed
  then have none: "filter (\<lambda>x. prefix pre (ph_term x)) (concat (take start ?H)) = []"
    using prefix_le [of pre] unfolding filter_empty_conv by (meson leD)
  have "dictionary t p bs = concat (take start ?H) @ concat (drop start ?H)"
    by (simp add: dictionary_hit_lists flip: concat_append)
  then show ?thesis using pt scan_blocks_image [OF rd, of start pre] st none by simp
qed

subsection \<open>The interface of the query layer\<close>

text \<open>What query operators rely on: an index stands for a dictionary, which lookup searches and
  \<open>prefix_terms\<close> filters.\<close>

locale term_dictionary =
  fixes lookup :: "'i \<Rightarrow> term_bytes \<Rightarrow> (dict_entry \<times> u64 \<times> u64) option result"
    and prefix_terms :: "'i \<Rightarrow> term_bytes \<Rightarrow> prefix_hit list result"
    and represents :: "'i \<Rightarrow> prefix_hit list \<Rightarrow> bool"
  assumes lookup_law: "represents i d \<Longrightarrow> lookup i x =
      Inr (map_option (\<lambda>hit. (ph_entry hit, ph_frq_base hit, ph_prx_base hit)) (find (\<lambda>hit. ph_term hit = x) d))"
    and prefix_law: "represents i d \<Longrightarrow> prefix_terms i pre = Inr (filter (\<lambda>hit. prefix pre (ph_term hit)) d)"
    and sorted_law: "represents i d \<Longrightarrow> sorted_wrt (<) (map ph_term d)"
begin

lemma find_hit: "represents i d \<Longrightarrow> hit \<in> set d \<Longrightarrow> find (\<lambda>y. ph_term y = ph_term hit) d = Some hit"
proof -
  assume "represents i d" and hit: "hit \<in> set d"
  then have "distinct (map ph_term d)" using sorted_law by (metis strict_sorted_iff)
  with hit show ?thesis by (induction d) auto
qed

lemma lookup_present: "represents i d \<Longrightarrow> hit \<in> set d \<Longrightarrow>
   lookup i (ph_term hit) = Inr (Some (ph_entry hit, ph_frq_base hit, ph_prx_base hit))"
  by (simp add: lookup_law find_hit)

lemma lookup_absent: "represents i d \<Longrightarrow> x \<notin> ph_term ` set d \<Longrightarrow> lookup i x = Inr None"
proof -
  assume "represents i d" and x: "x \<notin> ph_term ` set d"
  have "find (\<lambda>hit. ph_term hit = x) d = None" unfolding find_None_iff using x by blast
  with \<open>represents i d\<close> show ?thesis by (simp add: lookup_law)
qed

text \<open>Lookup and enumeration agree.\<close>

lemma prefix_finds: "represents i d \<Longrightarrow> prefix_terms i pre = Inr hits \<Longrightarrow> hit \<in> set hits \<Longrightarrow>
   prefix pre (ph_term hit) \<and> lookup i (ph_term hit) = Inr (Some (ph_entry hit, ph_frq_base hit, ph_prx_base hit))"
  by (auto simp: prefix_law lookup_present)

end

definition reader_represents :: "host \<Rightarrow> logical_index_reader \<Rightarrow> prefix_hit list \<Rightarrow> bool" where
  "reader_represents h r d = (\<exists>contents t p bs. reads_image h contents t p bs r \<and> d = dictionary t p bs)"

interpretation index_dictionary: term_dictionary "lookup h" "prefix_terms h" "reader_represents h" for h
proof unfold_locales
  fix i d x pre assume "reader_represents h i d"
  then obtain contents t p bs where im: "reads_image h contents t p bs i" and d: "d = dictionary t p bs"
    by (auto simp: reader_represents_def)
  show "lookup h i x = Inr (map_option (\<lambda>hit. (ph_entry hit, ph_frq_base hit, ph_prx_base hit)) (find (\<lambda>hit. ph_term hit = x) d))"
    unfolding d by (rule lookup_image [OF im])
  show "prefix_terms h i pre = Inr (filter (\<lambda>hit. prefix pre (ph_term hit)) d)"
    unfolding d by (rule prefix_terms_image [OF im])
  show "sorted_wrt (<) (map ph_term d)" using im unfolding d reads_image_def by blast
qed

lemma open_image:
  assumes im: "index_image h contents t p m bs"
  obtains r where "logical_index_open h (read_file contents) t p (per_index_meta_finish m []) = Inr r"
    and "reads_image h contents t p bs r" and "lr_meta r = meta_reader_of m"
proof -
  let ?ts = "map (de_term \<circ> hd \<circ> bi_entries) bs" and ?refs = "map bi_ref bs"
  have len: "length contents < 2 ^ 64" and n: "length bs < 2 ^ 32"
    and st: "\<forall>b \<in> set bs. block_stored (host_zstd h) contents t p b"
    and srt: "sorted_wrt (<) (map ph_term (dictionary t p bs))"
    and bl: "bsbf_stored contents (sr_bsbf (pmb_section_refs m)) (bsbf_hash (host_xxh64 h) ` ph_term ` set (dictionary t p bs))"
    and m: "length (pmb_index_suffix m) \<le> unat kMaxSuffixLen" "pmb_extra_sections m = []"
      "length (pmb_sampled_term_index m) < 2 ^ 64" "length (pmb_dict_block_directory m) < 2 ^ 64"
      "pmb_sampled_term_index m = sampled_finish ?ts []" "pmb_dict_block_directory m = dict_block_directory_finish ?refs []"
    using im unfolding index_image_def by blast+
  let ?s = "sampled_payload ?ts" and ?d = "dict_dir.refs_payload ?refs"
  have s: "length ?s < 2 ^ 64" using m(3) unfolding m(5) by (simp add: sampled_finish_bytes length_frame_bytes)
  have d: "length ?d < 2 ^ 64" using m(4) unfolding m(6) by (simp add: dict_block_directory_finish_bytes length_frame_bytes)
  have "meta_frames_ok m ?s ?d []"
    using s d m by (simp add: meta_frames_ok_def sampled_finish_bytes dict_block_directory_finish_bytes)
  then have meta: "per_index_meta_open (per_index_meta_finish m []) = Inr (meta_reader_of m)"
    by (rule per_index_meta_open_finish [OF _ m(1)])
  have ne: "bi_entries b \<noteq> []" "\<forall>e \<in> set (bi_entries b). entry_fits t e" "block_ref_ok (bi_ref b)" if "b \<in> set bs" for b
    using st that by (auto simp: block_stored_def Let_def)
  have sti: "sampled_open (pmb_sampled_term_index m) = Inr ?ts"
    unfolding m(5) using n s ne by (intro sampled_roundtrip) (auto simp: entry_fits_def)
  have dbd: "dict_block_directory_open (pmb_dict_block_directory m) = Inr ?refs"
    unfolding m(6) using n d ne by (intro dict_block_directory_roundtrip) (auto simp: list_all_iff)
  let ?r = "\<lparr>lr_read_at = read_file contents, lr_tier = t, lr_has_positions = p, lr_meta = meta_reader_of m, lr_sti = ?ts,
      lr_dbd = ?refs, lr_bsbf_header = no_bsbf_header, lr_has_bsbf = False, lr_bsbf_resident = False,
      lr_bsbf_resident_bitset = []\<rparr>"
  have op: "logical_index_open h (read_file contents) t p (per_index_meta_finish m []) = open_bsbf h (sr_bsbf (pmb_section_refs m)) ?r"
    using meta sti dbd by (simp add: logical_index_open_def meta_reader_of_def)
  show ?thesis
  proof (rule open_bsbf_stored [OF bl len, of ?r h])
    fix hdr has res bits pass
    assume o: "open_bsbf h (sr_bsbf (pmb_section_refs m)) ?r = Inr (with_bsbf hdr has res bits ?r)"
      and p: "\<And>x. bsbf_maybe h (with_bsbf hdr has res bits ?r) x = Inr (pass (bsbf_hash (host_xxh64 h) x))"
      and a: "\<And>g. g \<in> bsbf_hash (host_xxh64 h) ` ph_term ` set (dictionary t p bs) \<Longrightarrow> pass g"
    show ?thesis
    proof (rule that [of "with_bsbf hdr has res bits ?r"])
      have "\<exists>pass. (\<forall>x. bsbf_maybe h (with_bsbf hdr has res bits ?r) x = Inr (pass x)) \<and>
          (\<forall>hit \<in> set (dictionary t p bs). pass (ph_term hit))"
        using p a by (intro exI [of _ "\<lambda>x. pass (bsbf_hash (host_xxh64 h) x)"]) blast
      with len n st srt show "reads_image h contents t p bs (with_bsbf hdr has res bits ?r)"
        unfolding reads_image_def by simp
    qed (use op o in simp_all)
  qed simp_all
qed

subsection \<open>Correctness\<close>

text \<open>C5: on a file that holds an index, the reader opens; looking a term up returns the entry and the
  posting bases stored for it, or absence, and enumerating a prefix returns exactly the terms that
  have it, in order. The filter, the sampled index, the directory, the (possibly compressed) blocks
  and the meta block cooperate, resident filter or not.\<close>

theorem logical_index_reads_dictionary:
  assumes "index_image h contents t p m bs"
  shows "\<exists>r. logical_index_open h (read_file contents) t p (per_index_meta_finish m []) = Inr r \<and>
    (\<forall>x. lookup h r x = Inr (map_option (\<lambda>hit. (ph_entry hit, ph_frq_base hit, ph_prx_base hit))
       (find (\<lambda>hit. ph_term hit = x) (dictionary t p bs)))) \<and>
    (\<forall>pre. prefix_terms h r pre = Inr (filter (\<lambda>hit. prefix pre (ph_term hit)) (dictionary t p bs)))"
proof -
  obtain r where r: "logical_index_open h (read_file contents) t p (per_index_meta_finish m []) = Inr r"
    and "reads_image h contents t p bs r" using open_image [OF assms] by blast
  then have "reader_represents h r (dictionary t p bs)" unfolding reader_represents_def by blast
  with r show ?thesis using index_dictionary.lookup_law index_dictionary.prefix_law by blast
qed

text \<open>An index of three terms in one compressed block, with its filter behind it.\<close>

definition sample_plain :: "byte list" where
  "sample_plain = dict_block_finish (built kT2 True 0 0 2 sample_entries) []"

definition sample_image_block :: block_image where
  "sample_image_block =
     \<lparr>bi_entries = sample_entries, bi_frq_base = 0, bi_prx_base = 0, bi_anchor_interval = 2,
      bi_ref = \<lparr>br_offset = 0, br_length = of_nat (length sample_plain), br_n_entries = 3, br_flags = 1,
        br_checksum = 0, br_uncomp_len = of_nat (length sample_plain)\<rparr>\<rparr>"

definition sample_meta :: "nat \<Rightarrow> per_index_meta_builder" where
  "sample_meta n =
     (per_index_meta_builder_new 7 [] 1)
       \<lparr>pmb_sampled_term_index := sampled_finish [de_term (hd sample_entries)] [],
        pmb_dict_block_directory := dict_block_directory_finish [bi_ref sample_image_block] [],
        pmb_section_refs := no_sections\<lparr>sr_bsbf := \<lparr>rr_offset = of_nat (length sample_plain), rr_length = of_nat n\<rparr>\<rparr>\<rparr>"

lemma length_sample_plain: "0 < length sample_plain" "length sample_plain < 1000"
  using block_plain_nonempty [of kT2 True sample_image_block] length_dict_block_finish [OF sample_block(1), of kT2 True 0 0 2]
  by (simp_all add: sample_plain_def sample_image_block_def block_plain_def sample_entries_def entry_size_bound_def sample_entry_def)

lemma sample_image:
  obtains sect where "index_image plain_host (sample_plain @ sect) kT2 True (sample_meta (length sect)) [sample_image_block]"
proof -
  obtain b where b: "bsbf_create (\<lambda>_ _. Num 300) 3 (Num (1 / 100)) = Inr b"
    using bsbf_create_ok [of "\<lambda>_ _. Num 300" "1 / 100" 3] by (auto simp: sizing_ok_def)
  let ?hs = "map (bsbf_hash (host_xxh64 plain_host) \<circ> de_term) sample_entries"
  let ?b = "fold (bsbf_insert True) ?hs b"
  have wf: "bsbf_wf ?b" using bsbf_inserts [OF bsbf_create_wf [OF b]] by blast
  then obtain sect where s: "bsbf_serialize ?b [] = Inr sect" and ls: "length sect = 28 + 4 * length (bb_words ?b)"
    using bsbf_serialize_bytes [OF wf, of "[]"] by simp
  have "4 * length (bb_words ?b) < 2 ^ 32" using bsbf_wf_bytes(1) [OF wf] unat_u32_less [of "bb_num_bytes ?b"] by simp
  then have l: "length sect < 2 ^ 33" using ls by simp
  note lp = length_sample_plain
  have pl: "block_plain kT2 True sample_image_block = sample_plain"
    by (simp add: block_plain_def sample_image_block_def sample_plain_def)
  have D: "ph_term ` set (dictionary kT2 True [sample_image_block]) = de_term ` set sample_entries"
    by (simp add: dictionary_def sample_image_block_def image_image)
  have "block_stored stored_zstd (sample_plain @ sect) kT2 True sample_image_block"
    unfolding block_stored_def Let_def pl using lp sample_block
    by (simp add: sample_image_block_def block_ref_ok_def block_ref_kZstd_def file_slice_def zstd_decompress_def
        stored_zstd_def kMaxDictBlockUncompBytes_def sample_entries_def)
  moreover have "bsbf_stored (sample_plain @ sect) (sr_bsbf (pmb_section_refs (sample_meta (length sect))))
      (bsbf_hash (host_xxh64 plain_host) ` ph_term ` set (dictionary kT2 True [sample_image_block]))"
    unfolding bsbf_stored_def D
    by (rule disjI2, rule exI, rule exI, rule exI, rule exI, rule exI, rule exI [of _ ?hs], rule exI [of _ sect],
        rule exI [of _ sample_plain], rule exI [of _ "[]"], intro conjI, rule b)
      (use s lp l in \<open>auto simp: sample_meta_def\<close>)
  moreover have "sorted_wrt (<) (map ph_term (dictionary kT2 True [sample_image_block]))"
    using sample_block(4) by (simp add: dictionary_def sample_image_block_def comp_def)
  moreover have "length (sampled_payload [de_term (hd sample_entries)]) \<le> 100"
    using length_term_key [of "[]" "de_term (hd sample_entries)"] varint32_len_le_5 [of 1]
    by (simp add: sampled_payload_def sample_entries_def sample_entry_def)
  then have "length (pmb_sampled_term_index (sample_meta n)) < 2 ^ 64" for n
    using length_frame_le [of 2 "sampled_payload [de_term (hd sample_entries)]"]
    by (simp add: sample_meta_def sampled_finish_bytes)
  moreover have "length (dict_dir.refs_payload [bi_ref sample_image_block]) \<le> 100"
    using length_block_ref_bytes [of "bi_ref sample_image_block"] varint32_len_le_5 [of 1]
    by (simp add: dict_dir.refs_payload_def)
  then have "length (pmb_dict_block_directory (sample_meta n)) < 2 ^ 64" for n
    using length_frame_le [of 3 "dict_dir.refs_payload [bi_ref sample_image_block]"]
    by (simp add: sample_meta_def dict_block_directory_finish_bytes)
  ultimately have "index_image plain_host (sample_plain @ sect) kT2 True (sample_meta (length sect)) [sample_image_block]"
    using lp l unfolding index_image_def
    by (simp add: sample_meta_def per_index_meta_builder_new_def sample_image_block_def plain_host_def)
  then show ?thesis by (rule that)
qed

theorem logical_index_reads_dictionary_witness:
  "\<exists>contents n r. logical_index_open plain_host (read_file contents) kT2 True (per_index_meta_finish (sample_meta n) []) = Inr r \<and>
    lookup plain_host r [98] = Inr (Some (stored_entry kT2 (sample_entry [98]), 0, 0)) \<and>
    lookup plain_host r [99, 1] = Inr None"
proof -
  obtain sect where "index_image plain_host (sample_plain @ sect) kT2 True (sample_meta (length sect)) [sample_image_block]"
    by (rule sample_image)
  from logical_index_reads_dictionary [OF this] obtain r where
    r: "logical_index_open plain_host (read_file (sample_plain @ sect)) kT2 True
      (per_index_meta_finish (sample_meta (length sect)) []) = Inr r"
    and l: "\<And>x. lookup plain_host r x = Inr (map_option (\<lambda>hit. (ph_entry hit, ph_frq_base hit, ph_prx_base hit))
       (find (\<lambda>hit. ph_term hit = x) (dictionary kT2 True [sample_image_block])))" by blast
  have "lookup plain_host r [98] = Inr (Some (stored_entry kT2 (sample_entry [98]), 0, 0))" "lookup plain_host r [99, 1] = Inr None"
    unfolding l by (simp_all add: dictionary_def sample_image_block_def sample_entries_def sample_entry_def hit_of_def)
  with r show ?thesis by blast
qed

end
