(* ===== verification/Query_Correct.thy ===== *)
theory Query_Correct
  imports Stored_Posting Docid_Queries Logical_Index_Correct
begin

text \<open>
  What the queries return. The content of an index is the list of its terms with their postings; on a
  file that stores it, every query returns the document ids that the content determines.
\<close>

subsection \<open>The content of an index\<close>

type_synonym content = "(prefix_hit \<times> chunk list) list"

definition hit_stored :: "host \<Rightarrow> byte list \<Rightarrow> logical_index_reader \<Rightarrow> bool \<Rightarrow> bool \<Rightarrow> prefix_hit \<Rightarrow> chunk list \<Rightarrow> bool" where
  "hit_stored h contents idx hf hp x =
     posting_stored (host_zstd h) contents (posting_region idx) hf hp (ph_entry x) (ph_frq_base x) (ph_prx_base x)"

definition index_holds :: "host \<Rightarrow> byte list \<Rightarrow> logical_index_reader \<Rightarrow> bool \<Rightarrow> bool \<Rightarrow> content \<Rightarrow> bool" where
  "index_holds h contents idx hf hp pcs =
     (host_ok h \<and> index_over contents idx \<and> lr_has_positions idx = hp \<and> reader_represents h idx (map fst pcs) \<and>
      (\<forall>(x, cs) \<in> set pcs. hit_stored h contents idx hf hp x cs))"

definition posting_for :: "content \<Rightarrow> term_bytes \<Rightarrow> chunk list" where
  "posting_for pcs t = (case find (\<lambda>(x, cs). ph_term x = t) pcs of None \<Rightarrow> [] | Some (x, cs) \<Rightarrow> cs)"

definition docs_for :: "content \<Rightarrow> term_bytes \<Rightarrow> u32 list" where
  "docs_for pcs t = posting_docs (posting_for pcs t)"

lemma find_fst: "find (\<lambda>x. P x) (map fst pcs) = map_option fst (find (\<lambda>(x, cs). P x) pcs)"
  by (induction pcs) auto

lemma index_holds_lookup:
  assumes "index_holds h contents idx hf hp pcs"
  shows "lookup h idx t = Inr (map_option (\<lambda>(x, cs). (ph_entry x, ph_frq_base x, ph_prx_base x)) (find (\<lambda>(x, cs). ph_term x = t) pcs))"
  using index_dictionary.lookup_law [of h idx "map fst pcs" t] assms
  by (simp add: index_holds_def find_fst option.map_comp comp_def case_prod_unfold)

lemma find_holds:
  assumes "index_holds h contents idx hf hp pcs" and "find (\<lambda>(x, cs). ph_term x = t) pcs = Some (x, cs)"
  shows "ph_term x = t" and "(x, cs) \<in> set pcs" and "hit_stored h contents idx hf hp x cs" and "posting_for pcs t = cs"
proof -
  obtain i where i: "i < length pcs" "ph_term x = t" "pcs ! i = (x, cs)" using assms(2) by (auto simp: find_Some_iff)
  then show "ph_term x = t" and m: "(x, cs) \<in> set pcs" by (auto dest: nth_mem)
  then show "hit_stored h contents idx hf hp x cs" using assms(1) by (auto simp: index_holds_def)
  show "posting_for pcs t = cs" by (simp add: posting_for_def assms(2))
qed

lemma posting_stored_ascending: "posting_stored z contents region hf hp e fb pb cs \<Longrightarrow> ascending (posting_docs cs)"
  by (simp add: posting_stored_def posting_docs_def)

lemma docs_for_ascending: "index_holds h contents idx hf hp pcs \<Longrightarrow> ascending (docs_for pcs t)"
  using find_holds [of h contents idx hf hp pcs t]
  by (cases "find (\<lambda>(x, cs). ph_term x = t) pcs")
    (auto simp: docs_for_def posting_for_def posting_docs_def hit_stored_def posting_stored_def split: prod.splits)

subsection \<open>Single terms and unions\<close>

lemma term_query_ok:
  assumes "index_holds h contents idx hf hp pcs"
  shows "term_query h idx t = Inr (docs_for pcs t)"
proof (cases "find (\<lambda>(x, cs). ph_term x = t) pcs")
  case None
  then show ?thesis
    by (simp add: term_query_def index_holds_lookup [OF assms] docs_for_def posting_for_def posting_docs_def)
next
  case (Some p)
  then obtain x cs where f: "find (\<lambda>(x, cs). ph_term x = t) pcs = Some (x, cs)" by (cases p) auto
  note h = find_holds [OF assms f]
  show ?thesis
    using read_docid_posting_ok [of h contents idx hf hp "ph_entry x" "ph_frq_base x" "ph_prx_base x" cs] assms h
    by (simp add: term_query_def index_holds_lookup [OF assms] f docs_for_def hit_stored_def index_holds_def)
qed

lemma emit_docid_union_ok:
  assumes st: "batch_stored h contents idx hf hp postings css"
  shows "emit_docid_union h idx postings sink = Inr (sink @ sorted_list_of_set (\<Union>cs \<in> set css. set (posting_docs cs)))"
proof (cases "postings = []")
  case True
  with st show ?thesis by (simp add: emit_docid_union_def batch_stored_def)
next
  case False
  have "\<forall>l \<in> set (map posting_docs css). ascending l"
    using st posting_stored_ascending by (fastforce simp: batch_stored_def list_all2_conv_all_nth in_set_conv_nth)
  then have "union_sorted_many (map posting_docs css) = sorted_list_of_set (\<Union>cs \<in> set css. set (posting_docs cs))"
    using union_sorted_many_spec [of "map posting_docs css"] ascending_unique [of "union_sorted_many (map posting_docs css)"]
    by (simp add: image_comp comp_def)
  with False show ?thesis
    by (simp add: emit_docid_union_def read_docid_postings_batched_ok [OF st] append_sorted_def Let_def)
qed

lemma lookup_all_ok:
  assumes ih: "index_holds h contents idx hf hp pcs"
  shows "\<exists>postings css. lookup_all h idx ts = Inr postings \<and> batch_stored h contents idx hf hp postings css \<and>
    (\<Union>cs \<in> set css. set (posting_docs cs)) = (\<Union>t \<in> set ts. set (docs_for pcs t))"
proof (induction ts)
  case Nil
  then show ?case using ih by (auto simp: batch_stored_def index_holds_def)
next
  case (Cons t ts)
  then obtain postings css where r: "lookup_all h idx ts = Inr postings" "batch_stored h contents idx hf hp postings css"
    "(\<Union>cs \<in> set css. set (posting_docs cs)) = (\<Union>t \<in> set ts. set (docs_for pcs t))" by blast
  show ?case
  proof (cases "find (\<lambda>(x, cs). ph_term x = t) pcs")
    case None
    with r show ?thesis
      by (auto simp: index_holds_lookup [OF ih] docs_for_def posting_for_def posting_docs_def)
  next
    case (Some p)
    then obtain x cs where f: "find (\<lambda>(x, cs). ph_term x = t) pcs = Some (x, cs)" by (cases p) auto
    note h = find_holds [OF ih f]
    let ?p = "\<lparr>rp_entry = ph_entry x, rp_frq_base = ph_frq_base x, rp_prx_base = ph_prx_base x\<rparr>"
    have "batch_stored h contents idx hf hp (?p # postings) (cs # css)"
      using r(2) h(3) by (simp add: batch_stored_def hit_stored_def)
    then show ?thesis
      using r h f by (intro exI [of _ "?p # postings"] exI [of _ "cs # css"]) (simp add: index_holds_lookup [OF ih] docs_for_def)
  qed
qed

lemma set_unique_terms: "set (unique_terms ts) = set ts"
  by (simp add: unique_terms_def)

lemma boolean_or_ok:
  assumes "index_holds h contents idx hf hp pcs"
  shows "boolean_or h idx ts sink = Inr (sink @ sorted_list_of_set (\<Union>t \<in> set ts. set (docs_for pcs t)))"
  using lookup_all_ok [OF assms, of "unique_terms ts"] by (auto simp: boolean_or_def emit_docid_union_ok set_unique_terms)

subsection \<open>Expansions\<close>

lemma batch_of_hits:
  assumes "index_holds h contents idx hf hp pcs"
  shows "batch_stored h contents idx hf hp (map hit_posting (filter P (map fst pcs))) (map snd (filter (P \<circ> fst) pcs))"
proof -
  have "map hit_posting (filter P (map fst pcs)) = map (hit_posting \<circ> fst) (filter (P \<circ> fst) pcs)"
    by (induction pcs) auto
  then show ?thesis
    using assms by (auto simp: index_holds_def batch_stored_def hit_posting_def hit_stored_def list_all2_conv_all_nth
        dest!: nth_mem split: prod.splits)
qed

lemma find_hit_content:
  assumes ih: "index_holds h contents idx hf hp pcs" and x: "(x, cs) \<in> set pcs"
  shows "find (\<lambda>(y, cs). ph_term y = ph_term x) pcs = Some (x, cs)"
proof -
  have "sorted_wrt (<) (map ph_term (map fst pcs))"
    by (rule index_dictionary.sorted_law [of h idx]) (use ih in \<open>simp add: index_holds_def\<close>)
  then have "distinct (map (ph_term \<circ> fst) pcs)" by (simp add: strict_sorted_iff)
  with x show ?thesis by (induction pcs) (auto simp: rev_image_eqI split: prod.splits)
qed

lemma posting_for_hit: "index_holds h contents idx hf hp pcs \<Longrightarrow> (x, cs) \<in> set pcs \<Longrightarrow> posting_for pcs (ph_term x) = cs"
  by (simp add: posting_for_def find_hit_content)

lemma docs_for_hit: "index_holds h contents idx hf hp pcs \<Longrightarrow> (x, cs) \<in> set pcs \<Longrightarrow> docs_for pcs (ph_term x) = posting_docs cs"
  by (simp add: docs_for_def posting_for_hit)

lemma expanded_ok:
  assumes ih: "index_holds h contents idx hf hp pcs"
  shows "emit_expanded_docid_union h idx pre matches sink =
    Inr (sink @ sorted_list_of_set (\<Union>t \<in> {t \<in> ph_term ` fst ` set pcs. prefix pre t \<and> matches t}. set (docs_for pcs t)))"
proof -
  let ?P = "\<lambda>x. prefix pre (ph_term x) \<and> matches (ph_term x)"
  have "filter (\<lambda>x. matches (ph_term x)) (filter (\<lambda>x. prefix pre (ph_term x)) (map fst pcs)) = filter ?P (map fst pcs)"
    by (simp add: conj_commute)
  moreover have "prefix_terms h idx pre = Inr (filter (\<lambda>x. prefix pre (ph_term x)) (map fst pcs))"
    using ih by (simp add: index_holds_def index_dictionary.prefix_law)
  moreover have "(\<Union>cs \<in> set (map snd (filter (?P \<circ> fst) pcs)). set (posting_docs cs)) =
      (\<Union>t \<in> {t \<in> ph_term ` fst ` set pcs. prefix pre t \<and> matches t}. set (docs_for pcs t))"
    by (force simp: docs_for_hit [OF ih])
  ultimately show ?thesis
    using emit_docid_union_ok [OF batch_of_hits [OF ih, of ?P]] by (simp add: emit_expanded_docid_union_def)
qed

lemma prefix_query_ok:
  assumes ih: "index_holds h contents idx hf hp pcs"
  shows "prefix_query h idx pre sink =
    Inr (sink @ sorted_list_of_set (\<Union>t \<in> {t \<in> ph_term ` fst ` set pcs. prefix pre t}. set (docs_for pcs t)))"
proof -
  have "prefix_query h idx pre sink = emit_expanded_docid_union h idx pre (\<lambda>_. True) sink"
    by (simp add: prefix_query_def emit_expanded_docid_union_def)
  then show ?thesis using expanded_ok [OF ih, of pre "\<lambda>_. True" sink] by simp
qed

lemma wildcard_query_ok:
  assumes ih: "index_holds h contents idx hf hp pcs"
  shows "wildcard_query h idx pattern sink =
    Inr (sink @ sorted_list_of_set (\<Union>t \<in> {t \<in> ph_term ` fst ` set pcs. wildcard_lang pattern t}. set (docs_for pcs t)))"
proof -
  have "(prefix (literal_prefix_for_wildcard pattern) t \<and> wildcard_match pattern t) = wildcard_lang pattern t" for t
    using literal_prefix_sound by (auto simp: wildcard_match_lang)
  then show ?thesis by (simp add: wildcard_query_def expanded_ok [OF ih])
qed

text \<open>A regular expression is matched against the terms that have its literal prefix.\<close>

lemma regexp_query_enumerates:
  assumes ih: "index_holds h contents idx hf hp pcs" and re: "regex pattern = Some matches"
  shows "regexp_query regex h idx pattern sink =
    Inr (sink @ sorted_list_of_set (\<Union>t \<in> {t \<in> ph_term ` fst ` set pcs. prefix (literal_prefix_for_regex pattern) t \<and> matches t}.
      set (docs_for pcs t)))"
  by (simp add: regexp_query_def re expanded_ok [OF ih])

lemma regexp_query_ok:
  assumes ih: "index_holds h contents idx hf hp pcs" and re: "regex pattern = Some matches"
    and b: "literal_prefix_binds matches pattern (ph_term ` fst ` set pcs)"
  shows "regexp_query regex h idx pattern sink =
    Inr (sink @ sorted_list_of_set (\<Union>t \<in> {t \<in> ph_term ` fst ` set pcs. matches t}. set (docs_for pcs t)))"
proof -
  have "{t \<in> ph_term ` fst ` set pcs. prefix (literal_prefix_for_regex pattern) t \<and> matches t} = {t \<in> ph_term ` fst ` set pcs. matches t}"
    using b by (auto simp: literal_prefix_binds_def)
  then show ?thesis using regexp_query_enumerates [of h contents idx hf hp pcs regex pattern matches sink, OF ih re] by simp
qed

end
