(* ===== verification/Written_Index.thy ===== *)
theory Written_Index
  imports Written_Posting Query_Correct
begin

text \<open>
  A built index is one the reader opens. The loop of the index writer over the terms keeps an invariant:
  the blocks flushed so far are DICT blocks of the terms before, the open block holds the others, and
  every entry stores the posting of its term in what was written to the container. At the end the
  file has the layout of \<open>index_image\<close>.
\<close>

subsection \<open>Accepting a term\<close>

lemma SumOf_freq_sum: "SumOf fs = of_nat (freq_sum fs)"
proof -
  have "foldl (\<lambda>s x. s + ucast x) a fs = a + (of_nat (freq_sum fs) :: u64)" for a :: u64
    by (induction fs arbitrary: a) (simp_all add: add.assoc)
  from this [of 0] show ?thesis by (simp add: SumOf_def)
qed

lemma strictly_ascending_sorted: "strictly_ascending ds = sorted_wrt (<) ds"
  by (induction ds rule: strictly_ascending.induct) (auto simp: not_le intro: less_trans)

lemma validate_term_ok:
  assumes "term_ok (lw_has_prx w) tp"
  shows "validate_term w tp = Inr ()"
proof -
  have len: "length (tp_freqs tp) = length (tp_docids tp)" "strictly_ascending (tp_docids tp)"
    using assms by (simp_all add: term_ok_def strictly_ascending_sorted)
  have "SumOf (tp_freqs tp) = (if tp_pos_pump tp \<noteq> None then tp_pos_total tp else of_nat (length (tp_positions_flat tp)))"
    if "lw_has_prx w"
    using assms that term_windows_facts(2) [OF len(1)]
    by (auto simp: term_ok_def positions_fit_def SumOf_freq_sum term_positions_def split: option.splits)
  with len show ?thesis by (auto simp: validate_term_def)
qed

subsection \<open>Blocks\<close>

text \<open>An entry of an open or flushed block, for its term.\<close>

definition entry_for :: "host \<Rightarrow> bool \<Rightarrow> index_tier \<Rightarrow> u64 \<Rightarrow> byte list \<Rightarrow> u64 \<Rightarrow> dict_entry \<Rightarrow> term_postings \<Rightarrow> bool" where
  "entry_for h hp tier off out base e tp =
     (de_term e = tp_term tp \<and> entry_fits tier e \<and> entry_size_bound e \<le> 512 * term_weight hp tp \<and>
      entry_size_bound e \<le> 4 * estimate_entry_bytes e \<and> entry_size_bound e \<le> 2 ^ 25 \<and>
      entry_written (host_zstd h) hp tier (unat off) out e base (term_chunks tp))"

lemma entry_for_prefix:
  "entry_for h hp tier off out base e tp \<Longrightarrow> prefix out out' \<Longrightarrow> entry_for h hp tier off out' base e tp"
  by (auto simp: entry_for_def intro: entry_written_prefix)

lemma entry_made_for:
  assumes "entry_made h hp tier tp off base out e ext" and "term_ok hp tp"
  shows "entry_for h hp tier off (out @ ext) base e tp"
proof -
  have "length (tp_term tp) \<le> 2 ^ 20" using assms(2) by (simp add: term_ok_def)
  then show ?thesis
    using assms(1) by (auto simp: entry_made_def entry_for_def entry_size_bound_def estimate_entry_bytes_def Let_def split: if_splits)
qed

abbreviation new_built :: "index_tier \<Rightarrow> bool \<Rightarrow> u64 \<Rightarrow> dict_entry list \<Rightarrow> dict_block_builder" where
  "new_built tier hp base es \<equiv> built tier hp base base kDefaultAnchorInterval es"

lemma built_snoc: "add_entry e (built t p fb pb k es) = built t p fb pb k (es @ [e])"
  by (simp add: built_def)

lemma estimated_ge: "sum_list (map estimate_entry_bytes es) \<le> estimated_bytes (built t p fb pb k es)"
proof -
  have "dbb_entries_est (fold add_entry es b) = dbb_entries_est b + sum_list (map estimate_entry_bytes es)" for b
    by (induction es arbitrary: b) (simp_all add: add_entry_def)
  then have "dbb_entries_est (built t p fb pb k es) = sum_list (map estimate_entry_bytes es)"
    by (simp add: built_def dict_block_builder_def)
  then show ?thesis by (simp add: estimated_bytes_def Let_def)
qed

lemma block_size:
  assumes es: "\<forall>e \<in> set (es @ [e]). entry_size_bound e \<le> 4 * estimate_entry_bytes e \<and> entry_size_bound e \<le> 2 ^ 25"
    and est: "sum_list (map estimate_entry_bytes es) \<le> 2 ^ 24"
  shows "length (es @ [e]) < 2 ^ 25" and "length (dict_block_finish (built t p fb pb k (es @ [e])) []) \<le> 2 ^ 28"
proof -
  have "sum_list (map entry_size_bound es) \<le> 4 * sum_list (map estimate_entry_bytes es)"
    using es by (induction es) auto
  with est have n: "sum_list (map entry_size_bound es) \<le> 2 ^ 26" by simp
  have "1 \<le> estimate_entry_bytes e" for e by (simp add: estimate_entry_bytes_def Let_def)
  then have "length es \<le> sum_list (map estimate_entry_bytes es)"
    by (induction es) (simp, metis add_mono length_Cons list.map(2) plus_1_eq_Suc sum_list.Cons)
  with est have l: "length es \<le> 2 ^ 24" by simp
  show "length (es @ [e]) < 2 ^ 25" using l by simp
  show "length (dict_block_finish (built t p fb pb k (es @ [e])) []) \<le> 2 ^ 28"
    using length_dict_block_finish [of "es @ [e]" t p fb pb k] n l es by simp
qed

text \<open>A flushed block, with the terms it holds. Its reference is relative to the DICT buffer.\<close>

type_synonym written_block = "block_image \<times> term_postings list"

definition block_written :: "host \<Rightarrow> bool \<Rightarrow> index_tier \<Rightarrow> u64 \<Rightarrow> byte list \<Rightarrow> byte list \<Rightarrow> written_block \<Rightarrow> bool" where
  "block_written h hp tier off out dict = (\<lambda>(b, tps).
     block_stored (host_zstd h) dict tier hp b \<and> bi_prx_base b = bi_frq_base b \<and>
     list_all2 (entry_for h hp tier off out (bi_frq_base b)) (bi_entries b) tps)"

lemma block_stored_shift:
  assumes st: "block_stored z D t p b" and len: "length (pre @ D @ post) < 2 ^ 64"
    and ref: "br_offset ref = of_nat (length pre) + br_offset (bi_ref b)" "br_length ref = br_length (bi_ref b)"
      "br_flags ref = br_flags (bi_ref b)" "br_uncomp_len ref = br_uncomp_len (bi_ref b)"
  shows "block_stored z (pre @ D @ post) t p (b\<lparr>bi_ref := ref\<rparr>)"
proof -
  let ?o = "unat (br_offset (bi_ref b))" and ?n = "unat (br_length (bi_ref b))"
  have r: "?o + ?n \<le> length D" using st by (simp add: block_stored_def Let_def)
  then have o: "unat (br_offset ref) = length pre + ?o" using len by (simp add: ref unat_word_ariths(1))
  have "file_slice (pre @ D @ post) (br_offset ref) (br_length ref) = file_slice D (br_offset (bi_ref b)) (br_length (bi_ref b))"
    unfolding file_slice_def o ref(2) using r by simp
  moreover have "block_plain t p (b\<lparr>bi_ref := ref\<rparr>) = block_plain t p b" by (simp add: block_plain_def)
  ultimately show ?thesis
    using st r o by (simp add: block_stored_def Let_def ref block_ref_ok_def)
qed

lemma block_stored_more:
  "block_stored z D t p b \<Longrightarrow> length (D @ tl_bytes) < 2 ^ 64 \<Longrightarrow> block_stored z (D @ tl_bytes) t p b"
  using block_stored_shift [of z D t p b "[]" tl_bytes "bi_ref b"] by simp

lemma flush_block_ok:
  assumes z: "zstd_spec (host_zstd h)" and wr: "host_writes h" and inv: "sbb_inv b0 (lw_dict_buf w)" and op: "\<not> sbb_sealed (lw_dict_buf w)"
    and fit: "\<forall>e \<in> set es. entry_fits tier e" and ne: "es \<noteq> []" and n: "length es < 2 ^ 32"
    and sz: "length (dict_block_finish (new_built tier hp base es) []) \<le> 2 ^ 28"
    and len: "length (sbb_bytes (lw_dict_buf w)) < 2 ^ 62"
  obtains buf rc bytes where "flush_block h (new_built tier hp base es) first w =
      Inr (w\<lparr>lw_dict_buf := buf, lw_blocks := lw_blocks w @ [rc]\<rparr>)"
    and "sbb_inv b0 buf" and "\<not> sbb_sealed buf" and "sbb_bytes buf = sbb_bytes (lw_dict_buf w) @ bytes" and "rec_first_term rc = first"
    and "length bytes \<le> length (dict_block_finish (new_built tier hp base es) [])"
    and "block_stored (host_zstd h) (sbb_bytes buf) tier hp \<lparr>bi_entries = es, bi_frq_base = base, bi_prx_base = base,
      bi_anchor_interval = kDefaultAnchorInterval, bi_ref = block_ref_of 0 rc\<rparr>"
proof -
  let ?z = "host_zstd h"
  define plain where "plain = dict_block_finish (new_built tier hp base es) []"
  define rc0 where "rc0 = \<lparr>rec_rel_offset = sbb_size (lw_dict_buf w), rec_length = 0, rec_n_entries = dbb_n_entries (new_built tier hp base es),
      rec_checksum = crc32c plain, rec_flags = 0, rec_uncomp_len = 0, rec_first_term = first\<rparr>"
  define cmp where "cmp \<longleftrightarrow> (\<exists>c. zstd_compress ?z plain kDictBlockZstdLevel = Inr c \<and> length c < length plain)"
  define bytes where "bytes = (if cmp then projr (zstd_compress ?z plain kDictBlockZstdLevel) else plain)"
  define rc where "rc = rc0\<lparr>rec_length := of_nat (length bytes), rec_flags := (if cmp then block_ref_kZstd else 0),
      rec_uncomp_len := (if cmp then of_nat (length plain) else 0)\<rparr>"
  have pick: "(case zstd_compress ?z plain kDictBlockZstdLevel of
       Inr compd \<Rightarrow>
         if length compd < length plain
         then (rc0\<lparr>rec_flags := block_ref_kZstd, rec_uncomp_len := of_nat (length plain), rec_length := of_nat (length compd)\<rparr>, compd)
         else (rc0\<lparr>rec_flags := 0, rec_uncomp_len := 0, rec_length := of_nat (length plain)\<rparr>, plain)
     | Inl e \<Rightarrow> (rc0\<lparr>rec_flags := 0, rec_uncomp_len := 0, rec_length := of_nat (length plain)\<rparr>, plain)) = (rc, bytes)"
    by (cases "zstd_compress ?z plain kDictBlockZstdLevel") (simp_all add: rc_def bytes_def rc0_def cmp_def)
  obtain buf where ap: "sbb_append_move h bytes (lw_dict_buf w) = Inr buf"
    using sbb_append_writes [OF wr inv op] unfolding sbb_append_move_eq by blast
  have buf: "sbb_inv b0 buf" "sbb_bytes buf = sbb_bytes (lw_dict_buf w) @ bytes" "\<not> sbb_sealed buf"
    using sbb_append_inv [OF inv ap [unfolded sbb_append_move_eq]] op by simp_all
  have run: "flush_block h (new_built tier hp base es) first w = Inr (w\<lparr>lw_dict_buf := buf, lw_blocks := lw_blocks w @ [rc]\<rparr>)"
    unfolding flush_block_def Let_def plain_def [symmetric] rc0_def [symmetric] pick by (simp add: ap)
  have lb: "length bytes \<le> length plain" by (auto simp: bytes_def cmp_def)
  have rel: "sbb_size (lw_dict_buf w) = of_nat (length (sbb_bytes (lw_dict_buf w)))" using inv by (simp add: sbb_inv_def)
  have u: "unat (br_offset (block_ref_of 0 rc)) = length (sbb_bytes (lw_dict_buf w))" "unat (br_length (block_ref_of 0 rc)) = length bytes"
    using len lb sz by (simp_all add: block_ref_of_def rc_def rc0_def rel plain_def [symmetric])
  have sl: "file_slice (sbb_bytes buf) (br_offset (block_ref_of 0 rc)) (br_length (block_ref_of 0 rc)) = bytes"
    by (simp add: file_slice_def u buf(2))
  have zs: "zstd_decompress ?z bytes (length plain) = Inr plain" if cmp
    using that zstd_roundtrip [OF z] by (auto simp: bytes_def cmp_def)
  have fl: "br_flags (block_ref_of 0 rc) = (if cmp then block_ref_kZstd else 0)"
    "br_uncomp_len (block_ref_of 0 rc) = (if cmp then of_nat (length plain) else 0)" by (simp_all add: block_ref_of_def rc_def)
  have "block_stored ?z (sbb_bytes buf) tier hp \<lparr>bi_entries = es, bi_frq_base = base, bi_prx_base = base,
      bi_anchor_interval = kDefaultAnchorInterval, bi_ref = block_ref_of 0 rc\<rparr>"
  proof (cases cmp)
    case True
    then show ?thesis
      using ne n fit sz zs sl u buf(2) fl
      by (simp add: block_stored_def Let_def block_plain_def plain_def [symmetric] block_ref_ok_def kMaxDictBlockUncompBytes_def block_ref_kZstd_def)
  next
    case False
    then have "bytes = plain" unfolding bytes_def by (rule if_not_P)
    with False show ?thesis
      using ne n fit sz sl u buf(2) fl by (simp add: block_stored_def Let_def block_plain_def plain_def [symmetric] block_ref_ok_def)
  qed
  moreover have "rec_first_term rc = first" by (simp add: rc_def rc0_def)
  ultimately show ?thesis by (intro that [OF run buf(1,3,2) _ lb [unfolded plain_def]])
qed

subsection \<open>The invariant of the loop over the terms\<close>

text \<open>What a build never changes of the writer.\<close>

definition writer_config :: "logical_index_writer \<Rightarrow>
    (u64 \<times> byte list \<times> index_tier \<times> bool \<times> bool \<times> bool) \<times> u32 \<times> byte list \<times> u32 \<times> u64 \<times> byte list" where
  "writer_config w =
     ((lw_index_id w, lw_index_suffix w, lw_tier w, lw_has_prx w, lw_has_freq w, lw_has_norms w), lw_doc_count w,
      lw_encoded_norms w, lw_target_dict_block_bytes w, lw_posting_off0 w, lw_norms_section w)"

definition total_weight :: "bool \<Rightarrow> term_postings list \<Rightarrow> nat" where
  "total_weight hp tps = sum_list (map (term_weight hp) tps)"

lemma total_weight_simps [simp]:
  "total_weight hp [] = 0" "total_weight hp (tp # tps) = term_weight hp tp + total_weight hp tps"
  "total_weight hp (xs @ ys) = total_weight hp xs + total_weight hp ys"
  by (simp_all add: total_weight_def)

definition terms_of :: "written_block list \<Rightarrow> term_postings list" where
  "terms_of G = concat (map snd G)"

lemma terms_of_simps [simp]: "terms_of [] = []" "terms_of (G @ [(b, tps)]) = terms_of G @ tps"
  by (simp_all add: terms_of_def)

definition blocks_inv ::
  "host \<Rightarrow> bool \<Rightarrow> u64 \<Rightarrow> logical_index_writer \<Rightarrow> written_block list \<Rightarrow> bool" where
  "blocks_inv h hp b0 w G =
     (lw_has_prx w = hp \<and> lw_has_freq w = hp \<and> tier_has_stats (lw_tier w) = hp \<and>
      unat (lw_target_dict_block_bytes w) \<le> 2 ^ 24 \<and> unat (lw_posting_off0 w) \<le> length (lw_posting_out w) \<and>
      sbb_inv b0 (lw_dict_buf w) \<and>
      (\<forall>g \<in> set G. block_written h hp (lw_tier w) (lw_posting_off0 w) (lw_posting_out w) (sbb_bytes (lw_dict_buf w)) g) \<and>
      map (block_ref_of 0) (lw_blocks w) = map (bi_ref \<circ> fst) G \<and>
      map rec_first_term (lw_blocks w) = map (de_term \<circ> hd \<circ> bi_entries \<circ> fst) G \<and>
      length (sbb_bytes (lw_dict_buf w)) \<le> 1024 * total_weight hp (terms_of G))"

text \<open>The open block and the terms in it.\<close>

definition open_block :: "host \<Rightarrow> bool \<Rightarrow> block_state \<Rightarrow> logical_index_writer \<Rightarrow> dict_entry list \<Rightarrow> term_postings list \<Rightarrow> bool" where
  "open_block h hp st w es tps =
     (es \<noteq> [] \<and> bst_block st = Some (new_built (lw_tier w) hp (bst_frq_base st) es) \<and> bst_prx_base st = bst_frq_base st \<and>
      bst_first_term st = de_term (hd es) \<and> estimated_bytes (new_built (lw_tier w) hp (bst_frq_base st) es) \<le> 2 ^ 24 \<and>
      unat (lw_posting_off0 w) + unat (bst_frq_base st) \<le> length (lw_posting_out w) \<and>
      list_all2 (entry_for h hp (lw_tier w) (lw_posting_off0 w) (lw_posting_out w) (bst_frq_base st)) es tps)"

definition state_inv ::
  "host \<Rightarrow> bool \<Rightarrow> u64 \<Rightarrow> block_state \<Rightarrow> logical_index_writer \<Rightarrow> written_block list \<Rightarrow> term_postings list \<Rightarrow> bool" where
  "state_inv h hp b0 st w G tps =
     (blocks_inv h hp b0 w G \<and> \<not> sbb_sealed (lw_dict_buf w) \<and> (if bst_block st = None then tps = [] else \<exists>es. open_block h hp st w es tps))"

lemma block_written_mono:
  assumes "block_written h hp tier off out D g" and "prefix out out'" and "length (D @ tl_bytes) < 2 ^ 64"
  shows "block_written h hp tier off out' (D @ tl_bytes) g"
  using assms
  by (auto simp: block_written_def intro: block_stored_more elim: list_all2_mono intro: entry_for_prefix split: prod.splits)

lemma entries_each:
  "list_all2 (entry_for h hp tier off out base) es tps \<Longrightarrow> \<forall>e \<in> set es. entry_fits tier e \<and>
     entry_size_bound e \<le> 4 * estimate_entry_bytes e \<and> entry_size_bound e \<le> 2 ^ 25"
  by (induction rule: list_all2_induct) (simp_all add: entry_for_def)

lemma entries_weight:
  assumes "list_all2 (entry_for h hp tier off out base) es tps"
  shows "sum_list (map entry_size_bound es) \<le> 512 * total_weight hp tps" and "length es \<le> total_weight hp tps"
  using assms by (induction rule: list_all2_induct) (auto simp: entry_for_def term_weight_def)

text \<open>Flushing a block moves its terms to the flushed ones.\<close>

lemma flush_inv:
  assumes z: "zstd_spec (host_zstd h)" and wr: "host_writes h" and inv: "blocks_inv h hp b0 w G" and op: "\<not> sbb_sealed (lw_dict_buf w)"
    and es: "list_all2 (entry_for h hp (lw_tier w) (lw_posting_off0 w) (lw_posting_out w) base) es tps" "es \<noteq> []" "first = de_term (hd es)"
    and sz: "length es < 2 ^ 25" "length (dict_block_finish (new_built (lw_tier w) hp base es) []) \<le> 2 ^ 28"
    and wt: "1024 * total_weight hp (terms_of G @ tps) < 2 ^ 62"
  obtains w' b where "flush_block h (new_built (lw_tier w) hp base es) first w = Inr w'"
    and "blocks_inv h hp b0 w' (G @ [(b, tps)])" and "\<not> sbb_sealed (lw_dict_buf w')" and "writer_config w' = writer_config w"
    and "lw_term_hashes w' = lw_term_hashes w" and "lw_posting_out w' = lw_posting_out w" and "lw_bsbf_bytes w' = lw_bsbf_bytes w"
proof -
  let ?D = "sbb_bytes (lw_dict_buf w)"
  have D: "length ?D \<le> 1024 * total_weight hp (terms_of G)" and i: "sbb_inv b0 (lw_dict_buf w)" using inv by (simp_all add: blocks_inv_def)
  have fit: "\<forall>e \<in> set es. entry_fits (lw_tier w) e"
    using entries_each [OF es(1)] by blast
  obtain buf rc bytes where f: "flush_block h (new_built (lw_tier w) hp base es) first w =
      Inr (w\<lparr>lw_dict_buf := buf, lw_blocks := lw_blocks w @ [rc]\<rparr>)"
    and so: "\<not> sbb_sealed buf" and b: "sbb_inv b0 buf" "sbb_bytes buf = ?D @ bytes" "rec_first_term rc = first"
      "length bytes \<le> length (dict_block_finish (new_built (lw_tier w) hp base es) [])"
    and st: "block_stored (host_zstd h) (sbb_bytes buf) (lw_tier w) hp \<lparr>bi_entries = es, bi_frq_base = base, bi_prx_base = base,
      bi_anchor_interval = kDefaultAnchorInterval, bi_ref = block_ref_of 0 rc\<rparr>"
    by (rule flush_block_ok [OF z wr i op fit es(2) _ sz(2)]) (use sz D wt in auto)
  let ?w = "w\<lparr>lw_dict_buf := buf, lw_blocks := lw_blocks w @ [rc]\<rparr>"
  let ?b = "\<lparr>bi_entries = es, bi_frq_base = base, bi_prx_base = base, bi_anchor_interval = kDefaultAnchorInterval, bi_ref = block_ref_of 0 rc\<rparr>"
  note ew = entries_weight [OF es(1)]
  have "1 \<le> length es" using es(2) by (cases es) auto
  then have lb: "length bytes \<le> 1024 * total_weight hp tps"
    using b(4) length_dict_block_finish [of es "lw_tier w" hp base base kDefaultAnchorInterval] sz(1) ew by simp
  have sm: "length (?D @ bytes) < 2 ^ 64" using lb D wt by simp
  have "blocks_inv h hp b0 ?w (G @ [(?b, tps)])"
    unfolding blocks_inv_def
  proof (intro conjI)
    show "\<forall>g \<in> set (G @ [(?b, tps)]). block_written h hp (lw_tier ?w) (lw_posting_off0 ?w) (lw_posting_out ?w) (sbb_bytes (lw_dict_buf ?w)) g"
      using inv b(2) st es(1) block_written_mono [OF _ prefix_order.refl sm] by (auto simp: blocks_inv_def block_written_def)
  qed (use inv b lb D es(3) in \<open>auto simp: blocks_inv_def\<close>)
  then show ?thesis by (intro that [OF f]) (simp_all add: writer_config_def so)
qed

text \<open>More postings keep the blocks.\<close>

lemma blocks_inv_postings:
  assumes "blocks_inv h hp b0 w G" and "length (sbb_bytes (lw_dict_buf w)) < 2 ^ 64"
  shows "blocks_inv h hp b0 (w\<lparr>lw_posting_out := lw_posting_out w @ ext\<rparr>) G"
proof -
  have "block_written h hp (lw_tier w) (lw_posting_off0 w) (lw_posting_out w @ ext) (sbb_bytes (lw_dict_buf w)) g"
    if "g \<in> set G" for g
    using assms that block_written_mono [of h hp "lw_tier w" "lw_posting_off0 w" "lw_posting_out w" "sbb_bytes (lw_dict_buf w)" g
        "lw_posting_out w @ ext" "[]"] by (simp add: blocks_inv_def)
  with assms(1) show ?thesis by (simp add: blocks_inv_def)
qed

lemma blocks_inv_hashes:
  "blocks_inv h hp b0 (w\<lparr>lw_term_hashes := hs, lw_term_count := n, lw_stats := s\<rparr>) G \<longleftrightarrow> blocks_inv h hp b0 w G"
  by (simp add: blocks_inv_def)

lemma process_term_ok:
  assumes z: "zstd_spec (host_zstd h)" and wr: "host_writes h" and inv: "state_inv h hp b0 st w G tps" and ok: "term_ok hp tp"
    and len: "length (lw_posting_out w) + 512 * term_weight hp tp < 2 ^ 62"
    and wt: "1024 * total_weight hp (terms_of G @ tps @ [tp]) < 2 ^ 62"
  obtains st' w' G' tps' ext where "process_term h tp (st, w) = Inr (st', w')" and "state_inv h hp b0 st' w' G' tps'"
    and "terms_of G' @ tps' = terms_of G @ tps @ [tp]" and "writer_config w' = writer_config w"
    and "lw_term_hashes w' = lw_term_hashes w @ [bsbf_hash (host_xxh64 h) (tp_term tp)]"
    and "lw_posting_out w' = lw_posting_out w @ ext" and "length ext \<le> 512 * term_weight hp tp"
proof -
  let ?off = "lw_posting_off0 w" and ?out = "lw_posting_out w" and ?tier = "lw_tier w"
  have bi: "blocks_inv h hp b0 w G" and op: "\<not> sbb_sealed (lw_dict_buf w)" using inv by (simp_all add: state_inv_def)
  from bi have hp: "lw_has_prx w = hp" "lw_has_freq w = hp" "tier_has_stats ?tier = hp" "unat (lw_target_dict_block_bytes w) \<le> 2 ^ 24"
    "unat ?off \<le> length ?out" by (simp_all add: blocks_inv_def)
  define w1 where "w1 = w\<lparr>lw_term_hashes := lw_term_hashes w @ [bsbf_hash (host_xxh64 h) (tp_term tp)],
      lw_term_count := lw_term_count w + 1,
      lw_stats := (lw_stats w)\<lparr>sb_sum_total_term_freq := sb_sum_total_term_freq (lw_stats w) + SumOf (tp_freqs tp)\<rparr>\<rparr>"
  have w1: "lw_has_freq w1 = hp" "lw_has_prx w1 = hp" "lw_posting_off0 w1 = ?off" "lw_posting_out w1 = ?out" "lw_tier w1 = ?tier"
    "lw_target_dict_block_bytes w1 = lw_target_dict_block_bytes w" "writer_config w1 = writer_config w"
    "blocks_inv h hp b0 w1 G" "lw_dict_buf w1 = lw_dict_buf w"
    using hp bi by (simp_all add: w1_def writer_config_def blocks_inv_hashes)
  define st1 where "st1 = (if bst_block st = None then
                 let base = posting_size w1
                 in \<lparr>bst_block = Some (dict_block_builder (lw_tier w1) (lw_has_prx w1) base base kDefaultAnchorInterval),
                     bst_first_term = tp_term tp, bst_frq_base = base, bst_prx_base = base\<rparr>
               else st)"
  obtain es base first where st1: "bst_block st1 = Some (new_built ?tier hp base es)" "bst_frq_base st1 = base" "bst_prx_base st1 = base"
      "bst_first_term st1 = first"
    and es: "list_all2 (entry_for h hp ?tier ?off ?out base) es tps" "es = [] \<or> estimated_bytes (new_built ?tier hp base es) \<le> 2 ^ 24"
      "unat ?off + unat base \<le> length ?out" "first = (if es = [] then tp_term tp else de_term (hd es))"
  proof (cases "bst_block st = None")
    case True
    have "posting_size w1 = of_nat (length ?out) - ?off" by (simp add: posting_size_def fw_bytes_written_def w1)
    moreover have "unat ((of_nat (length ?out) :: u64) - ?off - 0) = length ?out - unat ?off - unat (0 :: u64)"
      using hp(5) len by (intro posting_delta) simp_all
    ultimately have "unat ?off + unat (posting_size w1) \<le> length ?out" using hp(5) by simp
    then show ?thesis
      using that [of "posting_size w1" "[]" "tp_term tp"] True inv by (simp add: st1_def Let_def built_def w1 state_inv_def)
  next
    case False
    then obtain es where "open_block h hp st w es tps" using inv by (auto simp: state_inv_def)
    then show ?thesis using that [of "bst_frq_base st" es "de_term (hd es)"] False by (simp add: st1_def open_block_def)
  qed
  obtain e ext where be: "build_entry h tp base base w1 = Inr (e, w1\<lparr>lw_posting_out := ?out @ ext\<rparr>)"
    and em: "entry_made h hp ?tier tp ?off base ?out e ext"
    using build_entry_ok [OF z wr ok w1(1,2) hp(3), of base] es(3) len by (simp add: w1) blast
  let ?w2 = "w1\<lparr>lw_posting_out := ?out @ ext\<rparr>" and ?es = "es @ [e]"
  have ef: "entry_for h hp ?tier ?off (?out @ ext) base e tp" by (rule entry_made_for [OF em ok])
  have "list_all2 (entry_for h hp ?tier ?off (?out @ ext) base) es tps"
    using es(1) by (rule list_all2_mono) (auto intro: entry_for_prefix)
  with ef have all: "list_all2 (entry_for h hp ?tier ?off (?out @ ext) base) ?es (tps @ [tp])" by (simp add: list_all2_appendI)
  have each: "\<forall>e \<in> set ?es. entry_size_bound e \<le> 4 * estimate_entry_bytes e \<and> entry_size_bound e \<le> 2 ^ 25"
    using entries_each [OF all] by blast
  have est: "sum_list (map estimate_entry_bytes es) \<le> 2 ^ 24"
    using es(2) estimated_ge [of es ?tier hp base base kDefaultAnchorInterval] by auto
  have sz: "length ?es < 2 ^ 25" "length (dict_block_finish (new_built ?tier hp base ?es) []) \<le> 2 ^ 28"
    by (rule block_size [OF each est])+
  have "length (sbb_bytes (lw_dict_buf w1)) < 2 ^ 64" using w1(8) wt by (simp add: blocks_inv_def)
  from blocks_inv_postings [OF w1(8) this, of ext] have b2: "blocks_inv h hp b0 ?w2 G" by (simp add: w1)
  have ext: "length ext \<le> 512 * term_weight hp tp" using em by (simp add: entry_made_def)
  have cfg: "writer_config ?w2 = writer_config w" using w1(7) by (simp add: writer_config_def)
  have run: "process_term h tp (st, w) =
      (if estimated_bytes (new_built ?tier hp base ?es) \<ge> unat (lw_target_dict_block_bytes w) then
          and_then (flush_block h (new_built ?tier hp base ?es) first ?w2) (\<lambda>w. Inr (st1\<lparr>bst_block := None\<rparr>, w))
        else Inr (st1\<lparr>bst_block := Some (new_built ?tier hp base ?es)\<rparr>, ?w2))"
    using validate_term_ok [of w tp] ok hp(1) be
    unfolding process_term_def prod.case w1_def [symmetric] Let_def [of w1] st1_def [symmetric]
    by (simp add: w1_def [symmetric] st1_def [symmetric] st1 built_snoc w1 Let_def)
  show ?thesis
  proof (cases "estimated_bytes (new_built ?tier hp base ?es) \<ge> unat (lw_target_dict_block_bytes w)")
    case True
    obtain w' b where f: "flush_block h (new_built ?tier hp base ?es) first ?w2 = Inr w'"
      and bi': "blocks_inv h hp b0 w' (G @ [(b, tps @ [tp])])" and so: "\<not> sbb_sealed (lw_dict_buf w')" and cf: "writer_config w' = writer_config ?w2"
      and k: "lw_term_hashes w' = lw_term_hashes ?w2" "lw_posting_out w' = lw_posting_out ?w2"
    proof (rule flush_inv [OF z wr b2 _, of base ?es "tps @ [tp]" first])
      show "first = de_term (hd ?es)" using es(4) ef by (simp add: entry_for_def)
    qed (use all sz wt op in \<open>auto simp: w1\<close>)
    have "process_term h tp (st, w) = Inr (st1\<lparr>bst_block := None\<rparr>, w')" using run True f by simp
    then show ?thesis
      by (rule that [where G' = "G @ [(b, tps @ [tp])]" and tps' = "[]" and ext = ext])
        (use bi' so cf cfg k ext in \<open>simp_all add: state_inv_def w1_def\<close>)
  next
    case False
    let ?st = "st1\<lparr>bst_block := Some (new_built ?tier hp base ?es)\<rparr>"
    have "open_block h hp ?st ?w2 ?es (tps @ [tp])"
      using False hp(4) es(3,4) ef all by (auto simp: open_block_def st1 w1 entry_for_def)
    then have si: "state_inv h hp b0 ?st ?w2 G (tps @ [tp])" using b2 op w1(9) by (auto simp: state_inv_def)
    have "process_term h tp (st, w) = Inr (?st, ?w2)" using run False by simp
    then show ?thesis
      by (rule that [OF _ si, where ext = ext]) (use cfg ext in \<open>simp_all add: w1_def\<close>)
  qed
qed

lemma process_terms_ok:
  assumes z: "zstd_spec (host_zstd h)" and wr: "host_writes h"
  shows "state_inv h hp b0 st w G tps \<Longrightarrow> \<forall>tp \<in> set us. term_ok hp tp \<Longrightarrow>
    length (lw_posting_out w) + 512 * total_weight hp us < 2 ^ 62 \<Longrightarrow> 1024 * total_weight hp (terms_of G @ tps @ us) < 2 ^ 62 \<Longrightarrow>
    \<exists>st' w' G' tps' ext. process_terms h us (st, w) = Inr (st', w') \<and> state_inv h hp b0 st' w' G' tps' \<and>
      terms_of G' @ tps' = terms_of G @ tps @ us \<and> writer_config w' = writer_config w \<and>
      lw_term_hashes w' = lw_term_hashes w @ map (bsbf_hash (host_xxh64 h) \<circ> tp_term) us \<and>
      lw_posting_out w' = lw_posting_out w @ ext \<and> length ext \<le> 512 * total_weight hp us"
proof (induction us arbitrary: st w G tps)
  case Nil
  then show ?case by (intro exI [of _ st] exI [of _ w] exI [of _ G] exI [of _ tps] exI [of _ "[]"]) simp
next
  case (Cons tp us)
  have s: "length (lw_posting_out w) + 512 * term_weight hp tp < 2 ^ 62" "1024 * total_weight hp (terms_of G @ tps @ [tp]) < 2 ^ 62"
    using Cons.prems(3,4) by simp_all
  obtain st1 w1 G1 tps1 ext1 where 1: "process_term h tp (st, w) = Inr (st1, w1)" "state_inv h hp b0 st1 w1 G1 tps1"
    "terms_of G1 @ tps1 = terms_of G @ tps @ [tp]" "writer_config w1 = writer_config w"
    "lw_term_hashes w1 = lw_term_hashes w @ [bsbf_hash (host_xxh64 h) (tp_term tp)]"
    "lw_posting_out w1 = lw_posting_out w @ ext1" "length ext1 \<le> 512 * term_weight hp tp"
    by (rule process_term_ok [OF z wr Cons.prems(1) _ s]) (use Cons.prems(2) in auto)
  have g: "terms_of G1 @ tps1 @ us = terms_of G @ tps @ tp # us" using 1(3) by (metis append.assoc append_Cons append_Nil)
  have "\<exists>st' w' G' tps' ext. process_terms h us (st1, w1) = Inr (st', w') \<and> state_inv h hp b0 st' w' G' tps' \<and>
      terms_of G' @ tps' = terms_of G1 @ tps1 @ us \<and> writer_config w' = writer_config w1 \<and>
      lw_term_hashes w' = lw_term_hashes w1 @ map (bsbf_hash (host_xxh64 h) \<circ> tp_term) us \<and>
      lw_posting_out w' = lw_posting_out w1 @ ext \<and> length ext \<le> 512 * total_weight hp us"
    using Cons.prems 1(6,7) arg_cong [OF g, of "total_weight hp"] by (intro Cons.IH [OF 1(2)]) auto
  then obtain st' w' G' tps' ext where 2: "process_terms h us (st1, w1) = Inr (st', w')" "state_inv h hp b0 st' w' G' tps'"
    "terms_of G' @ tps' = terms_of G1 @ tps1 @ us" "writer_config w' = writer_config w1"
    "lw_term_hashes w' = lw_term_hashes w1 @ map (bsbf_hash (host_xxh64 h) \<circ> tp_term) us"
    "lw_posting_out w' = lw_posting_out w1 @ ext" "length ext \<le> 512 * total_weight hp us" by blast
  show ?case
    by (intro exI [of _ st'] exI [of _ w'] exI [of _ G'] exI [of _ tps'] exI [of _ "ext1 @ ext"]) (use 1 2 g in simp)
qed

subsection \<open>Inputs\<close>

definition input_terms :: "snii_index_input \<Rightarrow> term_postings list" where
  "input_terms inp = (case in_term_source inp of None \<Rightarrow> in_terms inp | Some (tps, status) \<Rightarrow> tps)"

abbreviation input_pos :: "snii_index_input \<Rightarrow> bool" where
  "input_pos inp \<equiv> has_positions (in_config inp)"

text \<open>The inputs of an index: valid terms in strictly ascending order, a source that ends well, a norm for
  every document where scores are kept, and sizes the format can address.\<close>

definition input_ok :: "snii_index_input \<Rightarrow> bool" where
  "input_ok inp =
     ((\<forall>tp \<in> set (input_terms inp). term_ok (input_pos inp) tp) \<and> sorted_wrt (<) (map tp_term (input_terms inp)) \<and>
      length (input_terms inp) < 2 ^ 32 \<and> (case in_term_source inp of None \<Rightarrow> True | Some (tps, status) \<Rightarrow> status = Inr ()) \<and>
      (has_scoring (in_config inp) \<longrightarrow> length (in_encoded_norms inp) = unat (in_doc_count inp)) \<and>
      unat (in_target_dict_block_bytes inp) \<le> 2 ^ 24 \<and> length (in_index_suffix inp) \<le> unat kMaxSuffixLen)"

definition input_weight :: "snii_index_input \<Rightarrow> nat" where
  "input_weight inp = total_weight (input_pos inp) (input_terms inp)"

text \<open>A built writer: its blocks, its filter and its norms.\<close>

definition filter_of :: "host \<Rightarrow> snii_index_input \<Rightarrow> byte list \<Rightarrow> bool" where
  "filter_of h inp bs =
     (if input_terms inp = [] then bs = []
      else \<exists>b0. bsbf_create (host_bsbf_bits h) (of_nat (length (input_terms inp))) kBsbfFpp = Inr b0 \<and>
        bsbf_serialize (fold (bsbf_insert (host_avx2 h)) (map (bsbf_hash (host_xxh64 h) \<circ> tp_term) (input_terms inp)) b0) [] = Inr bs \<and>
        bs \<noteq> [] \<and> length bs < 2 ^ 33)"

definition index_built :: "host \<Rightarrow> snii_index_input \<Rightarrow> byte list \<Rightarrow> logical_index_writer \<Rightarrow> byte list \<Rightarrow> written_block list \<Rightarrow> bool" where
  "index_built h inp out w ext G =
     ((\<exists>b0. blocks_inv h (input_pos inp) b0 w G) \<and> (sbb_spilled (lw_dict_buf w) \<longrightarrow> sbb_sealed (lw_dict_buf w)) \<and> terms_of G = input_terms inp \<and> lw_posting_out w = out @ ext \<and>
      lw_posting_off0 w = of_nat (length out) \<and> length ext \<le> 512 * input_weight inp \<and>
      lw_tier w = tier_of (in_config inp) \<and> lw_index_id w = in_index_id inp \<and> lw_index_suffix w = in_index_suffix inp \<and>
      lw_has_norms w = has_scoring (in_config inp) \<and> filter_of h inp (lw_bsbf_bytes w) \<and>
      (if has_scoring (in_config inp) then lw_norms_section w \<noteq> [] \<and> length (lw_norms_section w) < 2 ^ 33 else lw_norms_section w = []))"

subsection \<open>Building an index\<close>

lemma blocks_inv_start:
  assumes "input_ok inp" and "length out < 2 ^ 62"
    and "w = (logical_index_writer_new inp)\<lparr>lw_posting_out := out, lw_posting_off0 := of_nat (length out)\<rparr>"
  obtains b0 where "blocks_inv h (input_pos inp) b0 w []"
proof -
  have "unat (of_nat (length out) :: u64) = length out" using assms(2) by simp
  moreover have "sbb_bytes (sbb_new (- 1) (in_mem_reporter inp)) = []" by (simp add: sbb_new_def sbb_bytes_def)
  ultimately show ?thesis
    using assms sbb_new_inv [of "in_mem_reporter inp" "- 1"] has_positions_tier [of "in_config inp"]
    by (intro that) (auto simp: blocks_inv_def logical_index_writer_new_def input_ok_def tier_has_stats_def
        kDefaultTargetDictBlockBytes_def)
qed

lemma flush_open:
  assumes z: "zstd_spec (host_zstd h)" and wr: "host_writes h" and inv: "state_inv h hp b0 st w G tps"
    and wt: "1024 * total_weight hp (terms_of G @ tps) < 2 ^ 62"
  obtains w' G' where "(case bst_block st of Some block \<Rightarrow> flush_block h block (bst_first_term st) w | None \<Rightarrow> Inr w) = Inr w'"
    and "blocks_inv h hp b0 w' G'" and "terms_of G' = terms_of G @ tps" and "writer_config w' = writer_config w"
    and "lw_term_hashes w' = lw_term_hashes w" and "lw_posting_out w' = lw_posting_out w"
proof (cases "bst_block st = None")
  case True
  with inv show ?thesis by (intro that [of w G]) (simp_all add: state_inv_def)
next
  case False
  then obtain es where o: "open_block h hp st w es tps" and bi: "blocks_inv h hp b0 w G" and op: "\<not> sbb_sealed (lw_dict_buf w)" using inv by (auto simp: state_inv_def)
  define base where "base = bst_frq_base st"
  have b: "bst_block st = Some (new_built (lw_tier w) hp base es)" "bst_first_term st = de_term (hd es)" "es \<noteq> []"
    and all: "list_all2 (entry_for h hp (lw_tier w) (lw_posting_off0 w) (lw_posting_out w) base) es tps"
    and est: "sum_list (map estimate_entry_bytes es) \<le> 2 ^ 24"
    using o estimated_ge [of es "lw_tier w" hp base base kDefaultAnchorInterval] by (simp_all add: open_block_def base_def)
  obtain es0 e where es0: "es = es0 @ [e]" using b(3) by (cases es rule: rev_cases) auto
  have each: "\<forall>e \<in> set (es0 @ [e]). entry_size_bound e \<le> 4 * estimate_entry_bytes e \<and> entry_size_bound e \<le> 2 ^ 25"
    using entries_each [OF all] es0 by blast
  have est0: "sum_list (map estimate_entry_bytes es0) \<le> 2 ^ 24" using est by (simp add: es0)
  have sz: "length es < 2 ^ 25" "length (dict_block_finish (new_built (lw_tier w) hp base es) []) \<le> 2 ^ 28"
    unfolding es0 by (rule block_size [OF each est0])+
  obtain w' bl where "flush_block h (new_built (lw_tier w) hp base es) (de_term (hd es)) w = Inr w'"
    "blocks_inv h hp b0 w' (G @ [(bl, tps)])" "writer_config w' = writer_config w"
    "lw_term_hashes w' = lw_term_hashes w" "lw_posting_out w' = lw_posting_out w"
    by (rule flush_inv [OF z wr bi op all b(3) refl sz wt])
  with b show ?thesis by (intro that [of w' "G @ [(bl, tps)]"]) simp_all
qed

lemma build_blocks_ok:
  assumes z: "zstd_spec (host_zstd h)" and wr: "host_writes h" and ok: "input_ok inp"
    and len: "length out + 2048 * input_weight inp < 2 ^ 62"
    and w: "w = (logical_index_writer_new inp)\<lparr>lw_posting_out := out, lw_posting_off0 := of_nat (length out)\<rparr>"
  obtains w' G ext b0 where "build_blocks h w = Inr w'" and "blocks_inv h (input_pos inp) b0 w' G" and "terms_of G = input_terms inp"
    and "writer_config w' = writer_config w" and "lw_term_hashes w' = map (bsbf_hash (host_xxh64 h) \<circ> tp_term) (input_terms inp)"
    and "lw_posting_out w' = out @ ext" and "length ext \<le> 512 * input_weight inp"
proof -
  let ?st = "\<lparr>bst_block = None, bst_first_term = [], bst_frq_base = 0, bst_prx_base = 0\<rparr>" and ?hp = "input_pos inp"
  let ?tps = "input_terms inp"
  have "length out < 2 ^ 62" using len by linarith
  then obtain b0 where b0: "blocks_inv h ?hp b0 w []" by (rule blocks_inv_start [OF ok _ w])
  have "state_inv h ?hp b0 ?st w [] []" using b0 by (simp add: state_inv_def w logical_index_writer_new_def sbb_new_def)
  from process_terms_ok [OF z wr this, of ?tps] obtain st1 w1 G1 tps1 ext where
    p: "process_terms h ?tps (?st, w) = Inr (st1, w1)" "state_inv h ?hp b0 st1 w1 G1 tps1" "terms_of G1 @ tps1 = ?tps"
      "writer_config w1 = writer_config w" "lw_term_hashes w1 = lw_term_hashes w @ map (bsbf_hash (host_xxh64 h) \<circ> tp_term) ?tps"
      "lw_posting_out w1 = lw_posting_out w @ ext" "length ext \<le> 512 * total_weight ?hp ?tps"
    using ok len by (auto simp: input_ok_def input_weight_def w)
  have "1024 * total_weight ?hp (terms_of G1 @ tps1) < 2 ^ 62" using len by (simp only: p(3)) (simp add: input_weight_def)
  then obtain w2 G2 where f: "(case bst_block st1 of Some block \<Rightarrow> flush_block h block (bst_first_term st1) w1 | None \<Rightarrow> Inr w1) = Inr w2"
    "blocks_inv h ?hp b0 w2 G2" "terms_of G2 = terms_of G1 @ tps1" "writer_config w2 = writer_config w1"
    "lw_term_hashes w2 = lw_term_hashes w1" "lw_posting_out w2 = lw_posting_out w1"
    by (rule flush_open [OF z wr p(2)])
  have "(case lw_term_source w of Some (tps, status) \<Rightarrow> and_then status (\<lambda>_. process_terms h tps (?st, w))
         | None \<Rightarrow> process_terms h (lw_terms w) (?st, w)) = process_terms h ?tps (?st, w)"
    using ok by (auto simp: w logical_index_writer_new_def input_ok_def input_terms_def split: option.splits)
  then have "build_blocks h w = Inr w2" using p(1) f(1) by (simp add: build_blocks_def)
  then show ?thesis
    by (rule that [OF _ f(2)]) (use p f in \<open>simp_all add: w input_weight_def logical_index_writer_new_def\<close>)
qed

lemma filter_built:
  assumes "input_terms inp \<noteq> []" and sizing: "sizing_ok (host_bsbf_bits h)"
  obtains bs where "and_then (bsbf_create (host_bsbf_bits h) (of_nat (length (input_terms inp))) kBsbfFpp) (\<lambda>bf.
      bsbf_serialize (fold (bsbf_insert (host_avx2 h)) (map (bsbf_hash (host_xxh64 h) \<circ> tp_term) (input_terms inp)) bf) []) = Inr bs"
    and "filter_of h inp bs"
proof -
  let ?hs = "map (bsbf_hash (host_xxh64 h) \<circ> tp_term) (input_terms inp)"
  obtain b0 where c: "bsbf_create (host_bsbf_bits h) (of_nat (length (input_terms inp))) kBsbfFpp = Inr b0"
    using bsbf_create_ok [OF sizing, of "1 / 100"] by (auto simp: kBsbfFpp_def)
  let ?b = "fold (bsbf_insert (host_avx2 h)) ?hs b0"
  have bw: "bsbf_wf ?b" using bsbf_inserts [OF bsbf_create_wf [OF c]] by blast
  let ?bs = "bsbf_header_bytes ?b @ bitset_bytes (bb_words ?b)"
  have s: "bsbf_serialize ?b [] = Inr ?bs" using bsbf_serialize_bytes [OF bw, of "[]"] by simp
  have "4 * length (bb_words ?b) < 2 ^ 32" using bsbf_wf_bytes(1) [OF bw] unat_u32_less [of "bb_num_bytes ?b"] by simp
  then have l: "length ?bs < 2 ^ 33" "0 < length ?bs" by simp_all
  show ?thesis
  proof (rule that)
    show "filter_of h inp ?bs" unfolding filter_of_def using assms c s l by (metis length_greater_0_conv)
  qed (simp add: c s)
qed

lemma norms_built:
  assumes "length norms < 2 ^ 32"
  shows "norms_finish (fold norms_add norms []) [] \<noteq> []" and "length (norms_finish (fold norms_add norms []) []) < 2 ^ 33"
proof -
  have f: "fold norms_add norms acc = acc @ norms" for acc
    by (induction norms arbitrary: acc) (simp_all add: norms_add_def)
  show "norms_finish (fold norms_add norms []) [] \<noteq> []" by (simp add: put_simps norms_bytes_def)
  show "length (norms_finish (fold norms_add norms []) []) < 2 ^ 33"
    using length_frame_le [of 1 "encode_varint64 (of_nat (length norms)) @ norms"] varint64_len_le_10 [of "of_nat (length norms)"] assms
    by (simp add: put_simps norms_bytes_def f)
qed

lemma build_ok:
  assumes z: "zstd_spec (host_zstd h)" and sizing: "sizing_ok (host_bsbf_bits h)" and wr: "host_writes h" and ok: "input_ok inp"
    and len: "length out + 2048 * input_weight inp < 2 ^ 62"
  obtains w ext G where "build h out (logical_index_writer_new inp) = Inr (w, out @ ext)" and "index_built h inp out w ext G"
proof -
  let ?new = "logical_index_writer_new inp"
  define w1 where "w1 = ?new\<lparr>lw_posting_out := out, lw_posting_off0 := of_nat (length out)\<rparr>"
  obtain w2 G ext b0 where b: "build_blocks h w1 = Inr w2" "blocks_inv h (input_pos inp) b0 w2 G" "terms_of G = input_terms inp"
    "writer_config w2 = writer_config w1" "lw_term_hashes w2 = map (bsbf_hash (host_xxh64 h) \<circ> tp_term) (input_terms inp)"
    "lw_posting_out w2 = out @ ext" "length ext \<le> 512 * input_weight inp"
    by (rule build_blocks_ok [OF z wr ok len w1_def])
  have i2: "sbb_inv b0 (lw_dict_buf w2)" using b(2) by (simp add: blocks_inv_def)
  obtain buf where s: "sbb_seal h (lw_dict_buf w2) = Inr buf" using sbb_seal_writes [OF wr i2] by blast
  have bi: "sbb_inv b0 buf" "sbb_bytes buf = sbb_bytes (lw_dict_buf w2)" "sbb_spilled buf \<longrightarrow> sbb_sealed buf" using sbb_seal_inv [OF i2 s] by simp_all
  have cfg: "lw_has_norms w2 = has_scoring (in_config inp)" "lw_encoded_norms w2 = in_encoded_norms inp" "lw_norms_section w2 = []"
    "lw_tier w2 = tier_of (in_config inp)" "lw_index_id w2 = in_index_id inp" "lw_index_suffix w2 = in_index_suffix inp"
    "lw_posting_off0 w2 = of_nat (length out)" "lw_doc_count w2 = in_doc_count inp"
    using b(4) by (simp_all add: writer_config_def w1_def logical_index_writer_new_def)
  define ns where "ns = (if has_scoring (in_config inp) then norms_finish (fold norms_add (in_encoded_norms inp) []) [] else [])"
  define w3 where "w3 = w2\<lparr>lw_dict_buf := buf,
      lw_stats := (lw_stats w2)\<lparr>sb_doc_count := ucast (lw_doc_count w2), sb_indexed_doc_count := ucast (lw_doc_count w2),
                    sb_term_count := lw_term_count w2, sb_null_count := 0\<rparr>, lw_norms_section := ns\<rparr>"
  obtain bs where f: "(if lw_term_hashes w2 \<noteq> [] then
             and_then (bsbf_create (host_bsbf_bits h) (of_nat (length (lw_term_hashes w2))) kBsbfFpp) (\<lambda>bf.
             bsbf_serialize (fold (bsbf_insert (host_avx2 h)) (lw_term_hashes w2) bf) [])
           else Inr []) = Inr bs" and fo: "filter_of h inp bs"
  proof (cases "input_terms inp = []")
    case True
    then show ?thesis by (intro that [of "[]"]) (simp_all add: b(5) filter_of_def)
  next
    case False
    then obtain bs where "and_then (bsbf_create (host_bsbf_bits h) (of_nat (length (input_terms inp))) kBsbfFpp) (\<lambda>bf.
      bsbf_serialize (fold (bsbf_insert (host_avx2 h)) (map (bsbf_hash (host_xxh64 h) \<circ> tp_term) (input_terms inp)) bf) []) = Inr bs"
      "filter_of h inp bs" using sizing by (rule filter_built)
    with False show ?thesis by (intro that [of bs]) (simp_all add: b(5))
  qed
  have nok: "has_scoring (in_config inp) \<Longrightarrow> length (in_encoded_norms inp) = unat (in_doc_count inp)" using ok by (simp add: input_ok_def)
  let ?w = "w3\<lparr>lw_bsbf_bytes := bs, lw_term_hashes := []\<rparr>"
  have run: "build h out ?new = Inr (?w, out @ ext)"
  proof -
    have nn: "\<not> (lw_has_norms ?new \<and> length (lw_encoded_norms ?new) \<noteq> unat (lw_doc_count ?new))"
      using nok by (simp add: logical_index_writer_new_def)
    have n: "(if lw_has_norms w2 then norms_finish (fold norms_add (lw_encoded_norms w2) []) [] else lw_norms_section w2) = ns"
      unfolding ns_def cfg by (rule refl)
    have k: "lw_term_hashes w3 = lw_term_hashes w2" "lw_posting_out w3 = out @ ext" by (simp_all add: w3_def b(6))
    show ?thesis
      unfolding build_def if_not_P [OF nn] Let_def fw_bytes_written_def w1_def [symmetric] b(1) s and_then_Inr n w3_def [symmetric] k f
      by (simp add: k)
  qed
  have "blocks_inv h (input_pos inp) b0 ?w G" using b(2) bi by (simp add: blocks_inv_def w3_def)
  moreover have "if has_scoring (in_config inp) then ns \<noteq> [] \<and> length ns < 2 ^ 33 else ns = []"
    using nok norms_built [of "in_encoded_norms inp"] unat_u32_less [of "in_doc_count inp"] by (simp add: ns_def)
  ultimately have "index_built h inp out ?w ext G"
    using b(3,6,7) cfg fo bi(3) by (auto simp: index_built_def w3_def)
  with run show ?thesis by (rule that)
qed

end
