(* ===== verification/Written_Image.thy ===== *)
theory Written_Image
  imports Written_Index
begin

text \<open>
  From what the writer built to what the reader opens. The container places the posting bytes, the DICT
  buffer, the norms and the filter of a built index in one file; the file is then an image of the index,
  and the reader opened on it holds exactly the postings of the input terms.
\<close>

subsection \<open>The tier of the reader\<close>

text \<open>The reader reconstructs the tier from the meta block; only whether it keeps statistics matters.\<close>

lemma tier_stats_bytes:
  assumes "tier_has_stats t = tier_has_stats t'"
  shows "entry_bytes prev t e = entry_bytes prev t' e" and "stored_entry t e = stored_entry t' e"
    and "entry_fits t e = entry_fits t' e"
proof -
  have r: "write_region_meta e t = write_region_meta e t'" using assms by (intro ext) (simp add: write_region_meta_def)
  have i: "write_inline e t s = write_inline e t' s" for s unfolding write_inline_def r assms by (rule refl)
  have p: "write_pod_ref e t s = write_pod_ref e t' s" for s unfolding write_pod_ref_def r assms by (rule refl)
  have "write_body e prev t s = write_body e prev t' s" for s
    unfolding write_body_def write_stats_def i p assms by (rule refl)
  then show "entry_bytes prev t e = entry_bytes prev t' e" by (simp add: entry_bytes_def entry_body_def)
  show "stored_entry t e = stored_entry t' e"
    unfolding stored_entry_def stored_inline_def stored_pod_ref_def stored_regions_def stored_key_def assms by (rule refl)
  show "entry_fits t e = entry_fits t' e" using assms by (simp add: entry_fits_def)
qed

lemma tier_stats_chain:
  assumes "tier_has_stats t = tier_has_stats t'"
  shows "chain_bytes t prev es = chain_bytes t' prev es"
  by (induction es arbitrary: prev) (simp_all add: tier_stats_bytes(1) [OF assms])

lemma tier_stats_block:
  assumes t: "tier_has_stats t = tier_has_stats t'"
  shows "block_stored z contents t p b = block_stored z contents t' p b"
proof (cases "length (bi_entries b) < 2 ^ 32")
  case True
  have o: "seg_offsets t n ss = seg_offsets t' n ss" for n ss
    by (induction ss arbitrary: n) (simp_all add: tier_stats_chain [OF t])
  have s: "segs_bytes t ss = segs_bytes t' ss" for ss by (simp add: tier_stats_chain [OF t, abs_def])
  have hdr: "dict_block_header (built t p fb pb k es) = dict_block_header (built t' p fb pb k es)" for fb pb k es
    by (simp add: dict_block_header_def)
  have "block_plain t p b = block_plain t' p b"
    unfolding block_plain_def dict_block_finish_bytes [OF True] block_body_def by (simp add: o s hdr)
  then show ?thesis by (simp add: block_stored_def tier_stats_bytes(3) [OF t])
qed (simp add: block_stored_def)

subsection \<open>The meta block\<close>

definition meta_of :: "section_refs \<Rightarrow> u64 \<Rightarrow> logical_index_writer \<Rightarrow> per_index_meta_builder" where
  "meta_of refs dict_off w =
     \<lparr>pmb_index_id = lw_index_id w, pmb_index_suffix = lw_index_suffix w,
      pmb_flags = (if lw_has_prx w then (if lw_bsbf_bytes w = [] then 0 else meta_kHasBsbf) OR meta_kHasPositions
                   else if lw_bsbf_bytes w = [] then 0 else meta_kHasBsbf),
      pmb_stats = lw_stats w, pmb_sampled_term_index = sampled_finish (map rec_first_term (lw_blocks w)) [],
      pmb_dict_block_directory = dict_block_directory_finish (map (block_ref_of dict_off) (lw_blocks w)) [],
      pmb_section_refs = refs, pmb_extra_sections = []\<rparr>"

lemma fold_first_terms: "fold add_block_first_term ts acc = acc @ ts"
  by (induction ts arbitrary: acc) (simp_all add: add_block_first_term_def)

lemma finish_meta_of: "finish_meta refs dict_off w = per_index_meta_finish (meta_of refs dict_off w) []"
  by (simp add: finish_meta_def meta_of_def per_index_meta_builder_new_def set_stats_def set_sampled_term_index_def
      set_dict_block_directory_def set_section_refs_def fold_first_terms Let_def)

lemma meta_positions: "pmr_has_positions (meta_reader_of (meta_of refs off w)) = lw_has_prx w"
  by (simp add: pmr_has_positions_def meta_reader_of_def meta_of_def meta_kHasPositions_def meta_kHasBsbf_def)

text \<open>Its size.\<close>

lemma length_sample_terms: "length (sample_terms_bytes prev ts) \<le> sum_list (map (\<lambda>t. 10 + length t) ts)"
proof (induction ts arbitrary: prev)
  case (Cons t ts)
  show ?case using Cons.IH [of t] length_term_key [of prev t] by simp
qed simp

lemma length_sampled: "length (sampled_payload ts) \<le> 5 + 30 * sum_list (map (\<lambda>t. 1 + length t) ts)"
proof -
  let ?s = "sum_list (map (\<lambda>t. 1 + length t) ts)"
  have "sum_list (map (\<lambda>t. 10 + length t) us) \<le> 10 * sum_list (map (\<lambda>t. 1 + length t) us)" for us :: "term_bytes list"
    by (induction us) simp_all
  then have s: "length (sample_terms_bytes [] ts) \<le> 10 * ?s" using length_sample_terms [of "[]" ts] by (rule order.trans [rotated])
  have m: "10 + length t \<le> 10 * ?s" if "t \<in> set ts" for t
    using member_le_sum_list [of "1 + length t" "map (\<lambda>t. 1 + length t) ts"] that by simp
  show ?thesis
  proof (cases "ts = []")
    case False
    have "length (term_key_bytes [] (hd ts)) \<le> 10 * ?s" "length (term_key_bytes [] (last ts)) \<le> 10 * ?s"
      using m [of "hd ts"] m [of "last ts"] False length_term_key [of "[]" "hd ts"] length_term_key [of "[]" "last ts"] by simp_all
    with s show ?thesis using varint32_len_le_5 [of "of_nat (length ts)"] by (simp add: sampled_payload_def False)
  qed (use varint32_len_le_5 [of 0] in \<open>simp add: sampled_payload_def\<close>)
qed

lemma length_refs_payload: "length (dict_dir.refs_payload refs) \<le> 5 + 40 * length refs"
proof -
  have "length (concat (map block_ref_bytes refs)) \<le> 40 * length refs"
  proof (induction refs)
    case (Cons r refs)
    then show ?case using length_block_ref_bytes [of r] by simp
  qed simp
  then show ?thesis using varint32_len_le_5 [of "of_nat (length refs)"] by (simp add: dict_dir.refs_payload_def)
qed


subsection \<open>The image\<close>

text \<open>Where the container puts the parts of a built index.\<close>

definition placed :: "logical_index_writer \<Rightarrow> byte list \<Rightarrow> byte list \<Rightarrow> section_refs \<Rightarrow> byte list \<Rightarrow> bool" where
  "placed w out ext refs contents =
     (prefix (out @ ext @ sbb_bytes (lw_dict_buf w)) contents \<and>
      sr_posting_region refs = \<lparr>rr_offset = of_nat (length out), rr_length = of_nat (length ext)\<rparr> \<and>
      rr_length (sr_norms refs) = of_nat (length (lw_norms_section w)) \<and>
      rr_length (sr_bsbf refs) = of_nat (length (lw_bsbf_bytes w)) \<and>
      (lw_bsbf_bytes w = [] \<or>
       (\<exists>pre post. contents = pre @ lw_bsbf_bytes w @ post \<and> rr_offset (sr_bsbf refs) = of_nat (length pre))))"

definition final_blocks :: "u64 \<Rightarrow> logical_index_writer \<Rightarrow> written_block list \<Rightarrow> block_image list" where
  "final_blocks dict_off w G = map (\<lambda>(g, rc). (fst g)\<lparr>bi_ref := block_ref_of dict_off rc\<rparr>) (zip G (lw_blocks w))"

lemma final_blocks_simps:
  assumes "length (lw_blocks w) = length G"
  shows "map bi_entries (final_blocks off w G) = map (bi_entries \<circ> fst) G"
    and "map bi_frq_base (final_blocks off w G) = map (bi_frq_base \<circ> fst) G"
    and "map bi_ref (final_blocks off w G) = map (block_ref_of off) (lw_blocks w)"
    and "length (final_blocks off w G) = length G"
  using assms by (auto simp: final_blocks_def intro!: nth_equalityI)

lemma final_block_nth:
  assumes "length (lw_blocks w) = length G" and "i < length G"
  shows "final_blocks off w G ! i = (fst (G ! i))\<lparr>bi_ref := block_ref_of off (lw_blocks w ! i)\<rparr>"
  using assms by (simp add: final_blocks_def)

lemma built_blocks:
  assumes "blocks_inv h hp b0 w G"
  shows "length (lw_blocks w) = length G"
    and "i < length G \<Longrightarrow> block_ref_of 0 (lw_blocks w ! i) = bi_ref (fst (G ! i))"
    and "i < length G \<Longrightarrow> block_written h hp (lw_tier w) (lw_posting_off0 w) (lw_posting_out w) (sbb_bytes (lw_dict_buf w)) (G ! i)"
proof -
  have m: "map (block_ref_of 0) (lw_blocks w) = map (bi_ref \<circ> fst) G" using assms by (simp add: blocks_inv_def)
  then show l: "length (lw_blocks w) = length G" by (metis length_map)
  show "block_ref_of 0 (lw_blocks w ! i) = bi_ref (fst (G ! i))" if "i < length G"
    using arg_cong [OF m, of "\<lambda>xs. xs ! i"] that l by simp
  show "block_written h hp (lw_tier w) (lw_posting_off0 w) (lw_posting_out w) (sbb_bytes (lw_dict_buf w)) (G ! i)" if "i < length G"
    using assms that by (simp add: blocks_inv_def)
qed

lemma final_block_stored:
  assumes inv: "blocks_inv h hp b0 w G" and i: "i < length G"
    and c: "contents = pre @ sbb_bytes (lw_dict_buf w) @ post" "length contents < 2 ^ 64" and t: "tier_has_stats t = hp"
  shows "block_stored (host_zstd h) contents t hp (final_blocks (of_nat (length pre)) w G ! i)"
proof -
  note b = built_blocks [OF inv]
  let ?rc = "lw_blocks w ! i"
  have "tier_has_stats t = tier_has_stats (lw_tier w)" using inv t by (simp add: blocks_inv_def)
  then have "block_stored (host_zstd h) (sbb_bytes (lw_dict_buf w)) t hp (fst (G ! i))"
    using b(3) [OF i] unfolding block_written_def tier_stats_block [OF \<open>tier_has_stats t = tier_has_stats (lw_tier w)\<close>]
    by (cases "G ! i") simp
  then have "block_stored (host_zstd h) (pre @ sbb_bytes (lw_dict_buf w) @ post) t hp
      ((fst (G ! i))\<lparr>bi_ref := block_ref_of (of_nat (length pre)) ?rc\<rparr>)"
    using c b(2) [OF i, symmetric] by (intro block_stored_shift) (simp_all add: block_ref_of_def)
  then show ?thesis by (simp add: final_block_nth [OF b(1) i] c(1))
qed

text \<open>The dictionary of the image and the input terms correspond one to one.\<close>

definition hit_written :: "host \<Rightarrow> bool \<Rightarrow> u64 \<Rightarrow> byte list \<Rightarrow> prefix_hit \<Rightarrow> term_postings \<Rightarrow> bool" where
  "hit_written h hp off out x tp =
     (ph_term x = tp_term tp \<and>
      (\<forall>contents region. prefix out contents \<and> length contents < 2 ^ 64 \<and> unat (rr_offset region) = unat off \<and>
        length out \<le> unat off + unat (rr_length region) \<and> unat off + unat (rr_length region) \<le> length contents \<longrightarrow>
        posting_stored (host_zstd h) contents region hp hp (ph_entry x) (ph_frq_base x) (ph_prx_base x) (term_chunks tp)))"

lemma dictionary_terms:
  assumes inv: "blocks_inv h hp b0 w G" and t: "tier_has_stats t = hp"
  shows "list_all2 (hit_written h hp (lw_posting_off0 w) (lw_posting_out w)) (dictionary t hp (final_blocks off w G)) (terms_of G)"
proof -
  note b = built_blocks [OF inv]
  let ?bs = "final_blocks off w G" and ?P = "hit_written h hp (lw_posting_off0 w) (lw_posting_out w)"
  have tt: "tier_has_stats t = tier_has_stats (lw_tier w)" using inv t by (simp add: blocks_inv_def)
  have "list_all2 ?P (map (hit_of t hp (?bs ! i)) (bi_entries (?bs ! i))) (snd (G ! i))" if i: "i < length G" for i
  proof -
    obtain bl tps where g: "G ! i = (bl, tps)" by fastforce
    have "list_all2 (entry_for h hp (lw_tier w) (lw_posting_off0 w) (lw_posting_out w) (bi_frq_base bl)) (bi_entries bl) tps"
      and "bi_prx_base bl = bi_frq_base bl"
      using b(3) [OF i] by (simp_all add: block_written_def g)
    then show ?thesis
      by (auto simp: final_block_nth [OF b(1) i] g list_all2_map1 hit_of_def hit_written_def entry_for_def entry_written_def
          tier_stats_bytes(2) [OF tt] elim!: list_all2_mono)
  qed
  then have "list_all2 (list_all2 ?P) (map (\<lambda>bl. map (hit_of t hp bl) (bi_entries bl)) ?bs) (map snd G)"
    using final_blocks_simps(4) [OF b(1)] by (simp add: list_all2_conv_all_nth)
  then show ?thesis unfolding dictionary_def terms_of_def by (rule concat_transfer [THEN rel_funD])
qed


text \<open>The filter of the image.\<close>

lemma filter_stored:
  assumes f: "filter_of h inp (lw_bsbf_bytes w)" and p: "placed w out ext refs contents" and len: "length contents < 2 ^ 64"
  shows "bsbf_stored contents (sr_bsbf refs) (bsbf_hash (host_xxh64 h) ` tp_term ` set (input_terms inp))"
proof (cases "lw_bsbf_bytes w = []")
  case True
  then show ?thesis using p by (simp add: bsbf_stored_def placed_def)
next
  case False
  then obtain pre post where c: "contents = pre @ lw_bsbf_bytes w @ post" "rr_offset (sr_bsbf refs) = of_nat (length pre)"
    "rr_length (sr_bsbf refs) = of_nat (length (lw_bsbf_bytes w))"
    using p by (auto simp: placed_def)
  let ?hs = "map (bsbf_hash (host_xxh64 h) \<circ> tp_term) (input_terms inp)"
  obtain b0 where b: "bsbf_create (host_bsbf_bits h) (of_nat (length (input_terms inp))) kBsbfFpp = Inr b0"
    "bsbf_serialize (fold (bsbf_insert (host_avx2 h)) ?hs b0) [] = Inr (lw_bsbf_bytes w)"
    using f False by (auto simp: filter_of_def split: if_splits)
  have "unat (rr_offset (sr_bsbf refs)) = length pre" "unat (rr_length (sr_bsbf refs)) = length (lw_bsbf_bytes w)"
    using len by (simp_all add: c)
  moreover have "bsbf_hash (host_xxh64 h) ` tp_term ` set (input_terms inp) \<subseteq> set ?hs" by auto
  ultimately show ?thesis unfolding bsbf_stored_def using b c(1) by blast
qed

text \<open>First terms and their weight.\<close>

lemma first_terms_weight:
  assumes inv: "blocks_inv h hp b0 w G"
  shows "sum_list (map (\<lambda>t. 1 + length t) (map rec_first_term (lw_blocks w))) \<le> total_weight hp (terms_of G)"
    and "length (lw_blocks w) \<le> length (terms_of G)"
proof -
  let ?f = "\<lambda>g. de_term (hd (bi_entries (fst g)))"
  have m: "map rec_first_term (lw_blocks w) = map ?f G" using inv by (simp add: blocks_inv_def comp_def)
  have w: "1 + length (?f g) \<le> total_weight hp (snd g) \<and> 1 \<le> length (snd g)" if "g \<in> set G" for g
  proof -
    obtain bl tps where g: "g = (bl, tps)" by fastforce
    have "block_written h hp (lw_tier w) (lw_posting_off0 w) (lw_posting_out w) (sbb_bytes (lw_dict_buf w)) (bl, tps)"
      using inv that g by (auto simp: blocks_inv_def)
    then obtain e es where e: "bi_entries bl = e # es"
      and l: "list_all2 (entry_for h hp (lw_tier w) (lw_posting_off0 w) (lw_posting_out w) (bi_frq_base bl)) (e # es) tps"
      by (cases "bi_entries bl") (auto simp: block_written_def block_stored_def Let_def)
    then show ?thesis by (auto simp: g list_all2_Cons1 entry_for_def term_weight_def)
  qed
  have "sum_list (map (\<lambda>t. 1 + length t) (map ?f G)) \<le> total_weight hp (terms_of G) \<and> length G \<le> length (terms_of G)"
    using w
  proof (induction G)
    case (Cons g G)
    have "1 + length (?f g) \<le> total_weight hp (snd g)" "1 \<le> length (snd g)" using Cons.prems [of g] by simp_all
    moreover have "sum_list (map (\<lambda>t. 1 + length t) (map ?f G)) \<le> total_weight hp (terms_of G)" "length G \<le> length (terms_of G)"
      using Cons.IH Cons.prems by simp_all
    ultimately show ?case by (simp add: terms_of_def)
  qed (simp add: terms_of_def)
  then show "sum_list (map (\<lambda>t. 1 + length t) (map rec_first_term (lw_blocks w))) \<le> total_weight hp (terms_of G)"
    and "length (lw_blocks w) \<le> length (terms_of G)"
    using built_blocks(1) [OF inv] by (simp_all add: m)
qed

lemma terms_le_weight: "length tps \<le> total_weight hp tps"
  by (induction tps) (simp_all add: term_weight_def)

lemma meta_sizes:
  assumes inv: "blocks_inv h hp b0 w G" and m: "m = meta_of refs off w"
  defines "k \<equiv> total_weight hp (terms_of G)"
  shows "length (pmb_sampled_term_index m) \<le> 100 + 30 * k" and "length (pmb_dict_block_directory m) \<le> 100 + 40 * k"
    and "length (sampled_payload (map rec_first_term (lw_blocks w))) \<le> 5 + 30 * k"
    and "length (dict_dir.refs_payload (map (block_ref_of off) (lw_blocks w))) \<le> 5 + 40 * k"
proof -
  let ?ts = "map rec_first_term (lw_blocks w)" and ?rs = "map (block_ref_of off) (lw_blocks w)"
  have f: "sum_list (map (\<lambda>t. 1 + length t) ?ts) \<le> k" "length ?rs \<le> k"
    using first_terms_weight [OF inv] terms_le_weight [of "terms_of G" hp] by (simp_all add: k_def)
  show s: "length (sampled_payload ?ts) \<le> 5 + 30 * k" using length_sampled [of ?ts] f(1) by linarith
  show d: "length (dict_dir.refs_payload ?rs) \<le> 5 + 40 * k" using length_refs_payload [of ?rs] f(2) by linarith
  show "length (pmb_sampled_term_index m) \<le> 100 + 30 * k"
    using s length_frame_le [of 2 "sampled_payload ?ts"] by (simp add: m meta_of_def sampled_finish_bytes)
  show "length (pmb_dict_block_directory m) \<le> 100 + 40 * k"
    using d length_frame_le [of 3 "dict_dir.refs_payload ?rs"] by (simp add: m meta_of_def dict_block_directory_finish_bytes)
qed


lemma index_image_built:
  assumes built: "index_built h inp out w ext G" and ok: "input_ok inp" and p: "placed w out ext refs contents"
    and len: "length contents < 2 ^ 64" and wt: "input_weight inp < 2 ^ 48" and t: "tier_has_stats t = input_pos inp"
  defines "off \<equiv> of_nat (length (out @ ext))"
  shows "index_image h contents t (input_pos inp) (meta_of refs off w) (final_blocks off w G)"
proof -
  let ?hp = "input_pos inp" and ?bs = "final_blocks off w G" and ?m = "meta_of refs off w"
  obtain b0 where inv: "blocks_inv h ?hp b0 w G" using built by (auto simp: index_built_def)
  have b: "terms_of G = input_terms inp" "lw_index_suffix w = in_index_suffix inp" "filter_of h inp (lw_bsbf_bytes w)"
    using built by (auto simp: index_built_def)
  have o: "length (input_terms inp) < 2 ^ 32" "sorted_wrt (<) (map tp_term (input_terms inp))" "length (in_index_suffix inp) \<le> unat kMaxSuffixLen"
    using ok by (simp_all add: input_ok_def)
  note n = built_blocks(1) [OF inv] and k = meta_sizes [OF inv, of "meta_of refs off w" refs off, OF refl]
  note f = final_blocks_simps [OF n, of off]
  obtain post where c: "contents = (out @ ext) @ sbb_bytes (lw_dict_buf w) @ post"
    using p by (auto simp: placed_def prefix_def)
  have st: "block_stored (host_zstd h) contents t ?hp bl" if "bl \<in> set ?bs" for bl
    using that final_block_stored [OF inv _ c len t] f(4) by (auto simp: in_set_conv_nth off_def)
  have tm: "map ph_term (dictionary t ?hp ?bs) = map tp_term (input_terms inp)"
    using list_all2_mono [OF dictionary_terms [OF inv t, of off], of "\<lambda>x tp. ph_term x = tp_term tp"] b(1)
    by (auto simp: hit_written_def list_all2_conv_all_nth intro: nth_equalityI)
  then have "ph_term ` set (dictionary t ?hp ?bs) = tp_term ` set (input_terms inp)" by (metis list.set_map)
  then have bl: "bsbf_stored contents (sr_bsbf (pmb_section_refs ?m)) (bsbf_hash (host_xxh64 h) ` ph_term ` set (dictionary t ?hp ?bs))"
    using filter_stored [OF b(3) p len] by (simp add: meta_of_def)
  have "map rec_first_term (lw_blocks w) = map (de_term \<circ> hd \<circ> bi_entries \<circ> fst) G" using inv by (simp add: blocks_inv_def)
  then have ft: "map rec_first_term (lw_blocks w) = map (de_term \<circ> hd \<circ> bi_entries) ?bs"
    using arg_cong [OF f(1), of "map (de_term \<circ> hd)"] by (simp add: comp_assoc)
  have nb: "length ?bs < 2 ^ 32" using f(4) n first_terms_weight(2) [OF inv] o(1) b(1) by simp
  show ?thesis
    unfolding index_image_def
  proof (intro conjI)
    show "length (pmb_sampled_term_index ?m) < 2 ^ 64" "length (pmb_dict_block_directory ?m) < 2 ^ 64"
      using k(1,2) wt b(1) by (simp_all add: input_weight_def)
    show "pmb_sampled_term_index ?m = sampled_finish (map (de_term \<circ> hd \<circ> bi_entries) ?bs) []" by (simp add: meta_of_def ft)
    show "pmb_dict_block_directory ?m = dict_block_directory_finish (map bi_ref ?bs) []" by (simp add: meta_of_def f(3))
  qed (use len nb st o b tm bl in \<open>auto simp: meta_of_def\<close>)
qed

subsection \<open>What the reader holds\<close>

text \<open>The postings an input gives a term.\<close>

definition postings_of :: "snii_index_input \<Rightarrow> term_bytes \<Rightarrow> chunk list" where
  "postings_of inp t = (case find (\<lambda>tp. tp_term tp = t) (input_terms inp) of None \<Rightarrow> [] | Some tp \<Rightarrow> term_chunks tp)"

definition holds_input :: "host \<Rightarrow> byte list \<Rightarrow> logical_index_reader \<Rightarrow> snii_index_input \<Rightarrow> content \<Rightarrow> bool" where
  "holds_input h contents r inp pcs =
     (index_holds h contents r (input_pos inp) (input_pos inp) pcs \<and> (\<forall>t. posting_for pcs t = postings_of inp t) \<and>
      map (ph_term \<circ> fst) pcs = map tp_term (input_terms inp))"

lemma posting_for_zip:
  "list_all2 (\<lambda>x tp. ph_term x = tp_term tp) xs tps \<Longrightarrow>
   posting_for (zip xs (map term_chunks tps)) t = (case find (\<lambda>tp. tp_term tp = t) tps of None \<Rightarrow> [] | Some tp \<Rightarrow> term_chunks tp)"
  by (induction rule: list_all2_induct) (simp_all add: posting_for_def)

lemma open_built:
  assumes ho: "host_ok h" and built: "index_built h inp out w ext G" and ok: "input_ok inp" and p: "placed w out ext refs contents"
    and len: "length contents < 2 ^ 63" and wt: "input_weight inp < 2 ^ 48" and t: "tier_has_stats t = input_pos inp"
  obtains r pcs where "logical_index_open h (read_file contents) t (input_pos inp) (finish_meta refs (of_nat (length (out @ ext))) w) = Inr r"
    and "holds_input h contents r inp pcs"
proof -
  let ?hp = "input_pos inp" and ?off = "of_nat (length (out @ ext)) :: u64"
  let ?m = "meta_of refs ?off w" and ?bs = "final_blocks ?off w G"
  have l: "length contents < 2 ^ 64" using len by simp
  obtain r where r: "logical_index_open h (read_file contents) t ?hp (per_index_meta_finish ?m []) = Inr r"
    "reads_image h contents t ?hp ?bs r" "lr_meta r = meta_reader_of ?m"
    by (rule open_image [OF index_image_built [OF built ok p l wt t]])
  obtain b0 where inv: "blocks_inv h ?hp b0 w G" using built by (auto simp: index_built_def)
  have b: "terms_of G = input_terms inp" "lw_posting_out w = out @ ext" "lw_posting_off0 w = of_nat (length out)"
    using built by (auto simp: index_built_def)
  let ?d = "dictionary t ?hp ?bs" and ?region = "posting_region r"
  let ?pcs = "zip ?d (map term_chunks (input_terms inp))"
  have d: "list_all2 (hit_written h ?hp (of_nat (length out)) (out @ ext)) ?d (input_terms inp)"
    using dictionary_terms [OF inv t, of ?off] b by simp
  note ld = list_all2_lengthD [OF d]
  have tm: "list_all2 (\<lambda>x tp. ph_term x = tp_term tp) ?d (input_terms inp)"
    using d by (rule list_all2_mono) (simp add: hit_written_def)
  have reg: "?region = \<lparr>rr_offset = of_nat (length out), rr_length = of_nat (length ext)\<rparr>"
    using p by (simp add: r(3) meta_reader_of_def meta_of_def placed_def)
  obtain post where c: "contents = out @ ext @ sbb_bytes (lw_dict_buf w) @ post" using p by (auto simp: placed_def prefix_def)
  have u: "unat (of_nat (length out) :: u64) = length out" "unat (of_nat (length ext) :: u64) = length ext"
    using l by (simp_all add: c)
  have "hit_stored h contents r ?hp ?hp x cs" if "(x, cs) \<in> set ?pcs" for x cs
  proof -
    obtain i where "i < length ?d" "x = ?d ! i" "cs = term_chunks (input_terms inp ! i)" using \<open>(x, cs) \<in> set ?pcs\<close> ld
      by (auto simp: in_set_conv_nth)
    with d have "hit_written h ?hp (of_nat (length out)) (out @ ext) x (input_terms inp ! i)" by (simp add: list_all2_conv_all_nth)
    then show ?thesis
      using l unfolding hit_stored_def hit_written_def \<open>cs = term_chunks (input_terms inp ! i)\<close> reg
      by (elim conjE allE [of _ contents] allE [of _ "\<lparr>rr_offset = of_nat (length out), rr_length = of_nat (length ext)\<rparr>"])
        (simp add: u c prefix_def)
  qed
  then have "index_holds h contents r ?hp ?hp ?pcs"
    using ho r(2) ld by (auto simp: index_holds_def index_over_def reads_image_def reader_represents_def)
  moreover have "posting_for ?pcs x = postings_of inp x" for x unfolding posting_for_zip [OF tm] postings_of_def by (rule refl)
  moreover have "map (ph_term \<circ> fst) ?pcs = map tp_term (input_terms inp)"
    using tm ld by (auto simp: list_all2_conv_all_nth intro!: nth_equalityI)
  ultimately have "holds_input h contents r inp ?pcs" by (simp add: holds_input_def)
  with r(1) show ?thesis by (intro that [of r ?pcs]) (simp_all add: finish_meta_of)
qed

end
