(* ===== verification/Container_Written.thy ===== *)
theory Container_Written
  imports Segment Written_Image
begin

text \<open>
  Writing a container. After any number of indexes was added the file holds each of them; finishing
  appends norms, filters, the tail meta region and the tail pointer, and leaves every index placed where
  its meta block says.
\<close>

subsection \<open>The size of a meta block\<close>

lemma meta_of_frames:
  assumes inv: "blocks_inv h hp b0 w G" and wt: "total_weight hp (terms_of G) < 2 ^ 48"
  shows "meta_frames_ok (meta_of refs off w) (sampled_payload (map rec_first_term (lw_blocks w)))
      (dict_dir.refs_payload (map (block_ref_of off) (lw_blocks w))) []"
  using meta_sizes(3,4) [OF inv, of "meta_of refs off w" refs off, OF refl] wt
  by (simp add: meta_frames_ok_def meta_of_def sampled_finish_bytes dict_block_directory_finish_bytes)

lemma length_finish_meta:
  assumes inv: "blocks_inv h hp b0 w G" and wt: "total_weight hp (terms_of G) < 2 ^ 48" and sf: "length (lw_index_suffix w) \<le> unat kMaxSuffixLen"
  shows "length (finish_meta refs off w) \<le> 2 ^ 17 + 100 * total_weight hp (terms_of G)"
proof -
  let ?m = "meta_of refs off w" and ?ts = "map rec_first_term (lw_blocks w)" and ?rs = "map (block_ref_of off) (lw_blocks w)"
  note k = meta_sizes(3,4) [OF inv, of ?m refs off, OF refl]
  note fr = length_frame_le [of 1 "stats_payload (lw_stats w)"] length_frame_le [of 2 "sampled_payload ?ts"]
    length_frame_le [of 3 "dict_dir.refs_payload ?rs"] length_frame_le [of 5 "section_refs_payload refs"]
  have "length (header_covered (lw_index_id w) (lw_index_suffix w) (pmb_flags ?m)) \<le> 30 + length (lw_index_suffix w)"
    using varint32_len_le_5 [of "of_nat (length (lw_index_suffix w))"] varint64_len_le_10 [of "lw_index_id w"] by (simp add: header_covered_def)
  then show ?thesis
    using length_stats_payload [of "lw_stats w"] per_index_meta_finish_bytes [OF meta_of_frames [OF inv wt, of refs off], of "[]"] sf k fr length_section_refs_payload [of refs]
    by (simp add: finish_meta_of Let_def frames_bytes_def meta_of_def kMaxSuffixLen_def)
qed


subsection \<open>Adding indexes\<close>

fun add_all :: "host \<Rightarrow> snii_index_input list \<Rightarrow> compound_writer \<Rightarrow> compound_writer result" where
  "add_all h [] c = Inr c"
| "add_all h (inp # ins) c = and_then (add_logical_index h inp c) (add_all h ins)"

definition all_weight :: "snii_index_input list \<Rightarrow> nat" where
  "all_weight ins = sum_list (map input_weight ins)"

text \<open>An index in the file: what was built, where the placement says.\<close>

definition index_laid :: "host \<Rightarrow> byte list \<Rightarrow> snii_index_input \<Rightarrow> logical_index_writer \<Rightarrow> placement \<Rightarrow> bool" where
  "index_laid h contents inp w p =
     (\<exists>out ext G. index_built h inp out w ext G \<and> prefix (out @ ext @ sbb_bytes (lw_dict_buf w)) contents \<and>
        pl_post_off p = of_nat (length out) \<and> pl_post_len p = of_nat (length ext) \<and>
        pl_dict_off p = of_nat (length (out @ ext)))"

definition bootstrap_bytes :: "byte list" where
  "bootstrap_bytes = bh_covered new_bootstrap_header @ le_bytes 4 (crc32c (bh_covered new_bootstrap_header))"

lemma length_bootstrap_bytes [simp]: "length bootstrap_bytes = 21"
  by (simp add: bootstrap_bytes_def bh_covered_def)

definition writer_inv :: "host \<Rightarrow> snii_index_input list \<Rightarrow> compound_writer \<Rightarrow> bool" where
  "writer_inv h ins c =
     (\<not> cw_finished c \<and> (if cw_bootstrap_written c then prefix bootstrap_bytes (cw_out c) else cw_out c = []) \<and>
      length (cw_indexes c) = length ins \<and> length (cw_placements c) = length ins \<and>
      (\<forall>i < length ins. index_laid h (cw_out c) (ins ! i) (cw_indexes c ! i) (cw_placements c ! i) \<and>
         pl_norms_len (cw_placements c ! i) = 0 \<and> pl_bsbf_len (cw_placements c ! i) = 0) \<and>
      length (cw_out c) \<le> 21 + 2048 * all_weight ins)"

lemma index_laid_prefix: "index_laid h contents inp w p \<Longrightarrow> prefix contents contents' \<Longrightarrow> index_laid h contents' inp w p"
  unfolding index_laid_def by (metis prefix_order.trans)

lemma cw_append_writes [simp]: "host_writes h \<Longrightarrow> cw_append h bytes out = Inr (out @ bytes)"
  by (simp add: cw_append_def)

lemma ensure_bootstrap_ok:
  assumes "host_writes h" and "if cw_bootstrap_written c then prefix bootstrap_bytes (cw_out c) else cw_out c = []"
  obtains out where "ensure_bootstrap h c = Inr (c\<lparr>cw_bootstrap_written := True, cw_out := out\<rparr>)" and "prefix bootstrap_bytes out"
    and "prefix (cw_out c) out" and "length out \<le> max 21 (length (cw_out c))"
proof (cases "cw_bootstrap_written c")
  case True
  then have "c\<lparr>cw_bootstrap_written := True, cw_out := cw_out c\<rparr> = c" by simp
  with True assms show ?thesis by (intro that [of "cw_out c"]) (simp_all add: ensure_bootstrap_def)
next
  case False
  then show ?thesis using assms
    by (intro that [of bootstrap_bytes])
      (simp_all add: ensure_bootstrap_def write_bootstrap_def encode_bootstrap_header_bytes bootstrap_bytes_def bh_covered_def)
qed

lemma word_len_diff: "of_nat (length (xs @ ys)) - of_nat (length xs) = (of_nat (length ys) :: u64)"
  by simp

lemma add_logical_index_ok:
  assumes ho: "host_ok h" and wr: "host_writes h" and inv: "writer_inv h ins c" and ok: "input_ok inp"
    and wt: "all_weight (ins @ [inp]) \<le> 2 ^ 40"
  obtains c' where "add_logical_index h inp c = Inr c'" and "writer_inv h (ins @ [inp]) c'"
proof -
  have nf: "\<not> cw_finished c" and boot: "if cw_bootstrap_written c then prefix bootstrap_bytes (cw_out c) else cw_out c = []"
    and l: "length (cw_indexes c) = length ins" "length (cw_placements c) = length ins"
    and laid: "\<forall>i < length ins. index_laid h (cw_out c) (ins ! i) (cw_indexes c ! i) (cw_placements c ! i) \<and>
         pl_norms_len (cw_placements c ! i) = 0 \<and> pl_bsbf_len (cw_placements c ! i) = 0"
    and sz: "length (cw_out c) \<le> 21 + 2048 * all_weight ins"
    using inv by (simp_all add: writer_inv_def)
  obtain out where e: "ensure_bootstrap h c = Inr (c\<lparr>cw_bootstrap_written := True, cw_out := out\<rparr>)"
    "prefix bootstrap_bytes out" "prefix (cw_out c) out" "length out \<le> max 21 (length (cw_out c))"
    by (rule ensure_bootstrap_ok [OF wr boot])
  have aw: "all_weight ins + input_weight inp \<le> 2 ^ 40" using wt by (simp add: all_weight_def)
  have lo: "length out \<le> 21 + 2048 * all_weight ins" using e(4) sz by simp
  then have "length out + 2048 * input_weight inp < 2 ^ 62" using aw by simp
  from build_ok [OF _ _ wr ok this] ho obtain w ext G where
    b: "build h out (logical_index_writer_new inp) = Inr (w, out @ ext)" and ib: "index_built h inp out w ext G"
    by (auto simp: host_ok_def)
  obtain b0 where bi: "blocks_inv h (input_pos inp) b0 w G" using ib by (auto simp: index_built_def)
  let ?D = "sbb_bytes (lw_dict_buf w)"
  have D: "length ?D \<le> 1024 * input_weight inp" "length ext \<le> 512 * input_weight inp"
    using bi ib by (simp_all add: blocks_inv_def index_built_def input_weight_def)
  have si: "stream_into h (lw_dict_buf w) (out @ ext) = Inr ((out @ ext) @ ?D)"
    by (rule stream_into_writes [OF wr]) (use bi ib D aw in \<open>auto simp: blocks_inv_def index_built_def\<close>)
  let ?p = "\<lparr>pl_dict_off = of_nat (length (out @ ext)), pl_dict_len = of_nat (length ?D), pl_post_off = of_nat (length out),
                 pl_post_len = of_nat (length ext), pl_norms_off = 0, pl_norms_len = 0, pl_bsbf_off = 0, pl_bsbf_len = 0\<rparr>"
  let ?c = "c\<lparr>cw_bootstrap_written := True, cw_out := out @ ext @ ?D, cw_indexes := cw_indexes c @ [w], cw_placements := cw_placements c @ [?p]\<rparr>"
  have run: "add_logical_index h inp c = Inr ?c"
    using nf by (simp add: add_logical_index_def e(1) b si fw_bytes_written_def Let_def)
  have pre: "prefix (cw_out c) (out @ ext @ ?D)" using e(3) by (rule prefix_order.trans) simp
  have "index_laid h (out @ ext @ ?D) inp w ?p" unfolding index_laid_def
    by (intro exI [of _ out] exI [of _ ext] exI [of _ G]) (simp add: ib)
  then have "\<forall>i < length (ins @ [inp]). index_laid h (cw_out ?c) ((ins @ [inp]) ! i) (cw_indexes ?c ! i) (cw_placements ?c ! i) \<and>
         pl_norms_len (cw_placements ?c ! i) = 0 \<and> pl_bsbf_len (cw_placements ?c ! i) = 0"
    using laid index_laid_prefix [OF _ pre] l by (auto simp: nth_append less_Suc_eq)
  moreover have "prefix bootstrap_bytes (out @ ext @ ?D)" using e(2) by (rule prefix_order.trans) simp
  moreover have "length (out @ ext @ ?D) \<le> 21 + 2048 * all_weight (ins @ [inp])" using lo D by (simp add: all_weight_def)
  ultimately have "writer_inv h (ins @ [inp]) ?c" using l nf unfolding writer_inv_def by simp
  with run show ?thesis by (rule that)
qed

lemma add_all_ok:
  assumes "host_ok h" and "host_writes h" and "writer_inv h done_ins c" and "\<forall>inp \<in> set ins. input_ok inp"
    and "all_weight (done_ins @ ins) \<le> 2 ^ 40"
  obtains c' where "add_all h ins c = Inr c'" and "writer_inv h (done_ins @ ins) c'"
  using assms(3-)
proof (induction ins arbitrary: c done_ins thesis)
  case (Cons inp ins)
  have wt: "all_weight (done_ins @ [inp]) \<le> 2 ^ 40" using Cons.prems(4) by (simp add: all_weight_def)
  have "input_ok inp" using Cons.prems(3) by simp
  then obtain c1 where c1: "add_logical_index h inp c = Inr c1" "writer_inv h (done_ins @ [inp]) c1"
    by (rule add_logical_index_ok [OF assms(1,2) Cons.prems(2) _ wt])
  show ?case
  proof (rule Cons.IH [OF _ c1(2)])
    fix c' assume "add_all h ins c1 = Inr c'" and "writer_inv h ((done_ins @ [inp]) @ ins) c'"
    then show thesis using c1(1) by (intro Cons.prems(1) [of c']) simp_all
  qed (use Cons.prems in simp_all)
qed simp

lemma writer_inv_new: "writer_inv h [] compound_writer_new"
  by (simp add: writer_inv_def compound_writer_new_def)


subsection \<open>Norms and filters\<close>

text \<open>The two loops append the sections one after the other and set the reference of each placement.\<close>

fun place_sections ::
  "host \<Rightarrow> ('w \<Rightarrow> bool) \<Rightarrow> ('w \<Rightarrow> byte list) \<Rightarrow> (u64 \<Rightarrow> u64 \<Rightarrow> placement \<Rightarrow> placement) \<Rightarrow> 'w list \<Rightarrow> placement list \<Rightarrow> file_out \<Rightarrow>
    (placement list \<times> file_out) result" where
  "place_sections h skip sect upd (w # ws) (p # ps) out =
     (if skip w then and_then (place_sections h skip sect upd ws ps out) (\<lambda>(ps, out). Inr (p # ps, out))
      else
        and_then (cw_append h (sect w) out) (\<lambda>out'.
        and_then (place_sections h skip sect upd ws ps out') (\<lambda>(ps, out'').
        Inr (upd (fw_bytes_written out) (fw_bytes_written out' - fw_bytes_written out) p # ps, out''))))"
| "place_sections h skip sect upd ws ps out = Inr (ps, out)"

abbreviation (input) norms_skip :: "logical_index_writer \<Rightarrow> bool" where
  "norms_skip \<equiv> \<lambda>w. \<not> lw_has_norms w \<or> lw_norms_section w = []"

abbreviation (input) norms_upd :: "u64 \<Rightarrow> u64 \<Rightarrow> placement \<Rightarrow> placement" where
  "norms_upd \<equiv> \<lambda>off len p. p\<lparr>pl_norms_off := off, pl_norms_len := len\<rparr>"

abbreviation (input) bsbf_skip :: "logical_index_writer \<Rightarrow> bool" where
  "bsbf_skip \<equiv> \<lambda>w. lw_bsbf_bytes w = []"

abbreviation (input) bsbf_upd :: "u64 \<Rightarrow> u64 \<Rightarrow> placement \<Rightarrow> placement" where
  "bsbf_upd \<equiv> \<lambda>off len p. p\<lparr>pl_bsbf_off := off, pl_bsbf_len := len\<rparr>"

lemma place_norms_sections:
  "place_norms h ws ps out =
   place_sections h norms_skip lw_norms_section
     norms_upd ws ps out"
  by (induction h ws ps out rule: place_norms.induct) (auto intro!: and_then_cong)

lemma place_bsbf_sections:
  "place_bsbf h ws ps out =
   place_sections h bsbf_skip lw_bsbf_bytes bsbf_upd ws ps out"
  by (induction h ws ps out rule: place_bsbf.induct) (auto intro!: and_then_cong)

definition section_placed ::
  "('w \<Rightarrow> bool) \<Rightarrow> ('w \<Rightarrow> byte list) \<Rightarrow> (u64 \<Rightarrow> u64 \<Rightarrow> placement \<Rightarrow> placement) \<Rightarrow> byte list \<Rightarrow> 'w \<Rightarrow> placement \<Rightarrow> placement \<Rightarrow> bool" where
  "section_placed skip sect upd contents w p p' =
     (if skip w then p' = p
      else \<exists>pre post. contents = pre @ sect w @ post \<and> p' = upd (of_nat (length pre)) (of_nat (length (sect w))) p)"

lemma section_placed_more:
  "section_placed skip sect upd contents w p p' \<Longrightarrow> section_placed skip sect upd (contents @ xs) w p p'"
  by (fastforce simp: section_placed_def)

lemma place_sections_ok:
  assumes wr: "host_writes h" and "length ps = length ws" and "\<forall>w \<in> set ws. length (sect w) \<le> m"
  obtains ps' sects where "place_sections h skip sect upd ws ps out = Inr (ps', out @ sects)" and "length sects \<le> length ws * m"
    and "length ps' = length ws"
    and "\<And>i. i < length ws \<Longrightarrow> section_placed skip sect upd (out @ sects) (ws ! i) (ps ! i) (ps' ! i)"
  using assms(2-)
proof (induction ws arbitrary: ps out thesis)
  case Nil
  then show ?case by simp
next
  case (Cons w ws)
  obtain p ps0 where ps: "ps = p # ps0" using Cons.prems(2) by (cases ps) auto
  have a: "length ps0 = length ws" "\<forall>w \<in> set ws. length (sect w) \<le> m" "length (sect w) \<le> m" using Cons.prems by (simp_all add: ps)
  define out' where "out' = (if skip w then out else out @ sect w)"
  define q where "q = (if skip w then p else upd (of_nat (length out)) (of_nat (length (sect w))) p)"
  obtain ps' sects where r: "place_sections h skip sect upd ws ps0 out' = Inr (ps', out' @ sects)" "length sects \<le> length ws * m"
    "length ps' = length ws" "\<And>i. i < length ws \<Longrightarrow> section_placed skip sect upd (out' @ sects) (ws ! i) (ps0 ! i) (ps' ! i)"
    by (rule Cons.IH [OF _ a(1,2), of out']) blast
  let ?sects = "(if skip w then [] else sect w) @ sects"
  have o: "out' @ sects = out @ ?sects" by (simp add: out'_def)
  have "section_placed skip sect upd (out @ ?sects) w p q" by (auto simp: section_placed_def q_def)
  then have "section_placed skip sect upd (out @ ?sects) ((w # ws) ! i) (ps ! i) ((q # ps') ! i)" if "i < length (w # ws)" for i
    using that r(4) [unfolded o] by (cases i) (simp_all add: ps)
  moreover have "place_sections h skip sect upd (w # ws) ps out = Inr (q # ps', out @ ?sects)"
    using r(1) wr by (auto simp: ps q_def out'_def fw_bytes_written_def split: if_splits)
  ultimately show ?case using r(2,3) a(3) by (intro Cons.prems(1) [of "q # ps'" ?sects]) auto
qed


lemma placed_more: "placed w out ext refs contents \<Longrightarrow> placed w out ext refs (contents @ xs)"
  by (fastforce simp: placed_def)

text \<open>Every index of the file with its final references.\<close>

definition index_placed :: "host \<Rightarrow> byte list \<Rightarrow> snii_index_input \<Rightarrow> logical_index_writer \<Rightarrow> placement \<Rightarrow> bool" where
  "index_placed h contents inp w p =
     (\<exists>out ext G. index_built h inp out w ext G \<and> placed w out ext (section_refs_of p) contents \<and>
        pl_dict_off p = of_nat (length (out @ ext)))"

lemma index_placed_more: "index_placed h contents inp w p \<Longrightarrow> index_placed h (contents @ xs) inp w p"
  unfolding index_placed_def by (blast intro: placed_more)

lemma index_laid_sections:
  "index_laid h contents inp w p \<Longrightarrow>
     (lw_has_norms w \<longrightarrow> lw_norms_section w \<noteq> []) \<and> (\<not> lw_has_norms w \<longrightarrow> lw_norms_section w = []) \<and>
     length (lw_norms_section w) \<le> 2 ^ 33 \<and> length (lw_bsbf_bytes w) \<le> 2 ^ 33"
  by (auto simp: index_laid_def index_built_def filter_of_def split: if_splits)

lemma index_laid_placed:
  assumes laid: "index_laid h contents inp w p" and len: "pl_norms_len p = 0" "pl_bsbf_len p = 0" and "prefix contents contents'"
    and n: "section_placed norms_skip lw_norms_section
      norms_upd c1 w p p1"
    and b: "section_placed bsbf_skip lw_bsbf_bytes bsbf_upd contents' w p1 p2"
  shows "index_placed h contents' inp w p2"
proof -
  obtain out ext G where ib: "index_built h inp out w ext G" and pre: "prefix (out @ ext @ sbb_bytes (lw_dict_buf w)) contents"
    and o: "pl_post_off p = of_nat (length out)" "pl_post_len p = of_nat (length ext)" "pl_dict_off p = of_nat (length (out @ ext))"
    using laid by (auto simp: index_laid_def)
  note s = index_laid_sections [OF laid]
  have p1: "pl_norms_len p1 = of_nat (length (lw_norms_section w))" "pl_bsbf_len p1 = 0" "pl_post_off p1 = pl_post_off p"
    "pl_post_len p1 = pl_post_len p" "pl_dict_off p1 = pl_dict_off p"
    using n s len by (auto simp: section_placed_def split: if_splits)
  have p2: "pl_norms_len p2 = pl_norms_len p1" "pl_bsbf_len p2 = of_nat (length (lw_bsbf_bytes w))" "pl_post_off p2 = pl_post_off p1"
    "pl_post_len p2 = pl_post_len p1" "pl_dict_off p2 = pl_dict_off p1"
    "lw_bsbf_bytes w = [] \<or> (\<exists>pre post. contents' = pre @ lw_bsbf_bytes w @ post \<and> pl_bsbf_off p2 = of_nat (length pre))"
    using b p1(2) by (auto simp: section_placed_def split: if_splits)
  have "prefix (out @ ext @ sbb_bytes (lw_dict_buf w)) contents'" using pre assms(4) by (rule prefix_order.trans)
  with p1 p2 o have "placed w out ext (section_refs_of p2) contents'" by (simp add: placed_def section_refs_of_def)
  with ib o p1 p2 show ?thesis unfolding index_placed_def by (intro exI conjI) (assumption | simp)+
qed

lemma write_norms_ok:
  assumes wr: "host_writes h" and l: "length (cw_indexes c) = length ins" "length (cw_placements c) = length ins"
    and laid: "\<forall>i < length ins. index_laid h (cw_out c) (ins ! i) (cw_indexes c ! i) (cw_placements c ! i) \<and>
         pl_norms_len (cw_placements c ! i) = 0 \<and> pl_bsbf_len (cw_placements c ! i) = 0"
  obtains ps sects where "write_norms h c = Inr (c\<lparr>cw_placements := ps, cw_out := cw_out c @ sects\<rparr>)" and "length ps = length ins"
    and "length sects \<le> length ins * 2 ^ 34"
    and "\<And>i. i < length ins \<Longrightarrow> index_placed h (cw_out c @ sects) (ins ! i) (cw_indexes c ! i) (ps ! i)"
proof -
  let ?ws = "cw_indexes c" and ?ps = "cw_placements c" and ?m = "2 ^ 33 :: nat"
  have m: "\<forall>w \<in> set ?ws. length (lw_norms_section w) \<le> ?m" "\<forall>w \<in> set ?ws. length (lw_bsbf_bytes w) \<le> ?m"
    using laid index_laid_sections l(1) by (metis in_set_conv_nth)+
  have e: "length ?ps = length ?ws" using l by simp
  obtain p1 s1 where n: "place_norms h ?ws ?ps (cw_out c) = Inr (p1, cw_out c @ s1)" "length s1 \<le> length ?ws * ?m" "length p1 = length ?ws"
    "\<And>i. i < length ?ws \<Longrightarrow> section_placed norms_skip lw_norms_section
      norms_upd (cw_out c @ s1) (?ws ! i) (?ps ! i) (p1 ! i)"
    unfolding place_norms_sections by (rule place_sections_ok [OF wr e m(1), where skip = norms_skip and upd = norms_upd and out = "cw_out c"]) blast
  obtain p2 s2 where b: "place_bsbf h ?ws p1 (cw_out c @ s1) = Inr (p2, (cw_out c @ s1) @ s2)" "length s2 \<le> length ?ws * ?m" "length p2 = length ?ws"
    "\<And>i. i < length ?ws \<Longrightarrow> section_placed bsbf_skip lw_bsbf_bytes
      bsbf_upd ((cw_out c @ s1) @ s2) (?ws ! i) (p1 ! i) (p2 ! i)"
    unfolding place_bsbf_sections by (rule place_sections_ok [OF wr n(3) m(2), where skip = bsbf_skip and upd = bsbf_upd and out = "cw_out c @ s1"]) blast
  show ?thesis
  proof (rule that [of "s1 @ s2" p2])
    show "write_norms h c = Inr (c\<lparr>cw_placements := p2, cw_out := cw_out c @ s1 @ s2\<rparr>)" by (simp add: write_norms_def n(1) b(1))
    show "index_placed h (cw_out c @ s1 @ s2) (ins ! i) (?ws ! i) (p2 ! i)" if "i < length ins" for i
      using laid that l n(4) [of i] b(4) [of i]
      by (intro index_laid_placed [of h "cw_out c" _ _ "?ps ! i" _ "cw_out c @ s1" "p1 ! i"]) simp_all
    show "length (s1 @ s2) \<le> length ins * 2 ^ 34" using n(2) b(2) l(1) by simp
    show "length p2 = length ins" using b(3) l(1) by simp
  qed
qed


subsection \<open>The tail\<close>

definition tail_entries :: "logical_index_writer list \<Rightarrow> placement list \<Rightarrow> tail_meta_entry list" where
  "tail_entries ws ps =
     map (\<lambda>(w, p). \<lparr>tme_index_id = lw_index_id w, tme_suffix = lw_index_suffix w,
       tme_bytes = finish_meta (section_refs_of p) (pl_dict_off p) w\<rparr>) (zip ws ps)"

lemma tail_region_builder_entries: "tail_region_builder c = tail_entries (cw_indexes c) (cw_placements c)"
proof -
  have "fold (\<lambda>(w, p). add_index (lw_index_id w) (lw_index_suffix w) (finish_meta (section_refs_of p) (pl_dict_off p) w)) xs acc =
      acc @ map (\<lambda>(w, p). \<lparr>tme_index_id = lw_index_id w, tme_suffix = lw_index_suffix w,
        tme_bytes = finish_meta (section_refs_of p) (pl_dict_off p) w\<rparr>) xs" for xs acc
    by (induction xs arbitrary: acc) (auto simp: add_index_def)
  then show ?thesis by (simp add: tail_region_builder_def tail_entries_def)
qed

definition tail_pointer_of :: "byte list \<Rightarrow> byte list \<Rightarrow> tail_pointer" where
  "tail_pointer_of out region =
     \<lparr>meta_region_offset = of_nat (length out), meta_region_length = of_nat (length region), hot_off = 0,
      meta_region_checksum = crc32c region, bootstrap_header_checksum = 0\<rparr>"

definition container_bytes :: "byte list \<Rightarrow> byte list \<Rightarrow> byte list" where
  "container_bytes out region =
     out @ region @ tp_covered (tail_pointer_of out region) @ le_bytes 4 (crc32c (tp_covered (tail_pointer_of out region)))"

lemma write_tail_ok:
  "host_writes h \<Longrightarrow>
   write_tail h c = Inr (c\<lparr>cw_out := container_bytes (cw_out c) (tail_meta_region_finish (tail_entries (cw_indexes c) (cw_placements c)) [])\<rparr>)"
  by (simp add: write_tail_def Let_def fw_bytes_written_def encode_tail_pointer_bytes tail_region_builder_entries
      container_bytes_def tail_pointer_of_def)

text \<open>The size of the tail.\<close>

lemma length_index_refs:
  "\<forall>r \<in> set refs. length (lir_index_suffix r) \<le> m \<Longrightarrow> length (index_dir.refs_payload refs) \<le> 5 + length refs * (35 + m)"
proof -
  assume "\<forall>r \<in> set refs. length (lir_index_suffix r) \<le> m"
  then have "length (concat (map index_ref_bytes refs)) \<le> length refs * (35 + m)"
  proof (induction refs)
    case (Cons r refs)
    then show ?case using length_index_ref_bytes [of r] by simp
  qed simp
  then show ?thesis using varint32_len_le_5 [of "of_nat (length refs)"] by (simp add: index_dir.refs_payload_def)
qed

lemma layout_suffixes: "\<forall>e \<in> set es. length (tme_suffix e) \<le> m \<Longrightarrow> \<forall>r \<in> set (fst (layout_entries off es)). length (lir_index_suffix r) \<le> m"
  by (induction es arbitrary: off) (auto simp: case_prod_beta Let_def)

lemma length_tail_region:
  assumes "\<forall>e \<in> set es. length (tme_suffix e) \<le> m"
  shows "length (tail_meta_region_finish es []) \<le> 64 + length (blocks_bytes es) + length es * (35 + m)"
  using length_index_refs [OF layout_suffixes [OF assms, of 40]] length_frame_le [of 7 "index_dir.refs_payload (layout_dir es)"]
  by (simp add: tail_meta_region_finish_bytes region_covered_def dir_bytes_of_def logical_index_directory_finish_bytes layout_dir_def)

end
