(* ===== verification/Phrase_Query.thy ===== *)
theory Phrase_Query
  imports Docid_Queries
begin

text \<open>
  Conjunctions and phrases: \<open>src/core/src/query/phrase_query.cpp\<close> with
  \<open>src/core/include/snii/query/internal/position_math.h\<close>. The rarest term drives the conjunction; of the
  others only the windows that cover the remaining candidates are read. Positions are decoded by
  forward cursors over the fetched windows. The fetchers that own the fetched bytes are kept alive by
  the callers, which has no counterpart in the model: a slice is the bytes it refers to.
\<close>

subsection \<open>Positions\<close>

definition build_position_offsets :: "nat \<Rightarrow> u32 list option" where
  "build_position_offsets n = (if n \<ge> 2 ^ 32 - 1 then None else Some (map of_nat [0..<n]))"

definition add_position_offset :: "u32 \<Rightarrow> u32 \<Rightarrow> u32 option" where
  "add_position_offset start offset = (if start > (- 1) - offset then None else Some (start + offset))"

text \<open>\<open>std::binary_search\<close>.\<close>

definition binary_search :: "u32 list \<Rightarrow> u32 \<Rightarrow> bool" where
  "binary_search xs x = (let i = lower_bound xs x in i < length xs \<and> \<not> x < xs ! i)"

subsection \<open>Plans\<close>

record term_plan =
  pt_entry :: dict_entry
  pt_frq_base :: u64
  pt_prx_base :: u64
  pt_df :: u32
  pt_order :: nat
  pt_frq_handle :: nat
  pt_prx_handle :: nat
  pt_prelude_handle :: nat
  pt_pod_ref :: bool
  pt_windowed :: bool
  pt_prelude :: frq_prelude_reader

text \<open>\<open>ResolvedPhraseTerm\<close> has the fields of \<open>resolved_docid_posting\<close>.\<close>

definition SlimFrqDocsLen :: "dict_entry \<Rightarrow> u64 \<Rightarrow> u64 result" where
  "SlimFrqDocsLen entry win_len =
     (if de_frq_docs_len entry > win_len then Corruption
      else Inr (if de_frq_docs_len entry > 0 then de_frq_docs_len entry else win_len))"

definition InlineDdRegion :: "dict_entry \<Rightarrow> byte list result" where
  "InlineDdRegion entry =
     (if frm_disk_len (de_dd_meta entry) > of_nat (length (de_frq_bytes entry)) then Corruption
      else subslice (de_frq_bytes entry) 0 (unat (frm_disk_len (de_dd_meta entry))))"

definition ConfigureTermPlan ::
  "logical_index_reader \<Rightarrow> bool \<Rightarrow> batch_range_fetcher \<Rightarrow> term_plan \<Rightarrow> (term_plan \<times> batch_range_fetcher) result" where
  "ConfigureTermPlan idx need_positions fetcher p =
     (let e = pt_entry p;
          p = p\<lparr>pt_df := de_df e, pt_pod_ref := (de_kind e = kPodRef),
                pt_windowed := (de_kind e = kPodRef \<and> de_enc e = kWindowed)\<rparr> in
      if pt_windowed p then
        let prelude_abs = rr_offset (posting_region idx) + pt_frq_base p + de_frq_off_delta e;
            (handle, fetcher) = brf_add prelude_abs (de_prelude_len e) fetcher
        in Inr (p\<lparr>pt_prelude_handle := handle\<rparr>, fetcher)
      else if pt_pod_ref p then
        and_then (resolve_frq_window idx e (pt_frq_base p)) (\<lambda>(foff, flen).
        and_then (SlimFrqDocsLen e flen) (\<lambda>frq_fetch.
        let (handle, fetcher) = brf_add foff frq_fetch fetcher; p = p\<lparr>pt_frq_handle := handle\<rparr> in
        if need_positions then
          and_then (resolve_prx_window idx e (pt_prx_base p)) (\<lambda>(poff, plen).
          let (handle, fetcher) = brf_add poff plen fetcher in Inr (p\<lparr>pt_prx_handle := handle\<rparr>, fetcher))
        else Inr (p, fetcher)))
      else Inr (p, fetcher))"

definition ResolvePhraseTerm :: "host \<Rightarrow> logical_index_reader \<Rightarrow> term_bytes \<Rightarrow> resolved_docid_posting option result" where
  "ResolvePhraseTerm h idx t =
     and_then (lookup h idx t) (\<lambda>found.
     Inr (map_option (\<lambda>(entry, frq_base, prx_base).
       \<lparr>rp_entry = entry, rp_frq_base = frq_base, rp_prx_base = prx_base\<rparr>) found))"

definition plan_of :: "nat \<Rightarrow> resolved_docid_posting \<Rightarrow> term_plan" where
  "plan_of i t =
     \<lparr>pt_entry = rp_entry t, pt_frq_base = rp_frq_base t, pt_prx_base = rp_prx_base t, pt_df = 0, pt_order = i,
      pt_frq_handle = 0, pt_prx_handle = 0, pt_prelude_handle = 0, pt_pod_ref = False, pt_windowed = False,
      pt_prelude = no_prelude\<rparr>"

text \<open>The loop of \<open>PlanTerms\<close> from term \<open>i\<close> on: \<open>None\<close> is \<open>all_present == false\<close>.\<close>

fun PlanTerms ::
  "host \<Rightarrow> logical_index_reader \<Rightarrow> nat \<Rightarrow> term_bytes list \<Rightarrow> bool \<Rightarrow> batch_range_fetcher \<Rightarrow>
   (term_plan list \<times> batch_range_fetcher) option result" where
  "PlanTerms h idx i [] need_positions fetcher = Inr (Some ([], fetcher))"
| "PlanTerms h idx i (t # ts) need_positions fetcher =
     and_then (ResolvePhraseTerm h idx t) (\<lambda>resolved.
     case resolved of
       None \<Rightarrow> Inr None
     | Some r \<Rightarrow>
         and_then (ConfigureTermPlan idx need_positions fetcher (plan_of i r)) (\<lambda>(p, fetcher).
         and_then (PlanTerms h idx (Suc i) ts need_positions fetcher) (\<lambda>planned.
         Inr (map_option (\<lambda>(plans, fetcher). (p # plans, fetcher)) planned))))"

fun PlanResolvedTerms ::
  "logical_index_reader \<Rightarrow> nat \<Rightarrow> resolved_docid_posting list \<Rightarrow> bool \<Rightarrow> batch_range_fetcher \<Rightarrow>
   (term_plan list \<times> batch_range_fetcher) result" where
  "PlanResolvedTerms idx i [] need_positions fetcher = Inr ([], fetcher)"
| "PlanResolvedTerms idx i (r # rs) need_positions fetcher =
     and_then (ConfigureTermPlan idx need_positions fetcher (plan_of i r)) (\<lambda>(p, fetcher).
     and_then (PlanResolvedTerms idx (Suc i) rs need_positions fetcher) (\<lambda>(plans, fetcher).
     Inr (p # plans, fetcher)))"

fun OpenPreludes :: "batch_range_fetcher \<Rightarrow> term_plan list \<Rightarrow> bool \<Rightarrow> term_plan list result" where
  "OpenPreludes fetcher [] need_positions = Inr []"
| "OpenPreludes fetcher (p # ps) need_positions =
     (if \<not> pt_windowed p then and_then (OpenPreludes fetcher ps need_positions) (\<lambda>ps. Inr (p # ps))
      else
        and_then (brf_get fetcher (pt_prelude_handle p)) (\<lambda>bytes.
        and_then (frq_prelude_open bytes) (\<lambda>prelude.
        if need_positions \<and> \<not> fpr_has_prx prelude then Corruption
        else and_then (OpenPreludes fetcher ps need_positions) (\<lambda>ps. Inr (p\<lparr>pt_prelude := prelude\<rparr> # ps)))))"

subsection \<open>The conjunction\<close>

text \<open>The loop of \<open>SelectCoveringWindows\<close>; \<open>prev\<close> is \<open>last\<close>, which starts at \<open>UINT32_MAX\<close>.\<close>

fun covering_windows :: "frq_prelude_reader \<Rightarrow> u32 \<Rightarrow> u32 list \<Rightarrow> u32 list" where
  "covering_windows prelude prev [] = []"
| "covering_windows prelude prev (d # ds) =
     (case locate_window prelude d of
        None \<Rightarrow> covering_windows prelude prev ds
      | Some w \<Rightarrow> if w \<noteq> prev then w # covering_windows prelude w ds else covering_windows prelude prev ds)"

definition SelectCoveringWindows :: "frq_prelude_reader \<Rightarrow> u32 list \<Rightarrow> u32 list" where
  "SelectCoveringWindows prelude candidates = covering_windows prelude (- 1) candidates"

record pos_chunk =
  pk_docids :: "u32 list"
  pk_prx :: "byte list"

type_synonym pos_source = "pos_chunk list"

definition kSameTermCoalesceGap :: u64 where "kSameTermCoalesceGap = 16 * 1024"

text \<open>The two loops of \<open>DecodeWindowedDocids\<close>.\<close>

fun request_windows ::
  "logical_index_reader \<Rightarrow> term_plan \<Rightarrow> u32 list \<Rightarrow> bool \<Rightarrow> batch_range_fetcher \<Rightarrow>
   ((window_meta \<times> nat \<times> nat) list \<times> batch_range_fetcher) result" where
  "request_windows idx p [] need_positions fetcher = Inr ([], fetcher)"
| "request_windows idx p (w # ws) need_positions fetcher =
     and_then (windowed_window_range idx (pt_entry p) (pt_frq_base p) (pt_prx_base p) (pt_prelude p) w need_positions False) (\<lambda>r.
     and_then (prelude_window (pt_prelude p) w) (\<lambda>m.
     let (dh, fetcher) = brf_add (war_dd_off r) (war_dd_len r) fetcher;
         (ph, fetcher) = (if need_positions then brf_add (war_prx_off r) (war_prx_len r) fetcher else (0, fetcher)) in
     and_then (request_windows idx p ws need_positions fetcher) (\<lambda>(hs, fetcher).
     Inr ((m, dh, ph) # hs, fetcher))))"

fun decode_requested ::
  "host \<Rightarrow> batch_range_fetcher \<Rightarrow> bool \<Rightarrow> (window_meta \<times> nat \<times> nat) list \<Rightarrow> pos_chunk list result" where
  "decode_requested h fetcher need_positions [] = Inr []"
| "decode_requested h fetcher need_positions ((m, dh, ph) # hs) =
     and_then (brf_get fetcher dh) (\<lambda>dd.
     and_then (decode_window_slices h m dd [] [] False False) (\<lambda>(docids, freqs, pos).
     and_then (if need_positions then brf_get fetcher ph else Inr []) (\<lambda>prx.
     and_then (decode_requested h fetcher need_positions hs) (\<lambda>cs.
     Inr (\<lparr>pk_docids = docids, pk_prx = prx\<rparr> # cs)))))"

definition DecodeWindowedDocids ::
  "host \<Rightarrow> logical_index_reader \<Rightarrow> term_plan \<Rightarrow> u32 list \<Rightarrow> bool \<Rightarrow> (pos_source \<times> u32 list) result" where
  "DecodeWindowedDocids h idx p windows need_positions =
     and_then (request_windows idx p windows need_positions (batch_range_fetcher_new kSameTermCoalesceGap)) (\<lambda>(hs, fetcher).
     and_then (if brf_reqs fetcher \<noteq> [] then index_fetch h idx fetcher else Inr fetcher) (\<lambda>fetcher.
     and_then (decode_requested h fetcher need_positions hs) (\<lambda>cs.
     Inr (cs, concat (map pk_docids cs)))))"

definition DecodeFlatDocids ::
  "host \<Rightarrow> batch_range_fetcher \<Rightarrow> term_plan \<Rightarrow> bool \<Rightarrow> (pos_source \<times> u32 list) result" where
  "DecodeFlatDocids h round1 p need_positions =
     and_then
       (if pt_pod_ref p then
          and_then (brf_get round1 (pt_frq_handle p)) (\<lambda>dd.
          and_then (if need_positions then brf_get round1 (pt_prx_handle p) else Inr []) (\<lambda>prx. Inr (dd, prx)))
        else
          and_then (InlineDdRegion (pt_entry p)) (\<lambda>dd.
          Inr (dd, if need_positions then de_prx_bytes (pt_entry p) else []))) (\<lambda>(dd, prx).
     and_then (decode_dd_region (host_zstd h) dd (de_dd_meta (pt_entry p)) 0) (\<lambda>docids.
     Inr ([\<lparr>pk_docids = docids, pk_prx = prx\<rparr>], docids)))"

definition AllWindows :: "frq_prelude_reader \<Rightarrow> u32 list" where
  "AllWindows prelude = map of_nat [0..<length (fpr_windows prelude)]"

definition AscendingDfOrder :: "host \<Rightarrow> term_plan list \<Rightarrow> nat list" where
  "AscendingDfOrder h plans = host_sort h (map (\<lambda>p. ucast (pt_df p)) plans)"

text \<open>The loop of \<open>BuildConjunction\<close>; \<open>first\<close> is \<open>k == 0\<close>.\<close>

fun conjunction ::
  "host \<Rightarrow> logical_index_reader \<Rightarrow> batch_range_fetcher \<Rightarrow> term_plan list \<Rightarrow> bool \<Rightarrow> nat list \<Rightarrow> bool \<Rightarrow>
   pos_source list \<times> u32 list \<Rightarrow> (pos_source list \<times> u32 list) result" where
  "conjunction h idx round1 plans need_positions [] first st = Inr st"
| "conjunction h idx round1 plans need_positions (ti # order) first (srcs, candidates) =
     (let p = plans ! ti in
      and_then
        (if pt_windowed p then
           DecodeWindowedDocids h idx p
             (if first then AllWindows (pt_prelude p) else SelectCoveringWindows (pt_prelude p) candidates) need_positions
         else DecodeFlatDocids h round1 p need_positions) (\<lambda>(src, term_docids).
      let srcs = srcs[ti := srcs ! ti @ src];
          candidates = (if first then term_docids else intersect_sorted candidates term_docids) in
      if candidates = [] then Inr (srcs, [])
      else conjunction h idx round1 plans need_positions order False (srcs, candidates)))"

definition BuildConjunction ::
  "host \<Rightarrow> logical_index_reader \<Rightarrow> batch_range_fetcher \<Rightarrow> term_plan list \<Rightarrow> bool \<Rightarrow> (pos_source list \<times> u32 list) result" where
  "BuildConjunction h idx round1 plans need_positions =
     conjunction h idx round1 plans need_positions (AscendingDfOrder h plans) True (replicate (length plans) [], [])"

subsection \<open>PostingCursor\<close>

text \<open>\<open>kNoChunk\<close> is \<open>None\<close>.\<close>

record posting_cursor =
  pc_src :: pos_source
  pc_ci :: nat
  pc_li :: nat
  pc_decoded_pos_chunk :: "nat option"
  pc_pflat :: "u32 list"
  pc_poff :: "u32 list"

definition cursor_init :: "pos_source \<Rightarrow> posting_cursor" where
  "cursor_init src =
     \<lparr>pc_src = src, pc_ci = 0, pc_li = 0, pc_decoded_pos_chunk = None, pc_pflat = [], pc_poff = []\<rparr>"

text \<open>The two loops of \<open>seek\<close>: over chunks, each pass with \<open>++ci_; li_ = 0\<close>, then over documents.\<close>

fun seek_chunk :: "u32 \<Rightarrow> pos_chunk list \<Rightarrow> nat \<times> nat \<Rightarrow> nat \<times> nat" where
  "seek_chunk target [] (ci, li) = (ci, li)"
| "seek_chunk target (c # cs) (ci, li) =
     (if pk_docids c = [] \<or> last (pk_docids c) < target then seek_chunk target cs (Suc ci, 0) else (ci, li))"

definition cursor_seek :: "u32 \<Rightarrow> posting_cursor \<Rightarrow> posting_cursor" where
  "cursor_seek target c =
     (let (ci, li) = seek_chunk target (drop (pc_ci c) (pc_src c)) (pc_ci c, pc_li c);
          li = (if ci \<ge> length (pc_src c) then li
                else li + length (takeWhile (\<lambda>d. d < target) (drop li (pk_docids (pc_src c ! ci)))))
      in c\<lparr>pc_ci := ci, pc_li := li\<rparr>)"

definition cursor_positions :: "host \<Rightarrow> posting_cursor \<Rightarrow> (u32 list \<times> posting_cursor) result" where
  "cursor_positions h c =
     (if pc_ci c \<ge> length (pc_src c) \<or> pc_li c \<ge> length (pk_docids (pc_src c ! pc_ci c)) then Corruption
      else
        and_then
          (if pc_decoded_pos_chunk c \<noteq> Some (pc_ci c) then
             and_then (read_prx_window_csr (host_zstd h) (source (pk_prx (pc_src c ! pc_ci c)))) (\<lambda>((pflat, poff), src).
             if length poff \<noteq> length (pk_docids (pc_src c ! pc_ci c)) + 1 then Corruption
             else Inr (c\<lparr>pc_pflat := pflat, pc_poff := poff, pc_decoded_pos_chunk := Some (pc_ci c)\<rparr>))
           else Inr c) (\<lambda>c.
        let b = unat (pc_poff c ! pc_li c); e = unat (pc_poff c ! (pc_li c + 1)) in
        and_then (subslice (pc_pflat c) b (e - b)) (\<lambda>span. Inr (span, c))))"

subsection \<open>Phrases\<close>

text \<open>\<open>ordered[plans[i].order] = &cur[i]\<close>, as indices into the cursors.\<close>

definition cursor_order :: "term_plan list \<Rightarrow> nat list" where
  "cursor_order plans = fold (\<lambda>i ordered. ordered[pt_order (plans ! i) := i]) [0..<length plans] (replicate (length plans) 0)"

fun spans_of :: "host \<Rightarrow> nat list \<Rightarrow> posting_cursor list \<Rightarrow> (u32 list list \<times> posting_cursor list) result" where
  "spans_of h [] cur = Inr ([], cur)"
| "spans_of h (i # ordered) cur =
     and_then (cursor_positions h (cur ! i)) (\<lambda>(span, c).
     and_then (spans_of h ordered (cur[i := c])) (\<lambda>(spans, cur). Inr (span # spans, cur)))"

text \<open>The test of one start position against the other terms.\<close>

definition phrase_at :: "nat \<Rightarrow> u32 list \<Rightarrow> u32 list list \<Rightarrow> u32 \<Rightarrow> bool" where
  "phrase_at n position_offsets spans start =
     list_all (\<lambda>t. case add_position_offset start (position_offsets ! t) of
         None \<Rightarrow> False
       | Some want \<Rightarrow> binary_search (spans ! t) want) [1..<n]"

fun emit_phrase ::
  "host \<Rightarrow> nat list \<Rightarrow> u32 list \<Rightarrow> u32 list \<Rightarrow> posting_cursor list \<Rightarrow> u32 list result" where
  "emit_phrase h ordered position_offsets [] cur = Inr []"
| "emit_phrase h ordered position_offsets (d # candidates) cur =
     and_then (spans_of h ordered (map (cursor_seek d) cur)) (\<lambda>(spans, cur).
     and_then (emit_phrase h ordered position_offsets candidates cur) (\<lambda>docids.
     Inr (if list_ex (phrase_at (length ordered) position_offsets spans) (spans ! 0) then d # docids else docids)))"

definition EmitPhraseStreaming ::
  "host \<Rightarrow> term_plan list \<Rightarrow> u32 list \<Rightarrow> pos_source list \<Rightarrow> u32 list \<Rightarrow> u32 list result" where
  "EmitPhraseStreaming h plans position_offsets srcs candidates =
     emit_phrase h (cursor_order plans) position_offsets candidates (map cursor_init srcs)"

definition BuildPhraseExecutionState ::
  "host \<Rightarrow> logical_index_reader \<Rightarrow> batch_range_fetcher \<Rightarrow> term_plan list \<Rightarrow>
   (term_plan list \<times> pos_source list \<times> u32 list) result" where
  "BuildPhraseExecutionState h idx round1 plans =
     and_then (if brf_reqs round1 \<noteq> [] then index_fetch h idx round1 else Inr round1) (\<lambda>round1.
     and_then (OpenPreludes round1 plans True) (\<lambda>plans.
     and_then (BuildConjunction h idx round1 plans True) (\<lambda>(srcs, candidates).
     Inr (plans, srcs, candidates))))"

definition ExecutePhrasePlans ::
  "host \<Rightarrow> logical_index_reader \<Rightarrow> batch_range_fetcher \<Rightarrow> term_plan list \<Rightarrow> u32 list result" where
  "ExecutePhrasePlans h idx round1 plans =
     and_then (BuildPhraseExecutionState h idx round1 plans) (\<lambda>(plans, srcs, candidates).
     if candidates = [] then Inr []
     else
       case build_position_offsets (length plans) of
         None \<Rightarrow> InvalidArgument
       | Some position_offsets \<Rightarrow> EmitPhraseStreaming h plans position_offsets srcs candidates)"

definition phrase_query :: "host \<Rightarrow> logical_index_reader \<Rightarrow> term_bytes list \<Rightarrow> u32 list result" where
  "phrase_query h idx ts =
     (if ts = [] then Inr []
      else if \<not> lr_has_positions idx then Unsupported
      else
        and_then (PlanTerms h idx 0 ts True (batch_range_fetcher_new 0)) (\<lambda>planned.
        case planned of
          None \<Rightarrow> Inr []
        | Some (plans, round1) \<Rightarrow> ExecutePhrasePlans h idx round1 plans))"

definition boolean_and :: "host \<Rightarrow> logical_index_reader \<Rightarrow> term_bytes list \<Rightarrow> u32 list result" where
  "boolean_and h idx ts =
     (if ts = [] then Inr []
      else
        and_then (PlanTerms h idx 0 ts False (batch_range_fetcher_new 0)) (\<lambda>planned.
        case planned of
          None \<Rightarrow> Inr []
        | Some (plans, round1) \<Rightarrow>
            and_then (if brf_reqs round1 \<noteq> [] then index_fetch h idx round1 else Inr round1) (\<lambda>round1.
            and_then (OpenPreludes round1 plans False) (\<lambda>plans.
            and_then (BuildConjunction h idx round1 plans False) (\<lambda>(srcs, candidates).
            Inr candidates)))))"

subsection \<open>Phrases whose last term is a prefix\<close>

record expected_tail =
  et_docid :: u32
  et_positions :: "u32 list"

definition tail_positions :: "nat \<Rightarrow> u32 list \<Rightarrow> u32 list list \<Rightarrow> u32 list" where
  "tail_positions n position_offsets spans =
     List.map_filter (\<lambda>start. if phrase_at n position_offsets spans start
       then add_position_offset start (position_offsets ! n) else None) (spans ! 0)"

fun expected_tails ::
  "host \<Rightarrow> nat list \<Rightarrow> u32 list \<Rightarrow> u32 list \<Rightarrow> posting_cursor list \<Rightarrow> expected_tail list result" where
  "expected_tails h ordered position_offsets [] cur = Inr []"
| "expected_tails h ordered position_offsets (d # candidates) cur =
     and_then (spans_of h ordered (map (cursor_seek d) cur)) (\<lambda>(spans, cur).
     and_then (expected_tails h ordered position_offsets candidates cur) (\<lambda>out.
     let ps = tail_positions (length ordered) position_offsets spans in
     Inr (if ps \<noteq> [] then \<lparr>et_docid = d, et_positions = ps\<rparr> # out else out)))"

definition CollectExpectedTailPositions ::
  "host \<Rightarrow> logical_index_reader \<Rightarrow> resolved_docid_posting list \<Rightarrow> expected_tail list result" where
  "CollectExpectedTailPositions h idx exact_terms =
     and_then (PlanResolvedTerms idx 0 exact_terms True (batch_range_fetcher_new 0)) (\<lambda>(plans, round1).
     and_then (BuildPhraseExecutionState h idx round1 plans) (\<lambda>(plans, srcs, candidates).
     if candidates = [] then Inr []
     else
       case build_position_offsets (length plans + 1) of
         None \<Rightarrow> InvalidArgument
       | Some position_offsets \<Rightarrow>
           expected_tails h (cursor_order plans) position_offsets candidates (map cursor_init srcs)))"

definition contains_any_position :: "u32 list \<Rightarrow> u32 list \<Rightarrow> bool" where
  "contains_any_position wanted actual = list_ex (binary_search actual) wanted"

text \<open>The loop of \<open>CollectTailMatchesAtExpectedPositions\<close> over the expected documents and those of the tail
  term.\<close>

fun tail_matches :: "host \<Rightarrow> expected_tail list \<Rightarrow> u32 list \<Rightarrow> posting_cursor \<Rightarrow> u32 list result" where
  "tail_matches h (x # xs) (d # ds) cursor =
     (if et_docid x < d then tail_matches h xs (d # ds) cursor
      else if d < et_docid x then tail_matches h (x # xs) ds cursor
      else
        and_then (cursor_positions h (cursor_seek (et_docid x) cursor)) (\<lambda>(actual, cursor).
        and_then (tail_matches h xs ds cursor) (\<lambda>out.
        Inr (if contains_any_position (et_positions x) actual then et_docid x # out else out))))"
| "tail_matches h xs ds cursor = Inr []"

definition CollectTailMatchesAtExpectedPositions ::
  "host \<Rightarrow> logical_index_reader \<Rightarrow> resolved_docid_posting \<Rightarrow> expected_tail list \<Rightarrow> u32 list result" where
  "CollectTailMatchesAtExpectedPositions h idx tail expected =
     (if expected = [] then Inr []
      else
        and_then (PlanResolvedTerms idx 0 [tail] True (batch_range_fetcher_new 0)) (\<lambda>(plans, round1).
        and_then (BuildPhraseExecutionState h idx round1 plans) (\<lambda>(plans, srcs, candidates).
        if candidates = [] then Inr []
        else tail_matches h expected candidates (cursor_init (srcs ! 0)))))"

text \<open>The loop that resolves the exact terms: \<open>None\<close> as soon as one is absent.\<close>

fun resolve_exact :: "host \<Rightarrow> logical_index_reader \<Rightarrow> term_bytes list \<Rightarrow> resolved_docid_posting list option result" where
  "resolve_exact h idx [] = Inr (Some [])"
| "resolve_exact h idx (t # ts) =
     and_then (ResolvePhraseTerm h idx t) (\<lambda>resolved.
     case resolved of
       None \<Rightarrow> Inr None
     | Some r \<Rightarrow> and_then (resolve_exact h idx ts) (\<lambda>rs. Inr (map_option ((#) r) rs)))"

fun union_tails ::
  "host \<Rightarrow> logical_index_reader \<Rightarrow> expected_tail list \<Rightarrow> prefix_hit list \<Rightarrow> u32 list \<Rightarrow> u32 list result" where
  "union_tails h idx expected [] acc = Inr acc"
| "union_tails h idx expected (x # hits) acc =
     and_then (CollectTailMatchesAtExpectedPositions h idx (hit_posting x) expected) (\<lambda>tail_docs.
     union_tails h idx expected hits (union_sorted_into acc tail_docs))"

definition phrase_prefix_query :: "host \<Rightarrow> logical_index_reader \<Rightarrow> term_bytes list \<Rightarrow> u32 list result" where
  "phrase_prefix_query h idx ts =
     (if ts = [] then Inr []
      else if length ts = 1 then prefix_query h idx (hd ts) []
      else if \<not> lr_has_positions idx then Unsupported
      else
        and_then (resolve_exact h idx (butlast ts)) (\<lambda>exact.
        case exact of
          None \<Rightarrow> Inr []
        | Some exact_terms \<Rightarrow>
            and_then (prefix_terms h idx (last ts)) (\<lambda>tail_hits.
            if tail_hits = [] then Inr []
            else
              and_then (CollectExpectedTailPositions h idx exact_terms) (\<lambda>expected.
              if expected = [] then Inr [] else union_tails h idx expected tail_hits []))))"

end
