(* ===== verification/Conjunction_Correct.thy ===== *)
theory Conjunction_Correct
  imports Phrase_Query Query_Correct
begin

text \<open>
  The conjunction of terms returns the documents that hold all of them, although of the frequent terms
  only the windows that cover the remaining candidates are read; what was read of every term holds the
  positions of the documents that remain.
\<close>

subsection \<open>Plans\<close>

text \<open>A plan for a stored posting, with its requests registered in \<open>f\<close>.\<close>

definition plan_stored ::
  "host \<Rightarrow> byte list \<Rightarrow> logical_index_reader \<Rightarrow> bool \<Rightarrow> bool \<Rightarrow> bool \<Rightarrow> batch_range_fetcher \<Rightarrow> term_plan \<Rightarrow> chunk list \<Rightarrow> bool" where
  "plan_stored h contents idx hf hp np f p cs =
     (let e = pt_entry p; R = posting_region idx in
      posting_stored (host_zstd h) contents R hf hp e (pt_frq_base p) (pt_prx_base p) cs \<and>
      pt_pod_ref p = (de_kind e = kPodRef) \<and> pt_windowed p = (de_kind e = kPodRef \<and> de_enc e = kWindowed) \<and>
      (pt_windowed p \<longrightarrow> asks f (pt_prelude_handle p) (prelude_abs idx e (pt_frq_base p)) (de_prelude_len e)) \<and>
      (pt_pod_ref p \<and> \<not> pt_windowed p \<longrightarrow>
        asks f (pt_frq_handle p) (rr_offset R + pt_frq_base p + de_frq_off_delta e) (de_frq_docs_len e) \<and>
        (np \<longrightarrow> asks f (pt_prx_handle p) (rr_offset R + pt_prx_base p + de_prx_off_delta e) (de_prx_len e))))"

lemma plan_stored_extends:
  "plan_stored h contents idx hf hp np f p cs \<Longrightarrow> extends f g \<Longrightarrow> plan_stored h contents idx hf hp np g p cs"
  by (auto simp: plan_stored_def Let_def intro: asks_extends)

lemma kind_cases: "de_kind e = kPodRef \<longleftrightarrow> de_kind e \<noteq> kInline"
  by (cases "de_kind e") simp_all

lemma ConfigureTermPlan_ok:
  assumes st: "posting_stored (host_zstd h) contents (posting_region idx) hf hp (rp_entry r) (rp_frq_base r) (rp_prx_base r) cs"
    and len: "length contents < 2 ^ 64" and rin: "reqs_in contents f" and np: "np \<longrightarrow> hp"
  obtains p g where "ConfigureTermPlan idx np f (plan_of i r) = Inr (p, g)"
    and "plan_stored h contents idx hf hp np g p cs" and "pt_order p = i" and "extends f g" and "reqs_in contents g"
proof -
  let ?e = "rp_entry r" and ?R = "posting_region idx" and ?fb = "rp_frq_base r" and ?pb = "rp_prx_base r"
  let ?p = "(plan_of i r)\<lparr>pt_df := de_df ?e, pt_pod_ref := (de_kind ?e = kPodRef),
     pt_windowed := (de_kind ?e = kPodRef \<and> de_enc ?e = kWindowed)\<rparr>"
  consider (inl) "de_kind ?e = kInline" | (win) "de_kind ?e = kPodRef" "de_enc ?e = kWindowed"
    | (slim) "de_kind ?e = kPodRef" "de_enc ?e \<noteq> kWindowed"
    using kind_cases by blast
  then show ?thesis
  proof cases
    case inl
    then show ?thesis using st rin
      by (intro that [of ?p f]) (simp_all add: ConfigureTermPlan_def plan_stored_def plan_of_def Let_def)
  next
    case win
    then obtain cols where w: "windowed_stored (host_zstd h) contents ?R hf hp ?e ?fb ?pb cols cs"
      using st by (auto simp: posting_stored_def)
    let ?a = "prelude_abs idx ?e ?fb"
    obtain g where g: "brf_add ?a (de_prelude_len ?e) f = (length (brf_reqs f), g)" "g = snd (brf_add ?a (de_prelude_len ?e) f)"
      by (rule brf_add_cases)
    have "reqs_in contents g" using prelude_range [OF w len] rin by (simp add: g(2) reqs_in_add range_of_def)
    moreover have "ConfigureTermPlan idx np f (plan_of i r) = Inr (?p\<lparr>pt_prelude_handle := length (brf_reqs f)\<rparr>, g)"
      using win g(1) by (simp add: ConfigureTermPlan_def plan_of_def Let_def prelude_abs_def)
    ultimately show ?thesis using st win
      by (intro that [of "?p\<lparr>pt_prelude_handle := length (brf_reqs f)\<rparr>" g])
        (simp_all add: plan_stored_def plan_of_def Let_def g(2))
  next
    case slim
    then obtain c where s: "slim_stored (host_zstd h) contents ?R hp ?e ?fb ?pb c"
      using st by (auto simp: posting_stored_def)
    let ?a = "rr_offset ?R + ?fb + de_frq_off_delta ?e" and ?n = "de_frq_docs_len ?e"
    let ?b = "rr_offset ?R + ?pb + de_prx_off_delta ?e"
    have r: "region_in contents ?R (unat ?fb + unat (de_frq_off_delta ?e)) (unat (de_frq_len ?e))"
      and dl: "0 < ?n" "?n \<le> de_frq_len ?e" and p0: "de_prelude_len ?e = 0"
      and rp: "np \<Longrightarrow> region_in contents ?R (unat ?pb + unat (de_prx_off_delta ?e)) (unat (de_prx_len ?e))"
      using s np by (simp_all add: slim_stored_def)
    note u = region_start [OF r len]
    obtain g where g: "brf_add ?a ?n f = (length (brf_reqs f), g)" "g = snd (brf_add ?a ?n f)" by (rule brf_add_cases)
    have rg: "reqs_in contents g" using rin u dl(2) by (simp add: g(2) reqs_in_add in_file_def word_le_nat_alt)
    have fr: "resolve_frq_window idx ?e ?fb = Inr (?a, de_frq_len ?e)"
      using resolve_window_ok [OF r len] by (simp add: resolve_frq_window_def p0)
    have sl: "SlimFrqDocsLen ?e (de_frq_len ?e) = Inr ?n" using dl by (simp add: SlimFrqDocsLen_def not_less)
    show ?thesis
    proof (cases np)
      case False
      have "ConfigureTermPlan idx np f (plan_of i r) = Inr (?p\<lparr>pt_frq_handle := length (brf_reqs f)\<rparr>, g)"
        using slim False g(1) by (simp add: ConfigureTermPlan_def plan_of_def Let_def fr sl)
      then show ?thesis using st slim False rg
        by (intro that [of "?p\<lparr>pt_frq_handle := length (brf_reqs f)\<rparr>" g])
          (simp_all add: plan_stored_def plan_of_def Let_def g(2))
    next
      case True
      obtain k where k: "brf_add ?b (de_prx_len ?e) g = (length (brf_reqs g), k)" "k = snd (brf_add ?b (de_prx_len ?e) g)"
        by (rule brf_add_cases)
      have rk: "reqs_in contents k"
        using rg region_start [OF rp [OF True] len] by (simp add: k(2) reqs_in_add in_file_def)
      have pr: "resolve_prx_window idx ?e ?pb = Inr (?b, de_prx_len ?e)"
        using resolve_window_ok [OF rp [OF True] len] by (simp add: resolve_prx_window_def)
      let ?q = "?p\<lparr>pt_frq_handle := length (brf_reqs f), pt_prx_handle := length (brf_reqs g)\<rparr>"
      have c: "ConfigureTermPlan idx np f (plan_of i r) = Inr (?q, k)"
        using slim True g(1) k(1) by (simp add: ConfigureTermPlan_def plan_of_def Let_def fr sl pr)
      have gk: "extends g k" by (simp add: k(2))
      have "asks k (length (brf_reqs f)) ?a ?n" by (rule asks_extends [OF _ gk]) (simp add: g(2))
      moreover have "asks k (length (brf_reqs g)) ?b (de_prx_len ?e)" by (simp add: k(2))
      ultimately have "plan_stored h contents idx hf hp np k ?q cs"
        using st slim by (simp add: plan_stored_def plan_of_def Let_def)
      moreover have "extends f k" by (rule extends_trans [OF _ gk]) (simp add: g(2))
      ultimately show ?thesis using c rk by (intro that [of ?q k]) (simp_all add: plan_of_def)
    qed
  qed
qed

lemma PlanResolvedTerms_ok:
  assumes len: "length contents < 2 ^ 64" and np: "np \<longrightarrow> hp"
  shows "list_all2 (\<lambda>r. posting_stored (host_zstd h) contents (posting_region idx) hf hp (rp_entry r) (rp_frq_base r) (rp_prx_base r)) rs css \<Longrightarrow>
   reqs_in contents f \<Longrightarrow>
   \<exists>plans g. PlanResolvedTerms idx i rs np f = Inr (plans, g) \<and> list_all2 (plan_stored h contents idx hf hp np g) plans css \<and>
     map pt_order plans = [i..<i + length rs] \<and> extends f g \<and> reqs_in contents g"
proof (induction rs arbitrary: css i f)
  case (Cons r rs)
  then obtain cs css' where css: "css = cs # css'"
    and r: "posting_stored (host_zstd h) contents (posting_region idx) hf hp (rp_entry r) (rp_frq_base r) (rp_prx_base r) cs"
    and rs: "list_all2 (\<lambda>r. posting_stored (host_zstd h) contents (posting_region idx) hf hp (rp_entry r) (rp_frq_base r) (rp_prx_base r)) rs css'"
    by (auto simp: list_all2_Cons1)
  obtain p g where p: "ConfigureTermPlan idx np f (plan_of i r) = Inr (p, g)" "plan_stored h contents idx hf hp np g p cs"
    "pt_order p = i" "extends f g" "reqs_in contents g"
    by (rule ConfigureTermPlan_ok [OF r len Cons.prems(2) np])
  from Cons.IH [OF rs p(5), of "Suc i"] obtain plans k where
    q: "PlanResolvedTerms idx (Suc i) rs np g = Inr (plans, k)" "list_all2 (plan_stored h contents idx hf hp np k) plans css'"
      "map pt_order plans = [Suc i..<Suc i + length rs]" "extends g k" "reqs_in contents k" by blast
  have "plan_stored h contents idx hf hp np k p cs" by (rule plan_stored_extends [OF p(2) q(4)])
  then show ?case using p q extends_trans [OF p(4) q(4)]
    by (intro exI [of _ "p # plans"] exI [of _ k]) (simp add: css upt_rec)
qed simp

lemma fetched_asks: "fetched contents f f' \<Longrightarrow> asks f i off len \<Longrightarrow> brf_get f' i = Inr (file_slice contents off len)"
  by (auto simp: fetched_def asks_def bytes_of_def)

text \<open>After the first round: the preludes are open.\<close>

definition plan_ready ::
  "host \<Rightarrow> byte list \<Rightarrow> logical_index_reader \<Rightarrow> bool \<Rightarrow> bool \<Rightarrow> bool \<Rightarrow> batch_range_fetcher \<Rightarrow> term_plan \<Rightarrow> chunk list \<Rightarrow> bool" where
  "plan_ready h contents idx hf hp np f p cs =
     (plan_stored h contents idx hf hp np f p cs \<and>
      (pt_windowed p \<longrightarrow> (\<exists>cols. pt_prelude p = prelude_reader cols \<and>
        windowed_stored (host_zstd h) contents (posting_region idx) hf hp (pt_entry p) (pt_frq_base p) (pt_prx_base p) cols cs)))"

lemma OpenPreludes_ok:
  assumes len: "length contents < 2 ^ 64" and np: "np \<longrightarrow> hp" and get: "fetched contents f f'"
  shows "list_all2 (plan_stored h contents idx hf hp np f) plans css \<Longrightarrow>
   \<exists>plans'. OpenPreludes f' plans np = Inr plans' \<and> list_all2 (plan_ready h contents idx hf hp np f) plans' css \<and>
     map pt_order plans' = map pt_order plans \<and> map pt_df plans' = map pt_df plans"
proof (induction plans arbitrary: css)
  case (Cons p plans)
  then obtain cs css' where css: "css = cs # css'" and p: "plan_stored h contents idx hf hp np f p cs"
    and ps: "list_all2 (plan_stored h contents idx hf hp np f) plans css'" by (auto simp: list_all2_Cons1)
  from Cons.IH [OF ps] obtain plans' where q: "OpenPreludes f' plans np = Inr plans'"
    "list_all2 (plan_ready h contents idx hf hp np f) plans' css'" "map pt_order plans' = map pt_order plans" "map pt_df plans' = map pt_df plans"
    by blast
  show ?case
  proof (cases "pt_windowed p")
    case False
    then have "plan_ready h contents idx hf hp np f p cs" using p by (simp add: plan_ready_def)
    with False q show ?thesis by (intro exI [of _ "p # plans'"]) (simp add: css)
  next
    case True
    then obtain cols where w: "windowed_stored (host_zstd h) contents (posting_region idx) hf hp (pt_entry p) (pt_frq_base p) (pt_prx_base p) cols cs"
      using p by (auto simp: plan_stored_def Let_def posting_stored_def)
    have "asks f (pt_prelude_handle p) (prelude_abs idx (pt_entry p) (pt_frq_base p)) (de_prelude_len (pt_entry p))"
      using p True by (simp add: plan_stored_def Let_def)
    then have "brf_get f' (pt_prelude_handle p) = Inr (prelude_bytes cols)"
      using fetched_asks [OF get] prelude_range [OF w len] by (simp add: range_of_def)
    moreover have "fpr_has_prx (prelude_reader cols) = hp"
      using w by (simp add: prelude_reader_def windowed_stored_def Let_def)
    moreover have "plan_ready h contents idx hf hp np f (p\<lparr>pt_prelude := prelude_reader cols\<rparr>) cs"
      using p w by (auto simp: plan_ready_def plan_stored_def Let_def)
    ultimately show ?thesis using True q np open_prelude_ok [OF w]
      by (intro exI [of _ "p\<lparr>pt_prelude := prelude_reader cols\<rparr> # plans'"]) (simp add: css)
  qed
qed simp

subsection \<open>Reading a term\<close>

text \<open>A chunk as it was read.\<close>

definition chunk_read :: "zstd_lib \<Rightarrow> bool \<Rightarrow> pos_chunk \<Rightarrow> chunk \<Rightarrow> bool" where
  "chunk_read z np k c = (pk_docids k = ck_docs c \<and> (np \<longrightarrow> prx_stored z (pk_prx k) c))"

lemma chunks_read_docs: "list_all2 (chunk_read z np) ks cs \<Longrightarrow> concat (map pk_docids ks) = posting_docs cs"
  by (induction ks cs rule: list_all2_induct) (auto simp: chunk_read_def posting_docs_def)

lemma DecodeFlatDocids_ok:
  assumes p: "plan_ready h contents idx hf hp np f p cs" and nw: "\<not> pt_windowed p"
    and len: "length contents < 2 ^ 64" and np: "np \<longrightarrow> hp" and get: "fetched contents f f'"
  obtains src where "DecodeFlatDocids h f' p np = Inr (src, posting_docs cs)" and "list_all2 (chunk_read (host_zstd h) np) src cs"
proof -
  let ?e = "pt_entry p" and ?R = "posting_region idx" and ?fb = "pt_frq_base p" and ?pb = "pt_prx_base p"
  have ps: "plan_stored h contents idx hf hp np f p cs" using p by (simp add: plan_ready_def)
  show ?thesis
  proof (cases "pt_pod_ref p")
    case False
    then have "de_kind ?e = kInline" using ps kind_cases by (auto simp: plan_stored_def Let_def)
    then obtain c where c: "cs = [c]" and i: "inline_stored (host_zstd h) hp ?e c"
      using ps by (auto simp: plan_stored_def posting_stored_def Let_def)
    have "InlineDdRegion ?e = Inr (take (unat (frm_disk_len (de_dd_meta ?e))) (de_frq_bytes ?e))"
      using i by (simp add: inline_stored_def InlineDdRegion_def word_less_nat_alt not_less)
    with False i np show ?thesis
      by (intro that [of "[\<lparr>pk_docids = ck_docs c, pk_prx = (if np then de_prx_bytes ?e else [])\<rparr>]"])
        (simp_all add: DecodeFlatDocids_def c inline_stored_def posting_docs_def chunk_read_def)
  next
    case True
    then have k: "de_kind ?e \<noteq> kInline" "de_enc ?e \<noteq> kWindowed" using ps nw kind_cases by (auto simp: plan_stored_def Let_def)
    then obtain c where c: "cs = [c]" and s: "slim_stored (host_zstd h) contents ?R hp ?e ?fb ?pb c"
      using ps by (auto simp: plan_stored_def posting_stored_def Let_def)
    have r: "region_in contents ?R (unat ?fb + unat (de_frq_off_delta ?e)) (unat (de_frq_len ?e))"
      and rp: "np \<Longrightarrow> region_in contents ?R (unat ?pb + unat (de_prx_off_delta ?e)) (unat (de_prx_len ?e))"
      using s np by (simp_all add: slim_stored_def)
    have a: "asks f (pt_frq_handle p) (rr_offset ?R + ?fb + de_frq_off_delta ?e) (de_frq_docs_len ?e)"
      and ap: "np \<Longrightarrow> asks f (pt_prx_handle p) (rr_offset ?R + ?pb + de_prx_off_delta ?e) (de_prx_len ?e)"
      using ps True nw by (simp_all add: plan_stored_def Let_def)
    have dd: "brf_get f' (pt_frq_handle p) =
        Inr (seg contents (unat (rr_offset ?R) + unat ?fb + unat (de_frq_off_delta ?e)) (unat (de_frq_docs_len ?e)))"
      by (simp add: fetched_asks [OF get a] file_slice_seg region_start [OF r len])
    let ?prx = "seg contents (unat (rr_offset ?R) + unat ?pb + unat (de_prx_off_delta ?e)) (unat (de_prx_len ?e))"
    have prx: "(if np then brf_get f' (pt_prx_handle p) else Inr []) = Inr (if np then ?prx else [])"
      by (simp add: fetched_asks [OF get ap] file_slice_seg region_start [OF rp len])
    show ?thesis using True s np
      by (intro that [of "[\<lparr>pk_docids = ck_docs c, pk_prx = (if np then ?prx else [])\<rparr>]"])
        (simp_all add: DecodeFlatDocids_def c dd prx slim_stored_def posting_docs_def chunk_read_def)
  qed
qed

definition request_for :: "host \<Rightarrow> byte list \<Rightarrow> bool \<Rightarrow> batch_range_fetcher \<Rightarrow> window_meta \<times> nat \<times> nat \<Rightarrow> chunk \<Rightarrow> bool" where
  "request_for h contents np f x c =
     (case x of (m, dh, ph) \<Rightarrow>
       dh < length (brf_reqs f) \<and>
       decode_window_slices h m (bytes_of contents f dh) [] [] False False = Inr (ck_docs c, [], []) \<and>
       (np \<longrightarrow> ph < length (brf_reqs f) \<and> prx_stored (host_zstd h) (bytes_of contents f ph) c))"

lemma request_for_extends: "request_for h contents np f x c \<Longrightarrow> extends f g \<Longrightarrow> request_for h contents np g x c"
  using extends_length by (fastforce simp: request_for_def bytes_of_extends split: prod.splits)

lemma request_windows_ok:
  assumes st: "windowed_stored (host_zstd h) contents (posting_region idx) hf hp (pt_entry p) (pt_frq_base p) (pt_prx_base p) cols cs"
    and pr: "pt_prelude p = prelude_reader cols" and len: "length contents < 2 ^ 64" and np: "np \<longrightarrow> hp"
  shows "\<forall>w \<in> set ws. unat w < length cs \<Longrightarrow> reqs_in contents f \<Longrightarrow>
   \<exists>hs g. request_windows idx p ws np f = Inr (hs, g) \<and> list_all2 (request_for h contents np g) hs (map (\<lambda>w. cs ! unat w) ws) \<and>
     extends f g \<and> reqs_in contents g"
proof (induction ws arbitrary: f)
  case (Cons w ws)
  let ?k = "unat w"
  let ?m = "stored_windows hf hp 0 (fpc_windows cols) ! ?k"
  have k: "?k < length (fpc_windows cols)" using Cons.prems(1) windowed_length [OF st] by simp
  have kw: "of_nat ?k = w" by simp
  obtain r where r: "windowed_window_range idx (pt_entry p) (pt_frq_base p) (pt_prx_base p) (prelude_reader cols) w np False = Inr r"
    and m: "prelude_window (prelude_reader cols) w = Inr ?m"
    and rd: "range_of contents (war_dd_off r) (war_dd_len r)
      (seg contents (unat (rr_offset (posting_region idx)) + unat (pt_frq_base p) + unat (de_frq_off_delta (pt_entry p)) + length (prelude_bytes cols) +
         unat (wm_dd_off ?m)) (unat (wm_dd_disk_len ?m)))"
    and rx: "np \<Longrightarrow> range_of contents (war_prx_off r) (war_prx_len r)
      (seg contents (unat (rr_offset (posting_region idx)) + unat (pt_prx_base p) + unat (de_prx_off_delta (pt_entry p)) +
         unat (wm_prx_off ?m)) (unat (wm_prx_len ?m)))"
    using windowed_window_range_ok [OF st len k np, of False] unfolding kw by blast
  note ws = windowed_nth [OF st k]
  obtain g where g: "brf_add (war_dd_off r) (war_dd_len r) f = (length (brf_reqs f), g)" "g = snd (brf_add (war_dd_off r) (war_dd_len r) f)"
    by (rule brf_add_cases)
  have rg: "reqs_in contents g" using Cons.prems(2) rd by (simp add: g(2) reqs_in_add range_of_def)
  obtain ph q where q: "(if np then brf_add (war_prx_off r) (war_prx_len r) g else (0, g)) = (ph, q)"
    and gq: "extends g q" and rq: "reqs_in contents q" and ap: "np \<Longrightarrow> asks q ph (war_prx_off r) (war_prx_len r)"
  proof (cases np)
    case True
    obtain q where q: "brf_add (war_prx_off r) (war_prx_len r) g = (length (brf_reqs g), q)" "q = snd (brf_add (war_prx_off r) (war_prx_len r) g)"
      by (rule brf_add_cases)
    show ?thesis by (rule that [of "length (brf_reqs g)" q])
      (use True q rg rx in \<open>simp_all add: reqs_in_add range_of_def\<close>)
  qed (use rg that in simp)
  have "asks q (length (brf_reqs f)) (war_dd_off r) (war_dd_len r)" by (rule asks_extends [OF _ gq]) (simp add: g(2))
  then have rf: "request_for h contents np q (?m, length (brf_reqs f), ph) (cs ! ?k)"
    using decode_window_docs [OF ws] ws rd rx ap asks_bytes [of q] np
    by (auto simp: request_for_def range_of_def window_stored_def) (simp_all add: asks_def)
  from Cons.IH [OF _ rq] Cons.prems(1) obtain hs g' where
    run: "request_windows idx p ws np q = Inr (hs, g')" "list_all2 (request_for h contents np g') hs (map (\<lambda>w. cs ! unat w) ws)"
      "extends q g'" "reqs_in contents g'" by auto
  have "extends f g'" by (rule extends_trans [OF extends_trans [OF _ gq] run(3)]) (simp add: g(2))
  with run request_for_extends [OF rf run(3)] show ?case
    by (intro exI [of _ "(?m, length (brf_reqs f), ph) # hs"] exI [of _ g']) (simp add: pr r m g(1) q)
qed simp

lemma decode_requested_ok:
  "fetched contents f f' \<Longrightarrow> list_all2 (request_for h contents np f) hs cs \<Longrightarrow>
   \<exists>ks. decode_requested h f' np hs = Inr ks \<and> list_all2 (chunk_read (host_zstd h) np) ks cs"
proof (induction hs arbitrary: cs)
  case (Cons x hs)
  obtain m dh ph where x: "x = (m, dh, ph)" by (cases x) auto
  from Cons.prems(2) obtain c cs' where cs: "cs = c # cs'" and r: "request_for h contents np f x c"
    and rs: "list_all2 (request_for h contents np f) hs cs'" by (auto simp: list_all2_Cons1)
  from Cons.IH [OF Cons.prems(1) rs] obtain ks where k: "decode_requested h f' np hs = Inr ks" "list_all2 (chunk_read (host_zstd h) np) ks cs'"
    by blast
  let ?prx = "if np then bytes_of contents f ph else []"
  have "(if np then brf_get f' ph else Inr []) = Inr ?prx" using r Cons.prems(1) by (simp add: x request_for_def fetched_def)
  moreover have "chunk_read (host_zstd h) np \<lparr>pk_docids = ck_docs c, pk_prx = ?prx\<rparr> c"
    using r by (simp add: x request_for_def chunk_read_def)
  ultimately show ?case using r k Cons.prems(1)
    by (intro exI [of _ "\<lparr>pk_docids = ck_docs c, pk_prx = ?prx\<rparr> # ks"]) (simp add: x cs request_for_def fetched_def)
qed simp

lemma DecodeWindowedDocids_ok:
  assumes h: "host_ok h" and over: "index_over contents idx" and np: "np \<longrightarrow> hp"
    and st: "windowed_stored (host_zstd h) contents (posting_region idx) hf hp (pt_entry p) (pt_frq_base p) (pt_prx_base p) cols cs"
    and pr: "pt_prelude p = prelude_reader cols" and ws: "\<forall>w \<in> set ws. unat w < length cs"
  obtains src where "DecodeWindowedDocids h idx p ws np = Inr (src, posting_docs (map (\<lambda>w. cs ! unat w) ws))"
    and "list_all2 (chunk_read (host_zstd h) np) src (map (\<lambda>w. cs ! unat w) ws)"
proof -
  have len: "length contents < 2 ^ 64" using over by (simp add: index_over_def)
  obtain hs f where f: "request_windows idx p ws np (batch_range_fetcher_new kSameTermCoalesceGap) = Inr (hs, f)"
    "list_all2 (request_for h contents np f) hs (map (\<lambda>w. cs ! unat w) ws)" "reqs_in contents f"
    using request_windows_ok [OF st pr len np ws reqs_in_new] by blast
  obtain f' where g: "(if brf_reqs f \<noteq> [] then index_fetch h idx f else Inr f) = Inr f'" and get: "fetched contents f f'"
    using fetch_or_skip [OF h over f(3)] by (metis fetched_def)
  obtain ks where "decode_requested h f' np hs = Inr ks" "list_all2 (chunk_read (host_zstd h) np) ks (map (\<lambda>w. cs ! unat w) ws)"
    using decode_requested_ok [OF get f(2)] by blast
  then show ?thesis using that f(1) g by (simp add: DecodeWindowedDocids_def chunks_read_docs)
qed

subsection \<open>Covering windows\<close>

lemma ascending_concat:
  "ascending (concat (map f cs)) \<longleftrightarrow>
   (\<forall>c \<in> set cs. ascending (f c)) \<and> sorted_wrt (\<lambda>c c'. \<forall>x \<in> set (f c). \<forall>y \<in> set (f c'). x < y) cs"
  by (induction cs) (auto simp: sorted_wrt_append)

lemma ascending_selected:
  assumes "ascending (posting_docs cs)" and "ascending ws" and "\<forall>w \<in> set ws. unat (w :: u32) < length cs"
  shows "ascending (posting_docs (map (\<lambda>w. cs ! unat w) ws))"
proof -
  let ?R = "\<lambda>c c'. \<forall>x \<in> set (ck_docs c). \<forall>y \<in> set (ck_docs c'). x < y"
  have a: "\<forall>c \<in> set cs. ascending (ck_docs c)" and s: "sorted_wrt ?R cs"
    using assms(1) by (simp_all add: posting_docs_def ascending_concat)
  have r: "?R (cs ! unat w) (cs ! unat w')" if "w < w'" "w' \<in> set ws" for w w'
    using sorted_wrt_nth_less [OF s, of "unat w" "unat w'"] that assms(3) by (simp add: word_less_nat_alt)
  have "sorted_wrt (\<lambda>w w'. ?R (cs ! unat w) (cs ! unat w')) ws"
    by (rule sorted_wrt_mono_rel [OF _ assms(2)]) (rule r)
  then show ?thesis using a assms(3) by (simp add: posting_docs_def ascending_concat sorted_wrt_map)
qed

lemma first_window_mono:
  "d \<le> d' \<Longrightarrow> first_window ws d = Some i \<Longrightarrow> first_window ws d' = Some j \<Longrightarrow> i \<le> j"
  by (rule ccontr) (auto simp: first_window_def find_Some_iff not_le)

lemma locate_covers:
  assumes st: "windowed_stored z contents region hf hp e fb pb cols cs" and asc: "ascending (posting_docs cs)"
    and k: "k < length cs" and d: "d \<in> set (ck_docs (cs ! k))"
  shows "locate_window (prelude_reader cols) d = Some (of_nat k)"
proof -
  let ?ws = "fpc_windows cols"
  have n: "length cs = length ?ws" by (rule windowed_length [OF st])
  have ok: "prelude_ok cols" using st by (simp add: windowed_stored_def Let_def)
  have lst: "ck_docs (cs ! j) \<noteq> [] \<and> wm_last_docid (?ws ! j) = last (ck_docs (cs ! j))" if "j < length cs" for j
    using windowed_nth [OF st, of j] that stored_windows_nth [of j ?ws hf hp 0] by (auto simp: n window_stored_def)
  have a: "ascending (ck_docs (cs ! k))" and s: "sorted_wrt (\<lambda>c c'. \<forall>x \<in> set (ck_docs c). \<forall>y \<in> set (ck_docs c'). x < y) cs"
    using asc k by (simp_all add: posting_docs_def ascending_concat)
  have le: "d \<le> wm_last_docid (?ws ! k)" using ascending_last [OF a d] lst [OF k] by simp
  have lt: "wm_last_docid (?ws ! j) < d" if "j < k" for j
    using sorted_wrt_nth_less [OF s that k] lst [of j] that k d by (metis last_in_set order.strict_trans)
  have "first_window ?ws d = Some k"
    unfolding first_window_def find_Some_iff using le lt k by (intro exI [of _ k]) (simp add: n not_le)
  then show ?thesis by (simp add: locate_window_first [OF ok])
qed

lemma locate_window_facts:
  assumes st: "windowed_stored z contents region hf hp e fb pb cols cs"
  shows "locate_window (prelude_reader cols) d = Some w \<Longrightarrow> unat w < length cs"
    and "locate_window (prelude_reader cols) d = Some w \<Longrightarrow> w \<noteq> - 1"
    and "locate_window (prelude_reader cols) d = Some w \<Longrightarrow> locate_window (prelude_reader cols) d' = Some w' \<Longrightarrow> d \<le> d' \<Longrightarrow> w \<le> w'"
proof -
  let ?ws = "fpc_windows cols"
  have ok: "prelude_ok cols" using st by (simp add: windowed_stored_def Let_def)
  have n: "length cs = length ?ws" "length ?ws \<le> 2 ^ 24" using windowed_length [OF st] ok by (simp_all add: prelude_ok_def)
  have f: "\<exists>i. first_window ?ws d = Some i \<and> w = of_nat i \<and> i < length ?ws" if "locate_window (prelude_reader cols) d = Some w" for d w
    using that by (auto simp: locate_window_first [OF ok] first_window_def find_Some_iff)
  show 1: "unat w < length cs" if "locate_window (prelude_reader cols) d = Some w" for d w
    using f [OF that] n by auto
  show "w \<noteq> - 1" if "locate_window (prelude_reader cols) d = Some w"
    using 1 [OF that] n by (auto simp: unsigned_minus_1_eq_mask mask_eq_exp_minus_1)
  show "w \<le> w'" if "locate_window (prelude_reader cols) d = Some w" "locate_window (prelude_reader cols) d' = Some w'" "d \<le> d'"
    using f [OF that(1)] f [OF that(2)] first_window_mono [OF that(3)] n by (auto simp: word_le_nat_alt)
qed

lemma covering_windows_spec:
  assumes ne: "\<And>d w. locate_window r d = Some w \<Longrightarrow> w \<noteq> - 1"
    and mono: "\<And>d d' w w'. locate_window r d = Some w \<Longrightarrow> locate_window r d' = Some w' \<Longrightarrow> d \<le> d' \<Longrightarrow> w \<le> w'"
  shows "ascending ds \<Longrightarrow> prev = - 1 \<or> (\<forall>d \<in> set ds. \<forall>w. locate_window r d = Some w \<longrightarrow> prev \<le> w) \<Longrightarrow>
    ascending (covering_windows r prev ds) \<and> (prev = - 1 \<or> (\<forall>w \<in> set (covering_windows r prev ds). prev < w)) \<and>
    set (covering_windows r prev ds) \<subseteq> {w. \<exists>d \<in> set ds. locate_window r d = Some w} \<and>
    {w. \<exists>d \<in> set ds. locate_window r d = Some w} \<subseteq> insert prev (set (covering_windows r prev ds))"
proof (induction ds arbitrary: prev)
  case (Cons d ds)
  show ?case
  proof (cases "locate_window r d")
    case None
    then show ?thesis using Cons.IH [of prev] Cons.prems by auto
  next
    case (Some w)
    have w: "\<forall>d' \<in> set ds. \<forall>w'. locate_window r d' = Some w' \<longrightarrow> w \<le> w'"
      using mono [OF Some] Cons.prems(1) by (auto intro: less_imp_le)
    show ?thesis
    proof (cases "w = prev")
      case True
      with Some Cons.IH [of prev] Cons.prems show ?thesis by auto
    next
      case False
      have pw: "prev = - 1 \<or> prev < w" using Cons.prems(2) Some False by auto
      from Some False Cons.IH [of w] Cons.prems(1) w ne [OF Some] pw show ?thesis by (auto dest: order.strict_trans)
    qed
  qed
qed simp

lemma SelectCoveringWindows_ok:
  assumes st: "windowed_stored z contents region hf hp e fb pb cols cs" and asc: "ascending (posting_docs cs)"
    and ds: "ascending ds"
  defines "ws \<equiv> SelectCoveringWindows (prelude_reader cols) ds"
  shows "\<forall>w \<in> set ws. unat w < length cs" and "ascending (posting_docs (map (\<lambda>w. cs ! unat w) ws))"
    and "set ds \<inter> set (posting_docs (map (\<lambda>w. cs ! unat w) ws)) = set ds \<inter> set (posting_docs cs)"
proof -
  note loc = locate_window_facts [OF st]
  have c: "ascending ws" "set ws \<subseteq> {w. \<exists>d \<in> set ds. locate_window (prelude_reader cols) d = Some w}"
    "{w. \<exists>d \<in> set ds. locate_window (prelude_reader cols) d = Some w} \<subseteq> insert (- 1) (set ws)"
    using covering_windows_spec [where r = "prelude_reader cols", OF loc(2) loc(3) ds, where prev = "- 1"]
    by (simp_all add: ws_def SelectCoveringWindows_def)
  show b: "\<forall>w \<in> set ws. unat w < length cs" using c(2) loc(1) by blast
  show "ascending (posting_docs (map (\<lambda>w. cs ! unat w) ws))" by (rule ascending_selected [OF asc c(1) b])
  have n: "length cs < 2 ^ 32"
    using st windowed_length [OF st] by (simp add: windowed_stored_def Let_def prelude_ok_def)
  have "d \<in> set (posting_docs (map (\<lambda>w. cs ! unat w) ws))" if d: "d \<in> set ds" "d \<in> set (posting_docs cs)" for d
  proof -
    obtain k where k: "k < length cs" "d \<in> set (ck_docs (cs ! k))" using d(2) unfolding posting_docs_def by (auto simp: in_set_conv_nth [of _ cs])
    have l: "locate_window (prelude_reader cols) d = Some (of_nat k)" by (rule locate_covers [OF st asc k])
    then have "of_nat k \<in> set ws" using c(3) d(1) loc(2) [OF l] by blast
    then show ?thesis using k n by (auto simp: posting_docs_def intro!: bexI [of _ "of_nat k"])
  qed
  moreover have "set (posting_docs (map (\<lambda>w. cs ! unat w) ws)) \<subseteq> set (posting_docs cs)"
    using b nth_mem [of _ cs] by (fastforce simp: posting_docs_def)
  ultimately show "set ds \<inter> set (posting_docs (map (\<lambda>w. cs ! unat w) ws)) = set ds \<inter> set (posting_docs cs)" by blast
qed

subsection \<open>The conjunction\<close>

text \<open>What was read of a term: chunks of its posting that hold every candidate.\<close>

definition source_ok :: "host \<Rightarrow> bool \<Rightarrow> chunk list \<Rightarrow> pos_source \<Rightarrow> u32 list \<Rightarrow> bool" where
  "source_ok h np cs src cand =
     (\<exists>sel. list_all2 (chunk_read (host_zstd h) np) src sel \<and> set sel \<subseteq> set cs \<and> ascending (posting_docs sel) \<and>
        set cand \<subseteq> set (posting_docs sel))"

definition ready ::
  "host \<Rightarrow> byte list \<Rightarrow> logical_index_reader \<Rightarrow> bool \<Rightarrow> bool \<Rightarrow> bool \<Rightarrow> batch_range_fetcher \<Rightarrow> batch_range_fetcher \<Rightarrow>
   term_plan list \<Rightarrow> chunk list list \<Rightarrow> bool" where
  "ready h contents idx hf hp np f f' plans css =
     (host_ok h \<and> index_over contents idx \<and> (np \<longrightarrow> hp) \<and> fetched contents f f' \<and>
      list_all2 (plan_ready h contents idx hf hp np f) plans css)"

text \<open>One round of the loop: the documents read from a term agree with its posting on the candidates.\<close>

lemma read_term_ok:
  assumes rd: "ready h contents idx hf hp np f f' plans css" and ti: "ti < length plans" and cand: "ascending cand"
  defines "p \<equiv> plans ! ti"
  obtains src docs where
    "(if pt_windowed p then DecodeWindowedDocids h idx p (if first then AllWindows (pt_prelude p) else SelectCoveringWindows (pt_prelude p) cand) np
      else DecodeFlatDocids h f' p np) = Inr (src, docs)"
    and "ascending docs" and "first \<Longrightarrow> docs = posting_docs (css ! ti)"
    and "set cand \<inter> set docs = set cand \<inter> set (posting_docs (css ! ti))"
    and "\<And>new. set new \<subseteq> set docs \<Longrightarrow> source_ok h np (css ! ti) src new"
proof -
  let ?cs = "css ! ti"
  have pr: "plan_ready h contents idx hf hp np f p ?cs" using rd ti list_all2_nthD by (fastforce simp: ready_def p_def)
  have len: "length contents < 2 ^ 64" and h: "host_ok h" "index_over contents idx" "np \<longrightarrow> hp" and get: "fetched contents f f'"
    using rd by (simp_all add: ready_def index_over_def)
  have asc: "ascending (posting_docs ?cs)"
    using pr by (auto simp: plan_ready_def plan_stored_def Let_def dest: posting_stored_ascending)
  show ?thesis
  proof (cases "pt_windowed p")
    case False
    obtain src where "DecodeFlatDocids h f' p np = Inr (src, posting_docs ?cs)" "list_all2 (chunk_read (host_zstd h) np) src ?cs"
      by (rule DecodeFlatDocids_ok [OF pr False len h(3) get])
    with False asc show ?thesis by (intro that [of src "posting_docs ?cs"]) (auto simp: source_ok_def)
  next
    case True
    then obtain cols where w: "pt_prelude p = prelude_reader cols"
      "windowed_stored (host_zstd h) contents (posting_region idx) hf hp (pt_entry p) (pt_frq_base p) (pt_prx_base p) cols ?cs"
      using pr by (auto simp: plan_ready_def)
    define ws where "ws = (if first then AllWindows (pt_prelude p) else SelectCoveringWindows (pt_prelude p) cand)"
    let ?sel = "map (\<lambda>w. ?cs ! unat w) ws"
    have n: "length ?cs = length (fpc_windows cols)" "length (fpc_windows cols) \<le> 2 ^ 24"
      using w(2) windowed_length [OF w(2)] by (simp_all add: windowed_stored_def Let_def prelude_ok_def)
    have all: "map (\<lambda>w. ?cs ! unat w) (AllWindows (prelude_reader cols)) = ?cs"
      using n by (intro nth_equalityI) (simp_all add: AllWindows_def prelude_reader_def)
    have allb: "\<forall>w \<in> set (AllWindows (prelude_reader cols)). unat w < length ?cs"
      using n by (auto simp: AllWindows_def prelude_reader_def)
    note sc = SelectCoveringWindows_ok [OF w(2) asc cand]
    have b: "\<forall>w \<in> set ws. unat w < length ?cs" using sc(1) allb by (simp add: ws_def w(1))
    have a: "ascending (posting_docs ?sel)" using sc(2) asc all by (cases first) (simp_all add: ws_def w(1))
    have i: "set cand \<inter> set (posting_docs ?sel) = set cand \<inter> set (posting_docs ?cs)"
      using sc(3) all by (cases first) (simp_all add: ws_def w(1))
    have f: "posting_docs ?sel = posting_docs ?cs" if first using that all by (simp add: ws_def w(1))
    obtain src where s: "DecodeWindowedDocids h idx p ws np = Inr (src, posting_docs ?sel)"
      "list_all2 (chunk_read (host_zstd h) np) src ?sel"
      by (rule DecodeWindowedDocids_ok [OF h w(2,1) b])
    have "set ?sel \<subseteq> set ?cs" using b by auto
    with s(2) a have "source_ok h np ?cs src new" if "set new \<subseteq> set (posting_docs ?sel)" for new
      using that unfolding source_ok_def by blast
    with True s(1) a i f show ?thesis by (intro that [of src "posting_docs ?sel"]) (simp_all add: ws_def)
  qed
qed

definition common_docs :: "chunk list list \<Rightarrow> nat set \<Rightarrow> u32 set" where
  "common_docs css J = (\<Inter>i \<in> J. set (posting_docs (css ! i)))"

definition conj_inv :: "host \<Rightarrow> bool \<Rightarrow> chunk list list \<Rightarrow> nat set \<Rightarrow> pos_source list \<Rightarrow> u32 list \<Rightarrow> bool" where
  "conj_inv h np css J srcs cand =
     (length srcs = length css \<and> ascending cand \<and> (J \<noteq> {} \<longrightarrow> set cand = common_docs css J) \<and>
      (\<forall>i < length css. if i \<in> J then source_ok h np (css ! i) (srcs ! i) cand else srcs ! i = []))"

lemma source_ok_subset: "source_ok h np cs src cand \<Longrightarrow> set cand' \<subseteq> set cand \<Longrightarrow> source_ok h np cs src cand'"
  by (auto simp: source_ok_def)

lemma conj_step:
  assumes inv: "conj_inv h np css J srcs cand" and ti: "ti < length css" "ti \<notin> J"
    and first: "first \<longleftrightarrow> J = {}"
    and docs: "ascending docs" "first \<Longrightarrow> docs = posting_docs (css ! ti)"
      "set cand \<inter> set docs = set cand \<inter> set (posting_docs (css ! ti))"
      "\<And>new. set new \<subseteq> set docs \<Longrightarrow> source_ok h np (css ! ti) src new"
  defines "cand' \<equiv> (if first then docs else intersect_sorted cand docs)"
  shows "conj_inv h np css (insert ti J) (srcs[ti := srcs ! ti @ src]) cand'"
proof -
  have ac: "ascending cand" and l: "length srcs = length css" and e: "srcs ! ti = []" using inv ti by (auto simp: conj_inv_def)
  have i: "ascending (intersect_sorted cand docs)" "set (intersect_sorted cand docs) = set cand \<inter> set docs"
    using docids.inter_valid [OF ac docs(1)] docids.inter_\<alpha> [OF ac docs(1)] by simp_all
  have s: "set cand' = common_docs css (insert ti J)"
    using i(2) docs(2,3) inv first by (auto simp: cand'_def common_docs_def conj_inv_def)
  have sub: "set cand' \<subseteq> set docs" "J \<noteq> {} \<Longrightarrow> set cand' \<subseteq> set cand" using i(2) first by (auto simp: cand'_def)
  have "if j \<in> insert ti J then source_ok h np (css ! j) (srcs[ti := src] ! j) cand' else srcs[ti := src] ! j = []"
    if j: "j < length css" for j
  proof (cases "j = ti")
    case True
    then show ?thesis using docs(4) [OF sub(1)] l ti(1) by simp
  next
    case False
    have "if j \<in> J then source_ok h np (css ! j) (srcs ! j) cand else srcs ! j = []" using inv j by (simp add: conj_inv_def)
    with False source_ok_subset [OF _ sub(2)] show ?thesis by (auto split: if_splits)
  qed
  moreover have "ascending cand'" using docs(1) i(1) by (simp add: cand'_def)
  ultimately show ?thesis unfolding conj_inv_def e append_Nil length_list_update using s l by blast
qed

lemma conjunction_ok:
  assumes rd: "ready h contents idx hf hp np f f' plans css"
  shows "set order \<subseteq> {..<length css} \<Longrightarrow> distinct order \<Longrightarrow> set order \<inter> J = {} \<Longrightarrow> (first \<longleftrightarrow> J = {}) \<Longrightarrow> J \<union> set order \<noteq> {} \<Longrightarrow>
    conj_inv h np css J srcs cand \<Longrightarrow>
    \<exists>srcs' cand'. conjunction h idx f' plans np order first (srcs, cand) = Inr (srcs', cand') \<and>
      ascending cand' \<and> set cand' = common_docs css (J \<union> set order) \<and>
      (cand' \<noteq> [] \<longrightarrow> conj_inv h np css (J \<union> set order) srcs' cand')"
proof (induction order arbitrary: J first srcs cand)
  case Nil
  then show ?case by (simp add: conj_inv_def)
next
  case (Cons ti order)
  have lp: "length plans = length css" using rd by (auto simp: ready_def dest: list_all2_lengthD)
  have ti: "ti < length css" "ti \<notin> J" "ti < length plans" using Cons.prems(1,3) lp by auto
  have ac: "ascending cand" using Cons.prems(6) by (simp add: conj_inv_def)
  obtain src docs where
    r: "(if pt_windowed (plans ! ti) then DecodeWindowedDocids h idx (plans ! ti) (if first then AllWindows (pt_prelude (plans ! ti))
          else SelectCoveringWindows (pt_prelude (plans ! ti)) cand) np
        else DecodeFlatDocids h f' (plans ! ti) np) = Inr (src, docs)"
    and d: "ascending docs" "first \<Longrightarrow> docs = posting_docs (css ! ti)"
      "set cand \<inter> set docs = set cand \<inter> set (posting_docs (css ! ti))"
      "\<And>new. set new \<subseteq> set docs \<Longrightarrow> source_ok h np (css ! ti) src new"
    using read_term_ok [OF rd ti(3) ac, of first] by blast
  let ?c = "if first then docs else intersect_sorted cand docs"
  let ?s = "srcs[ti := srcs ! ti @ src]"
  have inv: "conj_inv h np css (insert ti J) ?s ?c" by (rule conj_step [OF Cons.prems(6) ti(1,2) Cons.prems(4) d])
  have sc: "set ?c = common_docs css (insert ti J)" "ascending ?c" using inv by (simp_all add: conj_inv_def)
  have un: "J \<union> set (ti # order) = insert ti J \<union> set order" by auto
  have run: "conjunction h idx f' plans np (ti # order) first (srcs, cand) =
      (if ?c = [] then Inr (?s, []) else conjunction h idx f' plans np order False (?s, ?c))"
    using r by (simp add: Let_def)
  show ?case
  proof (cases "?c = []")
    case True
    then have "common_docs css (J \<union> set (ti # order)) = {}" using sc(1) by (auto simp: common_docs_def)
    then show ?thesis unfolding run using True by simp
  next
    case False
    have "\<exists>srcs' cand'. conjunction h idx f' plans np order False (?s, ?c) = Inr (srcs', cand') \<and>
      ascending cand' \<and> set cand' = common_docs css (insert ti J \<union> set order) \<and>
      (cand' \<noteq> [] \<longrightarrow> conj_inv h np css (insert ti J \<union> set order) srcs' cand')"
      using Cons.prems by (intro Cons.IH [OF _ _ _ _ _ inv]) auto
    then show ?thesis unfolding run un using False by simp
  qed
qed

lemma BuildConjunction_ok:
  assumes rd: "ready h contents idx hf hp np f f' plans css" and ne: "plans \<noteq> []"
  obtains srcs cand where "BuildConjunction h idx f' plans np = Inr (srcs, cand)"
    and "ascending cand" and "set cand = common_docs css {..<length css}"
    and "cand \<noteq> [] \<Longrightarrow> length srcs = length css \<and> (\<forall>i < length css. source_ok h np (css ! i) (srcs ! i) cand)"
proof -
  have lp: "length plans = length css" using rd by (auto simp: ready_def dest: list_all2_lengthD)
  let ?o = "AscendingDfOrder h plans"
  have "sorting_permutation (map (\<lambda>p. ucast (pt_df p)) plans) ?o" using rd by (simp add: ready_def host_ok_def AscendingDfOrder_def)
  then have o: "distinct ?o" "set ?o = {..<length css}" by (simp_all add: sorting_permutation_def lp)
  have inv: "conj_inv h np css {} (replicate (length plans) []) []" by (simp add: conj_inv_def lp)
  have "css \<noteq> []" using ne lp by auto
  with o conjunction_ok [OF rd _ o(1) _ _ _ inv, of True] that show ?thesis
    by (auto simp: BuildConjunction_def conj_inv_def lessThan_empty_iff)
qed

definition present :: "content \<Rightarrow> term_bytes \<Rightarrow> bool" where
  "present pcs t = (t \<in> ph_term ` fst ` set pcs)"

lemma absent_docs: "\<not> present pcs t \<Longrightarrow> posting_for pcs t = []"
  by (auto simp: present_def posting_for_def find_None_iff rev_image_eqI split: option.splits dest!: find_Some_iff [THEN iffD1])
    (metis fst_conv image_eqI nth_mem)

lemma resolve_present:
  assumes ih: "index_holds h contents idx hf hp pcs" and t: "present pcs t"
  obtains r where "ResolvePhraseTerm h idx t = Inr (Some r)"
    and "posting_stored (host_zstd h) contents (posting_region idx) hf hp (rp_entry r) (rp_frq_base r) (rp_prx_base r) (posting_for pcs t)"
proof -
  obtain p where "find (\<lambda>(x, cs). ph_term x = t) pcs = Some p"
    using t by (cases "find (\<lambda>(x, cs). ph_term x = t) pcs") (auto simp: present_def find_None_iff)
  then obtain x cs where f: "find (\<lambda>(x, cs). ph_term x = t) pcs = Some (x, cs)" by (cases p) auto
  note fh = find_holds [OF ih f]
  show ?thesis using fh(3,4)
    by (intro that [of "\<lparr>rp_entry = ph_entry x, rp_frq_base = ph_frq_base x, rp_prx_base = ph_prx_base x\<rparr>"])
      (simp_all add: ResolvePhraseTerm_def index_holds_lookup [OF ih] f hit_stored_def)
qed

lemma resolve_absent:
  assumes ih: "index_holds h contents idx hf hp pcs" and t: "\<not> present pcs t"
  shows "ResolvePhraseTerm h idx t = Inr None"
proof -
  have "find (\<lambda>(x, cs). ph_term x = t) pcs = None"
    using t unfolding find_None_iff present_def by force
  then show ?thesis by (simp add: ResolvePhraseTerm_def index_holds_lookup [OF ih])
qed

lemma PlanTerms_ok:
  assumes ih: "index_holds h contents idx hf hp pcs" and np: "np \<longrightarrow> hp"
  shows "reqs_in contents f \<Longrightarrow>
    (if \<forall>t \<in> set ts. present pcs t
     then \<exists>plans g. PlanTerms h idx i ts np f = Inr (Some (plans, g)) \<and>
       list_all2 (plan_stored h contents idx hf hp np g) plans (map (posting_for pcs) ts) \<and>
       map pt_order plans = [i..<i + length ts] \<and> extends f g \<and> reqs_in contents g
     else PlanTerms h idx i ts np f = Inr None)"
proof (induction ts arbitrary: i f)
  case (Cons t ts)
  have len: "length contents < 2 ^ 64" using ih by (simp add: index_holds_def index_over_def)
  show ?case
  proof (cases "present pcs t")
    case False
    then show ?thesis by (simp add: resolve_absent [OF ih])
  next
    case True
    obtain r where r: "ResolvePhraseTerm h idx t = Inr (Some r)"
      "posting_stored (host_zstd h) contents (posting_region idx) hf hp (rp_entry r) (rp_frq_base r) (rp_prx_base r) (posting_for pcs t)"
      by (rule resolve_present [OF ih True])
    obtain p g where p: "ConfigureTermPlan idx np f (plan_of i r) = Inr (p, g)" "plan_stored h contents idx hf hp np g p (posting_for pcs t)"
      "pt_order p = i" "extends f g" "reqs_in contents g"
      by (rule ConfigureTermPlan_ok [OF r(2) len Cons.prems np])
    note IH = Cons.IH [OF p(5), of "Suc i"]
    show ?thesis
    proof (cases "\<forall>t \<in> set ts. present pcs t")
      case False
      then have "\<not> (\<forall>t' \<in> set (t # ts). present pcs t')" by auto
      then show ?thesis using IH [unfolded if_not_P [OF False]] by (simp only: if_not_P) (simp add: r(1) p(1))
    next
      case all: True
      with IH obtain plans k where q: "PlanTerms h idx (Suc i) ts np g = Inr (Some (plans, k))"
        "list_all2 (plan_stored h contents idx hf hp np k) plans (map (posting_for pcs) ts)"
        "map pt_order plans = [Suc i..<Suc i + length ts]" "extends g k" "reqs_in contents k" by (auto split: if_splits)
      have "plan_stored h contents idx hf hp np k p (posting_for pcs t)" by (rule plan_stored_extends [OF p(2) q(4)])
      with all True p q extends_trans [OF p(4) q(4)] show ?thesis
        by (simp add: r(1) upt_rec)
    qed
  qed
qed simp

text \<open>Both queries start alike: the first round, the preludes and the conjunction.\<close>

lemma execute_ok:
  assumes h: "host_ok h" "index_over contents idx" "np \<longrightarrow> hp"
    and ps: "list_all2 (plan_stored h contents idx hf hp np f) plans css" and rin: "reqs_in contents f" and ne: "plans \<noteq> []"
  obtains f' plans' srcs cand where
    "(if brf_reqs f \<noteq> [] then index_fetch h idx f else Inr f) = Inr f'"
    and "OpenPreludes f' plans np = Inr plans'" and "map pt_order plans' = map pt_order plans"
    and "BuildConjunction h idx f' plans' np = Inr (srcs, cand)"
    and "ascending cand" and "set cand = common_docs css {..<length css}"
    and "cand \<noteq> [] \<Longrightarrow> length srcs = length css \<and> (\<forall>i < length css. source_ok h np (css ! i) (srcs ! i) cand)"
proof -
  have len: "length contents < 2 ^ 64" using h(2) by (simp add: index_over_def)
  obtain f' where f: "(if brf_reqs f \<noteq> [] then index_fetch h idx f else Inr f) = Inr f'" and get: "fetched contents f f'"
    using fetch_or_skip [OF h(1,2) rin] by (metis fetched_def)
  obtain plans' where p: "OpenPreludes f' plans np = Inr plans'" "list_all2 (plan_ready h contents idx hf hp np f) plans' css"
    "map pt_order plans' = map pt_order plans"
    using OpenPreludes_ok [OF len h(3) get ps] by blast
  have rd: "ready h contents idx hf hp np f f' plans' css" using h get p(2) by (simp add: ready_def)
  have "plans' \<noteq> []" using ne p(2) ps by auto
  from BuildConjunction_ok [OF rd this] that f p show ?thesis by metis
qed

lemma boolean_and_ok:
  assumes ih: "index_holds h contents idx hf hp pcs" and ne: "ts \<noteq> []"
  shows "boolean_and h idx ts = Inr (sorted_list_of_set (\<Inter>t \<in> set ts. set (docs_for pcs t)))"
proof (cases "\<forall>t \<in> set ts. present pcs t")
  case False
  then have "PlanTerms h idx 0 ts False (batch_range_fetcher_new 0) = Inr None"
    using PlanTerms_ok [OF ih, of False "batch_range_fetcher_new 0" ts 0] by (simp split: if_splits)
  moreover have "(\<Inter>t \<in> set ts. set (docs_for pcs t)) = {}"
    using False absent_docs by (fastforce simp: docs_for_def posting_docs_def)
  ultimately show ?thesis using ne by (simp add: boolean_and_def)
next
  case True
  obtain plans f where p: "PlanTerms h idx 0 ts False (batch_range_fetcher_new 0) = Inr (Some (plans, f))"
    "list_all2 (plan_stored h contents idx hf hp False f) plans (map (posting_for pcs) ts)" "reqs_in contents f"
    using PlanTerms_ok [OF ih, of False "batch_range_fetcher_new 0" ts 0] True by auto
  have h: "host_ok h" "index_over contents idx" using ih by (simp_all add: index_holds_def)
  have pne: "plans \<noteq> []" using p(2) ne by auto
  obtain f' plans' srcs cand where e: "(if brf_reqs f \<noteq> [] then index_fetch h idx f else Inr f) = Inr f'"
    "OpenPreludes f' plans False = Inr plans'" "BuildConjunction h idx f' plans' False = Inr (srcs, cand)"
    "ascending cand" "set cand = common_docs (map (posting_for pcs) ts) {..<length (map (posting_for pcs) ts)}"
    by (rule execute_ok [OF h _ p(2,3) pne]) simp_all
  have "common_docs (map (posting_for pcs) ts) {..<length (map (posting_for pcs) ts)} = (\<Inter>t \<in> set ts. set (docs_for pcs t))"
    by (force simp: common_docs_def docs_for_def in_set_conv_nth)
  then have "cand = sorted_list_of_set (\<Inter>t \<in> set ts. set (docs_for pcs t))" using e(4,5) ascending_unique by metis
  with e ne p(1) show ?thesis by (simp add: boolean_and_def)
qed

end
