(* ===== verification/Phrase_Correct.thy ===== *)
theory Phrase_Correct
  imports Conjunction_Correct
begin

text \<open>
  A phrase query returns the documents in which the terms stand one after the other; the forward cursors
  find the positions of every candidate, and the last term of a phrase may be given by a prefix.
\<close>

subsection \<open>Cursors\<close>

lemma csr_from_nth: "i < length docs \<Longrightarrow> csr_from n docs ! i = of_nat (n + length (concat (take (Suc i) docs)))"
proof (induction docs arbitrary: n i)
  case (Cons doc docs)
  then show ?case by (cases i) (simp_all add: add.assoc)
qed simp

lemma length_csr_from [simp]: "length (csr_from n docs) = length docs"
  by (induction docs arbitrary: n) simp_all

lemma csr_offsets:
  assumes "length (concat docs) < 2 ^ 32" and "i \<le> length docs"
  shows "unat ((0 # csr_from 0 docs) ! i) = length (concat (take i docs))"
proof -
  have "length (concat (take i docs)) + length (concat (drop i docs)) = length (concat docs)"
    by (metis append_take_drop_id concat_append length_append)
  then have "length (concat (take i docs)) < 2 ^ 32" using assms(1) by linarith
  then show ?thesis using assms(2) by (cases i) (simp_all add: csr_from_nth)
qed

lemma csr_span:
  assumes "length (concat docs) < 2 ^ 32" and i: "i < length docs"
  defines "b \<equiv> unat ((0 # csr_from 0 docs) ! i)" and "e \<equiv> unat ((0 # csr_from 0 docs) ! (i + 1))"
  shows "subslice (concat docs) b (e - b) = Inr (docs ! i)"
proof -
  have b: "b = length (concat (take i docs))" unfolding b_def using csr_offsets [OF assms(1), of i] i by simp
  have e: "e = b + length (docs ! i)"
    unfolding b e_def using csr_offsets [OF assms(1), of "i + 1"] i by (simp add: take_Suc_conv_app_nth)
  have c: "concat docs = concat (take i docs) @ docs ! i @ concat (drop (Suc i) docs)"
    by (subst id_take_nth_drop [OF i]) simp
  show ?thesis unfolding e b by (subst (1) c) (simp add: subslice_def c)
qed

text \<open>A cursor over the chunks \<open>sel\<close> that has passed only documents below \<open>d\<close>.\<close>

definition cursor_before :: "host \<Rightarrow> chunk list \<Rightarrow> u32 \<Rightarrow> posting_cursor \<Rightarrow> bool" where
  "cursor_before h sel d c =
     (list_all2 (chunk_read (host_zstd h) True) (pc_src c) sel \<and> ascending (posting_docs sel) \<and>
      (\<forall>j < length sel. j < pc_ci c \<longrightarrow> (\<forall>x \<in> set (ck_docs (sel ! j)). x < d)) \<and>
      (pc_ci c < length sel \<longrightarrow> (\<forall>x \<in> set (take (pc_li c) (ck_docs (sel ! pc_ci c))). x < d)) \<and>
      (\<forall>k. pc_decoded_pos_chunk c = Some k \<longrightarrow> k < length sel \<and> (pc_pflat c, pc_poff c) = csr_of (ck_poss (sel ! k))))"

lemma seek_chunk_eq:
  "seek_chunk t ks (ci, li) =
     (let n = length (takeWhile (\<lambda>k. pk_docids k = [] \<or> last (pk_docids k) < t) ks) in (ci + n, if n = 0 then li else 0))"
  by (induction ks arbitrary: ci li) (simp_all add: Let_def)

lemma takeWhile_length_nth:
  "(\<And>i. i < n \<Longrightarrow> P (xs ! i)) \<Longrightarrow> n < length xs \<Longrightarrow> \<not> P (xs ! n) \<Longrightarrow> length (takeWhile P xs) = n"
  by (subst takeWhile_eq_take_P_nth [of n]) simp_all

lemma cursor_seek_ok:
  assumes c: "cursor_before h sel d c" and k: "k < length sel" and i: "i < length (ck_docs (sel ! k))" and d: "ck_docs (sel ! k) ! i = d"
  shows "cursor_seek d c = c\<lparr>pc_ci := k, pc_li := i\<rparr>"
proof -
  let ?src = "pc_src c"
  have l: "length ?src = length sel" and dk: "pk_docids (?src ! j) = ck_docs (sel ! j)" if "j < length sel" for j
    using c that by (auto simp: cursor_before_def chunk_read_def dest: list_all2_lengthD list_all2_nthD2)
  have ln: "length ?src = length sel" using l [OF k] .
  have asc: "ascending (ck_docs (sel ! j))" if "j < length sel" for j
    using c that by (simp add: cursor_before_def posting_docs_def ascending_concat)
  have srt: "sorted_wrt (\<lambda>c c'. \<forall>x \<in> set (ck_docs c). \<forall>y \<in> set (ck_docs c'). x < y) sel"
    using c by (simp add: cursor_before_def posting_docs_def ascending_concat)
  have dm: "d \<in> set (ck_docs (sel ! k))" using i d by auto
  have ck: "pc_ci c \<le> k" using c k dm by (force simp: cursor_before_def not_le)
  have skip: "pk_docids (?src ! j) = [] \<or> last (pk_docids (?src ! j)) < d" if "j < k" for j
  proof -
    have j: "j < length sel" using that k by simp
    show ?thesis using sorted_wrt_nth_less [OF srt that k] dm dk [OF j] by (metis last_in_set)
  qed
  have stop: "\<not> (pk_docids (?src ! k) = [] \<or> last (pk_docids (?src ! k)) < d)"
    using dk [OF k] dm ascending_last [OF asc [OF k] dm] by (auto simp: not_less)
  have n: "length (takeWhile (\<lambda>x. pk_docids x = [] \<or> last (pk_docids x) < d) (drop (pc_ci c) ?src)) = k - pc_ci c"
    using ck k ln skip stop by (intro takeWhile_length_nth) simp_all
  define li where "li = (if k - pc_ci c = 0 then pc_li c else 0)"
  have sc: "seek_chunk d (drop (pc_ci c) ?src) (pc_ci c, pc_li c) = (k, li)"
    using ck by (simp add: seek_chunk_eq n li_def Let_def)
  have le: "li \<le> i"
  proof (rule ccontr)
    assume "\<not> li \<le> i"
    then have "pc_ci c = k" "i < pc_li c" using ck by (auto simp: li_def split: if_splits)
    then have "d \<in> set (take (pc_li c) (ck_docs (sel ! pc_ci c)))" using i d by (auto simp: in_set_conv_nth intro!: exI [of _ i])
    then show False using c k \<open>pc_ci c = k\<close> by (auto simp: cursor_before_def)
  qed
  have "ck_docs (sel ! k) ! j < d" if "j < i" for j
    using sorted_wrt_nth_less [OF asc [OF k] that i] d by simp
  then have "length (takeWhile (\<lambda>x. x < d) (drop li (pk_docids (?src ! k)))) = i - li"
    using le i d dk [OF k] by (intro takeWhile_length_nth) simp_all
  then show ?thesis using sc k ln le by (simp add: cursor_seek_def)
qed

lemma cursor_positions_ok:
  assumes c: "cursor_before h sel d c" and k: "k < length sel" and i: "i < length (ck_docs (sel ! k))" and d: "ck_docs (sel ! k) ! i = d"
  obtains c' where "cursor_positions h (cursor_seek d c) = Inr (ck_poss (sel ! k) ! i, c')"
    and "\<And>d'. d < d' \<Longrightarrow> cursor_before h sel d' c'"
proof -
  let ?c = "c\<lparr>pc_ci := k, pc_li := i\<rparr>" and ?k = "pc_src c ! k" and ?docs = "ck_poss (sel ! k)"
  have s: "cursor_seek d c = ?c" by (rule cursor_seek_ok [OF c k i d])
  have ln: "length (pc_src c) = length sel" and ch: "chunk_read (host_zstd h) True ?k (sel ! k)"
    using c k by (auto simp: cursor_before_def dest: list_all2_lengthD list_all2_nthD2)
  have dk: "pk_docids ?k = ck_docs (sel ! k)" and px: "prx_stored (host_zstd h) (pk_prx ?k) (sel ! k)" using ch by (simp_all add: chunk_read_def)
  have lp: "length ?docs = length (ck_docs (sel ! k))" and cap: "length (concat ?docs) \<le> unat kMaxWindowPositions" using px by (simp_all add: prx_stored_def)
  then have small: "length (concat ?docs) < 2 ^ 32" by (simp add: kMaxWindowPositions_def)
  let ?d = "?c\<lparr>pc_pflat := concat ?docs, pc_poff := 0 # csr_from 0 ?docs, pc_decoded_pos_chunk := Some k\<rparr>"
  have dec: "(if pc_decoded_pos_chunk ?c \<noteq> Some (pc_ci ?c) then
      and_then (read_prx_window_csr (host_zstd h) (source (pk_prx (pc_src ?c ! pc_ci ?c)))) (\<lambda>((pflat, poff), src).
        if length poff \<noteq> length (pk_docids (pc_src ?c ! pc_ci ?c)) + 1 then Corruption
        else Inr (?c\<lparr>pc_pflat := pflat, pc_poff := poff, pc_decoded_pos_chunk := Some (pc_ci ?c)\<rparr>)) else Inr ?c) = Inr ?d"
  proof (cases "pc_decoded_pos_chunk c = Some k")
    case True
    then have "(pc_pflat c, pc_poff c) = csr_of ?docs" using c by (simp add: cursor_before_def)
    with True show ?thesis by (cases c) (simp add: csr_of_def)
  next
    case False
    obtain src where "read_prx_window (host_zstd h) (source (pk_prx ?k)) = Inr (?docs, src)" using px by (auto simp: prx_stored_def)
    then have "read_prx_window_csr (host_zstd h) (source (pk_prx ?k)) = Inr (csr_of ?docs, src)"
      using cap by (simp add: read_prx_window_csr_iff)
    with False show ?thesis by (simp add: csr_of_def dk lp)
  qed
  have "cursor_positions h ?c = Inr (?docs ! i, ?d)"
    using k i ln dk dec csr_span [OF small, of i] lp by (simp add: cursor_positions_def Let_def)
  moreover have "cursor_before h sel d' ?d" if fut: "d < d'" for d'
  proof -
    have asc: "ascending (ck_docs (sel ! k))" and srt: "sorted_wrt (\<lambda>c c'. \<forall>x \<in> set (ck_docs c). \<forall>y \<in> set (ck_docs c'). x < y) sel"
      using c k by (simp_all add: cursor_before_def posting_docs_def ascending_concat)
    have dm: "d \<in> set (ck_docs (sel ! k))" using i d by auto
    have "x < d'" if "j < k" "x \<in> set (ck_docs (sel ! j))" for j x
      using sorted_wrt_nth_less [OF srt that(1) k] that(2) dm fut by (meson order.strict_trans)
    moreover have "x < d'" if "x \<in> set (take i (ck_docs (sel ! k)))" for x
      using that sorted_wrt_nth_less [OF asc] i d fut by (auto simp: in_set_conv_nth) (metis order.strict_trans)
    ultimately show ?thesis using c k by (simp add: cursor_before_def csr_of_def)
  qed
  ultimately show ?thesis using s by (intro that [of ?d]) simp_all
qed

subsection \<open>Phrases\<close>

text \<open>The positions of a term in a document.\<close>

definition positions_in :: "chunk list \<Rightarrow> u32 \<Rightarrow> u32 list" where
  "positions_in cs d =
     (case map_of (concat (map (\<lambda>c. zip (ck_docs c) (ck_poss c)) cs)) d of None \<Rightarrow> [] | Some ps \<Rightarrow> ps)"

definition positions_ok :: "chunk list \<Rightarrow> bool" where
  "positions_ok cs =
     (ascending (posting_docs cs) \<and> (\<forall>c \<in> set cs. length (ck_poss c) = length (ck_docs c) \<and> (\<forall>ps \<in> set (ck_poss c). sorted ps)))"

lemma posting_stored_positions:
  assumes st: "posting_stored z contents region hf True e fb pb cs"
  shows "positions_ok cs"
proof -
  have "\<exists>bs. prx_stored z bs c" if c: "c \<in> set cs" for c
  proof (cases "de_kind e \<noteq> kInline \<and> de_enc e = kWindowed")
    case True
    then obtain cols where w: "windowed_stored z contents region hf True e fb pb cols cs" using st by (auto simp: posting_stored_def)
    obtain k where "k < length cs" "c = cs ! k" using c by (auto simp: in_set_conv_nth)
    with windowed_nth [OF w, of k] windowed_length [OF w] show ?thesis by (auto simp: window_stored_def)
  next
    case False
    with st c show ?thesis by (auto simp: posting_stored_def inline_stored_def slim_stored_def split: if_splits)
  qed
  then show ?thesis using posting_stored_ascending [OF st] by (auto simp: positions_ok_def prx_stored_def)
qed

lemma map_fst_pairs:
  "\<forall>c \<in> set cs. length (ck_poss c) = length (ck_docs c) \<Longrightarrow>
   map fst (concat (map (\<lambda>c. zip (ck_docs c) (ck_poss c)) cs)) = posting_docs cs"
  by (induction cs) (simp_all add: posting_docs_def)

lemma positions_in_nth:
  assumes "positions_ok cs" and c: "c \<in> set cs" and i: "i < length (ck_docs c)"
  shows "positions_in cs (ck_docs c ! i) = ck_poss c ! i"
proof -
  let ?ps = "concat (map (\<lambda>c. zip (ck_docs c) (ck_poss c)) cs)"
  have l: "\<forall>c \<in> set cs. length (ck_poss c) = length (ck_docs c)" and a: "ascending (posting_docs cs)"
    using assms(1) by (simp_all add: positions_ok_def)
  have "distinct (map fst ?ps)" unfolding map_fst_pairs [OF l] using a by (simp add: strict_sorted_iff)
  moreover have "(ck_docs c ! i, ck_poss c ! i) \<in> set ?ps"
    using c i l by (auto simp: set_zip intro!: bexI [of _ c] exI [of _ i])
  ultimately show ?thesis by (simp add: positions_in_def)
qed

lemma positions_in_sorted: "positions_ok cs \<Longrightarrow> sorted (positions_in cs d)"
  by (auto simp: positions_in_def positions_ok_def split: option.splits dest!: map_of_SomeD set_zip_rightD)

lemma positions_in_absent:
  assumes "positions_ok cs" and "d \<notin> set (posting_docs cs)" shows "positions_in cs d = []"
proof -
  let ?ps = "concat (map (\<lambda>c. zip (ck_docs c) (ck_poss c)) cs)"
  have "set (map fst ?ps) = set (posting_docs cs)" using assms(1) by (subst map_fst_pairs) (simp_all add: positions_ok_def)
  then have "map_of ?ps d = None" using assms(2) by (simp only: map_of_eq_None_iff) simp
  then show ?thesis by (simp add: positions_in_def)
qed

definition cursors_before :: "host \<Rightarrow> chunk list list \<Rightarrow> u32 \<Rightarrow> posting_cursor list \<Rightarrow> bool" where
  "cursors_before h sels d cur = list_all2 (\<lambda>sel. cursor_before h sel d) sels cur"

text \<open>The selected chunks of each term hold the candidate.\<close>

lemma cursor_span:
  assumes c: "cursor_before h sel d c" and d: "d \<in> set (posting_docs sel)" and sub: "set sel \<subseteq> set cs" and ok: "positions_ok cs"
  obtains c' where "cursor_positions h (cursor_seek d c) = Inr (positions_in cs d, c')"
    and "\<And>d'. d < d' \<Longrightarrow> cursor_before h sel d' c'"
proof -
  obtain x where x: "x \<in> set sel" "d \<in> set (ck_docs x)" using d by (auto simp: posting_docs_def)
  then obtain k where k: "k < length sel" "sel ! k = x" by (auto simp: in_set_conv_nth)
  obtain i where i: "i < length (ck_docs (sel ! k))" "ck_docs (sel ! k) ! i = d" using x k by (auto simp: in_set_conv_nth)
  have "positions_in cs d = ck_poss (sel ! k) ! i"
    using positions_in_nth [OF ok, of "sel ! k" i] i x(1) k sub by auto
  with cursor_positions_ok [OF c k(1) i] that show ?thesis by metis
qed

lemma spans_of_ok:
  assumes ok: "\<forall>i < length css. positions_ok (css ! i) \<and> set (sels ! i) \<subseteq> set (css ! i) \<and> d \<in> set (posting_docs (sels ! i))"
    and len: "length sels = length css" "length cur0 = length css"
    and c0: "\<forall>i < length css. cursor_before h (sels ! i) d (cur0 ! i)"
  shows "j \<le> length css \<Longrightarrow> length cur = length css \<Longrightarrow>
    (\<forall>i < length css. if i < j then \<forall>d' > d. cursor_before h (sels ! i) d' (cur ! i) else cur ! i = cursor_seek d (cur0 ! i)) \<Longrightarrow>
    \<exists>cur'. spans_of h [j..<length css] cur = Inr (map (\<lambda>i. positions_in (css ! i) d) [j..<length css], cur') \<and>
      length cur' = length css \<and> (\<forall>i < length css. \<forall>d' > d. cursor_before h (sels ! i) d' (cur' ! i))"
proof (induction "length css - j" arbitrary: j cur)
  case 0
  then show ?case by auto
next
  case (Suc n)
  then have j: "j < length css" by simp
  have "cursor_before h (sels ! j) d (cur0 ! j)" "d \<in> set (posting_docs (sels ! j))" "set (sels ! j) \<subseteq> set (css ! j)" "positions_ok (css ! j)"
    using ok c0 j by auto
  then obtain c' where c': "cursor_positions h (cursor_seek d (cur0 ! j)) = Inr (positions_in (css ! j) d, c')"
    "\<And>d'. d < d' \<Longrightarrow> cursor_before h (sels ! j) d' c'" by (rule cursor_span) blast
  have cj: "cur ! j = cursor_seek d (cur0 ! j)" using Suc.prems(3) j by auto
  have nxt: "\<forall>i < length css. if i < Suc j then \<forall>d' > d. cursor_before h (sels ! i) d' (cur[j := c'] ! i)
      else cur[j := c'] ! i = cursor_seek d (cur0 ! i)"
    using Suc.prems(2,3) c'(2) j by (auto simp: nth_list_update less_Suc_eq)
  have n: "n = length css - Suc j" using Suc.hyps(2) by simp
  from Suc.hyps(1) [OF n _ _ nxt] j Suc.prems(2) obtain cur' where
    r: "spans_of h [Suc j..<length css] (cur[j := c']) = Inr (map (\<lambda>i. positions_in (css ! i) d) [Suc j..<length css], cur')"
      "length cur' = length css" "\<forall>i < length css. \<forall>d' > d. cursor_before h (sels ! i) d' (cur' ! i)" by auto
  have up: "[j..<length css] = j # [Suc j..<length css]" using j by (simp add: upt_rec)
  show ?case using r c'(1) by (simp add: up cj)
qed

definition spans_at :: "chunk list list \<Rightarrow> u32 \<Rightarrow> u32 list list" where
  "spans_at css d = map (\<lambda>cs. positions_in cs d) css"

lemma spans_at_upt: "map (\<lambda>i. positions_in (css ! i) d) [0..<length css] = spans_at css d"
  by (rule nth_equalityI) (simp_all add: spans_at_def)

definition sources_ok :: "host \<Rightarrow> chunk list list \<Rightarrow> chunk list list \<Rightarrow> u32 list \<Rightarrow> bool" where
  "sources_ok h css sels cand =
     (length sels = length css \<and> (\<forall>i < length css. positions_ok (css ! i) \<and> set (sels ! i) \<subseteq> set (css ! i) \<and> set cand \<subseteq> set (posting_docs (sels ! i))))"

lemma emit_phrase_ok:
  "sources_ok h css sels cand \<Longrightarrow> ascending cand \<Longrightarrow> length cur = length css \<Longrightarrow>
   \<forall>d \<in> set cand. \<forall>i < length css. cursor_before h (sels ! i) d (cur ! i) \<Longrightarrow>
   emit_phrase h [0..<length css] offs cand cur =
     Inr (filter (\<lambda>d. list_ex (phrase_at (length css) offs (spans_at css d)) (spans_at css d ! 0)) cand)"
proof (induction cand arbitrary: cur)
  case (Cons d cand)
  have "\<forall>i < length css. positions_ok (css ! i) \<and> set (sels ! i) \<subseteq> set (css ! i) \<and> d \<in> set (posting_docs (sels ! i))"
    "length sels = length css" using Cons.prems(1) by (auto simp: sources_ok_def)
  from spans_of_ok [OF this Cons.prems(3), of h 0 "map (cursor_seek d) cur"] Cons.prems(3,4) obtain cur' where
    r: "spans_of h [0..<length css] (map (cursor_seek d) cur) = Inr (spans_at css d, cur')" "length cur' = length css"
      "\<forall>i < length css. \<forall>d' > d. cursor_before h (sels ! i) d' (cur' ! i)"
    unfolding spans_at_upt by auto
  have "\<forall>d' \<in> set cand. \<forall>i < length css. cursor_before h (sels ! i) d' (cur' ! i)" using r(3) Cons.prems(2) by auto
  moreover have "sources_ok h css sels cand" using Cons.prems(1) by (auto simp: sources_ok_def)
  ultimately have "emit_phrase h [0..<length css] offs cand cur' =
     Inr (filter (\<lambda>d. list_ex (phrase_at (length css) offs (spans_at css d)) (spans_at css d ! 0)) cand)"
    using Cons.IH Cons.prems(2) r(2) by simp
  with r(1) show ?case by simp
qed simp

lemma binary_search_mem: "sorted xs \<Longrightarrow> binary_search xs x \<longleftrightarrow> x \<in> set xs"
proof
  assume s: "sorted xs" and "binary_search xs x"
  then have "lower_bound xs x < length xs" "xs ! lower_bound xs x \<le> x" by (simp_all add: binary_search_def Let_def not_less)
  moreover from this have "x \<le> xs ! lower_bound xs x" using lower_bound_spec(3) [OF s, of x "lower_bound xs x"] by simp
  ultimately show "x \<in> set xs" by (metis nth_mem order.antisym)
next
  assume s: "sorted xs" and "x \<in> set xs"
  then obtain i where i: "i < length xs" "xs ! i = x" by (auto simp: in_set_conv_nth)
  have "lower_bound xs x \<le> i" using lower_bound_spec(2) [OF s, of i x] i by (meson less_irrefl not_le)
  moreover from this have "xs ! lower_bound xs x \<le> xs ! i" using i(1) s by (intro sorted_nth_mono)
  ultimately show "binary_search xs x" using i by (simp add: binary_search_def Let_def not_less)
qed

lemma add_position_offset_Some:
  assumes "t < 2 ^ 32"
  shows "add_position_offset start (of_nat t) = Some x \<longleftrightarrow> unat x = unat start + t"
proof -
  have "unat (- 1 - of_nat t :: u32) = 2 ^ 32 - 1 - t"
    using assms unat_sub [of "of_nat t" "- 1 :: u32"] by (simp add: unsigned_minus_1_eq_mask mask_eq_exp_minus_1)
  then have lt: "start > - 1 - of_nat t \<longleftrightarrow> unat start + t \<ge> 2 ^ 32" using assms by (auto simp: word_less_nat_alt)
  show ?thesis
  proof (cases "unat start + t < 2 ^ 32")
    case True
    then have "unat (start + of_nat t) = unat start + t" using assms by (simp add: unat_word_ariths(1))
    then show ?thesis using True lt by (auto simp: add_position_offset_def not_le word_unat_eq_iff)
  next
    case False
    then show ?thesis using lt unat_u32_less [of x] by (simp add: add_position_offset_def not_less)
  qed
qed

lemma phrase_at_iff:
  assumes n: "n < 2 ^ 32" and len: "length offs \<ge> n" and offs: "\<forall>t < n. offs ! t = of_nat t"
    and srt: "\<forall>t < n. sorted (spans ! t)"
  shows "phrase_at n offs spans start \<longleftrightarrow> (\<forall>t \<in> {1..<n}. \<exists>x \<in> set (spans ! t). unat x = unat start + t)"
proof -
  have "(case add_position_offset start (offs ! t) of None \<Rightarrow> False | Some want \<Rightarrow> binary_search (spans ! t) want) \<longleftrightarrow>
      (\<exists>x \<in> set (spans ! t). unat x = unat start + t)" if "t < n" for t
  proof (cases "add_position_offset start (of_nat t)")
    case None
    with that n offs add_position_offset_Some [of t start] show ?thesis by auto
  next
    case (Some a)
    have "unat x = unat start + t \<longleftrightarrow> x = a" for x
      using Some that n add_position_offset_Some [of t start x] by auto
    with Some that offs srt binary_search_mem [of "spans ! t"] show ?thesis by auto
  qed
  then show ?thesis by (auto simp: phrase_at_def list_all_iff)
qed

text \<open>A term occurs at a position of a document; a phrase occurs when its terms do one after the other.\<close>

definition occurs :: "chunk list \<Rightarrow> u32 \<Rightarrow> nat \<Rightarrow> bool" where
  "occurs cs d p = (\<exists>x \<in> set (positions_in cs d). unat x = p)"

lemma phrase_spans:
  assumes ne: "css \<noteq> []" and n: "length css < 2 ^ 32" and len: "length offs \<ge> length css"
    and offs: "\<forall>t < length css. offs ! t = of_nat t" and ok: "\<forall>cs \<in> set css. positions_ok cs"
  shows "list_ex (phrase_at (length css) offs (spans_at css d)) (spans_at css d ! 0) \<longleftrightarrow>
    (\<exists>p. \<forall>i < length css. occurs (css ! i) d (p + i))"
proof -
  let ?s = "spans_at css d"
  have srt: "\<forall>t < length css. sorted (?s ! t)" using ok positions_in_sorted by (simp add: spans_at_def)
  have "list_ex (phrase_at (length css) offs ?s) (?s ! 0) \<longleftrightarrow>
      (\<exists>start \<in> set (?s ! 0). \<forall>t \<in> {1..<length css}. \<exists>x \<in> set (?s ! t). unat x = unat start + t)"
    by (simp add: list_ex_iff phrase_at_iff [OF n len offs srt])
  also have "\<dots> \<longleftrightarrow> (\<exists>p. \<forall>i < length css. occurs (css ! i) d (p + i))"
  proof
    assume "\<exists>start \<in> set (?s ! 0). \<forall>t \<in> {1..<length css}. \<exists>x \<in> set (?s ! t). unat x = unat start + t"
    then obtain start where s: "start \<in> set (?s ! 0)" "\<forall>t \<in> {1..<length css}. \<exists>x \<in> set (?s ! t). unat x = unat start + t" by blast
    have "occurs (css ! i) d (unat start + i)" if "i < length css" for i
      using s that ne by (cases "i = 0") (auto simp: occurs_def spans_at_def)
    then show "\<exists>p. \<forall>i < length css. occurs (css ! i) d (p + i)" by blast
  next
    assume "\<exists>p. \<forall>i < length css. occurs (css ! i) d (p + i)"
    then obtain p where p: "\<forall>i < length css. occurs (css ! i) d (p + i)" by blast
    have "occurs (css ! 0) d p" using p ne by force
    then obtain x where x: "x \<in> set (?s ! 0)" "unat x = p" using ne by (auto simp: occurs_def spans_at_def)
    with p show "\<exists>start \<in> set (?s ! 0). \<forall>t \<in> {1..<length css}. \<exists>x \<in> set (?s ! t). unat x = unat start + t"
      by (intro bexI [of _ x]) (auto simp: occurs_def spans_at_def)
  qed
  finally show ?thesis .
qed

lemma cursor_order_id:
  assumes "map pt_order plans = [0..<length plans]" shows "cursor_order plans = [0..<length plans]"
proof -
  have o: "pt_order (plans ! i) = i" if "i < length plans" for i using assms that by (metis add_0 length_map nth_map nth_upt)
  have "fold (\<lambda>i ordered. ordered[pt_order (plans ! i) := i]) [0..<k] (replicate (length plans) 0) =
      [0..<k] @ replicate (length plans - k) 0" if "k \<le> length plans" for k
    using that
  proof (induction k)
    case (Suc k)
    have "replicate (length plans - k) 0 = 0 # replicate (length plans - Suc k) (0 :: nat)"
      using Suc.prems by (metis Suc_diff_Suc Suc_le_lessD replicate_Suc)
    then show ?case using Suc o [of k] by (simp add: list_update_append)
  qed simp
  from this [of "length plans"] show ?thesis by (simp add: cursor_order_def)
qed

lemma cursor_before_init:
  "list_all2 (chunk_read (host_zstd h) True) src sel \<Longrightarrow> ascending (posting_docs sel) \<Longrightarrow> cursor_before h sel d (cursor_init src)"
  by (simp add: cursor_before_def cursor_init_def)

text \<open>The state before the candidates are streamed.\<close>

lemma sources_selected:
  assumes len: "length srcs = length css" and src: "\<forall>i < length css. source_ok h True (css ! i) (srcs ! i) cand"
    and ok: "\<forall>cs \<in> set css. positions_ok cs"
  obtains sels where "sources_ok h css sels cand"
    and "\<forall>d. \<forall>i < length css. cursor_before h (sels ! i) d (map cursor_init srcs ! i)"
proof -
  obtain sel where s: "list_all2 (chunk_read (host_zstd h) True) (srcs ! i) (sel i)" "set (sel i) \<subseteq> set (css ! i)"
      "ascending (posting_docs (sel i))" "set cand \<subseteq> set (posting_docs (sel i))" if "i < length css" for i
    using src unfolding source_ok_def by metis
  show ?thesis
  proof (rule that [of "map sel [0..<length css]"])
    show "sources_ok h css (map sel [0..<length css]) cand" using s ok by (simp add: sources_ok_def)
    show "\<forall>d. \<forall>i < length css. cursor_before h (map sel [0..<length css] ! i) d (map cursor_init srcs ! i)"
      using s len by (simp add: cursor_before_init)
  qed
qed

definition phrase_docs :: "content \<Rightarrow> term_bytes list \<Rightarrow> u32 set" where
  "phrase_docs pcs ts = {d. \<exists>p. \<forall>i < length ts. occurs (posting_for pcs (ts ! i)) d (p + i)}"

lemma phrase_docs_common:
  assumes ok: "\<forall>cs \<in> set css. positions_ok cs" and "\<forall>i < length css. occurs (css ! i) d (p + i)"
  shows "d \<in> common_docs css {..<length css}"
  using assms positions_in_absent by (fastforce simp: common_docs_def occurs_def)

lemma posting_for_positions:
  assumes "index_holds h contents idx hf True pcs" and "present pcs t"
  shows "positions_ok (posting_for pcs t)"
  by (rule resolve_present [OF assms]) (rule posting_stored_positions)

lemma phrase_query_ok:
  assumes ih: "index_holds h contents idx hf True pcs" and ne: "ts \<noteq> []" and n: "length ts < 2 ^ 32 - 1"
  shows "phrase_query h idx ts = Inr (sorted_list_of_set (phrase_docs pcs ts))"
proof (cases "\<forall>t \<in> set ts. present pcs t")
  case False
  then obtain i where "i < length ts" "\<not> present pcs (ts ! i)" by (auto simp: in_set_conv_nth)
  then have "phrase_docs pcs ts = {}"
    using absent_docs by (fastforce simp: phrase_docs_def occurs_def positions_in_def)
  moreover have "PlanTerms h idx 0 ts True (batch_range_fetcher_new 0) = Inr None"
    using PlanTerms_ok [OF ih, of True "batch_range_fetcher_new 0" ts 0] False by (simp split: if_splits)
  ultimately show ?thesis using ne ih by (simp add: phrase_query_def index_holds_def)
next
  case True
  let ?css = "map (posting_for pcs) ts"
  obtain plans f where p: "PlanTerms h idx 0 ts True (batch_range_fetcher_new 0) = Inr (Some (plans, f))"
    "list_all2 (plan_stored h contents idx hf True True f) plans ?css" "map pt_order plans = [0..<length ts]" "reqs_in contents f"
    using PlanTerms_ok [OF ih, of True "batch_range_fetcher_new 0" ts 0] True by auto
  have h: "host_ok h" "index_over contents idx" "lr_has_positions idx" using ih by (simp_all add: index_holds_def)
  have lp: "length plans = length ts" using p(2) by (auto dest: list_all2_lengthD)
  have pne: "plans \<noteq> []" using lp ne by auto
  obtain f' plans' srcs cand where e: "(if brf_reqs f \<noteq> [] then index_fetch h idx f else Inr f) = Inr f'"
    "OpenPreludes f' plans True = Inr plans'" "map pt_order plans' = map pt_order plans"
    "BuildConjunction h idx f' plans' True = Inr (srcs, cand)" "ascending cand" "set cand = common_docs ?css {..<length ?css}"
    "cand \<noteq> [] \<Longrightarrow> length srcs = length ?css \<and> (\<forall>i < length ?css. source_ok h True (?css ! i) (srcs ! i) cand)"
    by (rule execute_ok [OF h(1,2) _ p(2,4) pne]) simp_all
  have lp': "length plans' = length ts" using arg_cong [OF e(3), of length] lp by simp
  have ok: "\<forall>cs \<in> set ?css. positions_ok cs" using True posting_for_positions [OF ih] by simp
  have sub: "phrase_docs pcs ts \<subseteq> set cand"
    using phrase_docs_common [OF ok] by (auto simp: e(6) phrase_docs_def)
  have st: "BuildPhraseExecutionState h idx f plans = Inr (plans', srcs, cand)"
    using e by (simp add: BuildPhraseExecutionState_def)
  show ?thesis
  proof (cases "cand = []")
    case True
    with sub have "phrase_docs pcs ts = {}" by simp
    then show ?thesis using True ne h(3) p(1) st by (simp add: phrase_query_def ExecutePhrasePlans_def)
  next
    case False
    let ?offs = "map of_nat [0..<length ts] :: u32 list"
    obtain sels where s: "sources_ok h ?css sels cand" "\<forall>d. \<forall>i < length ?css. cursor_before h (sels ! i) d (map cursor_init srcs ! i)"
      using sources_selected [of srcs ?css h cand] e(7) [OF False] ok by metis
    have o: "cursor_order plans' = [0..<length ?css]" using cursor_order_id [of plans'] e(3) p(3) lp' by simp
    have "EmitPhraseStreaming h plans' ?offs srcs cand =
        Inr (filter (\<lambda>d. list_ex (phrase_at (length ?css) ?offs (spans_at ?css d)) (spans_at ?css d ! 0)) cand)"
      unfolding EmitPhraseStreaming_def o using s e(5,7) False by (intro emit_phrase_ok [OF s(1)]) simp_all
    also have "\<dots> = Inr (filter (\<lambda>d. d \<in> phrase_docs pcs ts) cand)"
      using ne n ok by (subst phrase_spans) (simp_all add: phrase_docs_def)
    also have "filter (\<lambda>d. d \<in> phrase_docs pcs ts) cand = sorted_list_of_set (phrase_docs pcs ts)"
    proof -
      have "set (filter (\<lambda>d. d \<in> phrase_docs pcs ts) cand) = phrase_docs pcs ts" using sub by auto
      with ascending_unique [OF sorted_wrt_filter [OF e(5)]] show ?thesis by metis
    qed
    finally show ?thesis using False ne h(3) p(1) st n lp'
      by (simp add: phrase_query_def ExecutePhrasePlans_def build_position_offsets_def)
  qed
qed

subsection \<open>Phrases whose last term is a prefix\<close>

lemma expected_tails_ok:
  "sources_ok h css sels cand \<Longrightarrow> ascending cand \<Longrightarrow> length cur = length css \<Longrightarrow>
   \<forall>d \<in> set cand. \<forall>i < length css. cursor_before h (sels ! i) d (cur ! i) \<Longrightarrow>
   expected_tails h [0..<length css] offs cand cur =
     Inr (filter (\<lambda>x. et_positions x \<noteq> [])
       (map (\<lambda>d. \<lparr>et_docid = d, et_positions = tail_positions (length css) offs (spans_at css d)\<rparr>) cand))"
proof (induction cand arbitrary: cur)
  case (Cons d cand)
  have "\<forall>i < length css. positions_ok (css ! i) \<and> set (sels ! i) \<subseteq> set (css ! i) \<and> d \<in> set (posting_docs (sels ! i))"
    "length sels = length css" using Cons.prems(1) by (auto simp: sources_ok_def)
  from spans_of_ok [OF this Cons.prems(3), of h 0 "map (cursor_seek d) cur"] Cons.prems(3,4) obtain cur' where
    r: "spans_of h [0..<length css] (map (cursor_seek d) cur) = Inr (spans_at css d, cur')" "length cur' = length css"
      "\<forall>i < length css. \<forall>d' > d. cursor_before h (sels ! i) d' (cur' ! i)"
    unfolding spans_at_upt by auto
  have "\<forall>d' \<in> set cand. \<forall>i < length css. cursor_before h (sels ! i) d' (cur' ! i)" using r(3) Cons.prems(2) by auto
  moreover have "sources_ok h css sels cand" using Cons.prems(1) by (auto simp: sources_ok_def)
  ultimately have "expected_tails h [0..<length css] offs cand cur' = Inr (filter (\<lambda>x. et_positions x \<noteq> [])
       (map (\<lambda>d. \<lparr>et_docid = d, et_positions = tail_positions (length css) offs (spans_at css d)\<rparr>) cand))"
    using Cons.IH Cons.prems(2) r(2) by simp
  with r(1) show ?case by (simp add: Let_def)
qed simp

lemma set_map_filter: "x \<in> set (List.map_filter f xs) \<longleftrightarrow> (\<exists>y \<in> set xs. f y = Some x)"
  by (induction xs) (auto simp: List.map_filter_simps split: option.splits)

lemma tail_positions_iff:
  assumes ne: "css \<noteq> []" and n: "length css < 2 ^ 32" and len: "length offs = length css + 1"
    and offs: "\<forall>t \<le> length css. offs ! t = of_nat t" and ok: "\<forall>cs \<in> set css. positions_ok cs"
  shows "x \<in> set (tail_positions (length css) offs (spans_at css d)) \<longleftrightarrow>
    (\<exists>p. (\<forall>i < length css. occurs (css ! i) d (p + i)) \<and> unat x = p + length css)"
proof -
  let ?s = "spans_at css d"
  have srt: "\<forall>t < length css. sorted (?s ! t)" using ok positions_in_sorted by (simp add: spans_at_def)
  have at: "phrase_at (length css) offs ?s start \<longleftrightarrow> (\<forall>t \<in> {1..<length css}. \<exists>x \<in> set (?s ! t). unat x = unat start + t)" for start
    using phrase_at_iff [OF n _ _ srt, of offs start] len offs by simp
  have o: "offs ! length css = of_nat (length css)" using offs by simp
  have "x \<in> set (tail_positions (length css) offs ?s) \<longleftrightarrow>
      (\<exists>start \<in> set (?s ! 0). (\<forall>t \<in> {1..<length css}. \<exists>x \<in> set (?s ! t). unat x = unat start + t) \<and> unat x = unat start + length css)"
    using add_position_offset_Some [OF n] by (auto simp: tail_positions_def set_map_filter at o split: if_splits)
  also have "\<dots> \<longleftrightarrow> (\<exists>p. (\<forall>i < length css. occurs (css ! i) d (p + i)) \<and> unat x = p + length css)" (is "?l = ?r")
  proof
    assume ?l
    then obtain start where s: "start \<in> set (?s ! 0)" "\<forall>t \<in> {1..<length css}. \<exists>x \<in> set (?s ! t). unat x = unat start + t"
      "unat x = unat start + length css" by blast
    have "occurs (css ! i) d (unat start + i)" if "i < length css" for i
      using s that ne by (cases "i = 0") (auto simp: occurs_def spans_at_def)
    with s(3) show ?r by blast
  next
    assume ?r
    then obtain p where p: "\<forall>i < length css. occurs (css ! i) d (p + i)" "unat x = p + length css" by blast
    have "occurs (css ! 0) d p" using p ne by force
    then obtain y where y: "y \<in> set (?s ! 0)" "unat y = p" using ne by (auto simp: occurs_def spans_at_def)
    with p show ?l by (intro bexI [of _ y]) (auto simp: occurs_def spans_at_def)
  qed
  finally show ?thesis .
qed

lemma tail_matches_ok:
  assumes ok: "positions_ok cs" and sub: "set sel \<subseteq> set cs"
  shows "set ds \<subseteq> set (posting_docs sel) \<Longrightarrow> ascending ds \<Longrightarrow> ascending (map et_docid xs) \<Longrightarrow>
    \<forall>d \<in> set ds. cursor_before h sel d c \<Longrightarrow>
    tail_matches h xs ds c = Inr (map et_docid (filter (\<lambda>x. et_docid x \<in> set ds \<and>
      (\<exists>w \<in> set (et_positions x). w \<in> set (positions_in cs (et_docid x)))) xs))"
proof (induction h xs ds c rule: tail_matches.induct)
  case (1 h x xs d ds c)
  consider (lt) "et_docid x < d" | (gt) "d < et_docid x" | (eq) "et_docid x = d" by fastforce
  then show ?case
  proof cases
    case lt
    then have "et_docid x \<notin> set (d # ds)" using "1.prems"(2) by auto
    with lt "1.IH"(1) "1.prems" show ?thesis by simp
  next
    case gt
    have "d \<notin> et_docid ` set (x # xs)" using gt "1.prems"(3) by auto
    then have e: "filter (\<lambda>x. et_docid x \<in> set (d # ds) \<and> (\<exists>w \<in> set (et_positions x). w \<in> set (positions_in cs (et_docid x)))) (x # xs) =
        filter (\<lambda>x. et_docid x \<in> set ds \<and> (\<exists>w \<in> set (et_positions x). w \<in> set (positions_in cs (et_docid x)))) (x # xs)"
      by (intro filter_cong) auto
    have ng: "\<not> et_docid x < d" using gt by simp
    show ?thesis unfolding e using ng gt "1.IH"(2) [OF ng gt] "1.prems" by simp
  next
    case eq
    have c: "cursor_before h sel d c" and d: "d \<in> set (posting_docs sel)" using "1.prems"(1,4) by auto
    obtain c' where c': "cursor_positions h (cursor_seek d c) = Inr (positions_in cs d, c')" "\<And>d'. d < d' \<Longrightarrow> cursor_before h sel d' c'"
      by (rule cursor_span [OF c d sub ok]) blast
    have any: "contains_any_position (et_positions x) (positions_in cs d) \<longleftrightarrow> (\<exists>w \<in> set (et_positions x). w \<in> set (positions_in cs d))"
      using binary_search_mem [OF positions_in_sorted [OF ok]] by (simp add: contains_any_position_def list_ex_iff)
    have "\<forall>y \<in> set xs. d < et_docid y" using "1.prems"(3) eq by auto
    then have f: "filter (\<lambda>x. et_docid x \<in> set (d # ds) \<and> (\<exists>w \<in> set (et_positions x). w \<in> set (positions_in cs (et_docid x)))) xs =
        filter (\<lambda>x. et_docid x \<in> set ds \<and> (\<exists>w \<in> set (et_positions x). w \<in> set (positions_in cs (et_docid x)))) xs"
      by (intro filter_cong) auto
    have "\<forall>d' \<in> set ds. cursor_before h sel d' c'" using c'(2) "1.prems"(2) by simp
    then have "tail_matches h xs ds c' = Inr (map et_docid (filter (\<lambda>x. et_docid x \<in> set ds \<and>
        (\<exists>w \<in> set (et_positions x). w \<in> set (positions_in cs (et_docid x)))) xs))"
      using "1.IH"(3) [of "(positions_in cs d, c')" "positions_in cs d" c'] "1.prems" eq c'(1) by simp
    then show ?thesis unfolding filter.simps f using eq c'(1) any by simp
  qed
qed simp_all

text \<open>Where the exact terms of a phrase stand before a position of a document.\<close>

definition tails_of :: "chunk list list \<Rightarrow> expected_tail list \<Rightarrow> bool" where
  "tails_of css xs =
     (ascending (map et_docid xs) \<and>
      (\<forall>d w. (\<exists>x \<in> set xs. et_docid x = d \<and> w \<in> set (et_positions x)) \<longleftrightarrow>
        (\<exists>p. (\<forall>i < length css. occurs (css ! i) d (p + i)) \<and> unat w = p + length css)))"

lemma execute_resolved:
  assumes h: "host_ok h" "index_over contents idx"
    and st: "list_all2 (\<lambda>r. posting_stored (host_zstd h) contents (posting_region idx) hf True (rp_entry r) (rp_frq_base r) (rp_prx_base r)) rs css"
    and ne: "rs \<noteq> []"
  obtains plans f plans' srcs cand sels where
    "PlanResolvedTerms idx 0 rs True (batch_range_fetcher_new 0) = Inr (plans, f)"
    and "BuildPhraseExecutionState h idx f plans = Inr (plans', srcs, cand)"
    and "length plans' = length css" and "cursor_order plans' = [0..<length css]"
    and "ascending cand" and "set cand = common_docs css {..<length css}"
    and "cand \<noteq> [] \<longrightarrow> length srcs = length css \<and> sources_ok h css sels cand \<and>
      (\<forall>d. \<forall>i < length css. cursor_before h (sels ! i) d (map cursor_init srcs ! i))"
proof -
  have len: "length contents < 2 ^ 64" using h(2) by (simp add: index_over_def)
  have lr: "length rs = length css" using st by (rule list_all2_lengthD)
  obtain plans f where p: "PlanResolvedTerms idx 0 rs True (batch_range_fetcher_new 0) = Inr (plans, f)"
    "list_all2 (plan_stored h contents idx hf True True f) plans css" "map pt_order plans = [0..<length rs]" "reqs_in contents f"
    using PlanResolvedTerms_ok [OF len _ st reqs_in_new, of True 0 0] by auto
  have lp: "length plans = length css" using p(2) by (rule list_all2_lengthD)
  have pne: "plans \<noteq> []" using ne lr lp by auto
  obtain f' plans' srcs cand where e: "(if brf_reqs f \<noteq> [] then index_fetch h idx f else Inr f) = Inr f'"
    "OpenPreludes f' plans True = Inr plans'" "map pt_order plans' = map pt_order plans"
    "BuildConjunction h idx f' plans' True = Inr (srcs, cand)" "ascending cand" "set cand = common_docs css {..<length css}"
    "cand \<noteq> [] \<Longrightarrow> length srcs = length css \<and> (\<forall>i < length css. source_ok h True (css ! i) (srcs ! i) cand)"
    by (rule execute_ok [OF h _ p(2,4) pne]) simp_all
  have lp': "length plans' = length css" using arg_cong [OF e(3), of length] lp by simp
  have o: "cursor_order plans' = [0..<length css]" using cursor_order_id [of plans'] e(3) p(3) lp' lr by simp
  have b: "BuildPhraseExecutionState h idx f plans = Inr (plans', srcs, cand)" using e by (simp add: BuildPhraseExecutionState_def)
  have ok: "\<forall>cs \<in> set css. positions_ok cs"
    using st posting_stored_positions by (fastforce simp: list_all2_conv_all_nth in_set_conv_nth)
  show ?thesis
  proof (cases "cand = []")
    case True
    with p b lp' o e(5,6) show ?thesis by (intro that [of plans f plans' srcs cand "[]"]) simp_all
  next
    case False
    obtain sels where "sources_ok h css sels cand" "\<forall>d. \<forall>i < length css. cursor_before h (sels ! i) d (map cursor_init srcs ! i)"
      using sources_selected [of srcs css h cand] e(7) [OF False] ok by metis
    with p b lp' o e(5-7) False show ?thesis by (intro that [of plans f plans' srcs cand sels]) simp_all
  qed
qed

lemma expected_tails_of:
  assumes ne: "css \<noteq> []" and n: "length css < 2 ^ 32" and ok: "\<forall>cs \<in> set css. positions_ok cs"
    and cand: "ascending cand" "set cand = common_docs css {..<length css}"
  defines "offs \<equiv> map of_nat [0..<length css + 1] :: u32 list"
  shows "tails_of css (filter (\<lambda>x. et_positions x \<noteq> [])
     (map (\<lambda>d. \<lparr>et_docid = d, et_positions = tail_positions (length css) offs (spans_at css d)\<rparr>) cand))"
proof -
  have o: "length offs = length css + 1" "\<forall>t \<le> length css. offs ! t = of_nat t" by (auto simp: offs_def nth_append)
  let ?x = "\<lambda>d. \<lparr>et_docid = d, et_positions = tail_positions (length css) offs (spans_at css d)\<rparr>"
  let ?P = "\<lambda>d. tail_positions (length css) offs (spans_at css d) \<noteq> []"
  have f: "filter (\<lambda>x. et_positions x \<noteq> []) (map ?x cand) = map ?x (filter ?P cand)" by (simp add: filter_map comp_def)
  have "map et_docid (map ?x (filter ?P cand)) = filter ?P cand" by (simp add: comp_def)
  then have "ascending (map et_docid (map ?x (filter ?P cand)))" using sorted_wrt_filter [OF cand(1)] by simp
  moreover have "(\<exists>x \<in> set (map ?x (filter ?P cand)). et_docid x = d \<and> w \<in> set (et_positions x)) \<longleftrightarrow>
        (\<exists>p. (\<forall>i < length css. occurs (css ! i) d (p + i)) \<and> unat w = p + length css)" for d w
    using tail_positions_iff [OF ne n o ok, of w d] phrase_docs_common [OF ok, of d] cand(2) by auto
  ultimately show ?thesis unfolding f tails_of_def by blast
qed

lemma CollectExpectedTailPositions_ok:
  assumes h: "host_ok h" "index_over contents idx"
    and st: "list_all2 (\<lambda>r. posting_stored (host_zstd h) contents (posting_region idx) hf True (rp_entry r) (rp_frq_base r) (rp_prx_base r)) rs css"
    and ne: "rs \<noteq> []" and n: "length rs < 2 ^ 32 - 2"
  obtains xs where "CollectExpectedTailPositions h idx rs = Inr xs" and "tails_of css xs"
proof -
  obtain plans f plans' srcs cand sels where e: "PlanResolvedTerms idx 0 rs True (batch_range_fetcher_new 0) = Inr (plans, f)"
    "BuildPhraseExecutionState h idx f plans = Inr (plans', srcs, cand)" "length plans' = length css"
    "cursor_order plans' = [0..<length css]" "ascending cand" "set cand = common_docs css {..<length css}"
    "cand \<noteq> [] \<longrightarrow> length srcs = length css \<and> sources_ok h css sels cand \<and>
      (\<forall>d. \<forall>i < length css. cursor_before h (sels ! i) d (map cursor_init srcs ! i))"
    by (rule execute_resolved [OF h st ne])
  have lr: "length rs = length css" using st by (rule list_all2_lengthD)
  have ok: "\<forall>cs \<in> set css. positions_ok cs"
    using st posting_stored_positions by (fastforce simp: list_all2_conv_all_nth in_set_conv_nth)
  have cne: "css \<noteq> []" using ne lr by auto
  have cn: "length css < 2 ^ 32" using n lr by simp
  note t = expected_tails_of [OF cne cn ok e(5,6)]
  show ?thesis
  proof (cases "cand = []")
    case True
    with t e that [of "[]"] show ?thesis by (simp add: CollectExpectedTailPositions_def)
  next
    case False
    have "expected_tails h [0..<length css] offs cand (map cursor_init srcs) = Inr (filter (\<lambda>x. et_positions x \<noteq> [])
        (map (\<lambda>d. \<lparr>et_docid = d, et_positions = tail_positions (length css) offs (spans_at css d)\<rparr>) cand))" for offs
      using e(7) False by (intro expected_tails_ok [where sels = sels] e(5)) auto
    with t e(1-4) False n lr that show ?thesis
      by (simp add: CollectExpectedTailPositions_def build_position_offsets_def)
  qed
qed

lemma CollectTailMatches_ok:
  assumes h: "host_ok h" "index_over contents idx"
    and st: "posting_stored (host_zstd h) contents (posting_region idx) hf True (rp_entry r) (rp_frq_base r) (rp_prx_base r) cs"
    and xs: "tails_of css xs"
  obtains ds where "CollectTailMatchesAtExpectedPositions h idx r xs = Inr ds" and "ascending ds"
    and "set ds = {d. \<exists>p. (\<forall>i < length css. occurs (css ! i) d (p + i)) \<and> occurs cs d (p + length css)}"
proof -
  let ?D = "{d. \<exists>p. (\<forall>i < length css. occurs (css ! i) d (p + i)) \<and> occurs cs d (p + length css)}"
  have asc: "ascending (map et_docid xs)" using xs by (simp add: tails_of_def)
  have "d \<in> ?D \<longleftrightarrow> (\<exists>w \<in> set (positions_in cs d). \<exists>p. (\<forall>i < length css. occurs (css ! i) d (p + i)) \<and> unat w = p + length css)" for d
    unfolding occurs_def [of cs] by auto
  also have "\<dots> d \<longleftrightarrow> (\<exists>w \<in> set (positions_in cs d). \<exists>x \<in> set xs. et_docid x = d \<and> w \<in> set (et_positions x))" for d
    using xs by (simp add: tails_of_def)
  finally have D: "?D = {d. \<exists>x \<in> set xs. et_docid x = d \<and> (\<exists>w \<in> set (et_positions x). w \<in> set (positions_in cs d))}"
    by blast
  have ok: "positions_ok cs" by (rule posting_stored_positions [OF st])
  have st1: "list_all2 (\<lambda>r. posting_stored (host_zstd h) contents (posting_region idx) hf True (rp_entry r) (rp_frq_base r) (rp_prx_base r)) [r] [cs]"
    using st by simp
  obtain plans f plans' srcs cand sels where e: "PlanResolvedTerms idx 0 [r] True (batch_range_fetcher_new 0) = Inr (plans, f)"
    "BuildPhraseExecutionState h idx f plans = Inr (plans', srcs, cand)" "ascending cand" "set cand = common_docs [cs] {..<length [cs]}"
    "cand \<noteq> [] \<longrightarrow> length srcs = length [cs] \<and> sources_ok h [cs] sels cand \<and>
      (\<forall>d. \<forall>i < length [cs]. cursor_before h (sels ! i) d (map cursor_init srcs ! i))"
    by (rule execute_resolved [OF h st1]) simp_all
  have cd: "set cand = set (posting_docs cs)" using e(4) by (simp add: common_docs_def lessThan_Suc)
  have DS: "?D \<subseteq> set cand" unfolding D cd using positions_in_absent [OF ok] by fastforce
  show ?thesis
  proof (cases "xs = [] \<or> cand = []")
    case True
    moreover from this have "?D = {}" using D DS by auto
    moreover from True have "CollectTailMatchesAtExpectedPositions h idx r xs = Inr []"
      by (auto simp: CollectTailMatchesAtExpectedPositions_def e(1,2) simp del: PlanResolvedTerms.simps)
    ultimately show ?thesis by (intro that [of "[]"]) auto
  next
    case False
    then have sk: "length srcs = 1" "sources_ok h [cs] sels cand" "\<And>d. cursor_before h (sels ! 0) d (cursor_init (srcs ! 0))"
      using e(5) by auto
    let ?ds = "map et_docid (filter (\<lambda>x. et_docid x \<in> set cand \<and> (\<exists>w \<in> set (et_positions x). w \<in> set (positions_in cs (et_docid x)))) xs)"
    have "tail_matches h xs cand (cursor_init (srcs ! 0)) = Inr ?ds"
      using sk(2,3) by (intro tail_matches_ok [OF ok _ _ e(3) asc, where sel = "sels ! 0"]) (auto simp: sources_ok_def)
    moreover have "ascending ?ds" using asc by (simp add: sorted_wrt_map sorted_wrt_filter)
    moreover have "set ?ds = ?D" using DS unfolding D by auto
    moreover have "CollectTailMatchesAtExpectedPositions h idx r xs = tail_matches h xs cand (cursor_init (srcs ! 0))"
      using False by (simp add: CollectTailMatchesAtExpectedPositions_def e(1,2) del: PlanResolvedTerms.simps)
    ultimately show ?thesis by (intro that [of ?ds]) simp_all
  qed
qed

lemma resolve_exact_ok:
  assumes ih: "index_holds h contents idx hf hp pcs"
  shows "if \<forall>t \<in> set ts. present pcs t
    then \<exists>rs. resolve_exact h idx ts = Inr (Some rs) \<and>
      list_all2 (\<lambda>r. posting_stored (host_zstd h) contents (posting_region idx) hf hp (rp_entry r) (rp_frq_base r) (rp_prx_base r)) rs (map (posting_for pcs) ts)
    else resolve_exact h idx ts = Inr None"
proof (induction ts)
  case (Cons t ts)
  show ?case
  proof (cases "present pcs t")
    case False
    then show ?thesis by (simp add: resolve_absent [OF ih])
  next
    case True
    obtain r where r: "ResolvePhraseTerm h idx t = Inr (Some r)"
      "posting_stored (host_zstd h) contents (posting_region idx) hf hp (rp_entry r) (rp_frq_base r) (rp_prx_base r) (posting_for pcs t)"
      by (rule resolve_present [OF ih True])
    show ?thesis
    proof (cases "\<forall>t \<in> set ts. present pcs t")
      case all: True
      with Cons.IH True r show ?thesis by auto
    next
      case False
      then have "\<not> (\<forall>t' \<in> set (t # ts). present pcs t')" by auto
      then show ?thesis using Cons.IH [unfolded if_not_P [OF False]] r(1) by (simp only: if_not_P) simp
    qed
  qed
qed simp

lemma union_tails_ok:
  assumes h: "host_ok h" "index_over contents idx" and xs: "tails_of css xs"
  shows "\<forall>x \<in> set hits. hit_stored h contents idx hf True x (f x) \<Longrightarrow> ascending acc \<Longrightarrow>
    \<exists>ds. union_tails h idx xs hits acc = Inr ds \<and> ascending ds \<and>
      set ds = set acc \<union> (\<Union>x \<in> set hits. {d. \<exists>p. (\<forall>i < length css. occurs (css ! i) d (p + i)) \<and> occurs (f x) d (p + length css)})"
proof (induction hits arbitrary: acc)
  case (Cons x hits)
  have "posting_stored (host_zstd h) contents (posting_region idx) hf True (rp_entry (hit_posting x)) (rp_frq_base (hit_posting x))
      (rp_prx_base (hit_posting x)) (f x)"
    using Cons.prems(1) by (simp add: hit_stored_def hit_posting_def)
  then obtain ds where d: "CollectTailMatchesAtExpectedPositions h idx (hit_posting x) xs = Inr ds" "ascending ds"
    "set ds = {d. \<exists>p. (\<forall>i < length css. occurs (css ! i) d (p + i)) \<and> occurs (f x) d (p + length css)}"
    by (rule CollectTailMatches_ok [OF h _ xs])
  have u: "ascending (union_sorted_into acc ds)" "set (union_sorted_into acc ds) = set acc \<union> set ds"
    using docids.union_valid [OF Cons.prems(2) d(2)] docids.union_\<alpha> [OF Cons.prems(2) d(2)] by simp_all
  from Cons.IH [OF _ u(1)] Cons.prems(1) d u(2) show ?case by (simp add: Un_assoc)
qed simp

lemma phrase_prefix_query_ok:
  assumes ih: "index_holds h contents idx hf True pcs" and two: "2 \<le> length ts" and n: "length ts < 2 ^ 32 - 1"
  shows "phrase_prefix_query h idx ts =
    Inr (sorted_list_of_set (\<Union>t \<in> {t. present pcs t \<and> prefix (last ts) t}. phrase_docs pcs (butlast ts @ [t])))"
proof -
  let ?css = "map (posting_for pcs) (butlast ts)"
  let ?T = "{t. present pcs t \<and> prefix (last ts) t}"
  let ?hits = "filter (\<lambda>x. prefix (last ts) (ph_term x)) (map fst pcs)"
  have h: "host_ok h" "index_over contents idx" "lr_has_positions idx" using ih by (simp_all add: index_holds_def)
  have ne: "ts \<noteq> []" "length ts \<noteq> 1" "butlast ts \<noteq> []" using two by (auto simp: butlast_conv_take take_eq_Nil)
  have pd: "phrase_docs pcs (butlast ts @ [t]) =
      {d. \<exists>p. (\<forall>i < length ?css. occurs (?css ! i) d (p + i)) \<and> occurs (posting_for pcs t) d (p + length ?css)}" for t
    by (auto simp: phrase_docs_def nth_append nth_butlast All_less_Suc)
  have pt: "prefix_terms h idx (last ts) = Inr ?hits" using ih by (simp add: index_holds_def index_dictionary.prefix_law)
  have T: "ph_term ` set ?hits = ?T" by (auto simp: present_def)
  show ?thesis
  proof (cases "\<forall>t \<in> set (butlast ts). present pcs t")
    case False
    then obtain i where "i < length ?css" "?css ! i = []" using absent_docs by (auto simp: in_set_conv_nth)
    then have "phrase_docs pcs (butlast ts @ [t]) = {}" for t
      unfolding pd by (auto simp: occurs_def positions_in_def intro!: exI [of _ i])
    moreover have "resolve_exact h idx (butlast ts) = Inr None" using resolve_exact_ok [OF ih, of "butlast ts"] False by (simp split: if_splits)
    ultimately show ?thesis using ne h(3) by (simp add: phrase_prefix_query_def)
  next
    case True
    then obtain rs where r: "resolve_exact h idx (butlast ts) = Inr (Some rs)"
      "list_all2 (\<lambda>r. posting_stored (host_zstd h) contents (posting_region idx) hf True (rp_entry r) (rp_frq_base r) (rp_prx_base r)) rs ?css"
      using resolve_exact_ok [OF ih, of "butlast ts"] by auto
    have lr: "length rs = length ts - 1" using r(2) by (auto dest: list_all2_lengthD)
    then have "rs \<noteq> []" "length rs < 2 ^ 32 - 2" using two n by auto
    then obtain xs where xs: "CollectExpectedTailPositions h idx rs = Inr xs" "tails_of ?css xs"
      by (rule CollectExpectedTailPositions_ok [OF h(1,2) r(2)])
    have hs: "\<forall>x \<in> set ?hits. hit_stored h contents idx hf True x (posting_for pcs (ph_term x))"
      using ih docs_for_hit [OF ih] by (auto simp: index_holds_def posting_for_hit [OF ih])
    obtain ds where d: "union_tails h idx xs ?hits [] = Inr ds" "ascending ds"
      "set ds = (\<Union>x \<in> set ?hits. phrase_docs pcs (butlast ts @ [ph_term x]))"
      using union_tails_ok [OF h(1,2) xs(2) hs, of "[]"] unfolding pd by auto
    have sd: "set ds = (\<Union>t \<in> ?T. phrase_docs pcs (butlast ts @ [t]))" unfolding d(3) T [symmetric] by (simp only: image_image)
    have e0: "xs = [] \<Longrightarrow> set ds = {}" using xs(2) unfolding d(3) pd by (auto simp: tails_of_def occurs_def)
    have "phrase_prefix_query h idx ts = Inr ds"
    proof (cases "?hits = [] \<or> xs = []")
      case True
      then have "set ds = {}"
      proof
        assume "?hits = []"
        then show ?thesis unfolding d(3) by (simp only: list.set(1) UN_empty)
      qed (rule e0)
      then have "ds = []" by simp
      with True ne h(3) r(1) pt xs(1) show ?thesis by (auto simp: phrase_prefix_query_def)
    next
      case False
      with ne h(3) r(1) pt xs(1) d(1) show ?thesis by (simp add: phrase_prefix_query_def)
    qed
    then show ?thesis using ascending_unique [OF d(2)] sd by simp
  qed
qed

end
