(* ===== verification/Container_Correct.thy ===== *)
theory Container_Correct
  imports Container_Written Phrase_Correct
begin

text \<open>
  A container from its writer to its reader: any list of valid indexes is written, the file opens, and
  every index in it opens to a reader that holds the postings of its input.
\<close>

definition write_container :: "host \<Rightarrow> snii_index_input list \<Rightarrow> byte list result" where
  "write_container h ins =
     and_then (add_all h ins compound_writer_new) (\<lambda>c. and_then (compound_finish h c) (\<lambda>c. Inr (cw_out c)))"

abbreviation input_key :: "snii_index_input \<Rightarrow> u64 \<times> byte list" where
  "input_key inp \<equiv> (in_index_id inp, in_index_suffix inp)"

definition inputs_ok :: "snii_index_input list \<Rightarrow> bool" where
  "inputs_ok ins =
     ((\<forall>inp \<in> set ins. input_ok inp) \<and> distinct (map input_key ins) \<and> length ins \<le> 2 ^ 16 \<and> all_weight ins \<le> 2 ^ 40)"

subsection \<open>Writing\<close>

lemma sum_list_le:
  "length xs = length ys \<Longrightarrow> (\<And>i. i < length ys \<Longrightarrow> f (xs ! i) \<le> (g (ys ! i) :: nat)) \<Longrightarrow> sum_list (map f xs) \<le> sum_list (map g ys)"
  by (induction xs ys rule: list_induct2) (force intro: add_mono)+

lemma index_placed_meta:
  assumes p: "index_placed h contents inp w p" and ok: "input_ok inp" and wt: "input_weight inp < 2 ^ 48"
  shows "length (finish_meta refs off w) \<le> 2 ^ 17 + 100 * input_weight inp" and "lw_index_id w = in_index_id inp"
    and "lw_index_suffix w = in_index_suffix inp" and "length (lw_index_suffix w) \<le> unat kMaxSuffixLen"
proof -
  obtain out ext G where ib: "index_built h inp out w ext G" using p by (auto simp: index_placed_def)
  then obtain b0 where b: "index_built h inp out w ext G" "blocks_inv h (input_pos inp) b0 w G" "terms_of G = input_terms inp"
    by (auto simp: index_built_def)
  from ib show "lw_index_id w = in_index_id inp" and s: "lw_index_suffix w = in_index_suffix inp" by (simp_all add: index_built_def)
  with ok show sf: "length (lw_index_suffix w) \<le> unat kMaxSuffixLen" by (simp add: input_ok_def)
  show "length (finish_meta refs off w) \<le> 2 ^ 17 + 100 * input_weight inp"
    using length_finish_meta [OF b(2) _ sf, of refs off] wt b(3) by (simp add: input_weight_def)
qed

lemma weight_member: "inp \<in> set ins \<Longrightarrow> input_weight inp \<le> all_weight ins"
  unfolding all_weight_def by (rule member_le_sum_list) simp_all

lemma write_container_ok:
  assumes ho: "host_ok h" and wr: "host_writes h" and ok: "inputs_ok ins"
  obtains out ws ps where
    "write_container h ins = Inr (container_bytes out (tail_meta_region_finish (tail_entries ws ps) []))"
    and "prefix bootstrap_bytes out" and "length ws = length ins" and "length ps = length ins"
    and "\<And>i. i < length ins \<Longrightarrow> index_placed h out (ins ! i) (ws ! i) (ps ! i)"
    and "tail_meta_fits (tail_entries ws ps)"
    and "length (container_bytes out (tail_meta_region_finish (tail_entries ws ps) [])) < 2 ^ 63"
proof -
  have i: "\<forall>inp \<in> set ins. input_ok inp" "length ins \<le> 2 ^ 16" "all_weight ins \<le> 2 ^ 40" using ok by (simp_all add: inputs_ok_def)
  obtain c where a: "add_all h ins compound_writer_new = Inr c" "writer_inv h ins c"
    using add_all_ok [OF ho wr writer_inv_new i(1)] i(3) by auto
  have nf: "\<not> cw_finished c" and boot: "if cw_bootstrap_written c then prefix bootstrap_bytes (cw_out c) else cw_out c = []"
    and l: "length (cw_indexes c) = length ins" "length (cw_placements c) = length ins"
    and laid: "\<forall>i < length ins. index_laid h (cw_out c) (ins ! i) (cw_indexes c ! i) (cw_placements c ! i) \<and>
         pl_norms_len (cw_placements c ! i) = 0 \<and> pl_bsbf_len (cw_placements c ! i) = 0"
    and sz: "length (cw_out c) \<le> 21 + 2048 * all_weight ins"
    using a(2) by (simp_all add: writer_inv_def)
  let ?f = "c\<lparr>cw_finished := True\<rparr>"
  have boot_f: "if cw_bootstrap_written ?f then prefix bootstrap_bytes (cw_out ?f) else cw_out ?f = []" using boot by simp
  obtain out0 where e: "ensure_bootstrap h ?f = Inr (?f\<lparr>cw_bootstrap_written := True, cw_out := out0\<rparr>)"
    "prefix bootstrap_bytes out0" "prefix (cw_out ?f) out0" "length out0 \<le> max 21 (length (cw_out ?f))"
    by (rule ensure_bootstrap_ok [OF wr boot_f])
  let ?c1 = "?f\<lparr>cw_bootstrap_written := True, cw_out := out0\<rparr>"
  have laid1: "\<forall>i < length ins. index_laid h (cw_out ?c1) (ins ! i) (cw_indexes ?c1 ! i) (cw_placements ?c1 ! i) \<and>
         pl_norms_len (cw_placements ?c1 ! i) = 0 \<and> pl_bsbf_len (cw_placements ?c1 ! i) = 0"
    using laid index_laid_prefix [OF _ e(3) [simplified]] by simp
  have l1: "length (cw_indexes ?c1) = length ins" "length (cw_placements ?c1) = length ins" using l by simp_all
  obtain ps sects where nr: "write_norms h ?c1 = Inr (?c1\<lparr>cw_placements := ps, cw_out := cw_out ?c1 @ sects\<rparr>)"
    and np: "length ps = length ins" "length sects \<le> length ins * 2 ^ 34"
      "\<And>i. i < length ins \<Longrightarrow> index_placed h (cw_out ?c1 @ sects) (ins ! i) (cw_indexes ?c1 ! i) (ps ! i)"
    by (rule write_norms_ok [OF wr l1 laid1], rule that)
  have n: "write_norms h ?c1 = Inr (?c1\<lparr>cw_placements := ps, cw_out := out0 @ sects\<rparr>)" "length ps = length ins"
    "length sects \<le> length ins * 2 ^ 34" "\<And>i. i < length ins \<Longrightarrow> index_placed h (out0 @ sects) (ins ! i) (cw_indexes c ! i) (ps ! i)"
    using nr np by simp_all
  let ?ws = "cw_indexes c" and ?out = "out0 @ sects"
  let ?es = "tail_entries ?ws ps"
  have w: "input_weight (ins ! k) < 2 ^ 48" "input_ok (ins ! k)" if "k < length ins" for k
    using weight_member [of "ins ! k" ins] i nth_mem [OF that] by auto
  note m = index_placed_meta [OF n(4) w(2) w(1)]
  have le: "length ?es = length ins" using l n(2) by (simp add: tail_entries_def)
  have es: "?es ! k = \<lparr>tme_index_id = lw_index_id (?ws ! k), tme_suffix = lw_index_suffix (?ws ! k),
      tme_bytes = finish_meta (section_refs_of (ps ! k)) (pl_dict_off (ps ! k)) (?ws ! k)\<rparr>" if "k < length ins" for k
    using that l n(2) by (simp add: tail_entries_def)
  have sf: "\<forall>e \<in> set ?es. length (tme_suffix e) \<le> unat kMaxSuffixLen" using m(4) es le by (auto simp: in_set_conv_nth)
  have "length (blocks_bytes ?es) \<le> sum_list (map (\<lambda>inp. 2 ^ 17 + 100 * input_weight inp) ins)"
    unfolding blocks_bytes_def length_concat map_map
    by (rule sum_list_le [OF le]) (use es m(1) in simp)
  also have "\<dots> \<le> length ins * 2 ^ 17 + 100 * all_weight ins"
    by (induction ins) (simp_all add: all_weight_def)
  finally have lb: "length (blocks_bytes ?es) \<le> 2 ^ 33 + 100 * 2 ^ 40" using i(2,3) by simp
  have "length ?es * (35 + unat kMaxSuffixLen) \<le> 2 ^ 16 * (35 + 2 ^ 16)"
    using i(2) le by (intro mult_le_mono) (simp_all add: kMaxSuffixLen_def)
  then have lt: "length (tail_meta_region_finish ?es []) \<le> 2 ^ 50" using length_tail_region [OF sf] lb by simp
  have lo: "length ?out \<le> 2 ^ 53" using e(4) sz n(3) i(2,3) by simp
  show ?thesis
  proof (rule that)
    show "write_container h ins = Inr (container_bytes ?out (tail_meta_region_finish ?es []))"
      using nf by (simp add: write_container_def a(1) compound_finish_def e(1) n(1) write_tail_ok [OF wr] fw_finalize_writes [OF wr] Let_def)
    show "prefix bootstrap_bytes ?out" using e(2) by (rule prefix_order.trans) simp
    show "tail_meta_fits ?es"
      using le i(2) sf lt by (auto simp: tail_meta_fits_def kMaxSuffixLen_def intro: le_less_trans)
    show "length (container_bytes ?out (tail_meta_region_finish ?es [])) < 2 ^ 63"
      using lo lt by (simp add: container_bytes_def tp_covered_def)
  qed (use l n in simp_all)
qed

subsection \<open>Opening\<close>

lemma read_part:
  assumes "length (pre @ mid @ post) < 2 ^ 64" and "off = of_nat (length pre)" and "n = of_nat (length mid)"
  shows "read_file (pre @ mid @ post) off n = Inr mid"
proof -
  have "unat off = length pre" "unat n = length mid" using assms by simp_all
  then show ?thesis using assms(1) file_image.read_complete [of "pre @ mid @ post" off n] by (simp add: file_slice_def)
qed

lemma segment_open_ok:
  assumes boot: "prefix bootstrap_bytes out" and fits: "tail_meta_fits es" and region: "region = tail_meta_region_finish es []"
    and len: "length (container_bytes out region) < 2 ^ 63"
  shows "segment_open (read_file (container_bytes out region)) (of_nat (length (container_bytes out region))) =
    Inr \<lparr>seg_read_at = read_file (container_bytes out region), seg_meta_region = region,
      seg_region_reader = \<lparr>tmr_region = region, tmr_dir = layout_dir es, tmr_n = of_nat (length es)\<rparr>\<rparr>"
proof -
  let ?tp = "tail_pointer_of out region" and ?C = "container_bytes out region"
  let ?t = "tp_covered ?tp @ le_bytes 4 (crc32c (tp_covered ?tp))"
  have lt: "length ?t = 43" by (simp add: tp_covered_def)
  have C: "?C = out @ region @ ?t" by (simp add: container_bytes_def)
  have lc: "length (out @ region @ ?t) < 2 ^ 63" using len unfolding C .
  obtain out' where o: "out = bootstrap_bytes @ out'" using boot by (auto simp: prefix_def)
  have "read_file ?C 0 21 = Inr bootstrap_bytes"
    using read_part [of "[]" bootstrap_bytes "out' @ region @ ?t" 0 21] lc unfolding C unfolding o by simp
  moreover have "decode_bootstrap_header bootstrap_bytes = Inr (new_bootstrap_header\<lparr>bh_header_length := 21\<rparr>)"
    unfolding bootstrap_bytes_def decode_bootstrap_header_layout by (simp add: new_bootstrap_header_def kMinReaderVersion_def kFormatVersion_def)
  ultimately have 1: "ReadBootstrap (read_file ?C) = Inr (new_bootstrap_header\<lparr>bh_header_length := 21\<rparr>)"
    by (simp add: ReadBootstrap_def kBootstrapHeaderSize_def)
  have "read_file ?C (of_nat (length ?C) - of_nat 43) (of_nat 43) = Inr ?t"
    using read_part [of "out @ region" ?t "[]"] lc lt unfolding C by simp
  moreover have "\<not> (of_nat (length ?C) :: u64) < of_nat 43"
  proof -
    have "unat (of_nat (length ?C) :: u64) = length ?C" using len by simp
    then show ?thesis using lt by (simp add: word_less_nat_alt C)
  qed
  ultimately have 2: "ReadTailPointer (read_file ?C) (of_nat (length ?C)) = Inr ?tp"
    using decode_tail_pointer_layout [of ?tp "crc32c (tp_covered ?tp)"] by (simp add: ReadTailPointer_def tail_pointer_size_def)
  have 3: "read_file ?C (meta_region_offset ?tp) (meta_region_length ?tp) = Inr region"
    using read_part [of out region ?t] lc unfolding C by (simp add: tail_pointer_of_def)
  have "0 < length region" "length region < 2 ^ 64" using lc by (simp_all add: region tail_meta_region_finish_bytes)
  then have 4: "meta_region_length ?tp \<noteq> 0" by (simp add: tail_pointer_of_def word_of_nat_eq_0_iff nat_dvd_not_less)
  have 5: "tail_meta_region_open region = Inr \<lparr>tmr_region = region, tmr_dir = layout_dir es, tmr_n = of_nat (length es)\<rparr>"
    unfolding region by (rule tail_meta_region_open_finish [OF fits])
  have 6: "meta_region_checksum ?tp = crc32c region" by (simp add: tail_pointer_of_def)
  show ?thesis unfolding segment_open_def 1 2 and_then_Inr 3 6 if_not_P [OF 4] 5 by simp
qed


lemma tail_meta_find:
  assumes "tail_meta_fits es"
  shows "tail_meta_region_find \<lparr>tmr_region = tail_meta_region_finish es [], tmr_dir = layout_dir es, tmr_n = n\<rparr> i sf =
    Inr (map_of (map (\<lambda>e. (entry_key e, tme_bytes e)) es) (i, sf))"
proof -
  let ?f = "fields_bytes es"
  let ?pre = "?f @ le_bytes 4 (crc32c ?f)" and ?post = "dir_bytes_of es @ le_bytes 4 (crc32c (region_covered es))"
  have r: "tail_meta_region_finish es [] = ?pre @ blocks_bytes es @ ?post"
    by (simp add: tail_meta_region_finish_bytes region_covered_def)
  have "length (?pre @ blocks_bytes es @ ?post) < 2 ^ 64" using assms unfolding tail_meta_fits_def r by blast
  from layout_find [OF this, of n i sf] show ?thesis unfolding r by (simp add: layout_dir_def)
qed

text \<open>The tier of the reader keeps statistics exactly when the configuration does.\<close>

lemma open_index_placed:
  assumes ho: "host_ok h" and p: "index_placed h contents inp w p" and ok: "input_ok inp" and wt: "input_weight inp < 2 ^ 48"
    and len: "length contents < 2 ^ 63"
    and f: "tail_meta_region_find (seg_region_reader sr) i sf = Inr (Some (finish_meta (section_refs_of p) (pl_dict_off p) w))"
    and r: "seg_read_at sr = read_file contents"
  obtains r pcs where "open_index h sr i sf = Inr r" and "holds_input h contents r inp pcs"
proof -
  obtain out ext G where ib: "index_built h inp out w ext G" and pl: "placed w out ext (section_refs_of p) contents"
    and d: "pl_dict_off p = of_nat (length (out @ ext))" using p by (auto simp: index_placed_def)
  obtain b0 where b: "blocks_inv h (input_pos inp) b0 w G" "terms_of G = input_terms inp" using ib by (auto simp: index_built_def)
  let ?refs = "section_refs_of p" and ?off = "pl_dict_off p"
  let ?m = "meta_of ?refs ?off w"
  have "total_weight (input_pos inp) (terms_of G) < 2 ^ 48" using wt b(2) by (simp add: input_weight_def)
  then have mo: "per_index_meta_open (finish_meta ?refs ?off w) = Inr (meta_reader_of ?m)"
    unfolding finish_meta_of using index_placed_meta(4) [OF p ok wt]
    by (intro per_index_meta_open_finish [OF meta_of_frames [OF b(1)]]) (simp_all add: meta_of_def)
  have norms: "rr_length (sr_norms (pmr_section_refs (meta_reader_of ?m))) > 0 \<longleftrightarrow> has_scoring (in_config inp)"
  proof -
    have "rr_length (sr_norms (pmr_section_refs (meta_reader_of ?m))) = of_nat (length (lw_norms_section w))"
      using pl by (simp add: placed_def meta_reader_of_def meta_of_def)
    moreover have "if has_scoring (in_config inp) then lw_norms_section w \<noteq> [] \<and> length (lw_norms_section w) < 2 ^ 33 else lw_norms_section w = []"
      using ib unfolding index_built_def by blast
    moreover have "(of_nat n :: u64) \<noteq> 0" if "0 < n" "n < 2 ^ 33" for n
      using that by (simp add: word_of_nat_eq_0_iff nat_dvd_not_less)
    ultimately show ?thesis by (auto simp: word_gt_0 split: if_splits)
  qed
  have pos: "(pmr_has_positions (meta_reader_of ?m) \<or> has_scoring (in_config inp)) = input_pos inp"
    using b(1) by (cases "in_config inp") (auto simp: meta_positions blocks_inv_def has_scoring_def has_positions_def)
  define t where "t = (if has_scoring (in_config inp) then kT3 else if input_pos inp then kT2 else kT1)"
  have ts: "tier_has_stats t = input_pos inp"
    by (cases "in_config inp") (simp_all add: t_def tier_has_stats_def has_scoring_def has_positions_def less_eq_index_tier_def)
  obtain rd pcs where o: "logical_index_open h (read_file contents) t (input_pos inp) (finish_meta ?refs ?off w) = Inr rd"
    "holds_input h contents rd inp pcs"
    using open_built [OF ho ib ok pl len wt ts] unfolding d by blast
  have oi: "open_index h sr i sf = Inr rd"
    unfolding open_index_def f and_then_Inr option.case mo Let_def norms pos r t_def [symmetric] by (rule o(1))
  from oi o(2) show ?thesis by (rule that)
qed

text \<open>A container holds its indexes.\<close>

definition container_holds :: "host \<Rightarrow> snii_index_input list \<Rightarrow> byte list \<Rightarrow> segment_reader \<Rightarrow> bool" where
  "container_holds h ins contents sr =
     (segment_open (read_file contents) (of_nat (length contents)) = Inr sr \<and>
      (\<forall>inp \<in> set ins. \<exists>r pcs. open_index h sr (in_index_id inp) (in_index_suffix inp) = Inr r \<and> holds_input h contents r inp pcs) \<and>
      (\<forall>i sf. (i, sf) \<notin> input_key ` set ins \<longrightarrow> open_index h sr i sf = NotFound))"

lemma container_ok:
  assumes ho: "host_ok h" and wr: "host_writes h" and ok: "inputs_ok ins"
  obtains contents sr where "write_container h ins = Inr contents" and "container_holds h ins contents sr"
proof -
  obtain out ws ps where w: "write_container h ins = Inr (container_bytes out (tail_meta_region_finish (tail_entries ws ps) []))"
    and boot: "prefix bootstrap_bytes out" and l: "length ws = length ins" "length ps = length ins"
    and pl: "\<And>i. i < length ins \<Longrightarrow> index_placed h out (ins ! i) (ws ! i) (ps ! i)" and fits: "tail_meta_fits (tail_entries ws ps)"
    and len: "length (container_bytes out (tail_meta_region_finish (tail_entries ws ps) [])) < 2 ^ 63"
    by (rule write_container_ok [OF ho wr ok], rule that)
  let ?es = "tail_entries ws ps"
  let ?region = "tail_meta_region_finish ?es []"
  let ?C = "container_bytes out ?region"
  let ?sr = "\<lparr>seg_read_at = read_file ?C, seg_meta_region = ?region,
      seg_region_reader = \<lparr>tmr_region = ?region, tmr_dir = layout_dir ?es, tmr_n = of_nat (length ?es)\<rparr>\<rparr>"
  have i: "\<forall>inp \<in> set ins. input_ok inp \<and> input_weight inp < 2 ^ 48" "distinct (map input_key ins)"
    using ok weight_member [of _ ins] by (fastforce simp: inputs_ok_def)+
  have wm: "input_ok (ins ! k)" "input_weight (ins ! k) < 2 ^ 48" if "k < length ins" for k using i(1) that by auto
  note m = index_placed_meta(2,3) [OF pl wm(1) wm(2)]
  let ?kv = "map (\<lambda>e. (entry_key e, tme_bytes e)) ?es"
  have kv: "?kv ! k = (input_key (ins ! k), finish_meta (section_refs_of (ps ! k)) (pl_dict_off (ps ! k)) (ws ! k))" if "k < length ins" for k
    using that l m [of k] by (simp add: tail_entries_def entry_key_def)
  have lk: "length ?kv = length ins" using l by (simp add: tail_entries_def)
  have keys: "map fst ?kv = map input_key ins" using kv lk by (auto intro!: nth_equalityI simp: entry_key_def)
  have find: "tail_meta_region_find (seg_region_reader ?sr) j sf = Inr (map_of ?kv (j, sf))" for j sf
    using tail_meta_find [OF fits] by simp
  show ?thesis
  proof (rule that [OF w])
    show "container_holds h ins ?C ?sr"
      unfolding container_holds_def
    proof (intro conjI ballI allI impI)
      show "segment_open (read_file ?C) (of_nat (length ?C)) = Inr ?sr" by (rule segment_open_ok [OF boot fits refl len])
    next
      fix inp assume "inp \<in> set ins"
      then obtain k where k: "k < length ins" "inp = ins ! k" by (auto simp: in_set_conv_nth)
      have "k < length ?kv" unfolding lk by (rule k(1))
      then have "?kv ! k \<in> set ?kv" by (rule nth_mem)
      moreover have "distinct (map fst ?kv)" unfolding keys by (rule i(2))
      ultimately have "map_of ?kv (input_key inp) = Some (finish_meta (section_refs_of (ps ! k)) (pl_dict_off (ps ! k)) (ws ! k))"
        unfolding kv [OF k(1)] k(2) [symmetric] by (intro map_of_is_SomeI)
      moreover have "index_placed h ?C inp (ws ! k) (ps ! k)"
        using index_placed_more [OF pl [OF k(1)]] k(2) unfolding container_bytes_def by simp
      ultimately have f: "tail_meta_region_find (seg_region_reader ?sr) (in_index_id inp) (in_index_suffix inp) =
          Inr (Some (finish_meta (section_refs_of (ps ! k)) (pl_dict_off (ps ! k)) (ws ! k)))"
        and p: "index_placed h ?C inp (ws ! k) (ps ! k)" by (simp_all only: find)
      have wi: "input_ok inp" "input_weight inp < 2 ^ 48" using wm [OF k(1)] k(2) by simp_all
      have ra: "seg_read_at ?sr = read_file ?C" by simp
      show "\<exists>r pcs. open_index h ?sr (in_index_id inp) (in_index_suffix inp) = Inr r \<and> holds_input h ?C r inp pcs"
        by (rule open_index_placed [OF ho p wi len f ra]) (rule exI, rule exI, rule conjI)
    next
      fix j sf assume "(j, sf) \<notin> input_key ` set ins"
      then have "map_of ?kv (j, sf) = None" unfolding map_of_eq_None_iff using keys by (metis list.set_map)
      then show "open_index h ?sr j sf = NotFound" by (simp only: open_index_def find and_then_Inr option.case)
    qed
  qed
qed


subsection \<open>What the inputs say\<close>

definition index_docs :: "snii_index_input \<Rightarrow> term_bytes \<Rightarrow> u32 list" where
  "index_docs inp t = (case find (\<lambda>tp. tp_term tp = t) (input_terms inp) of None \<Rightarrow> [] | Some tp \<Rightarrow> tp_docids tp)"

definition index_positions :: "snii_index_input \<Rightarrow> term_bytes \<Rightarrow> u32 \<Rightarrow> u32 list" where
  "index_positions inp t d =
     (case find (\<lambda>tp. tp_term tp = t) (input_terms inp) of
        None \<Rightarrow> []
      | Some tp \<Rightarrow>
          (case map_of (zip (tp_docids tp) (cut_by (tp_freqs tp) (term_positions tp))) d of None \<Rightarrow> [] | Some ps \<Rightarrow> ps))"

definition index_terms :: "snii_index_input \<Rightarrow> term_bytes set" where
  "index_terms inp = tp_term ` set (input_terms inp)"

text \<open>The documents of a phrase: its terms occur one after the other.\<close>

definition index_phrase :: "snii_index_input \<Rightarrow> term_bytes list \<Rightarrow> u32 set" where
  "index_phrase inp ts = {d. \<exists>p. \<forall>i < length ts. \<exists>x \<in> set (index_positions inp (ts ! i) d). unat x = p + i}"

lemma find_term_ok:
  assumes "input_ok inp" and "find (\<lambda>tp. tp_term tp = t) (input_terms inp) = Some tp"
  shows "term_ok (input_pos inp) tp" and "length (tp_freqs tp) = length (tp_docids tp)"
  using assms by (auto simp: input_ok_def find_Some_iff term_ok_def)

lemma docs_for_input:
  assumes "holds_input h contents r inp pcs" and ok: "input_ok inp"
  shows "docs_for pcs t = index_docs inp t"
  using assms(1) find_term_ok [OF ok, of t] term_chunks_docs
  by (auto simp: docs_for_def holds_input_def postings_of_def index_docs_def posting_docs_def split: option.splits)

lemma present_input: "holds_input h contents r inp pcs \<Longrightarrow> present pcs t \<longleftrightarrow> t \<in> index_terms inp"
  unfolding present_def index_terms_def holds_input_def by (metis image_comp list.set_map)

lemma terms_input: "holds_input h contents r inp pcs \<Longrightarrow> ph_term ` fst ` set pcs = index_terms inp"
  unfolding index_terms_def holds_input_def by (metis image_comp list.set_map)

lemma zip_concat:
  "\<forall>c \<in> set cs. length (f c) = length (g c) \<Longrightarrow>
   concat (map (\<lambda>c. zip (f c) (g c)) cs) = zip (concat (map f cs)) (concat (map g cs))"
  by (induction cs) simp_all

lemma positions_in_input:
  assumes hi: "holds_input h contents r inp pcs" and ok: "input_ok inp" and hp: "input_pos inp"
  shows "positions_in (posting_for pcs t) d = index_positions inp t d"
proof (cases "find (\<lambda>tp. tp_term tp = t) (input_terms inp)")
  case None
  then show ?thesis using hi by (simp add: holds_input_def postings_of_def index_positions_def positions_in_def)
next
  case (Some tp)
  have ih: "index_holds h contents r True True pcs" and p: "posting_for pcs t = term_chunks tp"
    using hi hp Some by (simp_all add: holds_input_def postings_of_def)
  have "t \<in> index_terms inp" using Some by (auto simp: index_terms_def find_Some_iff)
  then have "positions_ok (term_chunks tp)" using posting_for_positions [OF ih, of t] present_input [OF hi] p by simp
  then have "concat (map (\<lambda>c. zip (ck_docs c) (ck_poss c)) (term_chunks tp)) =
      zip (concat (map ck_docs (term_chunks tp))) (concat (map ck_poss (term_chunks tp)))"
    by (intro zip_concat) (simp add: positions_ok_def)
  then show ?thesis
    using Some find_term_ok [OF ok Some] term_chunks_docs [of tp] term_chunks_poss [of tp]
    by (simp add: positions_in_def p index_positions_def posting_docs_def)
qed

lemma phrase_docs_input:
  assumes "holds_input h contents r inp pcs" and "input_ok inp" and "input_pos inp"
  shows "phrase_docs pcs ts = index_phrase inp ts"
  by (simp add: phrase_docs_def index_phrase_def occurs_def positions_in_input [OF assms])


subsection \<open>Queries on a written container\<close>

lemma container_serves_all:
  assumes "host_ok h" and "host_writes h" and ok: "inputs_ok ins"
    and P: "\<And>contents r inp pcs. holds_input h contents r inp pcs \<Longrightarrow> input_ok inp \<Longrightarrow> P inp r"
  shows "\<exists>contents sr. write_container h ins = Inr contents \<and>
    segment_open (read_file contents) (of_nat (length contents)) = Inr sr \<and>
    (\<forall>inp \<in> set ins. \<exists>r. open_index h sr (in_index_id inp) (in_index_suffix inp) = Inr r \<and> P inp r) \<and>
    (\<forall>i sf. (i, sf) \<notin> input_key ` set ins \<longrightarrow> open_index h sr i sf = NotFound)"
proof -
  obtain contents sr where w: "write_container h ins = Inr contents" and c: "container_holds h ins contents sr"
    by (rule container_ok [OF assms(1-3)])
  have "\<exists>r. open_index h sr (in_index_id inp) (in_index_suffix inp) = Inr r \<and> P inp r" if "inp \<in> set ins" for inp
    using c ok that P unfolding container_holds_def inputs_ok_def by blast
  with w c show ?thesis unfolding container_holds_def by blast
qed

lemma container_serves:
  assumes "host_ok h" and "host_writes h" and "inputs_ok ins"
    and "\<And>contents r inp pcs. holds_input h contents r inp pcs \<Longrightarrow> input_ok inp \<Longrightarrow> P inp r"
  shows "\<exists>contents sr. write_container h ins = Inr contents \<and>
    segment_open (read_file contents) (of_nat (length contents)) = Inr sr \<and>
    (\<forall>inp \<in> set ins. \<exists>r. open_index h sr (in_index_id inp) (in_index_suffix inp) = Inr r \<and> P inp r)"
  using container_serves_all [of h ins P] assms by blast

lemmas index_holds_input = holds_input_def [THEN iffD1, THEN conjunct1]

text \<open>C1: from the inputs to the answers. Whatever valid indexes are added, the container is written and
  opens, every index is found under its key and any other key is reported as not found, and a term
  query returns exactly the document ids the input lists for the term (none for an absent term).\<close>

theorem container_term_queries:
  assumes "host_ok h" and "host_writes h" and "inputs_ok ins"
  shows "\<exists>contents sr. write_container h ins = Inr contents \<and>
    segment_open (read_file contents) (of_nat (length contents)) = Inr sr \<and>
    (\<forall>inp \<in> set ins. \<exists>r. open_index h sr (in_index_id inp) (in_index_suffix inp) = Inr r \<and>
      (\<forall>t. term_query h r t = Inr (index_docs inp t))) \<and>
    (\<forall>i sf. (i, sf) \<notin> (\<lambda>inp. (in_index_id inp, in_index_suffix inp)) ` set ins \<longrightarrow> open_index h sr i sf = NotFound)"
proof (rule container_serves_all [OF assms])
  fix contents r inp pcs assume hi: "holds_input h contents r inp pcs" "input_ok inp"
  show "\<forall>t. term_query h r t = Inr (index_docs inp t)"
    using term_query_ok [OF index_holds_input [OF hi(1)]] docs_for_input [OF hi] by simp
qed

text \<open>C3: boolean queries on a written container: a disjunction returns, in ascending order, the union of
  the document ids of its terms, a conjunction their intersection, however the postings are stored
  (inline, one window or many).\<close>

theorem container_boolean_queries:
  assumes "host_ok h" and "host_writes h" and "inputs_ok ins"
  shows "\<exists>contents sr. write_container h ins = Inr contents \<and>
    segment_open (read_file contents) (of_nat (length contents)) = Inr sr \<and>
    (\<forall>inp \<in> set ins. \<exists>r. open_index h sr (in_index_id inp) (in_index_suffix inp) = Inr r \<and>
      (\<forall>ts sink. boolean_or h r ts sink = Inr (sink @ sorted_list_of_set (\<Union>t \<in> set ts. set (index_docs inp t)))) \<and>
      (\<forall>ts. ts \<noteq> [] \<longrightarrow> boolean_and h r ts = Inr (sorted_list_of_set (\<Inter>t \<in> set ts. set (index_docs inp t)))))"
proof -
  let ?P = "\<lambda>inp r. (\<forall>ts sink. boolean_or h r ts sink = Inr (sink @ sorted_list_of_set (\<Union>t \<in> set ts. set (index_docs inp t)))) \<and>
      (\<forall>ts. ts \<noteq> [] \<longrightarrow> boolean_and h r ts = Inr (sorted_list_of_set (\<Inter>t \<in> set ts. set (index_docs inp t))))"
  have p: "?P inp r" if hi: "holds_input h contents r inp pcs" "input_ok inp" for contents r inp pcs
    using boolean_or_ok [OF index_holds_input [OF hi(1)]] boolean_and_ok [OF index_holds_input [OF hi(1)]] docs_for_input [OF hi] by simp
  show ?thesis by (rule container_serves [of h ins ?P, OF assms]) (rule p)
qed

text \<open>C4: expanding queries on a written container: a prefix query returns the documents of the terms with
  the prefix, a wildcard query those of the terms its pattern matches (\<open>*\<close> any bytes, \<open>?\<close> one byte).\<close>

theorem container_expanding_queries:
  assumes "host_ok h" and "host_writes h" and "inputs_ok ins"
  shows "\<exists>contents sr. write_container h ins = Inr contents \<and>
    segment_open (read_file contents) (of_nat (length contents)) = Inr sr \<and>
    (\<forall>inp \<in> set ins. \<exists>r. open_index h sr (in_index_id inp) (in_index_suffix inp) = Inr r \<and>
      (\<forall>pre sink. prefix_query h r pre sink =
         Inr (sink @ sorted_list_of_set (\<Union>t \<in> {t \<in> index_terms inp. prefix pre t}. set (index_docs inp t)))) \<and>
      (\<forall>pattern sink. wildcard_query h r pattern sink =
         Inr (sink @ sorted_list_of_set (\<Union>t \<in> {t \<in> index_terms inp. wildcard_lang pattern t}. set (index_docs inp t)))))"
proof -
  let ?P = "\<lambda>inp r. (\<forall>pre sink. prefix_query h r pre sink =
         Inr (sink @ sorted_list_of_set (\<Union>t \<in> {t \<in> index_terms inp. prefix pre t}. set (index_docs inp t)))) \<and>
      (\<forall>pattern sink. wildcard_query h r pattern sink =
         Inr (sink @ sorted_list_of_set (\<Union>t \<in> {t \<in> index_terms inp. wildcard_lang pattern t}. set (index_docs inp t))))"
  have p: "?P inp r" if hi: "holds_input h contents r inp pcs" "input_ok inp" for contents r inp pcs
    using prefix_query_ok [OF index_holds_input [OF hi(1)]] wildcard_query_ok [OF index_holds_input [OF hi(1)]]
    by (simp add: docs_for_input [OF hi] terms_input [OF hi(1)])
  show ?thesis by (rule container_serves [of h ins ?P, OF assms]) (rule p)
qed


text \<open>C2: phrase queries on a written container with positions: a phrase query returns the documents in
  which the terms occur at consecutive positions of the input, and a phrase-prefix query those in which
  some term that extends the last one does.\<close>

theorem container_phrase_queries:
  assumes "host_ok h" and "host_writes h" and "inputs_ok ins"
  shows "\<exists>contents sr. write_container h ins = Inr contents \<and>
    segment_open (read_file contents) (of_nat (length contents)) = Inr sr \<and>
    (\<forall>inp \<in> set ins. \<exists>r. open_index h sr (in_index_id inp) (in_index_suffix inp) = Inr r \<and>
      (has_positions (in_config inp) \<longrightarrow>
        (\<forall>ts. ts \<noteq> [] \<and> length ts < 2 ^ 32 - 1 \<longrightarrow> phrase_query h r ts = Inr (sorted_list_of_set (index_phrase inp ts))) \<and>
        (\<forall>ts. 2 \<le> length ts \<and> length ts < 2 ^ 32 - 1 \<longrightarrow> phrase_prefix_query h r ts =
           Inr (sorted_list_of_set (\<Union>t \<in> {t \<in> index_terms inp. prefix (last ts) t}. index_phrase inp (butlast ts @ [t]))))))"
proof -
  let ?P = "\<lambda>inp r. has_positions (in_config inp) \<longrightarrow>
        (\<forall>ts. ts \<noteq> [] \<and> length ts < 2 ^ 32 - 1 \<longrightarrow> phrase_query h r ts = Inr (sorted_list_of_set (index_phrase inp ts))) \<and>
        (\<forall>ts. 2 \<le> length ts \<and> length ts < 2 ^ 32 - 1 \<longrightarrow> phrase_prefix_query h r ts =
           Inr (sorted_list_of_set (\<Union>t \<in> {t \<in> index_terms inp. prefix (last ts) t}. index_phrase inp (butlast ts @ [t]))))"
  have p: "?P inp r" if hi: "holds_input h contents r inp pcs" "input_ok inp" for contents r inp pcs
  proof (intro impI)
    assume hp: "has_positions (in_config inp)"
    then have ih: "index_holds h contents r True True pcs" using index_holds_input [OF hi(1)] by simp
    show "(\<forall>ts. ts \<noteq> [] \<and> length ts < 2 ^ 32 - 1 \<longrightarrow> phrase_query h r ts = Inr (sorted_list_of_set (index_phrase inp ts))) \<and>
        (\<forall>ts. 2 \<le> length ts \<and> length ts < 2 ^ 32 - 1 \<longrightarrow> phrase_prefix_query h r ts =
           Inr (sorted_list_of_set (\<Union>t \<in> {t \<in> index_terms inp. prefix (last ts) t}. index_phrase inp (butlast ts @ [t]))))"
      using phrase_query_ok [OF ih] phrase_prefix_query_ok [OF ih]
      by (simp add: phrase_docs_input [OF hi hp] present_input [OF hi(1)])
  qed
  show ?thesis by (rule container_serves [of h ins ?P, OF assms]) (rule p)
qed

subsection \<open>A sample\<close>

text \<open>Two documents: \<open>a b\<close> and \<open>a\<close>.\<close>

definition sample_term :: "term_bytes \<Rightarrow> u32 list \<Rightarrow> u32 list \<Rightarrow> term_postings" where
  "sample_term t docs poss =
     \<lparr>tp_term = t, tp_docids = docs, tp_freqs = map (\<lambda>_. 1) docs, tp_positions_flat = poss, tp_pos_pump = None, tp_pos_total = 0\<rparr>"

definition sample_input :: snii_index_input where
  "sample_input =
     \<lparr>in_index_id = 7, in_index_suffix = [], in_config = kDocsPositions, in_doc_count = 2, in_encoded_norms = [],
      in_terms = [sample_term [97] [0, 1] [0, 0], sample_term [98] [0] [1]], in_term_source = None,
      in_target_dict_block_bytes = 0, in_mem_reporter = None\<rparr>"

lemma sample_terms: "input_terms sample_input = [sample_term [97] [0, 1] [0, 0], sample_term [98] [0] [1]]"
  by (simp add: input_terms_def sample_input_def)

lemma sample_term_ok:
  assumes "length docs = length poss" "sorted_wrt (<) docs" "length docs < 10" "length t \<le> 10"
  shows "term_ok True (sample_term t docs poss)"
proof -
  have f: "freq_sum (map (\<lambda>_. 1) xs) = length xs" for xs :: "u32 list" by (induction xs) simp_all
  have c: "\<forall>doc \<in> set (cut_by (map (\<lambda>_. 1) xs) ps). sorted doc" for xs :: "u32 list" and ps :: "u32 list"
    by (induction xs arbitrary: ps) (auto simp: sorted_wrt01 take_Suc intro: sorted_wrt01)
  have "term_windows (sample_term t docs poss) = [(docs, map (\<lambda>_. 1) docs)]"
    using assms(3) by (simp add: term_windows_def windowed_term_def sample_term_def kSlimDfThreshold_def)
  then show ?thesis using assms f c by (simp add: term_ok_def positions_fit_def term_positions_def sample_term_def)
qed

lemma sample_inputs_ok: "inputs_ok [sample_input]"
proof -
  have "term_ok True (sample_term [97] [0, 1] [0, 0])" "term_ok True (sample_term [98] [0] [1])"
    by (rule sample_term_ok; simp)+
  moreover have "all_weight [sample_input] \<le> 2 ^ 40"
    by (simp add: all_weight_def input_weight_def total_weight_def sample_terms term_weight_def term_positions_def sample_term_def)
  ultimately show ?thesis
    by (simp add: inputs_ok_def input_ok_def sample_terms) (simp add: sample_input_def has_positions_def has_scoring_def sample_term_def)
qed

lemma sample_docs: "index_docs sample_input [97] = [0, 1]" "index_docs sample_input [98] = [0]" "index_terms sample_input = {[97], [98]}"
  by (simp_all add: index_docs_def index_terms_def sample_terms sample_term_def)

lemma sample_phrase: "index_phrase sample_input [[97], [98]] = {0}"
  by (auto simp: index_phrase_def index_positions_def sample_terms sample_term_def term_positions_def less_Suc_eq All_less_Suc2 split: if_splits)


theorem container_term_queries_witness:
  "\<exists>contents sr r. write_container plain_host [sample_input] = Inr contents \<and>
    segment_open (read_file contents) (of_nat (length contents)) = Inr sr \<and> open_index plain_host sr 7 [] = Inr r \<and>
    term_query plain_host r [97] = Inr [0, 1] \<and> open_index plain_host sr 8 [] = NotFound"
  using container_term_queries [OF plain_host_ok sample_inputs_ok] sample_docs by (auto simp: sample_input_def)

theorem container_boolean_queries_witness:
  "\<exists>contents sr r. write_container plain_host [sample_input] = Inr contents \<and>
    segment_open (read_file contents) (of_nat (length contents)) = Inr sr \<and> open_index plain_host sr 7 [] = Inr r \<and>
    boolean_or plain_host r [[97], [98]] [] = Inr [0, 1] \<and> boolean_and plain_host r [[97], [98]] = Inr [0]"
proof -
  have k: "in_index_id sample_input = 7" "in_index_suffix sample_input = []" by (simp_all add: sample_input_def)
  have "sorted_list_of_set {0 :: u32, 1} = [0, 1]" "sorted_list_of_set ({0 :: u32, 1} \<inter> {0}) = [0]" by (simp_all add: insort_insert_insort)
  then show ?thesis
    using container_boolean_queries [OF plain_host_ok sample_inputs_ok] by (fastforce simp: sample_docs k)
qed

theorem container_expanding_queries_witness:
  "\<exists>contents sr r. write_container plain_host [sample_input] = Inr contents \<and>
    segment_open (read_file contents) (of_nat (length contents)) = Inr sr \<and> open_index plain_host sr 7 [] = Inr r \<and>
    prefix_query plain_host r [98] [] = Inr [0]"
proof -
  have k: "in_index_id sample_input = 7" "in_index_suffix sample_input = []" by (simp_all add: sample_input_def)
  have "{t \<in> index_terms sample_input. prefix [98] t} = {[98]}" by (auto simp: sample_docs)
  then show ?thesis
    using container_expanding_queries [OF plain_host_ok sample_inputs_ok] by (fastforce simp: sample_docs k)
qed


theorem container_phrase_queries_witness:
  "\<exists>contents sr r. write_container plain_host [sample_input] = Inr contents \<and>
    segment_open (read_file contents) (of_nat (length contents)) = Inr sr \<and> open_index plain_host sr 7 [] = Inr r \<and>
    phrase_query plain_host r [[97], [98]] = Inr [0]"
proof -
  have k: "in_index_id sample_input = 7" "in_index_suffix sample_input = []" "has_positions (in_config sample_input)"
    by (simp_all add: sample_input_def has_positions_def)
  show ?thesis
    using container_phrase_queries [OF plain_host_ok sample_inputs_ok] by (fastforce simp: sample_phrase k)
qed

end
