(* ===== verification/Null_Bitmap.thy ===== *)
theory Null_Bitmap
  imports Section_Framer Format_Constants
begin

text \<open>
  The bitmap of NULL documents: \<open>src/core/src/format/null_bitmap.cpp\<close>. CRoaring is a parameter,
  a record of the operations the module calls on a bitmap type \<open>'b\<close>; \<open>roaring_spec\<close> states its
  documented behaviour (membership after \<open>add\<close>, cardinality, and that the portable form it
  writes is accepted by its own size probe and read back with the same members).
\<close>

record 'b roaring_lib =
  Roaring_new :: 'b
  Roaring_add :: "u32 \<Rightarrow> 'b \<Rightarrow> 'b"
  Roaring_contains :: "'b \<Rightarrow> u32 \<Rightarrow> bool"
  Roaring_cardinality :: "'b \<Rightarrow> u64"
  Roaring_getSizeInBytes :: "'b \<Rightarrow> nat"
  Roaring_write :: "'b \<Rightarrow> byte list"
  roaring_bitmap_portable_deserialize_size :: "byte list \<Rightarrow> nat"
  Roaring_readSafe :: "byte list \<Rightarrow> 'b"

definition roaring_spec :: "'b roaring_lib \<Rightarrow> bool" where
  "roaring_spec R \<longleftrightarrow>
     (\<forall>d. \<not> Roaring_contains R (Roaring_new R) d) \<and>
     (\<forall>b d d'. Roaring_contains R (Roaring_add R d b) d' = (d' = d \<or> Roaring_contains R b d')) \<and>
     (\<forall>b. unat (Roaring_cardinality R b) = card {d. Roaring_contains R b d}) \<and>
     (\<forall>b. 0 < Roaring_getSizeInBytes R b \<and> Roaring_getSizeInBytes R b < 2 ^ 32 + 2 ^ 20 \<and>
        length (Roaring_write R b) = Roaring_getSizeInBytes R b \<and>
        roaring_bitmap_portable_deserialize_size R (Roaring_write R b) = Roaring_getSizeInBytes R b) \<and>
     (\<forall>b d. Roaring_contains R (Roaring_readSafe R (Roaring_write R b)) d = Roaring_contains R b d)"

definition kNullBitmapSectionType :: byte where "kNullBitmapSectionType = 0x20"

type_synonym 'b null_bitmap_writer = 'b

record 'b null_bitmap_reader =
  nbr_bitmap :: 'b
  nbr_doc_count :: u32

definition null_bitmap_writer :: "'b roaring_lib \<Rightarrow> 'b null_bitmap_writer" where
  "null_bitmap_writer R = Roaring_new R"

definition add_null :: "'b roaring_lib \<Rightarrow> u32 \<Rightarrow> 'b null_bitmap_writer \<Rightarrow> 'b null_bitmap_writer" where
  "add_null R docid w = Roaring_add R docid w"

definition writer_null_count :: "'b roaring_lib \<Rightarrow> 'b null_bitmap_writer \<Rightarrow> u32" where
  "writer_null_count R w = ucast (Roaring_cardinality R w)"

definition null_bitmap_finish ::
  "'b roaring_lib \<Rightarrow> 'b null_bitmap_writer \<Rightarrow> u32 \<Rightarrow> byte_sink \<Rightarrow> byte_sink" where
  "null_bitmap_finish R w doc_count sink =
     (let roaring_size = Roaring_getSizeInBytes R w;
          roaring_buf = Roaring_write R w;
          payload = put_varint64 (ucast doc_count) [];
          payload = put_varint64 (of_nat roaring_size) payload;
          payload = put_bytes roaring_buf payload
      in framer_write sink kNullBitmapSectionType payload)"

definition null_bitmap_open :: "'b roaring_lib \<Rightarrow> byte list \<Rightarrow> 'b null_bitmap_reader result" where
  "null_bitmap_open R framed =
     and_then (framer_read (source framed)) (\<lambda>(sec, src).
     let payload = source (sec_payload sec) in
     and_then (get_varint64 payload) (\<lambda>(doc_count, payload).
     if doc_count > 0xFFFFFFFF then Corruption
     else
       and_then (get_varint64 payload) (\<lambda>(roaring_size, payload).
       if unat roaring_size > remaining payload then Corruption
       else
         and_then (get_bytes (unat roaring_size) payload) (\<lambda>(roaring_bytes, payload).
         let probed = roaring_bitmap_portable_deserialize_size R roaring_bytes in
         if probed = 0 \<or> probed \<noteq> unat roaring_size then Corruption
         else Inr \<lparr>nbr_bitmap = Roaring_readSafe R roaring_bytes, nbr_doc_count = ucast doc_count\<rparr>))))"

definition is_null :: "'b roaring_lib \<Rightarrow> 'b null_bitmap_reader \<Rightarrow> u32 \<Rightarrow> bool" where
  "is_null R r docid = Roaring_contains R (nbr_bitmap r) docid"

definition reader_null_count :: "'b roaring_lib \<Rightarrow> 'b null_bitmap_reader \<Rightarrow> u32" where
  "reader_null_count R r = ucast (Roaring_cardinality R (nbr_bitmap r))"

subsection \<open>Round trip\<close>

definition add_nulls :: "'b roaring_lib \<Rightarrow> u32 list \<Rightarrow> 'b null_bitmap_writer" where
  "add_nulls R docids = fold (add_null R) docids (null_bitmap_writer R)"

lemma contains_fold_add:
  "roaring_spec R \<Longrightarrow>
   Roaring_contains R (fold (add_null R) docids b) d = (d \<in> set docids \<or> Roaring_contains R b d)"
  by (induction docids arbitrary: b) (auto simp: add_null_def roaring_spec_def)

lemma contains_add_nulls:
  "roaring_spec R \<Longrightarrow> Roaring_contains R (add_nulls R docids) d = (d \<in> set docids)"
  by (simp add: add_nulls_def contains_fold_add null_bitmap_writer_def) (simp add: roaring_spec_def)

lemma writer_null_count_card:
  assumes "roaring_spec R"
  shows "writer_null_count R (add_nulls R docids) = of_nat (card (set docids))"
proof -
  have "unat (Roaring_cardinality R (add_nulls R docids)) = card (set docids)"
    using assms by (simp add: roaring_spec_def contains_add_nulls [OF assms])
  then show ?thesis
    by (metis writer_null_count_def of_nat_unat)
qed

lemma null_bitmap_roundtrip:
  assumes R: "roaring_spec R"
  obtains r where "null_bitmap_open R (null_bitmap_finish R w doc_count []) = Inr r"
    and "nbr_doc_count r = doc_count" and "\<And>d. is_null R r d = Roaring_contains R w d"
proof -
  let ?n = "Roaring_getSizeInBytes R w"
  let ?p = "encode_varint64 (ucast doc_count) @ encode_varint64 (of_nat ?n) @ Roaring_write R w"
  from R have n: "0 < ?n" "?n < 2 ^ 32 + 2 ^ 20" "length (Roaring_write R w) = ?n"
    "roaring_bitmap_portable_deserialize_size R (Roaring_write R w) = ?n"
    by (auto simp: roaring_spec_def)
  then have un: "unat (of_nat ?n :: u64) = ?n" by simp
  have "varint_len (ucast doc_count) \<le> 10" "varint_len (of_nat ?n) \<le> 10"
    by (rule varint_len_le_10)+
  with n have len: "length ?p < 2 ^ 64" by (simp flip: varint_len_encode)
  have le: "\<not> 0xFFFFFFFF < (ucast doc_count :: u64)"
    using unat_u32_less [of doc_count] by (simp add: word_less_nat_alt)
  have uc: "ucast (ucast doc_count :: u64) = doc_count"
    by (rule bit_word_eqI) (auto simp: bit_simps)
  have "null_bitmap_finish R w doc_count [] = frame_bytes kNullBitmapSectionType ?p"
    by (simp add: null_bitmap_finish_def put_simps Let_def)
  then have "null_bitmap_open R (null_bitmap_finish R w doc_count []) =
     Inr \<lparr>nbr_bitmap = Roaring_readSafe R (Roaring_write R w), nbr_doc_count = doc_count\<rparr>"
    unfolding null_bitmap_open_def by (simp only: framer_read_source [OF len])
      (use n un le uc in \<open>simp add: codec_simps remaining_rest Let_def\<close>)
  then show ?thesis
    by (rule that) (use R in \<open>simp_all add: is_null_def roaring_spec_def\<close>)
qed

lemma null_bitmap_open_safe: "null_bitmap_open R framed \<noteq> Inl OutOfBounds"
  by (auto simp: null_bitmap_open_def Let_def and_then_eq_Inl split: if_splits
      dest: get_varint64_error framer.safe [OF wf_source_source, THEN notE]
        bytes.safe [OF varint64.wf_after [OF varint64.wf_after [OF wf_source_source]], THEN notE])

subsection \<open>The specification can hold\<close>

text \<open>A bitmap as the characteristic function of its members, written as one byte per docid.\<close>

definition doc_space :: nat where "doc_space = 2 ^ 32"

definition flat_roaring :: "(u32 \<Rightarrow> bool) roaring_lib" where
  "flat_roaring =
     \<lparr>Roaring_new = (\<lambda>_. False), Roaring_add = (\<lambda>d b. b(d := True)), Roaring_contains = (\<lambda>b d. b d),
      Roaring_cardinality = (\<lambda>b. of_nat (card {d. b d})),
      Roaring_getSizeInBytes = (\<lambda>b. doc_space),
      Roaring_write = (\<lambda>b. map (\<lambda>i. if b (of_nat i) then 1 else 0) [0..<doc_space]),
      roaring_bitmap_portable_deserialize_size = length,
      Roaring_readSafe = (\<lambda>s d. s ! unat d = 1)\<rparr>"

lemma flat_roaring_spec: "roaring_spec flat_roaring"
proof -
  have "unat (d :: u32) < doc_space" for d using unat_u32_less [of d] by (simp add: doc_space_def)
  moreover have "card {d :: u32. b d} < 2 ^ 64" for b
  proof -
    have "card {d :: u32. b d} \<le> card (UNIV :: u32 set)" by (intro card_mono) auto
    then show ?thesis by (simp add: card_word)
  qed
  then have "unat (of_nat (card {d :: u32. b d}) :: u64) = card {d. b d}" for b by simp
  moreover have "0 < doc_space" "doc_space < 2 ^ 32 + 2 ^ 20" by (simp_all add: doc_space_def)
  ultimately show ?thesis
    unfolding roaring_spec_def flat_roaring_def by auto
qed

subsection \<open>Correctness\<close>

text \<open>C34: a null bitmap section reopens with its document count, and a document is null exactly
  when it was added.\<close>

theorem null_bitmap_lookup:
  assumes "roaring_spec R"
  shows "\<exists>r. null_bitmap_open R (null_bitmap_finish R (add_nulls R docids) doc_count []) = Inr r \<and>
    nbr_doc_count r = doc_count \<and> (\<forall>d. is_null R r d = (d \<in> set docids)) \<and>
    writer_null_count R (add_nulls R docids) = of_nat (card (set docids))"
proof -
  obtain r where "null_bitmap_open R (null_bitmap_finish R (add_nulls R docids) doc_count []) = Inr r"
    and "nbr_doc_count r = doc_count"
    and "\<And>d. is_null R r d = Roaring_contains R (add_nulls R docids) d"
    by (rule null_bitmap_roundtrip [OF assms, where w = "add_nulls R docids" and doc_count = doc_count]) blast
  then show ?thesis
    by (simp add: contains_add_nulls [OF assms] writer_null_count_card [OF assms])
qed

theorem null_bitmap_lookup_witness:
  "\<exists>r. null_bitmap_open flat_roaring (null_bitmap_finish flat_roaring (add_nulls flat_roaring [3, 5]) 9 []) =
     Inr r \<and> is_null flat_roaring r 5 \<and> \<not> is_null flat_roaring r 4"
  using null_bitmap_lookup [OF flat_roaring_spec, of "[3, 5]" 9] by auto

end
