(* ===== verification/Spill_Run.thy ===== *)
theory Spill_Run
  imports Logical_Index_Writer
begin

text \<open>
  The run files of the term buffer: \<open>RunWriter\<close> and \<open>RunReader\<close> of
  \<open>src/core/src/writer/spill_run_codec.cpp\<close>. A run holds records keyed by term id with raw little-endian
  blocks; the reader decodes it through a sliding window and leaves the positions of the current term
  unread until they are asked for.

  The operating system is a parameter per run file, \<open>run_io\<close>: whether the file can be created, written,
  closed, opened again and measured, and how many bytes \<open>::read\<close> delivers when so many are left.
  \<open>::write\<close> on a file that holds \<open>out\<close>, given the bytes \<open>data\<close>, fails or moves at least one of them; \<open>io_write io out data\<close> is
  how many more. A call that is interrupted has no effect and is repeated, so the parameters say what the first call
  does that is not. A \<open>size_t\<close> that counts bytes in memory is a natural number.
\<close>

record run_io =
  io_create_ok :: bool
  io_write :: "byte list \<Rightarrow> byte list \<Rightarrow> nat option"
  io_close_ok :: bool
  io_open_ok :: bool
  io_stat_ok :: bool
  io_read :: "nat \<Rightarrow> nat option"

definition kWriteFlushBytes :: nat where "kWriteFlushBytes = 2 ^ 22"

definition kReadChunkBytes :: nat where "kReadChunkBytes = 2 ^ 16"

definition AppendVarint :: "byte list \<Rightarrow> u64 \<Rightarrow> byte list" where
  "AppendVarint buf v = buf @ encode_varint64 v"

definition AppendRawU32 :: "byte list \<Rightarrow> u32 list \<Rightarrow> byte list" where
  "AppendRawU32 buf src = buf @ concat (map (le_bytes 4) src)"

text \<open>The loop of \<open>WriteAll\<close> at offset \<open>off\<close>, on the file \<open>out\<close>: every call is given \<open>data + off\<close> and \<open>len - off\<close>.\<close>

function write_from :: "run_io \<Rightarrow> byte list \<Rightarrow> nat \<Rightarrow> byte list \<Rightarrow> byte list result" where
  "write_from io data off out =
     (if off < length data then
        case io_write io out (drop off data) of
          None \<Rightarrow> IoError
        | Some k \<Rightarrow>
            let n = min (Suc k) (length data - off)
            in write_from io data (off + n) (out @ take n (drop off data))
      else Inr out)"
  by auto
termination by (relation "measure (\<lambda>(io, data, off, out). length data - off)") auto

declare write_from.simps [simp del]

definition WriteAll :: "run_io \<Rightarrow> byte list \<Rightarrow> byte list \<Rightarrow> byte list result" where
  "WriteAll io data out = write_from io data 0 out"

text \<open>Whatever the lengths of the writes, the whole range arrives in order, unless a call fails.\<close>

lemma write_from_Inr: "write_from io data off out = Inr out' \<Longrightarrow> out' = out @ drop off data"
proof (induction io data off out rule: write_from.induct)
  case (1 io data off out)
  show ?case
  proof (cases "off < length data")
    case True
    then obtain k where k: "io_write io out (drop off data) = Some k"
      using "1.prems" by (subst (asm) write_from.simps) (simp split: option.splits)
    define n where "n = min (Suc k) (length data - off)"
    have "write_from io data (off + n) (out @ take n (drop off data)) = Inr out'"
      using "1.prems" True k by (subst (asm) write_from.simps) (simp add: n_def Let_def)
    then have "out' = (out @ take n (drop off data)) @ drop (off + n) data" using "1.IH" [OF True k n_def] by simp
    then show ?thesis using append_take_drop_id [of n "drop off data"] by (simp add: add.commute)
  qed (use "1.prems" in \<open>simp add: write_from.simps\<close>)
qed

lemma WriteAll_Inr: "WriteAll io data out = Inr out' \<Longrightarrow> out' = out @ data"
  using write_from_Inr [of io data 0 out out'] by (simp add: WriteAll_def)

lemma WriteAll_total:
  assumes "\<forall>out data. io_write io out data \<noteq> None"
  shows "WriteAll io data out = Inr (out @ data)"
proof -
  have "\<exists>out'. write_from io data off out = Inr out'" for off out
    using assms
  proof (induction io data off out rule: write_from.induct)
    case (1 io data off out)
    show ?case
    proof (cases "io_write io out (drop off data)")
      case None
      then show ?thesis using "1.prems" by simp
    next
      case (Some k)
      then show ?thesis using 1 by (subst write_from.simps) (simp add: Let_def)
    qed
  qed
  then show ?thesis using WriteAll_Inr [of io data out] by (auto simp: WriteAll_def)
qed

subsection \<open>RunWriter\<close>

record run_writer =
  rw_open :: bool
  rw_out :: "byte list"
  rw_buf :: "byte list"

definition run_writer_open :: "run_io \<Rightarrow> run_writer result" where
  "run_writer_open io = (if io_create_ok io then Inr \<lparr>rw_open = True, rw_out = [], rw_buf = []\<rparr> else IoError)"

definition run_flush :: "run_io \<Rightarrow> run_writer \<Rightarrow> run_writer result" where
  "run_flush io w =
     (if rw_buf w = [] then Inr w
      else and_then (WriteAll io (rw_buf w) (rw_out w)) (\<lambda>out. Inr (w\<lparr>rw_out := out, rw_buf := []\<rparr>)))"

definition write_term :: "run_io \<Rightarrow> u32 \<Rightarrow> term_postings \<Rightarrow> run_writer \<Rightarrow> run_writer result" where
  "write_term io term_id tp w =
     (let buf = AppendVarint (rw_buf w) (ucast term_id);
          buf = AppendVarint buf (of_nat (length (tp_docids tp)));
          buf = AppendRawU32 buf (tp_docids tp);
          buf = AppendRawU32 buf (tp_freqs tp);
          buf = AppendVarint buf (of_nat (length (tp_positions_flat tp)));
          buf = AppendRawU32 buf (tp_positions_flat tp);
          w = w\<lparr>rw_buf := buf\<rparr>
      in if length buf \<ge> kWriteFlushBytes then run_flush io w else Inr w)"

definition run_close :: "run_io \<Rightarrow> run_writer \<Rightarrow> run_writer result" where
  "run_close io w =
     (if \<not> rw_open w then Inr w
      else and_then (run_flush io w) (\<lambda>w.
        let w = w\<lparr>rw_open := False\<rparr> in if io_close_ok io then Inr w else IoError))"

subsection \<open>RunReader\<close>

record run_reader =
  rd_has_positions :: bool
  rd_exhausted :: bool
  rd_file_size :: u64
  rd_window :: "byte list"
  rd_pos :: nat
  rd_eof :: bool
  rd_disk :: "byte list"
  rd_current_id :: u32
  rd_docids :: "u32 list"
  rd_freqs :: "u32 list"
  rd_positions_flat :: "u32 list"
  rd_pos_count :: u64
  rd_pos_remaining :: u64

definition available :: "run_reader \<Rightarrow> nat" where
  "available r = length (rd_window r) - rd_pos r"

definition run_fill :: "run_io \<Rightarrow> run_reader \<Rightarrow> run_reader result" where
  "run_fill io r =
     (let r = r\<lparr>rd_window := drop (rd_pos r) (rd_window r), rd_pos := 0\<rparr> in
      if rd_eof r then Inr r
      else
        case io_read io (length (rd_disk r)) of
          None \<Rightarrow> IoError
        | Some got \<Rightarrow>
            let n = min got (min kReadChunkBytes (length (rd_disk r))) in
            Inr (r\<lparr>rd_window := rd_window r @ take n (rd_disk r), rd_disk := drop n (rd_disk r), rd_eof := (n = 0)\<rparr>))"

text \<open>What the reader has still before it, and what a refill changes: every loop of the reader ends because a
  refill that does not report the end of the file moves at least one byte.\<close>

definition run_stream :: "run_reader \<Rightarrow> byte list" where
  "run_stream r = drop (rd_pos r) (rd_window r) @ rd_disk r"

lemma run_fill_stream:
  assumes "run_fill io r = Inr r'"
  shows "run_stream r' = run_stream r" and "rd_pos r' = 0" and "length (rd_disk r') \<le> length (rd_disk r)"
    and "\<not> rd_eof r' \<Longrightarrow> length (rd_disk r') < length (rd_disk r) \<and> available r < available r'"
    and "available r \<le> available r'"
    and "r' = r\<lparr>rd_window := rd_window r', rd_pos := 0, rd_disk := rd_disk r', rd_eof := rd_eof r'\<rparr>"
  using assms by (auto simp: run_fill_def Let_def run_stream_def available_def split: if_splits option.splits)

lemma run_fill_eof:
  assumes "run_fill io r = Inr r'" and "rd_eof r'"
  shows "rd_disk r' = rd_disk r" and "available r' = available r"
  using assms by (auto simp: run_fill_def Let_def available_def split: if_splits option.splits)

text \<open>\<open>fill\<close> after which nothing came is the end of the run: the guard of the three loops.\<close>

definition more_or_truncated :: "run_io \<Rightarrow> run_reader \<Rightarrow> run_reader result" where
  "more_or_truncated io r =
     and_then (run_fill io r) (\<lambda>r'. if available r' = available r \<and> rd_eof r' then Corruption else Inr r')"

lemma more_or_truncated_less:
  assumes "more_or_truncated io r = Inr r'"
  shows "length (rd_disk r') < length (rd_disk r)" and "available r < available r'"
  using assms run_fill_stream(4) run_fill_eof by (fastforce simp: more_or_truncated_def split: if_splits)+

function ensure :: "run_io \<Rightarrow> nat \<Rightarrow> run_reader \<Rightarrow> run_reader result" where
  "ensure io n r = (if available r < n then and_then (more_or_truncated io r) (ensure io n) else Inr r)"
  by pat_completeness auto
termination
  by (relation "measure (\<lambda>(io, n, r). length (rd_disk r))") (auto dest: more_or_truncated_less)

function read_run_varint :: "run_io \<Rightarrow> run_reader \<Rightarrow> (u64 \<times> run_reader) result" where
  "read_run_varint io r =
     (case decode_varint64 (drop (rd_pos r) (rd_window r)) of
        Inr (v, nxt) \<Rightarrow> Inr (v, r\<lparr>rd_pos := length (rd_window r) - length nxt\<rparr>)
      | Inl _ \<Rightarrow>
          if rd_eof r then Corruption else and_then (more_or_truncated io r) (read_run_varint io))"
  by pat_completeness auto
termination
  by (relation "measure (\<lambda>(io, r). length (rd_disk r))") (auto dest: more_or_truncated_less)

function pull_raw :: "run_io \<Rightarrow> nat \<Rightarrow> run_reader \<Rightarrow> (byte list \<times> run_reader) result" where
  "pull_raw io need r =
     (if need = 0 then Inr ([], r)
      else
        and_then (if available r = 0 then more_or_truncated io r else Inr r) (\<lambda>r.
        let n = min need (available r) in
        and_then (pull_raw io (need - n) (r\<lparr>rd_pos := rd_pos r + n\<rparr>)) (\<lambda>(bytes, r').
        Inr (take n (drop (rd_pos r) (rd_window r)) @ bytes, r'))))"
  by pat_completeness auto
termination
  by (relation "measure (\<lambda>(io, need, r). need)") (auto dest: more_or_truncated_less split: if_splits)

declare ensure.simps [simp del] read_run_varint.simps [simp del] pull_raw.simps [simp del]

definition u32_block :: "nat \<Rightarrow> byte list \<Rightarrow> u32 list" where
  "u32_block count bytes = map (\<lambda>i. load_le 4 bytes (4 * i)) [0..<count]"

definition pull_raw_u32 :: "run_io \<Rightarrow> nat \<Rightarrow> run_reader \<Rightarrow> (u32 list \<times> run_reader) result" where
  "pull_raw_u32 io count r =
     (if count = 0 then Inr ([], r)
      else and_then (pull_raw io (count * 4) r) (\<lambda>(bytes, r). Inr (u32_block count bytes, r)))"

definition read_raw_u32 :: "run_io \<Rightarrow> u64 \<Rightarrow> run_reader \<Rightarrow> (u32 list \<times> run_reader) result" where
  "read_raw_u32 io count r =
     (if count > rd_file_size r div 4 then Corruption
      else if count = 0 then Inr ([], r)
      else pull_raw_u32 io (unat count) r)"

definition materialize_positions :: "run_io \<Rightarrow> run_reader \<Rightarrow> run_reader result" where
  "materialize_positions io r =
     (if rd_pos_remaining r = 0 then Inr (r\<lparr>rd_positions_flat := []\<rparr>)
      else
        and_then (read_raw_u32 io (rd_pos_remaining r) r) (\<lambda>(ps, r).
        Inr (r\<lparr>rd_positions_flat := (if rd_has_positions r then ps else []), rd_pos_remaining := 0\<rparr>)))"

definition stream_positions :: "run_io \<Rightarrow> nat \<Rightarrow> run_reader \<Rightarrow> (u32 list \<times> run_reader) result" where
  "stream_positions io n r =
     (if n = 0 then Inr ([], r)
      else if n > unat (rd_pos_remaining r) then Corruption
      else and_then (pull_raw_u32 io n r) (\<lambda>(ps, r). Inr (ps, r\<lparr>rd_pos_remaining := rd_pos_remaining r - of_nat n\<rparr>)))"

definition skip_remaining_positions :: "run_io \<Rightarrow> run_reader \<Rightarrow> run_reader result" where
  "skip_remaining_positions io r =
     (if rd_pos_remaining r = 0 then Inr r
      else and_then (read_raw_u32 io (rd_pos_remaining r) r) (\<lambda>(skip, r). Inr (r\<lparr>rd_pos_remaining := 0\<rparr>)))"

definition run_advance :: "run_io \<Rightarrow> run_reader \<Rightarrow> run_reader result" where
  "run_advance io r =
     and_then (skip_remaining_positions io r) (\<lambda>r.
     and_then (if available r = 0
               then and_then (run_fill io r) (\<lambda>r. Inr (r, available r = 0 \<and> rd_eof r))
               else Inr (r, False)) (\<lambda>(r, at_end).
     if at_end then Inr (r\<lparr>rd_exhausted := True\<rparr>)
     else
       and_then (read_run_varint io r) (\<lambda>(term_id, r).
       if term_id > 0xFFFFFFFF then Corruption
       else
         and_then (read_run_varint io (r\<lparr>rd_current_id := ucast term_id\<rparr>)) (\<lambda>(n_docs, r).
         and_then (read_raw_u32 io n_docs r) (\<lambda>(docids, r).
         and_then (read_raw_u32 io n_docs (r\<lparr>rd_docids := docids\<rparr>)) (\<lambda>(freqs, r).
         and_then (read_run_varint io (r\<lparr>rd_freqs := freqs\<rparr>)) (\<lambda>(n_pos, r).
         Inr (r\<lparr>rd_positions_flat := [], rd_pos_count := n_pos, rd_pos_remaining := n_pos\<rparr>))))))))"

definition run_reader_open :: "run_io \<Rightarrow> byte list \<Rightarrow> bool \<Rightarrow> run_reader result" where
  "run_reader_open io contents hp =
     (if \<not> io_open_ok io then IoError
      else if \<not> io_stat_ok io then IoError
      else
        run_advance io
          \<lparr>rd_has_positions = hp, rd_exhausted = False, rd_file_size = of_nat (length contents), rd_window = [], rd_pos = 0,
           rd_eof = False, rd_disk = contents, rd_current_id = 0, rd_docids = [], rd_freqs = [], rd_positions_flat = [],
           rd_pos_count = 0, rd_pos_remaining = 0\<rparr>)"

end
