(* ===== verification/Spill_Merge.thy ===== *)
theory Spill_Merge
  imports Spill_Run "HOL-Library.Product_Lexorder"
begin

text \<open>
  The k-way merge of run files: \<open>MergeRuns\<close> of \<open>src/core/src/writer/spill_run_codec.cpp\<close>.

  \<open>std::priority_queue\<close> under \<open>HeapGreater\<close>, a strict total order on the string of the term and the run, is
  the list of its items in that order. A reader is kept with the \<open>run_io\<close> of its file. The merge delivers terms
  to its callback until it returns, so it yields the list of delivered terms and a status; a position pump
  is the sequence it yields when the callback pulls \<open>pos_total\<close> positions from it, as the windowed writer does.
\<close>

type_synonym heap_item = "u32 \<times> nat"

type_synonym run_readers = "(run_io \<times> run_reader) list"

definition heap_key :: "term_bytes list \<Rightarrow> heap_item \<Rightarrow> term_bytes \<times> nat" where
  "heap_key vocab item = (vocab ! unat (fst item), snd item)"

definition heap_push :: "term_bytes list \<Rightarrow> heap_item \<Rightarrow> heap_item list \<Rightarrow> heap_item list" where
  "heap_push vocab item heap = insort_key (heap_key vocab) item heap"

definition reader_at :: "run_readers \<Rightarrow> nat \<Rightarrow> (run_io \<times> run_reader) result" where
  "reader_at readers ri = (if ri < length readers then Inr (readers ! ri) else Inl OutOfBounds)"

definition Concat :: "term_postings \<Rightarrow> run_reader \<Rightarrow> bool \<Rightarrow> term_postings result" where
  "Concat dst src hp =
     (if rd_docids src = [] then Inr dst
      else
        let boundary = (tp_docids dst \<noteq> [] \<and> last (tp_docids dst) = hd (rd_docids src));
            head_fc = hd (rd_freqs src);
            start = (if boundary then 1 else 0);
            src_pos_start = (if boundary then unat head_fc else 0);
            freqs = (if boundary then butlast (tp_freqs dst) @ [last (tp_freqs dst) + head_fc] else tp_freqs dst)
        in if hp \<and> src_pos_start > length (rd_positions_flat src) then Inl OutOfBounds
           else
             Inr (dst\<lparr>tp_docids := tp_docids dst @ drop start (rd_docids src),
                      tp_freqs := freqs @ drop start (rd_freqs src),
                      tp_positions_flat := (if hp then (tp_positions_flat dst @ take src_pos_start (rd_positions_flat src)) @
                        drop src_pos_start (rd_positions_flat src) else tp_positions_flat dst)\<rparr>))"

definition ConcatDocsFreqs :: "term_postings \<Rightarrow> run_reader \<Rightarrow> term_postings" where
  "ConcatDocsFreqs dst src =
     (if rd_docids src = [] then dst
      else
        let boundary = (tp_docids dst \<noteq> [] \<and> last (tp_docids dst) = hd (rd_docids src));
            start = (if boundary then 1 else 0);
            freqs = (if boundary then butlast (tp_freqs dst) @ [last (tp_freqs dst) + hd (rd_freqs src)] else tp_freqs dst)
        in dst\<lparr>tp_docids := tp_docids dst @ drop start (rd_docids src), tp_freqs := freqs @ drop start (rd_freqs src)\<rparr>)"

definition ShouldStreamPositions :: "u64 \<Rightarrow> u64 \<Rightarrow> bool \<Rightarrow> bool" where
  "ShouldStreamPositions total_docs total_pos hp = (hp \<and> total_pos \<noteq> 0 \<and> total_docs \<ge> of_nat kSlimDfThreshold)"

text \<open>The loops of \<open>MergeRuns\<close>: opening and seeding, gathering the runs whose head has the least string,
  concatenating their postings, the fallback that reads positions after all, the position pump, and advancing.\<close>

fun open_runs :: "term_bytes list \<Rightarrow> bool \<Rightarrow> (run_io \<times> byte list) list \<Rightarrow> run_readers \<times> heap_item list \<Rightarrow>
    (run_readers \<times> heap_item list) result" where
  "open_runs vocab hp [] (readers, heap) = Inr (readers, heap)"
| "open_runs vocab hp ((io, contents) # files) (readers, heap) =
     and_then (run_reader_open io contents hp) (\<lambda>r.
     if \<not> rd_exhausted r \<and> unat (rd_current_id r) \<ge> length vocab then Corruption
     else open_runs vocab hp files
       (readers @ [(io, r)], if rd_exhausted r then heap else heap_push vocab (rd_current_id r, length readers) heap))"

fun gather :: "term_bytes list \<Rightarrow> term_bytes \<Rightarrow> run_readers \<Rightarrow> heap_item list \<Rightarrow> nat list \<times> u64 \<times> u64 \<Rightarrow>
    ((nat list \<times> u64 \<times> u64) \<times> heap_item list) result" where
  "gather vocab trm readers [] acc = Inr (acc, [])"
| "gather vocab trm readers ((term_id, ri) # heap) (matching, total_docs, total_pos) =
     (if vocab ! unat term_id = trm then
        and_then (reader_at readers ri) (\<lambda>(io, r).
        gather vocab trm readers heap (matching @ [ri], total_docs + of_nat (length (rd_docids r)), total_pos + rd_pos_count r))
      else Inr ((matching, total_docs, total_pos), (term_id, ri) # heap))"

fun concat_matching :: "bool \<Rightarrow> bool \<Rightarrow> nat list \<Rightarrow> run_readers \<times> term_postings \<Rightarrow> (run_readers \<times> term_postings) result" where
  "concat_matching hp streamed [] (readers, merged) = Inr (readers, merged)"
| "concat_matching hp streamed (ri # matching) (readers, merged) =
     and_then (reader_at readers ri) (\<lambda>(io, r).
     if streamed then concat_matching hp streamed matching (readers, ConcatDocsFreqs merged r)
     else
       and_then (if hp then materialize_positions io r else Inr r) (\<lambda>r.
       and_then (Concat merged r hp) (\<lambda>merged.
       concat_matching hp streamed matching (readers[ri := (io, r)], merged))))"

fun materialize_matching :: "nat list \<Rightarrow> run_readers \<times> term_postings \<Rightarrow> (run_readers \<times> term_postings) result" where
  "materialize_matching [] (readers, merged) = Inr (readers, merged)"
| "materialize_matching (ri # matching) (readers, merged) =
     and_then (reader_at readers ri) (\<lambda>(io, r).
     and_then (materialize_positions io r) (\<lambda>r.
     materialize_matching matching
       (readers[ri := (io, r)], merged\<lparr>tp_positions_flat := tp_positions_flat merged @ rd_positions_flat r\<rparr>)))"

fun pos_pump :: "nat list \<Rightarrow> nat \<Rightarrow> run_readers \<Rightarrow> u32 list \<times> unit result \<times> run_readers" where
  "pos_pump [] n readers = (replicate n 0, Inr (), readers)"
| "pos_pump (ri # matching) n readers =
     (if n = 0 then ([], Inr (), readers)
      else
        case reader_at readers ri of
          Inl e \<Rightarrow> (replicate n 0, Inl e, readers)
        | Inr (io, r) \<Rightarrow>
            if rd_pos_remaining r = 0 then pos_pump matching n readers
            else
              let k = min n (unat (rd_pos_remaining r)) in
              case stream_positions io k r of
                Inl e \<Rightarrow> (replicate n 0, Inl e, readers)
              | Inr (ps, r) \<Rightarrow>
                  case pos_pump matching (n - k) (readers[ri := (io, r)]) of
                    (qs, status, readers) \<Rightarrow> (ps @ qs, status, readers))"

fun advance_matching :: "term_bytes list \<Rightarrow> nat list \<Rightarrow> run_readers \<times> heap_item list \<Rightarrow> (run_readers \<times> heap_item list) result" where
  "advance_matching vocab [] (readers, heap) = Inr (readers, heap)"
| "advance_matching vocab (ri # matching) (readers, heap) =
     and_then (reader_at readers ri) (\<lambda>(io, r).
     and_then (run_advance io r) (\<lambda>r.
     if \<not> rd_exhausted r \<and> unat (rd_current_id r) \<ge> length vocab then Corruption
     else advance_matching vocab matching
       (readers[ri := (io, r)], if rd_exhausted r then heap else heap_push vocab (rd_current_id r, ri) heap)))"

definition new_postings :: "term_bytes \<Rightarrow> term_postings" where
  "new_postings trm =
     \<lparr>tp_term = trm, tp_docids = [], tp_freqs = [], tp_positions_flat = [], tp_pos_pump = None, tp_pos_total = 0\<rparr>"

text \<open>What one round does before the callback: the merged term, whether its positions are streamed, and the state.\<close>

definition merge_head :: "term_bytes list \<Rightarrow> bool \<Rightarrow> bool \<Rightarrow> run_readers \<times> heap_item list \<Rightarrow>
    (term_postings \<times> bool \<times> nat list \<times> u64 \<times> run_readers \<times> heap_item list) result" where
  "merge_head vocab hp allow_stream = (\<lambda>(readers, heap).
     let trm = vocab ! unat (fst (hd heap)) in
     and_then (gather vocab trm readers heap ([], 0, 0)) (\<lambda>((matching, total_docs, total_pos), heap).
     let streamed = (allow_stream \<and> ShouldStreamPositions total_docs total_pos hp) in
     and_then (concat_matching hp streamed matching (readers, new_postings trm)) (\<lambda>(readers, merged).
     if streamed \<and> length (tp_docids merged) < kSlimDfThreshold then
       and_then (materialize_matching matching (readers, merged)) (\<lambda>(readers, merged).
       Inr (merged, False, matching, total_pos, readers, heap))
     else Inr (merged, streamed, matching, total_pos, readers, heap))))"

definition merge_step :: "term_bytes list \<Rightarrow> bool \<Rightarrow> bool \<Rightarrow> run_readers \<times> heap_item list \<Rightarrow>
    term_postings list \<times> (run_readers \<times> heap_item list) result" where
  "merge_step vocab hp allow_stream st =
     (case merge_head vocab hp allow_stream st of
        Inl e \<Rightarrow> ([], Inl e)
      | Inr (merged, streamed, matching, total_pos, readers, heap) \<Rightarrow>
          if streamed then
            case pos_pump matching (unat total_pos) readers of
              (ps, pump_status, readers) \<Rightarrow>
                ([merged\<lparr>tp_pos_pump := Some ps, tp_pos_total := total_pos\<rparr>],
                 and_then pump_status (\<lambda>_. advance_matching vocab matching (readers, heap)))
          else ([merged], advance_matching vocab matching (readers, heap)))"

subsection \<open>Progress\<close>

lemma more_or_truncated_stream:
  "more_or_truncated io r = Inr r' \<Longrightarrow> run_stream r' = run_stream r \<and> rd_exhausted r' = rd_exhausted r"
  using run_fill_stream(1) [of io r r'] by (auto simp: more_or_truncated_def run_fill_def Let_def split: if_splits option.splits)

lemma read_run_varint_less:
  "read_run_varint io r = Inr (v, r') \<Longrightarrow> length (run_stream r') < length (run_stream r) \<and> rd_exhausted r' = rd_exhausted r"
proof (induction io r rule: read_run_varint.induct)
  case (1 io r)
  let ?p = "drop (rd_pos r) (rd_window r)"
  show ?case
  proof (cases "decode_varint64 ?p")
    case (Inr vn)
    obtain v' nxt where vn: "vn = (v', nxt)" by (cases vn)
    obtain used where u: "?p = used @ nxt" "used \<noteq> []" using decode_varint64_suffix [OF Inr [unfolded vn]] by blast
    have "length ?p = length used + length nxt" by (simp add: u(1))
    then have "length nxt < length (rd_window r) - rd_pos r" using u(2) by (cases used) simp_all
    then show ?thesis using Inr vn 1(2) by (subst (asm) read_run_varint.simps) (auto simp: run_stream_def)
  next
    case (Inl e)
    then have ne: "\<not> rd_eof r" using 1(2) by (subst (asm) read_run_varint.simps) (auto split: if_splits)
    obtain r1 where r1: "more_or_truncated io r = Inr r1" "read_run_varint io r1 = Inr (v, r')"
      using 1(2) Inl ne by (subst (asm) read_run_varint.simps) auto
    have "run_stream r1 = run_stream r \<and> rd_exhausted r1 = rd_exhausted r" using r1(1) by (rule more_or_truncated_stream)
    then show ?thesis using "1.IH" [OF Inl ne r1] by simp
  qed
qed


definition no_longer :: "run_reader \<Rightarrow> run_reader \<Rightarrow> bool" where
  "no_longer r r' = (length (run_stream r') \<le> length (run_stream r) \<and> rd_exhausted r' = rd_exhausted r)"

lemma run_stream_upd [simp]:
  "run_stream (r\<lparr>rd_current_id := i\<rparr>) = run_stream r" "run_stream (r\<lparr>rd_docids := ds\<rparr>) = run_stream r"
  "run_stream (r\<lparr>rd_freqs := fs\<rparr>) = run_stream r" "run_stream (r\<lparr>rd_positions_flat := ps\<rparr>) = run_stream r"
  "run_stream (r\<lparr>rd_pos_count := n\<rparr>) = run_stream r" "run_stream (r\<lparr>rd_pos_remaining := n\<rparr>) = run_stream r"
  "run_stream (r\<lparr>rd_exhausted := b\<rparr>) = run_stream r"
  by (simp_all add: run_stream_def)

lemma pull_raw_less: "pull_raw io need r = Inr (bytes, r') \<Longrightarrow> no_longer r r'"
proof (induction io need r arbitrary: bytes rule: pull_raw.induct)
  case (1 io need r)
  show ?case
  proof (cases "need = 0")
    case True
    then show ?thesis using 1(2) by (subst (asm) pull_raw.simps) (simp add: no_longer_def)
  next
    case False
    obtain r1 where r1: "(if available r = 0 then more_or_truncated io r else Inr r) = Inr r1"
      using 1(2) False by (subst (asm) pull_raw.simps) auto
    then have e: "run_stream r1 = run_stream r \<and> rd_exhausted r1 = rd_exhausted r" by (auto dest: more_or_truncated_stream split: if_splits)
    define n where "n = min need (available r1)"
    obtain bytes' where p: "pull_raw io (need - n) (r1\<lparr>rd_pos := rd_pos r1 + n\<rparr>) = Inr (bytes', r')"
      using 1(2) False r1 by (subst (asm) pull_raw.simps) (auto simp: Let_def n_def)
    have "no_longer (r1\<lparr>rd_pos := rd_pos r1 + n\<rparr>) r'" by (rule "1.IH" [OF False r1 n_def p])
    moreover have "length (run_stream (r1\<lparr>rd_pos := rd_pos r1 + n\<rparr>)) \<le> length (run_stream r1)" by (simp add: run_stream_def)
    ultimately show ?thesis using e by (auto simp: no_longer_def)
  qed
qed

lemma pull_raw_u32_less: "pull_raw_u32 io n r = Inr (xs, r') \<Longrightarrow> no_longer r r'"
  using pull_raw_less [of io "n * 4" r _ r'] by (auto simp: pull_raw_u32_def no_longer_def split: if_splits)

lemma read_raw_u32_less: "read_raw_u32 io n r = Inr (xs, r') \<Longrightarrow> no_longer r r'"
  using pull_raw_u32_less [of io "unat n" r xs r'] by (auto simp: read_raw_u32_def no_longer_def split: if_splits)

lemma materialize_less: "materialize_positions io r = Inr r' \<Longrightarrow> no_longer r r'"
proof (cases "rd_pos_remaining r = 0")
  case False
  assume "materialize_positions io r = Inr r'"
  then obtain ps r1 where "read_raw_u32 io (rd_pos_remaining r) r = Inr (ps, r1)"
    "r' = r1\<lparr>rd_positions_flat := (if rd_has_positions r1 then ps else []), rd_pos_remaining := 0\<rparr>"
    using False unfolding materialize_positions_def by auto
  then show ?thesis using read_raw_u32_less [of io "rd_pos_remaining r" r ps r1] by (simp add: no_longer_def)
qed (auto simp: materialize_positions_def no_longer_def)

lemma stream_positions_less: "stream_positions io n r = Inr (ps, r') \<Longrightarrow> no_longer r r'"
proof (cases "n = 0")
  case False
  assume s: "stream_positions io n r = Inr (ps, r')"
  then obtain r1 where "pull_raw_u32 io n r = Inr (ps, r1)" "r' = r1\<lparr>rd_pos_remaining := rd_pos_remaining r1 - of_nat n\<rparr>"
    using False unfolding stream_positions_def by (auto split: if_splits)
  then show ?thesis using pull_raw_u32_less [of io n r ps r1] by (simp add: no_longer_def)
qed (auto simp: stream_positions_def no_longer_def)

lemma skip_less: "skip_remaining_positions io r = Inr r' \<Longrightarrow> no_longer r r'"
proof (cases "rd_pos_remaining r = 0")
  case False
  assume "skip_remaining_positions io r = Inr r'"
  then obtain ps r1 where "read_raw_u32 io (rd_pos_remaining r) r = Inr (ps, r1)" "r' = r1\<lparr>rd_pos_remaining := 0\<rparr>"
    using False unfolding skip_remaining_positions_def by auto
  then show ?thesis using read_raw_u32_less [of io "rd_pos_remaining r" r ps r1] by (simp add: no_longer_def)
qed (auto simp: skip_remaining_positions_def no_longer_def)

lemma run_advance_less:
  assumes "run_advance io r = Inr r'"
  shows "length (run_stream r') \<le> length (run_stream r)" and "\<not> rd_exhausted r' \<Longrightarrow> length (run_stream r') < length (run_stream r)"
proof -
  obtain r1 where r1: "skip_remaining_positions io r = Inr r1" using assms by (auto simp: run_advance_def)
  obtain r2 at_end where r2: "(if available r1 = 0 then and_then (run_fill io r1) (\<lambda>r. Inr (r, available r = 0 \<and> rd_eof r)) else Inr (r1, False)) = Inr (r2, at_end)"
    using assms r1 unfolding run_advance_def by auto
  have s2: "length (run_stream r2) \<le> length (run_stream r)"
    using r2 skip_less [OF r1] run_fill_stream(1) by (auto simp: no_longer_def split: if_splits)
  have "length (run_stream r') \<le> length (run_stream r2) \<and> (\<not> rd_exhausted r' \<longrightarrow> length (run_stream r') < length (run_stream r2))"
  proof (cases at_end)
    case True
    then have "r' = r2\<lparr>rd_exhausted := True\<rparr>" using assms r1 r2 unfolding run_advance_def by simp
    then show ?thesis by simp
  next
    case False
    obtain term_id r3 n_docs r4 docids r5 freqs r6 n_pos r7 where
      s: "read_run_varint io r2 = Inr (term_id, r3)" "read_run_varint io (r3\<lparr>rd_current_id := ucast term_id\<rparr>) = Inr (n_docs, r4)"
        "read_raw_u32 io n_docs r4 = Inr (docids, r5)" "read_raw_u32 io n_docs (r5\<lparr>rd_docids := docids\<rparr>) = Inr (freqs, r6)"
        "read_run_varint io (r6\<lparr>rd_freqs := freqs\<rparr>) = Inr (n_pos, r7)"
        "r' = r7\<lparr>rd_positions_flat := [], rd_pos_count := n_pos, rd_pos_remaining := n_pos\<rparr>"
      using assms r1 r2 False unfolding run_advance_def by (auto split: if_splits)
    show ?thesis
      using read_run_varint_less [OF s(1)] read_run_varint_less [OF s(2)] read_raw_u32_less [OF s(3)] read_raw_u32_less [OF s(4)]
        read_run_varint_less [OF s(5)] by (simp add: s(6) no_longer_def)
  qed
  then show "length (run_stream r') \<le> length (run_stream r)" and "\<not> rd_exhausted r' \<Longrightarrow> length (run_stream r') < length (run_stream r)"
    using s2 by auto
qed

definition weight :: "run_readers \<Rightarrow> nat" where
  "weight readers = (\<Sum>(io, r) \<leftarrow> readers. length (run_stream r))"

lemma weight_update:
  "reader_at readers ri = Inr (io, r) \<Longrightarrow> weight (readers[ri := (io, r')]) + length (run_stream r) = weight readers + length (run_stream r')"
proof -
  assume "reader_at readers ri = Inr (io, r)"
  then have i: "ri < length readers" "readers ! ri = (io, r)" by (simp_all add: reader_at_def split: if_splits)
  then obtain A B where "readers = A @ (io, r) # B" "ri = length A" by (metis id_take_nth_drop length_take min.absorb4)
  then show ?thesis by (simp add: weight_def)
qed

lemma weight_no_longer:
  "reader_at readers ri = Inr (io, r) \<Longrightarrow> no_longer r r' \<Longrightarrow> weight (readers[ri := (io, r')]) \<le> weight readers"
  using weight_update [of readers ri io r r'] by (simp add: no_longer_def)

lemma concat_matching_less:
  "concat_matching hp streamed matching (readers, merged) = Inr (readers', merged') \<Longrightarrow> weight readers' \<le> weight readers"
proof (induction matching arbitrary: readers merged)
  case (Cons ri matching)
  then obtain io r where at: "reader_at readers ri = Inr (io, r)" by auto
  show ?case
  proof (cases streamed)
    case True
    then show ?thesis using Cons.prems at Cons.IH by auto
  next
    case False
    then obtain r1 merged1 where r1: "(if hp then materialize_positions io r else Inr r) = Inr r1"
      and c: "concat_matching hp streamed matching (readers[ri := (io, r1)], merged1) = Inr (readers', merged')"
      using Cons.prems at by auto
    have "no_longer r r1" using r1 materialize_less by (auto simp: no_longer_def split: if_splits)
    from Cons.IH [OF c] weight_no_longer [OF at this] show ?thesis by simp
  qed
qed simp

lemma materialize_matching_less:
  "materialize_matching matching (readers, merged) = Inr (readers', merged') \<Longrightarrow> weight readers' \<le> weight readers"
proof (induction matching arbitrary: readers merged)
  case (Cons ri matching)
  then obtain io r r1 merged1 where "reader_at readers ri = Inr (io, r)" "materialize_positions io r = Inr r1"
    and c: "materialize_matching matching (readers[ri := (io, r1)], merged1) = Inr (readers', merged')" by auto
  from Cons.IH [OF c] weight_no_longer [OF this(1) materialize_less [OF this(2)]] show ?case by simp
qed simp

lemma pos_pump_less: "pos_pump matching n readers = (ps, status, readers') \<Longrightarrow> weight readers' \<le> weight readers"
proof (induction matching arbitrary: n readers ps)
  case (Cons ri matching)
  show ?case
  proof (cases "n = 0 \<or> (\<exists>e. reader_at readers ri = Inl e)")
    case True
    then show ?thesis using Cons.prems by (auto split: if_splits)
  next
    case False
    then obtain io r where at: "reader_at readers ri = Inr (io, r)" by (cases "reader_at readers ri") auto
    show ?thesis
    proof (cases "rd_pos_remaining r = 0")
      case True
      then show ?thesis using Cons False at by auto
    next
      case nz: False
      define k where "k = min n (unat (rd_pos_remaining r))"
      show ?thesis
      proof (cases "stream_positions io k r")
        case (Inl e)
        then show ?thesis using Cons.prems False at nz by (simp add: k_def Let_def)
      next
        case (Inr a)
        obtain qs r1 where a: "a = (qs, r1)" by (cases a)
        obtain ps' where "pos_pump matching (n - k) (readers[ri := (io, r1)]) = (ps', status, readers')"
          using Cons.prems False at nz Inr a by (simp add: k_def Let_def split: prod.splits)
        from Cons.IH [OF this] weight_no_longer [OF at stream_positions_less [OF Inr [unfolded a]]] show ?thesis by simp
      qed
    qed
  qed
qed simp

lemma length_heap_push [simp]: "length (heap_push vocab item heap) = Suc (length heap)"
  by (simp add: heap_push_def)

lemma advance_matching_less:
  "advance_matching vocab matching (readers, heap) = Inr (readers', heap') \<Longrightarrow>
   weight readers' + length heap' \<le> weight readers + length heap"
proof (induction matching arbitrary: readers heap)
  case (Cons ri matching)
  then obtain io r r1 where at: "reader_at readers ri = Inr (io, r)" and adv: "run_advance io r = Inr r1"
    and c: "advance_matching vocab matching (readers[ri := (io, r1)], if rd_exhausted r1 then heap else heap_push vocab (rd_current_id r1, ri) heap) = Inr (readers', heap')"
    by (auto split: if_splits)
  from Cons.IH [OF c] run_advance_less [OF adv] weight_update [OF at, of r1] show ?case by (cases "rd_exhausted r1") auto
qed simp

lemma gather_less:
  "gather vocab trm readers heap acc = Inr (acc', heap') \<Longrightarrow> length heap' \<le> length heap"
proof (induction vocab trm readers heap acc rule: gather.induct)
  case (2 vocab trm readers term_id ri heap matching total_docs total_pos)
  then show ?case by (cases "vocab ! unat term_id = trm") (fastforce)+
qed simp

lemma merge_step_less:
  assumes "merge_step vocab hp allow_stream (readers, heap) = (tps, Inr (readers', heap'))" and "heap \<noteq> []"
  shows "weight readers' + length heap' < weight readers + length heap" and "length tps = 1"
proof -
  obtain item items where heap: "heap = item # items" using assms(2) by (cases heap) auto
  obtain merged streamed matching total_pos rds hp1 where
    mh: "merge_head vocab hp allow_stream (readers, heap) = Inr (merged, streamed, matching, total_pos, rds, hp1)"
    using assms(1) by (cases "merge_head vocab hp allow_stream (readers, heap)") (auto simp: merge_step_def)
  have w: "weight rds \<le> weight readers \<and> length hp1 < length heap"
  proof -
    let ?trm = "vocab ! unat (fst item)"
    obtain acc total_docs rds1 merged1 where g: "gather vocab ?trm readers heap ([], 0, 0) = Inr ((matching, total_docs, total_pos), hp1)"
      and c: "concat_matching hp (allow_stream \<and> ShouldStreamPositions total_docs total_pos hp) matching (readers, new_postings ?trm) = Inr (rds1, merged1)"
      and m: "rds = rds1 \<or> materialize_matching matching (rds1, merged1) = Inr (rds, merged)"
      using mh unfolding merge_head_def Let_def by (auto simp: heap split: if_splits)
    have "length hp1 \<le> length items"
      using g gather_less unfolding heap by (cases item) (fastforce)
    then show ?thesis using concat_matching_less [OF c] m materialize_matching_less heap by fastforce
  qed
  obtain rds2 where r2: "weight rds2 \<le> weight rds" "advance_matching vocab matching (rds2, hp1) = Inr (readers', heap')" "length tps = 1"
    using assms(1) mh pos_pump_less by (fastforce simp: merge_step_def split: if_splits prod.splits)
  show "weight readers' + length heap' < weight readers + length heap" and "length tps = 1"
    using advance_matching_less [OF r2(2)] r2(1,3) w by auto
qed

function merge_loop :: "term_bytes list \<Rightarrow> bool \<Rightarrow> bool \<Rightarrow> run_readers \<times> heap_item list \<Rightarrow> term_postings list \<times> unit result" where
  "merge_loop vocab hp allow_stream (readers, heap) =
     (if heap = [] then ([], Inr ())
      else
        case merge_step vocab hp allow_stream (readers, heap) of
          (tps, res) \<Rightarrow>
            case res of
              Inl e \<Rightarrow> (tps, Inl e)
            | Inr st \<Rightarrow> case merge_loop vocab hp allow_stream st of (tps', status) \<Rightarrow> (tps @ tps', status))"
  by pat_completeness auto
termination
  by (relation "measure (\<lambda>(vocab, hp, allow_stream, readers, heap). weight readers + length heap)")
    (auto dest!: merge_step_less(1) [OF sym])

declare merge_loop.simps [simp del]

definition MergeRuns :: "(run_io \<times> byte list) list \<Rightarrow> term_bytes list \<Rightarrow> bool \<Rightarrow> bool \<Rightarrow> term_postings list \<times> unit result" where
  "MergeRuns files vocab hp allow_stream =
     (case open_runs vocab hp files ([], []) of
        Inl e \<Rightarrow> ([], Inl e)
      | Inr (readers, heap) \<Rightarrow> merge_loop vocab hp allow_stream (readers, heap))"


lemma merge_step_emits: "length (fst (merge_step vocab hp allow_stream st)) \<le> 1"
  by (auto simp: merge_step_def split: sum.splits prod.splits)

lemma merge_loop_bound: "length (fst (merge_loop vocab hp allow_stream (readers, heap))) \<le> weight readers + length heap"
proof (induction "weight readers + length heap" arbitrary: readers heap rule: less_induct)
  case less
  show ?case
  proof (cases "heap = []")
    case False
    obtain tps res where st: "merge_step vocab hp allow_stream (readers, heap) = (tps, res)" by fastforce
    have l: "length tps \<le> 1" using merge_step_emits [of vocab hp allow_stream "(readers, heap)"] st by simp
    have h: "1 \<le> length heap" using False by (cases heap) simp_all
    show ?thesis
    proof (cases res)
      case (Inl e)
      then show ?thesis using False st l h by (subst merge_loop.simps) simp
    next
      case (Inr s)
      obtain readers' heap' where s: "s = (readers', heap')" by (cases s)
      have "weight readers' + length heap' < weight readers + length heap" using merge_step_less(1) [OF _ False] st Inr s by blast
      with less.hyps [OF this] l show ?thesis using False st Inr s by (subst merge_loop.simps) (auto split: prod.splits)
    qed
  qed (subst merge_loop.simps, simp)
qed

lemma open_runs_weight:
  "open_runs vocab hp files (readers, heap) = Inr (readers', heap') \<Longrightarrow>
   weight readers' + length heap' \<le> weight readers + length heap + (\<Sum>(io, contents) \<leftarrow> files. length contents)"
proof (induction files arbitrary: readers heap)
  case (Cons x files)
  obtain io contents where x: "x = (io, contents)" by (cases x)
  with Cons.prems obtain r where r: "run_reader_open io contents hp = Inr r"
    and rs: "open_runs vocab hp files (readers @ [(io, r)], if rd_exhausted r then heap else heap_push vocab (rd_current_id r, length readers) heap) = Inr (readers', heap')"
    by (auto split: if_splits)
  have "length (run_stream r) \<le> length contents" "\<not> rd_exhausted r \<Longrightarrow> length (run_stream r) < length contents"
    using r unfolding run_reader_open_def by (auto split: if_splits dest: run_advance_less simp: run_stream_def)
  with Cons.IH [OF rs] show ?case by (auto simp: weight_def x split: if_splits)
qed simp

text \<open>C8: The merge of run files ends whatever the files hold, truncated and corrupted ones included, and whatever
  amounts the reads deliver: every round consumes a byte of some run or drops a run, so the number of terms
  delivered is at most the number of bytes of the files.\<close>

theorem merge_runs_terminates:
  "length (fst (MergeRuns files vocab hp allow_stream)) \<le> (\<Sum>(io, contents) \<leftarrow> files. length contents)"
proof (cases "open_runs vocab hp files ([], [])")
  case (Inr s)
  obtain readers heap where s: "s = (readers, heap)" by (cases s)
  from merge_loop_bound [of vocab hp allow_stream readers heap] open_runs_weight [OF Inr [unfolded s]]
  show ?thesis by (simp add: MergeRuns_def Inr s weight_def)
qed (simp add: MergeRuns_def)

end
