(* ===== verification/Spill_Run_Correct.thy ===== *)
theory Spill_Run_Correct
  imports Spill_Run
begin

text \<open>
  The run reader returns the records the run writer wrote, whatever amounts \<open>::read\<close> delivers: every reading
  loop consumes exactly its bytes from the stream of window and disk.
\<close>

subsection \<open>The stream under the window\<close>

definition reader_ok :: "run_reader \<Rightarrow> bool" where
  "reader_ok r = (rd_pos r \<le> length (rd_window r) \<and> (rd_eof r \<longrightarrow> rd_disk r = []))"

text \<open>Documented of \<open>read(2)\<close> on a regular file: short of the end it delivers at least one byte.\<close>

definition reliable :: "run_io \<Rightarrow> bool" where
  "reliable io = (\<forall>left. \<exists>got. io_read io left = Some got \<and> (0 < left \<longrightarrow> 0 < got))"

text \<open>\<open>r'\<close> is \<open>r\<close> with the stream advanced to \<open>s\<close>; nothing else changed.\<close>

definition moved :: "run_reader \<Rightarrow> run_reader \<Rightarrow> byte list \<Rightarrow> bool" where
  "moved r r' s =
     (reader_ok r' \<and> run_stream r' = s \<and>
      r' = r\<lparr>rd_window := rd_window r', rd_pos := rd_pos r', rd_disk := rd_disk r', rd_eof := rd_eof r'\<rparr>)"

lemma moved_fields:
  assumes "moved r r' s"
  shows "reader_ok r'" "run_stream r' = s" "rd_has_positions r' = rd_has_positions r" "rd_exhausted r' = rd_exhausted r"
    "rd_file_size r' = rd_file_size r" "rd_current_id r' = rd_current_id r" "rd_docids r' = rd_docids r"
    "rd_freqs r' = rd_freqs r" "rd_positions_flat r' = rd_positions_flat r" "rd_pos_count r' = rd_pos_count r"
    "rd_pos_remaining r' = rd_pos_remaining r"
  using assms unfolding moved_def by (cases r; cases r'; simp)+

lemma moved_trans:
  assumes "moved r r1 s1" and "moved r1 r2 s2"
  shows "moved r r2 s2"
  using assms unfolding moved_def by (cases r; cases r1; cases r2) simp

lemma moved_refl: "reader_ok r \<Longrightarrow> moved r r (run_stream r)"
  by (simp add: moved_def)

lemma run_fill_ok:
  assumes io: "reliable io" and ok: "reader_ok r"
  obtains r' where "run_fill io r = Inr r'" and "moved r r' (run_stream r)" and "rd_disk r \<noteq> [] \<Longrightarrow> available r < available r'"
    and "available r' = 0 \<Longrightarrow> rd_eof r'"
proof -
  from io obtain got where got: "io_read io (length (rd_disk r)) = Some got" "0 < length (rd_disk r) \<longrightarrow> 0 < got"
    unfolding reliable_def by blast
  define n where "n = min got (min kReadChunkBytes (length (rd_disk r)))"
  have n0: "n = 0 \<longleftrightarrow> rd_disk r = []" using got(2) by (auto simp: n_def kReadChunkBytes_def min_def split: if_splits)
  have nl: "n \<le> length (rd_disk r)" by (simp add: n_def)
  let ?r = "if rd_eof r then r\<lparr>rd_window := drop (rd_pos r) (rd_window r), rd_pos := 0\<rparr>
    else r\<lparr>rd_window := drop (rd_pos r) (rd_window r) @ take n (rd_disk r), rd_pos := 0, rd_disk := drop n (rd_disk r), rd_eof := (n = 0)\<rparr>"
  have f: "run_fill io r = Inr ?r" using got(1) by (simp add: run_fill_def Let_def n_def)
  show ?thesis
  proof (rule that [OF f])
    have "reader_ok ?r" using ok n0 by (auto simp: reader_ok_def)
    then show "moved r ?r (run_stream r)" using run_fill_stream(1,2,6) [OF f] unfolding moved_def by simp
    show "rd_disk r \<noteq> [] \<Longrightarrow> available r < available ?r" 
      using ok n0 nl by (auto simp: available_def reader_ok_def)
    show "available ?r = 0 \<Longrightarrow> rd_eof ?r" using ok n0 nl by (auto simp: available_def min_def split: if_splits)
  qed
qed

lemma more_ok:
  assumes "reliable io" and "reader_ok r" and "rd_disk r \<noteq> []"
  obtains r' where "more_or_truncated io r = Inr r'" and "moved r r' (run_stream r)" and "available r < available r'"
proof (rule run_fill_ok [OF assms(1,2)])
  fix r' assume "run_fill io r = Inr r'" "moved r r' (run_stream r)" and a: "rd_disk r \<noteq> [] \<Longrightarrow> available r < available r'"
  then show ?thesis using a [OF assms(3)] by (intro that [of r']) (auto simp: more_or_truncated_def)
qed

lemma decode_varint64_loop_append:
  "decode_varint64_loop p res sh = Inr (v, nxt) \<Longrightarrow> decode_varint64_loop (p @ d) res sh = Inr (v, nxt @ d)"
  by (induction p res sh rule: decode_varint64_loop.induct) (auto simp: Let_def split: if_splits)

lemma decode_varint64_append: "decode_varint64 p = Inr (v, nxt) \<Longrightarrow> decode_varint64 (p @ d) = Inr (v, nxt @ d)"
  unfolding decode_varint64_def by (rule decode_varint64_loop_append)

lemma moved_pos:
  assumes ok: "reader_ok r" and d: "drop (rd_pos r) (rd_window r) = used @ nxt"
  shows "moved r (r\<lparr>rd_pos := length (rd_window r) - length nxt\<rparr>) (nxt @ rd_disk r)"
proof -
  have "rd_window r = take (rd_pos r) (rd_window r) @ used @ nxt" using d by (metis append_take_drop_id)
  then have "drop (length (rd_window r) - length nxt) (rd_window r) = nxt" by (metis append.assoc append_eq_conv_conj diff_add_inverse2 length_append)
  then show ?thesis using ok by (simp add: moved_def reader_ok_def run_stream_def)
qed

lemma read_run_varint_ok:
  assumes io: "reliable io" and ok: "reader_ok r" and s: "run_stream r = encode_varint64 v @ s"
  shows "\<exists>r'. read_run_varint io r = Inr (v, r') \<and> moved r r' s"
  using ok s
proof (induction "length (rd_disk r)" arbitrary: r rule: less_induct)
  case less
  let ?p = "drop (rd_pos r) (rd_window r)"
  show ?case
  proof (cases "decode_varint64 ?p")
    case (Inr vn)
    obtain v' nxt where vn: "vn = (v', nxt)" by (cases vn)
    from decode_varint64_append [OF Inr [unfolded vn], of "rd_disk r"] less.prems(2)
    have e: "v' = v" "s = nxt @ rd_disk r" by (simp_all add: run_stream_def decode_encode_varint64)
    obtain used where "?p = used @ nxt" using decode_varint64_suffix [OF Inr [unfolded vn]] by blast
    from moved_pos [OF less.prems(1) this] show ?thesis
      using Inr vn e by (subst read_run_varint.simps) auto
  next
    case (Inl e)
    have ne: "rd_disk r \<noteq> []"
    proof
      assume "rd_disk r = []"
      with less.prems(2) have "?p = encode_varint64 v @ s" by (simp add: run_stream_def)
      with Inl show False by (simp add: decode_encode_varint64)
    qed
    then have eof: "\<not> rd_eof r" using less.prems(1) by (auto simp: reader_ok_def)
    from more_ok [OF io less.prems(1) ne] obtain r1 where m: "more_or_truncated io r = Inr r1" "moved r r1 (run_stream r)" by blast
    have "length (rd_disk r1) < length (rd_disk r)" using m(1) by (rule more_or_truncated_less)
    from less.hyps [OF this] m(2) less.prems(2) obtain r2 where "read_run_varint io r1 = Inr (v, r2)" "moved r1 r2 s"
      by (auto simp: moved_def)
    then show ?thesis using Inl eof m moved_trans [OF m(2)] by (subst read_run_varint.simps) auto
  qed
qed

lemma pull_raw_ok:
  assumes io: "reliable io" and ok: "reader_ok r" and s: "run_stream r = bs @ s"
  shows "\<exists>r'. pull_raw io (length bs) r = Inr (bs, r') \<and> moved r r' s"
  using ok s
proof (induction "length bs" arbitrary: bs r rule: less_induct)
  case less
  show ?case
  proof (cases "bs = []")
    case True
    then show ?thesis using less.prems moved_refl [of r] by (subst pull_raw.simps) auto
  next
    case False
    have "\<exists>r1. (if available r = 0 then more_or_truncated io r else Inr r) = Inr r1 \<and> moved r r1 (run_stream r) \<and> 0 < available r1"
    proof (cases "available r = 0")
      case True
      then have "rd_disk r \<noteq> []" using less.prems(2) False by (auto simp: run_stream_def available_def)
      from more_ok [OF io less.prems(1) this] True show ?thesis by (metis not_less_zero gr0I)
    qed (use less.prems(1) in \<open>auto intro: moved_refl\<close>)
    then obtain r1 where r1: "(if available r = 0 then more_or_truncated io r else Inr r) = Inr r1" "moved r r1 (run_stream r)" "0 < available r1"
      by blast
    define n where "n = min (length bs) (available r1)"
    have n: "0 < n" "n \<le> length bs" "n \<le> available r1" using False r1(3) by (auto simp: n_def)
    let ?p = "drop (rd_pos r1) (rd_window r1)" and ?r2 = "r1\<lparr>rd_pos := rd_pos r1 + n\<rparr>"
    have ok1: "reader_ok r1" and s1: "run_stream r1 = bs @ s" using moved_fields(1,2) [OF r1(2)] less.prems(2) by simp_all
    have lp: "length ?p = available r1" by (simp add: available_def)
    have "take n ?p = take n (run_stream r1)" using n(3) lp by (simp add: run_stream_def)
    then have tk: "take n ?p = take n bs" using n(2) s1 by simp
    have "run_stream ?r2 = drop n (run_stream r1)" using n(3) lp by (simp add: run_stream_def add.commute)
    then have m2: "moved r1 ?r2 (drop n bs @ s)" using ok1 n(2,3) s1 by (auto simp: moved_def reader_ok_def available_def)
    have "length (drop n bs) < length bs" using n False by simp
    from less.hyps [OF this moved_fields(1,2) [OF m2]] obtain r3 where
      r3: "pull_raw io (length (drop n bs)) ?r2 = Inr (drop n bs, r3)" "moved ?r2 r3 s" by blast
    have m: "moved r r3 s" using moved_trans [OF r1(2) moved_trans [OF m2 r3(2)]] .
    have "pull_raw io (length bs) r = Inr (take n ?p @ drop n bs, r3)"
      using False r1(1) r3(1) by (subst pull_raw.simps) (simp add: Let_def n_def [symmetric])
    then show ?thesis using tk m by auto
  qed
qed


subsection \<open>Records\<close>

type_synonym run_record = "u32 \<times> u32 list \<times> u32 list \<times> u32 list"

definition raw_u32s :: "u32 list \<Rightarrow> byte list" where
  "raw_u32s xs = concat (map (le_bytes 4) xs)"

lemma length_raw_u32s [simp]: "length (raw_u32s xs) = 4 * length xs"
  by (induction xs) (simp_all add: raw_u32s_def)

lemma raw_u32s_simps [simp]: "raw_u32s [] = []" "raw_u32s (xs @ ys) = raw_u32s xs @ raw_u32s ys"
  by (simp_all add: raw_u32s_def)

lemma u32_block_raw: "u32_block (length xs) (raw_u32s xs) = xs"
  using load_bitset_bytes [of _ xs] by (auto simp: u32_block_def raw_u32s_def bitset_bytes_def intro!: nth_equalityI)

fun record_bytes :: "run_record \<Rightarrow> byte list" where
  "record_bytes (term_id, ds, fs, ps) =
     encode_varint64 (ucast term_id) @ encode_varint64 (of_nat (length ds)) @ raw_u32s ds @ raw_u32s fs @
     encode_varint64 (of_nat (length ps)) @ raw_u32s ps"

definition run_bytes :: "run_record list \<Rightarrow> byte list" where
  "run_bytes recs = concat (map record_bytes recs)"

lemma run_bytes_simps [simp]: "run_bytes [] = []" "run_bytes (x # xs) = record_bytes x @ run_bytes xs"
    "run_bytes (xs @ ys) = run_bytes xs @ run_bytes ys"
  by (simp_all add: run_bytes_def)

lemma record_bytes_nonempty: "record_bytes x \<noteq> []"
  by (cases x) simp

lemma pull_raw_u32_ok:
  assumes "reliable io" and "reader_ok r" and "run_stream r = raw_u32s xs @ s"
  shows "\<exists>r'. pull_raw_u32 io (length xs) r = Inr (xs, r') \<and> moved r r' s"
proof (cases "xs = []")
  case True
  then show ?thesis using assms moved_refl [of r] by (auto simp: pull_raw_u32_def raw_u32s_def)
next
  case False
  from pull_raw_ok [OF assms] show ?thesis using False u32_block_raw [of xs] by (auto simp: pull_raw_u32_def mult.commute)
qed

lemma read_raw_u32_ok:
  assumes "reliable io" and "reader_ok r" and "run_stream r = raw_u32s xs @ s" and size: "4 * length xs \<le> unat (rd_file_size r)"
  shows "\<exists>r'. read_raw_u32 io (of_nat (length xs)) r = Inr (xs, r') \<and> moved r r' s"
proof -
  have l: "length xs < 2 ^ 64" using size unat_u64_less [of "rd_file_size r"] by simp
  then have u: "unat (of_nat (length xs) :: u64) = length xs" by (simp add: unat_of_nat take_bit_nat_eq_self)
  have "length xs \<le> unat (rd_file_size r) div 4" using size by simp
  then have "\<not> of_nat (length xs) > rd_file_size r div 4" using u by (simp add: word_less_nat_alt unat_div not_less)
  then show ?thesis using pull_raw_u32_ok [OF assms(1-3)] u moved_refl [OF assms(2)] assms(3)
    by (auto simp: read_raw_u32_def raw_u32s_def word_unat_eq_iff)
qed

text \<open>A reader parked at a record: \<open>left\<close> are the positions of the record it has still to read.\<close>

definition run_at :: "bool \<Rightarrow> run_reader \<Rightarrow> run_record list \<Rightarrow> u32 list \<Rightarrow> bool" where
  "run_at hp r recs left =
     (reader_ok r \<and> rd_has_positions r = hp \<and> rd_pos_remaining r = of_nat (length left) \<and>
      length (run_stream r) \<le> unat (rd_file_size r) \<and> (\<forall>(term_id, ds, fs, ps) \<in> set recs. length ds = length fs) \<and>
      (case recs of
         [] \<Rightarrow> rd_exhausted r \<and> left = [] \<and> run_stream r = []
       | (term_id, ds, fs, ps) # rs \<Rightarrow>
           \<not> rd_exhausted r \<and> rd_current_id r = term_id \<and> rd_docids r = ds \<and> rd_freqs r = fs \<and>
           rd_pos_count r = of_nat (length ps) \<and> run_stream r = raw_u32s left @ run_bytes rs))"

definition record_positions :: "run_record list \<Rightarrow> u32 list" where
  "record_positions recs = (case recs of [] \<Rightarrow> [] | (term_id, ds, fs, ps) # _ \<Rightarrow> ps)"

lemma load_record:
  assumes io: "reliable io" and ok: "reader_ok r" and hp: "rd_has_positions r = hp" and z: "rd_pos_remaining r = 0"
    and ne: "\<not> rd_exhausted r" and s: "run_stream r = run_bytes recs" and size: "length (run_stream r) \<le> unat (rd_file_size r)"
    and recs: "\<forall>(term_id, ds, fs, ps) \<in> set recs. length ds = length fs"
  shows "\<exists>r'. run_advance io r = Inr r' \<and> run_at hp r' recs (record_positions recs)"
proof -
  have "\<exists>r1 at_end. (if available r = 0 then and_then (run_fill io r) (\<lambda>r. Inr (r, available r = 0 \<and> rd_eof r)) else Inr (r, False)) = Inr (r1, at_end) \<and>
      moved r r1 (run_stream r) \<and> at_end = (run_stream r = [])"
  proof (cases "available r = 0")
    case True
    have w: "drop (rd_pos r) (rd_window r) = []" using True ok by (simp add: available_def)
    show ?thesis
    proof (rule run_fill_ok [OF io ok])
      fix r1 assume f: "run_fill io r = Inr r1" "moved r r1 (run_stream r)" "rd_disk r \<noteq> [] \<Longrightarrow> available r < available r1" "available r1 = 0 \<Longrightarrow> rd_eof r1"
      have "run_stream r = rd_disk r" using w by (simp add: run_stream_def)
      moreover have "run_stream r1 = run_stream r" using f(2) by (simp add: moved_def)
      ultimately have "(available r1 = 0 \<and> rd_eof r1) = (run_stream r = [])"
        using f(3,4) by (cases "rd_disk r = []") (auto simp: run_stream_def available_def)
      then show ?thesis using True f(1,2) by auto
    qed
  next
    case False
    then have "run_stream r \<noteq> []" using ok by (auto simp: run_stream_def available_def)
    then show ?thesis using False moved_refl [OF ok] by auto
  qed
  then obtain r1 at_end where r1: "(if available r = 0 then and_then (run_fill io r) (\<lambda>r. Inr (r, available r = 0 \<and> rd_eof r)) else Inr (r, False)) = Inr (r1, at_end)"
    and m1: "moved r r1 (run_stream r)" and e: "at_end = (run_stream r = [])" by blast
  note f1 = moved_fields [OF m1]
  show ?thesis
  proof (cases recs)
    case Nil
    then have "run_stream r = []" using s by simp
    moreover have "reader_ok (r1\<lparr>rd_exhausted := True\<rparr>)" "run_stream (r1\<lparr>rd_exhausted := True\<rparr>) = run_stream r1"
      using f1(1) by (simp_all add: reader_ok_def run_stream_def)
    ultimately show ?thesis using r1 e z f1 hp Nil
      by (simp add: run_advance_def skip_remaining_positions_def run_at_def record_positions_def)
  next
    case (Cons rec rs)
    obtain term_id ds fs ps where rec: "rec = (term_id, ds, fs, ps)" by (cases rec)
    have lf: "length ds = length fs" using recs by (simp add: Cons rec)
    have at_end: "\<not> at_end" using e s Cons record_bytes_nonempty [of rec] by simp
    have s1: "run_stream r1 = encode_varint64 (ucast term_id) @ encode_varint64 (of_nat (length ds)) @ raw_u32s ds @ raw_u32s fs @
        encode_varint64 (of_nat (length ps)) @ raw_u32s ps @ run_bytes rs" using f1(2) s by (simp add: Cons rec)
    have sz: "length (run_stream r1) \<le> unat (rd_file_size r)" using size f1(2) by simp
    from read_run_varint_ok [OF io f1(1) s1] obtain r2 where v2: "read_run_varint io r1 = Inr (ucast term_id, r2)" and
      m2: "moved r1 r2 (encode_varint64 (of_nat (length ds)) @ raw_u32s ds @ raw_u32s fs @
        encode_varint64 (of_nat (length ps)) @ raw_u32s ps @ run_bytes rs)" by blast
    note f2 = moved_fields [OF m2]
    let ?r2 = "r2\<lparr>rd_current_id := term_id\<rparr>"
    have k2: "reader_ok ?r2" "run_stream ?r2 = run_stream r2" using f2(1) by (simp_all add: reader_ok_def run_stream_def)
    from read_run_varint_ok [OF io k2(1) k2(2) [unfolded f2(2)]] obtain r3 where v3: "read_run_varint io ?r2 = Inr (of_nat (length ds), r3)" and
      m3: "moved ?r2 r3 (raw_u32s ds @ raw_u32s fs @ encode_varint64 (of_nat (length ps)) @ raw_u32s ps @ run_bytes rs)" by blast
    note f3 = moved_fields [OF m3]
    have "4 * length ds \<le> unat (rd_file_size r3)" using sz unfolding s1 by (simp add: f3 f2 f1)
    from read_raw_u32_ok [OF io f3(1,2) this] obtain r4 where v4: "read_raw_u32 io (of_nat (length ds)) r3 = Inr (ds, r4)" and
      m4: "moved r3 r4 (raw_u32s fs @ encode_varint64 (of_nat (length ps)) @ raw_u32s ps @ run_bytes rs)" by blast
    note f4 = moved_fields [OF m4]
    let ?r4 = "r4\<lparr>rd_docids := ds\<rparr>"
    have k4: "reader_ok ?r4" "run_stream ?r4 = run_stream r4" using f4(1) by (simp_all add: reader_ok_def run_stream_def)
    have "4 * length fs \<le> unat (rd_file_size ?r4)" using sz unfolding s1 by (simp add: f4 f3 f2 f1)
    from read_raw_u32_ok [OF io k4(1) k4(2) [unfolded f4(2)] this] obtain r5 where v5: "read_raw_u32 io (of_nat (length fs)) ?r4 = Inr (fs, r5)" and
      m5: "moved ?r4 r5 (encode_varint64 (of_nat (length ps)) @ raw_u32s ps @ run_bytes rs)" by blast
    note f5 = moved_fields [OF m5]
    let ?r5 = "r5\<lparr>rd_freqs := fs\<rparr>"
    have k5: "reader_ok ?r5" "run_stream ?r5 = run_stream r5" using f5(1) by (simp_all add: reader_ok_def run_stream_def)
    from read_run_varint_ok [OF io k5(1) k5(2) [unfolded f5(2)]] obtain r6 where v6: "read_run_varint io ?r5 = Inr (of_nat (length ps), r6)" and
      m6: "moved ?r5 r6 (raw_u32s ps @ run_bytes rs)" by blast
    note f6 = moved_fields [OF m6]
    let ?r = "r6\<lparr>rd_positions_flat := [], rd_pos_count := of_nat (length ps), rd_pos_remaining := of_nat (length ps)\<rparr>"
    have t: "\<not> (0xFFFFFFFF :: u64) < ucast term_id"
      using unat_u32_less [of term_id] by (simp add: word_less_nat_alt)
    have tt: "(ucast (ucast term_id :: u64) :: u32) = term_id" by (rule bit_word_eqI) (simp add: bit_simps)
    have "run_advance io r = Inr ?r"
      using r1 at_end z v2 v3 v4 v5 v6 t tt lf by (simp add: run_advance_def skip_remaining_positions_def)
    moreover have st: "reader_ok ?r" "run_stream ?r = raw_u32s ps @ run_bytes rs"
      using f6(1,2) by (simp_all add: reader_ok_def run_stream_def)
    moreover have "length (raw_u32s ps @ run_bytes rs) \<le> unat (rd_file_size r)" using sz unfolding s1 by simp
    ultimately have "run_at hp ?r recs (record_positions recs)"
      unfolding run_at_def using hp ne recs by (simp add: Cons rec record_positions_def f6 f5 f4 f3 f2 f1)
    with \<open>run_advance io r = Inr ?r\<close> show ?thesis by blast
  qed
qed


text \<open>Opening a run, asking for its positions as a whole or piecewise, and moving on.\<close>

lemma run_reader_open_ok:
  assumes io: "reliable io" "io_open_ok io" "io_stat_ok io" and l: "length (run_bytes recs) < 2 ^ 64"
    and recs: "\<forall>(term_id, ds, fs, ps) \<in> set recs. length ds = length fs"
  shows "\<exists>r. run_reader_open io (run_bytes recs) hp = Inr r \<and> run_at hp r recs (record_positions recs)"
  unfolding run_reader_open_def using io l by (simp, intro load_record) (use recs in \<open>simp_all add: reader_ok_def run_stream_def\<close>)

lemma run_at_advance:
  assumes io: "reliable io" and at: "run_at hp r (rec # rs) left"
  shows "\<exists>r'. run_advance io r = Inr r' \<and> run_at hp r' rs (record_positions rs)"
proof -
  obtain term_id ds fs ps where rec: "rec = (term_id, ds, fs, ps)" by (cases rec)
  have f: "reader_ok r" "run_stream r = raw_u32s left @ run_bytes rs" "4 * length left \<le> unat (rd_file_size r)"
    "rd_pos_remaining r = of_nat (length left)" "length (run_stream r) \<le> unat (rd_file_size r)" "\<not> rd_exhausted r" "rd_has_positions r = hp"
    and recs: "\<forall>(term_id, ds, fs, ps) \<in> set rs. length ds = length fs" using at by (auto simp: run_at_def rec)
  have "\<exists>r1. skip_remaining_positions io r = Inr r1 \<and> moved (r\<lparr>rd_pos_remaining := 0\<rparr>) r1 (run_bytes rs)"
  proof (cases "rd_pos_remaining r = 0")
    case True
    moreover have "length left < 2 ^ 64" using f(3) unat_u64_less [of "rd_file_size r"] by simp
    ultimately have "left = []" using f(4) by (simp add: word_unat_eq_iff)
    then show ?thesis using True f(1,2) by (auto simp: skip_remaining_positions_def moved_def)
  next
    case False
    from read_raw_u32_ok [OF io f(1,2,3)] obtain r1 where r1: "read_raw_u32 io (of_nat (length left)) r = Inr (left, r1)" "moved r r1 (run_bytes rs)" by blast
    have "moved (r\<lparr>rd_pos_remaining := 0\<rparr>) (r1\<lparr>rd_pos_remaining := 0\<rparr>) (run_bytes rs)"
      using r1(2) unfolding moved_def by (cases r; cases r1) (simp add: reader_ok_def run_stream_def)
    then show ?thesis using r1(1) False f(4) by (auto simp: skip_remaining_positions_def)
  qed
  then obtain r1 where r1: "skip_remaining_positions io r = Inr r1" "moved (r\<lparr>rd_pos_remaining := 0\<rparr>) r1 (run_bytes rs)" by blast
  note m = moved_fields [OF r1(2)]
  have "\<exists>r'. run_advance io r1 = Inr r' \<and> run_at hp r' rs (record_positions rs)"
    using f m recs by (intro load_record [OF io]) simp_all
  moreover have "run_advance io r1 = run_advance io r"
    unfolding run_advance_def using r1(1) m by (simp add: skip_remaining_positions_def)
  ultimately show ?thesis by simp
qed

lemma run_at_materialize:
  assumes io: "reliable io" and at: "run_at True r (rec # rs) left"
  shows "\<exists>r'. materialize_positions io r = Inr r' \<and> run_at True r' (rec # rs) [] \<and> rd_positions_flat r' = left"
proof -
  obtain term_id ds fs ps where rec: "rec = (term_id, ds, fs, ps)" by (cases rec)
  have f: "reader_ok r" "run_stream r = raw_u32s left @ run_bytes rs" "4 * length left \<le> unat (rd_file_size r)"
    "rd_pos_remaining r = of_nat (length left)" "length (run_stream r) \<le> unat (rd_file_size r)"
    using at by (auto simp: run_at_def rec)
  show ?thesis
  proof (cases "left = []")
    case True
    have "run_stream (r\<lparr>rd_positions_flat := []\<rparr>) = run_stream r" "reader_ok (r\<lparr>rd_positions_flat := []\<rparr>) = reader_ok r"
      by (simp_all add: run_stream_def reader_ok_def)
    then have "run_at True (r\<lparr>rd_positions_flat := []\<rparr>) (rec # rs) []" using at unfolding True run_at_def rec by auto
    then show ?thesis using True f(4) by (simp add: materialize_positions_def)
  next
    case False
    have "length left < 2 ^ 64" using f(3) unat_u64_less [of "rd_file_size r"] by simp
    then have nz: "of_nat (length left) \<noteq> (0 :: u64)" using False by (simp add: word_unat_eq_iff)
    from read_raw_u32_ok [OF io f(1,2,3)] obtain r1 where r1: "read_raw_u32 io (of_nat (length left)) r = Inr (left, r1)" "moved r r1 (run_bytes rs)" by blast
    let ?r = "r1\<lparr>rd_positions_flat := left, rd_pos_remaining := 0\<rparr>"
    note m = moved_fields [OF r1(2)]
    have k: "reader_ok ?r" "run_stream ?r = run_bytes rs" using m(1,2) by (simp_all add: reader_ok_def run_stream_def)
    have "length (run_bytes rs) \<le> unat (rd_file_size r)" using f(2,5) by simp
    then have "run_at True ?r (rec # rs) []" using at k by (auto simp: run_at_def rec m)
    moreover have "rd_has_positions r1" using at m by (simp add: run_at_def)
    then have "materialize_positions io r = Inr ?r" using r1(1) f(4) nz by (simp add: materialize_positions_def)
    ultimately show ?thesis by auto
  qed
qed

lemma run_at_stream:
  assumes io: "reliable io" and at: "run_at hp r (rec # rs) (ps @ left)"
  shows "\<exists>r'. stream_positions io (length ps) r = Inr (ps, r') \<and> run_at hp r' (rec # rs) left"
proof -
  obtain term_id ds fs qs where rec: "rec = (term_id, ds, fs, qs)" by (cases rec)
  have f: "reader_ok r" "run_stream r = raw_u32s ps @ raw_u32s left @ run_bytes rs" "4 * length (ps @ left) \<le> unat (rd_file_size r)"
    "rd_pos_remaining r = of_nat (length (ps @ left))" "length (run_stream r) \<le> unat (rd_file_size r)"
    using at by (auto simp: run_at_def rec)
  show ?thesis
  proof (cases "ps = []")
    case True
    then show ?thesis using at by (simp add: stream_positions_def)
  next
    case False
    have l: "length ps + length left < 2 ^ 64" using f(3) unat_u64_less [of "rd_file_size r"] by simp
    from pull_raw_u32_ok [OF io f(1,2)] obtain r1 where r1: "pull_raw_u32 io (length ps) r = Inr (ps, r1)" "moved r r1 (raw_u32s left @ run_bytes rs)" by blast
    let ?r = "r1\<lparr>rd_pos_remaining := rd_pos_remaining r1 - of_nat (length ps)\<rparr>"
    note m = moved_fields [OF r1(2)]
    have k: "reader_ok ?r" "run_stream ?r = raw_u32s left @ run_bytes rs" using m(1,2) by (simp_all add: reader_ok_def run_stream_def)
    have "length (raw_u32s left @ run_bytes rs) \<le> unat (rd_file_size r)" using f(2,5) by simp
    then have "run_at hp ?r (rec # rs) left" using at k by (auto simp: run_at_def rec m)
    moreover have "unat (rd_pos_remaining r) = length (ps @ left)" unfolding f(4) using l by (intro unat_of_nat_u64) simp
    then have "\<not> unat (rd_pos_remaining r) < length ps" by simp
    then have "stream_positions io (length ps) r = Inr (ps, ?r)" using r1(1) False by (simp add: stream_positions_def)
    ultimately show ?thesis by blast
  qed
qed


subsection \<open>Writing a run\<close>

definition term_record :: "u32 \<Rightarrow> term_postings \<Rightarrow> run_record" where
  "term_record term_id tp = (term_id, tp_docids tp, tp_freqs tp, tp_positions_flat tp)"

text \<open>What the writer holds is on disk or staged.\<close>

definition rw_bytes :: "run_writer \<Rightarrow> byte list" where
  "rw_bytes w = rw_out w @ rw_buf w"

lemma run_flush_bytes:
  assumes "run_flush io w = Inr w'"
  shows "rw_bytes w' = rw_bytes w" and "rw_buf w' = []" and "rw_open w' = rw_open w"
  using assms by (auto simp: run_flush_def rw_bytes_def dest!: WriteAll_Inr split: if_splits)

lemma write_term_bytes:
  assumes "write_term io term_id tp w = Inr w'"
  shows "rw_bytes w' = rw_bytes w @ record_bytes (term_record term_id tp)" and "rw_open w' = rw_open w"
proof -
  define buf where "buf = rw_buf w @ record_bytes (term_record term_id tp)"
  have b: "AppendRawU32 (AppendVarint (AppendRawU32 (AppendRawU32 (AppendVarint (AppendVarint (rw_buf w) (ucast term_id))
      (of_nat (length (tp_docids tp)))) (tp_docids tp)) (tp_freqs tp)) (of_nat (length (tp_positions_flat tp)))) (tp_positions_flat tp) = buf"
    by (simp add: AppendVarint_def AppendRawU32_def term_record_def buf_def raw_u32s_def)
  have "(if kWriteFlushBytes \<le> length buf then run_flush io (w\<lparr>rw_buf := buf\<rparr>) else Inr (w\<lparr>rw_buf := buf\<rparr>)) = Inr w'"
    using assms unfolding write_term_def Let_def b .
  then show "rw_bytes w' = rw_bytes w @ record_bytes (term_record term_id tp)" and "rw_open w' = rw_open w"
    using run_flush_bytes(1,3) [of io "w\<lparr>rw_buf := buf\<rparr>" w'] by (auto simp: rw_bytes_def buf_def split: if_splits)
qed

lemma run_close_bytes:
  assumes "run_close io w = Inr w'" and "rw_open w"
  shows "rw_out w' = rw_bytes w" and "rw_buf w' = []"
  using assms run_flush_bytes by (auto simp: run_close_def Let_def rw_bytes_def split: if_splits)

end
