(* ===== verification/Spill_Merge_Correct.thy ===== *)
theory Spill_Merge_Correct
  imports Spill_Merge Spill_Run_Correct
begin

text \<open>
  The k-way merge of sorted runs delivers, for each string that occurs, in ascending order, the postings of the
  string joined over the runs in run order, whether the positions are materialised or streamed.
\<close>

subsection \<open>What is delivered\<close>

type_synonym posting_arrays = "u32 list \<times> u32 list \<times> u32 list"

text \<open>One run's postings after another's; the document at the seam is one document.\<close>

fun join :: "posting_arrays \<Rightarrow> posting_arrays \<Rightarrow> posting_arrays" where
  "join (ds, fs, ps) (ds', fs', ps') =
     (if ds' = [] then (ds, fs, ps)
      else if ds \<noteq> [] \<and> last ds = hd ds' then (ds @ tl ds', (butlast fs @ [last fs + hd fs']) @ tl fs', ps @ ps')
      else (ds @ ds', fs @ fs', ps @ ps'))"

definition record_term :: "term_bytes list \<Rightarrow> run_record \<Rightarrow> term_bytes" where
  "record_term vocab rec = vocab ! unat (fst rec)"

definition parts :: "term_bytes list \<Rightarrow> term_bytes \<Rightarrow> run_record list list \<Rightarrow> posting_arrays list" where
  "parts vocab s runs = map snd (filter (\<lambda>rec. record_term vocab rec = s) (concat runs))"

definition joined :: "term_bytes list \<Rightarrow> term_bytes \<Rightarrow> run_record list list \<Rightarrow> posting_arrays" where
  "joined vocab s runs = foldl join ([], [], []) (parts vocab s runs)"

definition run_terms :: "term_bytes list \<Rightarrow> run_record list list \<Rightarrow> term_bytes set" where
  "run_terms vocab runs = record_term vocab ` set (concat runs)"

text \<open>The positions of a term with many documents are handed over as a pump when the consumer allows it.\<close>

definition deliver :: "bool \<Rightarrow> bool \<Rightarrow> term_bytes \<Rightarrow> posting_arrays \<Rightarrow> term_postings" where
  "deliver hp allow_stream s = (\<lambda>(ds, fs, ps).
     if allow_stream \<and> hp \<and> ps \<noteq> [] \<and> kSlimDfThreshold \<le> length ds
     then (new_postings s)\<lparr>tp_docids := ds, tp_freqs := fs, tp_pos_pump := Some ps, tp_pos_total := of_nat (length ps)\<rparr>
     else (new_postings s)\<lparr>tp_docids := ds, tp_freqs := fs, tp_positions_flat := ps\<rparr>)"

definition record_ok :: "bool \<Rightarrow> term_bytes list \<Rightarrow> run_record \<Rightarrow> bool" where
  "record_ok hp vocab = (\<lambda>(term_id, ds, fs, ps).
     unat term_id < length vocab \<and> ds \<noteq> [] \<and> length ds = length fs \<and>
     (if hp then sum_list (map unat fs) = length ps else ps = []))"

definition runs_ok :: "bool \<Rightarrow> term_bytes list \<Rightarrow> run_record list list \<Rightarrow> bool" where
  "runs_ok hp vocab runs =
     (\<forall>recs \<in> set runs. (\<forall>rec \<in> set recs. record_ok hp vocab rec) \<and> sorted_wrt (<) (map (record_term vocab) recs))"

subsection \<open>Readers and the heap\<close>

definition readers_at :: "bool \<Rightarrow> run_readers \<Rightarrow> run_record list list \<Rightarrow> u32 list list \<Rightarrow> bool" where
  "readers_at hp readers runs lefts =
     (length readers = length runs \<and> length lefts = length runs \<and>
      (\<forall>i < length runs. reliable (fst (readers ! i)) \<and> run_at hp (snd (readers ! i)) (runs ! i) (lefts ! i)))"

lemma readers_at_reader:
  assumes "readers_at hp readers runs lefts" and "i < length runs"
  obtains io r where "reader_at readers i = Inr (io, r)" and "reliable io" and "run_at hp r (runs ! i) (lefts ! i)" and "readers ! i = (io, r)"
  using assms by (cases "readers ! i") (auto simp: readers_at_def reader_at_def)

lemma readers_at_update:
  assumes "readers_at hp readers runs lefts" and "i < length runs" and "reliable io" and "run_at hp r recs left"
  shows "readers_at hp (readers[i := (io, r)]) (runs[i := recs]) (lefts[i := left])"
  using assms by (auto simp: readers_at_def nth_list_update)

lemma run_at_current:
  assumes "run_at hp r ((term_id, ds, fs, ps) # recs) left"
  shows "rd_current_id r = term_id" "rd_docids r = ds" "rd_freqs r = fs" "rd_pos_count r = of_nat (length ps)" "\<not> rd_exhausted r"
    "rd_pos_remaining r = of_nat (length left)" "4 * length left \<le> unat (rd_file_size r)"
  using assms by (auto simp: run_at_def)

definition heads :: "run_record list list \<Rightarrow> heap_item set" where
  "heads runs = {(fst (hd (runs ! i)), i) | i. i < length runs \<and> runs ! i \<noteq> []}"

definition heap_ok :: "term_bytes list \<Rightarrow> run_record list list \<Rightarrow> heap_item list \<Rightarrow> bool" where
  "heap_ok vocab runs heap = (sorted (map (heap_key vocab) heap) \<and> distinct (map snd heap) \<and> set heap = heads runs)"

lemma set_heap_push [simp]: "set (heap_push vocab item heap) = insert item (set heap)"
  by (simp add: heap_push_def set_insort_key)

lemma sorted_heap_push: "sorted (map (heap_key vocab) heap) \<Longrightarrow> sorted (map (heap_key vocab) (heap_push vocab item heap))"
  by (simp add: heap_push_def sorted_insort_key)

lemma distinct_heap_push: "distinct (map snd heap) \<Longrightarrow> snd item \<notin> snd ` set heap \<Longrightarrow> distinct (map snd (heap_push vocab item heap))"
  by (induction heap) (auto simp: heap_push_def set_insort_key)

subsection \<open>Gathering\<close>

lemma gather_eq:
  assumes "readers_at hp readers runs lefts" and "set heap \<subseteq> heads runs" and "sorted (map (heap_key vocab) heap)"
    and "\<forall>item \<in> set heap. s \<le> vocab ! unat (fst item)"
  shows "gather vocab s readers heap (matching, td, tp) =
    (let mine = filter (\<lambda>item. vocab ! unat (fst item) = s) heap in
     Inr ((matching @ map snd mine, td + of_nat (sum_list (map (\<lambda>i. length (fst (snd (hd (runs ! i))))) (map snd mine))),
       tp + of_nat (sum_list (map (\<lambda>i. length (snd (snd (snd (hd (runs ! i)))))) (map snd mine)))),
       filter (\<lambda>item. vocab ! unat (fst item) \<noteq> s) heap))"
  using assms(2-4)
proof (induction heap arbitrary: matching td tp)
  case (Cons item heap)
  obtain term_id i where item: "item = (term_id, i)" by (cases item)
  show ?case
  proof (cases "vocab ! unat term_id = s")
    case True
    have i: "i < length runs" "runs ! i \<noteq> []" using Cons.prems(1) by (auto simp: item heads_def)
    obtain tid ds fs ps recs where recs: "runs ! i = (tid, ds, fs, ps) # recs" using i(2) by (cases "runs ! i") auto
    obtain io r where at: "reader_at readers i = Inr (io, r)" "run_at hp r (runs ! i) (lefts ! i)"
      by (rule readers_at_reader [OF assms(1) i(1)])
    note c = run_at_current [OF at(2) [unfolded recs]]
    have "gather vocab s readers heap (matching @ [i], td + of_nat (length ds), tp + of_nat (length ps)) =
        (let mine = filter (\<lambda>item. vocab ! unat (fst item) = s) heap in
     Inr ((matching @ [i] @ map snd mine, td + of_nat (length ds) + of_nat (sum_list (map (\<lambda>i. length (fst (snd (hd (runs ! i))))) (map snd mine))),
       tp + of_nat (length ps) + of_nat (sum_list (map (\<lambda>i. length (snd (snd (snd (hd (runs ! i)))))) (map snd mine)))),
       filter (\<lambda>item. vocab ! unat (fst item) \<noteq> s) heap))" using Cons.IH Cons.prems by simp
    then show ?thesis using True at(1) c by (simp add: item recs Let_def add.assoc)
  next
    case False
    have lt: "s < vocab ! unat term_id" using False Cons.prems(3) by (auto simp: item)
    have "s < vocab ! unat (fst it)" if "it \<in> set heap" for it
    proof -
      have "heap_key vocab item \<le> heap_key vocab it" using Cons.prems(2) that by auto
      then have "vocab ! unat term_id \<le> vocab ! unat (fst it)" by (auto simp: heap_key_def item less_eq_prod_def)
      with lt show ?thesis by simp
    qed
    then have "filter (\<lambda>item. vocab ! unat (fst item) = s) heap = []" "filter (\<lambda>item. vocab ! unat (fst item) \<noteq> s) heap = heap"
      by (auto simp: filter_empty_conv filter_id_conv)
    then show ?thesis using False by (simp add: item)
  qed
qed simp


subsection \<open>Concatenating\<close>

text \<open>The postings under construction, as arrays.\<close>

definition holding :: "term_bytes \<Rightarrow> posting_arrays \<Rightarrow> term_postings" where
  "holding s = (\<lambda>(ds, fs, ps). (new_postings s)\<lparr>tp_docids := ds, tp_freqs := fs, tp_positions_flat := ps\<rparr>)"

lemma Concat_eq:
  assumes rec: "record_ok hp vocab (term_id, ds, fs, ps)" and r: "rd_docids r = ds" "rd_freqs r = fs" "hp \<Longrightarrow> rd_positions_flat r = ps"
  shows "Concat (holding s arrays) r hp = Inr (holding s (join arrays (ds, fs, ps)))"
proof -
  obtain d f p where a: "arrays = (d, f, p)" by (cases arrays)
  have ok: "ds \<noteq> []" "length ds = length fs" "hp \<Longrightarrow> sum_list (map unat fs) = length ps" "\<not> hp \<Longrightarrow> ps = []"
    using rec by (auto simp: record_ok_def split: if_splits)
  have "unat (hd fs) \<le> length ps" if hp
    using ok(1,2) ok(3) [OF that] by (cases fs) (auto simp flip: ok(3))
  then show ?thesis using r ok by (cases hp) (auto simp: Concat_def holding_def new_postings_def a Let_def drop_Suc)
qed

lemma ConcatDocsFreqs_eq:
  assumes "ds \<noteq> []" and "rd_docids r = ds" "rd_freqs r = fs"
  shows "ConcatDocsFreqs (holding s (d, f, [])) r = holding s (fst (join (d, f, p) (ds, fs, ps)), fst (snd (join (d, f, p) (ds, fs, ps))), [])"
  using assms by (auto simp: ConcatDocsFreqs_def holding_def new_postings_def Let_def drop_Suc)

text \<open>The record a run is parked at.\<close>

abbreviation current_of :: "run_record list list \<Rightarrow> nat \<Rightarrow> posting_arrays" where
  "current_of runs i \<equiv> snd (hd (runs ! i))"

definition positions_of :: "run_record list list \<Rightarrow> nat \<Rightarrow> u32 list" where
  "positions_of runs i = snd (snd (current_of runs i))"

lemma positions_of_record: "runs ! i \<noteq> [] \<Longrightarrow> record_positions (runs ! i) = positions_of runs i"
  by (cases "runs ! i") (auto simp: record_positions_def positions_of_def)

definition all_ok :: "bool \<Rightarrow> term_bytes list \<Rightarrow> run_record list list \<Rightarrow> bool" where
  "all_ok hp vocab runs = (\<forall>recs \<in> set runs. \<forall>rec \<in> set recs. record_ok hp vocab rec)"

lemma all_ok_hd: "all_ok hp vocab runs \<Longrightarrow> i < length runs \<Longrightarrow> runs ! i \<noteq> [] \<Longrightarrow> record_ok hp vocab (hd (runs ! i))"
  by (metis all_ok_def hd_in_set nth_mem)

lemma concat_matching_eq:
  assumes "all_ok hp vocab runs" and "readers_at hp readers runs lefts" and "distinct matching"
    and "\<forall>i \<in> set matching. i < length runs \<and> runs ! i \<noteq> [] \<and> lefts ! i = positions_of runs i"
  shows "\<exists>readers' lefts'. concat_matching hp False matching (readers, holding s arrays) =
      Inr (readers', holding s (foldl join arrays (map (current_of runs) matching))) \<and>
    readers_at hp readers' runs lefts' \<and> (\<forall>i. i \<notin> set matching \<longrightarrow> lefts' ! i = lefts ! i)"
  using assms(2-4)
proof (induction matching arbitrary: readers lefts arrays)
  case (Cons i matching)
  have i: "i < length runs" "runs ! i \<noteq> []" "lefts ! i = positions_of runs i" using Cons.prems(3) by auto
  obtain term_id ds fs ps recs where recs: "runs ! i = (term_id, ds, fs, ps) # recs" using i(2) by (cases "runs ! i") auto
  have ok: "record_ok hp vocab (term_id, ds, fs, ps)" using all_ok_hd [OF assms(1) i(1,2)] recs by simp
  have ps: "positions_of runs i = ps" by (simp add: positions_of_def recs)
  obtain io r where at: "reader_at readers i = Inr (io, r)" "reliable io" "run_at hp r (runs ! i) (lefts ! i)"
    by (rule readers_at_reader [OF Cons.prems(1) i(1)])
  have "\<exists>r' left. (if hp then materialize_positions io r else Inr r) = Inr r' \<and> run_at hp r' (runs ! i) left \<and> (hp \<longrightarrow> rd_positions_flat r' = ps)"
  proof (cases hp)
    case True
    from run_at_materialize [OF at(2), of r "(term_id, ds, fs, ps)" recs "lefts ! i"] at(3) True recs obtain r' where
      "materialize_positions io r = Inr r'" "run_at True r' (runs ! i) []" "rd_positions_flat r' = lefts ! i" by auto
    then show ?thesis using True i(3) ps by auto
  qed (use at(3) in auto)
  then obtain r' left where r': "(if hp then materialize_positions io r else Inr r) = Inr r'" "run_at hp r' (runs ! i) left" "hp \<Longrightarrow> rd_positions_flat r' = ps" by blast
  note c = run_at_current [OF r'(2) [unfolded recs]]
  have rd: "readers_at hp (readers[i := (io, r')]) runs (lefts[i := left])"
    using readers_at_update [OF Cons.prems(1) i(1) at(2) r'(2)] by simp
  have nin: "i \<notin> set matching" using Cons.prems(2) by simp
  have dm: "distinct matching" using Cons.prems(2) by simp
  have "\<forall>j \<in> set matching. j < length runs \<and> runs ! j \<noteq> [] \<and> lefts[i := left] ! j = positions_of runs j"
    using Cons.prems(3) nin by (metis list.set_intros(2) nth_list_update_neq)
  from Cons.IH [OF rd dm this, of "join arrays (ds, fs, ps)"] obtain readers' lefts' where
    ih: "concat_matching hp False matching (readers[i := (io, r')], holding s (join arrays (ds, fs, ps))) =
        Inr (readers', holding s (foldl join (join arrays (ds, fs, ps)) (map (current_of runs) matching)))"
      "readers_at hp readers' runs lefts'" "\<forall>j. j \<notin> set matching \<longrightarrow> lefts' ! j = lefts[i := left] ! j" by blast
  have "concat_matching hp False (i # matching) (readers, holding s arrays) =
      Inr (readers', holding s (foldl join arrays (map (current_of runs) (i # matching))))"
    using at(1) r'(1) Concat_eq [OF ok c(2,3) r'(3), of s arrays] ih(1) recs by simp
  moreover have "\<forall>j. j \<notin> set (i # matching) \<longrightarrow> lefts' ! j = lefts ! j" using ih(3) by simp
  ultimately show ?case using ih(2) by blast
qed auto

lemma concat_matching_stream_eq:
  assumes "all_ok hp vocab runs" and "readers_at hp readers runs lefts"
    and "\<forall>i \<in> set matching. i < length runs \<and> runs ! i \<noteq> []"
  shows "concat_matching hp True matching (readers, holding s (fst arrays, fst (snd arrays), [])) =
      Inr (readers, let (ds, fs, ps) = foldl join arrays (map (current_of runs) matching) in holding s (ds, fs, []))"
  using assms(3)
proof (induction matching arbitrary: arrays)
  case (Cons i matching)
  have i: "i < length runs" "runs ! i \<noteq> []" using Cons.prems by auto
  obtain term_id ds fs ps recs where recs: "runs ! i = (term_id, ds, fs, ps) # recs" using i(2) by (cases "runs ! i") auto
  have ds: "ds \<noteq> []" using all_ok_hd [OF assms(1) i] recs by (simp add: record_ok_def)
  obtain d f p where a: "arrays = (d, f, p)" by (cases arrays)
  obtain io r where at: "reader_at readers i = Inr (io, r)" "run_at hp r (runs ! i) (lefts ! i)"
    by (rule readers_at_reader [OF assms(2) i(1)])
  note c = run_at_current [OF at(2) [unfolded recs]]
  show ?case using Cons.IH [of "join arrays (ds, fs, ps)"] Cons.prems at(1) ConcatDocsFreqs_eq [OF ds c(2,3), of s d f p ps]
    by (simp add: recs a del: join.simps)
qed (simp split: prod.split)

lemma join_positions: "ds \<noteq> [] \<Longrightarrow> snd (snd (join arrays (ds, fs, ps))) = snd (snd arrays) @ ps"
  by (cases arrays) auto

lemma joined_positions:
  assumes "all_ok hp vocab runs" and "\<forall>i \<in> set matching. i < length runs \<and> runs ! i \<noteq> []"
  shows "snd (snd (foldl join arrays (map (current_of runs) matching))) = snd (snd arrays) @ concat (map (positions_of runs) matching)"
  using assms(2)
proof (induction matching arbitrary: arrays)
  case (Cons i matching)
  obtain term_id ds fs ps recs where recs: "runs ! i = (term_id, ds, fs, ps) # recs" using Cons.prems by (cases "runs ! i") auto
  have "ds \<noteq> []" using all_ok_hd [OF assms(1), of i] Cons.prems recs by (simp add: record_ok_def)
  then show ?case using Cons.IH Cons.prems join_positions [of ds arrays fs ps] by (simp add: recs positions_of_def)
qed simp

lemma length_join: "length (fst (join arrays arrays')) \<le> length (fst arrays) + length (fst arrays')"
  by (cases arrays; cases arrays') auto

lemma joined_docs_length:
  "length (fst (foldl join arrays as)) \<le> length (fst arrays) + sum_list (map (length \<circ> fst) as)"
proof (induction as arbitrary: arrays)
  case (Cons a as)
  show ?case using Cons.IH [of "join arrays a"] length_join [of arrays a] by simp
qed simp

subsection \<open>Positions read late\<close>

lemma materialize_matching_eq:
  assumes "readers_at True readers runs lefts" and "distinct matching"
    and "\<forall>i \<in> set matching. i < length runs \<and> runs ! i \<noteq> [] \<and> lefts ! i = positions_of runs i"
  shows "\<exists>readers' lefts'. materialize_matching matching (readers, holding s (ds, fs, ps)) =
      Inr (readers', holding s (ds, fs, ps @ concat (map (positions_of runs) matching))) \<and>
    readers_at True readers' runs lefts' \<and> (\<forall>i. i \<notin> set matching \<longrightarrow> lefts' ! i = lefts ! i)"
  using assms
proof (induction matching arbitrary: readers lefts ps)
  case (Cons i matching)
  have i: "i < length runs" "runs ! i \<noteq> []" "lefts ! i = positions_of runs i" using Cons.prems(3) by auto
  obtain io r where at: "reader_at readers i = Inr (io, r)" "reliable io" "run_at True r (runs ! i) (lefts ! i)"
    by (rule readers_at_reader [OF Cons.prems(1) i(1)])
  obtain rec recs where recs: "runs ! i = rec # recs" using i(2) by (cases "runs ! i") auto
  from run_at_materialize [OF at(2) at(3) [unfolded recs]] obtain r' where r': "materialize_positions io r = Inr r'"
    "run_at True r' (runs ! i) []" "rd_positions_flat r' = lefts ! i" by (auto simp: recs)
  have rd: "readers_at True (readers[i := (io, r')]) runs (lefts[i := []])"
    using readers_at_update [OF Cons.prems(1) i(1) at(2) r'(2)] by simp
  have nin: "i \<notin> set matching" using Cons.prems(2) by simp
  have dm: "distinct matching" using Cons.prems(2) by simp
  have "\<forall>j \<in> set matching. j < length runs \<and> runs ! j \<noteq> [] \<and> lefts[i := []] ! j = positions_of runs j"
    using Cons.prems(3) nin by (metis list.set_intros(2) nth_list_update_neq)
  from Cons.IH [OF rd dm this, of "ps @ positions_of runs i"] obtain readers' lefts' where
    ih: "materialize_matching matching (readers[i := (io, r')], holding s (ds, fs, ps @ positions_of runs i)) =
        Inr (readers', holding s (ds, fs, (ps @ positions_of runs i) @ concat (map (positions_of runs) matching)))"
      "readers_at True readers' runs lefts'" "\<forall>j. j \<notin> set matching \<longrightarrow> lefts' ! j = lefts[i := []] ! j" by blast
  have "(holding s (ds, fs, ps))\<lparr>tp_positions_flat := ps @ positions_of runs i\<rparr> = holding s (ds, fs, ps @ positions_of runs i)"
    "tp_positions_flat (holding s (ds, fs, ps)) = ps"
    by (simp_all add: holding_def new_postings_def)
  then have "materialize_matching (i # matching) (readers, holding s (ds, fs, ps)) =
      Inr (readers', holding s (ds, fs, ps @ concat (map (positions_of runs) (i # matching))))"
    using at(1) r'(1,3) i(3) ih(1) by simp
  moreover have "\<forall>j. j \<notin> set (i # matching) \<longrightarrow> lefts' ! j = lefts ! j" using ih(3) by simp
  ultimately show ?case using ih(2) by blast
qed auto

lemma pos_pump_eq:
  assumes "readers_at hp readers runs lefts" and "distinct matching"
    and "\<forall>i \<in> set matching. i < length runs \<and> runs ! i \<noteq> [] \<and> lefts ! i = positions_of runs i"
  shows "\<exists>readers' lefts'. pos_pump matching (length (concat (map (positions_of runs) matching))) readers =
      (concat (map (positions_of runs) matching), Inr (), readers') \<and>
    readers_at hp readers' runs lefts' \<and> (\<forall>i. i \<notin> set matching \<longrightarrow> lefts' ! i = lefts ! i)"
  using assms
proof (induction matching arbitrary: readers lefts)
  case (Cons i matching)
  have i: "i < length runs" "runs ! i \<noteq> []" "lefts ! i = positions_of runs i" using Cons.prems(3) by auto
  obtain io r where at: "reader_at readers i = Inr (io, r)" "reliable io" "run_at hp r (runs ! i) (lefts ! i)"
    by (rule readers_at_reader [OF Cons.prems(1) i(1)])
  obtain term_id ds fs ps recs where recs: "runs ! i = (term_id, ds, fs, ps) # recs" using i(2) by (cases "runs ! i") auto
  have ps: "positions_of runs i = ps" by (simp add: positions_of_def recs)
  note c = run_at_current [OF at(3) [unfolded recs i(3) ps]]
  have l: "length ps < 2 ^ 64" using c(7) unat_u64_less [of "rd_file_size r"] i(3) ps by simp
  have nin: "i \<notin> set matching" using Cons.prems(2) by simp
  show ?case
  proof (cases "ps = []")
    case True
    have dm: "distinct matching" using Cons.prems(2) by simp
    have "\<forall>j \<in> set matching. j < length runs \<and> runs ! j \<noteq> [] \<and> lefts ! j = positions_of runs j" using Cons.prems(3) by simp
    from Cons.IH [OF Cons.prems(1) dm this] obtain readers' lefts' where
      ih: "pos_pump matching (length (concat (map (positions_of runs) matching))) readers = (concat (map (positions_of runs) matching), Inr (), readers')"
      "readers_at hp readers' runs lefts'" "\<forall>j. j \<notin> set matching \<longrightarrow> lefts' ! j = lefts ! j" by blast
    show ?thesis
    proof (cases "concat (map (positions_of runs) matching) = []")
      case nil: True
      then have "pos_pump (i # matching) (length (concat (map (positions_of runs) (i # matching)))) readers =
          (concat (map (positions_of runs) (i # matching)), Inr (), readers)" by (simp add: ps True)
      then show ?thesis using Cons.prems(1) by blast
    next
      case False
      then have "pos_pump (i # matching) (length (concat (map (positions_of runs) (i # matching)))) readers =
          (concat (map (positions_of runs) (i # matching)), Inr (), readers')"
        using ih(1) at(1) c(6) by (auto simp: ps True simp del: length_concat)
      then show ?thesis using ih(2,3) by auto
    qed
  next
    case False
    have k: "unat (rd_pos_remaining r) = length ps" unfolding c(6) using l by (simp add: unat_of_nat take_bit_nat_eq_self)
    then have nz: "rd_pos_remaining r \<noteq> 0" using False by auto
    from run_at_stream [OF at(2), of hp r "(term_id, ds, fs, ps)" recs ps "[]"] at(3) recs i(3) ps obtain r' where
      r': "stream_positions io (length ps) r = Inr (ps, r')" "run_at hp r' (runs ! i) []" by auto
    have rd: "readers_at hp (readers[i := (io, r')]) runs (lefts[i := []])"
      using readers_at_update [OF Cons.prems(1) i(1) at(2) r'(2)] by simp
    have dm: "distinct matching" using Cons.prems(2) by simp
    have "\<forall>j \<in> set matching. j < length runs \<and> runs ! j \<noteq> [] \<and> lefts[i := []] ! j = positions_of runs j"
      using Cons.prems(3) nin by (metis list.set_intros(2) nth_list_update_neq)
    from Cons.IH [OF rd dm this] obtain readers' lefts' where
      ih: "pos_pump matching (length (concat (map (positions_of runs) matching))) (readers[i := (io, r')]) = (concat (map (positions_of runs) matching), Inr (), readers')"
      "readers_at hp readers' runs lefts'" "\<forall>j. j \<notin> set matching \<longrightarrow> lefts' ! j = lefts[i := []] ! j" by blast
    have m: "min (length (ps @ concat (map (positions_of runs) matching))) (unat (rd_pos_remaining r)) = length ps" by (simp add: k)
    have "pos_pump (i # matching) (length (concat (map (positions_of runs) (i # matching)))) readers =
        (concat (map (positions_of runs) (i # matching)), Inr (), readers')"
      using at(1) r'(1) ih(1) nz m False by (simp add: ps Let_def del: length_concat)
    moreover have "\<forall>j. j \<notin> set (i # matching) \<longrightarrow> lefts' ! j = lefts ! j" using ih(3) by simp
    ultimately show ?thesis using ih(2) by blast
  qed
qed auto


subsection \<open>Advancing\<close>

lemma advance_matching_eq:
  assumes "all_ok hp vocab runs" and "readers_at hp readers runs lefts" and "distinct matching"
    and "\<forall>i \<in> set matching. i < length runs \<and> runs ! i \<noteq> []"
    and "sorted (map (heap_key vocab) heap)" and "distinct (map snd heap)" and "snd ` set heap \<inter> set matching = {}"
  shows "\<exists>readers' lefts' heap'. advance_matching vocab matching (readers, heap) = Inr (readers', heap') \<and>
    readers_at hp readers' (map (\<lambda>i. if i \<in> set matching then tl (runs ! i) else runs ! i) [0..<length runs]) lefts' \<and>
    (\<forall>i < length runs. lefts' ! i = (if i \<in> set matching then record_positions (tl (runs ! i)) else lefts ! i)) \<and>
    sorted (map (heap_key vocab) heap') \<and> distinct (map snd heap') \<and>
    set heap' = set heap \<union> {(fst (hd (tl (runs ! i))), i) | i. i \<in> set matching \<and> tl (runs ! i) \<noteq> []}"
  using assms
proof (induction matching arbitrary: readers lefts runs heap)
  case Nil
  have "map (\<lambda>i. runs ! i) [0..<length runs] = runs" by (rule map_nth)
  then show ?case using Nil by auto
next
  case (Cons i matching)
  have i: "i < length runs" "runs ! i \<noteq> []" using Cons.prems(4) by auto
  obtain rec recs where recs: "runs ! i = rec # recs" using i(2) by (cases "runs ! i") auto
  obtain io r where at: "reader_at readers i = Inr (io, r)" "reliable io" "run_at hp r (runs ! i) (lefts ! i)"
    by (rule readers_at_reader [OF Cons.prems(2) i(1)])
  from run_at_advance [OF at(2) at(3) [unfolded recs]] obtain r' where
    r': "run_advance io r = Inr r'" "run_at hp r' recs (record_positions recs)" by blast
  let ?runs = "runs[i := recs]" and ?heap = "if rd_exhausted r' then heap else heap_push vocab (rd_current_id r', i) heap"
  have rd: "readers_at hp (readers[i := (io, r')]) ?runs (lefts[i := record_positions recs])"
    by (rule readers_at_update [OF Cons.prems(2) i(1) at(2) r'(2)])
  have sub: "set recs \<subseteq> set (runs ! i)" by (simp add: recs subset_insertI)
  have ok: "all_ok hp vocab ?runs"
    unfolding all_ok_def
  proof (intro ballI)
    fix rs x assume "rs \<in> set ?runs" and x: "x \<in> set rs"
    then consider "rs = recs" | "rs \<in> set runs" using set_update_subset_insert by fastforce
    then show "record_ok hp vocab x"
    proof cases
      case 1
      then have "x \<in> set (runs ! i)" using sub x by auto
      then show ?thesis using Cons.prems(1) nth_mem [OF i(1)] unfolding all_ok_def by blast
    qed (use Cons.prems(1) x in \<open>auto simp: all_ok_def\<close>)
  qed
  have ex: "rd_exhausted r' = (recs = [])" and cur: "recs \<noteq> [] \<Longrightarrow> rd_current_id r' = fst (hd recs)"
    using r'(2) by (auto simp: run_at_def split: list.splits)
  have idv: "unat (rd_current_id r') < length vocab" if "\<not> rd_exhausted r'"
  proof -
    have ne: "recs \<noteq> []" using that ex by simp
    then have "hd recs \<in> set (runs ! i)" using sub by auto
    then have "record_ok hp vocab (hd recs)" using Cons.prems(1) i(1) unfolding all_ok_def by (meson nth_mem)
    then show ?thesis using cur [OF ne] by (auto simp: record_ok_def)
  qed
  have nin: "i \<notin> set matching" and dm: "distinct matching" using Cons.prems(3) by auto
  have m: "\<forall>j \<in> set matching. j < length ?runs \<and> ?runs ! j \<noteq> []"
    using Cons.prems(4) nin by (metis length_list_update list.set_intros(2) nth_list_update_neq)
  have ni: "i \<notin> snd ` set heap" using Cons.prems(7) by auto
  have h: "sorted (map (heap_key vocab) ?heap)" "distinct (map snd ?heap)" "snd ` set ?heap \<inter> set matching = {}"
    using Cons.prems(5-7) ni nin by (auto simp: sorted_heap_push distinct_heap_push)
  from Cons.IH [OF ok rd dm m h] obtain readers' lefts' heap' where ih:
    "advance_matching vocab matching (readers[i := (io, r')], ?heap) = Inr (readers', heap')"
    "readers_at hp readers' (map (\<lambda>j. if j \<in> set matching then tl (?runs ! j) else ?runs ! j) [0..<length ?runs]) lefts'"
    "\<forall>j < length ?runs. lefts' ! j = (if j \<in> set matching then record_positions (tl (?runs ! j)) else lefts[i := record_positions recs] ! j)"
    "sorted (map (heap_key vocab) heap')" "distinct (map snd heap')"
    "set heap' = set ?heap \<union> {(fst (hd (tl (?runs ! j))), j) | j. j \<in> set matching \<and> tl (?runs ! j) \<noteq> []}" by blast
  have a: "advance_matching vocab (i # matching) (readers, heap) = Inr (readers', heap')"
    using at(1) r'(1) ih(1) idv by (auto simp: not_le)
  have ll: "length lefts = length runs" using Cons.prems(2) by (simp add: readers_at_def)
  have rr: "?runs ! j = (if j = i then recs else runs ! j)" for j using i(1) by (simp add: nth_list_update)
  have runs': "map (\<lambda>j. if j \<in> set matching then tl (?runs ! j) else ?runs ! j) [0..<length ?runs] =
      map (\<lambda>j. if j \<in> set (i # matching) then tl (runs ! j) else runs ! j) [0..<length runs]"
    using nin by (simp add: rr recs)
  have lefts: "\<forall>j < length runs. lefts' ! j = (if j \<in> set (i # matching) then record_positions (tl (runs ! j)) else lefts ! j)"
    using ih(3) nin i(1) ll by (auto simp: rr recs nth_list_update)
  have hs: "set heap' = set heap \<union> {(fst (hd (tl (runs ! j))), j) | j. j \<in> set (i # matching) \<and> tl (runs ! j) \<noteq> []}"
    unfolding ih(6) using nin ex cur by (auto simp: rr recs)
  show ?case using a ih(2) [unfolded runs'] lefts ih(4,5) hs by blast
qed


subsection \<open>One round\<close>

definition run_size :: "run_record list list \<Rightarrow> nat" where
  "run_size runs = (\<Sum>(term_id, ds, fs, ps) \<leftarrow> concat runs. length ds + length ps)"

definition merge_ok :: "bool \<Rightarrow> term_bytes list \<Rightarrow> run_record list list \<Rightarrow> run_readers \<times> heap_item list \<Rightarrow> bool" where
  "merge_ok hp vocab runs = (\<lambda>(readers, heap).
     runs_ok hp vocab runs \<and> run_size runs < 2 ^ 64 \<and> heap_ok vocab runs heap \<and> readers_at hp readers runs (map record_positions runs))"

definition matches :: "term_bytes list \<Rightarrow> term_bytes \<Rightarrow> run_record list list \<Rightarrow> nat list" where
  "matches vocab s runs = filter (\<lambda>i. runs ! i \<noteq> [] \<and> record_term vocab (hd (runs ! i)) = s) [0..<length runs]"

definition advanced :: "term_bytes list \<Rightarrow> term_bytes \<Rightarrow> run_record list list \<Rightarrow> run_record list list" where
  "advanced vocab s runs = map (\<lambda>recs. if recs \<noteq> [] \<and> record_term vocab (hd recs) = s then tl recs else recs) runs"

lemma filter_run:
  assumes "sorted_wrt (<) (map (record_term vocab) recs)" and "\<And>rec. recs \<noteq> [] \<Longrightarrow> s \<le> record_term vocab (hd recs)"
  shows "filter (\<lambda>rec. record_term vocab rec = s) recs = (if recs \<noteq> [] \<and> record_term vocab (hd recs) = s then [hd recs] else [])"
proof (cases recs)
  case (Cons rec rs)
  have "s \<le> record_term vocab rec" using assms(2) by (simp add: Cons)
  then have "record_term vocab x \<noteq> s" if "x \<in> set rs" for x using assms(1) that by (force simp: Cons)
  then show ?thesis by (simp add: Cons filter_empty_conv)
qed simp

lemma concat_map_single: "concat (map (\<lambda>i. if P i then [f i] else []) xs) = map f (filter P xs)"
  by (induction xs) auto

lemma parts_heads:
  assumes "runs_ok hp vocab runs" and "\<forall>recs \<in> set runs. recs \<noteq> [] \<longrightarrow> s \<le> record_term vocab (hd recs)"
  shows "parts vocab s runs = map (current_of runs) (matches vocab s runs)"
proof -
  let ?P = "\<lambda>recs. recs \<noteq> [] \<and> record_term vocab (hd recs) = s"
  have "filter (\<lambda>rec. record_term vocab rec = s) (concat runs) = concat (map (filter (\<lambda>rec. record_term vocab rec = s)) runs)"
    by (rule filter_concat)
  also have "map (filter (\<lambda>rec. record_term vocab rec = s)) runs = map (\<lambda>recs. if ?P recs then [hd recs] else []) runs"
    using assms by (intro map_cong refl filter_run) (auto simp: runs_ok_def)
  also have "\<dots> = map (\<lambda>i. if ?P (runs ! i) then [hd (runs ! i)] else []) [0..<length runs]"
    by (rule nth_equalityI) simp_all
  finally show ?thesis unfolding parts_def matches_def by (simp add: concat_map_single)
qed

lemma advanced_parts:
  assumes "s' \<noteq> s"
  shows "parts vocab s' (advanced vocab s runs) = parts vocab s' runs"
proof -
  have "filter (\<lambda>rec. record_term vocab rec = s') (if recs \<noteq> [] \<and> record_term vocab (hd recs) = s then tl recs else recs) =
      filter (\<lambda>rec. record_term vocab rec = s') recs" for recs
    using assms by (cases recs) auto
  then show ?thesis unfolding parts_def advanced_def filter_concat map_map comp_def by simp
qed

lemma advanced_terms:
  assumes "runs_ok hp vocab runs" and "\<forall>recs \<in> set runs. recs \<noteq> [] \<longrightarrow> s \<le> record_term vocab (hd recs)"
  shows "run_terms vocab (advanced vocab s runs) = run_terms vocab runs - {s}"
proof -
  have "record_term vocab ` set (if recs \<noteq> [] \<and> record_term vocab (hd recs) = s then tl recs else recs) =
      record_term vocab ` set recs - {s}" if "recs \<in> set runs" for recs
  proof (cases recs)
    case (Cons rec rs)
    have "s \<le> record_term vocab rec" using assms(2) that Cons by auto
    moreover have "sorted_wrt (<) (map (record_term vocab) recs)" using assms(1) that by (auto simp: runs_ok_def)
    ultimately have "record_term vocab x \<noteq> s" if "x \<in> set rs" for x using that by (force simp: Cons)
    then show ?thesis by (auto simp: Cons)
  qed simp
  then have "(\<Union>recs \<in> set runs. record_term vocab ` set (if recs \<noteq> [] \<and> record_term vocab (hd recs) = s then tl recs else recs)) =
      (\<Union>recs \<in> set runs. record_term vocab ` set recs - {s})" by (rule SUP_cong [OF refl])
  moreover have "run_terms vocab rs = (\<Union>recs \<in> set rs. record_term vocab ` set recs)" for rs by (auto simp: run_terms_def)
  ultimately show ?thesis by (simp add: advanced_def image_image del: if_image_distrib)
qed

lemma sorted_wrt_tl: "sorted_wrt R xs \<Longrightarrow> sorted_wrt R (tl xs)"
  by (cases xs) auto

lemma advanced_ok: "runs_ok hp vocab runs \<Longrightarrow> runs_ok hp vocab (advanced vocab s runs)"
  unfolding runs_ok_def advanced_def by (auto simp: map_tl sorted_wrt_tl dest: list.set_sel(2))

lemma advanced_size:
  "run_size (advanced vocab s runs) \<le> run_size runs"
  unfolding run_size_def advanced_def
proof (induction runs)
  case (Cons recs runs)
  show ?case using Cons by (cases recs) auto
qed simp

lemma sorted_Pair: "sorted (map (Pair s) xs) \<Longrightarrow> sorted xs"
  by (induction xs) (auto simp: less_eq_prod_def)

lemma heap_head:
  assumes ok: "heap_ok vocab runs heap" and ne: "heap \<noteq> []"
  defines "s \<equiv> vocab ! unat (fst (hd heap))"
  shows "\<forall>item \<in> set heap. s \<le> vocab ! unat (fst item)"
    and "\<forall>recs \<in> set runs. recs \<noteq> [] \<longrightarrow> s \<le> record_term vocab (hd recs)"
    and "map snd (filter (\<lambda>item. vocab ! unat (fst item) = s) heap) = matches vocab s runs"
    and "s \<in> run_terms vocab runs"
proof -
  have srt: "sorted (map (heap_key vocab) heap)" and dst: "distinct (map snd heap)" and hs: "set heap = heads runs"
    using ok by (auto simp: heap_ok_def)
  show le: "\<forall>item \<in> set heap. s \<le> vocab ! unat (fst item)"
    using srt ne by (cases heap) (auto simp: s_def heap_key_def less_eq_prod_def)
  show "\<forall>recs \<in> set runs. recs \<noteq> [] \<longrightarrow> s \<le> record_term vocab (hd recs)"
  proof (intro ballI impI)
    fix recs assume "recs \<in> set runs" and "recs \<noteq> []"
    then obtain i where "i < length runs" "runs ! i = recs" by (auto simp: in_set_conv_nth)
    then have "(fst (hd recs), i) \<in> set heap" using \<open>recs \<noteq> []\<close> unfolding hs heads_def by blast
    then show "s \<le> record_term vocab (hd recs)" using le by (auto simp: record_term_def)
  qed
  let ?mine = "filter (\<lambda>item. vocab ! unat (fst item) = s) heap"
  have "map (heap_key vocab) ?mine = map (Pair s) (map snd ?mine)" by (simp add: heap_key_def)
  moreover have "sorted (map (heap_key vocab) ?mine)" using srt by (rule sorted_filter)
  ultimately have "sorted (map snd ?mine)" using sorted_Pair by metis
  moreover have "distinct (map snd ?mine)" using dst by (simp add: distinct_map_filter)
  moreover have "set (map snd ?mine) = set (matches vocab s runs)"
    unfolding matches_def using hs by (auto simp: heads_def record_term_def image_iff)
  ultimately show "map snd ?mine = matches vocab s runs"
    by (intro sorted_distinct_set_unique) (auto simp: matches_def sorted_wrt_filter)
  have "hd heap \<in> heads runs" using ne hs [symmetric] by auto
  then obtain i where i: "i < length runs" "runs ! i \<noteq> []" "hd heap = (fst (hd (runs ! i)), i)" by (auto simp: heads_def)
  then have "hd (runs ! i) \<in> set (concat runs)" by (auto intro!: bexI [of _ "runs ! i"])
  then show "s \<in> run_terms vocab runs" using i(3) by (auto simp: run_terms_def s_def record_term_def)
qed


lemma matches_in: "i \<in> set (matches vocab s runs) = (i < length runs \<and> runs ! i \<noteq> [] \<and> record_term vocab (hd (runs ! i)) = s)"
  by (auto simp: matches_def)

lemma distinct_matches: "distinct (matches vocab s runs)"
  by (simp add: matches_def)

lemma advanced_matches:
  "map (\<lambda>i. if i \<in> set (matches vocab s runs) then tl (runs ! i) else runs ! i) [0..<length runs] = advanced vocab s runs"
  unfolding advanced_def by (rule nth_equalityI) (simp_all add: matches_in)

text \<open>The sums over the gathered runs do not wrap.\<close>

lemma sum_list_distinct_le:
  fixes f :: "nat \<Rightarrow> nat"
  assumes "distinct xs" and "set xs \<subseteq> {..<n}"
  shows "sum_list (map f xs) \<le> sum_list (map f [0..<n])"
proof -
  have "sum_list (map f xs) = (\<Sum>i\<in>set xs. f i)" using assms(1) by (simp add: sum_list_distinct_conv_sum_set)
  also have "\<dots> \<le> (\<Sum>i<n. f i)" using assms(2) by (intro sum_mono2) auto
  also have "\<dots> = sum_list (map f [0..<n])" by (simp add: interv_sum_list_conv_sum_set_nat atLeast0LessThan)
  finally show ?thesis .
qed

lemma gathered_size:
  assumes "distinct xs" and "\<forall>i \<in> set xs. i < length runs \<and> runs ! i \<noteq> []"
  shows "sum_list (map (\<lambda>i. length (fst (current_of runs i)) + length (positions_of runs i)) xs) \<le> run_size runs"
proof -
  define f where "f recs = (\<Sum>(term_id, ds, fs, ps) \<leftarrow> recs. length ds + length ps)" for recs :: "run_record list"
  have "sum_list (map (\<lambda>i. length (fst (current_of runs i)) + length (positions_of runs i)) xs) \<le> sum_list (map (\<lambda>i. f (runs ! i)) xs)"
  proof (rule sum_list_mono)
    fix i assume "i \<in> set xs"
    then obtain rec recs where "runs ! i = rec # recs" using assms(2) by (cases "runs ! i") auto
    then show "length (fst (current_of runs i)) + length (positions_of runs i) \<le> f (runs ! i)"
      by (cases rec) (simp add: f_def positions_of_def)
  qed
  also have "\<dots> \<le> sum_list (map (\<lambda>i. f (runs ! i)) [0..<length runs])"
    using assms by (intro sum_list_distinct_le) auto
  also have "map (\<lambda>i. f (runs ! i)) [0..<length runs] = map f runs" by (rule nth_equalityI) simp_all
  also have "sum_list (map f runs) = run_size runs"
    unfolding run_size_def by (induction runs) (simp_all add: f_def)
  finally show ?thesis .
qed

lemma sum_list_add_map: "sum_list (map (\<lambda>i. f i + g i :: nat) xs) = sum_list (map f xs) + sum_list (map g xs)"
  by (induction xs) simp_all

lemma merge_head_eq:
  assumes st: "merge_ok hp vocab runs (readers, heap)" and ne: "heap \<noteq> []"
  defines "s \<equiv> vocab ! unat (fst (hd heap))"
  defines "mt \<equiv> matches vocab s runs"
  shows "\<exists>readers' lefts' streamed tp. merge_head vocab hp allow_stream (readers, heap) =
      Inr (tp, streamed, mt, of_nat (length (concat (map (positions_of runs) mt))), readers', filter (\<lambda>item. vocab ! unat (fst item) \<noteq> s) heap) \<and>
    readers_at hp readers' runs lefts' \<and> (\<forall>i < length runs. i \<notin> set mt \<longrightarrow> lefts' ! i = record_positions (runs ! i)) \<and>
    (if streamed
     then tp\<lparr>tp_pos_pump := Some (concat (map (positions_of runs) mt)), tp_pos_total := of_nat (length (concat (map (positions_of runs) mt)))\<rparr> =
        deliver hp allow_stream s (joined vocab s runs) \<and> (\<forall>i \<in> set mt. lefts' ! i = positions_of runs i)
     else tp = deliver hp allow_stream s (joined vocab s runs))"
proof -
  have ok: "runs_ok hp vocab runs" "run_size runs < 2 ^ 64" "heap_ok vocab runs heap" "readers_at hp readers runs (map record_positions runs)"
    using st by (auto simp: merge_ok_def)
  have all: "all_ok hp vocab runs" using ok(1) by (auto simp: runs_ok_def all_ok_def)
  note h = heap_head [OF ok(3) ne, folded s_def]
  have mt: "map snd (filter (\<lambda>item. vocab ! unat (fst item) = s) heap) = mt" using h(3) by (simp add: mt_def)
  have min: "\<forall>i \<in> set mt. i < length runs \<and> runs ! i \<noteq> []" by (simp add: mt_def matches_in)
  have lf: "\<forall>i \<in> set mt. i < length runs \<and> runs ! i \<noteq> [] \<and> map record_positions runs ! i = positions_of runs i"
    using min by (auto simp: positions_of_record)
  have dm: "distinct mt" by (simp add: mt_def distinct_matches)
  define ps where "ps = concat (map (positions_of runs) mt)"
  define td where "td = sum_list (map (\<lambda>i. length (fst (current_of runs i))) mt)"
  obtain d f p where jn: "joined vocab s runs = (d, f, p)" by (cases "joined vocab s runs")
  have jf: "foldl join ([], [], []) (map (current_of runs) mt) = (d, f, p)"
    using jn parts_heads [OF ok(1) h(2)] by (simp add: joined_def mt_def)
  have p: "p = ps" using joined_positions [OF all min, of "([], [], [])"] by (simp add: jf ps_def)
  have "td + length ps \<le> run_size runs"
    using gathered_size [OF dm min] by (simp add: sum_list_add_map td_def ps_def length_concat comp_def)
  then have wr: "td < 2 ^ 64" "length ps < 2 ^ 64" using ok(2) by auto
  have len: "length d \<le> td" using joined_docs_length [of "([], [], [])" "map (current_of runs) mt"] by (simp add: jf td_def comp_def)
  have g: "gather vocab s readers heap ([], 0, 0) = Inr ((mt, of_nat td, of_nat (length ps)), filter (\<lambda>item. vocab ! unat (fst item) \<noteq> s) heap)"
    using gather_eq [OF ok(4), of heap vocab s "[]" 0 0] ok(3) h(1) unfolding Let_def mt
    by (simp add: heap_ok_def td_def ps_def length_concat comp_def positions_of_def)
  define streamed where "streamed = (allow_stream \<and> ShouldStreamPositions (of_nat td) (of_nat (length ps)) hp)"
  have sd: "streamed = (allow_stream \<and> hp \<and> ps \<noteq> [] \<and> kSlimDfThreshold \<le> td)"
    using wr by (auto simp: streamed_def ShouldStreamPositions_def kSlimDfThreshold_def word_le_nat_alt word_unat_eq_iff)
  have nw: "new_postings s = holding s ([], [], [])" by (simp add: holding_def new_postings_def)
  have mhd: "merge_head vocab hp allow_stream (readers, heap) =
      and_then (gather vocab s readers heap ([], 0, 0)) (\<lambda>((matching, total_docs, total_pos), heap).
      and_then (concat_matching hp (allow_stream \<and> ShouldStreamPositions total_docs total_pos hp) matching (readers, new_postings s)) (\<lambda>(readers, merged).
      if (allow_stream \<and> ShouldStreamPositions total_docs total_pos hp) \<and> length (tp_docids merged) < kSlimDfThreshold then
        and_then (materialize_matching matching (readers, merged)) (\<lambda>(readers, merged).
        Inr (merged, False, matching, total_pos, readers, heap))
      else Inr (merged, allow_stream \<and> ShouldStreamPositions total_docs total_pos hp, matching, total_pos, readers, heap)))"
    by (simp only: merge_head_def case_prod_conv Let_def s_def)
  note mhd = mhd [unfolded g and_then_Inr case_prod_conv, folded streamed_def]
  have dl: "deliver hp allow_stream s (d, f, ps) = holding s (d, f, ps)" if "\<not> streamed \<or> length d < kSlimDfThreshold"
    using that len sd by (auto simp: deliver_def holding_def)
  show ?thesis
  proof (cases streamed)
    case False
    from concat_matching_eq [OF all ok(4) dm lf, of s "([], [], [])"] obtain readers' lefts' where
      c: "concat_matching hp False mt (readers, holding s ([], [], [])) = Inr (readers', holding s (d, f, ps))"
        "readers_at hp readers' runs lefts'" "\<forall>i. i \<notin> set mt \<longrightarrow> lefts' ! i = map record_positions runs ! i" unfolding jf p by blast
    have "merge_head vocab hp allow_stream (readers, heap) =
        Inr (holding s (d, f, ps), False, mt, of_nat (length ps), readers', filter (\<lambda>item. vocab ! unat (fst item) \<noteq> s) heap)"
      by (simp only: mhd c(1) False nw and_then_Inr case_prod_conv simp_thms if_False)
    then show ?thesis using c(2,3) dl False by (intro exI [of _ readers'] exI [of _ lefts'] exI [of _ False] exI) (auto simp: jn p ps_def [symmetric])
  next
    case True
    have hp: hp using True sd by simp
    have c: "concat_matching hp True mt (readers, holding s ([], [], [])) = Inr (readers, holding s (d, f, []))"
      using concat_matching_stream_eq [OF all ok(4) min, of s "([], [], [])"] by (simp add: jf)
    have ld: "length (tp_docids (holding s (d, f, []))) = length d" by (simp add: holding_def)
    show ?thesis
    proof (cases "length d < kSlimDfThreshold")
      case small: True
      from materialize_matching_eq [OF ok(4) [unfolded hp [THEN eqTrueI]] dm lf, of s d f "[]"] hp obtain readers' lefts' where
        m: "materialize_matching mt (readers, holding s (d, f, [])) = Inr (readers', holding s (d, f, ps))"
          "readers_at hp readers' runs lefts'" "\<forall>i. i \<notin> set mt \<longrightarrow> lefts' ! i = map record_positions runs ! i" by (auto simp: ps_def)
      have "merge_head vocab hp allow_stream (readers, heap) =
          Inr (holding s (d, f, ps), False, mt, of_nat (length ps), readers', filter (\<lambda>item. vocab ! unat (fst item) \<noteq> s) heap)"
        by (simp only: mhd c m(1) True small ld nw and_then_Inr case_prod_conv simp_thms if_True)
      then show ?thesis using m(2,3) dl small by (intro exI [of _ readers'] exI [of _ lefts'] exI [of _ False] exI) (auto simp: jn p ps_def [symmetric])
    next
      case wide: False
      have "merge_head vocab hp allow_stream (readers, heap) =
          Inr (holding s (d, f, []), True, mt, of_nat (length ps), readers, filter (\<lambda>item. vocab ! unat (fst item) \<noteq> s) heap)"
        by (simp only: mhd c True wide ld nw and_then_Inr case_prod_conv simp_thms if_False)
      moreover have "(holding s (d, f, []))\<lparr>tp_pos_pump := Some ps, tp_pos_total := of_nat (length ps)\<rparr> = deliver hp allow_stream s (d, f, ps)"
        using True sd wide by (simp add: deliver_def holding_def new_postings_def)
      ultimately show ?thesis using ok(4) lf
        by (intro exI [of _ readers] exI [of _ "map record_positions runs"] exI [of _ True] exI) (auto simp: jn p ps_def [symmetric])
    qed
  qed
qed


lemma merge_step_eq:
  assumes st: "merge_ok hp vocab runs (readers, heap)" and ne: "heap \<noteq> []"
  defines "s \<equiv> vocab ! unat (fst (hd heap))"
  shows "\<exists>readers' heap'. merge_step vocab hp allow_stream (readers, heap) = ([deliver hp allow_stream s (joined vocab s runs)], Inr (readers', heap')) \<and>
    merge_ok hp vocab (advanced vocab s runs) (readers', heap')"
proof -
  have ok: "runs_ok hp vocab runs" "run_size runs < 2 ^ 64" "heap_ok vocab runs heap"
    using st by (auto simp: merge_ok_def)
  have all: "all_ok hp vocab runs" using ok(1) by (auto simp: runs_ok_def all_ok_def)
  define mt where "mt = matches vocab s runs"
  define ps where "ps = concat (map (positions_of runs) mt)"
  let ?rest = "filter (\<lambda>item. vocab ! unat (fst item) \<noteq> s) heap"
  have min: "\<forall>i \<in> set mt. i < length runs \<and> runs ! i \<noteq> []" by (simp add: mt_def matches_in)
  have dm: "distinct mt" by (simp add: mt_def distinct_matches)
  have "length ps \<le> run_size runs"
    using gathered_size [OF dm min] by (simp add: sum_list_add_map ps_def length_concat comp_def)
  then have wr: "unat (of_nat (length ps) :: u64) = length ps" using ok(2) by simp
  from merge_head_eq [OF st ne, of allow_stream, folded s_def mt_def, folded ps_def] obtain readers1 lefts1 streamed tp where
    mh: "merge_head vocab hp allow_stream (readers, heap) = Inr (tp, streamed, mt, of_nat (length ps), readers1, ?rest)"
      "readers_at hp readers1 runs lefts1" "\<forall>i < length runs. i \<notin> set mt \<longrightarrow> lefts1 ! i = record_positions (runs ! i)"
      "if streamed then tp\<lparr>tp_pos_pump := Some ps, tp_pos_total := of_nat (length ps)\<rparr> = deliver hp allow_stream s (joined vocab s runs) \<and>
         (\<forall>i \<in> set mt. lefts1 ! i = positions_of runs i) else tp = deliver hp allow_stream s (joined vocab s runs)" by blast
  have "\<exists>readers2 lefts2. merge_step vocab hp allow_stream (readers, heap) =
      ([deliver hp allow_stream s (joined vocab s runs)], advance_matching vocab mt (readers2, ?rest)) \<and>
    readers_at hp readers2 runs lefts2 \<and> (\<forall>i < length runs. i \<notin> set mt \<longrightarrow> lefts2 ! i = record_positions (runs ! i))"
  proof (cases streamed)
    case True
    from pos_pump_eq [OF mh(2) dm] min mh(4) True obtain readers2 lefts2 where
      "pos_pump mt (length ps) readers1 = (ps, Inr (), readers2)" "readers_at hp readers2 runs lefts2" "\<forall>i. i \<notin> set mt \<longrightarrow> lefts2 ! i = lefts1 ! i"
      unfolding ps_def by auto
    then show ?thesis using mh True wr by (intro exI [of _ readers2] exI [of _ lefts2]) (auto simp: merge_step_def)
  next
    case False
    then show ?thesis using mh by (auto simp: merge_step_def)
  qed
  then obtain readers2 lefts2 where s2: "merge_step vocab hp allow_stream (readers, heap) =
      ([deliver hp allow_stream s (joined vocab s runs)], advance_matching vocab mt (readers2, ?rest))"
    "readers_at hp readers2 runs lefts2" "\<forall>i < length runs. i \<notin> set mt \<longrightarrow> lefts2 ! i = record_positions (runs ! i)" by blast
  have hk: "sorted (map (heap_key vocab) ?rest)" "distinct (map snd ?rest)" and hs: "set heap = heads runs"
    using ok(3) by (auto simp: heap_ok_def sorted_filter distinct_map_filter)
  have rs: "set ?rest = {(fst (hd (runs ! i)), i) | i. i < length runs \<and> runs ! i \<noteq> [] \<and> i \<notin> set mt}"
    using hs by (auto simp: heads_def mt_def matches_in record_term_def)
  then have dj: "snd ` set ?rest \<inter> set mt = {}" by auto
  from advance_matching_eq [OF all s2(2) dm min hk dj] obtain readers' lefts' heap' where
    a: "advance_matching vocab mt (readers2, ?rest) = Inr (readers', heap')"
      "readers_at hp readers' (map (\<lambda>i. if i \<in> set mt then tl (runs ! i) else runs ! i) [0..<length runs]) lefts'"
      "\<forall>i < length runs. lefts' ! i = (if i \<in> set mt then record_positions (tl (runs ! i)) else lefts2 ! i)"
      "sorted (map (heap_key vocab) heap')" "distinct (map snd heap')"
      "set heap' = set ?rest \<union> {(fst (hd (tl (runs ! i))), i) | i. i \<in> set mt \<and> tl (runs ! i) \<noteq> []}" by blast
  have adv: "readers_at hp readers' (advanced vocab s runs) lefts'" using a(2) by (simp add: mt_def advanced_matches)
  have nth: "advanced vocab s runs ! i = (if i \<in> set mt then tl (runs ! i) else runs ! i)" if "i < length runs" for i
    using that by (simp add: advanced_def mt_def matches_in)
  have la: "length (advanced vocab s runs) = length runs" by (simp add: advanced_def)
  have "lefts' = map record_positions (advanced vocab s runs)"
    using adv a(3) s2(3) by (intro nth_equalityI) (auto simp: readers_at_def la nth)
  moreover have "set heap' = heads (advanced vocab s runs)"
    unfolding a(6) rs heads_def la using min by (auto simp: nth)
  ultimately have "merge_ok hp vocab (advanced vocab s runs) (readers', heap')"
    using adv a(4,5) advanced_ok [OF ok(1)] le_less_trans [OF advanced_size ok(2)] by (simp add: merge_ok_def heap_ok_def)
  then show ?thesis using s2(1) a(1) by auto
qed


subsection \<open>The merge\<close>

definition merged_terms :: "bool \<Rightarrow> bool \<Rightarrow> term_bytes list \<Rightarrow> run_record list list \<Rightarrow> term_postings list" where
  "merged_terms hp allow_stream vocab runs =
     map (\<lambda>s. deliver hp allow_stream s (joined vocab s runs)) (sorted_list_of_set (run_terms vocab runs))"

lemma merge_loop_eq:
  assumes "merge_ok hp vocab runs (readers, heap)"
  shows "merge_loop vocab hp allow_stream (readers, heap) = (merged_terms hp allow_stream vocab runs, Inr ())"
  using assms
proof (induction "card (run_terms vocab runs)" arbitrary: runs readers heap rule: less_induct)
  case less
  have ok: "runs_ok hp vocab runs" "heap_ok vocab runs heap" using less.prems by (auto simp: merge_ok_def)
  have fin: "finite (run_terms vocab rs)" for rs by (simp add: run_terms_def)
  show ?case
  proof (cases "heap = []")
    case True
    then have "heads runs = {}" using ok(2) by (simp add: heap_ok_def)
    then have "concat runs = []" by (auto simp: heads_def in_set_conv_nth)
    then show ?thesis using True by (subst merge_loop.simps) (simp add: merged_terms_def run_terms_def)
  next
    case False
    define s where "s = vocab ! unat (fst (hd heap))"
    note h = heap_head [OF ok(2) False, folded s_def]
    from merge_step_eq [OF less.prems False, of allow_stream, folded s_def] obtain readers' heap' where
      st: "merge_step vocab hp allow_stream (readers, heap) = ([deliver hp allow_stream s (joined vocab s runs)], Inr (readers', heap'))"
        "merge_ok hp vocab (advanced vocab s runs) (readers', heap')" by blast
    have tm: "run_terms vocab (advanced vocab s runs) = run_terms vocab runs - {s}" by (rule advanced_terms [OF ok(1) h(2)])
    then have "card (run_terms vocab (advanced vocab s runs)) < card (run_terms vocab runs)"
      using h(4) fin by (metis card_Diff1_less)
    note ih = less.hyps [OF this st(2)]
    have "s \<le> t" if t: "t \<in> run_terms vocab runs" for t
    proof -
      from t obtain recs rec where r: "recs \<in> set runs" "rec \<in> set recs" "t = record_term vocab rec" by (auto simp: run_terms_def)
      have "sorted_wrt (<) (map (record_term vocab) recs)" using ok(1) r(1) by (simp add: runs_ok_def)
      then have "record_term vocab (hd recs) \<le> record_term vocab rec" using r(2) by (cases recs) auto
      then show ?thesis using h(2) r by fastforce
    qed
    then have m: "Min (run_terms vocab runs) = s" using h(4) fin by (intro Min_eqI) auto
    have ne: "run_terms vocab runs \<noteq> {}" using h(4) by auto
    have "sorted_list_of_set (run_terms vocab runs) = s # sorted_list_of_set (run_terms vocab runs - {s})"
      using sorted_list_of_set_nonempty [OF fin ne] by (simp add: m)
    moreover have "map (\<lambda>t. deliver hp allow_stream t (joined vocab t (advanced vocab s runs))) (sorted_list_of_set (run_terms vocab runs - {s})) =
        map (\<lambda>t. deliver hp allow_stream t (joined vocab t runs)) (sorted_list_of_set (run_terms vocab runs - {s}))"
      using fin by (intro map_cong refl) (simp add: joined_def advanced_parts)
    ultimately have mt: "merged_terms hp allow_stream vocab runs =
        deliver hp allow_stream s (joined vocab s runs) # merged_terms hp allow_stream vocab (advanced vocab s runs)"
      by (simp add: merged_terms_def tm)
    show ?thesis using False st(1) ih mt by (subst merge_loop.simps) simp
  qed
qed

lemma heads_snoc: "heads (runs @ [recs]) = heads runs \<union> (if recs = [] then {} else {(fst (hd recs), length runs)})"
proof -
  have sc: "{g i | i. i < Suc n \<and> P i} = {g i | i. i < n \<and> P i} \<union> (if P n then {g n} else {})" for g :: "nat \<Rightarrow> heap_item" and n P
    by (auto simp: less_Suc_eq)
  have "{(fst (hd ((runs @ [recs]) ! i)), i) | i. i < length runs \<and> (runs @ [recs]) ! i \<noteq> []} = heads runs"
    unfolding heads_def by (rule Collect_cong, rule ex_cong1) (auto simp: nth_append)
  then show ?thesis unfolding heads_def [of "runs @ [recs]"] length_append_singleton sc by simp
qed

lemma open_runs_eq:
  assumes "\<forall>(io, recs) \<in> set files. reliable io \<and> io_open_ok io \<and> io_stat_ok io \<and> length (run_bytes recs) < 2 ^ 64"
    and "all_ok hp vocab (map snd files)" and "readers_at hp readers runs (map record_positions runs)" and "heap_ok vocab runs heap"
  shows "\<exists>readers' heap'. open_runs vocab hp (map (\<lambda>(io, recs). (io, run_bytes recs)) files) (readers, heap) = Inr (readers', heap') \<and>
    readers_at hp readers' (runs @ map snd files) (map record_positions (runs @ map snd files)) \<and> heap_ok vocab (runs @ map snd files) heap'"
  using assms
proof (induction files arbitrary: readers runs heap)
  case (Cons x files)
  obtain io recs where x: "x = (io, recs)" by (cases x)
  have io: "reliable io" "io_open_ok io" "io_stat_ok io" "length (run_bytes recs) < 2 ^ 64" using Cons.prems(1) by (auto simp: x)
  have rok: "record_ok hp vocab rec" if "rec \<in> set recs" for rec using Cons.prems(2) that by (auto simp: all_ok_def x)
  then have "\<forall>(term_id, ds, fs, ps) \<in> set recs. length ds = length fs" by (fastforce simp: record_ok_def)
  from run_reader_open_ok [OF io(1-4) this, of hp] obtain r where
    r: "run_reader_open io (run_bytes recs) hp = Inr r" "run_at hp r recs (record_positions recs)" by blast
  have n: "length readers = length runs" using Cons.prems(3) by (simp add: readers_at_def)
  have ex: "rd_exhausted r = (recs = [])" and cur: "recs \<noteq> [] \<Longrightarrow> rd_current_id r = fst (hd recs)"
    using r(2) by (auto simp: run_at_def split: list.splits)
  have idv: "unat (rd_current_id r) < length vocab" if "\<not> rd_exhausted r"
  proof -
    have ne: "recs \<noteq> []" using that ex by simp
    then show ?thesis using cur [OF ne] rok [of "hd recs"] by (auto simp: record_ok_def)
  qed
  let ?heap = "if rd_exhausted r then heap else heap_push vocab (rd_current_id r, length readers) heap"
  have rd: "readers_at hp (readers @ [(io, r)]) (runs @ [recs]) (map record_positions (runs @ [recs]))"
    using Cons.prems(3) io(1) r(2) by (auto simp: readers_at_def nth_append less_Suc_eq)
  note hd1 = heads_snoc [of runs recs]
  have "snd it < length runs" if "it \<in> heads runs" for it using that by (auto simp: heads_def)
  then have "length runs \<notin> snd ` heads runs" by fastforce
  then have hk: "heap_ok vocab (runs @ [recs]) ?heap"
    using Cons.prems(4) ex cur unfolding heap_ok_def hd1 n by (auto simp: sorted_heap_push distinct_heap_push)
  have pm: "\<forall>(io, recs) \<in> set files. reliable io \<and> io_open_ok io \<and> io_stat_ok io \<and> length (run_bytes recs) < 2 ^ 64"
    "all_ok hp vocab (map snd files)" using Cons.prems(1,2) by (auto simp: all_ok_def)
  from Cons.IH [OF pm rd hk] show ?case using r(1) idv by (auto simp: x not_le)
qed simp

lemma merge_runs_eq:
  assumes files: "\<forall>(io, recs) \<in> set files. reliable io \<and> io_open_ok io \<and> io_stat_ok io \<and> length (run_bytes recs) < 2 ^ 64"
    and ok: "runs_ok hp vocab (map snd files)" and size: "run_size (map snd files) < 2 ^ 64"
  shows "MergeRuns (map (\<lambda>(io, recs). (io, run_bytes recs)) files) vocab hp allow_stream =
    (merged_terms hp allow_stream vocab (map snd files), Inr ())"
proof -
  have all: "all_ok hp vocab (map snd files)" using ok by (auto simp: runs_ok_def all_ok_def)
  have "readers_at hp [] [] (map record_positions [])" "heap_ok vocab [] []" by (simp_all add: readers_at_def heap_ok_def heads_def)
  from open_runs_eq [OF files all this] obtain readers heap where
    o: "open_runs vocab hp (map (\<lambda>(io, recs). (io, run_bytes recs)) files) ([], []) = Inr (readers, heap)"
    "readers_at hp readers (map snd files) (map record_positions (map snd files))" "heap_ok vocab (map snd files) heap" by auto
  then have "merge_ok hp vocab (map snd files) (readers, heap)" using ok size by (simp add: merge_ok_def)
  from merge_loop_eq [OF this] show ?thesis by (simp add: MergeRuns_def o(1))
qed


subsection \<open>From the writer to the merge\<close>

text \<open>A run as the spill writes it: open, one \<open>write_term\<close> per term, close. The result is the file.\<close>

fun write_records :: "run_io \<Rightarrow> (u32 \<times> term_postings) list \<Rightarrow> run_writer \<Rightarrow> run_writer result" where
  "write_records io [] w = Inr w"
| "write_records io ((term_id, tp) # tps) w = and_then (write_term io term_id tp w) (write_records io tps)"

definition write_run :: "run_io \<Rightarrow> (u32 \<times> term_postings) list \<Rightarrow> byte list result" where
  "write_run io tps =
     and_then (run_writer_open io) (\<lambda>w.
     and_then (write_records io tps w) (\<lambda>w.
     and_then (run_close io w) (\<lambda>w. Inr (rw_out w))))"

definition records_of :: "(u32 \<times> term_postings) list \<Rightarrow> run_record list" where
  "records_of tps = map (\<lambda>(term_id, tp). term_record term_id tp) tps"

lemma write_records_bytes:
  "write_records io tps w = Inr w' \<Longrightarrow> rw_bytes w' = rw_bytes w @ run_bytes (records_of tps) \<and> rw_open w' = rw_open w"
proof (induction tps arbitrary: w)
  case (Cons x tps)
  obtain term_id tp where x: "x = (term_id, tp)" by (cases x)
  obtain w1 where w1: "write_term io term_id tp w = Inr w1" "write_records io tps w1 = Inr w'" using Cons.prems by (auto simp: x)
  from Cons.IH [OF w1(2)] write_term_bytes [OF w1(1)] show ?case by (simp add: records_of_def x)
qed (simp add: records_of_def)

lemma write_run_bytes:
  assumes "write_run io tps = Inr contents"
  shows "contents = run_bytes (records_of tps)"
proof -
  obtain w w1 w2 where w: "run_writer_open io = Inr w" "write_records io tps w = Inr w1" "run_close io w1 = Inr w2" "contents = rw_out w2"
    using assms by (auto simp: write_run_def)
  have "rw_open w \<and> rw_bytes w = []" using w(1) by (auto simp: run_writer_open_def rw_bytes_def split: if_splits)
  then show ?thesis using write_records_bytes [OF w(2)] run_close_bytes(1) [OF w(3)] w(4) by simp
qed

text \<open>Where the operating system does not fail, a run is written.\<close>

lemma write_run_total:
  assumes "io_create_ok io" and "\<forall>out data. io_write io out data \<noteq> None" and "io_close_ok io"
  shows "\<exists>contents. write_run io tps = Inr contents"
proof -
  have fl: "\<exists>w'. run_flush io w = Inr w'" for w using assms(2) by (simp add: run_flush_def WriteAll_total)
  have "\<exists>w'. write_term io term_id tp w = Inr w'" for term_id tp w using fl by (simp add: write_term_def Let_def)
  then have "\<exists>w'. write_records io tps w = Inr w'" for w by (induction io tps w rule: write_records.induct) fastforce+
  then obtain w where w: "write_records io tps \<lparr>rw_open = True, rw_out = [], rw_buf = []\<rparr> = Inr w" by blast
  obtain w' where "run_flush io w = Inr w'" using fl by blast
  then show ?thesis using w assms(1,3) by (auto simp: write_run_def run_writer_open_def run_close_def Let_def)
qed

text \<open>C6: Runs that were written term by term, each in ascending order of its strings, merge to exactly one term per
  string that occurs, in ascending order, with the postings of the string joined over the runs in run order and
  the document at a seam counted once, whatever amounts the reads deliver, however many documents make the
  positions of a term streamed, and with no error.\<close>

theorem merge_delivers_runs:
  assumes written: "list_all2 (\<lambda>(io, tps) contents. write_run io tps = Inr contents) inputs files"
    and io: "\<forall>(io, tps) \<in> set inputs. reliable io \<and> io_open_ok io \<and> io_stat_ok io"
    and runs: "runs = map (\<lambda>(io, tps). records_of tps) inputs" and ok: "runs_ok hp vocab runs"
    and size: "sum_list (map length files) < 2 ^ 64" "run_size runs < 2 ^ 64"
  shows "MergeRuns (zip (map fst inputs) files) vocab hp allow_stream = (merged_terms hp allow_stream vocab runs, Inr ())"
proof -
  let ?files = "map (\<lambda>(io, tps). (io, records_of tps)) inputs"
  have f: "files = map (\<lambda>(io, tps). run_bytes (records_of tps)) inputs"
    using written by (induction) (auto dest: write_run_bytes)
  have z: "zip (map fst inputs) files = map (\<lambda>(io, recs). (io, run_bytes recs)) ?files"
    unfolding f by (induction inputs) auto
  have r: "map snd ?files = runs" by (simp add: runs comp_def case_prod_unfold)
  have "length contents \<le> sum_list (map length files)" if "contents \<in> set files" for contents
    using that by (intro member_le_sum_list) auto
  then have l: "length (run_bytes (records_of tps)) < 2 ^ 64" if "(io, tps) \<in> set inputs" for io tps
    using that size(1) unfolding f by (auto intro: order_le_less_trans)
  have "\<forall>(io, recs) \<in> set ?files. reliable io \<and> io_open_ok io \<and> io_stat_ok io \<and> length (run_bytes recs) < 2 ^ 64"
    using io l by auto
  from merge_runs_eq [OF this, of hp vocab allow_stream] ok size(2) show ?thesis unfolding z r by simp
qed

definition plain_run_io :: run_io where
  "plain_run_io = \<lparr>io_create_ok = True, io_write = \<lambda>_ _. Some 0, io_close_ok = True, io_open_ok = True, io_stat_ok = True, io_read = \<lambda>left. Some left\<rparr>"

definition sample_posting :: "u32 \<Rightarrow> term_postings" where
  "sample_posting pos = (new_postings [97])\<lparr>tp_docids := [3], tp_freqs := [1], tp_positions_flat := [pos]\<rparr>"

theorem merge_delivers_runs_witness:
  "\<exists>files. list_all2 (\<lambda>(io, tps) contents. write_run io tps = Inr contents)
       [(plain_run_io, [(0, sample_posting 5)]), (plain_run_io, [(0, sample_posting 9)])] files \<and>
     MergeRuns (zip [plain_run_io, plain_run_io] files) [[97]] True True =
       ([(new_postings [97])\<lparr>tp_docids := [3], tp_freqs := [2], tp_positions_flat := [5, 9]\<rparr>], Inr ())"
proof -
  let ?inputs = "[(plain_run_io, [(0 :: u32, sample_posting 5)]), (plain_run_io, [(0, sample_posting 9)])]"
  let ?runs = "[[(0, [3], [1], [5])], [(0, [3], [1], [9])]] :: run_record list list"
  have "\<exists>b. write_run plain_run_io [(0, sample_posting p)] = Inr b \<and> length b \<le> 42" for p
  proof -
    obtain b where b: "write_run plain_run_io [(0, sample_posting p)] = Inr b"
      using write_run_total [of plain_run_io] by (auto simp: plain_run_io_def)
    then have "length b \<le> 42" using write_run_bytes [OF b] varint64_len_le_10 [of "0"] varint64_len_le_10 [of "1"]
      by (simp add: records_of_def term_record_def sample_posting_def new_postings_def)
    with b show ?thesis by blast
  qed
  then obtain b c where b: "write_run plain_run_io [(0, sample_posting 5)] = Inr b" "length b \<le> 42"
    and c: "write_run plain_run_io [(0, sample_posting 9)] = Inr c" "length c \<le> 42" by meson
  have w: "list_all2 (\<lambda>(io, tps) contents. write_run io tps = Inr contents) ?inputs [b, c]" using b c by simp
  have io: "\<forall>(io, tps) \<in> set ?inputs. reliable io \<and> io_open_ok io \<and> io_stat_ok io"
    by (simp add: plain_run_io_def reliable_def)
  have r: "?runs = map (\<lambda>(io, tps). records_of tps) ?inputs"
    by (simp add: records_of_def term_record_def sample_posting_def new_postings_def)
  have ok: "runs_ok True [[97]] ?runs" by (simp add: runs_ok_def record_ok_def)
  have s: "sum_list (map length [b, c]) < 2 ^ 64" "run_size ?runs < 2 ^ 64" using b(2) c(2) by (simp_all add: run_size_def)
  have "merged_terms True True [[97]] ?runs = [(new_postings [97])\<lparr>tp_docids := [3], tp_freqs := [2], tp_positions_flat := [5, 9]\<rparr>]"
    by (simp add: merged_terms_def run_terms_def joined_def parts_def record_term_def deliver_def kSlimDfThreshold_def)
  with merge_delivers_runs [OF w io r ok s, of True] have "MergeRuns (zip [plain_run_io, plain_run_io] [b, c]) [[97]] True True =
      ([(new_postings [97])\<lparr>tp_docids := [3], tp_freqs := [2], tp_positions_flat := [5, 9]\<rparr>], Inr ())" by simp
  with w show ?thesis by blast
qed

end
