(* ===== verification/Compact_Posting_Pool.thy ===== *)
theory Compact_Posting_Pool
  imports Byte_Stream
begin

text \<open>
  The arena of the term buffer: \<open>src/core/src/writer/compact_posting_pool.cpp\<close>. The bytes of a term
  live in a chain of slices of growing size, all in a few blocks of 32 KiB; each slice ends in a 4-byte
  pointer to the next. Whatever the interleaving of appends to many chains, reading a chain back gives
  the bytes appended to it.

  A slice level (a \<open>uint8_t\<close> in the writer, a \<open>uint32_t\<close> in the cursor, never above 15) is a natural
  number. An access outside a block is \<open>OutOfBounds\<close>, and the exception thrown before the 32-bit
  offsets would wrap is \<open>Exception\<close>.
\<close>

subsection \<open>CompactPostingPool\<close>

definition kBlockShift :: nat where "kBlockShift = 15"

definition kBlockSize :: u32 where "kBlockSize = push_bit kBlockShift 1"

definition kBlockMask :: u32 where "kBlockMask = kBlockSize - 1"

definition kPtrBytes :: u32 where "kPtrBytes = 4"

definition kSliceSizes :: "u32 list" where
  "kSliceSizes = [5, 8, 12, 18, 27, 40, 60, 90, 135, 202, 303, 455, 683, 1024, 1536, 2304]"

definition kNextLevel :: "nat list" where
  "kNextLevel = [1, 2, 3, 4, 5, 6, 7, 8, 9, 10, 11, 12, 13, 14, 15, 15]"

record posting_pool =
  pool_blocks :: "byte list list"
  pool_next_offset :: u32
  pool_payload_bytes :: u64

record slice_writer =
  sw_cur :: u32
  sw_slice_end :: u32

definition posting_pool_new :: posting_pool where
  "posting_pool_new = \<lparr>pool_blocks = [], pool_next_offset = 0, pool_payload_bytes = 0\<rparr>"

definition pool_reset :: "posting_pool \<Rightarrow> posting_pool" where
  "pool_reset p = p\<lparr>pool_blocks := [], pool_next_offset := 0, pool_payload_bytes := 0\<rparr>"

definition arena_bytes :: "posting_pool \<Rightarrow> u64" where
  "arena_bytes p = push_bit kBlockShift (of_nat (length (pool_blocks p)))"

definition block_of :: "u32 \<Rightarrow> nat" where
  "block_of off = unat (drop_bit kBlockShift off)"

definition byte_in_block :: "u32 \<Rightarrow> nat" where
  "byte_in_block off = unat (off AND kBlockMask)"

text \<open>\<open>at\<close> for reading, for writing one byte, and for copying a pointer.\<close>

definition pool_at :: "posting_pool \<Rightarrow> u32 \<Rightarrow> byte result" where
  "pool_at p off =
     (if block_of off < length (pool_blocks p) \<and> byte_in_block off < length (pool_blocks p ! block_of off)
      then Inr (pool_blocks p ! block_of off ! byte_in_block off) else Inl OutOfBounds)"

definition pool_set :: "u32 \<Rightarrow> byte list \<Rightarrow> posting_pool \<Rightarrow> posting_pool result" where
  "pool_set off bytes p =
     (let b = block_of off; i = byte_in_block off in
      if b < length (pool_blocks p) \<and> i + length bytes \<le> length (pool_blocks p ! b)
      then Inr (p\<lparr>pool_blocks := (pool_blocks p)[b :=
          take i (pool_blocks p ! b) @ bytes @ drop (i + length bytes) (pool_blocks p ! b)]\<rparr>)
      else Inl OutOfBounds)"

definition read_ptr :: "posting_pool \<Rightarrow> u32 \<Rightarrow> u32 result" where
  "read_ptr p slice_end =
     (if block_of slice_end < length (pool_blocks p)
      then and_then (subslice (pool_blocks p ! block_of slice_end) (byte_in_block slice_end) 4) (\<lambda>v. Inr (load_le 4 v 0))
      else Inl OutOfBounds)"

definition write_ptr :: "u32 \<Rightarrow> u32 \<Rightarrow> posting_pool \<Rightarrow> posting_pool result" where
  "write_ptr slice_end next_head p = pool_set slice_end (le_bytes 4 next_head) p"

definition alloc_run :: "u32 \<Rightarrow> posting_pool \<Rightarrow> (u32 \<times> posting_pool) result" where
  "alloc_run bytes p =
     (let in_block = pool_next_offset p AND kBlockMask;
          tail_exists = (block_of (pool_next_offset p) < length (pool_blocks p));
          need_block = (\<not> tail_exists \<or> in_block + bytes > kBlockSize);
          run_start = (if need_block then of_nat (length (pool_blocks p)) * ucast kBlockSize
                       else ucast (pool_next_offset p)) :: u64
      in if run_start + ucast bytes > 0xFFFFFFFF then Inl Exception
         else
           let p = (if need_block
                    then p\<lparr>pool_blocks := pool_blocks p @ [replicate (unat kBlockSize) 0],
                           pool_next_offset := of_nat (length (pool_blocks p)) * kBlockSize\<rparr>
                    else p)
           in Inr (pool_next_offset p, p\<lparr>pool_next_offset := pool_next_offset p + bytes\<rparr>))"

definition alloc_slice :: "nat \<Rightarrow> posting_pool \<Rightarrow> (u32 \<times> u32 \<times> posting_pool) result" where
  "alloc_slice level p =
     (let cap = kSliceSizes ! level in
      and_then (alloc_run (cap + kPtrBytes) p) (\<lambda>(first, p).
      and_then (pool_set (first + cap) (replicate (unat kPtrBytes) 0) p) (\<lambda>p.
      Inr (first, first + cap, p))))"

definition start_chain :: "posting_pool \<Rightarrow> (u32 \<times> slice_writer \<times> nat \<times> posting_pool) result" where
  "start_chain p =
     and_then (alloc_slice 0 p) (\<lambda>(head, slice_end, p).
     Inr (head, \<lparr>sw_cur = head, sw_slice_end = slice_end\<rparr>, 0, p))"

definition append_byte :: "slice_writer \<Rightarrow> nat \<Rightarrow> byte \<Rightarrow> posting_pool \<Rightarrow> (slice_writer \<times> nat \<times> posting_pool) result" where
  "append_byte w level v p =
     and_then
       (if sw_cur w = sw_slice_end w then
          let next_level = kNextLevel ! level in
          and_then (alloc_slice next_level p) (\<lambda>(new_head, new_end, p).
          and_then (write_ptr (sw_slice_end w) new_head p) (\<lambda>p.
          Inr (\<lparr>sw_cur = new_head, sw_slice_end = new_end\<rparr>, next_level, p)))
        else Inr (w, level, p)) (\<lambda>(w, level, p).
     and_then (pool_set (sw_cur w) [v] p) (\<lambda>p.
     Inr (w\<lparr>sw_cur := sw_cur w + 1\<rparr>, level, p\<lparr>pool_payload_bytes := pool_payload_bytes p + 1\<rparr>)))"

subsection \<open>Cursor\<close>

record pool_cursor =
  pc_cur :: u32
  pc_slice_end :: u32
  pc_level :: nat
  pc_budget :: u64

definition cursor_new :: "u32 \<Rightarrow> u64 \<Rightarrow> pool_cursor" where
  "cursor_new head budget =
     \<lparr>pc_cur = head, pc_slice_end = head + kSliceSizes ! 0, pc_level = 0, pc_budget = budget\<rparr>"

definition cursor_has_next :: "posting_pool \<Rightarrow> pool_cursor \<Rightarrow> bool result" where
  "cursor_has_next p c =
     (if pc_budget c = 0 then Inr False
      else if pc_cur c = pc_slice_end c then and_then (read_ptr p (pc_slice_end c)) (\<lambda>v. Inr (v \<noteq> 0))
      else Inr True)"

definition cursor_next :: "posting_pool \<Rightarrow> pool_cursor \<Rightarrow> (byte \<times> pool_cursor) result" where
  "cursor_next p c =
     (if pc_budget c = 0 then Inr (0, c)
      else
        and_then
          (if pc_cur c = pc_slice_end c then
             and_then (read_ptr p (pc_slice_end c)) (\<lambda>next_head.
             if next_head = 0 then Inr None
             else
               let level = kNextLevel ! pc_level c in
               Inr (Some (c\<lparr>pc_level := level, pc_cur := next_head, pc_slice_end := next_head + kSliceSizes ! level\<rparr>)))
           else Inr (Some c)) (\<lambda>step.
        case step of
          None \<Rightarrow> Inr (0, c\<lparr>pc_budget := 0\<rparr>)
        | Some c \<Rightarrow>
            and_then (pool_at p (pc_cur c)) (\<lambda>v.
            Inr (v, c\<lparr>pc_cur := pc_cur c + 1, pc_budget := pc_budget c - 1\<rparr>))))"

end
