(* ===== verification/Spimi_Term_Buffer.thy ===== *)
theory Spimi_Term_Buffer
  imports Spill_Merge Compact_Posting_Pool
begin

text \<open>
  The accumulator of the index build: \<open>src/core/src/writer/spimi_term_buffer.cpp\<close>, with
  \<open>src/core/include/snii/writer/temp_dir.h\<close>. Tokens are appended to one chain per live term as tagged
  variable-length integers; when the resident bytes pass a cap, all terms are written to a sorted run and the
  memory is released; the terms come out sorted, from memory or through the merge of the runs.

  \<open>spimi_env\<close> is what the buffer finds around it: the capacity the vector of slots has when it holds so many
  elements, the environment variables, the free space of a directory when so many runs exist, the operating
  system's behaviour on each run file, and \<open>std::sort\<close> of a vector of strings as the permutation it arrives at.
  The file of a run is its contents; paths only keep the files of different buffers apart.
  \<open>int64_t\<close> values are 64-bit words. An access outside a vector or a shift by more than the width is \<open>OutOfBounds\<close>.
\<close>

record spimi_env =
  se_capacity :: "nat \<Rightarrow> nat"
  se_getenv :: "string \<Rightarrow> byte list option"
  se_statvfs :: "nat \<Rightarrow> byte list \<Rightarrow> (u64 \<times> u64) option"
  se_io :: "nat \<Rightarrow> run_io"
  se_sort :: "term_bytes list \<Rightarrow> nat list"

subsection \<open>Temporary directory\<close>

definition non_empty :: "byte list option \<Rightarrow> byte list option" where
  "non_empty v = (if v = Some [] then None else v)"

fun strip_slashes :: "byte list \<Rightarrow> byte list" where
  "strip_slashes [] = []"
| "strip_slashes (b # rev_d) = (if rev_d \<noteq> [] \<and> b = 0x2F then strip_slashes rev_d else b # rev_d)"

definition resolve_temp_dir :: "(string \<Rightarrow> byte list option) \<Rightarrow> byte list" where
  "resolve_temp_dir getenv =
     (case non_empty (getenv ''SNII_TEMP_DIR'') of
        Some d \<Rightarrow> rev (strip_slashes (rev d))
      | None \<Rightarrow>
          case non_empty (getenv ''TMPDIR'') of
            Some d \<Rightarrow> rev (strip_slashes (rev d))
          | None \<Rightarrow> [0x2F, 0x74, 0x6D, 0x70])"

definition temp_dir_available_bytes :: "(byte list \<Rightarrow> (u64 \<times> u64) option) \<Rightarrow> byte list \<Rightarrow> u64" where
  "temp_dir_available_bytes statvfs dir = (case statvfs dir of None \<Rightarrow> - 1 | Some (f_bavail, f_frsize) \<Rightarrow> f_bavail * f_frsize)"

subsection \<open>SpimiTermBuffer\<close>

definition kNoChain :: u32 where "kNoChain = 0xFFFFFFFF"

record spimi_term =
  t_head :: u32
  t_w :: slice_writer
  t_ntok :: u32
  t_cur_docid :: u32
  t_level :: nat
  t_started :: bool
  t_sorted :: bool

definition spimi_term_new :: spimi_term where
  "spimi_term_new =
     \<lparr>t_head = kNoChain, t_w = \<lparr>sw_cur = 0, sw_slice_end = 0\<rparr>, t_ntok = 0, t_cur_docid = 0, t_level = 0,
      t_started = False, t_sorted = True\<rparr>"

record spimi =
  sp_vocab :: "term_bytes list"
  sp_owned :: bool
  sp_intern :: "term_bytes \<rightharpoonup> u32"
  sp_has_positions :: bool
  sp_spill_threshold :: u64
  sp_total_tokens :: u64
  sp_slot_of :: "u32 list"
  sp_slots :: "spimi_term list"
  sp_free_slots :: "u32 list"
  sp_touched :: "u32 list"
  sp_live_terms :: u64
  sp_pool :: posting_pool
  sp_reporter :: "memory_reporter option"
  sp_reported :: u64
  sp_runs :: "byte list list"
  sp_status :: "unit result"
  sp_drained :: bool
  sp_string_rank :: "u32 list"

definition slot_capacity :: "spimi_env \<Rightarrow> spimi \<Rightarrow> nat" where
  "slot_capacity env st = (if sp_slot_of st = [] then 0 else se_capacity env (length (sp_slot_of st)))"

definition resident_bytes :: "spimi_env \<Rightarrow> spimi \<Rightarrow> u64" where
  "resident_bytes env st = arena_bytes (sp_pool st) + of_nat (slot_capacity env st) * 4"

definition report_arena_delta :: "spimi_env \<Rightarrow> spimi \<Rightarrow> spimi" where
  "report_arena_delta env st =
     (case sp_reporter st of
        None \<Rightarrow> st
      | Some m \<Rightarrow>
          let now = resident_bytes env st in
          st\<lparr>sp_reporter := Some (mr_report (now - sp_reported st) m), sp_reported := now\<rparr>)"

definition spimi_empty :: "term_bytes list \<Rightarrow> bool \<Rightarrow> bool \<Rightarrow> u64 \<Rightarrow> memory_reporter option \<Rightarrow> spimi" where
  "spimi_empty vocab owned hp threshold reporter =
     \<lparr>sp_vocab = vocab, sp_owned = owned, sp_intern = Map.empty, sp_has_positions = hp, sp_spill_threshold = threshold,
      sp_total_tokens = 0, sp_slot_of = [], sp_slots = [], sp_free_slots = [], sp_touched = [], sp_live_terms = 0,
      sp_pool = posting_pool_new, sp_reporter = reporter, sp_reported = 0, sp_runs = [], sp_status = Inr (),
      sp_drained = False, sp_string_rank = []\<rparr>"

definition spimi_borrowed :: "spimi_env \<Rightarrow> term_bytes list \<Rightarrow> bool \<Rightarrow> u64 \<Rightarrow> memory_reporter option \<Rightarrow> spimi" where
  "spimi_borrowed env vocab hp threshold reporter =
     report_arena_delta env ((spimi_empty vocab False hp threshold reporter)\<lparr>sp_slot_of := replicate (length vocab) 0\<rparr>)"

definition spimi_owned :: "bool \<Rightarrow> u64 \<Rightarrow> memory_reporter option \<Rightarrow> spimi" where
  "spimi_owned hp threshold reporter = spimi_empty [] True hp threshold reporter"

definition cleanup_runs :: "spimi \<Rightarrow> spimi" where
  "cleanup_runs st = st\<lparr>sp_runs := []\<rparr>"

definition spimi_destroy :: "spimi \<Rightarrow> spimi" where
  "spimi_destroy st =
     cleanup_runs
       (case sp_reporter st of
          Some m \<Rightarrow>
            if sp_reported st \<noteq> 0
            then st\<lparr>sp_reporter := Some (mr_report (- sp_reported st) m), sp_reported := 0\<rparr> else st
        | None \<Rightarrow> st)"

definition unique_terms :: "spimi \<Rightarrow> u64" where
  "unique_terms st = sp_live_terms st"

definition term_slot :: "u32 \<Rightarrow> spimi \<Rightarrow> (nat \<times> bool \<times> spimi) result" where
  "term_slot term_id st =
     (if unat term_id < length (sp_slot_of st) then
        let enc = sp_slot_of st ! unat term_id in
        if enc \<noteq> 0 then
          if unat (enc - 1) < length (sp_slots st) then Inr (unat (enc - 1), False, st) else Inl OutOfBounds
        else
          let (slot, st) =
            (if sp_free_slots st \<noteq> []
             then (last (sp_free_slots st), st\<lparr>sp_free_slots := butlast (sp_free_slots st)\<rparr>)
             else (of_nat (length (sp_slots st)), st\<lparr>sp_slots := sp_slots st @ [spimi_term_new]\<rparr>))
          in if unat slot < length (sp_slots st)
             then Inr (unat slot, True, st\<lparr>sp_slot_of := (sp_slot_of st)[unat term_id := slot + 1]\<rparr>) else Inl OutOfBounds
      else Inl OutOfBounds)"

definition put_byte :: "byte \<Rightarrow> spimi_term \<times> posting_pool \<Rightarrow> (spimi_term \<times> posting_pool) result" where
  "put_byte b = (\<lambda>(t, p).
     and_then
       (if t_head t = kNoChain
        then and_then (start_chain p) (\<lambda>(head, w, level, p). Inr (t\<lparr>t_head := head, t_w := w, t_level := level\<rparr>, p))
        else Inr (t, p)) (\<lambda>(t, p).
     and_then (append_byte (t_w t) (t_level t) b p) (\<lambda>(w, level, p).
     Inr (t\<lparr>t_w := w, t_level := level\<rparr>, p))))"

fun put_all :: "byte list \<Rightarrow> spimi_term \<times> posting_pool \<Rightarrow> (spimi_term \<times> posting_pool) result" where
  "put_all [] tp = Inr tp"
| "put_all (b # bs) tp = and_then (put_byte b tp) (put_all bs)"

definition put_varint :: "u64 \<Rightarrow> spimi_term \<times> posting_pool \<Rightarrow> (spimi_term \<times> posting_pool) result" where
  "put_varint v tp = put_all (encode_varint64 v) tp"

subsection \<open>SortByDocid\<close>

fun position_offsets :: "u32 list \<Rightarrow> u32 \<Rightarrow> u32 list" where
  "position_offsets [] running = []"
| "position_offsets (f # freqs) running = running # position_offsets freqs (running + f)"

fun coalesce_groups :: "u32 list \<Rightarrow> u32 list \<Rightarrow> u32 list \<Rightarrow> bool \<Rightarrow> nat list \<Rightarrow> u32 list \<times> u32 list \<times> u32 list \<Rightarrow>
    (u32 list \<times> u32 list \<times> u32 list) result" where
  "coalesce_groups docids freqs positions hp [] acc = Inr acc"
| "coalesce_groups docids freqs positions hp (k # order) (nd, nf, np) =
     (let (nd, nf) = (if nd \<noteq> [] \<and> last nd = docids ! k
                      then (nd, butlast nf @ [last nf + freqs ! k])
                      else (nd @ [docids ! k], nf @ [freqs ! k]))
      in and_then (if hp then subslice positions (unat (position_offsets freqs 0 ! k)) (unat (freqs ! k)) else Inr []) (\<lambda>ps.
         coalesce_groups docids freqs positions hp order (nd, nf, np @ ps)))"

definition SortByDocid :: "u32 list \<Rightarrow> u32 list \<Rightarrow> u32 list \<Rightarrow> bool \<Rightarrow> (u32 list \<times> u32 list \<times> u32 list) result" where
  "SortByDocid docids freqs positions hp =
     and_then (coalesce_groups docids freqs positions hp (sort_key (\<lambda>i. docids ! i) [0..<length docids]) ([], [], [])) (\<lambda>(nd, nf, np).
     Inr (nd, nf, if hp then np else positions))"

subsection \<open>Decoding a chain\<close>

lemma cursor_next_budget:
  "cursor_next p c = Inr (b, c') \<Longrightarrow> pc_budget c \<noteq> 0 \<Longrightarrow> unat (pc_budget c') < unat (pc_budget c)"
  by (auto simp: cursor_next_def Let_def unat_minus_one unat_gt_0 split: if_splits option.splits)

lemma cursor_next_spent: "pc_budget c = 0 \<Longrightarrow> cursor_next p c = Inr (0, c)"
  by (simp add: cursor_next_def)

function DecodeChainVarint :: "posting_pool \<Rightarrow> u64 \<Rightarrow> nat \<Rightarrow> pool_cursor \<Rightarrow> (u64 \<times> pool_cursor) result" where
  "DecodeChainVarint p res shift c =
     and_then (cursor_next p c) (\<lambda>(b, c').
     if shift \<ge> 64 then Inl OutOfBounds
     else
       let res = res OR push_bit shift (ucast (b AND 0x7F)) in
       if b AND 0x80 = 0 then Inr (res, c') else DecodeChainVarint p res (shift + 7) c')"
  by pat_completeness auto
termination
proof (relation "measure (\<lambda>(p, res, shift, c). unat (pc_budget c))", goal_cases)
  case (2 p res shift c x b c' y)
  have "pc_budget c \<noteq> 0"
  proof
    assume "pc_budget c = 0"
    with 2 show False by (auto simp: cursor_next_spent)
  qed
  then show ?case using 2 cursor_next_budget [of p c b c'] by simp
qed simp

declare DecodeChainVarint.simps [simp del]

definition chain_varint :: "posting_pool \<Rightarrow> pool_cursor \<Rightarrow> (u64 \<times> pool_cursor) result" where
  "chain_varint p c = DecodeChainVarint p 0 0 c"

text \<open>The decode loop of \<open>to_postings\<close>; positions are kept unless they are to be streamed.\<close>

fun decode_tokens :: "posting_pool \<Rightarrow> bool \<Rightarrow> nat \<Rightarrow> u64 \<Rightarrow> pool_cursor \<Rightarrow> u32 list \<times> u32 list \<times> u32 list \<Rightarrow>
    (u32 list \<times> u32 list \<times> u32 list) result" where
  "decode_tokens p keep 0 prev c acc = Inr acc"
| "decode_tokens p keep (Suc n) prev c (docids, freqs, positions) =
     and_then (chain_varint p c) (\<lambda>(tagged, c).
     and_then
       (if tagged AND 1 \<noteq> 0 then
          and_then (chain_varint p c) (\<lambda>(z, c).
          let prev = prev + zigzag_decode z in
          Inr (prev, c, docids @ [ucast prev], freqs @ [0]))
        else Inr (prev, c, docids, freqs)) (\<lambda>(prev, c, docids, freqs).
     if freqs = [] then Inl OutOfBounds
     else
       decode_tokens p keep n prev c
         (docids, butlast freqs @ [last freqs + 1], if keep then positions @ [ucast (drop_bit 1 tagged)] else positions)))"

text \<open>The second pass, of the position pump and of the fallback for a slim term.\<close>

fun chain_positions :: "posting_pool \<Rightarrow> nat \<Rightarrow> pool_cursor \<Rightarrow> u32 list result" where
  "chain_positions p 0 c = Inr []"
| "chain_positions p (Suc n) c =
     and_then (chain_varint p c) (\<lambda>(tagged, c).
     and_then (if tagged AND 1 \<noteq> 0 then chain_varint p c else Inr (0, c)) (\<lambda>(_, c).
     and_then (chain_positions p n c) (\<lambda>ps. Inr (ucast (drop_bit 1 tagged) # ps))))"

definition kStreamPositionsTokenThreshold :: u32 where "kStreamPositionsTokenThreshold = push_bit 16 1"

definition to_postings :: "posting_pool \<Rightarrow> bool \<Rightarrow> term_bytes \<Rightarrow> spimi_term \<Rightarrow> bool \<Rightarrow> term_postings result" where
  "to_postings p hp trm t allow_stream =
     (let tp = new_postings trm in
      if t_ntok t = 0 \<or> t_head t = kNoChain then Inr tp
      else
        let stream_pos = (allow_stream \<and> hp \<and> t_sorted t \<and> t_ntok t \<ge> kStreamPositionsTokenThreshold);
            n = unat (t_ntok t);
            c = cursor_new (t_head t) (ucast (sw_cur (t_w t)))
        in and_then (decode_tokens p (hp \<and> \<not> stream_pos) n 0 c ([], [], [])) (\<lambda>(docids, freqs, positions).
           if stream_pos \<and> length docids \<ge> kSlimDfThreshold then
             and_then (chain_positions p n c) (\<lambda>ps.
             Inr (tp\<lparr>tp_docids := docids, tp_freqs := freqs, tp_pos_pump := Some ps, tp_pos_total := ucast (t_ntok t)\<rparr>))
           else if stream_pos then
             and_then (chain_positions p n c) (\<lambda>ps.
             Inr (tp\<lparr>tp_docids := docids, tp_freqs := freqs, tp_positions_flat := ps\<rparr>))
           else if \<not> t_sorted t then
             and_then (SortByDocid docids freqs positions hp) (\<lambda>(docids, freqs, positions).
             Inr (tp\<lparr>tp_docids := docids, tp_freqs := freqs, tp_positions_flat := positions\<rparr>))
           else Inr (tp\<lparr>tp_docids := docids, tp_freqs := freqs, tp_positions_flat := positions\<rparr>)))"

subsection \<open>Draining\<close>

fun fill_ranks :: "nat list \<Rightarrow> nat \<Rightarrow> u32 list \<Rightarrow> u32 list" where
  "fill_ranks [] rank ranks = ranks"
| "fill_ranks (term_id # order) rank ranks = fill_ranks order (Suc rank) (ranks[term_id := of_nat rank])"

definition ensure_string_rank :: "spimi_env \<Rightarrow> spimi \<Rightarrow> spimi" where
  "ensure_string_rank env st =
     (let v = sp_vocab st in
      if length (sp_string_rank st) = length v then st
      else st\<lparr>sp_string_rank := fill_ranks (se_sort env v) 0 (replicate (length v) 0)\<rparr>)"

definition sorted_ids :: "spimi_env \<Rightarrow> spimi \<Rightarrow> u32 list \<times> spimi" where
  "sorted_ids env st =
     (let st = ensure_string_rank env st in
      (sort_key (\<lambda>term_id. sp_string_rank st ! unat term_id) (sp_touched st), st))"

definition release_term :: "u32 \<Rightarrow> spimi \<Rightarrow> spimi" where
  "release_term term_id st =
     (let enc = sp_slot_of st ! unat term_id in
      if enc = 0 then st
      else
        let slot = enc - 1 in
        st\<lparr>sp_slots := (sp_slots st)[unat slot := spimi_term_new], sp_free_slots := sp_free_slots st @ [slot],
           sp_slot_of := (sp_slot_of st)[unat term_id := 0], sp_live_terms := sp_live_terms st - 1\<rparr>)"

text \<open>Taking the term of an id out of its slot, at the head of both drains.\<close>

definition take_term :: "u32 \<Rightarrow> spimi \<Rightarrow> (spimi_term \<times> spimi) result" where
  "take_term term_id st =
     (if unat term_id < length (sp_slot_of st) \<and> unat (sp_slot_of st ! unat term_id - 1) < length (sp_slots st)
      then Inr (sp_slots st ! unat (sp_slot_of st ! unat term_id - 1), release_term term_id st) else Inl OutOfBounds)"

fun drain_terms :: "bool \<Rightarrow> u32 list \<Rightarrow> spimi \<Rightarrow> (term_postings list \<times> spimi) result" where
  "drain_terms allow_stream [] st = Inr ([], st)"
| "drain_terms allow_stream (term_id # ids) st =
     and_then (take_term term_id st) (\<lambda>(t, st).
     and_then (to_postings (sp_pool st) (sp_has_positions st) (sp_vocab st ! unat term_id) t allow_stream) (\<lambda>tp.
     and_then (drain_terms allow_stream ids st) (\<lambda>(tps, st). Inr (tp # tps, st))))"

definition drain_sorted :: "spimi_env \<Rightarrow> bool \<Rightarrow> spimi \<Rightarrow> (term_postings list \<times> spimi) result" where
  "drain_sorted env allow_stream st =
     (let (ids, st) = sorted_ids env st in
      and_then (drain_terms allow_stream ids st) (\<lambda>(tps, st).
      Inr (tps, report_arena_delta env
        (st\<lparr>sp_touched := [], sp_pool := pool_reset (sp_pool st), sp_slots := [], sp_free_slots := [], sp_slot_of := []\<rparr>))))"

text \<open>The status of the run writer is the writer or its first error, after which the terms are drained but not written.\<close>

fun write_terms :: "run_io \<Rightarrow> u32 list \<Rightarrow> run_writer result \<times> spimi \<Rightarrow> (run_writer result \<times> spimi) result" where
  "write_terms io [] (w, st) = Inr (w, st)"
| "write_terms io (term_id # ids) (w, st) =
     and_then (take_term term_id st) (\<lambda>(t, st).
     and_then (to_postings (sp_pool st) (sp_has_positions st) (sp_vocab st ! unat term_id) t False) (\<lambda>tp.
     write_terms io ids (and_then w (write_term io term_id tp), st)))"

definition drain_to_writer :: "spimi_env \<Rightarrow> run_io \<Rightarrow> run_writer \<Rightarrow> spimi \<Rightarrow> (run_writer result \<times> spimi) result" where
  "drain_to_writer env io w st =
     (let (ids, st) = sorted_ids env st in
      and_then (write_terms io ids (Inr w, st)) (\<lambda>(w, st).
      Inr (w, report_arena_delta env (st\<lparr>sp_touched := [], sp_pool := pool_reset (sp_pool st)\<rparr>))))"

definition spill_to_run :: "spimi_env \<Rightarrow> spimi \<Rightarrow> (unit result \<times> spimi) result" where
  "spill_to_run env st =
     (let dir = resolve_temp_dir (se_getenv env);
          n = length (sp_runs st);
          io = se_io env n
      in if temp_dir_available_bytes (se_statvfs env n) dir < resident_bytes env st then Inr (IoError, st)
         else
           case run_writer_open io of
             Inl e \<Rightarrow> Inr (Inl e, st)
           | Inr w \<Rightarrow>
               and_then (drain_to_writer env io w (st\<lparr>sp_runs := sp_runs st @ [[]]\<rparr>)) (\<lambda>(w, st).
               case and_then w (run_close io) of
                 Inl e \<Rightarrow> Inr (Inl e, st)
               | Inr w \<Rightarrow> Inr (Inr (), st\<lparr>sp_runs := (sp_runs st)[n := rw_out w]\<rparr>)))"

definition merge_runs :: "spimi_env \<Rightarrow> bool \<Rightarrow> spimi \<Rightarrow> (term_postings list \<times> unit result \<times> spimi) result" where
  "merge_runs env allow_stream st =
     and_then
       (if sp_touched st \<noteq> [] then
          and_then (spill_to_run env st) (\<lambda>(s, st).
          Inr (if s \<noteq> Inr () \<and> sp_status st = Inr () then st\<lparr>sp_status := s\<rparr> else st))
        else Inr st) (\<lambda>st.
     if sp_status st \<noteq> Inr () then Inr ([], sp_status st, st)
     else
       let st = report_arena_delta env (st\<lparr>sp_slots := [], sp_free_slots := [], sp_slot_of := []\<rparr>);
           files = map (\<lambda>i. (se_io env i, sp_runs st ! i)) [0..<length (sp_runs st)];
           (tps, s) = MergeRuns files (sp_vocab st) (sp_has_positions st) allow_stream
       in Inr (tps, s, st))"

definition for_each_term_sorted :: "spimi_env \<Rightarrow> spimi \<Rightarrow> (term_postings list \<times> unit result \<times> spimi) result" where
  "for_each_term_sorted env st =
     (if sp_drained st then Inr ([], Internal, st)
      else
        let st = st\<lparr>sp_drained := True\<rparr> in
        if sp_runs st = [] \<and> sp_status st = Inr ()
        then and_then (drain_sorted env True st) (\<lambda>(tps, st). Inr (tps, Inr (), st))
        else merge_runs env True st)"

definition finalize_sorted :: "spimi_env \<Rightarrow> spimi \<Rightarrow> (term_postings list \<times> spimi) result" where
  "finalize_sorted env st =
     (if sp_drained st then Inr ([], if sp_status st = Inr () then st\<lparr>sp_status := Internal\<rparr> else st)
      else
        let st = st\<lparr>sp_drained := True\<rparr> in
        if sp_runs st = [] \<and> sp_status st = Inr ()
        then drain_sorted env False st
        else
          and_then (merge_runs env False st) (\<lambda>(tps, s, st).
          Inr (tps, if s \<noteq> Inr () \<and> sp_status st = Inr () then st\<lparr>sp_status := s\<rparr> else st)))"

subsection \<open>Adding tokens\<close>

definition kArenaSpillCap :: u64 where "kArenaSpillCap = 0xE0000000"

definition accumulate :: "spimi_env \<Rightarrow> u32 \<Rightarrow> u32 \<Rightarrow> u32 \<Rightarrow> spimi \<Rightarrow> spimi result" where
  "accumulate env term_id docid pos st =
     and_then (term_slot term_id st) (\<lambda>(slot, new_term, st).
     let st = (if new_term then st\<lparr>sp_touched := sp_touched st @ [term_id], sp_live_terms := sp_live_terms st + 1\<rparr> else st);
         t = sp_slots st ! slot;
         new_doc = (\<not> t_started t \<or> t_cur_docid t \<noteq> docid);
         tagged = (if sp_has_positions st then push_bit 1 (ucast pos) OR (if new_doc then 1 else 0)
                   else (if new_doc then 1 else 0)) :: u64
     in and_then (put_varint tagged (t, sp_pool st)) (\<lambda>(t, pool).
        and_then
          (if new_doc then
             let base = (if t_started t then ucast (t_cur_docid t) else 0) :: u64;
                 t = (if t_started t \<and> docid < t_cur_docid t then t\<lparr>t_sorted := False\<rparr> else t);
                 delta = ucast docid - base
             in and_then (put_varint (zigzag_encode delta) (t, pool)) (\<lambda>(t, pool).
                Inr (t\<lparr>t_cur_docid := docid, t_started := True\<rparr>, pool))
           else Inr (t, pool)) (\<lambda>(t, pool).
        let st = st\<lparr>sp_slots := (sp_slots st)[slot := t\<lparr>t_ntok := t_ntok t + 1\<rparr>], sp_pool := pool,
                    sp_total_tokens := sp_total_tokens st + 1\<rparr>;
            st = report_arena_delta env st;
            over_cap = (case sp_reporter st of
                          Some m \<Rightarrow> mr_over_cap m
                        | None \<Rightarrow> sp_spill_threshold st \<noteq> 0 \<and> resident_bytes env st \<ge> sp_spill_threshold st);
            arena_near_limit = (arena_bytes (sp_pool st) \<ge> kArenaSpillCap)
        in if (over_cap \<or> arena_near_limit) \<and> sp_status st = Inr ()
           then and_then (spill_to_run env st) (\<lambda>(s, st). Inr (st\<lparr>sp_status := s\<rparr>))
           else Inr st)))"

definition latch_invalid :: "spimi \<Rightarrow> spimi" where
  "latch_invalid st = (if sp_status st = Inr () then st\<lparr>sp_status := InvalidArgument\<rparr> else st)"

definition add_token :: "spimi_env \<Rightarrow> u32 \<Rightarrow> u32 \<Rightarrow> u32 \<Rightarrow> spimi \<Rightarrow> spimi result" where
  "add_token env term_id docid pos st =
     (if unat term_id \<ge> length (sp_slot_of st) then Inr (latch_invalid st)
      else accumulate env term_id docid pos st)"

definition add_token_string :: "spimi_env \<Rightarrow> term_bytes \<Rightarrow> u32 \<Rightarrow> u32 \<Rightarrow> spimi \<Rightarrow> spimi result" where
  "add_token_string env trm docid pos st =
     (if \<not> sp_owned st then Inr (latch_invalid st)
      else
        case sp_intern st trm of
          None \<Rightarrow>
            let term_id = of_nat (length (sp_vocab st)) in
            accumulate env term_id docid pos
              (st\<lparr>sp_vocab := sp_vocab st @ [trm], sp_intern := (sp_intern st)(trm \<mapsto> term_id), sp_slot_of := sp_slot_of st @ [0]\<rparr>)
        | Some term_id \<Rightarrow> accumulate env term_id docid pos st)"

end
