(* ===== verification/Posting_Chains.thy ===== *)
theory Posting_Chains
  imports Compact_Posting_Pool
begin

text \<open>
  What the arena holds: its blocks as one memory, the chains in it with their slices, and the proof that
  appending to one chain keeps every other.
\<close>

subsection \<open>The memory of the blocks\<close>

abbreviation K :: nat where "K \<equiv> 32768"

definition pool_wf :: "posting_pool \<Rightarrow> bool" where
  "pool_wf p =
     ((\<forall>b \<in> set (pool_blocks p). length b = K) \<and> unat (pool_next_offset p) \<le> K * length (pool_blocks p) \<and>
      K * length (pool_blocks p) \<le> 2 ^ 32)"

definition mem :: "posting_pool \<Rightarrow> byte list" where
  "mem p = concat (pool_blocks p)"

lemma block_size_simps [simp]: "kBlockSize = 32768" "kBlockMask = mask 15"
  by (simp_all add: kBlockSize_def kBlockMask_def kBlockShift_def mask_eq_decr_exp)

lemma block_of_div: "block_of off = unat off div K"
  unfolding block_of_def kBlockShift_def unat_drop_bit by (simp add: drop_bit_eq_div)

lemma byte_in_block_mod: "byte_in_block off = unat off mod K"
  unfolding byte_in_block_def block_size_simps take_bit_eq_mask [symmetric] unsigned_take_bit_eq by (simp add: take_bit_eq_mod)

lemma length_concat_blocks: "\<forall>b \<in> set bs. length b = k \<Longrightarrow> length (concat bs) = k * length bs"
  by (induction bs) simp_all

lemma length_mem: "pool_wf p \<Longrightarrow> length (mem p) = K * length (pool_blocks p)"
  unfolding mem_def pool_wf_def by (intro length_concat_blocks) blast

lemma block_split:
  assumes "pool_wf p" and "unat off < length (mem p)"
  obtains pre post where "block_of off < length (pool_blocks p)"
    and "mem p = pre @ pool_blocks p ! block_of off @ post" and "length (pool_blocks p ! block_of off) = K"
    and "unat off = length pre + byte_in_block off"
    and "\<And>b. concat ((pool_blocks p)[block_of off := b]) = pre @ b @ post"
proof -
  let ?bs = "pool_blocks p" and ?i = "block_of off"
  have i: "?i < length ?bs" using assms by (simp add: block_of_div length_mem less_mult_imp_div_less mult.commute)
  have wf: "\<forall>b \<in> set ?bs. length b = K" using assms(1) by (simp add: pool_wf_def)
  have "length (concat (take ?i ?bs)) = K * ?i"
    using length_concat_blocks [of "take ?i ?bs" K] wf i in_set_takeD [of _ ?i ?bs] by (simp add: min.absorb4)
  then have "unat off = length (concat (take ?i ?bs)) + byte_in_block off" by (simp add: block_of_div byte_in_block_mod)
  moreover have "mem p = concat (take ?i ?bs) @ ?bs ! ?i @ concat (drop (Suc ?i) ?bs)"
    unfolding mem_def by (subst id_take_nth_drop [OF i]) simp
  moreover have "concat (?bs[?i := b]) = concat (take ?i ?bs) @ b @ concat (drop (Suc ?i) ?bs)" for b
    using i by (simp add: upd_conv_take_nth_drop)
  ultimately show ?thesis using i wf by (intro that) auto
qed

lemma pool_at_mem:
  assumes "pool_wf p" and "unat off < length (mem p)"
  shows "pool_at p off = Inr (mem p ! unat off)"
proof (rule block_split [OF assms])
  fix pre post assume b: "block_of off < length (pool_blocks p)" and m: "mem p = pre @ pool_blocks p ! block_of off @ post"
    and l: "length (pool_blocks p ! block_of off) = K" and u: "unat off = length pre + byte_in_block off"
  have "byte_in_block off < K" by (simp add: byte_in_block_mod)
  then show ?thesis using b l unfolding m u by (simp add: pool_at_def nth_append)
qed

lemma read_ptr_mem:
  assumes "pool_wf p" and "unat off < length (mem p)" and "unat off mod K + 4 \<le> K"
  shows "read_ptr p off = Inr (load_le 4 (take 4 (drop (unat off) (mem p))) 0)"
proof (rule block_split [OF assms(1,2)])
  fix pre post assume b: "block_of off < length (pool_blocks p)" and m: "mem p = pre @ pool_blocks p ! block_of off @ post"
    and l: "length (pool_blocks p ! block_of off) = K" and u: "unat off = length pre + byte_in_block off"
  have i: "byte_in_block off + 4 \<le> K" using assms(3) by (simp add: byte_in_block_mod)
  show ?thesis using b l i unfolding m u by (simp add: read_ptr_def)
qed

lemma pool_set_mem:
  assumes wf: "pool_wf p" and off: "unat off < length (mem p)" and fit: "unat off mod K + length bytes \<le> K"
  obtains p' where "pool_set off bytes p = Inr p'" and "pool_wf p'" and "pool_next_offset p' = pool_next_offset p"
    and "mem p' = take (unat off) (mem p) @ bytes @ drop (unat off + length bytes) (mem p)"
    and "length (pool_blocks p') = length (pool_blocks p)" and "pool_payload_bytes p' = pool_payload_bytes p"
proof (rule block_split [OF wf off])
  fix pre post
  let ?b = "pool_blocks p ! block_of off" and ?i = "byte_in_block off"
  let ?n = "take ?i ?b @ bytes @ drop (?i + length bytes) ?b"
  let ?p = "p\<lparr>pool_blocks := (pool_blocks p)[block_of off := ?n]\<rparr>"
  assume b: "block_of off < length (pool_blocks p)" and m: "mem p = pre @ ?b @ post" and l: "length ?b = K"
    and u: "unat off = length pre + byte_in_block off" and c: "\<And>b. concat ((pool_blocks p)[block_of off := b]) = pre @ b @ post"
  have i: "?i + length bytes \<le> length ?b" using fit l by (simp add: byte_in_block_mod)
  show thesis
  proof (rule that [of ?p])
    show "pool_set off bytes p = Inr ?p" using b i by (simp add: pool_set_def Let_def)
    have "length ?n = K" using i l by simp
    then show "pool_wf ?p" using wf by (auto simp: pool_wf_def dest: set_update_subset_insert [THEN subsetD])
    show "mem ?p = take (unat off) (mem p) @ bytes @ drop (unat off + length bytes) (mem p)"
      using i by (simp add: mem_def [of ?p] c) (simp add: m u)
  qed simp_all
qed

text \<open>Where a run of \<open>n\<close> bytes goes: behind the last one, or to the start of a new block.\<close>

definition run_start :: "nat \<Rightarrow> posting_pool \<Rightarrow> nat" where
  "run_start n p =
     (let u = unat (pool_next_offset p); l = length (pool_blocks p) in
      if l \<le> u div K \<or> K < u mod K + n then K * l else u)"

lemma alloc_run_eq:
  assumes wf: "pool_wf p" and n: "unat n \<le> K"
  shows "alloc_run n p =
    (if 2 ^ 32 \<le> run_start (unat n) p + unat n then Inl Exception
     else Inr (of_nat (run_start (unat n) p),
       p\<lparr>pool_blocks := pool_blocks p @
            (if run_start (unat n) p = unat (pool_next_offset p) \<and> run_start (unat n) p < K * length (pool_blocks p) then [] else [replicate K 0]),
         pool_next_offset := of_nat (run_start (unat n) p + unat n)\<rparr>))"
proof -
  let ?u = "unat (pool_next_offset p)" and ?l = "length (pool_blocks p)"
  have l: "K * ?l \<le> 2 ^ 32" and u: "?u \<le> K * ?l" using wf by (simp_all add: pool_wf_def)
  have b: "unat (pool_next_offset p AND kBlockMask) = ?u mod K" using byte_in_block_mod [of "pool_next_offset p"] by (simp add: byte_in_block_def)
  have m: "?u mod K < K" by simp
  have "unat ((pool_next_offset p AND kBlockMask) + n) = ?u mod K + unat n"
    unfolding unat_word_ariths(1) b using n m by simp
  then have nb: "kBlockSize < (pool_next_offset p AND kBlockMask) + n \<longleftrightarrow> K < ?u mod K + unat n" by (simp add: word_less_nat_alt)
  have rs: "unat ((of_nat ?l * ucast kBlockSize) :: u64) = K * ?l" using l by (simp add: unat_word_ariths mult.commute)
  have un: "unat (ucast (pool_next_offset p) :: u64) = ?u" by simp
  have uc: "unat (ucast n :: u64) = unat n" by simp
  have big: "(x :: u64) + ucast n > 0xFFFFFFFF \<longleftrightarrow> 2 ^ 32 \<le> unat x + unat n" if "unat x \<le> 2 ^ 32" for x
  proof -
    have "unat (x + ucast n) = unat x + unat n" using that n uc by (simp add: unat_word_ariths)
    then show ?thesis by (auto simp: word_less_nat_alt)
  qed
  show ?thesis
  proof (cases "?l \<le> ?u div K \<or> K < ?u mod K + unat n")
    case True
    then have need: "\<not> block_of (pool_next_offset p) < ?l \<or> kBlockSize < (pool_next_offset p AND kBlockMask) + n"
      unfolding nb block_of_div by auto
    have s: "run_start (unat n) p = K * ?l" using True by (simp add: run_start_def Let_def)
    have bl: "\<not> (K * ?l = ?u \<and> K * ?l < K * ?l)" by simp
    have w: "of_nat ?l * kBlockSize = (of_nat (K * ?l) :: u32)" by (simp add: mult.commute)
    have "alloc_run n p =
      (if of_nat ?l * ucast kBlockSize + ucast n > (0xFFFFFFFF :: u64) then Inl Exception
       else Inr (of_nat ?l * kBlockSize, p\<lparr>pool_blocks := pool_blocks p @ [replicate (unat kBlockSize) 0],
           pool_next_offset := of_nat ?l * kBlockSize + n\<rparr>))"
      unfolding alloc_run_def Let_def if_P [OF need] by simp
    also have "\<dots> = (if 2 ^ 32 \<le> K * ?l + unat n then Inl Exception
       else Inr (of_nat (K * ?l), p\<lparr>pool_blocks := pool_blocks p @ [replicate K 0], pool_next_offset := of_nat (K * ?l + unat n)\<rparr>))"
      unfolding big [of "of_nat ?l * ucast kBlockSize", unfolded rs, OF l] w by simp
    finally show ?thesis unfolding s if_not_P [OF bl] .
  next
    case False
    then have need: "\<not> (\<not> block_of (pool_next_offset p) < ?l \<or> kBlockSize < (pool_next_offset p AND kBlockMask) + n)"
      unfolding nb block_of_div by auto
    have s: "run_start (unat n) p = ?u" using False by (simp add: run_start_def Let_def)
    have "?u < K * ?l" using False by (simp add: not_le less_mult_imp_div_less) (metis div_less_iff_less_mult mult.commute zero_less_numeral)
    moreover have "alloc_run n p =
      (if ucast (pool_next_offset p) + ucast n > (0xFFFFFFFF :: u64) then Inl Exception
       else Inr (pool_next_offset p, p\<lparr>pool_next_offset := pool_next_offset p + n\<rparr>))"
      unfolding alloc_run_def Let_def if_not_P [OF need] by (rule refl)
    moreover have "?u \<le> 2 ^ 32" using u l by simp
    ultimately show ?thesis using big [of "ucast (pool_next_offset p)", unfolded un] by (simp add: s)
  qed
qed


lemma run_start_bounds:
  assumes wf: "pool_wf p" and n: "0 < n" "n \<le> K" and ok: "run_start n p + n < 2 ^ 32"
  shows "unat (pool_next_offset p) \<le> run_start n p" and "run_start n p mod K + n \<le> K"
    and "run_start n p < K * length (pool_blocks p) \<Longrightarrow> run_start n p + n \<le> K * length (pool_blocks p)"
    and "run_start n p \<le> K * length (pool_blocks p)"
proof -
  let ?u = "unat (pool_next_offset p)" and ?l = "length (pool_blocks p)"
  have u: "?u \<le> K * ?l" using wf by (simp add: pool_wf_def)
  then show "?u \<le> run_start n p" "run_start n p \<le> K * ?l" by (simp_all add: run_start_def Let_def)
  show m: "run_start n p mod K + n \<le> K" using n by (auto simp: run_start_def Let_def)
  show "run_start n p + n \<le> K * ?l" if "run_start n p < K * ?l"
  proof -
    have "run_start n p div K < ?l" using that by (simp add: div_less_iff_less_mult mult.commute)
    then have "K * (run_start n p div K) + K \<le> K * ?l" by (metis Suc_leI mult_Suc_right mult_le_mono2 add.commute)
    then show ?thesis using m mult_div_mod_eq [of K "run_start n p"] by linarith
  qed
qed

lemma alloc_run_mem:
  assumes wf: "pool_wf p" and n: "0 < unat n" "unat n \<le> K" and r: "alloc_run n p = Inr (off, p')"
  shows "pool_wf p'" and "unat (pool_next_offset p) \<le> unat off" and "unat off mod K + unat n \<le> K"
    and "unat (pool_next_offset p') = unat off + unat n" and "prefix (mem p) (mem p')" and "unat off + unat n \<le> length (mem p')"
    and "unat off = run_start (unat n) p" and "length (pool_blocks p') \<le> Suc (length (pool_blocks p))"
proof -
  let ?s = "run_start (unat n) p" and ?l = "length (pool_blocks p)"
  let ?new = "if ?s = unat (pool_next_offset p) \<and> ?s < K * ?l then [] else [replicate K 0]"
  have c: "\<not> 2 ^ 32 \<le> ?s + unat n"
    by (rule notI) (use r in \<open>simp add: alloc_run_eq [OF wf n(2)]\<close>)
  have ok: "?s + unat n < 2 ^ 32" using c by simp
  have p': "p' = p\<lparr>pool_blocks := pool_blocks p @ ?new, pool_next_offset := of_nat (?s + unat n)\<rparr>"
    and "off = of_nat ?s"
    using r unfolding alloc_run_eq [OF wf n(2)] if_not_P [OF c] sum.inject prod.inject by blast+
  then show o: "unat off = ?s" using ok by simp
  note b = run_start_bounds [OF wf n ok]
  show "unat (pool_next_offset p) \<le> unat off" "unat off mod K + unat n \<le> K" unfolding o by (rule b)+
  show nx: "unat (pool_next_offset p') = unat off + unat n" using ok unfolding o by (simp add: p' del: of_nat_add)
  show "prefix (mem p) (mem p')" by (simp add: mem_def p')
  show "length (pool_blocks p') \<le> Suc ?l" by (simp add: p')
  have l: "\<forall>b \<in> set (pool_blocks p). length b = K" "K * ?l \<le> 2 ^ 32" using wf by (simp_all add: pool_wf_def)
  have fits: "?s + unat n \<le> K * length (pool_blocks p') \<and> K * length (pool_blocks p') \<le> 2 ^ 32"
  proof (cases "?s = unat (pool_next_offset p) \<and> ?s < K * ?l")
    case True
    then show ?thesis using b(3) l(2) by (simp add: p')
  next
    case False
    then have "?s = K * ?l" using b(4) by (auto simp: run_start_def Let_def split: if_splits)
    moreover from this ok n have "?l < 2 ^ 17" by simp
    ultimately show ?thesis using False n(2) by (simp add: p')
  qed
  then show w: "pool_wf p'" using l nx o by (auto simp: pool_wf_def p' split: if_splits)
  show "unat off + unat n \<le> length (mem p')" using fits by (simp add: length_mem [OF w] o)
qed

lemma alloc_run_ok:
  assumes "pool_wf p" and "0 < unat n" "unat n \<le> K" and "K * length (pool_blocks p) + K < 2 ^ 32"
  obtains off p' where "alloc_run n p = Inr (off, p')"
proof -
  have "run_start (unat n) p \<le> K * length (pool_blocks p)" using assms(1) by (simp add: run_start_def Let_def pool_wf_def)
  then show ?thesis using assms that unfolding alloc_run_eq [OF assms(1,3)] by simp
qed


subsection \<open>Slices\<close>

definition slice_cap :: "nat \<Rightarrow> nat" where
  "slice_cap i = unat (kSliceSizes ! min i 15)"

lemma slice_cap_bounds: "5 \<le> slice_cap i" "slice_cap i \<le> 2304"
proof -
  have "min i 15 \<in> {..<16}" by simp
  then have "min i 15 \<in> {0, 1, 2, 3, 4, 5, 6, 7, 8, 9, 10, 11, 12, 13, 14, 15}" by (simp add: lessThan_nat_numeral lessThan_Suc) auto
  then show "5 \<le> slice_cap i" "slice_cap i \<le> 2304" by (auto simp: slice_cap_def kSliceSizes_def)
qed

lemma slice_cap_pos [simp]: "0 < slice_cap i" "slice_cap i \<noteq> 0"
  using slice_cap_bounds(1) [of i] by linarith+

lemma slice_cap_size: "kSliceSizes ! min i 15 = of_nat (slice_cap i)"
  by (simp add: slice_cap_def)

lemma next_level: "kNextLevel ! min i 15 = min (Suc i) 15"
proof (cases "i < 15")
  case True
  then have "i \<in> {..<15}" by simp
  then have "i \<in> {0, 1, 2, 3, 4, 5, 6, 7, 8, 9, 10, 11, 12, 13, 14}" by (simp add: lessThan_nat_numeral lessThan_Suc) auto
  then show ?thesis by (auto simp: kNextLevel_def)
next
  case False
  then show ?thesis by (simp add: kNextLevel_def)
qed

lemma mod_add_fits: "a mod K + c < K \<Longrightarrow> (a + c) mod K = a mod K + c"
  by (metis mod_add_left_eq mod_less)

lemma alloc_slice_mem:
  assumes wf: "pool_wf p" and r: "alloc_slice (min i 15) p = Inr (first, slice_end, p')"
  shows "pool_wf p'" and "unat (pool_next_offset p) \<le> unat first" and "unat first mod K + slice_cap i + 4 \<le> K"
    and "unat (pool_next_offset p') = unat first + slice_cap i + 4" and "unat slice_end = unat first + slice_cap i"
    and "length (mem p) \<le> length (mem p')" and "unat first + slice_cap i + 4 \<le> length (mem p')"
    and "\<And>j. j < length (mem p) \<Longrightarrow> j < unat (pool_next_offset p) \<Longrightarrow> mem p' ! j = mem p ! j"
    and "take 4 (drop (unat first + slice_cap i) (mem p')) = replicate 4 0"
    and "length (pool_blocks p') \<le> Suc (length (pool_blocks p))" and "pool_payload_bytes p' = pool_payload_bytes p"
proof -
  let ?cap = "kSliceSizes ! min i 15"
  note cb = slice_cap_bounds [of i]
  have un: "unat (?cap + kPtrBytes) = slice_cap i + 4" using cb unfolding slice_cap_size kPtrBytes_def by (simp add: unat_word_ariths)
  obtain p1 where a: "alloc_run (?cap + kPtrBytes) p = Inr (first, p1)" and s: "pool_set (first + ?cap) (replicate 4 0) p1 = Inr p'"
    and e: "slice_end = first + ?cap"
    using r by (auto simp: alloc_slice_def Let_def kPtrBytes_def)
  have "0 < unat (?cap + kPtrBytes)" "unat (?cap + kPtrBytes) \<le> K" using un cb by simp_all
  note am = alloc_run_mem [OF wf this a, unfolded un]
  have l32: "length (mem p1) \<le> 2 ^ 32" using am(1) length_mem [OF am(1)] by (simp add: pool_wf_def)
  have ue: "unat (first + ?cap) = unat first + slice_cap i"
    using am(6) l32 cb unfolding slice_cap_size by (simp add: unat_word_ariths)
  then show "unat slice_end = unat first + slice_cap i" by (simp add: e)
  have m: "(unat first + slice_cap i) mod K + 4 \<le> K" using am(3) mod_add_fits [of "unat first" "slice_cap i"] by simp
  have "unat (first + ?cap) < length (mem p1)" "unat (first + ?cap) mod K + length (replicate 4 (0 :: byte)) \<le> K"
    using am(6) m by (simp_all add: ue)
  then obtain q where q: "pool_set (first + ?cap) (replicate 4 0) p1 = Inr q" "pool_wf q" "pool_next_offset q = pool_next_offset p1"
    "mem q = take (unat (first + ?cap)) (mem p1) @ replicate 4 0 @ drop (unat (first + ?cap) + length (replicate 4 (0 :: byte))) (mem p1)"
    "length (pool_blocks q) = length (pool_blocks p1)" "pool_payload_bytes q = pool_payload_bytes p1"
    by (rule pool_set_mem [OF am(1)])
  have "q = p'" using s q(1) by simp
  then have w: "pool_wf p'" "pool_next_offset p' = pool_next_offset p1" "length (pool_blocks p') = length (pool_blocks p1)"
      "pool_payload_bytes p' = pool_payload_bytes p1"
      "mem p' = take (unat first + slice_cap i) (mem p1) @ replicate 4 0 @ drop (unat first + slice_cap i + 4) (mem p1)"
    using q by (simp_all add: ue)
  show "pool_wf p'" "unat (pool_next_offset p) \<le> unat first" "unat first mod K + slice_cap i + 4 \<le> K"
    "unat (pool_next_offset p') = unat first + slice_cap i + 4" "length (pool_blocks p') \<le> Suc (length (pool_blocks p))"
    using w am by simp_all
  have l: "length (mem p') = length (mem p1)" using am(6) by (simp add: w(5))
  then show "unat first + slice_cap i + 4 \<le> length (mem p')" "length (mem p) \<le> length (mem p')"
    using am(5,6) prefix_length_le by auto
  show "take 4 (drop (unat first + slice_cap i) (mem p')) = replicate 4 0" using am(6) by (simp add: w(5))
  show "mem p' ! j = mem p ! j" if jj: "j < length (mem p)" "j < unat (pool_next_offset p)" for j
    using am(2,5,6) jj by (auto simp: w(5) nth_append prefix_def)
  show "pool_payload_bytes p' = pool_payload_bytes p" 
    using w(4) a unfolding alloc_run_def Let_def by (auto split: if_splits)
qed


lemma alloc_slice_total:
  assumes wf: "pool_wf p"
  shows "alloc_slice (min i 15) p = Inl Exception \<and> 2 ^ 32 \<le> K * length (pool_blocks p) + K \<or>
    (\<exists>first slice_end p'. alloc_slice (min i 15) p = Inr (first, slice_end, p'))"
proof -
  let ?cap = "kSliceSizes ! min i 15"
  note cb = slice_cap_bounds [of i]
  have un: "unat (?cap + kPtrBytes) = slice_cap i + 4" using cb unfolding slice_cap_size kPtrBytes_def by (simp add: unat_word_ariths)
  have n: "0 < unat (?cap + kPtrBytes)" "unat (?cap + kPtrBytes) \<le> K" using un cb by simp_all
  have rs: "run_start (unat (?cap + kPtrBytes)) p \<le> K * length (pool_blocks p)" using wf by (simp add: run_start_def Let_def pool_wf_def)
  show ?thesis
  proof (cases "2 ^ 32 \<le> run_start (unat (?cap + kPtrBytes)) p + unat (?cap + kPtrBytes)")
    case True
    have "alloc_run (?cap + kPtrBytes) p = Inl Exception" unfolding alloc_run_eq [OF wf n(2)] if_P [OF True] by (rule refl)
    then show ?thesis using True rs n(2) by (simp add: alloc_slice_def Let_def)
  next
    case False
    then obtain first p1 where a: "alloc_run (?cap + kPtrBytes) p = Inr (first, p1)"
      unfolding alloc_run_eq [OF wf n(2)] if_not_P [OF False] by blast
    note am = alloc_run_mem [OF wf n a, unfolded un]
    have l32: "length (mem p1) \<le> 2 ^ 32" using am(1) length_mem [OF am(1)] by (simp add: pool_wf_def)
    have ue: "unat (first + ?cap) = unat first + slice_cap i"
      using am(6) l32 cb unfolding slice_cap_size by (simp add: unat_word_ariths)
    have m: "(unat first + slice_cap i) mod K + 4 \<le> K" using am(3) mod_add_fits [of "unat first" "slice_cap i"] by simp
    have "unat (first + ?cap) < length (mem p1)" "unat (first + ?cap) mod K + length (replicate 4 (0 :: byte)) \<le> K"
      using am(6) m by (simp_all add: ue)
    then obtain q where "pool_set (first + ?cap) (replicate 4 0) p1 = Inr q" by (rule pool_set_mem [OF am(1)])
    then show ?thesis using a by (simp add: alloc_slice_def Let_def kPtrBytes_def)
  qed
qed

subsection \<open>Chains\<close>

text \<open>A chain: what its owner keeps (\<open>cv_head\<close>, \<open>cv_w\<close>, \<open>cv_level\<close>), the offsets of its slices and its bytes.\<close>

record chain_view =
  cv_head :: u32
  cv_w :: slice_writer
  cv_level :: nat
  cv_slices :: "nat list"
  cv_bytes :: "byte list"

definition ptr_at :: "byte list \<Rightarrow> nat \<Rightarrow> u32" where
  "ptr_at m i = load_le 4 (take 4 (drop i m)) 0"

definition slice_end :: "nat list \<Rightarrow> nat \<Rightarrow> nat" where
  "slice_end ss j = ss ! j + slice_cap j"

definition footprint :: "nat list \<Rightarrow> nat set" where
  "footprint ss = (\<Union>j < length ss. {ss ! j ..< slice_end ss j + 4})"

definition slices_fit :: "nat \<Rightarrow> nat list \<Rightarrow> bool" where
  "slices_fit n ss =
     ((\<forall>j < length ss. ss ! j mod K + slice_cap j + 4 \<le> K \<and> slice_end ss j + 4 \<le> n) \<and>
      (\<forall>j. Suc j < length ss \<longrightarrow> slice_end ss j + 4 \<le> ss ! Suc j))"

definition linked :: "byte list \<Rightarrow> nat list \<Rightarrow> bool" where
  "linked m ss =
     ((\<forall>j. Suc j < length ss \<longrightarrow> unat (ptr_at m (slice_end ss j)) = ss ! Suc j) \<and>
      ptr_at m (slice_end ss (length ss - 1)) = 0)"

definition data_from :: "byte list \<Rightarrow> nat list \<Rightarrow> nat \<Rightarrow> nat \<Rightarrow> byte list" where
  "data_from m ss cur j =
     concat (map (\<lambda>i. take (slice_cap i) (drop (ss ! i) m)) [j..<length ss - 1]) @ take (cur - last ss) (drop (last ss) m)"

definition chain_ok :: "posting_pool \<Rightarrow> chain_view \<Rightarrow> bool" where
  "chain_ok p c =
     (let ss = cv_slices c; n = length ss - 1; cur = unat (sw_cur (cv_w c)) in
      ss \<noteq> [] \<and> hd ss = unat (cv_head c) \<and> slices_fit (unat (pool_next_offset p)) ss \<and> linked (mem p) ss \<and>
      data_from (mem p) ss cur 0 = cv_bytes c \<and> last ss \<le> cur \<and> cur \<le> slice_end ss n \<and>
      unat (sw_slice_end (cv_w c)) = slice_end ss n \<and> cv_level c = min n 15)"

definition arena :: "posting_pool \<Rightarrow> chain_view list \<Rightarrow> bool" where
  "arena p cs =
     (pool_wf p \<and> (\<forall>c \<in> set cs. chain_ok p c) \<and>
      sorted_wrt (\<lambda>c d. footprint (cv_slices c) \<inter> footprint (cv_slices d) = {}) cs)"

text \<open>Equal bytes in the footprint, equal chain.\<close>

lemma same_slice:
  assumes "a + n \<le> length m" "a + n \<le> length m'" and "\<And>j. a \<le> j \<Longrightarrow> j < a + n \<Longrightarrow> m ! j = m' ! j"
  shows "take n (drop a m) = take n (drop a m')"
  using assms by (intro nth_equalityI) auto

lemma footprint_slice: "j < length ss \<Longrightarrow> ss ! j \<le> k \<Longrightarrow> k < slice_end ss j + 4 \<Longrightarrow> k \<in> footprint ss"
  by (auto simp: footprint_def)

lemma footprint_bound: "slices_fit n ss \<Longrightarrow> k \<in> footprint ss \<Longrightarrow> k < n"
  by (fastforce simp: footprint_def slices_fit_def)

lemma chain_frame:
  assumes fit: "slices_fit n ss" and ne: "ss \<noteq> []" and n: "n \<le> length m" "n \<le> length m'"
    and same: "\<And>k. k \<in> footprint ss \<Longrightarrow> m ! k = m' ! k" and cur: "cur \<le> slice_end ss (length ss - 1)"
  shows "linked m ss = linked m' ss" and "data_from m ss cur j = data_from m' ss cur j"
proof -
  have f: "slice_end ss i + 4 \<le> n" if "i < length ss" for i using fit that by (simp add: slices_fit_def)
  have ptr: "ptr_at m (slice_end ss i) = ptr_at m' (slice_end ss i)" if i: "i < length ss" for i
  proof -
    have "take 4 (drop (slice_end ss i) m) = take 4 (drop (slice_end ss i) m')"
      using f [OF i] n same footprint_slice [OF i] by (intro same_slice) (auto simp: slice_end_def)
    then show ?thesis by (simp add: ptr_at_def)
  qed
  show "linked m ss = linked m' ss" using ne by (auto simp: linked_def ptr)
  have sl: "take (slice_cap i) (drop (ss ! i) m) = take (slice_cap i) (drop (ss ! i) m')" if i: "i < length ss" for i
    using f [OF i] n same footprint_slice [OF i] by (intro same_slice) (auto simp: slice_end_def)
  have l: "last ss = ss ! (length ss - 1)" "length ss - 1 < length ss" using ne by (simp_all add: last_conv_nth)
  have c: "last ss + (cur - last ss) \<le> slice_end ss (length ss - 1)" using cur by (simp add: l slice_end_def)
  have "take (cur - last ss) (drop (last ss) m) = take (cur - last ss) (drop (last ss) m')"
    using f [OF l(2)] n c same footprint_slice [OF l(2)] by (intro same_slice) (auto simp: l(1))
  then show "data_from m ss cur j = data_from m' ss cur j"
    unfolding data_from_def by (intro arg_cong2 [of _ _ _ _ "(@)"] arg_cong [of _ _ concat] map_cong refl sl) auto
qed

lemma chain_ok_frame:
  assumes ok: "chain_ok p c" and wf: "pool_wf p" "pool_wf p'" and nx: "unat (pool_next_offset p) \<le> unat (pool_next_offset p')"
    and len: "length (mem p) \<le> length (mem p')" and same: "\<And>k. k \<in> footprint (cv_slices c) \<Longrightarrow> mem p ! k = mem p' ! k"
  shows "chain_ok p' c"
proof -
  let ?ss = "cv_slices c"
  have ne: "?ss \<noteq> []" and fit: "slices_fit (unat (pool_next_offset p)) ?ss"
    and cur: "unat (sw_cur (cv_w c)) \<le> slice_end ?ss (length ?ss - 1)" using ok by (simp_all add: chain_ok_def Let_def)
  have n: "unat (pool_next_offset p) \<le> length (mem p)" using wf(1) length_mem [OF wf(1)] by (simp add: pool_wf_def)
  note fr = chain_frame [OF fit ne n order.trans [OF n len] same cur]
  have "slices_fit (unat (pool_next_offset p')) ?ss" using fit nx by (auto simp: slices_fit_def intro: order.trans)
  then show ?thesis using ok fr by (simp add: chain_ok_def Let_def)
qed


subsection \<open>Appending\<close>

lemma slices_before: "slices_fit n ss \<Longrightarrow> i < k \<Longrightarrow> k < length ss \<Longrightarrow> slice_end ss i + 4 \<le> ss ! k"
proof (induction k)
  case (Suc k)
  have s: "slice_end ss k + 4 \<le> ss ! Suc k" using Suc.prems by (simp add: slices_fit_def)
  show ?case
  proof (cases "i = k")
    case False
    then have "slice_end ss i + 4 \<le> ss ! k" using Suc by simp
    with s show ?thesis by (simp add: slice_end_def)
  qed (use s in simp)
qed simp

text \<open>Writing the next byte of the last slice.\<close>

lemma chain_write:
  assumes ok: "chain_ok p c" and wf: "pool_wf p" and room: "sw_cur (cv_w c) \<noteq> sw_slice_end (cv_w c)"
  obtains p' where "pool_set (sw_cur (cv_w c)) [v] p = Inr p'" and "pool_wf p'" and "pool_next_offset p' = pool_next_offset p"
    and "length (pool_blocks p') = length (pool_blocks p)" and "pool_payload_bytes p' = pool_payload_bytes p"
    and "length (mem p') = length (mem p)" and "\<And>k. k \<notin> footprint (cv_slices c) \<Longrightarrow> mem p' ! k = mem p ! k"
    and "chain_ok p' (c\<lparr>cv_w := (cv_w c)\<lparr>sw_cur := sw_cur (cv_w c) + 1\<rparr>, cv_bytes := cv_bytes c @ [v]\<rparr>)"
proof -
  let ?ss = "cv_slices c" and ?w = "cv_w c" and ?m = "mem p" and ?cur = "unat (sw_cur (cv_w c))"
  define n where "n = length ?ss - 1"
  have ne: "?ss \<noteq> []" and fit: "slices_fit (unat (pool_next_offset p)) ?ss" and lk: "linked ?m ?ss"
    and d: "data_from ?m ?ss ?cur 0 = cv_bytes c" and lo: "last ?ss \<le> ?cur" and hi: "?cur \<le> slice_end ?ss n"
    and e: "unat (sw_slice_end ?w) = slice_end ?ss n"
    using ok by (simp_all add: chain_ok_def Let_def n_def)
  have n: "n < length ?ss" "last ?ss = ?ss ! n" using ne by (simp_all add: n_def last_conv_nth)
  have lt: "?cur < slice_end ?ss n" using hi e room by (metis le_neq_implies_less word_unat_eq_iff)
  have nx: "unat (pool_next_offset p) \<le> length ?m" using wf length_mem [OF wf] by (simp add: pool_wf_def)
  have sn: "slice_end ?ss n + 4 \<le> unat (pool_next_offset p)" "?ss ! n mod K + slice_cap n + 4 \<le> K" using fit n(1) by (simp_all add: slices_fit_def)
  have "?cur mod K = ?ss ! n mod K + (?cur - ?ss ! n)"
    using mod_add_fits [of "?ss ! n" "?cur - ?ss ! n"] lo lt sn(2) n(2) by (simp add: slice_end_def)
  then have k: "?cur mod K + length [v] \<le> K" and c: "?cur < length ?m" using lt lo sn nx n(2) by (simp_all add: slice_end_def)
  obtain p' where p': "pool_set (sw_cur ?w) [v] p = Inr p'" "pool_wf p'" "pool_next_offset p' = pool_next_offset p"
    "mem p' = take ?cur ?m @ [v] @ drop (?cur + length [v]) ?m" "length (pool_blocks p') = length (pool_blocks p)"
    "pool_payload_bytes p' = pool_payload_bytes p"
    by (rule pool_set_mem [OF wf c k])
  have m': "mem p' = ?m[?cur := v]" using c by (simp add: p'(4) upd_conv_take_nth_drop)
  have before: "slice_end ?ss j + 4 \<le> ?cur" if "j < n" for j using slices_before [OF fit that n(1)] lo n(2) by simp
  have ptr: "ptr_at (mem p') (slice_end ?ss j) = ptr_at ?m (slice_end ?ss j)" if "j \<le> n" for j
  proof -
    have "?cur < slice_end ?ss j \<or> slice_end ?ss j + 4 \<le> ?cur" using before [of j] lt that by (cases "j = n") auto
    then have "take 4 (drop (slice_end ?ss j) (?m[?cur := v])) = take 4 (drop (slice_end ?ss j) ?m)"
      by (auto simp: drop_update_swap take_update_cancel)
    then show ?thesis by (simp add: ptr_at_def m')
  qed
  have sl: "take (slice_cap j) (drop (?ss ! j) (?m[?cur := v])) = take (slice_cap j) (drop (?ss ! j) ?m)" if "j < n" for j
    using before [OF that] by (auto simp: drop_update_swap take_update_cancel slice_end_def)
  have "take (?cur + 1 - last ?ss) (drop (last ?ss) (?m[?cur := v])) = take (?cur - last ?ss) (drop (last ?ss) ?m) @ [v]"
    using lo c by (simp add: drop_update_swap Suc_diff_le take_Suc_conv_app_nth)
  moreover have "map (\<lambda>j. take (slice_cap j) (drop (?ss ! j) (?m[?cur := v]))) [0..<length ?ss - 1] =
      map (\<lambda>j. take (slice_cap j) (drop (?ss ! j) ?m)) [0..<length ?ss - 1]"
    using sl by (intro map_cong refl) (simp add: n_def)
  ultimately have "data_from (mem p') ?ss (?cur + 1) 0 = cv_bytes c @ [v]"
    unfolding d [symmetric] data_from_def m' by (simp only: append_assoc)
  moreover have "unat (sw_cur ?w + 1) = ?cur + 1" using lt e unat_u32_less [of "sw_slice_end ?w"] by (simp add: unat_word_ariths)
  moreover have "linked (mem p') ?ss" using lk ptr n(1) by (auto simp: linked_def n_def)
  ultimately have "chain_ok p' (c\<lparr>cv_w := ?w\<lparr>sw_cur := sw_cur ?w + 1\<rparr>, cv_bytes := cv_bytes c @ [v]\<rparr>)"
    using ok lt lo p'(3) by (simp add: chain_ok_def Let_def n_def)
  moreover have "mem p' ! k = ?m ! k" if "k \<notin> footprint ?ss" for k
    using that footprint_slice [OF n(1), of ?cur] lo lt n(2) by (cases "k = ?cur") (auto simp: m')
  moreover have "length (mem p') = length ?m" by (simp add: m')
  ultimately show ?thesis using p' by (intro that [of p']) simp_all
qed


text \<open>Growing the chain by a slice.\<close>

lemma load_le_ptr: "load_le 4 (le_bytes 4 (v :: u32)) 0 = v"
  by (rule load_le_bytes) simp_all

lemma load_le_zero: "load_le 4 (replicate 4 0) 0 = (0 :: u32)"
  by (simp add: load_le_def upt_rec numeral_eq_Suc)

lemma nth_outside: "k < a \<or> a + length ys \<le> k \<Longrightarrow> a + length ys \<le> length m \<Longrightarrow> (take a m @ ys @ drop (a + length ys) m) ! k = m ! k"
  by (auto simp: nth_append)

lemma chain_grow:
  assumes ok: "chain_ok p c" and wf: "pool_wf p" and full: "sw_cur (cv_w c) = sw_slice_end (cv_w c)"
    and al: "alloc_slice (kNextLevel ! cv_level c) p = Inr (first, new_end, p1)"
  obtains p2 where "write_ptr (sw_slice_end (cv_w c)) first p1 = Inr p2" and "pool_wf p2"
    and "unat (pool_next_offset p) \<le> unat (pool_next_offset p2)" and "length (mem p) \<le> length (mem p2)"
    and "length (pool_blocks p2) \<le> Suc (length (pool_blocks p))" and "pool_payload_bytes p2 = pool_payload_bytes p"
    and "\<And>k. k \<notin> footprint (cv_slices c) \<Longrightarrow> k < unat (pool_next_offset p) \<Longrightarrow> mem p2 ! k = mem p ! k"
    and "unat (pool_next_offset p) \<le> unat first"
    and "chain_ok p2 (c\<lparr>cv_w := \<lparr>sw_cur = first, sw_slice_end = new_end\<rparr>, cv_level := kNextLevel ! cv_level c,
           cv_slices := cv_slices c @ [unat first]\<rparr>)"
    and "first \<noteq> new_end"
proof -
  let ?ss = "cv_slices c" and ?w = "cv_w c" and ?m = "mem p"
  define n where "n = length ?ss - 1"
  let ?e = "slice_end ?ss n"
  have ne: "?ss \<noteq> []" and fit: "slices_fit (unat (pool_next_offset p)) ?ss" and lk: "linked ?m ?ss"
    and d: "data_from ?m ?ss (unat (sw_cur ?w)) 0 = cv_bytes c" and e: "unat (sw_slice_end ?w) = ?e" and lv: "cv_level c = min n 15"
    and h: "hd ?ss = unat (cv_head c)"
    using ok by (simp_all add: chain_ok_def Let_def n_def)
  have n: "n < length ?ss" "last ?ss = ?ss ! n" "Suc n = length ?ss" using ne by (simp_all add: n_def last_conv_nth)
  have "alloc_slice (min (Suc n) 15) p = Inr (first, new_end, p1)" using al by (simp add: lv next_level)
  note a = alloc_slice_mem [OF wf this]
  have nx: "unat (pool_next_offset p) \<le> length ?m" using wf length_mem [OF wf] by (simp add: pool_wf_def)
  have sn: "?e + 4 \<le> unat (pool_next_offset p)" "?ss ! n mod K + slice_cap n + 4 \<le> K" using fit n(1) by (simp_all add: slices_fit_def)
  have "?e mod K = ?ss ! n mod K + slice_cap n" using mod_add_fits [of "?ss ! n" "slice_cap n"] sn(2) by (simp add: slice_end_def)
  then have k: "unat (sw_slice_end ?w) mod K + length (le_bytes 4 first) \<le> K" and c: "unat (sw_slice_end ?w) < length (mem p1)"
    using sn nx a(6) by (simp_all add: e)
  obtain p2 where p2: "pool_set (sw_slice_end ?w) (le_bytes 4 first) p1 = Inr p2" "pool_wf p2" "pool_next_offset p2 = pool_next_offset p1"
    "mem p2 = take (unat (sw_slice_end ?w)) (mem p1) @ le_bytes 4 first @ drop (unat (sw_slice_end ?w) + length (le_bytes 4 first)) (mem p1)"
    "length (pool_blocks p2) = length (pool_blocks p1)" "pool_payload_bytes p2 = pool_payload_bytes p1"
    by (rule pool_set_mem [OF a(1) c k])
  have fits: "?e + 4 \<le> length (mem p1)" using sn nx a(6) by simp
  have m2: "mem p2 = take ?e (mem p1) @ le_bytes 4 first @ drop (?e + 4) (mem p1)" using p2(4) by (simp add: e)
  have l2: "length (mem p2) = length (mem p1)" using fits by (simp add: m2)
  have out: "mem p2 ! j = mem p1 ! j" if "j < ?e \<or> ?e + 4 \<le> j" for j
    using nth_outside [of j ?e "le_bytes 4 first" "mem p1"] that fits by (simp add: m2)
  have old: "mem p2 ! j = ?m ! j" if "j < ?e \<or> ?e + 4 \<le> j" "j < unat (pool_next_offset p)" for j
    using out [OF that(1)] a(8) [of j] that(2) nx by simp
  let ?ts = "?ss @ [unat first]"
  have se: "slice_end ?ts j = (if j < length ?ss then slice_end ?ss j else unat first + slice_cap (length ?ss))" if "j \<le> length ?ss" for j
    using that by (auto simp: slice_end_def nth_append)
  have fit2: "slices_fit (unat (pool_next_offset p2)) ?ts"
    unfolding slices_fit_def
  proof (intro conjI allI impI)
    fix j assume "j < length ?ts"
    then show "?ts ! j mod K + slice_cap j + 4 \<le> K" "slice_end ?ts j + 4 \<le> unat (pool_next_offset p2)"
      using fit a(2,3,4) p2(3) n(3) by (auto simp: se slices_fit_def nth_append less_Suc_eq intro: order.trans)
  next
    fix j assume j: "Suc j < length ?ts"
    then have "slice_end ?ss j + 4 \<le> unat first" using fit a(2) by (intro order.trans [OF _ a(2)]) (simp add: slices_fit_def)
    with j fit show "slice_end ?ts j + 4 \<le> ?ts ! Suc j"
      by (auto simp: se slices_fit_def nth_append less_Suc_eq)
  qed
  have ptr: "ptr_at (mem p2) (slice_end ?ss j) = ptr_at ?m (slice_end ?ss j)" if "j < n" for j
  proof -
    have b: "slice_end ?ss j + 4 \<le> ?e" using slices_before [OF fit that n(1)] by (simp add: slice_end_def)
    have "take 4 (drop (slice_end ?ss j) (mem p2)) = take 4 (drop (slice_end ?ss j) ?m)"
      using b sn nx a(6) l2 old by (intro same_slice) auto
    then show ?thesis by (simp add: ptr_at_def)
  qed
  have "take 4 (drop ?e (mem p2)) = le_bytes 4 first" using fits by (simp add: m2)
  then have pe: "ptr_at (mem p2) ?e = first" by (simp add: ptr_at_def load_le_ptr)
  have "take 4 (drop (unat first + slice_cap (Suc n)) (mem p2)) = take 4 (drop (unat first + slice_cap (Suc n)) (mem p1))"
    using a(2,7) sn l2 out by (intro same_slice) auto
  then have pz: "ptr_at (mem p2) (unat first + slice_cap (length ?ss)) = 0" using a(9) n(3) by (simp add: ptr_at_def load_le_zero)
  have lk2: "linked (mem p2) ?ts"
    unfolding linked_def
  proof (intro conjI allI impI)
    fix j assume "Suc j < length ?ts"
    then consider "j < n" | "j = n" using n(3) by fastforce
    then show "unat (ptr_at (mem p2) (slice_end ?ts j)) = ?ts ! Suc j"
      using lk ptr pe n by cases (simp_all add: linked_def se nth_append)
  qed (use pz in \<open>simp add: se\<close>)
  have mp: "map (\<lambda>j. take (slice_cap j) (drop (?ts ! j) (mem p2))) [0..<length ?ss] = map (\<lambda>j. take (slice_cap j) (drop (?ss ! j) ?m)) [0..<length ?ss]"
  proof (intro map_cong refl)
    fix j assume "j \<in> set [0..<length ?ss]"
    then have j: "j < length ?ss" by simp
    have "slice_end ?ss j \<le> ?e" using slices_before [OF fit, of j n] n j by (cases "j = n") (auto simp: slice_end_def)
    then show "take (slice_cap j) (drop (?ts ! j) (mem p2)) = take (slice_cap j) (drop (?ss ! j) ?m)"
      using j sn nx a(6) l2 old by (simp add: nth_append) (intro same_slice; auto simp: slice_end_def)
  qed
  have up: "[0..<length ?ss] = [0..<n] @ [n]" using n(3) upt_Suc_append [of 0 n] by simp
  have "data_from (mem p2) ?ts (unat first) 0 = concat (map (\<lambda>j. take (slice_cap j) (drop (?ts ! j) (mem p2))) [0..<length ?ss])"
    by (simp add: data_from_def)
  also have "\<dots> = concat (map (\<lambda>j. take (slice_cap j) (drop (?ss ! j) ?m)) [0..<n]) @ take (slice_cap n) (drop (?ss ! n) ?m)"
    unfolding mp unfolding up by simp
  also have "\<dots> = cv_bytes c" using d full e n(2) unfolding data_from_def n_def [symmetric] by (simp add: slice_end_def)
  finally have "data_from (mem p2) ?ts (unat first) 0 = cv_bytes c" .
  moreover have "unat new_end = slice_end ?ts (length ?ss)" using a(5) n(3) by (simp add: se)
  ultimately have ok2: "chain_ok p2 (c\<lparr>cv_w := \<lparr>sw_cur = first, sw_slice_end = new_end\<rparr>, cv_level := kNextLevel ! cv_level c,
           cv_slices := ?ts\<rparr>)"
    using fit2 lk2 ne h n(3) by (simp add: chain_ok_def Let_def lv next_level se)
  have "mem p2 ! k = ?m ! k" if "k \<notin> footprint ?ss" "k < unat (pool_next_offset p)" for k
    using that footprint_slice [OF n(1), of k] old [of k] by (fastforce simp: slice_end_def)
  moreover have "first \<noteq> new_end" using a(5) by auto
  ultimately show ?thesis
    using ok2 p2 a(2,4,6,10,11) l2 by (intro that [of p2]) (simp_all add: write_ptr_def)
qed


lemma footprint_snoc: "footprint (ss @ [s]) = footprint ss \<union> {s ..< s + slice_cap (length ss) + 4}"
  by (fastforce simp: footprint_def slice_end_def nth_append less_Suc_eq)

text \<open>Appending to one of many chains: either the arena is full, which throws, or the byte is there and
  every other chain is as before.\<close>

lemma arena_parts:
  assumes "arena p (A @ c # B)"
  shows "pool_wf p" and "chain_ok p c" and "\<And>d. d \<in> set A \<union> set B \<Longrightarrow> chain_ok p d"
    and "\<And>d. d \<in> set A \<union> set B \<Longrightarrow> footprint (cv_slices c) \<inter> footprint (cv_slices d) = {}"
  using assms by (auto simp: arena_def sorted_wrt_append)

lemma arena_replace:
  assumes a: "arena p (A @ c # B)" and wf: "pool_wf p'" and c': "chain_ok p' c'"
    and nx: "unat (pool_next_offset p) \<le> unat (pool_next_offset p')" and len: "length (mem p) \<le> length (mem p')"
    and same: "\<And>k. k \<notin> footprint (cv_slices c) \<Longrightarrow> k < unat (pool_next_offset p) \<Longrightarrow> mem p' ! k = mem p ! k"
    and f: "footprint (cv_slices c') \<subseteq> footprint (cv_slices c) \<union> {unat (pool_next_offset p)..}"
  shows "arena p' (A @ c' # B)"
proof -
  note ap = arena_parts [OF a]
  have bound: "k < unat (pool_next_offset p)" if "d \<in> set A \<union> set B" "k \<in> footprint (cv_slices d)" for d k
    using ap(3) [OF that(1)] footprint_bound that(2) by (auto simp: chain_ok_def Let_def)
  have "chain_ok p' d" if d: "d \<in> set A \<union> set B" for d
    by (rule chain_ok_frame [OF ap(3) [OF d] ap(1) wf nx len]) (use same ap(4) [OF d] bound [OF d] in force)
  moreover have "footprint (cv_slices c') \<inter> footprint (cv_slices d) = {}" if d: "d \<in> set A \<union> set B" for d
    using f ap(4) [OF d] bound [OF d] by fastforce
  ultimately show ?thesis using a wf c' by (auto simp: arena_def sorted_wrt_append Int_commute)
qed

lemma append_byte_arena:
  assumes a: "arena p (A @ c # B)"
  shows "append_byte (cv_w c) (cv_level c) v p = Inl Exception \<and> 2 ^ 32 \<le> K * length (pool_blocks p) + K \<or>
    (\<exists>w l ss p'. append_byte (cv_w c) (cv_level c) v p = Inr (w, l, p') \<and>
       arena p' (A @ c\<lparr>cv_w := w, cv_level := l, cv_slices := ss, cv_bytes := cv_bytes c @ [v]\<rparr> # B) \<and>
       length (pool_blocks p') \<le> Suc (length (pool_blocks p)))"
proof -
  note ap = arena_parts [OF a]
  let ?c = "\<lambda>c. c\<lparr>cv_w := (cv_w c)\<lparr>sw_cur := sw_cur (cv_w c) + 1\<rparr>, cv_bytes := cv_bytes c @ [v]\<rparr>"
  have wr: "\<exists>p'. pool_set (sw_cur (cv_w c1)) [v] p1 = Inr p' \<and> arena (p'\<lparr>pool_payload_bytes := q\<rparr>) (A @ ?c c1 # B) \<and>
      length (pool_blocks p') = length (pool_blocks p1)"
    if a1: "arena p1 (A @ c1 # B)" and room: "sw_cur (cv_w c1) \<noteq> sw_slice_end (cv_w c1)" for p1 c1 q
  proof (rule chain_write [OF arena_parts(2,1) [OF a1] room])
    fix p' assume "pool_set (sw_cur (cv_w c1)) [v] p1 = Inr p'" and w: "pool_wf p'" "pool_next_offset p' = pool_next_offset p1"
      "length (pool_blocks p') = length (pool_blocks p1)" "length (mem p') = length (mem p1)"
      "\<And>k. k \<notin> footprint (cv_slices c1) \<Longrightarrow> mem p' ! k = mem p1 ! k" "chain_ok p' (?c c1)"
    have "arena p' (A @ ?c c1 # B)" by (rule arena_replace [OF a1 w(1) w(6)]) (use w in auto)
    then have "arena (p'\<lparr>pool_payload_bytes := q\<rparr>) (A @ ?c c1 # B)" by (simp add: arena_def chain_ok_def pool_wf_def mem_def)
    with \<open>pool_set (sw_cur (cv_w c1)) [v] p1 = Inr p'\<close> w(3) show ?thesis by blast
  qed
  show ?thesis
  proof (cases "sw_cur (cv_w c) = sw_slice_end (cv_w c)")
    case False
    from wr [OF a False, of "pool_payload_bytes p + 1"] obtain p' where
      w: "pool_set (sw_cur (cv_w c)) [v] p = Inr p'" "length (pool_blocks p') = length (pool_blocks p)"
        "arena (p'\<lparr>pool_payload_bytes := pool_payload_bytes p + 1\<rparr>) (A @ ?c c # B)" by blast
    have pb: "pool_payload_bytes p' = pool_payload_bytes p" using w(1) by (auto simp: pool_set_def Let_def split: if_splits)
    have "append_byte (cv_w c) (cv_level c) v p =
        Inr ((cv_w c)\<lparr>sw_cur := sw_cur (cv_w c) + 1\<rparr>, cv_level c, p'\<lparr>pool_payload_bytes := pool_payload_bytes p + 1\<rparr>)"
      using False w(1) pb by (simp add: append_byte_def)
    then show ?thesis using w(2,3) by (intro disjI2 exI [of _ "cv_slices c"] exI conjI) (assumption | simp)+
  next
    case True
    obtain n where lv: "cv_level c = min n 15" using ap(2) by (auto simp: chain_ok_def Let_def)
    from alloc_slice_total [OF ap(1), of "Suc n"] show ?thesis
    proof (elim disjE exE conjE)
      assume "alloc_slice (min (Suc n) 15) p = Inl Exception" and "2 ^ 32 \<le> K * length (pool_blocks p) + K"
      then show ?thesis using True by (simp add: append_byte_def lv next_level)
    next
      fix first new_end p1 assume "alloc_slice (min (Suc n) 15) p = Inr (first, new_end, p1)"
      then have al: "alloc_slice (kNextLevel ! cv_level c) p = Inr (first, new_end, p1)" by (simp add: lv next_level)
      let ?d = "c\<lparr>cv_w := \<lparr>sw_cur = first, sw_slice_end = new_end\<rparr>, cv_level := kNextLevel ! cv_level c,
           cv_slices := cv_slices c @ [unat first]\<rparr>"
      show ?thesis
      proof (rule chain_grow [OF ap(2,1) True al])
        fix p2 assume g: "write_ptr (sw_slice_end (cv_w c)) first p1 = Inr p2" "pool_wf p2"
          "unat (pool_next_offset p) \<le> unat (pool_next_offset p2)" "length (mem p) \<le> length (mem p2)"
          "length (pool_blocks p2) \<le> Suc (length (pool_blocks p))"
          "\<And>k. k \<notin> footprint (cv_slices c) \<Longrightarrow> k < unat (pool_next_offset p) \<Longrightarrow> mem p2 ! k = mem p ! k"
          "unat (pool_next_offset p) \<le> unat first" "chain_ok p2 ?d" "first \<noteq> new_end"
        have "arena p2 (A @ ?d # B)"
          by (rule arena_replace [OF a g(2) g(8) g(3,4,6)]) (use g(7) in \<open>auto simp: footprint_snoc\<close>)
        from wr [OF this, of "pool_payload_bytes p2 + 1"] g(9) obtain p' where
          w: "pool_set first [v] p2 = Inr p'" "length (pool_blocks p') = length (pool_blocks p2)"
            "arena (p'\<lparr>pool_payload_bytes := pool_payload_bytes p2 + 1\<rparr>) (A @ ?c ?d # B)" by auto
        have pb: "pool_payload_bytes p' = pool_payload_bytes p2" using w(1) by (auto simp: pool_set_def Let_def split: if_splits)
        have "append_byte (cv_w c) (cv_level c) v p =
            Inr (\<lparr>sw_cur = first + 1, sw_slice_end = new_end\<rparr>, kNextLevel ! cv_level c, p'\<lparr>pool_payload_bytes := pool_payload_bytes p2 + 1\<rparr>)"
          using True al g(1) w(1) pb by (simp add: append_byte_def Let_def)
        moreover have "?c ?d = c\<lparr>cv_w := \<lparr>sw_cur = first + 1, sw_slice_end = new_end\<rparr>, cv_level := kNextLevel ! cv_level c,
            cv_slices := cv_slices c @ [unat first], cv_bytes := cv_bytes c @ [v]\<rparr>" by (cases c) simp
        moreover have "length (pool_blocks (p'\<lparr>pool_payload_bytes := pool_payload_bytes p2 + 1\<rparr>)) \<le> Suc (length (pool_blocks p))"
          using w(2) g(5) by simp
        ultimately show ?thesis using w(3) by metis
      qed
    qed
  qed
qed

lemma start_chain_arena:
  assumes a: "arena p cs"
  shows "start_chain p = Inl Exception \<and> 2 ^ 32 \<le> K * length (pool_blocks p) + K \<or>
    (\<exists>head w ss p'. start_chain p = Inr (head, w, 0, p') \<and>
       arena p' (cs @ [\<lparr>cv_head = head, cv_w = w, cv_level = 0, cv_slices = ss, cv_bytes = []\<rparr>]) \<and>
       length (pool_blocks p') \<le> Suc (length (pool_blocks p)))"
proof -
  have wf: "pool_wf p" using a by (simp add: arena_def)
  from alloc_slice_total [OF wf, of 0] show ?thesis
  proof (elim disjE exE conjE)
    assume "alloc_slice (min 0 15) p = Inl Exception" "2 ^ 32 \<le> K * length (pool_blocks p) + K"
    then show ?thesis by (simp add: start_chain_def)
  next
    fix first e p' assume al: "alloc_slice (min 0 15) p = Inr (first, e, p')"
    note m = alloc_slice_mem [OF wf al]
    let ?c = "\<lparr>cv_head = first, cv_w = \<lparr>sw_cur = first, sw_slice_end = e\<rparr>, cv_level = 0, cv_slices = [unat first], cv_bytes = []\<rparr>"
    have "ptr_at (mem p') (unat first + slice_cap 0) = 0" using m(9) by (simp add: ptr_at_def load_le_zero)
    then have c: "chain_ok p' ?c" using m by (simp add: chain_ok_def Let_def slices_fit_def linked_def data_from_def slice_end_def)
    have nx: "unat (pool_next_offset p) \<le> unat (pool_next_offset p')" using m(2,4) by simp
    have b: "k < unat (pool_next_offset p)" if "d \<in> set cs" "k \<in> footprint (cv_slices d)" for d k
      using a that footprint_bound by (fastforce simp: arena_def chain_ok_def Let_def)
    have l: "unat (pool_next_offset p) \<le> length (mem p)" using wf length_mem [OF wf] by (simp add: pool_wf_def)
    have "chain_ok p' d" if "d \<in> set cs" for d
      by (rule chain_ok_frame [OF _ wf m(1) nx m(6)]) (use a that m(8) b [OF that] l in \<open>auto simp: arena_def\<close>)
    moreover have "footprint (cv_slices d) \<inter> footprint [unat first] = {}" if "d \<in> set cs" for d
      using b [OF that] m(2) by (fastforce simp: footprint_def slice_end_def)
    ultimately have "arena p' (cs @ [?c])" using a c m(1) by (auto simp: arena_def sorted_wrt_append)
    then show ?thesis
      using al m(10) by (intro disjI2) (auto simp: start_chain_def)
  qed
qed


subsection \<open>Reading\<close>

text \<open>A cursor inside the \<open>j\<close>-th slice of a chain, with the bytes it has still to yield.\<close>

definition cursor_at :: "posting_pool \<Rightarrow> chain_view \<Rightarrow> nat \<Rightarrow> pool_cursor \<Rightarrow> byte list \<Rightarrow> bool" where
  "cursor_at p c j cu bs =
     (let ss = cv_slices c; n = length ss - 1; w = unat (sw_cur (cv_w c)); i = unat (pc_cur cu) in
      j \<le> n \<and> pc_level cu = min j 15 \<and> unat (pc_slice_end cu) = slice_end ss j \<and> ss ! j \<le> i \<and> i \<le> slice_end ss j \<and>
      (j = n \<longrightarrow> i \<le> w) \<and>
      bs = (if j = n then take (w - i) (drop i (mem p)) else take (slice_end ss j - i) (drop i (mem p)) @ data_from (mem p) ss w (Suc j)))"

definition reads :: "posting_pool \<Rightarrow> chain_view \<Rightarrow> pool_cursor \<Rightarrow> byte list \<Rightarrow> bool" where
  "reads p c cu bs = ((\<exists>j. cursor_at p c j cu bs) \<and> length bs \<le> unat (pc_budget cu))"

lemma data_from_Suc: "j < length ss - 1 \<Longrightarrow> data_from m ss w j = take (slice_cap j) (drop (ss ! j) m) @ data_from m ss w (Suc j)"
  by (simp add: data_from_def upt_conv_Cons)

lemma data_from_last: "data_from m ss w (length ss - 1) = take (w - last ss) (drop (last ss) m)"
  by (simp add: data_from_def)

lemma cursor_at_slice:
  assumes ok: "chain_ok p c" and j: "j < length (cv_slices c)" and u: "unat (pc_cur cu) = cv_slices c ! j" "unat (pc_slice_end cu) = slice_end (cv_slices c) j"
    and l: "pc_level cu = min j 15"
  shows "cursor_at p c j cu (data_from (mem p) (cv_slices c) (unat (sw_cur (cv_w c))) j)"
proof -
  let ?ss = "cv_slices c"
  have e: "last ?ss = ?ss ! (length ?ss - 1)" using j by (intro last_conv_nth) auto
  have w: "last ?ss \<le> unat (sw_cur (cv_w c))" using ok by (simp add: chain_ok_def Let_def)
  show ?thesis
  proof (cases "j = length ?ss - 1")
    case True
    then show ?thesis using u l w e data_from_last [of "mem p" ?ss] by (simp add: cursor_at_def Let_def slice_end_def)
  next
    case False
    then show ?thesis using u l j data_from_Suc [of j ?ss] by (simp add: cursor_at_def Let_def slice_end_def)
  qed
qed

lemma slice_cap_0: "kSliceSizes ! 0 = of_nat (slice_cap 0)"
  using slice_cap_size [of 0] by simp

lemma slice_end_word:
  assumes "pool_wf p" and "slices_fit (unat (pool_next_offset p)) ss" and "j < length ss" and "unat h = ss ! j"
  shows "unat (h + of_nat (slice_cap j) :: u32) = slice_end ss j"
proof -
  have "slice_end ss j + 4 \<le> unat (pool_next_offset p)" using assms(2,3) by (simp add: slices_fit_def)
  then have "slice_end ss j < 2 ^ 32" using unat_u32_less [of "pool_next_offset p"] by simp
  then show ?thesis using assms(4) slice_cap_bounds(2) [of j] by (simp add: unat_word_ariths slice_end_def)
qed

lemma reads_new:
  assumes "pool_wf p" and ok: "chain_ok p c" and "length (cv_bytes c) \<le> unat b"
  shows "reads p c (cursor_new (cv_head c) b) (cv_bytes c)"
proof -
  let ?ss = "cv_slices c"
  have ne: "?ss \<noteq> []" and h: "hd ?ss = unat (cv_head c)" and fit: "slices_fit (unat (pool_next_offset p)) ?ss"
    and d: "data_from (mem p) ?ss (unat (sw_cur (cv_w c))) 0 = cv_bytes c" using ok by (simp_all add: chain_ok_def Let_def)
  have u: "unat (cv_head c) = ?ss ! 0" using ne h by (simp add: hd_conv_nth)
  have "0 < length ?ss" using ne by simp
  from cursor_at_slice [OF ok this, of "cursor_new (cv_head c) b"] slice_end_word [OF assms(1) fit this u] u
  show ?thesis unfolding d reads_def using assms(3) by (auto simp: cursor_new_def slice_cap_0)
qed

lemma chain_length:
  assumes "pool_wf p" and "chain_ok p c"
  shows "length (cv_bytes c) \<le> unat (sw_cur (cv_w c))"
proof -
  let ?ss = "cv_slices c" and ?w = "unat (sw_cur (cv_w c))"
  have ne: "?ss \<noteq> []" and fit: "slices_fit (unat (pool_next_offset p)) ?ss" and lw: "last ?ss \<le> ?w"
    and d: "data_from (mem p) ?ss ?w 0 = cv_bytes c" using assms(2) by (simp_all add: chain_ok_def Let_def)
  have s: "length (concat (map (\<lambda>i. take (slice_cap i) (drop (?ss ! i) (mem p))) [0..<k])) \<le> ?ss ! k" if "k < length ?ss" for k
    using that
  proof (induction k)
    case (Suc k)
    have "slice_end ?ss k + 4 \<le> ?ss ! Suc k" using fit Suc.prems by (simp add: slices_fit_def)
    with Suc show ?case by (simp add: slice_end_def)
  qed simp
  have e: "last ?ss = ?ss ! (length ?ss - 1)" using ne by (rule last_conv_nth)
  have "length (concat (map (\<lambda>i. take (slice_cap i) (drop (?ss ! i) (mem p))) [0..<length ?ss - 1])) \<le> last ?ss"
    unfolding e using ne by (intro s) simp
  then show ?thesis using lw by (simp add: d [symmetric] data_from_def del: length_concat)
qed

lemma cursor_read:
  assumes wf: "pool_wf p" and ok: "chain_ok p c" and cu: "cursor_at p c j cu (b # bs)" and ne: "pc_cur cu \<noteq> pc_slice_end cu"
  shows "pool_at p (pc_cur cu) = Inr b" and "cursor_at p c j (cu\<lparr>pc_cur := pc_cur cu + 1, pc_budget := x\<rparr>) bs"
proof -
  let ?ss = "cv_slices c" and ?i = "unat (pc_cur cu)" and ?w = "unat (sw_cur (cv_w c))"
  define n where "n = length ?ss - 1"
  have fit: "slices_fit (unat (pool_next_offset p)) ?ss" and sne: "?ss \<noteq> []" and wn: "?w \<le> slice_end ?ss n"
    using ok by (simp_all add: chain_ok_def Let_def n_def)
  have c: "j \<le> n" "pc_level cu = min j 15" "unat (pc_slice_end cu) = slice_end ?ss j" "?ss ! j \<le> ?i" "?i \<le> slice_end ?ss j" "j = n \<longrightarrow> ?i \<le> ?w"
    and r: "b # bs = (if j = n then take (?w - ?i) (drop ?i (mem p)) else take (slice_end ?ss j - ?i) (drop ?i (mem p)) @ data_from (mem p) ?ss ?w (Suc j))"
    using cu by (simp_all add: cursor_at_def Let_def n_def)
  have lt: "?i < slice_end ?ss j" using c(3,5) ne by (metis le_neq_implies_less word_unat_eq_iff)
  have "slice_end ?ss j + 4 \<le> unat (pool_next_offset p)" using fit c(1) sne by (cases ?ss) (simp_all add: slices_fit_def n_def)
  then have il: "?i < length (mem p)" using lt wf length_mem [OF wf] by (simp add: pool_wf_def)
  have iw: "?i < ?w" if "j = n" using r that by (cases "?i < ?w") auto
  have d: "drop ?i (mem p) = mem p ! ?i # drop (Suc ?i) (mem p)" using il by (rule Cons_nth_drop_Suc [symmetric])
  have u: "unat (pc_cur cu + 1) = Suc ?i" using lt c(3) unat_u32_less [of "pc_slice_end cu"] by (simp add: unat_word_ariths)
  have r2: "b = mem p ! ?i \<and>
      bs = (if j = n then take (?w - Suc ?i) (drop (Suc ?i) (mem p)) else take (slice_end ?ss j - Suc ?i) (drop (Suc ?i) (mem p)) @ data_from (mem p) ?ss ?w (Suc j))"
    using r lt iw unfolding d by (cases "j = n") (simp_all add: take_Cons' split: if_splits)
  then show "pool_at p (pc_cur cu) = Inr b" using pool_at_mem [OF wf il] by simp
  show "cursor_at p c j (cu\<lparr>pc_cur := pc_cur cu + 1, pc_budget := x\<rparr>) bs"
    unfolding cursor_at_def Let_def n_def [symmetric] using c lt iw r2 u by (cases "j = n") simp_all
qed


lemma cursor_next_reads:
  assumes wf: "pool_wf p" and ok: "chain_ok p c" and rd: "reads p c cu (b # bs)"
  obtains cu' where "cursor_next p cu = Inr (b, cu')" and "reads p c cu' bs" and "pc_budget cu' = pc_budget cu - 1"
proof -
  let ?ss = "cv_slices c" and ?w = "unat (sw_cur (cv_w c))"
  define n where "n = length ?ss - 1"
  obtain j where cu: "cursor_at p c j cu (b # bs)" and bd: "length (b # bs) \<le> unat (pc_budget cu)" using rd by (auto simp: reads_def)
  have b0: "pc_budget cu \<noteq> 0" using bd by auto
  then have bm: "unat (pc_budget cu - 1) = unat (pc_budget cu) - 1" by (simp add: unat_minus_one)
  show ?thesis
  proof (cases "pc_cur cu = pc_slice_end cu")
    case False
    note r = cursor_read [OF wf ok cu False]
    show ?thesis
    proof (rule that)
      show "cursor_next p cu = Inr (b, cu\<lparr>pc_cur := pc_cur cu + 1, pc_budget := pc_budget cu - 1\<rparr>)"
        using False b0 r(1) by (simp add: cursor_next_def)
      show "reads p c (cu\<lparr>pc_cur := pc_cur cu + 1, pc_budget := pc_budget cu - 1\<rparr>) bs"
        using r(2) [of "pc_budget cu - 1"] bd bm unfolding reads_def by auto
    qed simp
  next
    case True
    have fit: "slices_fit (unat (pool_next_offset p)) ?ss" and sne: "?ss \<noteq> []" and wn: "?w \<le> slice_end ?ss n" and lk: "linked (mem p) ?ss"
      using ok by (simp_all add: chain_ok_def Let_def n_def)
    have c: "j \<le> n" "pc_level cu = min j 15" "unat (pc_slice_end cu) = slice_end ?ss j"
      and e: "b # bs = (if j = n then take (?w - unat (pc_cur cu)) (drop (unat (pc_cur cu)) (mem p))
        else take (slice_end ?ss j - unat (pc_cur cu)) (drop (unat (pc_cur cu)) (mem p)) @ data_from (mem p) ?ss ?w (Suc j))"
      using cu by (simp_all add: cursor_at_def Let_def n_def)
    have jn: "j < n"
    proof (rule ccontr)
      assume "\<not> j < n"
      with c(1) have "j = n" by simp
      with e wn c(3) True show False by simp
    qed
    then have l: "Suc j < length ?ss" by (simp add: n_def)
    let ?h = "ptr_at (mem p) (slice_end ?ss j)"
    have h: "unat ?h = ?ss ! Suc j" using lk l by (simp add: linked_def)
    have f: "slice_end ?ss j + 4 \<le> ?ss ! Suc j" "slice_end ?ss j + 4 \<le> unat (pool_next_offset p)" "?ss ! j mod K + slice_cap j + 4 \<le> K"
      using fit l by (simp_all add: slices_fit_def)
    have h0: "?h \<noteq> 0" using h f(1) by auto
    have "slice_end ?ss j mod K = ?ss ! j mod K + slice_cap j" using mod_add_fits [of "?ss ! j" "slice_cap j"] f(3) by (simp add: slice_end_def)
    then have rp: "read_ptr p (pc_slice_end cu) = Inr ?h"
      using read_ptr_mem [OF wf, of "pc_slice_end cu"] f wf length_mem [OF wf] by (simp add: c(3) ptr_at_def pool_wf_def)
    let ?lev = "kNextLevel ! pc_level cu"
    let ?cu = "cu\<lparr>pc_level := ?lev, pc_cur := ?h, pc_slice_end := ?h + kSliceSizes ! ?lev\<rparr>"
    have lev: "?lev = min (Suc j) 15" by (simp add: c(2) next_level)
    have ue: "unat (?h + kSliceSizes ! ?lev) = slice_end ?ss (Suc j)"
      unfolding lev slice_cap_size by (rule slice_end_word [OF wf fit l h])
    have bb: "b # bs = data_from (mem p) ?ss ?w (Suc j)" using e jn True c(3) by simp
    have "pc_slice_end ?cu = ?h + kSliceSizes ! ?lev" "pc_cur ?cu = ?h" "pc_level ?cu = ?lev" by simp_all
    then have at: "cursor_at p c (Suc j) ?cu (b # bs)"
      unfolding bb using h ue lev by (intro cursor_at_slice [OF ok l]) (simp_all only:)
    have "?h \<noteq> ?h + kSliceSizes ! ?lev" using ue h by (auto simp: slice_end_def)
    then have ne: "pc_cur ?cu \<noteq> pc_slice_end ?cu" by simp
    note r = cursor_read [OF wf ok at ne]
    show ?thesis
    proof (rule that)
      show "cursor_next p cu = Inr (b, ?cu\<lparr>pc_cur := pc_cur ?cu + 1, pc_budget := pc_budget cu - 1\<rparr>)"
        using True b0 rp h0 r(1) by (simp add: cursor_next_def Let_def)
      show "reads p c (?cu\<lparr>pc_cur := pc_cur ?cu + 1, pc_budget := pc_budget cu - 1\<rparr>) bs"
        using r(2) [of "pc_budget cu - 1"] bd bm unfolding reads_def by auto
    qed simp
  qed
qed


text \<open>Reading \<open>n\<close> bytes of a chain.\<close>

fun cursor_take :: "posting_pool \<Rightarrow> nat \<Rightarrow> pool_cursor \<Rightarrow> (byte list \<times> pool_cursor) result" where
  "cursor_take p 0 cu = Inr ([], cu)"
| "cursor_take p (Suc n) cu =
     and_then (cursor_next p cu) (\<lambda>(b, cu).
     and_then (cursor_take p n cu) (\<lambda>(bs, cu). Inr (b # bs, cu)))"

lemma cursor_take_reads:
  assumes wf: "pool_wf p" and ok: "chain_ok p c" and rd: "reads p c cu (bs @ cs)"
  shows "\<exists>cu'. cursor_take p (length bs) cu = Inr (bs, cu') \<and> reads p c cu' cs"
  using rd
proof (induction bs arbitrary: cu)
  case (Cons b bs)
  from Cons.prems have "reads p c cu (b # bs @ cs)" by simp
  then obtain cu1 where n: "cursor_next p cu = Inr (b, cu1)" and "reads p c cu1 (bs @ cs)" by (rule cursor_next_reads [OF wf ok])
  from Cons.IH [OF this(2)] n show ?case by auto
qed simp

lemma chain_reads_back:
  assumes "pool_wf p" and "chain_ok p c"
  shows "\<exists>cu. cursor_take p (length (cv_bytes c)) (cursor_new (cv_head c) (ucast (sw_cur (cv_w c)))) = Inr (cv_bytes c, cu)"
proof -
  have "reads p c (cursor_new (cv_head c) (ucast (sw_cur (cv_w c)))) (cv_bytes c @ [])"
    using reads_new [OF assms, of "ucast (sw_cur (cv_w c))"] chain_length [OF assms] by simp
  from cursor_take_reads [OF assms this] show ?thesis by blast
qed

subsection \<open>Interleaved appends\<close>

text \<open>Clients of the pool start chains and append to them in any order. \<open>payloads\<close> is what was appended to each.\<close>

datatype pool_op = Start_chain | Append_to nat byte

type_synonym chain_handle = "u32 \<times> slice_writer \<times> nat"

fun pool_step :: "pool_op \<Rightarrow> posting_pool \<times> chain_handle list \<Rightarrow> (posting_pool \<times> chain_handle list) result" where
  "pool_step Start_chain (p, hs) = and_then (start_chain p) (\<lambda>(head, w, level, p). Inr (p, hs @ [(head, w, level)]))"
| "pool_step (Append_to i v) (p, hs) =
     (if i < length hs then
        case hs ! i of (head, w, level) \<Rightarrow>
          and_then (append_byte w level v p) (\<lambda>(w, level, p). Inr (p, hs[i := (head, w, level)]))
      else Inr (p, hs))"

fun pool_run :: "pool_op list \<Rightarrow> posting_pool \<times> chain_handle list \<Rightarrow> (posting_pool \<times> chain_handle list) result" where
  "pool_run [] st = Inr st"
| "pool_run (op # ops) st = and_then (pool_step op st) (pool_run ops)"

fun payloads :: "pool_op list \<Rightarrow> byte list list \<Rightarrow> byte list list" where
  "payloads [] bss = bss"
| "payloads (Start_chain # ops) bss = payloads ops (bss @ [[]])"
| "payloads (Append_to i v # ops) bss = payloads ops (if i < length bss then bss[i := bss ! i @ [v]] else bss)"

definition handle :: "chain_view \<Rightarrow> chain_handle" where
  "handle c = (cv_head c, cv_w c, cv_level c)"

lemma pool_step_arena:
  assumes a: "arena p cs"
  shows "pool_step op (p, map handle cs) = Inl Exception \<and> 2 ^ 32 \<le> K * length (pool_blocks p) + K \<or>
    (\<exists>p' cs'. pool_step op (p, map handle cs) = Inr (p', map handle cs') \<and> arena p' cs' \<and>
       length (pool_blocks p') \<le> Suc (length (pool_blocks p)) \<and> payloads (op # ops) (map cv_bytes cs) = payloads ops (map cv_bytes cs'))"
proof (cases op)
  case Start_chain
  from start_chain_arena [OF a] show ?thesis
  proof (elim disjE exE conjE)
    fix head w ss p' assume "start_chain p = Inr (head, w, 0, p')" and "length (pool_blocks p') \<le> Suc (length (pool_blocks p))"
      and "arena p' (cs @ [\<lparr>cv_head = head, cv_w = w, cv_level = 0, cv_slices = ss, cv_bytes = []\<rparr>])"
    then show ?thesis unfolding Start_chain
      by (intro disjI2 exI [of _ p'] exI [of _ "cs @ [\<lparr>cv_head = head, cv_w = w, cv_level = 0, cv_slices = ss, cv_bytes = []\<rparr>]"] conjI) (assumption | simp add: handle_def)+
  qed (simp add: Start_chain)
next
  case (Append_to i v)
  show ?thesis
  proof (cases "i < length cs")
    case True
    define A c B where "A = take i cs" and "c = cs ! i" and "B = drop (Suc i) cs"
    have cs: "cs = A @ c # B" using True by (simp add: A_def B_def c_def id_take_nth_drop)
    have l: "i = length A" using True by (simp add: A_def)
    from append_byte_arena [OF a [unfolded cs], of v] show ?thesis
    proof (elim disjE exE conjE)
      fix w l' ss p' assume "append_byte (cv_w c) (cv_level c) v p = Inr (w, l', p')"
        and "arena p' (A @ c\<lparr>cv_w := w, cv_level := l', cv_slices := ss, cv_bytes := cv_bytes c @ [v]\<rparr> # B)"
        and "length (pool_blocks p') \<le> Suc (length (pool_blocks p))"
      then show ?thesis unfolding Append_to cs l
        by (intro disjI2 exI [of _ p'] exI [of _ "A @ c\<lparr>cv_w := w, cv_level := l', cv_slices := ss, cv_bytes := cv_bytes c @ [v]\<rparr> # B"] conjI)
          (assumption | simp add: handle_def nth_append list_update_append)+
    qed (simp add: Append_to cs l nth_append handle_def)
  next
    case False
    then show ?thesis using a by (intro disjI2) (auto simp: Append_to)
  qed
qed

lemma pool_run_arena:
  assumes "arena p cs"
  shows "pool_run ops (p, map handle cs) = Inl Exception \<and> 2 ^ 32 \<le> K * (length (pool_blocks p) + length ops) \<or>
    (\<exists>p' cs'. pool_run ops (p, map handle cs) = Inr (p', map handle cs') \<and> arena p' cs' \<and> map cv_bytes cs' = payloads ops (map cv_bytes cs))"
  using assms
proof (induction ops arbitrary: p cs)
  case (Cons op ops)
  from pool_step_arena [OF Cons.prems, of op ops] show ?case
  proof (elim disjE exE conjE)
    fix p' cs' assume s: "pool_step op (p, map handle cs) = Inr (p', map handle cs')" "arena p' cs'"
      "length (pool_blocks p') \<le> Suc (length (pool_blocks p))" "payloads (op # ops) (map cv_bytes cs) = payloads ops (map cv_bytes cs')"
    from Cons.IH [OF s(2)] s(1,3,4) show ?thesis by auto
  qed auto
qed auto

text \<open>C7: Chains started and extended in the pool in any interleaving read back exactly the bytes appended to each,
  through slices, block boundaries and forward pointers, when the cursor's budget is the append position of the
  chain. No operation touches memory outside the arena; the only failure is the exception before the 4 GiB limit
  of the 32-bit offsets, which needs at least 131072 operations.\<close>

theorem pool_chains_read_back:
  "case pool_run ops (posting_pool_new, []) of
     Inl e \<Rightarrow> e = Exception \<and> 131072 \<le> length ops
   | Inr (p, hs) \<Rightarrow>
       list_all2 (\<lambda>(head, w, level) bs. \<exists>cu. cursor_take p (length bs) (cursor_new head (ucast (sw_cur w))) = Inr (bs, cu))
         hs (payloads ops [])"
proof -
  have "arena posting_pool_new []" by (simp add: arena_def pool_wf_def posting_pool_new_def)
  from pool_run_arena [OF this, of ops] show ?thesis
  proof (elim disjE exE conjE)
    fix p' cs' assume r: "pool_run ops (posting_pool_new, map handle []) = Inr (p', map handle cs')" "arena p' cs'"
      "map cv_bytes cs' = payloads ops (map cv_bytes [])"
    have "list_all2 (\<lambda>(head, w, level) bs. \<exists>cu. cursor_take p' (length bs) (cursor_new head (ucast (sw_cur w))) = Inr (bs, cu))
        (map handle cs') (map cv_bytes cs')"
      using r(2) chain_reads_back by (auto simp: list_all2_map1 list_all2_map2 list_all2_same handle_def arena_def)
    then show ?thesis using r(1,3) by simp
  qed (simp add: posting_pool_new_def)
qed

text \<open>A cursor does not see the end of a chain whose last slice has room: it goes on into bytes that were
  never written, up to the end of the slice or of the budget.\<close>

definition one_byte_chain :: "(byte \<times> bool) result" where
  "one_byte_chain =
     and_then (start_chain posting_pool_new) (\<lambda>(head, w, level, p).
     and_then (append_byte w level 7 p) (\<lambda>(w, level, p).
     and_then (cursor_next p (cursor_new head 5)) (\<lambda>(b, cu).
     and_then (cursor_has_next p cu) (\<lambda>has_next. Inr (b, has_next)))))"

lemma one_byte_chain_overread: "one_byte_chain = Inr (7, True)"
  by (simp add: one_byte_chain_def start_chain_def alloc_slice_def alloc_run_def posting_pool_new_def kSliceSizes_def kPtrBytes_def
      block_of_div byte_in_block_mod pool_set_def append_byte_def cursor_next_def cursor_new_def cursor_has_next_def pool_at_def Let_def nth_append)

end
