(* ===== verification/Token_Chains.thy ===== *)
theory Token_Chains
  imports Spimi_Term_Buffer Posting_Chains "HOL-Library.Multiset"
begin

text \<open>
  What a term's chain says: the tokens of a term, in arrival order, are encoded byte by byte into its chain, and
  \<open>to_postings\<close> decodes the chain to one entry per document, its frequency and its positions, sorted by document
  even when documents arrived out of order or were revisited.
\<close>

subsection \<open>Tokens and groups\<close>

type_synonym doc_pos = "u32 \<times> u32"

definition doc_base :: "u32 option \<Rightarrow> u64" where
  "doc_base cur = (case cur of None \<Rightarrow> 0 | Some d \<Rightarrow> ucast d)"

definition token_tag :: "bool \<Rightarrow> bool \<Rightarrow> u32 \<Rightarrow> u64" where
  "token_tag hp new_doc pos =
     (if hp then push_bit 1 (ucast pos) OR (if new_doc then 1 else 0) else (if new_doc then 1 else 0))"

fun token_bytes :: "bool \<Rightarrow> u32 option \<Rightarrow> doc_pos list \<Rightarrow> byte list" where
  "token_bytes hp cur [] = []"
| "token_bytes hp cur ((d, pos) # ts) =
     encode_varint64 (token_tag hp (cur \<noteq> Some d) pos) @
     (if cur \<noteq> Some d then encode_varint64 (zigzag_encode (ucast d - doc_base cur)) else []) @ token_bytes hp (Some d) ts"

definition last_doc :: "u32 option \<Rightarrow> doc_pos list \<Rightarrow> u32 option" where
  "last_doc cur ts = (if ts = [] then cur else Some (fst (last ts)))"

lemma token_bytes_append: "token_bytes hp cur (ts @ us) = token_bytes hp cur ts @ token_bytes hp (last_doc cur ts) us"
  by (induction hp cur ts rule: token_bytes.induct) (auto simp: last_doc_def)

lemma token_bytes_length: "length ts \<le> length (token_bytes hp cur ts)"
proof (induction hp cur ts rule: token_bytes.induct)
  case (2 hp cur d pos ts)
  have "1 \<le> length (encode_varint64 (token_tag hp (cur \<noteq> Some d) pos))" by (simp add: Suc_leI)
  then show ?case using 2 by (simp add: le_diff_conv)
qed simp

type_synonym doc_group = "u32 \<times> u32 list"

definition add_group :: "doc_group list \<Rightarrow> doc_pos \<Rightarrow> doc_group list" where
  "add_group gs = (\<lambda>(d, pos).
     if gs \<noteq> [] \<and> fst (last gs) = d then butlast gs @ [(d, snd (last gs) @ [pos])] else gs @ [(d, [pos])])"

definition doc_groups :: "doc_pos list \<Rightarrow> doc_group list" where
  "doc_groups ts = foldl add_group [] ts"

definition group_arrays :: "bool \<Rightarrow> doc_group list \<Rightarrow> u32 list \<times> u32 list \<times> u32 list" where
  "group_arrays keep gs = (map fst gs, map (\<lambda>g. of_nat (length (snd g))) gs, if keep then concat (map snd gs) else [])"

subsection \<open>Decoding\<close>

lemma chain_varint_loop:
  assumes wf: "pool_wf p" and ok: "chain_ok p c" and "reads p c cu (bs @ more_bytes)" and "sh < 64"
    and "decode_varint64_loop bs res sh = Inr (v, [])"
  shows "\<exists>cu'. DecodeChainVarint p res sh cu = Inr (v, cu') \<and> reads p c cu' more_bytes"
  using assms(3-)
proof (induction bs arbitrary: cu res sh)
  case (Cons b bs)
  have "reads p c cu (b # bs @ more_bytes)" using Cons.prems(1) by simp
  then obtain cu1 where n: "cursor_next p cu = Inr (b, cu1)" "reads p c cu1 (bs @ more_bytes)" by (rule cursor_next_reads [OF wf ok])
  define res' where "res' = res OR push_bit sh (ucast (b AND 0x7F))"
  show ?case
  proof (cases "b AND 0x80 = 0")
    case True
    then show ?thesis using Cons.prems n by (subst DecodeChainVarint.simps) (auto simp: Let_def)
  next
    case False
    then have d: "sh + 7 < 64" "decode_varint64_loop bs res' (sh + 7) = Inr (v, [])"
      using Cons.prems(3) by (auto simp: Let_def res'_def split: if_splits)
    from Cons.IH [OF n(2) d] show ?thesis using n(1) False Cons.prems(2)
      by (subst DecodeChainVarint.simps) (auto simp: Let_def res'_def)
  qed
qed simp

lemma chain_varint_reads:
  assumes "pool_wf p" and "chain_ok p c" and "reads p c cu (encode_varint64 v @ more_bytes)"
  shows "\<exists>cu'. chain_varint p cu = Inr (v, cu') \<and> reads p c cu' more_bytes"
  unfolding chain_varint_def using decode_encode_varint64 [of v "[]"]
  by (intro chain_varint_loop [OF assms]) (simp_all add: decode_varint64_def)

lemma token_tag_new: "token_tag hp new_doc pos AND 1 \<noteq> 0 \<longleftrightarrow> new_doc"
proof -
  have "odd (token_tag hp new_doc pos) = new_doc"
    by (simp add: token_tag_def even_or_iff)
  then show ?thesis by (simp add: and_one_eq odd_iff_mod_2_eq_one)
qed

lemma ucast_ucast_u32: "(ucast (ucast (x :: u32) :: u64) :: u32) = x"
  by (rule bit_word_eqI) (simp add: bit_simps)

lemma drop_push_u32: "n \<le> 32 \<Longrightarrow> drop_bit n (push_bit n (ucast (x :: u32) :: u64)) = ucast x"
  by (rule bit_word_eqI) (auto simp: bit_simps dest: bit_imp_le_length)

lemma token_tag_pos: "ucast (drop_bit (Suc 0) (token_tag True new_doc pos)) = (pos :: u32)"
proof -
  have "drop_bit 1 (token_tag True new_doc pos) = drop_bit 1 (push_bit 1 (ucast pos :: u64)) OR drop_bit 1 (if new_doc then 1 else 0)"
    unfolding token_tag_def by (simp only: if_True drop_bit_or)
  also have "\<dots> = ucast pos" by (subst drop_push_u32) simp_all
  finally show ?thesis by (simp add: ucast_ucast_u32)
qed

lemma concat_map_last: "gs \<noteq> [] \<Longrightarrow> concat (map f gs) = concat (map f (butlast gs)) @ f (last gs)"
  by (induction gs) auto

lemma decode_tokens_reads:
  assumes wf: "pool_wf p" and ok: "chain_ok p c" and keep: "keep \<Longrightarrow> hp"
    and "reads p c cu (token_bytes hp (if gs = [] then None else Some (fst (last gs))) ts @ more_bytes)"
    and "prev = doc_base (if gs = [] then None else Some (fst (last gs)))"
  shows "decode_tokens p keep (length ts) prev cu (group_arrays keep gs) = Inr (group_arrays keep (foldl add_group gs ts))"
  using assms(4,5)
proof (induction ts arbitrary: cu gs prev)
  case (Cons t ts)
  obtain d pos where t: "t = (d, pos)" by (cases t)
  let ?cur = "if gs = [] then None else Some (fst (last gs))"
  define new_doc where "new_doc = (?cur \<noteq> Some d)"
  let ?tail = "token_bytes hp (Some d) ts @ more_bytes"
  have rd: "reads p c cu (encode_varint64 (token_tag hp new_doc pos) @
      ((if new_doc then encode_varint64 (zigzag_encode (ucast d - doc_base ?cur)) else []) @ ?tail))"
    using Cons.prems(1) by (simp add: t new_doc_def)
  from chain_varint_reads [OF wf ok rd] obtain cu1 where
    c1: "chain_varint p cu = Inr (token_tag hp new_doc pos, cu1)"
      "reads p c cu1 ((if new_doc then encode_varint64 (zigzag_encode (ucast d - doc_base ?cur)) else []) @ ?tail)" by blast
  let ?gs = "add_group gs (d, pos)"
  have ne: "?gs \<noteq> []" "fst (last ?gs) = d" by (auto simp: add_group_def)
  have kp: "concat (map snd gs) @ [ucast (drop_bit (Suc 0) (token_tag hp new_doc pos))] = concat (map snd ?gs)" if keep
  proof -
    have hp using that by (rule keep)
    then have "(ucast (drop_bit (Suc 0) (token_tag hp new_doc pos)) :: u32) = pos" using token_tag_pos [of new_doc pos] by simp
    then show ?thesis using concat_map_last [of gs snd] by (auto simp: add_group_def)
  qed
  show ?case
  proof (cases new_doc)
    case True
    from chain_varint_reads [OF wf ok, of cu1 "zigzag_encode (ucast d - doc_base ?cur)" ?tail] c1(2) True obtain cu2 where
      c2: "chain_varint p cu1 = Inr (zigzag_encode (ucast d - doc_base ?cur), cu2)" "reads p c cu2 ?tail" by auto
    have pv: "prev + zigzag_decode (zigzag_encode (ucast d - doc_base ?cur)) = (ucast d :: u64)"
      using Cons.prems(2) by (simp add: zigzag_decode_encode)
    have g: "?gs = gs @ [(d, [pos])]" using True by (auto simp: new_doc_def add_group_def split: if_splits)
    have "decode_tokens p keep (length ts) (ucast d) cu2 (group_arrays keep ?gs) = Inr (group_arrays keep (foldl add_group ?gs ts))"
      using c2(2) ne by (intro Cons.IH) (simp_all add: doc_base_def)
    then show ?thesis using c1(1) c2(1) pv True kp
      by (cases keep) (simp_all add: t token_tag_new Let_def ucast_ucast_u32 g group_arrays_def)
  next
    case False
    then have gs: "gs \<noteq> []" "fst (last gs) = d" by (auto simp: new_doc_def split: if_splits)
    have c: "reads p c cu1 ?tail" using c1(2) False by simp
    have g: "?gs = butlast gs @ [(d, snd (last gs) @ [pos])]" using gs by (simp add: add_group_def)
    have f: "map fst gs = map fst ?gs" "butlast (map (\<lambda>g. of_nat (length (snd g))) gs) @ [last (map (\<lambda>g. of_nat (length (snd g))) gs) + (1 :: u32)] =
        map (\<lambda>g. of_nat (length (snd g))) ?gs"
      using gs concat_map_last [of gs "\<lambda>g. [fst g]"] by (simp_all add: g last_map map_butlast [symmetric])
    have "decode_tokens p keep (length ts) prev cu1 (group_arrays keep ?gs) = Inr (group_arrays keep (foldl add_group ?gs ts))"
      using c ne gs Cons.prems(2) by (intro Cons.IH) (simp_all add: doc_base_def)
    then show ?thesis using c1(1) False kp gs(1) f
      by (cases keep) (simp_all add: t token_tag_new Let_def group_arrays_def)
  qed
qed simp

lemma chain_positions_reads:
  assumes wf: "pool_wf p" and ok: "chain_ok p c" and "reads p c cu (token_bytes True cur ts @ more_bytes)"
  shows "chain_positions p (length ts) cu = Inr (map snd ts)"
  using assms(3)
proof (induction ts arbitrary: cu cur)
  case (Cons t ts)
  obtain d pos where t: "t = (d, pos)" by (cases t)
  define new_doc where "new_doc = (cur \<noteq> Some d)"
  let ?tail = "token_bytes True (Some d) ts @ more_bytes"
  have rd: "reads p c cu (encode_varint64 (token_tag True new_doc pos) @
      ((if new_doc then encode_varint64 (zigzag_encode (ucast d - doc_base cur)) else []) @ ?tail))"
    using Cons.prems(1) by (simp add: t new_doc_def)
  from chain_varint_reads [OF wf ok rd] obtain cu1 where
    c1: "chain_varint p cu = Inr (token_tag True new_doc pos, cu1)"
      "reads p c cu1 ((if new_doc then encode_varint64 (zigzag_encode (ucast d - doc_base cur)) else []) @ ?tail)" by blast
  show ?case
  proof (cases new_doc)
    case True
    from chain_varint_reads [OF wf ok, of cu1 "zigzag_encode (ucast d - doc_base cur)" ?tail] c1(2) True obtain cu2 where
      c2: "chain_varint p cu1 = Inr (zigzag_encode (ucast d - doc_base cur), cu2)" "reads p c cu2 ?tail" by auto
    show ?thesis using c1(1) c2(1) True Cons.IH [OF c2(2)] by (simp add: t token_tag_new token_tag_pos)
  next
    case False
    then have c: "reads p c cu1 ?tail" using c1(2) by simp
    show ?thesis using c1(1) False Cons.IH [OF c] by (simp add: t token_tag_new token_tag_pos)
  qed
qed simp


subsection \<open>Sorting by document\<close>

definition group_tokens :: "doc_group list \<Rightarrow> doc_pos list" where
  "group_tokens gs = concat (map (\<lambda>(d, ps). map (Pair d) ps) gs)"

definition groups_ok :: "doc_group list \<Rightarrow> bool" where
  "groups_ok gs = (\<forall>g \<in> set gs. snd g \<noteq> [])"

lemma group_tokens_simps [simp]: "group_tokens [] = []" "group_tokens ((d, ps) # gs) = map (Pair d) ps @ group_tokens gs"
    "group_tokens (gs @ hs) = group_tokens gs @ group_tokens hs"
  by (simp_all add: group_tokens_def)

lemma add_group_tokens: "groups_ok gs \<Longrightarrow> groups_ok (add_group gs t) \<and> group_tokens (add_group gs t) = group_tokens gs @ [t]"
proof (cases "gs = []")
  case False
  assume ok: "groups_ok gs"
  obtain d pos where t: "t = (d, pos)" by (cases t)
  obtain hs e ps where gs: "gs = hs @ [(e, ps)]" using False by (metis append_butlast_last_id prod.collapse)
  show ?thesis using ok by (auto simp: add_group_def t gs groups_ok_def)
qed (auto simp: add_group_def groups_ok_def split: prod.splits)

lemma doc_groups_tokens: "groups_ok (doc_groups ts) \<and> group_tokens (doc_groups ts) = ts"
proof (induction ts rule: rev_induct)
  case (snoc t ts)
  then show ?case using add_group_tokens [of "doc_groups ts" t] by (simp add: doc_groups_def)
qed (simp add: doc_groups_def groups_ok_def)

text \<open>A group after others, as the coalescing pass takes it.\<close>

definition put_group :: "doc_group list \<Rightarrow> doc_group \<Rightarrow> doc_group list" where
  "put_group gs = (\<lambda>(d, ps). if gs \<noteq> [] \<and> fst (last gs) = d then butlast gs @ [(d, snd (last gs) @ ps)] else gs @ [(d, ps)])"

lemma put_group_tokens: "ps \<noteq> [] \<Longrightarrow> put_group gs (d, ps) = foldl add_group gs (map (Pair d) ps)"
proof (induction ps rule: rev_induct)
  case (snoc pos ps)
  show ?case
  proof (cases "ps = []")
    case True
    then show ?thesis by (simp add: put_group_def add_group_def)
  next
    case False
    have "foldl add_group gs (map (Pair d) (ps @ [pos])) = add_group (put_group gs (d, ps)) (d, pos)" using snoc.IH False by simp
    also have "\<dots> = put_group gs (d, ps @ [pos])" by (auto simp: put_group_def add_group_def)
    finally show ?thesis by simp
  qed
qed simp

lemma put_groups: "groups_ok gs \<Longrightarrow> foldl put_group hs gs = foldl add_group hs (group_tokens gs)"
proof (induction gs arbitrary: hs)
  case (Cons g gs)
  obtain d ps where g: "g = (d, ps)" by (cases g)
  have "ps \<noteq> []" "groups_ok gs" using Cons.prems by (auto simp: groups_ok_def g)
  then show ?case using Cons.IH put_group_tokens [of ps hs d] by (simp add: g)
qed simp

lemma filter_group_tokens: "filter (\<lambda>t. fst t = d) (group_tokens gs) = group_tokens (filter (\<lambda>g. fst g = d) gs)"
proof (induction gs)
  case (Cons g gs)
  then show ?case by (cases g) (auto simp: filter_empty_conv filter_id_conv)
qed simp

lemma sorted_group_tokens: "sorted (map fst gs) \<Longrightarrow> sorted (map fst (group_tokens gs))"
proof (induction gs)
  case (Cons g gs)
  obtain d ps where g: "g = (d, ps)" by (cases g)
  have "d \<le> fst t" if "t \<in> set (group_tokens gs)" for t using Cons.prems that by (auto simp: g group_tokens_def)
  moreover have "sorted (map (fst \<circ> Pair d) ps)" by (induction ps) auto
  ultimately show ?case using Cons by (auto simp: g sorted_append)
qed simp

lemma set_group_tokens: "set (group_tokens gs) = (\<Union>(d, ps) \<in> set gs. Pair d ` set ps)"
  by (auto simp: group_tokens_def)

lemma mset_group_tokens:
  assumes "mset gs = mset hs"
  shows "mset (group_tokens gs) = mset (group_tokens hs)"
proof -
  have "mset (group_tokens gs) = sum_mset (image_mset (\<lambda>(d, ps). mset (map (Pair d) ps)) (mset gs))" for gs
    by (induction gs) (auto split: prod.splits)
  then show ?thesis using assms by simp
qed

lemma sort_group_tokens: "group_tokens (sort_key fst gs) = sort_key fst (group_tokens gs)"
proof (rule properties_for_sort_key [symmetric])
  show "mset (group_tokens (sort_key fst gs)) = mset (group_tokens gs)" by (rule mset_group_tokens) simp
  show "filter (\<lambda>x. fst k = fst x) (group_tokens (sort_key fst gs)) = filter (\<lambda>x. fst k = fst x) (group_tokens gs)" for k
    by (simp add: eq_commute [of "fst k"] filter_group_tokens sort_key_stable)
  show "sorted (map fst (group_tokens (sort_key fst gs)))" by (rule sorted_group_tokens) simp
qed

subsection \<open>SortByDocid\<close>

text \<open>The offset of a group's positions is the sum of the frequencies before it.\<close>

lemma position_offsets_nth:
  "k < length fs \<Longrightarrow> position_offsets fs r ! k = r + sum_list (take k fs)"
  by (induction fs r arbitrary: k rule: position_offsets.induct) (auto simp: nth_Cons' take_Cons' add.assoc)

lemma sum_list_of_nat: "sum_list (map (\<lambda>x. of_nat (f x)) xs) = (of_nat (sum_list (map f xs)) :: u32)"
  by (induction xs) simp_all

lemma coalesce_groups_eq:
  assumes len: "length (concat (map snd gs)) < 2 ^ 32" and "\<forall>k \<in> set order. k < length gs"
  shows "coalesce_groups (map fst gs) (map (\<lambda>g. of_nat (length (snd g))) gs) (if hp then concat (map snd gs) else []) hp order (group_arrays hp acc) =
    Inr (group_arrays hp (foldl put_group acc (map (\<lambda>k. gs ! k) order)))"
  using assms(2)
proof (induction order arbitrary: acc)
  case (Cons k order)
  have k: "k < length gs" using Cons.prems by simp
  obtain d ps where g: "gs ! k = (d, ps)" by (cases "gs ! k")
  have gs: "gs = take k gs @ (d, ps) # drop (Suc k) gs" using k g by (metis id_take_nth_drop)
  have cc: "concat (map snd gs) = concat (map snd (take k gs)) @ ps @ concat (map snd (drop (Suc k) gs))"
    using arg_cong [OF gs, of "\<lambda>gs. concat (map snd gs)"] by simp
  define off where "off = length (concat (map snd (take k gs)))"
  have lens: "off + length ps \<le> length (concat (map snd gs))" by (simp add: cc off_def del: length_concat)
  have "position_offsets (map (\<lambda>g. of_nat (length (snd g))) gs) 0 ! k = (of_nat off :: u32)"
    using k by (simp add: position_offsets_nth take_map sum_list_of_nat off_def length_concat comp_def)
  then have po: "unat (position_offsets (map (\<lambda>g. of_nat (length (snd g)) :: u32) gs) 0 ! k) = off"
    using lens len by simp
  have fl: "unat (of_nat (length ps) :: u32) = length ps" using lens len by simp
  have sl: "subslice (concat (map snd gs)) off (length ps) = Inr ps"
    using lens unfolding subslice_def by (simp add: cc off_def del: length_concat)
  have "coalesce_groups (map fst gs) (map (\<lambda>g. of_nat (length (snd g))) gs) (if hp then concat (map snd gs) else []) hp (k # order) (group_arrays hp acc) =
      coalesce_groups (map fst gs) (map (\<lambda>g. of_nat (length (snd g))) gs) (if hp then concat (map snd gs) else []) hp order (group_arrays hp (put_group acc (d, ps)))"
  proof (cases "acc \<noteq> [] \<and> fst (last acc) = d")
    case True
    have "map fst acc = map fst (butlast acc) @ [d]" "concat (map snd acc) = concat (map snd (butlast acc)) @ snd (last acc)"
      using True concat_map_last [of acc "\<lambda>g. [fst g]"] concat_map_last [of acc snd] by simp_all
    then show ?thesis using k g True po fl sl
      by (cases hp) (simp_all add: group_arrays_def put_group_def last_map map_butlast [symmetric])
  next
    case False
    then show ?thesis using k g po fl sl by (cases hp) (auto simp: group_arrays_def put_group_def last_map)
  qed
  also have "\<dots> = Inr (group_arrays hp (foldl put_group (put_group acc (d, ps)) (map (\<lambda>k. gs ! k) order)))" using Cons by simp
  finally show ?case by (simp add: g)
qed simp

lemma sort_key_nth: "map (\<lambda>i. xs ! i) (sort_key (\<lambda>i. map f xs ! i) [0..<length xs]) = sort_key f xs"
proof (rule properties_for_sort_key [symmetric])
  let ?order = "sort_key (\<lambda>i. map f xs ! i) [0..<length xs]"
  have fe: "map f (map (\<lambda>i. xs ! i) ?order) = map (\<lambda>i. map f xs ! i) ?order" by simp
  have "mset (map (\<lambda>i. xs ! i) ?order) = mset (map (\<lambda>i. xs ! i) [0..<length xs])" by (simp only: mset_map mset_sort)
  then show "mset (map (\<lambda>i. xs ! i) ?order) = mset xs" by (simp only: map_nth)
  show "sorted (map f (map (\<lambda>i. xs ! i) ?order))" unfolding fe by simp
  show "filter (\<lambda>x. f k = f x) (map (\<lambda>i. xs ! i) ?order) = filter (\<lambda>x. f k = f x) xs" for k
  proof -
    have "filter (\<lambda>x. f k = f x) (map (\<lambda>i. xs ! i) ?order) = map (\<lambda>i. xs ! i) (filter (\<lambda>i. f k = f (xs ! i)) ?order)"
      by (simp add: filter_map comp_def)
    also have "filter (\<lambda>i. f k = f (xs ! i)) ?order = filter (\<lambda>i. map f xs ! i = f k) ?order" by (rule filter_cong) auto
    also have "\<dots> = filter (\<lambda>i. map f xs ! i = f k) [0..<length xs]" by (rule sort_key_stable)
    also have "\<dots> = filter (\<lambda>i. f k = f (xs ! i)) [0..<length xs]" by (rule filter_cong) auto
    also have "map (\<lambda>i. xs ! i) \<dots> = filter (\<lambda>x. f k = f x) (map (\<lambda>i. xs ! i) [0..<length xs])" by (simp add: filter_map comp_def)
    finally show ?thesis by (simp only: map_nth)
  qed
qed

lemma SortByDocid_eq:
  assumes "length (concat (map snd gs)) < 2 ^ 32" and "groups_ok gs"
  shows "SortByDocid (map fst gs) (map (\<lambda>g. of_nat (length (snd g))) gs) (if hp then concat (map snd gs) else []) hp =
    Inr (group_arrays hp (doc_groups (sort_key fst (group_tokens gs))))"
proof -
  let ?order = "sort_key (\<lambda>i. map fst gs ! i) [0..<length gs]"
  have "coalesce_groups (map fst gs) (map (\<lambda>g. of_nat (length (snd g))) gs) (if hp then concat (map snd gs) else []) hp ?order (group_arrays hp []) =
      Inr (group_arrays hp (foldl put_group [] (map (\<lambda>k. gs ! k) ?order)))"
    by (rule coalesce_groups_eq [OF assms(1)]) simp
  also have "map (\<lambda>k. gs ! k) ?order = sort_key fst gs" by (rule sort_key_nth)
  also have "foldl put_group [] (sort_key fst gs) = doc_groups (sort_key fst (group_tokens gs))"
    using assms(2) by (subst put_groups) (auto simp: groups_ok_def sort_group_tokens doc_groups_def)
  finally show ?thesis by (cases hp) (simp_all add: SortByDocid_def group_arrays_def)
qed


subsection \<open>A term and its chain\<close>

definition term_arrays :: "bool \<Rightarrow> doc_pos list \<Rightarrow> u32 list \<times> u32 list \<times> u32 list" where
  "term_arrays hp ts = group_arrays hp (doc_groups (sort_key fst ts))"

definition term_holds :: "bool \<Rightarrow> spimi_term \<Rightarrow> chain_view \<Rightarrow> doc_pos list \<Rightarrow> bool" where
  "term_holds hp t c ts =
     (ts \<noteq> [] \<and> handle c = (t_head t, t_w t, t_level t) \<and> t_head t \<noteq> kNoChain \<and> cv_bytes c = token_bytes hp None ts \<and>
      t_ntok t = of_nat (length ts) \<and> t_started t \<and> t_cur_docid t = fst (last ts) \<and> t_sorted t = sorted (map fst ts))"

text \<open>The postings as the in-memory drain hands them over.\<close>

definition deliver_mem :: "bool \<Rightarrow> bool \<Rightarrow> term_bytes \<Rightarrow> doc_pos list \<Rightarrow> term_postings" where
  "deliver_mem hp allow_stream trm ts =
     (case term_arrays hp ts of (ds, fs, ps) \<Rightarrow>
        if allow_stream \<and> hp \<and> sorted (map fst ts) \<and> 65536 \<le> length ts \<and> kSlimDfThreshold \<le> length ds
        then (new_postings trm)\<lparr>tp_docids := ds, tp_freqs := fs, tp_pos_pump := Some ps, tp_pos_total := of_nat (length ps)\<rparr>
        else (new_postings trm)\<lparr>tp_docids := ds, tp_freqs := fs, tp_positions_flat := ps\<rparr>)"

lemma map_snd_group_tokens: "map snd (group_tokens gs) = concat (map snd gs)"
  by (induction gs) (auto simp: comp_def)

lemma doc_groups_positions: "concat (map snd (doc_groups ts)) = map snd ts"
  using doc_groups_tokens [of ts] map_snd_group_tokens [of "doc_groups ts"] by simp

lemma to_postings_eq:
  assumes wf: "pool_wf p" and ok: "chain_ok p c" and h: "term_holds hp t c ts"
  shows "to_postings p hp trm t allow_stream = Inr (deliver_mem hp allow_stream trm ts)"
proof -
  have t: "ts \<noteq> []" "cv_head c = t_head t" "cv_w c = t_w t" "t_head t \<noteq> kNoChain" "cv_bytes c = token_bytes hp None ts"
    "t_ntok t = of_nat (length ts)" "t_sorted t = sorted (map fst ts)" using h by (auto simp: term_holds_def handle_def)
  have "length ts \<le> unat (sw_cur (t_w t))"
    using token_bytes_length [of ts hp None] chain_length [OF wf ok] by (simp add: t)
  then have lt: "length ts < 2 ^ 32" using unat_u32_less [of "sw_cur (t_w t)"] by simp
  then have n: "unat (t_ntok t) = length ts" by (simp add: t(6))
  then have nz: "t_ntok t \<noteq> 0" using t(1) by auto
  define cu where "cu = cursor_new (t_head t) (ucast (sw_cur (t_w t)))"
  have rd: "reads p c cu (token_bytes hp None ts @ [])"
    using reads_new [OF wf ok, of "ucast (sw_cur (t_w t))"] chain_length [OF wf ok] by (simp add: cu_def t)
  have dec: "decode_tokens p keep (length ts) 0 cu ([], [], []) = Inr (group_arrays keep (doc_groups ts))" if "keep \<Longrightarrow> hp" for keep
  proof -
    have "group_arrays keep [] = ([], [], [])" by (simp add: group_arrays_def)
    then show ?thesis
      using decode_tokens_reads [OF wf ok, where keep = keep and hp = hp and gs = "[]" and prev = 0 and ts = ts and cu = cu and more_bytes = "[]"] that rd
      by (simp add: doc_base_def doc_groups_def)
  qed
  define stream_pos where "stream_pos = (allow_stream \<and> hp \<and> sorted (map fst ts) \<and> 65536 \<le> length ts)"
  have st: "(allow_stream \<and> hp \<and> t_sorted t \<and> t_ntok t \<ge> kStreamPositionsTokenThreshold) = stream_pos"
    unfolding stream_pos_def t(7) word_le_nat_alt n by (auto simp: kStreamPositionsTokenThreshold_def)
  obtain ds fs ps where g: "group_arrays True (doc_groups ts) = (ds, fs, ps)" by (cases "group_arrays True (doc_groups ts)")
  have ps: "ps = map snd ts" using g doc_groups_positions [of ts] by (simp add: group_arrays_def)
  have gk: "group_arrays keep (doc_groups ts) = (ds, fs, if keep then ps else [])" for keep using g by (auto simp: group_arrays_def)
  have body: "to_postings p hp trm t allow_stream =
      and_then (decode_tokens p (hp \<and> \<not> stream_pos) (length ts) 0 cu ([], [], [])) (\<lambda>(docids, freqs, positions).
      if stream_pos \<and> length docids \<ge> kSlimDfThreshold then
        and_then (chain_positions p (length ts) cu) (\<lambda>ps.
        Inr ((new_postings trm)\<lparr>tp_docids := docids, tp_freqs := freqs, tp_pos_pump := Some ps, tp_pos_total := ucast (t_ntok t)\<rparr>))
      else if stream_pos then
        and_then (chain_positions p (length ts) cu) (\<lambda>ps.
        Inr ((new_postings trm)\<lparr>tp_docids := docids, tp_freqs := freqs, tp_positions_flat := ps\<rparr>))
      else if \<not> t_sorted t then
        and_then (SortByDocid docids freqs positions hp) (\<lambda>(docids, freqs, positions).
        Inr ((new_postings trm)\<lparr>tp_docids := docids, tp_freqs := freqs, tp_positions_flat := positions\<rparr>))
      else Inr ((new_postings trm)\<lparr>tp_docids := docids, tp_freqs := freqs, tp_positions_flat := positions\<rparr>))"
    using nz t(4) unfolding to_postings_def Let_def st n cu_def by simp
  have dk: "decode_tokens p (hp \<and> \<not> stream_pos) (length ts) 0 cu ([], [], []) = Inr (ds, fs, if hp \<and> \<not> stream_pos then ps else [])"
    by (subst dec) (auto simp: gk)
  note body = body [unfolded dk and_then_Inr case_prod_conv]
  show ?thesis
  proof (cases "sorted (map fst ts)")
    case True
    then have srt: "sort_key fst ts = ts" by (intro properties_for_sort_key) simp_all
    have ta: "term_arrays hp ts = (ds, fs, if hp then ps else [])" by (simp add: term_arrays_def srt gk)
    show ?thesis
    proof (cases stream_pos)
      case s: True
      then have hp by (simp add: stream_pos_def)
      then have cp: "chain_positions p (length ts) cu = Inr ps" using chain_positions_reads [OF wf ok, of cu None ts "[]"] rd by (simp add: ps)
      have "(ucast (t_ntok t) :: u64) = of_nat (length ps)"
        using n by (simp add: word_unat_eq_iff ps unat_of_nat take_bit_nat_eq_self order_less_trans [OF lt])
      then show ?thesis using body s cp ta \<open>hp\<close> by (simp add: deliver_mem_def stream_pos_def)
    next
      case False
      then show ?thesis using body ta True t(7) by (auto simp: deliver_mem_def stream_pos_def)
    qed
  next
    case False
    then have "\<not> stream_pos" by (simp add: stream_pos_def)
    moreover have "SortByDocid ds fs (if hp then ps else []) hp = Inr (term_arrays hp ts)"
      using SortByDocid_eq [of "doc_groups ts" hp] doc_groups_tokens [of ts] lt gk [of hp]
      by (simp add: term_arrays_def group_arrays_def doc_groups_positions split: if_splits)
    ultimately show ?thesis using body False t(7) by (auto simp: deliver_mem_def split: prod.splits)
  qed
qed

end
