(* ===== verification/Spec2Isabelle.thy ===== *)
theory Spec2Isabelle
  imports Container_Correct Prx_Pod_Correct Frq_Prelude_Correct Per_Index_Meta Tail_Meta_Region Bsbf Batch_Range_Fetcher
    Docid_Set_Ops Term_Patterns Sampled_Term_Index Logical_Index_Directory Dict_Block_Directory
    Tail_Pointer Bootstrap_Header Stats_Block Norms_Pod Null_Bitmap Spill_Merge_Correct Token_Chains
begin

text \<open>
  SNII, a segment-level inverted index stored in one container file: a model of the C++ library under
  \<open>src/core\<close> and the theorems that make it correct.

  \<^bold>\<open>The program.\<close> Tokens enter the term buffer (\<open>writer/spimi_term_buffer\<close>), which keeps one chain of bytes per
  term in an arena (\<open>writer/compact_posting_pool\<close>) and spills sorted runs to files that are merged at the end
  (\<open>writer/spill_run_codec\<close>). The index writer (\<open>writer/logical_index_writer\<close>) takes the sorted terms and builds
  the posting regions, the DICT blocks, the sampled term index, the bloom filter and the meta block of one logical
  index; the compound writer (\<open>writer/snii_compound_writer\<close>) lays any number of indexes out in a container behind a
  bootstrap header and in front of the tail meta region and the tail pointer. Reading goes the other way: the
  segment reader opens the tail, the index reader looks terms up through filter, sampled index and DICT block, the
  posting readers fetch ranges in batches, and the queries combine document ids and positions.

  \<^bold>\<open>Layers and theories.\<close> The paths are relative to \<open>src/core/src\<close>; most have a header of the same name.

  \<^item> Foundations. \<open>Prelude\<close> (words, status codes, \<open>result\<close>), \<open>Varint\<close>, \<open>Byte_Stream\<close> (\<open>encoding/byte_sink\<close>,
    \<open>byte_source\<close>), \<open>Crc32c\<close>, \<open>Pfor\<close>, \<open>Zstd_Codec\<close>, \<open>Section_Framer\<close>, \<open>Std_Search\<close> (binary searches), \<open>Chunks\<close>,
    \<open>Format_Constants\<close>, \<open>Double\<close> (numbers, infinities and not a number), \<open>Host\<close>. The locales \<open>cursor_op\<close> (a reader never leaves its bytes) and \<open>codec\<close> (a reader
    returns what its writer wrote) of \<open>Byte_Stream\<close> are interpreted for every field codec, from single integers to
    dict entries, frames and statistics; \<open>ref_codec\<close> of \<open>Framed_Directory\<close> extends \<open>codec\<close> for the two directories.
  \<^item> Files. \<open>File_Io\<close> (\<open>io/local_file\<close>, with the locales \<open>sound_reader\<close> and \<open>reliable_reader\<close>),
    \<open>Batch_Range_Fetcher\<close>, \<open>Spillable_Byte_Buffer\<close> (with its temporary file and the memory reporter): bytes move in calls
    that may be short, interrupted or fail, and what is not flushed cannot be read back.
  \<^item> Sections of the format (\<open>format/*\<close>). \<open>Bootstrap_Header\<close>, \<open>Tail_Pointer\<close>, \<open>Stats_Block\<close>, \<open>Norms_Pod\<close>,
    \<open>Null_Bitmap\<close>, \<open>Dict_Block_Directory\<close>, \<open>Logical_Index_Directory\<close>, \<open>Tail_Meta_Region\<close>, \<open>Per_Index_Meta\<close>,
    \<open>Sampled_Term_Index\<close>, \<open>Bsbf\<close>, \<open>Front_Coding\<close>, \<open>Dict_Entry\<close>, \<open>Dict_Block\<close> with \<open>Dict_Block_Correct\<close>, \<open>Pfor_Runs\<close>,
    \<open>Frq_Pod\<close>, \<open>Frq_Prelude\<close> with \<open>Frq_Prelude_Correct\<close>, \<open>Prx_Pod\<close> with \<open>Prx_Pod_Correct\<close>: every section reads back
    to what it was built from, single-byte corruption is detected where the format promises it, sizes are bounded.
  \<^item> Reading. \<open>Logical_Index_Reader\<close> with \<open>Logical_Index_Correct\<close> (the locale \<open>term_dictionary\<close> states what a
    dictionary promises and is interpreted for the reader), \<open>Windowed_Posting\<close>, \<open>Docid_Postings\<close>, \<open>Stored_Posting\<close>
    (what bytes store a posting, and that every read path returns it).
  \<^item> Queries. \<open>Docid_Set_Ops\<close> (the locale \<open>docid_sets\<close>), \<open>Term_Patterns\<close>, \<open>Docid_Queries\<close>, \<open>Phrase_Query\<close>, with
    \<open>Query_Correct\<close>, \<open>Conjunction_Correct\<close> and \<open>Phrase_Correct\<close>: on a file that stores a content, every query returns
    the documents the content determines.
  \<^item> Writing. \<open>Logical_Index_Writer\<close> and \<open>Segment\<close> (\<open>writer/snii_compound_writer\<close>, \<open>reader/snii_segment_reader\<close>), with
    \<open>Written_Posting\<close> (an entry stores its term), \<open>Written_Index\<close> (the loop over the terms), \<open>Written_Image\<close>,
    \<open>Container_Written\<close> and \<open>Container_Correct\<close>: any list of valid inputs is written, the container opens, and the
    queries on it answer as the inputs determine.
  \<^item> Accumulating. \<open>Compact_Posting_Pool\<close> with \<open>Posting_Chains\<close> (chains as disjoint sets of slices in one memory, each
    operation with its frame), \<open>Spill_Run\<close> with \<open>Spill_Run_Correct\<close>, \<open>Spill_Merge\<close> with \<open>Spill_Merge_Correct\<close>,
    \<open>Spimi_Term_Buffer\<close> with \<open>Token_Chains\<close> (a term's chain decodes to its tokens grouped and sorted by document).

  \<^bold>\<open>How the code is modelled.\<close> A class is a record, a method a function from the old state to a result with the new
  one, a status an error value, an assertion or an access outside a buffer the value \<open>OutOfBounds\<close>. Integers keep
  their width and wrap as in C++; only counts of things in memory are natural numbers. Loops are recursive functions
  with a termination proof, so no definition needs fuel.

  \<^bold>\<open>Parameters.\<close> What is not in the sources is an argument: the zstd library, the hash XXH64, the floating-point
  size of the filter, the environment and the processor (\<open>host\<close>), CRoaring, \<open>std::regex\<close>, the permutation
  \<open>std::sort\<close> leaves, the results of \<open>pread\<close>, \<open>read\<close> and \<open>write\<close>, and free disk space (\<open>run_io\<close>, \<open>spimi_env\<close>).
  Theorems name what is documented of them as hypotheses, and their witnesses instantiate them.

  \<^bold>\<open>Bounds.\<close> The composed theorems ask for inputs of a total weight of at most \<open>2^40\<close>, at most \<open>2^16\<close> indexes, a
  target block size of at most \<open>2^24\<close> and at most \<open>2^20\<close> positions per window: enough to show that no 64-bit offset
  and no 32-bit length of the format wraps and that the caps of the readers are respected. The arena theorem has
  no bound: its exception is a branch of the statement.

  \<^bold>\<open>Not modelled.\<close> Scoring (\<open>query/bm25_scorer\<close>, \<open>query/scoring_query\<close>) is floating-point arithmetic with pruning by
  computed bounds. The query profile and the metered reader count what happens without influencing it. The
  statistics provider only returns stored numbers. The S3 store, the benchmarks and their adapters drive other
  systems. Of the term buffer, the operations are all modelled; proved are the arena, the decoding and sorting of
  chains, the run files and the merge.
\<close>

end
